(* ===== verification/Prelude.thy ===== *)
theory Prelude
  imports Main "HOL-Library.Word"
begin

unbundle bit_operations_syntax

text \<open>
  Shared vocabulary of the development.

  The C++ code reports failure by throwing; the model makes every throw a value.
  A fallible operation returns \<open>exn + 'a\<close>: \<open>Inl\<close> is the exception that leaves the
  function, \<open>Inr\<close> the value it returns. \<open>OutOfBounds\<close> stands for an access past the
  end of a \<open>std::vector\<close> and \<open>UndefinedShift\<close> for a shift by 64 or more (both undefined
  behaviour in C++), \<open>DivisionByZero\<close> for an integer division by zero, \<open>SignedOverflow\<close> for a signed result out of range,
  \<open>Diverges\<close> for a loop that never
  ends. Messages that the code builds with \<open>std::to_string\<close> are kept as their literal
  prefix.

  \<open>bindE\<close> runs one fallible step after another, \<open>mapE\<close> and \<open>foldE\<close> are the two loop
  shapes (build a vector, thread a state), and \<open>returns m P\<close> says that \<open>m\<close> does not throw
  and its value satisfies \<open>P\<close>: the total-correctness predicate all component lemmas are
  stated with.

  A pseudo-random generator (\<open>oc::PRNG\<close> of cryptoTools, not part of the repository) is a
  parameter: a record of its draw functions over an arbitrary state type.
\<close>

subsection \<open>Exceptions as values\<close>

datatype exn =
    RuntimeError string
  | InvalidArgument string
  | LogicError string
  | OutOfRange string
  | AuthShareMacFailure string
  | AuthShareMacFailure128 string
  | RestartSession string
  | DuplicateEntityPeriod string
  | OutOfBounds
  | UndefinedShift
  | DivisionByZero
  | SignedOverflow
  | Diverges

type_synonym 'a result = "exn + 'a"

named_theorems wp_simps
  \<open>rewrite rules that push \<open>returns\<close> through the sequencing operators\<close>

definition bindE :: "'a result \<Rightarrow> ('a \<Rightarrow> 'b result) \<Rightarrow> 'b result" where
  "bindE m f = (case m of Inl e \<Rightarrow> Inl e | Inr a \<Rightarrow> f a)"

definition throw_if :: "bool \<Rightarrow> exn \<Rightarrow> 'a result \<Rightarrow> 'a result" where
  "throw_if b e m = (if b then Inl e else m)"

definition returns :: "'a result \<Rightarrow> ('a \<Rightarrow> bool) \<Rightarrow> bool" where
  "returns m P \<longleftrightarrow> (\<exists>a. m = Inr a \<and> P a)"

lemma bindE_simps [simp]:
  "bindE (Inl e) f = Inl e"
  "bindE (Inr a) f = f a"
  by (simp_all add: bindE_def)

lemma throw_if_simps [simp]:
  "throw_if True e m = Inl e"
  "throw_if False e m = m"
  by (simp_all add: throw_if_def)

lemma bindE_eq_Inr: "bindE m f = Inr b \<longleftrightarrow> (\<exists>a. m = Inr a \<and> f a = Inr b)"
  by (cases m) auto

lemma bindE_eq_Inl: "bindE m f = Inl e \<longleftrightarrow> m = Inl e \<or> (\<exists>a. m = Inr a \<and> f a = Inl e)"
  by (cases m) auto

lemma bindE_assoc: "bindE (bindE m f) g = bindE m (\<lambda>a. bindE (f a) g)"
  by (cases m) auto

lemma throw_if_eq_Inr: "throw_if b e m = Inr a \<longleftrightarrow> \<not> b \<and> m = Inr a"
  by (simp add: throw_if_def)

lemma returns_Inr [wp_simps, simp]: "returns (Inr a) P = P a"
  by (simp add: returns_def)

lemma returns_Inl [wp_simps, simp]: "returns (Inl e) P = False"
  by (simp add: returns_def)

lemma returns_bindE [wp_simps]: "returns (bindE m f) P = returns m (\<lambda>a. returns (f a) P)"
  by (cases m) auto

lemma returns_throw_if [wp_simps]: "returns (throw_if b e m) P = (\<not> b \<and> returns m P)"
  by (simp add: throw_if_def)

lemma returns_mono: "returns m P \<Longrightarrow> (\<And>a. P a \<Longrightarrow> Q a) \<Longrightarrow> returns m Q"
  by (auto simp: returns_def)

lemma returns_bind_intro:
  "returns m Q \<Longrightarrow> (\<And>a. Q a \<Longrightarrow> returns (f a) P) \<Longrightarrow> returns (bindE m f) P"
  by (auto simp: returns_def)

lemma returns_conj: "returns m P \<Longrightarrow> returns m Q \<Longrightarrow> returns m (\<lambda>a. P a \<and> Q a)"
  by (auto simp: returns_def)

lemma returnsD: "returns m P \<Longrightarrow> m = Inr a \<Longrightarrow> P a"
  by (auto simp: returns_def)

lemma returnsE: "returns m P \<Longrightarrow> (\<And>a. m = Inr a \<Longrightarrow> P a \<Longrightarrow> R) \<Longrightarrow> R"
  by (auto simp: returns_def)

lemma Inr_projr: "\<not> isl r \<Longrightarrow> r = Inr (projr r)"
  by (cases r) simp_all

subsection \<open>Loops\<close>

fun mapE :: "('a \<Rightarrow> 'b result) \<Rightarrow> 'a list \<Rightarrow> 'b list result" where
  "mapE f [] = Inr []"
| "mapE f (x # xs) = bindE (f x) (\<lambda>y. bindE (mapE f xs) (\<lambda>ys. Inr (y # ys)))"

fun foldE :: "('a \<Rightarrow> 's \<Rightarrow> 's result) \<Rightarrow> 'a list \<Rightarrow> 's \<Rightarrow> 's result" where
  "foldE f [] s = Inr s"
| "foldE f (x # xs) s = bindE (f x s) (foldE f xs)"

lemma mapE_Inr: "(\<And>x. x \<in> set xs \<Longrightarrow> f x = Inr (g x)) \<Longrightarrow> mapE f xs = Inr (map g xs)"
  by (induction xs) simp_all

lemma returns_mapE:
  assumes "\<And>x. x \<in> set xs \<Longrightarrow> returns (f x) (Q x)"
  shows "returns (mapE f xs) (\<lambda>ys. list_all2 Q xs ys)"
  using assms
proof (induction xs)
  case (Cons x xs)
  then have "returns (f x) (Q x)" "returns (mapE f xs) (list_all2 Q xs)" by auto
  then show ?case by (auto simp: returns_def)
qed simp

lemma returns_mapE_upt:
  assumes "\<And>i. i < n \<Longrightarrow> returns (f i) (Q i)"
  shows "returns (mapE f [0..<n]) (\<lambda>ys. length ys = n \<and> (\<forall>i<n. Q i (ys ! i)))"
  using returns_mapE [of "[0..<n]" f Q] assms
  by (auto simp: returns_def list_all2_conv_all_nth)

lemma foldE_Nil_fun [simp]: "foldE f [] = Inr"
  by (rule ext) simp

lemma bindE_Inr [simp]: "bindE m Inr = m"
  by (cases m) auto

lemma foldE_append: "foldE f (xs @ ys) s = bindE (foldE f xs s) (foldE f ys)"
proof (induction xs arbitrary: s)
  case (Cons x xs)
  then have "foldE f (xs @ ys) = (\<lambda>s. bindE (foldE f xs s) (foldE f ys))" by blast
  then show ?case by (simp add: bindE_assoc)
qed simp

lemma returns_foldE_upt:
  assumes "I 0 s" and "\<And>i s. i < n \<Longrightarrow> I i s \<Longrightarrow> returns (f i s) (I (Suc i))"
  shows "returns (foldE f [0..<n] s) (I n)"
  using assms
proof (induction n)
  case (Suc n)
  then have "returns (foldE f [0..<n] s) (I n)" by auto
  then show ?case
    using Suc.prems(2) [of n] by (auto simp: foldE_append returns_def)
qed simp

lemma returns_foldE_upt_from:
  assumes "a \<le> n" "I a s" and "\<And>i s. a \<le> i \<Longrightarrow> i < n \<Longrightarrow> I i s \<Longrightarrow> returns (f i s) (I (Suc i))"
  shows "returns (foldE f [a..<n] s) (I n)"
  using assms
proof (induction n)
  case (Suc n)
  show ?case
  proof (cases "a = Suc n")
    case False
    with Suc have "returns (foldE f [a..<n] s) (I n)" by auto
    then show ?thesis
      using Suc.prems False by (auto simp: foldE_append returns_def)
  qed (use Suc in simp)
qed simp

text \<open>A loop that counts down, \<open>for (i = n - 1; i >= 0; --i)\<close>.\<close>

lemma returns_foldE_down:
  assumes "I n s" and "\<And>i s. i < n \<Longrightarrow> I (Suc i) s \<Longrightarrow> returns (f i s) (I i)"
  shows "returns (foldE f (rev [0..<n]) s) (I 0)"
  using assms
proof (induction n arbitrary: s)
  case (Suc n)
  then have "returns (f n s) (I n)" by auto
  with Suc.IH Suc.prems(2) show ?case by (auto simp: returns_def)
qed simp

lemma returns_foldE_list:
  assumes "I [] s"
    and "\<And>ys x zs s. xs = ys @ x # zs \<Longrightarrow> I ys s \<Longrightarrow> returns (f x s) (I (ys @ [x]))"
  shows "returns (foldE f xs s) (I xs)"
proof -
  have "returns (foldE f zs s) (I (ys @ zs))" if "xs = ys @ zs" "I ys s" for ys zs s
    using that
  proof (induction zs arbitrary: ys s)
    case (Cons z zs)
    then have "returns (f z s) (I (ys @ [z]))" using assms(2) by auto
    with Cons.IH [of "ys @ [z]"] Cons.prems(1) show ?case by (auto simp: returns_def)
  qed simp
  with assms(1) show ?thesis by force
qed

text \<open>A loop that appends one element per round and advances a cursor by \<open>c\<close>.\<close>

lemma returns_foldE_build:
  fixes f :: "nat \<Rightarrow> 'a list \<times> nat \<Rightarrow> ('a list \<times> nat) result"
  assumes "\<And>j out. j < n \<Longrightarrow> length out = j \<Longrightarrow>
    returns (f j (out, k + c * j)) (\<lambda>(out', k'). \<exists>y. out' = out @ [y] \<and> k' = k + c * Suc j \<and> Q j y)"
  shows "returns (foldE f [0..<n] ([], k))
    (\<lambda>(out, k'). length out = n \<and> k' = k + c * n \<and> (\<forall>i<n. Q i (out ! i)))"
proof (rule returns_foldE_upt)
  fix i and s :: "'a list \<times> nat"
  assume "i < n"
    and "(\<lambda>(out, k'). length out = i \<and> k' = k + c * i \<and> (\<forall>j<i. Q j (out ! j))) s"
  moreover obtain out k' where "s = (out, k')" by (cases s)
  ultimately show "returns (f i s)
      (\<lambda>(out, k'). length out = Suc i \<and> k' = k + c * Suc i \<and> (\<forall>j<Suc i. Q j (out ! j)))"
    using assms [of i out] by (auto simp: nth_append less_Suc_eq elim!: returns_mono)
qed simp

subsection \<open>Vectors\<close>

definition vec_at :: "'a list \<Rightarrow> nat \<Rightarrow> 'a result" where
  "vec_at xs i = (if i < length xs then Inr (xs ! i) else Inl OutOfBounds)"

lemma returns_vec_at [wp_simps]: "returns (vec_at xs i) P = (i < length xs \<and> P (xs ! i))"
  by (simp add: vec_at_def)

lemma vec_at_Inr [simp]: "i < length xs \<Longrightarrow> vec_at xs i = Inr (xs ! i)"
  by (simp add: vec_at_def)

definition vec_set :: "'a list \<Rightarrow> nat \<Rightarrow> 'a \<Rightarrow> 'a list result" where
  "vec_set xs i x = (if i < length xs then Inr (xs[i := x]) else Inl OutOfBounds)"

lemma returns_vec_set [wp_simps]: "returns (vec_set xs i x) P = (i < length xs \<and> P (xs[i := x]))"
  by (simp add: vec_set_def)

lemma vec_set_Inr [simp]: "i < length xs \<Longrightarrow> vec_set xs i x = Inr (xs[i := x])"
  by (simp add: vec_set_def)

subsection \<open>Pseudo-random generators\<close>

record 'g prng =
  get_u8 :: "'g \<Rightarrow> 8 word \<times> 'g"
  get_u32 :: "'g \<Rightarrow> 32 word \<times> 'g"
  get_u64 :: "'g \<Rightarrow> 64 word \<times> 'g"
  get_block :: "'g \<Rightarrow> 128 word \<times> 'g"

fun draws :: "('g \<Rightarrow> 'a \<times> 'g) \<Rightarrow> nat \<Rightarrow> 'g \<Rightarrow> 'a list \<times> 'g" where
  "draws get 0 g = ([], g)"
| "draws get (Suc n) g =
     (let (x, g1) = get g; (xs, g2) = draws get n g1 in (x # xs, g2))"

lemma length_draws [simp]: "length (fst (draws get n g)) = n"
  by (induction n arbitrary: g) (auto simp: split_beta Let_def)

lemma draws_length: "draws get n g = (xs, g') \<Longrightarrow> length xs = n"
  using length_draws [of get n g] by simp

text \<open>A concrete generator (a counter) for closed examples.\<close>

definition counter_prng :: "nat prng" where
  "counter_prng = \<lparr>get_u8 = (\<lambda>g. (of_nat g, Suc g)), get_u32 = (\<lambda>g. (of_nat g, Suc g)),
     get_u64 = (\<lambda>g. (of_nat g, Suc g)), get_block = (\<lambda>g. (of_nat g, Suc g))\<rparr>"

subsection \<open>Exclusive or over a list\<close>

definition xor_list :: "'a::len word list \<Rightarrow> 'a word" where
  "xor_list xs = fold (XOR) xs 0"

lemma fold_xor: "fold (XOR) xs (a :: 'a::len word) = a XOR fold (XOR) xs 0"
proof (induction xs arbitrary: a)
  case (Cons x xs)
  show ?case
    using Cons.IH [of "x XOR a"] Cons.IH [of "x XOR 0"] by (simp add: xor.assoc xor.commute)
qed simp

lemma xor_list_simps [simp]:
  "xor_list [] = 0"
  "xor_list (x # xs) = x XOR xor_list xs"
  by (simp_all add: xor_list_def fold_xor [of xs x])

lemma xor_list_replicate_0 [simp]: "xor_list (replicate n 0) = 0"
  by (induction n) simp_all

lemma xor_list_map2_xor:
  "length xs = length ys \<Longrightarrow>
   xor_list (map2 (XOR) xs ys) = xor_list xs XOR xor_list ys"
  by (induction xs ys rule: list_induct2) (simp_all add: xor.assoc xor.left_commute)

lemma xor_list_map_and: "xor_list (map (\<lambda>x. x AND c) xs) = xor_list xs AND c"
  by (induction xs) (auto simp: bit_eq_iff bit_simps)

subsection \<open>Words bit by bit\<close>

lemma take_bit_Suc_word: "take_bit (Suc i) (w :: 64 word) = take_bit i w + of_bool (bit w i) * 2 ^ i"
proof -
  have b: "bit (uint w) i = bit w i" by (auto simp: bit_uint_iff dest: bit_imp_le_length)
  have "word_of_int (uint (take_bit (Suc i) w)) = (word_of_int (2 ^ i * of_bool (bit w i) + uint (take_bit i w)) :: 64 word)"
    by (simp only: unsigned_take_bit_eq take_bit_Suc_from_most b)
  then show ?thesis by (simp add: mult.commute add.commute)
qed

lemma ucast_widen_16 [simp]: "(ucast (ucast (x :: 32 word) :: 64 word) :: 16 word) = ucast x"
  by (rule bit_word_eqI) (simp add: bit_ucast_iff)

lemma ucast_widen_32 [simp]: "(ucast (ucast (x :: 32 word) :: 64 word) :: 32 word) = x"
  by (rule bit_word_eqI) (simp add: bit_ucast_iff)

end
