(* ===== verification/Secret_Share.thy ===== *)
theory Secret_Share
  imports Prelude
begin

text \<open>
  Additive secret sharing (\<open>volePSI/MpSecretShare.h\<close>, \<open>volePSI/MpSecretShare.cpp\<close>).

  A shared 64-bit value is one 64-bit share per party, summing to the value modulo 2^64;
  a shared bit is one byte per party, only whose low bit counts, xoring to the bit.
  The interface that multiplication protocols rely on (sub-sharing, local scaling by a
  public value, adding a public constant, all linear in the opened value) is the locale
  \<open>additive_sharing\<close>; both share types are interpretations of it.
\<close>

subsection \<open>Shared 64-bit values\<close>

record SharedU64 =
  u64_shares :: "64 word list"

definition u64_zero :: "nat \<Rightarrow> SharedU64" where
  "u64_zero N = \<lparr>u64_shares = replicate N 0\<rparr>"

definition u64_N :: "SharedU64 \<Rightarrow> nat" where
  "u64_N x = length (u64_shares x)"

definition u64_reconstruct :: "SharedU64 \<Rightarrow> 64 word" where
  "u64_reconstruct x = fold (+) (u64_shares x) 0"

definition shareU64 :: "'g prng \<Rightarrow> nat \<Rightarrow> 64 word \<Rightarrow> 'g \<Rightarrow> (SharedU64 \<times> 'g) result" where
  "shareU64 G N value g =
     throw_if (N < 2) (RuntimeError ''shareU64: N must be >= 2'')
       (let (rs, g') = draws (get_u64 G) (N - 1) g;
            accum = fold (+) rs 0
        in Inr (\<lparr>u64_shares = (value - accum) # rs\<rparr>, g'))"

definition addShared :: "SharedU64 \<Rightarrow> SharedU64 \<Rightarrow> SharedU64 result" where
  "addShared a b =
     throw_if (u64_N a \<noteq> u64_N b) (RuntimeError ''addShared: N mismatch'')
       (Inr \<lparr>u64_shares = map2 (+) (u64_shares a) (u64_shares b)\<rparr>)"

definition subShared :: "SharedU64 \<Rightarrow> SharedU64 \<Rightarrow> SharedU64 result" where
  "subShared a b =
     throw_if (u64_N a \<noteq> u64_N b) (RuntimeError ''subShared: N mismatch'')
       (Inr \<lparr>u64_shares = map2 (-) (u64_shares a) (u64_shares b)\<rparr>)"

text \<open>Party 0 absorbs the constant; with no party the write is out of bounds.\<close>

definition addConst :: "SharedU64 \<Rightarrow> 64 word \<Rightarrow> SharedU64 result" where
  "addConst a c =
     (case u64_shares a of
        [] \<Rightarrow> Inl OutOfBounds
      | s # ss \<Rightarrow> Inr \<lparr>u64_shares = (s + c) # ss\<rparr>)"

definition mulConst :: "SharedU64 \<Rightarrow> 64 word \<Rightarrow> SharedU64" where
  "mulConst a c = \<lparr>u64_shares = map (\<lambda>s. s * c) (u64_shares a)\<rparr>"

subsection \<open>Shared bits\<close>

record SharedBit =
  bit_shares :: "8 word list"

definition bit_zero :: "nat \<Rightarrow> SharedBit" where
  "bit_zero N = \<lparr>bit_shares = replicate N 0\<rparr>"

definition bit_N :: "SharedBit \<Rightarrow> nat" where
  "bit_N b = length (bit_shares b)"

definition bit_reconstruct :: "SharedBit \<Rightarrow> 8 word" where
  "bit_reconstruct b = fold (XOR) (bit_shares b) 0 AND 1"

definition shareBit :: "'g prng \<Rightarrow> nat \<Rightarrow> 8 word \<Rightarrow> 'g \<Rightarrow> (SharedBit \<times> 'g) result" where
  "shareBit G N value g =
     throw_if (N < 2) (RuntimeError ''shareBit: N must be >= 2'')
       (let (rs, g') = draws (get_u8 G) (N - 1) g;
            bs = map (\<lambda>r. r AND 1) rs;
            accum = fold (XOR) bs 0
        in Inr (\<lparr>bit_shares = ((value AND 1) XOR accum) # bs\<rparr>, g'))"

definition xorShared :: "SharedBit \<Rightarrow> SharedBit \<Rightarrow> SharedBit result" where
  "xorShared a b =
     throw_if (bit_N a \<noteq> bit_N b) (RuntimeError ''xorShared: N mismatch'')
       (Inr \<lparr>bit_shares = map2 (\<lambda>s t. (s XOR t) AND 1) (bit_shares a) (bit_shares b)\<rparr>)"

definition xorConst :: "SharedBit \<Rightarrow> 8 word \<Rightarrow> SharedBit result" where
  "xorConst a c =
     (case bit_shares a of
        [] \<Rightarrow> Inl OutOfBounds
      | s # ss \<Rightarrow> Inr \<lparr>bit_shares = ((s XOR (c AND 1)) AND 1) # ss\<rparr>)"

text \<open>The plaintext bit behind a sharing.\<close>

definition bval :: "SharedBit \<Rightarrow> bool" where
  "bval b \<longleftrightarrow> bit (bit_reconstruct b) 0"

subsection \<open>Reconstruction is linear\<close>

lemma fold_plus_eq_sum_list: "fold (+) xs (a :: 64 word) = a + sum_list xs"
  by (induction xs arbitrary: a) (simp_all add: add.assoc add.left_commute)

lemma u64_reconstruct_sum: "u64_reconstruct x = sum_list (u64_shares x)"
  by (simp add: u64_reconstruct_def fold_plus_eq_sum_list)

lemma sum_list_map2_add:
  "length xs = length ys \<Longrightarrow>
   sum_list (map2 (+) xs ys) = sum_list xs + (sum_list ys :: 'a::comm_monoid_add)"
  by (induction xs ys rule: list_induct2) (simp_all add: ac_simps)

lemma sum_list_map2_diff:
  "length xs = length ys \<Longrightarrow>
   sum_list (map2 (-) xs ys) = sum_list xs - (sum_list ys :: 'a::ab_group_add)"
  by (induction xs ys rule: list_induct2) (simp_all add: algebra_simps)

lemma u64_zero_simps [simp]: "u64_N (u64_zero N) = N" "u64_reconstruct (u64_zero N) = 0"
  by (simp_all add: u64_zero_def u64_N_def u64_reconstruct_sum sum_list_replicate)

lemma shareU64_wp [wp_simps]:
  "returns (shareU64 G N v g) P \<longleftrightarrow>
   2 \<le> N \<and> P (\<lparr>u64_shares = (v - sum_list (fst (draws (get_u64 G) (N - 1) g)))
                 # fst (draws (get_u64 G) (N - 1) g)\<rparr>, snd (draws (get_u64 G) (N - 1) g))"
  by (simp add: shareU64_def wp_simps split_beta Let_def fold_plus_eq_sum_list not_less)

lemma shareU64_returns:
  "2 \<le> N \<Longrightarrow> returns (shareU64 G N v g) (\<lambda>(x, g'). u64_N x = N \<and> u64_reconstruct x = v)"
  by (simp add: wp_simps u64_N_def u64_reconstruct_sum)

lemma addShared_returns:
  "u64_N a = u64_N b \<Longrightarrow>
   returns (addShared a b)
     (\<lambda>c. u64_N c = u64_N b \<and> u64_reconstruct c = u64_reconstruct a + u64_reconstruct b)"
  by (simp add: addShared_def u64_N_def u64_reconstruct_sum sum_list_map2_add)

lemma subShared_returns:
  "u64_N a = u64_N b \<Longrightarrow>
   returns (subShared a b)
     (\<lambda>c. u64_N c = u64_N b \<and> u64_reconstruct c = u64_reconstruct a - u64_reconstruct b)"
  by (simp add: subShared_def u64_N_def u64_reconstruct_sum sum_list_map2_diff)

lemma addConst_returns:
  "0 < u64_N a \<Longrightarrow>
   returns (addConst a c)
     (\<lambda>b. u64_N b = u64_N a \<and> u64_reconstruct b = u64_reconstruct a + c)"
  by (auto simp: addConst_def u64_N_def u64_reconstruct_sum ac_simps split: list.splits)

lemma mulConst_N [simp]: "u64_N (mulConst a c) = u64_N a"
  by (simp add: mulConst_def u64_N_def)

lemma mulConst_reconstruct [simp]: "u64_reconstruct (mulConst a c) = u64_reconstruct a * c"
  by (simp add: mulConst_def u64_reconstruct_sum sum_list_mult_const)

subsection \<open>Opened bits\<close>

lemma bit_reconstruct_xor_list: "bit_reconstruct b = xor_list (bit_shares b) AND 1"
  by (simp add: bit_reconstruct_def xor_list_def)

lemma bval_xor_list: "bval b = bit (xor_list (bit_shares b)) 0"
  by (simp add: bval_def bit_reconstruct_xor_list bit_simps)

lemma bit_reconstruct_bval: "bit_reconstruct b = of_bool (bval b)"
  by (rule bit_word_eqI) (auto simp: bval_xor_list bit_reconstruct_xor_list bit_simps)

lemma bit_0_xor_list_mask: "bit (xor_list (map (\<lambda>x. x AND 1) xs)) 0 = bit (xor_list xs) (0::nat)"
  by (simp add: xor_list_map_and bit_simps)

lemma xorShared_mask: "map2 (\<lambda>s t. (s XOR t) AND 1) xs ys = map (\<lambda>s. s AND 1) (map2 (XOR) xs ys)"
  for xs ys :: "8 word list"
  by (simp add: case_prod_beta' comp_def)

lemma bit_zero_simps [simp]: "bit_N (bit_zero N) = N" "bval (bit_zero N) = False"
  by (simp_all add: bit_zero_def bit_N_def bval_xor_list)

lemma shareBit_returns:
  "2 \<le> N \<Longrightarrow> returns (shareBit G N v g) (\<lambda>(b, g'). bit_N b = N \<and> bval b = bit v 0)"
  by (simp add: shareBit_def wp_simps split_beta Let_def bit_N_def bval_xor_list
      flip: xor_list_def) (auto simp: bit_simps)

lemma xorShared_returns:
  "bit_N a = bit_N b \<Longrightarrow>
   returns (xorShared a b) (\<lambda>c. bit_N c = bit_N b \<and> bval c = (bval a \<noteq> bval b))"
  unfolding xorShared_def xorShared_mask
  by (simp add: bit_N_def bval_xor_list xor_list_map_and xor_list_map2_xor bit_simps del: map_map)

lemma xorConst_returns:
  "0 < bit_N a \<Longrightarrow>
   returns (xorConst a c) (\<lambda>b. bit_N b = bit_N a \<and> bval b = (bval a \<noteq> bit c 0))"
  by (auto simp: xorConst_def bit_N_def bval_xor_list bit_simps split: list.splits)

subsection \<open>The interface of an additive sharing\<close>

text \<open>
  What a multiplication protocol needs of a sharing over a commutative ring: a party count,
  an opening into the ring, local addition and subtraction, scaling by a public value and
  adding a public value, each total on sharings of equal party count and linear in the
  opening. \<open>reveal\<close> is what the parties broadcast (a machine value); \<open>pub\<close> reads it as a
  ring element.
\<close>

locale additive_sharing =
  fixes parties :: "'s \<Rightarrow> nat"
    and reveal :: "'s \<Rightarrow> 'p"
    and pub :: "'p \<Rightarrow> 'r::comm_ring_1"
    and add :: "'s \<Rightarrow> 's \<Rightarrow> 's result"
    and sub :: "'s \<Rightarrow> 's \<Rightarrow> 's result"
    and scale :: "'s \<Rightarrow> 'p \<Rightarrow> 's"
    and add_pub :: "'s \<Rightarrow> 'p \<Rightarrow> 's result"
    and mul_pub :: "'p \<Rightarrow> 'p \<Rightarrow> 'p"
  assumes add_law: "parties a = parties b \<Longrightarrow>
      returns (add a b) (\<lambda>c. parties c = parties b \<and> pub (reveal c) = pub (reveal a) + pub (reveal b))"
    and sub_law: "parties a = parties b \<Longrightarrow>
      returns (sub a b) (\<lambda>c. parties c = parties b \<and> pub (reveal c) = pub (reveal a) - pub (reveal b))"
    and scale_law: "parties (scale a (reveal b)) = parties a"
      "pub (reveal (scale a (reveal b))) = pub (reveal a) * pub (reveal b)"
    and add_pub_law: "0 < parties a \<Longrightarrow>
      returns (add_pub a p) (\<lambda>c. parties c = parties a \<and> pub (reveal c) = pub (reveal a) + pub p)"
    and mul_pub_law: "pub (mul_pub p q) = pub p * pub q"
begin

text \<open>
  Beaver's identity: with \<open>d = x - u\<close> and \<open>e = y - v\<close> opened, the local combination
  \<open>w + d v + e u + d e\<close> opens to \<open>x y\<close> for every triple with \<open>w = u v\<close>.
\<close>

lemma beaver_identity:
  assumes "0 < n" "parties x = n" "parties y = n" "parties u = n" "parties v = n" "parties w = n"
    and "pub (reveal w) = pub (reveal u) * pub (reveal v)"
  shows "returns
    (bindE (sub x u) (\<lambda>ds.
     bindE (sub y v) (\<lambda>es.
     bindE (add w (scale v (reveal ds))) (\<lambda>step1.
     bindE (add step1 (scale u (reveal es))) (\<lambda>step2.
     add_pub step2 (mul_pub (reveal ds) (reveal es)))))))
    (\<lambda>z. parties z = n \<and> pub (reveal z) = pub (reveal x) * pub (reveal y))"
proof -
  from sub_law [of x u] assms obtain ds where ds: "sub x u = Inr ds" "parties ds = n"
      "pub (reveal ds) = pub (reveal x) - pub (reveal u)" by (auto simp: returns_def)
  from sub_law [of y v] assms obtain es where es: "sub y v = Inr es" "parties es = n"
      "pub (reveal es) = pub (reveal y) - pub (reveal v)" by (auto simp: returns_def)
  from add_law [of w "scale v (reveal ds)"] assms obtain s1 where
    s1: "add w (scale v (reveal ds)) = Inr s1" "parties s1 = n"
      "pub (reveal s1) = pub (reveal w) + pub (reveal v) * pub (reveal ds)"
    by (auto simp: returns_def scale_law)
  from add_law [of s1 "scale u (reveal es)"] assms s1 obtain s2 where
    s2: "add s1 (scale u (reveal es)) = Inr s2" "parties s2 = n"
      "pub (reveal s2) = pub (reveal s1) + pub (reveal u) * pub (reveal es)"
    by (auto simp: returns_def scale_law)
  have "0 < parties s2" using assms s2 by simp
  from add_pub_law [OF this, of "mul_pub (reveal ds) (reveal es)"]
  have "returns (add_pub s2 (mul_pub (reveal ds) (reveal es)))
    (\<lambda>z. parties z = n \<and> pub (reveal z) = pub (reveal x) * pub (reveal y))"
    by (rule returns_mono) (simp add: s1 s2 ds es assms mul_pub_law algebra_simps)
  then show ?thesis by (simp add: ds es s1 s2)
qed

end

interpretation u64_sharing: additive_sharing u64_N u64_reconstruct id addShared subShared mulConst
    addConst "(*)"
  by unfold_locales
    (auto intro: addShared_returns subShared_returns addConst_returns)

text \<open>Shared bits are a sharing over the field with two elements, \<open>1 word\<close>.\<close>

definition mulBit :: "SharedBit \<Rightarrow> 8 word \<Rightarrow> SharedBit" where
  "mulBit a c = \<lparr>bit_shares = map (\<lambda>s. s AND c) (bit_shares a)\<rparr>"

definition gf2 :: "8 word \<Rightarrow> 1 word" where
  "gf2 w = of_bool (bit w 0)"

lemma gf2_reveal: "gf2 (bit_reconstruct b) = of_bool (bval b)"
  by (simp add: gf2_def bval_def)

lemma of_bool_gf2_add: "(of_bool p :: 1 word) + of_bool q = of_bool (p \<noteq> q)"
  by (cases p; cases q) simp_all

lemma of_bool_gf2_diff: "(of_bool p :: 1 word) - of_bool q = of_bool (p \<noteq> q)"
  by (cases p; cases q) simp_all

lemma mulBit_simps [simp]: "bit_N (mulBit a c) = bit_N a" "bval (mulBit a c) = (bval a \<and> bit c 0)"
  by (simp_all add: mulBit_def bit_N_def bval_xor_list xor_list_map_and bit_simps)

interpretation bit_sharing: additive_sharing bit_N bit_reconstruct gf2 xorShared xorShared mulBit
    xorConst "(AND)"
proof unfold_locales
  fix a b :: SharedBit and p q :: "8 word"
  show "bit_N (mulBit a (bit_reconstruct b)) = bit_N a" by simp
  show "gf2 (bit_reconstruct (mulBit a (bit_reconstruct b)))
      = gf2 (bit_reconstruct a) * gf2 (bit_reconstruct b)"
    unfolding gf2_reveal by (simp flip: bval_def)
  show "gf2 (p AND q) = gf2 p * gf2 q" by (simp add: gf2_def bit_simps)
  show "returns (xorConst a p) (\<lambda>c. bit_N c = bit_N a \<and>
      gf2 (bit_reconstruct c) = gf2 (bit_reconstruct a) + gf2 p)" if "0 < bit_N a"
    using xorConst_returns [OF that, of p]
    by (rule returns_mono) (simp add: gf2_reveal gf2_def [of p] of_bool_gf2_add)
  show "returns (xorShared a b) (\<lambda>c. bit_N c = bit_N b \<and>
      gf2 (bit_reconstruct c) = gf2 (bit_reconstruct a) + gf2 (bit_reconstruct b))"
    if "bit_N a = bit_N b"
    using xorShared_returns [OF that]
    by (rule returns_mono) (simp add: gf2_reveal of_bool_gf2_add)
  show "returns (xorShared a b) (\<lambda>c. bit_N c = bit_N b \<and>
      gf2 (bit_reconstruct c) = gf2 (bit_reconstruct a) - gf2 (bit_reconstruct b))"
    if "bit_N a = bit_N b"
    using xorShared_returns [OF that]
    by (rule returns_mono) (simp add: gf2_reveal of_bool_gf2_diff)
qed

subsection \<open>Properties\<close>

text \<open>A value shared among two or more parties, whatever the generator draws, has one share per
  party, opens to the value, and every share but that of party 0 is drawn independently of the
  value (sharing another value changes the share of party 0 only).\<close>

theorem shareU64_correct:
  assumes "2 \<le> N"
  shows "\<exists>s rs g'. shareU64 G N v g = Inr (\<lparr>u64_shares = s # rs\<rparr>, g') \<and> length rs = N - 1 \<and>
    u64_reconstruct \<lparr>u64_shares = s # rs\<rparr> = v \<and>
    (\<forall>w. \<exists>s'. shareU64 G N w g = Inr (\<lparr>u64_shares = s' # rs\<rparr>, g'))"
  using assms
  by (simp add: shareU64_def split_beta Let_def u64_reconstruct_sum fold_plus_eq_sum_list)

lemma shareU64_correct_witness:
  "\<exists>s rs g'. shareU64 counter_prng 3 42 5 = Inr (\<lparr>u64_shares = s # rs\<rparr>, g') \<and> length rs = 2 \<and>
    u64_reconstruct \<lparr>u64_shares = s # rs\<rparr> = 42"
  using shareU64_correct [of 3 counter_prng 42 5] by auto

end
