(* ===== verification/Beaver_Triple.thy ===== *)
theory Beaver_Triple
  imports Secret_Share
begin

text \<open>
  Beaver triples and secure multiplication (\<open>volePSI/MpBeaverTriple.h\<close>,
  \<open>volePSI/MpBeaverTriple.cpp\<close>): the trusted-dealer generators, multiplication of shared
  64-bit values and AND of shared bits. Correctness of both products is the one identity of
  the locale \<open>additive_sharing\<close>, read through its two interpretations.
\<close>

subsection \<open>64-bit triples\<close>

record BeaverTripleU64 =
  tu :: SharedU64
  tv :: SharedU64
  tw :: SharedU64

definition generateBeaverTriple :: "'g prng \<Rightarrow> nat \<Rightarrow> 'g \<Rightarrow> (BeaverTripleU64 \<times> 'g) result" where
  "generateBeaverTriple G N g =
     throw_if (N < 2) (RuntimeError ''generateBeaverTriple: N must be >= 2'')
       (let (u_val, g1) = get_u64 G g;
            (v_val, g2) = get_u64 G g1;
            w_val = u_val * v_val
        in bindE (shareU64 G N u_val g2) (\<lambda>(u, g3).
           bindE (shareU64 G N v_val g3) (\<lambda>(v, g4).
           bindE (shareU64 G N w_val g4) (\<lambda>(w, g5).
           Inr (\<lparr>tu = u, tv = v, tw = w\<rparr>, g5)))))"

fun generateBeaverTriples ::
  "'g prng \<Rightarrow> nat \<Rightarrow> nat \<Rightarrow> 'g \<Rightarrow> (BeaverTripleU64 list \<times> 'g) result" where
  "generateBeaverTriples G N 0 g = Inr ([], g)"
| "generateBeaverTriples G N (Suc count) g =
     bindE (generateBeaverTriple G N g) (\<lambda>(t, g1).
     bindE (generateBeaverTriples G N count g1) (\<lambda>(ts, g2).
     Inr (t # ts, g2)))"

definition secureMultiply :: "SharedU64 \<Rightarrow> SharedU64 \<Rightarrow> BeaverTripleU64 \<Rightarrow> SharedU64 result" where
  "secureMultiply x y triple =
     throw_if (u64_N x \<noteq> u64_N y \<or> u64_N x \<noteq> u64_N (tu triple))
       (RuntimeError ''secureMultiply: N mismatch'')
       (bindE (subShared x (tu triple)) (\<lambda>d_shared.
        bindE (subShared y (tv triple)) (\<lambda>e_shared.
        let d = u64_reconstruct d_shared;
            e = u64_reconstruct e_shared;
            t1 = mulConst (tv triple) d;
            t2 = mulConst (tu triple) e
        in
        bindE (addShared (tw triple) t1) (\<lambda>step1.
        bindE (addShared step1 t2) (\<lambda>step2.
        addConst step2 (d * e))))))"

subsection \<open>Bit triples\<close>

record BeaverTripleBit =
  bu :: SharedBit
  bv :: SharedBit
  bw :: SharedBit

definition generateBeaverTripleBit ::
  "'g prng \<Rightarrow> nat \<Rightarrow> 'g \<Rightarrow> (BeaverTripleBit \<times> 'g) result" where
  "generateBeaverTripleBit G N g =
     throw_if (N < 2) (RuntimeError ''generateBeaverTripleBit: N must be >= 2'')
       (let (ru, g1) = get_u8 G g; u = ru AND 1;
            (rv, g2) = get_u8 G g1; v = rv AND 1;
            w = u AND v
        in bindE (shareBit G N u g2) (\<lambda>(su, g3).
           bindE (shareBit G N v g3) (\<lambda>(sv, g4).
           bindE (shareBit G N w g4) (\<lambda>(sw, g5).
           Inr (\<lparr>bu = su, bv = sv, bw = sw\<rparr>, g5)))))"

fun generateBeaverTripleBits ::
  "'g prng \<Rightarrow> nat \<Rightarrow> nat \<Rightarrow> 'g \<Rightarrow> (BeaverTripleBit list \<times> 'g) result" where
  "generateBeaverTripleBits G N 0 g = Inr ([], g)"
| "generateBeaverTripleBits G N (Suc count) g =
     bindE (generateBeaverTripleBit G N g) (\<lambda>(t, g1).
     bindE (generateBeaverTripleBits G N count g1) (\<lambda>(ts, g2).
     Inr (t # ts, g2)))"

text \<open>
  The loop over the parties reads \<open>triple.v\<close> and \<open>triple.u\<close> at every index below \<open>x.N()\<close>;
  both have that length once the two xors above it succeeded.
\<close>

definition secureAnd :: "SharedBit \<Rightarrow> SharedBit \<Rightarrow> BeaverTripleBit \<Rightarrow> SharedBit result" where
  "secureAnd x y triple =
     throw_if (bit_N x \<noteq> bit_N y \<or> bit_N x \<noteq> bit_N (bu triple))
       (RuntimeError ''secureAnd: N mismatch'')
       (bindE (xorShared x (bu triple)) (\<lambda>d_shared.
        bindE (xorShared y (bv triple)) (\<lambda>e_shared.
        let d = bit_reconstruct d_shared;
            e = bit_reconstruct e_shared;
            t1 = mulBit (bv triple) d;
            t2 = mulBit (bu triple) e
        in
        bindE (xorShared (bw triple) t1) (\<lambda>step1.
        bindE (xorShared step1 t2) (\<lambda>step2.
        xorConst step2 (d AND e))))))"

subsection \<open>Well-formed triples\<close>

definition triple_ok :: "nat \<Rightarrow> BeaverTripleU64 \<Rightarrow> bool" where
  "triple_ok n t \<longleftrightarrow> u64_N (tu t) = n \<and> u64_N (tv t) = n \<and> u64_N (tw t) = n \<and>
     u64_reconstruct (tw t) = u64_reconstruct (tu t) * u64_reconstruct (tv t)"

definition bit_triple_ok :: "nat \<Rightarrow> BeaverTripleBit \<Rightarrow> bool" where
  "bit_triple_ok n t \<longleftrightarrow> bit_N (bu t) = n \<and> bit_N (bv t) = n \<and> bit_N (bw t) = n \<and>
     bval (bw t) = (bval (bu t) \<and> bval (bv t))"

text \<open>A bag from which a protocol draws its triples.\<close>

definition bag_ok :: "nat \<Rightarrow> BeaverTripleBit list \<Rightarrow> bool" where
  "bag_ok n ts \<longleftrightarrow> 0 < n \<and> (\<forall>t\<in>set ts. bit_triple_ok n t)"

lemma generateBeaverTriple_returns:
  "2 \<le> N \<Longrightarrow> returns (generateBeaverTriple G N g) (\<lambda>(t, g'). triple_ok N t)"
  by (simp add: generateBeaverTriple_def wp_simps split_beta Let_def triple_ok_def
      u64_N_def u64_reconstruct_sum)

lemma generateBeaverTriples_returns:
  "2 \<le> N \<Longrightarrow> returns (generateBeaverTriples G N count g)
     (\<lambda>(ts, g'). length ts = count \<and> (\<forall>t\<in>set ts. triple_ok N t))"
proof (induction count arbitrary: g)
  case (Suc count)
  obtain t g1 where t: "generateBeaverTriple G N g = Inr (t, g1)" "triple_ok N t"
    using generateBeaverTriple_returns [OF Suc.prems, of G g] by (auto simp: returns_def)
  obtain ts g2 where ts: "generateBeaverTriples G N count g1 = Inr (ts, g2)" "length ts = count" "\<forall>t\<in>set ts. triple_ok N t"
    using Suc.IH [OF Suc.prems, of g1] by (auto simp: returns_def)
  show ?case using t ts by (simp)
qed simp

lemma generateBeaverTripleBit_returns:
  assumes "2 \<le> N"
  shows "returns (generateBeaverTripleBit G N g) (\<lambda>(t, g'). bit_triple_ok N t)"
proof -
  obtain ru g1 where g1: "get_u8 G g = (ru, g1)" by force
  obtain rv g2 where g2: "get_u8 G g1 = (rv, g2)" by force
  obtain su g3 where su: "shareBit G N (ru AND 1) g2 = Inr (su, g3)"
      "bit_N su = N" "bval su = bit (ru AND 1) 0"
    using shareBit_returns [OF assms] by (fastforce elim!: returnsE)
  obtain sv g4 where sv: "shareBit G N (rv AND 1) g3 = Inr (sv, g4)"
      "bit_N sv = N" "bval sv = bit (rv AND 1) 0"
    using shareBit_returns [OF assms] by (fastforce elim!: returnsE)
  obtain sw g5 where sw: "shareBit G N ((ru AND 1) AND (rv AND 1)) g4 = Inr (sw, g5)"
      "bit_N sw = N" "bval sw = bit ((ru AND 1) AND (rv AND 1)) 0"
    using shareBit_returns [OF assms] by (fastforce elim!: returnsE)
  show ?thesis
    using assms g1 g2 su sv sw
    by (auto simp: generateBeaverTripleBit_def bit_triple_ok_def bit_simps)
qed

lemma generateBeaverTripleBits_returns:
  "2 \<le> N \<Longrightarrow> returns (generateBeaverTripleBits G N count g)
     (\<lambda>(ts, g'). length ts = count \<and> bag_ok N ts)"
proof (induction count arbitrary: g)
  case (Suc count)
  obtain t g1 where t: "generateBeaverTripleBit G N g = Inr (t, g1)" "bit_triple_ok N t"
    using generateBeaverTripleBit_returns [OF Suc.prems, of G g] by (auto simp: returns_def)
  obtain ts g2 where ts: "generateBeaverTripleBits G N count g1 = Inr (ts, g2)" "length ts = count" "bag_ok N ts"
    using Suc.IH [OF Suc.prems, of g1] by (auto simp: returns_def)
  show ?case using t ts by (simp add: bag_ok_def)
qed (simp add: bag_ok_def)

subsection \<open>Correct products\<close>

lemma secureMultiply_returns:
  assumes "0 < n" "u64_N x = n" "u64_N y = n" "triple_ok n t"
  shows "returns (secureMultiply x y t)
    (\<lambda>z. u64_N z = n \<and> u64_reconstruct z = u64_reconstruct x * u64_reconstruct y)"
  using u64_sharing.beaver_identity [of n x y "tu t" "tv t" "tw t"] assms
  by (simp add: secureMultiply_def triple_ok_def Let_def)

lemma gf2_of_bool_mult: "(of_bool p :: 1 word) * of_bool q = of_bool (p \<and> q)"
  by (simp add: of_bool_conj)

lemma secureAnd_returns:
  assumes "bit_N x = n" "bit_N y = n" "bit_triple_ok n t" "0 < n"
  shows "returns (secureAnd x y t) (\<lambda>z. bit_N z = n \<and> bval z = (bval x \<and> bval y))"
  using bit_sharing.beaver_identity [of n x y "bu t" "bv t" "bw t"] assms
  by (simp add: secureAnd_def bit_triple_ok_def Let_def gf2_reveal gf2_of_bool_mult
      of_bool_eq_iff)

subsection \<open>Sharings to run the circuits on\<close>

definition zero_triple :: "nat \<Rightarrow> BeaverTripleBit" where
  "zero_triple n = \<lparr>bu = bit_zero n, bv = bit_zero n, bw = bit_zero n\<rparr>"

lemma bag_ok_zero_triples: "0 < n \<Longrightarrow> bag_ok n (replicate m (zero_triple n))"
  by (simp add: bag_ok_def bit_triple_ok_def zero_triple_def)

subsection \<open>Properties\<close>

text \<open>With a triple from the dealer, whatever randomness it drew, \<open>secureMultiply\<close> returns a sharing
  among the same parties that opens to the product modulo \<open>2 ^ 64\<close>.\<close>

theorem secureMultiply_correct:
  assumes "2 \<le> N" "u64_N x = N" "u64_N y = N"
  shows "\<exists>t g' z. generateBeaverTriple G N g = Inr (t, g') \<and> secureMultiply x y t = Inr z \<and>
    u64_N z = N \<and> u64_reconstruct z = u64_reconstruct x * u64_reconstruct y"
proof -
  obtain t g' where "generateBeaverTriple G N g = Inr (t, g')" "triple_ok N t"
    using generateBeaverTriple_returns [OF assms(1), of G g] by (auto simp: returns_def)
  then show ?thesis
    using secureMultiply_returns [of N x y t] assms by (auto simp: returns_def)
qed

lemma secureMultiply_correct_witness:
  "\<exists>t g' z. generateBeaverTriple counter_prng 2 7 = Inr (t, g') \<and>
    secureMultiply \<lparr>u64_shares = [4, 2]\<rparr> \<lparr>u64_shares = [10, - 3]\<rparr> t = Inr z \<and> u64_reconstruct z = 42"
proof -
  have "u64_reconstruct \<lparr>u64_shares = [4, 2]\<rparr> * u64_reconstruct \<lparr>u64_shares = [10, - 3]\<rparr> = 42"
    by (simp add: u64_reconstruct_def)
  then show ?thesis
    using secureMultiply_correct [of 2 "\<lparr>u64_shares = [4, 2]\<rparr>" "\<lparr>u64_shares = [10, - 3]\<rparr>" counter_prng 7]
    by (fastforce simp: u64_N_def)
qed

text \<open>A bag of bit triples from the dealer has the requested length and every triple in it is a
  sharing among \<open>N\<close> parties with \<open>w = u AND v\<close>; so the bags the circuits are proved for
  are the ones the code generates.\<close>

theorem generateBeaverTripleBits_bag:
  assumes "2 \<le> N"
  shows "\<exists>ts g'. generateBeaverTripleBits G N count g = Inr (ts, g') \<and> length ts = count \<and> bag_ok N ts"
  using generateBeaverTripleBits_returns [OF assms, of G count g] by (auto simp: returns_def)

lemma generateBeaverTripleBits_bag_witness:
  "\<exists>ts g'. generateBeaverTripleBits counter_prng 3 256 0 = Inr (ts, g') \<and> length ts = 256 \<and> bag_ok 3 ts"
  using generateBeaverTripleBits_bag [of 3 counter_prng 256 0] by simp

end
