(* ===== verification/Secure_Compare.thy ===== *)
theory Secure_Compare
  imports Beaver_Triple
begin

text \<open>
  Secure comparison on bit-shared 64-bit values (\<open>volePSI/MpSecureCompare.h\<close>,
  \<open>volePSI/MpSecureCompare.cpp\<close>): the MSB-to-LSB less-than circuit and the AND-tree equality
  test. A bag of bit triples is a list with a cursor; every circuit returns the bumped
  cursor. The lemmas give the opened result and the exact number of triples consumed.
\<close>

subsection \<open>Bit-shared 64-bit values\<close>

text \<open>
  The default constructor gives \<open>bits\<close> 64 entries, bit 0 the least significant. Accesses by
  index inside the circuits are checked (\<open>vec_at\<close>).
\<close>

record SharedU64Bin =
  bin_bits :: "SharedBit list"

definition bin_N :: "SharedU64Bin \<Rightarrow> nat" where
  "bin_N x = (case bin_bits x of [] \<Rightarrow> 0 | b # _ \<Rightarrow> bit_N b)"

definition bin_reconstruct :: "SharedU64Bin \<Rightarrow> 64 word" where
  "bin_reconstruct x =
     fold (\<lambda>i v. v OR push_bit i (ucast (bit_reconstruct (bin_bits x ! i) AND 1))) [0..<64] 0"

definition shareU64Bin ::
  "'g prng \<Rightarrow> nat \<Rightarrow> 64 word \<Rightarrow> 'g \<Rightarrow> (SharedU64Bin \<times> 'g) result" where
  "shareU64Bin G N value g =
     bindE (foldE (\<lambda>i (out, g1).
              let b = ucast (drop_bit i value AND 1) in
              bindE (shareBit G N b g1) (\<lambda>(s, g2). Inr (out @ [s], g2)))
            [0..<64] ([], g))
       (\<lambda>(out, g'). Inr (\<lparr>bin_bits = out\<rparr>, g'))"

definition bin_ok :: "nat \<Rightarrow> SharedU64Bin \<Rightarrow> bool" where
  "bin_ok n x \<longleftrightarrow> length (bin_bits x) = 64 \<and> (\<forall>i<64. bit_N (bin_bits x ! i) = n)"

abbreviation bin_bit :: "SharedU64Bin \<Rightarrow> nat \<Rightarrow> bool" where
  "bin_bit x i \<equiv> bval (bin_bits x ! i)"

subsection \<open>Gates\<close>

definition takeTriple :: "BeaverTripleBit list \<Rightarrow> nat \<Rightarrow> (BeaverTripleBit \<times> nat) result" where
  "takeTriple triples idx =
     throw_if (idx \<ge> length triples) (RuntimeError ''takeTriple: triple bag exhausted'')
       (Inr (triples ! idx, idx + 1))"

definition notShared :: "SharedBit \<Rightarrow> SharedBit result" where
  "notShared a = xorConst a 1"

definition secureOr ::
  "SharedBit \<Rightarrow> SharedBit \<Rightarrow> BeaverTripleBit list \<Rightarrow> nat \<Rightarrow> (SharedBit \<times> nat) result" where
  "secureOr a b triples k =
     bindE (notShared a) (\<lambda>na.
     bindE (notShared b) (\<lambda>nb.
     bindE (takeTriple triples k) (\<lambda>(t, k1).
     bindE (secureAnd na nb t) (\<lambda>naAndNb.
     bindE (notShared naAndNb) (\<lambda>r. Inr (r, k1))))))"

subsection \<open>Less-than\<close>

definition secureLessThanTripleCost :: "64 word" where
  "secureLessThanTripleCost = 64 * 4"

definition lessThan_step ::
  "SharedU64Bin \<Rightarrow> SharedU64Bin \<Rightarrow> BeaverTripleBit list \<Rightarrow> nat \<Rightarrow>
   SharedBit \<times> SharedBit \<times> nat \<Rightarrow> (SharedBit \<times> SharedBit \<times> nat) result" where
  "lessThan_step x y triples i = (\<lambda>(result, decided, k).
     bindE (vec_at (bin_bits x) i) (\<lambda>x_i.
     bindE (vec_at (bin_bits y) i) (\<lambda>y_i.
     bindE (xorShared x_i y_i) (\<lambda>diff.
     bindE (notShared decided) (\<lambda>notDecided.
     bindE (takeTriple triples k) (\<lambda>(t1, k1).
     bindE (secureAnd diff notDecided t1) (\<lambda>first.
     bindE (takeTriple triples k1) (\<lambda>(t2, k2).
     bindE (secureAnd first y_i t2) (\<lambda>contrib.
     bindE (secureOr result contrib triples k2) (\<lambda>(result', k3).
     bindE (secureOr decided first triples k3) (\<lambda>(decided', k4).
     Inr (result', decided', k4))))))))))))"

definition secureLessThan ::
  "SharedU64Bin \<Rightarrow> SharedU64Bin \<Rightarrow> BeaverTripleBit list \<Rightarrow> nat \<Rightarrow> (SharedBit \<times> nat) result" where
  "secureLessThan x y triples k =
     throw_if (bin_N x \<noteq> bin_N y) (RuntimeError ''secureLessThan: N mismatch'')
       (bindE (foldE (lessThan_step x y triples) (rev [0..<64])
                 (bit_zero (bin_N x), bit_zero (bin_N x), k))
          (\<lambda>(result, decided, k'). Inr (result, k')))"

subsection \<open>Equality\<close>

definition secureEqualTripleCost :: "64 word" where
  "secureEqualTripleCost = 63"

text \<open>One level of the AND-tree; an odd element is carried over.\<close>

fun and_level ::
  "BeaverTripleBit list \<Rightarrow> SharedBit list \<Rightarrow> nat \<Rightarrow> (SharedBit list \<times> nat) result" where
  "and_level triples (a # b # rest) k =
     bindE (takeTriple triples k) (\<lambda>(t, k1).
     bindE (secureAnd a b t) (\<lambda>c.
     bindE (and_level triples rest k1) (\<lambda>(next, k2). Inr (c # next, k2))))"
| "and_level triples level k = Inr (level, k)"

lemma and_level_length:
  "and_level triples level k = Inr (next, k') \<Longrightarrow> length next = (length level + 1) div 2"
  by (induction triples level k arbitrary: "next" k' rule: and_level.induct)
    (auto simp: bindE_eq_Inr)

lemma bindE_cong [fundef_cong]:
  "m = m' \<Longrightarrow> (\<And>a. m' = Inr a \<Longrightarrow> f a = g a) \<Longrightarrow> bindE m f = bindE m' g"
  by (cases m') auto

function and_tree ::
  "BeaverTripleBit list \<Rightarrow> SharedBit list \<Rightarrow> nat \<Rightarrow> (SharedBit list \<times> nat) result" where
  "and_tree triples level k =
     (if length level > 1
      then bindE (and_level triples level k) (\<lambda>(next, k'). and_tree triples next k')
      else Inr (level, k))"
  by pat_completeness auto
termination
  by (relation "measure (\<lambda>(ts, level, k). length level)") (auto dest!: and_level_length)

declare and_tree.simps [simp del]

definition secureEqual ::
  "SharedU64Bin \<Rightarrow> SharedU64Bin \<Rightarrow> BeaverTripleBit list \<Rightarrow> nat \<Rightarrow> (SharedBit \<times> nat) result" where
  "secureEqual x y triples k =
     throw_if (bin_N x \<noteq> bin_N y) (RuntimeError ''secureEqual: N mismatch'')
       (bindE (mapE (\<lambda>i. bindE (vec_at (bin_bits x) i) (\<lambda>x_i.
                         bindE (vec_at (bin_bits y) i) (\<lambda>y_i.
                         bindE (xorShared x_i y_i) notShared))) [0..<64]) (\<lambda>eqBits.
        bindE (and_tree triples eqBits k) (\<lambda>(level, k').
        case level of
          [] \<Rightarrow> (case bit_shares (bit_zero (bin_N x)) of
                   [] \<Rightarrow> Inl OutOfBounds
                 | s # ss \<Rightarrow> Inr (\<lparr>bit_shares = 1 # ss\<rparr>, k'))
        | b # _ \<Rightarrow> Inr (b, k'))))"

subsection \<open>Symbolic execution of gates\<close>

lemma bag_ok_pos: "bag_ok n ts \<Longrightarrow> 0 < n"
  by (simp add: bag_ok_def)

text \<open>
  One rule per gate, for use with \<open>intro\<close>: the continuation may assume the party count and
  the opened value of the gate's output.
\<close>

named_theorems gate_wp \<open>introduction rules for gates under \<open>returns\<close>\<close>

lemma wp_xorShared [gate_wp]:
  "bit_N a = bit_N b \<Longrightarrow>
   (\<And>c. bit_N c = bit_N b \<Longrightarrow> bval c = (bval a \<noteq> bval b) \<Longrightarrow> returns (f c) P) \<Longrightarrow>
   returns (bindE (xorShared a b) f) P"
  by (rule returns_bind_intro, erule xorShared_returns, clarsimp)

lemma wp_notShared [gate_wp]:
  "0 < bit_N a \<Longrightarrow>
   (\<And>c. bit_N c = bit_N a \<Longrightarrow> bval c = (\<not> bval a) \<Longrightarrow> returns (f c) P) \<Longrightarrow>
   returns (bindE (notShared a) f) P"
  unfolding notShared_def by (rule returns_bind_intro, erule xorConst_returns, simp)

lemma wp_takeTriple [gate_wp]:
  "k < length ts \<Longrightarrow> returns (f (ts ! k) (Suc k)) P \<Longrightarrow>
   returns (bindE (takeTriple ts k) (\<lambda>(t, k'). f t k')) P"
  by (simp add: takeTriple_def)

lemma wp_secureAnd [gate_wp]:
  "bag_ok (bit_N x) ts \<Longrightarrow> k < length ts \<Longrightarrow> bit_N y = bit_N x \<Longrightarrow>
   (\<And>z. bit_N z = bit_N x \<Longrightarrow> bval z = (bval x \<and> bval y) \<Longrightarrow> returns (f z) P) \<Longrightarrow>
   returns (bindE (secureAnd x y (ts ! k)) f) P"
  by (rule returns_bind_intro [OF secureAnd_returns [OF refl]]) (simp_all add: bag_ok_def)

lemma wp_throw_if [gate_wp]: "\<not> b \<Longrightarrow> returns m P \<Longrightarrow> returns (throw_if b e m) P"
  by simp

lemma wp_vec_at [gate_wp]:
  "i < length xs \<Longrightarrow> returns (f (xs ! i)) P \<Longrightarrow> returns (bindE (vec_at xs i) f) P"
  by simp

lemma secureOr_returns:
  assumes "bag_ok (bit_N a) ts" "k < length ts" "bit_N b = bit_N a"
  shows "returns (secureOr a b ts k)
    (\<lambda>(c, k'). bit_N c = bit_N a \<and> bval c = (bval a \<or> bval b) \<and> k' = Suc k)"
  unfolding secureOr_def using assms by (intro gate_wp) (simp_all add: bag_ok_pos)

lemma wp_secureOr [gate_wp]:
  "bag_ok (bit_N a) ts \<Longrightarrow> k < length ts \<Longrightarrow> bit_N b = bit_N a \<Longrightarrow>
   (\<And>c. bit_N c = bit_N a \<Longrightarrow> bval c = (bval a \<or> bval b) \<Longrightarrow> returns (f c (Suc k)) P) \<Longrightarrow>
   returns (bindE (secureOr a b ts k) (\<lambda>(c, k'). f c k')) P"
  by (rule returns_bind_intro, erule (2) secureOr_returns, clarsimp)

lemma bin_ok_N: "bin_ok n x \<Longrightarrow> bin_N x = n"
  by (cases "bin_bits x") (auto simp: bin_ok_def bin_N_def dest: spec [of _ 0])

lemmas gate_ok = bag_ok_pos bin_ok_N

subsection \<open>Opened values\<close>

lemma bit_fold_or:
  assumes "n \<le> 64"
  shows "bit (fold (\<lambda>i v. v OR push_bit i (ucast (f i AND (1 :: 8 word)))) [0..<n] (0 :: 64 word)) j
    \<longleftrightarrow> j < n \<and> bit (f j) 0"
  using assms
proof (induction n)
  case (Suc n)
  then show ?case by (cases "j = n") (auto simp: bit_simps less_Suc_eq)
qed simp

lemma bit_bin_reconstruct: "bit (bin_reconstruct x) j \<longleftrightarrow> j < 64 \<and> bin_bit x j"
  unfolding bin_reconstruct_def by (simp add: bit_fold_or bval_def)

lemma bin_reconstruct_eqI:
  "(\<And>i. i < 64 \<Longrightarrow> bin_bit x i = bit w i) \<Longrightarrow> bin_reconstruct x = w"
  by (rule bit_word_eqI) (simp add: bit_bin_reconstruct)

lemma shareU64Bin_returns:
  fixes g :: 'a
  assumes "2 \<le> N"
  shows "returns (shareU64Bin G N v g) (\<lambda>(x, g'). bin_ok N x \<and> bin_reconstruct x = v)"
proof -
  let ?f = "\<lambda>i (out, g1 :: 'a). bindE (shareBit G N (ucast (drop_bit i v AND 1)) g1)
    (\<lambda>(s, g2). Inr (out @ [s], g2))"
  have "returns (foldE ?f [0..<64] ([], g))
      (\<lambda>(out, g'). length out = 64 \<and> (\<forall>j<64. bit_N (out ! j) = N \<and> bval (out ! j) = bit v j))"
  proof (rule returns_foldE_upt)
    fix i and s :: "SharedBit list \<times> 'a"
    assume i: "i < 64" and I: "(\<lambda>(out, g'). length out = i \<and>
      (\<forall>j<i. bit_N (out ! j) = N \<and> bval (out ! j) = bit v j)) s"
    obtain out g1 where s: "s = (out, g1)" by (cases s)
    show "returns (?f i s) (\<lambda>(out, g'). length out = Suc i \<and>
      (\<forall>j<Suc i. bit_N (out ! j) = N \<and> bval (out ! j) = bit v j))"
      using shareBit_returns [OF assms, of G "ucast (drop_bit i v AND 1)" g1] I
      by (auto simp: s returns_bindE nth_append less_Suc_eq bit_simps elim!: returns_mono)
  qed simp
  then show ?thesis
    by (auto simp: shareU64Bin_def returns_bindE bin_ok_def elim!: returns_mono
        intro!: bin_reconstruct_eqI)
qed

lemma drop_bit_Suc_half: "drop_bit i m = 2 * drop_bit (Suc i) m + of_bool (bit m i)" for m :: nat
proof -
  have "m div 2 ^ Suc i = m div 2 ^ i div 2" by (simp only: power_Suc2 div_mult2_eq)
  then show ?thesis by (simp add: drop_bit_eq_div bit_iff_odd flip: mod_2_eq_odd)
qed

lemma drop_bit_neq_step:
  "(drop_bit i X \<noteq> drop_bit i Y) =
   (drop_bit (Suc i) X \<noteq> drop_bit (Suc i) Y \<or> bit X i \<noteq> bit Y i)" for X Y :: nat
  unfolding drop_bit_Suc_half [of i] by (auto, presburger+)

lemma drop_bit_less_step:
  "(drop_bit i X < drop_bit i Y) =
   (drop_bit (Suc i) X < drop_bit (Suc i) Y \<or>
    bit X i \<noteq> bit Y i \<and> \<not> drop_bit (Suc i) X \<noteq> drop_bit (Suc i) Y \<and> bit Y i)" for X Y :: nat
  unfolding drop_bit_Suc_half [of i] by auto

lemma bit_unat_bin: "i < 64 \<Longrightarrow> bit (unat (bin_reconstruct x)) i = bin_bit x i"
  by (simp add: bit_unsigned_iff bit_bin_reconstruct)

subsection \<open>Correctness of the circuits\<close>

lemma lessThan_step_returns:
  assumes "bag_ok n ts" "bin_ok n x" "bin_ok n y" "i < 64"
    and "bit_N r = n" "bit_N d = n" "k + 4 \<le> length ts"
  shows "returns (lessThan_step x y ts i (r, d, k)) (\<lambda>(r', d', k'). bit_N r' = n \<and> bit_N d' = n \<and>
    k' = k + 4 \<and> bval r' = (bval r \<or> (bin_bit x i \<noteq> bin_bit y i) \<and> \<not> bval d \<and> bin_bit y i) \<and>
    bval d' = (bval d \<or> bin_bit x i \<noteq> bin_bit y i))"
  unfolding lessThan_step_def split using assms
  by (intro gate_wp) (simp_all add: bin_ok_def bag_ok_pos, blast+)

lemma secureLessThan_returns:
  assumes "bag_ok n ts" "bin_ok n x" "bin_ok n y" "k + 256 \<le> length ts"
  shows "returns (secureLessThan x y ts k) (\<lambda>(b, k'). bit_N b = n \<and> k' = k + 256 \<and>
    bval b = (bin_reconstruct x < bin_reconstruct y))"
proof -
  let ?X = "unat (bin_reconstruct x)" and ?Y = "unat (bin_reconstruct y)"
  let ?I = "\<lambda>i (r, d, k'). bit_N r = n \<and> bit_N d = n \<and> k' = k + 4 * (64 - i) \<and>
    bval r = (drop_bit i ?X < drop_bit i ?Y) \<and> bval d = (drop_bit i ?X \<noteq> drop_bit i ?Y)"
  have top: "drop_bit 64 ?X = 0" "drop_bit 64 ?Y = 0"
    using unsigned_less [of "bin_reconstruct x", where 'a = nat]
      unsigned_less [of "bin_reconstruct y", where 'a = nat]
    by (simp_all add: drop_bit_eq_div)
  have "returns (foldE (lessThan_step x y ts) (rev [0..<64]) (bit_zero n, bit_zero n, k)) (?I 0)"
  proof (rule returns_foldE_down)
    show "?I 64 (bit_zero n, bit_zero n, k)" by (simp add: top)
    fix i s assume i: "i < 64" and I: "?I (Suc i) s"
    obtain r d k' where s: "s = (r, d, k')" by (cases s)
    have "k' + 4 \<le> length ts" using assms(4) i I by (simp add: s)
    with assms i I have "returns (lessThan_step x y ts i s) (\<lambda>(r', d', k''). bit_N r' = n \<and>
        bit_N d' = n \<and> k'' = k' + 4 \<and>
        bval r' = (bval r \<or> (bin_bit x i \<noteq> bin_bit y i) \<and> \<not> bval d \<and> bin_bit y i) \<and>
        bval d' = (bval d \<or> bin_bit x i \<noteq> bin_bit y i))"
      unfolding s by (intro lessThan_step_returns) simp_all
    then show "returns (lessThan_step x y ts i s) (?I i)"
    proof (rule returns_mono)
      fix s' assume *: "(\<lambda>(r', d', k''). bit_N r' = n \<and> bit_N d' = n \<and> k'' = k' + 4 \<and>
        bval r' = (bval r \<or> (bin_bit x i \<noteq> bin_bit y i) \<and> \<not> bval d \<and> bin_bit y i) \<and>
        bval d' = (bval d \<or> bin_bit x i \<noteq> bin_bit y i)) s'"
      show "?I i s'"
        unfolding drop_bit_neq_step [of i] drop_bit_less_step [of i]
        using i I * by (simp add: s bit_unat_bin split: prod.splits)
    qed
  qed
  then show ?thesis
    using assms by (auto simp: secureLessThan_def bin_ok_N returns_bindE word_less_nat_alt
        returns_throw_if elim!: returns_mono)
qed

lemma and_level_returns:
  "bag_ok n ts \<Longrightarrow> \<forall>b\<in>set level. bit_N b = n \<Longrightarrow> k + length level div 2 \<le> length ts \<Longrightarrow>
   returns (and_level ts level k) (\<lambda>(next, k'). k' = k + length level div 2 \<and>
     length next = (length level + 1) div 2 \<and> (\<forall>b\<in>set next. bit_N b = n) \<and>
     ((\<forall>b\<in>set next. bval b) = (\<forall>b\<in>set level. bval b)))"
proof (induction ts level k rule: and_level.induct)
  case (1 ts a b rest k)
  have IH: "returns (and_level ts rest (Suc k)) (\<lambda>(next, k'). k' = Suc k + length rest div 2 \<and>
     length next = (length rest + 1) div 2 \<and> (\<forall>b\<in>set next. bit_N b = n) \<and>
     ((\<forall>b\<in>set next. bval b) = (\<forall>b\<in>set rest. bval b)))"
    by (rule "1.IH") (use "1.prems" in auto)
  have "returns (bindE (takeTriple ts k) (\<lambda>(t, k1). bindE (secureAnd a b t) (\<lambda>c.
      bindE (and_level ts rest k1) (\<lambda>(next, k2). Inr (c # next, k2)))))
    (\<lambda>(next, k'). k' = Suc k + length rest div 2 \<and>
     length next = Suc ((length rest + 1) div 2) \<and> (\<forall>b\<in>set next. bit_N b = n) \<and>
     ((\<forall>b\<in>set next. bval b) = (bval a \<and> bval b \<and> (\<forall>b\<in>set rest. bval b))))"
  proof (intro gate_wp)
    fix c assume "bit_N c = bit_N a" "bval c = (bval a \<and> bval b)"
    then show "returns (bindE (and_level ts rest (Suc k)) (\<lambda>(next, k2). Inr (c # next, k2)))
      (\<lambda>(next, k'). k' = Suc k + length rest div 2 \<and>
       length next = Suc ((length rest + 1) div 2) \<and> (\<forall>b\<in>set next. bit_N b = n) \<and>
       ((\<forall>b\<in>set next. bval b) = (bval a \<and> bval b \<and> (\<forall>b\<in>set rest. bval b))))"
      using "1.prems" by (intro returns_bind_intro [OF IH]) (auto split: prod.splits)
  qed (use "1.prems" in simp_all)
  then show ?case by simp
qed simp_all

lemma and_tree_returns:
  "bag_ok n ts \<Longrightarrow> level \<noteq> [] \<Longrightarrow> \<forall>b\<in>set level. bit_N b = n \<Longrightarrow>
   k + length level - 1 \<le> length ts \<Longrightarrow>
   returns (and_tree ts level k) (\<lambda>(out, k'). k' = k + length level - 1 \<and>
     (\<exists>b. out = [b] \<and> bit_N b = n \<and> bval b = (\<forall>b\<in>set level. bval b)))"
proof (induction ts level k rule: and_tree.induct)
  case (1 ts level k)
  show ?case
  proof (cases "length level > 1")
    case True
    then have "length level div 2 \<le> length level - 1" by arith
    then have "k + length level div 2 \<le> length ts" using "1.prems"(4) True by arith
    from and_level_returns [OF "1.prems"(1,3) this] obtain nxt where
      n: "and_level ts level k = Inr (nxt, k + length level div 2)"
        "length nxt = (length level + 1) div 2" "\<forall>b\<in>set nxt. bit_N b = n"
        "(\<forall>b\<in>set nxt. bval b) = (\<forall>b\<in>set level. bval b)"
      by (auto simp: returns_def)
    have total: "length level div 2 + length nxt = length level" using n(2) by arith
    have "nxt \<noteq> []" using n(2) True by auto
    then have "returns (and_tree ts nxt (k + length level div 2)) (\<lambda>(out, k').
        k' = k + length level div 2 + length nxt - 1 \<and>
        (\<exists>b. out = [b] \<and> bit_N b = n \<and> bval b = (\<forall>b\<in>set nxt. bval b)))"
      using "1.prems" n total by (intro "1.IH" [OF True n(1) refl]) simp_all
    then show ?thesis
      using True n total by (simp add: and_tree.simps [of ts level k] add.assoc)
  next
    case False
    with "1.prems"(2) obtain b where "level = [b]" by (cases level) auto
    then show ?thesis using "1.prems" by (simp add: and_tree.simps)
  qed
qed

lemma bin_eq_iff: "bin_reconstruct x = bin_reconstruct y \<longleftrightarrow> (\<forall>i<64. bin_bit x i = bin_bit y i)"
  by (auto simp: bit_eq_iff bit_bin_reconstruct)

lemma secureEqual_returns:
  assumes "bag_ok n ts" "bin_ok n x" "bin_ok n y" "k + 63 \<le> length ts"
  shows "returns (secureEqual x y ts k) (\<lambda>(b, k'). bit_N b = n \<and> k' = k + 63 \<and>
    bval b = (bin_reconstruct x = bin_reconstruct y))"
proof -
  let ?f = "\<lambda>i. bindE (vec_at (bin_bits x) i) (\<lambda>x_i. bindE (vec_at (bin_bits y) i) (\<lambda>y_i.
    bindE (xorShared x_i y_i) notShared))"
  have "returns (?f i) (\<lambda>b. bit_N b = n \<and> bval b = (bin_bit x i = bin_bit y i))" if "i < 64" for i
  proof -
    have "returns (bindE (xorShared (bin_bits x ! i) (bin_bits y ! i))
        (\<lambda>d. bindE (notShared d) Inr)) (\<lambda>b. bit_N b = n \<and> bval b = (bin_bit x i = bin_bit y i))"
      using assms that by (intro gate_wp) (simp_all add: bin_ok_def bag_ok_pos)
    then show ?thesis using assms that by (simp add: bin_ok_def)
  qed
  then have "returns (mapE ?f [0..<64]) (\<lambda>eqs. length eqs = 64 \<and>
      (\<forall>i<64. bit_N (eqs ! i) = n \<and> bval (eqs ! i) = (bin_bit x i = bin_bit y i)))"
    by (rule returns_mapE_upt)
  then obtain eqs where eqs: "mapE ?f [0..<64] = Inr eqs" "length eqs = 64"
      "\<forall>i<64. bit_N (eqs ! i) = n \<and> bval (eqs ! i) = (bin_bit x i = bin_bit y i)"
    by (elim returnsE conjE) (rule that)
  then have set: "\<forall>b\<in>set eqs. bit_N b = n"
      "(\<forall>b\<in>set eqs. bval b) = (bin_reconstruct x = bin_reconstruct y)"
    by (auto simp: all_set_conv_all_nth bin_eq_iff)
  have "returns (and_tree ts eqs k) (\<lambda>(out, k'). k' = k + length eqs - 1 \<and>
     (\<exists>b. out = [b] \<and> bit_N b = n \<and> bval b = (\<forall>b\<in>set eqs. bval b)))"
    using assms eqs(2) set by (intro and_tree_returns) auto
  then show ?thesis
    using assms eqs(1,2) set(2)
    by (auto simp: secureEqual_def bin_ok_N returns_def)
qed

lemma wp_secureLessThan [gate_wp]:
  "bag_ok (bin_N x) ts \<Longrightarrow> bin_ok (bin_N x) x \<Longrightarrow> bin_ok (bin_N x) y \<Longrightarrow> k + 256 \<le> length ts \<Longrightarrow>
   (\<And>b. bit_N b = bin_N x \<Longrightarrow> bval b = (bin_reconstruct x < bin_reconstruct y) \<Longrightarrow>
      returns (f b (k + 256)) P) \<Longrightarrow>
   returns (bindE (secureLessThan x y ts k) (\<lambda>(b, k'). f b k')) P"
  by (rule returns_bind_intro, erule (3) secureLessThan_returns, clarsimp)

lemma wp_secureEqual [gate_wp]:
  "bag_ok (bin_N x) ts \<Longrightarrow> bin_ok (bin_N x) x \<Longrightarrow> bin_ok (bin_N x) y \<Longrightarrow> k + 63 \<le> length ts \<Longrightarrow>
   (\<And>b. bit_N b = bin_N x \<Longrightarrow> bval b = (bin_reconstruct x = bin_reconstruct y) \<Longrightarrow>
      returns (f b (k + 63)) P) \<Longrightarrow>
   returns (bindE (secureEqual x y ts k) (\<lambda>(b, k'). f b k')) P"
  by (rule returns_bind_intro, erule (3) secureEqual_returns, clarsimp)

subsection \<open>Properties\<close>

lemma bin_sharing_exists: "2 \<le> n \<Longrightarrow> \<exists>x. bin_ok n x \<and> bin_reconstruct x = v"
  using shareU64Bin_returns [of n counter_prng v 0] by (auto simp: returns_def)

text \<open>C21: on well-formed sharings and a bag with 256 triples left, \<open>secureLessThan\<close> returns a shared bit that
  opens to the unsigned comparison of the opened values and advances the cursor by exactly its
  published cost.\<close>

theorem secureLessThan_correct:
  assumes "bag_ok n ts" "bin_ok n x" "bin_ok n y" "k + unat secureLessThanTripleCost \<le> length ts"
  shows "\<exists>b. secureLessThan x y ts k = Inr (b, k + unat secureLessThanTripleCost) \<and>
    bval b = (bin_reconstruct x < bin_reconstruct y)"
  using secureLessThan_returns [OF assms(1-3), of k] assms(4)
  by (auto simp: returns_def secureLessThanTripleCost_def)

lemma secureLessThan_correct_witness:
  "\<exists>x y b. bin_reconstruct x = 3 \<and> bin_reconstruct y = 5 \<and>
     secureLessThan x y (replicate 256 (zero_triple 2)) 0 = Inr (b, 256) \<and> bval b"
proof -
  obtain x y where "bin_ok 2 x" "bin_reconstruct x = 3" "bin_ok 2 y" "bin_reconstruct y = 5"
    using bin_sharing_exists [of 2 3] bin_sharing_exists [of 2 5] by auto
  then show ?thesis
    using secureLessThan_correct [OF bag_ok_zero_triples [of 2 256], of x y 0]
    by (force simp: secureLessThanTripleCost_def)
qed

text \<open>Likewise \<open>secureEqual\<close> opens to the equality of the opened values and consumes exactly 63 triples.\<close>

theorem secureEqual_correct:
  assumes "bag_ok n ts" "bin_ok n x" "bin_ok n y" "k + unat secureEqualTripleCost \<le> length ts"
  shows "\<exists>b. secureEqual x y ts k = Inr (b, k + unat secureEqualTripleCost) \<and>
    bval b = (bin_reconstruct x = bin_reconstruct y)"
  using secureEqual_returns [OF assms(1-3), of k] assms(4)
  by (auto simp: returns_def secureEqualTripleCost_def)

lemma secureEqual_correct_witness:
  "\<exists>x y b. bin_reconstruct x = 3 \<and> bin_reconstruct y = 5 \<and>
     secureEqual x y (replicate 64 (zero_triple 2)) 1 = Inr (b, 64) \<and> \<not> bval b"
proof -
  obtain x y where "bin_ok 2 x" "bin_reconstruct x = 3" "bin_ok 2 y" "bin_reconstruct y = 5"
    using bin_sharing_exists [of 2 3] bin_sharing_exists [of 2 5] by auto
  then show ?thesis
    using secureEqual_correct [OF bag_ok_zero_triples [of 2 64], of x y 1]
    by (force simp: secureEqualTripleCost_def)
qed

end
