(* ===== verification/Mpc_Arithmetic.thy ===== *)
theory Mpc_Arithmetic
  imports Secure_Compare
begin

text \<open>
  Arithmetic circuits on bit-shared 64-bit values (\<open>volePSI/MpMpcArithmetic.h\<close>,
  \<open>volePSI/MpMpcArithmetic.cpp\<close>): ripple-carry addition, subtraction by two's complement,
  the one-bit multiplexer and 64-bit long division. Results are stated against 64-bit word
  arithmetic; carry, borrow and division by zero are outputs of their own.

  The code fills the 64 entries of a result in index order; the model appends them.
\<close>

definition arithTakeTriple :: "BeaverTripleBit list \<Rightarrow> nat \<Rightarrow> (BeaverTripleBit \<times> nat) result" where
  "arithTakeTriple triples idx =
     throw_if (idx \<ge> length triples) (RuntimeError ''MpMpcArithmetic::takeTriple: bag exhausted'')
       (Inr (triples ! idx, idx + 1))"

definition arithNotShared :: "SharedBit \<Rightarrow> SharedBit result" where
  "arithNotShared a = xorConst a 1"

subsection \<open>Addition and subtraction\<close>

record AddResult =
  add_sum :: SharedU64Bin
  add_carryOut :: SharedBit

record SubResult =
  sub_diff :: SharedU64Bin
  sub_borrowOut :: SharedBit

text \<open>The body both adder loops share: propagate, generate, sum bit and carry of bit \<open>i\<close>.\<close>

definition adder_step ::
  "SharedBit list \<Rightarrow> SharedBit list \<Rightarrow> BeaverTripleBit list \<Rightarrow> nat \<Rightarrow>
   SharedBit list \<times> SharedBit \<times> nat \<Rightarrow> (SharedBit list \<times> SharedBit \<times> nat) result" where
  "adder_step xs ys triples i = (\<lambda>(out, carry, k).
     bindE (vec_at xs i) (\<lambda>x_i.
     bindE (vec_at ys i) (\<lambda>y_i.
     bindE (xorShared x_i y_i) (\<lambda>p.
     bindE (arithTakeTriple triples k) (\<lambda>(t1, k1).
     bindE (secureAnd x_i y_i t1) (\<lambda>g.
     bindE (xorShared p carry) (\<lambda>s_i.
     bindE (arithTakeTriple triples k1) (\<lambda>(t2, k2).
     bindE (secureAnd p carry t2) (\<lambda>pc.
     bindE (xorShared g pc) (\<lambda>carry'.
     Inr (out @ [s_i], carry', k2)))))))))))"

definition secureAddU64BinTripleCost :: "64 word" where
  "secureAddU64BinTripleCost = 1 + 2 * 63"

definition secureAddU64Bin ::
  "SharedU64Bin \<Rightarrow> SharedU64Bin \<Rightarrow> BeaverTripleBit list \<Rightarrow> nat \<Rightarrow> (AddResult \<times> nat) result" where
  "secureAddU64Bin x y triples k =
     throw_if (bin_N x \<noteq> bin_N y) (RuntimeError ''secureAddU64Bin: N mismatch'')
       (bindE (vec_at (bin_bits x) 0) (\<lambda>x_0.
        bindE (vec_at (bin_bits y) 0) (\<lambda>y_0.
        bindE (xorShared x_0 y_0) (\<lambda>s_0.
        bindE (arithTakeTriple triples k) (\<lambda>(t, k1).
        bindE (secureAnd x_0 y_0 t) (\<lambda>carry.
        bindE (foldE (adder_step (bin_bits x) (bin_bits y) triples) [1..<64] ([s_0], carry, k1))
          (\<lambda>(out, carry', k').
        Inr (\<lparr>add_sum = \<lparr>bin_bits = out\<rparr>, add_carryOut = carry'\<rparr>, k'))))))))"

definition secureSubU64BinTripleCost :: "64 word" where
  "secureSubU64BinTripleCost = 2 * 64"

definition secureSubU64Bin ::
  "SharedU64Bin \<Rightarrow> SharedU64Bin \<Rightarrow> BeaverTripleBit list \<Rightarrow> nat \<Rightarrow> (SubResult \<times> nat) result" where
  "secureSubU64Bin x y triples k =
     throw_if (bin_N x \<noteq> bin_N y) (RuntimeError ''secureSubU64Bin: N mismatch'')
       (bindE (mapE (\<lambda>i. bindE (vec_at (bin_bits y) i) arithNotShared) [0..<64]) (\<lambda>ny.
        bindE (vec_set (bit_shares (bit_zero (bin_N x))) 0 1) (\<lambda>one.
        bindE (foldE (adder_step (bin_bits x) ny triples) [0..<64] ([], \<lparr>bit_shares = one\<rparr>, k))
          (\<lambda>(out, carry', k').
        bindE (arithNotShared carry') (\<lambda>borrow.
        Inr (\<lparr>sub_diff = \<lparr>bin_bits = out\<rparr>, sub_borrowOut = borrow\<rparr>, k'))))))"

subsection \<open>Multiplexer and division\<close>

definition secureSelectBit ::
  "SharedBit \<Rightarrow> SharedBit \<Rightarrow> SharedBit \<Rightarrow> BeaverTripleBit list \<Rightarrow> nat \<Rightarrow>
   (SharedBit \<times> nat) result" where
  "secureSelectBit cond a b triples k =
     bindE (xorShared a b) (\<lambda>axb.
     bindE (arithTakeTriple triples k) (\<lambda>(t, k1).
     bindE (secureAnd cond axb t) (\<lambda>maybe.
     bindE (xorShared b maybe) (\<lambda>r. Inr (r, k1)))))"

record DivResult =
  div_quotient :: SharedU64Bin
  div_remainder :: SharedU64Bin
  div_divByZero :: SharedBit

definition secureDivideU64BinTripleCost :: "64 word" where
  "secureDivideU64BinTripleCost = 64 * (secureSubU64BinTripleCost + 64) + 63"

text \<open>One round of the long division for numerator bit \<open>i\<close>.\<close>

definition divide_step ::
  "SharedU64Bin \<Rightarrow> SharedU64Bin \<Rightarrow> BeaverTripleBit list \<Rightarrow> nat \<Rightarrow>
   SharedU64Bin \<times> SharedU64Bin \<times> nat \<Rightarrow> (SharedU64Bin \<times> SharedU64Bin \<times> nat) result" where
  "divide_step num denom triples i = (\<lambda>(remainder, quotient, k).
     bindE (mapE (\<lambda>j. if j = 0 then vec_at (bin_bits num) i
                       else vec_at (bin_bits remainder) (j - 1)) [0..<64]) (\<lambda>Rshift.
     bindE (secureSubU64Bin \<lparr>bin_bits = Rshift\<rparr> denom triples k) (\<lambda>(sub, k1).
     bindE (arithNotShared (sub_borrowOut sub)) (\<lambda>qbit.
     bindE (foldE (\<lambda>j (newR, k2).
              bindE (vec_at Rshift j) (\<lambda>r_j.
              bindE (vec_at (bin_bits (sub_diff sub)) j) (\<lambda>d_j.
              bindE (secureSelectBit (sub_borrowOut sub) r_j d_j triples k2) (\<lambda>(m, k3).
              Inr (newR @ [m], k3))))) [0..<64] ([], k1)) (\<lambda>(newR, k4).
     bindE (vec_set (bin_bits quotient) i qbit) (\<lambda>q.
     Inr (\<lparr>bin_bits = newR\<rparr>, \<lparr>bin_bits = q\<rparr>, k4)))))))"

definition secureDivideU64Bin ::
  "SharedU64Bin \<Rightarrow> SharedU64Bin \<Rightarrow> BeaverTripleBit list \<Rightarrow> nat \<Rightarrow> (DivResult \<times> nat) result" where
  "secureDivideU64Bin num denom triples k =
     throw_if (bin_N num \<noteq> bin_N denom) (RuntimeError ''secureDivideU64Bin: N mismatch'')
       (let N = bin_N num; zero = \<lparr>bin_bits = replicate 64 (bit_zero N)\<rparr> in
        bindE (secureEqual denom zero triples k) (\<lambda>(dbz, k1).
        bindE (foldE (divide_step num denom triples) (rev [0..<64]) (zero, zero, k1))
          (\<lambda>(remainder, quotient, k').
        Inr (\<lparr>div_quotient = quotient, div_remainder = remainder, div_divByZero = dbz\<rparr>, k'))))"

subsection \<open>Gate rules\<close>

lemma wp_arithTakeTriple [gate_wp]:
  "k < length ts \<Longrightarrow> returns (f (ts ! k) (Suc k)) P \<Longrightarrow>
   returns (bindE (arithTakeTriple ts k) (\<lambda>(t, k'). f t k')) P"
  by (simp add: arithTakeTriple_def)

lemma wp_arithNotShared [gate_wp]:
  "0 < bit_N a \<Longrightarrow>
   (\<And>c. bit_N c = bit_N a \<Longrightarrow> bval c = (\<not> bval a) \<Longrightarrow> returns (f c) P) \<Longrightarrow>
   returns (bindE (arithNotShared a) f) P"
  unfolding arithNotShared_def by (rule returns_bind_intro, erule xorConst_returns, simp)

lemma secureSelectBit_returns:
  assumes "bag_ok (bit_N c) ts" "k < length ts" "bit_N a = bit_N c" "bit_N b = bit_N c"
  shows "returns (secureSelectBit c a b ts k)
    (\<lambda>(r, k'). bit_N r = bit_N c \<and> bval r = (if bval c then bval a else bval b) \<and> k' = Suc k)"
  unfolding secureSelectBit_def using assms
  by (intro gate_wp) (simp_all add: bag_ok_pos, blast+)

lemma wp_secureSelectBit [gate_wp]:
  "bag_ok (bit_N c) ts \<Longrightarrow> k < length ts \<Longrightarrow> bit_N a = bit_N c \<Longrightarrow> bit_N b = bit_N c \<Longrightarrow>
   (\<And>r. bit_N r = bit_N c \<Longrightarrow> bval r = (if bval c then bval a else bval b) \<Longrightarrow>
      returns (f r (Suc k)) P) \<Longrightarrow>
   returns (bindE (secureSelectBit c a b ts k) (\<lambda>(r, k'). f r k')) P"
  by (rule returns_bind_intro, erule (3) secureSelectBit_returns, clarsimp)

subsection \<open>Little-endian values\<close>

definition bits_val :: "SharedBit list \<Rightarrow> nat" where
  "bits_val bs = horner_sum of_bool 2 (map bval bs)"

lemma bits_val_Nil [simp]: "bits_val [] = 0"
  by (simp add: bits_val_def)

lemma bits_val_snoc: "bits_val (bs @ [b]) = bits_val bs + 2 ^ length bs * of_bool (bval b)"
  by (simp add: bits_val_def horner_sum_append)

lemma bits_val_take_Suc:
  "i < length bs \<Longrightarrow> bits_val (take (Suc i) bs) = bits_val (take i bs) + 2 ^ i * of_bool (bval (bs ! i))"
  by (simp add: take_Suc_conv_app_nth bits_val_snoc min_def)

lemma bits_val_less: "bits_val bs < 2 ^ length bs"
  by (induction bs rule: rev_induct) (auto simp: bits_val_snoc)

lemma unat_bin_reconstruct: "length (bin_bits x) = 64 \<Longrightarrow> unat (bin_reconstruct x) = bits_val (bin_bits x)"
proof (rule bit_eqI)
  fix i assume "length (bin_bits x) = 64"
  then show "bit (unat (bin_reconstruct x)) i = bit (bits_val (bin_bits x)) i"
    by (auto simp: bits_val_def bit_horner_sum_bit_iff bit_unsigned_iff bit_bin_reconstruct)
qed

lemma bits_val_complement:
  assumes "length ys = length xs" "\<forall>i<length xs. bval (ys ! i) = (\<not> bval (xs ! i))"
  shows "bits_val xs + bits_val ys + 1 = 2 ^ length xs"
  using assms
proof (induction xs arbitrary: ys rule: rev_induct)
  case (snoc x xs)
  from snoc.prems(1) obtain ys' y where ys: "ys = ys' @ [y]" "length ys' = length xs"
    by (cases ys rule: rev_cases) auto
  have "bval (ys' ! i) = (\<not> bval (xs ! i))" if "i < length xs" for i
    using snoc.prems(2) [rule_format, of i] that ys by (simp add: nth_append)
  then have "\<forall>i<length xs. bval (ys' ! i) = (\<not> bval (xs ! i))" by blast
  with snoc.IH [OF ys(2)] have "bits_val xs + bits_val ys' + 1 = 2 ^ length xs" .
  moreover have "bval y = (\<not> bval x)" using snoc.prems(2) ys by (auto simp: nth_append)
  ultimately show ?case using ys by (simp add: bits_val_snoc)
qed simp

subsection \<open>Correctness of the adder\<close>

text \<open>
  \<open>adder_inv\<close> is the ripple-carry invariant: after \<open>i\<close> bits, the sum so far plus the carry
  at weight \<open>2 ^ i\<close> is the sum of the two \<open>i\<close>-bit prefixes and the carry-in, and two triples
  per bit are spent, less the \<open>e\<close> that the plain adder saves on bit 0.
\<close>

definition adder_inv ::
  "nat \<Rightarrow> SharedBit list \<Rightarrow> SharedBit list \<Rightarrow> nat \<Rightarrow> nat \<Rightarrow> nat \<Rightarrow> nat \<Rightarrow> SharedBit list \<times> SharedBit \<times> nat \<Rightarrow> bool"
where
  "adder_inv n xs ys c0 e k0 i = (\<lambda>(out, carry, k). length out = i \<and> (\<forall>j<i. bit_N (out ! j) = n) \<and>
     bit_N carry = n \<and> k + e = k0 + 2 * i \<and>
     bits_val out + 2 ^ i * of_bool (bval carry) = bits_val (take i xs) + bits_val (take i ys) + c0)"

lemma full_adder_nat:
  "of_bool ((a \<noteq> b) \<noteq> c) + 2 * of_bool ((a \<and> b) \<noteq> ((a \<noteq> b) \<and> c))
     = of_bool a + of_bool b + (of_bool c :: nat)"
  by (cases a; cases b; cases c) simp_all

lemma adder_inv_extend:
  assumes I: "adder_inv n xs ys c0 e k0 i (out, carry, k)" and len: "i < length xs" "i < length ys"
    and r: "bit_N r = n" "bit_N carry' = n" "bval r = ((bval (xs ! i) \<noteq> bval (ys ! i)) \<noteq> bval carry)"
      "bval carry' = ((bval (xs ! i) \<and> bval (ys ! i)) \<noteq> ((bval (xs ! i) \<noteq> bval (ys ! i)) \<and> bval carry))"
  shows "adder_inv n xs ys c0 e k0 (Suc i) (out @ [r], carry', k + 2)"
proof -
  let ?a = "bval (xs ! i)" and ?b = "bval (ys ! i)" and ?c = "bval carry"
  have I': "length out = i" "\<forall>j<i. bit_N (out ! j) = n" "bit_N carry = n" "k + e = k0 + 2 * i"
      "bits_val out + 2 ^ i * of_bool ?c = bits_val (take i xs) + bits_val (take i ys) + c0"
    using I by (simp_all add: adder_inv_def)
  have "bits_val (out @ [r]) + 2 ^ Suc i * of_bool (bval carry')
      = bits_val out + 2 ^ i * (of_bool (bval r) + 2 * of_bool (bval carry'))"
    by (simp only: bits_val_snoc I'(1)) (simp add: algebra_simps)
  also have "\<dots> = bits_val out + 2 ^ i * of_bool ?c + 2 ^ i * (of_bool ?a + of_bool ?b)"
    by (simp only: r(3,4) full_adder_nat) (simp add: algebra_simps)
  also have "\<dots> = bits_val (take (Suc i) xs) + bits_val (take (Suc i) ys) + c0"
    using len by (simp only: I'(5) bits_val_take_Suc) (simp add: algebra_simps)
  finally show ?thesis
    using r(1,2) I' by (simp add: adder_inv_def nth_append less_Suc_eq)
qed

lemma adder_step_returns:
  assumes "bag_ok n ts" "i < length xs" "i < length ys" "bit_N (xs ! i) = n" "bit_N (ys ! i) = n"
    and "adder_inv n xs ys c0 e k0 i s" "k0 + 2 * i + 2 \<le> length ts + e"
  shows "returns (adder_step xs ys ts i s) (adder_inv n xs ys c0 e k0 (Suc i))"
proof -
  obtain out carry k where s: "s = (out, carry, k)" by (cases s)
  let ?a = "bval (xs ! i)" and ?b = "bval (ys ! i)" and ?c = "bval carry"
  have I: "length out = i" "\<forall>j<i. bit_N (out ! j) = n" "bit_N carry = n" "k + e = k0 + 2 * i"
      "bits_val out + 2 ^ i * of_bool ?c = bits_val (take i xs) + bits_val (take i ys) + c0"
    using assms(6) by (simp_all add: adder_inv_def s)
  have "returns (adder_step xs ys ts i s) (\<lambda>(out', carry', k'). \<exists>r. out' = out @ [r] \<and>
    bit_N r = n \<and> bit_N carry' = n \<and> k' = k + 2 \<and> bval r = ((?a \<noteq> ?b) \<noteq> ?c) \<and>
    bval carry' = ((?a \<and> ?b) \<noteq> ((?a \<noteq> ?b) \<and> ?c)))"
    unfolding adder_step_def s split using assms I by (intro gate_wp) simp_all
  then show ?thesis
  proof (rule returns_mono)
    fix s' assume "(\<lambda>(out', carry', k'). \<exists>r. out' = out @ [r] \<and>
      bit_N r = n \<and> bit_N carry' = n \<and> k' = k + 2 \<and> bval r = ((?a \<noteq> ?b) \<noteq> ?c) \<and>
      bval carry' = ((?a \<and> ?b) \<noteq> ((?a \<noteq> ?b) \<and> ?c))) s'"
    then obtain r carry' where r: "s' = (out @ [r], carry', k + 2)" "bit_N r = n" "bit_N carry' = n"
        "bval r = ((?a \<noteq> ?b) \<noteq> ?c)" "bval carry' = ((?a \<and> ?b) \<noteq> ((?a \<noteq> ?b) \<and> ?c))"
      by (auto split: prod.splits)
    with adder_inv_extend [OF assms(6) [unfolded s] assms(2,3) r(2-5)]
    show "adder_inv n xs ys c0 e k0 (Suc i) s'" by simp
  qed
qed

lemma adder_inv_start:
  "bit_N c = n \<Longrightarrow> c0 = of_bool (bval c) \<Longrightarrow> adder_inv n xs ys c0 0 k 0 ([], c, k)"
  by (simp add: adder_inv_def)

text \<open>What a finished adder run says of the words behind the bits.\<close>

lemma adder_inv_word:
  assumes "adder_inv n xs ys c0 e k0 64 (out, carry, k)" "length xs = 64" "length ys = 64"
  shows "bin_ok n \<lparr>bin_bits = out\<rparr>" "bit_N carry = n" "k + e = k0 + 128"
    "unat (bin_reconstruct \<lparr>bin_bits = out\<rparr>) + 2 ^ 64 * of_bool (bval carry)
       = bits_val xs + bits_val ys + c0"
  using assms by (simp_all add: adder_inv_def bin_ok_def unat_bin_reconstruct)

lemma wrap_eq_add:
  fixes x y z :: "64 word"
  assumes "unat z + 2 ^ 64 * of_bool c = unat x + unat y"
  shows "z = x + y \<and> c = (2 ^ 64 \<le> unat x + unat y)"
proof -
  have z: "unat z < 2 ^ 64" using unsigned_less [of z, where 'a = nat] by simp
  have "unat (x + y) = (unat x + unat y) mod 2 ^ 64" by (simp add: unat_word_ariths)
  also have "\<dots> = unat z" using assms [symmetric] z by simp
  finally have "z = x + y" by (simp add: word_unat_eq_iff)
  moreover have "c = (2 ^ 64 \<le> unat x + unat y)"
    using z unfolding assms [symmetric] by (cases c) auto
  ultimately show ?thesis ..
qed

lemma adder_loop_returns:
  assumes "bag_ok n ts" "length xs = 64" "length ys = 64"
    and "\<And>i. i < 64 \<Longrightarrow> bit_N (xs ! i) = n" "\<And>i. i < 64 \<Longrightarrow> bit_N (ys ! i) = n"
    and "a \<le> 64" "adder_inv n xs ys c0 e k0 a s" "k0 + 128 \<le> length ts + e"
  shows "returns (foldE (adder_step xs ys ts) [a..<64] s) (adder_inv n xs ys c0 e k0 64)"
  using assms by (intro returns_foldE_upt_from adder_step_returns) auto

lemma secureAddU64Bin_returns:
  assumes "bag_ok n ts" "bin_ok n x" "bin_ok n y" "k + 127 \<le> length ts"
  shows "returns (secureAddU64Bin x y ts k) (\<lambda>(r, k'). bin_ok n (add_sum r) \<and>
    bit_N (add_carryOut r) = n \<and> k' = k + 127 \<and>
    bin_reconstruct (add_sum r) = bin_reconstruct x + bin_reconstruct y \<and>
    bval (add_carryOut r) = (2 ^ 64 \<le> unat (bin_reconstruct x) + unat (bin_reconstruct y)))"
proof -
  let ?xs = "bin_bits x" and ?ys = "bin_bits y"
  have len: "length ?xs = 64" "length ?ys = 64" using assms by (simp_all add: bin_ok_def)
  have ns: "bit_N (?xs ! i) = n" "bit_N (?ys ! i) = n" if "i < 64" for i
    using assms that by (simp_all add: bin_ok_def)
  let ?loop = "\<lambda>s_0 carry k1. bindE (foldE (adder_step ?xs ?ys ts) [1..<64] ([s_0], carry, k1))
    (\<lambda>(out, carry', k'). Inr (\<lparr>add_sum = \<lparr>bin_bits = out\<rparr>, add_carryOut = carry'\<rparr>, k'))"
  have "returns (?loop s_0 carry (Suc k)) (\<lambda>(r, k'). bin_ok n (add_sum r) \<and>
      bit_N (add_carryOut r) = n \<and> k' = k + 127 \<and>
      unat (bin_reconstruct (add_sum r)) + 2 ^ 64 * of_bool (bval (add_carryOut r))
        = bits_val ?xs + bits_val ?ys)"
    if "bit_N s_0 = n" "bval s_0 = (bin_bit x 0 \<noteq> bin_bit y 0)"
      "bit_N carry = n" "bval carry = (bin_bit x 0 \<and> bin_bit y 0)" for s_0 carry
  proof -
    have "adder_inv n ?xs ?ys 0 1 k 1 ([s_0], carry, Suc k)"
      using that len by (auto simp: adder_inv_def bits_val_def take_Suc_conv_app_nth)
    from adder_loop_returns [OF assms(1) len ns _ this] assms(4)
    have "returns (foldE (adder_step ?xs ?ys ts) [1..<64] ([s_0], carry, Suc k))
      (adder_inv n ?xs ?ys 0 1 k 64)" by simp
    then show ?thesis
    proof (rule returns_bind_intro)
      fix s assume s: "adder_inv n ?xs ?ys 0 1 k 64 s"
      obtain out c k' where "s = (out, c, k')" by (cases s)
      with adder_inv_word [OF s [unfolded this] len] show "returns (case s of (out, carry', k') \<Rightarrow>
          Inr (\<lparr>add_sum = \<lparr>bin_bits = out\<rparr>, add_carryOut = carry'\<rparr>, k'))
        (\<lambda>(r, k'). bin_ok n (add_sum r) \<and> bit_N (add_carryOut r) = n \<and> k' = k + 127 \<and>
          unat (bin_reconstruct (add_sum r)) + 2 ^ 64 * of_bool (bval (add_carryOut r))
            = bits_val ?xs + bits_val ?ys)"
        by simp
    qed
  qed
  note loop = this
  have "returns (secureAddU64Bin x y ts k) (\<lambda>(r, k'). bin_ok n (add_sum r) \<and>
      bit_N (add_carryOut r) = n \<and> k' = k + 127 \<and>
      unat (bin_reconstruct (add_sum r)) + 2 ^ 64 * of_bool (bval (add_carryOut r))
        = bits_val ?xs + bits_val ?ys)"
    unfolding secureAddU64Bin_def using assms len ns
    by (intro gate_wp loop) (simp_all add: bin_ok_N)
  then show ?thesis
    by (rule returns_mono) (use len in \<open>auto simp: unat_bin_reconstruct dest!: wrap_eq_add [simplified]
        simp flip: unat_bin_reconstruct\<close>)
qed

lemma wrap_eq_sub:
  fixes x y z :: "64 word"
  assumes "unat z + 2 ^ 64 * of_bool c + unat y = unat x + 2 ^ 64"
  shows "z = x - y \<and> (\<not> c) = (x < y)"
proof -
  have z: "unat z < 2 ^ 64" using unsigned_less [of z, where 'a = nat] by simp
  have "unat (z + y) = (unat z + unat y) mod 2 ^ 64" by (simp add: unat_word_ariths)
  also have "\<dots> = (unat z + unat y + 2 ^ 64 * of_bool c) mod 2 ^ 64" by (simp only: mod_mult_self2)
  also have "unat z + unat y + 2 ^ 64 * of_bool c = unat x + 2 ^ 64" using assms by simp
  also have "(unat x + 2 ^ 64) mod 2 ^ 64 = unat x"
    using unsigned_less [of x, where 'a = nat] by simp
  finally have "z + y = x" by (simp add: word_unat_eq_iff)
  then have "z = x - y" by (simp add: algebra_simps)
  moreover have "(\<not> c) = (x < y)"
    using z assms by (cases c) (auto simp: word_less_nat_alt)
  ultimately show ?thesis ..
qed

lemma secureSubU64Bin_returns:
  assumes "bag_ok n ts" "bin_ok n x" "bin_ok n y" "k + 128 \<le> length ts"
  shows "returns (secureSubU64Bin x y ts k) (\<lambda>(r, k'). bin_ok n (sub_diff r) \<and>
    bit_N (sub_borrowOut r) = n \<and> k' = k + 128 \<and>
    bin_reconstruct (sub_diff r) = bin_reconstruct x - bin_reconstruct y \<and>
    bval (sub_borrowOut r) = (bin_reconstruct x < bin_reconstruct y))"
proof -
  let ?xs = "bin_bits x" and ?ys = "bin_bits y"
  have n: "0 < n" using assms by (simp add: bag_ok_pos)
  have len: "length ?xs = 64" "length ?ys = 64" using assms by (simp_all add: bin_ok_def)
  have "returns (mapE (\<lambda>i. bindE (vec_at ?ys i) arithNotShared) [0..<64])
    (\<lambda>ny. length ny = 64 \<and> (\<forall>i<64. bit_N (ny ! i) = n \<and> bval (ny ! i) = (\<not> bin_bit y i)))"
  proof (rule returns_mapE_upt)
    fix i :: nat assume "i < 64"
    then show "returns (bindE (vec_at ?ys i) arithNotShared)
        (\<lambda>b. bit_N b = n \<and> bval b = (\<not> bin_bit y i))"
      using assms n len xorConst_returns [of "?ys ! i" 1] by (simp add: arithNotShared_def bin_ok_def)
  qed
  then obtain ny where ny: "mapE (\<lambda>i. bindE (vec_at ?ys i) arithNotShared) [0..<64] = Inr ny"
      "length ny = 64" "\<And>i. i < 64 \<Longrightarrow> bit_N (ny ! i) = n"
      "\<forall>i<64. bval (ny ! i) = (\<not> bin_bit y i)"
    by (auto simp: returns_def)
  define c where "c = \<lparr>bit_shares = (bit_shares (bit_zero n))[0 := 1]\<rparr>"
  have c: "bit_N c = n" "bval c"
    using n by (cases n; simp add: c_def bit_zero_def bit_N_def bval_xor_list)+
  have compl: "bits_val ?ys + bits_val ny + 1 = 2 ^ 64"
    using bits_val_complement [of ny ?ys] ny len by simp
  have "adder_inv n ?xs ny 1 0 k 0 ([], c, k)" using c by (simp add: adder_inv_def)
  from adder_loop_returns [OF assms(1) len(1) ny(2) _ ny(3) _ this] assms
  have loop: "returns (foldE (adder_step ?xs ny ts) [0..<64] ([], c, k)) (adder_inv n ?xs ny 1 0 k 64)"
    by (simp add: bin_ok_def del: upt_rec_numeral)
  then obtain out carry k' where o: "foldE (adder_step ?xs ny ts) [0..<64] ([], c, k) = Inr (out, carry, k')"
      "adder_inv n ?xs ny 1 0 k 64 (out, carry, k')"
    by (auto simp: returns_def)
  note out = adder_inv_word [OF o(2) len(1) ny(2)]
  obtain b where b: "arithNotShared carry = Inr b" "bit_N b = n" "bval b = (\<not> bval carry)"
    using xorConst_returns [of carry 1] out(2) n by (auto simp: arithNotShared_def returns_def)
  have "unat (bin_reconstruct \<lparr>bin_bits = out\<rparr>) + 2 ^ 64 * of_bool (bval carry)
      + unat (bin_reconstruct y) = unat (bin_reconstruct x) + 2 ^ 64"
    using out(4) compl len by (simp add: unat_bin_reconstruct)
  from wrap_eq_sub [OF this] show ?thesis
    using assms n ny(1) o(1) b out
    by (simp add: secureSubU64Bin_def bin_ok_N vec_set_def bit_zero_def c_def del: upt_rec_numeral)
qed

lemma wp_secureSubU64Bin [gate_wp]:
  "bag_ok (bin_N x) ts \<Longrightarrow> bin_ok (bin_N x) x \<Longrightarrow> bin_ok (bin_N x) y \<Longrightarrow> k + 128 \<le> length ts \<Longrightarrow>
   (\<And>r. bin_ok (bin_N x) (sub_diff r) \<Longrightarrow> bit_N (sub_borrowOut r) = bin_N x \<Longrightarrow>
      bin_reconstruct (sub_diff r) = bin_reconstruct x - bin_reconstruct y \<Longrightarrow>
      bval (sub_borrowOut r) = (bin_reconstruct x < bin_reconstruct y) \<Longrightarrow>
      returns (f r (k + 128)) P) \<Longrightarrow>
   returns (bindE (secureSubU64Bin x y ts k) (\<lambda>(r, k'). f r k')) P"
  by (rule returns_bind_intro, erule (3) secureSubU64Bin_returns, clarsimp)

subsection \<open>Correctness of the division\<close>

lemma bits_val_Cons: "bits_val (b # bs) = of_bool (bval b) + 2 * bits_val bs"
  by (simp add: bits_val_def)

text \<open>Shifting the partial remainder: no bit is lost while it is below \<open>2 ^ 63\<close>.\<close>

lemma shift_value:
  assumes "length rs = 64" "bits_val rs < 2 ^ 63"
  shows "bits_val (b # take 63 rs) = 2 * bits_val rs + of_bool (bval b)"
proof -
  have "bits_val rs = bits_val (take 63 rs) + 2 ^ 63 * of_bool (bval (rs ! 63))"
    using bits_val_take_Suc [of 63 rs] assms(1) by simp
  with assms(2) have "bits_val rs = bits_val (take 63 rs)" by (cases "bval (rs ! 63)") auto
  then show ?thesis by (simp add: bits_val_Cons)
qed

lemma shift_returns:
  assumes "length ns = 64" "length rs = 64" "i < 64"
  shows "mapE (\<lambda>j. if j = 0 then vec_at ns i else vec_at rs (j - 1)) [0..<64]
    = Inr (ns ! i # take 63 rs)"
proof -
  let ?f = "\<lambda>j. if j = 0 then vec_at ns i else vec_at rs (j - 1)"
  have "returns (mapE ?f [0..<64]) (\<lambda>ys. length ys = 64 \<and>
      (\<forall>j<64. ys ! j = (if j = 0 then ns ! i else rs ! (j - 1))))"
    using assms by (intro returns_mapE_upt) (auto simp: wp_simps)
  then obtain ys where ys: "mapE ?f [0..<64] = Inr ys" "length ys = 64"
      "\<forall>j<64. ys ! j = (if j = 0 then ns ! i else rs ! (j - 1))"
    by (auto simp: returns_def)
  have "ys = ns ! i # take 63 rs"
    using ys(2,3) assms by (intro nth_equalityI) (auto simp: nth_Cons split: nat.splits)
  with ys(1) show ?thesis by simp
qed

lemma mux_returns:
  assumes "bag_ok n ts" "bit_N c = n" "bin_ok n \<lparr>bin_bits = as\<rparr>" "bin_ok n d" "k + 64 \<le> length ts"
  shows "returns (foldE (\<lambda>j (newR, k2).
      bindE (vec_at as j) (\<lambda>r_j.
      bindE (vec_at (bin_bits d) j) (\<lambda>d_j.
      bindE (secureSelectBit c r_j d_j ts k2) (\<lambda>(m, k3).
      Inr (newR @ [m], k3))))) [0..<64] ([], k))
    (\<lambda>(newR, k'). bin_ok n \<lparr>bin_bits = newR\<rparr> \<and> k' = k + 64 \<and>
       bin_reconstruct \<lparr>bin_bits = newR\<rparr>
         = (if bval c then bin_reconstruct \<lparr>bin_bits = as\<rparr> else bin_reconstruct d))"
    (is "returns (foldE ?f _ _) ?Q")
proof -
  have "returns (foldE ?f [0..<64] ([], k)) (\<lambda>(newR, k'). length newR = 64 \<and> k' = k + 1 * 64 \<and>
      (\<forall>j<64. bit_N (newR ! j) = n \<and> bval (newR ! j) = (if bval c then bval (as ! j) else bin_bit d j)))"
  proof (rule returns_foldE_build)
    fix j :: nat and out :: "SharedBit list"
    assume "j < 64"
    then show "returns (?f j (out, k + 1 * j)) (\<lambda>(out', k'). \<exists>y. out' = out @ [y] \<and> k' = k + 1 * Suc j \<and>
        bit_N y = n \<and> bval y = (if bval c then bval (as ! j) else bin_bit d j))"
      using assms unfolding split by (intro gate_wp) (simp_all add: bin_ok_def)
  qed
  then show ?thesis
    by (rule returns_mono)
      (auto simp: bin_ok_def bit_bin_reconstruct intro!: bin_reconstruct_eqI)
qed

lemma divide_step_returns:
  assumes "bag_ok n ts" "bin_ok n num" "bin_ok n denom" "bin_ok n R" "bin_ok n Q"
    and "i < 64" "k + 192 \<le> length ts" "unat (bin_reconstruct R) < 2 ^ 63"
    and S: "S = 2 * unat (bin_reconstruct R) + of_bool (bin_bit num i)"
  shows "returns (divide_step num denom ts i (R, Q, k)) (\<lambda>(R', Q', k').
    bin_ok n R' \<and> bin_ok n Q' \<and> k' = k + 192 \<and>
    unat (bin_reconstruct R') = (if S < unat (bin_reconstruct denom) then S
                                 else S - unat (bin_reconstruct denom)) \<and>
    (\<forall>j<64. bin_bit Q' j = (if j = i then \<not> S < unat (bin_reconstruct denom) else bin_bit Q j)))"
    (is "returns _ ?post")
proof -
  have n: "0 < n" using assms(1) by (simp add: bag_ok_pos)
  have len: "length (bin_bits num) = 64" "length (bin_bits R) = 64" "length (bin_bits Q) = 64"
    using assms by (simp_all add: bin_ok_def)
  define rs where "rs = bin_bits num ! i # take 63 (bin_bits R)"
  define Rs where "Rs = \<lparr>bin_bits = rs\<rparr>"
  have Rs_ok: "bin_ok n Rs" using assms len by (auto simp: bin_ok_def Rs_def rs_def nth_Cons split: nat.splits)
  then have rs_len: "length rs = 64" by (simp add: Rs_def bin_ok_def)
  have unat_Rs: "unat (bin_reconstruct Rs) = S"
    using shift_value [OF len(2)] assms(8) len rs_len
    by (simp add: Rs_def unat_bin_reconstruct S rs_def)
  obtain sub where sub: "secureSubU64Bin Rs denom ts k = Inr (sub, k + 128)" "bin_ok n (sub_diff sub)"
      "bit_N (sub_borrowOut sub) = n" "bin_reconstruct (sub_diff sub) = bin_reconstruct Rs - bin_reconstruct denom"
      "bval (sub_borrowOut sub) = (bin_reconstruct Rs < bin_reconstruct denom)"
    using secureSubU64Bin_returns [OF assms(1) Rs_ok assms(3), of k] assms(7) by (auto simp: returns_def)
  obtain q where q: "arithNotShared (sub_borrowOut sub) = Inr q" "bit_N q = n"
      "bval q = (\<not> bval (sub_borrowOut sub))"
    using xorConst_returns [of "sub_borrowOut sub" 1] sub(3) n by (auto simp: arithNotShared_def returns_def)
  have borrow: "bval (sub_borrowOut sub) = (S < unat (bin_reconstruct denom))"
    using sub(5) unat_Rs by (simp add: word_less_nat_alt)
  have newR: "unat (if bval (sub_borrowOut sub) then bin_reconstruct Rs else bin_reconstruct (sub_diff sub))
      = (if S < unat (bin_reconstruct denom) then S else S - unat (bin_reconstruct denom))"
    using unat_Rs by (auto simp: borrow sub(4) unat_sub_if_size)
  have "k + 128 + 64 \<le> length ts" using assms(7) by simp
  from mux_returns [OF assms(1) sub(3) Rs_ok [unfolded Rs_def] sub(2) this] newR
  show ?thesis
    using assms(5,6) len sub(1) q borrow
    by (auto simp: divide_step_def shift_returns bin_ok_def Rs_def rs_def nth_list_update
        returns_def simp del: upt_rec_numeral mapE.simps foldE.simps)
qed

text \<open>One round in terms of quotient and remainder; a zero divisor always fits.\<close>

lemma division_round:
  fixes X d R S :: nat
  assumes "R = X mod d" "S = 2 * R + of_bool b"
  shows "(if S < d then S else S - d) = (2 * X + of_bool b) mod d"
    and "d \<noteq> 0 \<Longrightarrow> 2 * (X div d) + of_bool (\<not> S < d) = (2 * X + of_bool b) div d"
proof -
  have X: "2 * X + of_bool b = S + d * (2 * (X div d))"
  proof -
    have "2 * X = 2 * (d * (X div d) + R)" using assms(1) by simp
    then show ?thesis using assms(2) by (simp add: distrib_left)
  qed
  have small: "S < 2 * d" if "d \<noteq> 0"
  proof -
    have "R < d" using assms(1) that by simp
    then show ?thesis using assms(2) by (cases b) simp_all
  qed
  have "S mod d = (if S < d then S else S - d)"
    using small by (cases "d = 0") (auto simp: le_mod_geq)
  then show "(if S < d then S else S - d) = (2 * X + of_bool b) mod d"
    by (simp only: X mod_mult_self2)
  show "2 * (X div d) + of_bool (\<not> S < d) = (2 * X + of_bool b) div d" if "d \<noteq> 0"
  proof -
    have "S div d = of_bool (\<not> S < d)" using small [OF that] that by (auto simp: le_div_geq)
    then show ?thesis using that by (simp only: X div_mult_self2) simp
  qed
qed

lemma drop_bit_set:
  assumes "\<forall>j<64. bin_bit Q' j = (if j = i then b else bin_bit Q j)" "i < 64"
  shows "drop_bit i (unat (bin_reconstruct Q')) = 2 * drop_bit (Suc i) (unat (bin_reconstruct Q)) + of_bool b"
proof -
  have "drop_bit (Suc i) (unat (bin_reconstruct Q')) = drop_bit (Suc i) (unat (bin_reconstruct Q))"
    using assms by (intro bit_eqI) (auto simp: bit_simps bit_bin_reconstruct)
  then show ?thesis
    using assms by (simp add: drop_bit_Suc_half [of i "unat (bin_reconstruct Q')"] bit_unat_bin)
qed

lemma drop_bit_small: "i \<le> 64 \<Longrightarrow> drop_bit i (unat (w :: 64 word)) < 2 ^ (64 - i)"
proof -
  assume "i \<le> 64"
  then have "unat w < 2 ^ i * 2 ^ (64 - i)"
    using unsigned_less [of w, where 'a = nat] by (simp flip: power_add)
  then show ?thesis by (simp add: drop_bit_eq_div less_mult_imp_div_less mult.commute)
qed

definition divide_inv ::
  "nat \<Rightarrow> 64 word \<Rightarrow> 64 word \<Rightarrow> nat \<Rightarrow> nat \<Rightarrow> SharedU64Bin \<times> SharedU64Bin \<times> nat \<Rightarrow> bool" where
  "divide_inv n x d k0 i = (\<lambda>(R, Q, k). bin_ok n R \<and> bin_ok n Q \<and> k = k0 + 192 * (64 - i) \<and>
     unat (bin_reconstruct R) = drop_bit i (unat x) mod unat d \<and>
     drop_bit i (unat (bin_reconstruct Q)) =
       (if d = 0 then 2 ^ (64 - i) - 1 else drop_bit i (unat x) div unat d))"

lemma divide_step_inv:
  assumes "bag_ok n ts" "bin_ok n num" "bin_ok n denom" "i < 64" "k0 + 192 * 64 \<le> length ts"
    and I: "divide_inv n (bin_reconstruct num) (bin_reconstruct denom) k0 (Suc i) s"
  shows "returns (divide_step num denom ts i s)
    (divide_inv n (bin_reconstruct num) (bin_reconstruct denom) k0 i)"
proof -
  obtain R Q k where s: "s = (R, Q, k)" by (cases s)
  let ?x = "bin_reconstruct num" and ?d = "bin_reconstruct denom"
  let ?X' = "drop_bit (Suc i) (unat ?x)" and ?b = "bin_bit num i"
  define S where "S = 2 * unat (bin_reconstruct R) + of_bool ?b"
  have R: "bin_ok n R" "bin_ok n Q" "k = k0 + 192 * (63 - i)" "unat (bin_reconstruct R) = ?X' mod unat ?d"
    and Q: "drop_bit (Suc i) (unat (bin_reconstruct Q)) = (if ?d = 0 then 2 ^ (63 - i) - 1 else ?X' div unat ?d)"
    using I by (simp_all add: divide_inv_def s)
  have k: "k + 192 \<le> length ts" using assms(4,5) R(3) by simp
  have "?X' < 2 ^ (64 - Suc i)" using drop_bit_small [of "Suc i" ?x] assms(4) by simp
  also have "\<dots> \<le> 2 ^ 63" by (intro power_increasing) auto
  finally have small: "unat (bin_reconstruct R) < 2 ^ 63"
    using R(4) mod_less_eq_dividend [of ?X' "unat ?d"] by linarith
  have X: "drop_bit i (unat ?x) = 2 * ?X' + of_bool ?b"
    using assms(4) by (simp add: drop_bit_Suc_half [of i "unat ?x"] bit_unat_bin)
  have pow: "2 * (2 ^ (63 - i) - 1) + 1 = (2 ^ (64 - i) - 1 :: nat)"
  proof -
    have "64 - i = Suc (63 - i)" using assms(4) by simp
    moreover have "2 * (p - 1) + 1 = 2 * p - (1 :: nat)" if "1 \<le> p" for p using that by arith
    ultimately show ?thesis by simp
  qed
  from divide_step_returns [OF assms(1-3) R(1,2) assms(4) k small S_def]
  show ?thesis unfolding s
  proof (rule returns_mono)
    fix s' assume *: "(\<lambda>(R', Q', k'). bin_ok n R' \<and> bin_ok n Q' \<and> k' = k + 192 \<and>
      unat (bin_reconstruct R') = (if S < unat ?d then S else S - unat ?d) \<and>
      (\<forall>j<64. bin_bit Q' j = (if j = i then \<not> S < unat ?d else bin_bit Q j))) s'"
    then obtain R' Q' where s': "s' = (R', Q', k + 192)" "bin_ok n R'" "bin_ok n Q'"
        "unat (bin_reconstruct R') = (if S < unat ?d then S else S - unat ?d)"
        "\<forall>j<64. bin_bit Q' j = (if j = i then \<not> S < unat ?d else bin_bit Q j)"
      by (auto split: prod.splits)
    have k': "k + 192 = k0 + 192 * (64 - i)" using assms(4) R(3) by simp
    note round = division_round [OF R(4) S_def]
    have "drop_bit i (unat (bin_reconstruct Q')) =
        (if ?d = 0 then 2 ^ (64 - i) - 1 else drop_bit i (unat ?x) div unat ?d)"
    proof (cases "?d = 0")
      case True
      then show ?thesis using drop_bit_set [OF s'(5) assms(4)] Q pow by simp
    next
      case False
      then have "unat ?d \<noteq> 0" by (simp add: unat_eq_0)
      then show ?thesis using drop_bit_set [OF s'(5) assms(4)] Q round(2) False by (simp add: X)
    qed
    then show "divide_inv n ?x ?d k0 i s'"
      using s'(1-4) k' round(1) by (simp add: divide_inv_def X)
  qed
qed

lemma zero_bin: "bin_ok n \<lparr>bin_bits = replicate 64 (bit_zero n)\<rparr>"
  "bin_reconstruct \<lparr>bin_bits = replicate 64 (bit_zero n)\<rparr> = 0"
  by (auto simp: bin_ok_def intro!: bin_reconstruct_eqI)

lemma secureDivideU64Bin_returns:
  assumes "bag_ok n ts" "bin_ok n num" "bin_ok n denom" "k + 12351 \<le> length ts"
  shows "returns (secureDivideU64Bin num denom ts k) (\<lambda>(r, k').
    bin_ok n (div_quotient r) \<and> bin_ok n (div_remainder r) \<and> bit_N (div_divByZero r) = n \<and>
    k' = k + 12351 \<and>
    bval (div_divByZero r) = (bin_reconstruct denom = 0) \<and>
    bin_reconstruct (div_remainder r) = bin_reconstruct num mod bin_reconstruct denom \<and>
    bin_reconstruct (div_quotient r) =
      (if bin_reconstruct denom = 0 then - 1 else bin_reconstruct num div bin_reconstruct denom))"
proof -
  let ?x = "bin_reconstruct num" and ?d = "bin_reconstruct denom"
  let ?zero = "\<lparr>bin_bits = replicate 64 (bit_zero n)\<rparr>"
  obtain dbz where dbz: "secureEqual denom ?zero ts k = Inr (dbz, k + 63)" "bit_N dbz = n"
      "bval dbz = (?d = 0)"
    using secureEqual_returns [OF assms(1,3) zero_bin(1), of k] assms(4)
    by (auto simp: returns_def zero_bin(2))
  have "returns (foldE (divide_step num denom ts) (rev [0..<64]) (?zero, ?zero, k + 63))
      (divide_inv n ?x ?d (k + 63) 0)"
  proof (rule returns_foldE_down)
    have "drop_bit 64 (unat ?x) = 0" using drop_bit_small [of 64 ?x] by simp
    then show "divide_inv n ?x ?d (k + 63) 64 (?zero, ?zero, k + 63)"
      by (simp add: divide_inv_def zero_bin)
  qed (use divide_step_inv [OF assms(1-3)] assms(4) in simp)
  then obtain R Q k' where loop: "foldE (divide_step num denom ts) (rev [0..<64])
      (?zero, ?zero, k + 63) = Inr (R, Q, k')" "divide_inv n ?x ?d (k + 63) 0 (R, Q, k')"
    by (auto simp: returns_def simp del: upt_rec_numeral)
  have R: "bin_reconstruct R = ?x mod ?d"
    using loop(2) by (simp add: divide_inv_def word_unat_eq_iff unat_mod_distrib)
  have Q: "bin_reconstruct Q = (if ?d = 0 then - 1 else ?x div ?d)"
    using loop(2) by (auto simp: divide_inv_def word_unat_eq_iff unat_div_distrib unsigned_minus_1_eq_mask mask_eq_exp_minus_1)
  show ?thesis
    using assms dbz loop R Q
    by (simp add: secureDivideU64Bin_def bin_ok_N divide_inv_def Let_def
        del: upt_rec_numeral)
qed

subsection \<open>Properties\<close>

lemmas arith_costs =
  secureAddU64BinTripleCost_def secureSubU64BinTripleCost_def secureDivideU64BinTripleCost_def

text \<open>The adder opens to the sum modulo \<open>2 ^ 64\<close>, its carry to the overflow of the exact sum, and it
  consumes exactly its published cost of 127 triples.\<close>

theorem secureAddU64Bin_correct:
  assumes "bag_ok n ts" "bin_ok n x" "bin_ok n y" "k + unat secureAddU64BinTripleCost \<le> length ts"
  shows "\<exists>r. secureAddU64Bin x y ts k = Inr (r, k + unat secureAddU64BinTripleCost) \<and>
    bin_reconstruct (add_sum r) = bin_reconstruct x + bin_reconstruct y \<and>
    bval (add_carryOut r) = (2 ^ 64 \<le> unat (bin_reconstruct x) + unat (bin_reconstruct y))"
  using secureAddU64Bin_returns [OF assms(1-3), of k] assms(4)
  by (auto simp: returns_def arith_costs)

lemma secureAddU64Bin_correct_witness:
  "\<exists>x y r. bin_reconstruct x = 18446744073709551615 \<and> bin_reconstruct y = 3 \<and>
     secureAddU64Bin x y (replicate 127 (zero_triple 2)) 0 = Inr (r, 127) \<and>
     bin_reconstruct (add_sum r) = 2 \<and> bval (add_carryOut r)"
proof -
  obtain x y where "bin_ok 2 x" "bin_reconstruct x = 18446744073709551615" "bin_ok 2 y" "bin_reconstruct y = 3"
    using bin_sharing_exists [of 2 18446744073709551615] bin_sharing_exists [of 2 3] by auto
  then show ?thesis
    using secureAddU64Bin_correct [OF bag_ok_zero_triples [of 2 127], of x y 0]
    by (force simp: arith_costs)
qed

text \<open>The subtractor opens to the difference modulo \<open>2 ^ 64\<close>, its borrow to the unsigned comparison,
  and it consumes 128 triples.\<close>

theorem secureSubU64Bin_correct:
  assumes "bag_ok n ts" "bin_ok n x" "bin_ok n y" "k + unat secureSubU64BinTripleCost \<le> length ts"
  shows "\<exists>r. secureSubU64Bin x y ts k = Inr (r, k + 128) \<and>
    bin_reconstruct (sub_diff r) = bin_reconstruct x - bin_reconstruct y \<and>
    bval (sub_borrowOut r) = (bin_reconstruct x < bin_reconstruct y)"
  using secureSubU64Bin_returns [OF assms(1-3), of k] assms(4)
  by (auto simp: returns_def arith_costs)

lemma secureSubU64Bin_correct_witness:
  "\<exists>x y r. bin_reconstruct x = 3 \<and> bin_reconstruct y = 5 \<and>
     secureSubU64Bin x y (replicate 128 (zero_triple 2)) 0 = Inr (r, 128) \<and>
     bin_reconstruct (sub_diff r) = - 2 \<and> bval (sub_borrowOut r)"
proof -
  obtain x y where "bin_ok 2 x" "bin_reconstruct x = 3" "bin_ok 2 y" "bin_reconstruct y = 5"
    using bin_sharing_exists [of 2 3] bin_sharing_exists [of 2 5] by auto
  then show ?thesis
    using secureSubU64Bin_correct [OF bag_ok_zero_triples [of 2 128], of x y 0]
    by (force simp: arith_costs)
qed

text \<open>C16: the restoring division returns for every numerator and denominator and consumes exactly its
  published cost. For a nonzero denominator it opens to quotient and remainder of the unsigned
  division. It raises the flag exactly for denominator zero, and there it disagrees with its header
  \<open>MpMpcArithmetic.h\<close>, which promises quotient \<open>num\<close> and remainder 0: the quotient opens to
  \<open>2 ^ 64 - 1\<close> and the remainder to the numerator.\<close>

theorem secureDivideU64Bin_correct:
  assumes "bag_ok n ts" "bin_ok n x" "bin_ok n d" "k + unat secureDivideU64BinTripleCost \<le> length ts"
  shows "\<exists>r. secureDivideU64Bin x d ts k = Inr (r, k + unat secureDivideU64BinTripleCost) \<and>
    bval (div_divByZero r) = (bin_reconstruct d = 0) \<and>
    bin_reconstruct (div_quotient r) =
      (if bin_reconstruct d = 0 then - 1 else bin_reconstruct x div bin_reconstruct d) \<and>
    bin_reconstruct (div_remainder r) =
      (if bin_reconstruct d = 0 then bin_reconstruct x else bin_reconstruct x mod bin_reconstruct d)"
  using secureDivideU64Bin_returns [OF assms(1-3), of k] assms(4)
  by (auto simp: returns_def arith_costs)

lemma secureDivideU64Bin_correct_witness:
  "\<exists>x d r. bin_reconstruct x = 17 \<and> bin_reconstruct d = 5 \<and>
     secureDivideU64Bin x d (replicate 12351 (zero_triple 2)) 0 = Inr (r, 12351) \<and>
     bin_reconstruct (div_quotient r) = 3 \<and> bin_reconstruct (div_remainder r) = 2"
proof -
  obtain x d where "bin_ok 2 x" "bin_reconstruct x = 17" "bin_ok 2 d" "bin_reconstruct d = 5"
    using bin_sharing_exists [of 2 17] bin_sharing_exists [of 2 5] by auto
  then show ?thesis
    using secureDivideU64Bin_correct [OF bag_ok_zero_triples [of 2 12351], of x d 0]
    by (force simp: arith_costs)
qed

end
