(* ===== verification/Bitonic_Network.thy ===== *)
theory Bitonic_Network
  imports Prelude "HOL-Library.Multiset"
begin

text \<open>
  The bitonic sorting network, once for both sorts of the program.

  The code has the same index-based recursion twice, over plaintext elements
  (\<open>MpObliviousSort.cpp\<close>) and over secret-shared ones (\<open>MpMpcSort.cpp\<close>); \<open>net_merge\<close> and
  \<open>net_sort\<close> are that recursion over an arbitrary compare-and-swap step on a state. The
  list functions \<open>merge_net\<close> and \<open>sort_net\<close> are its specification on the elements
  themselves. Two locales connect them:

  \<^item> \<open>network_exec\<close>: a compare-and-swap step that changes the two addressed elements as a
    pure exchange function says and spends one unit of a budget. Then the index-based run
    computes \<open>sort_net\<close> and spends exactly the number of exchanges of the network.
  \<^item> \<open>compare_exchange\<close>: an exchange that puts the smaller key first (second) and loses no
    element. Then \<open>sort_net\<close> sorts and permutes, by the 0-1 principle.
\<close>

subsection \<open>The index-based recursion\<close>

function net_merge ::
  "(bool \<Rightarrow> nat \<Rightarrow> nat \<Rightarrow> 's \<Rightarrow> 's result) \<Rightarrow> nat \<Rightarrow> nat \<Rightarrow> bool \<Rightarrow> 's \<Rightarrow> 's result" where
  "net_merge cas low cnt ascending s =
     (if cnt \<le> 1 then Inr s
      else let k = cnt div 2 in
        bindE (foldE (\<lambda>i. cas ascending i (i + k)) [low..<low + k] s) (\<lambda>s1.
        bindE (net_merge cas low k ascending s1) (\<lambda>s2.
        net_merge cas (low + k) k ascending s2)))"
  by pat_completeness auto
termination by (relation "measure (\<lambda>(cas, low, cnt, a, s). cnt)") auto

function net_sort ::
  "(bool \<Rightarrow> nat \<Rightarrow> nat \<Rightarrow> 's \<Rightarrow> 's result) \<Rightarrow> nat \<Rightarrow> nat \<Rightarrow> bool \<Rightarrow> 's \<Rightarrow> 's result" where
  "net_sort cas low cnt ascending s =
     (if cnt \<le> 1 then Inr s
      else let k = cnt div 2 in
        bindE (net_sort cas low k True s) (\<lambda>s1.
        bindE (net_sort cas (low + k) k False s1) (\<lambda>s2.
        net_merge cas low cnt ascending s2)))"
  by pat_completeness auto
termination by (relation "measure (\<lambda>(cas, low, cnt, a, s). cnt)") auto

declare net_merge.simps [simp del] net_sort.simps [simp del]

text \<open>The number of compare-and-swap steps, by the same recursion.\<close>

fun merge_cmps :: "nat \<Rightarrow> nat" where
  "merge_cmps cnt = (if cnt \<le> 1 then 0 else cnt div 2 + 2 * merge_cmps (cnt div 2))"

fun sort_cmps :: "nat \<Rightarrow> nat" where
  "sort_cmps cnt = (if cnt \<le> 1 then 0 else 2 * sort_cmps (cnt div 2) + merge_cmps cnt)"

declare merge_cmps.simps [simp del] sort_cmps.simps [simp del]

lemma not_pow2_le_1 [simp]: "\<not> (2 :: nat) * 2 ^ m \<le> Suc 0"
proof -
  have "1 \<le> (2 :: nat) ^ m" by simp
  then show ?thesis by linarith
qed

lemma merge_cmps_pow2: "2 * merge_cmps (2 ^ m) = m * 2 ^ m"
proof (induction m)
  case (Suc m)
  have "merge_cmps (2 ^ Suc m) = 2 ^ m + 2 * merge_cmps (2 ^ m)"
    by (subst merge_cmps.simps) simp
  with Suc show ?case by simp
qed (simp add: merge_cmps.simps)

lemma sort_cmps_pow2: "4 * sort_cmps (2 ^ m) = 2 ^ m * (m * (m + 1))"
proof (induction m)
  case (Suc m)
  have "sort_cmps (2 ^ Suc m) = 2 * sort_cmps (2 ^ m) + merge_cmps (2 ^ Suc m)"
    by (subst sort_cmps.simps) simp
  then have "4 * sort_cmps (2 ^ Suc m) = 2 * (4 * sort_cmps (2 ^ m)) + 2 * (2 * merge_cmps (2 ^ Suc m))"
    by simp
  then show ?case by (simp only: Suc merge_cmps_pow2) (simp add: algebra_simps)
qed (simp add: sort_cmps.simps)

subsection \<open>The network on lists\<close>

definition half_clean :: "('a \<Rightarrow> 'a \<Rightarrow> 'a \<times> 'a) \<Rightarrow> 'a list \<Rightarrow> 'a list" where
  "half_clean f xs =
     (let k = length xs div 2; ps = map2 f (take k xs) (drop k xs) in map fst ps @ map snd ps)"

fun merge_net :: "nat \<Rightarrow> ('a \<Rightarrow> 'a \<Rightarrow> 'a \<times> 'a) \<Rightarrow> 'a list \<Rightarrow> 'a list" where
  "merge_net 0 f xs = xs"
| "merge_net (Suc m) f xs =
     (let ys = half_clean f xs
      in merge_net m f (take (2 ^ m) ys) @ merge_net m f (drop (2 ^ m) ys))"

fun sort_net :: "nat \<Rightarrow> (bool \<Rightarrow> 'a \<Rightarrow> 'a \<Rightarrow> 'a \<times> 'a) \<Rightarrow> bool \<Rightarrow> 'a list \<Rightarrow> 'a list" where
  "sort_net 0 cx ascending xs = xs"
| "sort_net (Suc m) cx ascending xs =
     merge_net (Suc m) (cx ascending)
       (sort_net m cx True (take (2 ^ m) xs) @ sort_net m cx False (drop (2 ^ m) xs))"

lemma length_half_clean [simp]: "even (length xs) \<Longrightarrow> length (half_clean f xs) = length xs"
  by (auto simp: half_clean_def Let_def elim!: evenE)

lemma length_merge_net [simp]: "length xs = 2 ^ m \<Longrightarrow> length (merge_net m f xs) = length xs"
  by (induction m arbitrary: xs) (auto simp: Let_def)

lemma length_sort_net [simp]: "length xs = 2 ^ m \<Longrightarrow> length (sort_net m cx a xs) = length xs"
  by (induction m arbitrary: xs a) (auto simp del: merge_net.simps)

lemma half_clean_nth:
  assumes "length xs = 2 * k"
  shows "i < k \<Longrightarrow> half_clean f xs ! i = fst (f (xs ! i) (xs ! (i + k)))"
    and "i < k \<Longrightarrow> half_clean f xs ! (i + k) = snd (f (xs ! i) (xs ! (i + k)))"
  using assms by (auto simp: half_clean_def Let_def nth_append add.commute)

subsection \<open>Running the network\<close>

locale network_exec =
  fixes cas :: "bool \<Rightarrow> nat \<Rightarrow> nat \<Rightarrow> 's \<Rightarrow> 's result"
    and elems :: "'s \<Rightarrow> 'b list"
    and cx :: "bool \<Rightarrow> 'b \<Rightarrow> 'b \<Rightarrow> 'b \<times> 'b"
    and ready :: "nat \<Rightarrow> 's \<Rightarrow> bool"
  assumes cas_law: "ready (Suc r) s \<Longrightarrow> i < j \<Longrightarrow> j < length (elems s) \<Longrightarrow>
    returns (cas asc i j s) (\<lambda>s'. ready r s' \<and>
      elems s' = (elems s)[i := fst (cx asc (elems s ! i) (elems s ! j)),
                           j := snd (cx asc (elems s ! i) (elems s ! j))])"
begin

lemma loop_returns:
  assumes "elems s = A @ B @ C" "length B = 2 * k" "0 < k" "ready (k + r) s"
  shows "returns (foldE (\<lambda>i. cas asc i (i + k)) [length A..<length A + k] s)
    (\<lambda>s'. ready r s' \<and> elems s' = A @ half_clean (cx asc) B @ C)"
proof -
  let ?f = "\<lambda>i. cx asc (B ! i) (B ! (i + k))"
  let ?I = "\<lambda>p s'. ready (length A + k - p + r) s' \<and> length (elems s') = length (elems s) \<and>
    (\<forall>j<length (elems s'). elems s' ! j =
      (if length A \<le> j \<and> j < p then fst (?f (j - length A))
       else if length A + k \<le> j \<and> j < p + k then snd (?f (j - length A - k))
       else elems s ! j))"
  have "returns (foldE (\<lambda>i. cas asc i (i + k)) [length A..<length A + k] s) (?I (length A + k))"
  proof (rule returns_foldE_upt_from [where I = ?I])
    fix i s' assume i: "length A \<le> i" "i < length A + k" and I: "?I i s'"
    have len: "length (elems s') = length A + 2 * k + length C" using I assms(1,2) by simp
    then have j: "i + k < length (elems s')" using i by simp
    have "length A + k - i + r = Suc (length A + k - Suc i + r)" using i by simp
    with I have rdy: "ready (Suc (length A + k - Suc i + r)) s'" by simp
    have at: "elems s' ! i = B ! (i - length A)" "elems s' ! (i + k) = B ! (i - length A + k)"
      using I i j assms(1,2) by (auto simp: nth_append)
    have "i < i + k" using assms(3) by simp
    from cas_law [OF rdy this j, of asc]
    show "returns (cas asc i (i + k) s') (?I (Suc i))"
    proof (rule returns_mono)
      fix s2 assume "ready (length A + k - Suc i + r) s2 \<and> elems s2 =
        (elems s')[i := fst (cx asc (elems s' ! i) (elems s' ! (i + k))),
                   i + k := snd (cx asc (elems s' ! i) (elems s' ! (i + k)))]"
      then show "?I (Suc i) s2" using I i j at by (auto simp: nth_list_update)
    qed
  qed (use assms in auto)
  then show ?thesis
  proof (rule returns_mono)
    fix s' assume I: "?I (length A + k) s'"
    have "elems s' = A @ half_clean (cx asc) B @ C"
    proof (rule nth_equalityI)
      show len: "length (elems s') = length (A @ half_clean (cx asc) B @ C)"
        using I assms by simp
      fix j assume "j < length (elems s')"
      then show "elems s' ! j = (A @ half_clean (cx asc) B @ C) ! j"
        using I assms half_clean_nth(1) [OF assms(2), of "j - length A" "cx asc"]
          half_clean_nth(2) [OF assms(2), of "j - length A - k" "cx asc"]
        by (auto simp: nth_append not_less)
    qed
    with I show "ready r s' \<and> elems s' = A @ half_clean (cx asc) B @ C" by simp
  qed
qed

lemma merge_returns:
  assumes "elems s = A @ B @ C" "length B = 2 ^ m" "ready (merge_cmps (2 ^ m) + r) s"
  shows "returns (net_merge cas (length A) (2 ^ m) asc s)
    (\<lambda>s'. ready r s' \<and> elems s' = A @ merge_net m (cx asc) B @ C)"
  using assms
proof (induction m arbitrary: s A B C r)
  case 0
  then show ?case by (simp add: net_merge.simps merge_cmps.simps)
next
  case (Suc m)
  let ?k = "2 ^ m :: nat" and ?B = "half_clean (cx asc) B"
  have cmps: "merge_cmps (2 ^ Suc m) = ?k + (merge_cmps ?k + merge_cmps ?k)"
    by (subst merge_cmps.simps) simp
  have len: "length B = 2 * ?k" using Suc.prems(2) by simp
  have rdy: "ready (?k + (merge_cmps ?k + (merge_cmps ?k + r))) s"
    using Suc.prems(3) [unfolded cmps] by (simp only: add.assoc)
  from loop_returns [OF Suc.prems(1) len _ rdy, of asc]
  obtain s1 where s1: "foldE (\<lambda>i. cas asc i (i + ?k)) [length A..<length A + ?k] s = Inr s1"
      "ready (merge_cmps ?k + (merge_cmps ?k + r)) s1" "elems s1 = A @ ?B @ C"
    by (auto simp: returns_def)
  have lenB: "length ?B = 2 * ?k" using len by simp
  have split1: "elems s1 = A @ take ?k ?B @ (drop ?k ?B @ C)" using s1(3) by simp
  from Suc.IH [OF split1 _ s1(2)] lenB
  obtain s2 where s2: "net_merge cas (length A) ?k asc s1 = Inr s2" "ready (merge_cmps ?k + r) s2"
      "elems s2 = A @ merge_net m (cx asc) (take ?k ?B) @ drop ?k ?B @ C"
    by (auto simp: returns_def)
  have split2: "elems s2 = (A @ merge_net m (cx asc) (take ?k ?B)) @ drop ?k ?B @ C" using s2(3) by simp
  have len2: "length (A @ merge_net m (cx asc) (take ?k ?B)) = length A + ?k" using lenB by simp
  from Suc.IH [OF split2 _ s2(2)] lenB len2
  obtain s3 where s3: "net_merge cas (length A + ?k) ?k asc s2 = Inr s3" "ready r s3"
      "elems s3 = A @ merge_net m (cx asc) (take ?k ?B) @ merge_net m (cx asc) (drop ?k ?B) @ C"
    by (auto simp: returns_def)
  have "net_merge cas (length A) (2 ^ Suc m) asc s = Inr s3"
    using s1(1) s2(1) s3(1) by (subst net_merge.simps) (simp add: Let_def)
  then show ?case using s3(2,3) by (simp add: Let_def)
qed

lemma sort_returns:
  assumes "elems s = A @ B @ C" "length B = 2 ^ m" "ready (sort_cmps (2 ^ m) + r) s"
  shows "returns (net_sort cas (length A) (2 ^ m) asc s)
    (\<lambda>s'. ready r s' \<and> elems s' = A @ sort_net m cx asc B @ C)"
  using assms
proof (induction m arbitrary: s A B C r asc)
  case 0
  then show ?case by (simp add: net_sort.simps sort_cmps.simps)
next
  case (Suc m)
  let ?k = "2 ^ m :: nat" and ?B1 = "sort_net m cx True (take (2 ^ m) B)"
    and ?B2 = "sort_net m cx False (drop (2 ^ m) B)"
  let ?M = "merge_cmps (2 ^ Suc m)"
  have cmps: "sort_cmps (2 ^ Suc m) = sort_cmps ?k + (sort_cmps ?k + ?M)"
    by (subst sort_cmps.simps) simp
  have lens: "length (take ?k B) = ?k" "length (drop ?k B) = ?k" using Suc.prems(2) by simp_all
  have split1: "elems s = A @ take ?k B @ (drop ?k B @ C)" using Suc.prems(1) by simp
  have rdy: "ready (sort_cmps ?k + (sort_cmps ?k + (?M + r))) s"
    using Suc.prems(3) [unfolded cmps] by (simp only: add.assoc)
  from Suc.IH [OF split1 lens(1) rdy, of True]
  obtain s1 where s1: "net_sort cas (length A) ?k True s = Inr s1"
      "ready (sort_cmps ?k + (?M + r)) s1" "elems s1 = A @ ?B1 @ drop ?k B @ C"
    by (auto simp: returns_def)
  have split2: "elems s1 = (A @ ?B1) @ drop ?k B @ C" using s1(3) by simp
  have lenA: "length (A @ ?B1) = length A + ?k" using lens by simp
  from Suc.IH [OF split2 lens(2) s1(2), of False] lenA
  obtain s2 where s2: "net_sort cas (length A + ?k) ?k False s1 = Inr s2" "ready (?M + r) s2"
      "elems s2 = A @ (?B1 @ ?B2) @ C"
    by (auto simp: returns_def)
  from merge_returns [OF s2(3) _ s2(2), of asc] lens
  obtain s3 where s3: "net_merge cas (length A) (2 ^ Suc m) asc s2 = Inr s3" "ready r s3"
      "elems s3 = A @ merge_net (Suc m) (cx asc) (?B1 @ ?B2) @ C"
    by (auto simp: returns_def simp del: merge_net.simps)
  have "net_sort cas (length A) (2 ^ Suc m) asc s = Inr s3"
    using s1(1) s2(1) s3(1) by (subst net_sort.simps) (simp add: Let_def)
  then show ?case using s3(2,3) by (simp del: merge_net.simps)
qed

end

subsection \<open>The network on keys, and the 0-1 principle\<close>

definition key_cx :: "bool \<Rightarrow> 'k::linorder \<Rightarrow> 'k \<Rightarrow> 'k \<times> 'k" where
  "key_cx ascending a b = (if ascending then (min a b, max a b) else (max a b, min a b))"

lemma map_half_clean:
  assumes "\<And>a b. f (g a) (g b) = (g (fst (h a b)), g (snd (h a b)))"
  shows "map g (half_clean h xs) = half_clean f (map g xs)"
  using assms
  by (auto simp: half_clean_def Let_def take_map drop_map zip_map1 zip_map2 comp_def case_prod_beta')

lemma map_merge_net:
  assumes "\<And>a b. f (g a) (g b) = (g (fst (h a b)), g (snd (h a b)))"
  shows "map g (merge_net m h xs) = merge_net m f (map g xs)"
proof (induction m arbitrary: xs)
  case (Suc m)
  show ?case by (simp add: Let_def Suc take_map drop_map flip: map_half_clean [of f g h, OF assms])
qed simp

lemma map_sort_net:
  assumes "\<And>asc a b. f asc (g a) (g b) = (g (fst (h asc a b)), g (snd (h asc a b)))"
  shows "map g (sort_net m h asc xs) = sort_net m f asc (map g xs)"
proof (induction m arbitrary: xs asc)
  case (Suc m)
  show ?case
    by (simp add: Suc take_map drop_map map_merge_net [of "f asc" g "h asc", OF assms]
        del: merge_net.simps)
qed simp

text \<open>A monotone function commutes with exchanges, hence with the network.\<close>

lemma mono_sort_net:
  fixes g :: "'k::linorder \<Rightarrow> 'l::linorder"
  assumes "mono g"
  shows "map g (sort_net m key_cx asc xs) = sort_net m key_cx asc (map g xs)"
  by (rule map_sort_net) (auto simp: key_cx_def min_of_mono [OF assms] max_of_mono [OF assms])

lemma sorted_if_thresholds:
  fixes xs :: "'k::linorder list"
  assumes "\<And>c. sorted (map ((<) c) xs)"
  shows "sorted xs"
proof (rule ccontr)
  assume "\<not> sorted xs"
  then obtain i j where ij: "i \<le> j" "j < length xs" "xs ! j < xs ! i"
    by (auto simp: sorted_iff_nth_mono not_le)
  have "map ((<) (xs ! j)) xs ! i \<le> map ((<) (xs ! j)) xs ! j"
    using assms [of "xs ! j"] ij(1,2) by (intro sorted_nth_mono) auto
  with ij show False by simp
qed

subsection \<open>Bitonic sequences of truth values\<close>

text \<open>A block of ones between zeros, or of zeros between ones.\<close>

definition bitonic :: "bool list \<Rightarrow> bool" where
  "bitonic bs \<longleftrightarrow> (\<exists>a b v. a \<le> b \<and> b \<le> length bs \<and>
     (\<forall>i<length bs. bs ! i = ((a \<le> i \<and> i < b) = v)))"

lemma bitonicI:
  "a \<le> b \<Longrightarrow> b \<le> length bs \<Longrightarrow> (\<And>i. i < length bs \<Longrightarrow> bs ! i = ((a \<le> i \<and> i < b) = v)) \<Longrightarrow> bitonic bs"
  unfolding bitonic_def by blast

text \<open>
  The half cleaner on a bitonic sequence: both halves stay bitonic and one of them is
  constant, so that every element of the low half is at most every one of the high half.
\<close>

lemma half_split_ones:
  assumes "a \<le> b" "b \<le> 2 * k" "\<And>i. i < 2 * k \<Longrightarrow> f i = (a \<le> i \<and> i < (b :: nat))"
    and "length lo = k" "\<And>i. i < k \<Longrightarrow> lo ! i = (f i \<and> f (i + k))"
    and "length hi = k" "\<And>i. i < k \<Longrightarrow> hi ! i = (f i \<or> f (i + k))"
  shows "bitonic lo \<and> bitonic hi \<and> (\<forall>x\<in>set lo. \<forall>y\<in>set hi. x \<le> y)"
proof -
  have lo: "lo ! i = (a \<le> i \<and> i + k < b)" if "i < k" for i
    using assms(5) [OF that] assms(3) [of i] assms(3) [of "i + k"] that assms(1,2) by auto
  have hi: "hi ! i = ((a \<le> i \<and> i < b) \<or> (a \<le> i + k \<and> i + k < b))" if "i < k" for i
    using assms(7) [OF that] assms(3) [of i] assms(3) [of "i + k"] that by auto
  have "bitonic lo"
    using assms(2,4) lo by (intro bitonicI [where a = "min a (b - k)" and b = "b - k" and v = True])
      (auto simp: min_def)
  moreover have "bitonic hi"
  proof (cases "b \<le> k \<or> k \<le> a")
    case True
    then show ?thesis
    proof
      assume "b \<le> k" then show ?thesis
        using assms(1,2,6) hi by (intro bitonicI [of a b _ True]) auto
    next
      assume "k \<le> a" then show ?thesis
        using assms(1,2,6) hi by (intro bitonicI [of "a - k" "b - k" _ True]) auto
    qed
  next
    case False
    then show ?thesis
      using assms(1,2,6) hi by (intro bitonicI [of "min a (b - k)" a _ False]) (auto simp: min_def)
  qed
  moreover have "\<not> (\<exists>i<k. lo ! i) \<or> (\<forall>i<k. hi ! i)"
    using lo hi by auto
  then have "\<forall>x\<in>set lo. \<forall>y\<in>set hi. x \<le> y"
    using assms(4,6) by (auto simp: in_set_conv_nth)
  ultimately show ?thesis by blast
qed

lemma half_split_zeros:
  assumes "a \<le> b" "b \<le> 2 * k" "\<And>i. i < 2 * k \<Longrightarrow> f i = (\<not> (a \<le> i \<and> i < (b :: nat)))"
    and "length lo = k" "\<And>i. i < k \<Longrightarrow> lo ! i = (f i \<and> f (i + k))"
    and "length hi = k" "\<And>i. i < k \<Longrightarrow> hi ! i = (f i \<or> f (i + k))"
  shows "bitonic lo \<and> bitonic hi \<and> (\<forall>x\<in>set lo. \<forall>y\<in>set hi. x \<le> y)"
proof -
  have flip: "bitonic (map Not bs) \<Longrightarrow> bitonic bs" for bs
    unfolding bitonic_def by (clarsimp, metis (full_types))
  have "bitonic (map Not hi) \<and> bitonic (map Not lo) \<and>
      (\<forall>x\<in>set (map Not hi). \<forall>y\<in>set (map Not lo). x \<le> y)"
    using assms by (intro half_split_ones [where f = "\<lambda>i. \<not> f i" and a = a and b = b and k = k]) auto
  with flip show ?thesis by auto
qed

lemma half_clean_bitonic:
  assumes "bitonic bs" "length bs = 2 * k"
  defines "lo \<equiv> take k (half_clean (key_cx True) bs)" and "hi \<equiv> drop k (half_clean (key_cx True) bs)"
  shows "bitonic lo \<and> bitonic hi \<and> (\<forall>x\<in>set lo. \<forall>y\<in>set hi. x \<le> y)"
proof -
  have len: "length lo = k" "length hi = k" using assms(2) by (simp_all add: lo_def hi_def)
  have lo: "lo ! i = (bs ! i \<and> bs ! (i + k))" and hi: "hi ! i = (bs ! i \<or> bs ! (i + k))" if "i < k" for i
    using half_clean_nth [OF assms(2) that, of "key_cx True"] assms(2) that
    by (auto simp: lo_def hi_def key_cx_def min_def max_def add.commute)
  from assms(1) obtain a b v where "a \<le> b" "b \<le> 2 * k"
      "\<And>i. i < 2 * k \<Longrightarrow> bs ! i = ((a \<le> i \<and> i < b) = v)"
    unfolding bitonic_def assms(2) by blast
  then show ?thesis
    using half_split_ones [of a b k "(!) bs" lo hi] half_split_zeros [of a b k "(!) bs" lo hi] len lo hi
    by (cases v) auto
qed

text \<open>Descending exchanges swap the two halves.\<close>

lemma half_clean_descending:
  assumes "length xs = 2 * k"
  shows "half_clean (key_cx False) xs =
    drop k (half_clean (key_cx True) xs) @ take k (half_clean (key_cx True) xs)"
  using assms by (simp add: half_clean_def Let_def key_cx_def case_prod_beta' comp_def)

lemma mset_half_clean:
  assumes "\<And>a b. {#fst (f a b), snd (f a b)#} = {#a, b#}" "even (length xs)"
  shows "mset (half_clean f xs) = mset xs"
proof -
  have "mset (map fst (map2 f ys zs) @ map snd (map2 f ys zs)) = mset ys + mset zs"
    if "length ys = length zs" for ys zs
    using that assms(1) by (induction ys zs rule: list_induct2) auto
  from this [of "take (length xs div 2) xs" "drop (length xs div 2) xs"] assms(2)
  show ?thesis
    by (auto simp: half_clean_def Let_def min_def simp flip: mset_append elim!: evenE)
qed

lemma mset_take_drop: "mset (take k xs) + mset (drop k xs) = mset xs"
  by (metis append_take_drop_id mset_append)

lemma mset_merge_net:
  assumes "\<And>a b. {#fst (f a b), snd (f a b)#} = {#a, b#}" "length xs = 2 ^ m"
  shows "mset (merge_net m f xs) = mset xs"
  using assms(2)
proof (induction m arbitrary: xs)
  case (Suc m)
  then have "mset (half_clean f xs) = mset xs" by (intro mset_half_clean assms(1)) simp
  with Suc show ?case by (simp add: Let_def mset_take_drop)
qed simp

lemma mset_sort_net:
  assumes "\<And>asc a b. {#fst (cx asc a b), snd (cx asc a b)#} = {#a, b#}" "length xs = 2 ^ m"
  shows "mset (sort_net m cx asc xs) = mset xs"
  using assms(2)
proof (induction m arbitrary: xs asc)
  case (Suc m)
  then show ?case
    by (simp add: mset_merge_net assms(1) mset_take_drop del: merge_net.simps)
qed simp

lemma key_cx_mset: "{#fst (key_cx asc a b), snd (key_cx asc a b)#} = {#a, b#}"
  by (auto simp: key_cx_def min_def max_def)

lemma set_merge_net: "length xs = 2 ^ m \<Longrightarrow> set (merge_net m (key_cx asc) xs) = set xs"
  using mset_merge_net [of "key_cx asc" xs m] key_cx_mset by (metis set_mset_mset)

text \<open>Direction: ascending or descending order of a list.\<close>

definition ordered :: "bool \<Rightarrow> 'k::linorder list \<Rightarrow> bool" where
  "ordered ascending xs = (if ascending then sorted xs else sorted (rev xs))"

lemma merge_net_bitonic:
  "bitonic bs \<Longrightarrow> length bs = 2 ^ m \<Longrightarrow> ordered asc (merge_net m (key_cx asc) bs)"
proof (induction m arbitrary: bs)
  case 0
  then show ?case by (cases bs) (auto simp: ordered_def)
next
  case (Suc m)
  let ?k = "2 ^ m :: nat"
  define lo where "lo = take ?k (half_clean (key_cx True) bs)"
  define hi where "hi = drop ?k (half_clean (key_cx True) bs)"
  have len: "length bs = 2 * ?k" using Suc.prems(2) by simp
  have h: "bitonic lo" "bitonic hi" "\<forall>x\<in>set lo. \<forall>y\<in>set hi. x \<le> y" "length lo = ?k" "length hi = ?k"
    using half_clean_bitonic [OF Suc.prems(1) len] len by (auto simp: lo_def hi_def)
  have clean: "half_clean (key_cx asc) bs = (if asc then lo @ hi else hi @ lo)"
    by (cases asc) (simp_all add: half_clean_descending [OF len] lo_def hi_def)
  let ?lo = "merge_net m (key_cx asc) lo" and ?hi = "merge_net m (key_cx asc) hi"
  have "\<forall>x\<in>set ?lo. \<forall>y\<in>set ?hi. x \<le> y" using h by (simp add: set_merge_net)
  moreover have "ordered asc ?lo" "ordered asc ?hi" using Suc.IH h by blast+
  ultimately have "ordered asc (if asc then ?lo @ ?hi else ?hi @ ?lo)"
    unfolding ordered_def by (cases asc) (simp_all only: if_True if_False rev_append sorted_append set_rev)
  moreover have "merge_net (Suc m) (key_cx asc) bs = (if asc then ?lo @ ?hi else ?hi @ ?lo)"
    using h(4,5) by (simp add: clean Let_def)
  ultimately show ?case by simp
qed

lemma sorted_bools: "sorted bs \<Longrightarrow> \<exists>a\<le>length bs. \<forall>i<length bs. bs ! i = (a \<le> i)" for bs :: "bool list"
proof (induction bs)
  case (Cons b bs)
  then obtain a where a: "a \<le> length bs" "\<forall>i<length bs. bs ! i = (a \<le> i)" by auto
  show ?case
  proof (cases b)
    case True
    with Cons.prems have "\<forall>x\<in>set bs. x" by auto
    with True show ?thesis by (intro exI [of _ 0]) (auto simp: nth_Cons split: nat.splits)
  next
    case False
    with a show ?thesis by (intro exI [of _ "Suc a"]) (auto simp: nth_Cons split: nat.splits)
  qed
qed simp

lemma bitonic_up_down:
  assumes "sorted xs" "sorted (rev ys)"
  shows "bitonic (xs @ ys)"
proof -
  obtain a where a: "a \<le> length xs" "\<forall>i<length xs. xs ! i = (a \<le> i)"
    using sorted_bools [OF assms(1)] by blast
  obtain b where b: "b \<le> length ys" "\<forall>i<length ys. rev ys ! i = (b \<le> i)"
    using sorted_bools [OF assms(2)] by auto
  have ys: "ys ! i = (i < length ys - b)" if "i < length ys" for i
  proof -
    have "ys ! i = rev ys ! (length ys - Suc i)" using that by (simp add: rev_nth)
    then show ?thesis using b that by auto
  qed
  show ?thesis
    using a b ys
    by (intro bitonicI [of a "length xs + (length ys - b)" _ True]) (auto simp: nth_append)
qed

lemma sort_net_bools: "length bs = 2 ^ m \<Longrightarrow> ordered asc (sort_net m key_cx asc bs)" for bs :: "bool list"
proof (induction m arbitrary: bs asc)
  case 0
  then show ?case by (cases bs) (auto simp: ordered_def)
next
  case (Suc m)
  have "ordered True (sort_net m key_cx True (take (2 ^ m) bs))"
    "ordered False (sort_net m key_cx False (drop (2 ^ m) bs))"
    using Suc.prems by (auto intro!: Suc.IH)
  then have "bitonic (sort_net m key_cx True (take (2 ^ m) bs) @ sort_net m key_cx False (drop (2 ^ m) bs))"
    by (intro bitonic_up_down) (simp_all add: ordered_def)
  from merge_net_bitonic [OF this, of "Suc m" asc] Suc.prems show ?case
    by (simp del: merge_net.simps)
qed

theorem sort_net_sorted:
  fixes xs :: "'k::linorder list"
  assumes "length xs = 2 ^ m"
  shows "sorted (sort_net m key_cx True xs)"
proof (rule sorted_if_thresholds)
  fix c :: 'k
  have "mono ((<) c)" by (auto simp: mono_def)
  then show "sorted (map ((<) c) (sort_net m key_cx True xs))"
    using sort_net_bools [of "map ((<) c) xs" m True] assms by (simp add: mono_sort_net ordered_def)
qed

subsection \<open>Exchanges on elements with a key\<close>

locale compare_exchange =
  fixes key :: "'a \<Rightarrow> 'k::linorder"
    and cx :: "bool \<Rightarrow> 'a \<Rightarrow> 'a \<Rightarrow> 'a \<times> 'a"
  assumes cx_keys: "(key (fst (cx asc a b)), key (snd (cx asc a b))) = key_cx asc (key a) (key b)"
    and cx_mset: "{#fst (cx asc a b), snd (cx asc a b)#} = {#a, b#}"
begin

lemma network_sorted:
  assumes "length xs = 2 ^ m"
  shows "sorted (map key (sort_net m cx True xs))"
proof -
  have "map key (sort_net m cx True xs) = sort_net m key_cx True (map key xs)"
    by (rule map_sort_net) (simp flip: cx_keys)
  with sort_net_sorted [of "map key xs" m] assms show ?thesis by simp
qed

lemma network_mset: "length xs = 2 ^ m \<Longrightarrow> mset (sort_net m cx asc xs) = mset xs"
  by (rule mset_sort_net) (rule cx_mset)

end

end
