(* ===== verification/Oblivious_Sort.thy ===== *)
theory Oblivious_Sort
  imports Bitonic_Network
begin

text \<open>
  The data-oblivious bitonic sort of plaintext (key, payload) pairs
  (\<open>volePSI/MpObliviousSort.h\<close>, \<open>volePSI/MpObliviousSort.cpp\<close>): padding to a power of two,
  the network, stripping the padding, and the published compare-and-swap count.

  \<open>nextPowerOfTwo\<close> doubles a 64-bit counter until it reaches \<open>n\<close>; above \<open>2 ^ 63\<close> the counter
  wraps to zero and the loop never ends, which the model keeps (\<open>None\<close>).
\<close>

record SortElement =
  se_key :: "64 word"
  se_payload :: "128 word list"

type_synonym comparator = "SortElement \<Rightarrow> SortElement \<Rightarrow> bool"

subsection \<open>Powers of two\<close>

partial_function (option) nextPow_loop :: "64 word \<Rightarrow> 64 word \<Rightarrow> 64 word option" where
  "nextPow_loop n p = (if p < n then nextPow_loop n (push_bit 1 p) else Some p)"

definition nextPowerOfTwo :: "64 word \<Rightarrow> 64 word option" where
  "nextPowerOfTwo n = (if n \<le> 1 then Some 1 else nextPow_loop n 1)"

function log2_loop :: "64 word \<Rightarrow> nat \<Rightarrow> nat result" where
  "log2_loop n r =
     (if 64 \<le> r then Inl UndefinedShift
      else if push_bit r 1 < n then log2_loop n (r + 1) else Inr r)"
  by pat_completeness auto
termination by (relation "measure (\<lambda>(n, r). 64 - r)") auto

declare log2_loop.simps [simp del]

definition log2Floor :: "64 word \<Rightarrow> nat result" where
  "log2Floor n = log2_loop n 0"

definition bitonicCompareSwapCount :: "64 word \<Rightarrow> 64 word result" where
  "bitonicCompareSwapCount n =
     (if n \<le> 1 then Inr 0
      else case nextPowerOfTwo n of None \<Rightarrow> Inl Diverges
      | Some padded \<Rightarrow> bindE (log2Floor padded) (\<lambda>r. let logN = of_nat r in
          Inr (padded div 2 * logN * (logN + 1) div 2)))"

subsection \<open>The sort\<close>

text \<open>The state of the network: the vector and the running count of compare-and-swaps.\<close>

definition compareAndSwap ::
  "comparator \<Rightarrow> bool \<Rightarrow> nat \<Rightarrow> nat \<Rightarrow> SortElement list \<times> 64 word \<Rightarrow>
   (SortElement list \<times> 64 word) result" where
  "compareAndSwap cmp ascending i j = (\<lambda>(xs, compareCount).
     bindE (vec_at xs i) (\<lambda>x_i.
     bindE (vec_at xs j) (\<lambda>x_j.
     let i_greater = cmp x_j x_i; shouldSwap = (i_greater = ascending)
     in Inr (if shouldSwap then xs[i := x_j, j := x_i] else xs, compareCount + 1))))"

definition bitonicMerge ::
  "comparator \<Rightarrow> nat \<Rightarrow> nat \<Rightarrow> bool \<Rightarrow> SortElement list \<times> 64 word \<Rightarrow>
   (SortElement list \<times> 64 word) result" where
  "bitonicMerge cmp = net_merge (compareAndSwap cmp)"

definition bitonicSortHelper ::
  "comparator \<Rightarrow> nat \<Rightarrow> nat \<Rightarrow> bool \<Rightarrow> SortElement list \<times> 64 word \<Rightarrow>
   (SortElement list \<times> 64 word) result" where
  "bitonicSortHelper cmp = net_sort (compareAndSwap cmp)"

definition defaultLess :: comparator where
  "defaultLess a b \<longleftrightarrow> se_key a < se_key b"

definition obliviousBitonicSortWithComparator ::
  "comparator \<Rightarrow> SortElement list \<Rightarrow> SortElement list result" where
  "obliviousBitonicSortWithComparator cmp xs =
     (let n = length xs in
      if n \<le> 1 then Inr xs
      else case nextPowerOfTwo (of_nat n) of None \<Rightarrow> Inl Diverges
      | Some p \<Rightarrow>
          let paddedN = unat p;
              payloadW = length (se_payload (xs ! 0));
              sentinel = \<lparr>se_key = - 1, se_payload = replicate payloadW 0\<rparr>;
              xs' = (if paddedN > n then xs @ replicate (paddedN - n) sentinel else xs)
          in bindE (bitonicSortHelper cmp 0 paddedN True (xs', 0)) (\<lambda>(ys, _).
             Inr (take n ys)))"

definition obliviousBitonicSort :: "SortElement list \<Rightarrow> SortElement list result" where
  "obliviousBitonicSort xs = obliviousBitonicSortWithComparator defaultLess xs"

definition isSortedAscending :: "SortElement list \<Rightarrow> bool" where
  "isSortedAscending xs =
     list_all (\<lambda>i. \<not> se_key (xs ! i) < se_key (xs ! (i - 1))) [1..<length xs]"

subsection \<open>Powers of two: termination and result\<close>

lemma push_bit_1_pow2: "push_bit 1 (2 ^ j :: 64 word) = 2 ^ Suc j"
  by (simp add: push_bit_eq_mult)

lemma unat_pow2 [simp]: "m < 64 \<Longrightarrow> unat (2 ^ m :: 64 word) = 2 ^ m"
proof -
  assume "m < 64"
  then have "(2 :: nat) ^ m < 2 ^ 64" by (intro power_strict_increasing) auto
  moreover have "unat (2 ^ m :: 64 word) = unat (of_nat (2 ^ m) :: 64 word)" by simp
  ultimately show ?thesis by (simp only: unat_of_nat) simp
qed

lemma pow2_word_le: "i \<le> j \<Longrightarrow> j < 64 \<Longrightarrow> (2 :: 64 word) ^ i \<le> 2 ^ j"
  by (simp add: word_le_nat_alt)

text \<open>Enough room: from \<open>2 ^ j\<close> the loop reaches the first power of two at or above \<open>n\<close>.\<close>

lemma nextPow_loop_returns:
  assumes "n \<le> 2 ^ m" "m < 64" "j \<le> m" "\<And>i. j \<le> i \<Longrightarrow> i < m \<Longrightarrow> 2 ^ i < n"
  shows "nextPow_loop n (2 ^ j) = Some (2 ^ m)"
  using assms(3,4)
proof (induction "m - j" arbitrary: j)
  case 0
  then have "j = m" by simp
  moreover have "\<not> 2 ^ m < n" using assms(1) by (simp only: not_less)
  ultimately show ?case by (subst nextPow_loop.simps) simp
next
  case (Suc d)
  have "2 ^ j < n" using Suc.prems Suc.hyps(2) by simp
  moreover have "nextPow_loop n (2 ^ Suc j) = Some (2 ^ m)"
    using Suc.prems Suc.hyps(2) by (intro Suc.hyps(1)) auto
  ultimately show ?case by (subst nextPow_loop.simps) (simp only: push_bit_1_pow2 if_True)
qed

text \<open>The exponent the padding uses: the least \<open>m\<close> with \<open>n \<le> 2 ^ m\<close>.\<close>

definition clog2 :: "nat \<Rightarrow> nat" where
  "clog2 n = (LEAST m. n \<le> 2 ^ m)"

lemma clog2_ge: "n \<le> 2 ^ clog2 n"
  unfolding clog2_def by (rule LeastI_ex) (meson less_exp less_imp_le)

lemma clog2_less: "i < clog2 n \<Longrightarrow> 2 ^ i < n"
  unfolding clog2_def using not_less_Least not_le by blast

lemma clog2_le: "n \<le> 2 ^ m \<Longrightarrow> clog2 n \<le> m"
  unfolding clog2_def by (rule Least_le)

lemma clog2_pos: "1 < n \<Longrightarrow> 0 < clog2 n"
  using clog2_ge [of n] by (cases "clog2 n") auto

theorem nextPowerOfTwo_returns:
  assumes "n \<le> 2 ^ 63"
  shows "nextPowerOfTwo n = Some (2 ^ clog2 (unat n))"
proof (cases "n \<le> 1")
  case True
  then have "unat n \<le> 2 ^ 0" by (simp add: word_le_nat_alt)
  from clog2_le [OF this] True show ?thesis by (simp add: nextPowerOfTwo_def)
next
  case False
  have "unat n \<le> unat (2 ^ 63 :: 64 word)" using assms by (simp only: word_le_nat_alt)
  then have "unat n \<le> 2 ^ 63" by simp
  then have m: "clog2 (unat n) < 64" using clog2_le [of "unat n" 63] by simp
  have ge: "n \<le> 2 ^ clog2 (unat n)" using clog2_ge [of "unat n"] m by (simp only: word_le_nat_alt unat_pow2)
  have less: "2 ^ i < n" if "i < clog2 (unat n)" for i
    using clog2_less [OF that] that m by (simp only: word_less_nat_alt unat_pow2 order.strict_trans)
  show ?thesis
    using nextPow_loop_returns [OF ge m _ less, of 0] False by (simp add: nextPowerOfTwo_def)
qed

text \<open>Above \<open>2 ^ 63\<close> the counter wraps to zero and stays there.\<close>

theorem nextPowerOfTwo_diverges:
  assumes "2 ^ 63 < n"
  shows "nextPowerOfTwo n = None"
proof -
  have bound: "(p = 0 \<or> (\<exists>j<64. p = 2 ^ j)) \<longrightarrow> n \<le> r \<and> r \<le> 2 ^ 63"
    if "nextPow_loop n p = Some r" for n p r
  proof (rule nextPow_loop.raw_induct [where P = "\<lambda>n p r.
      (p = 0 \<or> (\<exists>j<64. p = 2 ^ j)) \<longrightarrow> n \<le> r \<and> r \<le> 2 ^ 63", OF _ that], intro impI)
    fix f :: "64 word \<Rightarrow> 64 word \<Rightarrow> 64 word option" and n p r
    assume IH: "\<And>n p r. f n p = Some r \<Longrightarrow> (p = 0 \<or> (\<exists>j<64. p = 2 ^ j)) \<longrightarrow> n \<le> r \<and> r \<le> 2 ^ 63"
      and eq: "(if p < n then f n (push_bit 1 p) else Some p) = Some r"
      and p: "p = 0 \<or> (\<exists>j<64. p = 2 ^ j)"
    show "n \<le> r \<and> r \<le> 2 ^ 63"
    proof (cases "p < n")
      case True
      have "push_bit 1 p = 0 \<or> (\<exists>j<64. push_bit 1 p = 2 ^ j)"
      proof (cases "p = 0 \<or> p = 2 ^ 63")
        case False
        then obtain j where "j < 64" "p = 2 ^ j" "j \<noteq> 63" using p by blast
        then show ?thesis by (intro disjI2 exI [of _ "Suc j"]) (simp only: push_bit_1_pow2, simp)
      qed (auto simp: push_bit_eq_mult)
      then show ?thesis using IH [of n "push_bit 1 p" r] eq True by simp
    next
      case False
      then have "n \<le> p" by (simp only: not_less)
      moreover have "r = p" using eq by (simp add: False)
      moreover have "p \<le> 2 ^ 63" using p pow2_word_le [of _ 63] by auto
      ultimately show ?thesis by blast
    qed
  qed
  have none: "\<And>r. nextPow_loop n 1 \<noteq> Some r"
  proof
    fix r
    assume "nextPow_loop n 1 = Some r"
    moreover have "\<exists>j<64. (1 :: 64 word) = 2 ^ j" by (rule exI [of _ 0]) simp
    ultimately have "n \<le> 2 ^ 63" using bound [of n 1 r] order.trans by blast
    with assms show False by (blast dest: leD)
  qed
  have "\<not> n \<le> 1"
    using assms by (auto simp: word_le_nat_alt word_less_nat_alt)
  moreover have "nextPow_loop n 1 = None"
  proof (cases "nextPow_loop n 1")
    case (Some r)
    with none [of r] show ?thesis by simp
  qed
  ultimately show ?thesis by (simp add: nextPowerOfTwo_def)
qed

lemma log2_loop_returns:
  assumes "j \<le> m" "m < 64"
  shows "log2_loop (2 ^ m) j = Inr m"
  using assms
proof (induction "m - j" arbitrary: j)
  case 0
  then show ?case by (subst log2_loop.simps) (simp add: push_bit_eq_mult)
next
  case (Suc d)
  then have "log2_loop (2 ^ m) (Suc j) = Inr m" by simp
  moreover have "push_bit j 1 < (2 ^ m :: 64 word)" "j < 64"
    using Suc.hyps(2) Suc.prems by (simp_all add: push_bit_eq_mult word_less_nat_alt)
  ultimately show ?case by (subst log2_loop.simps) simp
qed

lemma clog2_bound: "n \<le> 2 ^ 63 \<Longrightarrow> clog2 n < 64"
  using clog2_le [of n 63] by simp

lemma nextPowerOfTwo_length:
  assumes "n \<le> 2 ^ 63"
  shows "nextPowerOfTwo (of_nat n) = Some (2 ^ clog2 n)" "unat (of_nat n :: 64 word) = n"
proof -
  show n: "unat (of_nat n :: 64 word) = n" using assms by (simp add: unat_of_nat)
  have "of_nat n \<le> (2 ^ 63 :: 64 word)" using assms n by (simp add: word_le_nat_alt)
  from nextPowerOfTwo_returns [OF this] n show "nextPowerOfTwo (of_nat n) = Some (2 ^ clog2 n)" by simp
qed

text \<open>
  The published count is the number of exchanges of the network, as long as the product
  \<open>padded / 2 * logN * (logN + 1)\<close> fits 64 bits: for every length up to \<open>2 ^ 53\<close>.
\<close>

theorem bitonicCompareSwapCount_exact:
  assumes "1 < n" "n \<le> 2 ^ 53"
  shows "bitonicCompareSwapCount (of_nat n) = Inr (of_nat (sort_cmps (2 ^ clog2 n)))"
proof -
  have n: "n \<le> 2 ^ 63" using assms(2) by simp
  define m where "m = clog2 n"
  have m: "0 < m" "m \<le> 53" using assms clog2_pos [of n] clog2_le [of n 53] by (simp_all add: m_def)
  have "\<not> (of_nat n :: 64 word) \<le> 1"
    using assms(1) nextPowerOfTwo_length(2) [OF n] by (simp add: word_le_nat_alt)
  then have run: "bitonicCompareSwapCount (of_nat n) =
      Inr (2 ^ m div 2 * of_nat m * (of_nat m + 1) div 2)"
    using nextPowerOfTwo_length(1) [OF n] log2_loop_returns [of 0 m] m
    by (simp add: bitonicCompareSwapCount_def log2Floor_def m_def Let_def)
  obtain k where k: "m = Suc k" using m by (cases m) auto
  have half: "(2 ^ m :: 64 word) div 2 = of_nat (2 ^ k)"
  proof -
    have "unat ((2 :: 64 word) ^ m div 2) = 2 ^ m div 2" using m by (simp only: unat_div_distrib unat_pow2) simp
    also have "\<dots> = unat (2 ^ k :: 64 word)" using m k by simp
    finally show ?thesis by (simp add: word_unat_eq_iff)
  qed
  have cmps: "2 ^ k * m * (m + 1) = 2 * sort_cmps (2 ^ m)"
    using sort_cmps_pow2 [of m] by (simp add: k algebra_simps)
  have "2 ^ k * m * (m + 1) \<le> 2 ^ 52 * 53 * (54 :: nat)"
    using m k by (intro mult_le_mono power_increasing) auto
  then have small: "2 ^ k * m * (m + 1) < (2 :: nat) ^ 64" by simp
  have "2 ^ m div 2 * of_nat m * (of_nat m + 1) = (of_nat (2 ^ k * m * (m + 1)) :: 64 word)"
    unfolding half by (simp add: algebra_simps)
  also have "\<dots> div 2 = of_nat (2 ^ k * m * (m + 1) div 2)"
    using small by (simp only: word_unat_eq_iff unat_div_distrib unat_of_nat) (simp add: cmps)
  also have "2 ^ k * m * (m + 1) div 2 = sort_cmps (2 ^ m)" by (simp only: cmps)
  finally show ?thesis by (simp only: run m_def)
qed

subsection \<open>The plaintext step runs the network\<close>

definition plain_cx :: "comparator \<Rightarrow> bool \<Rightarrow> SortElement \<Rightarrow> SortElement \<Rightarrow> SortElement \<times> SortElement" where
  "plain_cx cmp ascending a b = (if cmp b a = ascending then (b, a) else (a, b))"

text \<open>The budget: the count so far plus the exchanges still to come is \<open>tot\<close>.\<close>

definition plain_ready :: "64 word \<Rightarrow> nat \<Rightarrow> SortElement list \<times> 64 word \<Rightarrow> bool" where
  "plain_ready tot r = (\<lambda>(xs, c). c + of_nat r = tot)"

interpretation plain_net: network_exec "compareAndSwap cmp" fst "plain_cx cmp" "plain_ready tot"
  for cmp tot
proof
  fix r :: nat and s :: "SortElement list \<times> 64 word" and i j :: nat and asc :: bool
  assume "plain_ready tot (Suc r) s" "i < j" "j < length (fst s)"
  then show "returns (compareAndSwap cmp asc i j s) (\<lambda>s'. plain_ready tot r s' \<and>
      fst s' = (fst s)[i := fst (plain_cx cmp asc (fst s ! i) (fst s ! j)),
                       j := snd (plain_cx cmp asc (fst s ! i) (fst s ! j))])"
    by (cases s) (auto simp: compareAndSwap_def plain_ready_def plain_cx_def algebra_simps)
qed

text \<open>Under the default comparator the exchange orders keys, in both directions.\<close>

interpretation plain_exchange: compare_exchange se_key "plain_cx defaultLess"
  by unfold_locales (auto simp: plain_cx_def defaultLess_def key_cx_def min_def max_def)

text \<open>The padded input, and what the whole sort returns in terms of the network.\<close>

definition padded_input :: "SortElement list \<Rightarrow> SortElement list" where
  "padded_input xs = xs @ replicate (2 ^ clog2 (length xs) - length xs)
     \<lparr>se_key = - 1, se_payload = replicate (length (se_payload (xs ! 0))) 0\<rparr>"

lemma length_padded_input [simp]: "length (padded_input xs) = 2 ^ clog2 (length xs)"
  using clog2_ge [of "length xs"] by (simp add: padded_input_def)

theorem bitonicSortHelper_run:
  assumes "length xs = 2 ^ m"
  shows "bitonicSortHelper cmp 0 (2 ^ m) asc (xs, 0) =
    Inr (sort_net m (plain_cx cmp) asc xs, of_nat (sort_cmps (2 ^ m)))"
  using plain_net.sort_returns [of "(xs, 0)" "[]" xs "[]" m "of_nat (sort_cmps (2 ^ m))" 0 cmp asc] assms
  by (auto simp: returns_def plain_ready_def bitonicSortHelper_def)

lemma obliviousBitonicSort_run:
  assumes "1 < length xs" "length xs \<le> 2 ^ 63"
  shows "obliviousBitonicSortWithComparator cmp xs =
    Inr (take (length xs) (sort_net (clog2 (length xs)) (plain_cx cmp) True (padded_input xs)))"
proof -
  let ?p = "2 ^ clog2 (length xs) :: nat"
  have p: "unat (2 ^ clog2 (length xs) :: 64 word) = ?p" using clog2_bound [OF assms(2)] by simp
  have pad: "(if ?p > length xs then xs @ replicate (?p - length xs)
      \<lparr>se_key = - 1, se_payload = replicate (length (se_payload (xs ! 0))) 0\<rparr> else xs) = padded_input xs"
    using clog2_ge [of "length xs"] by (auto simp: padded_input_def)
  show ?thesis
    using assms bitonicSortHelper_run [of "padded_input xs" "clog2 (length xs)" cmp True]
    by (simp add: obliviousBitonicSortWithComparator_def nextPowerOfTwo_length Let_def p pad)
qed

subsection \<open>Stripping the sentinels\<close>

text \<open>
  A sorted list whose padding carries the largest key: what is stripped from the tail has
  the largest key, so the keys that remain are the keys that came in.
\<close>

lemma strip_keys:
  fixes ks :: "64 word list"
  assumes "sorted ys" "mset ys = mset ks + replicate_mset p (- 1)" "n = length ks"
  shows "mset (take n ys) = mset ks"
proof -
  have "sorted (sort ks @ replicate p (- 1))"
    by (auto simp: sorted_append sorted_replicate word_order.extremum)
  moreover have "mset (sort ks @ replicate p (- 1)) = mset ys" using assms(2) by simp
  ultimately have "ys = sort ks @ replicate p (- 1)"
    using assms(1) by (metis properties_for_sort)
  then show ?thesis using assms(3) by simp
qed

text \<open>What is kept and what the tail is, for any sorted run over sentinel-padded elements.\<close>

lemma strip_elements:
  fixes key :: "'e \<Rightarrow> 64 word"
  assumes "sorted (map key zs)" "mset zs = mset xs + replicate_mset p s" "key s = - 1"
  shows "sorted (map key (take (length xs) zs))"
    and "mset (map key (take (length xs) zs)) = mset (map key xs)"
    and "filter_mset (\<lambda>e. key e \<noteq> - 1) (mset (take (length xs) zs)) =
         filter_mset (\<lambda>e. key e \<noteq> - 1) (mset xs)"
proof -
  let ?n = "length xs"
  have keys: "mset (map key zs) = mset (map key xs) + replicate_mset p (- 1)"
    using assms(2,3) by simp
  from strip_keys [OF assms(1) keys] show same: "mset (map key (take ?n zs)) = mset (map key xs)"
    by (simp add: take_map)
  show "sorted (map key (take ?n zs))"
    using assms(1) by (simp add: sorted_wrt_take flip: take_map)
  have "map key zs = map key (take ?n zs) @ map key (drop ?n zs)" by (simp flip: map_append)
  then have "mset (map key (take ?n zs)) + mset (map key (drop ?n zs)) = mset (map key zs)"
    by (metis mset_append)
  with keys same have "mset (map key (drop ?n zs)) = replicate_mset p (- 1)"
    by (metis add_left_cancel)
  then have "key ` set (drop ?n zs) \<subseteq> {- 1}"
    by (metis set_map set_mset_mset set_mset_replicate_mset_subset subset_refl empty_subsetI)
  then have "filter_mset (\<lambda>e. key e \<noteq> - 1) (mset (drop ?n zs)) = {#}"
    by (auto simp: filter_mset_eq_conv)
  then have "filter_mset (\<lambda>e. key e \<noteq> - 1) (mset (take ?n zs)) =
      filter_mset (\<lambda>e. key e \<noteq> - 1) (mset (take ?n zs) + mset (drop ?n zs))" by simp
  also have "\<dots> = filter_mset (\<lambda>e. key e \<noteq> - 1) (mset zs)"
    by (simp only: mset_take_drop)
  also have "\<dots> = filter_mset (\<lambda>e. key e \<noteq> - 1) (mset xs)"
    using assms(2,3) by (simp add: filter_mset_eq_conv)
  finally show "filter_mset (\<lambda>e. key e \<noteq> - 1) (mset (take ?n zs)) =
      filter_mset (\<lambda>e. key e \<noteq> - 1) (mset xs)" .
qed

lemma isSortedAscending_iff: "isSortedAscending xs \<longleftrightarrow> sorted (map se_key xs)"
proof
  assume *: "isSortedAscending xs"
  have "map se_key xs ! i \<le> map se_key xs ! Suc i" if "Suc i < length xs" for i
    using * that by (auto simp: isSortedAscending_def list_all_iff not_less dest: bspec [of _ _ "Suc i"])
  then show "sorted (map se_key xs)" by (simp add: sorted_iff_nth_Suc)
next
  assume *: "sorted (map se_key xs)"
  have "\<not> se_key (xs ! i) < se_key (xs ! (i - 1))" if "i \<in> set [1..<length xs]" for i
    using sorted_nth_mono [OF *, of "i - 1" i] that by (auto simp: not_less)
  then show "isSortedAscending xs" by (simp add: isSortedAscending_def list_all_iff)
qed

subsection \<open>Correctness of the sort\<close>

lemma obliviousBitonicSort_sorts:
  assumes "length xs \<le> 2 ^ 63"
  shows "\<exists>ys. obliviousBitonicSort xs = Inr ys \<and> sorted (map se_key ys) \<and>
    mset (map se_key ys) = mset (map se_key xs) \<and>
    filter_mset (\<lambda>e. se_key e \<noteq> - 1) (mset ys) = filter_mset (\<lambda>e. se_key e \<noteq> - 1) (mset xs)"
proof (cases "length xs \<le> 1")
  case True
  then have "xs = [] \<or> (\<exists>x. xs = [x])" by (cases xs) auto
  then show ?thesis
    by (auto simp: obliviousBitonicSort_def obliviousBitonicSortWithComparator_def)
next
  case False
  let ?m = "clog2 (length xs)"
  let ?zs = "sort_net ?m (plain_cx defaultLess) True (padded_input xs)"
  let ?s = "\<lparr>se_key = - 1, se_payload = replicate (length (se_payload (xs ! 0))) 0\<rparr>"
  have "mset ?zs = mset xs + replicate_mset (2 ^ ?m - length xs) ?s"
    unfolding plain_exchange.network_mset [OF length_padded_input] by (simp add: padded_input_def)
  moreover have "sorted (map se_key ?zs)"
    by (rule plain_exchange.network_sorted) simp
  ultimately show ?thesis
    using obliviousBitonicSort_run [of xs defaultLess] assms False strip_elements [of se_key ?zs xs _ ?s]
    by (auto simp: obliviousBitonicSort_def)
qed

subsection \<open>Properties\<close>

text \<open>C22: the plaintext sort returns for every input of up to \<open>2 ^ 63\<close> elements; the result passes
  \<open>isSortedAscending\<close>, holds the same keys with the same multiplicities, and holds exactly the
  same elements, payloads included, among those whose key is not the sentinel key
  \<open>2 ^ 64 - 1\<close>.\<close>

theorem obliviousBitonicSort_correct:
  assumes "length xs \<le> 2 ^ 63"
  shows "\<exists>ys. obliviousBitonicSort xs = Inr ys \<and> isSortedAscending ys \<and>
    mset (map se_key ys) = mset (map se_key xs) \<and>
    filter_mset (\<lambda>e. se_key e \<noteq> - 1) (mset ys) = filter_mset (\<lambda>e. se_key e \<noteq> - 1) (mset xs)"
  using obliviousBitonicSort_sorts [OF assms] by (simp add: isSortedAscending_iff)

lemma obliviousBitonicSort_correct_witness:
  "\<exists>ys. obliviousBitonicSort [\<lparr>se_key = 3, se_payload = [30]\<rparr>, \<lparr>se_key = 1, se_payload = [10]\<rparr>,
      \<lparr>se_key = 2, se_payload = [20]\<rparr>] = Inr ys \<and> isSortedAscending ys \<and> mset (map se_key ys) = {#1, 2, 3#}"
  using obliviousBitonicSort_correct [of "[\<lparr>se_key = 3, se_payload = [30]\<rparr>, \<lparr>se_key = 1, se_payload = [10]\<rparr>,
      \<lparr>se_key = 2, se_payload = [20]\<rparr>]"] by auto

text \<open>An element whose key is \<open>2 ^ 64 - 1\<close> is not protected from the padding: on three such
  elements the sort drops the third payload and returns a padding sentinel in its place.\<close>

theorem obliviousBitonicSort_drops_payload:
  "obliviousBitonicSort [\<lparr>se_key = - 1, se_payload = [7]\<rparr>, \<lparr>se_key = - 1, se_payload = [8]\<rparr>,
     \<lparr>se_key = - 1, se_payload = [9]\<rparr>] =
   Inr [\<lparr>se_key = - 1, se_payload = [7]\<rparr>, \<lparr>se_key = - 1, se_payload = [8]\<rparr>,
     \<lparr>se_key = - 1, se_payload = [0]\<rparr>]"
proof -
  have two: "clog2 (Suc (Suc (Suc 0))) = Suc (Suc 0)" unfolding clog2_def
  proof (rule Least_equality)
    show "Suc (Suc 0) \<le> y" if "Suc (Suc (Suc 0)) \<le> 2 ^ y" for y
    proof (rule ccontr)
      assume "\<not> Suc (Suc 0) \<le> y"
      then have "y = 0 \<or> y = 1" by auto
      with that show False by auto
    qed
  qed simp
  show ?thesis
    by (subst obliviousBitonicSort_def, subst obliviousBitonicSort_run)
      (simp_all add: padded_input_def two half_clean_def plain_cx_def defaultLess_def)
qed

text \<open>The published compare-and-swap count (in 64-bit arithmetic) is the number of exchanges
  the network performs on the padded input, for every length from 2 to \<open>2 ^ 53\<close>.\<close>

theorem compare_swap_count_matches_run:
  assumes "1 < length xs" "length xs \<le> 2 ^ 53"
  shows "\<exists>ys c. bitonicSortHelper cmp 0 (2 ^ clog2 (length xs)) True (padded_input xs, 0) = Inr (ys, c) \<and>
    bitonicCompareSwapCount (of_nat (length xs)) = Inr c"
  using bitonicCompareSwapCount_exact [OF assms]
    bitonicSortHelper_run [of "padded_input xs" "clog2 (length xs)" cmp True] by simp

lemma compare_swap_count_matches_run_witness:
  "\<exists>ys c. bitonicSortHelper defaultLess 0 (2 ^ clog2 2) True
      (padded_input [\<lparr>se_key = 3, se_payload = []\<rparr>, \<lparr>se_key = 1, se_payload = []\<rparr>], 0) = Inr (ys, c) \<and>
    bitonicCompareSwapCount 2 = Inr c"
  using compare_swap_count_matches_run [of "[\<lparr>se_key = 3, se_payload = []\<rparr>, \<lparr>se_key = 1, se_payload = []\<rparr>]"
      defaultLess] by (simp add: numeral_2_eq_2 [symmetric])

text \<open>The doubling loop of \<open>nextPowerOfTwo\<close> ends exactly for \<open>n\<close> up to \<open>2 ^ 63\<close>, and then
  gives the least power of two that is at least \<open>n\<close>; above, the counter wraps to zero and the
  loop runs for ever.\<close>

theorem nextPowerOfTwo_total_iff:
  "nextPowerOfTwo n = (if n \<le> 2 ^ 63 then Some (2 ^ clog2 (unat n)) else None)"
  using nextPowerOfTwo_returns [of n] nextPowerOfTwo_diverges [of n] by (simp add: not_le)

end
