(* ===== verification/Mpc_Sort.thy ===== *)
theory Mpc_Sort
  imports Secure_Compare Oblivious_Sort
begin

text \<open>
  The bitonic sort of secret-shared (key, payload) pairs (\<open>volePSI/MpMpcSort.h\<close>,
  \<open>volePSI/MpMpcSort.cpp\<close>): each compare-and-swap of the network is a secure less-than on the
  shared keys and a conditional swap of every shared bit, selected by its outcome.

  The run is an instance of \<open>network_exec\<close> whose elements are the opened pairs: the shared
  run simulates the network on what the shares open to, and one unit of its budget is the
  \<open>256 + 64 + payload\<close> bit triples of an exchange.
\<close>

record SharedSortElement =
  sse_key :: SharedU64Bin
  sse_payload :: "SharedBit list"

subsection \<open>The conditional swap\<close>

definition conditionalSwapTripleCost :: "64 word \<Rightarrow> 64 word" where
  "conditionalSwapTripleCost payloadBits = 64 + payloadBits"

definition swapOneBit ::
  "SharedBit \<Rightarrow> BeaverTripleBit list \<Rightarrow> SharedBit \<Rightarrow> SharedBit \<Rightarrow> nat \<Rightarrow>
   (SharedBit \<times> SharedBit \<times> nat) result" where
  "swapOneBit selector triples aBit bBit k =
     bindE (xorShared aBit bBit) (\<lambda>diff.
     throw_if (k \<ge> length triples) (RuntimeError ''conditionalSwap: triple bag exhausted'')
       (bindE (secureAnd selector diff (triples ! k)) (\<lambda>maskedDiff.
        bindE (xorShared aBit maskedDiff) (\<lambda>newA.
        bindE (xorShared bBit maskedDiff) (\<lambda>newB.
        Inr (newA, newB, k + 1))))))"

text \<open>The two loops of the swap, over the first \<open>m\<close> bits of two vectors updated in place.\<close>

definition swapBits ::
  "SharedBit \<Rightarrow> BeaverTripleBit list \<Rightarrow> nat \<Rightarrow> SharedBit list \<times> SharedBit list \<times> nat \<Rightarrow>
   (SharedBit list \<times> SharedBit list \<times> nat) result" where
  "swapBits selector triples m =
     foldE (\<lambda>i (as, bs, k).
       bindE (vec_at as i) (\<lambda>a_i.
       bindE (vec_at bs i) (\<lambda>b_i.
       bindE (swapOneBit selector triples a_i b_i k) (\<lambda>(newA, newB, k').
       Inr (as[i := newA], bs[i := newB], k'))))) [0..<m]"

definition conditionalSwap ::
  "SharedSortElement \<Rightarrow> SharedSortElement \<Rightarrow> SharedBit \<Rightarrow> BeaverTripleBit list \<Rightarrow> nat \<Rightarrow>
   (SharedSortElement \<times> SharedSortElement \<times> nat) result" where
  "conditionalSwap a b selector triples k =
     throw_if (length (sse_payload a) \<noteq> length (sse_payload b))
       (RuntimeError ''conditionalSwap: payload size mismatch'')
    (throw_if (bin_N (sse_key a) \<noteq> bin_N (sse_key b) \<or> bin_N (sse_key a) \<noteq> bit_N selector)
       (RuntimeError ''conditionalSwap: N mismatch'')
    (bindE (swapBits selector triples 64 (bin_bits (sse_key a), bin_bits (sse_key b), k))
      (\<lambda>(ka, kb, k1).
     bindE (swapBits selector triples (length (sse_payload a)) (sse_payload a, sse_payload b, k1))
      (\<lambda>(pa, pb, k2).
     Inr (\<lparr>sse_key = \<lparr>bin_bits = ka\<rparr>, sse_payload = pa\<rparr>,
          \<lparr>sse_key = \<lparr>bin_bits = kb\<rparr>, sse_payload = pb\<rparr>, k2)))))"

subsection \<open>The sort\<close>

definition mpcCompareAndSwap ::
  "BeaverTripleBit list \<Rightarrow> bool \<Rightarrow> nat \<Rightarrow> nat \<Rightarrow> SharedSortElement list \<times> nat \<Rightarrow>
   (SharedSortElement list \<times> nat) result" where
  "mpcCompareAndSwap triples ascending i j = (\<lambda>(xs, k).
     bindE (vec_at xs i) (\<lambda>a.
     bindE (vec_at xs j) (\<lambda>b.
     bindE (if ascending then secureLessThan (sse_key b) (sse_key a) triples k
            else secureLessThan (sse_key a) (sse_key b) triples k) (\<lambda>(selector, k1).
     bindE (conditionalSwap a b selector triples k1) (\<lambda>(a', b', k2).
     Inr (xs[i := a', j := b'], k2))))))"

definition mpcBitonicMerge ::
  "BeaverTripleBit list \<Rightarrow> nat \<Rightarrow> nat \<Rightarrow> bool \<Rightarrow> SharedSortElement list \<times> nat \<Rightarrow>
   (SharedSortElement list \<times> nat) result" where
  "mpcBitonicMerge triples = net_merge (mpcCompareAndSwap triples)"

definition mpcBitonicSortHelper ::
  "BeaverTripleBit list \<Rightarrow> nat \<Rightarrow> nat \<Rightarrow> bool \<Rightarrow> SharedSortElement list \<times> nat \<Rightarrow>
   (SharedSortElement list \<times> nat) result" where
  "mpcBitonicSortHelper triples = net_sort (mpcCompareAndSwap triples)"

definition nextPow2 :: "64 word \<Rightarrow> 64 word option" where
  "nextPow2 n = (if n \<le> 1 then Some 1 else nextPow_loop n 1)"

definition mpcBitonicSortTripleCost :: "64 word \<Rightarrow> 64 word \<Rightarrow> 64 word result" where
  "mpcBitonicSortTripleCost n payloadBits =
     (if n \<le> 1 then Inr 0
      else case nextPow2 n of None \<Rightarrow> Inl Diverges
      | Some padded \<Rightarrow>
          bindE (bitonicCompareSwapCount padded) (\<lambda>swaps.
          let perSwap = secureLessThanTripleCost + conditionalSwapTripleCost payloadBits
          in Inr (swaps * perSwap)))"

text \<open>The sentinel: every key bit is one (the share of party 0), the payload bits are zero.\<close>

definition sentinelElement :: "nat \<Rightarrow> nat \<Rightarrow> SharedSortElement result" where
  "sentinelElement N payloadLen =
     bindE (mapE (\<lambda>i. bindE (vec_set (bit_shares (bit_zero N)) 0 1) (\<lambda>ss. Inr \<lparr>bit_shares = ss\<rparr>))
              [0..<64]) (\<lambda>keyBits.
     Inr \<lparr>sse_key = \<lparr>bin_bits = keyBits\<rparr>, sse_payload = replicate payloadLen (bit_zero N)\<rparr>)"

definition mpcBitonicSort ::
  "SharedSortElement list \<Rightarrow> BeaverTripleBit list \<Rightarrow> nat \<Rightarrow> (SharedSortElement list \<times> nat) result" where
  "mpcBitonicSort xs triples k =
     (let n = length xs in
      if n \<le> 1 then Inr (xs, k)
      else case nextPow2 (of_nat n) of None \<Rightarrow> Inl Diverges
      | Some p \<Rightarrow>
          let padded = unat p in
          bindE (if padded > n
                 then bindE (sentinelElement (bin_N (sse_key (xs ! 0))) (length (sse_payload (xs ! 0))))
                   (\<lambda>sentinel. Inr (xs @ replicate (padded - n) sentinel))
                 else Inr xs) (\<lambda>xs'.
          bindE (mpcBitonicSortHelper triples 0 padded True (xs', k)) (\<lambda>(ys, k').
          Inr (take n ys, k'))))"

subsection \<open>Correctness of one exchange\<close>

lemma swapOneBit_returns:
  assumes "bag_ok n ts" "bit_N s = n" "bit_N a = n" "bit_N b = n" "k < length ts"
  shows "returns (swapOneBit s ts a b k) (\<lambda>(a', b', k'). bit_N a' = n \<and> bit_N b' = n \<and> k' = Suc k \<and>
    bval a' = bval (if bval s then b else a) \<and> bval b' = bval (if bval s then a else b))"
  unfolding swapOneBit_def using assms by (intro gate_wp) (simp_all, blast)

abbreviation bits_ok :: "nat \<Rightarrow> nat \<Rightarrow> SharedBit list \<Rightarrow> bool" where
  "bits_ok n m bs \<equiv> length bs = m \<and> (\<forall>i<m. bit_N (bs ! i) = n)"

lemma swapBits_returns:
  assumes "bag_ok n ts" "bit_N s = n" "bits_ok n m as" "bits_ok n m bs" "k + m \<le> length ts"
  shows "returns (swapBits s ts m (as, bs, k)) (\<lambda>(as', bs', k'). bits_ok n m as' \<and> bits_ok n m bs' \<and>
    k' = k + m \<and> map bval as' = map bval (if bval s then bs else as) \<and>
    map bval bs' = map bval (if bval s then as else bs))"
proof -
  let ?I = "\<lambda>i (as', bs', k'). bits_ok n m as' \<and> bits_ok n m bs' \<and> k' = k + i \<and>
    (\<forall>j<i. bval (as' ! j) = bval ((if bval s then bs else as) ! j) \<and>
           bval (bs' ! j) = bval ((if bval s then as else bs) ! j)) \<and>
    (\<forall>j. i \<le> j \<longrightarrow> j < m \<longrightarrow> as' ! j = as ! j \<and> bs' ! j = bs ! j)"
  have "returns (swapBits s ts m (as, bs, k)) (?I m)"
    unfolding swapBits_def
  proof (rule returns_foldE_upt [where I = ?I])
    fix i and st :: "SharedBit list \<times> SharedBit list \<times> nat"
    assume i: "i < m" and I: "?I i st"
    obtain as' bs' k' where st: "st = (as', bs', k')" by (cases st)
    have "returns (swapOneBit s ts (as' ! i) (bs' ! i) k') (\<lambda>(a', b', k''). bit_N a' = n \<and> bit_N b' = n \<and>
        k'' = Suc k' \<and> bval a' = bval (if bval s then bs' ! i else as' ! i) \<and>
        bval b' = bval (if bval s then as' ! i else bs' ! i))"
      using assms i I by (intro swapOneBit_returns) (auto simp: st)
    then show "returns ((\<lambda>(as, bs, k). bindE (vec_at as i) (\<lambda>a_i. bindE (vec_at bs i) (\<lambda>b_i.
        bindE (swapOneBit s ts a_i b_i k) (\<lambda>(newA, newB, k'). Inr (as[i := newA], bs[i := newB], k'))))) st)
        (?I (Suc i))"
      using i I by (auto simp: st returns_bindE nth_list_update less_Suc_eq elim!: returns_mono)
  qed (use assms in simp)
  then show ?thesis
    using assms(3,4) by (auto elim!: returns_mono intro!: nth_equalityI)
qed

text \<open>What an element opens to.\<close>

definition reveal_elem :: "SharedSortElement \<Rightarrow> 64 word \<times> bool list" where
  "reveal_elem e = (bin_reconstruct (sse_key e), map bval (sse_payload e))"

definition elem_ok :: "nat \<Rightarrow> nat \<Rightarrow> SharedSortElement \<Rightarrow> bool" where
  "elem_ok n p e \<longleftrightarrow> bin_ok n (sse_key e) \<and> bits_ok n p (sse_payload e)"

lemma bin_reconstruct_map_bval:
  "length (bin_bits x) = 64 \<Longrightarrow> length (bin_bits y) = 64 \<Longrightarrow>
   map bval (bin_bits x) = map bval (bin_bits y) \<Longrightarrow> bin_reconstruct x = bin_reconstruct y"
  unfolding bin_eq_iff by (metis length_map nth_map)

lemma conditionalSwap_returns:
  assumes "bag_ok n ts" "bit_N s = n" "elem_ok n p a" "elem_ok n p b" "k + (64 + p) \<le> length ts"
  shows "returns (conditionalSwap a b s ts k) (\<lambda>(a', b', k'). elem_ok n p a' \<and> elem_ok n p b' \<and>
    k' = k + (64 + p) \<and> reveal_elem a' = reveal_elem (if bval s then b else a) \<and>
    reveal_elem b' = reveal_elem (if bval s then a else b))"
proof -
  let ?ka = "bin_bits (sse_key a)" and ?kb = "bin_bits (sse_key b)"
  let ?pa = "sse_payload a" and ?pb = "sse_payload b"
  have ok: "bits_ok n 64 ?ka" "bits_ok n 64 ?kb" "bits_ok n p ?pa" "bits_ok n p ?pb"
    using assms(3,4) by (simp_all add: elem_ok_def bin_ok_def)
  have N: "bin_N (sse_key a) = n" "bin_N (sse_key b) = n"
    using assms(3,4) by (simp_all add: elem_ok_def bin_ok_N)
  from swapBits_returns [OF assms(1,2) ok(1,2), of k] assms(5) obtain ka kb where
    k: "swapBits s ts 64 (?ka, ?kb, k) = Inr (ka, kb, k + 64)" "bits_ok n 64 ka" "bits_ok n 64 kb"
      "map bval ka = map bval (if bval s then ?kb else ?ka)"
      "map bval kb = map bval (if bval s then ?ka else ?kb)"
    by (auto simp: returns_def simp del: map_eq_conv)
  from swapBits_returns [OF assms(1,2) ok(3,4), of "k + 64"] assms(5) obtain pa pb where
    p: "swapBits s ts p (?pa, ?pb, k + 64) = Inr (pa, pb, k + 64 + p)" "bits_ok n p pa" "bits_ok n p pb"
      "map bval pa = map bval (if bval s then ?pb else ?pa)"
      "map bval pb = map bval (if bval s then ?pa else ?pb)"
    by (auto simp: returns_def simp del: map_eq_conv)
  have "bin_reconstruct \<lparr>bin_bits = ka\<rparr> = bin_reconstruct (sse_key (if bval s then b else a))"
    "bin_reconstruct \<lparr>bin_bits = kb\<rparr> = bin_reconstruct (sse_key (if bval s then a else b))"
    by (rule bin_reconstruct_map_bval; use k ok in simp)+
  then show ?thesis
    using k(1-3) p ok N assms(2)
    by (simp add: conditionalSwap_def elem_ok_def bin_ok_def reveal_elem_def)
qed

definition mpc_cx :: "bool \<Rightarrow> 64 word \<times> 'p \<Rightarrow> 64 word \<times> 'p \<Rightarrow> (64 word \<times> 'p) \<times> (64 word \<times> 'p)" where
  "mpc_cx asc a b = (if (if asc then fst b < fst a else fst a < fst b) then (b, a) else (a, b))"

text \<open>The budget: the cursor plus the triples of the exchanges still to come is \<open>K\<close>.\<close>

definition mpc_ready ::
  "nat \<Rightarrow> nat \<Rightarrow> BeaverTripleBit list \<Rightarrow> nat \<Rightarrow> nat \<Rightarrow> SharedSortElement list \<times> nat \<Rightarrow> bool" where
  "mpc_ready n p ts K r = (\<lambda>(xs, k). bag_ok n ts \<and> (\<forall>x\<in>set xs. elem_ok n p x) \<and>
     k + r * (320 + p) = K \<and> K \<le> length ts)"

lemma mpcCompareAndSwap_returns:
  assumes "mpc_ready n p ts K (Suc r) (xs, k)" "i < j" "j < length xs"
  shows "returns (mpcCompareAndSwap ts asc i j (xs, k)) (\<lambda>s'. mpc_ready n p ts K r s' \<and>
      map reveal_elem (fst s') =
        (map reveal_elem xs)[i := fst (mpc_cx asc (reveal_elem (xs ! i)) (reveal_elem (xs ! j))),
                             j := snd (mpc_cx asc (reveal_elem (xs ! i)) (reveal_elem (xs ! j)))])"
proof -
  let ?a = "xs ! i" and ?b = "xs ! j"
  have bag: "bag_ok n ts" and K: "k + 256 + (64 + p) + r * (320 + p) = K" "K \<le> length ts"
    and all: "\<forall>x\<in>set xs. elem_ok n p x"
    using assms(1) by (simp_all add: mpc_ready_def)
  have ok: "elem_ok n p ?a" "elem_ok n p ?b" using all assms(2,3) by simp_all
  then have keys: "bin_ok n (sse_key ?a)" "bin_ok n (sse_key ?b)" by (simp_all add: elem_ok_def)
  have "returns (if asc then secureLessThan (sse_key ?b) (sse_key ?a) ts k
      else secureLessThan (sse_key ?a) (sse_key ?b) ts k)
    (\<lambda>(s, k'). bit_N s = n \<and> k' = k + 256 \<and> bval s =
      (if asc then fst (reveal_elem ?b) < fst (reveal_elem ?a) else fst (reveal_elem ?a) < fst (reveal_elem ?b)))"
    using secureLessThan_returns [OF bag keys(1,2), of k] secureLessThan_returns [OF bag keys(2,1), of k] K
    by (cases asc) (simp_all add: reveal_elem_def)
  then obtain s where s: "(if asc then secureLessThan (sse_key ?b) (sse_key ?a) ts k
      else secureLessThan (sse_key ?a) (sse_key ?b) ts k) = Inr (s, k + 256)" "bit_N s = n"
      "bval s = (if asc then fst (reveal_elem ?b) < fst (reveal_elem ?a)
                 else fst (reveal_elem ?a) < fst (reveal_elem ?b))"
    by (auto simp only: returns_def split: prod.splits)
  from conditionalSwap_returns [OF bag s(2) ok, of "k + 256"] K obtain a' b' where
    c: "conditionalSwap ?a ?b s ts (k + 256) = Inr (a', b', k + 256 + (64 + p))"
      "elem_ok n p a'" "elem_ok n p b'" "reveal_elem a' = reveal_elem (if bval s then ?b else ?a)"
      "reveal_elem b' = reveal_elem (if bval s then ?a else ?b)"
    by (auto simp: returns_def)
  have "mpc_ready n p ts K r (xs[i := a', j := b'], k + 256 + (64 + p))"
    using bag K all c by (auto simp: mpc_ready_def dest!: subsetD [OF set_update_subset_insert])
  then show ?thesis
    using assms(2,3) c s by (simp add: mpcCompareAndSwap_def map_update mpc_cx_def)
qed

interpretation mpc_net: network_exec "mpcCompareAndSwap ts" "\<lambda>s. map reveal_elem (fst s)" mpc_cx
    "mpc_ready n p ts K" for ts n p K
proof
  fix r :: nat and s :: "SharedSortElement list \<times> nat" and i j :: nat and asc :: bool
  assume "mpc_ready n p ts K (Suc r) s" "i < j" "j < length (map reveal_elem (fst s))"
  then show "returns (mpcCompareAndSwap ts asc i j s) (\<lambda>s'. mpc_ready n p ts K r s' \<and>
      map reveal_elem (fst s') = (map reveal_elem (fst s))
        [i := fst (mpc_cx asc (map reveal_elem (fst s) ! i) (map reveal_elem (fst s) ! j)),
         j := snd (mpc_cx asc (map reveal_elem (fst s) ! i) (map reveal_elem (fst s) ! j))])"
    using mpcCompareAndSwap_returns [of n p ts K r "fst s" "snd s" i j asc] by simp
qed

interpretation mpc_exchange: compare_exchange fst mpc_cx
  by unfold_locales (auto simp: mpc_cx_def key_cx_def min_def max_def)

subsection \<open>Correctness of the sort\<close>

lemma nextPow2_eq: "nextPow2 = nextPowerOfTwo"
  by (rule ext) (simp add: nextPow2_def nextPowerOfTwo_def)

lemma sentinelElement_returns:
  assumes "0 < n"
  shows "returns (sentinelElement n p) (\<lambda>e. elem_ok n p e \<and> reveal_elem e = (- 1, replicate p False))"
proof -
  let ?one = "\<lparr>bit_shares = (replicate n 0)[0 := 1]\<rparr>"
  have one: "bit_N ?one = n" "bval ?one"
    using assms by (cases n; simp add: bit_N_def bval_xor_list)+
  have bits: "mapE (\<lambda>i. bindE (vec_set (bit_shares (bit_zero n)) 0 1) (\<lambda>ss. Inr \<lparr>bit_shares = ss\<rparr>)) js
      = Inr (replicate (length js) ?one)" for js :: "nat list"
    using assms by (induction js) (simp_all add: bit_zero_def)
  have "bin_reconstruct \<lparr>bin_bits = replicate 64 ?one\<rparr> = - 1"
    by (rule bin_reconstruct_eqI) (use one in simp)
  then show ?thesis
    using one by (simp add: sentinelElement_def bits elem_ok_def bin_ok_def reveal_elem_def
        map_replicate del: upt_rec_numeral)
qed

text \<open>The number of bit triples the sort of \<open>m\<close> elements with \<open>p\<close> payload bits takes.\<close>

definition sort_cost :: "nat \<Rightarrow> nat \<Rightarrow> nat" where
  "sort_cost m p = (if m \<le> 1 then 0 else sort_cmps (2 ^ clog2 m) * (320 + p))"

lemma mpcBitonicSort_run:
  assumes "bag_ok n ts" "\<forall>x\<in>set xs. elem_ok n p x" "1 < length xs" "length xs \<le> 2 ^ 63"
    and "k + sort_cost (length xs) p \<le> length ts"
  shows "returns (mpcBitonicSort xs ts k) (\<lambda>(ys, k'). (\<forall>y\<in>set ys. elem_ok n p y) \<and>
    k' = k + sort_cost (length xs) p \<and>
    map reveal_elem ys = take (length xs) (sort_net (clog2 (length xs)) mpc_cx True
      (map reveal_elem xs @ replicate (2 ^ clog2 (length xs) - length xs) (- 1, replicate p False))))"
proof -
  let ?n = "length xs" and ?m = "clog2 (length xs)"
  let ?S = "(- 1, replicate p False) :: 64 word \<times> bool list"
  have n: "0 < n" using assms(1) by (simp add: bag_ok_pos)
  have "xs ! 0 \<in> set xs" using assms(3) by (intro nth_mem) linarith
  with assms(2) have first: "elem_ok n p (xs ! 0)" by (rule bspec)
  then have N: "bin_N (sse_key (xs ! 0)) = n" "length (sse_payload (xs ! 0)) = p"
    by (simp_all add: elem_ok_def bin_ok_N)
  have pow: "unat (2 ^ ?m :: 64 word) = 2 ^ ?m" using clog2_bound [OF assms(4)] by simp
  from sentinelElement_returns [OF n, of p] obtain S where
    S: "sentinelElement n p = Inr S" "elem_ok n p S" "reveal_elem S = ?S" by (auto simp: returns_def)
  define xs' where "xs' = xs @ replicate (2 ^ ?m - ?n) S"
  have len: "length xs' = 2 ^ ?m" using clog2_ge [of ?n] by (simp add: xs'_def)
  have ok: "\<forall>x\<in>set xs'. elem_ok n p x" using assms(2) S(2) by (auto simp: xs'_def)
  have "mpc_ready n p ts (k + sort_cost ?n p) (sort_cmps (2 ^ ?m) + 0) (xs', k)"
    using assms ok by (simp add: mpc_ready_def sort_cost_def)
  then have "returns (mpcBitonicSortHelper ts 0 (2 ^ ?m) True (xs', k)) (\<lambda>s'.
      mpc_ready n p ts (k + sort_cost ?n p) 0 s' \<and>
      map reveal_elem (fst s') = sort_net ?m mpc_cx True (map reveal_elem xs'))"
    unfolding mpcBitonicSortHelper_def
    using mpc_net.sort_returns [of "(xs', k)" "[]" "map reveal_elem xs'" "[]" ?m n p ts
        "k + sort_cost ?n p" 0 True] len by simp
  then obtain ys where run: "mpcBitonicSortHelper ts 0 (2 ^ ?m) True (xs', k) = Inr (ys, k + sort_cost ?n p)"
    and ys: "\<forall>y\<in>set ys. elem_ok n p y" "map reveal_elem ys = sort_net ?m mpc_cx True (map reveal_elem xs')"
    by (elim returnsE) (clarsimp simp: mpc_ready_def simp del: map_map map_eq_conv map_append)
  have "mpcBitonicSort xs ts k = Inr (take ?n ys, k + sort_cost ?n p)"
    using assms(3,4) run [unfolded xs'_def]
    by (cases "?n < 2 ^ ?m") (simp_all add: mpcBitonicSort_def nextPow2_eq nextPowerOfTwo_length Let_def N pow S)
  moreover have "\<forall>y\<in>set (take ?n ys). elem_ok n p y"
    using ys(1) by (blast dest: in_set_takeD)
  moreover have "map reveal_elem (take ?n ys) = take ?n (sort_net ?m mpc_cx True
      (map reveal_elem xs @ replicate (2 ^ ?m - ?n) ?S))"
    using ys(2) by (simp add: xs'_def S(3) map_replicate flip: take_map)
  ultimately show ?thesis by simp
qed

lemma mpcBitonicSortTripleCost_exact:
  assumes "1 < n" "n \<le> 2 ^ 53"
  shows "mpcBitonicSortTripleCost (of_nat n) (of_nat p) = Inr (of_nat (sort_cost n p))"
proof -
  have n: "n \<le> 2 ^ 63" "unat (of_nat n :: 64 word) = n"
    using assms nextPowerOfTwo_length(2) [of n] by simp_all
  have c: "1 < (2 :: nat) ^ clog2 n" "clog2 n \<le> 53"
    using assms clog2_pos [of n] clog2_le [of n 53] one_less_power [of "2 :: nat" "clog2 n"] by simp_all
  then have le: "(2 :: nat) ^ clog2 n \<le> 2 ^ 53" by (intro power_increasing) simp_all
  have idem: "clog2 (2 ^ clog2 n) = clog2 n"
    by (rule antisym) (simp_all add: clog2_le clog2_ge [of "2 ^ clog2 n", simplified])
  have "bitonicCompareSwapCount (2 ^ clog2 n) = Inr (of_nat (sort_cmps (2 ^ clog2 n)))"
    using bitonicCompareSwapCount_exact [OF c(1) le] by (simp add: idem)
  moreover have "\<not> (of_nat n :: 64 word) \<le> 1" using assms(1) n(2) by (simp add: word_le_nat_alt)
  ultimately show ?thesis
    using assms(1) nextPowerOfTwo_length(1) [OF n(1)]
    by (simp add: mpcBitonicSortTripleCost_def nextPow2_eq sort_cost_def secureLessThanTripleCost_def
        conditionalSwapTripleCost_def algebra_simps)
qed

lemma mpcBitonicSortTripleCost_small:
  assumes "n \<le> 2 ^ 53"
  shows "mpcBitonicSortTripleCost (of_nat n) (of_nat p) = Inr (of_nat (sort_cost n p))"
proof (cases "1 < n")
  case True
  then show ?thesis using mpcBitonicSortTripleCost_exact assms by simp
next
  case False
  then have "(of_nat n :: 64 word) \<le> 1" by (cases n) simp_all
  then show ?thesis using False by (simp add: mpcBitonicSortTripleCost_def sort_cost_def)
qed

text \<open>In the form the join uses: what the sorted elements open to, and the cursor.\<close>

theorem mpcBitonicSort_returns:
  assumes "bag_ok n ts" "\<forall>x\<in>set xs. elem_ok n p x" "length xs \<le> 2 ^ 63"
    and "k + sort_cost (length xs) p \<le> length ts"
  shows "returns (mpcBitonicSort xs ts k) (\<lambda>(ys, k'). (\<forall>y\<in>set ys. elem_ok n p y) \<and>
    length ys = length xs \<and> k' = k + sort_cost (length xs) p \<and>
    sorted (map (fst \<circ> reveal_elem) ys) \<and>
    mset (map (fst \<circ> reveal_elem) ys) = mset (map (fst \<circ> reveal_elem) xs) \<and>
    filter_mset (\<lambda>e. fst e \<noteq> - 1) (mset (map reveal_elem ys)) =
      filter_mset (\<lambda>e. fst e \<noteq> - 1) (mset (map reveal_elem xs)))"
proof (cases "1 < length xs")
  case True
  let ?m = "clog2 (length xs)" and ?S = "(- 1, replicate p False) :: 64 word \<times> bool list"
  let ?in = "map reveal_elem xs @ replicate (2 ^ ?m - length xs) ?S"
  let ?zs = "sort_net ?m mpc_cx True ?in"
  have len: "length ?in = 2 ^ ?m" using clog2_ge [of "length xs"] by simp
  have lenz: "length ?zs = 2 ^ ?m" using length_sort_net [OF len, of mpc_cx True] len by simp
  have "mset ?zs = mset (map reveal_elem xs) + replicate_mset (2 ^ ?m - length xs) ?S"
    unfolding mpc_exchange.network_mset [OF len] by simp
  note strip = strip_elements [OF mpc_exchange.network_sorted [OF len] this]
  from mpcBitonicSort_run [OF assms(1,2) True assms(3,4)] obtain ys where
    run: "mpcBitonicSort xs ts k = Inr (ys, k + sort_cost (length xs) p)"
    and ok: "\<forall>y\<in>set ys. elem_ok n p y" and ys: "map reveal_elem ys = take (length xs) ?zs"
    by (elim returnsE) (clarsimp simp del: map_map map_eq_conv)
  have "length ys = length xs"
    using arg_cong [OF ys, of length] lenz clog2_ge [of "length xs"] by simp
  moreover have "sorted (map fst (map reveal_elem ys))"
    "mset (map fst (map reveal_elem ys)) = mset (map fst (map reveal_elem xs))"
    "filter_mset (\<lambda>e. fst e \<noteq> - 1) (mset (map reveal_elem ys)) =
      filter_mset (\<lambda>e. fst e \<noteq> - 1) (mset (map reveal_elem xs))"
    using strip unfolding ys by (simp_all only: length_map fst_conv)
  ultimately show ?thesis using run ok by (simp only: returns_Inr split map_map simp_thms)
next
  case False
  then have "xs = [] \<or> (\<exists>x. xs = [x])" by (cases xs) auto
  with assms show ?thesis by (auto simp: mpcBitonicSort_def sort_cost_def)
qed

subsection \<open>Properties\<close>

text \<open>C9: on shared elements of equal payload width and a bag holding the published number of triples,
  the secret-shared sort returns and consumes exactly that number; the opened keys come out
  sorted with their multiplicities, and every opened (key, payload) pair whose key is not the
  sentinel key is kept.\<close>

theorem mpcBitonicSort_correct:
  assumes "bag_ok n ts" "\<forall>x\<in>set xs. elem_ok n p x" "1 < length xs" "length xs \<le> 2 ^ 53"
    and "k + sort_cost (length xs) p \<le> length ts"
  shows "\<exists>ys c. mpcBitonicSortTripleCost (of_nat (length xs)) (of_nat p) = Inr (of_nat c) \<and>
    mpcBitonicSort xs ts k = Inr (ys, k + c) \<and> length ys = length xs \<and>
    sorted (map (fst \<circ> reveal_elem) ys) \<and>
    mset (map (fst \<circ> reveal_elem) ys) = mset (map (fst \<circ> reveal_elem) xs) \<and>
    filter_mset (\<lambda>e. fst e \<noteq> - 1) (mset (map reveal_elem ys)) =
      filter_mset (\<lambda>e. fst e \<noteq> - 1) (mset (map reveal_elem xs))"
proof -
  have "length xs \<le> 2 ^ 63" using assms(4) by simp
  from mpcBitonicSort_returns [OF assms(1,2) this assms(5)]
    mpcBitonicSortTripleCost_exact [OF assms(3,4), of p]
  show ?thesis
    by (elim returnsE) (auto simp del: map_map mset_map)
qed

lemma clog2_2: "clog2 2 = 1"
  using clog2_pos [of 2] clog2_le [of 2 1] by simp

lemma sort_cost_2: "sort_cost 2 p = 320 + p"
  using sort_cmps_pow2 [of 1] by (simp add: sort_cost_def clog2_2)

lemma mpcBitonicSort_correct_witness:
  "\<exists>x y ys k'. bin_reconstruct x = 5 \<and> bin_reconstruct y = 3 \<and>
     mpcBitonicSort [\<lparr>sse_key = x, sse_payload = []\<rparr>, \<lparr>sse_key = y, sse_payload = []\<rparr>]
       (replicate 320 (zero_triple 2)) 0 = Inr (ys, k') \<and>
     sorted (map (fst \<circ> reveal_elem) ys) \<and> mset (map (fst \<circ> reveal_elem) ys) = {#3, 5#}"
proof -
  obtain x y where xy: "bin_ok 2 x" "bin_reconstruct x = 5" "bin_ok 2 y" "bin_reconstruct y = 3"
    using bin_sharing_exists [of 2 5] bin_sharing_exists [of 2 3] by auto
  let ?xs = "[\<lparr>sse_key = x, sse_payload = []\<rparr>, \<lparr>sse_key = y, sse_payload = []\<rparr>]"
  have ok: "\<forall>e\<in>set ?xs. elem_ok 2 0 e" using xy by (simp add: elem_ok_def)
  have "0 + sort_cost (length ?xs) 0 \<le> length (replicate 320 (zero_triple 2))"
    using sort_cost_2 [of 0] by (simp add: numeral_2_eq_2)
  from mpcBitonicSort_correct [OF bag_ok_zero_triples ok _ _ this] obtain ys c where
    "mpcBitonicSort ?xs (replicate 320 (zero_triple 2)) 0 = Inr (ys, 0 + c)"
    "sorted (map (fst \<circ> reveal_elem) ys)"
    "mset (map (fst \<circ> reveal_elem) ys) = mset (map (fst \<circ> reveal_elem) ?xs)" by auto
  moreover have "mset (map (fst \<circ> reveal_elem) ?xs) = {#3, 5#}"
    using xy by (simp add: reveal_elem_def add_mset_commute)
  ultimately show ?thesis using xy by metis
qed

end
