(* ===== verification/Cross_Product.thy ===== *)
theory Cross_Product
  imports Prelude "HOL-Library.Multiset"
begin

text \<open>
  The combinatorics both cross-product expanders share (\<open>MpJoinExpander.cpp\<close>,
  \<open>MpMpcJoin.cpp\<close>): the mixed-radix counter that enumerates one-tuple-per-party choices, the
  fact that its \<open>M ^ N\<close> states are all choices, each once, and \<open>cross_join\<close>, the
  order-independent meaning of a join expansion: for every key, one row per choice of one
  tuple of that key from each party.
\<close>

subsection \<open>The mixed-radix counter\<close>

text \<open>The mixed-radix counter: digit \<open>p\<close> ranges over \<open>[0, M)\<close>.\<close>

fun incDigits :: "nat \<Rightarrow> nat list \<Rightarrow> nat list" where
  "incDigits M [] = []"
| "incDigits M (d # ds) = (if d + 1 < M then (d + 1) # ds else 0 # incDigits M ds)"

text \<open>The digits of \<open>c\<close> in base \<open>M\<close>, least significant first.\<close>

definition digits_of :: "nat \<Rightarrow> nat \<Rightarrow> nat \<Rightarrow> nat list" where
  "digits_of M N c = map (\<lambda>p. c div M ^ p mod M) [0..<N]"

lemma digits_of_Suc: "digits_of M (Suc N) c = (c mod M) # digits_of M N (c div M)"
  by (simp add: digits_of_def upt_conv_Cons map_Suc_upt [symmetric] div_mult2_eq del: upt_Suc)

lemma digits_of_0: "digits_of M N 0 = replicate N 0"
  by (simp add: digits_of_def map_replicate_trivial)

lemma length_digits_of [simp]: "length (digits_of M N c) = N"
  by (simp add: digits_of_def)

lemma digits_of_less: "0 < M \<Longrightarrow> p < N \<Longrightarrow> digits_of M N c ! p < M"
  by (simp add: digits_of_def)

lemma incDigits_digits_of: "0 < M \<Longrightarrow> incDigits M (digits_of M N c) = digits_of M N (Suc c)"
proof (induction N arbitrary: c)
  case (Suc N)
  then show ?case
    by (auto simp: digits_of_Suc mod_Suc div_Suc intro!: Suc_lessI)
qed (simp add: digits_of_def)

lemma digits_of_inj:
  assumes "0 < M" "c < M ^ N" "c' < M ^ N" "digits_of M N c = digits_of M N c'"
  shows "c = c'"
  using assms(2-)
proof (induction N arbitrary: c c')
  case (Suc N)
  have "c div M = c' div M"
    using Suc.prems assms(1) by (intro Suc.IH) (simp_all add: digits_of_Suc less_mult_imp_div_less mult.commute)
  moreover have "c mod M = c' mod M" using Suc.prems by (simp add: digits_of_Suc)
  ultimately show ?case by (metis div_mult_mod_eq)
qed simp

text \<open>Every choice of digits is reached exactly once.\<close>

lemma digits_of_image:
  assumes "0 < M"
  shows "digits_of M N ` {..<M ^ N} = {ds. set ds \<subseteq> {..<M} \<and> length ds = N}"
proof (rule card_subset_eq)
  show "finite {ds. set ds \<subseteq> {..<M} \<and> length ds = N}" by (rule finite_lists_length_eq) simp
  show "digits_of M N ` {..<M ^ N} \<subseteq> {ds. set ds \<subseteq> {..<M} \<and> length ds = N}"
    using assms by (auto simp: digits_of_def)
  have "inj_on (digits_of M N) {..<M ^ N}"
    using digits_of_inj [OF assms] by (auto intro: inj_onI)
  then show "card (digits_of M N ` {..<M ^ N}) = card {ds. set ds \<subseteq> {..<M} \<and> length ds = N}"
    by (simp add: card_image card_lists_length_eq)
qed

subsection \<open>The choices as lists\<close>

lemma mset_product_lists_Cons:
  "mset (product_lists (xs # xss)) =
     (\<Sum>x\<in>#mset xs. image_mset (Cons x) (mset (product_lists xss)))"
  by (induction xs) simp_all

lemma mset_product_lists_perm:
  "list_all2 (\<lambda>xs ys. mset xs = mset ys) xss yss \<Longrightarrow> mset (product_lists xss) = mset (product_lists yss)"
  by (induction rule: list_all2_induct) (simp_all only: mset_product_lists_Cons)

lemma mset_upt_mult:
  "mset (map (\<lambda>c. f (c mod M) (c div M)) [0..<M * K]) =
     (\<Sum>a\<in>#mset [0..<M]. image_mset (f a) (mset [0..<K]))" if "0 < M"
proof (induction K)
  case (Suc K)
  have "[0..<M * Suc K] = [0..<M * K] @ map (\<lambda>a. M * K + a) [0..<M]"
    by (rule nth_equalityI) (auto simp: nth_append)
  moreover have "map (\<lambda>c. f (c mod M) (c div M)) (map (\<lambda>a. M * K + a) [0..<M]) = map (\<lambda>a. f a K) [0..<M]"
    using that by simp
  ultimately have "mset (map (\<lambda>c. f (c mod M) (c div M)) [0..<M * Suc K]) =
      mset (map (\<lambda>c. f (c mod M) (c div M)) [0..<M * K]) + mset (map (\<lambda>a. f a K) [0..<M])"
    by (simp only: map_append mset_append)
  also have "\<dots> = (\<Sum>a\<in>#mset [0..<M]. image_mset (f a) (mset [0..<K])) + (\<Sum>a\<in>#mset [0..<M]. {#f a K#})"
    unfolding Suc.IH by simp
  also have "\<dots> = (\<Sum>a\<in>#mset [0..<M]. image_mset (f a) (mset [0..<K]) + {#f a K#})"
    by (simp only: sum_mset.distrib)
  finally show ?case by simp
qed simp

lemma mset_choices:
  assumes "0 < M" "\<forall>p<N. length (L p) = M"
  shows "mset (map (\<lambda>c. map (\<lambda>p. L p ! (digits_of M N c ! p)) [0..<N]) [0..<M ^ N]) =
    mset (product_lists (map L [0..<N]))"
  using assms(2)
proof (induction N arbitrary: L)
  case (Suc N)
  let ?ch = "\<lambda>c. map (\<lambda>p. L (Suc p) ! (digits_of M N c ! p)) [0..<N]"
  have split: "map (\<lambda>p. L p ! (digits_of M (Suc N) c ! p)) [0..<Suc N] = (L 0 ! (c mod M)) # ?ch (c div M)" for c
    by (simp add: digits_of_Suc upt_conv_Cons map_Suc_upt [symmetric] del: upt_Suc)
  have IH: "mset (map ?ch [0..<M ^ N]) = mset (product_lists (map (\<lambda>p. L (Suc p)) [0..<N]))"
    using Suc.prems by (intro Suc.IH) simp
  have L0: "mset (L 0) = image_mset (\<lambda>a. L 0 ! a) (mset [0..<M])"
    using Suc.prems by (metis map_nth mset_map zero_less_Suc)
  have "mset (map (\<lambda>c. map (\<lambda>p. L p ! (digits_of M (Suc N) c ! p)) [0..<Suc N]) [0..<M ^ Suc N]) =
      mset (map (\<lambda>c. (L 0 ! (c mod M)) # ?ch (c div M)) [0..<M * M ^ N])"
    by (simp only: split power_Suc)
  also have "\<dots> = (\<Sum>a\<in>#mset [0..<M]. image_mset (\<lambda>c. (L 0 ! a) # ?ch c) (mset [0..<M ^ N]))"
    by (rule mset_upt_mult [OF assms(1)])
  also have "\<dots> = (\<Sum>a\<in>#mset [0..<M]. image_mset (Cons (L 0 ! a)) (mset (map ?ch [0..<M ^ N])))"
    by (simp add: image_mset.compositionality comp_def)
  also have "\<dots> = mset (product_lists (L 0 # map (\<lambda>p. L (Suc p)) [0..<N]))"
    unfolding IH mset_product_lists_Cons L0 by (simp add: image_mset.compositionality comp_def)
  also have "L 0 # map (\<lambda>p. L (Suc p)) [0..<N] = map L [0..<Suc N]"
    by (simp add: upt_conv_Cons map_Suc_upt [symmetric] del: upt_Suc)
  finally show ?case .
qed (simp add: digits_of_def)

subsection \<open>The meaning of an expansion\<close>

definition cross_join ::
  "('e \<Rightarrow> 'k) \<Rightarrow> ('e \<Rightarrow> nat) \<Rightarrow> ('k \<Rightarrow> 'e list \<Rightarrow> 'r) \<Rightarrow> nat \<Rightarrow> 'e list \<Rightarrow> 'r multiset" where
  "cross_join key party row N xs =
     (\<Sum>k\<in>#mset_set (key ` set xs). image_mset (row k)
        (mset (product_lists (map (\<lambda>p. filter (\<lambda>e. key e = k \<and> party e = p) xs) [0..<N]))))"

lemma cross_join_perm:
  assumes "mset xs = mset ys"
  shows "cross_join key party row N xs = cross_join key party row N ys"
proof -
  have "mset (product_lists (map (\<lambda>p. filter (\<lambda>e. key e = k \<and> party e = p) xs) [0..<N])) =
      mset (product_lists (map (\<lambda>p. filter (\<lambda>e. key e = k \<and> party e = p) ys) [0..<N]))" for k
    using assms by (intro mset_product_lists_perm) (simp add: list_all2_conv_all_nth)
  moreover have "set xs = set ys" using assms by (rule mset_eq_setD)
  ultimately show ?thesis by (simp add: cross_join_def)
qed

subsection \<open>Selecting and projecting choices\<close>

lemma filter_product_lists:
  "filter (\<lambda>es. \<forall>e\<in>set es. P e) (product_lists xss) = product_lists (map (filter P) xss)"
proof (induction xss)
  case (Cons xs xss)
  have "filter (\<lambda>es. \<forall>e\<in>set es. P e) (map (Cons x) (product_lists xss)) =
      (if P x then map (Cons x) (product_lists (map (filter P) xss)) else [])" for x
    by (simp add: filter_map comp_def flip: Cons.IH)
  then show ?case by (induction xs) simp_all
qed simp

lemma product_lists_map: "product_lists (map (map f) xss) = map (map f) (product_lists xss)"
  by (induction xss) (simp_all add: map_concat comp_def)

lemma filter_sum_mset: "filter_mset P (\<Sum>x\<in>#A. B x) = (\<Sum>x\<in>#A. filter_mset P (B x))"
  by (induction A) simp_all

lemma concat_map_single:
  "distinct us \<Longrightarrow> u \<in> set us \<Longrightarrow> (\<And>v. v \<in> set us \<Longrightarrow> v \<noteq> u \<Longrightarrow> f v = []) \<Longrightarrow> concat (map f us) = f u"
proof (induction us)
  case (Cons v us)
  show ?case
  proof (cases "v = u")
    case True
    with Cons.prems have "concat (map f us) = []" by auto
    with True show ?thesis by simp
  next
    case False
    with Cons show ?thesis by simp
  qed
qed simp

subsection \<open>Classes of a list by position\<close>

lemma filter_interval:
  assumes "{a..<b} = {i. i < n \<and> Q i}"
  shows "filter P [a..<b] = filter (\<lambda>i. Q i \<and> P i) [0..<n]"
proof (rule sorted_distinct_set_unique)
  show "set (filter P [a..<b]) = set (filter (\<lambda>i. Q i \<and> P i) [0..<n])"
    using assms by (auto simp: set_eq_iff)
qed (simp_all add: sorted_wrt_filter)

text \<open>The elements of an index interval that is exactly the class of a predicate.\<close>

lemma interval_elems:
  assumes "{a..<b} = {i. i < length xs \<and> Q (xs ! i)}"
  shows "map ((!) xs) [a..<b] = filter Q xs"
proof -
  have "filter (\<lambda>i. True) [a..<b] = filter (\<lambda>i. Q (xs ! i) \<and> True) [0..<length xs]"
    using assms by (rule filter_interval)
  then have "map ((!) xs) [a..<b] = map ((!) xs) (filter (Q \<circ> (!) xs) [0..<length xs])"
    by (simp add: comp_def)
  also have "\<dots> = filter Q xs" by (simp only: filter_map [symmetric] map_nth)
  finally show ?thesis .
qed

text \<open>A sorted list in which every key of a strictly sorted list occurs \<open>M\<close> times.\<close>

lemma sorted_uniform_blocks:
  assumes "sorted ks" "sorted_wrt (<) cs" "set ks = set cs" "\<forall>c\<in>set cs. count (mset ks) c = M"
  shows "ks = concat (map (replicate M) cs)"
proof -
  have "sorted (concat (map (replicate M) cs))" using assms(2)
    by (induction cs) (auto simp: sorted_append sorted_replicate)
  moreover have "mset (concat (map (replicate M) cs)) = mset ks"
  proof (rule multiset_eqI)
    fix c
    have "count (mset (concat (map (replicate M) cs))) c = (if c \<in> set cs then M else 0)"
      using assms(2) by (induction cs) auto
    also have "\<dots> = count (mset ks) c" using assms(3,4) by (auto simp: count_eq_zero_iff)
    finally show "count (mset (concat (map (replicate M) cs))) c = count (mset ks) c" .
  qed
  ultimately show ?thesis using assms(1) by (metis properties_for_sort)
qed

lemma nth_blocks: "i < length cs * M \<Longrightarrow> concat (map (replicate M) cs) ! i = cs ! (i div M)"
proof (induction cs arbitrary: i)
  case (Cons c cs)
  show ?case
  proof (cases "i < M")
    case False
    have "0 < M" using Cons.prems by (cases M) simp_all
    with False have "i div M = Suc ((i - M) div M)" by (simp add: le_div_geq)
    moreover have "i - M < length cs * M" using Cons.prems False by simp
    ultimately show ?thesis using Cons.IH [of "i - M"] False by (simp add: nth_append)
  qed (simp add: nth_append)
qed simp

lemma block_positions:
  assumes "ks = concat (map (replicate M) cs)" "distinct cs" "j < length cs" "0 < M"
  shows "{j * M..<j * M + M} = {i. i < length ks \<and> ks ! i = cs ! j}"
proof -
  have len: "length ks = length cs * M" unfolding assms(1) by (simp add: length_concat comp_def sum_list_triv)
  have le: "j * M + M \<le> length cs * M" using mult_le_mono1 [of "Suc j" "length cs" M] assms(3) by simp
  have "i \<in> {j * M..<j * M + M} \<longleftrightarrow> i < length ks \<and> ks ! i = cs ! j" for i
  proof (cases "i < length ks")
    case True
    have d: "i div M < length cs" using True len assms(4) by (simp add: less_mult_imp_div_less)
    have "ks ! i = cs ! j \<longleftrightarrow> i div M = j"
      using nth_blocks [of i cs M] True len assms(1-3) d by (simp add: nth_eq_iff_index_eq)
    also have "\<dots> \<longleftrightarrow> i \<in> {j * M..<j * M + M}"
      using assms(4) by (auto simp: div_nat_eqI mult.commute add.commute dividend_less_times_div)
    finally show ?thesis using True by simp
  qed (use le len in auto)
  then show ?thesis by blast
qed

end
