(* ===== verification/Join_Expander.thy ===== *)
theory Join_Expander
  imports Oblivious_Sort Cross_Product
begin

text \<open>
  Window detection and cross-product expansion of the plaintext join
  (\<open>volePSI/MpJoinExpander.h\<close>, \<open>volePSI/MpJoinExpander.cpp\<close>).

  A metadata block is a 128-bit word whose byte 0 is the least significant (the code copies
  the fields with \<open>memcpy\<close> on a little-endian host). The 32-bit counts \<open>N\<close>, \<open>M\<close>, \<open>payloadW\<close>
  are naturals; the two expressions the code computes from them in 32 bits, the length \<open>1 + payloadW\<close>
  and the slot \<open>p * payloadW + w_blk\<close> of a row, wrap as in the code. The guard \<open>N * log2(M) > 40\<close>, computed by the code in
  \<open>long double\<close>, is \<open>M ^ N > 2 ^ 40\<close>: on integers the two sides differ by far more than the
  rounding of the logarithm.
\<close>

subsection \<open>Tuple metadata\<close>

definition packTupleMeta :: "32 word \<Rightarrow> 32 word \<Rightarrow> bool \<Rightarrow> 128 word" where
  "packTupleMeta party_idx row_idx is_real =
     ucast party_idx OR push_bit 32 (ucast row_idx) OR push_bit 64 (if is_real then 1 else 0)"

definition unpackTupleMeta :: "128 word \<Rightarrow> 32 word \<times> 32 word \<times> bool" where
  "unpackTupleMeta meta =
     (ucast meta, ucast (drop_bit 32 meta), (ucast (drop_bit 64 meta) :: 8 word) \<noteq> 0)"

subsection \<open>Windows\<close>

definition detectWindowEnds :: "SortElement list \<Rightarrow> bool list" where
  "detectWindowEnds xs =
     (let n = length xs in
      map (\<lambda>i. if i + 1 < n then se_key (xs ! (i + 1)) \<noteq> se_key (xs ! i) else True) [0..<n])"

definition windowStartIndices :: "SortElement list \<Rightarrow> nat list" where
  "windowStartIndices xs =
     (if xs = [] then []
      else 0 # filter (\<lambda>i. se_key (xs ! i) \<noteq> se_key (xs ! (i - 1))) [1..<length xs])"

subsection \<open>Cross-product expansion\<close>

record JoinExpandedRow =
  jr_id :: "64 word"
  jr_joinedPayload :: "128 word list"
  jr_isIntersection :: bool

definition groupByParty :: "SortElement list \<Rightarrow> nat \<Rightarrow> nat \<Rightarrow> nat \<Rightarrow> nat list list result" where
  "groupByParty xs N start end =
     foldE (\<lambda>i byParty.
       bindE (vec_at (se_payload (xs ! i)) 0) (\<lambda>meta.
       let (p_idx, r_idx, is_real) = unpackTupleMeta meta; p = unat p_idx in
       throw_if (p \<ge> N) (RuntimeError ''crossProductExpand: party_idx '')
         (Inr (byParty[p := byParty ! p @ [i]])))) [start..<end] (replicate N [])"

text \<open>The 32-bit arithmetic of the copy loop: the length a tuple must have, and the slot of a block.\<close>

definition tuple_len :: "nat \<Rightarrow> nat" where
  "tuple_len payloadW = unat (1 + word_of_nat payloadW :: 32 word)"

definition slot_index :: "nat \<Rightarrow> nat \<Rightarrow> nat \<Rightarrow> nat" where
  "slot_index payloadW p w_blk = unat (word_of_nat p * word_of_nat payloadW + word_of_nat w_blk :: 32 word)"

definition copy_block :: "nat \<Rightarrow> nat \<Rightarrow> 128 word list \<Rightarrow> nat \<Rightarrow> 128 word list \<Rightarrow> 128 word list result" where
  "copy_block payloadW p payload w_blk joined =
     bindE (vec_at payload (1 + w_blk)) (\<lambda>b. vec_set joined (slot_index payloadW p w_blk) b)"

text \<open>One output row: the tuples the digits pick, one per party.\<close>

definition expandRow ::
  "SortElement list \<Rightarrow> nat \<Rightarrow> nat \<Rightarrow> 64 word \<Rightarrow> nat list list \<Rightarrow> nat list \<Rightarrow> JoinExpandedRow result" where
  "expandRow xs N payloadW row_id byParty digits =
     bindE (foldE (\<lambda>p (joined, all_real).
        let src = byParty ! p ! (digits ! p); payload = se_payload (xs ! src) in
        throw_if (length payload < tuple_len payloadW)
          (RuntimeError ''crossProductExpand: tuple payload too short ('')
          (bindE (vec_at payload 0) (\<lambda>meta.
           let (p2, r2, real) = unpackTupleMeta meta in
           bindE (foldE (copy_block payloadW p payload) [0..<payloadW] joined) (\<lambda>joined'.
           Inr (joined', all_real \<and> real)))))
       [0..<N] (replicate (N * payloadW) 0, True))
     (\<lambda>(joined, all_real).
       Inr \<lparr>jr_id = row_id, jr_joinedPayload = joined, jr_isIntersection = all_real\<rparr>)"

definition expandWindow ::
  "SortElement list \<Rightarrow> nat \<Rightarrow> nat \<Rightarrow> nat \<Rightarrow> nat \<Rightarrow> nat \<Rightarrow> JoinExpandedRow list result" where
  "expandWindow xs N M payloadW start end =
     throw_if (end - start \<noteq> N * M) (RuntimeError ''crossProductExpand: window at id-key '')
     (bindE (groupByParty xs N start end) (\<lambda>byParty.
      throw_if (\<exists>p\<in>set [0..<N]. length (byParty ! p) \<noteq> M) (RuntimeError ''crossProductExpand: party '')
      (bindE (foldE (\<lambda>combo (out, digits).
          bindE (expandRow xs N payloadW (se_key (xs ! start)) byParty digits) (\<lambda>row.
          Inr (out @ [row], incDigits M digits))) [0..<M ^ N] ([], replicate N 0))
       (\<lambda>(out, digits). Inr out))))"

definition crossProductExpand ::
  "SortElement list \<Rightarrow> nat \<Rightarrow> nat \<Rightarrow> nat \<Rightarrow> JoinExpandedRow list result" where
  "crossProductExpand xs N M payloadW =
     throw_if (N = 0 \<or> M = 0) (RuntimeError ''crossProductExpand: N and M must be >= 1'')
     (throw_if (M ^ N > 2 ^ 40) (RuntimeError ''crossProductExpand: M^N exceeds 2^40 -- refuse'')
     (let starts = windowStartIndices xs in
      foldE (\<lambda>w out.
        let start = starts ! w;
            end = (if w + 1 < length starts then starts ! (w + 1) else length xs)
        in bindE (expandWindow xs N M payloadW start end) (\<lambda>rows. Inr (out @ rows)))
      [0..<length starts] []))"

subsection \<open>Metadata round trip\<close>

lemma unpack_pack: "unpackTupleMeta (packTupleMeta p r b) = (p, r, b)"
proof -
  have "(ucast (packTupleMeta p r b) :: 32 word) = p"
    by (rule bit_word_eqI) (auto simp: packTupleMeta_def bit_simps dest: bit_imp_le_length)
  moreover have "(ucast (drop_bit 32 (packTupleMeta p r b)) :: 32 word) = r"
    by (rule bit_word_eqI) (auto simp: packTupleMeta_def bit_simps dest: bit_imp_le_length)
  moreover have "(ucast (drop_bit 64 (packTupleMeta p r b)) :: 8 word) = of_bool b"
    by (rule bit_word_eqI) (auto simp: packTupleMeta_def bit_simps dest: bit_imp_le_length)
  ultimately show ?thesis by (simp add: unpackTupleMeta_def)
qed

subsection \<open>The expansion of one window\<close>

definition elem_party :: "SortElement \<Rightarrow> nat" where
  "elem_party e = unat (fst (unpackTupleMeta (se_payload e ! 0)))"

definition elem_real :: "SortElement \<Rightarrow> bool" where
  "elem_real e = snd (snd (unpackTupleMeta (se_payload e ! 0)))"

abbreviation tuple_party :: "SortElement list \<Rightarrow> nat \<Rightarrow> nat" where
  "tuple_party xs i \<equiv> elem_party (xs ! i)"

definition party_tuples :: "SortElement list \<Rightarrow> nat \<Rightarrow> nat \<Rightarrow> nat \<Rightarrow> nat list" where
  "party_tuples xs start end p = filter (\<lambda>i. tuple_party xs i = p) [start..<end]"

text \<open>The row that joins the tuples \<open>es\<close>, one per party in party order.\<close>

definition join_row :: "nat \<Rightarrow> 64 word \<Rightarrow> SortElement list \<Rightarrow> JoinExpandedRow" where
  "join_row payloadW row_id es =
     \<lparr>jr_id = row_id,
      jr_joinedPayload = concat (map (\<lambda>e. take payloadW (drop 1 (se_payload e))) es),
      jr_isIntersection = (\<forall>e\<in>set es. elem_real e)\<rparr>"

abbreviation joined_row :: "SortElement list \<Rightarrow> nat \<Rightarrow> 64 word \<Rightarrow> nat list \<Rightarrow> JoinExpandedRow" where
  "joined_row xs payloadW row_id srcs \<equiv> join_row payloadW row_id (map ((!) xs) srcs)"

lemma payload_slice:
  "1 + W \<le> length ys \<Longrightarrow> map (\<lambda>b. ys ! (1 + b)) [0..<W] = take W (drop 1 ys)"
  by (rule nth_equalityI) simp_all

text \<open>Without wrap-around the slots of a row are consecutive.\<close>

definition slots_fit :: "nat \<Rightarrow> nat \<Rightarrow> bool" where
  "slots_fit N W \<longleftrightarrow> N * W \<le> 2 ^ 32 \<and> W + 1 < 2 ^ 32"

lemma tuple_len_fit: "slots_fit N W \<Longrightarrow> tuple_len W = 1 + W"
proof -
  assume "slots_fit N W"
  then have "W + 1 < 2 ^ 32" by (simp add: slots_fit_def)
  moreover have "1 + word_of_nat W = (word_of_nat (1 + W) :: 32 word)" by simp
  ultimately show ?thesis by (simp add: tuple_len_def unat_of_nat take_bit_eq_mod del: of_nat_add of_nat_Suc)
qed

lemma slot_index_fit:
  assumes "slots_fit N W" "p < N" "w < W"
  shows "slot_index W p w = p * W + w"
proof -
  have "p * W + w < Suc p * W" using assms(3) by simp
  also have "\<dots> \<le> N * W" using assms(2) by (intro mult_le_mono1) simp
  finally have "p * W + w < 2 ^ 32" using assms(1) by (simp add: slots_fit_def)
  moreover have "word_of_nat p * word_of_nat W + word_of_nat w = (word_of_nat (p * W + w) :: 32 word)" by simp
  ultimately show ?thesis by (simp add: slot_index_def unat_of_nat take_bit_eq_mod del: of_nat_add of_nat_mult)
qed

lemma copy_blocks_returns:
  assumes fit: "slots_fit N W" "p < N" and len: "1 + W \<le> length payload" "length done_part = p * W"
  shows "foldE (copy_block W p payload) [0..<W] (done_part @ replicate ((N - p) * W) 0) =
    Inr ((done_part @ take W (drop 1 payload)) @ replicate ((N - Suc p) * W) 0)"
proof -
  have split: "(N - p) * W = W + (N - Suc p) * W" using fit(2) by (metis Suc_diff_Suc mult_Suc)
  have "returns (foldE (copy_block W p payload) [0..<W] (done_part @ replicate ((N - p) * W) 0))
    (\<lambda>out. out = done_part @ take W (drop 1 payload) @ replicate ((N - p) * W - W) 0)"
  proof (rule returns_foldE_upt [where I = "\<lambda>w out. out = done_part @ take w (drop 1 payload) @ replicate ((N - p) * W - w) 0"], goal_cases)
    case (2 w out)
    have more: "(N - p) * W - w = Suc ((N - p) * W - Suc w)" using 2(1) split by linarith
    have l: "length (take w (drop 1 payload)) = w" using len(1) 2(1) by simp
    have "out[p * W + w := payload ! (1 + w)] =
        done_part @ take (Suc w) (drop 1 payload) @ replicate ((N - p) * W - Suc w) 0"
      using 2 len l more by (simp add: list_update_append take_Suc_conv_app_nth)
    moreover have "p * W + w < length out" using 2 len l more by simp
    ultimately show ?case
      using 2(1) len(1) by (simp add: copy_block_def slot_index_fit [OF fit 2(1)])
  qed simp
  moreover have "(N - p) * W - W = (N - Suc p) * W" using split by simp
  ultimately show ?thesis by (simp add: returns_def)
qed

lemma expandRow_returns:
  assumes fit: "slots_fit N W" and "\<And>p. p < N \<Longrightarrow> 1 + W \<le> length (se_payload (xs ! (byParty ! p ! (ds ! p))))"
  shows "expandRow xs N W rid byParty ds =
    Inr (joined_row xs W rid (map (\<lambda>p. byParty ! p ! (ds ! p)) [0..<N]))"
proof -
  let ?src = "\<lambda>p. byParty ! p ! (ds ! p)"
  let ?blocks = "\<lambda>p. concat (map (\<lambda>i. take W (drop 1 (se_payload (xs ! i)))) (map ?src [0..<p]))"
  let ?f = "\<lambda>p (joined, all_real).
        let src = ?src p; payload = se_payload (xs ! src) in
        throw_if (length payload < tuple_len W)
          (RuntimeError ''crossProductExpand: tuple payload too short ('')
          (bindE (vec_at payload 0) (\<lambda>meta.
           let (p2, r2, real) = unpackTupleMeta meta in
           bindE (foldE (copy_block W p payload) [0..<W] joined) (\<lambda>joined'.
           Inr (joined', all_real \<and> real))))"
  have len: "length (?blocks p) = p * W" if "p \<le> N" for p
    using that
  proof (induction p)
    case (Suc p)
    then show ?case using assms(2) [of p] by simp
  qed simp
  have "returns (foldE ?f [0..<N] (replicate (N * W) 0, True)) (\<lambda>(joined, all_real).
      joined = ?blocks N @ replicate ((N - N) * W) 0 \<and> all_real = (\<forall>i\<in>set (map ?src [0..<N]). elem_real (xs ! i)))"
  proof (rule returns_foldE_upt [where I = "\<lambda>p (joined, all_real). joined = ?blocks p @ replicate ((N - p) * W) 0 \<and>
      all_real = (\<forall>i\<in>set (map ?src [0..<p]). elem_real (xs ! i))"], goal_cases)
    case (2 p st)
    obtain real where m: "\<exists>a b. unpackTupleMeta (se_payload (xs ! ?src p) ! 0) = (a, b, real)" by (metis prod_cases3)
    then have real: "elem_real (xs ! ?src p) = real" by (auto simp: elem_real_def)
    have "0 < length (se_payload (xs ! ?src p))" "\<not> length (se_payload (xs ! ?src p)) < 1 + W"
      using assms(2) [OF 2(1)] by linarith+
    moreover define D E where "D = ?blocks p @ replicate ((N - p) * W) 0" and "E = ?blocks (Suc p) @ replicate ((N - Suc p) * W) 0"
    have "foldE (copy_block W p (se_payload (xs ! ?src p))) [0..<W] D = Inr E"
      using copy_blocks_returns [OF fit 2(1) assms(2) [OF 2(1)] len] 2(1) by (simp add: D_def E_def)
    moreover have "st = (D, \<forall>i\<in>set (map ?src [0..<p]). elem_real (xs ! i))" using 2(2) by (cases st) (simp add: D_def)
    ultimately have "?f p st = Inr (E, (\<forall>i\<in>set (map ?src [0..<p]). elem_real (xs ! i)) \<and> real)"
      using m by (auto simp: tuple_len_fit [OF fit])
    then show ?case by (auto simp: E_def real less_Suc_eq)
  qed simp
  then show ?thesis by (auto simp: returns_def expandRow_def join_row_def comp_def)
qed

lemma groupByParty_returns:
  assumes "start \<le> end" and ok: "\<And>i. start \<le> i \<Longrightarrow> i < end \<Longrightarrow> se_payload (xs ! i) \<noteq> [] \<and> tuple_party xs i < N"
  shows "groupByParty xs N start end = Inr (map (party_tuples xs start end) [0..<N])"
proof -
  let ?f = "\<lambda>i byParty.
       bindE (vec_at (se_payload (xs ! i)) 0) (\<lambda>meta.
       let (p_idx, r_idx, is_real) = unpackTupleMeta meta; p = unat p_idx in
       throw_if (p \<ge> N) (RuntimeError ''crossProductExpand: party_idx '')
         (Inr (byParty[p := byParty ! p @ [i]])))"
  have "returns (foldE ?f [start..<end] (replicate N []))
      (\<lambda>byParty. byParty = map (party_tuples xs start end) [0..<N])"
  proof (rule returns_foldE_upt_from [OF assms(1), where I = "\<lambda>e byParty. byParty = map (party_tuples xs start e) [0..<N]"])
    show "replicate N [] = map (party_tuples xs start start) [0..<N]"
      by (rule nth_equalityI) (simp_all add: party_tuples_def)
  next
    fix i and bp :: "nat list list"
    assume i: "start \<le> i" "i < end" and bp: "bp = map (party_tuples xs start i) [0..<N]"
    have p: "tuple_party xs i < N" and ne: "se_payload (xs ! i) \<noteq> []" using ok [OF i] by simp_all
    obtain a r b where u: "unpackTupleMeta (se_payload (xs ! i) ! 0) = (a, r, b)" by (metis prod_cases3)
    then have a: "unat a = tuple_party xs i" by (simp add: elem_party_def)
    have "bp[tuple_party xs i := bp ! tuple_party xs i @ [i]] = map (party_tuples xs start (Suc i)) [0..<N]"
      using i p by (intro nth_equalityI) (auto simp: bp nth_list_update party_tuples_def)
    then show "returns (?f i bp) (\<lambda>bp'. bp' = map (party_tuples xs start (Suc i)) [0..<N])"
      using p ne by (simp add: u a Let_def)
  qed
  then show ?thesis by (simp add: returns_def groupByParty_def)
qed

text \<open>The pad-input contract of one window, as the expander checks it.\<close>

definition window_ok :: "SortElement list \<Rightarrow> nat \<Rightarrow> nat \<Rightarrow> nat \<Rightarrow> nat \<Rightarrow> nat \<Rightarrow> bool" where
  "window_ok xs N M W start end \<longleftrightarrow> start \<le> end \<and> end - start = N * M \<and>
     (\<forall>i\<in>{start..<end}. 1 + W \<le> length (se_payload (xs ! i)) \<and> tuple_party xs i < N) \<and>
     (\<forall>p<N. length (party_tuples xs start end p) = M)"

definition window_rows :: "SortElement list \<Rightarrow> nat \<Rightarrow> nat \<Rightarrow> nat \<Rightarrow> nat \<Rightarrow> nat \<Rightarrow> JoinExpandedRow list" where
  "window_rows xs N M W start end =
     map (\<lambda>c. joined_row xs W (se_key (xs ! start))
            (map (\<lambda>p. party_tuples xs start end p ! (digits_of M N c ! p)) [0..<N])) [0..<M ^ N]"

lemma expandWindow_returns:
  assumes "0 < M" and ok: "window_ok xs N M W start end" and fit: "slots_fit N W"
  shows "expandWindow xs N M W start end = Inr (window_rows xs N M W start end)"
proof -
  let ?bp = "map (party_tuples xs start end) [0..<N]" and ?id = "se_key (xs ! start)"
  have len: "\<forall>p<N. length (party_tuples xs start end p) = M"
    and tup: "\<And>i. i \<in> {start..<end} \<Longrightarrow> 1 + W \<le> length (se_payload (xs ! i)) \<and> tuple_party xs i < N"
    using ok by (auto simp: window_ok_def)
  have group: "groupByParty xs N start end = Inr ?bp"
  proof (rule groupByParty_returns)
    fix i assume "start \<le> i" "i < end"
    then show "se_payload (xs ! i) \<noteq> [] \<and> tuple_party xs i < N" using tup [of i] by fastforce
  qed (use ok in \<open>simp add: window_ok_def\<close>)
  let ?srcs = "\<lambda>c. map (\<lambda>p. party_tuples xs start end p ! (digits_of M N c ! p)) [0..<N]"
  have row: "expandRow xs N W ?id ?bp (digits_of M N c) = Inr (joined_row xs W ?id (?srcs c))" for c
  proof -
    have "1 + W \<le> length (se_payload (xs ! (?bp ! p ! (digits_of M N c ! p))))" if p: "p < N" for p
    proof -
      have "digits_of M N c ! p < length (party_tuples xs start end p)"
        using digits_of_less [OF assms(1) p] len p by simp
      from nth_mem [OF this] have "party_tuples xs start end p ! (digits_of M N c ! p) \<in> {start..<end}"
        by (auto simp: party_tuples_def)
      with tup p show ?thesis by simp
    qed
    note expandRow_returns [OF fit, of xs ?bp, OF this]
    moreover have "map (\<lambda>p. ?bp ! p ! (digits_of M N c ! p)) [0..<N] = ?srcs c" by simp
    ultimately show ?thesis by simp
  qed
  let ?f = "\<lambda>combo (out, digits). bindE (expandRow xs N W ?id ?bp digits) (\<lambda>row.
          Inr (out @ [row], incDigits M digits))"
  have "returns (foldE ?f [0..<M ^ N] ([], replicate N 0))
      (\<lambda>(out, digits). out = map (\<lambda>c. joined_row xs W ?id (?srcs c)) [0..<M ^ N] \<and> digits = digits_of M N (M ^ N))"
  proof (rule returns_foldE_upt, goal_cases)
    case (2 c st)
    then show ?case using assms(1) by (auto simp: row incDigits_digits_of simp del: map_upt_eqI)
  qed (simp add: digits_of_0)
  then have "bindE (foldE ?f [0..<M ^ N] ([], replicate N 0)) (\<lambda>(out, digits). Inr out)
      = Inr (window_rows xs N M W start end)"
    by (auto simp: returns_def window_rows_def)
  moreover have "\<not> (\<exists>p\<in>set [0..<N]. length (?bp ! p) \<noteq> M)" using len by simp
  moreover have "\<not> end - start \<noteq> N * M" using ok by (simp add: window_ok_def)
  ultimately show ?thesis unfolding expandWindow_def group by (simp only: throw_if_simps bindE_simps)
qed

subsection \<open>Windows of a sorted bag\<close>

abbreviation win_start :: "SortElement list \<Rightarrow> nat \<Rightarrow> nat" where
  "win_start xs w \<equiv> windowStartIndices xs ! w"

definition win_end :: "SortElement list \<Rightarrow> nat \<Rightarrow> nat" where
  "win_end xs w = (if w + 1 < length (windowStartIndices xs) then win_start xs (w + 1) else length xs)"

abbreviation key_at :: "SortElement list \<Rightarrow> nat \<Rightarrow> 64 word" where
  "key_at xs i \<equiv> se_key (xs ! i)"

lemma starts_set:
  "xs \<noteq> [] \<Longrightarrow> set (windowStartIndices xs) =
     {i. i < length xs \<and> (i = 0 \<or> key_at xs i \<noteq> key_at xs (i - 1))}"
  by (auto simp: windowStartIndices_def)

lemma starts_strict: "sorted_wrt (<) (windowStartIndices xs)"
  by (auto simp: windowStartIndices_def sorted_wrt_filter)

lemma starts_mono: "v < w \<Longrightarrow> w < length (windowStartIndices xs) \<Longrightarrow> win_start xs v < win_start xs w"
  using starts_strict by (rule sorted_wrt_nth_less)

lemma starts_0: "xs \<noteq> [] \<Longrightarrow> 0 < length (windowStartIndices xs) \<and> win_start xs 0 = 0"
  by (simp add: windowStartIndices_def)

lemma starts_less: "w < length (windowStartIndices xs) \<Longrightarrow> win_start xs w < length xs"
  using starts_set [of xs] nth_mem [of w "windowStartIndices xs"]
  by (cases "xs = []") (auto simp: windowStartIndices_def)

lemma window_nonempty: "w < length (windowStartIndices xs) \<Longrightarrow> win_start xs w < win_end xs w"
  by (simp add: win_end_def starts_mono starts_less)

lemma win_end_le: "w < length (windowStartIndices xs) \<Longrightarrow> win_end xs w \<le> length xs"
  by (auto simp: win_end_def intro: less_imp_le starts_less)

lemma window_cover:
  "i < length xs \<Longrightarrow> \<exists>w<length (windowStartIndices xs). win_start xs w \<le> i \<and> i < win_end xs w"
proof (induction i)
  case 0
  then have "xs \<noteq> []" by auto
  from starts_0 [OF this] window_nonempty [of 0 xs] show ?case by auto
next
  case (Suc i)
  then obtain w where w: "w < length (windowStartIndices xs)" "win_start xs w \<le> i" "i < win_end xs w" by auto
  show ?case
  proof (cases "Suc i < win_end xs w")
    case True
    with w show ?thesis by (intro exI [of _ w]) simp
  next
    case False
    with w Suc.prems have "Suc i = win_end xs w" "w + 1 < length (windowStartIndices xs)"
      by (auto simp: win_end_def split: if_splits)
    then show ?thesis
      using window_nonempty [of "w + 1" xs] by (intro exI [of _ "w + 1"]) (simp add: win_end_def)
  qed
qed

lemma window_same_key:
  assumes w: "w < length (windowStartIndices xs)" and i: "win_start xs w \<le> i" "i < win_end xs w"
  shows "key_at xs i = key_at xs (win_start xs w)"
  using i
proof (induction i rule: dec_induct)
  case (step i)
  have "Suc i \<notin> set (windowStartIndices xs)"
  proof
    assume "Suc i \<in> set (windowStartIndices xs)"
    then obtain v where v: "v < length (windowStartIndices xs)" "win_start xs v = Suc i"
      by (auto simp: in_set_conv_nth)
    then have "win_start xs w < win_start xs v" using step.hyps(1) by simp
    then have "w < v" using starts_mono [of v w xs] w by (metis less_asym linorder_neqE_nat)
    then have "win_end xs w \<le> win_start xs v"
      using starts_mono [of "w + 1" v xs] v by (cases "v = w + 1") (auto simp: win_end_def)
    with v step.prems show False by simp
  qed
  moreover have "Suc i < length xs" using win_end_le [OF w] step.prems by simp
  ultimately have "key_at xs (Suc i) = key_at xs i" using starts_set [of xs] by fastforce
  with step show ?case by simp
qed simp

lemma window_keys_increase:
  assumes "sorted (map se_key xs)" "v < w" "w < length (windowStartIndices xs)"
  shows "key_at xs (win_start xs v) < key_at xs (win_start xs w)"
proof -
  let ?b = "win_start xs w"
  have b: "win_start xs v < ?b" "?b < length xs" using starts_mono starts_less assms by simp_all
  have "xs \<noteq> []" using b by auto
  then have "key_at xs ?b \<noteq> key_at xs (?b - 1)"
    using starts_set [of xs] nth_mem [OF assms(3)] b by auto
  moreover have "key_at xs (?b - 1) \<le> key_at xs ?b"
    using sorted_nth_mono [OF assms(1), of "?b - 1" ?b] b by simp
  moreover have "key_at xs (win_start xs v) \<le> key_at xs (?b - 1)"
    using sorted_nth_mono [OF assms(1), of "win_start xs v" "?b - 1"] b by simp
  ultimately show ?thesis by simp
qed

lemma window_is_class:
  assumes "sorted (map se_key xs)" "w < length (windowStartIndices xs)"
  shows "{win_start xs w..<win_end xs w} = {i. i < length xs \<and> key_at xs i = key_at xs (win_start xs w)}"
proof (intro equalityI subsetI)
  fix i assume "i \<in> {win_start xs w..<win_end xs w}"
  then have i: "win_start xs w \<le> i" "i < win_end xs w" by simp_all
  then have "i < length xs" using win_end_le [OF assms(2)] by (simp only: order.strict_trans2)
  with window_same_key [OF assms(2) i]
  show "i \<in> {i. i < length xs \<and> key_at xs i = key_at xs (win_start xs w)}" by blast
next
  fix i assume "i \<in> {i. i < length xs \<and> key_at xs i = key_at xs (win_start xs w)}"
  then have i: "i < length xs" "key_at xs i = key_at xs (win_start xs w)" by auto
  from window_cover [OF i(1)] obtain v where
    v: "v < length (windowStartIndices xs)" "win_start xs v \<le> i" "i < win_end xs v" by auto
  have "key_at xs (win_start xs v) = key_at xs (win_start xs w)"
    using window_same_key [OF v] i(2) by simp
  then have "v = w"
    using window_keys_increase [OF assms(1), of v w] window_keys_increase [OF assms(1), of w v] v(1) assms(2)
    by (metis less_irrefl linorder_neqE_nat)
  with v show "i \<in> {win_start xs w..<win_end xs w}" by simp
qed

lemma window_keys:
  assumes "sorted (map se_key xs)"
  shows "map (key_at xs) (windowStartIndices xs) = remdups (map se_key xs)"
proof (rule sorted_distinct_set_unique)
  have strict: "sorted_wrt (<) (map (key_at xs) (windowStartIndices xs))"
    using window_keys_increase [OF assms] by (simp add: sorted_wrt_iff_nth_less)
  then show "sorted (map (key_at xs) (windowStartIndices xs))" "distinct (map (key_at xs) (windowStartIndices xs))"
    by (simp_all add: strict_sorted_iff)
  show "sorted (remdups (map se_key xs))" "distinct (remdups (map se_key xs))"
    using assms by simp_all
  show "set (map (key_at xs) (windowStartIndices xs)) = set (remdups (map se_key xs))"
  proof (intro equalityI subsetI)
    fix k assume "k \<in> set (map (key_at xs) (windowStartIndices xs))"
    then obtain w where "w < length (windowStartIndices xs)" "k = key_at xs (win_start xs w)"
      by (auto simp: in_set_conv_nth)
    then show "k \<in> set (remdups (map se_key xs))" using starts_less [of w xs] by simp
  next
    fix k assume "k \<in> set (remdups (map se_key xs))"
    then obtain i where i: "i < length xs" "k = key_at xs i" by (auto simp: in_set_conv_nth)
    from window_cover [OF i(1)] obtain w where
      w: "w < length (windowStartIndices xs)" "win_start xs w \<le> i" "i < win_end xs w" by auto
    then show "k \<in> set (map (key_at xs) (windowStartIndices xs))"
      using window_same_key [OF w] i by auto
  qed
qed

subsection \<open>The expansion of a sorted bag\<close>

lemma crossProductExpand_returns:
  assumes "0 < N" "0 < M" "M ^ N \<le> 2 ^ 40" and fit: "slots_fit N W"
    and ok: "\<And>w. w < length (windowStartIndices xs) \<Longrightarrow> window_ok xs N M W (win_start xs w) (win_end xs w)"
  shows "crossProductExpand xs N M W = Inr (concat (map (\<lambda>w.
    window_rows xs N M W (win_start xs w) (win_end xs w)) [0..<length (windowStartIndices xs)]))"
proof -
  let ?n = "length (windowStartIndices xs)"
  let ?f = "\<lambda>w out. let start = windowStartIndices xs ! w;
            end = (if w + 1 < ?n then windowStartIndices xs ! (w + 1) else length xs)
        in bindE (expandWindow xs N M W start end) (\<lambda>rows. Inr (out @ rows))"
  have "returns (foldE ?f [0..<?n] [])
    (\<lambda>out. out = concat (map (\<lambda>w. window_rows xs N M W (win_start xs w) (win_end xs w)) [0..<?n]))"
  proof (rule returns_foldE_upt, goal_cases)
    case (2 w out)
    then show ?case
      using expandWindow_returns [OF assms(2) ok [OF 2(1)] fit] by (simp add: Let_def win_end_def)
  qed simp
  then show ?thesis
    using assms(1-3) by (simp add: crossProductExpand_def Let_def returns_def)
qed

text \<open>The pad-input contract on a bag: every party has exactly \<open>M\<close> tuples for every key.\<close>

definition class_tuples :: "SortElement list \<Rightarrow> 64 word \<Rightarrow> nat \<Rightarrow> nat list" where
  "class_tuples xs k p = filter (\<lambda>i. key_at xs i = k \<and> tuple_party xs i = p) [0..<length xs]"

definition pad_contract :: "SortElement list \<Rightarrow> nat \<Rightarrow> nat \<Rightarrow> nat \<Rightarrow> bool" where
  "pad_contract xs N M W \<longleftrightarrow>
     (\<forall>e\<in>set xs. 1 + W \<le> length (se_payload e) \<and> elem_party e < N \<and>
       (\<forall>p<N. length (filter (\<lambda>x. se_key x = se_key e \<and> elem_party x = p) xs) = M))"

lemma class_tuples_elems:
  "map ((!) xs) (class_tuples xs k p) = filter (\<lambda>x. se_key x = k \<and> elem_party x = p) xs"
proof -
  have "filter (\<lambda>x. se_key x = k \<and> elem_party x = p) (map ((!) xs) [0..<length xs]) =
      map ((!) xs) (class_tuples xs k p)"
    by (simp only: filter_map class_tuples_def comp_def)
  then show ?thesis by (simp only: map_nth)
qed

lemma class_tuples_length:
  "length (class_tuples xs k p) = length (filter (\<lambda>x. se_key x = k \<and> elem_party x = p) xs)"
  by (simp flip: class_tuples_elems)

lemma pad_contract_perm: "mset xs = mset ys \<Longrightarrow> pad_contract xs N M W = pad_contract ys N M W"
proof -
  assume m: "mset xs = mset ys"
  then have "length (filter P xs) = length (filter P ys)" for P by (metis mset_filter size_mset)
  moreover have "set xs = set ys" using m by (rule mset_eq_setD)
  ultimately show ?thesis by (simp add: pad_contract_def)
qed

lemma sum_length_filter:
  "\<forall>x\<in>set xs. f x < N \<Longrightarrow> (\<Sum>p<N. length (filter (\<lambda>x. f x = p) xs)) = length xs" for f :: "'a \<Rightarrow> nat"
proof (induction xs)
  case (Cons x xs)
  have "(\<Sum>p<N. length (filter (\<lambda>x. f x = p) (x # xs))) =
      (\<Sum>p<N. (if f x = p then 1 else 0) + length (filter (\<lambda>x. f x = p) xs))"
    by (rule sum.cong) auto
  then show ?case using Cons by (simp add: sum.distrib)
qed simp

lemma party_tuples_class:
  assumes "sorted (map se_key xs)" "w < length (windowStartIndices xs)"
  shows "party_tuples xs (win_start xs w) (win_end xs w) = class_tuples xs (key_at xs (win_start xs w))"
  unfolding party_tuples_def class_tuples_def fun_eq_iff
  using filter_interval [OF window_is_class [OF assms]] by (intro allI)

lemma pad_contract_window:
  assumes "sorted (map se_key xs)" "pad_contract xs N M W" and w: "w < length (windowStartIndices xs)"
  shows "window_ok xs N M W (win_start xs w) (win_end xs w)"
proof -
  let ?s = "win_start xs w" and ?e = "win_end xs w"
  note cls = party_tuples_class [OF assms(1) w]
  have s: "?s < length xs" "?s < ?e" "?e \<le> length xs"
    using starts_less window_nonempty win_end_le w by blast+
  have tup: "\<forall>i\<in>{?s..<?e}. 1 + W \<le> length (se_payload (xs ! i)) \<and> tuple_party xs i < N"
    using assms(2) s(3) by (auto simp: pad_contract_def)
  have M: "\<forall>p<N. length (party_tuples xs ?s ?e p) = M"
    using assms(2) s(1) by (simp add: pad_contract_def cls class_tuples_length)
  have "length [?s..<?e] = (\<Sum>p<N. length (party_tuples xs ?s ?e p))"
    unfolding party_tuples_def by (rule sum_length_filter [symmetric]) (use tup in simp)
  then have "?e - ?s = N * M" using M by simp
  with tup M s show ?thesis by (simp add: window_ok_def)
qed

definition join_rows :: "SortElement list \<Rightarrow> nat \<Rightarrow> nat \<Rightarrow> nat \<Rightarrow> JoinExpandedRow list" where
  "join_rows xs N M W = concat (map (\<lambda>k. map (\<lambda>c. joined_row xs W k
       (map (\<lambda>p. class_tuples xs k p ! (digits_of M N c ! p)) [0..<N])) [0..<M ^ N])
     (remdups (map se_key xs)))"

lemma crossProductExpand_sorted:
  assumes "sorted (map se_key xs)" "pad_contract xs N M W" "0 < N" "0 < M" "M ^ N \<le> 2 ^ 40" "slots_fit N W"
  shows "crossProductExpand xs N M W = Inr (join_rows xs N M W)"
proof -
  let ?row = "\<lambda>k. map (\<lambda>c. joined_row xs W k
       (map (\<lambda>p. class_tuples xs k p ! (digits_of M N c ! p)) [0..<N])) [0..<M ^ N]"
  let ?n = "length (windowStartIndices xs)"
  have "map (\<lambda>w. window_rows xs N M W (win_start xs w) (win_end xs w)) [0..<?n] =
      map (\<lambda>w. ?row (key_at xs (win_start xs w))) [0..<?n]"
    by (rule map_cong) (simp_all add: window_rows_def party_tuples_class [OF assms(1)])
  also have "\<dots> = map ?row (map (key_at xs) (map (win_start xs) [0..<?n]))" by simp
  also have "\<dots> = map ?row (remdups (map se_key xs))"
    by (simp only: map_nth window_keys [OF assms(1)])
  finally show ?thesis
    using crossProductExpand_returns [OF assms(3-6) pad_contract_window [OF assms(1,2)]]
    by (simp add: join_rows_def)
qed

text \<open>The rows as a multiset do not depend on the order of the bag.\<close>

lemma mset_join_rows:
  assumes "pad_contract xs N M W" "0 < M"
  shows "mset (join_rows xs N M W) = cross_join se_key elem_party (join_row W) N xs"
proof -
  let ?L = "\<lambda>k p. filter (\<lambda>x. se_key x = k \<and> elem_party x = p) xs"
  have class_k: "mset (map (\<lambda>c. joined_row xs W k
      (map (\<lambda>p. class_tuples xs k p ! (digits_of M N c ! p)) [0..<N])) [0..<M ^ N]) =
      image_mset (join_row W k) (mset (product_lists (map (?L k) [0..<N])))"
    if k: "k \<in> se_key ` set xs" for k
  proof -
    have len: "\<forall>p<N. length (?L k p) = M" using assms(1) k by (auto simp: pad_contract_def)
    have pick: "map ((!) xs) (map (\<lambda>p. class_tuples xs k p ! (digits_of M N c ! p)) [0..<N]) =
        map (\<lambda>p. ?L k p ! (digits_of M N c ! p)) [0..<N]" for c
    proof -
      have "xs ! (class_tuples xs k p ! (digits_of M N c ! p)) = ?L k p ! (digits_of M N c ! p)"
        if p: "p < N" for p
      proof -
        have "digits_of M N c ! p < length (class_tuples xs k p)"
          using len digits_of_less [OF assms(2) p] p by (simp only: class_tuples_length)
        then show ?thesis by (simp only: nth_map flip: class_tuples_elems)
      qed
      then show ?thesis by simp
    qed
    have "mset (map (\<lambda>c. join_row W k (map (\<lambda>p. ?L k p ! (digits_of M N c ! p)) [0..<N])) [0..<M ^ N]) =
        image_mset (join_row W k) (mset (map (\<lambda>c. map (\<lambda>p. ?L k p ! (digits_of M N c ! p)) [0..<N]) [0..<M ^ N]))"
      by (simp add: image_mset.compositionality comp_def)
    then show ?thesis unfolding pick mset_choices [OF assms(2) len] .
  qed
  have idx: "mset (remdups (map se_key xs)) = mset_set (se_key ` set xs)"
    using mset_set_set [of "remdups (map se_key xs)"] by simp
  have "mset (join_rows xs N M W) = (\<Sum>k\<in>#mset (remdups (map se_key xs)).
      mset (map (\<lambda>c. joined_row xs W k
        (map (\<lambda>p. class_tuples xs k p ! (digits_of M N c ! p)) [0..<N])) [0..<M ^ N]))"
    unfolding join_rows_def mset_concat map_map comp_def by (simp only: mset_map sum_mset_sum_list [symmetric])
  also have "\<dots> = (\<Sum>k\<in>#mset_set (se_key ` set xs).
      image_mset (join_row W k) (mset (product_lists (map (?L k) [0..<N]))))"
    unfolding idx by (intro arg_cong [where f = sum_mset] image_mset_cong class_k) simp
  finally show ?thesis by (simp only: cross_join_def)
qed

lemma obliviousBitonicSort_perm:
  assumes "length xs \<le> 2 ^ 63" "\<forall>e\<in>set xs. se_key e \<noteq> - 1"
  shows "\<exists>ys. obliviousBitonicSort xs = Inr ys \<and> sorted (map se_key ys) \<and> mset ys = mset xs"
proof -
  obtain ys where ys: "obliviousBitonicSort xs = Inr ys" "sorted (map se_key ys)"
    "mset (map se_key ys) = mset (map se_key xs)"
    "filter_mset (\<lambda>e. se_key e \<noteq> - 1) (mset ys) = filter_mset (\<lambda>e. se_key e \<noteq> - 1) (mset xs)"
    using obliviousBitonicSort_sorts [OF assms(1)] by auto
  have "se_key ` set ys = se_key ` set xs" using mset_eq_setD [OF ys(3)] by simp
  moreover have "- 1 \<notin> se_key ` set xs" using assms(2) by auto
  ultimately have "- 1 \<notin> se_key ` set ys" by (simp only: not_False_eq_True)
  then have "\<forall>e\<in>set ys. se_key e \<noteq> - 1" by (metis image_eqI)
  then have "mset ys = filter_mset (\<lambda>e. se_key e \<noteq> - 1) (mset ys)"
    by (subst filter_mset_eq_conv [THEN iffD2]) simp_all
  also have "\<dots> = filter_mset (\<lambda>e. se_key e \<noteq> - 1) (mset xs)" by (rule ys(4))
  also have "\<dots> = mset xs" using assms(2) by (simp add: filter_mset_eq_conv)
  finally have "mset ys = mset xs" .
  with ys show ?thesis by blast
qed

lemma length_join_rows: "length (join_rows xs N M W) = card (se_key ` set xs) * M ^ N"
proof -
  have "length (remdups (map se_key xs)) = card (se_key ` set xs)" by (simp add: length_remdups_card_conv)
  then show ?thesis
    by (simp add: join_rows_def length_concat comp_def sum_list_triv)
qed

lemma join_rows_width:
  assumes "pad_contract xs N M W" "0 < M" "r \<in> set (join_rows xs N M W)"
  shows "length (jr_joinedPayload r) = N * W"
proof -
  from assms(3) obtain k c where k: "k \<in> se_key ` set xs" and r: "r = joined_row xs W k
      (map (\<lambda>p. class_tuples xs k p ! (digits_of M N c ! p)) [0..<N])"
    by (auto simp: join_rows_def)
  have "length (take W (drop 1 (se_payload (xs ! (class_tuples xs k p ! (digits_of M N c ! p)))))) = W"
    if p: "p < N" for p
  proof -
    have "length (class_tuples xs k p) = M"
      using assms(1) k p by (auto simp: pad_contract_def class_tuples_length)
    then have "digits_of M N c ! p < length (class_tuples xs k p)"
      using digits_of_less [OF assms(2) p] by simp
    from nth_mem [OF this] have "class_tuples xs k p ! (digits_of M N c ! p) < length xs"
      by (simp add: class_tuples_def)
    from nth_mem [OF this] assms(1)
    have "1 + W \<le> length (se_payload (xs ! (class_tuples xs k p ! (digits_of M N c ! p))))"
      by (simp add: pad_contract_def)
    then show ?thesis by simp
  qed
  then have "map (\<lambda>p. length (take W (drop 1 (se_payload (xs ! (class_tuples xs k p ! (digits_of M N c ! p)))))))
      [0..<N] = replicate N W"
    by (intro nth_equalityI) simp_all
  then show ?thesis
    by (simp add: r join_row_def length_concat comp_def sum_list_replicate del: length_take)
qed

subsection \<open>Properties\<close>

text \<open>Packing and unpacking the tuple metadata is the identity on every party index, row index and
  flag.\<close>

theorem tuple_meta_roundtrip: "unpackTupleMeta (packTupleMeta party_idx row_idx is_real) = (party_idx, row_idx, is_real)"
  by (rule unpack_pack)

text \<open>On a bag sorted by key, the window that starts at the \<open>w\<close>-th start index is exactly the set of
  positions that carry its key, and the windows' keys are the distinct keys of the bag.\<close>

theorem windows_are_key_classes:
  assumes "sorted (map se_key xs)"
  shows "(\<forall>w<length (windowStartIndices xs). {win_start xs w..<win_end xs w} =
      {i. i < length xs \<and> key_at xs i = key_at xs (win_start xs w)}) \<and>
    map (key_at xs) (windowStartIndices xs) = remdups (map se_key xs)"
  using window_is_class [OF assms] window_keys [OF assms] by simp

lemma windows_are_key_classes_witness:
  "map (key_at [\<lparr>se_key = 4, se_payload = []\<rparr>, \<lparr>se_key = 4, se_payload = []\<rparr>, \<lparr>se_key = 9, se_payload = []\<rparr>])
     (windowStartIndices [\<lparr>se_key = 4, se_payload = []\<rparr>, \<lparr>se_key = 4, se_payload = []\<rparr>, \<lparr>se_key = 9, se_payload = []\<rparr>])
   = [4, 9]"
  using windows_are_key_classes [of "[\<lparr>se_key = 4, se_payload = []\<rparr>, \<lparr>se_key = 4, se_payload = []\<rparr>,
    \<lparr>se_key = 9, se_payload = []\<rparr>]"] by simp

end
