(* ===== verification/Join_Filter.thy ===== *)
theory Join_Filter
  imports Join_Expander
begin

text \<open>
  The oblivious filter of the plaintext join (\<open>volePSI/MpJoinFilter.h\<close>,
  \<open>volePSI/MpJoinFilter.cpp\<close>): rows are packed into sort elements keyed by their intersection
  flag, sorted by the network and unpacked, so that the intersection rows come first.
  The number of parties, which the code keeps in 32 bits, is the quotient itself: the two differ
  only for rows of at least \<open>2 ^ 32 * payloadW\<close> blocks, which the expander cannot build.
\<close>

definition encodeRow :: "JoinExpandedRow \<Rightarrow> SortElement" where
  "encodeRow row =
     \<lparr>se_key = (if jr_isIntersection row then 0 else 1),
      se_payload = (ucast (jr_id row) OR push_bit 64 (if jr_isIntersection row then 1 else 0))
        # jr_joinedPayload row\<rparr>"

definition decodeRow :: "SortElement \<Rightarrow> nat \<Rightarrow> nat \<Rightarrow> JoinExpandedRow result" where
  "decodeRow e N payloadW =
     throw_if (length (se_payload e) \<noteq> 1 + N * payloadW) (RuntimeError ''decodeRow: payload size mismatch'')
       (let meta = se_payload e ! 0 in
        Inr \<lparr>jr_id = ucast meta, jr_joinedPayload = drop 1 (se_payload e),
             jr_isIntersection = ((ucast (drop_bit 64 meta) :: 8 word) \<noteq> 0)\<rparr>)"

definition obliviousFilterIntersection ::
  "JoinExpandedRow list \<Rightarrow> nat \<Rightarrow> JoinExpandedRow list result" where
  "obliviousFilterIntersection rows payloadW =
     (if rows = [] then Inr []
      else let totalPayloadBlocks = length (jr_joinedPayload (rows ! 0)) in
        throw_if (payloadW = 0 \<or> totalPayloadBlocks mod payloadW \<noteq> 0)
          (RuntimeError ''obliviousFilterIntersection: payloadW does not divide joinedPayload.size()'')
        (let N = totalPayloadBlocks div payloadW in
         bindE (mapE (\<lambda>row. throw_if (length (jr_joinedPayload row) \<noteq> totalPayloadBlocks)
                        (RuntimeError ''obliviousFilterIntersection: inconsistent joinedPayload size'')
                        (Inr (encodeRow row))) rows) (\<lambda>encoded.
         bindE (obliviousBitonicSort encoded) (\<lambda>sorted_rows.
         mapE (\<lambda>i. bindE (vec_at sorted_rows i) (\<lambda>e. decodeRow e N payloadW)) [0..<length rows]))))"

definition truncateToK :: "JoinExpandedRow list \<Rightarrow> nat \<Rightarrow> JoinExpandedRow list" where
  "truncateToK rows K = (if K < length rows then take K rows else rows)"

definition countIntersection :: "JoinExpandedRow list \<Rightarrow> nat" where
  "countIntersection rows = foldl (\<lambda>k row. if jr_isIntersection row then k + 1 else k) 0 rows"

definition filterAndTruncate ::
  "JoinExpandedRow list \<Rightarrow> nat \<Rightarrow> (JoinExpandedRow list \<times> nat) result" where
  "filterAndTruncate rows payloadW =
     bindE (obliviousFilterIntersection rows payloadW) (\<lambda>filtered.
     let k = countIntersection filtered in Inr (truncateToK filtered k, k))"

subsection \<open>Rows survive the packing\<close>

lemma decode_encode:
  assumes "length (jr_joinedPayload row) = N * W"
  shows "decodeRow (encodeRow row) N W = Inr row"
proof -
  let ?m = "ucast (jr_id row) OR push_bit 64 (of_bool (jr_isIntersection row)) :: 128 word"
  have "(ucast ?m :: 64 word) = jr_id row"
    by (rule bit_word_eqI) (auto simp: bit_simps dest: bit_imp_le_length)
  moreover have "(ucast (drop_bit 64 ?m) :: 8 word) = of_bool (jr_isIntersection row)"
    by (rule bit_word_eqI) (auto simp: bit_simps dest: bit_imp_le_length)
  ultimately show ?thesis using assms
    by (cases "jr_isIntersection row") (simp_all add: decodeRow_def encodeRow_def Let_def)
qed

lemma countIntersection_filter: "countIntersection rows = length (filter jr_isIntersection rows)"
proof -
  have "foldl (\<lambda>k row. if jr_isIntersection row then k + 1 else k) n rows
      = n + length (filter jr_isIntersection rows)" for n
    by (induction rows arbitrary: n) simp_all
  then show ?thesis by (simp add: countIntersection_def)
qed

lemma permuted_image: "mset ys = mset (map f xs) \<Longrightarrow> \<exists>zs. ys = map f zs \<and> mset zs = mset xs"
proof -
  assume "mset ys = mset (map f xs)"
  moreover have "list_all2 (\<lambda>a b. a = f b) (map f xs) xs" by (simp add: list_all2_conv_all_nth)
  ultimately obtain zs where "list_all2 (\<lambda>a b. a = f b) ys zs" "mset zs = mset xs"
    using list_all2_reorder_left_invariance by metis
  moreover from this(1) have "ys = map f zs" by (auto simp: list_all2_conv_all_nth intro: nth_equalityI)
  ultimately show ?thesis by blast
qed

subsection \<open>The filter\<close>

lemma sorted_flags_take:
  "sorted (map (\<lambda>r. if P r then 0 else 1 :: 64 word) rows) \<Longrightarrow>
   take (length (filter P rows)) rows = filter P rows"
proof (induction rows)
  case (Cons r rows)
  show ?case
  proof (cases "P r")
    case False
    have "\<not> P x" if "x \<in> set rows" for x
    proof
      assume "P x"
      with Cons.prems that False show False by force
    qed
    then have "filter P rows = []" by (simp add: filter_empty_conv)
    with False show ?thesis by simp
  qed (use Cons in simp)
qed simp

lemma obliviousFilterIntersection_returns:
  assumes "\<forall>r\<in>set rows. length (jr_joinedPayload r) = N * W" "0 < W" "length rows \<le> 2 ^ 63"
  shows "\<exists>out. obliviousFilterIntersection rows W = Inr out \<and> mset out = mset rows \<and>
    sorted (map (\<lambda>r. if jr_isIntersection r then 0 else 1 :: 64 word) out)"
proof (cases "rows = []")
  case True
  then show ?thesis by (simp add: obliviousFilterIntersection_def)
next
  case False
  have total: "length (jr_joinedPayload (rows ! 0)) = N * W" using assms(1) False by simp
  have enc: "mapE (\<lambda>row. throw_if (length (jr_joinedPayload row) \<noteq> N * W)
      (RuntimeError ''obliviousFilterIntersection: inconsistent joinedPayload size'')
      (Inr (encodeRow row))) rows = Inr (map encodeRow rows)"
    by (rule mapE_Inr) (use assms(1) in simp)
  have "\<forall>e\<in>set (map encodeRow rows). se_key e \<noteq> - 1"
    by (auto simp: encodeRow_def)
  then obtain ys where ys: "obliviousBitonicSort (map encodeRow rows) = Inr ys" "sorted (map se_key ys)"
      "mset ys = mset (map encodeRow rows)"
    using obliviousBitonicSort_perm [of "map encodeRow rows"] assms(3) by auto
  from permuted_image [OF ys(3)] obtain out where out: "ys = map encodeRow out" "mset out = mset rows" by blast
  have len: "length out = length rows" using out(2) by (rule mset_eq_length)
  have "\<forall>r\<in>set out. length (jr_joinedPayload r) = N * W"
    using assms(1) mset_eq_setD [OF out(2)] by simp
  then have "mapE (\<lambda>i. bindE (vec_at ys i) (\<lambda>e. decodeRow e N W)) [0..<length rows] =
      Inr (map ((!) out) [0..<length rows])"
    by (intro mapE_Inr) (simp add: out(1) len decode_encode)
  then have "obliviousFilterIntersection rows W = Inr out"
    using False assms(2) enc ys(1) map_nth [of out]
    by (simp add: obliviousFilterIntersection_def total Let_def len)
  moreover have "map (\<lambda>r. if jr_isIntersection r then 0 else 1 :: 64 word) out = map se_key ys"
    by (simp add: out(1) encodeRow_def)
  ultimately show ?thesis using ys(2) out(2) by (metis (no_types, lifting))
qed

lemma filterAndTruncate_returns:
  assumes "\<forall>r\<in>set rows. length (jr_joinedPayload r) = N * W" "0 < W" "length rows \<le> 2 ^ 63"
  shows "\<exists>out k. filterAndTruncate rows W = Inr (out, k) \<and>
    mset out = filter_mset jr_isIntersection (mset rows) \<and> k = length (filter jr_isIntersection rows)"
proof -
  obtain f where f: "obliviousFilterIntersection rows W = Inr f" "mset f = mset rows"
      "sorted (map (\<lambda>r. if jr_isIntersection r then 0 else 1 :: 64 word) f)"
    using obliviousFilterIntersection_returns [OF assms] by blast
  let ?k = "length (filter jr_isIntersection f)"
  have "truncateToK f ?k = take ?k f" by (simp add: truncateToK_def)
  also have "\<dots> = filter jr_isIntersection f" by (rule sorted_flags_take [OF f(3)])
  finally have t: "truncateToK f ?k = filter jr_isIntersection f" .
  have "?k = length (filter jr_isIntersection rows)"
    using f(2) by (metis mset_filter size_mset)
  then show ?thesis
    using f(1,2) t by (simp add: filterAndTruncate_def countIntersection_filter Let_def)
qed

subsection \<open>Properties\<close>

text \<open>C24: on rows of one common width \<open>N * W\<close>, \<open>filterAndTruncate\<close> returns exactly the intersection rows (as
  a multiset, contents unchanged) and their number.\<close>

theorem filterAndTruncate_correct:
  assumes "\<forall>r\<in>set rows. length (jr_joinedPayload r) = N * W" "0 < W" "length rows \<le> 2 ^ 63"
  shows "\<exists>out k. filterAndTruncate rows W = Inr (out, k) \<and>
    mset out = filter_mset jr_isIntersection (mset rows) \<and> k = length (filter jr_isIntersection rows)"
  by (rule filterAndTruncate_returns [OF assms])

lemma filterAndTruncate_correct_witness:
  "\<exists>out k. filterAndTruncate
     [\<lparr>jr_id = 5, jr_joinedPayload = [1, 2], jr_isIntersection = False\<rparr>,
      \<lparr>jr_id = 7, jr_joinedPayload = [3, 4], jr_isIntersection = True\<rparr>] 1 = Inr (out, k) \<and>
     mset out = {#\<lparr>jr_id = 7, jr_joinedPayload = [3, 4], jr_isIntersection = True\<rparr>#} \<and> k = 1"
  using filterAndTruncate_correct
    [of "[\<lparr>jr_id = 5, jr_joinedPayload = [1, 2], jr_isIntersection = False\<rparr>,
      \<lparr>jr_id = 7, jr_joinedPayload = [3, 4], jr_isIntersection = True\<rparr>]" 2 1] by simp

end
