(* ===== verification/Join_Driver.thy ===== *)
theory Join_Driver
  imports Join_Filter
begin

text \<open>
  The in-memory N-party private join (\<open>volePSI/MpsaJoinDriver.h\<close>,
  \<open>volePSI/MpsaJoinDriver.cpp\<close>): pad every party's table to \<open>M\<close> tuples per id of the common
  universe, sort the bag by id, expand every id into its cross product, keep the rows in which
  every pick was real.

  \<open>natural_join\<close> is the specification: the relational join of the tables on the id. The end
  result of the four phases is proved to be exactly this multiset of rows.
\<close>

record JoinInputRow =
  ji_id :: "64 word"
  ji_row_data :: "128 word list"

type_synonym JoinInputTable = "JoinInputRow list"

subsection \<open>Padding and aggregation\<close>

text \<open>\<open>std::set\<close> keeps the ids ascending; \<open>byId[i]\<close> maps an id to party \<open>i\<close>'s rows in input order.\<close>

definition join_universe :: "JoinInputTable list \<Rightarrow> 64 word list" where
  "join_universe perParty = sorted_list_of_set (set (concat (map (map ji_id) perParty)))"

definition rows_by_id :: "JoinInputTable \<Rightarrow> 64 word \<Rightarrow> JoinInputRow list" where
  "rows_by_id table u = filter (\<lambda>r. ji_id r = u) table"

definition pad_tuple :: "nat \<Rightarrow> JoinInputRow list \<Rightarrow> nat \<Rightarrow> 64 word \<Rightarrow> nat \<Rightarrow> SortElement" where
  "pad_tuple payloadW myRows i u r =
     (let isReal = r < length myRows in
      \<lparr>se_key = u,
       se_payload = packTupleMeta (of_nat i) (of_nat r) isReal #
         (if isReal then map (\<lambda>w. ji_row_data (myRows ! r) ! w) [0..<payloadW] else replicate payloadW 0)\<rparr>)"

definition padAndAggregate ::
  "nat \<Rightarrow> nat \<Rightarrow> nat \<Rightarrow> JoinInputTable list \<Rightarrow> SortElement list result" where
  "padAndAggregate N M payloadW perParty =
     (let universe = join_universe perParty in
      bindE (foldE (\<lambda>i _.
          let table = perParty ! i in
          throw_if (\<exists>r\<in>set table. length (ji_row_data r) \<noteq> payloadW)
            (RuntimeError ''executePrivateJoinInMemory: party '')
          (throw_if (\<exists>u\<in>set (map ji_id table). length (rows_by_id table u) > M)
            (RuntimeError ''executePrivateJoinInMemory: party '')
            (Inr ()))) [0..<N] ()) (\<lambda>_.
      throw_if (tuple_len payloadW = 0 \<and> universe \<noteq> [] \<and> N \<noteq> 0 \<and> M \<noteq> 0) OutOfBounds
      (Inr (concat (map (\<lambda>u. concat (map (\<lambda>i.
          map (pad_tuple payloadW (rows_by_id (perParty ! i) u) i u) [0..<M]) [0..<N])) universe)))))"

subsection \<open>The driver\<close>

definition executePrivateJoinInMemory ::
  "nat \<Rightarrow> nat \<Rightarrow> nat \<Rightarrow> JoinInputTable list \<Rightarrow> JoinExpandedRow list result" where
  "executePrivateJoinInMemory N M payloadW perParty =
     throw_if (N < 2) (RuntimeError ''executePrivateJoinInMemory: N must be >= 2'')
    (throw_if (M < 1) (RuntimeError ''executePrivateJoinInMemory: M must be >= 1'')
    (throw_if (payloadW < 1) (RuntimeError ''executePrivateJoinInMemory: payloadW must be >= 1'')
    (throw_if (length perParty \<noteq> N) (RuntimeError ''executePrivateJoinInMemory: perParty.size() != N'')
    (bindE (padAndAggregate N M payloadW perParty) (\<lambda>bag.
     bindE (obliviousBitonicSort bag) (\<lambda>sorted_bag.
     bindE (crossProductExpand sorted_bag N M payloadW) (\<lambda>expanded.
     bindE (filterAndTruncate expanded payloadW) (\<lambda>(out, k). Inr out))))))))"

subsection \<open>The specification\<close>

definition natural_join :: "nat \<Rightarrow> JoinInputTable list \<Rightarrow> JoinExpandedRow multiset" where
  "natural_join N perParty =
     (\<Sum>u\<in>#mset (join_universe perParty). image_mset
        (\<lambda>rs. \<lparr>jr_id = u, jr_joinedPayload = concat (map ji_row_data rs), jr_isIntersection = True\<rparr>)
        (mset (product_lists (map (\<lambda>i. rows_by_id (perParty ! i) u) [0..<N]))))"

text \<open>Inputs the driver accepts: rows of width \<open>W\<close>, at most \<open>M\<close> per id.\<close>

definition tables_ok :: "nat \<Rightarrow> nat \<Rightarrow> nat \<Rightarrow> JoinInputTable list \<Rightarrow> bool" where
  "tables_ok N M W perParty \<longleftrightarrow> length perParty = N \<and>
     (\<forall>table\<in>set perParty. \<forall>r\<in>set table. length (ji_row_data r) = W \<and>
        length (rows_by_id table (ji_id r)) \<le> M)"

subsection \<open>The padded bag\<close>

definition party_block :: "nat \<Rightarrow> nat \<Rightarrow> JoinInputTable list \<Rightarrow> 64 word \<Rightarrow> nat \<Rightarrow> SortElement list" where
  "party_block M W perParty u i = map (pad_tuple W (rows_by_id (perParty ! i) u) i u) [0..<M]"

definition padded_bag :: "nat \<Rightarrow> nat \<Rightarrow> nat \<Rightarrow> JoinInputTable list \<Rightarrow> SortElement list" where
  "padded_bag N M W perParty =
     concat (map (\<lambda>u. concat (map (party_block M W perParty u) [0..<N])) (join_universe perParty))"

lemma padAndAggregate_returns:
  assumes "tables_ok N M W perParty" and "slots_fit N W"
  shows "padAndAggregate N M W perParty = Inr (padded_bag N M W perParty)"
proof -
  let ?f = "\<lambda>i (_ :: unit). let table = perParty ! i in
          throw_if (\<exists>r\<in>set table. length (ji_row_data r) \<noteq> W)
            (RuntimeError ''executePrivateJoinInMemory: party '')
          (throw_if (\<exists>u\<in>set (map ji_id table). length (rows_by_id table u) > M)
            (RuntimeError ''executePrivateJoinInMemory: party '')
            (Inr ()))"
  have "returns (foldE ?f [0..<N] ()) (\<lambda>_. True)"
  proof (rule returns_foldE_upt, goal_cases)
    case (2 i s)
    then have "perParty ! i \<in> set perParty" using assms by (simp add: tables_ok_def)
    then show ?case using assms by (fastforce simp: tables_ok_def Let_def wp_simps)
  qed simp
  then have "foldE ?f [0..<N] () = Inr ()" by (simp add: returns_def)
  then show ?thesis
    using tuple_len_fit [OF assms(2)]
    by (simp add: padAndAggregate_def padded_bag_def party_block_def [abs_def] Let_def)
qed

lemma pad_tuple_simps:
  assumes "i < 2 ^ 32" "\<forall>row\<in>set rows. length (ji_row_data row) = W"
  shows "se_key (pad_tuple W rows i u r) = u" "elem_party (pad_tuple W rows i u r) = i"
    "elem_real (pad_tuple W rows i u r) = (r < length rows)"
    "length (se_payload (pad_tuple W rows i u r)) = 1 + W"
    "r < length rows \<Longrightarrow> drop 1 (se_payload (pad_tuple W rows i u r)) = ji_row_data (rows ! r)"
  using assms by (auto simp: pad_tuple_def Let_def elem_party_def elem_real_def unpack_pack
      unat_of_nat intro!: nth_equalityI)

lemma join_universe_simps [simp]:
  "distinct (join_universe perParty)"
  "set (join_universe perParty) = (\<Union>table\<in>set perParty. ji_id ` set table)"
  by (simp_all add: join_universe_def)

lemma rows_by_id_width:
  "tables_ok N M W perParty \<Longrightarrow> i < N \<Longrightarrow> \<forall>r\<in>set (rows_by_id (perParty ! i) u). length (ji_row_data r) = W"
  using nth_mem [of i perParty] by (fastforce simp: tables_ok_def rows_by_id_def)

lemma rows_by_id_cap:
  assumes "tables_ok N M W perParty" "i < N"
  shows "length (rows_by_id (perParty ! i) u) \<le> M"
proof (cases "\<exists>r\<in>set (perParty ! i). ji_id r = u")
  case True
  then show ?thesis using assms nth_mem [of i perParty] by (fastforce simp: tables_ok_def)
next
  case False
  then show ?thesis by (simp add: rows_by_id_def)
qed

definition join_setup :: "nat \<Rightarrow> nat \<Rightarrow> nat \<Rightarrow> JoinInputTable list \<Rightarrow> bool" where
  "join_setup N M W perParty \<longleftrightarrow> tables_ok N M W perParty \<and> 0 < N \<and> N \<le> 2 ^ 32 \<and> 0 < M"

lemma join_setupD:
  assumes "join_setup N M W perParty"
  shows "tables_ok N M W perParty" "0 < N" "N \<le> 2 ^ 32" "0 < M"
  using assms by (simp_all add: join_setup_def)

lemma block_elem:
  assumes ctx: "join_setup N M W perParty" and "i < N" "e \<in> set (party_block M W perParty u i)"
  shows "se_key e = u" "elem_party e = i" "length (se_payload e) = 1 + W"
proof -
  have i: "i < 2 ^ 32" using assms(2) join_setupD(3) [OF ctx] by linarith
  from assms(3) obtain r where "e = pad_tuple W (rows_by_id (perParty ! i) u) i u r"
    by (auto simp: party_block_def)
  then show "se_key e = u" "elem_party e = i" "length (se_payload e) = 1 + W"
    using pad_tuple_simps(1,2,4) [OF i rows_by_id_width [OF join_setupD(1) [OF ctx] assms(2)]] by simp_all
qed

lemma filter_concat_map: "filter P (concat (map f xs)) = concat (map (\<lambda>x. filter P (f x)) xs)"
  by (induction xs) simp_all

lemma bag_elem:
  "e \<in> set (padded_bag N M W perParty) \<longleftrightarrow>
     (\<exists>u\<in>set (join_universe perParty). \<exists>i<N. e \<in> set (party_block M W perParty u i))"
  unfolding padded_bag_def set_concat set_map set_upt UN_iff bex_simps by (simp add: Bex_def)

lemma bag_class:
  assumes ctx: "join_setup N M W perParty" and u: "u \<in> set (join_universe perParty)" and p: "p < N"
  shows "filter (\<lambda>e. se_key e = u \<and> elem_party e = p) (padded_bag N M W perParty) = party_block M W perParty u p"
proof -
  let ?P = "\<lambda>e. se_key e = u \<and> elem_party e = p"
  have block: "filter ?P (party_block M W perParty v i) = (if v = u \<and> i = p then party_block M W perParty u p else [])" if "i < N" for v i
    using block_elem [OF ctx that] by (auto intro: filter_True filter_False)
  have inner: "filter ?P (concat (map (party_block M W perParty v) [0..<N])) = (if v = u then party_block M W perParty u p else [])" for v
  proof -
    have "filter ?P (concat (map (party_block M W perParty v) [0..<N])) =
        concat (map (\<lambda>i. if v = u \<and> i = p then party_block M W perParty u p else []) [0..<N])"
      unfolding filter_concat map_map comp_def
      by (rule arg_cong [where f = concat], rule map_cong) (simp_all add: block)
    also have "\<dots> = (if v = u then party_block M W perParty u p else [])"
      using p by (subst concat_map_single [of _ p]) auto
    finally show ?thesis .
  qed
  have "filter ?P (padded_bag N M W perParty) =
      concat (map (\<lambda>v. if v = u then party_block M W perParty u p else []) (join_universe perParty))"
    unfolding padded_bag_def by (subst filter_concat_map) (simp only: inner)
  also have "\<dots> = party_block M W perParty u p" using u by (subst concat_map_single [of _ u]) auto
  finally show ?thesis .
qed

lemma bag_contract:
  assumes ctx: "join_setup N M W perParty"
  shows "pad_contract (padded_bag N M W perParty) N M W"
  unfolding pad_contract_def
proof (intro ballI)
  fix e assume "e \<in> set (padded_bag N M W perParty)"
  then obtain u i where e: "u \<in> set (join_universe perParty)" "i < N" "e \<in> set (party_block M W perParty u i)"
    using bag_elem by blast
  have "length (filter (\<lambda>x. se_key x = u \<and> elem_party x = p) (padded_bag N M W perParty)) = M"
    if "p < N" for p
    unfolding bag_class [OF ctx e(1) that] by (simp add: party_block_def)
  then show "1 + W \<le> length (se_payload e) \<and> elem_party e < N \<and>
      (\<forall>p<N. length (filter (\<lambda>x. se_key x = se_key e \<and> elem_party x = p) (padded_bag N M W perParty)) = M)"
    using block_elem [OF ctx e(2,3)] e(2) by simp
qed

lemma bag_keys:
  assumes ctx: "join_setup N M W perParty"
  shows "se_key ` set (padded_bag N M W perParty) = set (join_universe perParty)"
proof (intro equalityI subsetI)
  fix k assume "k \<in> se_key ` set (padded_bag N M W perParty)"
  then show "k \<in> set (join_universe perParty)" using bag_elem block_elem(1) [OF ctx] by blast
next
  fix u assume u: "u \<in> set (join_universe perParty)"
  have "party_block M W perParty u 0 \<noteq> []" using join_setupD(4) [OF ctx] by (simp add: party_block_def)
  then obtain e where "e \<in> set (party_block M W perParty u 0)" by (cases "party_block M W perParty u 0") auto
  then have "e \<in> set (padded_bag N M W perParty)" "se_key e = u"
    using u join_setupD(2) [OF ctx] bag_elem block_elem(1) [OF ctx] by blast+
  then show "u \<in> se_key ` set (padded_bag N M W perParty)" by force
qed

lemma length_bag: "length (padded_bag N M W perParty) = length (join_universe perParty) * (N * M)"
  by (simp add: padded_bag_def length_concat comp_def party_block_def sum_list_triv)

lemma block_real:
  assumes ctx: "join_setup N M W perParty" and "i < N"
  shows "map (\<lambda>e. take W (drop 1 (se_payload e))) (filter elem_real (party_block M W perParty u i)) =
    map ji_row_data (rows_by_id (perParty ! i) u)"
proof -
  let ?rows = "rows_by_id (perParty ! i) u"
  have i: "i < 2 ^ 32" using assms(2) join_setupD(3) [OF ctx] by linarith
  note wd = rows_by_id_width [OF join_setupD(1) [OF ctx] assms(2), of u]
  note pad = pad_tuple_simps [OF i wd]
  have "filter (\<lambda>r. r < length ?rows) [0..<M] = [0..<length ?rows]"
    using rows_by_id_cap [OF join_setupD(1) [OF ctx] assms(2), of u]
    by (intro sorted_distinct_set_unique) (auto simp: sorted_wrt_filter)
  then have "filter elem_real (party_block M W perParty u i) = map (pad_tuple W ?rows i u) [0..<length ?rows]"
    by (simp add: party_block_def filter_map comp_def pad(3))
  then have "map (\<lambda>e. take W (drop 1 (se_payload e))) (filter elem_real (party_block M W perParty u i)) =
      map (\<lambda>r. ji_row_data (?rows ! r)) [0..<length ?rows]"
    using wd pad(5) by simp
  also have "\<dots> = map ji_row_data ?rows" by (rule nth_equalityI) simp_all
  finally show ?thesis .
qed

text \<open>The intersection rows of the expansion are the natural join.\<close>

lemma bag_join:
  assumes ctx: "join_setup N M W perParty"
  shows "filter_mset jr_isIntersection
     (cross_join se_key elem_party (join_row W) N (padded_bag N M W perParty)) = natural_join N perParty"
proof -
  let ?U = "join_universe perParty" and ?proj = "\<lambda>e. take W (drop 1 (se_payload e))"
  let ?mk = "\<lambda>u ds. \<lparr>jr_id = u, jr_joinedPayload = concat ds, jr_isIntersection = True\<rparr>"
  have one: "filter_mset jr_isIntersection (image_mset (join_row W u) (mset (product_lists
      (map (\<lambda>p. filter (\<lambda>e. se_key e = u \<and> elem_party e = p) (padded_bag N M W perParty)) [0..<N])))) =
      image_mset (\<lambda>rs. ?mk u (map ji_row_data rs))
        (mset (product_lists (map (\<lambda>i. rows_by_id (perParty ! i) u) [0..<N])))"
    if u: "u \<in> set ?U" for u
  proof -
    have cls: "map (\<lambda>p. filter (\<lambda>e. se_key e = u \<and> elem_party e = p) (padded_bag N M W perParty)) [0..<N] =
        map (party_block M W perParty u) [0..<N]"
      using bag_class [OF ctx u] by simp
    have "filter_mset jr_isIntersection (image_mset (join_row W u) (mset (product_lists (map (party_block M W perParty u) [0..<N])))) =
        image_mset (join_row W u) (mset (filter (\<lambda>es. \<forall>e\<in>set es. elem_real e) (product_lists (map (party_block M W perParty u) [0..<N]))))"
      by (simp add: image_mset_filter_mset_swap [symmetric] join_row_def)
    also have "\<dots> = image_mset (\<lambda>es. ?mk u (map ?proj es))
        (mset (filter (\<lambda>es. \<forall>e\<in>set es. elem_real e) (product_lists (map (party_block M W perParty u) [0..<N]))))"
      by (rule image_mset_cong) (simp add: join_row_def)
    also have "\<dots> = image_mset (?mk u) (mset (map (map ?proj)
        (product_lists (map (filter elem_real) (map (party_block M W perParty u) [0..<N])))))"
      by (simp only: filter_product_lists mset_map image_mset.compositionality comp_def)
    also have "map (map ?proj) (product_lists (map (filter elem_real) (map (party_block M W perParty u) [0..<N]))) =
        product_lists (map (map ji_row_data) (map (\<lambda>i. rows_by_id (perParty ! i) u) [0..<N]))"
      unfolding product_lists_map [symmetric] map_map comp_def
      by (intro arg_cong [where f = product_lists] map_cong refl block_real [OF ctx]) simp
    also have "image_mset (?mk u) (mset \<dots>) = image_mset (\<lambda>rs. ?mk u (map ji_row_data rs))
        (mset (product_lists (map (\<lambda>i. rows_by_id (perParty ! i) u) [0..<N])))"
      by (simp only: product_lists_map mset_map image_mset.compositionality comp_def)
    finally show ?thesis unfolding cls .
  qed
  have "mset ?U = mset_set (set ?U)" by (rule mset_set_set [symmetric]) simp
  then show ?thesis
    unfolding cross_join_def natural_join_def filter_sum_mset bag_keys [OF ctx]
    by (simp only: ) (intro arg_cong [where f = sum_mset] image_mset_cong one, simp)
qed

subsection \<open>The whole join\<close>

lemma executePrivateJoinInMemory_returns:
  assumes ok: "tables_ok N M W perParty" and N: "2 \<le> N" "N \<le> 2 ^ 32" and M: "1 \<le> M" and W: "1 \<le> W"
    and ids: "- 1 \<notin> set (join_universe perParty)" and guard: "M ^ N \<le> 2 ^ 40"
    and bag: "length (join_universe perParty) * (N * M) \<le> 2 ^ 63"
    and expanded: "length (join_universe perParty) * M ^ N \<le> 2 ^ 63" and slots: "N * W \<le> 2 ^ 32"
  shows "\<exists>out. executePrivateJoinInMemory N M W perParty = Inr out \<and> mset out = natural_join N perParty"
proof -
  let ?bag = "padded_bag N M W perParty" and ?U = "join_universe perParty"
  have ctx: "join_setup N M W perParty" using ok N M by (simp add: join_setup_def)
  have "length ?bag \<le> 2 ^ 63" using bag by (simp add: length_bag)
  moreover have "\<forall>e\<in>set ?bag. se_key e \<noteq> - 1" using ids bag_keys [OF ctx] by (metis imageI)
  ultimately obtain ys where ys: "obliviousBitonicSort ?bag = Inr ys" "sorted (map se_key ys)" "mset ys = mset ?bag"
    using obliviousBitonicSort_perm by blast
  have contract: "pad_contract ys N M W"
    using bag_contract [OF ctx] pad_contract_perm [OF ys(3)] by simp
  have M0: "0 < M" and N0: "0 < N" using M N by simp_all
  have "2 * W \<le> N * W" using N(1) by (rule mult_le_mono1)
  moreover have "N * W \<le> 4294967296" using slots by simp
  ultimately have "W + 1 < 4294967296" by linarith
  with slots have fit: "slots_fit N W" by (simp add: slots_fit_def)
  have expand: "crossProductExpand ys N M W = Inr (join_rows ys N M W)"
    by (rule crossProductExpand_sorted [OF ys(2) contract N0 M0 guard fit])
  have width: "\<forall>r\<in>set (join_rows ys N M W). length (jr_joinedPayload r) = N * W"
    using join_rows_width [OF contract M0] by blast
  have "se_key ` set ys = set ?U" using mset_eq_setD [OF ys(3)] bag_keys [OF ctx] by simp
  then have "card (se_key ` set ys) = length ?U" using distinct_card [OF join_universe_simps(1)] by simp
  then have "length (join_rows ys N M W) \<le> 2 ^ 63" using expanded by (simp add: length_join_rows)
  from filterAndTruncate_returns [OF width _ this] W obtain out k where
    out: "filterAndTruncate (join_rows ys N M W) W = Inr (out, k)"
      "mset out = filter_mset jr_isIntersection (mset (join_rows ys N M W))" by auto
  have "mset (join_rows ys N M W) = cross_join se_key elem_party (join_row W) N ?bag"
    using mset_join_rows [OF contract M0] cross_join_perm [OF ys(3)] by simp
  then have "mset out = natural_join N perParty" using out(2) bag_join [OF ctx] by simp
  moreover have "executePrivateJoinInMemory N M W perParty = Inr out"
    using ok N M W fit ys(1) expand out(1)
    by (simp add: executePrivateJoinInMemory_def padAndAggregate_returns tables_ok_def)
  ultimately show ?thesis by blast
qed

subsection \<open>Properties\<close>

text \<open>C1: the in-memory private join computes the relational join: for tables with rows of width \<open>W\<close> and
  at most \<open>M\<close> rows per id, no id equal to the sort sentinel, sizes inside the driver's guards, and
  joined rows of at most \<open>2 ^ 32\<close> blocks (the expander computes the slot of a block in 32 bits, and
  beyond that size it overwrites earlier blocks), the driver returns, and its rows are, as a multiset, for every id one row per choice of one
  matching row from each party, payloads concatenated in party order.\<close>

theorem executePrivateJoinInMemory_correct:
  assumes "tables_ok N M W perParty" "2 \<le> N" "N \<le> 2 ^ 32" "1 \<le> M" "1 \<le> W"
    and "- 1 \<notin> set (join_universe perParty)" "M ^ N \<le> 2 ^ 40"
    and "length (join_universe perParty) * (N * M) \<le> 2 ^ 63"
    and "length (join_universe perParty) * M ^ N \<le> 2 ^ 63" and "N * W \<le> 2 ^ 32"
  shows "\<exists>out. executePrivateJoinInMemory N M W perParty = Inr out \<and> mset out = natural_join N perParty"
  by (rule executePrivateJoinInMemory_returns [OF assms])

lemma executePrivateJoinInMemory_correct_witness:
  "\<exists>out. executePrivateJoinInMemory 2 2 1
       [[\<lparr>ji_id = 5, ji_row_data = [50]\<rparr>, \<lparr>ji_id = 6, ji_row_data = [60]\<rparr>],
        [\<lparr>ji_id = 6, ji_row_data = [61]\<rparr>, \<lparr>ji_id = 6, ji_row_data = [62]\<rparr>]] = Inr out \<and>
     mset out = {#\<lparr>jr_id = 6, jr_joinedPayload = [60, 61], jr_isIntersection = True\<rparr>,
                 \<lparr>jr_id = 6, jr_joinedPayload = [60, 62], jr_isIntersection = True\<rparr>#}"
proof -
  let ?T = "[[\<lparr>ji_id = 5, ji_row_data = [50]\<rparr>, \<lparr>ji_id = 6, ji_row_data = [60]\<rparr>],
        [\<lparr>ji_id = 6, ji_row_data = [61]\<rparr>, \<lparr>ji_id = 6, ji_row_data = [62]\<rparr>]] :: JoinInputTable list"
  have U: "join_universe ?T = [5, 6]" by (simp add: join_universe_def)
  have two: "[0..<2] = [0, 1 :: nat]" by (simp add: upt_rec)
  have "tables_ok 2 2 1 ?T" by (simp add: tables_ok_def rows_by_id_def)
  then have "\<exists>out. executePrivateJoinInMemory 2 2 1 ?T = Inr out \<and> mset out = natural_join 2 ?T"
    by (rule executePrivateJoinInMemory_correct) (simp_all add: U)
  moreover have "natural_join 2 ?T = {#\<lparr>jr_id = 6, jr_joinedPayload = [60, 61], jr_isIntersection = True\<rparr>,
                 \<lparr>jr_id = 6, jr_joinedPayload = [60, 62], jr_isIntersection = True\<rparr>#}"
    by (simp add: natural_join_def U two rows_by_id_def)
  ultimately show ?thesis by simp
qed

end
