(* ===== verification/Mpc_Join.thy ===== *)
theory Mpc_Join
  imports Mpc_Sort Cross_Product
begin

text \<open>
  The secret-shared join (\<open>volePSI/MpMpcJoin.h\<close>, \<open>volePSI/MpMpcJoin.cpp\<close>): composite keys,
  window ends, cross-product expansion by position, the filter on the shared intersection bit
  and the in-memory driver with its published triple cost. 32-bit counts and indices are
  naturals, the published costs 64-bit words; the \<open>long double\<close> guard on \<open>M ^ N\<close> is the
  integer comparison, as in \<open>Join_Expander\<close>. A modulus by zero is \<open>OutOfBounds\<close>.
\<close>

subsection \<open>Composite keys\<close>

definition makeCompositeKey :: "SharedU64Bin \<Rightarrow> nat \<Rightarrow> 32 word \<Rightarrow> SharedU64Bin result" where
  "makeCompositeKey ident partyIdxBits party_idx =
     throw_if (partyIdxBits > 32) (RuntimeError ''makeCompositeKey: partyIdxBits too large'')
       (let N = bin_N ident in
        bindE (mapE (\<lambda>i.
            if i < partyIdxBits
            then bindE (vec_set (bit_shares (bit_zero N)) 0 (ucast (drop_bit i party_idx AND 1)))
                   (\<lambda>ss. Inr \<lparr>bit_shares = ss\<rparr>)
            else vec_at (bin_bits ident) (i - partyIdxBits)) [0..<64])
          (\<lambda>bits. Inr \<lparr>bin_bits = bits\<rparr>))"

definition extractIdFromComposite :: "SharedU64Bin \<Rightarrow> nat \<Rightarrow> SharedU64Bin result" where
  "extractIdFromComposite composite partyIdxBits =
     (let N = bin_N composite in
      bindE (mapE (\<lambda>i.
          if i + partyIdxBits < 64 then vec_at (bin_bits composite) (i + partyIdxBits)
          else Inr (bit_zero N)) [0..<64])
        (\<lambda>bits. Inr \<lparr>bin_bits = bits\<rparr>))"

definition secureAndChain ::
  "SharedBit list \<Rightarrow> BeaverTripleBit list \<Rightarrow> nat \<Rightarrow> (SharedBit \<times> nat) result" where
  "secureAndChain bits triples k =
     throw_if (bits = []) (RuntimeError ''secureAndChain: empty input'')
       (foldE (\<lambda>i (acc, k1).
          throw_if (k1 \<ge> length triples) (RuntimeError ''secureAndChain: triple bag exhausted'')
            (bindE (secureAnd acc (bits ! i) (triples ! k1)) (\<lambda>acc'. Inr (acc', k1 + 1))))
        [1..<length bits] (bits ! 0, k))"

subsection \<open>Window ends\<close>

definition mpcWindowEndsTripleCost :: "64 word \<Rightarrow> 64 word" where
  "mpcWindowEndsTripleCost n = (if n \<le> 1 then 0 else (n - 1) * secureEqualTripleCost)"

definition mpcWindowEnds ::
  "SharedSortElement list \<Rightarrow> nat \<Rightarrow> BeaverTripleBit list \<Rightarrow> nat \<Rightarrow> (SharedBit list \<times> nat) result" where
  "mpcWindowEnds xs partyIdxBits triples k =
     (if xs = [] then Inr ([], k)
      else let N = bin_N (sse_key (xs ! 0)) in
        bindE (foldE (\<lambda>i (out, k1).
            bindE (extractIdFromComposite (sse_key (xs ! i)) partyIdxBits) (\<lambda>id_i.
            bindE (extractIdFromComposite (sse_key (xs ! (i + 1))) partyIdxBits) (\<lambda>id_ip.
            bindE (secureEqual id_i id_ip triples k1) (\<lambda>(eq, k2).
            bindE (xorConst eq 1) (\<lambda>b. Inr (out @ [b], k2)))))) [0..<length xs - 1] ([], k))
        (\<lambda>(out, k').
        bindE (vec_set (bit_shares (bit_zero N)) 0 1) (\<lambda>one.
        Inr (out @ [\<lparr>bit_shares = one\<rparr>], k'))))"

subsection \<open>Cross-product expansion\<close>

record MpcJoinRow =
  mr_id :: SharedU64Bin
  mr_joinedPayload :: "SharedBit list"
  mr_isIntersection :: SharedBit


definition mpcExpandRow ::
  "SharedSortElement list \<Rightarrow> nat \<Rightarrow> nat \<Rightarrow> nat \<Rightarrow> nat \<Rightarrow> BeaverTripleBit list \<Rightarrow> nat \<Rightarrow> nat list \<Rightarrow> nat \<Rightarrow>
   (MpcJoinRow \<times> nat) result" where
  "mpcExpandRow bag N M partyIdxBits rowDataBits triples baseWindow digits k =
     bindE (extractIdFromComposite (sse_key (bag ! (baseWindow + 0 * M + digits ! 0))) partyIdxBits) (\<lambda>ident.
     let srcs = map (\<lambda>p. baseWindow + p * M + digits ! p) [0..<N];
         joined = concat (map (\<lambda>src. map (\<lambda>b. sse_payload (bag ! src) ! (1 + b)) [0..<rowDataBits]) srcs);
         isReals = map (\<lambda>src. sse_payload (bag ! src) ! 0) srcs
     in bindE (secureAndChain isReals triples k) (\<lambda>(inter, k').
        Inr (\<lparr>mr_id = ident, mr_joinedPayload = joined, mr_isIntersection = inter\<rparr>, k')))"

definition mpcCrossProductExpand ::
  "SharedSortElement list \<Rightarrow> nat \<Rightarrow> nat \<Rightarrow> nat \<Rightarrow> nat \<Rightarrow> BeaverTripleBit list \<Rightarrow> nat \<Rightarrow>
   (MpcJoinRow list \<times> nat) result" where
  "mpcCrossProductExpand bag N M partyIdxBits rowDataBits triples k =
     throw_if (N = 0 \<or> M = 0) (RuntimeError ''mpcCrossProductExpand: N and M must be >= 1'')
    (throw_if (length bag mod (N * M) \<noteq> 0) (RuntimeError ''mpcCrossProductExpand: bag size '')
    (throw_if (M ^ N > 2 ^ 40) (RuntimeError ''mpcCrossProductExpand: M^N exceeds 2^40'')
    (throw_if (\<exists>e\<in>set bag. length (sse_payload e) \<noteq> 1 + rowDataBits)
       (RuntimeError ''mpcCrossProductExpand: tuple '')
    (foldE (\<lambda>w (out, k1).
        bindE (foldE (\<lambda>combo (out, digits, k2).
            bindE (mpcExpandRow bag N M partyIdxBits rowDataBits triples (w * N * M) digits k2) (\<lambda>(row, k3).
            Inr (out @ [row], incDigits M digits, k3))) [0..<M ^ N] (out, replicate N 0, k1))
          (\<lambda>(out, digits, k4). Inr (out, k4)))
      [0..<length bag div (N * M)] ([], k)))))"

subsection \<open>The filter\<close>


definition mpcEncodeRow :: "nat \<Rightarrow> nat \<Rightarrow> nat \<Rightarrow> MpcJoinRow \<Rightarrow> SharedSortElement result" where
  "mpcEncodeRow partyN N rowDataBits r =
     throw_if (length (mr_joinedPayload r) \<noteq> N * rowDataBits)
       (RuntimeError ''mpcFilterIntersection: joinedPayload size mismatch'')
     (bindE (xorConst (mr_isIntersection r) 1) (\<lambda>b.
      bindE (mapE (vec_at (bin_bits (mr_id r))) [0..<64]) (\<lambda>id_bits.
      Inr \<lparr>sse_key = \<lparr>bin_bits = (replicate 64 (bit_zero partyN))[0 := b]\<rparr>,
           sse_payload = id_bits @ mr_joinedPayload r @ [mr_isIntersection r]\<rparr>)))"

definition mpcDecodeRow :: "nat \<Rightarrow> nat \<Rightarrow> SharedSortElement \<Rightarrow> MpcJoinRow result" where
  "mpcDecodeRow N rowDataBits e =
     bindE (vec_at (sse_payload e) (64 + N * rowDataBits)) (\<lambda>inter.
     Inr \<lparr>mr_id = \<lparr>bin_bits = take 64 (sse_payload e)\<rparr>,
          mr_joinedPayload = take (N * rowDataBits) (drop 64 (sse_payload e)),
          mr_isIntersection = inter\<rparr>)"

definition mpcFilterIntersection ::
  "MpcJoinRow list \<Rightarrow> nat \<Rightarrow> nat \<Rightarrow> BeaverTripleBit list \<Rightarrow> nat \<Rightarrow> (MpcJoinRow list \<times> nat) result" where
  "mpcFilterIntersection rows N rowDataBits triples k =
     (if rows = [] then Inr ([], k)
      else bindE (mapE (mpcEncodeRow (bin_N (mr_id (rows ! 0))) N rowDataBits) rows) (\<lambda>encoded.
        bindE (mpcBitonicSort encoded triples k) (\<lambda>(sorted_rows, k').
        bindE (mapE (\<lambda>i. bindE (vec_at sorted_rows i) (mpcDecodeRow N rowDataBits)) [0..<length rows]) (\<lambda>out.
        Inr (out, k')))))"

subsection \<open>The driver\<close>

record JoinInputRowShared =
  jis_id :: SharedU64Bin
  jis_isReal :: SharedBit
  jis_rowData :: "SharedBit list"


definition mpcBagElement :: "nat \<Rightarrow> nat \<Rightarrow> nat \<Rightarrow> JoinInputRowShared \<Rightarrow> SharedSortElement result" where
  "mpcBagElement partyIdxBits rowDataBits i r =
     throw_if (length (jis_rowData r) \<noteq> rowDataBits)
       (RuntimeError ''mpcExecutePrivateJoinInMemory: rowData size mismatch'')
     (bindE (makeCompositeKey (jis_id r) partyIdxBits (of_nat i)) (\<lambda>key.
      Inr \<lparr>sse_key = key, sse_payload = jis_isReal r # jis_rowData r\<rparr>))"

definition mpcExecutePrivateJoinInMemory ::
  "nat \<Rightarrow> nat \<Rightarrow> nat \<Rightarrow> nat \<Rightarrow> JoinInputRowShared list list \<Rightarrow> BeaverTripleBit list \<Rightarrow> nat \<Rightarrow>
   (MpcJoinRow list \<times> nat) result" where
  "mpcExecutePrivateJoinInMemory N M partyIdxBits rowDataBits perParty triples k =
     throw_if (length perParty \<noteq> N) (RuntimeError ''mpcExecutePrivateJoinInMemory: perParty size mismatch'')
    (if perParty = [] \<or> perParty ! 0 = [] then Inr ([], k)
     else let perPartyCount = length (perParty ! 0) in
       throw_if (M = 0) OutOfBounds
      (throw_if (perPartyCount mod M \<noteq> 0)
         (RuntimeError ''mpcExecutePrivateJoinInMemory: per-party count not divisible by M'')
      (throw_if (\<exists>rows\<in>set perParty. length rows \<noteq> perPartyCount)
         (RuntimeError ''mpcExecutePrivateJoinInMemory: party '')
      (bindE (mapE (\<lambda>(i, r). mpcBagElement partyIdxBits rowDataBits i r)
           (concat (map (\<lambda>i. map (Pair i) (perParty ! i)) [0..<N]))) (\<lambda>bag.
       bindE (mpcBitonicSort bag triples k) (\<lambda>(sorted_bag, k1).
       bindE (mpcCrossProductExpand sorted_bag N M partyIdxBits rowDataBits triples k1) (\<lambda>(expanded, k2).
       mpcFilterIntersection expanded N rowDataBits triples k2)))))))"

subsection \<open>Composite keys open to composite values\<close>

definition comp_key :: "nat \<Rightarrow> 64 word \<Rightarrow> nat \<Rightarrow> 64 word" where
  "comp_key b v p = push_bit b v OR take_bit b (of_nat p)"

lemma bit_word_of_nat_iff: "bit (of_nat m :: 'a::len word) i \<longleftrightarrow> i < LENGTH('a) \<and> bit m i"
proof -
  have "bit (of_nat m :: 'a word) i = bit (unat (of_nat m :: 'a word)) i"
    by (auto simp: bit_unsigned_iff dest: bit_imp_le_length)
  then show ?thesis by (simp add: unat_of_nat bit_simps flip: take_bit_eq_mod)
qed

lemma bit_comp_key:
  "bit (comp_key b v p) i \<longleftrightarrow> i < 64 \<and> (if i < b then bit p i else bit v (i - b))"
  by (auto simp: comp_key_def bit_simps bit_word_of_nat_iff)

lemma bval_single_share:
  "0 < n \<Longrightarrow> bit_N \<lparr>bit_shares = (replicate n 0)[0 := s]\<rparr> = n \<and>
    bval \<lparr>bit_shares = (replicate n 0)[0 := s]\<rparr> = bit s 0"
  by (cases n) (simp_all add: bit_N_def bval_xor_list)


lemma extractIdFromComposite_returns:
  assumes x: "bin_ok n c"
  shows "returns (extractIdFromComposite c b)
    (\<lambda>y. bin_ok n y \<and> bin_reconstruct y = drop_bit b (bin_reconstruct c))"
proof -
  let ?f = "\<lambda>i. if i + b < 64 then vec_at (bin_bits c) (i + b) else Inr (bit_zero n)"
  have "returns (mapE ?f [0..<64]) (\<lambda>bits. length bits = 64 \<and> (\<forall>i<64. bit_N (bits ! i) = n \<and>
      bval (bits ! i) = bit (drop_bit b (bin_reconstruct c)) i))"
  proof (rule returns_mapE_upt)
    fix i :: nat assume i: "i < 64"
    show "returns (?f i) (\<lambda>d. bit_N d = n \<and> bval d = bit (drop_bit b (bin_reconstruct c)) i)"
      using x i by (auto simp: bin_ok_def bit_drop_bit_eq bit_bin_reconstruct add.commute)
  qed
  then show ?thesis
    using bin_ok_N [OF x]
    by (auto simp: extractIdFromComposite_def Let_def returns_bindE bin_ok_def intro!: bin_reconstruct_eqI
        elim!: returns_mono)
qed

lemma drop_bit_comp_key: "b \<le> 64 \<Longrightarrow> drop_bit b (comp_key b v p) = take_bit (64 - b) v"
  by (rule bit_word_eqI) (auto simp: bit_comp_key bit_simps)


subsection \<open>Expansion\<close>











subsection \<open>The filter\<close>










subsection \<open>The layout of a sorted bag\<close>

text \<open>The id and the party an opened tuple's composite key carries.\<close>

definition key_id :: "nat \<Rightarrow> 64 word \<times> bool list \<Rightarrow> 64 word" where
  "key_id b e = drop_bit b (fst e)"
















subsection \<open>The driver\<close>










subsection \<open>Window ends\<close>

lemma mpcWindowEnds_returns:
  assumes bag: "bag_ok n ts" and xs: "xs \<noteq> []" "\<forall>e\<in>set xs. elem_ok n p e"
    and k: "k + 63 * (length xs - 1) \<le> length ts"
  shows "returns (mpcWindowEnds xs b ts k) (\<lambda>(ends, k'). k' = k + 63 * (length xs - 1) \<and>
    map bval ends = map (\<lambda>i. i = length xs - 1 \<or> key_id b (map reveal_elem xs ! i) \<noteq>
      key_id b (map reveal_elem xs ! (i + 1))) [0..<length xs])"
proof -
  let ?n = "length xs"
  have n: "0 < n" using bag by (simp add: bag_ok_pos)
  let ?id = "\<lambda>i. key_id b (map reveal_elem xs ! i)"
  let ?f = "\<lambda>i (out, k1).
            bindE (extractIdFromComposite (sse_key (xs ! i)) b) (\<lambda>id_i.
            bindE (extractIdFromComposite (sse_key (xs ! (i + 1))) b) (\<lambda>id_ip.
            bindE (secureEqual id_i id_ip ts k1) (\<lambda>(eq, k2).
            bindE (xorConst eq 1) (\<lambda>b. Inr (out @ [b], k2)))))"
  let ?I = "\<lambda>m (out, k'). k' = k + 63 * m \<and> map bval out = map (\<lambda>i. ?id i \<noteq> ?id (i + 1)) [0..<m]"
  have key: "bin_ok n (sse_key (xs ! i))" "fst (map reveal_elem xs ! i) = bin_reconstruct (sse_key (xs ! i))"
    if "i < ?n" for i using xs(2) that by (simp_all add: elem_ok_def reveal_elem_def)
  have loop: "returns (foldE ?f [0..<?n - 1] ([], k)) (?I (?n - 1))"
  proof (rule returns_foldE_upt [where I = ?I])
    fix i and st :: "SharedBit list \<times> nat"
    assume i: "i < ?n - 1" and I: "?I i st"
    obtain out k' where st: "st = (out, k')" by (cases st)
    have i': "i < ?n" "i + 1 < ?n" using i by simp_all
    from extractIdFromComposite_returns [OF key(1) [OF i'(1)], of b] obtain x where
      x: "extractIdFromComposite (sse_key (xs ! i)) b = Inr x" "bin_ok n x" "bin_reconstruct x = ?id i"
      by (elim returnsE) (simp add: key_id_def key(2) [OF i'(1), simplified] reveal_elem_def i'(1))
    from extractIdFromComposite_returns [OF key(1) [OF i'(2)], of b] obtain y where
      y: "extractIdFromComposite (sse_key (xs ! (i + 1))) b = Inr y" "bin_ok n y" "bin_reconstruct y = ?id (i + 1)"
      by (elim returnsE) (simp add: key_id_def key(2) [OF i'(2), simplified])
    have "k' + 63 \<le> length ts" using k i I by (simp add: st)
    from secureEqual_returns [OF bag x(2) y(2) this] obtain e where
      e: "secureEqual x y ts k' = Inr (e, k' + 63)" "bit_N e = n" "bval e = (?id i = ?id (i + 1))"
      by (elim returnsE) (clarsimp simp: x(3) y(3))
    have "0 < bit_N e" using e(2) n by simp
    from xorConst_returns [OF this, of 1] obtain c where c: "xorConst e 1 = Inr c" "bval c = (\<not> bval e)"
      by (auto simp: returns_def)
    show "returns (?f i st) (?I (Suc i))"
      using I x(1) y(1) e(1,3) c by (simp add: st)
  qed simp
  then obtain out where out: "foldE ?f [0..<?n - 1] ([], k) = Inr (out, k + 63 * (?n - 1))"
      "map bval out = map (\<lambda>i. ?id i \<noteq> ?id (i + 1)) [0..<?n - 1]"
    by (elim returnsE) clarsimp
  have N0: "bin_N (sse_key (xs ! 0)) = n" using key(1) [of 0] xs(1) by (simp add: bin_ok_N)
  let ?one = "\<lparr>bit_shares = (replicate n 0)[0 := 1]\<rparr>"
  have "mpcWindowEnds xs b ts k = Inr (out @ [?one], k + 63 * (?n - 1))"
    using xs(1) n out(1) by (simp add: mpcWindowEnds_def N0 bit_zero_def)
  moreover have "map bval (out @ [?one]) = map (\<lambda>i. i = ?n - 1 \<or> ?id i \<noteq> ?id (i + 1)) [0..<?n]"
  proof -
    have "Suc (?n - 1) = ?n" using xs(1) by simp
    then have "[0..<?n] = [0..<?n - 1] @ [?n - 1]" using upt_Suc_append [of 0 "?n - 1"] by (simp only: zero_le)
    then show ?thesis using bval_single_share [OF n, of 1] by (simp only: map_append out(2)) auto
  qed
  ultimately show ?thesis by simp
qed

subsection \<open>Properties\<close>



text \<open>On a well-formed shared bag the window-end bits open to 1 exactly at the last position and where
  the id part of the next composite key differs, at a cost of 63 triples per adjacent pair.\<close>

theorem mpcWindowEnds_correct:
  assumes "bag_ok n ts" "xs \<noteq> []" "\<forall>e\<in>set xs. elem_ok n p e" "k + 63 * (length xs - 1) \<le> length ts"
  shows "\<exists>ends. mpcWindowEnds xs b ts k = Inr (ends, k + 63 * (length xs - 1)) \<and>
    map bval ends = map (\<lambda>i. i = length xs - 1 \<or> key_id b (map reveal_elem xs ! i) \<noteq>
      key_id b (map reveal_elem xs ! (i + 1))) [0..<length xs]"
  using mpcWindowEnds_returns [OF assms, of b] by (elim returnsE) clarsimp

lemma mpcWindowEnds_correct_witness:
  "\<exists>x ends. bin_reconstruct x = 9 \<and>
     mpcWindowEnds [\<lparr>sse_key = x, sse_payload = []\<rparr>] 1 (replicate 0 (zero_triple 2)) 0 = Inr (ends, 0) \<and>
     map bval ends = [True]"
proof -
  obtain x where x: "bin_ok 2 x" "bin_reconstruct x = 9" using bin_sharing_exists [of 2 9] by auto
  then show ?thesis
    using mpcWindowEnds_correct [OF bag_ok_zero_triples [of 2 0], of "[\<lparr>sse_key = x, sse_payload = []\<rparr>]" 0 0 1]
    by (auto simp: elem_ok_def)
qed

end
