(* ===== verification/Mac.thy ===== *)
theory Mac
  imports Prelude
begin

text \<open>
  Information-theoretic MACs over GF(2^128) (\<open>volePSI/MpMac.h\<close>, \<open>volePSI/MpMac.cpp\<close>).

  The field multiplication \<open>oc::block::gf128Mul\<close> is cryptoTools code: a parameter \<open>mul\<close> of the
  definitions. \<open>mul_laws\<close> is what the MAC relies on: multiplication distributes over XOR, is
  associative and commutative. A tag vector shorter than its data vector (only possible for an
  \<open>AuthShare\<close> built field by field) makes the element access \<open>OutOfBounds\<close>.
\<close>

record AuthShare =
  as_data :: "128 word list"
  as_tag :: "128 word list"

definition as_size :: "AuthShare \<Rightarrow> nat" where
  "as_size a = length (as_data a)"

definition makeAuthShare :: "128 word list \<Rightarrow> 128 word list \<Rightarrow> AuthShare result" where
  "makeAuthShare d t =
     throw_if (length d \<noteq> length t) (RuntimeError ''AuthShare: data and tag sizes differ'')
       (Inr \<lparr>as_data = d, as_tag = t\<rparr>)"

definition xorAuth :: "AuthShare \<Rightarrow> AuthShare \<Rightarrow> AuthShare result" where
  "xorAuth a b =
     throw_if (as_size a \<noteq> as_size b) (RuntimeError ''xorAuth: size mismatch'')
    (bindE (mapE (\<lambda>i. bindE (vec_at (as_tag a) i) (\<lambda>ta. bindE (vec_at (as_tag b) i) (\<lambda>tb. Inr (ta XOR tb))))
       [0..<as_size a]) (\<lambda>tags.
     Inr \<lparr>as_data = map2 (XOR) (as_data a) (as_data b), as_tag = tags\<rparr>))"

definition xorConstAuth ::
  "(128 word \<Rightarrow> 128 word \<Rightarrow> 128 word) \<Rightarrow> AuthShare \<Rightarrow> 128 word list \<Rightarrow> 128 word \<Rightarrow> AuthShare result" where
  "xorConstAuth mul a c alpha =
     throw_if (as_size a \<noteq> length c) (RuntimeError ''xorConstAuth: size mismatch'')
    (bindE (mapE (\<lambda>i. bindE (vec_at (as_tag a) i) (\<lambda>ta. Inr (ta XOR mul alpha (c ! i)))) [0..<as_size a]) (\<lambda>tags.
     Inr \<lparr>as_data = map2 (XOR) (as_data a) c, as_tag = tags\<rparr>))"

definition permuteAuth :: "AuthShare \<Rightarrow> int list \<Rightarrow> AuthShare result" where
  "permuteAuth a dest =
     throw_if (as_size a \<noteq> length dest) (RuntimeError ''permuteAuth: size mismatch'')
    (bindE (mapE (\<lambda>i. let src = dest ! i in
        throw_if (src < 0 \<or> nat src \<ge> as_size a) (RuntimeError ''permuteAuth: dest out of range'')
          (bindE (vec_at (as_tag a) (nat src)) (\<lambda>t. Inr (as_data a ! nat src, t))))
       [0..<as_size a]) (\<lambda>ps.
     Inr \<lparr>as_data = map fst ps, as_tag = map snd ps\<rparr>))"

definition tagVector :: "(128 word \<Rightarrow> 128 word \<Rightarrow> 128 word) \<Rightarrow> 128 word \<Rightarrow> 128 word list \<Rightarrow> 128 word list" where
  "tagVector mul alpha plain = map (mul alpha) plain"

fun randomAuthRows ::
  "(128 word \<Rightarrow> 128 word \<Rightarrow> 128 word) \<Rightarrow> 'g prng \<Rightarrow> 128 word \<Rightarrow> 128 word list \<Rightarrow> 'g \<Rightarrow>
   (128 word \<times> 128 word) list \<times> 'g" where
  "randomAuthRows mul G alpha [] g = ([], g)"
| "randomAuthRows mul G alpha (p # ps) g =
     (let (d1, g1) = get_block G g;
          (t1, g2) = get_block G g1;
          (rest, g3) = randomAuthRows mul G alpha ps g2
      in ((d1, t1) # rest, g3))"

definition randomAuthShare ::
  "(128 word \<Rightarrow> 128 word \<Rightarrow> 128 word) \<Rightarrow> 'g prng \<Rightarrow> 128 word list \<Rightarrow> 128 word \<Rightarrow> 'g \<Rightarrow>
   (AuthShare \<times> AuthShare) \<times> 'g" where
  "randomAuthShare mul G plain alpha g =
     (let (rows, g') = randomAuthRows mul G alpha plain g
      in ((\<lparr>as_data = map fst rows, as_tag = map snd rows\<rparr>,
           \<lparr>as_data = map2 (XOR) (map fst rows) plain,
            as_tag = map2 (\<lambda>t p. t XOR mul alpha p) (map snd rows) plain\<rparr>), g'))"

fun verify_loop ::
  "(128 word \<Rightarrow> 128 word \<Rightarrow> 128 word) \<Rightarrow> AuthShare \<Rightarrow> AuthShare \<Rightarrow> 128 word \<Rightarrow> nat list \<Rightarrow> bool result" where
  "verify_loop mul a1 a2 alpha [] = Inr True"
| "verify_loop mul a1 a2 alpha (i # is) =
     bindE (vec_at (as_tag a1) i) (\<lambda>t1.
     bindE (vec_at (as_tag a2) i) (\<lambda>t2.
     let joint_data = as_data a1 ! i XOR as_data a2 ! i;
         joint_tag = t1 XOR t2;
         expected = mul alpha joint_data
     in if joint_tag \<noteq> expected then Inr False else verify_loop mul a1 a2 alpha is))"

definition verifyAuthShares ::
  "(128 word \<Rightarrow> 128 word \<Rightarrow> 128 word) \<Rightarrow> AuthShare \<Rightarrow> AuthShare \<Rightarrow> 128 word \<Rightarrow> bool result" where
  "verifyAuthShares mul a1 a2 alpha =
     (if as_size a1 \<noteq> as_size a2 then Inr False else verify_loop mul a1 a2 alpha [0..<as_size a1])"

definition verifyAuthSharesBatched ::
  "(128 word \<Rightarrow> 128 word \<Rightarrow> 128 word) \<Rightarrow> AuthShare \<Rightarrow> AuthShare \<Rightarrow> 128 word \<Rightarrow> 128 word list \<Rightarrow> bool result" where
  "verifyAuthSharesBatched mul a1 a2 alpha challenge =
     (if as_size a1 \<noteq> as_size a2 then Inr False
      else if as_size a1 \<noteq> length challenge then Inr False
      else bindE (foldE (\<lambda>i (left_acc, right_acc).
          bindE (vec_at (as_tag a1) i) (\<lambda>t1.
          bindE (vec_at (as_tag a2) i) (\<lambda>t2.
          let joint_data = as_data a1 ! i XOR as_data a2 ! i;
              joint_tag = t1 XOR t2
          in Inr (left_acc XOR mul (challenge ! i) joint_tag, right_acc XOR mul (challenge ! i) joint_data))))
        [0..<as_size a1] (0, 0))
      (\<lambda>(left_acc, right_acc). Inr (left_acc = mul alpha right_acc)))"

subsection \<open>The tag invariant\<close>

definition mul_laws :: "(128 word \<Rightarrow> 128 word \<Rightarrow> 128 word) \<Rightarrow> bool" where
  "mul_laws mul \<longleftrightarrow> (\<forall>a b c. mul a (b XOR c) = mul a b XOR mul a c) \<and>
     (\<forall>a b c. mul (mul a b) c = mul a (mul b c)) \<and> (\<forall>a b. mul a b = mul b a)"

definition joint_data :: "AuthShare \<Rightarrow> AuthShare \<Rightarrow> 128 word list" where
  "joint_data a1 a2 = map2 (XOR) (as_data a1) (as_data a2)"

definition auth_ok ::
  "(128 word \<Rightarrow> 128 word \<Rightarrow> 128 word) \<Rightarrow> 128 word \<Rightarrow> AuthShare \<Rightarrow> AuthShare \<Rightarrow> bool" where
  "auth_ok mul alpha a1 a2 \<longleftrightarrow> as_size a1 = as_size a2 \<and>
     length (as_tag a1) = as_size a1 \<and> length (as_tag a2) = as_size a2 \<and>
     (\<forall>i<as_size a1. as_tag a1 ! i XOR as_tag a2 ! i = mul alpha (as_data a1 ! i XOR as_data a2 ! i))"

lemma mul_zero: "mul_laws mul \<Longrightarrow> mul a 0 = 0"
proof -
  assume "mul_laws mul"
  then have "mul a (0 XOR 0) = mul a 0 XOR mul a 0" unfolding mul_laws_def by blast
  then show ?thesis by simp
qed

lemma mul_xor: "mul_laws mul \<Longrightarrow> mul a (b XOR c) = mul a b XOR mul a c"
  by (simp add: mul_laws_def)

lemma mul_swap: "mul_laws mul \<Longrightarrow> mul a (mul b c) = mul b (mul a c)"
  unfolding mul_laws_def by metis

lemma xor_eq_zero: "a XOR b = 0 \<longleftrightarrow> a = b" for a :: "'a::len word"
  by (auto simp: bit_eq_iff bit_simps)

lemma xor_swap4: "(a XOR b) XOR (c XOR d) = (a XOR c) XOR (b XOR d)" for a :: "'a::len word"
  by (simp add: ac_simps)

lemma mapE_upt_Inr: "(\<And>i. i < n \<Longrightarrow> f i = Inr (g i)) \<Longrightarrow> mapE f [0..<n] = Inr (map g [0..<n])"
  using returns_mapE_upt [of n f "\<lambda>i y. y = g i"]
  by (auto simp: returns_def intro!: nth_equalityI)

lemma xorAuth_eq:
  assumes "as_size a = as_size b" "length (as_tag a) = as_size a" "length (as_tag b) = as_size b"
  shows "xorAuth a b = Inr \<lparr>as_data = map2 (XOR) (as_data a) (as_data b),
    as_tag = map2 (XOR) (as_tag a) (as_tag b)\<rparr>"
proof -
  have "mapE (\<lambda>i. bindE (vec_at (as_tag a) i) (\<lambda>ta. bindE (vec_at (as_tag b) i) (\<lambda>tb. Inr (ta XOR tb))))
      [0..<as_size a] = Inr (map (\<lambda>i. as_tag a ! i XOR as_tag b ! i) [0..<as_size a])"
    by (rule mapE_upt_Inr) (use assms in simp)
  moreover have "map (\<lambda>i. as_tag a ! i XOR as_tag b ! i) [0..<as_size a] = map2 (XOR) (as_tag a) (as_tag b)"
    using assms by (intro nth_equalityI) simp_all
  ultimately show ?thesis using assms(1) by (simp add: xorAuth_def)
qed

lemma verify_loop_iff:
  assumes "\<forall>i\<in>set is. i < length (as_tag a1) \<and> i < length (as_tag a2)"
  shows "verify_loop mul a1 a2 alpha is = Inr (\<forall>i\<in>set is.
    as_tag a1 ! i XOR as_tag a2 ! i = mul alpha (as_data a1 ! i XOR as_data a2 ! i))"
  using assms by (induction "is") (auto simp: Let_def)

lemma batched_fold:
  assumes laws: "mul_laws mul" and len: "length (as_tag a1) = n" "length (as_tag a2) = n"
  shows "returns (foldE (\<lambda>i (left_acc, right_acc).
          bindE (vec_at (as_tag a1) i) (\<lambda>t1.
          bindE (vec_at (as_tag a2) i) (\<lambda>t2.
          let jd = as_data a1 ! i XOR as_data a2 ! i; jt = t1 XOR t2
          in Inr (left_acc XOR mul (challenge ! i) jt, right_acc XOR mul (challenge ! i) jd))))
        [0..<n] (0, 0))
    (\<lambda>(l, r). l XOR mul alpha r = xor_list (map (\<lambda>i. mul (challenge ! i)
       ((as_tag a1 ! i XOR as_tag a2 ! i) XOR mul alpha (as_data a1 ! i XOR as_data a2 ! i))) [0..<n]))"
proof -
  let ?e = "\<lambda>i. mul (challenge ! i)
       ((as_tag a1 ! i XOR as_tag a2 ! i) XOR mul alpha (as_data a1 ! i XOR as_data a2 ! i))"
  have snoc: "xor_list (xs @ [x]) = xor_list xs XOR x" for xs and x :: "128 word"
    by (induction xs) (simp_all add: xor.assoc)
  let ?I = "\<lambda>m (l, r). l XOR mul alpha r = xor_list (map ?e [0..<m])"
  have "returns (foldE (\<lambda>i (left_acc, right_acc).
          bindE (vec_at (as_tag a1) i) (\<lambda>t1.
          bindE (vec_at (as_tag a2) i) (\<lambda>t2.
          let jd = as_data a1 ! i XOR as_data a2 ! i; jt = t1 XOR t2
          in Inr (left_acc XOR mul (challenge ! i) jt, right_acc XOR mul (challenge ! i) jd))))
        [0..<n] (0, 0)) (?I n)"
  proof (rule returns_foldE_upt [where I = ?I], goal_cases)
    case 1
    show ?case by (simp add: mul_zero [OF laws])
  next
    case (2 i st)
    obtain l r where st: "st = (l, r)" by (cases st)
    let ?t = "as_tag a1 ! i XOR as_tag a2 ! i" and ?d = "as_data a1 ! i XOR as_data a2 ! i"
    have e: "?e i = mul (challenge ! i) ?t XOR mul alpha (mul (challenge ! i) ?d)"
      using mul_xor [OF laws, of "challenge ! i" ?t "mul alpha ?d"] mul_swap [OF laws, of "challenge ! i" alpha ?d]
      by (simp only:)
    have "(l XOR mul (challenge ! i) ?t) XOR mul alpha (r XOR mul (challenge ! i) ?d) =
        xor_list (map ?e [0..<i]) XOR ?e i"
      using 2(2) unfolding e st split
      by (simp only: mul_xor [OF laws, of alpha r] xor_swap4 [of l])
    then show ?case using 2(1) len by (simp only: st split) (simp add: snoc Let_def)
  qed
  then show ?thesis by simp
qed

lemma length_randomAuthRows: "length (fst (randomAuthRows mul G alpha ps g)) = length ps"
  by (induction ps arbitrary: g) (simp_all add: Let_def split_beta)

lemma randomAuthShare_ok:
  "\<exists>a1 a2 g'. randomAuthShare mul G plain alpha g = ((a1, a2), g') \<and> auth_ok mul alpha a1 a2 \<and>
     joint_data a1 a2 = plain"
proof -
  obtain rows g' where r: "randomAuthRows mul G alpha plain g = (rows, g')" by (metis surj_pair)
  then have len: "length rows = length plain" using length_randomAuthRows [of mul G alpha plain g] by simp
  have x: "a XOR (a XOR b) = b" for a b :: "128 word" by (simp flip: xor.assoc)
  show ?thesis
    using len by (auto simp: randomAuthShare_def r auth_ok_def joint_data_def as_size_def x intro!: nth_equalityI)
qed

lemma xorAuth_ok:
  assumes laws: "mul_laws mul" and a: "auth_ok mul alpha a1 a2" and b: "auth_ok mul alpha b1 b2"
    and size: "as_size a1 = as_size b1"
  shows "\<exists>c1 c2. xorAuth a1 b1 = Inr c1 \<and> xorAuth a2 b2 = Inr c2 \<and> auth_ok mul alpha c1 c2 \<and>
    joint_data c1 c2 = map2 (XOR) (joint_data a1 a2) (joint_data b1 b2)"
proof -
  have len: "as_size a2 = as_size b2" "length (as_tag a1) = as_size a1" "length (as_tag a2) = as_size a2"
    "length (as_tag b1) = as_size b1" "length (as_tag b2) = as_size b2" "as_size a1 = as_size a2"
    using a b size by (simp_all add: auth_ok_def)
  have eqs: "as_tag a1 ! i XOR as_tag a2 ! i = mul alpha (as_data a1 ! i XOR as_data a2 ! i)"
    "as_tag b1 ! i XOR as_tag b2 ! i = mul alpha (as_data b1 ! i XOR as_data b2 ! i)" if "i < as_size a1" for i
    using a b size that by (simp_all add: auth_ok_def)
  let ?c1 = "\<lparr>as_data = map2 (XOR) (as_data a1) (as_data b1), as_tag = map2 (XOR) (as_tag a1) (as_tag b1)\<rparr>"
  let ?c2 = "\<lparr>as_data = map2 (XOR) (as_data a2) (as_data b2), as_tag = map2 (XOR) (as_tag a2) (as_tag b2)\<rparr>"
  have "xorAuth a1 b1 = Inr ?c1" "xorAuth a2 b2 = Inr ?c2" using len size by (simp_all add: xorAuth_eq)
  moreover have "auth_ok mul alpha ?c1 ?c2"
  proof -
    have "(as_tag a1 ! i XOR as_tag b1 ! i) XOR (as_tag a2 ! i XOR as_tag b2 ! i) =
        mul alpha ((as_data a1 ! i XOR as_data b1 ! i) XOR (as_data a2 ! i XOR as_data b2 ! i))"
      if "i < as_size a1" for i
      unfolding xor_swap4 [of "as_tag a1 ! i"] xor_swap4 [of "as_data a1 ! i"] eqs [OF that] mul_xor [OF laws] ..
    then show ?thesis using len size by (auto simp: auth_ok_def as_size_def)
  qed
  moreover have "joint_data ?c1 ?c2 = map2 (XOR) (joint_data a1 a2) (joint_data b1 b2)"
    using len size by (intro nth_equalityI) (simp_all add: joint_data_def as_size_def xor_swap4)
  ultimately show ?thesis by blast
qed

lemma permuteAuth_eq:
  assumes "length dest = as_size a" "length (as_tag a) = as_size a" "\<forall>d\<in>set dest. 0 \<le> d \<and> nat d < as_size a"
  shows "permuteAuth a dest = Inr \<lparr>as_data = map (\<lambda>d. as_data a ! nat d) dest, as_tag = map (\<lambda>d. as_tag a ! nat d) dest\<rparr>"
proof -
  have "mapE (\<lambda>i. let src = dest ! i in
        throw_if (src < 0 \<or> nat src \<ge> as_size a) (RuntimeError ''permuteAuth: dest out of range'')
          (bindE (vec_at (as_tag a) (nat src)) (\<lambda>t. Inr (as_data a ! nat src, t)))) [0..<as_size a] =
      Inr (map (\<lambda>i. (as_data a ! nat (dest ! i), as_tag a ! nat (dest ! i))) [0..<as_size a])"
  proof (rule mapE_upt_Inr)
    fix i assume "i < as_size a"
    then have "dest ! i \<in> set dest" using assms(1) by simp
    with assms(3) have "0 \<le> dest ! i" "nat (dest ! i) < as_size a" by simp_all
    then show "(let src = dest ! i in
        throw_if (src < 0 \<or> nat src \<ge> as_size a) (RuntimeError ''permuteAuth: dest out of range'')
          (bindE (vec_at (as_tag a) (nat src)) (\<lambda>t. Inr (as_data a ! nat src, t)))) =
        Inr (as_data a ! nat (dest ! i), as_tag a ! nat (dest ! i))"
      using assms(2) by (simp add: Let_def)
  qed
  moreover have "map (\<lambda>i. as_data a ! nat (dest ! i)) [0..<as_size a] = map (\<lambda>d. as_data a ! nat d) dest"
    "map (\<lambda>i. as_tag a ! nat (dest ! i)) [0..<as_size a] = map (\<lambda>d. as_tag a ! nat d) dest"
    using assms(1) by (auto intro: nth_equalityI)
  ultimately show ?thesis using assms(1) by (simp add: permuteAuth_def comp_def)
qed

lemma verifyAuthShares_iff:
  assumes "length (as_tag a1) = as_size a1" "length (as_tag a2) = as_size a2"
  shows "verifyAuthShares mul a1 a2 alpha = Inr (auth_ok mul alpha a1 a2)"
  using assms by (auto simp: verifyAuthShares_def auth_ok_def verify_loop_iff)

subsection \<open>Properties\<close>

text \<open>Fresh sharings carry valid tags and open to the plaintext; XOR of two valid pairs is computed
  locally by both parties, opens to the XOR of the plaintexts and passes the check.\<close>

theorem mac_homomorphic:
  assumes "mul_laws mul" "length p = length q"
  shows "\<exists>a1 a2 g' b1 b2 g'' c1 c2. randomAuthShare mul G p alpha g = ((a1, a2), g') \<and>
    randomAuthShare mul G q alpha g' = ((b1, b2), g'') \<and>
    xorAuth a1 b1 = Inr c1 \<and> xorAuth a2 b2 = Inr c2 \<and>
    joint_data c1 c2 = map2 (XOR) p q \<and> verifyAuthShares mul c1 c2 alpha = Inr True"
proof -
  obtain a1 a2 g' where a: "randomAuthShare mul G p alpha g = ((a1, a2), g')" "auth_ok mul alpha a1 a2"
      "joint_data a1 a2 = p" using randomAuthShare_ok [of mul G p alpha g] by blast
  obtain b1 b2 g'' where b: "randomAuthShare mul G q alpha g' = ((b1, b2), g'')" "auth_ok mul alpha b1 b2"
      "joint_data b1 b2 = q" using randomAuthShare_ok [of mul G q alpha g'] by blast
  have "as_size a1 = length p" "as_size b1 = length q"
    using a(2) b(2) by (simp_all add: a(3) [symmetric] b(3) [symmetric] joint_data_def auth_ok_def as_size_def)
  then have "as_size a1 = as_size b1" using assms(2) by simp
  from xorAuth_ok [OF assms(1) a(2) b(2) this] obtain c1 c2 where
    c: "xorAuth a1 b1 = Inr c1" "xorAuth a2 b2 = Inr c2" "auth_ok mul alpha c1 c2" "joint_data c1 c2 = map2 (XOR) p q"
    using a(3) b(3) by blast
  have "verifyAuthShares mul c1 c2 alpha = Inr True"
    using verifyAuthShares_iff [of c1 c2 mul alpha] c(3) by (simp add: auth_ok_def)
  with a b c show ?thesis by blast
qed

lemma mul_laws_and: "mul_laws (AND)"
  by (auto simp: mul_laws_def bit_eq_iff bit_simps)

lemma mac_homomorphic_witness:
  "\<exists>a1 a2 g' b1 b2 g'' c1 c2. randomAuthShare (AND) counter_prng [5, 6] 7 0 = ((a1, a2), g') \<and>
    randomAuthShare (AND) counter_prng [1, 1] 7 g' = ((b1, b2), g'') \<and>
    xorAuth a1 b1 = Inr c1 \<and> xorAuth a2 b2 = Inr c2 \<and>
    joint_data c1 c2 = [4, 7] \<and> verifyAuthShares (AND) c1 c2 7 = Inr True"
  using mac_homomorphic [OF mul_laws_and, of "[5, 6]" "[1, 1]" counter_prng 7 0] by simp

text \<open>On sharings with a tag per data word, the per-row check returns, without an exception, whether
  the sizes agree and every joint tag is the key times the joint data word.\<close>

theorem verifyAuthShares_decides:
  assumes "length (as_tag a1) = as_size a1" "length (as_tag a2) = as_size a2"
  shows "verifyAuthShares mul a1 a2 alpha = Inr (as_size a1 = as_size a2 \<and>
    (\<forall>i<as_size a1. as_tag a1 ! i XOR as_tag a2 ! i = mul alpha (as_data a1 ! i XOR as_data a2 ! i)))"
  using assms by (simp add: verifyAuthShares_iff auth_ok_def)

lemma verifyAuthShares_decides_witness:
  "verifyAuthShares (AND) \<lparr>as_data = [5], as_tag = [5]\<rparr> \<lparr>as_data = [1], as_tag = [0]\<rparr> 7 = Inr False"
  using verifyAuthShares_decides [of "\<lparr>as_data = [5], as_tag = [5]\<rparr>" "\<lparr>as_data = [1], as_tag = [0]\<rparr>" "(AND)" 7]
  by (simp add: as_size_def)

text \<open>The batched check accepts exactly when the challenge-weighted sum of the per-row tag errors is
  zero.\<close>

theorem verifyAuthSharesBatched_decides:
  assumes "mul_laws mul" "as_size a1 = as_size a2" "length challenge = as_size a1"
    and "length (as_tag a1) = as_size a1" "length (as_tag a2) = as_size a2"
  shows "verifyAuthSharesBatched mul a1 a2 alpha challenge = Inr (xor_list (map (\<lambda>i. mul (challenge ! i)
      ((as_tag a1 ! i XOR as_tag a2 ! i) XOR mul alpha (as_data a1 ! i XOR as_data a2 ! i))) [0..<as_size a1]) = 0)"
proof -
  have tags: "length (as_tag a1) = as_size a1" "length (as_tag a2) = as_size a1" using assms by simp_all
  let ?E = "xor_list (map (\<lambda>i. mul (challenge ! i)
      ((as_tag a1 ! i XOR as_tag a2 ! i) XOR mul alpha (as_data a1 ! i XOR as_data a2 ! i))) [0..<as_size a1])"
  from batched_fold [OF assms(1) tags, of challenge alpha] obtain l r where
    lr: "foldE (\<lambda>i (left_acc, right_acc). bindE (vec_at (as_tag a1) i) (\<lambda>t1. bindE (vec_at (as_tag a2) i) (\<lambda>t2.
        let jd = as_data a1 ! i XOR as_data a2 ! i; jt = t1 XOR t2
        in Inr (left_acc XOR mul (challenge ! i) jt, right_acc XOR mul (challenge ! i) jd)))) [0..<as_size a1] (0, 0)
      = Inr (l, r)" "l XOR mul alpha r = ?E"
    by (auto simp: returns_def)
  have "l = mul alpha r \<longleftrightarrow> ?E = 0" unfolding lr(2) [symmetric] by (simp only: xor_eq_zero)
  then show ?thesis using assms(2,3) lr(1) by (simp add: verifyAuthSharesBatched_def)
qed

lemma verifyAuthSharesBatched_decides_witness:
  "verifyAuthSharesBatched (AND) \<lparr>as_data = [5], as_tag = [5]\<rparr> \<lparr>as_data = [1], as_tag = [0]\<rparr> 7 [1] = Inr False"
  using verifyAuthSharesBatched_decides [OF mul_laws_and, of "\<lparr>as_data = [5], as_tag = [5]\<rparr>"
      "\<lparr>as_data = [1], as_tag = [0]\<rparr>" "[1]" 7]
  by (simp add: as_size_def)

end
