(* ===== verification/Cgp_Shuffle.thy ===== *)
theory Cgp_Shuffle
  imports Mac "HOL-Library.Multiset"
begin

text \<open>
  The two-party secret-shared shuffle of Chase, Ghosh and Poburinnaya
  (\<open>volePSI/MpCgpShuffle.h\<close>, \<open>volePSI/MpCgpShuffle.cpp\<close>): dealer correlation with a
  Fisher-Yates permutation, both online steps, the cascade round with its malicious check and
  the final reveal. Rows are lists of 128-bit blocks; the 32-bit sizes are naturals, the
  permutation keeps its signed entries.
\<close>

type_synonym Row = "128 word list"
type_synonym RowVec = "Row list"

record CgpCorrelationA =
  ca_a :: RowVec
  ca_alpha :: RowVec

record CgpCorrelationB =
  cb_pi :: "int list"
  cb_b :: RowVec

subsection \<open>Row operations\<close>

definition applyPiRows :: "RowVec \<Rightarrow> int list \<Rightarrow> RowVec result" where
  "applyPiRows rv pi =
     throw_if (length rv \<noteq> length pi) (RuntimeError ''applyPiRows: size mismatch'')
       (mapE (\<lambda>i. let s = pi ! i in
          throw_if (s < 0 \<or> nat s \<ge> length rv) (RuntimeError ''applyPiRows: pi out of range'')
            (Inr (rv ! nat s))) [0..<length rv])"

definition xorRows :: "RowVec \<Rightarrow> RowVec \<Rightarrow> RowVec result" where
  "xorRows a b =
     throw_if (length a \<noteq> length b) (RuntimeError ''xorRows: row count mismatch'')
       (mapE (\<lambda>i. throw_if (length (a ! i) \<noteq> length (b ! i)) (RuntimeError ''xorRows: row width mismatch'')
            (Inr (map2 (XOR) (a ! i) (b ! i)))) [0..<length a])"

definition makeRowVec :: "nat \<Rightarrow> nat \<Rightarrow> RowVec" where
  "makeRowVec n W = replicate n (replicate W 0)"

definition requireWidth :: "RowVec \<Rightarrow> nat \<Rightarrow> string \<Rightarrow> unit result" where
  "requireWidth rv W who =
     throw_if (\<exists>r\<in>set rv. length r \<noteq> W) (RuntimeError (who @ '': row width mismatch at idx '')) (Inr ())"

definition widthOf :: "RowVec \<Rightarrow> string \<Rightarrow> nat result" where
  "widthOf rv who =
     throw_if (rv = []) (RuntimeError (who @ '': empty RowVec'')) (Inr (length (rv ! 0)))"

subsection \<open>The dealer\<close>

text \<open>The two loops draw the blocks of \<open>a\<close> and \<open>b\<close> alternately, row by row.\<close>

fun drawRowPair :: "'g prng \<Rightarrow> nat \<Rightarrow> 'g \<Rightarrow> (Row \<times> Row) \<times> 'g" where
  "drawRowPair G 0 g = (([], []), g)"
| "drawRowPair G (Suc W) g =
     (let (x, g1) = get_block G g; (y, g2) = get_block G g1;
          ((xs, ys), g3) = drawRowPair G W g2
      in ((x # xs, y # ys), g3))"

fun drawRows :: "'g prng \<Rightarrow> nat \<Rightarrow> nat \<Rightarrow> 'g \<Rightarrow> (RowVec \<times> RowVec) \<times> 'g" where
  "drawRows G W 0 g = (([], []), g)"
| "drawRows G W (Suc n) g =
     (let ((r, s), g1) = drawRowPair G W g; ((rs, ss), g2) = drawRows G W n g1
      in ((r # rs, s # ss), g2))"

definition swap_at :: "'a list \<Rightarrow> nat \<Rightarrow> nat \<Rightarrow> 'a list" where
  "swap_at xs i j = xs[i := xs ! j, j := xs ! i]"

text \<open>The loop \<open>for (i = n; i > 1; --i)\<close>.\<close>

fun fisherYates :: "'g prng \<Rightarrow> nat \<Rightarrow> int list \<Rightarrow> 'g \<Rightarrow> int list \<times> 'g" where
  "fisherYates G 0 pi g = (pi, g)"
| "fisherYates G (Suc i) pi g =
     (if Suc i > 1
      then let (r, g1) = get_u32 G g; j = unat r mod Suc i
           in fisherYates G i (swap_at pi i j) g1
      else (pi, g))"

definition cgpDealerGenerate ::
  "'g prng \<Rightarrow> nat \<Rightarrow> nat \<Rightarrow> 'g \<Rightarrow> ((CgpCorrelationA \<times> CgpCorrelationB) \<times> 'g) result" where
  "cgpDealerGenerate G n W g =
     throw_if (W = 0) (RuntimeError ''cgpDealerGenerate: W must be >= 1'')
       (let ((a, b), g1) = drawRows G W n g;
            (pi, g2) = fisherYates G n (map int [0..<n]) g1
        in bindE (applyPiRows a pi) (\<lambda>pi_a.
           let alpha = map (\<lambda>i. map (\<lambda>j. pi_a ! i ! j XOR b ! i ! j) [0..<W]) [0..<n]
           in Inr ((\<lparr>ca_a = a, ca_alpha = alpha\<rparr>, \<lparr>cb_pi = pi, cb_b = b\<rparr>), g2)))"

subsection \<open>The online phase\<close>

definition cgpOnlineA :: "RowVec \<Rightarrow> CgpCorrelationA \<Rightarrow> (RowVec \<times> RowVec) result" where
  "cgpOnlineA x_A corrA =
     (let n = length x_A in
      throw_if (length (ca_a corrA) \<noteq> n \<or> length (ca_alpha corrA) \<noteq> n)
        (RuntimeError ''cgpOnlineA: correlation size mismatch'')
     (if n = 0 then Inr ([], [])
      else let W = length (x_A ! 0) in
        bindE (requireWidth x_A W ''cgpOnlineA(x_A)'') (\<lambda>_.
        bindE (requireWidth (ca_a corrA) W ''cgpOnlineA(corrA.a)'') (\<lambda>_.
        bindE (requireWidth (ca_alpha corrA) W ''cgpOnlineA(corrA.alpha)'') (\<lambda>_.
        bindE (xorRows x_A (ca_a corrA)) (\<lambda>m. Inr (m, ca_alpha corrA)))))))"

definition cgpOnlineB :: "RowVec \<Rightarrow> CgpCorrelationB \<Rightarrow> RowVec \<Rightarrow> RowVec result" where
  "cgpOnlineB x_B corrB m =
     (let n = length x_B in
      throw_if (length (cb_pi corrB) \<noteq> n \<or> length (cb_b corrB) \<noteq> n)
        (RuntimeError ''cgpOnlineB: correlation size mismatch'')
     (throw_if (length m \<noteq> n) (RuntimeError ''cgpOnlineB: message size mismatch'')
     (if n = 0 then Inr []
      else let W = length (x_B ! 0) in
        bindE (requireWidth x_B W ''cgpOnlineB(x_B)'') (\<lambda>_.
        bindE (requireWidth (cb_b corrB) W ''cgpOnlineB(corrB.b)'') (\<lambda>_.
        bindE (requireWidth m W ''cgpOnlineB(messageFromA)'') (\<lambda>_.
        bindE (xorRows m x_B) (\<lambda>mb.
        bindE (applyPiRows mb (cb_pi corrB)) (\<lambda>pi_mb.
        xorRows pi_mb (cb_b corrB)))))))))"

definition cgpRunInMemory ::
  "RowVec \<Rightarrow> RowVec \<Rightarrow> CgpCorrelationA \<Rightarrow> CgpCorrelationB \<Rightarrow> (RowVec \<times> RowVec) result" where
  "cgpRunInMemory x_A x_B corrA corrB =
     bindE (cgpOnlineA x_A corrA) (\<lambda>(m, y_A).
     bindE (cgpOnlineB x_B corrB m) (\<lambda>y_B. Inr (y_A, y_B)))"

subsection \<open>The cascade\<close>

record CascadeStateCgp =
  cs_spShare :: RowVec
  cs_peerShare :: RowVec

datatype MaliciousMode = SemiHonest | Malicious

definition cs_empty :: CascadeStateCgp where
  "cs_empty = \<lparr>cs_spShare = [], cs_peerShare = []\<rparr>"

text \<open>
  The result is the returned flag and the new value of \<open>out\<close>. The malicious check reads rows
  whose widths the online steps above it have already checked.
\<close>

definition cgpCascadeRound ::
  "CascadeStateCgp \<Rightarrow> CgpCorrelationA \<Rightarrow> CgpCorrelationB \<Rightarrow> MaliciousMode \<Rightarrow> (bool \<times> CascadeStateCgp) result" where
  "cgpCascadeRound incoming corrA corrB mode =
     (let n = length (cs_spShare incoming) in
      if length (cs_peerShare incoming) \<noteq> n then Inr (False, cs_empty)
      else if length (ca_a corrA) \<noteq> n \<or> length (ca_alpha corrA) \<noteq> n then Inr (False, cs_empty)
      else if length (cb_pi corrB) \<noteq> n \<or> length (cb_b corrB) \<noteq> n then Inr (False, cs_empty)
      else
        bindE (cgpOnlineA (cs_spShare incoming) corrA) (\<lambda>(m, sp).
        bindE (cgpOnlineB (cs_peerShare incoming) corrB m) (\<lambda>peer.
        let out = \<lparr>cs_spShare = sp, cs_peerShare = peer\<rparr> in
        if mode = Malicious
        then bindE (applyPiRows (ca_a corrA) (cb_pi corrB)) (\<lambda>pi_a.
             bindE (if pi_a = [] then Inr 0 else widthOf pi_a ''malicious check'') (\<lambda>W.
             if list_all (\<lambda>i. list_all (\<lambda>j. pi_a ! i ! j XOR cb_b corrB ! i ! j = ca_alpha corrA ! i ! j)
                  [0..<W]) [0..<n]
             then Inr (True, out) else Inr (False, cs_empty)))
        else Inr (True, out))))"

definition cgpFinalReveal :: "CascadeStateCgp \<Rightarrow> RowVec result" where
  "cgpFinalReveal state = xorRows (cs_spShare state) (cs_peerShare state)"

subsection \<open>Row algebra\<close>

definition rows_ok :: "nat \<Rightarrow> nat \<Rightarrow> RowVec \<Rightarrow> bool" where
  "rows_ok n W rv \<longleftrightarrow> length rv = n \<and> (\<forall>i<n. length (rv ! i) = W)"

definition xor_rows :: "RowVec \<Rightarrow> RowVec \<Rightarrow> RowVec" where
  "xor_rows a b = map2 (map2 (XOR)) a b"

definition permute :: "int list \<Rightarrow> 'a list \<Rightarrow> 'a list" where
  "permute pi xs = map (\<lambda>s. xs ! nat s) pi"

definition perm_ok :: "nat \<Rightarrow> int list \<Rightarrow> bool" where
  "perm_ok n pi \<longleftrightarrow> length pi = n \<and> (\<forall>s\<in>set pi. 0 \<le> s \<and> nat s < n)"

lemma rows_ok_xor [simp]: "rows_ok n W a \<Longrightarrow> rows_ok n W b \<Longrightarrow> rows_ok n W (xor_rows a b)"
  by (simp add: rows_ok_def xor_rows_def)

lemma rows_ok_permute [simp]: "rows_ok n W a \<Longrightarrow> perm_ok n pi \<Longrightarrow> rows_ok n W (permute pi a)"
  by (simp add: rows_ok_def permute_def perm_ok_def)

lemma xorRows_eq: "rows_ok n W a \<Longrightarrow> rows_ok n W b \<Longrightarrow> xorRows a b = Inr (xor_rows a b)"
proof -
  assume ok: "rows_ok n W a" "rows_ok n W b"
  have "mapE (\<lambda>i. throw_if (length (a ! i) \<noteq> length (b ! i)) (RuntimeError ''xorRows: row width mismatch'')
      (Inr (map2 (XOR) (a ! i) (b ! i)))) [0..<length a] = Inr (map (\<lambda>i. map2 (XOR) (a ! i) (b ! i)) [0..<length a])"
    by (rule mapE_upt_Inr) (use ok in \<open>simp add: rows_ok_def\<close>)
  moreover have "map (\<lambda>i. map2 (XOR) (a ! i) (b ! i)) [0..<length a] = xor_rows a b"
    using ok by (intro nth_equalityI) (simp_all add: rows_ok_def xor_rows_def)
  ultimately show ?thesis using ok by (simp add: xorRows_def rows_ok_def)
qed

lemma applyPiRows_eq: "length a = n \<Longrightarrow> perm_ok n pi \<Longrightarrow> applyPiRows a pi = Inr (permute pi a)"
proof -
  assume ok: "length a = n" "perm_ok n pi"
  have "mapE (\<lambda>i. let s = pi ! i in
          throw_if (s < 0 \<or> nat s \<ge> length a) (RuntimeError ''applyPiRows: pi out of range'')
            (Inr (a ! nat s))) [0..<length a] = Inr (map (\<lambda>i. a ! nat (pi ! i)) [0..<length a])"
  proof (rule mapE_upt_Inr)
    fix i assume "i < length a"
    then have "pi ! i \<in> set pi" using ok by (simp add: perm_ok_def)
    then have "0 \<le> pi ! i" "nat (pi ! i) < n" using ok(2) by (simp_all add: perm_ok_def)
    then show "(let s = pi ! i in
          throw_if (s < 0 \<or> nat s \<ge> length a) (RuntimeError ''applyPiRows: pi out of range'')
            (Inr (a ! nat s))) = Inr (a ! nat (pi ! i))" using ok(1) by (simp add: Let_def)
  qed
  moreover have "map (\<lambda>i. a ! nat (pi ! i)) [0..<length a] = permute pi a"
    using ok by (intro nth_equalityI) (simp_all add: permute_def perm_ok_def)
  ultimately show ?thesis using ok by (simp add: applyPiRows_def perm_ok_def)
qed

lemma requireWidth_ok: "rows_ok n W rv \<Longrightarrow> requireWidth rv W who = Inr ()"
proof -
  assume "rows_ok n W rv"
  then have "\<not> (\<exists>r\<in>set rv. length r \<noteq> W)" by (auto simp: rows_ok_def in_set_conv_nth)
  then show ?thesis by (simp add: requireWidth_def)
qed

text \<open>The identity behind the protocol: \<open>\<alpha> = \<pi>(a) \<oplus> b\<close> cancels the masks.\<close>

lemma shuffle_identity:
  assumes "rows_ok n W xa" "rows_ok n W xb" "rows_ok n W a" "rows_ok n W b" "perm_ok n pi"
  shows "xor_rows (xor_rows (permute pi a) b) (xor_rows (permute pi (xor_rows (xor_rows xa a) xb)) b) =
    permute pi (xor_rows xa xb)"
proof -
  have cancel: "(p XOR q) XOR (((u XOR p) XOR v) XOR q) = u XOR v" for p q u v :: "128 word"
    by (auto simp: bit_eq_iff bit_simps)
  show ?thesis
    using assms
    by (intro nth_equalityI) (auto simp: rows_ok_def perm_ok_def xor_rows_def permute_def cancel intro!: nth_equalityI)
qed

definition corr_ok :: "nat \<Rightarrow> nat \<Rightarrow> CgpCorrelationA \<Rightarrow> CgpCorrelationB \<Rightarrow> bool" where
  "corr_ok n W ca cb \<longleftrightarrow> rows_ok n W (ca_a ca) \<and> rows_ok n W (cb_b cb) \<and> perm_ok n (cb_pi cb) \<and>
     ca_alpha ca = xor_rows (permute (cb_pi cb) (ca_a ca)) (cb_b cb)"

lemma cgpOnlineA_eq:
  assumes "rows_ok n W x" "rows_ok n W (ca_a c)" "rows_ok n W (ca_alpha c)"
  shows "cgpOnlineA x c = Inr (xor_rows x (ca_a c), ca_alpha c)"
proof (cases "n = 0")
  case True
  then show ?thesis using assms by (simp add: cgpOnlineA_def rows_ok_def xor_rows_def)
next
  case False
  then have "length (x ! 0) = W" "length x = n" "length (ca_a c) = n" "length (ca_alpha c) = n"
    using assms by (simp_all add: rows_ok_def)
  then show ?thesis
    using False requireWidth_ok [OF assms(1)] requireWidth_ok [OF assms(2)] requireWidth_ok [OF assms(3)]
      xorRows_eq [OF assms(1,2)]
    by (simp add: cgpOnlineA_def Let_def)
qed

lemma cgpOnlineB_eq:
  assumes "rows_ok n W x" "rows_ok n W (cb_b c)" "perm_ok n (cb_pi c)" "rows_ok n W m"
  shows "cgpOnlineB x c m = Inr (xor_rows (permute (cb_pi c) (xor_rows m x)) (cb_b c))"
proof (cases "n = 0")
  case True
  then show ?thesis using assms by (simp add: cgpOnlineB_def rows_ok_def xor_rows_def perm_ok_def permute_def)
next
  case False
  then have len: "length (x ! 0) = W" "length x = n" "length (cb_b c) = n" "length m = n" "length (cb_pi c) = n"
    using assms by (simp_all add: rows_ok_def perm_ok_def)
  have ok: "rows_ok n W (xor_rows m x)" using assms by simp
  then have "applyPiRows (xor_rows m x) (cb_pi c) = Inr (permute (cb_pi c) (xor_rows m x))"
    using assms(3) by (intro applyPiRows_eq) (simp_all add: rows_ok_def)
  moreover have "rows_ok n W (permute (cb_pi c) (xor_rows m x))" using ok assms(3) by simp
  ultimately show ?thesis
    using False len requireWidth_ok [OF assms(1)] requireWidth_ok [OF assms(2)] requireWidth_ok [OF assms(4)]
      xorRows_eq [OF assms(4,1)] xorRows_eq [OF _ assms(2)]
    by (simp add: cgpOnlineB_def Let_def)
qed

lemma cgpRunInMemory_returns:
  assumes "rows_ok n W xa" "rows_ok n W xb" "corr_ok n W ca cb"
  shows "\<exists>ya yb. cgpRunInMemory xa xb ca cb = Inr (ya, yb) \<and> rows_ok n W ya \<and> rows_ok n W yb \<and>
    xor_rows ya yb = permute (cb_pi cb) (xor_rows xa xb)"
proof -
  have c: "rows_ok n W (ca_a ca)" "rows_ok n W (cb_b cb)" "perm_ok n (cb_pi cb)"
      "ca_alpha ca = xor_rows (permute (cb_pi cb) (ca_a ca)) (cb_b cb)"
    using assms(3) by (simp_all add: corr_ok_def)
  have alpha: "rows_ok n W (ca_alpha ca)" using c by simp
  have m: "rows_ok n W (xor_rows xa (ca_a ca))" using assms(1) c(1) by simp
  show ?thesis
    using cgpOnlineA_eq [OF assms(1) c(1) alpha] cgpOnlineB_eq [OF assms(2) c(2,3) m] alpha m assms(2) c
      shuffle_identity [OF assms(1,2) c(1-3)]
    by (simp add: cgpRunInMemory_def)
qed

subsection \<open>The dealer's correlation\<close>

lemma drawRowPair_length:
  "length (fst (fst (drawRowPair G W g))) = W \<and> length (snd (fst (drawRowPair G W g))) = W"
  by (induction W arbitrary: g) (simp_all add: Let_def split_beta)

lemma drawRows_ok: "drawRows G W n g = ((a, b), g') \<Longrightarrow> rows_ok n W a \<and> rows_ok n W b"
proof (induction n arbitrary: g a b g')
  case 0
  then show ?case by (simp add: rows_ok_def)
next
  case (Suc n)
  obtain r s g1 where rs: "drawRowPair G W g = ((r, s), g1)" by (metis prod.collapse)
  obtain rest ss g2 where rest: "drawRows G W n g1 = ((rest, ss), g2)" by (metis prod.collapse)
  have "rows_ok n W rest" "rows_ok n W ss" using Suc.IH [OF rest] by simp_all
  moreover have "length r = W" "length s = W" using drawRowPair_length [of G W g] by (simp_all add: rs)
  moreover have "a = r # rest" "b = s # ss" using Suc.prems rs rest by (simp_all add: Let_def)
  ultimately show ?case by (auto simp: rows_ok_def nth_Cons split: nat.splits)
qed

lemma mset_swap_at: "i < length xs \<Longrightarrow> j < length xs \<Longrightarrow> mset (swap_at xs i j) = mset xs"
  unfolding swap_at_def by (rule mset_swap)

lemma fisherYates_perm: "n \<le> length pi \<Longrightarrow> mset (fst (fisherYates G n pi g)) = mset pi"
proof (induction n arbitrary: pi g)
  case (Suc n)
  obtain r g1 where r: "get_u32 G g = (r, g1)" by force
  have m: "unat r mod Suc n < length pi" using Suc.prems mod_less_divisor [of "Suc n" "unat r"] by linarith
  have "n < length pi" using Suc.prems by simp
  from mset_swap_at [OF this m] have "mset (swap_at pi n (unat r mod Suc n)) = mset pi" .
  moreover from this have "length (swap_at pi n (unat r mod Suc n)) = length pi" by (rule mset_eq_length)
  ultimately show ?case using Suc by (simp add: r Let_def)
qed simp

definition is_perm :: "nat \<Rightarrow> int list \<Rightarrow> bool" where
  "is_perm n pi \<longleftrightarrow> mset pi = mset (map int [0..<n])"

lemma is_perm_ok: "is_perm n pi \<Longrightarrow> perm_ok n pi"
proof -
  assume p: "is_perm n pi"
  then have "length pi = n" unfolding is_perm_def by (metis length_map length_upt minus_nat.diff_0 size_mset)
  moreover have "set pi = int ` {0..<n}" using mset_eq_setD [OF p [unfolded is_perm_def]] by simp
  ultimately show ?thesis by (auto simp: perm_ok_def)
qed

text \<open>A permuted list holds the same elements.\<close>

lemma mset_permute: "is_perm (length xs) pi \<Longrightarrow> mset (permute pi xs) = mset xs"
proof -
  assume p: "is_perm (length xs) pi"
  have "mset (permute pi xs) = image_mset (\<lambda>s. xs ! nat s) (mset pi)" by (simp add: permute_def)
  also have "\<dots> = mset (map (\<lambda>s. xs ! nat s) (map int [0..<length xs]))"
    using p by (simp only: is_perm_def mset_map)
  also have "map (\<lambda>s. xs ! nat s) (map int [0..<length xs]) = xs"
    by (rule nth_equalityI) simp_all
  finally show ?thesis .
qed

lemma cgpDealerGenerate_returns:
  assumes "0 < W"
  shows "\<exists>ca cb g'. cgpDealerGenerate G n W g = Inr ((ca, cb), g') \<and> corr_ok n W ca cb \<and> is_perm n (cb_pi cb)"
proof -
  obtain a b g1 where ab: "drawRows G W n g = ((a, b), g1)" by (metis prod.collapse)
  obtain pi g2 where pi: "fisherYates G n (map int [0..<n]) g1 = (pi, g2)" by force
  have rows: "rows_ok n W a" "rows_ok n W b" using drawRows_ok [OF ab] by simp_all
  have perm: "is_perm n pi"
    using fisherYates_perm [of n "map int [0..<n]" G g1] by (simp add: pi is_perm_def)
  then have p: "perm_ok n pi" by (rule is_perm_ok)
  have app: "applyPiRows a pi = Inr (permute pi a)" using rows(1) p by (intro applyPiRows_eq) (simp_all add: rows_ok_def)
  have "rows_ok n W (permute pi a)" using rows(1) p by simp
  then have "map (\<lambda>i. map (\<lambda>j. permute pi a ! i ! j XOR b ! i ! j) [0..<W]) [0..<n] = xor_rows (permute pi a) b"
    using rows(2) by (intro nth_equalityI) (auto simp: rows_ok_def xor_rows_def intro!: nth_equalityI)
  then show ?thesis
    using assms ab pi app rows p perm by (simp add: cgpDealerGenerate_def corr_ok_def)
qed

subsection \<open>The cascade round\<close>

lemma alpha_check:
  assumes "rows_ok n W c" "rows_ok n W b" "rows_ok n W al" "n = 0 \<or> V = W"
  shows "list_all (\<lambda>i. list_all (\<lambda>j. c ! i ! j XOR b ! i ! j = al ! i ! j) [0..<V]) [0..<n] \<longleftrightarrow>
    al = xor_rows c b"
proof -
  have eq: "al = xor_rows c b \<longleftrightarrow> (\<forall>i<n. \<forall>j<W. al ! i ! j = c ! i ! j XOR b ! i ! j)"
    using assms(1-3) by (auto simp: rows_ok_def xor_rows_def list_eq_iff_nth_eq)
  have "(\<forall>i<n. \<forall>j<V. c ! i ! j XOR b ! i ! j = al ! i ! j) \<longleftrightarrow> (\<forall>i<n. \<forall>j<W. al ! i ! j = c ! i ! j XOR b ! i ! j)"
    using assms(4) by (metis less_nat_zero_code)
  then show ?thesis unfolding eq list_all_length by simp
qed

lemma cgpCascadeRound_eq:
  assumes "rows_ok n W (cs_spShare st)" "rows_ok n W (cs_peerShare st)"
    and c: "rows_ok n W (ca_a ca)" "rows_ok n W (ca_alpha ca)" "rows_ok n W (cb_b cb)" "perm_ok n (cb_pi cb)"
  shows "cgpCascadeRound st ca cb mode =
    (let out = \<lparr>cs_spShare = ca_alpha ca, cs_peerShare =
        xor_rows (permute (cb_pi cb) (xor_rows (xor_rows (cs_spShare st) (ca_a ca)) (cs_peerShare st))) (cb_b cb)\<rparr>
     in if mode = Malicious \<and> ca_alpha ca \<noteq> xor_rows (permute (cb_pi cb) (ca_a ca)) (cb_b cb)
        then Inr (False, cs_empty) else Inr (True, out))"
proof -
  have len: "length (cs_spShare st) = n" "length (cs_peerShare st) = n" "length (ca_a ca) = n"
      "length (ca_alpha ca) = n" "length (cb_pi cb) = n" "length (cb_b cb) = n"
    using assms by (simp_all add: rows_ok_def perm_ok_def)
  have m: "rows_ok n W (xor_rows (cs_spShare st) (ca_a ca))" using assms(1) c(1) by simp
  have app: "applyPiRows (ca_a ca) (cb_pi cb) = Inr (permute (cb_pi cb) (ca_a ca))"
    using len(3) c(4) by (rule applyPiRows_eq)
  have pa: "rows_ok n W (permute (cb_pi cb) (ca_a ca))" using c(1,4) by simp
  define V where "V = (if permute (cb_pi cb) (ca_a ca) = [] then 0 else length (permute (cb_pi cb) (ca_a ca) ! 0))"
  have V: "(if permute (cb_pi cb) (ca_a ca) = [] then Inr 0
      else widthOf (permute (cb_pi cb) (ca_a ca)) ''malicious check'') = Inr V"
    by (simp add: V_def widthOf_def)
  have nV: "n = 0 \<or> V = W" using pa by (auto simp: V_def rows_ok_def)
  show ?thesis
    unfolding cgpCascadeRound_def Let_def len
    by (cases mode) (simp_all only: simp_thms if_False if_True MaliciousMode.distinct bindE_simps split V app
        cgpOnlineA_eq [OF assms(1) c(1,2)] cgpOnlineB_eq [OF assms(2) c(3,4) m]
        alpha_check [OF pa c(3,2) nV] not_not, simp_all)
qed

lemma cgpFinalReveal_eq:
  "rows_ok n W (cs_spShare st) \<Longrightarrow> rows_ok n W (cs_peerShare st) \<Longrightarrow>
   cgpFinalReveal st = Inr (xor_rows (cs_spShare st) (cs_peerShare st))"
  by (simp add: cgpFinalReveal_def xorRows_eq)

subsection \<open>The properties\<close>

text \<open>For two shares of the same shape and every state of the dealer's generator, the
  dealer and the in-memory run succeed, and the XOR of the two output shares is the XOR of the
  inputs with its rows rearranged by the dealer's permutation: the same multiset of rows.\<close>

theorem cgpRun_shuffles:
  assumes "rows_ok n W x_A" "rows_ok n W x_B" "0 < W"
  shows "\<exists>corrA corrB g' y_A y_B x y.
    cgpDealerGenerate G n W g = Inr ((corrA, corrB), g') \<and>
    cgpRunInMemory x_A x_B corrA corrB = Inr (y_A, y_B) \<and>
    xorRows x_A x_B = Inr x \<and> cgpFinalReveal \<lparr>cs_spShare = y_A, cs_peerShare = y_B\<rparr> = Inr y \<and>
    is_perm n (cb_pi corrB) \<and> applyPiRows x (cb_pi corrB) = Inr y \<and> mset y = mset x"
proof -
  obtain ca cb g' where deal: "cgpDealerGenerate G n W g = Inr ((ca, cb), g')"
      and c: "corr_ok n W ca cb" and p: "is_perm n (cb_pi cb)"
    using cgpDealerGenerate_returns [OF assms(3), of G n g] by blast
  obtain ya yb where run: "cgpRunInMemory x_A x_B ca cb = Inr (ya, yb)" and y: "rows_ok n W ya" "rows_ok n W yb"
      and out: "xor_rows ya yb = permute (cb_pi cb) (xor_rows x_A x_B)"
    using cgpRunInMemory_returns [OF assms(1,2) c] by blast
  have len: "length (xor_rows x_A x_B) = n" using rows_ok_xor [OF assms(1,2)] by (simp add: rows_ok_def)
  show ?thesis
    using deal run p xorRows_eq [OF assms(1,2)] cgpFinalReveal_eq [of n W "\<lparr>cs_spShare = ya, cs_peerShare = yb\<rparr>"] y
      applyPiRows_eq [OF len is_perm_ok [OF p]] mset_permute [of "xor_rows x_A x_B"] len out
    by simp
qed

theorem cgpRun_shuffles_witness:
  "\<exists>corrA corrB g' y_A y_B x y.
    cgpDealerGenerate counter_prng 2 1 7 = Inr ((corrA, corrB), g') \<and>
    cgpRunInMemory [[1], [2]] [[5], [8]] corrA corrB = Inr (y_A, y_B) \<and>
    xorRows [[1], [2]] [[5], [8]] = Inr x \<and> cgpFinalReveal \<lparr>cs_spShare = y_A, cs_peerShare = y_B\<rparr> = Inr y \<and>
    is_perm 2 (cb_pi corrB) \<and> applyPiRows x (cb_pi corrB) = Inr y \<and> mset y = mset x"
  by (rule cgpRun_shuffles) (simp_all add: rows_ok_def nth_Cons split: nat.splits)

text \<open>C25: in malicious mode a cascade round accepts exactly when the correlation satisfies
  \<open>\<alpha> = \<pi>(a) \<oplus> b\<close>, and a round it rejects hands on no state; a round that accepts applies the
  permutation to the shared rows.\<close>

theorem cgpCascadeRound_malicious:
  assumes "rows_ok n W (cs_spShare st)" "rows_ok n W (cs_peerShare st)"
    "rows_ok n W (ca_a ca)" "rows_ok n W (ca_alpha ca)" "rows_ok n W (cb_b cb)" "perm_ok n (cb_pi cb)"
  shows "if ca_alpha ca = xor_rows (permute (cb_pi cb) (ca_a ca)) (cb_b cb)
    then \<exists>out x y. cgpCascadeRound st ca cb Malicious = Inr (True, out) \<and>
        cgpFinalReveal st = Inr x \<and> cgpFinalReveal out = Inr y \<and> applyPiRows x (cb_pi cb) = Inr y
    else cgpCascadeRound st ca cb Malicious = Inr (False, cs_empty)"
proof (cases "ca_alpha ca = xor_rows (permute (cb_pi cb) (ca_a ca)) (cb_b cb)")
  case True
  have ok: "rows_ok n W (xor_rows (cs_spShare st) (ca_a ca))" using assms by simp
  have len: "length (xor_rows (cs_spShare st) (cs_peerShare st)) = n"
    using rows_ok_xor [OF assms(1,2)] by (simp add: rows_ok_def)
  define out where "out = \<lparr>cs_spShare = ca_alpha ca, cs_peerShare =
        xor_rows (permute (cb_pi cb) (xor_rows (xor_rows (cs_spShare st) (ca_a ca)) (cs_peerShare st))) (cb_b cb)\<rparr>"
  have "cgpCascadeRound st ca cb Malicious = Inr (True, out)"
    using cgpCascadeRound_eq [OF assms] True by (simp add: out_def)
  moreover have "cgpFinalReveal out = Inr (permute (cb_pi cb) (xor_rows (cs_spShare st) (cs_peerShare st)))"
    using cgpFinalReveal_eq [of n W out] assms ok True
      shuffle_identity [OF assms(1,2,3,5,6)] by (simp add: out_def)
  ultimately show ?thesis
    using True cgpFinalReveal_eq [OF assms(1,2)] applyPiRows_eq [OF len assms(6)] by simp
next
  case False
  then show ?thesis using cgpCascadeRound_eq [OF assms, of Malicious] by (simp add: Let_def)
qed

theorem cgpCascadeRound_malicious_witness:
  "let st = \<lparr>cs_spShare = [[3], [4]], cs_peerShare = [[1], [1]]\<rparr>;
       cb = \<lparr>cb_pi = [1, 0], cb_b = [[9], [6]]\<rparr>; a = [[7], [2]]
   in (\<exists>out x y. cgpCascadeRound st \<lparr>ca_a = a, ca_alpha = [[11], [1]]\<rparr> cb Malicious = Inr (True, out) \<and>
        cgpFinalReveal st = Inr x \<and> cgpFinalReveal out = Inr y \<and> applyPiRows x [1, 0] = Inr y) \<and>
      cgpCascadeRound st \<lparr>ca_a = a, ca_alpha = [[11], [0]]\<rparr> cb Malicious = Inr (False, cs_empty)"
  using cgpCascadeRound_malicious [of 2 1 "\<lparr>cs_spShare = [[3], [4]], cs_peerShare = [[1], [1]]\<rparr>"
      "\<lparr>ca_a = [[7], [2]], ca_alpha = [[11], [1]]\<rparr>" "\<lparr>cb_pi = [1, 0], cb_b = [[9], [6]]\<rparr>"]
    cgpCascadeRound_malicious [of 2 1 "\<lparr>cs_spShare = [[3], [4]], cs_peerShare = [[1], [1]]\<rparr>"
      "\<lparr>ca_a = [[7], [2]], ca_alpha = [[11], [0]]\<rparr>" "\<lparr>cb_pi = [1, 0], cb_b = [[9], [6]]\<rparr>"]
  by (simp add: rows_ok_def perm_ok_def xor_rows_def permute_def nth_Cons Let_def split: nat.splits)

end
