(* ===== verification/Alignment.thy ===== *)
theory Alignment
  imports Cgp_Shuffle "HOL-Library.Product_Lexorder"
begin

text \<open>
  Private alignment of the three sources (\<open>volePSI/MpsvsAlignment.h\<close>, \<open>volePSI/MpsvsAlignment.cpp\<close>):
  packing the rows of each source into padded bins, sorting each bin, the membership-gated
  windowed merge, the live mark, the shuffle, and the runner that composes them.

  \<open>std::stable_sort\<close> is \<open>sort_key\<close>, which is stable; a \<open>std::array\<close> is a list; sizes that the code
  keeps in 32 or 64 bits are naturals. The generator is the parameter \<open>G\<close>.
\<close>

subsection \<open>Rows\<close>

record PayloadPerSource =
  pv :: "64 word list"
  pvalid :: "8 word list"
  pg :: "64 word"
  pv_g :: "8 word"
  contraction :: "64 word"

definition empty_payload :: PayloadPerSource where
  "empty_payload = \<lparr>pv = replicate 6 0, pvalid = replicate 6 0, pg = 0, pv_g = 0, contraction = 0\<rparr>"

record Row =
  r_bin :: "64 word"
  r_source :: "32 word"
  r_key :: "64 word"
  r_memb :: "8 word"
  r_period :: "64 word"
  r_sector :: "64 word"
  r_payload :: PayloadPerSource

definition isReal :: "Row \<Rightarrow> bool" where
  "isReal r \<longleftrightarrow> r_memb r = 1"

record UnionRow =
  u_bin :: "64 word"
  u_period :: "64 word"
  u_sector :: "64 word"
  b_MAS :: "8 word"
  b_DOS :: "8 word"
  b_MOM :: "8 word"
  p_MAS :: PayloadPerSource
  p_DOS :: PayloadPerSource
  p_MOM :: PayloadPerSource
  canonical :: "8 word"
  live :: "8 word"
  sector_conflict :: "8 word"

definition empty_union :: UnionRow where
  "empty_union = \<lparr>u_bin = 0, u_period = 0, u_sector = 0, b_MAS = 0, b_DOS = 0, b_MOM = 0,
     p_MAS = empty_payload, p_DOS = empty_payload, p_MOM = empty_payload,
     canonical = 0, live = 0, sector_conflict = 0\<rparr>"

record BinParams =
  beta :: nat
  tau_bits :: nat
  cap_P :: nat

record BinnedTable =
  bt_beta :: nat
  bt_cap_P :: nat
  bt_rows :: "Row list list"

subsection \<open>Duplicates\<close>

fun duplicate_loop :: "Row list \<Rightarrow> (64 word \<times> 64 word) list \<Rightarrow> unit result" where
  "duplicate_loop [] seen = Inr ()"
| "duplicate_loop (r # rows) seen =
     (if \<not> isReal r then duplicate_loop rows seen
      else let k = (r_key r, r_period r)
           in if k \<in> set seen
              then Inl (DuplicateEntityPeriod ''assertNoDuplicateEntityPeriod: duplicate (key, period) at source'')
              else duplicate_loop rows (k # seen))"

definition assertNoDuplicateEntityPeriod :: "Row list \<Rightarrow> unit result" where
  "assertNoDuplicateEntityPeriod rows = duplicate_loop rows []"

subsection \<open>Bin packing\<close>

definition place_row :: "nat \<Rightarrow> 32 word \<Rightarrow> Row \<Rightarrow> Row list list \<Rightarrow> Row list list result" where
  "place_row num_bins source r bins =
     (let b = unat (r_bin r) in
      throw_if (b \<ge> num_bins) (RuntimeError ''packBins: bin id out of range'')
     (throw_if (r_source r \<noteq> source) (RuntimeError ''packBins: row source mismatch'')
     (let bins' = bins[b := bins ! b @ [r]] in
      throw_if (r_memb r \<noteq> 1) (RuntimeError ''packBins: real row must have memb=1'')
        (Inr bins'))))"

definition dummy_row :: "nat \<Rightarrow> 32 word \<Rightarrow> nat \<Rightarrow> 64 word \<Rightarrow> Row" where
  "dummy_row tau source b k =
     \<lparr>r_bin = word_of_nat b, r_source = source,
      r_key = (if tau < 64 then k AND (push_bit tau 1 - 1) else k),
      r_memb = 0, r_period = 0, r_sector = 0, r_payload = empty_payload\<rparr>"

definition pad_bin :: "'g prng \<Rightarrow> BinParams \<Rightarrow> 32 word \<Rightarrow> nat \<Rightarrow> Row list \<Rightarrow> 'g \<Rightarrow> Row list \<times> 'g" where
  "pad_bin G params source b bin g =
     (let (ks, g') = draws (get_u64 G) (cap_P params - length bin) g
      in (bin @ map (dummy_row (tau_bits params) source b) ks, g'))"

fun pad_bins :: "'g prng \<Rightarrow> BinParams \<Rightarrow> 32 word \<Rightarrow> nat \<Rightarrow> Row list list \<Rightarrow> 'g \<Rightarrow> Row list list \<times> 'g" where
  "pad_bins G params source b [] g = ([], g)"
| "pad_bins G params source b (bin # bins) g =
     (let (bin', g1) = pad_bin G params source b bin g;
          (bins', g2) = pad_bins G params source (Suc b) bins g1
      in (bin' # bins', g2))"

definition packBins ::
  "'g prng \<Rightarrow> 32 word \<Rightarrow> Row list \<Rightarrow> BinParams \<Rightarrow> 'g \<Rightarrow> (BinnedTable \<times> 'g) result" where
  "packBins G source real_rows params g =
     throw_if (beta params \<ge> 64) UndefinedShift
    (let num_bins = 2 ^ beta params in
     bindE (assertNoDuplicateEntityPeriod real_rows) (\<lambda>_.
     bindE (foldE (place_row num_bins source) real_rows (replicate num_bins [])) (\<lambda>bins.
     throw_if (\<exists>bin\<in>set bins. length bin > cap_P params)
       (RestartSession ''packBins: bin overflow'')
    (let (padded, g') = pad_bins G params source 0 bins g
     in Inr (\<lparr>bt_beta = beta params, bt_cap_P = cap_P params, bt_rows = padded\<rparr>, g')))))"

subsection \<open>Sorting a bin\<close>

text \<open>\<open>while (p < n) p *= 2\<close>, started at 1.\<close>

function double_until :: "nat \<Rightarrow> nat \<Rightarrow> nat" where
  "double_until n p = (if 0 < p \<and> p < n then double_until n (p * 2) else p)"
  by pat_completeness auto
termination by (relation "measure (\<lambda>(n, p). n - p)") auto

declare double_until.simps [simp del]

definition dead_row :: "Row list \<Rightarrow> Row" where
  "dead_row bin = \<lparr>r_bin = (case bin of [] \<Rightarrow> 0 | r # _ \<Rightarrow> r_bin r), r_source = 4, r_key = - 1,
     r_memb = 0, r_period = 0, r_sector = 0, r_payload = empty_payload\<rparr>"

definition sort_pos :: "Row \<Rightarrow> 64 word \<times> 32 word" where
  "sort_pos r = (r_key r, r_source r)"

definition withinBinSort :: "Row list \<Rightarrow> Row list" where
  "withinBinSort bin =
     (let n_real = length bin;
          p = double_until n_real 1;
          padded = bin @ replicate (p - length bin) (dead_row bin)
      in take n_real (sort_key sort_pos padded))"

subsection \<open>Windowed merge\<close>

definition keyEq :: "Row \<Rightarrow> Row \<Rightarrow> bool" where
  "keyEq a b \<longleftrightarrow> r_key a = r_key b \<and> r_memb a = 1 \<and> r_memb b = 1"

definition pickSource :: "Row list \<Rightarrow> Row \<Rightarrow> 32 word \<Rightarrow> Row option" where
  "pickSource window r src = List.find (\<lambda>c. r_source c = src \<and> r_memb c = 1 \<and> keyEq c r) window"

definition seen_sectors :: "Row list \<Rightarrow> Row \<Rightarrow> 64 word list" where
  "seen_sectors window r =
     concat (map (\<lambda>src. map r_sector (filter (\<lambda>c. r_source c = src \<and> r_memb c = 1 \<and> keyEq c r) window)) [0, 1, 2])"

definition presence :: "Row option \<Rightarrow> 8 word" where
  "presence c = (case c of None \<Rightarrow> 0 | Some _ \<Rightarrow> 1)"

definition picked_payload :: "Row option \<Rightarrow> PayloadPerSource" where
  "picked_payload c = (case c of None \<Rightarrow> empty_payload | Some c \<Rightarrow> r_payload c)"

definition merge_row :: "Row list \<Rightarrow> nat \<Rightarrow> UnionRow" where
  "merge_row sorted_bin i =
     (let r = sorted_bin ! i;
          first = (i = 0 \<or> r_key (sorted_bin ! (i - 1)) \<noteq> r_key r \<or> r_memb (sorted_bin ! (i - 1)) = 0 \<or> r_memb r = 0);
          u = empty_union\<lparr>u_bin := r_bin r, canonical := (if first then 1 else 0)\<rparr>
      in if r_memb r = 0 then u\<lparr>live := 0\<rparr>
         else
           let window = take 3 (drop i sorted_bin);
               mas = pickSource window r 0; dos = pickSource window r 1; mom = pickSource window r 2;
               saw = seen_sectors window r
           in u\<lparr>b_MAS := presence mas, p_MAS := picked_payload mas,
                b_DOS := presence dos, p_DOS := picked_payload dos,
                b_MOM := presence mom, p_MOM := picked_payload mom,
                u_sector := (case saw of [] \<Rightarrow> 0 | s # _ \<Rightarrow> s),
                sector_conflict := (if \<exists>s\<in>set (tl saw). s \<noteq> hd saw then 1 else 0),
                u_period := r_period r\<rparr>)"

definition windowedMerge :: "Row list \<Rightarrow> UnionRow list" where
  "windowedMerge sorted_bin = map (merge_row sorted_bin) [0..<length sorted_bin]"

definition mark_row :: "UnionRow \<Rightarrow> UnionRow" where
  "mark_row u = u\<lparr>live := canonical u AND (b_MAS u OR b_DOS u OR b_MOM u)\<rparr>"

definition markLive :: "UnionRow list \<Rightarrow> UnionRow list" where
  "markLive rows = map mark_row rows"

subsection \<open>Shuffle\<close>

text \<open>The loop \<open>for (i = n - 1; i > 0; --i)\<close>.\<close>

fun shuffle_perm :: "'g prng \<Rightarrow> nat \<Rightarrow> nat list \<Rightarrow> 'g \<Rightarrow> nat list \<times> 'g" where
  "shuffle_perm G 0 perm g = (perm, g)"
| "shuffle_perm G (Suc i) perm g =
     (let (r, g1) = get_u64 G g; j = unat r mod (Suc i + 1)
      in shuffle_perm G i (swap_at perm (Suc i) j) g1)"

text \<open>With no row \<open>n - 1\<close> wraps around, and the first step divides by \<open>i + 1 = 0\<close>.\<close>

definition composedShuffle :: "'g prng \<Rightarrow> UnionRow list \<Rightarrow> 'g \<Rightarrow> (UnionRow list \<times> 'g) result" where
  "composedShuffle G rows g =
     (let n = length rows in
      if n = 0 then Inl DivisionByZero
      else let (perm, g') = shuffle_perm G (n - 1) [0..<n] g
           in Inr (map (\<lambda>i. rows ! (perm ! i)) [0..<n], g'))"

subsection \<open>The runner\<close>

record AlignmentResult =
  ar_table :: "UnionRow list"
  ar_restarted :: bool
  ar_params :: BinParams

definition merged_bin :: "BinnedTable \<Rightarrow> BinnedTable \<Rightarrow> BinnedTable \<Rightarrow> nat \<Rightarrow> UnionRow list" where
  "merged_bin tMAS tDOS tMOM b =
     windowedMerge (withinBinSort (bt_rows tMAS ! b @ bt_rows tDOS ! b @ bt_rows tMOM ! b))"

definition runFPsa ::
  "'g prng \<Rightarrow> Row list \<Rightarrow> Row list \<Rightarrow> Row list \<Rightarrow> BinParams \<Rightarrow> 'g \<Rightarrow> (AlignmentResult \<times> 'g) result" where
  "runFPsa G mas_rows dos_rows mom_rows params g =
     bindE (packBins G 0 mas_rows params g) (\<lambda>(tMAS, g1).
     bindE (packBins G 1 dos_rows params g1) (\<lambda>(tDOS, g2).
     bindE (packBins G 2 mom_rows params g2) (\<lambda>(tMOM, g3).
     let union_out = concat (map (merged_bin tMAS tDOS tMOM) [0..<2 ^ beta params]) in
     bindE (composedShuffle G (markLive union_out) g3) (\<lambda>(table, g4).
     Inr (\<lparr>ar_table = table, ar_restarted = False, ar_params = params\<rparr>, g4)))))"

record FPsaAudit =
  total_rows :: nat
  live_rows :: nat
  canonical_rows :: nat
  sector_conflicts :: nat
  all_shapes_public :: bool

definition auditAlignment :: "AlignmentResult \<Rightarrow> FPsaAudit" where
  "auditAlignment r =
     \<lparr>total_rows = length (ar_table r),
      live_rows = length (filter (\<lambda>u. live u \<noteq> 0) (ar_table r)),
      canonical_rows = length (filter (\<lambda>u. canonical u \<noteq> 0) (ar_table r)),
      sector_conflicts = length (filter (\<lambda>u. sector_conflict u \<noteq> 0) (ar_table r)),
      all_shapes_public = True\<rparr>"

subsection \<open>Packing succeeds exactly on valid inputs\<close>

definition tag_period :: "Row \<Rightarrow> 64 word \<times> 64 word" where
  "tag_period r = (r_key r, r_period r)"

definition rows_in_bin :: "Row list \<Rightarrow> nat \<Rightarrow> Row list" where
  "rows_in_bin rows b = filter (\<lambda>r. unat (r_bin r) = b) rows"

definition packable :: "32 word \<Rightarrow> Row list \<Rightarrow> BinParams \<Rightarrow> bool" where
  "packable source rows params \<longleftrightarrow>
     beta params < 64 \<and> distinct (map tag_period (filter isReal rows)) \<and>
     (\<forall>r\<in>set rows. unat (r_bin r) < 2 ^ beta params \<and> r_source r = source \<and> r_memb r = 1) \<and>
     (\<forall>b<2 ^ beta params. length (rows_in_bin rows b) \<le> cap_P params)"

lemma duplicate_loop_iff:
  "duplicate_loop rows seen = (if distinct (map tag_period (filter isReal rows)) \<and>
       set (map tag_period (filter isReal rows)) \<inter> set seen = {} then Inr ()
     else Inl (DuplicateEntityPeriod ''assertNoDuplicateEntityPeriod: duplicate (key, period) at source''))"
  by (induction rows arbitrary: seen) (auto simp: tag_period_def Let_def)

lemma place_rows:
  assumes "length bins = num_bins"
  shows "foldE (place_row num_bins source) rows bins = Inr bins' \<longleftrightarrow>
    (\<forall>r\<in>set rows. unat (r_bin r) < num_bins \<and> r_source r = source \<and> r_memb r = 1) \<and>
    bins' = map (\<lambda>b. bins ! b @ rows_in_bin rows b) [0..<num_bins]"
  using assms
proof (induction rows arbitrary: bins)
  case Nil
  then show ?case by (auto simp: rows_in_bin_def map_nth [symmetric] intro: nth_equalityI)
next
  case (Cons r rows)
  let ?b = "unat (r_bin r)"
  show ?case
  proof (cases "?b < num_bins \<and> r_source r = source \<and> r_memb r = 1")
    case True
    let ?bins = "bins[?b := bins ! ?b @ [r]]"
    have "map (\<lambda>b. ?bins ! b @ rows_in_bin rows b) [0..<num_bins] =
        map (\<lambda>b. bins ! b @ rows_in_bin (r # rows) b) [0..<num_bins]"
      using Cons.prems True by (auto simp: rows_in_bin_def nth_list_update)
    then have eq: "map (\<lambda>b. ?bins ! b @ rows_in_bin rows b) [0..<num_bins] =
        map (\<lambda>b. bins ! b @ rows_in_bin (r # rows) b) [0..<num_bins]" .
    have step: "foldE (place_row num_bins source) (r # rows) bins = foldE (place_row num_bins source) rows ?bins"
      using True by (simp add: place_row_def Let_def)
    have "length ?bins = num_bins" using Cons.prems by simp
    from Cons.IH [OF this] show ?thesis
      unfolding step eq using True by simp
  next
    case False
    then show ?thesis by (auto simp: place_row_def Let_def throw_if_def)
  qed
qed

lemma pad_bins_nth:
  "pad_bins G params source b0 bins g = (padded, g') \<Longrightarrow>
   length padded = length bins \<and> (\<forall>b<length bins. \<exists>ks. length ks = cap_P params - length (bins ! b) \<and>
     padded ! b = bins ! b @ map (dummy_row (tau_bits params) source (b0 + b)) ks)"
proof (induction bins arbitrary: b0 g padded g')
  case (Cons bin bins)
  obtain ks g1 where ks: "draws (get_u64 G) (cap_P params - length bin) g = (ks, g1)" by force
  obtain rest g2 where rest: "pad_bins G params source (Suc b0) bins g1 = (rest, g2)" by force
  have p: "padded = (bin @ map (dummy_row (tau_bits params) source b0) ks) # rest"
    using Cons.prems ks rest by (simp add: pad_bin_def)
  have "length ks = cap_P params - length bin" using draws_length [OF ks] .
  with Cons.IH [OF rest] p show ?case by (auto simp: nth_Cons split: nat.splits)
qed simp

lemma packBins_iff:
  "(\<exists>t g'. packBins G source rows params g = Inr (t, g')) \<longleftrightarrow> packable source rows params"
proof -
  have "\<exists>padded g'. pad_bins G params source 0 bins g = (padded, g')" for bins by force
  moreover have "(\<exists>bin\<in>set (map (rows_in_bin rows) [0..<2 ^ beta params]). length bin > cap_P params) \<longleftrightarrow>
      \<not> (\<forall>b<2 ^ beta params. length (rows_in_bin rows b) \<le> cap_P params)"
    by (auto simp: not_le)
  moreover have "map (\<lambda>b. replicate (2 ^ beta params) [] ! b @ rows_in_bin rows b) [0..<2 ^ beta params] =
      map (rows_in_bin rows) [0..<2 ^ beta params]" by simp
  ultimately show ?thesis
    by (auto simp: packBins_def packable_def assertNoDuplicateEntityPeriod_def duplicate_loop_iff throw_if_eq_Inr
        bindE_eq_Inr place_rows Let_def split: prod.splits if_splits)
qed

lemma packBins_rows:
  assumes "packBins G source rows params g = Inr (t, g')"
  shows "bt_beta t = beta params \<and> bt_cap_P t = cap_P params \<and> length (bt_rows t) = 2 ^ beta params \<and>
    (\<forall>b<2 ^ beta params. \<exists>ks. length (bt_rows t ! b) = cap_P params \<and>
       bt_rows t ! b = rows_in_bin rows b @ map (dummy_row (tau_bits params) source b) ks)"
proof -
  have ok: "packable source rows params" using packBins_iff [of G source rows params g] assms by blast
  obtain padded g2 where pad: "pad_bins G params source 0 (map (rows_in_bin rows) [0..<2 ^ beta params]) g = (padded, g2)"
    by force
  have place: "foldE (place_row (2 ^ beta params) source) rows (replicate (2 ^ beta params) []) =
      Inr (map (rows_in_bin rows) [0..<2 ^ beta params])"
    using ok by (subst place_rows) (auto simp: packable_def)
  have t: "t = \<lparr>bt_beta = beta params, bt_cap_P = cap_P params, bt_rows = padded\<rparr>"
    using assms pad unfolding packBins_def
    by (auto simp: place throw_if_eq_Inr bindE_eq_Inr Let_def)
  have cap: "length (rows_in_bin rows b) \<le> cap_P params" if "b < 2 ^ beta params" for b
    using ok that by (simp add: packable_def)
  from pad_bins_nth [OF pad] have len: "length padded = 2 ^ beta params"
    and rows: "\<And>b. b < 2 ^ beta params \<Longrightarrow> \<exists>ks. length ks = cap_P params - length (rows_in_bin rows b) \<and>
       padded ! b = rows_in_bin rows b @ map (dummy_row (tau_bits params) source b) ks"
    by simp_all
  have "\<exists>ks. length (padded ! b) = cap_P params \<and> padded ! b = rows_in_bin rows b @ map (dummy_row (tau_bits params) source b) ks"
    if "b < 2 ^ beta params" for b
    using rows [OF that] cap [OF that] by auto
  then show ?thesis using t len by simp
qed

subsection \<open>Sorting a bin\<close>

lemma double_until_ge: "0 < p \<Longrightarrow> n \<le> double_until n p \<and> p \<le> double_until n p"
proof (induction n p rule: double_until.induct)
  case (1 n p)
  then show ?case by (subst (1 2) double_until.simps) auto
qed

lemma insort_key_append:
  "\<forall>y\<in>set ds. f x \<le> f y \<Longrightarrow> insort_key f x (ys @ ds) = insort_key f x ys @ ds"
  by (induction ys) (auto simp: insort_is_Cons)

lemma sort_key_append:
  assumes "\<And>x y. x \<in> set xs \<Longrightarrow> y \<in> set ds \<Longrightarrow> f x \<le> f y" "sort_key f ds = ds"
  shows "sort_key f (xs @ ds) = sort_key f xs @ ds"
  using assms by (induction xs) (auto simp: insort_key_append)

text \<open>Dead rows sort after every row of a source, so that truncation removes exactly them.\<close>

lemma withinBinSort_eq:
  assumes "\<forall>r\<in>set bin. r_source r < 4"
  shows "withinBinSort bin = sort_key sort_pos bin"
proof -
  let ?d = "replicate (double_until (length bin) 1 - length bin) (dead_row bin)"
  have le: "sort_pos x \<le> sort_pos y" if "x \<in> set bin" "y \<in> set ?d" for x y
  proof -
    have "r_source x < 4" "y = dead_row bin" using assms that by auto
    moreover have "r_key x \<le> - 1" by (rule word_order.extremum)
    ultimately show ?thesis by (auto simp: sort_pos_def dead_row_def less_eq_prod_def)
  qed
  have "double_until (length bin) 1 \<ge> length bin" using double_until_ge [of 1 "length bin"] by simp
  moreover have "sort_key sort_pos (bin @ ?d) = sort_key sort_pos bin @ ?d"
    using le by (intro sort_key_append) (simp_all add: sort_key_id_if_sorted)
  ultimately show ?thesis by (simp add: withinBinSort_def Let_def)
qed

subsection \<open>Merging a sorted bin\<close>

text \<open>
  The specification of an aligned row: for a bin and a key, the row of each source (if any),
  payloads and presence bits side by side, sector and period of the first present source in the
  order MAS, DOS, MOM, and the conflict flag when present sources disagree on the sector.
\<close>

definition tagged_rows :: "Row list \<Rightarrow> 64 word \<Rightarrow> 32 word \<Rightarrow> Row list" where
  "tagged_rows rows k src = filter (\<lambda>c. r_memb c = 1 \<and> r_key c = k \<and> r_source c = src) rows"

definition first_of :: "'a list \<Rightarrow> 'a option" where
  "first_of xs = (case xs of [] \<Rightarrow> None | x # _ \<Rightarrow> Some x)"

definition joined_row :: "Row list \<Rightarrow> 64 word \<Rightarrow> 64 word \<Rightarrow> UnionRow" where
  "joined_row rows b k =
     (let mas = first_of (tagged_rows rows k 0);
          dos = first_of (tagged_rows rows k 1);
          mom = first_of (tagged_rows rows k 2);
          present = tagged_rows rows k 0 @ tagged_rows rows k 1 @ tagged_rows rows k 2
      in \<lparr>u_bin = b, u_period = r_period (hd present), u_sector = r_sector (hd present),
          b_MAS = presence mas, b_DOS = presence dos, b_MOM = presence mom,
          p_MAS = picked_payload mas, p_DOS = picked_payload dos, p_MOM = picked_payload mom,
          canonical = 1, live = 1,
          sector_conflict = (if \<exists>r\<in>set present. r_sector r \<noteq> r_sector (hd present) then 1 else 0)\<rparr>)"

text \<open>
  A bin is well tagged when every row is a dummy or a real row of a source, no dummy carries the
  key of a real row, and a source has at most one real row with a key.
\<close>

definition well_tagged :: "64 word \<Rightarrow> Row list \<Rightarrow> bool" where
  "well_tagged b rows \<longleftrightarrow>
     (\<forall>r\<in>set rows. r_memb r \<in> {0, 1} \<and> r_source r \<in> {0, 1, 2} \<and> r_bin r = b) \<and>
     (\<forall>d\<in>set rows. \<forall>r\<in>set rows. r_memb d = 0 \<longrightarrow> r_memb r = 1 \<longrightarrow> r_key d \<noteq> r_key r) \<and>
     distinct (map sort_pos (filter isReal rows))"

definition real_keys :: "Row list \<Rightarrow> 64 word set" where
  "real_keys rows = r_key ` {r\<in>set rows. isReal r}"

lemma find_filter: "List.find P xs = first_of (filter P xs)"
  by (induction xs) (auto simp: first_of_def)

lemma pickSource_eq: "isReal r \<Longrightarrow> pickSource w r src = first_of (tagged_rows w (r_key r) src)"
  by (auto simp: pickSource_def find_filter tagged_rows_def keyEq_def isReal_def
      intro!: arg_cong [where f = first_of] filter_cong)

lemma seen_sectors_eq:
  "isReal r \<Longrightarrow> seen_sectors w r =
    map r_sector (tagged_rows w (r_key r) 0 @ tagged_rows w (r_key r) 1 @ tagged_rows w (r_key r) 2)"
proof -
  assume "isReal r"
  then have "filter (\<lambda>c. r_source c = src \<and> r_memb c = 1 \<and> keyEq c r) w = tagged_rows w (r_key r) src" for src
    unfolding tagged_rows_def by (intro filter_cong) (auto simp: keyEq_def isReal_def)
  then show ?thesis by (simp add: seen_sectors_def)
qed

lemma distinct_map_le1: "distinct (map f xs) \<Longrightarrow> (\<forall>x\<in>set xs. f x = c) \<Longrightarrow> length xs \<le> 1"
  by (cases xs; cases "tl xs") auto

lemma tagged_rows_le1:
  assumes "distinct (map sort_pos (filter isReal rows))"
  shows "length (tagged_rows rows k src) \<le> 1"
proof -
  have "tagged_rows rows k src = filter (\<lambda>c. r_key c = k \<and> r_source c = src) (filter isReal rows)"
    by (auto simp: tagged_rows_def isReal_def intro: filter_cong)
  moreover
  have "distinct (map sort_pos (filter (\<lambda>c. r_key c = k \<and> r_source c = src) (filter isReal rows)))"
    by (rule distinct_map_filter [OF assms])
  then have "length (filter (\<lambda>c. r_key c = k \<and> r_source c = src) (filter isReal rows)) \<le> 1"
    by (rule distinct_map_le1 [where c = "(k, src)"]) (auto simp: sort_pos_def)
  ultimately show ?thesis by simp
qed

lemma tagged_rows_perm:
  assumes "mset xs = mset ys" "length (tagged_rows xs k src) \<le> 1"
  shows "tagged_rows xs k src = tagged_rows ys k src"
proof -
  have m: "mset (tagged_rows xs k src) = mset (tagged_rows ys k src)"
    using assms(1) by (simp add: tagged_rows_def)
  then have "length (tagged_rows xs k src) = length (tagged_rows ys k src)" by (rule mset_eq_length)
  with m assms(2) show ?thesis
    by (cases "tagged_rows xs k src"; cases "tagged_rows ys k src") auto
qed

lemma well_tagged_perm: "mset xs = mset ys \<Longrightarrow> well_tagged b xs = well_tagged b ys"
proof -
  assume m: "mset xs = mset ys"
  then have s: "set xs = set ys" by (rule mset_eq_setD)
  have "mset (map sort_pos (filter isReal xs)) = mset (map sort_pos (filter isReal ys))" using m by simp
  then have "distinct (map sort_pos (filter isReal xs)) = distinct (map sort_pos (filter isReal ys))"
    by (rule mset_eq_imp_distinct_iff)
  with s show ?thesis by (simp add: well_tagged_def)
qed

lemma joined_row_perm:
  "mset xs = mset ys \<Longrightarrow> distinct (map sort_pos (filter isReal xs)) \<Longrightarrow> joined_row xs b k = joined_row ys b k"
  using tagged_rows_perm [of xs ys] tagged_rows_le1 [of xs] by (simp add: joined_row_def)

definition first_at :: "Row list \<Rightarrow> nat \<Rightarrow> bool" where
  "first_at xs i \<longleftrightarrow> i < length xs \<and> isReal (xs ! i) \<and> (i = 0 \<or> r_key (xs ! (i - 1)) \<noteq> r_key (xs ! i))"

lemma sorted_keys_nth:
  assumes "sorted (map sort_pos xs)" "i \<le> j" "j < length xs"
  shows "r_key (xs ! i) \<le> r_key (xs ! j)"
    and "r_key (xs ! i) = r_key (xs ! j) \<Longrightarrow> r_source (xs ! i) \<le> r_source (xs ! j)"
  using sorted_nth_mono [OF assms(1), of i j] assms(2,3) by (auto simp: sort_pos_def less_eq_prod_def)

lemma distinct_filter_nth:
  "distinct (map f (filter P xs)) \<Longrightarrow> i < j \<Longrightarrow> j < length xs \<Longrightarrow> P (xs ! i) \<Longrightarrow> P (xs ! j) \<Longrightarrow> f (xs ! i) \<noteq> f (xs ! j)"
proof (induction xs arbitrary: i j)
  case (Cons x xs)
  then obtain j' where j: "j = Suc j'" by (cases j) auto
  show ?case
  proof (cases i)
    case 0
    then have "xs ! j' \<in> set (filter P xs)" using Cons.prems j by simp
    then show ?thesis using Cons.prems 0 j by (metis (no_types, lifting) distinct.simps(2) filter.simps(2)
          image_eqI list.set_map list.simps(9) nth_Cons_0 nth_Cons_Suc)
  next
    case (Suc i')
    then show ?thesis using Cons.IH [of i' j'] Cons.prems j by (auto split: if_splits)
  qed
qed simp

lemma well_tagged_same_key_real:
  assumes "well_tagged b xs" "i < length xs" "j < length xs" "isReal (xs ! i)" "r_key (xs ! j) = r_key (xs ! i)"
  shows "isReal (xs ! j)"
proof -
  have "xs ! i \<in> set xs" "xs ! j \<in> set xs" using assms(2,3) by simp_all
  then show ?thesis using assms(1,4,5) by (auto simp: well_tagged_def isReal_def)
qed

lemma run_is_strict:
  assumes "sorted (map sort_pos xs)" "well_tagged b xs" "i < j" "j < length xs" "isReal (xs ! i)"
    "r_key (xs ! j) = r_key (xs ! i)"
  shows "r_source (xs ! i) < r_source (xs ! j)"
proof -
  have "isReal (xs ! j)" using well_tagged_same_key_real [of b xs i j] assms by simp
  then have "sort_pos (xs ! i) \<noteq> sort_pos (xs ! j)"
    using distinct_filter_nth [of sort_pos isReal xs i j] assms by (simp add: well_tagged_def)
  moreover have "r_source (xs ! i) \<le> r_source (xs ! j)" using sorted_keys_nth(2) [of xs i j] assms by simp
  ultimately show ?thesis using assms(6) by (simp add: sort_pos_def)
qed

lemma window_holds_run:
  assumes sorted: "sorted (map sort_pos xs)" and wt: "well_tagged b xs" and first: "first_at xs i"
  shows "tagged_rows (take 3 (drop i xs)) (r_key (xs ! i)) src = tagged_rows xs (r_key (xs ! i)) src"
proof -
  let ?k = "r_key (xs ! i)"
  have i: "i < length xs" "isReal (xs ! i)" using first by (simp_all add: first_at_def)
  have before: "r_key (xs ! j) \<noteq> ?k" if "j < i" for j
  proof -
    have "r_key (xs ! j) \<le> r_key (xs ! (i - 1))" "r_key (xs ! (i - 1)) \<le> ?k"
      using sorted_keys_nth(1) [OF sorted] that i(1) by simp_all
    moreover have "r_key (xs ! (i - 1)) \<noteq> ?k" using first that by (auto simp: first_at_def)
    ultimately show ?thesis by auto
  qed
  have after: "r_key (xs ! j) \<noteq> ?k" if "i + 3 \<le> j" "j < length xs" for j
  proof
    assume k: "r_key (xs ! j) = ?k"
    have same: "r_key (xs ! m) = ?k" if "i \<le> m" "m \<le> j" for m
      using sorted_keys_nth(1) [OF sorted, of i m] sorted_keys_nth(1) [OF sorted, of m j] that k \<open>j < length xs\<close> by simp
    have src: "r_source (xs ! m) \<in> {0, 1, 2}" if "m < length xs" for m
      using wt that by (simp add: well_tagged_def)
    have "r_source (xs ! m) < r_source (xs ! Suc m)" if "i \<le> m" "m < j" for m
      using run_is_strict [OF sorted wt, of m "Suc m"] same [of m] same [of "Suc m"] that \<open>j < length xs\<close>
        well_tagged_same_key_real [OF wt i(1) _ i(2), of m] by simp
    from this [of i] this [of "Suc i"] this [of "Suc (Suc i)"]
    have "r_source (xs ! i) < r_source (xs ! Suc i)" "r_source (xs ! Suc i) < r_source (xs ! Suc (Suc i))"
      "r_source (xs ! Suc (Suc i)) < r_source (xs ! Suc (Suc (Suc i)))" using that(1) by simp_all
    then show False
      using src [of i] src [of "Suc i"] src [of "Suc (Suc i)"] src [of "Suc (Suc (Suc i))"] that i(1) by auto
  qed
  have split: "xs = take i xs @ take 3 (drop i xs) @ drop 3 (drop i xs)" by (simp only: append_take_drop_id)
  have "tagged_rows (take i xs) ?k src = []"
    using before i(1) by (auto simp: tagged_rows_def filter_empty_conv in_set_conv_nth)
  moreover have "tagged_rows (drop 3 (drop i xs)) ?k src = []"
    using after by (auto simp: tagged_rows_def filter_empty_conv in_set_conv_nth add.commute)
  ultimately show ?thesis
    using arg_cong [OF split, of "\<lambda>l. tagged_rows l ?k src"] by (simp add: tagged_rows_def)
qed

lemma present_hd:
  assumes sorted: "sorted (map sort_pos xs)" and wt: "well_tagged b xs" and first: "first_at xs i"
  shows "\<exists>rest. tagged_rows xs (r_key (xs ! i)) 0 @ tagged_rows xs (r_key (xs ! i)) 1 @
    tagged_rows xs (r_key (xs ! i)) 2 = xs ! i # rest"
proof -
  let ?k = "r_key (xs ! i)" and ?s = "r_source (xs ! i)"
  have i: "i < length xs" "isReal (xs ! i)" using first by (simp_all add: first_at_def)
  have "xs ! i \<in> set (tagged_rows xs ?k ?s)" using i by (simp add: tagged_rows_def isReal_def)
  moreover have "length (tagged_rows xs ?k ?s) \<le> 1" using wt by (intro tagged_rows_le1) (simp add: well_tagged_def)
  ultimately have own: "tagged_rows xs ?k ?s = [xs ! i]" by (cases "tagged_rows xs ?k ?s") auto
  have lower: "tagged_rows xs ?k src = []" if "src < ?s" for src
  proof (rule ccontr)
    assume "tagged_rows xs ?k src \<noteq> []"
    then obtain c where "c \<in> set (tagged_rows xs ?k src)" by (meson last_in_set)
    then obtain j where j: "j < length xs" "r_key (xs ! j) = ?k" "r_source (xs ! j) = src"
      by (auto simp: tagged_rows_def in_set_conv_nth)
    have "\<not> j < i"
    proof
      assume "j < i"
      then have "r_key (xs ! j) \<le> r_key (xs ! (i - 1))" "r_key (xs ! (i - 1)) \<le> ?k"
        using sorted_keys_nth(1) [OF sorted] i(1) by simp_all
      with j(2) have "r_key (xs ! (i - 1)) = ?k" by simp
      then show False using first \<open>j < i\<close> by (simp add: first_at_def)
    qed
    moreover have "j \<noteq> i" using j that by auto
    ultimately have "?s < src" using run_is_strict [OF sorted wt _ j(1) i(2) j(2)] j(3) by simp
    with that show False by simp
  qed
  have "?s \<in> {0, 1, 2}" using wt i(1) by (simp add: well_tagged_def)
  then consider "?s = 0" | "?s = 1" | "?s = 2" by auto
  then show ?thesis using own lower [of 0] lower [of 1] by cases auto
qed

lemma merge_row_first:
  assumes sorted: "sorted (map sort_pos xs)" and wt: "well_tagged b xs" and first: "first_at xs i"
  shows "mark_row (merge_row xs i) = joined_row xs b (r_key (xs ! i))"
proof -
  let ?r = "xs ! i"
  have i: "i < length xs" "isReal ?r" using first by (simp_all add: first_at_def)
  then have memb: "r_memb ?r \<noteq> 0" by (simp add: isReal_def)
  have bin: "r_bin ?r = b" using wt i(1) by (simp add: well_tagged_def)
  obtain rest where hd: "tagged_rows xs (r_key ?r) 0 @ tagged_rows xs (r_key ?r) 1 @ tagged_rows xs (r_key ?r) 2 = ?r # rest"
    using present_hd [OF assms] by blast
  have win: "pickSource (take 3 (drop i xs)) ?r src = first_of (tagged_rows xs (r_key ?r) src)" for src
    by (simp only: pickSource_eq [OF i(2)] window_holds_run [OF assms])
  have saw: "seen_sectors (take 3 (drop i xs)) ?r = r_sector ?r # map r_sector rest"
    by (simp only: seen_sectors_eq [OF i(2)] window_holds_run [OF assms] hd list.map)
  have top: "(i = 0 \<or> r_key (xs ! (i - 1)) \<noteq> r_key ?r \<or> r_memb (xs ! (i - 1)) = 0 \<or> r_memb ?r = 0) = True"
    using first by (auto simp: first_at_def)
  have some: "presence (first_of (tagged_rows xs (r_key ?r) 0)) OR presence (first_of (tagged_rows xs (r_key ?r) 1)) OR
      presence (first_of (tagged_rows xs (r_key ?r) 2)) = 1"
    using hd by (auto simp: presence_def first_of_def split: list.splits)
  show ?thesis
    unfolding merge_row_def joined_row_def Let_def top saw win hd
    using memb bin some by (simp add: mark_row_def empty_union_def or.assoc)
qed

lemma merge_row_not_first:
  assumes wt: "well_tagged b xs" and i: "i < length xs" and "\<not> first_at xs i"
  shows "live (mark_row (merge_row xs i)) = 0"
proof (cases "isReal (xs ! i)")
  case True
  then have prev: "0 < i" "r_key (xs ! (i - 1)) = r_key (xs ! i)" using assms(2,3) by (auto simp: first_at_def)
  then have "isReal (xs ! (i - 1))" using well_tagged_same_key_real [OF wt i _ True, of "i - 1"] i by simp
  then show ?thesis using prev True by (simp add: merge_row_def mark_row_def Let_def isReal_def empty_union_def)
next
  case False
  then have "r_memb (xs ! i) = 0" using wt i by (auto simp: well_tagged_def isReal_def)
  then show ?thesis by (simp add: merge_row_def mark_row_def Let_def empty_union_def)
qed

lemma first_positions:
  assumes sorted: "sorted (map sort_pos xs)" and wt: "well_tagged b xs"
  shows "inj_on (\<lambda>i. r_key (xs ! i)) {i. first_at xs i}"
    and "(\<lambda>i. r_key (xs ! i)) ` {i. first_at xs i} = real_keys xs"
proof -
  have lt: "r_key (xs ! i) \<noteq> r_key (xs ! j)" if "first_at xs i" "first_at xs j" "i < j" for i j
  proof
    assume eq: "r_key (xs ! i) = r_key (xs ! j)"
    have "r_key (xs ! i) \<le> r_key (xs ! (j - 1))" "r_key (xs ! (j - 1)) \<le> r_key (xs ! j)"
      using sorted_keys_nth(1) [OF sorted] that by (auto simp: first_at_def)
    then show False using that eq by (auto simp: first_at_def)
  qed
  show "inj_on (\<lambda>i. r_key (xs ! i)) {i. first_at xs i}"
    by (rule inj_onI) (use lt in \<open>metis mem_Collect_eq nat_neq_iff\<close>)
  show "(\<lambda>i. r_key (xs ! i)) ` {i. first_at xs i} = real_keys xs"
  proof
    show "(\<lambda>i. r_key (xs ! i)) ` {i. first_at xs i} \<subseteq> real_keys xs"
      by (auto simp: real_keys_def first_at_def)
    show "real_keys xs \<subseteq> (\<lambda>i. r_key (xs ! i)) ` {i. first_at xs i}"
    proof
      fix k assume "k \<in> real_keys xs"
      then obtain m where m: "m < length xs \<and> isReal (xs ! m) \<and> r_key (xs ! m) = k"
        by (auto simp: real_keys_def in_set_conv_nth)
      then obtain i where i: "i < length xs" "isReal (xs ! i)" "r_key (xs ! i) = k"
        and least: "\<forall>j<i. \<not> (j < length xs \<and> isReal (xs ! j) \<and> r_key (xs ! j) = k)"
        using exists_least_iff [of "\<lambda>m. m < length xs \<and> isReal (xs ! m) \<and> r_key (xs ! m) = k"] by auto
      have "r_key (xs ! (i - 1)) \<noteq> k" if "i \<noteq> 0"
      proof
        assume k: "r_key (xs ! (i - 1)) = k"
        then have "isReal (xs ! (i - 1))" using well_tagged_same_key_real [OF wt i(1) _ i(2), of "i - 1"] i by simp
        then show False using least k i(1) that by simp
      qed
      then have "first_at xs i" using i by (auto simp: first_at_def)
      then show "k \<in> (\<lambda>i. r_key (xs ! i)) ` {i. first_at xs i}" using i(3) by auto
    qed
  qed
qed

text \<open>The live rows of a merged bin are the joined rows of its real keys, each once.\<close>

lemma merged_sorted_live:
  assumes sorted: "sorted (map sort_pos xs)" and wt: "well_tagged b xs"
  shows "mset (filter (\<lambda>u. live u \<noteq> 0) (markLive (windowedMerge xs))) =
    image_mset (joined_row xs b) (mset_set (real_keys xs))"
proof -
  let ?n = "length xs"
  have live: "live (mark_row (merge_row xs i)) \<noteq> 0 \<longleftrightarrow> first_at xs i" if "i < ?n" for i
    using merge_row_first [OF sorted wt, of i] merge_row_not_first [OF wt that]
    by (cases "first_at xs i") (auto simp: joined_row_def Let_def)
  have "filter (\<lambda>u. live u \<noteq> 0) (markLive (windowedMerge xs)) =
      map (\<lambda>i. mark_row (merge_row xs i)) (filter (\<lambda>i. live (mark_row (merge_row xs i)) \<noteq> 0) [0..<?n])"
    by (simp add: markLive_def windowedMerge_def filter_map comp_def)
  also have "filter (\<lambda>i. live (mark_row (merge_row xs i)) \<noteq> 0) [0..<?n] = filter (first_at xs) [0..<?n]"
    by (rule filter_cong) (simp_all add: live)
  also have "map (\<lambda>i. mark_row (merge_row xs i)) (filter (first_at xs) [0..<?n]) =
      map (\<lambda>i. joined_row xs b (r_key (xs ! i))) (filter (first_at xs) [0..<?n])"
    by (rule map_cong) (simp_all add: merge_row_first [OF sorted wt])
  finally have "mset (filter (\<lambda>u. live u \<noteq> 0) (markLive (windowedMerge xs))) =
      image_mset (joined_row xs b) (image_mset (\<lambda>i. r_key (xs ! i)) (mset (filter (first_at xs) [0..<?n])))"
    by (simp add: image_mset.compositionality comp_def)
  also have "mset (filter (first_at xs) [0..<?n]) = mset_set {i. first_at xs i}"
  proof -
    have "mset (filter (first_at xs) [0..<?n]) = mset_set (set (filter (first_at xs) [0..<?n]))"
      by (rule mset_set_set [symmetric]) simp
    moreover have "set (filter (first_at xs) [0..<?n]) = {i. first_at xs i}" by (auto simp: first_at_def)
    ultimately show ?thesis by simp
  qed
  also have "image_mset (\<lambda>i. r_key (xs ! i)) (mset_set {i. first_at xs i}) = mset_set (real_keys xs)"
    using image_mset_mset_set [OF first_positions(1) [OF sorted wt]] first_positions(2) [OF sorted wt] by simp
  finally show ?thesis .
qed

subsection \<open>The shuffle\<close>

lemma shuffle_perm_mset: "n < length perm \<Longrightarrow> mset (fst (shuffle_perm G n perm g)) = mset perm"
proof (induction n arbitrary: perm g)
  case (Suc n)
  obtain r g1 where r: "get_u64 G g = (r, g1)" by force
  let ?perm = "swap_at perm (Suc n) (unat r mod (Suc n + 1))"
  have "unat r mod (Suc n + 1) < length perm"
    using Suc.prems mod_less_divisor [of "Suc n + 1" "unat r"] by linarith
  then have m: "mset ?perm = mset perm" using Suc.prems by (intro mset_swap_at)
  then have "length ?perm = length perm" by (rule mset_eq_length)
  then have "mset (fst (shuffle_perm G n ?perm g1)) = mset ?perm" using Suc.prems by (intro Suc.IH) simp
  then show ?case using m by (simp add: r Let_def)
qed simp

lemma composedShuffle_returns:
  assumes "rows \<noteq> []"
  shows "\<exists>t g'. composedShuffle G rows g = Inr (t, g') \<and> mset t = mset rows"
proof -
  let ?n = "length rows"
  obtain perm g' where perm: "shuffle_perm G (?n - 1) [0..<?n] g = (perm, g')" by force
  have "?n - 1 < length [0..<?n]" using assms by simp
  then have m: "mset perm = mset [0..<?n]" using shuffle_perm_mset [of "?n - 1" "[0..<?n]" G g] perm by simp
  then have len: "length perm = ?n" using mset_eq_length by fastforce
  have "map (\<lambda>i. rows ! (perm ! i)) [0..<?n] = map ((!) rows) perm"
    using len by (intro nth_equalityI) simp_all
  moreover have "mset (map ((!) rows) perm) = image_mset ((!) rows) (mset [0..<?n])" by (simp only: mset_map m)
  moreover have "image_mset ((!) rows) (mset [0..<?n]) = mset rows" by (simp only: mset_map [symmetric] map_nth)
  ultimately show ?thesis using assms perm by (simp add: composedShuffle_def)
qed

subsection \<open>All bins\<close>

lemma mset_concat_upt: "mset (concat (map h [0..<n])) = (\<Sum>b<n. mset (h b))"
  by (induction n) simp_all

lemma markLive_concat: "markLive (concat xss) = concat (map markLive xss)"
  by (induction xss) (simp_all add: markLive_def)

lemma bins_of_tags:
  fixes T :: "(64 word \<times> 'k) set"
  assumes "finite T" "n \<le> 2 ^ 64"
  shows "image_mset F (mset_set {t\<in>T. unat (fst t) < n}) =
    (\<Sum>b<n. image_mset (\<lambda>k. F (word_of_nat b, k)) (mset_set {k. (word_of_nat b, k) \<in> T}))"
  using assms(2)
proof (induction n)
  case (Suc n)
  let ?b = "word_of_nat n :: 64 word" and ?K = "{k. (word_of_nat n, k) \<in> T}"
  have b: "unat ?b = n" using Suc.prems by (simp add: unat_of_nat take_bit_nat_eq_self)
  have fin: "finite ?K" using finite_imageI [OF assms(1), of snd] by (rule finite_subset [rotated]) force
  have "{t\<in>T. unat (fst t) < Suc n} = {t\<in>T. unat (fst t) < n} \<union> Pair ?b ` ?K"
  proof -
    have "t \<in> Pair ?b ` ?K" if "t \<in> T" "unat (fst t) = n" for t
    proof -
      have "fst t = ?b" using that(2) by (metis of_nat_unat ucast_id)
      then show ?thesis using that(1) by (cases t) auto
    qed
    then show ?thesis using b by (auto simp: less_Suc_eq)
  qed
  moreover have "{t\<in>T. unat (fst t) < n} \<inter> Pair ?b ` ?K = {}" using b by auto
  moreover have "finite {t\<in>T. unat (fst t) < n}" using assms(1) by simp
  ultimately have "mset_set {t\<in>T. unat (fst t) < Suc n} = mset_set {t\<in>T. unat (fst t) < n} + mset_set (Pair ?b ` ?K)"
    using fin by (simp add: mset_set_Union)
  moreover have "mset_set (Pair ?b ` ?K) = image_mset (Pair ?b) (mset_set ?K)"
    by (rule image_mset_mset_set [symmetric]) (simp add: inj_on_def)
  ultimately show ?case using Suc by (simp add: image_mset.compositionality comp_def)
qed simp

definition tag :: "Row \<Rightarrow> 64 word \<times> 64 word" where
  "tag r = (r_bin r, r_key r)"

lemma packed_bin:
  assumes "packBins G src rows params g = Inr (t, g')" "b < 2 ^ beta params" "distinct (map tag rows)"
  shows "\<exists>ds. bt_rows t ! b = rows_in_bin rows b @ ds \<and> length (bt_rows t ! b) = cap_P params \<and>
    (\<forall>d\<in>set ds. r_memb d = 0 \<and> r_source d = src \<and> r_bin d = word_of_nat b) \<and>
    (\<forall>r\<in>set (rows_in_bin rows b). r_memb r = 1 \<and> r_source r = src \<and> r_bin r = word_of_nat b) \<and>
    distinct (map sort_pos (rows_in_bin rows b))"
proof -
  have ok: "packable src rows params" using packBins_iff [of G src rows params g] assms(1) by blast
  obtain ks where ks: "bt_rows t ! b = rows_in_bin rows b @ map (dummy_row (tau_bits params) src b) ks"
      "length (bt_rows t ! b) = cap_P params"
    using packBins_rows [OF assms(1)] assms(2) by blast
  have real: "\<forall>r\<in>set (rows_in_bin rows b). r_memb r = 1 \<and> r_source r = src \<and> r_bin r = word_of_nat b"
    using ok by (auto simp: packable_def rows_in_bin_def)
  have "inj_on sort_pos (set (rows_in_bin rows b))"
  proof (rule inj_onI)
    fix x y assume xy: "x \<in> set (rows_in_bin rows b)" "y \<in> set (rows_in_bin rows b)" "sort_pos x = sort_pos y"
    then have "tag x = tag y" using real by (simp add: tag_def sort_pos_def)
    then show "x = y" using assms(3) xy(1,2) by (auto simp: distinct_map rows_in_bin_def dest: inj_onD)
  qed
  moreover have "distinct (rows_in_bin rows b)" using assms(3) by (simp add: distinct_map rows_in_bin_def)
  ultimately show ?thesis using ks real
    by (intro exI [of _ "map (dummy_row (tau_bits params) src b) ks"]) (auto simp: dummy_row_def distinct_map)
qed

lemma merged_bin_live:
  assumes M: "packBins G 0 mas params g = Inr (tM, g1)" "distinct (map tag mas)"
    and D: "packBins G 1 dos params g1 = Inr (tD, g2)" "distinct (map tag dos)"
    and O: "packBins G 2 mom params g2 = Inr (tO, g3)" "distinct (map tag mom)"
    and b: "b < 2 ^ beta params"
    and free: "\<forall>d\<in>set (bt_rows tM ! b @ bt_rows tD ! b @ bt_rows tO ! b).
      \<forall>r\<in>set (bt_rows tM ! b @ bt_rows tD ! b @ bt_rows tO ! b). r_memb d = 0 \<longrightarrow> r_memb r = 1 \<longrightarrow> r_key d \<noteq> r_key r"
  shows "length (merged_bin tM tD tO b) = 3 * cap_P params"
    and "mset (filter (\<lambda>u. live u \<noteq> 0) (markLive (merged_bin tM tD tO b))) =
      image_mset (\<lambda>k. joined_row (rows_in_bin (mas @ dos @ mom) b) (word_of_nat b) k)
        (mset_set (r_key ` set (rows_in_bin (mas @ dos @ mom) b)))"
proof -
  let ?w = "word_of_nat b :: 64 word" and ?all = "rows_in_bin (mas @ dos @ mom) b"
  obtain dm where m: "bt_rows tM ! b = rows_in_bin mas b @ dm" "length (bt_rows tM ! b) = cap_P params"
      "\<forall>d\<in>set dm. r_memb d = 0 \<and> r_source d = 0 \<and> r_bin d = ?w"
      "\<forall>r\<in>set (rows_in_bin mas b). r_memb r = 1 \<and> r_source r = 0 \<and> r_bin r = ?w"
      "distinct (map sort_pos (rows_in_bin mas b))"
    using packed_bin [OF M(1) b M(2)] by blast
  obtain dd where d: "bt_rows tD ! b = rows_in_bin dos b @ dd" "length (bt_rows tD ! b) = cap_P params"
      "\<forall>d\<in>set dd. r_memb d = 0 \<and> r_source d = 1 \<and> r_bin d = ?w"
      "\<forall>r\<in>set (rows_in_bin dos b). r_memb r = 1 \<and> r_source r = 1 \<and> r_bin r = ?w"
      "distinct (map sort_pos (rows_in_bin dos b))"
    using packed_bin [OF D(1) b D(2)] by blast
  obtain dw where o: "bt_rows tO ! b = rows_in_bin mom b @ dw" "length (bt_rows tO ! b) = cap_P params"
      "\<forall>d\<in>set dw. r_memb d = 0 \<and> r_source d = 2 \<and> r_bin d = ?w"
      "\<forall>r\<in>set (rows_in_bin mom b). r_memb r = 1 \<and> r_source r = 2 \<and> r_bin r = ?w"
      "distinct (map sort_pos (rows_in_bin mom b))"
    using packed_bin [OF O(1) b O(2)] by blast
  let ?xs = "bt_rows tM ! b @ bt_rows tD ! b @ bt_rows tO ! b"
  have all: "?all = rows_in_bin mas b @ rows_in_bin dos b @ rows_in_bin mom b" by (simp add: rows_in_bin_def)
  have drop: "filter isReal (rows_in_bin rows b @ ds) = rows_in_bin rows b"
    if "\<forall>d\<in>set ds. r_memb d = 0 \<and> r_source d = src \<and> r_bin d = ?w"
      "\<forall>r\<in>set (rows_in_bin rows b). r_memb r = 1 \<and> r_source r = src \<and> r_bin r = ?w" for rows ds and src :: "32 word"
    using that by (auto simp: isReal_def filter_empty_conv filter_id_conv)
  have real: "filter isReal ?xs = ?all"
    unfolding m(1) d(1) o(1) all filter_append [of isReal "rows_in_bin mas b @ dm"]
      filter_append [of isReal "rows_in_bin dos b @ dd"] drop [OF m(3,4)] drop [OF d(3,4)] drop [OF o(3,4)] ..
  have "set (map sort_pos (rows_in_bin mas b)) \<inter> set (map sort_pos (rows_in_bin dos b)) = {}"
    "set (map sort_pos (rows_in_bin mas b)) \<inter> set (map sort_pos (rows_in_bin mom b)) = {}"
    "set (map sort_pos (rows_in_bin dos b)) \<inter> set (map sort_pos (rows_in_bin mom b)) = {}"
    using m(4) d(4) o(4) by (fastforce simp: sort_pos_def)+
  then have dist: "distinct (map sort_pos ?all)"
    unfolding all map_append distinct_append set_append Int_Un_distrib using m(5) d(5) o(5) by (simp only: simp_thms Un_empty)
  have rows: "r_memb r \<in> {0, 1} \<and> r_source r \<in> {0, 1, 2} \<and> r_bin r = ?w" if "r \<in> set ?xs" for r
    using that unfolding m(1) d(1) o(1) using m(3,4) d(3,4) o(3,4) by auto
  have wt: "well_tagged ?w ?xs"
    unfolding well_tagged_def using rows free dist by (simp only: real) blast
  have src: "\<forall>r\<in>set ?xs. r_source r < 4"
  proof
    fix r assume "r \<in> set ?xs"
    then have "r_source r = 0 \<or> r_source r = 1 \<or> r_source r = 2" using rows by blast
    then show "r_source r < 4" by auto
  qed
  let ?ys = "sort_key sort_pos ?xs"
  have sort: "withinBinSort ?xs = ?ys" using withinBinSort_eq [OF src] .
  show "length (merged_bin tM tD tO b) = 3 * cap_P params"
    by (simp add: merged_bin_def windowedMerge_def sort m(2) d(2) o(2))
  have perm: "mset ?ys = mset ?xs" by (rule mset_sort)
  have wty: "well_tagged ?w ?ys" using well_tagged_perm [OF perm] wt by blast
  have tags: "tagged_rows ?xs k s = tagged_rows ?all k s" for k s
    unfolding real [symmetric] by (auto simp: tagged_rows_def isReal_def intro: filter_cong)
  have "joined_row ?ys ?w k = joined_row ?all ?w k" for k
    using joined_row_perm [OF perm, of ?w k] wty by (simp add: well_tagged_def joined_row_def tags)
  then have j: "joined_row ?ys ?w = joined_row ?all ?w" by (rule ext)
  have k: "real_keys ?ys = r_key ` set ?all"
    unfolding real_keys_def set_sort real [symmetric] by auto
  show "mset (filter (\<lambda>u. live u \<noteq> 0) (markLive (merged_bin tM tD tO b))) =
      image_mset (\<lambda>k. joined_row ?all ?w k) (mset_set (r_key ` set ?all))"
    using merged_sorted_live [OF sorted_sort_key wty] unfolding merged_bin_def sort j k .
qed

lemma runFPsa_live:
  assumes "packBins G 0 mas params g = Inr (tM, g1)" "packBins G 1 dos params g1 = Inr (tD, g2)"
    "packBins G 2 mom params g2 = Inr (tO, g3)"
    and tags: "distinct (map tag mas)" "distinct (map tag dos)" "distinct (map tag mom)"
    and free: "\<forall>b<2 ^ beta params. \<forall>d\<in>set (bt_rows tM ! b @ bt_rows tD ! b @ bt_rows tO ! b).
      \<forall>r\<in>set (bt_rows tM ! b @ bt_rows tD ! b @ bt_rows tO ! b). r_memb d = 0 \<longrightarrow> r_memb r = 1 \<longrightarrow> r_key d \<noteq> r_key r"
    and cap: "0 < cap_P params"
  shows "\<exists>res g4. runFPsa G mas dos mom params g = Inr (res, g4) \<and>
    length (ar_table res) = 3 * cap_P params * 2 ^ beta params \<and>
    mset (filter (\<lambda>u. live u \<noteq> 0) (ar_table res)) =
      image_mset (\<lambda>(b, k). joined_row (rows_in_bin (mas @ dos @ mom) (unat b)) b k)
        (mset_set (tag ` set (mas @ dos @ mom))) \<and>
    live_rows (auditAlignment res) = card (tag ` set (mas @ dos @ mom))"
proof -
  let ?n = "2 ^ beta params :: nat" and ?all = "mas @ dos @ mom"
  let ?T = "tag ` set ?all" and ?J = "\<lambda>(b, k). joined_row (rows_in_bin ?all (unat b)) b k"
  let ?union = "concat (map (merged_bin tM tD tO) [0..<?n])"
  note bin = merged_bin_live [OF assms(1) tags(1) assms(2) tags(2) assms(3) tags(3)]
  have ok: "packable 0 mas params" "packable 1 dos params" "packable 2 mom params"
    using packBins_iff [of G 0 mas params g] packBins_iff [of G 1 dos params g1] packBins_iff [of G 2 mom params g2]
      assms(1-3) by blast+
  then have "beta params < 64" by (simp add: packable_def)
  then have n: "?n \<le> 2 ^ 64" by (intro power_increasing) simp_all
  have in_range: "unat (r_bin r) < ?n" if "r \<in> set ?all" for r using ok that by (auto simp: packable_def)
  have len_bin: "length (merged_bin tM tD tO b) = 3 * cap_P params" if "b < ?n" for b using bin(1) [OF that] free that by blast
  have "map length (map (merged_bin tM tD tO) [0..<?n]) = map (\<lambda>b. 3 * cap_P params) [0..<?n]"
    using len_bin by simp
  then have "length ?union = sum_list (map (\<lambda>b. 3 * cap_P params) [0..<?n])" by (simp only: length_concat)
  then have len: "length ?union = 3 * cap_P params * ?n" by (simp add: sum_list_triv)
  have "mset (filter (\<lambda>u. live u \<noteq> 0) (markLive ?union)) =
      (\<Sum>b<?n. mset (filter (\<lambda>u. live u \<noteq> 0) (markLive (merged_bin tM tD tO b))))"
    by (simp add: markLive_concat filter_concat comp_def mset_concat_upt)
  also have "\<dots> = (\<Sum>b<?n. image_mset (\<lambda>k. ?J (word_of_nat b, k)) (mset_set {k. (word_of_nat b, k) \<in> ?T}))"
  proof (rule sum.cong)
    fix b assume "b \<in> {..<?n}"
    then have b: "b < ?n" by simp
    then have u: "unat (word_of_nat b :: 64 word) = b" using n by (simp add: unat_of_nat take_bit_nat_eq_self)
    have "{k. (word_of_nat b, k) \<in> ?T} = r_key ` set (rows_in_bin ?all b)"
      using u by (auto simp: tag_def rows_in_bin_def image_iff)
    with bin(2) [OF b] free b u
    show "mset (filter (\<lambda>u. live u \<noteq> 0) (markLive (merged_bin tM tD tO b))) =
        image_mset (\<lambda>k. ?J (word_of_nat b, k)) (mset_set {k. (word_of_nat b, k) \<in> ?T})" by simp
  qed simp
  also have "\<dots> = image_mset ?J (mset_set {t\<in>?T. unat (fst t) < ?n})"
    using bins_of_tags [of ?T ?n ?J] n by simp
  also have "{t\<in>?T. unat (fst t) < ?n} = ?T" using in_range by (auto simp: tag_def)
  finally have live: "mset (filter (\<lambda>u. live u \<noteq> 0) (markLive ?union)) = image_mset ?J (mset_set ?T)" .
  have "length (markLive ?union) = 3 * cap_P params * ?n" unfolding markLive_def length_map by (rule len)
  then have "markLive ?union \<noteq> []" using cap by (intro notI) (simp only: list.size, simp)
  from composedShuffle_returns [OF this, of G g3] obtain t g4 where
    t: "composedShuffle G (markLive ?union) g3 = Inr (t, g4)" "mset t = mset (markLive ?union)" by blast
  have "length t = 3 * cap_P params * ?n" using mset_eq_length [OF t(2)] len by (simp add: markLive_def)
  moreover have m: "mset (filter (\<lambda>u. live u \<noteq> 0) t) = image_mset ?J (mset_set ?T)" using t(2) live by simp
  moreover have "length (filter (\<lambda>u. live u \<noteq> 0) t) = card ?T"
    using arg_cong [OF m, of size] by (simp only: size_mset size_image_mset size_mset_set)
  ultimately show ?thesis
    using assms(1-3) t(1) by (simp add: runFPsa_def auditAlignment_def)
qed

subsection \<open>The rows of the table\<close>

definition payload_from :: "Row list \<Rightarrow> PayloadPerSource \<Rightarrow> bool" where
  "payload_from rows p \<longleftrightarrow> p = empty_payload \<or> p \<in> r_payload ` set rows"

definition row_from :: "Row list \<Rightarrow> UnionRow \<Rightarrow> bool" where
  "row_from rows u \<longleftrightarrow> b_MAS u \<le> 1 \<and> b_DOS u \<le> 1 \<and> b_MOM u \<le> 1 \<and> live u \<le> 1 \<and>
     payload_from rows (p_MAS u) \<and> payload_from rows (p_DOS u) \<and> payload_from rows (p_MOM u)"

lemma presence_le_1: "presence c \<le> 1"
  by (simp add: presence_def split: option.splits)

lemma and_le_1: "a \<le> 1 \<Longrightarrow> a AND b \<le> 1" for a :: "8 word"
  using word_and_le2 [of a b] by (rule order_trans)

lemma picked_payload_from: "set w \<subseteq> set rows \<Longrightarrow> payload_from rows (picked_payload (pickSource w r src))"
  by (force simp: payload_from_def picked_payload_def pickSource_def find_Some_iff split: option.splits
      dest: nth_mem)

lemma merge_row_from: "row_from sorted_bin (mark_row (merge_row sorted_bin i))"
proof -
  have "set (take 3 (drop i sorted_bin)) \<subseteq> set sorted_bin"
    by (meson order_trans set_drop_subset set_take_subset)
  then show ?thesis
    by (auto simp: row_from_def merge_row_def mark_row_def Let_def empty_union_def presence_le_1 and_le_1
        picked_payload_from payload_from_def [of _ empty_payload])
qed

lemma row_from_mono:
  "row_from rows u \<Longrightarrow> \<forall>r\<in>set rows. payload_from rows' (r_payload r) \<Longrightarrow> row_from rows' u"
  by (auto simp: row_from_def payload_from_def)

lemma payload_from_sorted:
  "\<forall>r\<in>set bin. payload_from rows (r_payload r) \<Longrightarrow>
   \<forall>r\<in>set (withinBinSort bin). payload_from rows (r_payload r)"
  by (auto simp: withinBinSort_def Let_def dead_row_def payload_from_def dest!: in_set_takeD)

lemma packBins_payloads:
  assumes "packBins G source rows params g = Inr (t, g')" "b < 2 ^ beta params"
  shows "\<forall>r\<in>set (bt_rows t ! b). payload_from rows (r_payload r)"
proof -
  obtain ks where "bt_rows t ! b = rows_in_bin rows b @ map (dummy_row (tau_bits params) source b) ks"
    using packBins_rows [OF assms(1)] assms(2) by blast
  then show ?thesis by (auto simp: rows_in_bin_def dummy_row_def payload_from_def)
qed

lemma payload_from_weaken: "payload_from xs p \<Longrightarrow> set xs \<subseteq> set ys \<Longrightarrow> payload_from ys p"
  by (auto simp: payload_from_def)

lemma runFPsa_rows_from:
  assumes "runFPsa G mas dos mom params g = Inr (res, g')" "u \<in> set (ar_table res)"
  shows "row_from (mas @ dos @ mom) u"
proof -
  let ?all = "mas @ dos @ mom"
  from assms(1) obtain tM g1 tD g2 tO g3 where
    t: "packBins G 0 mas params g = Inr (tM, g1)" "packBins G 1 dos params g1 = Inr (tD, g2)"
      "packBins G 2 mom params g2 = Inr (tO, g3)"
    and sh: "composedShuffle G (markLive (concat (map (merged_bin tM tD tO) [0..<2 ^ beta params]))) g3 = Inr (ar_table res, g')"
    by (auto simp: runFPsa_def bindE_eq_Inr Let_def)
  have "markLive (concat (map (merged_bin tM tD tO) [0..<2 ^ beta params])) \<noteq> []"
    using sh by (auto simp: composedShuffle_def)
  from composedShuffle_returns [OF this, of G g3] sh
  have "mset (ar_table res) = mset (markLive (concat (map (merged_bin tM tD tO) [0..<2 ^ beta params])))" by auto
  then have "u \<in> set (markLive (concat (map (merged_bin tM tD tO) [0..<2 ^ beta params])))"
    using assms(2) by (metis set_mset_mset)
  then obtain b i where b: "b < 2 ^ beta params" and
    u: "u = mark_row (merge_row (withinBinSort (bt_rows tM ! b @ bt_rows tD ! b @ bt_rows tO ! b)) i)"
    by (auto simp: markLive_def merged_bin_def windowedMerge_def)
  have "\<forall>r\<in>set (bt_rows tM ! b @ bt_rows tD ! b @ bt_rows tO ! b). payload_from ?all (r_payload r)"
    using packBins_payloads [OF t(1) b] packBins_payloads [OF t(2) b] packBins_payloads [OF t(3) b]
    by (auto elim!: payload_from_weaken)
  from payload_from_sorted [OF this] show ?thesis
    unfolding u using merge_row_from row_from_mono by blast
qed

subsection \<open>Properties\<close>

text \<open>C2: when the three tables were packed, no dummy drew the key of a real row of its bin, and no
  source has two rows with the same tag, the alignment returns a table of the fixed public size
  whose live rows are, as a multiset, the full outer join of the three sources by tag: one row per
  (bin, key) that any source holds, with the presence bit and the payload of each source. The
  audit counts them.\<close>

theorem runFPsa_joins:
  assumes "packBins G 0 mas params g = Inr (tM, g1)" "packBins G 1 dos params g1 = Inr (tD, g2)"
    "packBins G 2 mom params g2 = Inr (tO, g3)"
    and tags: "distinct (map tag mas)" "distinct (map tag dos)" "distinct (map tag mom)"
    and free: "\<forall>b<2 ^ beta params. \<forall>d\<in>set (bt_rows tM ! b @ bt_rows tD ! b @ bt_rows tO ! b).
      \<forall>r\<in>set (bt_rows tM ! b @ bt_rows tD ! b @ bt_rows tO ! b). r_memb d = 0 \<longrightarrow> r_memb r = 1 \<longrightarrow> r_key d \<noteq> r_key r"
    and cap: "0 < cap_P params"
  shows "\<exists>res g4. runFPsa G mas dos mom params g = Inr (res, g4) \<and>
    length (ar_table res) = 3 * cap_P params * 2 ^ beta params \<and>
    mset (filter (\<lambda>u. live u \<noteq> 0) (ar_table res)) =
      image_mset (\<lambda>(b, k). joined_row (rows_in_bin (mas @ dos @ mom) (unat b)) b k)
        (mset_set (tag ` set (mas @ dos @ mom))) \<and>
    live_rows (auditAlignment res) = card (tag ` set (mas @ dos @ mom))"
  by (rule runFPsa_live [OF assms])

definition example_row :: "32 word \<Rightarrow> 64 word \<Rightarrow> 64 word \<Rightarrow> Row" where
  "example_row src k sector = \<lparr>r_bin = 0, r_source = src, r_key = k, r_memb = 1, r_period = 202601, r_sector = sector,
     r_payload = empty_payload\<rparr>"

lemma runFPsa_joins_witness:
  "\<exists>res g4. runFPsa counter_prng [example_row 0 7 3] [example_row 1 7 4] [] \<lparr>beta = 0, tau_bits = 71, cap_P = 1\<rparr> 5 = Inr (res, g4) \<and>
    length (ar_table res) = 3 \<and> live_rows (auditAlignment res) = 1"
proof -
  let ?p = "\<lparr>beta = 0, tau_bits = 71, cap_P = 1\<rparr>"
  have M: "packBins counter_prng 0 [example_row 0 7 3] ?p 5 =
      Inr (\<lparr>bt_beta = 0, bt_cap_P = 1, bt_rows = [[example_row 0 7 3]]\<rparr>, 5)"
    by (simp add: packBins_def assertNoDuplicateEntityPeriod_def isReal_def example_row_def place_row_def pad_bin_def Let_def)
  have D: "packBins counter_prng 1 [example_row 1 7 4] ?p 5 =
      Inr (\<lparr>bt_beta = 0, bt_cap_P = 1, bt_rows = [[example_row 1 7 4]]\<rparr>, 5)"
    by (simp add: packBins_def assertNoDuplicateEntityPeriod_def isReal_def example_row_def place_row_def pad_bin_def Let_def)
  have O: "packBins counter_prng 2 [] ?p 5 =
      Inr (\<lparr>bt_beta = 0, bt_cap_P = 1, bt_rows = [[dummy_row 71 2 0 5]]\<rparr>, 6)"
    by (simp add: packBins_def assertNoDuplicateEntityPeriod_def pad_bin_def Let_def counter_prng_def)
  show ?thesis
    using runFPsa_joins [OF M D O]
    by (auto simp: example_row_def dummy_row_def tag_def)
qed

text \<open>Packing returns exactly when the rows are valid: \<open>beta\<close> below 64, no real (key, period) twice, every
  row real, of the right source and in a bin that exists, and no bin over its capacity. Then every
  bin holds exactly \<open>cap_P\<close> rows, the real ones of that bin in input order and then dummies.\<close>

theorem packBins_decides:
  "if packable source rows params
   then \<exists>t g'. packBins G source rows params g = Inr (t, g') \<and> length (bt_rows t) = 2 ^ beta params \<and>
     list_all (\<lambda>b. length (bt_rows t ! b) = cap_P params \<and>
       filter isReal (bt_rows t ! b) = rows_in_bin rows b) [0..<2 ^ beta params]
   else \<nexists>t g'. packBins G source rows params g = Inr (t, g')"
proof (cases "packable source rows params")
  case True
  then obtain t g' where t: "packBins G source rows params g = Inr (t, g')" using packBins_iff [of G source rows params g] by blast
  have "length (bt_rows t ! b) = cap_P params \<and> filter isReal (bt_rows t ! b) = rows_in_bin rows b"
    if b: "b < 2 ^ beta params" for b
  proof -
    obtain ks where "length (bt_rows t ! b) = cap_P params"
        "bt_rows t ! b = rows_in_bin rows b @ map (dummy_row (tau_bits params) source b) ks"
      using packBins_rows [OF t] b by blast
    moreover have "\<forall>r\<in>set (rows_in_bin rows b). isReal r"
      using True by (auto simp: packable_def rows_in_bin_def isReal_def)
    ultimately show ?thesis by (auto simp: filter_empty_conv filter_id_conv isReal_def dummy_row_def)
  qed
  then show ?thesis using True t packBins_rows [OF t] by (auto simp: list_all_iff)
next
  case False
  then show ?thesis using packBins_iff [of G source rows params g] by simp
qed

end
