(* ===== verification/Bytes.thy ===== *)
theory Bytes
  imports Prelude
begin

text \<open>
  Byte strings: the little-endian encodings that the hashing and wire code writes out
  (\<open>appendU64LE\<close> and its unrolled copies), reading them back, length-prefixed strings, and the
  facts that make an encoding injective: each field is read back from the front.

  The hash (\<open>crypto_hash_sha256\<close> of libsodium) is a parameter \<open>H\<close> from byte strings to byte
  strings wherever it is used.
\<close>

type_synonym byte = "8 word"
type_synonym bytes = "8 word list"

definition le_bytes :: "nat \<Rightarrow> 'a::len word \<Rightarrow> bytes" where
  "le_bytes n w = map (\<lambda>i. ucast (drop_bit (8 * i) w)) [0..<n]"

text \<open>\<open>for (i = n - 1; i >= 0; --i) v = (v << 8) | buf[i]\<close>.\<close>

definition le_read :: "bytes \<Rightarrow> 'a::len word" where
  "le_read bs = foldr (\<lambda>b acc. push_bit 8 acc OR ucast b) bs 0"

definition str_bytes :: "string \<Rightarrow> bytes" where
  "str_bytes s = map of_char s"

definition len_prefixed :: "string \<Rightarrow> bytes" where
  "len_prefixed s = le_bytes 4 (word_of_nat (length s) :: 32 word) @ str_bytes s"

lemma length_le_bytes [simp]: "length (le_bytes n w) = n"
  by (simp add: le_bytes_def)

lemma nth_le_bytes: "i < n \<Longrightarrow> le_bytes n w ! i = ucast (drop_bit (8 * i) w)"
  by (simp add: le_bytes_def)

lemma bit_le_read:
  "bit (le_read bs :: 'a::len word) k \<longleftrightarrow>
     k < LENGTH('a) \<and> k div 8 < length bs \<and> bit (bs ! (k div 8)) (k mod 8)"
proof (induction bs arbitrary: k)
  case (Cons b bs)
  have rd: "le_read (b # bs) = push_bit 8 (le_read bs :: 'a word) OR ucast b"
    by (simp add: le_read_def)
  show ?case
  proof (cases "k < 8")
    case True
    then show ?thesis unfolding rd by (auto simp: bit_simps)
  next
    case False
    then obtain j where k: "k = j + 8" by (metis add.commute le_Suc_ex not_less)
    have "\<not> bit b (j + 8)" using bit_imp_le_length [of b "j + 8"] by auto
    moreover have "(j + 8) div 8 = Suc (j div 8)" by simp
    ultimately show ?thesis unfolding rd k
      using Cons.IH [of j] by (auto simp: bit_simps)
  qed
qed (simp add: le_read_def)

lemma le_read_le_bytes: "LENGTH('a) = 8 * n \<Longrightarrow> le_read (le_bytes n w) = (w :: 'a::len word)"
proof (rule bit_word_eqI)
  fix k assume len: "LENGTH('a) = 8 * n" and k: "k < LENGTH('a)"
  then have "k div 8 < n" by simp
  then show "bit (le_read (le_bytes n w) :: 'a word) k = bit w k"
    using k by (simp add: bit_le_read nth_le_bytes bit_simps)
qed

named_theorems decode_simps \<open>a field in front of an encoding is determined by it\<close>

lemma le_bytes_inject [decode_simps]:
  fixes v w :: "'a::len word"
  assumes "LENGTH('a) = 8 * n"
  shows "le_bytes n v = le_bytes n w \<longleftrightarrow> v = w"
proof
  assume "le_bytes n v = le_bytes n w"
  then have "(le_read (le_bytes n v) :: 'a word) = le_read (le_bytes n w)" by (rule arg_cong)
  then show "v = w" by (simp only: le_read_le_bytes [OF assms])
qed simp

text \<open>Fields at the front of an encoding are read off one after the other.\<close>

lemma le_bytes_append [decode_simps]:
  fixes v w :: "'a::len word"
  assumes "LENGTH('a) = 8 * n"
  shows "le_bytes n v @ xs = le_bytes n w @ ys \<longleftrightarrow> v = w \<and> xs = ys"
  using le_bytes_inject [OF assms, of v w] by (simp add: append_eq_append_conv)

lemma str_bytes_inject [simp]: "str_bytes s = str_bytes t \<longleftrightarrow> s = t"
proof
  assume eq: "str_bytes s = str_bytes t"
  have inj: "inj (of_char :: char \<Rightarrow> 8 word)"
  proof (rule injI)
    fix a b :: char
    assume "(of_char a :: 8 word) = of_char b"
    then have "unat (of_char a :: 8 word) = unat (of_char b :: 8 word)" by simp
    moreover have "unat (of_char c :: 8 word) = of_char c" for c :: char
      by (cases c) (simp add: of_char_def)
    ultimately show "a = b" by (simp add: of_char_eq_iff)
  qed
  show "s = t" using eq inj_map_eq_map [OF inj] by (simp add: str_bytes_def)
qed simp

lemma length_str_bytes [simp]: "length (str_bytes s) = length s"
  by (simp add: str_bytes_def)

lemma len_prefixed_append [decode_simps]:
  assumes "length s < 2 ^ 32" "length t < 2 ^ 32"
  shows "len_prefixed s @ xs = len_prefixed t @ ys \<longleftrightarrow> s = t \<and> xs = ys"
proof
  assume "len_prefixed s @ xs = len_prefixed t @ ys"
  then have "(word_of_nat (length s) :: 32 word) = word_of_nat (length t)" and
    rest: "str_bytes s @ xs = str_bytes t @ ys"
    by (simp_all add: len_prefixed_def decode_simps)
  then have "unat (word_of_nat (length s) :: 32 word) = unat (word_of_nat (length t) :: 32 word)" by simp
  then have "length s = length t" using assms by (simp add: unat_of_nat take_bit_eq_mod)
  with rest show "s = t \<and> xs = ys" by simp
qed simp

end
