(* ===== verification/Prod_Hygiene.thy ===== *)
theory Prod_Hygiene
  imports Bytes
begin

text \<open>
  Production hygiene (\<open>volePSI/MpsvsProdHygiene.h\<close>, \<open>volePSI/MpsvsProdHygiene.cpp\<close>): sampling from
  the operating system's generator, the rejection sampler for bounded integers, and the
  hash-chained abort reports.

  The generator (\<open>randombytes_buf\<close>) is the parameter \<open>R\<close>, read a byte at a time, SHA-256 is the
  parameter \<open>H\<close>, the wall clock an argument. \<open>sodium_init\<close> is taken to succeed. A hash value is a
  list of bytes.
\<close>

definition secureRandBytes :: "'r prng \<Rightarrow> nat \<Rightarrow> 'r \<Rightarrow> bytes \<times> 'r" where
  "secureRandBytes R n = draws (get_u8 R) n"

definition secureRandU64 :: "'r prng \<Rightarrow> 'r \<Rightarrow> 64 word \<times> 'r" where
  "secureRandU64 R r = (let (bs, r1) = secureRandBytes R 8 r in (le_read bs, r1))"

definition rand_limit :: "64 word \<Rightarrow> 64 word" where
  "rand_limit upper = (- 1) - ((- 1) mod upper)"

partial_function (option) randBounded_loop ::
  "'r prng \<Rightarrow> 64 word \<Rightarrow> 'r \<Rightarrow> (64 word \<times> 'r) option" where
  "randBounded_loop R upper r =
     (let (x, r1) = secureRandU64 R r
      in if x \<ge> rand_limit upper then randBounded_loop R upper r1 else Some (x mod upper, r1))"

definition secureRandU64Bounded :: "'r prng \<Rightarrow> 64 word \<Rightarrow> 'r \<Rightarrow> (64 word \<times> 'r) option" where
  "secureRandU64Bounded R upper r = (if upper = 0 then Some (0, r) else randBounded_loop R upper r)"

subsection \<open>Abort reports\<close>

datatype AbortReason =
    NONE | MAC_FAIL | SACRIFICE_FAIL | DLEQ_FAIL | NIZK_SHUFFLE_FAIL | BIT_PROOF_FAIL
  | RECIP_INVARIANT_FAIL | DP_COMMIT_MISMATCH | OLE_INVARIANT_FAIL

fun reason_code :: "AbortReason \<Rightarrow> byte" where
  "reason_code NONE = 0"
| "reason_code MAC_FAIL = 1"
| "reason_code SACRIFICE_FAIL = 2"
| "reason_code DLEQ_FAIL = 3"
| "reason_code NIZK_SHUFFLE_FAIL = 4"
| "reason_code BIT_PROOF_FAIL = 5"
| "reason_code RECIP_INVARIANT_FAIL = 6"
| "reason_code DP_COMMIT_MISMATCH = 7"
| "reason_code OLE_INVARIANT_FAIL = 8"

fun abortReasonName :: "AbortReason \<Rightarrow> string" where
  "abortReasonName NONE = ''NONE''"
| "abortReasonName MAC_FAIL = ''MAC_FAIL''"
| "abortReasonName SACRIFICE_FAIL = ''SACRIFICE_FAIL''"
| "abortReasonName DLEQ_FAIL = ''DLEQ_FAIL''"
| "abortReasonName NIZK_SHUFFLE_FAIL = ''NIZK_SHUFFLE_FAIL''"
| "abortReasonName BIT_PROOF_FAIL = ''BIT_PROOF_FAIL''"
| "abortReasonName RECIP_INVARIANT_FAIL = ''RECIP_INVARIANT_FAIL''"
| "abortReasonName DP_COMMIT_MISMATCH = ''DP_COMMIT_MISMATCH''"
| "abortReasonName OLE_INVARIANT_FAIL = ''OLE_INVARIANT_FAIL''"

record AbortContext =
  protocol_phase :: string
  party_id :: "32 word"
  cell_key :: string
  extra_notes :: string

record AbortReport =
  ar_reason :: AbortReason
  ar_ctx :: AbortContext
  timestamp_ns :: "64 word"
  prev_link :: bytes
  this_link :: bytes

definition isAbort :: "AbortReport \<Rightarrow> bool" where
  "isAbort r \<longleftrightarrow> ar_reason r \<noteq> NONE"

definition link_bytes :: "AbortReason \<Rightarrow> AbortContext \<Rightarrow> 64 word \<Rightarrow> bytes \<Rightarrow> bytes" where
  "link_bytes reason ctx ts prev =
     [reason_code reason] @ le_bytes 4 (party_id ctx) @ le_bytes 8 ts @
     len_prefixed (protocol_phase ctx) @ len_prefixed (cell_key ctx) @ len_prefixed (extra_notes ctx) @ prev"

definition computeLink ::
  "(bytes \<Rightarrow> bytes) \<Rightarrow> AbortReason \<Rightarrow> AbortContext \<Rightarrow> 64 word \<Rightarrow> bytes \<Rightarrow> bytes" where
  "computeLink H reason ctx ts prev = H (link_bytes reason ctx ts prev)"

definition makeAbortReport ::
  "(bytes \<Rightarrow> bytes) \<Rightarrow> 64 word \<Rightarrow> AbortReason \<Rightarrow> AbortContext \<Rightarrow> bytes \<Rightarrow> AbortReport" where
  "makeAbortReport H now reason ctx prev =
     \<lparr>ar_reason = reason, ar_ctx = ctx, timestamp_ns = now, prev_link = prev,
      this_link = computeLink H reason ctx now prev\<rparr>"

fun verifyAbortChain_from :: "(bytes \<Rightarrow> bytes) \<Rightarrow> AbortReport list \<Rightarrow> nat list \<Rightarrow> bool" where
  "verifyAbortChain_from H chain [] = True"
| "verifyAbortChain_from H chain (i # is) =
     (let r = chain ! i; expected = computeLink H (ar_reason r) (ar_ctx r) (timestamp_ns r) (prev_link r)
      in if expected \<noteq> this_link r then False
         else if i > 0 \<and> prev_link r \<noteq> this_link (chain ! (i - 1)) then False
         else verifyAbortChain_from H chain is)"

definition verifyAbortChain :: "(bytes \<Rightarrow> bytes) \<Rightarrow> AbortReport list \<Rightarrow> bool" where
  "verifyAbortChain H chain = verifyAbortChain_from H chain [0..<length chain]"

subsection \<open>The bounded sampler\<close>

lemma rand_limit_unat:
  assumes "upper \<noteq> 0"
  shows "unat (rand_limit upper) = (2 ^ 64 - 1) div unat upper * unat upper"
proof -
  let ?m = "2 ^ 64 - 1 :: nat"
  have max: "unat (- 1 :: 64 word) = ?m"
    by (simp only: unsigned_minus_1_eq_mask mask_eq_exp_minus_1 len_num1 len_bit0 mult_1_right) simp
  have md: "unat ((- 1 :: 64 word) mod upper) = ?m mod unat upper"
    by (simp only: unat_mod_distrib max)
  have "(- 1 :: 64 word) mod upper \<le> - 1" by (rule word_order.extremum)
  then have "unat (rand_limit upper) = ?m - ?m mod unat upper"
    by (simp only: rand_limit_def unat_sub max md)
  then show ?thesis by (simp only: minus_mod_eq_div_mult)
qed

lemma randBounded_loop_step:
  "secureRandU64 R r = (x, r1) \<Longrightarrow> randBounded_loop R upper r =
    (if x \<ge> rand_limit upper then randBounded_loop R upper r1 else Some (x mod upper, r1))"
  by (subst randBounded_loop.simps) simp

text \<open>The generator state after \<open>k\<close> draws.\<close>

fun after_draws :: "'r prng \<Rightarrow> nat \<Rightarrow> 'r \<Rightarrow> 'r" where
  "after_draws R 0 r = r"
| "after_draws R (Suc k) r = after_draws R k (snd (secureRandU64 R r))"

lemma randBounded_loop_first:
  assumes "\<forall>j<k. fst (secureRandU64 R (after_draws R j r)) \<ge> rand_limit upper"
    and "fst (secureRandU64 R (after_draws R k r)) < rand_limit upper"
  shows "randBounded_loop R upper r =
    Some (fst (secureRandU64 R (after_draws R k r)) mod upper, after_draws R (Suc k) r)"
  using assms
proof (induction k arbitrary: r)
  case 0
  obtain x r1 where "secureRandU64 R r = (x, r1)" by force
  then show ?case using 0 randBounded_loop_step [of R r x r1 upper] by auto
next
  case (Suc k)
  obtain x r1 where x: "secureRandU64 R r = (x, r1)" by force
  then have first: "rand_limit upper \<le> x" using Suc.prems(1) by fastforce
  have "\<forall>j<k. fst (secureRandU64 R (after_draws R j r1)) \<ge> rand_limit upper"
  proof (intro allI impI)
    fix j assume "j < k"
    then show "fst (secureRandU64 R (after_draws R j r1)) \<ge> rand_limit upper"
      using Suc.prems(1) [THEN spec, of "Suc j"] x by simp
  qed
  from Suc.IH [OF this] Suc.prems(2) first show ?case
    by (simp add: randBounded_loop_step [OF x] x)
qed

text \<open>The accepted numbers fall evenly on the residues.\<close>

lemma card_residue:
  fixes u q v :: nat
  assumes "v < u"
  shows "card {x. x < q * u \<and> x mod u = v} = q"
proof -
  have "{x. x < q * u \<and> x mod u = v} = (\<lambda>k. k * u + v) ` {0..<q}"
  proof safe
    fix x assume x: "x < q * u" "v = x mod u"
    then have "x div u < q" by (simp add: less_mult_imp_div_less)
    then show "x \<in> (\<lambda>k. k * u + x mod u) ` {0..<q}"
      by (intro image_eqI [of _ _ "x div u"]) simp_all
  next
    fix k assume "k \<in> {0..<q}"
    then have "Suc k * u \<le> q * u" by (intro mult_le_mono1) simp
    then show "k * u + v < q * u" using assms by simp
  qed (use assms in simp)
  moreover have "inj_on (\<lambda>k. k * u + v) {0..<q}" using assms by (intro inj_onI) simp
  ultimately show ?thesis by (simp add: card_image)
qed

lemma card_accepted:
  assumes "v < upper"
  shows "card {x. x < rand_limit upper \<and> x mod upper = v} = (2 ^ 64 - 1) div unat upper"
proof -
  let ?q = "(2 ^ 64 - 1) div unat upper"
  have nz: "upper \<noteq> 0" using assms by auto
  have lim: "unat (rand_limit upper) = ?q * unat upper" by (rule rand_limit_unat [OF nz])
  have "unat ` {x. x < rand_limit upper \<and> x mod upper = v} = {x. x < ?q * unat upper \<and> x mod unat upper = unat v}"
  proof safe
    fix x :: nat assume x: "x < ?q * unat upper" "x mod unat upper = unat v"
    have "?q * unat upper \<le> 2 ^ 64 - 1" by (rule div_times_less_eq_dividend)
    then have "x < 2 ^ 64" using x(1) by linarith
    then have u: "unat (word_of_nat x :: 64 word) = x" by (simp add: unat_of_nat take_bit_nat_eq_self)
    moreover have "(word_of_nat x :: 64 word) mod upper = v"
      by (rule word_unat_eq_iff [THEN iffD2]) (simp only: unat_mod_distrib u x(2))
    moreover have "(word_of_nat x :: 64 word) < rand_limit upper"
      by (simp only: word_less_nat_alt u lim x(1))
    ultimately show "x \<in> unat ` {y. y < rand_limit upper \<and> y mod upper = v}"
      by (intro image_eqI [of _ _ "word_of_nat x"]) simp_all
  qed (simp_all only: word_less_nat_alt lim unat_mod_distrib [symmetric])
  from arg_cong [OF this, of card] have img: "card (unat ` {x. x < rand_limit upper \<and> x mod upper = v}) =
      card {x. x < ?q * unat upper \<and> x mod unat upper = unat v}" .
  have inj: "inj_on unat {x. x < rand_limit upper \<and> x mod upper = v}" by (rule inj_onI) (simp only: word_unat_eq_iff)
  have "unat v < unat upper" using assms by (simp add: word_less_nat_alt)
  from card_residue [OF this, of ?q] show ?thesis by (simp only: img card_image [OF inj, symmetric])
qed

text \<open>C35: \<open>secureRandU64Bounded\<close> ends as soon as one draw is below the rejection limit, its result is then
  the first such draw modulo \<open>upper\<close>, which is below \<open>upper\<close>; and the accepted draws fall on
  every residue equally often, so that a uniform source gives an unbiased result.\<close>

theorem secureRandU64Bounded_unbiased:
  assumes "0 < upper"
    and "\<forall>j<k. fst (secureRandU64 R (after_draws R j r)) \<ge> rand_limit upper"
    and "fst (secureRandU64 R (after_draws R k r)) < rand_limit upper"
  shows "\<exists>v. secureRandU64Bounded R upper r = Some (v, after_draws R (Suc k) r) \<and> v < upper \<and>
    v = fst (secureRandU64 R (after_draws R k r)) mod upper \<and>
    card {x. x < rand_limit upper \<and> x mod upper = v} = (2 ^ 64 - 1) div unat upper"
proof -
  have "x mod upper < upper" for x
    using assms(1) by (simp add: word_less_nat_alt unat_mod_distrib)
  then show ?thesis
    using randBounded_loop_first [OF assms(2,3)] card_accepted assms(1)
    by (auto simp: secureRandU64Bounded_def)
qed

lemma secureRandU64Bounded_unbiased_witness:
  "\<exists>v. secureRandU64Bounded counter_prng 10 1 = Some (v, 9) \<and> v < 10"
proof -
  have r: "secureRandU64 counter_prng (1::nat) = (0x0807060504030201, 9)"
    by code_simp
  have "rand_limit 10 = 0xFFFFFFFFFFFFFFFA" by (simp add: rand_limit_def)
  then show ?thesis using secureRandU64Bounded_unbiased [of 10 0 counter_prng 1] by (auto simp: r [unfolded One_nat_def])
qed

subsection \<open>Tamper evidence\<close>

lemma reason_code_inject [decode_simps]: "reason_code a = reason_code b \<longleftrightarrow> a = b"
  by (cases a; cases b) simp_all

definition report_sized :: "AbortReport \<Rightarrow> bool" where
  "report_sized r \<longleftrightarrow> length (protocol_phase (ar_ctx r)) < 2 ^ 32 \<and> length (cell_key (ar_ctx r)) < 2 ^ 32 \<and>
     length (extra_notes (ar_ctx r)) < 2 ^ 32"

definition report_bytes :: "AbortReport \<Rightarrow> bytes" where
  "report_bytes r = link_bytes (ar_reason r) (ar_ctx r) (timestamp_ns r) (prev_link r)"

lemma report_bytes_inject:
  assumes "report_sized a" "report_sized b" "report_bytes a = report_bytes b" "this_link a = this_link b"
  shows "a = b"
proof -
  have "ar_reason a = ar_reason b" "party_id (ar_ctx a) = party_id (ar_ctx b)" "timestamp_ns a = timestamp_ns b"
    "protocol_phase (ar_ctx a) = protocol_phase (ar_ctx b)" "cell_key (ar_ctx a) = cell_key (ar_ctx b)"
    "extra_notes (ar_ctx a) = extra_notes (ar_ctx b)" "prev_link a = prev_link b"
    using assms(1-3) by (simp_all add: report_sized_def report_bytes_def link_bytes_def decode_simps)
  then show ?thesis using assms(4) by (cases a; cases b) (auto intro: AbortContext.equality)
qed

lemma verify_from_iff:
  "verifyAbortChain_from H chain is \<longleftrightarrow> (\<forall>i\<in>set is. H (report_bytes (chain ! i)) = this_link (chain ! i) \<and>
     (i > 0 \<longrightarrow> prev_link (chain ! i) = this_link (chain ! (i - 1))))"
  by (induction "is") (auto simp: Let_def computeLink_def report_bytes_def)

lemma verifyAbortChain_iff:
  "verifyAbortChain H chain \<longleftrightarrow> (\<forall>i<length chain. H (report_bytes (chain ! i)) = this_link (chain ! i) \<and>
     (i > 0 \<longrightarrow> prev_link (chain ! i) = this_link (chain ! (i - 1))))"
  by (auto simp: verifyAbortChain_def verify_from_iff)

text \<open>C36: two verified abort chains of equal length that end in the same link, on which the hash has
  no collision, are the same chain: no report in it can be altered without changing the last link
  or breaking a link. A report made by \<open>makeAbortReport\<close> on the last link extends a verified chain.\<close>

theorem abort_chain_tamper_evident:
  assumes v: "verifyAbortChain H c" "verifyAbortChain H d" and len: "length c = length d" "c \<noteq> []"
    and last: "this_link (last c) = this_link (last d)"
    and sized: "\<forall>r\<in>set c \<union> set d. report_sized r"
    and inj: "inj_on H (report_bytes ` (set c \<union> set d))"
  shows "c = d \<and> verifyAbortChain H (c @ [makeAbortReport H now reason ctx (this_link (last c))])"
proof -
  let ?n = "length c"
  have link: "H (report_bytes (c ! i)) = this_link (c ! i)" "H (report_bytes (d ! i)) = this_link (d ! i)"
    if "i < ?n" for i
    using v that len(1) by (auto simp: verifyAbortChain_iff)
  have step: "c ! i = d ! i" if "i < ?n" "this_link (c ! i) = this_link (d ! i)" for i
  proof -
    have "H (report_bytes (c ! i)) = H (report_bytes (d ! i))" using link [OF that(1)] that(2) by simp
    then have "report_bytes (c ! i) = report_bytes (d ! i)"
      using inj that(1) len(1) by (auto dest!: inj_onD)
    then show ?thesis using report_bytes_inject [of "c ! i" "d ! i"] sized that len(1) by auto
  qed
  have "c ! (?n - 1 - k) = d ! (?n - 1 - k)" if "k < ?n" for k
    using that
  proof (induction k)
    case 0
    then show ?case using step [of "?n - 1"] last len by (simp add: last_conv_nth)
  next
    case (Suc k)
    let ?i = "?n - 1 - k"
    have i: "?i < ?n" "?i > 0" "?n - 1 - Suc k = ?i - 1" using Suc.prems by auto
    have "prev_link (c ! ?i) = this_link (c ! (?i - 1))" "prev_link (d ! ?i) = this_link (d ! (?i - 1))"
      using v i(1,2) len(1) by (auto simp: verifyAbortChain_iff)
    then show ?case using Suc step [of "?i - 1"] i by simp
  qed
  from this [of "?n - 1 - i" for i] have "c ! i = d ! i" if "i < ?n" for i
    using that by (metis Suc_pred' diff_Suc_less diff_diff_cancel diff_less_Suc less_Suc_eq_le length_greater_0_conv len(2))
  then have "c = d" using len(1) by (auto intro: nth_equalityI)
  moreover have "verifyAbortChain H (c @ [makeAbortReport H now reason ctx (this_link (last c))])"
    using v(1) len(2) by (auto simp: verifyAbortChain_iff nth_append less_Suc_eq makeAbortReport_def computeLink_def
        report_bytes_def last_conv_nth)
  ultimately show ?thesis ..
qed

lemma abort_chain_tamper_evident_witness:
  "let r = makeAbortReport id 5 MAC_FAIL \<lparr>protocol_phase = ''agg'', party_id = 1, cell_key = '''', extra_notes = ''''\<rparr> [0]
   in verifyAbortChain id ([r] @ [makeAbortReport id 9 DLEQ_FAIL (ar_ctx r) (this_link (last [r]))])"
  using abort_chain_tamper_evident [of id
      "[makeAbortReport id 5 MAC_FAIL \<lparr>protocol_phase = ''agg'', party_id = 1, cell_key = '''', extra_notes = ''''\<rparr> [0]]"
      "[makeAbortReport id 5 MAC_FAIL \<lparr>protocol_phase = ''agg'', party_id = 1, cell_key = '''', extra_notes = ''''\<rparr> [0]]"
      9 DLEQ_FAIL]
  by (simp add: verifyAbortChain_def makeAbortReport_def report_sized_def Let_def)

end
