(* ===== verification/Tagged_Sharing.thy ===== *)
theory Tagged_Sharing
  imports Prelude
begin

text \<open>
  The interface of a linearly tagged sharing, common to the MAC-authenticated shares modulo
  \<open>2 ^ 64\<close> and modulo \<open>2 ^ 128\<close>: a value and a tag, both opening into a commutative ring, with
  subtraction and scaling by a public value acting on both. A sharing is valid under a key when
  its tag opens to the key times its value. The facts the sacrifice check rests on are proved
  here once.
\<close>

locale tagged_sharing =
  fixes shape :: "'x \<Rightarrow> bool"
    and val :: "'x \<Rightarrow> 'r::comm_ring_1"
    and mac :: "'x \<Rightarrow> 'r"
    and sub :: "'x \<Rightarrow> 'x \<Rightarrow> 'x result"
    and scale :: "'x \<Rightarrow> 'r \<Rightarrow> 'x"
  assumes sub_law: "shape a \<Longrightarrow> shape b \<Longrightarrow>
      returns (sub a b) (\<lambda>c. shape c \<and> val c = val a - val b \<and> mac c = mac a - mac b)"
    and scale_law: "shape (scale a r) = shape a" "val (scale a r) = val a * r" "mac (scale a r) = mac a * r"
begin

lemma sub_valid:
  assumes "shape a \<and> mac a = k * val a" "shape b \<and> mac b = k * val b"
  shows "returns (sub a b) (\<lambda>c. (shape c \<and> mac c = k * val c) \<and> val c = val a - val b)"
  by (rule returns_mono [OF sub_law]) (use assms in \<open>auto simp: right_diff_distrib\<close>)

lemma scale_valid: "shape a \<and> mac a = k * val a \<Longrightarrow> shape (scale a r) \<and> mac (scale a r) = k * val (scale a r)"
  by (simp add: scale_law mult.assoc)

lemma combination_valid:
  assumes "shape c \<and> mac c = k * val c" "shape a' \<and> mac a' = k * val a'" "shape b' \<and> mac b' = k * val b'"
    "shape c' \<and> mac c' = k * val c'"
  shows "returns (bindE (sub (scale c r) c') (\<lambda>t. bindE (sub t (scale a' s)) (\<lambda>t. sub t (scale b' p))))
    (\<lambda>t. (shape t \<and> mac t = k * val t) \<and> val t = val c * r - val c' - val a' * s - val b' * p)"
  by (rule returns_bind_intro, rule sub_valid [where k = k], rule scale_valid [OF assms(1)], rule assms(4),
      rule returns_bind_intro, rule sub_valid [where k = k], blast, rule scale_valid [OF assms(2)],
      rule returns_mono, rule sub_valid [where k = k], blast, rule scale_valid [OF assms(3)])
    (simp add: scale_law)

end

text \<open>The algebra of the sacrifice check.\<close>

lemma sacrifice_identity:
  fixes r :: "'a::comm_ring_1"
  shows "(w * r - w' - u' * (v - v') - v' * (u * r - u') = (u * r - u') * (v - v')) \<longleftrightarrow>
    r * (w - u * v) = w' - u' * v'"
proof -
  have "(w * r - w' - u' * (v - v') - v' * (u * r - u')) - (u * r - u') * (v - v') =
      r * (w - u * v) - (w' - u' * v')"
    by (simp add: algebra_simps)
  then show ?thesis by (metis eq_iff_diff_eq_0)
qed

text \<open>Adding \<open>t\<close> to one share adds \<open>t\<close> to the opened value.\<close>

lemma sum_list_add_at:
  "i < length xs \<Longrightarrow> sum_list (xs[i := xs ! i + t]) = sum_list xs + (t :: 'a::comm_monoid_add)"
  by (induction xs arbitrary: i) (auto simp: ac_simps split: nat.splits)

end
