(* ===== verification/Spdz_Share.thy ===== *)
theory Spdz_Share
  imports Beaver_Triple Prod_Hygiene Tagged_Sharing
begin

text \<open>
  SPDZ-style authenticated shares over the integers modulo \<open>2 ^ 64\<close> (\<open>volePSI/MpsvsAuthShare.h\<close>,
  \<open>volePSI/MpsvsAuthShare.cpp\<close>): authenticated sharing, local operations, authenticated triples,
  multiplication, opening with a MAC check (single verifier and shared key, one by one and
  batched), and the sacrifice check of triples.

  A function that returns \<open>false\<close> without writing its output argument returns \<open>None\<close>. The system
  generator \<open>R\<close> (salts and challenges) and SHA-256 (\<open>H\<close>) are parameters.
\<close>

record AuthSharedU64 =
  av :: SharedU64
  am :: SharedU64

record AlphaShare =
  alpha_share :: SharedU64

record AuthBeaverTriple =
  abu :: AuthSharedU64
  abv :: AuthSharedU64
  abw :: AuthSharedU64

definition auth_N :: "AuthSharedU64 \<Rightarrow> nat" where
  "auth_N x = u64_N (av x)"

text \<open>The resampling loop may never end; then the value is \<open>None\<close>.\<close>

partial_function (option) generateAlpha :: "'g prng \<Rightarrow> nat \<Rightarrow> 'g \<Rightarrow> (AlphaShare \<times> 'g) result option" where
  "generateAlpha G N g =
     (let (alpha_plain, g1) = get_u64 G g
      in if alpha_plain = 0 then generateAlpha G N g1
         else case shareU64 G N alpha_plain g1 of
             Inl e \<Rightarrow> Some (Inl e)
           | Inr (s, g2) \<Rightarrow>
               if list_ex (\<lambda>a. a = 0) (u64_shares s) then generateAlpha G N g2
               else Some (Inr (\<lparr>alpha_share = s\<rparr>, g2)))"

definition authShareU64 ::
  "'g prng \<Rightarrow> nat \<Rightarrow> 64 word \<Rightarrow> 64 word \<Rightarrow> 'g \<Rightarrow> (AuthSharedU64 \<times> 'g) result" where
  "authShareU64 G N value alpha g =
     bindE (shareU64 G N value g) (\<lambda>(v, g1).
     let mac_plain = alpha * value in
     bindE (shareU64 G N mac_plain g1) (\<lambda>(m, g2).
     Inr (\<lparr>av = v, am = m\<rparr>, g2)))"

subsection \<open>Local operations\<close>

definition authAdd :: "AuthSharedU64 \<Rightarrow> AuthSharedU64 \<Rightarrow> AuthSharedU64 result" where
  "authAdd a b =
     bindE (addShared (av a) (av b)) (\<lambda>v. bindE (addShared (am a) (am b)) (\<lambda>m. Inr \<lparr>av = v, am = m\<rparr>))"

definition authSub :: "AuthSharedU64 \<Rightarrow> AuthSharedU64 \<Rightarrow> AuthSharedU64 result" where
  "authSub a b =
     bindE (subShared (av a) (av b)) (\<lambda>v. bindE (subShared (am a) (am b)) (\<lambda>m. Inr \<lparr>av = v, am = m\<rparr>))"

definition authAddConst :: "AuthSharedU64 \<Rightarrow> 64 word \<Rightarrow> 64 word \<Rightarrow> AuthSharedU64 result" where
  "authAddConst a c alpha =
     bindE (addConst (av a) c) (\<lambda>v. bindE (addConst (am a) (alpha * c)) (\<lambda>m. Inr \<lparr>av = v, am = m\<rparr>))"

definition authMulConst :: "AuthSharedU64 \<Rightarrow> 64 word \<Rightarrow> AuthSharedU64" where
  "authMulConst a c = \<lparr>av = mulConst (av a) c, am = mulConst (am a) c\<rparr>"

definition generateAuthBeaverTriple ::
  "'g prng \<Rightarrow> nat \<Rightarrow> 64 word \<Rightarrow> 'g \<Rightarrow> (AuthBeaverTriple \<times> 'g) result" where
  "generateAuthBeaverTriple G N alpha g =
     (let (u_plain, g1) = get_u64 G g;
          (v_plain, g2) = get_u64 G g1;
          w_plain = u_plain * v_plain
      in bindE (authShareU64 G N u_plain alpha g2) (\<lambda>(u, g3).
         bindE (authShareU64 G N v_plain alpha g3) (\<lambda>(v, g4).
         bindE (authShareU64 G N w_plain alpha g4) (\<lambda>(w, g5).
         Inr (\<lparr>abu = u, abv = v, abw = w\<rparr>, g5)))))"

definition generateMalformedBeaverTriple ::
  "'g prng \<Rightarrow> nat \<Rightarrow> 64 word \<Rightarrow> 64 word \<Rightarrow> 'g \<Rightarrow> (AuthBeaverTriple \<times> 'g) result" where
  "generateMalformedBeaverTriple G N alpha w_offset g =
     (let (u_plain, g1) = get_u64 G g;
          (v_plain, g2) = get_u64 G g1;
          w_correct = u_plain * v_plain;
          w_bad = w_correct + w_offset
      in bindE (authShareU64 G N u_plain alpha g2) (\<lambda>(u, g3).
         bindE (authShareU64 G N v_plain alpha g3) (\<lambda>(v, g4).
         bindE (authShareU64 G N w_bad alpha g4) (\<lambda>(w, g5).
         Inr (\<lparr>abu = u, abv = v, abw = w\<rparr>, g5)))))"

definition simulateTampering :: "AuthSharedU64 \<Rightarrow> nat \<Rightarrow> 64 word \<Rightarrow> AuthSharedU64 result" where
  "simulateTampering x bad_party tamper_amount =
     throw_if (bad_party \<ge> u64_N (av x)) (InvalidArgument ''bad_party out of range'')
       (Inr (x\<lparr>av := \<lparr>u64_shares = (u64_shares (av x))[bad_party := u64_shares (av x) ! bad_party + tamper_amount]\<rparr>\<rparr>))"

subsection \<open>Opening with a single verifier\<close>

definition openWithMacCheck :: "AuthSharedU64 \<Rightarrow> 64 word \<Rightarrow> 64 word option" where
  "openWithMacCheck x alpha =
     (let x_reconstructed = u64_reconstruct (av x);
          mac_reconstructed = u64_reconstruct (am x);
          expected_mac = alpha * x_reconstructed
      in if expected_mac \<noteq> mac_reconstructed then None else Some x_reconstructed)"

definition authSecureMultiply ::
  "AuthSharedU64 \<Rightarrow> AuthSharedU64 \<Rightarrow> AuthBeaverTriple \<Rightarrow> 64 word \<Rightarrow> AuthSharedU64 result" where
  "authSecureMultiply x y triple alpha =
     bindE (authSub x (abu triple)) (\<lambda>x_minus_u.
     bindE (authSub y (abv triple)) (\<lambda>y_minus_v.
     case openWithMacCheck x_minus_u alpha of
       None \<Rightarrow> Inl (AuthShareMacFailure ''authSecureMultiply: MAC check failed on opening of d = x - u'')
     | Some d \<Rightarrow>
        (case openWithMacCheck y_minus_v alpha of
           None \<Rightarrow> Inl (AuthShareMacFailure ''authSecureMultiply: MAC check failed on opening of e = y - v'')
         | Some e \<Rightarrow>
            bindE (addShared (av (abw triple)) (mulConst (av (abv triple)) d)) (\<lambda>val_z.
            bindE (addShared val_z (mulConst (av (abu triple)) e)) (\<lambda>val_z.
            bindE (addConst val_z (d * e)) (\<lambda>val_z.
            bindE (addShared (am (abw triple)) (mulConst (am (abv triple)) d)) (\<lambda>mac_z.
            bindE (addShared mac_z (mulConst (am (abu triple)) e)) (\<lambda>mac_z.
            bindE (addConst mac_z (alpha * d * e)) (\<lambda>mac_z.
            Inr \<lparr>av = val_z, am = mac_z\<rparr>)))))))))"

text \<open>The generator that the caller passes is not used; the coefficients come from \<open>R\<close>.\<close>

fun batch_open_loop ::
  "'r prng \<Rightarrow> AuthSharedU64 list \<Rightarrow> 64 word \<Rightarrow> 64 word \<Rightarrow> 64 word list \<Rightarrow> 'r \<Rightarrow>
   (64 word \<times> 64 word \<times> 64 word list) \<times> 'r" where
  "batch_open_loop R [] combined_val combined_mac out r = ((combined_val, combined_mac, out), r)"
| "batch_open_loop R (x # xs) combined_val combined_mac out r =
     (let (c, r1) = secureRandU64 R r;
          val = u64_reconstruct (av x);
          mac = u64_reconstruct (am x)
      in batch_open_loop R xs (combined_val + c * val) (combined_mac + c * mac) (out @ [val]) r1)"

definition batchOpenWithMacCheck ::
  "'r prng \<Rightarrow> AuthSharedU64 list \<Rightarrow> 64 word \<Rightarrow> 'r \<Rightarrow> (bool \<times> 64 word list) \<times> 'r" where
  "batchOpenWithMacCheck R xs alpha r =
     (let ((combined_val, combined_mac, out), r') = batch_open_loop R xs 0 0 [] r;
          expected = alpha * combined_val
      in ((expected = combined_mac, out), r'))"

subsection \<open>Opening with a shared key\<close>

record SigmaCommit =
  sc_party :: "32 word"
  sc_sigma :: "64 word"
  sc_salt :: "64 word"
  sc_commit :: bytes

definition commitSigma :: "(bytes \<Rightarrow> bytes) \<Rightarrow> 32 word \<Rightarrow> 64 word \<Rightarrow> 64 word \<Rightarrow> bytes" where
  "commitSigma H party sigma salt =
     H (str_bytes ''mpsvs.audit'' @ le_bytes 8 (ucast party :: 64 word) @ le_bytes 8 sigma @ le_bytes 8 salt)"

definition computeSigmaCommit ::
  "(bytes \<Rightarrow> bytes) \<Rightarrow> 'r prng \<Rightarrow> 32 word \<Rightarrow> 64 word \<Rightarrow> 64 word \<Rightarrow> 64 word \<Rightarrow> 'r \<Rightarrow> SigmaCommit \<times> 'r" where
  "computeSigmaCommit H R party alpha_i mac_i x_rec r =
     (let sigma = alpha_i * x_rec - mac_i;
          (salt, r1) = secureRandU64 R r
      in (\<lparr>sc_party = party, sc_sigma = sigma, sc_salt = salt, sc_commit = commitSigma H party sigma salt\<rparr>, r1))"

definition verifySigmaReveal :: "(bytes \<Rightarrow> bytes) \<Rightarrow> SigmaCommit \<Rightarrow> bytes \<Rightarrow> bool" where
  "verifySigmaReveal H revealed expected_commit \<longleftrightarrow>
     commitSigma H (sc_party revealed) (sc_sigma revealed) (sc_salt revealed) = expected_commit"

definition openWithMacCheckShared ::
  "(bytes \<Rightarrow> bytes) \<Rightarrow> 'r prng \<Rightarrow> AuthSharedU64 \<Rightarrow> AlphaShare \<Rightarrow> 'r \<Rightarrow> (64 word option \<times> 'r) result" where
  "openWithMacCheckShared H R x alpha r =
     throw_if (u64_N (av x) \<noteq> 2 \<or> u64_N (alpha_share alpha) \<noteq> 2)
       (RuntimeError ''openWithMacCheckShared: 2-party only (matches MPSVS S1/S2)'')
       (let x_rec = u64_reconstruct (av x) in
        bindE (vec_at (u64_shares (alpha_share alpha)) 0) (\<lambda>a0.
        bindE (vec_at (u64_shares (am x)) 0) (\<lambda>m0.
        let (s1, r1) = computeSigmaCommit H R 1 a0 m0 x_rec r in
        bindE (vec_at (u64_shares (alpha_share alpha)) 1) (\<lambda>a1.
        bindE (vec_at (u64_shares (am x)) 1) (\<lambda>m1.
        let (s2, r2) = computeSigmaCommit H R 2 a1 m1 x_rec r1;
            commit_of_s1 = sc_commit s1;
            commit_of_s2 = sc_commit s2
        in if \<not> verifySigmaReveal H s1 commit_of_s1 then Inr (None, r2)
           else if \<not> verifySigmaReveal H s2 commit_of_s2 then Inr (None, r2)
           else if sc_sigma s1 + sc_sigma s2 \<noteq> 0 then Inr (None, r2)
           else Inr (Some x_rec, r2))))))"

definition authSecureMultiplyShared ::
  "(bytes \<Rightarrow> bytes) \<Rightarrow> 'r prng \<Rightarrow> AuthSharedU64 \<Rightarrow> AuthSharedU64 \<Rightarrow> AuthBeaverTriple \<Rightarrow> AlphaShare \<Rightarrow> 'r \<Rightarrow>
   (AuthSharedU64 \<times> 'r) result" where
  "authSecureMultiplyShared H R x y triple alpha r =
     throw_if (u64_N (av x) \<noteq> 2 \<or> u64_N (av y) \<noteq> 2 \<or> u64_N (av (abu triple)) \<noteq> 2 \<or>
         u64_N (av (abv triple)) \<noteq> 2 \<or> u64_N (av (abw triple)) \<noteq> 2 \<or> u64_N (alpha_share alpha) \<noteq> 2)
       (RuntimeError ''authSecureMultiplyShared: 2-party only (matches MPSVS S1/S2)'')
    (bindE (authSub x (abu triple)) (\<lambda>x_minus_u.
     bindE (authSub y (abv triple)) (\<lambda>y_minus_v.
     bindE (openWithMacCheckShared H R x_minus_u alpha r) (\<lambda>(od, r1).
     case od of
       None \<Rightarrow> Inl (AuthShareMacFailure ''authSecureMultiplyShared: MAC check failed on opening of d = x - u'')
     | Some d \<Rightarrow>
        bindE (openWithMacCheckShared H R y_minus_v alpha r1) (\<lambda>(oe, r2).
        case oe of
          None \<Rightarrow> Inl (AuthShareMacFailure ''authSecureMultiplyShared: MAC check failed on opening of e = y - v'')
        | Some e \<Rightarrow>
            bindE (addShared (av (abw triple)) (mulConst (av (abv triple)) d)) (\<lambda>val_z.
            bindE (addShared val_z (mulConst (av (abu triple)) e)) (\<lambda>val_z.
            bindE (addConst val_z (d * e)) (\<lambda>val_z.
            bindE (addShared (am (abw triple)) (mulConst (am (abv triple)) d)) (\<lambda>mac_z.
            bindE (addShared mac_z (mulConst (am (abu triple)) e)) (\<lambda>mac_z.
            bindE (mapE (\<lambda>i. bindE (vec_at (u64_shares (alpha_share alpha)) i) (\<lambda>a.
                Inr (u64_shares mac_z ! i + a * d * e))) [0..<u64_N mac_z]) (\<lambda>ms.
            Inr (\<lparr>av = val_z, am = \<lparr>u64_shares = ms\<rparr>\<rparr>, r2))))))))))))"

subsection \<open>The batched check\<close>

definition omega_transcript :: "AuthSharedU64 list \<Rightarrow> bytes result" where
  "omega_transcript xs =
     bindE (mapE (\<lambda>x. mapE (\<lambda>i. bindE (vec_at (u64_shares (am x)) i) (\<lambda>m.
         Inr (le_bytes 8 (u64_shares (av x) ! i) @ le_bytes 8 m))) [0..<u64_N (av x)]) xs)
       (\<lambda>bss. Inr (concat (concat bss)))"

definition omega_challenge :: "(bytes \<Rightarrow> bytes) \<Rightarrow> bytes \<Rightarrow> nat \<Rightarrow> 64 word" where
  "omega_challenge H tr_hash j =
     (let h = H (str_bytes ''mpsvs.omega.r'' @ le_bytes 8 (word_of_nat j :: 64 word) @ tr_hash);
          r = le_read (take 8 h)
      in if r = 0 then 1 else r)"

definition deriveOmegaChallenges :: "(bytes \<Rightarrow> bytes) \<Rightarrow> AuthSharedU64 list \<Rightarrow> 64 word list result" where
  "deriveOmegaChallenges H xs =
     bindE (omega_transcript xs) (\<lambda>transcript.
     Inr (map (omega_challenge H (H transcript)) [0..<length xs]))"

definition combine_shares :: "64 word list \<Rightarrow> 64 word \<Rightarrow> 64 word list \<Rightarrow> 64 word list result" where
  "combine_shares acc r s =
     bindE (vec_at s 0) (\<lambda>s0. bindE (vec_at s 1) (\<lambda>s1. Inr [acc ! 0 + r * s0, acc ! 1 + r * s1]))"

definition batchOpenWithMacCheckShared ::
  "(bytes \<Rightarrow> bytes) \<Rightarrow> 'r prng \<Rightarrow> AuthSharedU64 list \<Rightarrow> AlphaShare \<Rightarrow> 'r \<Rightarrow> ((bool \<times> 64 word list) \<times> 'r) result" where
  "batchOpenWithMacCheckShared H R xs alpha r =
     throw_if (u64_N (alpha_share alpha) \<noteq> 2) (RuntimeError ''batchOpenWithMacCheckShared: 2-party only'')
    (throw_if (\<exists>x\<in>set xs. u64_N (av x) \<noteq> 2)
       (RuntimeError ''batchOpenWithMacCheckShared: element must be 2-party'')
    (bindE (deriveOmegaChallenges H xs) (\<lambda>rs.
     bindE (foldE (\<lambda>j (cv, cm).
         bindE (combine_shares cv (rs ! j) (u64_shares (av (xs ! j)))) (\<lambda>cv'.
         bindE (combine_shares cm (rs ! j) (u64_shares (am (xs ! j)))) (\<lambda>cm'. Inr (cv', cm'))))
       [0..<length xs] ([0, 0], [0, 0])) (\<lambda>(cv, cm).
     let out = map (\<lambda>x. u64_reconstruct (av x)) xs;
         combined = \<lparr>av = \<lparr>u64_shares = cv\<rparr>, am = \<lparr>u64_shares = cm\<rparr>\<rparr>
     in bindE (openWithMacCheckShared H R combined alpha r) (\<lambda>(ok, r').
        Inr ((ok \<noteq> None, out), r'))))))"

subsection \<open>The sacrifice check\<close>

definition rXSubY :: "64 word \<Rightarrow> AuthSharedU64 \<Rightarrow> AuthSharedU64 \<Rightarrow> AuthSharedU64 result" where
  "rXSubY r x y =
     bindE (subShared (mulConst (av x) r) (av y)) (\<lambda>v.
     bindE (subShared (mulConst (am x) r) (am y)) (\<lambda>m. Inr \<lparr>av = v, am = m\<rparr>))"

definition authSubPubMulValue ::
  "64 word \<Rightarrow> AuthSharedU64 \<Rightarrow> 64 word \<Rightarrow> AuthSharedU64 \<Rightarrow> 64 word \<Rightarrow> AuthSharedU64 \<Rightarrow> AuthSharedU64 \<Rightarrow> AuthSharedU64 result" where
  "authSubPubMulValue r_a c sigma_pub a_prime rho_pub b_prime c_prime =
     (let rc = authMulConst c r_a;
          sa = authMulConst a_prime sigma_pub;
          rb = authMulConst b_prime rho_pub
      in bindE (authSub rc c_prime) (\<lambda>tmp.
         bindE (authSub tmp sa) (\<lambda>tmp.
         authSub tmp rb)))"

definition sacrificeCheckTriple ::
  "'r prng \<Rightarrow> AuthBeaverTriple \<Rightarrow> AuthBeaverTriple \<Rightarrow> 64 word \<Rightarrow> 'r \<Rightarrow> (bool \<times> 'r) result" where
  "sacrificeCheckTriple R T T_aux alpha s =
     (let (r0, s1) = secureRandU64 R s; r = (if r0 = 0 then 1 else r0) in
      bindE (rXSubY r (abu T) (abu T_aux)) (\<lambda>rho_shared.
      bindE (rXSubY 1 (abv T) (abv T_aux)) (\<lambda>sigma_shared.
      case openWithMacCheck rho_shared alpha of None \<Rightarrow> Inr (False, s1) | Some rho \<Rightarrow>
     (case openWithMacCheck sigma_shared alpha of None \<Rightarrow> Inr (False, s1) | Some sigma \<Rightarrow>
      bindE (authSubPubMulValue r (abw T) sigma (abu T_aux) rho (abv T_aux) (abw T_aux)) (\<lambda>tau_shared.
      case openWithMacCheck tau_shared alpha of None \<Rightarrow> Inr (False, s1) | Some tau \<Rightarrow>
      Inr (tau = rho * sigma, s1))))))"

definition sacrificeCheckTripleShared ::
  "(bytes \<Rightarrow> bytes) \<Rightarrow> 'r prng \<Rightarrow> AuthBeaverTriple \<Rightarrow> AuthBeaverTriple \<Rightarrow> AlphaShare \<Rightarrow> 'r \<Rightarrow> (bool \<times> 'r) result" where
  "sacrificeCheckTripleShared H R T T_aux alpha s =
     (let (r0, s1) = secureRandU64 R s; r = (if r0 = 0 then 1 else r0) in
      bindE (rXSubY r (abu T) (abu T_aux)) (\<lambda>rho_shared.
      bindE (rXSubY 1 (abv T) (abv T_aux)) (\<lambda>sigma_shared.
      bindE (openWithMacCheckShared H R rho_shared alpha s1) (\<lambda>(orho, s2).
      case orho of None \<Rightarrow> Inr (False, s2) | Some rho \<Rightarrow>
      bindE (openWithMacCheckShared H R sigma_shared alpha s2) (\<lambda>(osigma, s3).
      case osigma of None \<Rightarrow> Inr (False, s3) | Some sigma \<Rightarrow>
      bindE (authSubPubMulValue r (abw T) sigma (abu T_aux) rho (abv T_aux) (abw T_aux)) (\<lambda>tau_shared.
      bindE (openWithMacCheckShared H R tau_shared alpha s3) (\<lambda>(otau, s4).
      case otau of None \<Rightarrow> Inr (False, s4) | Some tau \<Rightarrow>
      Inr (tau = rho * sigma, s4))))))))"

subsection \<open>What a tagged sharing opens to\<close>

definition aval :: "AuthSharedU64 \<Rightarrow> 64 word" where
  "aval x = u64_reconstruct (av x)"

definition amac :: "AuthSharedU64 \<Rightarrow> 64 word" where
  "amac x = u64_reconstruct (am x)"

definition auth_shape :: "nat \<Rightarrow> AuthSharedU64 \<Rightarrow> bool" where
  "auth_shape n x \<longleftrightarrow> u64_N (av x) = n \<and> u64_N (am x) = n"

definition auth_valid :: "nat \<Rightarrow> 64 word \<Rightarrow> AuthSharedU64 \<Rightarrow> bool" where
  "auth_valid n alpha x \<longleftrightarrow> auth_shape n x \<and> amac x = alpha * aval x"

definition alpha_of :: "AlphaShare \<Rightarrow> 64 word" where
  "alpha_of a = u64_reconstruct (alpha_share a)"

lemmas auth_defs = aval_def amac_def auth_shape_def

lemma pair_returns:
  assumes "returns m (\<lambda>v. u64_N v = n \<and> u64_reconstruct v = a)" "returns m' (\<lambda>t. u64_N t = n \<and> u64_reconstruct t = b)"
  shows "returns (bindE m (\<lambda>v. bindE m' (\<lambda>t. Inr \<lparr>av = v, am = t\<rparr>))) (\<lambda>c. auth_shape n c \<and> aval c = a \<and> amac c = b)"
  using assms by (auto simp: returns_def auth_defs)

lemma addShared_n: "u64_N a = n \<Longrightarrow> u64_N b = n \<Longrightarrow>
   returns (addShared a b) (\<lambda>c. u64_N c = n \<and> u64_reconstruct c = u64_reconstruct a + u64_reconstruct b)"
  using addShared_returns [of a b] by simp

lemma subShared_n: "u64_N a = n \<Longrightarrow> u64_N b = n \<Longrightarrow>
   returns (subShared a b) (\<lambda>c. u64_N c = n \<and> u64_reconstruct c = u64_reconstruct a - u64_reconstruct b)"
  using subShared_returns [of a b] by simp

lemma addConst_n: "u64_N a = n \<Longrightarrow> 0 < n \<Longrightarrow>
   returns (addConst a p) (\<lambda>c. u64_N c = n \<and> u64_reconstruct c = u64_reconstruct a + p)"
  using addConst_returns [of a p] by simp

lemma authShareU64_returns:
  "2 \<le> N \<Longrightarrow> returns (authShareU64 G N v alpha g) (\<lambda>(x, g'). auth_valid N alpha x \<and> aval x = v)"
  by (simp add: authShareU64_def wp_simps split_beta Let_def auth_valid_def auth_defs u64_N_def u64_reconstruct_sum)

lemma authAdd_returns:
  "auth_shape n a \<Longrightarrow> auth_shape n b \<Longrightarrow>
   returns (authAdd a b) (\<lambda>c. auth_shape n c \<and> aval c = aval a + aval b \<and> amac c = amac a + amac b)"
  unfolding authAdd_def
  by (rule pair_returns) (simp_all add: auth_defs addShared_n)

lemma authSub_returns:
  "auth_shape n a \<Longrightarrow> auth_shape n b \<Longrightarrow>
   returns (authSub a b) (\<lambda>c. auth_shape n c \<and> aval c = aval a - aval b \<and> amac c = amac a - amac b)"
  unfolding authSub_def
  by (rule pair_returns) (simp_all add: auth_defs subShared_n)

lemma authAddConst_returns:
  "auth_shape n a \<Longrightarrow> 0 < n \<Longrightarrow>
   returns (authAddConst a c alpha) (\<lambda>b. auth_shape n b \<and> aval b = aval a + c \<and> amac b = amac a + alpha * c)"
  unfolding authAddConst_def
  by (rule pair_returns) (simp_all add: auth_defs addConst_n)

lemma authMulConst_simps [simp]:
  "auth_shape n (authMulConst a c) = auth_shape n a"
  "aval (authMulConst a c) = aval a * c"
  "amac (authMulConst a c) = amac a * c"
  by (simp_all add: authMulConst_def auth_defs)

lemma rXSubY_eq: "rXSubY r x y = authSub (authMulConst x r) y"
  by (simp add: rXSubY_def authSub_def authMulConst_def)

lemma openWithMacCheck_iff: "openWithMacCheck x alpha = (if amac x = alpha * aval x then Some (aval x) else None)"
  by (auto simp: openWithMacCheck_def auth_defs Let_def)

lemma two_shares: "u64_N s = 2 \<Longrightarrow> \<exists>a b. u64_shares s = [a, b]"
  by (cases "u64_shares s" rule: remdups_adj.cases) (auto simp: u64_N_def)

lemma verify_own_commit: "computeSigmaCommit H R p a m x r = (s, r') \<Longrightarrow> verifySigmaReveal H s (sc_commit s)"
  by (auto simp: computeSigmaCommit_def verifySigmaReveal_def Let_def split: prod.splits)

lemma sigma_of_commit: "computeSigmaCommit H R p a m x r = (s, r') \<Longrightarrow> sc_sigma s = a * x - m"
  by (auto simp: computeSigmaCommit_def Let_def split: prod.splits)

lemma openShared_returns:
  assumes "auth_shape 2 x" "u64_N (alpha_share alpha) = 2"
  shows "returns (openWithMacCheckShared H R x alpha r)
    (\<lambda>(o', r'). o' = (if amac x = alpha_of alpha * aval x then Some (aval x) else None))"
proof -
  obtain a0 a1 where a: "u64_shares (alpha_share alpha) = [a0, a1]" using two_shares [OF assms(2)] by blast
  obtain m0 m1 where m: "u64_shares (am x) = [m0, m1]"
    using assms(1) two_shares [of "am x"] by (auto simp: auth_shape_def)
  obtain s1 r1 where s1: "computeSigmaCommit H R 1 a0 m0 (aval x) r = (s1, r1)" by force
  obtain s2 r2 where s2: "computeSigmaCommit H R 2 a1 m1 (aval x) r1 = (s2, r2)" by force
  have "sc_sigma s1 + sc_sigma s2 = (a0 + a1) * aval x - (m0 + m1)"
    by (simp add: sigma_of_commit [OF s1] sigma_of_commit [OF s2] algebra_simps)
  moreover have "alpha_of alpha = a0 + a1" "amac x = m0 + m1"
    by (simp_all add: alpha_of_def amac_def u64_reconstruct_sum a m)
  ultimately have "sc_sigma s1 + sc_sigma s2 = alpha_of alpha * aval x - amac x" by simp
  then show ?thesis
    using assms s1 s2 verify_own_commit [OF s1] verify_own_commit [OF s2]
    by (auto simp: openWithMacCheckShared_def auth_shape_def a m simp flip: aval_def)
qed

subsection \<open>Multiplication\<close>

lemma combine_returns:
  assumes "u64_N w = n" "u64_N v = n" "u64_N u = n"
  shows "returns (bindE (addShared w (mulConst v d)) (\<lambda>s. addShared s (mulConst u e)))
    (\<lambda>z. u64_N z = n \<and> u64_reconstruct z = u64_reconstruct w + u64_reconstruct v * d + u64_reconstruct u * e)"
  by (rule returns_bind_intro, rule addShared_returns)
    (use assms in \<open>auto intro!: returns_mono [OF addShared_returns]\<close>)

lemma sharewise_add_returns:
  assumes "u64_N z = 2" "u64_N a = 2"
  shows "returns (mapE (\<lambda>i. bindE (vec_at (u64_shares a) i) (\<lambda>a. Inr (u64_shares z ! i + a * d * e))) [0..<u64_N z])
    (\<lambda>ms. length ms = 2 \<and> sum_list ms = u64_reconstruct z + u64_reconstruct a * d * e)"
proof -
  obtain z0 z1 a0 a1 where "u64_shares z = [z0, z1]" "u64_shares a = [a0, a1]"
    using two_shares assms by meson
  then show ?thesis using assms by (simp add: u64_reconstruct_sum eval_nat_numeral algebra_simps)
qed

definition auth_triple_ok :: "nat \<Rightarrow> 64 word \<Rightarrow> AuthBeaverTriple \<Rightarrow> bool" where
  "auth_triple_ok n alpha t \<longleftrightarrow> auth_valid n alpha (abu t) \<and> auth_valid n alpha (abv t) \<and> auth_valid n alpha (abw t) \<and>
     aval (abw t) = aval (abu t) * aval (abv t)"

lemma generateAuthBeaverTriple_returns:
  assumes "2 \<le> N"
  shows "returns (generateAuthBeaverTriple G N alpha g) (\<lambda>(t, g'). auth_triple_ok N alpha t)"
proof -
  obtain u_plain g1 where g1: "get_u64 G g = (u_plain, g1)" by force
  obtain v_plain g2 where g2: "get_u64 G g1 = (v_plain, g2)" by force
  obtain u g3 where u: "authShareU64 G N u_plain alpha g2 = Inr (u, g3)" "auth_valid N alpha u" "aval u = u_plain"
    using authShareU64_returns [OF assms] by (fastforce elim!: returnsE)
  obtain v g4 where v: "authShareU64 G N v_plain alpha g3 = Inr (v, g4)" "auth_valid N alpha v" "aval v = v_plain"
    using authShareU64_returns [OF assms] by (fastforce elim!: returnsE)
  obtain w g5 where w: "authShareU64 G N (u_plain * v_plain) alpha g4 = Inr (w, g5)" "auth_valid N alpha w"
      "aval w = u_plain * v_plain"
    using authShareU64_returns [OF assms] by (fastforce elim!: returnsE)
  show ?thesis using g1 g2 u v w by (simp add: generateAuthBeaverTriple_def auth_triple_ok_def)
qed

lemma authSecureMultiplyShared_returns:
  assumes x: "auth_valid 2 (alpha_of alpha) x" and y: "auth_valid 2 (alpha_of alpha) y"
    and t: "auth_triple_ok 2 (alpha_of alpha) t" and a: "u64_N (alpha_share alpha) = 2"
  shows "returns (authSecureMultiplyShared H R x y t alpha r)
    (\<lambda>(z, r'). auth_valid 2 (alpha_of alpha) z \<and> aval z = aval x * aval y)"
proof -
  let ?k = "alpha_of alpha"
  note defs = auth_valid_def auth_triple_ok_def auth_shape_def
  have u: "auth_valid 2 ?k (abu t)" and v: "auth_valid 2 ?k (abv t)" and w: "auth_valid 2 ?k (abw t)"
    and uv: "aval (abw t) = aval (abu t) * aval (abv t)" using t by (simp_all add: auth_triple_ok_def)
  obtain xu where xu: "authSub x (abu t) = Inr xu" "auth_valid 2 ?k xu" "aval xu = aval x - aval (abu t)"
    using authSub_returns [of 2 x "abu t"] x u by (auto simp: auth_valid_def algebra_simps elim!: returnsE)
  obtain yv where yv: "authSub y (abv t) = Inr yv" "auth_valid 2 ?k yv" "aval yv = aval y - aval (abv t)"
    using authSub_returns [of 2 y "abv t"] y v by (auto simp: auth_valid_def algebra_simps elim!: returnsE)
  obtain r1 where d: "openWithMacCheckShared H R xu alpha r = Inr (Some (aval xu), r1)"
    using openShared_returns [of xu alpha H R r] xu(2) a by (auto simp: auth_valid_def elim!: returnsE)
  obtain r2 where e: "openWithMacCheckShared H R yv alpha r1 = Inr (Some (aval yv), r2)"
    using openShared_returns [of yv alpha H R r1] yv(2) a by (auto simp: auth_valid_def elim!: returnsE)
  obtain z1 where z1: "bindE (addShared (av (abw t)) (mulConst (av (abv t)) (aval xu)))
      (\<lambda>s. addShared s (mulConst (av (abu t)) (aval yv))) = Inr z1" "u64_N z1 = 2"
      "u64_reconstruct z1 = aval (abw t) + aval (abv t) * aval xu + aval (abu t) * aval yv"
    using combine_returns [of "av (abw t)" 2 "av (abv t)" "av (abu t)"] u v w
    by (force simp: defs aval_def elim!: returnsE)
  obtain z where z: "addConst z1 (aval xu * aval yv) = Inr z" "u64_N z = 2"
      "u64_reconstruct z = u64_reconstruct z1 + aval xu * aval yv"
    using addConst_returns [of z1 "aval xu * aval yv"] z1(2) by (auto elim!: returnsE)
  obtain m1 where m1: "bindE (addShared (am (abw t)) (mulConst (am (abv t)) (aval xu)))
      (\<lambda>s. addShared s (mulConst (am (abu t)) (aval yv))) = Inr m1" "u64_N m1 = 2"
      "u64_reconstruct m1 = amac (abw t) + amac (abv t) * aval xu + amac (abu t) * aval yv"
    using combine_returns [of "am (abw t)" 2 "am (abv t)" "am (abu t)"] u v w
    by (force simp: defs amac_def elim!: returnsE)
  obtain ms where ms: "mapE (\<lambda>i. bindE (vec_at (u64_shares (alpha_share alpha)) i) (\<lambda>a.
      Inr (u64_shares m1 ! i + a * aval xu * aval yv))) [0..<u64_N m1] = Inr ms" "length ms = 2"
      "sum_list ms = u64_reconstruct m1 + ?k * aval xu * aval yv"
    using sharewise_add_returns [OF m1(2) a] by (auto simp: alpha_of_def elim!: returnsE)
  have val: "u64_reconstruct z = aval x * aval y"
    by (simp add: z z1 xu yv uv algebra_simps)
  have "sum_list ms = ?k * (aval x * aval y)"
    using u v w by (simp add: ms m1 auth_valid_def xu yv uv algebra_simps)
  with val show ?thesis
    using x y u v w a xu yv d e z ms z1(1) m1(1)
    by (auto simp: authSecureMultiplyShared_def defs aval_def amac_def u64_reconstruct_sum u64_N_def bindE_eq_Inr)
qed

subsection \<open>Tampering\<close>

lemma simulateTampering_returns:
  "auth_shape n x \<Longrightarrow> bad < n \<Longrightarrow>
   returns (simulateTampering x bad t) (\<lambda>y. auth_shape n y \<and> aval y = aval x + t \<and> amac y = amac x)"
  by (simp add: simulateTampering_def auth_defs u64_N_def u64_reconstruct_sum sum_list_add_at)

subsection \<open>The batched check\<close>

lemma omega_transcript_returns:
  assumes "\<forall>x\<in>set xs. auth_shape 2 x"
  shows "\<exists>tr. omega_transcript xs = Inr tr"
proof -
  have "returns (mapE (\<lambda>x. mapE (\<lambda>i. bindE (vec_at (u64_shares (am x)) i) (\<lambda>m.
         Inr (le_bytes 8 (u64_shares (av x) ! i) @ le_bytes 8 m))) [0..<u64_N (av x)]) xs)
       (\<lambda>bss. list_all2 (\<lambda>x bs. True) xs bss)"
  proof (rule returns_mapE)
    fix x assume "x \<in> set xs"
    then have "auth_shape 2 x" using assms by simp
    then show "returns (mapE (\<lambda>i. bindE (vec_at (u64_shares (am x)) i) (\<lambda>m.
         Inr (le_bytes 8 (u64_shares (av x) ! i) @ le_bytes 8 m))) [0..<u64_N (av x)]) (\<lambda>bs. True)"
      by (intro returns_mono [OF returns_mapE_upt [where Q = "\<lambda>i y. True"]])
        (simp_all add: auth_shape_def u64_N_def)
  qed
  then show ?thesis by (auto simp: omega_transcript_def returns_def)
qed

lemma combine_shares_returns:
  assumes "length acc = 2" "u64_N s = 2"
  shows "returns (combine_shares acc r (u64_shares s))
    (\<lambda>acc'. length acc' = 2 \<and> sum_list acc' = sum_list acc + r * u64_reconstruct s)"
proof -
  obtain a b where s: "u64_shares s = [a, b]" using two_shares [OF assms(2)] by blast
  obtain c d where acc: "acc = [c, d]"
    using two_shares [of "\<lparr>u64_shares = acc\<rparr>"] assms(1) by (auto simp: u64_N_def)
  show ?thesis by (simp add: combine_shares_def s acc u64_reconstruct_sum algebra_simps)
qed

lemma combined_fold_returns:
  assumes "\<forall>x\<in>set xs. auth_shape 2 x"
  shows "returns (foldE (\<lambda>j (cv, cm).
         bindE (combine_shares cv (rs ! j) (u64_shares (av (xs ! j)))) (\<lambda>cv'.
         bindE (combine_shares cm (rs ! j) (u64_shares (am (xs ! j)))) (\<lambda>cm'. Inr (cv', cm'))))
       [0..<length xs] ([0, 0], [0, 0]))
     (\<lambda>(cv, cm). length cv = 2 \<and> length cm = 2 \<and>
        sum_list cv = (\<Sum>j<length xs. rs ! j * aval (xs ! j)) \<and>
        sum_list cm = (\<Sum>j<length xs. rs ! j * amac (xs ! j)))"
proof -
  let ?I = "\<lambda>k (cv, cm). length cv = 2 \<and> length cm = 2 \<and>
        sum_list cv = (\<Sum>j<k. rs ! j * aval (xs ! j)) \<and> sum_list cm = (\<Sum>j<k. rs ! j * amac (xs ! j))"
  show ?thesis
  proof (rule returns_foldE_upt [where I = ?I], goal_cases)
    case (2 k st)
    obtain cv cm where st: "st = (cv, cm)" by (cases st)
    have shape: "auth_shape 2 (xs ! k)" using assms 2(1) by simp
    have "returns (combine_shares cv (rs ! k) (u64_shares (av (xs ! k))))
        (\<lambda>cv'. length cv' = 2 \<and> sum_list cv' = sum_list cv + rs ! k * aval (xs ! k))"
      "returns (combine_shares cm (rs ! k) (u64_shares (am (xs ! k))))
        (\<lambda>cm'. length cm' = 2 \<and> sum_list cm' = sum_list cm + rs ! k * amac (xs ! k))"
      using 2(2) shape st combine_shares_returns [of cv "av (xs ! k)" "rs ! k"]
        combine_shares_returns [of cm "am (xs ! k)" "rs ! k"]
      by (simp_all add: auth_defs)
    then show ?case using 2(2) by (auto simp: st returns_def)
  qed simp
qed

subsection \<open>The sacrifice check\<close>

interpretation tagged64: tagged_sharing "auth_shape n" aval amac authSub authMulConst
  by unfold_locales (simp_all add: authSub_returns)

lemmas authSub_valid = tagged64.sub_valid [folded auth_valid_def]

lemma authMulConst_valid [simp]: "auth_valid n k a \<Longrightarrow> auth_valid n k (authMulConst a c)"
  by (simp add: auth_valid_def algebra_simps)

lemma openShared_valid:
  assumes "auth_valid 2 (alpha_of alpha) x" "u64_N (alpha_share alpha) = 2"
  shows "\<exists>r'. openWithMacCheckShared H R x alpha r = Inr (Some (aval x), r')"
  using openShared_returns [of x alpha H R r] assms by (auto simp: auth_valid_def elim!: returnsE)

definition triple_error :: "AuthBeaverTriple \<Rightarrow> 64 word" where
  "triple_error t = aval (abw t) - aval (abu t) * aval (abv t)"

definition triple_tagged :: "64 word \<Rightarrow> AuthBeaverTriple \<Rightarrow> bool" where
  "triple_tagged k t \<longleftrightarrow> auth_valid 2 k (abu t) \<and> auth_valid 2 k (abv t) \<and> auth_valid 2 k (abw t)"

lemma tau_returns:
  assumes "auth_valid n k c" "auth_valid n k a'" "auth_valid n k b'" "auth_valid n k c'"
  shows "returns (authSubPubMulValue r c s a' p b' c')
    (\<lambda>t. auth_valid n k t \<and> aval t = aval c * r - aval c' - aval a' * s - aval b' * p)"
  using tagged64.combination_valid [folded auth_valid_def, OF assms]
  by (simp add: authSubPubMulValue_def)

definition challenge_of :: "'r prng \<Rightarrow> 'r \<Rightarrow> 64 word" where
  "challenge_of R s = (let r = fst (secureRandU64 R s) in if r = 0 then 1 else r)"

lemma sacrificeShared_returns:
  assumes T: "triple_tagged (alpha_of alpha) T" and T': "triple_tagged (alpha_of alpha) T'"
    and a: "u64_N (alpha_share alpha) = 2"
  shows "\<exists>s'. sacrificeCheckTripleShared H R T T' alpha s =
    Inr (challenge_of R s * triple_error T = triple_error T', s')"
proof -
  let ?k = "alpha_of alpha"
  obtain r0 s1 where r0: "secureRandU64 R s = (r0, s1)" by force
  define r where "r = (if r0 = 0 then 1 else r0)"
  have r: "challenge_of R s = r" by (simp add: challenge_of_def r0 r_def)
  have tags: "auth_valid 2 ?k (abu T)" "auth_valid 2 ?k (abv T)" "auth_valid 2 ?k (abw T)"
    "auth_valid 2 ?k (abu T')" "auth_valid 2 ?k (abv T')" "auth_valid 2 ?k (abw T')"
    using T T' by (simp_all add: triple_tagged_def)
  obtain rho where rho: "rXSubY r (abu T) (abu T') = Inr rho" "auth_valid 2 ?k rho"
      "aval rho = aval (abu T) * r - aval (abu T')"
    using authSub_valid [of 2 ?k "authMulConst (abu T) r" "abu T'"] tags by (auto simp: rXSubY_eq elim!: returnsE)
  obtain sig where sig: "rXSubY 1 (abv T) (abv T') = Inr sig" "auth_valid 2 ?k sig"
      "aval sig = aval (abv T) - aval (abv T')"
    using authSub_valid [of 2 ?k "authMulConst (abv T) 1" "abv T'"] tags by (auto simp: rXSubY_eq elim!: returnsE)
  obtain tau where tau: "authSubPubMulValue r (abw T) (aval sig) (abu T') (aval rho) (abv T') (abw T') = Inr tau"
      "auth_valid 2 ?k tau"
      "aval tau = aval (abw T) * r - aval (abw T') - aval (abu T') * aval sig - aval (abv T') * aval rho"
    using tau_returns [of 2 ?k "abw T" "abu T'" "abv T'" "abw T'" r "aval sig" "aval rho"] tags
    by (auto elim!: returnsE)
  obtain s2 where s2: "openWithMacCheckShared H R rho alpha s1 = Inr (Some (aval rho), s2)"
    using openShared_valid [OF rho(2) a, of H R s1] by blast
  obtain s3 where s3: "openWithMacCheckShared H R sig alpha s2 = Inr (Some (aval sig), s3)"
    using openShared_valid [OF sig(2) a, of H R s2] by blast
  obtain s4 where s4: "openWithMacCheckShared H R tau alpha s3 = Inr (Some (aval tau), s4)"
    using openShared_valid [OF tau(2) a, of H R s3] by blast
  have "aval tau = aval rho * aval sig \<longleftrightarrow> r * triple_error T = triple_error T'"
    unfolding tau(3) rho(3) sig(3) triple_error_def by (rule sacrifice_identity)
  then show ?thesis
    using rho sig tau s2 s3 s4 by (simp add: sacrificeCheckTripleShared_def r0 r flip: r_def)
qed

subsection \<open>Key generation\<close>

lemma generateAlpha_sound:
  fixes G :: "'g prng"
  assumes "generateAlpha G N g = Some (Inr (a, g'))"
  shows "2 \<le> N \<and> u64_N (alpha_share a) = N \<and> alpha_of a \<noteq> 0 \<and> 0 \<notin> set (u64_shares (alpha_share a))"
proof -
  let ?P = "\<lambda>(G :: 'g prng) (N :: nat) (g :: 'g) (res :: (AlphaShare \<times> 'g) result). \<forall>a g'. res = Inr (a, g') \<longrightarrow>
      2 \<le> N \<and> u64_N (alpha_share a) = N \<and> alpha_of a \<noteq> 0 \<and> 0 \<notin> set (u64_shares (alpha_share a))"
  have "?P G N g (Inr (a, g'))"
  proof (rule generateAlpha.raw_induct [where P = ?P, OF _ assms], goal_cases)
    case (1 gen G N g res)
    obtain al g1 where al: "get_u64 G g = (al, g1)" by force
    show ?case
    proof (cases "al = 0")
      case True
      then show ?thesis using 1 al by simp
    next
      case False
      show ?thesis
      proof (cases "shareU64 G N al g1")
        case (Inl e)
        then show ?thesis using 1(2) al False by auto
      next
        case (Inr sg)
        obtain s g2 where s: "sg = (s, g2)" by force
        then have "2 \<le> N" using Inr by (simp add: shareU64_def throw_if_eq_Inr)
        then have "u64_N s = N" "u64_reconstruct s = al"
          using shareU64_returns [of N G al g1] Inr s by simp_all
        then show ?thesis
          using 1 al False Inr s \<open>2 \<le> N\<close> by (auto simp: alpha_of_def list_ex_iff split: if_splits)
      qed
    qed
  qed
  then show ?thesis by blast
qed

subsection \<open>Properties\<close>

text \<open>With a triple from the dealer and two authenticated inputs under the shared key, the
  shared-key multiplication does not abort, and its result opens, through the MAC check, to the
  product modulo \<open>2 ^ 64\<close>.\<close>

theorem authSecureMultiplyShared_correct:
  assumes "u64_N (alpha_share alpha) = 2"
  shows "\<exists>x y t z g1 g2 g3 r1 r2.
    authShareU64 G 2 v (alpha_of alpha) g = Inr (x, g1) \<and> authShareU64 G 2 w (alpha_of alpha) g1 = Inr (y, g2) \<and>
    generateAuthBeaverTriple G 2 (alpha_of alpha) g2 = Inr (t, g3) \<and>
    authSecureMultiplyShared H R x y t alpha r = Inr (z, r1) \<and>
    openWithMacCheckShared H R z alpha r1 = Inr (Some (v * w), r2)"
proof -
  let ?k = "alpha_of alpha"
  obtain x g1 where x: "authShareU64 G 2 v ?k g = Inr (x, g1)" "auth_valid 2 ?k x" "aval x = v"
    using authShareU64_returns [of 2 G v ?k g] by (auto elim!: returnsE)
  obtain y g2 where y: "authShareU64 G 2 w ?k g1 = Inr (y, g2)" "auth_valid 2 ?k y" "aval y = w"
    using authShareU64_returns [of 2 G w ?k g1] by (auto elim!: returnsE)
  obtain t g3 where t: "generateAuthBeaverTriple G 2 ?k g2 = Inr (t, g3)" "auth_triple_ok 2 ?k t"
    using generateAuthBeaverTriple_returns [of 2 G ?k g2] by (auto elim!: returnsE)
  obtain z r1 where z: "authSecureMultiplyShared H R x y t alpha r = Inr (z, r1)" "auth_valid 2 ?k z" "aval z = v * w"
    using authSecureMultiplyShared_returns [OF x(2) y(2) t(2) assms, of H R r] x(3) y(3) by (auto elim!: returnsE)
  obtain r2 where "openWithMacCheckShared H R z alpha r1 = Inr (Some (v * w), r2)"
    using openShared_valid [OF z(2) assms, of H R r1] z(3) by auto
  with x(1) y(1) t(1) z(1) show ?thesis by blast
qed

lemma authSecureMultiplyShared_correct_witness:
  "\<exists>x y t z g1 g2 g3 r1 r2.
    authShareU64 counter_prng 2 6 (alpha_of \<lparr>alpha_share = \<lparr>u64_shares = [3, 8]\<rparr>\<rparr>) 0 = Inr (x, g1) \<and>
    authShareU64 counter_prng 2 7 (alpha_of \<lparr>alpha_share = \<lparr>u64_shares = [3, 8]\<rparr>\<rparr>) g1 = Inr (y, g2) \<and>
    generateAuthBeaverTriple counter_prng 2 (alpha_of \<lparr>alpha_share = \<lparr>u64_shares = [3, 8]\<rparr>\<rparr>) g2 = Inr (t, g3) \<and>
    authSecureMultiplyShared id counter_prng x y t \<lparr>alpha_share = \<lparr>u64_shares = [3, 8]\<rparr>\<rparr> 5 = Inr (z, r1) \<and>
    openWithMacCheckShared id counter_prng z \<lparr>alpha_share = \<lparr>u64_shares = [3, 8]\<rparr>\<rparr> r1 = Inr (Some 42, r2)"
  using authSecureMultiplyShared_correct [of "\<lparr>alpha_share = \<lparr>u64_shares = [3, 8]\<rparr>\<rparr>" counter_prng 6 0 7 id
      counter_prng 5]
  by (simp add: u64_N_def)

text \<open>The exact strength of the 64-bit MAC. A share whose value is changed by \<open>t\<close> after
  authentication is rejected if and only if \<open>alpha * t\<close> is nonzero modulo \<open>2 ^ 64\<close>; in
  particular, whenever the key is even the change \<open>t = 2 ^ 63\<close> is accepted and the wrong value
  opened.\<close>

theorem spdz64_tampering:
  assumes "auth_valid 2 (alpha_of alpha) x" "u64_N (alpha_share alpha) = 2" "bad < 2"
  shows "(\<exists>y r'. simulateTampering x bad t = Inr y \<and>
      openWithMacCheckShared H R y alpha r = Inr (if alpha_of alpha * t = 0 then Some (aval x + t) else None, r')) \<and>
    (even (unat (alpha_of alpha)) \<longrightarrow> (\<exists>y r'. simulateTampering x bad (2 ^ 63) = Inr y \<and>
      openWithMacCheckShared H R y alpha r = Inr (Some (aval x + 2 ^ 63), r')))"
proof -
  have all: "\<exists>y r'. simulateTampering x bad t = Inr y \<and>
      openWithMacCheckShared H R y alpha r = Inr (if alpha_of alpha * t = 0 then Some (aval x + t) else None, r')" for t
  proof -
    obtain y where y: "simulateTampering x bad t = Inr y" "auth_shape 2 y" "aval y = aval x + t" "amac y = amac x"
      using simulateTampering_returns [of 2 x bad t] assms by (auto simp: auth_valid_def elim!: returnsE)
    have "amac y = alpha_of alpha * aval y \<longleftrightarrow> alpha_of alpha * t = 0"
      using assms(1) by (simp add: y auth_valid_def distrib_left)
    then show ?thesis
      using openShared_returns [OF y(2) assms(2), of H R r] y(1,3) by (auto elim!: returnsE)
  qed
  have "alpha_of alpha * 2 ^ 63 = 0" if ev: "even (unat (alpha_of alpha))"
  proof -
    obtain k where "unat (alpha_of alpha) = 2 * k" using ev ..
    then have "alpha_of alpha = word_of_nat (2 * k)" by (metis of_nat_unat ucast_id)
    then have "alpha_of alpha * 2 ^ 63 = word_of_nat k * 2 ^ 64" by simp
    moreover have "(2 :: 64 word) ^ 64 = 0" by simp
    ultimately show ?thesis by (simp only: mult_zero_right)
  qed
  with all [of t] all [of "2 ^ 63"] show ?thesis by presburger
qed

lemma spdz64_tampering_witness:
  "\<exists>y r'. simulateTampering \<lparr>av = \<lparr>u64_shares = [1, 4]\<rparr>, am = \<lparr>u64_shares = [20, 0]\<rparr>\<rparr> 1 (2 ^ 63) = Inr y \<and>
      openWithMacCheckShared id counter_prng y \<lparr>alpha_share = \<lparr>u64_shares = [1, 3]\<rparr>\<rparr> 0 =
        Inr (Some (5 + 2 ^ 63), r')"
proof -
  have a: "alpha_of \<lparr>alpha_share = \<lparr>u64_shares = [1, 3]\<rparr>\<rparr> = 4"
    by (simp add: alpha_of_def u64_reconstruct_def)
  then show ?thesis
    using spdz64_tampering [of "\<lparr>alpha_share = \<lparr>u64_shares = [1, 3]\<rparr>\<rparr>"
        "\<lparr>av = \<lparr>u64_shares = [1, 4]\<rparr>, am = \<lparr>u64_shares = [20, 0]\<rparr>\<rparr>" 1 0 id counter_prng 0]
    by (simp add: auth_valid_def auth_defs u64_N_def u64_reconstruct_def)
qed

text \<open>The batched opening returns every opened value, and accepts exactly when the
  challenge-weighted sum of the MAC errors of the shares is zero; the challenges are derived from
  the shares and are never zero.\<close>

theorem batchOpen_correct:
  assumes "\<forall>x\<in>set xs. auth_shape 2 x" "u64_N (alpha_share alpha) = 2"
  shows "\<exists>rs r'. deriveOmegaChallenges H xs = Inr rs \<and> length rs = length xs \<and> 0 \<notin> set rs \<and>
    batchOpenWithMacCheckShared H R xs alpha r =
      Inr (((\<Sum>j<length xs. rs ! j * (alpha_of alpha * aval (xs ! j) - amac (xs ! j))) = 0, map aval xs), r')"
proof -
  obtain tr where tr: "omega_transcript xs = Inr tr" using omega_transcript_returns [OF assms(1)] by blast
  define rs where "rs = map (omega_challenge H (H tr)) [0..<length xs]"
  have rs: "deriveOmegaChallenges H xs = Inr rs" "length rs = length xs" "0 \<notin> set rs"
    by (auto simp: deriveOmegaChallenges_def tr rs_def omega_challenge_def Let_def)
  obtain cv cm where c: "foldE (\<lambda>j (cv, cm).
         bindE (combine_shares cv (rs ! j) (u64_shares (av (xs ! j)))) (\<lambda>cv'.
         bindE (combine_shares cm (rs ! j) (u64_shares (am (xs ! j)))) (\<lambda>cm'. Inr (cv', cm'))))
       [0..<length xs] ([0, 0], [0, 0]) = Inr (cv, cm)" "length cv = 2" "length cm = 2"
      "sum_list cv = (\<Sum>j<length xs. rs ! j * aval (xs ! j))"
      "sum_list cm = (\<Sum>j<length xs. rs ! j * amac (xs ! j))"
    using combined_fold_returns [OF assms(1), of rs] by (auto elim!: returnsE)
  let ?c = "\<lparr>av = \<lparr>u64_shares = cv\<rparr>, am = \<lparr>u64_shares = cm\<rparr>\<rparr>"
  have shape: "auth_shape 2 ?c" "aval ?c = sum_list cv" "amac ?c = sum_list cm"
    using c by (simp_all add: auth_defs u64_N_def u64_reconstruct_sum)
  have "(\<Sum>j<length xs. rs ! j * (alpha_of alpha * aval (xs ! j) - amac (xs ! j))) =
      alpha_of alpha * sum_list cv - sum_list cm"
    by (simp add: c sum_distrib_left sum_subtractf algebra_simps)
  then have "amac ?c = alpha_of alpha * aval ?c \<longleftrightarrow>
      (\<Sum>j<length xs. rs ! j * (alpha_of alpha * aval (xs ! j) - amac (xs ! j))) = 0"
    by (auto simp: shape)
  moreover obtain r' where "openWithMacCheckShared H R ?c alpha r =
      Inr (if amac ?c = alpha_of alpha * aval ?c then Some (aval ?c) else None, r')"
    using openShared_returns [OF shape(1) assms(2), of H R r] by (auto elim!: returnsE)
  moreover have "\<not> (\<exists>x\<in>set xs. u64_N (av x) \<noteq> 2)" using assms(1) by (auto simp: auth_shape_def)
  ultimately have "batchOpenWithMacCheckShared H R xs alpha r =
      Inr (((\<Sum>j<length xs. rs ! j * (alpha_of alpha * aval (xs ! j) - amac (xs ! j))) = 0, map aval xs), r')"
    using assms(2) rs(1) c(1) by (simp add: batchOpenWithMacCheckShared_def aval_def [abs_def])
  with rs show ?thesis by blast
qed

lemma batchOpen_correct_witness:
  "\<exists>rs r'. deriveOmegaChallenges (\<lambda>bs. [1]) [\<lparr>av = \<lparr>u64_shares = [1, 4]\<rparr>, am = \<lparr>u64_shares = [20, 0]\<rparr>\<rparr>] = Inr rs \<and>
    batchOpenWithMacCheckShared (\<lambda>bs. [1]) counter_prng [\<lparr>av = \<lparr>u64_shares = [1, 4]\<rparr>, am = \<lparr>u64_shares = [20, 0]\<rparr>\<rparr>]
      \<lparr>alpha_share = \<lparr>u64_shares = [1, 3]\<rparr>\<rparr> 0 = Inr ((True, [5]), r')"
  using batchOpen_correct [of "[\<lparr>av = \<lparr>u64_shares = [1, 4]\<rparr>, am = \<lparr>u64_shares = [20, 0]\<rparr>\<rparr>]"
      "\<lparr>alpha_share = \<lparr>u64_shares = [1, 3]\<rparr>\<rparr>" "\<lambda>bs. [1]" counter_prng 0]
  by (auto simp: alpha_of_def auth_defs u64_N_def u64_reconstruct_def)

text \<open>On triples whose components carry valid MACs, the shared-key sacrifice check accepts
  exactly when the challenge times the error \<open>w - u v\<close> of the tested triple is the error of the
  auxiliary triple; with a correct auxiliary triple every correct triple passes.\<close>

theorem sacrificeCheckTripleShared_decides:
  assumes "triple_tagged (alpha_of alpha) T" "triple_tagged (alpha_of alpha) T'" "u64_N (alpha_share alpha) = 2"
  shows "\<exists>s'. sacrificeCheckTripleShared H R T T' alpha s =
    Inr (challenge_of R s * triple_error T = triple_error T', s')"
  using assms by (rule sacrificeShared_returns)

lemma sacrificeCheckTripleShared_decides_witness:
  "let x = (\<lambda>v. \<lparr>av = \<lparr>u64_shares = [v, 0]\<rparr>, am = \<lparr>u64_shares = [0, 4 * v]\<rparr>\<rparr>);
       T = \<lparr>abu = x 2, abv = x 3, abw = x 7\<rparr>; T' = \<lparr>abu = x 1, abv = x 1, abw = x 1\<rparr>
   in \<exists>s'. sacrificeCheckTripleShared id counter_prng T T' \<lparr>alpha_share = \<lparr>u64_shares = [1, 3]\<rparr>\<rparr> (0::nat) =
    Inr (False, s')"
proof -
  have c: "challenge_of counter_prng 0 \<noteq> 0" by (simp add: challenge_of_def Let_def)
  let ?x = "\<lambda>v. \<lparr>av = \<lparr>u64_shares = [v, 0]\<rparr>, am = \<lparr>u64_shares = [0, 4 * v]\<rparr>\<rparr>"
  show ?thesis
    using c sacrificeCheckTripleShared_decides [of "\<lparr>alpha_share = \<lparr>u64_shares = [1, 3]\<rparr>\<rparr>"
        "\<lparr>abu = ?x 2, abv = ?x 3, abw = ?x 7\<rparr>" "\<lparr>abu = ?x 1, abv = ?x 1, abw = ?x 1\<rparr>" id counter_prng 0]
    by (simp add: triple_tagged_def triple_error_def alpha_of_def auth_valid_def auth_defs u64_N_def
        u64_reconstruct_def)
qed

end
