(* ===== verification/Spdz2k_Share.thy ===== *)
theory Spdz2k_Share
  imports Spdz_Share
begin

text \<open>
  SPDZ2k authenticated shares (\<open>volePSI/MpsvsAuthShare128.h\<close>, \<open>volePSI/MpsvsAuthShare128.cpp\<close>): 64-bit
  values authenticated in the ring of 128-bit words. The code computes in the signed type
  \<open>__int128\<close>, whose overflow C++ leaves undefined; the model takes the two's complement result.

  As in \<open>Spdz_Share\<close>, \<open>None\<close> is a return of \<open>false\<close> that leaves the output argument alone, \<open>R\<close> the
  system generator and \<open>H\<close> SHA-256.
\<close>

definition kSpdz2kValueBits :: nat where "kSpdz2kValueBits = 64"
definition kSpdz2kStatBits :: nat where "kSpdz2kStatBits = 64"
definition kSpdz2kRingBits :: nat where "kSpdz2kRingBits = kSpdz2kValueBits + kSpdz2kStatBits"

definition kSpdz2kValueMask :: "128 word" where
  "kSpdz2kValueMask = push_bit kSpdz2kValueBits 1 - 1"

definition kSpdz2kRingMask :: "128 word" where
  "kSpdz2kRingMask = (if kSpdz2kRingBits \<ge> 128 then NOT 0 else push_bit kSpdz2kRingBits 1 - 1)"

definition modRing :: "128 word \<Rightarrow> 128 word" where
  "modRing v = v AND kSpdz2kRingMask"

record SharedU128 =
  u128_shares :: "128 word list"

definition u128_zero :: "nat \<Rightarrow> SharedU128" where
  "u128_zero N = \<lparr>u128_shares = replicate N 0\<rparr>"

definition u128_N :: "SharedU128 \<Rightarrow> nat" where
  "u128_N x = length (u128_shares x)"

definition u128_reconstruct :: "SharedU128 \<Rightarrow> 128 word" where
  "u128_reconstruct x = fold (+) (u128_shares x) 0 AND kSpdz2kRingMask"

definition reconstructValue :: "SharedU128 \<Rightarrow> 64 word" where
  "reconstructValue x = ucast (u128_reconstruct x AND kSpdz2kValueMask)"

definition secureRandU128 :: "'r prng \<Rightarrow> 'r \<Rightarrow> 128 word \<times> 'r" where
  "secureRandU128 R r = (let (buf, r1) = secureRandBytes R 16 r in (modRing (le_read buf), r1))"

definition shareU128 :: "'r prng \<Rightarrow> nat \<Rightarrow> 128 word \<Rightarrow> 'r \<Rightarrow> (SharedU128 \<times> 'r) result" where
  "shareU128 R N v r =
     (let v' = modRing v;
          (rs, r1) = draws (secureRandU128 R) (N - 1) r;
          sum = fold (+) rs 0
      in if N = 0 then Inl OutOfBounds
         else Inr (\<lparr>u128_shares = modRing (v' - sum) # rs\<rparr>, r1))"

definition addShared128 :: "SharedU128 \<Rightarrow> SharedU128 \<Rightarrow> SharedU128 result" where
  "addShared128 a b =
     throw_if (u128_N a \<noteq> u128_N b) (RuntimeError ''addShared128: N mismatch'')
       (Inr \<lparr>u128_shares = map2 (\<lambda>s t. modRing (s + t)) (u128_shares a) (u128_shares b)\<rparr>)"

definition subShared128 :: "SharedU128 \<Rightarrow> SharedU128 \<Rightarrow> SharedU128 result" where
  "subShared128 a b =
     throw_if (u128_N a \<noteq> u128_N b) (RuntimeError ''subShared128: N mismatch'')
       (Inr \<lparr>u128_shares = map2 (\<lambda>s t. modRing (s - t)) (u128_shares a) (u128_shares b)\<rparr>)"

definition mulConst128 :: "SharedU128 \<Rightarrow> 128 word \<Rightarrow> SharedU128" where
  "mulConst128 a c = (let c' = modRing c in \<lparr>u128_shares = map (\<lambda>s. modRing (s * c')) (u128_shares a)\<rparr>)"

definition addConst128 :: "SharedU128 \<Rightarrow> 128 word \<Rightarrow> SharedU128 result" where
  "addConst128 a c =
     (let c' = modRing c in
      case u128_shares a of
        [] \<Rightarrow> Inl OutOfBounds
      | s # ss \<Rightarrow> Inr \<lparr>u128_shares = modRing (s + c') # ss\<rparr>)"

subsection \<open>Authenticated shares\<close>

record AuthSharedU128 =
  av128 :: SharedU128
  am128 :: SharedU128

record AlphaShare128 =
  alpha_share128 :: SharedU128

record AuthBeaverTriple128 =
  abu128 :: AuthSharedU128
  abv128 :: AuthSharedU128
  abw128 :: AuthSharedU128

definition auth128_N :: "AuthSharedU128 \<Rightarrow> nat" where
  "auth128_N x = u128_N (av128 x)"

definition authAdd128 :: "AuthSharedU128 \<Rightarrow> AuthSharedU128 \<Rightarrow> AuthSharedU128 result" where
  "authAdd128 a b =
     bindE (addShared128 (av128 a) (av128 b)) (\<lambda>v. bindE (addShared128 (am128 a) (am128 b)) (\<lambda>m.
     Inr \<lparr>av128 = v, am128 = m\<rparr>))"

definition authSub128 :: "AuthSharedU128 \<Rightarrow> AuthSharedU128 \<Rightarrow> AuthSharedU128 result" where
  "authSub128 a b =
     bindE (subShared128 (av128 a) (av128 b)) (\<lambda>v. bindE (subShared128 (am128 a) (am128 b)) (\<lambda>m.
     Inr \<lparr>av128 = v, am128 = m\<rparr>))"

definition authMulConst128 :: "AuthSharedU128 \<Rightarrow> 128 word \<Rightarrow> AuthSharedU128" where
  "authMulConst128 a c = \<lparr>av128 = mulConst128 (av128 a) c, am128 = mulConst128 (am128 a) c\<rparr>"

partial_function (option) generateAlpha128 :: "'r prng \<Rightarrow> nat \<Rightarrow> 'r \<Rightarrow> (AlphaShare128 \<times> 'r) result option" where
  "generateAlpha128 R N r =
     (let (alpha, r1) = secureRandU128 R r
      in if alpha = 0 then generateAlpha128 R N r1
         else case shareU128 R N alpha r1 of
             Inl e \<Rightarrow> Some (Inl e)
           | Inr (s, r2) \<Rightarrow>
               if list_ex (\<lambda>a. a = 0) (u128_shares s) then generateAlpha128 R N r2
               else Some (Inr (\<lparr>alpha_share128 = s\<rparr>, r2)))"

definition authShareU128 ::
  "'r prng \<Rightarrow> nat \<Rightarrow> 128 word \<Rightarrow> AlphaShare128 \<Rightarrow> 'r \<Rightarrow> (AuthSharedU128 \<times> 'r) result" where
  "authShareU128 R N v alpha r =
     (let v' = modRing v;
          alpha_recon = u128_reconstruct (alpha_share128 alpha);
          mac = modRing (alpha_recon * v')
      in bindE (shareU128 R N v' r) (\<lambda>(sv, r1).
         bindE (shareU128 R N mac r1) (\<lambda>(sm, r2).
         Inr (\<lparr>av128 = sv, am128 = sm\<rparr>, r2))))"

definition generateAuthBeaverTriple128 ::
  "'r prng \<Rightarrow> nat \<Rightarrow> AlphaShare128 \<Rightarrow> 'r \<Rightarrow> (AuthBeaverTriple128 \<times> 'r) result" where
  "generateAuthBeaverTriple128 R N alpha r =
     (let (u_plain, r1) = secureRandU128 R r;
          (v_plain, r2) = secureRandU128 R r1;
          w_plain = modRing (u_plain * v_plain)
      in bindE (authShareU128 R N u_plain alpha r2) (\<lambda>(u, r3).
         bindE (authShareU128 R N v_plain alpha r3) (\<lambda>(v, r4).
         bindE (authShareU128 R N w_plain alpha r4) (\<lambda>(w, r5).
         Inr (\<lparr>abu128 = u, abv128 = v, abw128 = w\<rparr>, r5)))))"

definition simulateTampering128 :: "AuthSharedU128 \<Rightarrow> nat \<Rightarrow> 128 word \<Rightarrow> AuthSharedU128 result" where
  "simulateTampering128 x bad_party tamper_amount =
     throw_if (bad_party \<ge> u128_N (av128 x)) (InvalidArgument ''simulateTampering128: bad_party out of range'')
       (Inr (x\<lparr>av128 := \<lparr>u128_shares = (u128_shares (av128 x))
          [bad_party := modRing (u128_shares (av128 x) ! bad_party + tamper_amount)]\<rparr>\<rparr>))"

definition spdz2kAdversarialDelta :: "128 word" where
  "spdz2kAdversarialDelta = push_bit (kSpdz2kValueBits - 1) 1"

subsection \<open>Opening\<close>

record SigmaCommit128 =
  sc128_party :: "32 word"
  sc128_sigma :: "128 word"
  sc128_salt :: "128 word"
  sc128_commit :: bytes

definition commitSigma128 :: "(bytes \<Rightarrow> bytes) \<Rightarrow> 32 word \<Rightarrow> 128 word \<Rightarrow> 128 word \<Rightarrow> bytes" where
  "commitSigma128 H party sigma salt =
     H (str_bytes ''mpsvs.audit.v2'' @ le_bytes 4 party @ le_bytes 16 sigma @ le_bytes 16 salt)"

definition computeSigmaCommit128 ::
  "(bytes \<Rightarrow> bytes) \<Rightarrow> 'r prng \<Rightarrow> 32 word \<Rightarrow> 128 word \<Rightarrow> 128 word \<Rightarrow> 128 word \<Rightarrow> 'r \<Rightarrow> SigmaCommit128 \<times> 'r" where
  "computeSigmaCommit128 H R party alpha_i mac_i x_pub_ring r =
     (let sigma = modRing (alpha_i * x_pub_ring - mac_i);
          (salt, r1) = secureRandU128 R r
      in (\<lparr>sc128_party = party, sc128_sigma = sigma, sc128_salt = salt,
           sc128_commit = commitSigma128 H party sigma salt\<rparr>, r1))"

definition verifySigmaReveal128 :: "(bytes \<Rightarrow> bytes) \<Rightarrow> SigmaCommit128 \<Rightarrow> bytes \<Rightarrow> bool" where
  "verifySigmaReveal128 H s expected \<longleftrightarrow>
     commitSigma128 H (sc128_party s) (sc128_sigma s) (sc128_salt s) = expected"

definition openWithMacCheckShared128 ::
  "(bytes \<Rightarrow> bytes) \<Rightarrow> 'r prng \<Rightarrow> AuthSharedU128 \<Rightarrow> AlphaShare128 \<Rightarrow> 'r \<Rightarrow> (64 word option \<times> 'r) result" where
  "openWithMacCheckShared128 H R x alpha r =
     throw_if (u128_N (av128 x) \<noteq> 2 \<or> u128_N (alpha_share128 alpha) \<noteq> 2)
       (RuntimeError ''openWithMacCheckShared128: 2-party only (MPSVS S1/S2 topology)'')
       (let x_ring = u128_reconstruct (av128 x);
            x_value = ucast (x_ring AND kSpdz2kValueMask) in
        bindE (vec_at (u128_shares (alpha_share128 alpha)) 0) (\<lambda>a0.
        bindE (vec_at (u128_shares (am128 x)) 0) (\<lambda>m0.
        let (s1, r1) = computeSigmaCommit128 H R 1 a0 m0 x_ring r in
        bindE (vec_at (u128_shares (alpha_share128 alpha)) 1) (\<lambda>a1.
        bindE (vec_at (u128_shares (am128 x)) 1) (\<lambda>m1.
        let (s2, r2) = computeSigmaCommit128 H R 2 a1 m1 x_ring r1;
            c1 = sc128_commit s1;
            c2 = sc128_commit s2
        in if \<not> verifySigmaReveal128 H s1 c1 then Inr (None, r2)
           else if \<not> verifySigmaReveal128 H s2 c2 then Inr (None, r2)
           else if modRing (sc128_sigma s1 + sc128_sigma s2) \<noteq> 0 then Inr (None, r2)
           else Inr (Some x_value, r2))))))"

definition omega_transcript128 :: "AuthSharedU128 list \<Rightarrow> bytes result" where
  "omega_transcript128 xs =
     bindE (mapE (\<lambda>x. mapE (\<lambda>i. bindE (vec_at (u128_shares (am128 x)) i) (\<lambda>m.
         Inr (le_bytes 16 (u128_shares (av128 x) ! i) @ le_bytes 16 m))) [0..<auth128_N x]) xs)
       (\<lambda>bss. Inr (concat (concat bss)))"

definition omega_challenge128 :: "(bytes \<Rightarrow> bytes) \<Rightarrow> bytes \<Rightarrow> nat \<Rightarrow> 128 word" where
  "omega_challenge128 H tr_hash j =
     (let h = H (str_bytes ''mpsvs.omega.r.v2'' @ le_bytes 8 (word_of_nat j :: 64 word) @ tr_hash);
          r = modRing (le_read (take 16 h))
      in if r = 0 then 1 else r)"

definition deriveOmegaChallenges128 :: "(bytes \<Rightarrow> bytes) \<Rightarrow> AuthSharedU128 list \<Rightarrow> 128 word list result" where
  "deriveOmegaChallenges128 H xs =
     bindE (omega_transcript128 xs) (\<lambda>tr. Inr (map (omega_challenge128 H (H tr)) [0..<length xs]))"

definition combine_shares128 :: "128 word list \<Rightarrow> 128 word \<Rightarrow> 128 word list \<Rightarrow> 128 word list result" where
  "combine_shares128 acc r s =
     bindE (vec_at s 0) (\<lambda>s0. bindE (vec_at s 1) (\<lambda>s1.
     Inr [modRing (acc ! 0 + r * s0), modRing (acc ! 1 + r * s1)]))"

definition batchOpenWithMacCheckShared128 ::
  "(bytes \<Rightarrow> bytes) \<Rightarrow> 'r prng \<Rightarrow> AuthSharedU128 list \<Rightarrow> AlphaShare128 \<Rightarrow> 'r \<Rightarrow> ((bool \<times> 64 word list) \<times> 'r) result" where
  "batchOpenWithMacCheckShared128 H R xs alpha r =
     throw_if (u128_N (alpha_share128 alpha) \<noteq> 2) (RuntimeError ''batchOpenWithMacCheckShared128: 2-party only'')
    (throw_if (\<exists>x\<in>set xs. u128_N (av128 x) \<noteq> 2)
       (RuntimeError ''batchOpenWithMacCheckShared128: element must be 2-party'')
    (bindE (deriveOmegaChallenges128 H xs) (\<lambda>rs.
     bindE (foldE (\<lambda>j (cv, cm).
         bindE (combine_shares128 cv (rs ! j) (u128_shares (av128 (xs ! j)))) (\<lambda>cv'.
         bindE (combine_shares128 cm (rs ! j) (u128_shares (am128 (xs ! j)))) (\<lambda>cm'. Inr (cv', cm'))))
       [0..<length xs] ([0, 0], [0, 0])) (\<lambda>(cv, cm).
     let out = map (\<lambda>x. ucast (u128_reconstruct (av128 x) AND kSpdz2kValueMask)) xs;
         combined = \<lparr>av128 = \<lparr>u128_shares = cv\<rparr>, am128 = \<lparr>u128_shares = cm\<rparr>\<rparr>
     in bindE (openWithMacCheckShared128 H R combined alpha r) (\<lambda>(ok, r').
        Inr ((ok \<noteq> None, out), r'))))))"

subsection \<open>Multiplication and the sacrifice check\<close>

definition mul_value_share ::
  "AuthBeaverTriple128 \<Rightarrow> 128 word \<Rightarrow> 128 word \<Rightarrow> nat \<Rightarrow> 128 word" where
  "mul_value_share t d e i =
     (let zi = u128_shares (av128 (abw128 t)) ! i + modRing (d * u128_shares (av128 (abv128 t)) ! i)
             + modRing (e * u128_shares (av128 (abu128 t)) ! i)
      in modRing (if i = 0 then zi + modRing (d * e) else zi))"

definition mul_mac_share ::
  "AuthBeaverTriple128 \<Rightarrow> AlphaShare128 \<Rightarrow> 128 word \<Rightarrow> 128 word \<Rightarrow> nat \<Rightarrow> 128 word result" where
  "mul_mac_share t alpha d e i =
     bindE (vec_at (u128_shares (am128 (abw128 t))) i) (\<lambda>mw.
     bindE (vec_at (u128_shares (am128 (abv128 t))) i) (\<lambda>mv.
     bindE (vec_at (u128_shares (am128 (abu128 t))) i) (\<lambda>mu.
     Inr (modRing (mw + modRing (d * mv) + modRing (e * mu)
       + modRing (u128_shares (alpha_share128 alpha) ! i * d * e))))))"

definition authSecureMultiplyShared128 ::
  "(bytes \<Rightarrow> bytes) \<Rightarrow> 'r prng \<Rightarrow> AuthSharedU128 \<Rightarrow> AuthSharedU128 \<Rightarrow> AuthBeaverTriple128 \<Rightarrow> AlphaShare128 \<Rightarrow> 'r \<Rightarrow>
   (AuthSharedU128 \<times> 'r) result" where
  "authSecureMultiplyShared128 H R x y triple alpha r =
     throw_if (auth128_N x \<noteq> 2 \<or> auth128_N y \<noteq> 2 \<or> u128_N (alpha_share128 alpha) \<noteq> 2 \<or>
         auth128_N (abu128 triple) \<noteq> 2 \<or> auth128_N (abv128 triple) \<noteq> 2 \<or> auth128_N (abw128 triple) \<noteq> 2)
       (RuntimeError ''authSecureMultiplyShared128: 2-party only (MPSVS S1/S2)'')
    (bindE (authSub128 x (abu128 triple)) (\<lambda>xmu.
     bindE (authSub128 y (abv128 triple)) (\<lambda>ymv.
     bindE (openWithMacCheckShared128 H R xmu alpha r) (\<lambda>(od, r1).
     case od of
       None \<Rightarrow> Inl (AuthShareMacFailure128 ''authSecureMultiplyShared128: MAC check failed on d = x - u'')
     | Some d64 \<Rightarrow>
        bindE (openWithMacCheckShared128 H R ymv alpha r1) (\<lambda>(oe, r2).
        case oe of
          None \<Rightarrow> Inl (AuthShareMacFailure128 ''authSecureMultiplyShared128: MAC check failed on e = y - v'')
        | Some e64 \<Rightarrow>
            let d = ucast d64; e = ucast e64; vs = map (mul_value_share triple d e) [0..<2] in
            bindE (mapE (mul_mac_share triple alpha d e) [0..<2]) (\<lambda>ms.
            Inr (\<lparr>av128 = \<lparr>u128_shares = vs\<rparr>, am128 = \<lparr>u128_shares = ms\<rparr>\<rparr>, r2)))))))"

definition rXSubY128 :: "128 word \<Rightarrow> AuthSharedU128 \<Rightarrow> AuthSharedU128 \<Rightarrow> AuthSharedU128 result" where
  "rXSubY128 r x y =
     bindE (subShared128 (mulConst128 (av128 x) r) (av128 y)) (\<lambda>v.
     bindE (subShared128 (mulConst128 (am128 x) r) (am128 y)) (\<lambda>m. Inr \<lparr>av128 = v, am128 = m\<rparr>))"

definition authSubPubMulValue128 ::
  "128 word \<Rightarrow> AuthSharedU128 \<Rightarrow> 128 word \<Rightarrow> AuthSharedU128 \<Rightarrow> 128 word \<Rightarrow> AuthSharedU128 \<Rightarrow> AuthSharedU128 \<Rightarrow>
   AuthSharedU128 result" where
  "authSubPubMulValue128 r_a c sigma_pub a_prime rho_pub b_prime c_prime =
     (let rc = authMulConst128 c r_a;
          sa = authMulConst128 a_prime sigma_pub;
          rb = authMulConst128 b_prime rho_pub
      in bindE (authSub128 rc c_prime) (\<lambda>tmp.
         bindE (authSub128 tmp sa) (\<lambda>tmp.
         authSub128 tmp rb)))"

definition sacrificeCheckTripleShared128 ::
  "(bytes \<Rightarrow> bytes) \<Rightarrow> 'r prng \<Rightarrow> AuthBeaverTriple128 \<Rightarrow> AuthBeaverTriple128 \<Rightarrow> AlphaShare128 \<Rightarrow> 'r \<Rightarrow> (bool \<times> 'r) result" where
  "sacrificeCheckTripleShared128 H R T T_aux alpha s =
     (let (r0, s1) = secureRandU128 R s; r = (if r0 = 0 then 1 else r0) in
      bindE (rXSubY128 r (abu128 T) (abu128 T_aux)) (\<lambda>rho_shared.
      bindE (rXSubY128 1 (abv128 T) (abv128 T_aux)) (\<lambda>sigma_shared.
      bindE (openWithMacCheckShared128 H R rho_shared alpha s1) (\<lambda>(orho, s2).
      case orho of None \<Rightarrow> Inr (False, s2) | Some rho64 \<Rightarrow>
      bindE (openWithMacCheckShared128 H R sigma_shared alpha s2) (\<lambda>(osigma, s3).
      case osigma of None \<Rightarrow> Inr (False, s3) | Some sigma64 \<Rightarrow>
      let rho = ucast rho64; sigma = ucast sigma64 in
      bindE (authSubPubMulValue128 r (abw128 T) sigma (abu128 T_aux) rho (abv128 T_aux) (abw128 T_aux)) (\<lambda>tau_shared.
      bindE (openWithMacCheckShared128 H R tau_shared alpha s3) (\<lambda>(otau, s4).
      case otau of None \<Rightarrow> Inr (False, s4) | Some tau64 \<Rightarrow>
      let tau = ucast tau64 in
      Inr (tau = (ucast (ucast (rho * sigma) :: 64 word) :: 128 word), s4))))))))"

subsection \<open>The ring\<close>

lemma modRing [simp]: "modRing v = v"
  by (simp add: modRing_def kSpdz2kRingMask_def kSpdz2kRingBits_def kSpdz2kValueBits_def kSpdz2kStatBits_def)

lemma modRing_id: "modRing = (\<lambda>v. v)"
  by (rule ext) simp

lemma fold_plus_sum: "fold (+) xs (a :: 128 word) = a + sum_list xs"
  by (induction xs arbitrary: a) (simp_all add: add.assoc add.left_commute)

lemma u128_reconstruct_sum: "u128_reconstruct x = sum_list (u128_shares x)"
  unfolding u128_reconstruct_def fold_plus_sum by (simp flip: modRing_def)

lemma value_mask: "ucast (x AND kSpdz2kValueMask) = (ucast x :: 64 word)"
proof -
  have m: "kSpdz2kValueMask = mask 64"
    by (simp add: kSpdz2kValueMask_def kSpdz2kValueBits_def mask_eq_exp_minus_1 push_bit_eq_mult)
  show ?thesis unfolding m by (rule bit_word_eqI) (auto simp: bit_simps)
qed

text \<open>Truncation to the low half is a ring homomorphism; zero extension is its section.\<close>

abbreviation low :: "128 word \<Rightarrow> 64 word" where
  "low x \<equiv> ucast x"

lemma low_of_int: "low (of_int k) = of_int k"
proof -
  have "low (word_of_int k) = word_of_int k" by (rule bit_word_eqI) (auto simp: bit_simps)
  then show ?thesis by simp
qed

lemma low_hom: "low (x + y) = low x + low y" "low (x - y) = low x - low y" "low (x * y) = low x * low y"
proof -
  obtain i j where ij: "x = of_int i" "y = of_int j" by (metis of_int_uint ucast_id)
  show "low (x + y) = low x + low y" "low (x - y) = low x - low y" "low (x * y) = low x * low y"
    unfolding ij low_of_int of_int_add [symmetric] of_int_diff [symmetric] of_int_mult [symmetric] by simp_all
qed

lemma low_ext [simp]: "low (ucast w :: 128 word) = w" for w :: "64 word"
  by (rule bit_word_eqI) (auto simp: bit_simps)

lemma ext_eq_iff: "(ucast v :: 128 word) = ucast w \<longleftrightarrow> v = w" for v w :: "64 word"
  by (metis low_ext)

subsection \<open>What a tagged sharing opens to\<close>

definition aval128 :: "AuthSharedU128 \<Rightarrow> 128 word" where
  "aval128 x = u128_reconstruct (av128 x)"

definition amac128 :: "AuthSharedU128 \<Rightarrow> 128 word" where
  "amac128 x = u128_reconstruct (am128 x)"

definition auth_shape128 :: "nat \<Rightarrow> AuthSharedU128 \<Rightarrow> bool" where
  "auth_shape128 n x \<longleftrightarrow> u128_N (av128 x) = n \<and> u128_N (am128 x) = n"

definition auth_valid128 :: "nat \<Rightarrow> 128 word \<Rightarrow> AuthSharedU128 \<Rightarrow> bool" where
  "auth_valid128 n alpha x \<longleftrightarrow> auth_shape128 n x \<and> amac128 x = alpha * aval128 x"

definition alpha_of128 :: "AlphaShare128 \<Rightarrow> 128 word" where
  "alpha_of128 a = u128_reconstruct (alpha_share128 a)"

lemmas auth128_defs = aval128_def amac128_def auth_shape128_def u128_N_def u128_reconstruct_sum

lemma authSub128_returns:
  "auth_shape128 n a \<Longrightarrow> auth_shape128 n b \<Longrightarrow>
   returns (authSub128 a b) (\<lambda>c. auth_shape128 n c \<and> aval128 c = aval128 a - aval128 b \<and>
     amac128 c = amac128 a - amac128 b)"
  by (simp add: authSub128_def subShared128_def auth128_defs sum_list_map2_diff)

lemma authAdd128_returns:
  "auth_shape128 n a \<Longrightarrow> auth_shape128 n b \<Longrightarrow>
   returns (authAdd128 a b) (\<lambda>c. auth_shape128 n c \<and> aval128 c = aval128 a + aval128 b \<and>
     amac128 c = amac128 a + amac128 b)"
  by (simp add: authAdd128_def addShared128_def auth128_defs sum_list_map2_add)

lemma authMulConst128_simps [simp]:
  "auth_shape128 n (authMulConst128 a c) = auth_shape128 n a"
  "aval128 (authMulConst128 a c) = aval128 a * c"
  "amac128 (authMulConst128 a c) = amac128 a * c"
  by (simp_all add: authMulConst128_def mulConst128_def auth128_defs sum_list_mult_const)

interpretation tagged128: tagged_sharing "auth_shape128 n" aval128 amac128 authSub128 authMulConst128
  by unfold_locales (simp_all add: authSub128_returns)

lemmas authSub_valid128 = tagged128.sub_valid [folded auth_valid128_def]

lemma authMulConst_valid128 [simp]: "auth_valid128 n k a \<Longrightarrow> auth_valid128 n k (authMulConst128 a c)"
  by (simp add: auth_valid128_def algebra_simps)

lemma rXSubY128_eq: "rXSubY128 r x y = authSub128 (authMulConst128 x r) y"
  by (simp add: rXSubY128_def authSub128_def authMulConst128_def)

lemma tau_returns128:
  assumes "auth_valid128 n k c" "auth_valid128 n k a'" "auth_valid128 n k b'" "auth_valid128 n k c'"
  shows "returns (authSubPubMulValue128 r c s a' p b' c')
    (\<lambda>t. auth_valid128 n k t \<and> aval128 t = aval128 c * r - aval128 c' - aval128 a' * s - aval128 b' * p)"
  using tagged128.combination_valid [folded auth_valid128_def, OF assms]
  by (simp add: authSubPubMulValue128_def)

lemma shareU128_returns:
  "0 < N \<Longrightarrow> returns (shareU128 R N v r) (\<lambda>(x, r'). u128_N x = N \<and> u128_reconstruct x = v)"
  by (simp add: shareU128_def Let_def split_beta u128_N_def u128_reconstruct_sum fold_plus_sum)

lemma authShareU128_returns:
  assumes "0 < N"
  shows "returns (authShareU128 R N v alpha r) (\<lambda>(x, r'). auth_valid128 N (alpha_of128 alpha) x \<and> aval128 x = v)"
proof -
  obtain sv r1 where sv: "shareU128 R N v r = Inr (sv, r1)" "u128_N sv = N" "u128_reconstruct sv = v"
    using shareU128_returns [OF assms, of R v r] by (auto elim!: returnsE)
  obtain sm r2 where "shareU128 R N (alpha_of128 alpha * v) r1 = Inr (sm, r2)" "u128_N sm = N"
      "u128_reconstruct sm = alpha_of128 alpha * v"
    using shareU128_returns [OF assms, of R "alpha_of128 alpha * v" r1] by (auto elim!: returnsE)
  with sv show ?thesis
    by (simp add: authShareU128_def auth_valid128_def auth_shape128_def aval128_def amac128_def alpha_of128_def)
qed

lemma simulateTampering128_returns:
  "auth_shape128 n x \<Longrightarrow> bad < n \<Longrightarrow>
   returns (simulateTampering128 x bad t) (\<lambda>y. auth_shape128 n y \<and> aval128 y = aval128 x + t \<and> amac128 y = amac128 x)"
  by (simp add: simulateTampering128_def auth128_defs sum_list_add_at)

lemma two_shares128: "u128_N s = 2 \<Longrightarrow> \<exists>a b. u128_shares s = [a, b]"
  by (cases "u128_shares s" rule: remdups_adj.cases) (auto simp: u128_N_def)

lemma openShared_returns128:
  assumes "auth_shape128 2 x" "u128_N (alpha_share128 alpha) = 2"
  shows "returns (openWithMacCheckShared128 H R x alpha r)
    (\<lambda>(o', r'). o' = (if amac128 x = alpha_of128 alpha * aval128 x then Some (low (aval128 x)) else None))"
proof -
  obtain a0 a1 where a: "u128_shares (alpha_share128 alpha) = [a0, a1]" using two_shares128 [OF assms(2)] by blast
  obtain m0 m1 where m: "u128_shares (am128 x) = [m0, m1]"
    using assms(1) two_shares128 [of "am128 x"] by (auto simp: auth_shape128_def)
  have "(a0 * aval128 x - m0) + (a1 * aval128 x - m1) = alpha_of128 alpha * aval128 x - amac128 x"
    by (simp add: alpha_of128_def amac128_def u128_reconstruct_sum a m algebra_simps)
  then show ?thesis
    using assms by (simp add: openWithMacCheckShared128_def auth_shape128_def a m Let_def split_beta
        computeSigmaCommit128_def verifySigmaReveal128_def value_mask flip: aval128_def)
qed

lemma openShared_valid128:
  assumes "auth_valid128 2 (alpha_of128 alpha) x" "u128_N (alpha_share128 alpha) = 2"
  shows "\<exists>r'. openWithMacCheckShared128 H R x alpha r = Inr (Some (low (aval128 x)), r')"
  using openShared_returns128 [of x alpha H R r] assms by (auto simp: auth_valid128_def elim!: returnsE)

subsection \<open>Multiplication\<close>

definition auth_triple_ok128 :: "128 word \<Rightarrow> AuthBeaverTriple128 \<Rightarrow> bool" where
  "auth_triple_ok128 k t \<longleftrightarrow> auth_valid128 2 k (abu128 t) \<and> auth_valid128 2 k (abv128 t) \<and> auth_valid128 2 k (abw128 t) \<and>
     aval128 (abw128 t) = aval128 (abu128 t) * aval128 (abv128 t)"

lemma generateAuthBeaverTriple128_returns:
  "returns (generateAuthBeaverTriple128 R 2 alpha r) (\<lambda>(t, r'). auth_triple_ok128 (alpha_of128 alpha) t)"
proof -
  let ?k = "alpha_of128 alpha"
  obtain u_plain r1 where r1: "secureRandU128 R r = (u_plain, r1)" by force
  obtain v_plain r2 where r2: "secureRandU128 R r1 = (v_plain, r2)" by force
  obtain u r3 where u: "authShareU128 R 2 u_plain alpha r2 = Inr (u, r3)" "auth_valid128 2 ?k u" "aval128 u = u_plain"
    using authShareU128_returns [of 2] by (fastforce elim!: returnsE)
  obtain v r4 where v: "authShareU128 R 2 v_plain alpha r3 = Inr (v, r4)" "auth_valid128 2 ?k v" "aval128 v = v_plain"
    using authShareU128_returns [of 2] by (fastforce elim!: returnsE)
  obtain w r5 where w: "authShareU128 R 2 (u_plain * v_plain) alpha r4 = Inr (w, r5)" "auth_valid128 2 ?k w"
      "aval128 w = u_plain * v_plain"
    using authShareU128_returns [of 2] by (fastforce elim!: returnsE)
  show ?thesis using r1 r2 u v w by (simp add: generateAuthBeaverTriple128_def auth_triple_ok128_def)
qed

lemma mul_shares_returns:
  assumes t: "auth_triple_ok128 (alpha_of128 alpha) t" and a: "u128_N (alpha_share128 alpha) = 2"
  shows "returns (mapE (mul_mac_share t alpha d e) [0..<2])
    (\<lambda>ms. auth_valid128 2 (alpha_of128 alpha)
        \<lparr>av128 = \<lparr>u128_shares = map (mul_value_share t d e) [0..<2]\<rparr>, am128 = \<lparr>u128_shares = ms\<rparr>\<rparr>) \<and>
     aval128 \<lparr>av128 = \<lparr>u128_shares = map (mul_value_share t d e) [0..<2]\<rparr>, am128 = \<lparr>u128_shares = ms\<rparr>\<rparr> =
       aval128 (abw128 t) + d * aval128 (abv128 t) + e * aval128 (abu128 t) + d * e"
proof -
  obtain a0 a1 where a01: "u128_shares (alpha_share128 alpha) = [a0, a1]" using two_shares128 [OF a] by blast
  have shapes: "auth_shape128 2 (abu128 t)" "auth_shape128 2 (abv128 t)" "auth_shape128 2 (abw128 t)"
    using t by (simp_all add: auth_triple_ok128_def auth_valid128_def)
  then obtain u0 u1 v0 v1 w0 w1 where vals: "u128_shares (av128 (abu128 t)) = [u0, u1]"
      "u128_shares (av128 (abv128 t)) = [v0, v1]" "u128_shares (av128 (abw128 t)) = [w0, w1]"
    unfolding auth_shape128_def using two_shares128 by metis
  from shapes obtain mu0 mu1 mv0 mv1 mw0 mw1 where macs: "u128_shares (am128 (abu128 t)) = [mu0, mu1]"
      "u128_shares (am128 (abv128 t)) = [mv0, mv1]" "u128_shares (am128 (abw128 t)) = [mw0, mw1]"
    unfolding auth_shape128_def using two_shares128 by metis
  have tags: "mu0 + mu1 = (a0 + a1) * (u0 + u1)" "mv0 + mv1 = (a0 + a1) * (v0 + v1)" "mw0 + mw1 = (a0 + a1) * (w0 + w1)"
    using t by (simp_all add: auth_triple_ok128_def auth_valid128_def aval128_def amac128_def alpha_of128_def
        u128_reconstruct_sum vals macs a01)
  have "(mw0 + d * mv0 + e * mu0 + a0 * d * e) + (mw1 + d * mv1 + e * mu1 + a1 * d * e) =
      (mw0 + mw1) + d * (mv0 + mv1) + e * (mu0 + mu1) + (a0 + a1) * d * e"
    by (simp add: algebra_simps)
  also have "\<dots> = (a0 + a1) * ((w0 + d * v0 + e * u0 + d * e) + (w1 + d * v1 + e * u1))"
    unfolding tags by (simp add: algebra_simps)
  finally have mac: "(mw0 + d * mv0 + e * mu0 + a0 * d * e) + (mw1 + d * mv1 + e * mu1 + a1 * d * e) =
      (a0 + a1) * ((w0 + d * v0 + e * u0 + d * e) + (w1 + d * v1 + e * u1))" .
  have vs: "map (mul_value_share t d e) [0..<2] = [w0 + d * v0 + e * u0 + d * e, w1 + d * v1 + e * u1]"
    by (simp add: upt_rec numeral_2_eq_2 mul_value_share_def vals)
  have ms: "mapE (mul_mac_share t alpha d e) [0..<2] =
      Inr [mw0 + d * mv0 + e * mu0 + a0 * d * e, mw1 + d * mv1 + e * mu1 + a1 * d * e]"
    by (simp add: upt_rec numeral_2_eq_2 mul_mac_share_def macs a01)
  show ?thesis
    unfolding ms vs returns_Inr
    using mac by (simp add: auth_valid128_def auth128_defs alpha_of128_def a01 vals) (simp add: algebra_simps)
qed

lemma authSecureMultiplyShared128_returns:
  assumes x: "auth_valid128 2 (alpha_of128 alpha) x" and y: "auth_valid128 2 (alpha_of128 alpha) y"
    and t: "auth_triple_ok128 (alpha_of128 alpha) t" and a: "u128_N (alpha_share128 alpha) = 2"
  shows "returns (authSecureMultiplyShared128 H R x y t alpha r)
    (\<lambda>(z, r'). auth_valid128 2 (alpha_of128 alpha) z \<and> low (aval128 z) = low (aval128 x) * low (aval128 y))"
proof -
  let ?k = "alpha_of128 alpha"
  have uvw: "auth_valid128 2 ?k (abu128 t)" "auth_valid128 2 ?k (abv128 t)" "auth_valid128 2 ?k (abw128 t)"
    "aval128 (abw128 t) = aval128 (abu128 t) * aval128 (abv128 t)" using t by (simp_all add: auth_triple_ok128_def)
  obtain xu where xu: "authSub128 x (abu128 t) = Inr xu" "auth_valid128 2 ?k xu"
      "aval128 xu = aval128 x - aval128 (abu128 t)"
    using authSub_valid128 [OF x uvw(1)] by (auto elim!: returnsE)
  obtain yv where yv: "authSub128 y (abv128 t) = Inr yv" "auth_valid128 2 ?k yv"
      "aval128 yv = aval128 y - aval128 (abv128 t)"
    using authSub_valid128 [OF y uvw(2)] by (auto elim!: returnsE)
  obtain r1 where d: "openWithMacCheckShared128 H R xu alpha r = Inr (Some (low (aval128 xu)), r1)"
    using openShared_valid128 [OF xu(2) a, of H R r] by blast
  obtain r2 where e: "openWithMacCheckShared128 H R yv alpha r1 = Inr (Some (low (aval128 yv)), r2)"
    using openShared_valid128 [OF yv(2) a, of H R r1] by blast
  let ?d = "ucast (low (aval128 xu)) :: 128 word" and ?e = "ucast (low (aval128 yv)) :: 128 word"
  let ?z = "\<lambda>ms. \<lparr>av128 = \<lparr>u128_shares = map (mul_value_share t ?d ?e) [0..<2]\<rparr>, am128 = \<lparr>u128_shares = ms\<rparr>\<rparr>"
  obtain ms where ms: "mapE (mul_mac_share t alpha ?d ?e) [0..<2] = Inr ms" "auth_valid128 2 ?k (?z ms)"
      "aval128 (?z ms) = aval128 (abw128 t) + ?d * aval128 (abv128 t) + ?e * aval128 (abu128 t) + ?d * ?e"
    using mul_shares_returns [OF t a, of ?d ?e] by (auto simp: returns_def)
  have "low (aval128 (?z ms)) = low (aval128 x) * low (aval128 y)"
    unfolding ms(3) uvw(4) by (simp add: low_hom xu(3) yv(3) algebra_simps)
  moreover have "authSecureMultiplyShared128 H R x y t alpha r = Inr (?z ms, r2)"
    using x y uvw a xu(1) yv(1) d e ms(1)
    by (simp add: authSecureMultiplyShared128_def auth128_N_def auth_valid128_def auth_shape128_def Let_def)
  ultimately show ?thesis using ms(2) by simp
qed

subsection \<open>The key must carry the high power of two\<close>

lemma two_power_dvd_factor:
  fixes a d :: int
  assumes "2 ^ (m + n) dvd a * d" "\<not> 2 ^ n dvd d"
  shows "2 ^ Suc m dvd a"
  using assms
proof (induction n arbitrary: d)
  case (Suc n)
  show ?case
  proof (cases "even d")
    case True
    then obtain d' where d: "d = 2 * d'" ..
    then have "2 ^ (m + n) dvd a * d'" "\<not> 2 ^ n dvd d'" using Suc.prems by simp_all
    then show ?thesis by (rule Suc.IH)
  next
    case False
    then have "coprime (2 ^ (m + Suc n)) d" by simp
    then have "2 ^ (m + Suc n) dvd a" using Suc.prems(1) coprime_dvd_mult_left_iff by blast
    then show ?thesis by (rule dvd_trans [rotated]) (simp add: le_imp_power_dvd)
  qed
qed simp

lemma mult_zero_key:
  fixes a d :: "128 word"
  assumes "a * d = 0" "low d \<noteq> 0"
  shows "take_bit 65 a = 0"
proof -
  have "uint (a * d) = take_bit 128 (uint a * uint d)" by (simp add: uint_word_arith_bintrs)
  then have "take_bit 128 (uint a * uint d) = 0" using assms(1) by simp
  then have prod: "2 ^ (64 + 64) dvd uint a * uint d" by (simp add: take_bit_eq_0_iff)
  have "\<not> 2 ^ 64 dvd uint d"
  proof
    assume "2 ^ 64 dvd uint d"
    then have "take_bit 64 (uint d) = 0" by (simp add: take_bit_eq_0_iff)
    then have "low d = 0" by (auto simp: bit_eq_iff bit_simps)
    then show False using assms(2) by simp
  qed
  from two_power_dvd_factor [OF prod this] have "take_bit 65 (uint a) = 0" by (simp add: take_bit_eq_0_iff)
  then show ?thesis by (auto simp: bit_eq_iff bit_simps)
qed

subsection \<open>The sacrifice check\<close>

definition triple_error128 :: "AuthBeaverTriple128 \<Rightarrow> 64 word" where
  "triple_error128 t = ucast (aval128 (abw128 t)) - ucast (aval128 (abu128 t)) * ucast (aval128 (abv128 t))"

definition triple_tagged128 :: "128 word \<Rightarrow> AuthBeaverTriple128 \<Rightarrow> bool" where
  "triple_tagged128 k t \<longleftrightarrow> auth_valid128 2 k (abu128 t) \<and> auth_valid128 2 k (abv128 t) \<and> auth_valid128 2 k (abw128 t)"

definition challenge_of128 :: "'r prng \<Rightarrow> 'r \<Rightarrow> 128 word" where
  "challenge_of128 R s = (let r = fst (secureRandU128 R s) in if r = 0 then 1 else r)"

lemma sacrificeShared_returns128:
  assumes T: "triple_tagged128 (alpha_of128 alpha) T" and T': "triple_tagged128 (alpha_of128 alpha) T'"
    and a: "u128_N (alpha_share128 alpha) = 2"
  shows "\<exists>s'. sacrificeCheckTripleShared128 H R T T' alpha s =
    Inr (ucast (challenge_of128 R s) * triple_error128 T = triple_error128 T', s')"
proof -
  let ?k = "alpha_of128 alpha"
  obtain r0 s1 where r0: "secureRandU128 R s = (r0, s1)" by force
  define r where "r = (if r0 = 0 then 1 else r0)"
  have r: "challenge_of128 R s = r" by (simp add: challenge_of128_def r0 r_def)
  have tags: "auth_valid128 2 ?k (abu128 T)" "auth_valid128 2 ?k (abv128 T)" "auth_valid128 2 ?k (abw128 T)"
    "auth_valid128 2 ?k (abu128 T')" "auth_valid128 2 ?k (abv128 T')" "auth_valid128 2 ?k (abw128 T')"
    using T T' by (simp_all add: triple_tagged128_def)
  obtain rho where rho: "rXSubY128 r (abu128 T) (abu128 T') = Inr rho" "auth_valid128 2 ?k rho"
      "aval128 rho = aval128 (abu128 T) * r - aval128 (abu128 T')"
    using authSub_valid128 [of 2 ?k "authMulConst128 (abu128 T) r" "abu128 T'"] tags
    by (auto simp: rXSubY128_eq elim!: returnsE)
  obtain sig where sig: "rXSubY128 1 (abv128 T) (abv128 T') = Inr sig" "auth_valid128 2 ?k sig"
      "aval128 sig = aval128 (abv128 T) - aval128 (abv128 T')"
    using authSub_valid128 [of 2 ?k "authMulConst128 (abv128 T) 1" "abv128 T'"] tags
    by (auto simp: rXSubY128_eq elim!: returnsE)
  let ?rho = "ucast (low (aval128 rho)) :: 128 word" and ?sig = "ucast (low (aval128 sig)) :: 128 word"
  obtain tau where tau: "authSubPubMulValue128 r (abw128 T) ?sig (abu128 T') ?rho (abv128 T') (abw128 T') = Inr tau"
      "auth_valid128 2 ?k tau"
      "aval128 tau = aval128 (abw128 T) * r - aval128 (abw128 T') - aval128 (abu128 T') * ?sig - aval128 (abv128 T') * ?rho"
    using tau_returns128 [of 2 ?k "abw128 T" "abu128 T'" "abv128 T'" "abw128 T'" r ?sig ?rho] tags
    by (auto elim!: returnsE)
  obtain s2 where s2: "openWithMacCheckShared128 H R rho alpha s1 = Inr (Some (low (aval128 rho)), s2)"
    using openShared_valid128 [OF rho(2) a, of H R s1] by blast
  obtain s3 where s3: "openWithMacCheckShared128 H R sig alpha s2 = Inr (Some (low (aval128 sig)), s3)"
    using openShared_valid128 [OF sig(2) a, of H R s2] by blast
  obtain s4 where s4: "openWithMacCheckShared128 H R tau alpha s3 = Inr (Some (low (aval128 tau)), s4)"
    using openShared_valid128 [OF tau(2) a, of H R s3] by blast
  have "low (aval128 tau) = low (?rho * ?sig) \<longleftrightarrow> low r * triple_error128 T = triple_error128 T'"
    unfolding tau(3) low_hom low_ext rho(3) sig(3) triple_error128_def by (rule sacrifice_identity)
  then show ?thesis
    using rho(1) sig(1) tau(1) s2 s3 s4
    by (simp add: sacrificeCheckTripleShared128_def r0 r Let_def ext_eq_iff flip: r_def)
qed

subsection \<open>Properties\<close>

text \<open>C39: a share of a valid sharing is changed by \<open>t\<close>. The opening rejects exactly when
  \<open>alpha * t\<close> is nonzero modulo \<open>2 ^ 128\<close>; hence every change of the 64-bit value (\<open>t\<close> not
  divisible by \<open>2 ^ 64\<close>) is rejected unless \<open>2 ^ 65\<close> divides the key.\<close>

theorem spdz2k_tampering:
  assumes "auth_valid128 2 (alpha_of128 alpha) x" "u128_N (alpha_share128 alpha) = 2" "bad < 2"
  shows "\<exists>y r'. simulateTampering128 x bad t = Inr y \<and>
      openWithMacCheckShared128 H R y alpha r =
        Inr (if alpha_of128 alpha * t = 0 then Some (ucast (aval128 x) + ucast t) else None, r') \<and>
      (ucast t \<noteq> (0 :: 64 word) \<and> take_bit 65 (alpha_of128 alpha) \<noteq> 0 \<longrightarrow>
        openWithMacCheckShared128 H R y alpha r = Inr (None, r'))"
proof -
  obtain y where y: "simulateTampering128 x bad t = Inr y" "auth_shape128 2 y" "aval128 y = aval128 x + t"
      "amac128 y = amac128 x"
    using simulateTampering128_returns [of 2 x bad t] assms by (auto simp: auth_valid128_def elim!: returnsE)
  have "amac128 y = alpha_of128 alpha * aval128 y \<longleftrightarrow> alpha_of128 alpha * t = 0"
    using assms(1) by (simp add: y auth_valid128_def distrib_left)
  then obtain r' where "openWithMacCheckShared128 H R y alpha r =
      Inr (if alpha_of128 alpha * t = 0 then Some (low (aval128 x) + low t) else None, r')"
    using openShared_returns128 [OF y(2) assms(2), of H R r] y(3) by (auto simp: low_hom elim!: returnsE)
  then show ?thesis using y(1) mult_zero_key [of "alpha_of128 alpha" t] by auto
qed

lemma spdz2k_tampering_witness:
  "\<exists>y r'. simulateTampering128 \<lparr>av128 = \<lparr>u128_shares = [1, 4]\<rparr>, am128 = \<lparr>u128_shares = [20, 0]\<rparr>\<rparr> 1
        spdz2kAdversarialDelta = Inr y \<and>
      openWithMacCheckShared128 id counter_prng y \<lparr>alpha_share128 = \<lparr>u128_shares = [1, 3]\<rparr>\<rparr> 0 = Inr (None, r')"
proof -
  have a: "alpha_of128 \<lparr>alpha_share128 = \<lparr>u128_shares = [1, 3]\<rparr>\<rparr> = 4"
    by (simp add: alpha_of128_def u128_reconstruct_sum)
  have d: "spdz2kAdversarialDelta = 0x8000000000000000"
    by (simp add: spdz2kAdversarialDelta_def kSpdz2kValueBits_def push_bit_eq_mult)
  show ?thesis
    using spdz2k_tampering [of "\<lparr>alpha_share128 = \<lparr>u128_shares = [1, 3]\<rparr>\<rparr>"
        "\<lparr>av128 = \<lparr>u128_shares = [1, 4]\<rparr>, am128 = \<lparr>u128_shares = [20, 0]\<rparr>\<rparr>" 1 "0x8000000000000000" id counter_prng 0]
    by (auto simp: a d auth_valid128_def auth128_defs)
qed

text \<open>With honest authenticated inputs and a triple from the generator the 128-bit
  multiplication does not abort, and its result opens, through the MAC check in the full ring, to
  the product of the 64-bit values.\<close>

theorem authSecureMultiplyShared128_correct:
  assumes "u128_N (alpha_share128 alpha) = 2"
  shows "\<exists>x y t z r1 r2 r3 r4 r5. authShareU128 R 2 v alpha r = Inr (x, r1) \<and> authShareU128 R 2 w alpha r1 = Inr (y, r2) \<and>
    generateAuthBeaverTriple128 R 2 alpha r2 = Inr (t, r3) \<and>
    authSecureMultiplyShared128 H R x y t alpha r3 = Inr (z, r4) \<and>
    openWithMacCheckShared128 H R z alpha r4 = Inr (Some (ucast v * ucast w), r5)"
proof -
  let ?k = "alpha_of128 alpha"
  obtain x r1 where x: "authShareU128 R 2 v alpha r = Inr (x, r1)" "auth_valid128 2 ?k x" "aval128 x = v"
    using authShareU128_returns [of 2 R v alpha r] by (auto elim!: returnsE)
  obtain y r2 where y: "authShareU128 R 2 w alpha r1 = Inr (y, r2)" "auth_valid128 2 ?k y" "aval128 y = w"
    using authShareU128_returns [of 2 R w alpha r1] by (auto elim!: returnsE)
  obtain t r3 where t: "generateAuthBeaverTriple128 R 2 alpha r2 = Inr (t, r3)" "auth_triple_ok128 ?k t"
    using generateAuthBeaverTriple128_returns [of R alpha r2] by (auto elim!: returnsE)
  obtain z r4 where z: "authSecureMultiplyShared128 H R x y t alpha r3 = Inr (z, r4)" "auth_valid128 2 ?k z"
      "low (aval128 z) = low v * low w"
    using authSecureMultiplyShared128_returns [OF x(2) y(2) t(2) assms, of H R r3] x(3) y(3) by (auto elim!: returnsE)
  obtain r5 where "openWithMacCheckShared128 H R z alpha r4 = Inr (Some (low v * low w), r5)"
    using openShared_valid128 [OF z(2) assms, of H R r4] z(3) by auto
  with x(1) y(1) t(1) z(1) show ?thesis by blast
qed

lemma authSecureMultiplyShared128_correct_witness:
  "\<exists>x y t z r1 r2 r3 r4 r5.
    authShareU128 counter_prng 2 6 \<lparr>alpha_share128 = \<lparr>u128_shares = [3, 8]\<rparr>\<rparr> 0 = Inr (x, r1) \<and>
    authShareU128 counter_prng 2 7 \<lparr>alpha_share128 = \<lparr>u128_shares = [3, 8]\<rparr>\<rparr> r1 = Inr (y, r2) \<and>
    generateAuthBeaverTriple128 counter_prng 2 \<lparr>alpha_share128 = \<lparr>u128_shares = [3, 8]\<rparr>\<rparr> r2 = Inr (t, r3) \<and>
    authSecureMultiplyShared128 id counter_prng x y t \<lparr>alpha_share128 = \<lparr>u128_shares = [3, 8]\<rparr>\<rparr> r3 = Inr (z, r4) \<and>
    openWithMacCheckShared128 id counter_prng z \<lparr>alpha_share128 = \<lparr>u128_shares = [3, 8]\<rparr>\<rparr> r4 = Inr (Some 42, r5)"
  using authSecureMultiplyShared128_correct [of "\<lparr>alpha_share128 = \<lparr>u128_shares = [3, 8]\<rparr>\<rparr>" counter_prng 6 0 7 id]
  by (simp add: u128_N_def)

text \<open>The sacrifice check compares 64-bit values only. On validly tagged triples it accepts
  exactly when the low half of the challenge times the low half of the error of \<open>T\<close> is the low half of the
  auxiliary error; so with a correct auxiliary triple a triple whose product is wrong by
  \<open>2 ^ 63\<close> is accepted for every even challenge.\<close>

theorem sacrificeCheckTripleShared128_decides:
  assumes "triple_tagged128 (alpha_of128 alpha) T" "triple_tagged128 (alpha_of128 alpha) T'"
    "u128_N (alpha_share128 alpha) = 2"
  shows "\<exists>s'. sacrificeCheckTripleShared128 H R T T' alpha s =
      Inr (ucast (challenge_of128 R s) * triple_error128 T = triple_error128 T', s') \<and>
    (triple_error128 T = 2 ^ 63 \<and> triple_error128 T' = 0 \<and> \<not> bit (challenge_of128 R s) 0 \<longrightarrow>
      sacrificeCheckTripleShared128 H R T T' alpha s = Inr (True, s'))"
proof -
  have "low c * 2 ^ 63 = 0" if even: "\<not> bit c 0" for c :: "128 word"
  proof -
    have "\<not> bit (low c) 0" using even by (simp add: bit_simps)
    then have "even (low c)" by (simp add: bit_0)
    then obtain k where "low c = 2 * k" ..
    then have "low c * 2 ^ 63 = k * 2 ^ 64" by simp
    moreover have "(2 :: 64 word) ^ 64 = 0" by simp
    ultimately show ?thesis by (simp only: mult_zero_right)
  qed
  then show ?thesis using sacrificeShared_returns128 [OF assms, of H R s] by auto
qed

lemma sacrificeCheckTripleShared128_decides_witness:
  "let x = (\<lambda>v. \<lparr>av128 = \<lparr>u128_shares = [v, 0]\<rparr>, am128 = \<lparr>u128_shares = [0, 4 * v]\<rparr>\<rparr>);
       T = \<lparr>abu128 = x 2, abv128 = x 3, abw128 = x (6 + 0x8000000000000000)\<rparr>; T' = \<lparr>abu128 = x 1, abv128 = x 1, abw128 = x 1\<rparr>
   in \<exists>s'. sacrificeCheckTripleShared128 id counter_prng T T' \<lparr>alpha_share128 = \<lparr>u128_shares = [1, 3]\<rparr>\<rparr> (0::nat) =
    Inr (True, s')"
proof -
  let ?x = "\<lambda>v. \<lparr>av128 = \<lparr>u128_shares = [v, 0]\<rparr>, am128 = \<lparr>u128_shares = [0, 4 * v]\<rparr>\<rparr>"
  have c: "challenge_of128 counter_prng 0 = 0x0f0e0d0c0b0a09080706050403020100"
    by code_simp
  show ?thesis
    using sacrificeCheckTripleShared128_decides [of "\<lparr>alpha_share128 = \<lparr>u128_shares = [1, 3]\<rparr>\<rparr>"
        "\<lparr>abu128 = ?x 2, abv128 = ?x 3, abw128 = ?x (6 + 0x8000000000000000)\<rparr>"
        "\<lparr>abu128 = ?x 1, abv128 = ?x 1, abw128 = ?x 1\<rparr>" id counter_prng 0]
    by (auto simp: c triple_tagged128_def triple_error128_def alpha_of128_def auth_valid128_def auth128_defs)
qed

end
