(* ===== verification/Inclusion.thy ===== *)
theory Inclusion
  imports Alignment
begin

text \<open>
  Validity, missingness and inclusion (\<open>volePSI/MpsvsInclusion.h\<close>, \<open>volePSI/MpsvsInclusion.cpp\<close>):
  per aligned row nine (numerator, denominator, inclusion bit) triples and the coverage bit of the
  vulnerability score, and the sums over the included rows.

  The \<open>std::array\<close> indexed by \<open>Metric\<close> is a list of \<open>kMetricCount\<close> entries. The signed
  subtraction behind the gap metric is undefined when it overflows; the model then ends in
  \<open>SignedOverflow\<close>.
\<close>

subsection \<open>Metrics and configuration\<close>

datatype Metric =
  DTI | DSI | DEmp | IPW | Delq | NPL | UnsecShare | StDebtShare | Gap | METRIC_COUNT

fun metric_index :: "Metric \<Rightarrow> nat" where
  "metric_index DTI = 0"
| "metric_index DSI = 1"
| "metric_index DEmp = 2"
| "metric_index IPW = 3"
| "metric_index Delq = 4"
| "metric_index NPL = 5"
| "metric_index UnsecShare = 6"
| "metric_index StDebtShare = 7"
| "metric_index Gap = 8"
| "metric_index METRIC_COUNT = 9"

definition kMetricCount :: nat where
  "kMetricCount = metric_index METRIC_COUNT"

fun metricName :: "Metric \<Rightarrow> string" where
  "metricName DTI = ''DTI''"
| "metricName DSI = ''DSI''"
| "metricName DEmp = ''DEmp''"
| "metricName IPW = ''IPW''"
| "metricName Delq = ''Delq''"
| "metricName NPL = ''NPL''"
| "metricName UnsecShare = ''UnsecShare''"
| "metricName StDebtShare = ''StDebtShare''"
| "metricName Gap = ''Gap''"
| "metricName METRIC_COUNT = ''?''"

record AttrRange =
  min_incl :: "64 word"
  max_incl :: "64 word"

record RangeConfig =
  rc_income :: AttrRange
  rc_emp :: AttrRange
  rc_debt :: AttrRange

definition default_ranges :: RangeConfig where
  "default_ranges =
     \<lparr>rc_income = \<lparr>min_incl = 1, max_incl = 100000000000000\<rparr>,
      rc_emp = \<lparr>min_incl = 1, max_incl = 10000000\<rparr>,
      rc_debt = \<lparr>min_incl = 1, max_incl = 100000000000000\<rparr>\<rparr>"

datatype CoveragePolicy = STRICT_GATING | RENORMALISED_WEIGHTS

definition kVulnCoreMetrics :: "Metric list" where
  "kVulnCoreMetrics = [DTI, DSI, Delq, NPL]"

subsection \<open>Payload fields\<close>

text \<open>The constants of the namespace \<open>fields\<close>, as accessors of a row's payloads.\<close>

abbreviation debt :: "UnionRow \<Rightarrow> 64 word" where "debt u \<equiv> pv (p_MAS u) ! 0"
abbreviation dserv :: "UnionRow \<Rightarrow> 64 word" where "dserv u \<equiv> pv (p_MAS u) ! 1"
abbreviation delq :: "UnionRow \<Rightarrow> 64 word" where "delq u \<equiv> pv (p_MAS u) ! 2"
abbreviation npl :: "UnionRow \<Rightarrow> 64 word" where "npl u \<equiv> pv (p_MAS u) ! 3"
abbreviation unsec :: "UnionRow \<Rightarrow> 64 word" where "unsec u \<equiv> pv (p_MAS u) ! 4"
abbreviation stdebt :: "UnionRow \<Rightarrow> 64 word" where "stdebt u \<equiv> pv (p_MAS u) ! 5"
abbreviation income :: "UnionRow \<Rightarrow> 64 word" where "income u \<equiv> pv (p_DOS u) ! 0"
abbreviation emp :: "UnionRow \<Rightarrow> 64 word" where "emp u \<equiv> pv (p_MOM u) ! 0"

abbreviation v_debt :: "UnionRow \<Rightarrow> 8 word" where "v_debt u \<equiv> pvalid (p_MAS u) ! 0"
abbreviation v_dserv :: "UnionRow \<Rightarrow> 8 word" where "v_dserv u \<equiv> pvalid (p_MAS u) ! 1"
abbreviation v_delq :: "UnionRow \<Rightarrow> 8 word" where "v_delq u \<equiv> pvalid (p_MAS u) ! 2"
abbreviation v_npl :: "UnionRow \<Rightarrow> 8 word" where "v_npl u \<equiv> pvalid (p_MAS u) ! 3"
abbreviation v_unsec :: "UnionRow \<Rightarrow> 8 word" where "v_unsec u \<equiv> pvalid (p_MAS u) ! 4"
abbreviation v_stdebt :: "UnionRow \<Rightarrow> 8 word" where "v_stdebt u \<equiv> pvalid (p_MAS u) ! 5"
abbreviation v_income :: "UnionRow \<Rightarrow> 8 word" where "v_income u \<equiv> pvalid (p_DOS u) ! 0"
abbreviation v_emp :: "UnionRow \<Rightarrow> 8 word" where "v_emp u \<equiv> pvalid (p_MOM u) ! 0"

subsection \<open>Entity metrics\<close>

record MetricPair =
  mp_num :: "64 word"
  mp_den :: "64 word"
  mp_incl :: "8 word"

record EntityMetricRow =
  e_bin :: "64 word"
  e_period :: "64 word"
  e_sector :: "64 word"
  e_sector_conflict :: "8 word"
  e_live :: "8 word"
  e_MAS :: "8 word"
  e_DOS :: "8 word"
  e_MOM :: "8 word"
  e_metrics :: "MetricPair list"
  avail_core_count :: "8 word"
  incl_vuln :: "8 word"

definition inRange :: "64 word \<Rightarrow> AttrRange \<Rightarrow> 8 word" where
  "inRange v r = (if v \<ge> min_incl r \<and> v \<le> max_incl r then 1 else 0)"

definition sand :: "8 word \<Rightarrow> 8 word \<Rightarrow> 8 word" where
  "sand a b = a AND b"

definition gap_signed :: "64 word \<Rightarrow> 64 word \<Rightarrow> 64 word result" where
  "gap_signed g_mas g_dos =
     (let d = sint g_mas - sint g_dos
      in throw_if (d < - (2 ^ 63) \<or> 2 ^ 63 \<le> d) SignedOverflow (Inr (word_of_int d)))"

definition metric_pairs :: "UnionRow \<Rightarrow> RangeConfig \<Rightarrow> MetricPair list result" where
  "metric_pairs u rc =
     (let align = live u;
          ok_income = inRange (income u) (rc_income rc);
          ok_emp = inRange (emp u) (rc_emp rc);
          ok_debt = inRange (debt u) (rc_debt rc)
      in bindE (gap_signed (pg (p_MAS u)) (pg (p_DOS u))) (\<lambda>gap. Inr
       [\<lparr>mp_num = debt u, mp_den = income u,
         mp_incl = sand (sand (sand align (b_MAS u)) (sand (b_DOS u) (v_debt u))) (sand (v_income u) ok_income)\<rparr>,
        \<lparr>mp_num = dserv u, mp_den = income u,
         mp_incl = sand (sand (sand align (b_MAS u)) (sand (b_DOS u) (v_dserv u))) (sand (v_income u) ok_income)\<rparr>,
        \<lparr>mp_num = debt u, mp_den = emp u,
         mp_incl = sand (sand (sand align (b_MAS u)) (sand (b_MOM u) (v_debt u))) (sand (v_emp u) ok_emp)\<rparr>,
        \<lparr>mp_num = income u, mp_den = emp u,
         mp_incl = sand (sand (sand align (b_DOS u)) (sand (b_MOM u) (v_income u))) (sand (v_emp u) ok_emp)\<rparr>,
        \<lparr>mp_num = delq u, mp_den = debt u,
         mp_incl = sand (sand (sand align (b_MAS u)) (v_delq u)) (sand (v_debt u) ok_debt)\<rparr>,
        \<lparr>mp_num = npl u, mp_den = debt u,
         mp_incl = sand (sand (sand align (b_MAS u)) (v_npl u)) (sand (v_debt u) ok_debt)\<rparr>,
        \<lparr>mp_num = unsec u, mp_den = debt u,
         mp_incl = sand (sand (sand align (b_MAS u)) (v_unsec u)) (sand (v_debt u) ok_debt)\<rparr>,
        \<lparr>mp_num = stdebt u, mp_den = debt u,
         mp_incl = sand (sand (sand align (b_MAS u)) (v_stdebt u)) (sand (v_debt u) ok_debt)\<rparr>,
        \<lparr>mp_num = gap, mp_den = 1,
         mp_incl = sand (sand (sand align (b_MAS u)) (b_DOS u)) (sand (pv_g (p_MAS u)) (pv_g (p_DOS u)))\<rparr>]))"

definition core_available :: "MetricPair list \<Rightarrow> 8 word" where
  "core_available ms = fold (\<lambda>c avail. avail + mp_incl (ms ! metric_index c)) kVulnCoreMetrics 0"

definition vuln_gate :: "CoveragePolicy \<Rightarrow> 8 word \<Rightarrow> 8 word \<Rightarrow> 8 word" where
  "vuln_gate policy live_bit avail =
     (case policy of
        STRICT_GATING \<Rightarrow> (if unat avail = length kVulnCoreMetrics then sand live_bit 1 else 0)
      | RENORMALISED_WEIGHTS \<Rightarrow> (if avail \<ge> 1 then sand live_bit 1 else 0))"

definition entity_row :: "RangeConfig \<Rightarrow> CoveragePolicy \<Rightarrow> UnionRow \<Rightarrow> EntityMetricRow result" where
  "entity_row rc policy u =
     bindE (metric_pairs u rc) (\<lambda>ms.
     let avail = core_available ms
     in Inr \<lparr>e_bin = u_bin u, e_period = u_period u, e_sector = u_sector u,
             e_sector_conflict = sector_conflict u, e_live = live u,
             e_MAS = b_MAS u, e_DOS = b_DOS u, e_MOM = b_MOM u, e_metrics = ms,
             avail_core_count = avail, incl_vuln = vuln_gate policy (live u) avail\<rparr>)"

definition computeEntityMetrics ::
  "UnionRow list \<Rightarrow> RangeConfig \<Rightarrow> CoveragePolicy \<Rightarrow> EntityMetricRow list result" where
  "computeEntityMetrics union_rows rc policy = mapE (entity_row rc policy) union_rows"

subsection \<open>Aggregation over all rows\<close>

record MetricAggregate =
  agg_num :: "64 word"
  agg_den :: "64 word"
  agg_valid :: "64 word"

definition empty_aggregate :: MetricAggregate where
  "empty_aggregate = \<lparr>agg_num = 0, agg_den = 0, agg_valid = 0\<rparr>"

definition add_pair :: "MetricPair \<Rightarrow> MetricAggregate \<Rightarrow> MetricAggregate" where
  "add_pair m a =
     (if mp_incl m \<noteq> 0
      then \<lparr>agg_num = agg_num a + mp_num m, agg_den = agg_den a + mp_den m, agg_valid = agg_valid a + 1\<rparr>
      else a)"

definition aggregateOverAll :: "EntityMetricRow list \<Rightarrow> MetricAggregate list" where
  "aggregateOverAll rows =
     fold (\<lambda>r out. map (\<lambda>i. add_pair (e_metrics r ! i) (out ! i)) [0..<kMetricCount]) rows
       (replicate kMetricCount empty_aggregate)"

record InclusionAudit =
  incl_count_by_metric :: "nat list"
  memb_ok_but_incl_zero :: "nat list"
  vuln_incl_count :: nat
  vuln_live_but_incl_zero :: nat

definition audit_inclusion_row :: "EntityMetricRow \<Rightarrow> InclusionAudit \<Rightarrow> InclusionAudit" where
  "audit_inclusion_row r a =
     a\<lparr>incl_count_by_metric := map (\<lambda>i. incl_count_by_metric a ! i
           + (if mp_incl (e_metrics r ! i) \<noteq> 0 then 1 else 0)) [0..<kMetricCount],
       vuln_incl_count := vuln_incl_count a + (if incl_vuln r \<noteq> 0 then 1 else 0),
       vuln_live_but_incl_zero := vuln_live_but_incl_zero a
           + (if e_live r \<noteq> 0 \<and> incl_vuln r = 0 then 1 else 0)\<rparr>"

definition auditInclusion :: "EntityMetricRow list \<Rightarrow> InclusionAudit" where
  "auditInclusion rows = fold audit_inclusion_row rows
     \<lparr>incl_count_by_metric = replicate kMetricCount 0,
      memb_ok_but_incl_zero = replicate kMetricCount 0,
      vuln_incl_count = 0, vuln_live_but_incl_zero = 0\<rparr>"

subsection \<open>Well-formed rows\<close>

definition payload_ok :: "PayloadPerSource \<Rightarrow> bool" where
  "payload_ok p \<longleftrightarrow> length (pv p) = 6 \<and> length (pvalid p) = 6 \<and> (\<forall>v\<in>set (pvalid p). v \<le> 1) \<and> pv_g p \<le> 1"

definition union_ok :: "UnionRow \<Rightarrow> bool" where
  "union_ok u \<longleftrightarrow> payload_ok (p_MAS u) \<and> payload_ok (p_DOS u) \<and> payload_ok (p_MOM u) \<and>
     b_MAS u \<le> 1 \<and> b_DOS u \<le> 1 \<and> b_MOM u \<le> 1 \<and> live u \<le> 1"

definition gap_ok :: "UnionRow \<Rightarrow> bool" where
  "gap_ok u \<longleftrightarrow> - (2 ^ 63) \<le> sint (pg (p_MAS u)) - sint (pg (p_DOS u)) \<and>
     sint (pg (p_MAS u)) - sint (pg (p_DOS u)) < 2 ^ 63"

lemma byte_le_1: "b \<le> 1 \<Longrightarrow> b = of_bool (b \<noteq> 0)" for b :: "8 word"
  by (simp add: word_le_nat_alt unat_arith_simps)

lemma of_bool_le_1: "(of_bool p :: 8 word) \<le> 1"
  by simp

lemma sand_conv: "a \<le> 1 \<Longrightarrow> b \<le> 1 \<Longrightarrow> sand a b = of_bool (a \<noteq> 0 \<and> b \<noteq> 0)"
  by (subst byte_le_1 [of a], assumption, subst byte_le_1 [of b], assumption) (simp add: sand_def)

lemma inRange_of_bool: "inRange v r = of_bool (min_incl r \<le> v \<and> v \<le> max_incl r)"
  by (simp add: inRange_def)

lemma valid_le_1: "payload_ok p \<Longrightarrow> i < 6 \<Longrightarrow> pvalid p ! i \<le> 1"
  by (simp add: payload_ok_def)

lemma union_ok_bits:
  assumes "union_ok u"
  shows "live u \<le> 1" "b_MAS u \<le> 1" "b_DOS u \<le> 1" "b_MOM u \<le> 1" "v_debt u \<le> 1" "v_dserv u \<le> 1"
    "v_delq u \<le> 1" "v_npl u \<le> 1" "v_unsec u \<le> 1" "v_stdebt u \<le> 1" "v_income u \<le> 1" "v_emp u \<le> 1"
    "pv_g (p_MAS u) \<le> 1" "pv_g (p_DOS u) \<le> 1"
  using assms by (simp_all add: union_ok_def valid_le_1) (simp_all add: payload_ok_def)

subsection \<open>The documented masks\<close>

text \<open>The inclusion masks of the protocol document: for every metric the memberships, the validity
  bits and the range of its denominator, and its numerator and denominator.\<close>

definition within :: "AttrRange \<Rightarrow> 64 word \<Rightarrow> bool" where
  "within r v \<longleftrightarrow> min_incl r \<le> v \<and> v \<le> max_incl r"

fun included :: "RangeConfig \<Rightarrow> UnionRow \<Rightarrow> Metric \<Rightarrow> bool" where
  "included rc u DTI = (list_all (\<lambda>b. b \<noteq> 0) [live u, b_MAS u, b_DOS u, v_debt u, v_income u] \<and>
     within (rc_income rc) (income u))"
| "included rc u DSI = (list_all (\<lambda>b. b \<noteq> 0) [live u, b_MAS u, b_DOS u, v_dserv u, v_income u] \<and>
     within (rc_income rc) (income u))"
| "included rc u DEmp = (list_all (\<lambda>b. b \<noteq> 0) [live u, b_MAS u, b_MOM u, v_debt u, v_emp u] \<and>
     within (rc_emp rc) (emp u))"
| "included rc u IPW = (list_all (\<lambda>b. b \<noteq> 0) [live u, b_DOS u, b_MOM u, v_income u, v_emp u] \<and>
     within (rc_emp rc) (emp u))"
| "included rc u Delq = (list_all (\<lambda>b. b \<noteq> 0) [live u, b_MAS u, v_delq u, v_debt u] \<and>
     within (rc_debt rc) (debt u))"
| "included rc u NPL = (list_all (\<lambda>b. b \<noteq> 0) [live u, b_MAS u, v_npl u, v_debt u] \<and>
     within (rc_debt rc) (debt u))"
| "included rc u UnsecShare = (list_all (\<lambda>b. b \<noteq> 0) [live u, b_MAS u, v_unsec u, v_debt u] \<and>
     within (rc_debt rc) (debt u))"
| "included rc u StDebtShare = (list_all (\<lambda>b. b \<noteq> 0) [live u, b_MAS u, v_stdebt u, v_debt u] \<and>
     within (rc_debt rc) (debt u))"
| "included rc u Gap = list_all (\<lambda>b. b \<noteq> 0) [live u, b_MAS u, b_DOS u, pv_g (p_MAS u), pv_g (p_DOS u)]"
| "included rc u METRIC_COUNT = False"

fun ratio_of :: "UnionRow \<Rightarrow> Metric \<Rightarrow> 64 word \<times> 64 word" where
  "ratio_of u DTI = (debt u, income u)"
| "ratio_of u DSI = (dserv u, income u)"
| "ratio_of u DEmp = (debt u, emp u)"
| "ratio_of u IPW = (income u, emp u)"
| "ratio_of u Delq = (delq u, debt u)"
| "ratio_of u NPL = (npl u, debt u)"
| "ratio_of u UnsecShare = (unsec u, debt u)"
| "ratio_of u StDebtShare = (stdebt u, debt u)"
| "ratio_of u Gap = (pg (p_MAS u) - pg (p_DOS u), 1)"
| "ratio_of u METRIC_COUNT = (0, 0)"

definition metric_spec :: "RangeConfig \<Rightarrow> UnionRow \<Rightarrow> Metric \<Rightarrow> MetricPair" where
  "metric_spec rc u m =
     \<lparr>mp_num = fst (ratio_of u m), mp_den = snd (ratio_of u m), mp_incl = of_bool (included rc u m)\<rparr>"

definition all_metrics :: "Metric list" where
  "all_metrics = [DTI, DSI, DEmp, IPW, Delq, NPL, UnsecShare, StDebtShare, Gap]"

definition vuln_admits :: "CoveragePolicy \<Rightarrow> RangeConfig \<Rightarrow> UnionRow \<Rightarrow> bool" where
  "vuln_admits policy rc u \<longleftrightarrow> live u \<noteq> 0 \<and>
     (case policy of
        STRICT_GATING \<Rightarrow> list_all (included rc u) kVulnCoreMetrics
      | RENORMALISED_WEIGHTS \<Rightarrow> list_ex (included rc u) kVulnCoreMetrics)"

definition entity_spec :: "RangeConfig \<Rightarrow> CoveragePolicy \<Rightarrow> UnionRow \<Rightarrow> EntityMetricRow" where
  "entity_spec rc policy u =
     \<lparr>e_bin = u_bin u, e_period = u_period u, e_sector = u_sector u,
      e_sector_conflict = sector_conflict u, e_live = live u,
      e_MAS = b_MAS u, e_DOS = b_DOS u, e_MOM = b_MOM u,
      e_metrics = map (metric_spec rc u) all_metrics,
      avail_core_count = of_nat (length (filter (included rc u) kVulnCoreMetrics)),
      incl_vuln = of_bool (vuln_admits policy rc u)\<rparr>"

lemma metric_index_lt: "m \<noteq> METRIC_COUNT \<Longrightarrow> metric_index m < kMetricCount"
  by (cases m) (simp_all add: kMetricCount_def)

lemma all_metrics_nth: "m \<noteq> METRIC_COUNT \<Longrightarrow> all_metrics ! metric_index m = m"
  by (cases m) (simp_all add: all_metrics_def)

lemma length_all_metrics [simp]: "length all_metrics = kMetricCount"
  by (simp add: all_metrics_def kMetricCount_def)

lemma gap_signed_eq:
  "gap_signed a b = (if - (2 ^ 63) \<le> sint a - sint b \<and> sint a - sint b < 2 ^ 63 then Inr (a - b) else Inl SignedOverflow)"
proof -
  have "(word_of_int (sint a - sint b) :: 64 word) = a - b" by simp
  then show ?thesis by (auto simp: gap_signed_def Let_def throw_if_def)
qed

text \<open>The three shapes of the masks.\<close>

lemma mask_cross:
  "a \<le> 1 \<Longrightarrow> b \<le> 1 \<Longrightarrow> c \<le> 1 \<Longrightarrow> d \<le> 1 \<Longrightarrow> e \<le> 1 \<Longrightarrow>
   sand (sand (sand a b) (sand c d)) (sand e (inRange v r)) =
     of_bool (list_all (\<lambda>b. b \<noteq> 0) [a, b, c, d, e] \<and> within r v)"
  by (simp add: sand_conv inRange_of_bool within_def)

lemma mask_single:
  "a \<le> 1 \<Longrightarrow> b \<le> 1 \<Longrightarrow> c \<le> 1 \<Longrightarrow> d \<le> 1 \<Longrightarrow>
   sand (sand (sand a b) c) (sand d (inRange v r)) =
     of_bool (list_all (\<lambda>b. b \<noteq> 0) [a, b, c, d] \<and> within r v)"
  by (simp add: sand_conv inRange_of_bool within_def)

lemma mask_gap:
  "a \<le> 1 \<Longrightarrow> b \<le> 1 \<Longrightarrow> c \<le> 1 \<Longrightarrow> d \<le> 1 \<Longrightarrow> e \<le> 1 \<Longrightarrow>
   sand (sand (sand a b) c) (sand d e) = of_bool (list_all (\<lambda>b. b \<noteq> 0) [a, b, c, d, e])"
  by (simp add: sand_conv)

lemma metric_pairs_spec:
  assumes "union_ok u"
  shows "metric_pairs u rc = (if gap_ok u then Inr (map (metric_spec rc u) all_metrics) else Inl SignedOverflow)"
  unfolding metric_pairs_def Let_def gap_signed_eq gap_ok_def all_metrics_def metric_spec_def
  by (cases "- (2 ^ 63) \<le> sint (pg (p_MAS u)) - sint (pg (p_DOS u)) \<and> sint (pg (p_MAS u)) - sint (pg (p_DOS u)) < 2 ^ 63")
    (simp_all only: mask_cross mask_single mask_gap union_ok_bits [OF assms] bindE_simps included.simps
      ratio_of.simps fst_conv snd_conv list.map if_True if_False simp_thms)

lemma core_available_spec:
  "core_available (map (metric_spec rc u) all_metrics) = of_nat (length (filter (included rc u) kVulnCoreMetrics))"
  by (simp add: core_available_def kVulnCoreMetrics_def all_metrics_def metric_spec_def)

lemma vuln_gate_spec:
  assumes "live u \<le> 1"
  shows "vuln_gate policy (live u) (of_nat (length (filter (included rc u) kVulnCoreMetrics))) =
    of_bool (vuln_admits policy rc u)"
proof -
  let ?k = "length (filter (included rc u) kVulnCoreMetrics)"
  have k: "?k \<le> 4" using length_filter_le [of "included rc u" kVulnCoreMetrics] by (simp add: kVulnCoreMetrics_def)
  then have u: "unat (of_nat ?k :: 8 word) = ?k" by (simp add: unat_of_nat take_bit_nat_eq_self)
  have all: "list_all (included rc u) kVulnCoreMetrics \<longleftrightarrow> ?k = length kVulnCoreMetrics"
    by (auto simp: list_all_iff filter_id_conv dest: length_filter_less split: if_splits)
  have ex: "list_ex (included rc u) kVulnCoreMetrics \<longleftrightarrow> 1 \<le> ?k"
    by (simp add: list_ex_iff Suc_le_eq filter_empty_conv)
  have one: "(1 :: 8 word) \<le> of_nat ?k \<longleftrightarrow> 1 \<le> ?k" by (simp add: word_le_nat_alt u)
  show ?thesis
    using assms by (cases policy) (simp_all add: vuln_gate_def vuln_admits_def all ex one u sand_conv)
qed

lemma entity_row_spec:
  assumes "union_ok u"
  shows "entity_row rc policy u = (if gap_ok u then Inr (entity_spec rc policy u) else Inl SignedOverflow)"
  using union_ok_bits(1) [OF assms]
  by (simp add: entity_row_def metric_pairs_spec [OF assms] core_available_spec vuln_gate_spec entity_spec_def Let_def)

lemma computeEntityMetrics_spec:
  "list_all union_ok rows \<Longrightarrow> computeEntityMetrics rows rc policy =
     (if list_all gap_ok rows then Inr (map (entity_spec rc policy) rows) else Inl SignedOverflow)"
  unfolding computeEntityMetrics_def by (induction rows) (simp_all add: entity_row_spec)

subsection \<open>Aggregates are masked sums\<close>

lemma aggregate_step_nth:
  "i < kMetricCount \<Longrightarrow> length out = kMetricCount \<Longrightarrow>
   fold (\<lambda>r out. map (\<lambda>i. add_pair (e_metrics r ! i) (out ! i)) [0..<kMetricCount]) rows out ! i =
   fold add_pair (map (\<lambda>r. e_metrics r ! i) rows) (out ! i)"
  by (induction rows arbitrary: out) simp_all

definition masked_total :: "MetricPair list \<Rightarrow> MetricAggregate" where
  "masked_total ms = (let ms' = filter (\<lambda>m. mp_incl m \<noteq> 0) ms in
     \<lparr>agg_num = sum_list (map mp_num ms'), agg_den = sum_list (map mp_den ms'), agg_valid = of_nat (length ms')\<rparr>)"

lemma fold_add_pair:
  "fold add_pair ms a =
     \<lparr>agg_num = agg_num a + agg_num (masked_total ms), agg_den = agg_den a + agg_den (masked_total ms),
      agg_valid = agg_valid a + agg_valid (masked_total ms)\<rparr>"
  by (induction ms arbitrary: a) (simp_all add: add_pair_def masked_total_def Let_def)

lemma aggregateOverAll_nth:
  "i < kMetricCount \<Longrightarrow> aggregateOverAll rows ! i = masked_total (map (\<lambda>r. e_metrics r ! i) rows)"
  by (simp add: aggregateOverAll_def aggregate_step_nth fold_add_pair empty_aggregate_def)

lemma masked_total_perm: "mset ms = mset ms' \<Longrightarrow> masked_total ms = masked_total ms'"
proof -
  assume m: "mset ms = mset ms'"
  let ?f = "filter (\<lambda>m. mp_incl m \<noteq> 0)"
  have "sum_list (map h (?f ms)) = sum_list (map h (?f ms'))" for h :: "MetricPair \<Rightarrow> 64 word"
    using m by (simp flip: sum_mset_sum_list)
  moreover have "length (?f ms) = length (?f ms')" using m by (metis mset_filter size_mset)
  ultimately show ?thesis by (simp add: masked_total_def Let_def)
qed

lemma included_live: "included rc u m \<Longrightarrow> live u \<noteq> 0"
  by (cases m) auto

definition included_total :: "RangeConfig \<Rightarrow> Metric \<Rightarrow> UnionRow multiset \<Rightarrow> MetricAggregate" where
  "included_total rc m U = (let V = filter_mset (\<lambda>u. included rc u m) U in
     \<lparr>agg_num = (\<Sum>u\<in>#V. fst (ratio_of u m)), agg_den = (\<Sum>u\<in>#V. snd (ratio_of u m)), agg_valid = of_nat (size V)\<rparr>)"

lemma included_total_list:
  "included_total rc m (filter_mset (\<lambda>u. live u \<noteq> 0) (mset rows)) =
     (let us = filter (\<lambda>u. included rc u m) rows in
     \<lparr>agg_num = (\<Sum>u\<leftarrow>us. fst (ratio_of u m)), agg_den = (\<Sum>u\<leftarrow>us. snd (ratio_of u m)), agg_valid = of_nat (length us)\<rparr>)"
proof -
  have "filter_mset (\<lambda>u. included rc u m) (filter_mset (\<lambda>u. live u \<noteq> 0) (mset rows)) =
      mset (filter (\<lambda>u. included rc u m) rows)"
    by (auto simp: filter_filter_mset intro!: filter_mset_cong dest: included_live)
  moreover have "(\<Sum>u\<in>#mset us. h u) = (\<Sum>u\<leftarrow>us. h u)" for us and h :: "UnionRow \<Rightarrow> 64 word"
    by (metis mset_map sum_mset_sum_list)
  ultimately show ?thesis by (simp only: included_total_def Let_def size_mset)
qed

lemma aggregate_entity_spec:
  assumes "m \<noteq> METRIC_COUNT"
  shows "aggregateOverAll (map (entity_spec rc policy) rows) ! metric_index m =
    included_total rc m (filter_mset (\<lambda>u. live u \<noteq> 0) (mset rows))"
proof -
  have nth: "e_metrics (entity_spec rc policy u) ! metric_index m = metric_spec rc u m" for u
    using metric_index_lt [OF assms] all_metrics_nth [OF assms] by (simp add: entity_spec_def)
  have "filter (\<lambda>p. mp_incl p \<noteq> 0) (map (\<lambda>u. metric_spec rc u m) rows) =
      map (\<lambda>u. metric_spec rc u m) (filter (\<lambda>u. included rc u m) rows)"
    by (simp add: filter_map comp_def metric_spec_def)
  then have "masked_total (map (\<lambda>u. metric_spec rc u m) rows) =
      included_total rc m (filter_mset (\<lambda>u. live u \<noteq> 0) (mset rows))"
    unfolding masked_total_def included_total_list by (simp add: Let_def comp_def metric_spec_def)
  then show ?thesis
    using metric_index_lt [OF assms] by (simp add: aggregateOverAll_nth comp_def nth)
qed

subsection \<open>Tables from the alignment\<close>

definition growth_ok :: "PayloadPerSource \<Rightarrow> bool" where
  "growth_ok p \<longleftrightarrow> - (2 ^ 62) \<le> sint (pg p) \<and> sint (pg p) < 2 ^ 62"

lemma payload_from_all:
  "payload_from rows p \<Longrightarrow> P empty_payload \<Longrightarrow> \<forall>r\<in>set rows. P (r_payload r) \<Longrightarrow> P p"
  by (auto simp: payload_from_def)

lemma empty_payload_ok: "payload_ok empty_payload" "growth_ok empty_payload"
  by (simp_all add: payload_ok_def growth_ok_def empty_payload_def)

lemma row_from_ok:
  assumes "row_from rows u" "\<forall>r\<in>set rows. payload_ok (r_payload r)" "\<forall>r\<in>set rows. growth_ok (r_payload r)"
  shows "union_ok u" "gap_ok u"
proof -
  have p: "payload_from rows (p_MAS u)" "payload_from rows (p_DOS u)" "payload_from rows (p_MOM u)"
    using assms(1) by (simp_all add: row_from_def)
  note ok = payload_from_all [OF _ empty_payload_ok(1) assms(2)] payload_from_all [OF _ empty_payload_ok(2) assms(3)]
  show "union_ok u" using assms(1) ok(1) [OF p(1)] ok(1) [OF p(2)] ok(1) [OF p(3)]
    by (simp add: union_ok_def row_from_def)
  show "gap_ok u" using ok(2) [OF p(1)] ok(2) [OF p(2)] by (simp add: gap_ok_def growth_ok_def)
qed

subsection \<open>Properties\<close>

text \<open>On rows whose flags are bits, the entity metrics are exactly the documented ones: every
  metric carries its numerator and denominator, its inclusion bit is the conjunction of the
  memberships, validity bits and range of its mask, the core count counts the included core metrics
  and the vulnerability bit follows the coverage policy; the only failure is a signed overflow of a
  gap.\<close>

theorem computeEntityMetrics_masks:
  assumes "list_all union_ok rows"
  shows "computeEntityMetrics rows rc policy =
    (if list_all gap_ok rows then Inr (map (entity_spec rc policy) rows) else Inl SignedOverflow)"
  by (rule computeEntityMetrics_spec [OF assms])

definition example_payload :: "64 word \<Rightarrow> PayloadPerSource" where
  "example_payload x = empty_payload\<lparr>pv := [x, 0, 0, 0, 0, 0], pvalid := [1, 0, 0, 0, 0, 0]\<rparr>"

definition example_union :: UnionRow where
  "example_union = empty_union\<lparr>b_MAS := 1, b_DOS := 1, live := 1,
     p_MAS := example_payload 300, p_DOS := example_payload 200\<rparr>"

lemma computeEntityMetrics_masks_witness:
  "\<exists>e. computeEntityMetrics [example_union] default_ranges RENORMALISED_WEIGHTS = Inr [e] \<and>
    e_metrics e ! metric_index DTI = \<lparr>mp_num = 300, mp_den = 200, mp_incl = 1\<rparr> \<and>
    mp_incl (e_metrics e ! metric_index DSI) = 0 \<and> avail_core_count e = 1 \<and> incl_vuln e = 1"
proof -
  have "list_all union_ok [example_union]" "list_all gap_ok [example_union]"
    by (simp_all add: union_ok_def gap_ok_def payload_ok_def example_union_def example_payload_def
        empty_payload_def empty_union_def)
  from computeEntityMetrics_masks [OF this(1), of default_ranges RENORMALISED_WEIGHTS] this(2) show ?thesis
    by (simp add: entity_spec_def metric_spec_def all_metrics_def kVulnCoreMetrics_def vuln_admits_def
        example_union_def example_payload_def empty_payload_def empty_union_def within_def default_ranges_def)
qed

text \<open>C3: composed with the alignment, whatever it shuffled and whatever dummies it drew: when the
  payloads of the sources are well formed and their growths in range, the inclusion step returns on
  the aligned table, and every metric's aggregate is the sum of numerators, of denominators and the
  count over exactly those joined entities whose mask holds.\<close>

theorem aligned_aggregates:
  assumes "packBins G 0 mas params g = Inr (tM, g1)" "packBins G 1 dos params g1 = Inr (tD, g2)"
    "packBins G 2 mom params g2 = Inr (tO, g3)"
    and tags: "distinct (map tag mas)" "distinct (map tag dos)" "distinct (map tag mom)"
    and free: "\<forall>b<2 ^ beta params. \<forall>d\<in>set (bt_rows tM ! b @ bt_rows tD ! b @ bt_rows tO ! b).
      \<forall>r\<in>set (bt_rows tM ! b @ bt_rows tD ! b @ bt_rows tO ! b). r_memb d = 0 \<longrightarrow> r_memb r = 1 \<longrightarrow> r_key d \<noteq> r_key r"
    and cap: "0 < cap_P params"
    and payloads: "\<forall>r\<in>set (mas @ dos @ mom). payload_ok (r_payload r)"
      "\<forall>r\<in>set (mas @ dos @ mom). growth_ok (r_payload r)"
  shows "\<exists>res g4 es. runFPsa G mas dos mom params g = Inr (res, g4) \<and>
    computeEntityMetrics (ar_table res) rc policy = Inr es \<and>
    list_all (\<lambda>m. aggregateOverAll es ! metric_index m = included_total rc m
      (image_mset (\<lambda>(b, k). joined_row (rows_in_bin (mas @ dos @ mom) (unat b)) b k)
        (mset_set (tag ` set (mas @ dos @ mom))))) all_metrics"
proof -
  obtain res g4 where res: "runFPsa G mas dos mom params g = Inr (res, g4)"
    and live: "mset (filter (\<lambda>u. live u \<noteq> 0) (ar_table res)) =
      image_mset (\<lambda>(b, k). joined_row (rows_in_bin (mas @ dos @ mom) (unat b)) b k)
        (mset_set (tag ` set (mas @ dos @ mom)))"
    using runFPsa_live [OF assms(1-8)] by blast
  have "union_ok u" "gap_ok u" if "u \<in> set (ar_table res)" for u
    using row_from_ok [OF runFPsa_rows_from [OF res that] payloads] .
  then have "computeEntityMetrics (ar_table res) rc policy = Inr (map (entity_spec rc policy) (ar_table res))"
    by (simp add: computeEntityMetrics_spec list_all_iff)
  moreover have "m \<noteq> METRIC_COUNT" if "m \<in> set all_metrics" for m using that by (auto simp: all_metrics_def)
  ultimately show ?thesis
    using res by (auto simp: list_all_iff aggregate_entity_spec mset_filter [symmetric] live simp del: mset_filter)
qed

definition example_firm :: "32 word \<Rightarrow> 64 word \<Rightarrow> Row" where
  "example_firm src x = (example_row src 7 3)\<lparr>r_payload := example_payload x\<rparr>"

lemma aligned_aggregates_witness:
  "\<exists>res g4 es. runFPsa counter_prng [example_firm 0 300] [example_firm 1 200] [] \<lparr>beta = 0, tau_bits = 71, cap_P = 1\<rparr> 5 = Inr (res, g4) \<and>
    computeEntityMetrics (ar_table res) default_ranges STRICT_GATING = Inr es \<and>
    aggregateOverAll es ! metric_index DTI = \<lparr>agg_num = 300, agg_den = 200, agg_valid = 1\<rparr>"
proof -
  let ?p = "\<lparr>beta = 0, tau_bits = 71, cap_P = 1\<rparr>"
  have M: "packBins counter_prng 0 [example_firm 0 300] ?p 5 =
      Inr (\<lparr>bt_beta = 0, bt_cap_P = 1, bt_rows = [[example_firm 0 300]]\<rparr>, 5)"
    by (simp add: packBins_def assertNoDuplicateEntityPeriod_def isReal_def example_firm_def example_row_def place_row_def pad_bin_def Let_def)
  have D: "packBins counter_prng 1 [example_firm 1 200] ?p 5 =
      Inr (\<lparr>bt_beta = 0, bt_cap_P = 1, bt_rows = [[example_firm 1 200]]\<rparr>, 5)"
    by (simp add: packBins_def assertNoDuplicateEntityPeriod_def isReal_def example_firm_def example_row_def place_row_def pad_bin_def Let_def)
  have O: "packBins counter_prng 2 [] ?p 5 =
      Inr (\<lparr>bt_beta = 0, bt_cap_P = 1, bt_rows = [[dummy_row 71 2 0 5]]\<rparr>, 6)"
    by (simp add: packBins_def assertNoDuplicateEntityPeriod_def pad_bin_def Let_def counter_prng_def)
  have "\<exists>res g4 es. runFPsa counter_prng [example_firm 0 300] [example_firm 1 200] [] ?p 5 = Inr (res, g4) \<and>
    computeEntityMetrics (ar_table res) default_ranges STRICT_GATING = Inr es \<and>
    list_all (\<lambda>m. aggregateOverAll es ! metric_index m = included_total default_ranges m
      (image_mset (\<lambda>(b, k). joined_row (rows_in_bin ([example_firm 0 300] @ [example_firm 1 200] @ []) (unat b)) b k)
        (mset_set (tag ` set ([example_firm 0 300] @ [example_firm 1 200] @ []))))) all_metrics"
    by (rule aligned_aggregates [OF M D O])
      (auto simp: example_firm_def example_row_def dummy_row_def payload_ok_def growth_ok_def example_payload_def
        empty_payload_def)
  moreover have "included_total default_ranges DTI
      (image_mset (\<lambda>(b, k). joined_row (rows_in_bin ([example_firm 0 300] @ [example_firm 1 200] @ []) (unat b)) b k)
        (mset_set (tag ` set ([example_firm 0 300] @ [example_firm 1 200] @ [])))) =
      \<lparr>agg_num = 300, agg_den = 200, agg_valid = 1\<rparr>"
    by (simp add: example_firm_def example_row_def tag_def included_total_def joined_row_def tagged_rows_def
        rows_in_bin_def first_of_def picked_payload_def example_payload_def empty_payload_def
        within_def default_ranges_def presence_def)
  ultimately show ?thesis by (auto simp: all_metrics_def)
qed

end
