(* ===== verification/Inclusion_Wire.thy ===== *)
theory Inclusion_Wire
  imports Inclusion Secure_Compare
begin

text \<open>
  Inclusion on secret-shared rows (\<open>volePSI/MpsvsInclusionWire.h\<close>,
  \<open>volePSI/MpsvsInclusionWire.cpp\<close>): the circuit that computes the inclusion bits, the coverage bit
  and the count of available core metrics from XOR-shared union rows, and the helpers that share
  and open whole rows. The reference semantics it is compared with is the plaintext step of the
  theory Inclusion.
\<close>

subsection \<open>Shared rows\<close>

record SharedPayloadPerSource =
  sp_v :: "SharedU64Bin list"
  sp_valid :: "SharedBit list"
  sp_g :: SharedU64Bin
  sp_v_g :: SharedBit

record SharedUnionRow =
  su_bin :: "64 word"
  su_period :: "32 word"
  su_sector :: "32 word"
  su_conflict :: "8 word"
  sb_MAS :: SharedBit
  sb_DOS :: SharedBit
  sb_MOM :: SharedBit
  su_live :: SharedBit
  sp_MAS :: SharedPayloadPerSource
  sp_DOS :: SharedPayloadPerSource
  sp_MOM :: SharedPayloadPerSource

record SharedMetricPair =
  sm_num :: SharedU64Bin
  sm_den :: SharedU64Bin
  sm_incl :: SharedBit

record SharedEntityMetricRow =
  se_bin :: "64 word"
  se_period :: "32 word"
  se_sector :: "32 word"
  se_conflict :: "8 word"
  se_live :: SharedBit
  se_MAS :: SharedBit
  se_DOS :: SharedBit
  se_MOM :: SharedBit
  se_metrics :: "SharedMetricPair list"
  se_vuln :: SharedBit
  se_avail :: SharedU64Bin

subsection \<open>Gates\<close>

definition inclusionTripleBudgetPerRow :: "64 word" where
  "inclusionTripleBudgetPerRow = 3 * (2 * secureLessThanTripleCost + 1) + 9 * 6 + 100"

definition shareConstU64Bin :: "nat \<Rightarrow> 64 word \<Rightarrow> SharedU64Bin result" where
  "shareConstU64Bin N v =
     throw_if (N = 0) OutOfBounds
       (Inr \<lparr>bin_bits = map (\<lambda>b. \<lparr>bit_shares = ucast (drop_bit b v AND 1) # replicate (N - 1) 0\<rparr>) [0..<64]\<rparr>)"

definition sand_shared ::
  "SharedBit \<Rightarrow> SharedBit \<Rightarrow> BeaverTripleBit list \<Rightarrow> nat \<Rightarrow> (SharedBit \<times> nat) result" where
  "sand_shared a b triples k =
     throw_if (k \<ge> length triples) (RuntimeError ''triple bag exhausted'')
       (bindE (secureAnd a b (triples ! k)) (\<lambda>c. Inr (c, Suc k)))"

definition rangeCheckShared ::
  "nat \<Rightarrow> SharedU64Bin \<Rightarrow> AttrRange \<Rightarrow> BeaverTripleBit list \<Rightarrow> nat \<Rightarrow> (SharedBit \<times> nat) result" where
  "rangeCheckShared N v r triples k =
     (let lo_m1 = (if min_incl r = 0 then 0 else min_incl r - 1);
          hi_p1 = max_incl r + 1
      in bindE (shareConstU64Bin N lo_m1) (\<lambda>lo_shared.
         bindE (shareConstU64Bin N hi_p1) (\<lambda>hi_shared.
         bindE (secureLessThan lo_shared v triples k) (\<lambda>(ge_min, k1).
         bindE (secureLessThan v hi_shared triples k1) (\<lambda>(le_max, k2).
         sand_shared ge_min le_max triples k2)))))"

text \<open>The conjunction of a braced list of bits; dereferencing an empty list is out of bounds.\<close>

definition makeIncl ::
  "SharedBit list \<Rightarrow> BeaverTripleBit list \<Rightarrow> nat \<Rightarrow> (SharedBit \<times> nat) result" where
  "makeIncl bits triples k =
     (case bits of
        [] \<Rightarrow> Inl OutOfBounds
      | b # bs \<Rightarrow> foldE (\<lambda>x (acc, k). sand_shared acc x triples k) bs (b, k))"

definition sor_shared ::
  "SharedBit \<Rightarrow> SharedBit \<Rightarrow> BeaverTripleBit list \<Rightarrow> nat \<Rightarrow> (SharedBit \<times> nat) result" where
  "sor_shared a b triples k =
     bindE (sand_shared a b triples k) (\<lambda>(ab, k1).
     bindE (xorShared a b) (\<lambda>ax.
     bindE (xorShared ax ab) (\<lambda>r. Inr (r, k1))))"

definition full_add ::
  "SharedBit \<Rightarrow> SharedBit \<Rightarrow> SharedBit \<Rightarrow> BeaverTripleBit list \<Rightarrow> nat \<Rightarrow> (SharedBit \<times> SharedBit \<times> nat) result" where
  "full_add a b cin triples k =
     bindE (xorShared a b) (\<lambda>ab.
     bindE (xorShared ab cin) (\<lambda>sum.
     bindE (sand_shared a b triples k) (\<lambda>(and_ab, k1).
     bindE (sand_shared cin ab triples k1) (\<lambda>(and_cab, k2).
     bindE (xorShared and_ab and_cab) (\<lambda>x.
     bindE (sand_shared and_ab and_cab triples k2) (\<lambda>(ac, k3).
     bindE (xorShared x ac) (\<lambda>cout. Inr (sum, cout, k3))))))))"

subsection \<open>The circuit of a row\<close>

definition wire_metrics ::
  "SharedUnionRow \<Rightarrow> RangeConfig \<Rightarrow> BeaverTripleBit list \<Rightarrow> nat \<Rightarrow> (SharedMetricPair list \<times> nat) result" where
  "wire_metrics u rc triples k =
     (let N = bit_N (sb_MAS u); align = su_live u; m = sb_MAS u; d = sb_DOS u; o' = sb_MOM u;
          v_debt = sp_valid (sp_MAS u) ! 0; v_dserv = sp_valid (sp_MAS u) ! 1;
          v_delq = sp_valid (sp_MAS u) ! 2; v_npl = sp_valid (sp_MAS u) ! 3;
          v_unsec = sp_valid (sp_MAS u) ! 4; v_stdebt = sp_valid (sp_MAS u) ! 5;
          v_income = sp_valid (sp_DOS u) ! 0; v_emp = sp_valid (sp_MOM u) ! 0;
          v_gdebt = sp_v_g (sp_MAS u); v_gincome = sp_v_g (sp_DOS u);
          debt = sp_v (sp_MAS u) ! 0; dserv = sp_v (sp_MAS u) ! 1;
          delq = sp_v (sp_MAS u) ! 2; npl = sp_v (sp_MAS u) ! 3;
          unsec = sp_v (sp_MAS u) ! 4; stdebt = sp_v (sp_MAS u) ! 5;
          income = sp_v (sp_DOS u) ! 0; emp = sp_v (sp_MOM u) ! 0
      in bindE (rangeCheckShared N income (rc_income rc) triples k) (\<lambda>(ok_income, k1).
         bindE (rangeCheckShared N debt (rc_debt rc) triples k1) (\<lambda>(ok_debt, k2).
         bindE (rangeCheckShared N emp (rc_emp rc) triples k2) (\<lambda>(ok_emp, k3).
         bindE (makeIncl [align, m, d, v_debt, v_income, ok_income] triples k3) (\<lambda>(iDTI, k4).
         bindE (makeIncl [align, m, d, v_dserv, v_income, ok_income] triples k4) (\<lambda>(iDSI, k5).
         bindE (makeIncl [align, m, o', v_debt, v_emp, ok_emp] triples k5) (\<lambda>(iDEmp, k6).
         bindE (makeIncl [align, d, o', v_income, v_emp, ok_emp] triples k6) (\<lambda>(iIPW, k7).
         bindE (makeIncl [align, m, v_delq, v_debt, ok_debt] triples k7) (\<lambda>(iDelq, k8).
         bindE (makeIncl [align, m, v_npl, v_debt, ok_debt] triples k8) (\<lambda>(iNPL, k9).
         bindE (makeIncl [align, m, v_unsec, v_debt, ok_debt] triples k9) (\<lambda>(iUS, k10).
         bindE (makeIncl [align, m, v_stdebt, v_debt, ok_debt] triples k10) (\<lambda>(iSD, k11).
         bindE (makeIncl [align, m, d, v_gdebt, v_gincome] triples k11) (\<lambda>(iGap, k12).
         Inr ([\<lparr>sm_num = debt, sm_den = income, sm_incl = iDTI\<rparr>,
               \<lparr>sm_num = dserv, sm_den = income, sm_incl = iDSI\<rparr>,
               \<lparr>sm_num = debt, sm_den = emp, sm_incl = iDEmp\<rparr>,
               \<lparr>sm_num = income, sm_den = emp, sm_incl = iIPW\<rparr>,
               \<lparr>sm_num = delq, sm_den = debt, sm_incl = iDelq\<rparr>,
               \<lparr>sm_num = npl, sm_den = debt, sm_incl = iNPL\<rparr>,
               \<lparr>sm_num = unsec, sm_den = debt, sm_incl = iUS\<rparr>,
               \<lparr>sm_num = stdebt, sm_den = debt, sm_incl = iSD\<rparr>,
               \<lparr>sm_num = sp_g (sp_MAS u), sm_den = sp_g (sp_DOS u), sm_incl = iGap\<rparr>], k12))))))))))))))"

definition wire_vuln ::
  "CoveragePolicy \<Rightarrow> SharedBit \<Rightarrow> SharedBit \<Rightarrow> SharedBit \<Rightarrow> SharedBit \<Rightarrow> SharedBit \<Rightarrow>
   BeaverTripleBit list \<Rightarrow> nat \<Rightarrow> (SharedBit \<times> nat) result" where
  "wire_vuln policy align iDTI iDSI iDelq iNPL triples k =
     (case policy of
        STRICT_GATING \<Rightarrow> makeIncl [align, iDTI, iDSI, iDelq, iNPL] triples k
      | RENORMALISED_WEIGHTS \<Rightarrow>
          bindE (sor_shared iDTI iDSI triples k) (\<lambda>(any1, k1).
          bindE (sor_shared any1 iDelq triples k1) (\<lambda>(any2, k2).
          bindE (sor_shared any2 iNPL triples k2) (\<lambda>(any3, k3).
          sand_shared align any3 triples k3))))"

definition wire_core_count ::
  "nat \<Rightarrow> SharedBit \<Rightarrow> SharedBit \<Rightarrow> SharedBit \<Rightarrow> SharedBit \<Rightarrow>
   BeaverTripleBit list \<Rightarrow> nat \<Rightarrow> (SharedU64Bin \<times> nat) result" where
  "wire_core_count N iDTI iDSI iDelq iNPL triples k =
     bindE (xorShared iDTI iDSI) (\<lambda>s01.
     bindE (sand_shared iDTI iDSI triples k) (\<lambda>(c01, k1).
     bindE (full_add s01 iDelq (bit_zero N) triples k1) (\<lambda>(s02, c02, k2).
     bindE (xorShared c01 c02) (\<lambda>c1.
     bindE (sand_shared c01 c02 triples k2) (\<lambda>(c1_carry, k3).
     bindE (full_add s02 iNPL (bit_zero N) triples k3) (\<lambda>(s0_final, c1_next, k4).
     bindE (xorShared c1 c1_next) (\<lambda>c1_final.
     bindE (sand_shared c1 c1_next triples k4) (\<lambda>(c1_final_carry, k5).
     bindE (xorShared c1_carry c1_final_carry) (\<lambda>c2_final.
     Inr (\<lparr>bin_bits = [s0_final, c1_final, c2_final] @ replicate 61 (bit_zero N)\<rparr>, k5))))))))))"

definition computeEntityMetricsWire ::
  "SharedUnionRow \<Rightarrow> RangeConfig \<Rightarrow> CoveragePolicy \<Rightarrow> BeaverTripleBit list \<Rightarrow> nat \<Rightarrow>
   (SharedEntityMetricRow \<times> nat) result" where
  "computeEntityMetricsWire u rc policy triples k =
     bindE (wire_metrics u rc triples k) (\<lambda>(ms, k1).
     let i = (\<lambda>m. sm_incl (ms ! metric_index m)) in
     bindE (wire_vuln policy (su_live u) (i DTI) (i DSI) (i Delq) (i NPL) triples k1) (\<lambda>(gate, k2).
     bindE (wire_core_count (bit_N (sb_MAS u)) (i DTI) (i DSI) (i Delq) (i NPL) triples k2) (\<lambda>(count, k3).
     Inr (\<lparr>se_bin = su_bin u, se_period = su_period u, se_sector = su_sector u, se_conflict = su_conflict u,
           se_live = su_live u, se_MAS = sb_MAS u, se_DOS = sb_DOS u, se_MOM = sb_MOM u,
           se_metrics = ms, se_vuln = gate, se_avail = count\<rparr>, k3))))"

fun wire_batch ::
  "RangeConfig \<Rightarrow> CoveragePolicy \<Rightarrow> BeaverTripleBit list \<Rightarrow> SharedUnionRow list \<Rightarrow> nat \<Rightarrow>
   SharedEntityMetricRow list result" where
  "wire_batch rc policy triples [] k = Inr []"
| "wire_batch rc policy triples (u # us) k =
     bindE (computeEntityMetricsWire u rc policy triples k) (\<lambda>(e, k').
     bindE (wire_batch rc policy triples us k') (\<lambda>es. Inr (e # es)))"

definition computeEntityMetricsWireBatch ::
  "SharedUnionRow list \<Rightarrow> RangeConfig \<Rightarrow> CoveragePolicy \<Rightarrow> BeaverTripleBit list \<Rightarrow>
   SharedEntityMetricRow list result" where
  "computeEntityMetricsWireBatch rows rc policy triples = wire_batch rc policy triples rows 0"

subsection \<open>Sharing and opening rows\<close>

definition share_source ::
  "'g prng \<Rightarrow> nat \<Rightarrow> PayloadPerSource \<Rightarrow> 'g \<Rightarrow> (SharedPayloadPerSource \<times> 'g) result" where
  "share_source G N p g =
     bindE (foldE (\<lambda>i (vs, bs, g).
        bindE (vec_at (pv p) i) (\<lambda>x.
        bindE (shareU64Bin G N x g) (\<lambda>(v, g1).
        bindE (vec_at (pvalid p) i) (\<lambda>y.
        bindE (shareBit G N y g1) (\<lambda>(b, g2). Inr (vs @ [v], bs @ [b], g2)))))) [0..<6] ([], [], g)) (\<lambda>(vs, bs, g1).
     bindE (shareU64Bin G N (pg p) g1) (\<lambda>(sg, g2).
     bindE (shareBit G N (pv_g p) g2) (\<lambda>(svg, g3).
     Inr (\<lparr>sp_v = vs, sp_valid = bs, sp_g = sg, sp_v_g = svg\<rparr>, g3))))"

definition shareUnionRow :: "'g prng \<Rightarrow> nat \<Rightarrow> UnionRow \<Rightarrow> 'g \<Rightarrow> (SharedUnionRow \<times> 'g) result" where
  "shareUnionRow G N u g =
     bindE (shareBit G N (b_MAS u) g) (\<lambda>(m, g1).
     bindE (shareBit G N (b_DOS u) g1) (\<lambda>(d, g2).
     bindE (shareBit G N (b_MOM u) g2) (\<lambda>(o', g3).
     bindE (shareBit G N (live u) g3) (\<lambda>(l, g4).
     bindE (share_source G N (p_MAS u) g4) (\<lambda>(pm, g5).
     bindE (share_source G N (p_DOS u) g5) (\<lambda>(pd, g6).
     bindE (share_source G N (p_MOM u) g6) (\<lambda>(po, g7).
     Inr (\<lparr>su_bin = u_bin u, su_period = ucast (u_period u), su_sector = ucast (u_sector u),
           su_conflict = sector_conflict u, sb_MAS = m, sb_DOS = d, sb_MOM = o', su_live = l,
           sp_MAS = pm, sp_DOS = pd, sp_MOM = po\<rparr>, g7))))))))"

definition open_pair :: "SharedMetricPair \<Rightarrow> MetricPair" where
  "open_pair p = \<lparr>mp_num = bin_reconstruct (sm_num p), mp_den = bin_reconstruct (sm_den p),
     mp_incl = bit_reconstruct (sm_incl p)\<rparr>"

definition reconstructEntityMetricRow :: "SharedEntityMetricRow \<Rightarrow> EntityMetricRow" where
  "reconstructEntityMetricRow s =
     \<lparr>e_bin = se_bin s, e_period = ucast (se_period s), e_sector = ucast (se_sector s),
      e_sector_conflict = se_conflict s, e_live = bit_reconstruct (se_live s),
      e_MAS = bit_reconstruct (se_MAS s), e_DOS = bit_reconstruct (se_DOS s), e_MOM = bit_reconstruct (se_MOM s),
      e_metrics = map (\<lambda>i. open_pair (se_metrics s ! i)) [0..<kMetricCount],
      avail_core_count = ucast (bin_reconstruct (se_avail s) AND 7),
      incl_vuln = bit_reconstruct (se_vuln s)\<rparr>"

subsection \<open>Rows that open to a plaintext row\<close>

definition opens_payload :: "nat \<Rightarrow> SharedPayloadPerSource \<Rightarrow> PayloadPerSource \<Rightarrow> bool" where
  "opens_payload N s p \<longleftrightarrow>
     (\<forall>i<6. bin_ok N (sp_v s ! i) \<and> bin_reconstruct (sp_v s ! i) = pv p ! i \<and>
            bit_N (sp_valid s ! i) = N \<and> bval (sp_valid s ! i) = (pvalid p ! i \<noteq> 0)) \<and>
     bin_ok N (sp_g s) \<and> bin_reconstruct (sp_g s) = pg p \<and>
     bit_N (sp_v_g s) = N \<and> bval (sp_v_g s) = (pv_g p \<noteq> 0)"

definition opens_row :: "nat \<Rightarrow> SharedUnionRow \<Rightarrow> UnionRow \<Rightarrow> bool" where
  "opens_row N s u \<longleftrightarrow>
     su_bin s = u_bin u \<and> su_period s = ucast (u_period u) \<and> su_sector s = ucast (u_sector u) \<and>
     su_conflict s = sector_conflict u \<and>
     bit_N (sb_MAS s) = N \<and> bval (sb_MAS s) = (b_MAS u \<noteq> 0) \<and>
     bit_N (sb_DOS s) = N \<and> bval (sb_DOS s) = (b_DOS u \<noteq> 0) \<and>
     bit_N (sb_MOM s) = N \<and> bval (sb_MOM s) = (b_MOM u \<noteq> 0) \<and>
     bit_N (su_live s) = N \<and> bval (su_live s) = (live u \<noteq> 0) \<and>
     opens_payload N (sp_MAS s) (p_MAS u) \<and> opens_payload N (sp_DOS s) (p_DOS u) \<and>
     opens_payload N (sp_MOM s) (p_MOM u)"

definition ranges_ok :: "RangeConfig \<Rightarrow> bool" where
  "ranges_ok rc \<longleftrightarrow> list_all (\<lambda>r. min_incl r \<noteq> 0 \<and> max_incl r \<noteq> - 1) [rc_income rc, rc_debt rc, rc_emp rc]"

subsection \<open>Gate rules\<close>

lemma wp_sand_shared [gate_wp]:
  "bag_ok (bit_N a) ts \<Longrightarrow> k < length ts \<Longrightarrow> bit_N b = bit_N a \<Longrightarrow>
   (\<And>c. bit_N c = bit_N a \<Longrightarrow> bval c = (bval a \<and> bval b) \<Longrightarrow> returns (f c (Suc k)) P) \<Longrightarrow>
   returns (bindE (sand_shared a b ts k) (\<lambda>(c, k'). f c k')) P"
  unfolding sand_shared_def throw_if_def
  by (simp add: bindE_assoc) (rule wp_secureAnd, simp_all)

lemma sand_shared_returns:
  "bag_ok (bit_N a) ts \<Longrightarrow> k < length ts \<Longrightarrow> bit_N b = bit_N a \<Longrightarrow>
   returns (sand_shared a b ts k) (\<lambda>(c, k'). bit_N c = bit_N a \<and> bval c = (bval a \<and> bval b) \<and> k' = Suc k)"
  using wp_sand_shared [of a ts k b "\<lambda>c k'. Inr (c, k')" "\<lambda>(c, k'). bit_N c = bit_N a \<and> bval c = (bval a \<and> bval b) \<and> k' = Suc k"]
  by simp

lemma shareConst_returns:
  assumes "0 < N"
  shows "returns (shareConstU64Bin N v) (\<lambda>x. bin_ok N x \<and> bin_reconstruct x = v)"
proof -
  have "bval \<lparr>bit_shares = ucast (drop_bit b v AND 1) # replicate (N - 1) 0\<rparr> = bit v b" if "b < 64" for b
    using that by (simp add: bval_xor_list bit_simps)
  with assms show ?thesis
    by (auto simp: shareConstU64Bin_def bin_ok_def bit_N_def intro!: bin_reconstruct_eqI)
qed

lemma wp_shareConst [gate_wp]:
  "0 < N \<Longrightarrow> (\<And>x. bin_ok N x \<Longrightarrow> bin_reconstruct x = v \<Longrightarrow> returns (f x) P) \<Longrightarrow>
   returns (bindE (shareConstU64Bin N v) f) P"
  by (rule returns_bind_intro, erule shareConst_returns, simp)

lemma range_endpoints:
  "min_incl r \<noteq> 0 \<Longrightarrow> max_incl r \<noteq> - 1 \<Longrightarrow>
   (min_incl r - 1 < v \<and> v < max_incl r + 1) = within r v"
proof -
  assume "min_incl r \<noteq> 0" "max_incl r \<noteq> - 1"
  then have "unat (min_incl r - 1) = unat (min_incl r) - 1" "0 < unat (min_incl r)"
      "unat (1 + max_incl r) = Suc (unat (max_incl r))"
    by (simp_all add: unat_minus_one unat_gt_0 unatSuc add_eq_0_iff)
  then show ?thesis by (auto simp: within_def word_less_nat_alt word_le_nat_alt add.commute [of _ 1])
qed

lemma wp_rangeCheck [gate_wp]:
  assumes "bag_ok N ts" "bin_ok N v" "k + 513 \<le> length ts" "min_incl r \<noteq> 0 \<and> max_incl r \<noteq> - 1"
    and "\<And>c. bit_N c = N \<Longrightarrow> bval c = within r (bin_reconstruct v) \<Longrightarrow> returns (f c (k + 513)) P"
  shows "returns (bindE (rangeCheckShared N v r ts k) (\<lambda>(c, k'). f c k')) P"
proof -
  have "returns (rangeCheckShared N v r ts k) (\<lambda>(c, k'). bit_N c = N \<and>
      bval c = within r (bin_reconstruct v) \<and> k' = k + 513)"
    unfolding rangeCheckShared_def Let_def using assms(1-4) range_endpoints [of r "bin_reconstruct v"]
    by (intro gate_wp) (auto simp: gate_ok intro!: sand_shared_returns [THEN returns_mono])
  then show ?thesis
    by (rule returns_bind_intro) (use assms(5) in auto)
qed

lemma makeIncl_returns:
  "bag_ok n ts \<Longrightarrow> bit_N b = n \<Longrightarrow> list_all (\<lambda>x. bit_N x = n) bs \<Longrightarrow> k + length bs \<le> length ts \<Longrightarrow>
   returns (makeIncl (b # bs) ts k) (\<lambda>(c, k'). bit_N c = n \<and> bval c = list_all bval (b # bs) \<and> k' = k + length bs)"
proof (induction bs arbitrary: b k)
  case (Cons x bs)
  obtain c where c: "sand_shared b x ts k = Inr (c, Suc k)" "bit_N c = n" "bval c = (bval b \<and> bval x)"
    using sand_shared_returns [of b ts k x] Cons.prems by (auto simp: returns_def)
  have "returns (makeIncl (c # bs) ts (Suc k)) (\<lambda>(c', k'). bit_N c' = n \<and> bval c' = list_all bval (c # bs) \<and> k' = Suc k + length bs)"
    using Cons.prems c by (intro Cons.IH) simp_all
  then show ?case using c by (simp add: makeIncl_def)
qed (simp add: makeIncl_def)

lemma wp_makeIncl [gate_wp]:
  "bag_ok (bit_N b) ts \<Longrightarrow> list_all (\<lambda>x. bit_N x = bit_N b) bs \<Longrightarrow> k + length bs \<le> length ts \<Longrightarrow>
   (\<And>c. bit_N c = bit_N b \<Longrightarrow> bval c = list_all bval (b # bs) \<Longrightarrow> returns (f c (k + length bs)) P) \<Longrightarrow>
   returns (bindE (makeIncl (b # bs) ts k) (\<lambda>(c, k'). f c k')) P"
  by (rule returns_bind_intro, erule (1) makeIncl_returns [OF _ refl], assumption) auto

lemma wp_sor_shared [gate_wp]:
  assumes "bag_ok (bit_N a) ts" "k < length ts" "bit_N b = bit_N a"
    and "\<And>c. bit_N c = bit_N a \<Longrightarrow> bval c = (bval a \<or> bval b) \<Longrightarrow> returns (f c (Suc k)) P"
  shows "returns (bindE (sor_shared a b ts k) (\<lambda>(c, k'). f c k')) P"
proof -
  have "returns (sor_shared a b ts k) (\<lambda>(c, k'). bit_N c = bit_N a \<and> bval c = (bval a \<or> bval b) \<and> k' = Suc k)"
    unfolding sor_shared_def using assms(1-3) by (intro gate_wp) auto
  then show ?thesis by (rule returns_bind_intro) (use assms(4) in auto)
qed

lemma wp_full_add [gate_wp]:
  assumes "bag_ok (bit_N a) ts" "k + 3 \<le> length ts" "bit_N b = bit_N a" "bit_N c = bit_N a"
    and "\<And>s d. bit_N s = bit_N a \<Longrightarrow> bit_N d = bit_N a \<Longrightarrow> bval s = (bval a \<noteq> (bval b \<noteq> bval c)) \<Longrightarrow>
      bval d = (bval a \<and> bval b \<or> bval c \<and> bval a \<noteq> bval b) \<Longrightarrow> returns (f s d (k + 3)) P"
  shows "returns (bindE (full_add a b c ts k) (\<lambda>(s, d, k'). f s d k')) P"
proof -
  have "returns (full_add a b c ts k) (\<lambda>(s, d, k'). bit_N s = bit_N a \<and> bit_N d = bit_N a \<and>
      bval s = (bval a \<noteq> (bval b \<noteq> bval c)) \<and> bval d = (bval a \<and> bval b \<or> bval c \<and> bval a \<noteq> bval b) \<and> k' = k + 3)"
    unfolding full_add_def using assms(1-4) by (intro gate_wp) auto
  then show ?thesis by (rule returns_bind_intro) (use assms(5) in auto)
qed

subsection \<open>The circuit of a row opens to its plaintext metrics\<close>

text \<open>What the wire metrics open to: the documented masks and ratios, except for the gap metric, whose
  numerator and denominator stay the two growths.\<close>

definition wire_pairs :: "RangeConfig \<Rightarrow> UnionRow \<Rightarrow> MetricPair list" where
  "wire_pairs rc u = (map (metric_spec rc u) all_metrics)
     [metric_index Gap := \<lparr>mp_num = pg (p_MAS u), mp_den = pg (p_DOS u), mp_incl = of_bool (included rc u Gap)\<rparr>]"

definition wire_spec :: "RangeConfig \<Rightarrow> CoveragePolicy \<Rightarrow> UnionRow \<Rightarrow> EntityMetricRow" where
  "wire_spec rc policy u = (entity_spec rc policy u)
     \<lparr>e_period := ucast (ucast (u_period u) :: 32 word), e_sector := ucast (ucast (u_sector u) :: 32 word),
      e_live := of_bool (live u \<noteq> 0), e_MAS := of_bool (b_MAS u \<noteq> 0), e_DOS := of_bool (b_DOS u \<noteq> 0),
      e_MOM := of_bool (b_MOM u \<noteq> 0), e_metrics := wire_pairs rc u\<rparr>"

definition opens_metric :: "nat \<Rightarrow> SharedMetricPair \<Rightarrow> MetricPair \<Rightarrow> bool" where
  "opens_metric N s m \<longleftrightarrow> bin_ok N (sm_num s) \<and> bin_reconstruct (sm_num s) = mp_num m \<and>
     bin_ok N (sm_den s) \<and> bin_reconstruct (sm_den s) = mp_den m \<and>
     bit_N (sm_incl s) = N \<and> of_bool (bval (sm_incl s)) = mp_incl m"

lemma opens_field:
  "opens_payload N s p \<Longrightarrow> i < 6 \<Longrightarrow> bin_ok N (sp_v s ! i) \<and> bin_reconstruct (sp_v s ! i) = pv p ! i \<and>
     bit_N (sp_valid s ! i) = N \<and> bval (sp_valid s ! i) = (pvalid p ! i \<noteq> 0)"
  by (simp add: opens_payload_def)

lemma wire_metrics_returns:
  assumes s: "opens_row N s u" and ts: "bag_ok N ts" "k + 1579 \<le> length ts" and rc: "ranges_ok rc"
  shows "returns (wire_metrics s rc ts k) (\<lambda>(ms, k'). k' = k + 1579 \<and> list_all2 (opens_metric N) ms (wire_pairs rc u))"
proof -
  note f = s [unfolded opens_row_def]
  have M: "opens_payload N (sp_MAS s) (p_MAS u)" and D: "opens_payload N (sp_DOS s) (p_DOS u)"
    and O: "opens_payload N (sp_MOM s) (p_MOM u)" using f by auto
  note fields = opens_field [OF M, of 0] opens_field [OF M, of 1] opens_field [OF M, of 2] opens_field [OF M, of 3]
    opens_field [OF M, of 4] opens_field [OF M, of 5] opens_field [OF D, of 0] opens_field [OF O, of 0]
    M [unfolded opens_payload_def, THEN conjunct2] D [unfolded opens_payload_def, THEN conjunct2]
  show ?thesis
    unfolding wire_metrics_def Let_def
    using ts rc f fields
    by (intro gate_wp) (simp_all add: ranges_ok_def wire_pairs_def all_metrics_def metric_spec_def opens_metric_def)
qed

lemma wp_wire_vuln [gate_wp]:
  assumes "bag_ok N ts" "k + 4 \<le> length ts" "bit_N al = N" "bit_N a = N" "bit_N b = N" "bit_N c = N" "bit_N d = N"
    and "\<And>v. bit_N v = N \<Longrightarrow> bval v = (bval al \<and> (case policy of
        STRICT_GATING \<Rightarrow> list_all bval [a, b, c, d] | RENORMALISED_WEIGHTS \<Rightarrow> list_ex bval [a, b, c, d])) \<Longrightarrow>
      returns (f v (k + 4)) P"
  shows "returns (bindE (wire_vuln policy al a b c d ts k) (\<lambda>(v, k'). f v k')) P"
proof -
  have "returns (wire_vuln policy al a b c d ts k) (\<lambda>(v, k'). bit_N v = N \<and> bval v = (bval al \<and> (case policy of
        STRICT_GATING \<Rightarrow> list_all bval [a, b, c, d] | RENORMALISED_WEIGHTS \<Rightarrow> list_ex bval [a, b, c, d])) \<and> k' = k + 4)"
  proof (cases policy)
    case STRICT_GATING
    then show ?thesis
      using assms(1-7) makeIncl_returns [of N ts al "[a, b, c, d]" k]
      by (auto simp: wire_vuln_def elim!: returns_mono)
  next
    case RENORMALISED_WEIGHTS
    then show ?thesis
      unfolding wire_vuln_def using assms(1-7)
      by (simp, intro gate_wp) (auto intro!: sand_shared_returns [THEN returns_mono])
  qed
  then show ?thesis by (rule returns_bind_intro) (use assms(8) in auto)
qed

lemma bin_reconstruct_3:
  assumes "\<not> bval z"
  shows "bin_reconstruct \<lparr>bin_bits = [a, b, c] @ replicate 61 z\<rparr> =
    of_bool (bval a) OR push_bit 1 (of_bool (bval b)) OR push_bit 2 (of_bool (bval c))"
proof (rule bin_reconstruct_eqI)
  fix i :: nat
  assume i: "i < 64"
  show "bin_bit \<lparr>bin_bits = [a, b, c] @ replicate 61 z\<rparr> i =
      bit (of_bool (bval a) OR push_bit 1 (of_bool (bval b)) OR push_bit 2 (of_bool (bval c)) :: 64 word) i"
  proof (cases "i < 3")
    case True
    then have "i = 0 \<or> i = 1 \<or> i = 2" by auto
    then show ?thesis by (auto simp: bit_simps)
  next
    case False
    then obtain j where "i = 3 + j" by (metis le_Suc_ex not_less)
    with i assms show ?thesis by (simp add: nth_append bit_simps)
  qed
qed

lemma core_count_returns:
  assumes "bag_ok N ts" "k + 9 \<le> length ts" "bit_N a = N" "bit_N b = N" "bit_N c = N" "bit_N d = N"
  shows "returns (wire_core_count N a b c d ts k) (\<lambda>(x, k'). k' = k + 9 \<and>
    (\<exists>s0 s1 s2. x = \<lparr>bin_bits = [s0, s1, s2] @ replicate 61 (bit_zero N)\<rparr> \<and>
      bit_N s0 = N \<and> bit_N s1 = N \<and> bit_N s2 = N \<and>
      bval s0 = ((bval a \<noteq> bval b) \<noteq> (bval c \<noteq> bval d)) \<and>
      bval s1 = (length (filter bval [a, b, c, d]) \<in> {2, 3}) \<and>
      bval s2 = (length (filter bval [a, b, c, d]) = 4)))"
  unfolding wire_core_count_def using assms
  by (intro gate_wp) (simp_all, (cases "bval a"; cases "bval b"; cases "bval c"; cases "bval d"; simp)?)

lemma wp_wire_core_count [gate_wp]:
  assumes "bag_ok N ts" "k + 9 \<le> length ts" "bit_N a = N" "bit_N b = N" "bit_N c = N" "bit_N d = N"
    and "\<And>x. bin_ok N x \<Longrightarrow>
      ucast (bin_reconstruct x AND 7) = (of_nat (length (filter bval [a, b, c, d])) :: 8 word) \<Longrightarrow> returns (f x (k + 9)) P"
  shows "returns (bindE (wire_core_count N a b c d ts k) (\<lambda>(x, k'). f x k')) P"
proof -
  obtain x k' s0 s1 s2 where x: "wire_core_count N a b c d ts k = Inr (x, k')" "k' = k + 9"
      "x = \<lparr>bin_bits = [s0, s1, s2] @ replicate 61 (bit_zero N)\<rparr>"
    and s: "bit_N s0 = N" "bit_N s1 = N" "bit_N s2 = N"
    and v: "bval s0 = ((bval a \<noteq> bval b) \<noteq> (bval c \<noteq> bval d))"
      "bval s1 = (length (filter bval [a, b, c, d]) \<in> {2, 3})" "bval s2 = (length (filter bval [a, b, c, d]) = 4)"
    using core_count_returns [OF assms(1-6)] unfolding returns_def split_paired_Ex prod.case by blast
  have "bin_ok N x" using s x(3) by (auto simp: bin_ok_def nth_Cons nth_append split: nat.splits)
  moreover have "bin_reconstruct x = of_bool (bval s0) OR push_bit 1 (of_bool (bval s1)) OR push_bit 2 (of_bool (bval s2))"
    unfolding x(3) by (rule bin_reconstruct_3) simp
  then have "ucast (bin_reconstruct x AND 7) = (of_nat (length (filter bval [a, b, c, d])) :: 8 word)"
    unfolding v by (cases "bval a"; cases "bval b"; cases "bval c"; cases "bval d"; simp)
  ultimately show ?thesis using assms(7) [of x] x(1,2) by simp
qed

definition row_triples :: nat where
  "row_triples = 1592"

lemma opens_metric_nth:
  assumes "list_all2 (opens_metric N) ms (wire_pairs rc u)" "m \<noteq> METRIC_COUNT"
  shows "bit_N (sm_incl (ms ! metric_index m)) = N" "bval (sm_incl (ms ! metric_index m)) = included rc u m"
proof -
  have "opens_metric N (ms ! metric_index m) (wire_pairs rc u ! metric_index m)"
    using assms metric_index_lt [of m] by (auto simp: list_all2_conv_all_nth wire_pairs_def)
  moreover have "mp_incl (wire_pairs rc u ! metric_index m) = of_bool (included rc u m)"
    using assms(2) by (cases m) (simp_all add: wire_pairs_def all_metrics_def metric_spec_def)
  ultimately show "bit_N (sm_incl (ms ! metric_index m)) = N" "bval (sm_incl (ms ! metric_index m)) = included rc u m"
    by (simp_all add: opens_metric_def of_bool_eq_iff)
qed

lemma open_pairs:
  assumes "list_all2 (opens_metric N) ms (wire_pairs rc u)"
  shows "map (\<lambda>i. open_pair (ms ! i)) [0..<kMetricCount] = wire_pairs rc u"
proof (rule nth_equalityI)
  have len: "length ms = kMetricCount" "length (wire_pairs rc u) = kMetricCount"
    using list_all2_lengthD [OF assms] by (simp_all add: wire_pairs_def)
  then show "length (map (\<lambda>i. open_pair (ms ! i)) [0..<kMetricCount]) = length (wire_pairs rc u)" by simp
  fix i assume "i < length (map (\<lambda>i. open_pair (ms ! i)) [0..<kMetricCount])"
  then show "map (\<lambda>i. open_pair (ms ! i)) [0..<kMetricCount] ! i = wire_pairs rc u ! i"
    using list_all2_nthD [OF assms, of i] len by (simp add: open_pair_def opens_metric_def bit_reconstruct_bval)
qed

lemma computeEntityMetricsWire_returns:
  assumes s: "opens_row N s u" and ts: "bag_ok N ts" "k + row_triples \<le> length ts" and rc: "ranges_ok rc"
  shows "returns (computeEntityMetricsWire s rc policy ts k)
    (\<lambda>(e, k'). k' = k + row_triples \<and> reconstructEntityMetricRow e = wire_spec rc policy u)"
proof -
  obtain ms where ms: "wire_metrics s rc ts k = Inr (ms, k + 1579)" "list_all2 (opens_metric N) ms (wire_pairs rc u)"
    using wire_metrics_returns [OF s ts(1) _ rc, of k] ts(2) by (auto simp: returns_def row_triples_def)
  have flags: "bit_N (sb_MAS s) = N" "bval (sb_MAS s) = (b_MAS u \<noteq> 0)" "bval (sb_DOS s) = (b_DOS u \<noteq> 0)"
      "bval (sb_MOM s) = (b_MOM u \<noteq> 0)" "bit_N (su_live s) = N" "bval (su_live s) = (live u \<noteq> 0)"
      "su_bin s = u_bin u" "su_period s = ucast (u_period u)" "su_sector s = ucast (u_sector u)"
      "su_conflict s = sector_conflict u"
    using s by (simp_all add: opens_row_def)
  let ?i = "\<lambda>m. sm_incl (ms ! metric_index m)"
  let ?cores = "[?i DTI, ?i DSI, ?i Delq, ?i NPL]"
  note core = opens_metric_nth [OF ms(2), of DTI] opens_metric_nth [OF ms(2), of DSI]
    opens_metric_nth [OF ms(2), of Delq] opens_metric_nth [OF ms(2), of NPL]
  have count: "filter bval (map (\<lambda>m. sm_incl (ms ! metric_index m)) kVulnCoreMetrics) =
      map (\<lambda>m. sm_incl (ms ! metric_index m)) (filter (included rc u) kVulnCoreMetrics)"
    using core by (simp add: kVulnCoreMetrics_def filter_map)
  have len: "length (filter bval ?cores) = length (filter (included rc u) kVulnCoreMetrics)"
    using arg_cong [OF count, of length] by (simp only: kVulnCoreMetrics_def list.map length_map)
  have vuln: "(live u \<noteq> 0 \<and> (case policy of
        STRICT_GATING \<Rightarrow> list_all bval ?cores
      | RENORMALISED_WEIGHTS \<Rightarrow> list_ex bval ?cores)) = vuln_admits policy rc u"
    using core by (simp add: vuln_admits_def kVulnCoreMetrics_def split: CoveragePolicy.splits)
  show ?thesis
    unfolding computeEntityMetricsWire_def ms(1) bindE_simps prod.case Let_def flags(1)
  proof (rule wp_wire_vuln [of N])
    fix g :: SharedBit
    assume g: "bit_N g = N" "bval g = (bval (su_live s) \<and> (case policy of
        STRICT_GATING \<Rightarrow> list_all bval ?cores
      | RENORMALISED_WEIGHTS \<Rightarrow> list_ex bval ?cores))"
    have g': "bval g = vuln_admits policy rc u" unfolding g(2) flags by (rule vuln)
    let ?e = "\<lambda>x. \<lparr>se_bin = su_bin s, se_period = su_period s, se_sector = su_sector s, se_conflict = su_conflict s,
      se_live = su_live s, se_MAS = sb_MAS s, se_DOS = sb_DOS s, se_MOM = sb_MOM s, se_metrics = ms, se_vuln = g, se_avail = x\<rparr>"
    show "returns (bindE (wire_core_count N (?i DTI) (?i DSI)
        (?i Delq) (?i NPL) ts (k + 1579 + 4))
      (\<lambda>(count, k3). Inr (?e count, k3)))
      (\<lambda>(e, k'). k' = k + row_triples \<and> reconstructEntityMetricRow e = wire_spec rc policy u)"
    proof (rule wp_wire_core_count [of N])
      fix x
      assume "ucast (bin_reconstruct x AND 7) = (of_nat (length (filter bval ?cores)) :: 8 word)"
      then show "returns (Inr (?e x, k + 1579 + 4 + 9))
        (\<lambda>(e, k'). k' = k + row_triples \<and> reconstructEntityMetricRow e = wire_spec rc policy u)"
        unfolding len by (simp add: reconstructEntityMetricRow_def wire_spec_def entity_spec_def open_pairs [OF ms(2)] flags
            bit_reconstruct_bval g' row_triples_def)
    qed (use ts core in \<open>simp_all add: row_triples_def\<close>)
  qed (use ts core flags in \<open>simp_all add: row_triples_def\<close>)
qed

lemma wire_batch_returns:
  assumes "bag_ok N ts" "ranges_ok rc"
  shows "list_all2 (opens_row N) ss us \<Longrightarrow> k + row_triples * length us \<le> length ts \<Longrightarrow>
    \<exists>es. wire_batch rc policy ts ss k = Inr es \<and> map reconstructEntityMetricRow es = map (wire_spec rc policy) us"
proof (induction ss us arbitrary: k rule: list_all2_induct)
  case (Cons s ss u us)
  obtain e where e: "computeEntityMetricsWire s rc policy ts k = Inr (e, k + row_triples)"
      "reconstructEntityMetricRow e = wire_spec rc policy u"
    using computeEntityMetricsWire_returns [OF Cons.hyps(1) assms(1) _ assms(2), of k policy] Cons.prems
    by (auto simp: returns_def)
  obtain es where "wire_batch rc policy ts ss (k + row_triples) = Inr es"
      "map reconstructEntityMetricRow es = map (wire_spec rc policy) us"
    using Cons.IH [of "k + row_triples"] Cons.prems by auto
  then show ?case using e by simp
qed simp

subsection \<open>Sharing opens back\<close>

lemma wp_shareBit:
  "2 \<le> N \<Longrightarrow> v \<le> 1 \<Longrightarrow> (\<And>b g'. bit_N b = N \<Longrightarrow> bval b = (v \<noteq> 0) \<Longrightarrow> returns (f b g') P) \<Longrightarrow>
   returns (bindE (shareBit G N v g) (\<lambda>(b, g'). f b g')) P"
proof (rule returns_bind_intro [OF shareBit_returns])
  fix a :: "SharedBit \<times> 'a"
  assume v: "v \<le> 1" and f: "\<And>b g'. bit_N b = N \<Longrightarrow> bval b = (v \<noteq> 0) \<Longrightarrow> returns (f b g') P"
    and a: "case a of (b, g') \<Rightarrow> bit_N b = N \<and> bval b = bit v 0"
  have "bit v 0 = (v \<noteq> 0)" by (subst (1) byte_le_1 [OF v]) (simp add: bit_simps)
  with f a show "returns (case a of (b, g') \<Rightarrow> f b g') P" by (cases a) simp
qed

lemma wp_shareU64Bin:
  "2 \<le> N \<Longrightarrow> (\<And>x g'. bin_ok N x \<Longrightarrow> bin_reconstruct x = v \<Longrightarrow> returns (f x g') P) \<Longrightarrow>
   returns (bindE (shareU64Bin G N v g) (\<lambda>(x, g'). f x g')) P"
  by (rule returns_bind_intro [OF shareU64Bin_returns]) auto

lemma share_source_returns:
  fixes g :: 'g
  assumes "2 \<le> N" "payload_ok p"
  shows "returns (share_source G N p g) (\<lambda>(s, g'). opens_payload N s p)"
proof -
  let ?I = "\<lambda>i (vs, bs, g :: 'g). length vs = i \<and> length bs = i \<and> (\<forall>j<i. bin_ok N (vs ! j) \<and>
    bin_reconstruct (vs ! j) = pv p ! j \<and> bit_N (bs ! j) = N \<and> bval (bs ! j) = (pvalid p ! j \<noteq> 0))"
  let ?f = "\<lambda>i (vs, bs, g). bindE (vec_at (pv p) i) (\<lambda>x. bindE (shareU64Bin G N x g) (\<lambda>(v, g1).
    bindE (vec_at (pvalid p) i) (\<lambda>y. bindE (shareBit G N y g1) (\<lambda>(b, g2). Inr (vs @ [v], bs @ [b], g2)))))"
  have "returns (foldE ?f [0..<6] ([], [], g)) (?I 6)"
  proof (rule returns_foldE_upt)
    fix i and st :: "SharedU64Bin list \<times> SharedBit list \<times> 'g"
    assume i: "i < 6" and I: "?I i st"
    obtain vs bs g1 where st: "st = (vs, bs, g1)" by (cases st)
    have "i < length (pv p)" "i < length (pvalid p)" "pvalid p ! i \<le> 1"
      using assms(2) i by (auto simp: payload_ok_def)
    then show "returns (?f i st) (?I (Suc i))"
      using assms(1) I by (auto simp: st nth_append less_Suc_eq intro!: wp_shareU64Bin wp_shareBit)
  qed simp
  then show ?thesis
    unfolding share_source_def
    by (rule returns_bind_intro)
      (use assms in \<open>auto simp: opens_payload_def payload_ok_def intro!: wp_shareU64Bin wp_shareBit\<close>)
qed

lemma wp_share_source:
  "2 \<le> N \<Longrightarrow> payload_ok p \<Longrightarrow> (\<And>s g'. opens_payload N s p \<Longrightarrow> returns (f s g') P) \<Longrightarrow>
   returns (bindE (share_source G N p g) (\<lambda>(s, g'). f s g')) P"
  by (rule returns_bind_intro [OF share_source_returns]) auto

lemma shareUnionRow_returns:
  assumes "2 \<le> N" "union_ok u"
  shows "returns (shareUnionRow G N u g) (\<lambda>(s, g'). opens_row N s u)"
  unfolding shareUnionRow_def
  using assms by (intro wp_shareBit wp_share_source) (simp_all add: union_ok_def opens_row_def)

subsection \<open>Properties\<close>

definition wire_view :: "UnionRow \<Rightarrow> EntityMetricRow \<Rightarrow> EntityMetricRow" where
  "wire_view u e = e\<lparr>e_period := ucast (ucast (e_period e) :: 32 word), e_sector := ucast (ucast (e_sector e) :: 32 word),
     e_metrics := (e_metrics e)[metric_index Gap := (e_metrics e ! metric_index Gap)
       \<lparr>mp_num := pg (p_MAS u), mp_den := pg (p_DOS u)\<rparr>]\<rparr>"

lemma wire_spec_view:
  "union_ok u \<Longrightarrow> wire_spec rc policy u = wire_view u (entity_spec rc policy u)"
  using union_ok_bits(1-4) [of u, THEN byte_le_1]
  by (simp add: wire_spec_def wire_view_def entity_spec_def wire_pairs_def all_metrics_def metric_spec_def)

text \<open>C5: the secret-shared inclusion refines the plaintext one. On shared rows that open to well-formed
  plaintext rows, with a bag of the published per-row budget and range endpoints that can be moved
  by one, the batch returns, and every row opens to what the plaintext step computes, except that
  period and sector are narrowed to 32 bits and the gap metric opens to the pair of growths
  instead of their difference over one.\<close>

theorem wire_inclusion_refines:
  assumes "list_all2 (opens_row N) ss us" "list_all union_ok us" "bag_ok N ts" "ranges_ok rc"
    and "unat inclusionTripleBudgetPerRow * length us \<le> length ts"
    and "computeEntityMetrics us rc policy = Inr ps"
  shows "\<exists>es. computeEntityMetricsWireBatch ss rc policy ts = Inr es \<and>
    map reconstructEntityMetricRow es = map2 wire_view us ps"
proof -
  have "row_triples * length us \<le> unat inclusionTripleBudgetPerRow * length us"
    by (rule mult_le_mono1) (simp add: row_triples_def inclusionTripleBudgetPerRow_def secureLessThanTripleCost_def)
  from order_trans [OF this assms(5)] have "0 + row_triples * length us \<le> length ts" by (simp only: add_0)
  then obtain es where "wire_batch rc policy ts ss 0 = Inr es"
      "map reconstructEntityMetricRow es = map (wire_spec rc policy) us"
    using wire_batch_returns [OF assms(3,4,1)] by blast
  moreover have "ps = map (entity_spec rc policy) us"
    using assms(6) computeEntityMetrics_spec [OF assms(2), of rc policy] by (simp split: if_splits)
  then have "map2 wire_view us ps = map (wire_spec rc policy) us"
    using assms(2) by (auto simp: list_all_iff wire_spec_view zip_map2 intro!: nth_equalityI)
  ultimately show ?thesis by (simp add: computeEntityMetricsWireBatch_def)
qed

lemma wire_inclusion_refines_witness:
  "\<exists>s g' e. shareUnionRow counter_prng 2 example_union 7 = Inr (s, g') \<and>
    computeEntityMetricsWireBatch [s] default_ranges RENORMALISED_WEIGHTS (replicate 1693 (zero_triple 2)) = Inr [e] \<and>
    e_metrics (reconstructEntityMetricRow e) ! metric_index DTI = \<lparr>mp_num = 300, mp_den = 200, mp_incl = 1\<rparr>"
proof -
  have u: "union_ok example_union" "gap_ok example_union"
    by (simp_all add: union_ok_def gap_ok_def payload_ok_def example_union_def example_payload_def
        empty_payload_def empty_union_def)
  obtain s g' where s: "shareUnionRow counter_prng 2 example_union 7 = Inr (s, g')" "opens_row 2 s example_union"
    using shareUnionRow_returns [of 2 example_union counter_prng 7] u by (auto simp: returns_def)
  have "computeEntityMetrics [example_union] default_ranges RENORMALISED_WEIGHTS =
      Inr [entity_spec default_ranges RENORMALISED_WEIGHTS example_union]"
    using u by (simp add: computeEntityMetrics_spec)
  from wire_inclusion_refines [OF _ _ bag_ok_zero_triples [of 2 1693] _ _ this, of "[s]"] s(2) u(1)
  obtain es where es: "computeEntityMetricsWireBatch [s] default_ranges RENORMALISED_WEIGHTS (replicate 1693 (zero_triple 2)) = Inr es"
      "map reconstructEntityMetricRow es = [wire_view example_union (entity_spec default_ranges RENORMALISED_WEIGHTS example_union)]"
    by (auto simp: ranges_ok_def default_ranges_def inclusionTripleBudgetPerRow_def secureLessThanTripleCost_def)
  then obtain e where "es = [e]" "reconstructEntityMetricRow e =
      wire_view example_union (entity_spec default_ranges RENORMALISED_WEIGHTS example_union)" by auto
  with s(1) es(1) show ?thesis
    by (simp add: wire_view_def entity_spec_def metric_spec_def all_metrics_def example_union_def example_payload_def
        empty_payload_def empty_union_def within_def default_ranges_def)
qed

end
