(* ===== verification/Ratio_Bucket.thy ===== *)
theory Ratio_Bucket
  imports Inclusion
begin

text \<open>
  Ratio buckets and fixed-point reciprocals (\<open>volePSI/MpsvsRatioBucket.h\<close>,
  \<open>volePSI/MpsvsRatioBucket.cpp\<close>): the division-free bucket search over public edges, and the
  Newton iteration for a reciprocal with 40 fractional bits.

  \<open>Fp\<close> is \<open>__int128\<close>: an integer, with \<open>SignedOverflow\<close> where a product leaves 128 bits; its right
  shift is division rounding down. Edge vectors have fewer than 2^31 entries, so that the indices
  of the search do not wrap. The generators of edge tables and the convergence report compute in
  floating point and are not modelled: edge tables are parameters.
\<close>

subsection \<open>Fixed point\<close>

definition kFpFractionalBits :: nat where
  "kFpFractionalBits = 40"

definition fp_one :: int where
  "fp_one = 2 ^ kFpFractionalBits"

definition s128 :: "int \<Rightarrow> int result" where
  "s128 x = throw_if (x < - (2 ^ 127) \<or> 2 ^ 127 \<le> x) SignedOverflow (Inr x)"

definition fpFromU64 :: "64 word \<Rightarrow> int" where
  "fpFromU64 v = uint v * 2 ^ kFpFractionalBits"

definition fpToInt64 :: "int \<Rightarrow> int" where
  "fpToInt64 v = sint (word_of_int (v div 2 ^ kFpFractionalBits) :: 64 word)"

definition fpMul :: "int \<Rightarrow> int \<Rightarrow> int result" where
  "fpMul a b = bindE (s128 (a * b)) (\<lambda>m. Inr (m div 2 ^ kFpFractionalBits))"

definition fpTwo :: int where
  "fpTwo = 2 * 2 ^ kFpFractionalBits"

subsection \<open>Bucket search\<close>

record BucketEdges =
  edges_DTI :: "64 word list"
  edges_DSI :: "64 word list"
  edges_DEmp :: "64 word list"
  edges_IPW :: "64 word list"
  edges_Delq :: "64 word list"
  edges_NPL :: "64 word list"
  edges_UnsecShare :: "64 word list"
  edges_StDebtShare :: "64 word list"
  edges_Gap :: "64 word list"

definition kBucketCount :: nat where
  "kBucketCount = 128"

record BucketResult =
  bucket :: nat
  one_hot :: "8 word list"

function bucket_search :: "64 word list \<Rightarrow> 64 word \<Rightarrow> int \<Rightarrow> nat \<Rightarrow> nat \<Rightarrow> nat result" where
  "bucket_search edges den lhs lo hi =
     (if lo < hi then
        let mid = (lo + hi + 1) div 2 in
        bindE (vec_at edges mid) (\<lambda>e.
        bindE (s128 (uint e * uint den)) (\<lambda>rhs.
        if rhs \<le> lhs then bucket_search edges den lhs mid hi
        else bucket_search edges den lhs lo (mid - 1)))
      else Inr lo)"
  by pat_completeness auto
termination by (relation "measure (\<lambda>(edges, den, lhs, lo, hi). hi - lo)") auto

declare bucket_search.simps [simp del]

definition bucketIndex ::
  "64 word \<Rightarrow> 64 word \<Rightarrow> 64 word list \<Rightarrow> 8 word \<Rightarrow> 64 word \<Rightarrow> BucketResult result" where
  "bucketIndex n d edges inc ratio_scale =
     throw_if (length edges < 2) (InvalidArgument ''bucketIndex: edges must have B+1 >= 2'')
    (throw_if (ratio_scale = 0) (InvalidArgument ''bucketIndex: ratio_scale=0'')
    (let B = length edges - 1;
         r = \<lparr>bucket = 0, one_hot = replicate B 0\<rparr>
     in if inc = 0 then Inr r
        else if d = 0 then Inr r
        else bindE (s128 (uint n * uint ratio_scale)) (\<lambda>lhs.
             bindE (bucket_search edges d lhs 0 B) (\<lambda>lo.
             let b = (if lo \<ge> B then B - 1 else lo)
             in Inr \<lparr>bucket = b, one_hot = (replicate B 0)[b := 1]\<rparr>))))"

subsection \<open>Reciprocal\<close>

text \<open>\<open>while ((1ULL << p) < x) ++p\<close>: the shift by 64 is undefined.\<close>

function recip_shift :: "64 word \<Rightarrow> nat \<Rightarrow> nat result" where
  "recip_shift x p =
     (if p \<ge> 64 then Inl UndefinedShift
      else if push_bit p 1 < x then recip_shift x (Suc p) else Inr p)"
  by pat_completeness auto
termination by (relation "measure (\<lambda>(x, p). 64 - p)") auto

declare recip_shift.simps [simp del]

fun newton :: "int \<Rightarrow> nat \<Rightarrow> int \<Rightarrow> int result" where
  "newton x' 0 y = Inr y"
| "newton x' (Suc t) y =
     bindE (fpMul x' y) (\<lambda>xy.
     bindE (fpMul y (fpTwo - xy)) (newton x' t))"

definition goldschmidtRecip :: "64 word \<Rightarrow> int \<Rightarrow> int result" where
  "goldschmidtRecip x iterations =
     throw_if (x = 0) (InvalidArgument ''goldschmidtRecip: x = 0 (upstream must guard)'')
    (bindE (recip_shift x 0) (\<lambda>p.
     let x_prime_fp = (if p \<le> kFpFractionalBits then uint x * 2 ^ (kFpFractionalBits - p)
                       else uint x div 2 ^ (p - kFpFractionalBits));
         two_x_prime = 2 * x_prime_fp;
         three_fp = 3 * 2 ^ kFpFractionalBits;
         y0 = three_fp - two_x_prime
     in bindE (newton x_prime_fp (nat iterations) y0) (\<lambda>y.
        Inr (if p > 0 then y div 2 ^ p else y))))"

definition fpRatio :: "64 word \<Rightarrow> 64 word \<Rightarrow> int result" where
  "fpRatio n d =
     throw_if (d = 0) (InvalidArgument ''fpRatio: den=0 (upstream should Select(den>0,den,1))'')
    (bindE (goldschmidtRecip d 6) (\<lambda>inv. fpMul (fpFromU64 n) inv))"

subsection \<open>The search is a linear scan\<close>

text \<open>For edges in ascending order: the number of edges at most the ratio, less one, capped.\<close>

definition scan_bucket :: "64 word \<Rightarrow> 64 word \<Rightarrow> 64 word list \<Rightarrow> 64 word \<Rightarrow> nat" where
  "scan_bucket n d edges ratio_scale =
     min (length edges - 2) (length (filter (\<lambda>e. uint e * uint d \<le> uint n * uint ratio_scale) edges) - 1)"

lemma s128_in_range: "0 \<le> x \<Longrightarrow> x < 2 ^ 127 \<Longrightarrow> s128 x = Inr x"
  by (simp add: s128_def throw_if_def)

definition at_most :: "64 word list \<Rightarrow> 64 word \<Rightarrow> int \<Rightarrow> nat \<Rightarrow> bool" where
  "at_most edges d lhs i \<longleftrightarrow> uint (edges ! i) * uint d \<le> lhs"

lemma at_most_mono:
  assumes "sorted (map uint edges)" "i \<le> j" "j < length edges" "at_most edges d lhs j"
  shows "at_most edges d lhs i"
proof -
  have "uint (edges ! i) \<le> uint (edges ! j)" using sorted_nth_mono [OF assms(1,2)] assms(2,3) by simp
  then have "uint (edges ! i) * uint d \<le> uint (edges ! j) * uint d" by (rule mult_right_mono) simp
  then show ?thesis using assms(4) by (simp add: at_most_def)
qed

lemma bucket_search_spec:
  assumes "sorted (map uint edges)" "\<forall>e\<in>set edges. uint e * uint d < 2 ^ 127"
    and "lo \<le> hi" "hi < length edges" "lo = 0 \<or> at_most edges d lhs lo"
    and "\<forall>i<length edges. hi < i \<longrightarrow> \<not> at_most edges d lhs i"
  shows "\<exists>b. bucket_search edges d lhs lo hi = Inr b \<and> b < length edges \<and>
     (b = 0 \<or> at_most edges d lhs b) \<and> (\<forall>i<length edges. b < i \<longrightarrow> \<not> at_most edges d lhs i)"
  using assms
proof (induction edges d lhs lo hi rule: bucket_search.induct)
  case (1 edges d lhs lo hi)
  show ?case
  proof (cases "lo < hi")
    case True
    define mid where "mid = (lo + hi + 1) div 2"
    have mid: "lo < mid" "mid \<le> hi" "mid < length edges" using True "1.prems"(4) by (auto simp: mid_def)
    let ?e = "edges ! mid"
    have s: "s128 (uint ?e * uint d) = Inr (uint ?e * uint d)"
      using "1.prems"(2) mid by (intro s128_in_range) simp_all
    note IH = "1.IH" [OF True mid_def]
    have step: "bucket_search edges d lhs lo hi =
        (if at_most edges d lhs mid then bucket_search edges d lhs mid hi else bucket_search edges d lhs lo (mid - 1))"
      by (subst bucket_search.simps, unfold Let_def, fold mid_def) (simp add: True mid s at_most_def)
    show ?thesis
    proof (cases "at_most edges d lhs mid")
      case at: True
      then have "\<exists>b. bucket_search edges d lhs mid hi = Inr b \<and> b < length edges \<and>
          (b = 0 \<or> at_most edges d lhs b) \<and> (\<forall>i<length edges. b < i \<longrightarrow> \<not> at_most edges d lhs i)"
        using IH(1) [of lhs] "1.prems" mid at by simp
      then show ?thesis using at by (simp add: step)
    next
      case at: False
      have "\<forall>i<length edges. mid - 1 < i \<longrightarrow> \<not> at_most edges d lhs i"
      proof (intro allI impI)
        fix i assume i: "i < length edges" "mid - 1 < i"
        have "mid \<le> i" using i(2) by arith
        with at at_most_mono [OF "1.prems"(1) this i(1), of d lhs] show "\<not> at_most edges d lhs i" by blast
      qed
      then have "\<exists>b. bucket_search edges d lhs lo (mid - 1) = Inr b \<and> b < length edges \<and>
          (b = 0 \<or> at_most edges d lhs b) \<and> (\<forall>i<length edges. b < i \<longrightarrow> \<not> at_most edges d lhs i)"
        using IH(2) [of "lhs + 1"] "1.prems" mid at by simp
      then show ?thesis using at by (simp add: step)
    qed
  next
    case False
    then show ?thesis using "1.prems" by (subst bucket_search.simps) auto
  qed
qed

lemma count_prefix:
  assumes "\<And>i j. i \<le> j \<Longrightarrow> j < length xs \<Longrightarrow> P (xs ! j) \<Longrightarrow> P (xs ! i)"
    and "\<forall>i<length xs. b < i \<longrightarrow> \<not> P (xs ! i)" "b < length xs" "b = 0 \<or> P (xs ! b)"
  shows "length (filter P xs) - 1 = b"
proof -
  have "{i. i < length xs \<and> P (xs ! i)} = (if P (xs ! b) then {..b} else {})"
  proof (cases "P (xs ! b)")
    case True
    have "i \<le> b" if "i < length xs" "P (xs ! i)" for i using assms(2) that by (meson not_le)
    moreover have "P (xs ! i)" if "i \<le> b" for i using assms(1) [OF that assms(3) True] .
    ultimately show ?thesis using True assms(3) by auto
  next
    case False
    then have "b = 0" using assms(4) by simp
    have "\<not> P (xs ! i)" if "i < length xs" for i using assms(2) that False \<open>b = 0\<close> by (cases "i = 0") auto
    then show ?thesis using False by auto
  qed
  moreover have "P (xs ! b) \<or> b = 0" using assms(4) by auto
  ultimately show ?thesis by (auto simp: length_filter_conv_card)
qed

lemma bucketIndex_spec:
  assumes "2 \<le> length edges" "sorted (map uint edges)" "ratio_scale \<noteq> 0" "inc \<noteq> 0" "d \<noteq> 0"
    and "uint n * uint ratio_scale < 2 ^ 127" "\<forall>e\<in>set edges. uint e * uint d < 2 ^ 127"
  shows "bucketIndex n d edges inc ratio_scale = Inr \<lparr>bucket = scan_bucket n d edges ratio_scale,
    one_hot = (replicate (length edges - 1) 0)[scan_bucket n d edges ratio_scale := 1]\<rparr>"
proof -
  let ?lhs = "uint n * uint ratio_scale" and ?B = "length edges - 1"
  have "0 \<le> ?lhs" by simp
  then have lhs: "s128 ?lhs = Inr ?lhs" using assms(6) by (rule s128_in_range)
  obtain b where b: "bucket_search edges d ?lhs 0 ?B = Inr b" "b < length edges"
      "b = 0 \<or> at_most edges d ?lhs b" "\<forall>i<length edges. b < i \<longrightarrow> \<not> at_most edges d ?lhs i"
  proof -
    have "?B < length edges" "\<forall>i<length edges. ?B < i \<longrightarrow> \<not> at_most edges d ?lhs i" using assms(1) by auto
    from bucket_search_spec [OF assms(2,7) le0 this(1) disjI1 [OF refl] this(2)] show ?thesis using that by blast
  qed
  have "length (filter (\<lambda>e. uint e * uint d \<le> ?lhs) edges) - 1 = b"
    using at_most_mono [OF assms(2), of _ _ d ?lhs] b(2-4)
    by (intro count_prefix) (auto simp: at_most_def)
  then have "scan_bucket n d edges ratio_scale = (if b \<ge> ?B then ?B - 1 else b)"
    using assms(1) b(2) by (auto simp: scan_bucket_def)
  then show ?thesis using assms(1,3-5) b(1) lhs by (simp add: bucketIndex_def Let_def)
qed

subsection \<open>Accuracy of the reciprocal\<close>

lemma recip_shift_spec:
  "p \<le> q \<Longrightarrow> q < 64 \<Longrightarrow> uint x \<le> 2 ^ q \<Longrightarrow> (p = 0 \<or> 2 ^ (p - 1) < uint x) \<Longrightarrow>
   \<exists>r. recip_shift x p = Inr r \<and> p \<le> r \<and> r \<le> q \<and> uint x \<le> 2 ^ r \<and> (r = 0 \<or> 2 ^ (r - 1) < uint x)"
proof (induction x p rule: recip_shift.induct)
  case (1 x p)
  have "uint (2 ^ p :: 64 word) = 2 ^ p" using "1.prems"(1,2) by (intro uint_2p) (simp add: word_gt_0)
  then have p: "push_bit p 1 < x \<longleftrightarrow> 2 ^ p < uint x" by (simp add: word_less_def push_bit_eq_mult)
  show ?case
  proof (cases "2 ^ p < uint x")
    case True
    then have "p \<noteq> q" using "1.prems"(3) by auto
    then show ?thesis
      using "1.IH" "1.prems" True p by (subst recip_shift.simps) auto
  next
    case False
    then show ?thesis using "1.prems" p by (subst recip_shift.simps) auto
  qed
qed

text \<open>One step of the iteration: the error \<open>F^2 - X Y\<close> is squared up to two rounding terms.\<close>

lemma newton_error:
  fixes X Y F :: int
  defines "q \<equiv> X * Y div F" and "r \<equiv> X * Y mod F"
  defines "Y' \<equiv> Y * (2 * F - q) div F" and "s \<equiv> Y * (2 * F - q) mod F"
  shows "F * F * (F * F - X * Y') = (F * F - X * Y) * (F * F - X * Y) - X * Y * r + X * F * s"
proof -
  have q: "q * F = X * Y - r" by (simp add: q_def r_def minus_mod_eq_div_mult)
  have Y: "Y' * F = Y * (2 * F - q) - s" by (simp add: Y'_def s_def minus_mod_eq_div_mult)
  have "F * F * (X * Y') = X * F * (Y' * F)" by (simp add: ac_simps)
  also have "\<dots> = X * Y * (2 * F * F - q * F) - X * F * s" unfolding Y by (simp add: algebra_simps)
  also have "\<dots> = X * Y * (2 * F * F - (X * Y - r)) - X * F * s" unfolding q ..
  finally show ?thesis by (simp add: algebra_simps)
qed

lemma newton_error_bounds:
  fixes X Y F :: int
  assumes F: "0 < F" "0 \<le> X" "X \<le> F" "0 \<le> Y" and e: "\<bar>F * F - X * Y\<bar> \<le> m" and m: "m \<le> F * F" "m * m \<le> F * F * c"
    and P: "X * Y \<le> F * F + F * k" "0 \<le> k"
  shows "\<bar>F * F - X * (Y * (2 * F - X * Y div F) div F)\<bar> \<le> c + F + k"
proof -
  let ?r = "X * Y mod F" and ?s = "Y * (2 * F - X * Y div F) mod F"
  let ?E = "F * F - X * Y" and ?E' = "F * F - X * (Y * (2 * F - X * Y div F) div F)"
  have eq: "F * F * ?E' = ?E * ?E - X * Y * ?r + X * F * ?s" by (rule newton_error)
  have r: "0 \<le> ?r" "?r \<le> F" and s: "0 \<le> ?s" "?s \<le> F" using F(1) by (simp_all add: order.strict_implies_order)
  have m0: "0 \<le> m" using e by simp
  have EE: "?E * ?E \<le> F * F * c" "0 \<le> ?E * ?E"
    using mult_mono [OF e e m0] m(2) by (auto simp: abs_mult_self_eq)
  have Pr: "0 \<le> X * Y * ?r" "X * Y * ?r \<le> (F * F + F * k) * F"
    using F r P by (auto intro!: mult_mono)
  have Xs: "0 \<le> X * F * ?s" "X * F * ?s \<le> F * F * F" using F s by (auto intro!: mult_mono)
  have "0 \<le> F * F * c" using EE by linarith
  have FF: "0 < F * F" using F by simp
  have "F * F * ?E' \<le> F * F * (c + F + k)"
    using eq EE Pr Xs mult_nonneg_nonneg [of "F * F" k] P(2) FF by (simp add: algebra_simps)
  then have up: "?E' \<le> c + F + k" using FF by (simp only: mult_le_cancel_left_pos)
  have "F * F * (- (c + F + k)) \<le> F * F * ?E'"
    using eq EE Pr Xs \<open>0 \<le> F * F * c\<close> by (simp add: algebra_simps)
  then have "- (c + F + k) \<le> ?E'" using FF by (simp only: mult_le_cancel_left_pos)
  with up show ?thesis by linarith
qed

lemma fpMul_nonneg: "0 \<le> a * b \<Longrightarrow> a * b < 2 ^ 127 \<Longrightarrow> fpMul a b = Inr (a * b div 2 ^ 40)"
  by (simp add: fpMul_def s128_in_range kFpFractionalBits_def)

lemma newton_ranges:
  fixes X Y :: int
  assumes X: "2 ^ 39 \<le> X" "X \<le> 2 ^ 40" and Y: "0 \<le> Y" "\<bar>2 ^ 80 - X * Y\<bar> \<le> 2 ^ 77"
  defines "q \<equiv> X * Y div 2 ^ 40"
  shows "0 \<le> X * Y" "X * Y < 2 ^ 127" "0 \<le> q" "q \<le> 2 * 2 ^ 40" "0 \<le> Y * (2 * 2 ^ 40 - q)" "Y * (2 * 2 ^ 40 - q) < 2 ^ 127"
proof -
  have "0 \<le> X" using X by simp
  then show P: "0 \<le> X * Y" using Y(1) by (rule mult_nonneg_nonneg)
  have P': "X * Y \<le> 2 ^ 80 + 2 ^ 77" using Y(2) by linarith
  then show "X * Y < 2 ^ 127" by simp
  have "2 ^ 39 * Y \<le> X * Y" using X(1) Y(1) by (rule mult_right_mono)
  then have Yb: "Y \<le> 2 ^ 42" using P' by simp
  have "q \<le> (2 ^ 80 + 2 ^ 77) div 2 ^ 40" unfolding q_def using P' by (rule zdiv_mono1) simp
  then show q: "0 \<le> q" "q \<le> 2 * 2 ^ 40" using P by (simp_all add: q_def pos_imp_zdiv_nonneg_iff)
  show "0 \<le> Y * (2 * 2 ^ 40 - q)" using Y(1) q by simp
  have "Y * (2 * 2 ^ 40 - q) \<le> 2 ^ 42 * (2 * 2 ^ 40)" using Yb Y q by (intro mult_mono) simp_all
  then show "Y * (2 * 2 ^ 40 - q) < 2 ^ 127" by simp
qed

lemma newton_step:
  fixes X Y :: int
  assumes X: "2 ^ 39 \<le> X" "X \<le> 2 ^ 40" and Y: "0 \<le> Y" "\<bar>2 ^ 80 - X * Y\<bar> \<le> m"
    and m: "m \<le> 2 ^ 77" "m * m \<le> 2 ^ 80 * c" "m \<le> 2 ^ 40 * k" "0 \<le> k" "c + 2 ^ 40 + k \<le> m'"
  defines "Y' \<equiv> Y * (2 * 2 ^ 40 - X * Y div 2 ^ 40) div 2 ^ 40"
  shows "newton X (Suc t) Y = newton X t Y' \<and> 0 \<le> Y' \<and> \<bar>2 ^ 80 - X * Y'\<bar> \<le> m'"
proof -
  let ?F = "2 ^ 40 :: int"
  let ?q = "X * Y div ?F"
  have "\<bar>2 ^ 80 - X * Y\<bar> \<le> 2 ^ 77" using Y(2) m(1) by linarith
  note r = newton_ranges [OF X Y(1) this]
  have "fpMul X Y = Inr ?q" using r(1,2) by (rule fpMul_nonneg)
  moreover have "fpMul Y (fpTwo - ?q) = Inr Y'"
    using fpMul_nonneg [OF r(5,6)] by (simp add: fpTwo_def kFpFractionalBits_def Y'_def)
  ultimately have "newton X (Suc t) Y = newton X t Y'" by simp
  moreover have "0 \<le> Y'" using r(5) by (simp add: pos_imp_zdiv_nonneg_iff Y'_def)
  moreover have "\<bar>2 ^ 80 - X * Y'\<bar> \<le> c + ?F + k"
    using newton_error_bounds [of ?F X Y m c k] X Y m by (simp add: Y'_def)
  ultimately show ?thesis using m(5) by linarith
qed

text \<open>After six steps the error is at the rounding level and stays there.\<close>

lemma newton_stays:
  assumes X: "2 ^ 39 \<le> X" "X \<le> 2 ^ 40"
  shows "0 \<le> Y \<Longrightarrow> \<bar>2 ^ 80 - X * Y\<bar> \<le> 2 ^ 40 + 4 \<Longrightarrow>
    \<exists>Y'. newton X t Y = Inr Y' \<and> 0 \<le> Y' \<and> \<bar>2 ^ 80 - X * Y'\<bar> \<le> 2 ^ 40 + 4"
proof (induction t arbitrary: Y)
  case (Suc t)
  obtain Y' where "newton X (Suc t) Y = newton X t Y'" "0 \<le> Y'" "\<bar>2 ^ 80 - X * Y'\<bar> \<le> 2 ^ 40 + 4"
    using newton_step [OF X Suc.prems, of 2 2 "2 ^ 40 + 4" t] by (auto simp del: newton.simps)
  with Suc.IH show ?case by simp
qed simp

lemma newton_converges:
  assumes X: "2 ^ 39 \<le> X" "X \<le> 2 ^ 40" and Y: "0 \<le> Y" "\<bar>2 ^ 80 - X * Y\<bar> \<le> 2 ^ 77"
  shows "\<exists>Y'. newton X (Suc (Suc (Suc (Suc (Suc (Suc t)))))) Y = Inr Y' \<and> 0 \<le> Y' \<and> \<bar>2 ^ 80 - X * Y'\<bar> \<le> 2 ^ 40 + 4"
proof -
  note step = newton_step [OF X]
  obtain Y1 where 1: "newton X (Suc (Suc (Suc (Suc (Suc (Suc t)))))) Y = newton X (Suc (Suc (Suc (Suc (Suc t))))) Y1" "0 \<le> Y1" "\<bar>2 ^ 80 - X * Y1\<bar> \<le> 2 ^ 75"
    using step [OF Y, of "2 ^ 74" "2 ^ 37" "2 ^ 75" "Suc (Suc (Suc (Suc (Suc t))))"] by (auto simp del: newton.simps)
  obtain Y2 where 2: "newton X (Suc (Suc (Suc (Suc (Suc t))))) Y1 = newton X (Suc (Suc (Suc (Suc t)))) Y2" "0 \<le> Y2" "\<bar>2 ^ 80 - X * Y2\<bar> \<le> 2 ^ 71"
    using step [OF 1(2,3), of "2 ^ 70" "2 ^ 35" "2 ^ 71" "Suc (Suc (Suc (Suc t)))"] by (auto simp del: newton.simps)
  obtain Y3 where 3: "newton X (Suc (Suc (Suc (Suc t)))) Y2 = newton X (Suc (Suc (Suc t))) Y3" "0 \<le> Y3" "\<bar>2 ^ 80 - X * Y3\<bar> \<le> 2 ^ 63"
    using step [OF 2(2,3), of "2 ^ 62" "2 ^ 31" "2 ^ 63" "Suc (Suc (Suc t))"] by (auto simp del: newton.simps)
  obtain Y4 where 4: "newton X (Suc (Suc (Suc t))) Y3 = newton X (Suc (Suc t)) Y4" "0 \<le> Y4" "\<bar>2 ^ 80 - X * Y4\<bar> \<le> 2 ^ 47"
    using step [OF 3(2,3), of "2 ^ 46" "2 ^ 23" "2 ^ 47" "Suc (Suc t)"] by (auto simp del: newton.simps)
  obtain Y5 where 5: "newton X (Suc (Suc t)) Y4 = newton X (Suc t) Y5" "0 \<le> Y5" "\<bar>2 ^ 80 - X * Y5\<bar> \<le> 2 ^ 40 + 2 ^ 15"
    using step [OF 4(2,3), of "2 ^ 14" "2 ^ 7" "2 ^ 40 + 2 ^ 15" "Suc t"] by (auto simp del: newton.simps)
  obtain Y6 where 6: "newton X (Suc t) Y5 = newton X t Y6" "0 \<le> Y6" "\<bar>2 ^ 80 - X * Y6\<bar> \<le> 2 ^ 40 + 4"
    using step [OF 5(2,3), of "2" "2" "2 ^ 40 + 4" "t"] by (auto simp del: newton.simps)
  show ?thesis using newton_stays [OF X 6(2,3), of t] unfolding 1 2 3 4 5 6 .
qed

lemma scaled_bounds:
  fixes z x :: int
  shows "- (2 ^ 40) - 4 \<le> 2 ^ 40 * z \<Longrightarrow> - 1 \<le> z"
    and "2 ^ 40 * z \<le> 2 ^ 40 + 4 + (x * 2 ^ 40 - 2 ^ 39) \<Longrightarrow> z \<le> x"
  by simp_all

lemma range_reduction:
  assumes x: "x \<noteq> 0" "uint x \<le> 2 ^ 40"
  obtains p where "recip_shift x 0 = Inr p" "p \<le> 40" "2 ^ 39 \<le> uint x * 2 ^ (40 - p)" "uint x * 2 ^ (40 - p) \<le> 2 ^ 40"
    "\<bar>2 ^ 80 - uint x * 2 ^ (40 - p) * (3 * 2 ^ 40 - 2 * (uint x * 2 ^ (40 - p)))\<bar> \<le> 2 ^ 77"
proof -
  obtain p where p: "recip_shift x 0 = Inr p" "p \<le> 40" "uint x \<le> 2 ^ p" "p = 0 \<or> 2 ^ (p - 1) < uint x"
    using recip_shift_spec [of 0 40 x] x by auto
  have x0: "0 < uint x" using x by (simp add: word_neq_0_conv flip: word_less_iff_unsigned) (simp add: word_less_def)
  define X where "X = uint x * 2 ^ (40 - p)"
  have pw: "(2 :: int) ^ p * 2 ^ (40 - p) = 2 ^ 40" using p(2) by (simp flip: power_add)
  have "X \<le> 2 ^ p * 2 ^ (40 - p)" unfolding X_def using p(3) by (rule mult_right_mono) simp
  then have X2: "X \<le> 2 ^ 40" by (simp only: pw)
  have X1: "2 ^ 39 \<le> X"
  proof (cases "p = 0")
    case True
    have "1 * 2 ^ 40 \<le> uint x * (2 :: int) ^ 40" using x0 by (intro mult_right_mono) simp_all
    then show ?thesis by (simp add: X_def True)
  next
    case False
    then have "2 ^ (p - 1) \<le> uint x" using p(4) by simp
    then have "2 ^ (p - 1) * 2 ^ (40 - p) \<le> X" unfolding X_def by (rule mult_right_mono) simp
    moreover have "(2 :: int) ^ (p - 1) * 2 ^ (40 - p) = 2 ^ 39" using False p(2) by (simp flip: power_add)
    ultimately show ?thesis by simp
  qed
  let ?y0 = "3 * 2 ^ 40 - 2 * X"
  have "8 * (2 ^ 80 - X * ?y0) = (4 * X - 3 * 2 ^ 40) * (4 * X - 3 * 2 ^ 40) - 2 ^ 80" by (simp add: algebra_simps)
  moreover have "0 \<le> (4 * X - 3 * 2 ^ 40) * (4 * X - 3 * 2 ^ 40)" by simp
  moreover have "(2 ^ 40 - X) * (2 * X - 2 ^ 40) \<ge> 0" using X1 X2 by (intro mult_nonneg_nonneg) simp_all
  ultimately have e0: "\<bar>2 ^ 80 - X * ?y0\<bar> \<le> 2 ^ 77" by (simp add: algebra_simps)
  then show ?thesis using that [OF p(1,2)] X1 X2 unfolding X_def by blast
qed

lemma goldschmidtRecip_spec:
  assumes x: "x \<noteq> 0" "uint x \<le> 2 ^ 40" and it: "6 \<le> iterations"
  shows "\<exists>y. goldschmidtRecip x iterations = Inr y \<and> 0 \<le> y \<and> - 1 \<le> 2 ^ 40 - uint x * y \<and> 2 ^ 40 - uint x * y \<le> uint x"
proof -
  obtain p where p: "recip_shift x 0 = Inr p" "p \<le> 40" and XB: "2 ^ 39 \<le> uint x * 2 ^ (40 - p)" "uint x * 2 ^ (40 - p) \<le> 2 ^ 40"
      "\<bar>2 ^ 80 - uint x * 2 ^ (40 - p) * (3 * 2 ^ 40 - 2 * (uint x * 2 ^ (40 - p)))\<bar> \<le> 2 ^ 77"
    using range_reduction [OF x] .
  define X where "X = uint x * 2 ^ (40 - p)"
  have pw: "(2 :: int) ^ p * 2 ^ (40 - p) = 2 ^ 40" using p(2) by (simp flip: power_add)
  let ?y0 = "3 * 2 ^ 40 - 2 * X"
  have X1: "2 ^ 39 \<le> X" and X2: "X \<le> 2 ^ 40" and e0: "\<bar>2 ^ 80 - X * ?y0\<bar> \<le> 2 ^ 77" using XB unfolding X_def .
  obtain n where n: "nat iterations = Suc (Suc (Suc (Suc (Suc (Suc n)))))"
  proof
    show "nat iterations = Suc (Suc (Suc (Suc (Suc (Suc (nat iterations - 6))))))" using it by simp
  qed
  obtain Y where Y: "newton X (nat iterations) ?y0 = Inr Y" "0 \<le> Y" "\<bar>2 ^ 80 - X * Y\<bar> \<le> 2 ^ 40 + 4"
    using newton_converges [OF X1 X2 _ e0, of n] X2 unfolding n by auto
  define y where "y = Y div 2 ^ p"
  define t where "t = Y mod 2 ^ p"
  have Yd: "Y = y * 2 ^ p + t" by (simp only: y_def t_def div_mult_mod_eq)
  have t: "0 \<le> t" "t \<le> 2 ^ p - 1" by (simp_all add: t_def)
  have "X * Y = uint x * y * (2 ^ p * 2 ^ (40 - p)) + X * t" by (simp add: Yd X_def algebra_simps)
  then have E: "2 ^ 40 * (2 ^ 40 - uint x * y) = (2 ^ 80 - X * Y) + X * t" unfolding pw by (simp add: algebra_simps)
  have "X * t \<le> X * (2 ^ p - 1)" using t X1 by (intro mult_left_mono) simp_all
  also have "\<dots> = uint x * (2 ^ p * 2 ^ (40 - p)) - X" by (simp add: X_def algebra_simps)
  finally have Xt: "X * t \<le> uint x * 2 ^ 40 - 2 ^ 39" using X1 unfolding pw by linarith
  have "0 \<le> X * t" using t X1 by simp
  with E Y(3) have "- (2 ^ 40) - 4 \<le> 2 ^ 40 * (2 ^ 40 - uint x * y)" by linarith
  then have lo: "- 1 \<le> 2 ^ 40 - uint x * y" by (rule scaled_bounds(1))
  have "2 ^ 40 * (2 ^ 40 - uint x * y) \<le> 2 ^ 40 + 4 + (uint x * 2 ^ 40 - 2 ^ 39)" using E Y(3) Xt by linarith
  then have hi: "2 ^ 40 - uint x * y \<le> uint x" by (rule scaled_bounds(2))
  have "goldschmidtRecip x iterations = Inr y"
    using x p(1,2) Y(1) by (simp add: goldschmidtRecip_def kFpFractionalBits_def Let_def flip: X_def) (simp add: y_def)
  moreover have "0 \<le> y" using Y(2) by (simp add: y_def pos_imp_zdiv_nonneg_iff)
  ultimately show ?thesis using lo hi by blast
qed

lemma fpRatio_spec:
  assumes d: "d \<noteq> 0" "uint d \<le> 2 ^ 40" and n: "uint n \<le> 2 ^ 46 * uint d"
  shows "\<exists>r. fpRatio n d = Inr r \<and> - uint n \<le> uint n * 2 ^ 40 - uint d * r \<and> uint n * 2 ^ 40 - uint d * r \<le> uint n * uint d"
proof -
  obtain y where y: "goldschmidtRecip d 6 = Inr y" "0 \<le> y" "- 1 \<le> 2 ^ 40 - uint d * y" "2 ^ 40 - uint d * y \<le> uint d"
    using goldschmidtRecip_spec [OF d, of 6] by auto
  have "uint n * y \<le> 2 ^ 46 * uint d * y" using n y(2) by (rule mult_right_mono)
  also have "\<dots> = 2 ^ 46 * (uint d * y)" by (rule mult.assoc)
  also have "\<dots> \<le> 2 ^ 46 * (2 ^ 40 + 1)" by (rule mult_left_mono) (use y(3) in linarith, simp)
  finally have "uint n * y \<le> 2 ^ 46 * (2 ^ 40 + 1)" .
  moreover have "0 \<le> uint n * y" using y(2) by simp
  moreover have F: "fpFromU64 n * y = uint n * y * 2 ^ 40" by (simp add: fpFromU64_def kFpFractionalBits_def)
  moreover have "0 \<le> m \<Longrightarrow> m \<le> 2 ^ 46 * (2 ^ 40 + 1) \<Longrightarrow> 0 \<le> m * 2 ^ 40 \<and> m * 2 ^ 40 < 2 ^ 127" for m :: int by simp
  ultimately have "0 \<le> fpFromU64 n * y" "fpFromU64 n * y < 2 ^ 127" unfolding F by blast+
  then have "fpMul (fpFromU64 n) y = Inr (fpFromU64 n * y div 2 ^ 40)" by (rule fpMul_nonneg)
  also have "fpFromU64 n * y div 2 ^ 40 = uint n * y" unfolding F by simp
  finally have "fpRatio n d = Inr (uint n * y)" using d y(1) by (simp add: fpRatio_def)
  moreover have "uint n * (- 1) \<le> uint n * (2 ^ 40 - uint d * y)" using y(3) by (rule mult_left_mono) simp
  moreover have "uint n * (2 ^ 40 - uint d * y) \<le> uint n * uint d" using y(4) by (rule mult_left_mono) simp
  ultimately show ?thesis by (simp add: algebra_simps)
qed

subsection \<open>Where the fixed-point arithmetic is undefined\<close>

text \<open>For an argument above \<open>2 ^ 63\<close> no shift is large enough before the shift count reaches 64.\<close>

lemma recip_large_undefined: "2 ^ 63 < uint x \<Longrightarrow> goldschmidtRecip x iterations = Inl UndefinedShift"
proof -
  assume x: "2 ^ 63 < uint x"
  have "recip_shift x p = Inl UndefinedShift" for p
    using x
  proof (induction x p rule: recip_shift.induct)
    case (1 x p)
    show ?case
    proof (cases "p < 64")
      case True
      have "uint (2 ^ p :: 64 word) = 2 ^ p" using True by (intro uint_2p) (simp add: word_gt_0)
      moreover have "(2 :: int) ^ p \<le> 2 ^ 63" using True by (intro power_increasing) simp_all
      ultimately have "push_bit p 1 < x" using "1.prems" by (simp add: word_less_def push_bit_eq_mult)
      then show ?thesis using "1.IH" "1.prems" True by (subst recip_shift.simps) simp
    qed (simp add: recip_shift.simps)
  qed
  moreover have "x \<noteq> 0" using x by auto
  ultimately show ?thesis by (simp add: goldschmidtRecip_def)
qed

lemma fpRatio_overflow: "fpRatio (2 ^ 47) 1 = Inl SignedOverflow"
  by code_simp

text \<open>A gap of minus one, reinterpreted as unsigned, falls into the last bucket.\<close>

lemma negative_gap_last_bucket:
  "bucketIndex (- 1) 1 [0, 5000, 10000, 20000] 1 10000 = Inr \<lparr>bucket = 2, one_hot = [0, 0, 1]\<rparr>"
  by code_simp

subsection \<open>Properties\<close>

text \<open>For an included row with a nonzero denominator and edges in ascending order, as long as no
  product of the search leaves 128 bits, the binary search returns, without dividing, the bucket
  a linear scan finds: the last one whose lower edge is at most \<open>ratio_scale * num / den\<close>, the first
  if there is none and the last for values past the end; the one-hot vector marks exactly it.\<close>

theorem bucketIndex_scans:
  assumes "2 \<le> length edges" "sorted (map uint edges)" "ratio_scale \<noteq> 0" "inc \<noteq> 0" "d \<noteq> 0"
    and "uint n * uint ratio_scale < 2 ^ 127" "\<forall>e\<in>set edges. uint e * uint d < 2 ^ 127"
  shows "bucketIndex n d edges inc ratio_scale = Inr \<lparr>bucket = scan_bucket n d edges ratio_scale,
    one_hot = map (\<lambda>i. if i = scan_bucket n d edges ratio_scale then 1 else 0) [0..<length edges - 1]\<rparr>"
  unfolding bucketIndex_spec [OF assms]
  by (auto intro!: nth_equalityI simp: nth_list_update)

lemma bucketIndex_scans_witness:
  "bucketIndex 7 2 [0, 10000, 20000, 30000, 40000] 1 10000 = Inr \<lparr>bucket = 3, one_hot = [0, 0, 0, 1]\<rparr>"
proof -
  have "scan_bucket 7 2 [0, 10000, 20000, 30000, 40000] 10000 = 3" by (simp add: scan_bucket_def)
  then show ?thesis
    using bucketIndex_scans [of "[0, 10000, 20000, 30000, 40000]" 10000 1 2 7] by (simp add: upt_rec)
qed

text \<open>With 40 fractional bits, a denominator of at most \<open>2 ^ 40\<close> and a ratio of at most \<open>2 ^ 46\<close>, the
  ratio computed through six Newton steps returns without overflow and is exact up to one unit in
  the last place of the reciprocal: scaled by the denominator it is at most \<open>num\<close> above and at most
  \<open>num * den\<close> units below the true value.\<close>

theorem fpRatio_accurate:
  assumes "d \<noteq> 0" "uint d \<le> 2 ^ 40" "uint n \<le> 2 ^ 46 * uint d"
  shows "\<exists>r. fpRatio n d = Inr r \<and>
    uint n * (2 ^ 40 - uint d) \<le> uint d * r \<and> uint d * r \<le> uint n * (2 ^ 40 + 1)"
  using fpRatio_spec [OF assms] by (auto simp: algebra_simps)

lemma fpRatio_accurate_witness:
  "\<exists>r. fpRatio 300 200 = Inr r \<and> 300 * (2 ^ 40 - 200) \<le> 200 * r \<and> 200 * r \<le> 300 * (2 ^ 40 + 1)"
  using fpRatio_accurate [of 200 300] by simp

end
