(* ===== verification/Rank.thy ===== *)
theory Rank
  imports Ratio_Bucket
begin

text \<open>
  Ranks through slim tables (\<open>volePSI/MpsvsRank.h\<close>, \<open>volePSI/MpsvsRank.cpp\<close>): one metric's slim
  table, its sort by population key, inclusion and bucket, the ranks inside every population, the
  histogram, and the scores.

  A null \<open>popkey_selector\<close> is \<open>None\<close>. The configuration keeps the bucket count; the radix flag has
  no observable effect. \<open>std::stable_sort\<close> is \<open>sort_key\<close>.
\<close>

subsection \<open>Slim tables\<close>

fun edgesFor :: "BucketEdges \<Rightarrow> Metric \<Rightarrow> 64 word list result" where
  "edgesFor e DTI = Inr (edges_DTI e)"
| "edgesFor e DSI = Inr (edges_DSI e)"
| "edgesFor e DEmp = Inr (edges_DEmp e)"
| "edgesFor e IPW = Inr (edges_IPW e)"
| "edgesFor e Delq = Inr (edges_Delq e)"
| "edgesFor e NPL = Inr (edges_NPL e)"
| "edgesFor e UnsecShare = Inr (edges_UnsecShare e)"
| "edgesFor e StDebtShare = Inr (edges_StDebtShare e)"
| "edgesFor e Gap = Inr (edges_Gap e)"
| "edgesFor e METRIC_COUNT = Inl (InvalidArgument ''edgesFor: unknown Metric'')"

fun ratioScaleFor :: "Metric \<Rightarrow> 64 word" where
  "ratioScaleFor DEmp = 1"
| "ratioScaleFor IPW = 1"
| "ratioScaleFor METRIC_COUNT = 1"
| "ratioScaleFor m = 10000"

record SlimRow =
  entity_idx :: "32 word"
  popkey :: "32 word"
  s_incl :: "8 word"
  s_bucket :: nat
  rank :: "64 word"

record Histogram =
  hist_h :: "64 word list"
  hist_n_valid :: "64 word"

record RankResult =
  rr_slim :: "SlimRow list"
  rr_histogram :: Histogram

definition buildSlim ::
  "EntityMetricRow list \<Rightarrow> Metric \<Rightarrow> 64 word list \<Rightarrow> 64 word \<Rightarrow> (EntityMetricRow \<Rightarrow> 32 word) option \<Rightarrow>
   SlimRow list result" where
  "buildSlim rows m edges ratio_scale popkey_selector =
     mapE (\<lambda>i. let r = rows ! i in
       bindE (vec_at (e_metrics r) (metric_index m)) (\<lambda>mp.
       bindE (bucketIndex (mp_num mp) (mp_den mp) edges (mp_incl mp) ratio_scale) (\<lambda>b.
       Inr \<lparr>entity_idx = word_of_nat i,
            popkey = (case popkey_selector of Some f \<Rightarrow> f r | None \<Rightarrow> 0),
            s_incl = mp_incl mp, s_bucket = bucket b, rank = 0\<rparr>))) [0..<length rows]"

definition slim_key :: "SlimRow \<Rightarrow> 32 word \<times> 8 word \<times> nat" where
  "slim_key s = (popkey s, 1 - s_incl s, s_bucket s)"

definition slimSort :: "SlimRow list \<Rightarrow> SlimRow list" where
  "slimSort slim = sort_key slim_key slim"

subsection \<open>Segmented scan\<close>

fun segmented_scan :: "64 word \<Rightarrow> 64 word list \<Rightarrow> 8 word list \<Rightarrow> 64 word list" where
  "segmented_scan acc (x # xs) (b # bs) =
     (let acc' = (if b \<noteq> 0 then 0 else acc) + x in acc' # segmented_scan acc' xs bs)"
| "segmented_scan acc xs bs = []"

definition segmentedInclusiveSum :: "64 word list \<Rightarrow> 8 word list \<Rightarrow> 64 word list result" where
  "segmentedInclusiveSum xs boundary =
     throw_if (length xs \<noteq> length boundary) (InvalidArgument ''segmentedInclusiveSum: size mismatch'')
       (Inr (segmented_scan 0 xs boundary))"

subsection \<open>Ranks\<close>

text \<open>The pass keeps the current population, the rank in its segment, the histogram and the rows done.\<close>

definition rank_step ::
  "nat \<Rightarrow> SlimRow \<Rightarrow> 32 word \<times> 64 word \<times> Histogram \<times> SlimRow list \<Rightarrow> 32 word \<times> 64 word \<times> Histogram \<times> SlimRow list" where
  "rank_step B r = (\<lambda>(cur, k, hist, out).
     let k1 = (if popkey r \<noteq> cur then 0 else k);
         cur1 = (if popkey r \<noteq> cur then popkey r else cur)
     in if s_incl r \<noteq> 0
        then (cur1, k1 + 1,
              hist\<lparr>hist_n_valid := hist_n_valid hist + 1,
                   hist_h := (if s_bucket r < B then (hist_h hist)[s_bucket r := hist_h hist ! s_bucket r + 1]
                              else hist_h hist)\<rparr>,
              out @ [r\<lparr>rank := k1\<rparr>])
        else (cur1, k1, hist, out @ [r\<lparr>rank := 0\<rparr>]))"

definition rankViaHistogram :: "SlimRow list \<Rightarrow> nat \<Rightarrow> RankResult" where
  "rankViaHistogram slim B =
     (let slim1 = slimSort slim;
          cur = (case slim1 of [] \<Rightarrow> 0 | r # _ \<Rightarrow> popkey r);
          (_, _, hist, out) = fold (rank_step B) slim1
             (cur, 0, \<lparr>hist_h = replicate B 0, hist_n_valid = 0\<rparr>, [])
      in \<lparr>rr_slim = out, rr_histogram = hist\<rparr>)"

subsection \<open>Scores\<close>

record EntityRankRow =
  er_entity_idx :: "32 word"
  er_popkey :: "32 word"
  er_incl :: "8 word"
  er_bucket :: nat
  er_rank :: "64 word"
  er_score_fp :: int

text \<open>The table of populations with their number of included rows, appended at the end and bumped at
  its last entry.\<close>

definition count_step :: "SlimRow \<Rightarrow> (32 word \<times> 64 word) list \<Rightarrow> (32 word \<times> 64 word) list" where
  "count_step r table =
     (let table' = (if table = [] \<or> fst (last table) \<noteq> popkey r then table @ [(popkey r, 0)] else table)
      in if s_incl r \<noteq> 0 then butlast table' @ [(fst (last table'), snd (last table') + 1)] else table')"

definition population_counts :: "SlimRow list \<Rightarrow> (32 word \<times> 64 word) list" where
  "population_counts slim = fold count_step slim []"

definition score_row :: "(32 word \<times> 64 word) list \<Rightarrow> SlimRow \<Rightarrow> EntityRankRow result" where
  "score_row table r =
     (let nv = (case List.find (\<lambda>e. fst e = popkey r) table of Some e \<Rightarrow> snd e | None \<Rightarrow> 0);
          denom = (if nv > 1 then nv - 1 else 1)
      in bindE (if s_incl r = 0 \<or> nv = 0 then Inr 0 else fpRatio (rank r) denom) (\<lambda>score.
         Inr \<lparr>er_entity_idx = entity_idx r, er_popkey = popkey r, er_incl = s_incl r,
              er_bucket = s_bucket r, er_rank = rank r, er_score_fp = score\<rparr>))"

definition computeMetricRanks ::
  "EntityMetricRow list \<Rightarrow> Metric \<Rightarrow> BucketEdges \<Rightarrow> nat \<Rightarrow> (EntityMetricRow \<Rightarrow> 32 word) option \<Rightarrow>
   EntityRankRow list result" where
  "computeMetricRanks rows m edges B popkey_selector =
     bindE (edgesFor edges m) (\<lambda>es.
     bindE (buildSlim rows m es (ratioScaleFor m) popkey_selector) (\<lambda>slim.
     let res = rankViaHistogram slim B;
         table = population_counts (rr_slim res)
     in mapE (score_row table) (rr_slim res)))"

subsection \<open>The pass over a sorted table\<close>

definition in_population :: "32 word \<Rightarrow> SlimRow \<Rightarrow> bool" where
  "in_population p r \<longleftrightarrow> popkey r = p \<and> s_incl r \<noteq> 0"

definition count_in :: "SlimRow list \<Rightarrow> 32 word \<Rightarrow> nat" where
  "count_in xs p = length (filter (in_population p) xs)"

definition ranked :: "SlimRow list \<Rightarrow> SlimRow list" where
  "ranked xs = map (\<lambda>i. (xs ! i)\<lparr>rank := (if s_incl (xs ! i) \<noteq> 0
     then word_of_nat (count_in (take i xs) (popkey (xs ! i))) else 0)\<rparr>) [0..<length xs]"

definition bucket_counts :: "nat \<Rightarrow> SlimRow list \<Rightarrow> 64 word list" where
  "bucket_counts B xs = map (\<lambda>b. word_of_nat (length (filter (\<lambda>r. s_incl r \<noteq> 0 \<and> s_bucket r = b) xs))) [0..<B]"

lemma ranked_snoc:
  "ranked (xs @ [r]) = ranked xs @ [r\<lparr>rank := (if s_incl r \<noteq> 0 then word_of_nat (count_in xs (popkey r)) else 0)\<rparr>]"
  by (auto simp: ranked_def nth_append)

lemma ranked_Nil [simp]: "ranked [] = []"
  by (simp add: ranked_def)

lemma in_population_rank [simp]: "in_population p (r\<lparr>rank := k\<rparr>) = in_population p r"
  by (simp add: in_population_def)

lemma count_in_snoc: "count_in (xs @ [r]) p = count_in xs p + (if in_population p r then 1 else 0)"
  by (simp add: count_in_def)

lemma count_in_other: "\<forall>x\<in>set xs. popkey x \<noteq> p \<Longrightarrow> count_in xs p = 0"
  by (auto simp: count_in_def in_population_def filter_empty_conv)

lemma bucket_counts_snoc:
  "bucket_counts B (xs @ [r]) = (if s_incl r \<noteq> 0 \<and> s_bucket r < B
     then (bucket_counts B xs)[s_bucket r := bucket_counts B xs ! s_bucket r + 1] else bucket_counts B xs)"
  by (auto simp: bucket_counts_def nth_list_update intro!: nth_equalityI)

text \<open>In a table sorted by population a population that differs from the last one is new.\<close>

lemma new_population:
  assumes "sorted (map popkey (xs @ [r]))" "xs \<noteq> []" "popkey r \<noteq> popkey (last xs)"
  shows "\<forall>x\<in>set xs. popkey x \<noteq> popkey r"
proof -
  obtain ys l where xs: "xs = ys @ [l]" using assms(2) by (metis rev_exhaust)
  have "popkey l \<le> popkey r" "\<forall>x\<in>set ys. popkey x \<le> popkey l"
    using assms(1) by (auto simp: xs sorted_append)
  with assms(3) show ?thesis by (auto simp: xs dest: order_antisym)
qed

lemma rank_pass:
  "sorted (map popkey xs) \<Longrightarrow>
   fold (rank_step B) xs (c0, 0, \<lparr>hist_h = replicate B 0, hist_n_valid = 0\<rparr>, []) =
     (if xs = [] then c0 else popkey (last xs),
      word_of_nat (count_in xs (if xs = [] then c0 else popkey (last xs))),
      \<lparr>hist_h = bucket_counts B xs, hist_n_valid = word_of_nat (length (filter (\<lambda>r. s_incl r \<noteq> 0) xs))\<rparr>,
      ranked xs)"
proof (induction xs rule: rev_induct)
  case Nil
  then show ?case by (auto simp: count_in_def bucket_counts_def intro!: nth_equalityI)
next
  case (snoc r xs)
  have IH: "fold (rank_step B) xs (c0, 0, \<lparr>hist_h = replicate B 0, hist_n_valid = 0\<rparr>, []) =
     (if xs = [] then c0 else popkey (last xs),
      word_of_nat (count_in xs (if xs = [] then c0 else popkey (last xs))),
      \<lparr>hist_h = bucket_counts B xs, hist_n_valid = word_of_nat (length (filter (\<lambda>r. s_incl r \<noteq> 0) xs))\<rparr>,
      ranked xs)" using snoc by (simp add: sorted_append)
  have k: "(if popkey r \<noteq> (if xs = [] then c0 else popkey (last xs)) then 0
      else word_of_nat (count_in xs (if xs = [] then c0 else popkey (last xs)))) = (word_of_nat (count_in xs (popkey r)) :: 64 word)"
    using new_population [OF snoc.prems] count_in_other [of xs "popkey r"] by (auto simp: count_in_def)
  show ?case
    unfolding fold_append comp_def IH fold.simps id_apply
    using k by (auto simp: rank_step_def Let_def ranked_snoc count_in_snoc in_population_def bucket_counts_snoc
        split: if_splits)
qed

lemma ranks_in_population:
  "map rank (filter (in_population p) (ranked xs)) = map word_of_nat [0..<count_in xs p]"
proof (induction xs rule: rev_induct)
  case (snoc r xs)
  then show ?case by (auto simp: ranked_snoc count_in_snoc in_population_def)
qed (simp add: count_in_def)

lemma ranked_erase: "map (\<lambda>r. r\<lparr>rank := 0\<rparr>) (ranked xs) = map (\<lambda>r. r\<lparr>rank := 0\<rparr>) xs"
  by (induction xs rule: rev_induct) (simp_all add: ranked_snoc)

lemma map_ranked:
  assumes "\<And>r k. f (r\<lparr>rank := k\<rparr>) = f r"
  shows "map f (ranked xs) = map f xs"
  using arg_cong [OF ranked_erase, of "map f"] by (simp add: comp_def assms)

lemma count_in_ranked: "count_in (ranked xs) p = count_in xs p"
  by (induction xs rule: rev_induct) (simp_all add: ranked_snoc count_in_snoc)

definition table_ok :: "SlimRow list \<Rightarrow> (32 word \<times> 64 word) list \<Rightarrow> bool" where
  "table_ok xs t \<longleftrightarrow> (\<forall>e\<in>set t. snd e = word_of_nat (count_in xs (fst e))) \<and> sorted_wrt (<) (map fst t) \<and>
     fst ` set t = popkey ` set xs \<and> (xs \<noteq> [] \<longrightarrow> t \<noteq> [] \<and> fst (last t) = popkey (last xs))"

lemma table_ok_new:
  assumes "table_ok xs t" "\<forall>x\<in>set xs. popkey x < popkey r"
  shows "table_ok (xs @ [r]) (t @ [(popkey r, if s_incl r \<noteq> 0 then 1 else 0)])"
proof -
  have c: "count_in xs (popkey r) = 0" using assms(2) by (intro count_in_other) auto
  have "\<forall>e\<in>set t. fst e < popkey r"
    using assms by (metis (no_types, lifting) image_iff table_ok_def)
  then have keys: "\<forall>e\<in>set t. fst e < popkey r \<and> fst e \<noteq> popkey r" by auto
  show ?thesis
    using assms keys c by (auto simp: table_ok_def sorted_wrt_append count_in_snoc in_population_def)
qed

lemma table_ok_same:
  assumes "table_ok xs (t @ [(popkey r, c)])" "xs \<noteq> []"
  shows "table_ok (xs @ [r]) (t @ [(popkey r, c + (if s_incl r \<noteq> 0 then 1 else 0))])"
proof -
  have "fst e \<noteq> popkey r" if "e \<in> set t" for e using assms(1) that by (auto simp: table_ok_def sorted_wrt_append)
  moreover have "insert (popkey r) (popkey ` set xs) = popkey ` set xs" using assms(1) by (auto simp: table_ok_def)
  ultimately show ?thesis
    using assms by (auto simp: table_ok_def sorted_wrt_append count_in_snoc in_population_def)
qed

lemma population_table:
  "sorted (map popkey xs) \<Longrightarrow> table_ok xs (population_counts xs)"
proof (induction xs rule: rev_induct)
  case Nil
  then show ?case by (simp add: population_counts_def table_ok_def)
next
  case (snoc r xs)
  let ?t = "population_counts xs"
  have IH: "table_ok xs ?t" using snoc by (simp add: sorted_append)
  have step: "population_counts (xs @ [r]) = count_step r ?t" by (simp add: population_counts_def)
  show ?case
  proof (cases "xs = [] \<or> popkey r \<noteq> popkey (last xs)")
    case True
    then have new: "\<forall>x\<in>set xs. popkey x \<noteq> popkey r"
      using new_population [OF snoc.prems] by (cases "xs = []") auto
    have le: "\<forall>x\<in>set xs. popkey x < popkey r" using snoc.prems new by (auto simp: sorted_append less_le)
    have "?t = [] \<or> fst (last ?t) \<noteq> popkey r" using True IH by (auto simp: table_ok_def)
    then have "count_step r ?t = ?t @ [(popkey r, if s_incl r \<noteq> 0 then 1 else 0)]"
      by (auto simp: count_step_def Let_def)
    then show ?thesis unfolding step using table_ok_new [OF IH le] by simp
  next
    case False
    then have "?t \<noteq> []" "fst (last ?t) = popkey r" using IH by (auto simp: table_ok_def)
    then obtain t' c where t': "?t = t' @ [(popkey r, c)]" by (metis append_butlast_last_id prod.collapse)
    have "count_step r ?t = t' @ [(popkey r, c + (if s_incl r \<noteq> 0 then 1 else 0))]"
      by (simp add: count_step_def t' Let_def)
    then show ?thesis unfolding step using table_ok_same [of xs t' r c] IH False by (simp add: t')
  qed
qed

lemma find_population:
  assumes "sorted (map popkey xs)" "r \<in> set xs"
  shows "List.find (\<lambda>e. fst e = popkey r) (population_counts xs) = Some (popkey r, word_of_nat (count_in xs (popkey r)))"
proof -
  note t = population_table [OF assms(1), unfolded table_ok_def]
  have "popkey r \<in> fst ` set (population_counts xs)" using t assms(2) by auto
  then have "List.find (\<lambda>e. fst e = popkey r) (population_counts xs) \<noteq> None" by (auto simp: find_None_iff)
  then obtain e where e: "List.find (\<lambda>e. fst e = popkey r) (population_counts xs) = Some e" by auto
  then have "e \<in> set (population_counts xs)" "fst e = popkey r" by (auto simp: find_Some_iff)
  with e t show ?thesis by (cases e) auto
qed

subsection \<open>Scores are defined\<close>

definition scored :: "nat \<Rightarrow> SlimRow \<Rightarrow> EntityRankRow" where
  "scored n r =
     \<lparr>er_entity_idx = entity_idx r, er_popkey = popkey r, er_incl = s_incl r, er_bucket = s_bucket r, er_rank = rank r,
      er_score_fp = (if s_incl r = 0 then 0 else projr (fpRatio (rank r) (word_of_nat (max 1 (n - 1)))))\<rparr>"

lemma small_word: "n \<le> 2 ^ 40 \<Longrightarrow> uint (word_of_nat n :: 64 word) = int n"
  by (simp add: uint_nat unat_of_nat take_bit_nat_eq_self)

lemma rank_ratio_returns:
  assumes "k < n" "n \<le> 2 ^ 40"
  shows "fpRatio (word_of_nat k) (word_of_nat (max 1 (n - 1))) = Inr (projr (fpRatio (word_of_nat k) (word_of_nat (max 1 (n - 1)))))"
proof -
  let ?d = "word_of_nat (max 1 (n - 1)) :: 64 word"
  have d: "uint ?d = int (max 1 (n - 1))" using assms by (intro small_word) auto
  have k: "uint (word_of_nat k :: 64 word) = int k" using assms by (intro small_word) auto
  have "?d \<noteq> 0" using d by auto
  moreover have "uint ?d \<le> 2 ^ 40" unfolding d using assms by auto
  moreover have "uint (word_of_nat k :: 64 word) \<le> 2 ^ 46 * uint ?d" unfolding d k using assms by auto
  ultimately show ?thesis using fpRatio_spec [of ?d "word_of_nat k"] by auto
qed

lemma ranked_member:
  assumes "r \<in> set (ranked xs)" "s_incl r \<noteq> 0"
  shows "\<exists>k<count_in xs (popkey r). rank r = word_of_nat k"
proof -
  have "in_population (popkey r) r" using assms(2) by (simp add: in_population_def)
  with assms(1) have "rank r \<in> set (map rank (filter (in_population (popkey r)) (ranked xs)))" by auto
  then show ?thesis unfolding ranks_in_population by auto
qed

lemma score_row_scored:
  assumes "sorted (map popkey xs)" "r \<in> set (ranked xs)" "length xs \<le> 2 ^ 40"
  shows "score_row (population_counts (ranked xs)) r = Inr (scored (count_in xs (popkey r)) r)"
proof -
  let ?n = "count_in xs (popkey r)"
  have s: "sorted (map popkey (ranked xs))" using assms(1) by (simp add: map_ranked)
  have n: "?n \<le> 2 ^ 40" unfolding count_in_def using length_filter_le assms(3) by (rule order_trans)
  then have un: "unat (word_of_nat ?n :: 64 word) = ?n" by (simp add: unat_of_nat take_bit_nat_eq_self)
  have den: "(if (word_of_nat ?n :: 64 word) > 1 then word_of_nat ?n - 1 else 1) = (word_of_nat (max 1 (?n - 1)) :: 64 word)"
    by (auto simp: word_less_nat_alt un max_def of_nat_diff)
  have nz: "(word_of_nat ?n :: 64 word) \<noteq> 0" if "0 < ?n" using that un by (metis unat_0 less_irrefl)
  show ?thesis
  proof (cases "s_incl r = 0")
    case True
    then show ?thesis
      by (simp add: score_row_def find_population [OF s assms(2)] scored_def)
  next
    case False
    then obtain k where k: "k < ?n" "rank r = word_of_nat k" using ranked_member [OF assms(2) False] by auto
    obtain sc where "fpRatio (word_of_nat k) (word_of_nat (max 1 (?n - 1))) = Inr sc"
      using rank_ratio_returns [OF k(1) n] by blast
    then show ?thesis
      using False nz k den
      by (simp add: score_row_def find_population [OF s assms(2)] scored_def count_in_ranked Let_def)
  qed
qed

lemma map_filter_ranked:
  assumes "\<And>r k. f (r\<lparr>rank := k\<rparr>) = f r"
  shows "map f (filter (in_population p) (ranked xs)) = map f (filter (in_population p) xs)"
  by (induction xs rule: rev_induct) (simp_all add: ranked_snoc assms)

lemma slimSort_sorted:
  "sorted (map popkey (slimSort slim))"
  "list_all (\<lambda>s. s_incl s \<le> 1) slim \<Longrightarrow> sorted (map s_bucket (filter (in_population p) (slimSort slim)))"
proof -
  have k: "sorted (map slim_key (slimSort slim))" by (simp add: slimSort_def)
  then have "sorted (map fst (map slim_key (slimSort slim)))"
    by (rule sorted_map_mono) (auto simp: mono_on_def less_eq_prod_def)
  then show "sorted (map popkey (slimSort slim))" by (simp add: comp_def slim_key_def)
  assume "list_all (\<lambda>s. s_incl s \<le> 1) slim"
  then have "s_incl s = 1" if "s \<in> set (slimSort slim)" "in_population p s" for s
    using that byte_le_1 [of "s_incl s"] by (auto simp: slimSort_def list_all_iff in_population_def)
  then have "map slim_key (filter (in_population p) (slimSort slim)) =
      map (\<lambda>b. (p, 0, b)) (map s_bucket (filter (in_population p) (slimSort slim)))"
    by (auto simp: slim_key_def in_population_def)
  moreover have "sorted (map slim_key (filter (in_population p) (slimSort slim)))" using k by (rule sorted_filter)
  ultimately have "sorted (map (\<lambda>b. (p, 0 :: 8 word, b)) (map s_bucket (filter (in_population p) (slimSort slim))))"
    by (simp only:)
  then show "sorted (map s_bucket (filter (in_population p) (slimSort slim)))"
    by (simp add: sorted_wrt_map less_eq_prod_def comp_def)
qed

lemma rankViaHistogram_slim: "rr_slim (rankViaHistogram slim B) = ranked (slimSort slim)"
  by (simp add: rankViaHistogram_def Let_def rank_pass [OF slimSort_sorted(1)])

lemma rankViaHistogram_histogram:
  "rr_histogram (rankViaHistogram slim B) = \<lparr>hist_h = bucket_counts B (slimSort slim),
     hist_n_valid = word_of_nat (length (filter (\<lambda>r. s_incl r \<noteq> 0) (slimSort slim)))\<rparr>"
  by (simp add: rankViaHistogram_def Let_def rank_pass [OF slimSort_sorted(1)])

subsection \<open>Properties\<close>

definition er_in_population :: "32 word \<Rightarrow> EntityRankRow \<Rightarrow> bool" where
  "er_in_population p e \<longleftrightarrow> er_popkey e = p \<and> er_incl e \<noteq> 0"

definition er_slim :: "EntityRankRow \<Rightarrow> 32 word \<times> 32 word \<times> 8 word \<times> nat" where
  "er_slim e = (er_entity_idx e, er_popkey e, er_incl e, er_bucket e)"

lemma computeMetricRanks_scored:
  assumes "edgesFor edges m = Inr es" "buildSlim rows m es (ratioScaleFor m) sel = Inr slim" "length slim \<le> 2 ^ 40"
  shows "computeMetricRanks rows m edges B sel =
    Inr (map (\<lambda>r. scored (count_in (slimSort slim) (popkey r)) r) (ranked (slimSort slim)))"
  unfolding computeMetricRanks_def assms(1,2) bindE_simps Let_def rankViaHistogram_slim
  by (rule mapE_Inr, rule score_row_scored [OF slimSort_sorted(1)]) (use assms(3) in \<open>simp_all add: slimSort_def\<close>)

text \<open>Once the slim table of a metric is built, of at most \<open>2 ^ 40\<close> rows whose inclusion bytes are bits,
  the ranks and scores are computed without error: the output is a rearrangement of the slim table,
  and in every population \<open>p\<close> the included rows come in ascending order of bucket, carry the ranks
  0, 1, 2, ..., and their score is the fixed-point ratio of the rank to the highest rank (or to 1).\<close>

theorem computeMetricRanks_ranks:
  assumes "edgesFor edges m = Inr es" "buildSlim rows m es (ratioScaleFor m) sel = Inr slim" "length slim \<le> 2 ^ 40"
    and "list_all (\<lambda>s. s_incl s \<le> 1) slim"
  shows "\<exists>out. computeMetricRanks rows m edges B sel = Inr out \<and>
    mset (map er_slim out) = mset (map (\<lambda>s. (entity_idx s, popkey s, s_incl s, s_bucket s)) slim) \<and>
    (let inc = filter (er_in_population p) out in
      sorted (map er_bucket inc) \<and> map er_rank inc = map word_of_nat [0..<length inc] \<and>
      map (\<lambda>e. fpRatio (er_rank e) (word_of_nat (max 1 (length inc - 1)))) inc = map (\<lambda>e. Inr (er_score_fp e)) inc)"
proof -
  let ?ys = "slimSort slim"
  let ?out = "map (\<lambda>r. scored (count_in ?ys (popkey r)) r) (ranked ?ys)"
  let ?f = "filter (in_population p) (ranked ?ys)"
  have "map er_slim ?out = map (\<lambda>s. (entity_idx s, popkey s, s_incl s, s_bucket s)) (ranked ?ys)"
    by (simp add: er_slim_def scored_def)
  also have "\<dots> = map (\<lambda>s. (entity_idx s, popkey s, s_incl s, s_bucket s)) ?ys" by (rule map_ranked) simp
  finally have perm: "mset (map er_slim ?out) = mset (map (\<lambda>s. (entity_idx s, popkey s, s_incl s, s_bucket s)) slim)"
    by (simp only: mset_map slimSort_def mset_sort)
  have "filter (er_in_population p) ?out = map (\<lambda>r. scored (count_in ?ys (popkey r)) r) ?f"
    by (simp add: filter_map comp_def er_in_population_def in_population_def [abs_def] scored_def)
  also have "\<dots> = map (\<lambda>r. scored (count_in ?ys p) r) ?f" by (intro map_cong) (auto simp: in_population_def)
  finally have inc: "filter (er_in_population p) ?out = map (\<lambda>r. scored (count_in ?ys p) r) ?f" .
  have len: "length ?f = count_in ?ys p" using count_in_ranked [of ?ys p] by (simp add: count_in_def)
  have "map s_bucket ?f = map s_bucket (filter (in_population p) ?ys)" by (rule map_filter_ranked) simp
  then have sorted: "sorted (map s_bucket ?f)" using slimSort_sorted(2) [OF assms(4)] by simp
  have ranks: "map rank ?f = map word_of_nat [0..<length ?f]" unfolding len by (rule ranks_in_population)
  have n: "length ?f \<le> 2 ^ 40"
    unfolding len count_in_def using length_filter_le [of "in_population p" ?ys] assms(3) by (simp add: slimSort_def)
  have "fpRatio (rank r) (word_of_nat (max 1 (length ?f - 1))) = Inr (er_score_fp (scored (length ?f) r))" if "r \<in> set ?f" for r
  proof -
    have "rank r \<in> set (map rank ?f)" using that by simp
    then have "rank r \<in> word_of_nat ` {0..<length ?f}" unfolding ranks by simp
    then obtain k where "k < length ?f" "rank r = word_of_nat k" by auto
    then show ?thesis
      using that rank_ratio_returns [OF _ n] by (auto simp: scored_def in_population_def)
  qed
  then have scores: "map (\<lambda>e. fpRatio (er_rank e) (word_of_nat (max 1 (length ?f - 1)))) (map (scored (length ?f)) ?f) =
      map (\<lambda>e. Inr (er_score_fp e)) (map (scored (length ?f)) ?f)"
    by (simp add: scored_def)
  have inc': "filter (er_in_population p) ?out = map (scored (length ?f)) ?f" unfolding inc len ..
  have "map er_bucket (map (scored (length ?f)) ?f) = map s_bucket ?f" "map er_rank (map (scored (length ?f)) ?f) = map rank ?f"
    by (simp_all add: scored_def)
  with sorted ranks scores have "let inc = filter (er_in_population p) ?out in
      sorted (map er_bucket inc) \<and> map er_rank inc = map word_of_nat [0..<length inc] \<and>
      map (\<lambda>e. fpRatio (er_rank e) (word_of_nat (max 1 (length inc - 1)))) inc = map (\<lambda>e. Inr (er_score_fp e)) inc"
    unfolding inc' Let_def length_map by (simp only: simp_thms)
  with perm computeMetricRanks_scored [OF assms(1-3), of B] show ?thesis by blast
qed

definition example_entity :: "64 word \<Rightarrow> 64 word \<Rightarrow> EntityMetricRow" where
  "example_entity n s = \<lparr>e_bin = 0, e_period = 202601, e_sector = s, e_sector_conflict = 0, e_live = 1,
     e_MAS = 1, e_DOS = 1, e_MOM = 0,
     e_metrics = \<lparr>mp_num = n, mp_den = 100, mp_incl = 1\<rparr> # replicate 8 \<lparr>mp_num = 0, mp_den = 0, mp_incl = 0\<rparr>,
     avail_core_count = 1, incl_vuln = 1\<rparr>"

definition example_edges :: BucketEdges where
  "example_edges = (let e = [0, 5000, 10000, 20000, 40000] in
     \<lparr>edges_DTI = e, edges_DSI = e, edges_DEmp = e, edges_IPW = e, edges_Delq = e, edges_NPL = e,
      edges_UnsecShare = e, edges_StDebtShare = e, edges_Gap = e\<rparr>)"

lemma computeMetricRanks_ranks_witness:
  "\<exists>out. computeMetricRanks [example_entity 300 3, example_entity 60 3] DTI example_edges kBucketCount None = Inr out \<and>
    map er_rank (filter (er_in_population 0) out) = map word_of_nat [0..<length (filter (er_in_population 0) out)]"
proof -
  have b: "buildSlim [example_entity 300 3, example_entity 60 3] DTI [0, 5000, 10000, 20000, 40000] 10000 None =
      Inr [\<lparr>entity_idx = 0, popkey = 0, s_incl = 1, s_bucket = 3, rank = 0\<rparr>,
           \<lparr>entity_idx = 1, popkey = 0, s_incl = 1, s_bucket = 1, rank = 0\<rparr>]"
    by code_simp
  show ?thesis
    using computeMetricRanks_ranks [OF _ b [folded ratioScaleFor.simps(4)], of example_edges kBucketCount 0]
    by (auto simp: example_edges_def Let_def)
qed

end
