(* ===== verification/Percentiles.thy ===== *)
theory Percentiles
  imports Rank
begin

text \<open>
  Percentiles by inverting the cumulative histogram (\<open>volePSI/MpsvsPercentiles.h\<close>,
  \<open>volePSI/MpsvsPercentiles.cpp\<close>).

  The target rank is computed in floating point, \<open>ceil(q * N)\<close> for \<open>q\<close> clamped to [0, 1]; that
  computation is the parameter \<open>ceil_rank\<close>, and \<open>hundredths\<close> gives the quantile constants. The
  midpoint of a bucket is a floating-point value and is not modelled.
\<close>

record Cdf =
  cum :: "64 word list"
  cdf_N :: "64 word"
  monotone :: bool

fun cdf_loop :: "64 word list \<Rightarrow> 64 word \<Rightarrow> 64 word list \<times> 64 word \<times> bool" where
  "cdf_loop [] acc = ([], acc, True)"
| "cdf_loop (x # xs) acc =
     (let acc' = acc + x; (cs, n, ok) = cdf_loop xs acc'
      in (acc' # cs, n, ok \<and> \<not> acc' < acc))"

definition makeCdf :: "Histogram \<Rightarrow> Cdf" where
  "makeCdf hist = (let (cs, n, ok) = cdf_loop (hist_h hist) 0 in \<lparr>cum = cs, cdf_N = n, monotone = ok\<rparr>)"

function cdf_search :: "64 word list \<Rightarrow> 64 word \<Rightarrow> nat \<Rightarrow> nat \<Rightarrow> nat" where
  "cdf_search cs target lo hi =
     (if lo < hi then
        let mid = (lo + hi) div 2 in
        if cs ! mid \<ge> target then cdf_search cs target lo mid
        else cdf_search cs target (mid + 1) hi
      else lo)"
  by pat_completeness auto
termination by (relation "measure (\<lambda>(cs, target, lo, hi). hi - lo)") auto

declare cdf_search.simps [simp del]

definition percentileBucket :: "('q \<Rightarrow> 64 word \<Rightarrow> 64 word) \<Rightarrow> Cdf \<Rightarrow> 'q \<Rightarrow> nat" where
  "percentileBucket ceil_rank cdf q =
     (if cdf_N cdf = 0 \<or> cum cdf = [] then 0
      else let target = ceil_rank q (cdf_N cdf);
               target' = (if target = 0 then 1 else target)
           in cdf_search (cum cdf) target' 0 (length (cum cdf) - 1))"

record StdPercentiles =
  p25 :: nat
  p50 :: nat
  p75 :: nat
  p90 :: nat
  p95 :: nat
  p99 :: nat

definition standardPercentiles :: "('q \<Rightarrow> 64 word \<Rightarrow> 64 word) \<Rightarrow> (nat \<Rightarrow> 'q) \<Rightarrow> Cdf \<Rightarrow> StdPercentiles" where
  "standardPercentiles ceil_rank hundredths cdf =
     \<lparr>p25 = percentileBucket ceil_rank cdf (hundredths 25),
      p50 = percentileBucket ceil_rank cdf (hundredths 50),
      p75 = percentileBucket ceil_rank cdf (hundredths 75),
      p90 = percentileBucket ceil_rank cdf (hundredths 90),
      p95 = percentileBucket ceil_rank cdf (hundredths 95),
      p99 = percentileBucket ceil_rank cdf (hundredths 99)\<rparr>"

subsection \<open>Cumulative counts\<close>

lemma cdf_loop_spec:
  "unat acc + sum_list (map unat xs) < 2 ^ 64 \<Longrightarrow>
   (case cdf_loop xs acc of (cs, n, ok) \<Rightarrow>
     length cs = length xs \<and> (\<forall>i<length xs. unat (cs ! i) = unat acc + sum_list (map unat (take (Suc i) xs))) \<and>
     unat n = unat acc + sum_list (map unat xs) \<and> ok)"
proof (induction xs arbitrary: acc)
  case (Cons x xs)
  have u: "unat (acc + x) = unat acc + unat x"
    using Cons.prems by (simp add: unat_word_ariths)
  obtain cs n ok where l: "cdf_loop xs (acc + x) = (cs, n, ok)" by (cases "cdf_loop xs (acc + x)") auto
  have "unat (acc + x) + sum_list (map unat xs) < 2 ^ 64" using Cons.prems u by simp
  from Cons.IH [OF this] l have IH: "length cs = length xs"
      "\<forall>i<length xs. unat (cs ! i) = unat (acc + x) + sum_list (map unat (take (Suc i) xs))"
      "unat n = unat (acc + x) + sum_list (map unat xs)" ok by simp_all
  have "\<not> acc + x < acc" by (simp add: word_less_nat_alt u)
  with IH l show ?case by (auto simp: u less_Suc_eq_0_disj)
qed simp

lemma cdf_search_spec:
  "lo \<le> hi \<Longrightarrow> hi < length cs \<Longrightarrow> sorted cs \<Longrightarrow> \<forall>i<lo. cs ! i < target \<Longrightarrow>
   hi = length cs - 1 \<or> target \<le> cs ! hi \<Longrightarrow>
   (case cdf_search cs target lo hi of b \<Rightarrow> b < length cs \<and> (\<forall>i<b. cs ! i < target) \<and> (b = length cs - 1 \<or> target \<le> cs ! b))"
proof (induction cs target lo hi rule: cdf_search.induct)
  case (1 cs target lo hi)
  show ?case
  proof (cases "lo < hi")
    case True
    define mid where "mid = (lo + hi) div 2"
    have mid: "lo \<le> mid" "mid < hi" using True by (auto simp: mid_def)
    have step: "cdf_search cs target lo hi =
        (if cs ! mid \<ge> target then cdf_search cs target lo mid else cdf_search cs target (mid + 1) hi)"
      by (subst cdf_search.simps, unfold Let_def, fold mid_def) (simp add: True)
    show ?thesis
    proof (cases "target \<le> cs ! mid")
      case at: True
      then show ?thesis using "1.IH"(1) [OF True mid_def at] "1.prems" mid by (simp add: step)
    next
      case at: False
      have "cs ! i < target" if "i < mid + 1" for i
        using sorted_nth_mono [OF "1.prems"(3), of i mid] mid "1.prems"(2) at that by (simp add: less_Suc_eq_le le_less_trans not_le)
      then show ?thesis using "1.IH"(2) [OF True mid_def at] "1.prems" mid at by (simp add: step)
    qed
  next
    case False
    then have "cdf_search cs target lo hi = lo" by (subst cdf_search.simps) simp
    then show ?thesis using "1.prems" False by auto
  qed
qed

subsection \<open>Order statistics\<close>

lemma sorted_nth_count:
  assumes "sorted bs" "0 < t" "t \<le> length bs"
  shows "t \<le> length (filter (\<lambda>b. b \<le> x) bs) \<longleftrightarrow> bs ! (t - 1) \<le> x"
proof -
  have count: "length (filter (\<lambda>b. b \<le> x) bs) = card {i. i < length bs \<and> bs ! i \<le> x}"
    by (rule length_filter_conv_card)
  show ?thesis
  proof
    assume "bs ! (t - 1) \<le> x"
    moreover have "bs ! i \<le> bs ! (t - 1)" if "i < t" for i
      using that assms(3) by (intro sorted_nth_mono [OF assms(1)]) auto
    ultimately have "{0..<t} \<subseteq> {i. i < length bs \<and> bs ! i \<le> x}" using assms(3) by (force intro: order_trans)
    then have "card {0..<t} \<le> card {i. i < length bs \<and> bs ! i \<le> x}" by (rule card_mono [rotated]) simp
    then show "t \<le> length (filter (\<lambda>b. b \<le> x) bs)" by (simp add: count)
  next
    assume t: "t \<le> length (filter (\<lambda>b. b \<le> x) bs)"
    show "bs ! (t - 1) \<le> x"
    proof (rule ccontr)
      assume "\<not> bs ! (t - 1) \<le> x"
      then have "{i. i < length bs \<and> bs ! i \<le> x} \<subseteq> {0..<t - 1}"
        using sorted_nth_mono [OF assms(1), of "t - 1"] by (auto simp: not_le) (meson leD le_less_trans less_le_not_le not_less)
      then have "card {i. i < length bs \<and> bs ! i \<le> x} \<le> card {0..<t - 1}" by (rule card_mono [rotated]) simp
      then show False using t assms(2) by (simp add: count)
    qed
  qed
qed

definition included_buckets :: "SlimRow list \<Rightarrow> nat list" where
  "included_buckets slim = sort (map s_bucket (filter (\<lambda>s. s_incl s \<noteq> 0) slim))"

lemma prefix_counts:
  assumes "length xs < 2 ^ 64" "i < B"
  shows "sum_list (map unat (take (Suc i) (bucket_counts B xs))) = length (filter (\<lambda>b. b \<le> i) (included_buckets xs))"
proof -
  have small: "unat (word_of_nat (length (filter P xs)) :: 64 word) = length (filter P xs)" for P
    using le_less_trans [OF length_filter_le assms(1), of P] by (simp add: unat_of_nat take_bit_nat_eq_self)
  have "sum_list (map unat (map (\<lambda>b. word_of_nat (length (filter (\<lambda>r. s_incl r \<noteq> 0 \<and> s_bucket r = b) xs)) :: 64 word) [0..<Suc i]))
      = length (filter (\<lambda>r. s_incl r \<noteq> 0 \<and> s_bucket r \<le> i) xs)" for i
  proof (induction i)
    case (Suc i)
    have "length (filter (\<lambda>r. s_incl r \<noteq> 0 \<and> s_bucket r \<le> Suc i) xs) =
        length (filter (\<lambda>r. s_incl r \<noteq> 0 \<and> s_bucket r \<le> i) xs) + length (filter (\<lambda>r. s_incl r \<noteq> 0 \<and> s_bucket r = Suc i) xs)"
      by (induction xs) auto
    with Suc show ?case by (simp add: small)
  qed (simp add: small)
  moreover have "take (Suc i) (bucket_counts B xs) =
      map (\<lambda>b. word_of_nat (length (filter (\<lambda>r. s_incl r \<noteq> 0 \<and> s_bucket r = b) xs))) [0..<Suc i]"
    using assms(2) by (simp add: bucket_counts_def take_map del: upt_Suc)
  moreover have "length (filter (\<lambda>b. b \<le> i) (included_buckets xs)) = length (filter (\<lambda>r. s_incl r \<noteq> 0 \<and> s_bucket r \<le> i) xs)"
    by (simp add: included_buckets_def filter_sort filter_map comp_def conj_commute)
  ultimately show ?thesis by (simp only:)
qed

lemma included_buckets_sorted_slim:
  "included_buckets (slimSort slim) = included_buckets slim"
  unfolding included_buckets_def
  by (rule properties_for_sort) (simp_all add: slimSort_def)

lemma makeCdf_ranked:
  assumes "length slim < 2 ^ 64" "list_all (\<lambda>b. b < B) (included_buckets slim)" "included_buckets slim \<noteq> []"
  obtains cs where "makeCdf (rr_histogram (rankViaHistogram slim B)) =
      \<lparr>cum = cs, cdf_N = word_of_nat (length (included_buckets slim)), monotone = True\<rparr>"
    "length cs = B" "sorted cs" "\<forall>i<B. unat (cs ! i) = length (filter (\<lambda>b. b \<le> i) (included_buckets slim))"
    "0 < B" "length (included_buckets slim) < 2 ^ 64"
proof -
  let ?ys = "slimSort slim" and ?bs = "included_buckets slim"
  let ?N = "length ?bs"
  have len: "length ?ys < 2 ^ 64" using assms(1) by (simp add: slimSort_def)
  have bs: "included_buckets ?ys = ?bs" by (rule included_buckets_sorted_slim)
  have "?N \<le> length slim" by (simp add: included_buckets_def)
  then have N: "?N < 2 ^ 64" "0 < ?N" using assms(1,3) by simp_all
  then have B: "0 < B" using assms(2) by (cases ?bs) auto
  have pre: "sum_list (map unat (take (Suc i) (bucket_counts B ?ys))) = length (filter (\<lambda>b. b \<le> i) ?bs)" if "i < B" for i
    using prefix_counts [OF len that] unfolding bs .
  have lenc: "length (bucket_counts B ?ys) = B" by (simp add: bucket_counts_def)
  have "filter (\<lambda>b. b \<le> B - 1) ?bs = ?bs" using assms(2) B by (auto simp: filter_id_conv list_all_iff)
  then have total: "sum_list (map unat (bucket_counts B ?ys)) = ?N"
    using pre [of "B - 1"] B lenc by simp
  obtain cs n ok where c: "cdf_loop (bucket_counts B ?ys) 0 = (cs, n, ok)" by (cases "cdf_loop (bucket_counts B ?ys) 0") auto
  have cs: "length cs = B" "\<forall>i<B. unat (cs ! i) = length (filter (\<lambda>b. b \<le> i) ?bs)" "unat n = ?N" ok
    using cdf_loop_spec [of 0 "bucket_counts B ?ys"] N total c lenc pre by simp_all
  have n: "n = word_of_nat ?N" using cs(3) by (metis of_nat_unat ucast_id)
  have mono: "length (filter (\<lambda>b. b \<le> i) xs) \<le> length (filter (\<lambda>b. b \<le> j) xs)" if "i \<le> j" for i j and xs :: "nat list"
    using that by (induction xs) auto
  have "sorted cs"
    using cs(1,2) mono by (auto simp: sorted_iff_nth_mono word_le_nat_alt)
  moreover have "makeCdf (rr_histogram (rankViaHistogram slim B)) = \<lparr>cum = cs, cdf_N = word_of_nat ?N, monotone = True\<rparr>"
    using cs(4) by (simp add: makeCdf_def rankViaHistogram_histogram c n)
  ultimately show ?thesis using that cs(1,2) B N(1) by blast
qed

subsection \<open>Properties\<close>

text \<open>Composed with the rank step: if every included row has a bucket inside the histogram and the target
  rank is at most the number of included rows, the percentile query on the histogram of a slim table
  returns the bucket of the row with that rank, the order statistic of the included rows' buckets
  (a target of 0 counts as 1); the CDF is monotone.\<close>

theorem percentileBucket_order_statistic:
  assumes "length slim < 2 ^ 64" "list_all (\<lambda>b. b < B) (included_buckets slim)" "included_buckets slim \<noteq> []"
    and "unat (ceil_rank q (word_of_nat (length (included_buckets slim)))) \<le> length (included_buckets slim)"
  shows "monotone (makeCdf (rr_histogram (rankViaHistogram slim B))) \<and>
    percentileBucket ceil_rank (makeCdf (rr_histogram (rankViaHistogram slim B))) q =
      included_buckets slim ! (unat (ceil_rank q (word_of_nat (length (included_buckets slim)))) - 1)"
proof -
  let ?bs = "included_buckets slim"
  let ?N = "length ?bs"
  let ?target = "ceil_rank q (word_of_nat ?N)"
  define t where "t = max 1 (unat ?target)"
  define target' where "target' = (if ?target = 0 then 1 else ?target)"
  have t': "unat target' = t" by (auto simp: target'_def t_def max_def unat_eq_0 Suc_le_eq not_le unat_gt_0)
  obtain cs where cdf: "makeCdf (rr_histogram (rankViaHistogram slim B)) = \<lparr>cum = cs, cdf_N = word_of_nat ?N, monotone = True\<rparr>"
      and cs: "length cs = B" "\<forall>i<B. unat (cs ! i) = length (filter (\<lambda>b. b \<le> i) ?bs)" and sorted: "sorted cs"
      and B: "0 < B" and N: "?N < 2 ^ 64" "0 < ?N"
    using makeCdf_ranked [OF assms(1-3)] assms(3) by (metis length_greater_0_conv)
  have n: "(word_of_nat ?N :: 64 word) \<noteq> 0"
    using N by (simp add: word_of_nat_eq_0_iff nat_dvd_not_less)
  have "1 \<le> ?N" using N(2) by arith
  then have t: "0 < t" "t \<le> ?N" using assms(4) unfolding t_def by (simp, rule max.boundedI)
  let ?b0 = "?bs ! (t - 1)"
  have "?bs ! (t - 1) \<in> set ?bs" using t by (intro nth_mem) simp
  then have b0: "?b0 < B" using assms(2) by (simp add: list_all_iff)
  have less: "cs ! i < target' \<longleftrightarrow> i < ?b0" if "i < B" for i
    using cs(2) that sorted_nth_count [OF _ t, of i] by (auto simp: word_less_nat_alt t' included_buckets_def not_le [symmetric])
  define b where "b = cdf_search cs target' 0 (B - 1)"
  have b: "b < B" "\<forall>i<b. cs ! i < target'" "b = B - 1 \<or> target' \<le> cs ! b"
    using cdf_search_spec [of 0 "B - 1" cs target'] sorted cs(1) B by (simp_all add: b_def)
  have "\<not> ?b0 < b" using b(2) less [of ?b0] b0 by blast
  moreover have "\<not> b < ?b0" using b(3) less [OF b(1)] b0 by auto
  ultimately have "b = ?b0" by simp
  moreover have "percentileBucket ceil_rank \<lparr>cum = cs, cdf_N = word_of_nat ?N, monotone = True\<rparr> q = b"
    using n B cs(1) by (auto simp: percentileBucket_def Let_def b_def target'_def)
  moreover have "t - 1 = unat ?target - 1" by (auto simp: t_def)
  ultimately show ?thesis unfolding cdf by simp
qed

lemma percentileBucket_order_statistic_witness:
  "\<exists>slim. included_buckets slim = [1, 3, 3] \<and>
    percentileBucket (\<lambda>q n. (q * n + 1) div 2) (makeCdf (rr_histogram (rankViaHistogram slim 4))) 1 = 3"
proof -
  let ?r = "\<lambda>b. \<lparr>entity_idx = 0, popkey = 7, s_incl = 1, s_bucket = b, rank = 0\<rparr>"
  let ?slim = "[?r 3, ?r 1, ?r 3]"
  have "included_buckets ?slim = [1, 3, 3]" by (simp add: included_buckets_def)
  moreover have "unat ((1 * word_of_nat 3 + 1) div 2 :: 64 word) = 2" by code_simp
  ultimately show ?thesis
    using percentileBucket_order_statistic [of ?slim 4 "\<lambda>q n. (q * n + 1) div 2" 1] by auto
qed

end
