(* ===== verification/Ordered_Map.thy ===== *)
theory Ordered_Map
  imports Prelude "HOL-Library.RBT"
begin

text \<open>
  \<open>std::map\<close> as the library's red-black trees, and the loop shape that groups rows in one: look the
  row's key up, insert an initial entry if it is missing, update the entry; the result is read off
  in key order. The locale \<open>grouped_total\<close> is the contract of an additive quantity of the entries:
  its sum over the groups is its sum over the rows.
\<close>

definition find_or_insert :: "'k::linorder \<Rightarrow> 'v \<Rightarrow> ('k, 'v) rbt \<Rightarrow> ('k, 'v) rbt" where
  "find_or_insert k v t = (case RBT.lookup t k of None \<Rightarrow> RBT.insert k v t | Some _ \<Rightarrow> t)"

definition group_step :: "('r \<Rightarrow> 'k::linorder) \<Rightarrow> ('k \<Rightarrow> 'v) \<Rightarrow> ('r \<Rightarrow> 'v \<Rightarrow> 'v) \<Rightarrow> 'r \<Rightarrow> ('k, 'v) rbt \<Rightarrow> ('k, 'v) rbt" where
  "group_step key init upd r t = RBT.map_entry (key r) (upd r) (find_or_insert (key r) (init (key r)) t)"

definition group_rows :: "('r \<Rightarrow> 'k::linorder) \<Rightarrow> ('k \<Rightarrow> 'v) \<Rightarrow> ('r \<Rightarrow> 'v \<Rightarrow> 'v) \<Rightarrow> 'r list \<Rightarrow> ('k, 'v) rbt" where
  "group_rows key init upd rows = fold (group_step key init upd) rows RBT.empty"

definition values_of :: "('k::linorder, 'v) rbt \<Rightarrow> 'v list" where
  "values_of t = map snd (RBT.entries t)"

definition group_value :: "('r \<Rightarrow> 'k) \<Rightarrow> ('k \<Rightarrow> 'v) \<Rightarrow> ('r \<Rightarrow> 'v \<Rightarrow> 'v) \<Rightarrow> 'r list \<Rightarrow> 'k \<Rightarrow> 'v" where
  "group_value key init upd rows k = fold upd (filter (\<lambda>r. key r = k) rows) (init k)"

lemma lookup_find_or_insert [simp]:
  "RBT.lookup (find_or_insert k v t) = (RBT.lookup t)(k := Some (case RBT.lookup t k of None \<Rightarrow> v | Some w \<Rightarrow> w))"
  by (auto simp: find_or_insert_def fun_eq_iff split: option.splits)

lemma lookup_group_step:
  "RBT.lookup (group_step key init upd r t) = (RBT.lookup t)
     (key r := Some (upd r (case RBT.lookup t (key r) of None \<Rightarrow> init (key r) | Some w \<Rightarrow> w)))"
  by (auto simp: group_step_def fun_eq_iff)

lemma lookup_group_rows:
  "RBT.lookup (group_rows key init upd rows) k =
     (if k \<in> key ` set rows then Some (group_value key init upd rows k) else None)"
  unfolding group_rows_def
proof (induction rows arbitrary: k rule: rev_induct)
  case (snoc r rows)
  let ?t = "fold (group_step key init upd) rows RBT.empty"
  have step: "RBT.lookup (fold (group_step key init upd) (rows @ [r]) RBT.empty) =
      (RBT.lookup ?t)(key r := Some (upd r (case RBT.lookup ?t (key r) of None \<Rightarrow> init (key r) | Some w \<Rightarrow> w)))"
    by (simp add: lookup_group_step)
  have "(case RBT.lookup ?t (key r) of None \<Rightarrow> init (key r) | Some w \<Rightarrow> w) = group_value key init upd rows (key r)"
  proof (cases "key r \<in> key ` set rows")
    case False
    then have "filter (\<lambda>r'. key r' = key r) rows = []" by (metis (mono_tags, lifting) filter_False image_eqI)
    then show ?thesis using False by (simp add: snoc.IH group_value_def)
  qed (simp add: snoc.IH)
  then show ?case
    unfolding step by (auto simp: snoc.IH group_value_def)
qed simp

lemma keys_group_rows: "RBT.keys (group_rows key init upd rows) = sorted_list_of_set (key ` set rows)"
proof (rule sorted_distinct_set_unique)
  show "set (RBT.keys (group_rows key init upd rows)) = set (sorted_list_of_set (key ` set rows))"
    using RBT.lookup_keys [of "group_rows key init upd rows"]
    by (auto simp: lookup_group_rows dom_def split: if_splits)
qed simp_all

lemma values_of_lookup: "values_of t = map (\<lambda>k. the (RBT.lookup t k)) (RBT.keys t)"
  by (auto simp: values_of_def RBT.keys_def_alt RBT.lookup_in_tree [symmetric])

text \<open>The groups come out in key order, each the fold of its rows in input order.\<close>

lemma values_group_rows:
  "values_of (group_rows key init upd rows) =
     map (group_value key init upd rows) (sorted_list_of_set (key ` set rows))"
proof -
  let ?t = "group_rows key init upd rows"
  have "snd e = group_value key init upd rows (fst e)" if "e \<in> set (RBT.entries ?t)" for e
  proof -
    have "RBT.lookup ?t (fst e) = Some (snd e)" using that by (simp add: RBT.lookup_in_tree)
    then show ?thesis by (simp add: lookup_group_rows split: if_splits)
  qed
  then have "values_of ?t = map (group_value key init upd rows) (map fst (RBT.entries ?t))"
    by (simp add: values_of_def)
  also have "map fst (RBT.entries ?t) = RBT.keys ?t" by (simp add: RBT.keys_def_alt)
  finally show ?thesis by (simp only: keys_group_rows)
qed

lemma sum_over_groups:
  fixes w :: "'r \<Rightarrow> 'm::comm_monoid_add"
  assumes "finite K" "key ` set rows \<subseteq> K"
  shows "(\<Sum>k\<in>K. \<Sum>r\<leftarrow>filter (\<lambda>r. key r = k) rows. w r) = (\<Sum>r\<leftarrow>rows. w r)"
  using assms(2)
proof (induction rows)
  case (Cons r rows)
  have "(\<Sum>k\<in>K. \<Sum>r\<leftarrow>filter (\<lambda>r. key r = k) (r # rows). w r) =
      (\<Sum>k\<in>K. (if key r = k then w r else 0) + (\<Sum>r\<leftarrow>filter (\<lambda>r. key r = k) rows. w r))"
    by (intro sum.cong) auto
  also have "\<dots> = w r + (\<Sum>r\<leftarrow>rows. w r)" using Cons assms(1) by (simp add: sum.distrib)
  finally show ?case by simp
qed simp

locale grouped_total =
  fixes key :: "'r \<Rightarrow> 'k::linorder"
    and init :: "'k \<Rightarrow> 'v"
    and upd :: "'r \<Rightarrow> 'v \<Rightarrow> 'v"
    and total :: "'v \<Rightarrow> 'm::comm_monoid_add"
    and weight :: "'r \<Rightarrow> 'm"
  assumes init_law: "total (init k) = 0"
    and upd_law: "total (upd r v) = total v + weight r"
begin

lemma group_total: "total (group_value key init upd rows k) = (\<Sum>r\<leftarrow>filter (\<lambda>r. key r = k) rows. weight r)"
proof -
  have "total (fold upd rs v) = total v + (\<Sum>r\<leftarrow>rs. weight r)" for rs v
    by (induction rs arbitrary: v) (simp_all add: upd_law add.assoc)
  then show ?thesis by (simp add: group_value_def init_law)
qed

lemma grand_total: "(\<Sum>v\<leftarrow>values_of (group_rows key init upd rows). total v) = (\<Sum>r\<leftarrow>rows. weight r)"
proof -
  have "(\<Sum>v\<leftarrow>values_of (group_rows key init upd rows). total v) =
      (\<Sum>k\<in>key ` set rows. \<Sum>r\<leftarrow>filter (\<lambda>r. key r = k) rows. weight r)"
    by (simp add: values_group_rows comp_def group_total sum_list_distinct_conv_sum_set)
  then show ?thesis by (simp add: sum_over_groups)
qed

end

end
