(* ===== verification/Sector_Agg.thy ===== *)
theory Sector_Agg
  imports Rank Ordered_Map
begin

text \<open>
  Aggregation per sector and period (\<open>volePSI/MpsvsSectorAgg.h\<close>, \<open>volePSI/MpsvsSectorAgg.cpp\<close>):
  histograms and ratios of sums for one metric, the bundle over all metrics, and the audit that
  compares their totals with the plain totals.

  The key narrows the sector to 16 and the period to 32 bits. A bucket past the end of the
  histogram would be written out of bounds.
\<close>

subsection \<open>Keys\<close>

datatype SectorKey = SectorKey (sk_sector: "16 word") (sk_period: "32 word")

definition sector_key_less :: "SectorKey \<Rightarrow> SectorKey \<Rightarrow> bool" where
  "sector_key_less a b \<longleftrightarrow>
     (if sk_sector a \<noteq> sk_sector b then sk_sector a < sk_sector b else sk_period a < sk_period b)"

instantiation SectorKey :: linorder
begin

definition less_SectorKey :: "SectorKey \<Rightarrow> SectorKey \<Rightarrow> bool" where
  "less_SectorKey a b \<longleftrightarrow> sector_key_less a b"

definition less_eq_SectorKey :: "SectorKey \<Rightarrow> SectorKey \<Rightarrow> bool" where
  "less_eq_SectorKey a b \<longleftrightarrow> a = b \<or> sector_key_less a b"

instance
  by standard (auto simp: less_SectorKey_def less_eq_SectorKey_def sector_key_less_def
      intro: SectorKey.expand split: if_splits)

end

definition sector_key :: "EntityMetricRow \<Rightarrow> SectorKey" where
  "sector_key r = SectorKey (ucast (e_sector r)) (ucast (e_period r))"

record SectorHistogram =
  sh_key :: SectorKey
  sh_metric :: Metric
  sh_hist :: Histogram

record SectorRatio =
  sr_key :: SectorKey
  sr_metric :: Metric
  sr_num :: "64 word"
  sr_den :: "64 word"
  sr_incl :: "8 word"
  sr_fp :: int

subsection \<open>Histograms\<close>

definition agg_edges :: "BucketEdges \<Rightarrow> Metric \<Rightarrow> 64 word list result" where
  "agg_edges e m = (case edgesFor e m of Inl _ \<Rightarrow> Inl (InvalidArgument ''edgesFor'') | Inr es \<Rightarrow> Inr es)"

definition empty_histogram :: "Metric \<Rightarrow> SectorKey \<Rightarrow> SectorHistogram" where
  "empty_histogram m k = \<lparr>sh_key = k, sh_metric = m,
     sh_hist = \<lparr>hist_h = replicate kBucketCount 0, hist_n_valid = 0\<rparr>\<rparr>"

definition bump_histogram :: "nat \<Rightarrow> SectorHistogram \<Rightarrow> SectorHistogram" where
  "bump_histogram b sh = sh\<lparr>sh_hist :=
     \<lparr>hist_h = (hist_h (sh_hist sh))[b := hist_h (sh_hist sh) ! b + 1],
      hist_n_valid = hist_n_valid (sh_hist sh) + 1\<rparr>\<rparr>"

definition histogram_step ::
  "Metric \<Rightarrow> 64 word list \<Rightarrow> 64 word \<Rightarrow> EntityMetricRow \<Rightarrow> (SectorKey, SectorHistogram) rbt \<Rightarrow>
   (SectorKey, SectorHistogram) rbt result" where
  "histogram_step m e scale r agg =
     bindE (vec_at (e_metrics r) (metric_index m)) (\<lambda>mp.
     let k = sector_key r; agg1 = find_or_insert k (empty_histogram m k) agg
     in if mp_incl mp \<noteq> 0
        then bindE (bucketIndex (mp_num mp) (mp_den mp) e (mp_incl mp) scale) (\<lambda>bi.
             throw_if (bucket bi \<ge> kBucketCount) OutOfBounds
               (Inr (RBT.map_entry k (bump_histogram (bucket bi)) agg1)))
        else Inr agg1)"

definition aggregateHistograms ::
  "EntityMetricRow list \<Rightarrow> Metric \<Rightarrow> BucketEdges \<Rightarrow> SectorHistogram list result" where
  "aggregateHistograms rows m edges =
     bindE (agg_edges edges m) (\<lambda>e.
     bindE (foldE (histogram_step m e (ratioScaleFor m)) rows RBT.empty) (\<lambda>agg.
     Inr (values_of agg)))"

subsection \<open>Ratios of sums\<close>

definition empty_ratio :: "Metric \<Rightarrow> SectorKey \<Rightarrow> SectorRatio" where
  "empty_ratio m k = \<lparr>sr_key = k, sr_metric = m, sr_num = 0, sr_den = 0, sr_incl = 0, sr_fp = 0\<rparr>"

definition add_ratio :: "Metric \<Rightarrow> EntityMetricRow \<Rightarrow> SectorRatio \<Rightarrow> SectorRatio" where
  "add_ratio m r sr =
     (let mp = e_metrics r ! metric_index m
      in if mp_incl mp \<noteq> 0
         then sr\<lparr>sr_num := sr_num sr + mp_num mp, sr_den := sr_den sr + mp_den mp, sr_incl := 1\<rparr>
         else sr)"

definition finish_ratio :: "SectorRatio \<Rightarrow> SectorRatio result" where
  "finish_ratio sr =
     (if sr_incl sr \<noteq> 0 \<and> sr_den sr > 0
      then bindE (fpRatio (sr_num sr) (sr_den sr)) (\<lambda>f. Inr (sr\<lparr>sr_fp := f\<rparr>))
      else Inr sr)"

definition aggregateRatios :: "EntityMetricRow list \<Rightarrow> Metric \<Rightarrow> SectorRatio list result" where
  "aggregateRatios rows m =
     mapE finish_ratio (values_of (group_rows sector_key (empty_ratio m) (add_ratio m) rows))"

subsection \<open>Bundle and audit\<close>

record SectorAggregateBundle =
  b_hists :: "SectorHistogram list list"
  b_ratios :: "SectorRatio list list"

definition aggregateAllMetrics :: "EntityMetricRow list \<Rightarrow> BucketEdges \<Rightarrow> SectorAggregateBundle result" where
  "aggregateAllMetrics rows edges =
     bindE (mapE (\<lambda>m. bindE (aggregateHistograms rows m edges) (\<lambda>hs.
                      bindE (aggregateRatios rows m) (\<lambda>rs. Inr (hs, rs)))) all_metrics) (\<lambda>ps.
     Inr \<lparr>b_hists = map fst ps, b_ratios = map snd ps\<rparr>)"

record SectorAggregateAudit =
  hist_totals_match :: bool
  ratio_totals_match :: bool

definition auditSectorAggregate :: "EntityMetricRow list \<Rightarrow> SectorAggregateBundle \<Rightarrow> SectorAggregateAudit" where
  "auditSectorAggregate rows bundle =
     (let plain = aggregateOverAll rows in
      fold (\<lambda>m a.
        let hist_total_valid = sum_list (map (\<lambda>sh. hist_n_valid (sh_hist sh)) (b_hists bundle ! m));
            ratio_sum_num = sum_list (map sr_num (b_ratios bundle ! m));
            ratio_sum_den = sum_list (map sr_den (b_ratios bundle ! m))
        in \<lparr>hist_totals_match = hist_totals_match a \<and> hist_total_valid = agg_valid (plain ! m),
            ratio_totals_match = ratio_totals_match a \<and> ratio_sum_num = agg_num (plain ! m) \<and>
              ratio_sum_den = agg_den (plain ! m)\<rparr>)
      [0..<kMetricCount] \<lparr>hist_totals_match = True, ratio_totals_match = True\<rparr>)"

subsection \<open>Totals over groups\<close>

definition incl_weight :: "Metric \<Rightarrow> (MetricPair \<Rightarrow> 64 word) \<Rightarrow> EntityMetricRow \<Rightarrow> 64 word" where
  "incl_weight m f r = (let mp = e_metrics r ! metric_index m in if mp_incl mp \<noteq> 0 then f mp else 0)"

definition hist_upd :: "Metric \<Rightarrow> 64 word list \<Rightarrow> 64 word \<Rightarrow> EntityMetricRow \<Rightarrow> SectorHistogram \<Rightarrow> SectorHistogram" where
  "hist_upd m e scale r sh = (let mp = e_metrics r ! metric_index m in
     if mp_incl mp \<noteq> 0 then bump_histogram (bucket (projr (bucketIndex (mp_num mp) (mp_den mp) e (mp_incl mp) scale))) sh else sh)"

interpretation ratio_num: grouped_total sector_key "empty_ratio m" "add_ratio m" sr_num "incl_weight m mp_num" for m
  by unfold_locales (simp_all add: empty_ratio_def add_ratio_def incl_weight_def Let_def)

interpretation ratio_den: grouped_total sector_key "empty_ratio m" "add_ratio m" sr_den "incl_weight m mp_den" for m
  by unfold_locales (simp_all add: empty_ratio_def add_ratio_def incl_weight_def Let_def)

interpretation hist_valid: grouped_total sector_key "empty_histogram m" "hist_upd m e scale"
    "\<lambda>sh. hist_n_valid (sh_hist sh)" "incl_weight m (\<lambda>_. 1)" for m e scale
  by unfold_locales (simp_all add: empty_histogram_def hist_upd_def bump_histogram_def incl_weight_def Let_def)

lemma incl_weight_total:
  "(\<Sum>r\<leftarrow>rows. incl_weight m mp_num r) = agg_num (masked_total (map (\<lambda>r. e_metrics r ! metric_index m) rows))"
  "(\<Sum>r\<leftarrow>rows. incl_weight m mp_den r) = agg_den (masked_total (map (\<lambda>r. e_metrics r ! metric_index m) rows))"
  "(\<Sum>r\<leftarrow>rows. incl_weight m (\<lambda>_. 1) r) = agg_valid (masked_total (map (\<lambda>r. e_metrics r ! metric_index m) rows))"
  by (induction rows) (simp_all add: masked_total_def incl_weight_def Let_def)

lemma histogram_fold:
  "RBT.lookup agg = RBT.lookup t \<Longrightarrow> foldE (histogram_step m e scale) rows agg = Inr agg' \<Longrightarrow>
   RBT.lookup agg' = RBT.lookup (fold (group_step sector_key (empty_histogram m) (hist_upd m e scale)) rows t)"
proof (induction rows arbitrary: agg t)
  case (Cons r rows)
  obtain agg1 where s: "histogram_step m e scale r agg = Inr agg1" "foldE (histogram_step m e scale) rows agg1 = Inr agg'"
    using Cons.prems(2) by (auto simp: bindE_eq_Inr)
  have len: "metric_index m < length (e_metrics r)"
    using s(1) by (auto simp: histogram_step_def bindE_eq_Inr vec_at_def split: if_splits)
  have "RBT.lookup agg1 = RBT.lookup (group_step sector_key (empty_histogram m) (hist_upd m e scale) r t)"
    using s(1) len Cons.prems(1)
    by (auto simp: histogram_step_def bindE_eq_Inr throw_if_eq_Inr hist_upd_def lookup_group_step Let_def fun_eq_iff
        split: if_splits option.splits)
  from Cons.IH [OF this s(2)] show ?case by simp
qed simp

lemma aggregateHistograms_values:
  assumes "aggregateHistograms rows m edges = Inr hs"
  shows "\<exists>e. hs = values_of (group_rows sector_key (empty_histogram m) (hist_upd m e (ratioScaleFor m)) rows)"
proof -
  obtain e agg where "foldE (histogram_step m e (ratioScaleFor m)) rows RBT.empty = Inr agg" "hs = values_of agg"
    using assms by (auto simp: aggregateHistograms_def bindE_eq_Inr)
  moreover from this have "RBT.entries agg = RBT.entries (group_rows sector_key (empty_histogram m) (hist_upd m e (ratioScaleFor m)) rows)"
    using histogram_fold [OF refl] by (simp add: group_rows_def RBT.entries_lookup)
  ultimately show ?thesis by (auto simp: values_of_def)
qed

lemma mapE_list_all2: "mapE f xs = Inr ys \<Longrightarrow> list_all2 (\<lambda>x y. f x = Inr y) xs ys"
  by (induction xs arbitrary: ys) (auto simp: bindE_eq_Inr)

definition ratio_matches :: "SectorRatio \<Rightarrow> SectorRatio \<Rightarrow> bool" where
  "ratio_matches x y \<longleftrightarrow> sr_key y = sr_key x \<and> sr_num y = sr_num x \<and> sr_den y = sr_den x \<and> sr_incl y = sr_incl x \<and>
     (if sr_incl x \<noteq> 0 \<and> sr_den x > 0 then fpRatio (sr_num x) (sr_den x) = Inr (sr_fp y) else sr_fp y = sr_fp x)"

lemma aggregateRatios_values:
  assumes "aggregateRatios rows m = Inr rs"
  shows "list_all2 ratio_matches (values_of (group_rows sector_key (empty_ratio m) (add_ratio m) rows)) rs"
  using mapE_list_all2 [OF assms [unfolded aggregateRatios_def]]
  by (rule list_all2_mono) (auto simp: finish_ratio_def ratio_matches_def bindE_eq_Inr split: if_splits)

lemma list_all2_map_eq: "list_all2 R xs ys \<Longrightarrow> (\<And>x y. R x y \<Longrightarrow> f x = g y) \<Longrightarrow> map f xs = map g ys"
  by (induction rule: list_all2_induct) auto

definition hist_total :: "SectorAggregateBundle \<Rightarrow> nat \<Rightarrow> 64 word" where
  "hist_total bundle i = sum_list (map (\<lambda>sh. hist_n_valid (sh_hist sh)) (b_hists bundle ! i))"

definition ratio_total :: "(SectorRatio \<Rightarrow> 64 word) \<Rightarrow> SectorAggregateBundle \<Rightarrow> nat \<Rightarrow> 64 word" where
  "ratio_total f bundle i = sum_list (map f (b_ratios bundle ! i))"

lemma metric_index_all_metrics: "i < kMetricCount \<Longrightarrow> metric_index (all_metrics ! i) = i"
proof -
  have "map metric_index all_metrics = [0..<kMetricCount]" by code_simp
  then show "i < kMetricCount \<Longrightarrow> metric_index (all_metrics ! i) = i"
    using nth_map [of i all_metrics metric_index] by simp
qed

lemma bundle_totals:
  assumes "aggregateAllMetrics rows edges = Inr bundle" "i < kMetricCount"
  shows "hist_total bundle i = agg_valid (aggregateOverAll rows ! i) \<and>
    ratio_total sr_num bundle i = agg_num (aggregateOverAll rows ! i) \<and>
    ratio_total sr_den bundle i = agg_den (aggregateOverAll rows ! i)"
proof -
  let ?m = "all_metrics ! i"
  obtain ps where ps: "mapE (\<lambda>m. bindE (aggregateHistograms rows m edges) (\<lambda>hs.
                      bindE (aggregateRatios rows m) (\<lambda>rs. Inr (hs, rs)))) all_metrics = Inr ps"
      and b: "bundle = \<lparr>b_hists = map fst ps, b_ratios = map snd ps\<rparr>"
    using assms(1) by (auto simp: aggregateAllMetrics_def bindE_eq_Inr)
  have len: "i < length ps" using mapE_list_all2 [OF ps] assms(2) by (auto dest: list_all2_lengthD)
  obtain hs rs where h': "aggregateHistograms rows ?m edges = Inr hs" and r': "aggregateRatios rows ?m = Inr rs"
      and p: "ps ! i = (hs, rs)"
    using list_all2_nthD [OF mapE_list_all2 [OF ps], of i] assms(2) by (auto simp: bindE_eq_Inr)
  have h: "aggregateHistograms rows ?m edges = Inr (fst (ps ! i))"
      and r: "aggregateRatios rows ?m = Inr (snd (ps ! i))"
    by (simp_all add: h' r' p)
  obtain e where e: "fst (ps ! i) = values_of (group_rows sector_key (empty_histogram ?m) (hist_upd ?m e (ratioScaleFor ?m)) rows)"
    using aggregateHistograms_values [OF h] by blast
  let ?v = "values_of (group_rows sector_key (empty_ratio ?m) (add_ratio ?m) rows)"
  have s: "map sr_num (snd (ps ! i)) = map sr_num ?v" "map sr_den (snd (ps ! i)) = map sr_den ?v"
    by (rule list_all2_map_eq [OF aggregateRatios_values [OF r], symmetric], simp add: ratio_matches_def)+
  have "hist_total bundle i = (\<Sum>r\<leftarrow>rows. incl_weight ?m (\<lambda>_. 1) r)"
    using len by (simp add: hist_total_def b e hist_valid.grand_total)
  moreover have "ratio_total sr_num bundle i = (\<Sum>r\<leftarrow>rows. incl_weight ?m mp_num r)"
    using len by (simp add: ratio_total_def b s ratio_num.grand_total)
  moreover have "ratio_total sr_den bundle i = (\<Sum>r\<leftarrow>rows. incl_weight ?m mp_den r)"
    using len by (simp add: ratio_total_def b s ratio_den.grand_total)
  ultimately show ?thesis
    using assms(2) by (simp add: incl_weight_total aggregateOverAll_nth metric_index_all_metrics)
qed

subsection \<open>Properties\<close>

text \<open>The ratios of sums come out once per (sector, period) key that occurs, in ascending key order, each
  with the sums of numerators and denominators over the included rows of its key and, when some row
  was included and the denominator is not zero, the fixed-point ratio of the two.\<close>

theorem aggregateRatios_groups:
  assumes "aggregateRatios rows m = Inr rs"
  shows "map (\<lambda>sr. (sr_key sr, sr_num sr, sr_den sr)) rs =
      map (\<lambda>k. let t = masked_total (map (\<lambda>r. e_metrics r ! metric_index m) (filter (\<lambda>r. sector_key r = k) rows))
               in (k, agg_num t, agg_den t)) (sorted_list_of_set (sector_key ` set rows)) \<and>
    list_all (\<lambda>sr. if sr_incl sr \<noteq> 0 \<and> sr_den sr > 0 then fpRatio (sr_num sr) (sr_den sr) = Inr (sr_fp sr) else sr_fp sr = 0) rs"
proof -
  let ?g = "group_value sector_key (empty_ratio m) (add_ratio m) rows"
  have R: "list_all2 ratio_matches (map ?g (sorted_list_of_set (sector_key ` set rows))) rs"
    using aggregateRatios_values [OF assms] by (simp only: values_group_rows)
  have "sr_key (fold (add_ratio m) xs sr) = sr_key sr" "sr_fp (fold (add_ratio m) xs sr) = sr_fp sr" for xs sr
    by (induction xs arbitrary: sr) (simp_all add: add_ratio_def Let_def)
  then have k: "sr_key (?g k) = k" "sr_fp (?g k) = 0" for k by (simp_all add: group_value_def empty_ratio_def)
  have "map (\<lambda>sr. (sr_key sr, sr_num sr, sr_den sr)) rs =
      map (\<lambda>sr. (sr_key sr, sr_num sr, sr_den sr)) (map ?g (sorted_list_of_set (sector_key ` set rows)))"
    by (rule list_all2_map_eq [OF R, symmetric]) (simp add: ratio_matches_def)
  moreover have "list_all (\<lambda>sr. if sr_incl sr \<noteq> 0 \<and> sr_den sr > 0 then fpRatio (sr_num sr) (sr_den sr) = Inr (sr_fp sr) else sr_fp sr = 0) rs"
    unfolding list_all_length
  proof (intro allI impI)
    fix i assume "i < length rs"
    then have "ratio_matches (map ?g (sorted_list_of_set (sector_key ` set rows)) ! i) (rs ! i)"
        "i < length (sorted_list_of_set (sector_key ` set rows))"
      using R by (auto simp: list_all2_conv_all_nth)
    then show "if sr_incl (rs ! i) \<noteq> 0 \<and> sr_den (rs ! i) > 0
        then fpRatio (sr_num (rs ! i)) (sr_den (rs ! i)) = Inr (sr_fp (rs ! i)) else sr_fp (rs ! i) = 0"
      by (auto simp: ratio_matches_def k split: if_splits)
  qed
  ultimately show ?thesis
    by (simp add: comp_def k ratio_num.group_total ratio_den.group_total incl_weight_total Let_def)
qed

lemma aggregateRatios_groups_witness:
  "\<exists>rs. aggregateRatios [example_entity 300 3, example_entity 60 3, example_entity 5 1] DTI = Inr rs \<and>
    map (\<lambda>sr. (sr_num sr, sr_den sr)) rs = [(5, 100), (360, 200)] \<and>
    list_all (\<lambda>sr. fpRatio (sr_num sr) (sr_den sr) = Inr (sr_fp sr)) rs"
proof -
  have c: "case aggregateRatios [example_entity 300 3, example_entity 60 3, example_entity 5 1] DTI of
      Inl _ \<Rightarrow> False | Inr rs \<Rightarrow> map (\<lambda>sr. (sr_num sr, sr_den sr)) rs = [(5, 100), (360, 200)] \<and>
        list_all (\<lambda>sr. sr_incl sr \<noteq> 0 \<and> sr_den sr > 0) rs"
    by code_simp
  then obtain rs where rs: "aggregateRatios [example_entity 300 3, example_entity 60 3, example_entity 5 1] DTI = Inr rs"
    by (auto split: sum.splits)
  from aggregateRatios_groups [OF rs] c show ?thesis
    by (auto simp: rs list_all_iff)
qed

text \<open>C40: the audit of an aggregate bundle that was computed from the same rows always passes: per metric,
  the counts of included rows and the sums of numerators and denominators over all (sector, period)
  groups are the plain totals, modulo \<open>2 ^ 64\<close>.\<close>

theorem auditSectorAggregate_passes:
  assumes "aggregateAllMetrics rows edges = Inr bundle"
  shows "auditSectorAggregate rows bundle = \<lparr>hist_totals_match = True, ratio_totals_match = True\<rparr>"
proof -
  have "hist_total bundle i = agg_valid (aggregateOverAll rows ! i) \<and>
      ratio_total sr_num bundle i = agg_num (aggregateOverAll rows ! i) \<and>
      ratio_total sr_den bundle i = agg_den (aggregateOverAll rows ! i)" if "i < kMetricCount" for i
    using bundle_totals [OF assms that] by simp
  then have "fold (\<lambda>m a. \<lparr>hist_totals_match = hist_totals_match a \<and> hist_total bundle m = agg_valid (aggregateOverAll rows ! m),
            ratio_totals_match = ratio_totals_match a \<and> ratio_total sr_num bundle m = agg_num (aggregateOverAll rows ! m) \<and>
              ratio_total sr_den bundle m = agg_den (aggregateOverAll rows ! m)\<rparr>)
      ms a = a" if "set ms \<subseteq> {..<kMetricCount}" for ms a
    using that by (induction ms arbitrary: a) auto
  from this [of "[0..<kMetricCount]"] show ?thesis
    by (simp add: auditSectorAggregate_def Let_def hist_total_def ratio_total_def atLeast0LessThan)
qed

lemma auditSectorAggregate_passes_witness:
  "\<exists>bundle. aggregateAllMetrics [example_entity 300 3, example_entity 60 3, example_entity 5 1] example_edges = Inr bundle \<and>
    auditSectorAggregate [example_entity 300 3, example_entity 60 3, example_entity 5 1] bundle =
      \<lparr>hist_totals_match = True, ratio_totals_match = True\<rparr>"
proof -
  have "case aggregateAllMetrics [example_entity 300 3, example_entity 60 3, example_entity 5 1] example_edges of
      Inl _ \<Rightarrow> False | Inr _ \<Rightarrow> True"
    by code_simp
  then obtain b where b: "aggregateAllMetrics [example_entity 300 3, example_entity 60 3, example_entity 5 1] example_edges = Inr b"
    by (auto split: sum.splits)
  show ?thesis using auditSectorAggregate_passes [OF b] b by blast
qed

end
