(* ===== verification/Sector_Agg_Wire.thy ===== *)
theory Sector_Agg_Wire
  imports Sector_Agg Inclusion_Wire Beaver_Triple
begin

text \<open>
  Aggregation per sector and period on secret shares (\<open>volePSI/MpsvsSectorAggWire.h\<close>,
  \<open>volePSI/MpsvsSectorAggWire.cpp\<close>): the conversion of a shared bit to an arithmetic sharing, of a
  shared 64-bit value bit by bit, and the gated sums. The bit triples the caller passes are not
  used, so they are no argument of the model.

  The conversion reads the shares of the parties 0 and 1 only: it is right for two parties, and
  \<open>b2a_three_parties\<close> shows a sharing among three that it converts to another bit.
\<close>

record SharedSectorHistogram =
  ss_key :: SectorKey
  ss_metric :: Metric
  ss_num :: SharedU64
  ss_den :: SharedU64
  ss_valid :: SharedU64

record PlainCellReconstructed =
  pc_key :: SectorKey
  pc_metric :: Metric
  pc_num :: "64 word"
  pc_den :: "64 word"
  pc_valid :: "64 word"

definition bitToArithProper ::
  "'g prng \<Rightarrow> BeaverTripleU64 list \<Rightarrow> SharedBit \<Rightarrow> nat \<Rightarrow> 'g \<Rightarrow> (SharedU64 \<times> nat \<times> 'g) result" where
  "bitToArithProper G atriples b idx g =
     throw_if (idx \<ge> length atriples) (RuntimeError ''arith triple bag exhausted (B2A)'')
       (bindE (vec_at (bit_shares b) 0) (\<lambda>s0.
        bindE (shareU64 G (bit_N b) (ucast (s0 AND 1)) g) (\<lambda>(a0, g1).
        bindE (vec_at (bit_shares b) 1) (\<lambda>s1.
        bindE (shareU64 G (bit_N b) (ucast (s1 AND 1)) g1) (\<lambda>(a1, g2).
        bindE (secureMultiply a0 a1 (atriples ! idx)) (\<lambda>a_prod.
        bindE (addShared a0 a1) (\<lambda>sum.
        bindE (subShared sum (mulConst a_prod 2)) (\<lambda>out. Inr (out, Suc idx, g2)))))))))"

definition sectorAggTripleBudgetPerRow :: "64 word" where
  "sectorAggTripleBudgetPerRow = 9 * (1 + 64 + 64 + 1 + 1) + 100"

definition sharedU64BinToArith ::
  "'g prng \<Rightarrow> BeaverTripleU64 list \<Rightarrow> SharedU64Bin \<Rightarrow> nat \<Rightarrow> 'g \<Rightarrow> (SharedU64 \<times> nat \<times> 'g) result" where
  "sharedU64BinToArith G atr v idx g =
     foldE (\<lambda>i (acc, idx, g).
         bindE (vec_at (bin_bits v) i) (\<lambda>b.
         bindE (bitToArithProper G atr b idx g) (\<lambda>(bit_arith, idx', g').
         bindE (addShared acc (mulConst bit_arith (push_bit i 1))) (\<lambda>acc'. Inr (acc', idx', g')))))
       [0..<64] (u64_zero (bin_N v), idx, g)"

definition wire_empty_cell ::
  "'g prng \<Rightarrow> Metric \<Rightarrow> SectorKey \<Rightarrow> nat \<Rightarrow> 'g \<Rightarrow> (SharedSectorHistogram \<times> 'g) result" where
  "wire_empty_cell G m k N g =
     bindE (shareU64 G N 0 g) (\<lambda>(sn, g1).
     bindE (shareU64 G N 0 g1) (\<lambda>(sd, g2).
     bindE (shareU64 G N 0 g2) (\<lambda>(nv, g3).
     Inr (\<lparr>ss_key = k, ss_metric = m, ss_num = sn, ss_den = sd, ss_valid = nv\<rparr>, g3))))"

definition wire_row_key :: "SharedEntityMetricRow \<Rightarrow> SectorKey" where
  "wire_row_key r = SectorKey (ucast (se_sector r)) (se_period r)"

text \<open>The entry of a row's key, inserted if it is missing, and the row added to it. Reading a
  triple past the end of the bag is out of bounds, as there is no check before the products.\<close>

definition wire_entry ::
  "'g prng \<Rightarrow> Metric \<Rightarrow> SharedEntityMetricRow \<Rightarrow> (SectorKey, SharedSectorHistogram) rbt \<Rightarrow> 'g \<Rightarrow>
   ((SectorKey, SharedSectorHistogram) rbt \<times> 'g) result" where
  "wire_entry G m r agg g =
     (case RBT.lookup agg (wire_row_key r) of
        Some _ \<Rightarrow> Inr (agg, g)
      | None \<Rightarrow> bindE (wire_empty_cell G m (wire_row_key r) (bit_N (se_live r)) g) (\<lambda>(sh, g').
          Inr (RBT.insert (wire_row_key r) sh agg, g')))"

definition add_wire_cell ::
  "SharedSectorHistogram \<Rightarrow> SharedU64 \<Rightarrow> SharedU64 \<Rightarrow> SharedU64 \<Rightarrow> SharedSectorHistogram result" where
  "add_wire_cell sh gated_num gated_den incl_arith =
     bindE (addShared (ss_num sh) gated_num) (\<lambda>sn.
     bindE (addShared (ss_den sh) gated_den) (\<lambda>sd.
     bindE (addShared (ss_valid sh) incl_arith) (\<lambda>nv.
     Inr (sh\<lparr>ss_num := sn, ss_den := sd, ss_valid := nv\<rparr>))))"

definition wire_agg_row ::
  "'g prng \<Rightarrow> Metric \<Rightarrow> BeaverTripleU64 list \<Rightarrow> SharedEntityMetricRow \<Rightarrow>
   (SectorKey, SharedSectorHistogram) rbt \<times> nat \<times> 'g \<Rightarrow> ((SectorKey, SharedSectorHistogram) rbt \<times> nat \<times> 'g) result" where
  "wire_agg_row G m atr r = (\<lambda>(agg, idx, g).
     bindE (wire_entry G m r agg g) (\<lambda>(agg1, g1).
     bindE (vec_at (se_metrics r) (metric_index m)) (\<lambda>mp.
     bindE (bitToArithProper G atr (sm_incl mp) idx g1) (\<lambda>(incl_arith, idx2, g2).
     bindE (sharedU64BinToArith G atr (sm_num mp) idx2 g2) (\<lambda>(num_arith, idx3, g3).
     bindE (sharedU64BinToArith G atr (sm_den mp) idx3 g3) (\<lambda>(den_arith, idx4, g4).
     bindE (vec_at atr idx4) (\<lambda>t1.
     bindE (secureMultiply incl_arith num_arith t1) (\<lambda>gated_num.
     bindE (vec_at atr (Suc idx4)) (\<lambda>t2.
     bindE (secureMultiply incl_arith den_arith t2) (\<lambda>gated_den.
     bindE (add_wire_cell (the (RBT.lookup agg1 (wire_row_key r))) gated_num gated_den incl_arith) (\<lambda>sh.
     Inr (RBT.insert (wire_row_key r) sh agg1, idx4 + 2, g4))))))))))))"

definition aggregateHistogramsWire ::
  "'g prng \<Rightarrow> SharedEntityMetricRow list \<Rightarrow> Metric \<Rightarrow> 'g \<Rightarrow> (SharedSectorHistogram list \<times> 'g) result" where
  "aggregateHistogramsWire G rows m g =
     bindE (generateBeaverTriples G (case rows of [] \<Rightarrow> 2 | r # _ \<Rightarrow> bit_N (se_live r))
              (length rows * (1 + 64 + 64 + 1 + 1)) g) (\<lambda>(atriples, g1).
     bindE (foldE (wire_agg_row G m atriples) rows (RBT.empty, 0, g1)) (\<lambda>(agg, _, g2).
     Inr (values_of agg, g2)))"

definition reconstructCell :: "SharedSectorHistogram \<Rightarrow> PlainCellReconstructed" where
  "reconstructCell s = \<lparr>pc_key = ss_key s, pc_metric = ss_metric s, pc_num = u64_reconstruct (ss_num s),
     pc_den = u64_reconstruct (ss_den s), pc_valid = u64_reconstruct (ss_valid s)\<rparr>"

subsection \<open>Conversion to arithmetic shares\<close>

definition arith_bag :: "BeaverTripleU64 list \<Rightarrow> bool" where
  "arith_bag ts \<longleftrightarrow> (\<forall>t\<in>set ts. triple_ok 2 t)"

lemma two_bits: "(of_bool p :: 64 word) + of_bool q - of_bool p * of_bool q * 2 = of_bool (p \<noteq> q)"
  by (cases p; cases q) simp_all

lemma ucast_and_1: "(ucast ((s :: 8 word) AND 1) :: 64 word) = of_bool (bit s 0)"
  by (simp add: and_one_eq mod_2_eq_odd bit_0)

lemma bit_pair:
  assumes "bit_N b = 2"
  obtains s0 s1 where "bit_shares b = [s0, s1]" "bval b = (bit s0 0 \<noteq> bit s1 0)"
proof -
  obtain s0 s1 where s: "bit_shares b = [s0, s1]"
    using assms by (auto simp: bit_N_def numeral_2_eq_2 length_Suc_conv)
  then have "bval b = (bit s0 0 \<noteq> bit s1 0)"
    by (auto simp: bval_def bit_reconstruct_def bit_simps)
  with s show ?thesis by (rule that)
qed

lemma b2a_returns:
  assumes "bit_N b = 2" "arith_bag ts" "idx < length ts"
  shows "returns (bitToArithProper G ts b idx g)
    (\<lambda>(x, idx', g'). u64_N x = 2 \<and> u64_reconstruct x = of_bool (bval b) \<and> idx' = Suc idx)"
proof -
  obtain s0 s1 where s: "bit_shares b = [s0, s1]" "bval b = (bit s0 0 \<noteq> bit s1 0)"
    using assms(1) by (rule bit_pair)
  obtain a0 g1 where a0: "shareU64 G 2 (ucast (s0 AND 1)) g = Inr (a0, g1)" "u64_N a0 = 2"
      "u64_reconstruct a0 = of_bool (bit s0 0)"
    using shareU64_returns [of 2 G "ucast (s0 AND 1)" g] by (auto simp: ucast_and_1 returns_def)
  obtain a1 g2 where a1: "shareU64 G 2 (ucast (s1 AND 1)) g1 = Inr (a1, g2)" "u64_N a1 = 2"
      "u64_reconstruct a1 = of_bool (bit s1 0)"
    using shareU64_returns [of 2 G "ucast (s1 AND 1)" g1] by (auto simp: ucast_and_1 returns_def)
  have "triple_ok 2 (ts ! idx)" using assms(2,3) by (simp add: arith_bag_def)
  from secureMultiply_returns [OF _ a0(2) a1(2) this]
  obtain p where p: "secureMultiply a0 a1 (ts ! idx) = Inr p" "u64_N p = 2"
      "u64_reconstruct p = of_bool (bit s0 0) * of_bool (bit s1 0)"
    using a0(3) a1(3) by (auto simp: returns_def)
  obtain q where q: "addShared a0 a1 = Inr q" "u64_N q = 2" "u64_reconstruct q = of_bool (bit s0 0) + of_bool (bit s1 0)"
    using addShared_returns [of a0 a1] a0 a1 by (auto simp: returns_def)
  obtain r where r: "subShared q (mulConst p 2) = Inr r" "u64_N r = 2"
      "u64_reconstruct r = of_bool (bit s0 0) + of_bool (bit s1 0) - of_bool (bit s0 0) * of_bool (bit s1 0) * 2"
    using subShared_returns [of q "mulConst p 2"] q p by (auto simp: returns_def)
  show ?thesis
    using assms s(2) r(2,3)
    by (simp add: bitToArithProper_def s(1) a0(1) a1(1) p(1) q(1) r(1) two_bits)
qed

lemma b2a_three_parties:
  "\<exists>b x idx g. bit_N b = 3 \<and> bval b \<and>
     bitToArithProper counter_prng [\<lparr>tu = u64_zero 3, tv = u64_zero 3, tw = u64_zero 3\<rparr>] b 0 0 = Inr (x, idx, g) \<and>
     u64_reconstruct x = 0"
proof -
  have "case bitToArithProper counter_prng [\<lparr>tu = u64_zero 3, tv = u64_zero 3, tw = u64_zero 3\<rparr>]
      \<lparr>bit_shares = [0, 0, 1]\<rparr> 0 0 of Inl _ \<Rightarrow> False | Inr (x, _) \<Rightarrow> u64_reconstruct x = 0"
    by code_simp
  moreover have "bit_N \<lparr>bit_shares = [0, 0, 1]\<rparr> = 3" "bval \<lparr>bit_shares = [0, 0, 1]\<rparr>" by code_simp+
  ultimately show ?thesis by (auto split: sum.splits prod.splits)
qed

lemma bin_b2a_returns:
  fixes g :: 'g
  assumes "bin_ok 2 v" "arith_bag ts" "idx + 64 \<le> length ts"
  shows "returns (sharedU64BinToArith G ts v idx g)
    (\<lambda>(x, idx', g'). u64_N x = 2 \<and> u64_reconstruct x = bin_reconstruct v \<and> idx' = idx + 64)"
proof -
  let ?f = "\<lambda>i (acc, idx, g :: 'g). bindE (vec_at (bin_bits v) i) (\<lambda>b.
         bindE (bitToArithProper G ts b idx g) (\<lambda>(bit_arith, idx', g').
         bindE (addShared acc (mulConst bit_arith (push_bit i 1))) (\<lambda>acc'. Inr (acc', idx', g'))))"
  let ?I = "\<lambda>i (acc, k, g :: 'g). u64_N acc = 2 \<and> u64_reconstruct acc = take_bit i (bin_reconstruct v) \<and> k = idx + i"
  have "returns (foldE ?f [0..<64] (u64_zero 2, idx, g)) (?I 64)"
  proof (rule returns_foldE_upt)
    fix i and s :: "SharedU64 \<times> nat \<times> 'g"
    assume i: "i < 64" and I: "?I i s"
    obtain acc g1 where s: "s = (acc, idx + i, g1)" "u64_N acc = 2" "u64_reconstruct acc = take_bit i (bin_reconstruct v)"
      using I by (cases s) auto
    have b: "bit_N (bin_bits v ! i) = 2" "i < length (bin_bits v)"
      using assms(1) i by (auto simp: bin_ok_def)
    obtain x g2 where x: "bitToArithProper G ts (bin_bits v ! i) (idx + i) g1 = Inr (x, Suc (idx + i), g2)"
        "u64_N x = 2" "u64_reconstruct x = of_bool (bin_bit v i)"
      using b2a_returns [OF b(1) assms(2), of "idx + i" G g1] assms(3) i by (auto simp: returns_def)
    obtain acc' where a: "addShared acc (mulConst x (push_bit i 1)) = Inr acc'" "u64_N acc' = 2"
        "u64_reconstruct acc' = u64_reconstruct acc + u64_reconstruct x * push_bit i 1"
      using addShared_returns [of acc "mulConst x (push_bit i 1)"] s(2) x(2) by (auto simp: returns_def)
    have "u64_reconstruct acc' = take_bit (Suc i) (bin_reconstruct v)"
      using i by (simp add: a(3) s(3) x(3) take_bit_Suc_word bit_bin_reconstruct push_bit_of_1)
    then show "returns (?f i s) (?I (Suc i))"
      using b by (simp add: s(1) x(1) a(1) [unfolded push_bit_of_1] a(2) push_bit_of_1)
  qed simp
  then show ?thesis
    using assms(1) by (simp add: sharedU64BinToArith_def bin_ok_N take_bit_word_eq_self)
qed

subsection \<open>Cells\<close>

definition cell_opens :: "SharedSectorHistogram \<Rightarrow> PlainCellReconstructed \<Rightarrow> bool" where
  "cell_opens s c \<longleftrightarrow> u64_N (ss_num s) = 2 \<and> u64_N (ss_den s) = 2 \<and> u64_N (ss_valid s) = 2 \<and> reconstructCell s = c"

definition empty_cell :: "Metric \<Rightarrow> SectorKey \<Rightarrow> PlainCellReconstructed" where
  "empty_cell m k = \<lparr>pc_key = k, pc_metric = m, pc_num = 0, pc_den = 0, pc_valid = 0\<rparr>"

definition add_cell :: "Metric \<Rightarrow> EntityMetricRow \<Rightarrow> PlainCellReconstructed \<Rightarrow> PlainCellReconstructed" where
  "add_cell m r c = c\<lparr>pc_num := pc_num c + incl_weight m mp_num r, pc_den := pc_den c + incl_weight m mp_den r,
     pc_valid := pc_valid c + incl_weight m (\<lambda>_. 1) r\<rparr>"

interpretation cell_num: grouped_total sector_key "empty_cell m" "add_cell m" pc_num "incl_weight m mp_num" for m
  by unfold_locales (simp_all add: empty_cell_def add_cell_def)

interpretation cell_den: grouped_total sector_key "empty_cell m" "add_cell m" pc_den "incl_weight m mp_den" for m
  by unfold_locales (simp_all add: empty_cell_def add_cell_def)

interpretation cell_valid: grouped_total sector_key "empty_cell m" "add_cell m" pc_valid "incl_weight m (\<lambda>_. 1)" for m
  by unfold_locales (simp_all add: empty_cell_def add_cell_def)

definition wire_row_ok :: "Metric \<Rightarrow> SharedEntityMetricRow \<Rightarrow> bool" where
  "wire_row_ok m r \<longleftrightarrow> bit_N (se_live r) = 2 \<and> length (se_metrics r) = kMetricCount \<and>
     (let p = se_metrics r ! metric_index m in bin_ok 2 (sm_num p) \<and> bin_ok 2 (sm_den p) \<and> bit_N (sm_incl p) = 2)"

text \<open>The plaintext total of a key over the opened rows.\<close>

definition sector_total :: "Metric \<Rightarrow> EntityMetricRow list \<Rightarrow> SectorKey \<Rightarrow> PlainCellReconstructed" where
  "sector_total m rows k =
     (let t = masked_total (map (\<lambda>r. e_metrics r ! metric_index m) (filter (\<lambda>r. sector_key r = k) rows))
      in \<lparr>pc_key = k, pc_metric = m, pc_num = agg_num t, pc_den = agg_den t, pc_valid = agg_valid t\<rparr>)"

lemma cell_group_value: "group_value sector_key (empty_cell m) (add_cell m) rows = sector_total m rows"
proof
  fix k
  have "pc_key (fold (add_cell m) xs c) = pc_key c" "pc_metric (fold (add_cell m) xs c) = pc_metric c" for xs c
    by (induction xs arbitrary: c) (simp_all add: add_cell_def)
  then have "pc_key (group_value sector_key (empty_cell m) (add_cell m) rows k) = k"
      "pc_metric (group_value sector_key (empty_cell m) (add_cell m) rows k) = m"
    by (simp_all add: group_value_def empty_cell_def)
  then show "group_value sector_key (empty_cell m) (add_cell m) rows k = sector_total m rows k"
    by (simp add: sector_total_def Let_def cell_num.group_total cell_den.group_total cell_valid.group_total
        incl_weight_total)
qed

lemma wire_row_key_opens: "wire_row_key r = sector_key (reconstructEntityMetricRow r)"
  by (simp add: wire_row_key_def sector_key_def reconstructEntityMetricRow_def)

lemma wire_empty_cell_returns:
  "returns (wire_empty_cell G m k 2 g) (\<lambda>(sh, g'). cell_opens sh (empty_cell m k))"
proof -
  obtain a g1 where a: "shareU64 G 2 0 g = Inr (a, g1)" "u64_N a = 2" "u64_reconstruct a = 0"
    using shareU64_returns [of 2 G 0 g] by (auto simp: returns_def)
  obtain b g2 where b: "shareU64 G 2 0 g1 = Inr (b, g2)" "u64_N b = 2" "u64_reconstruct b = 0"
    using shareU64_returns [of 2 G 0 g1] by (auto simp: returns_def)
  obtain c g3 where c: "shareU64 G 2 0 g2 = Inr (c, g3)" "u64_N c = 2" "u64_reconstruct c = 0"
    using shareU64_returns [of 2 G 0 g2] by (auto simp: returns_def)
  show ?thesis
    by (simp add: wire_empty_cell_def a b c cell_opens_def reconstructCell_def empty_cell_def)
qed

lemma add_wire_cell_returns:
  assumes "cell_opens sh c" "u64_N a = 2" "u64_N b = 2" "u64_N i = 2"
  shows "returns (add_wire_cell sh a b i) (\<lambda>sh'. cell_opens sh' (c\<lparr>pc_num := pc_num c + u64_reconstruct a,
    pc_den := pc_den c + u64_reconstruct b, pc_valid := pc_valid c + u64_reconstruct i\<rparr>))"
proof -
  obtain x where x: "addShared (ss_num sh) a = Inr x" "u64_N x = 2" "u64_reconstruct x = pc_num c + u64_reconstruct a"
    using addShared_returns [of "ss_num sh" a] assms by (auto simp: returns_def cell_opens_def reconstructCell_def)
  obtain y where y: "addShared (ss_den sh) b = Inr y" "u64_N y = 2" "u64_reconstruct y = pc_den c + u64_reconstruct b"
    using addShared_returns [of "ss_den sh" b] assms by (auto simp: returns_def cell_opens_def reconstructCell_def)
  obtain z where z: "addShared (ss_valid sh) i = Inr z" "u64_N z = 2" "u64_reconstruct z = pc_valid c + u64_reconstruct i"
    using addShared_returns [of "ss_valid sh" i] assms by (auto simp: returns_def cell_opens_def reconstructCell_def)
  show ?thesis
    using assms(1) by (auto simp: add_wire_cell_def x y z cell_opens_def reconstructCell_def)
qed

definition agg_opens ::
  "(SectorKey, SharedSectorHistogram) rbt \<Rightarrow> (SectorKey, PlainCellReconstructed) rbt \<Rightarrow> bool" where
  "agg_opens agg t \<longleftrightarrow> (\<forall>k. rel_option cell_opens (RBT.lookup agg k) (RBT.lookup t k))"

lemma wire_entry_returns:
  assumes "agg_opens agg t" "bit_N (se_live r) = 2"
  shows "returns (wire_entry G m r agg g)
    (\<lambda>(agg', g'). agg_opens agg' (find_or_insert (wire_row_key r) (empty_cell m (wire_row_key r)) t))"
proof (cases "RBT.lookup agg (wire_row_key r)")
  case None
  then have "RBT.lookup t (wire_row_key r) = None"
    using assms(1) by (metis agg_opens_def rel_option_None1)
  then show ?thesis
    using None wire_empty_cell_returns [of G m "wire_row_key r" g] assms
    by (auto simp: wire_entry_def agg_opens_def find_or_insert_def returns_bindE elim!: returns_mono)
next
  case (Some sh)
  then have "\<exists>c. RBT.lookup t (wire_row_key r) = Some c"
    using assms(1) by (metis agg_opens_def option_rel_Some1)
  then show ?thesis
    using Some assms(1) by (auto simp: wire_entry_def find_or_insert_def)
qed

lemma open_incl_weight:
  assumes "wire_row_ok m r" "m \<noteq> METRIC_COUNT"
  shows "incl_weight m f (reconstructEntityMetricRow r) =
     (let p = se_metrics r ! metric_index m in of_bool (bval (sm_incl p)) * f (open_pair p))"
  using metric_index_lt [OF assms(2)]
  by (simp add: incl_weight_def reconstructEntityMetricRow_def open_pair_def bit_reconstruct_bval Let_def)

lemma wire_agg_row_returns:
  assumes "agg_opens agg t" "wire_row_ok m r" "m \<noteq> METRIC_COUNT" "arith_bag ts" "idx + 131 \<le> length ts"
  shows "returns (wire_agg_row G m ts r (agg, idx, g)) (\<lambda>(agg', idx', g').
    agg_opens agg' (group_step sector_key (empty_cell m) (add_cell m) (reconstructEntityMetricRow r) t) \<and> idx' = idx + 131)"
proof -
  let ?k = "wire_row_key r" and ?p = "se_metrics r ! metric_index m" and ?r = "reconstructEntityMetricRow r"
  let ?t1 = "find_or_insert ?k (empty_cell m ?k) t"
  have ok: "bin_ok 2 (sm_num ?p)" "bin_ok 2 (sm_den ?p)" "bit_N (sm_incl ?p) = 2" "bit_N (se_live r) = 2"
      "metric_index m < length (se_metrics r)"
    using assms(2) metric_index_lt [OF assms(3)] by (auto simp: wire_row_ok_def Let_def)
  obtain agg1 g1 where e: "wire_entry G m r agg g = Inr (agg1, g1)" "agg_opens agg1 ?t1"
    using wire_entry_returns [OF assms(1) ok(4), of G m g] by (auto simp: returns_def)
  obtain i g2 where i: "bitToArithProper G ts (sm_incl ?p) idx g1 = Inr (i, idx + 1, g2)" "u64_N i = 2"
      "u64_reconstruct i = of_bool (bval (sm_incl ?p))"
    using b2a_returns [OF ok(3) assms(4), of idx G g1] assms(5) by (auto simp: returns_def)
  obtain n g3 where n: "sharedU64BinToArith G ts (sm_num ?p) (Suc idx) g2 = Inr (n, idx + 65, g3)" "u64_N n = 2"
      "u64_reconstruct n = bin_reconstruct (sm_num ?p)"
    using bin_b2a_returns [OF ok(1) assms(4), of "Suc idx" G g2] assms(5) by (auto simp: returns_def)
  obtain d g4 where d: "sharedU64BinToArith G ts (sm_den ?p) (idx + 65) g3 = Inr (d, idx + 129, g4)" "u64_N d = 2"
      "u64_reconstruct d = bin_reconstruct (sm_den ?p)"
    using bin_b2a_returns [OF ok(2) assms(4), of "idx + 65" G g3] assms(5) by (auto simp: returns_def)
  have t: "triple_ok 2 (ts ! (idx + 129))" "triple_ok 2 (ts ! (idx + 130))" "idx + 130 < length ts"
    using assms(4,5) by (auto simp: arith_bag_def)
  obtain gn where gn: "secureMultiply i n (ts ! (idx + 129)) = Inr gn" "u64_N gn = 2"
      "u64_reconstruct gn = of_bool (bval (sm_incl ?p)) * bin_reconstruct (sm_num ?p)"
    using secureMultiply_returns [OF _ i(2) n(2) t(1)] i(3) n(3) by (auto simp: returns_def)
  obtain gd where gd: "secureMultiply i d (ts ! (idx + 130)) = Inr gd" "u64_N gd = 2"
      "u64_reconstruct gd = of_bool (bval (sm_incl ?p)) * bin_reconstruct (sm_den ?p)"
    using secureMultiply_returns [OF _ i(2) d(2) t(2)] i(3) d(3) by (auto simp: returns_def)
  obtain c where c: "RBT.lookup ?t1 ?k = Some c" by simp
  then obtain sh where sh: "RBT.lookup agg1 ?k = Some sh" "cell_opens sh c"
    using e(2) by (metis agg_opens_def option_rel_Some2)
  obtain sh' where sh': "add_wire_cell sh gn gd i = Inr sh'" "cell_opens sh' (add_cell m ?r c)"
    using add_wire_cell_returns [OF sh(2) gn(2) gd(2) i(2)] open_incl_weight [OF assms(2,3)]
    by (auto simp: returns_def add_cell_def gn(3) gd(3) i(3) Let_def open_pair_def)
  have "agg_opens (RBT.insert ?k sh' agg1) (group_step sector_key (empty_cell m) (add_cell m) ?r t)"
    unfolding agg_opens_def
  proof
    fix k
    show "rel_option cell_opens (RBT.lookup (RBT.insert ?k sh' agg1) k)
        (RBT.lookup (group_step sector_key (empty_cell m) (add_cell m) ?r t) k)"
      using e(2) [unfolded agg_opens_def, rule_format, of k] c sh'(2)
      unfolding lookup_group_step wire_row_key_opens lookup_find_or_insert
      by (cases "k = sector_key ?r") (auto simp: wire_row_key_opens)
  qed
  then show ?thesis
    using t(3) ok(5) by (simp add: wire_agg_row_def e(1) i(1) n(1) d(1) gn(1) gd(1) add.commute [of 130] add.commute [of 131] sh(1) sh'(1))
qed

lemma wire_agg_fold:
  assumes "list_all (wire_row_ok m) rows" "m \<noteq> METRIC_COUNT" "arith_bag ts"
  shows "agg_opens agg t \<Longrightarrow> idx + 131 * length rows \<le> length ts \<Longrightarrow>
    returns (foldE (wire_agg_row G m ts) rows (agg, idx, g)) (\<lambda>(agg', idx', g').
      agg_opens agg' (fold (group_step sector_key (empty_cell m) (add_cell m)) (map reconstructEntityMetricRow rows) t))"
  using assms(1)
proof (induction rows arbitrary: agg t idx g)
  case (Cons r rows)
  obtain agg1 g1 where s: "wire_agg_row G m ts r (agg, idx, g) = Inr (agg1, idx + 131, g1)"
      "agg_opens agg1 (group_step sector_key (empty_cell m) (add_cell m) (reconstructEntityMetricRow r) t)"
    using wire_agg_row_returns [OF Cons.prems(1) _ assms(2,3), of r idx G g] Cons.prems(2,3) by (auto simp: returns_def)
  from Cons.IH [OF s(2), of "idx + 131" g1] show ?case
    using Cons.prems by (simp add: s(1))
qed simp

lemma agg_opens_values:
  assumes "agg_opens agg t"
  shows "list_all2 cell_opens (values_of agg) (values_of t)"
proof -
  have r: "rel_option cell_opens (RBT.lookup agg k) (RBT.lookup t k)" for k
    using assms by (simp add: agg_opens_def)
  have d: "(RBT.lookup agg k = None) = (RBT.lookup t k = None)" for k
    using r [of k] by (cases "RBT.lookup agg k"; cases "RBT.lookup t k") simp_all
  have "set (RBT.keys agg) = set (RBT.keys t)"
    unfolding RBT.lookup_keys [symmetric] by (auto simp: dom_def d)
  then have k: "RBT.keys agg = RBT.keys t" by (intro sorted_distinct_set_unique) simp_all
  have "cell_opens (the (RBT.lookup agg k)) (the (RBT.lookup t k))" if "k \<in> set (RBT.keys t)" for k
    using r [of k] that by (cases "RBT.lookup t k") (auto simp: RBT.lookup_keys [symmetric] option_rel_Some2)
  then show ?thesis by (simp add: values_of_lookup k list_all2_map1 list_all2_map2 list_all2_same)
qed

lemma aggregateHistogramsWire_returns:
  assumes "list_all (wire_row_ok m) rows" "m \<noteq> METRIC_COUNT"
  shows "returns (aggregateHistogramsWire G rows m g) (\<lambda>(hs, g'). list_all2 cell_opens hs
    (let ps = map reconstructEntityMetricRow rows in map (sector_total m ps) (sorted_list_of_set (sector_key ` set ps))))"
proof -
  have N: "(case rows of [] \<Rightarrow> 2 | r # _ \<Rightarrow> bit_N (se_live r)) = 2"
    using assms(1) by (cases rows) (auto simp: wire_row_ok_def)
  obtain ts g1 where ts: "generateBeaverTriples G 2 (length rows * 131) g = Inr (ts, g1)"
      "length ts = length rows * 131" "arith_bag ts"
    using generateBeaverTriples_returns [of 2 G "length rows * 131" g] by (auto simp: returns_def arith_bag_def)
  have "agg_opens RBT.empty RBT.empty" by (simp add: agg_opens_def)
  from wire_agg_fold [OF assms ts(3) this, of 0 G g1] ts(2)
  obtain agg k g2 where agg: "foldE (wire_agg_row G m ts) rows (RBT.empty, 0, g1) = Inr (agg, k, g2)"
      "agg_opens agg (group_rows sector_key (empty_cell m) (add_cell m) (map reconstructEntityMetricRow rows))"
    by (auto simp: returns_def group_rows_def)
  show ?thesis
    using agg_opens_values [OF agg(2)]
    by (simp add: aggregateHistogramsWire_def N ts(1) agg(1) values_group_rows cell_group_value)
qed

subsection \<open>Properties\<close>

text \<open>C15: the secret-shared aggregation is the plaintext one. For two parties and well-formed shared rows it
  returns, whatever the randomness, and its cells open to one cell per (sector, period) that
  occurs, in ascending order, each with the sums of numerators and denominators and the number of
  the opened rows of that key that are included.\<close>

theorem aggregateHistogramsWire_opens:
  assumes "list_all (wire_row_ok m) rows" "m \<noteq> METRIC_COUNT"
  shows "\<exists>hs g'. aggregateHistogramsWire G rows m g = Inr (hs, g') \<and>
    map reconstructCell hs =
      (let ps = map reconstructEntityMetricRow rows in map (sector_total m ps) (sorted_list_of_set (sector_key ` set ps)))"
proof -
  obtain hs g' where h: "aggregateHistogramsWire G rows m g = Inr (hs, g')"
    "list_all2 cell_opens hs (let ps = map reconstructEntityMetricRow rows in
       map (sector_total m ps) (sorted_list_of_set (sector_key ` set ps)))"
    using aggregateHistogramsWire_returns [OF assms, of G g] by (auto simp: returns_def)
  from h(2) have "map reconstructCell hs = (let ps = map reconstructEntityMetricRow rows in
       map (sector_total m ps) (sorted_list_of_set (sector_key ` set ps)))"
    by (auto simp: list_all2_conv_all_nth cell_opens_def intro: nth_equalityI)
  with h(1) show ?thesis by blast
qed

text \<open>A shared row of two parties with one included metric.\<close>

definition example_bin :: "64 word \<Rightarrow> SharedU64Bin" where
  "example_bin v = \<lparr>bin_bits = map (\<lambda>i. \<lparr>bit_shares = [of_bool (bit v i), 0]\<rparr>) [0..<64]\<rparr>"

definition example_shared_row :: "64 word \<Rightarrow> 32 word \<Rightarrow> SharedEntityMetricRow" where
  "example_shared_row n s = (let one = \<lparr>bit_shares = [0, 1]\<rparr>; zero = \<lparr>bit_shares = [1, 1]\<rparr> in
     \<lparr>se_bin = 0, se_period = 202601, se_sector = s, se_conflict = 0, se_live = one, se_MAS = one, se_DOS = one,
      se_MOM = zero, se_metrics = \<lparr>sm_num = example_bin n, sm_den = example_bin 100, sm_incl = one\<rparr> #
        replicate 8 \<lparr>sm_num = example_bin 0, sm_den = example_bin 0, sm_incl = zero\<rparr>,
      se_vuln = one, se_avail = example_bin 1\<rparr>)"

lemma example_shared_row_ok: "wire_row_ok DTI (example_shared_row n s)"
  by (simp add: wire_row_ok_def example_shared_row_def bin_ok_def example_bin_def bit_N_def kMetricCount_def Let_def)

lemma example_bin_reconstruct: "bin_reconstruct (example_bin v) = v"
  by (rule bin_reconstruct_eqI) (simp add: example_bin_def bval_def bit_reconstruct_def bit_simps)

lemma example_row_opens: "reconstructEntityMetricRow (example_shared_row n s) = example_entity n (ucast s)"
proof -
  have "map (\<lambda>i. open_pair (se_metrics (example_shared_row n s) ! i)) [0..<kMetricCount] = e_metrics (example_entity n (ucast s))"
    by (simp add: example_shared_row_def example_entity_def kMetricCount_def open_pair_def example_bin_reconstruct
        bit_reconstruct_def numeral_eq_Suc Let_def)
  then show ?thesis
    by (simp add: reconstructEntityMetricRow_def)
      (simp add: example_shared_row_def example_entity_def example_bin_reconstruct bit_reconstruct_def Let_def)
qed

lemma aggregateHistogramsWire_opens_witness:
  "\<exists>hs g'. aggregateHistogramsWire counter_prng [example_shared_row 300 3, example_shared_row 60 3, example_shared_row 5 1] DTI 7
      = Inr (hs, g') \<and>
    map (\<lambda>c. (pc_num c, pc_den c, pc_valid c)) (map reconstructCell hs) = [(5, 100, 1), (360, 200, 2)]"
proof -
  let ?rows = "[example_shared_row 300 3, example_shared_row 60 3, example_shared_row 5 1]"
  have "map (\<lambda>c. (pc_num c, pc_den c, pc_valid c)) (let ps = [example_entity 300 3, example_entity 60 3, example_entity 5 1] in
      map (sector_total DTI ps) (sorted_list_of_set (sector_key ` set ps))) = [(5, 100, 1), (360, 200, 2)]"
    by code_simp
  then have "map (\<lambda>c. (pc_num c, pc_den c, pc_valid c)) (let ps = map reconstructEntityMetricRow ?rows in
      map (sector_total DTI ps) (sorted_list_of_set (sector_key ` set ps))) = [(5, 100, 1), (360, 200, 2)]"
    by (simp add: example_row_opens)
  moreover have "list_all (wire_row_ok DTI) ?rows" by (simp add: example_shared_row_ok)
  ultimately show ?thesis
    using aggregateHistogramsWire_opens [of DTI ?rows counter_prng 7] by (simp only: Metric.simps) auto
qed

end
