(* ===== verification/KAnon_Gate.thy ===== *)
theory KAnon_Gate
  imports Sector_Agg_Wire
begin

text \<open>
  The gate that suppresses cells with few contributors, on shares
  (\<open>volePSI/MpsvsKAnonGate.h\<close>, \<open>volePSI/MpsvsKAnonGate.cpp\<close>). The bit triples are a bag with a
  cursor, the arithmetic triples are generated on the spot.
\<close>

record KAnonConfig =
  k_thresh :: "32 word"

record GatedCell =
  g_key :: SectorKey
  g_metric :: Metric
  sum_num_gated :: SharedU64
  sum_den_gated :: SharedU64
  n_valid_gated :: SharedU64
  pass :: SharedBit

record PlainGatedCell =
  pg_key :: SectorKey
  pg_metric :: Metric
  pg_num :: "64 word"
  pg_den :: "64 word"
  pg_valid :: "64 word"
  pg_pass :: "8 word"

definition kAnonTripleBudgetPerCell :: "64 word" where
  "kAnonTripleBudgetPerCell = secureLessThanTripleCost + 100"

text \<open>The conversion to bit shares opens the value and shares it again.\<close>

definition arithToBit :: "'g prng \<Rightarrow> SharedU64 \<Rightarrow> 'g \<Rightarrow> (SharedU64Bin \<times> 'g) result" where
  "arithToBit G x g = shareU64Bin G (u64_N x) (u64_reconstruct x) g"

definition bitToArithSingle ::
  "'g prng \<Rightarrow> SharedBit \<Rightarrow> BeaverTripleU64 \<Rightarrow> 'g \<Rightarrow> (SharedU64 \<times> 'g) result" where
  "bitToArithSingle G b triple g =
     bindE (vec_at (bit_shares b) 0) (\<lambda>s0.
     bindE (shareU64 G (bit_N b) (ucast (s0 AND 1)) g) (\<lambda>(a0, g1).
     bindE (vec_at (bit_shares b) 1) (\<lambda>s1.
     bindE (shareU64 G (bit_N b) (ucast (s1 AND 1)) g1) (\<lambda>(a1, g2).
     bindE (secureMultiply a0 a1 triple) (\<lambda>prod.
     bindE (addShared a0 a1) (\<lambda>sum.
     bindE (subShared sum (mulConst prod 2)) (\<lambda>out. Inr (out, g2))))))))"

definition applyKAnonGate ::
  "'g prng \<Rightarrow> SharedSectorHistogram \<Rightarrow> KAnonConfig \<Rightarrow> BeaverTripleBit list \<Rightarrow> nat \<Rightarrow> 'g \<Rightarrow>
   (GatedCell \<times> nat \<times> 'g) result" where
  "applyKAnonGate G cell cfg bit_triples idx g =
     (let N = u64_N (ss_valid cell);
          thresh_minus_one = (if k_thresh cfg = 0 then 0 else k_thresh cfg - 1)
      in bindE (arithToBit G (ss_valid cell) g) (\<lambda>(n_valid_bin, g1).
         bindE (shareU64Bin G N (ucast thresh_minus_one) g1) (\<lambda>(thresh_bin, g2).
         bindE (secureLessThan thresh_bin n_valid_bin bit_triples idx) (\<lambda>(ps, idx').
         bindE (generateBeaverTriple G N g2) (\<lambda>(triple_b2a, g3).
         bindE (bitToArithSingle G ps triple_b2a g3) (\<lambda>(pass_arith, g4).
         bindE (generateBeaverTriple G N g4) (\<lambda>(triple_mux_num, g5).
         bindE (generateBeaverTriple G N g5) (\<lambda>(triple_mux_den, g6).
         bindE (generateBeaverTriple G N g6) (\<lambda>(triple_mux_n, g7).
         bindE (secureMultiply pass_arith (ss_num cell) triple_mux_num) (\<lambda>sn.
         bindE (secureMultiply pass_arith (ss_den cell) triple_mux_den) (\<lambda>sd.
         bindE (secureMultiply pass_arith (ss_valid cell) triple_mux_n) (\<lambda>nv.
         Inr (\<lparr>g_key = ss_key cell, g_metric = ss_metric cell, sum_num_gated = sn, sum_den_gated = sd,
               n_valid_gated = nv, pass = ps\<rparr>, idx', g7)))))))))))))"

fun applyKAnonGateBatch ::
  "'g prng \<Rightarrow> SharedSectorHistogram list \<Rightarrow> KAnonConfig \<Rightarrow> BeaverTripleBit list \<Rightarrow> nat \<Rightarrow> 'g \<Rightarrow>
   (GatedCell list \<times> nat \<times> 'g) result" where
  "applyKAnonGateBatch G [] cfg bit_triples idx g = Inr ([], idx, g)"
| "applyKAnonGateBatch G (c # cells) cfg bit_triples idx g =
     bindE (applyKAnonGate G c cfg bit_triples idx g) (\<lambda>(gc, idx1, g1).
     bindE (applyKAnonGateBatch G cells cfg bit_triples idx1 g1) (\<lambda>(out, idx2, g2). Inr (gc # out, idx2, g2)))"

definition reconstructGatedCell :: "GatedCell \<Rightarrow> PlainGatedCell" where
  "reconstructGatedCell g = \<lparr>pg_key = g_key g, pg_metric = g_metric g, pg_num = u64_reconstruct (sum_num_gated g),
     pg_den = u64_reconstruct (sum_den_gated g), pg_valid = u64_reconstruct (n_valid_gated g),
     pg_pass = bit_reconstruct (pass g)\<rparr>"

subsection \<open>The plaintext gate\<close>

text \<open>A cell passes if it counts at least \<open>k_thresh\<close> rows and at least one.\<close>

definition passes :: "KAnonConfig \<Rightarrow> PlainCellReconstructed \<Rightarrow> bool" where
  "passes cfg c \<longleftrightarrow> pc_valid c \<noteq> 0 \<and> unat (k_thresh cfg) \<le> unat (pc_valid c)"

definition gate_spec :: "KAnonConfig \<Rightarrow> PlainCellReconstructed \<Rightarrow> PlainGatedCell" where
  "gate_spec cfg c = \<lparr>pg_key = pc_key c, pg_metric = pc_metric c, pg_num = (if passes cfg c then pc_num c else 0),
     pg_den = (if passes cfg c then pc_den c else 0), pg_valid = (if passes cfg c then pc_valid c else 0),
     pg_pass = of_bool (passes cfg c)\<rparr>"

lemma threshold_less:
  "ucast (if k_thresh cfg = 0 then 0 else k_thresh cfg - 1) < pc_valid c \<longleftrightarrow> passes cfg c"
proof (cases "k_thresh cfg = 0")
  case True
  then show ?thesis by (simp add: passes_def word_neq_0_conv)
next
  case False
  then have k: "unat (k_thresh cfg - 1) = unat (k_thresh cfg) - 1" "0 < unat (k_thresh cfg)"
    by (simp_all add: unat_minus_one unat_gt_0)
  have "unat (ucast (k_thresh cfg - 1) :: 64 word) = unat (k_thresh cfg) - 1"
    using unsigned_less [of "k_thresh cfg - 1", where ?'a = nat]
    by (simp only: unsigned_ucast_eq k(1) [symmetric]) (simp add: take_bit_nat_eq_self_iff)
  then show ?thesis
    using False k(2) by (auto simp: passes_def word_less_nat_alt)
qed

lemma single_b2a_returns:
  assumes "bit_N b = 2" "triple_ok 2 t"
  shows "returns (bitToArithSingle G b t g) (\<lambda>(x, g'). u64_N x = 2 \<and> u64_reconstruct x = of_bool (bval b))"
proof -
  have "arith_bag [t]" using assms(2) by (simp add: arith_bag_def)
  moreover have "bitToArithProper G [t] b 0 g = bindE (bitToArithSingle G b t g) (\<lambda>(x, g'). Inr (x, 1, g'))"
    by (simp add: bitToArithProper_def bitToArithSingle_def bindE_assoc case_prod_unfold)
  ultimately show ?thesis
    using b2a_returns [OF assms(1), of "[t]" 0 G g] by (auto simp: returns_bindE elim!: returns_mono)
qed

lemma gate_returns:
  assumes "cell_opens cell c" "bag_ok 2 ts" "idx + 256 \<le> length ts"
  shows "returns (applyKAnonGate G cell cfg ts idx g)
    (\<lambda>(gc, idx', g'). reconstructGatedCell gc = gate_spec cfg c \<and> idx' = idx + 256)"
proof -
  have N: "u64_N (ss_num cell) = 2" "u64_N (ss_den cell) = 2" "u64_N (ss_valid cell) = 2"
      "u64_reconstruct (ss_num cell) = pc_num c" "u64_reconstruct (ss_den cell) = pc_den c"
      "u64_reconstruct (ss_valid cell) = pc_valid c" "ss_key cell = pc_key c" "ss_metric cell = pc_metric c"
    using assms(1) by (auto simp: cell_opens_def reconstructCell_def)
  let ?t = "ucast (if k_thresh cfg = 0 then 0 else k_thresh cfg - 1) :: 64 word"
  obtain nv g1 where nv: "arithToBit G (ss_valid cell) g = Inr (nv, g1)" "bin_ok 2 nv" "bin_reconstruct nv = pc_valid c"
    using shareU64Bin_returns [of 2 G "pc_valid c" g] by (auto simp: arithToBit_def N returns_def)
  obtain th g2 where th: "shareU64Bin G 2 ?t g1 = Inr (th, g2)" "bin_ok 2 th" "bin_reconstruct th = ?t"
    using shareU64Bin_returns [of 2 G ?t g1] by (auto simp: returns_def)
  obtain ps where ps: "secureLessThan th nv ts idx = Inr (ps, idx + 256)" "bit_N ps = 2" "bval ps = passes cfg c"
    using secureLessThan_returns [OF assms(2) th(2) nv(2) assms(3)]
    by (auto simp: returns_def th(3) nv(3) threshold_less)
  obtain t1 g3 where t1: "generateBeaverTriple G 2 g2 = Inr (t1, g3)" "triple_ok 2 t1"
    using generateBeaverTriple_returns [of 2 G g2] by (auto simp: returns_def)
  obtain pa g4 where pa: "bitToArithSingle G ps t1 g3 = Inr (pa, g4)" "u64_N pa = 2" "u64_reconstruct pa = of_bool (passes cfg c)"
    using single_b2a_returns [OF ps(2) t1(2), of G g3] by (auto simp: returns_def ps(3))
  obtain t2 g5 where t2: "generateBeaverTriple G 2 g4 = Inr (t2, g5)" "triple_ok 2 t2"
    using generateBeaverTriple_returns [of 2 G g4] by (auto simp: returns_def)
  obtain t3 g6 where t3: "generateBeaverTriple G 2 g5 = Inr (t3, g6)" "triple_ok 2 t3"
    using generateBeaverTriple_returns [of 2 G g5] by (auto simp: returns_def)
  obtain t4 g7 where t4: "generateBeaverTriple G 2 g6 = Inr (t4, g7)" "triple_ok 2 t4"
    using generateBeaverTriple_returns [of 2 G g6] by (auto simp: returns_def)
  note mul = secureMultiply_returns [OF zero_less_numeral pa(2), unfolded returns_def]
  obtain a where a: "secureMultiply pa (ss_num cell) t2 = Inr a" "u64_reconstruct a = of_bool (passes cfg c) * pc_num c"
    using mul [OF N(1) t2(2)] by (auto simp: pa(3) N)
  obtain b where b: "secureMultiply pa (ss_den cell) t3 = Inr b" "u64_reconstruct b = of_bool (passes cfg c) * pc_den c"
    using mul [OF N(2) t3(2)] by (auto simp: pa(3) N)
  obtain d where d: "secureMultiply pa (ss_valid cell) t4 = Inr d" "u64_reconstruct d = of_bool (passes cfg c) * pc_valid c"
    using mul [OF N(3) t4(2)] by (auto simp: pa(3) N)
  show ?thesis
    unfolding applyKAnonGate_def Let_def N(3)
    by (simp only: nv(1) th(1) ps(1) t1(1) pa(1) t2(1) t3(1) t4(1) a(1) b(1) d(1) bindE_simps prod.case)
      (simp add: reconstructGatedCell_def gate_spec_def a b d N bit_reconstruct_bval ps(3))
qed

lemma gate_batch_returns:
  assumes "bag_ok 2 ts"
  shows "list_all2 cell_opens cells cs \<Longrightarrow> idx + 256 * length cells \<le> length ts \<Longrightarrow>
    returns (applyKAnonGateBatch G cells cfg ts idx g) (\<lambda>(out, idx', g').
      map reconstructGatedCell out = map (gate_spec cfg) cs \<and> idx' = idx + 256 * length cells)"
proof (induction arbitrary: idx g rule: list_all2_induct)
  case (Cons cell cells c cs)
  obtain gc g1 where s: "applyKAnonGate G cell cfg ts idx g = Inr (gc, idx + 256, g1)" "reconstructGatedCell gc = gate_spec cfg c"
    using gate_returns [OF Cons.hyps(1) assms, of idx G cfg g] Cons.prems by (auto simp: returns_def)
  obtain out g2 where "applyKAnonGateBatch G cells cfg ts (idx + 256) g1 = Inr (out, idx + 256 + 256 * length cells, g2)"
      "map reconstructGatedCell out = map (gate_spec cfg) cs"
    using Cons.IH [of "idx + 256" g1] Cons.prems by (auto simp: returns_def)
  then show ?case using s by simp
qed simp

subsection \<open>Property\<close>

text \<open>C6: releasing the secret-shared sector aggregate through the gate: for two parties, well-formed shared
  rows and a bag of the published budget per cell, aggregation followed by the gate returns; what
  opens is one cell per (sector, period), equal to the plaintext totals if at least \<open>k_thresh\<close>
  entities (and at least one) are included, and all zero otherwise.\<close>

theorem kanon_release:
  assumes "list_all (wire_row_ok m) rows" "m \<noteq> METRIC_COUNT" "bag_ok 2 ts"
    and "unat kAnonTripleBudgetPerCell * length rows \<le> length ts"
  shows "\<exists>hs g1 out idx g2.
    aggregateHistogramsWire G rows m g = Inr (hs, g1) \<and>
    applyKAnonGateBatch G hs cfg ts 0 g1 = Inr (out, idx, g2) \<and>
    map reconstructGatedCell out = (let ps = map reconstructEntityMetricRow rows in
      map (\<lambda>k. gate_spec cfg (sector_total m ps k)) (sorted_list_of_set (sector_key ` set ps)))"
proof -
  let ?ps = "map reconstructEntityMetricRow rows"
  let ?ks = "sorted_list_of_set (sector_key ` set ?ps)"
  obtain hs g1 where h: "aggregateHistogramsWire G rows m g = Inr (hs, g1)"
      "list_all2 cell_opens hs (map (sector_total m ?ps) ?ks)"
    using aggregateHistogramsWire_returns [OF assms(1,2), of G g] by (auto simp: returns_def Let_def)
  have "length hs = card (sector_key ` set ?ps)"
    using list_all2_lengthD [OF h(2)] by simp
  also have "\<dots> \<le> length rows"
    using card_image_le [of "set ?ps" sector_key] card_length [of ?ps] by simp
  finally have "256 * length hs \<le> 356 * length rows" by simp
  also have "\<dots> \<le> length ts"
    using assms(4) by (simp add: kAnonTripleBudgetPerCell_def secureLessThanTripleCost_def)
  finally have "0 + 256 * length hs \<le> length ts" by simp
  from gate_batch_returns [OF assms(3) h(2) this, of G cfg g1] h(1) show ?thesis
    by (auto simp: returns_def Let_def comp_def)
qed

lemma kanon_release_witness:
  "\<exists>hs g1 out idx g2.
    aggregateHistogramsWire counter_prng [example_shared_row 300 3, example_shared_row 60 3, example_shared_row 5 1] DTI 7
      = Inr (hs, g1) \<and>
    applyKAnonGateBatch counter_prng hs \<lparr>k_thresh = 2\<rparr> (replicate 1068 (zero_triple 2)) 0 g1 = Inr (out, idx, g2) \<and>
    map (\<lambda>c. (pg_num c, pg_den c, pg_valid c, pg_pass c)) (map reconstructGatedCell out) = [(0, 0, 0, 0), (360, 200, 2, 1)]"
proof -
  let ?rows = "[example_shared_row 300 3, example_shared_row 60 3, example_shared_row 5 1]"
  let ?f = "\<lambda>c. (pg_num c, pg_den c, pg_valid c, pg_pass c)"
  have "map ?f (let ps = [example_entity 300 3, example_entity 60 3, example_entity 5 1] in
      map (\<lambda>k. gate_spec \<lparr>k_thresh = 2\<rparr> (sector_total DTI ps k)) (sorted_list_of_set (sector_key ` set ps))) =
      [(0, 0, 0, 0), (360, 200, 2, 1)]"
    by code_simp
  then have "map ?f (let ps = map reconstructEntityMetricRow ?rows in
      map (\<lambda>k. gate_spec \<lparr>k_thresh = 2\<rparr> (sector_total DTI ps k)) (sorted_list_of_set (sector_key ` set ps))) =
      [(0, 0, 0, 0), (360, 200, 2, 1)]"
    by (simp add: example_row_opens)
  moreover have "list_all (wire_row_ok DTI) ?rows" by (simp add: example_shared_row_ok)
  moreover have "unat kAnonTripleBudgetPerCell * length ?rows \<le> length (replicate 1068 (zero_triple 2))"
    by (simp add: kAnonTripleBudgetPerCell_def secureLessThanTripleCost_def)
  ultimately show ?thesis
    using kanon_release [OF _ _ bag_ok_zero_triples [of 2 1068], of DTI ?rows counter_prng 7 "\<lparr>k_thresh = 2\<rparr>"]
    by (simp only: Metric.simps) auto
qed

end
