(* ===== verification/Bit_Adder.thy ===== *)
theory Bit_Adder
  imports Mpc_Arithmetic
begin

text \<open>
  The full adder with three products per bit that the statistics circuits use
  (\<open>volePSI/MpsvsRatioBucketWire.cpp\<close>, \<open>volePSI/MpsvsGoldschmidtWire.cpp\<close>), and what a ripple of it
  computes on lists of shared bits of any width. The three loops of the code differ in where they
  check the bag: \<open>carry_gate\<close> is their common part, reading past the bag is out of bounds.
\<close>

definition carry_gate ::
  "SharedBit \<Rightarrow> SharedBit \<Rightarrow> SharedBit \<Rightarrow> SharedBit \<Rightarrow> BeaverTripleBit list \<Rightarrow> nat \<Rightarrow> (SharedBit \<times> nat) result" where
  "carry_gate x_i y_i ab carry triples k =
     bindE (vec_at triples k) (\<lambda>t1.
     bindE (secureAnd x_i y_i t1) (\<lambda>and_ab.
     bindE (vec_at triples (k + 1)) (\<lambda>t2.
     bindE (secureAnd carry ab t2) (\<lambda>and_cab.
     bindE (xorShared and_ab and_cab) (\<lambda>or_a.
     bindE (vec_at triples (k + 2)) (\<lambda>t3.
     bindE (secureAnd and_ab and_cab t3) (\<lambda>or_b.
     bindE (xorShared or_a or_b) (\<lambda>new_carry. Inr (new_carry, k + 3)))))))))"

lemma wp_bag_at [gate_wp]:
  "bag_ok n ts \<Longrightarrow> k < length ts \<Longrightarrow> (\<And>t. bit_triple_ok n t \<Longrightarrow> returns (f t) P) \<Longrightarrow>
   returns (bindE (vec_at ts k) f) P"
  by (simp add: bag_ok_def)

lemma carry_gate_returns:
  assumes "bag_ok n ts" "k + 3 \<le> length ts" "bit_N x = n" "bit_N y = n" "bit_N ab = n" "bit_N c = n"
  shows "returns (carry_gate x y ab c ts k) (\<lambda>(r, k'). bit_N r = n \<and>
    bval r = (bval x \<and> bval y \<or> bval c \<and> bval ab) \<and> k' = k + 3)"
proof -
  have t: "bit_triple_ok n (ts ! k)" "bit_triple_ok n (ts ! (k + 1))" "bit_triple_ok n (ts ! (k + 2))" "0 < n"
    using assms(1,2) by (auto simp: bag_ok_def)
  obtain g where g: "secureAnd x y (ts ! k) = Inr g" "bit_N g = n" "bval g = (bval x \<and> bval y)"
    using secureAnd_returns [OF assms(3,4) t(1,4)] by (auto simp: returns_def)
  obtain h where h: "secureAnd c ab (ts ! (k + 1)) = Inr h" "bit_N h = n" "bval h = (bval c \<and> bval ab)"
    using secureAnd_returns [OF assms(6,5) t(2,4)] by (auto simp: returns_def)
  obtain a where a: "xorShared g h = Inr a" "bit_N a = n" "bval a = (bval g \<noteq> bval h)"
    using xorShared_returns [of g h] g h by (auto simp: returns_def)
  obtain b where b: "secureAnd g h (ts ! (k + 2)) = Inr b" "bit_N b = n" "bval b = (bval g \<and> bval h)"
    using secureAnd_returns [OF g(2) h(2) t(3,4)] by (auto simp: returns_def)
  obtain r where r: "xorShared a b = Inr r" "bit_N r = n" "bval r = (bval a \<noteq> bval b)"
    using xorShared_returns [of a b] a b by (auto simp: returns_def)
  have k: "k < length ts" "k + 1 < length ts" "k + 2 < length ts" using assms(2) by simp_all
  show ?thesis
    unfolding carry_gate_def vec_at_Inr [OF k(1)] vec_at_Inr [OF k(2)] vec_at_Inr [OF k(3)] bindE_simps g(1) h(1) a(1) b(1) r(1)
    using r(2,3) a(3) b(3) g(3) h(3) by auto
qed

lemma wp_carry_gate [gate_wp]:
  assumes "bag_ok (bit_N x) ts" "k + 3 \<le> length ts" "bit_N y = bit_N x" "bit_N ab = bit_N x" "bit_N c = bit_N x"
    and "\<And>r. bit_N r = bit_N x \<Longrightarrow> bval r = (bval x \<and> bval y \<or> bval c \<and> bval ab) \<Longrightarrow> returns (f r (k + 3)) P"
  shows "returns (bindE (carry_gate x y ab c ts k) (\<lambda>(r, k'). f r k')) P"
  by (rule returns_bind_intro, rule carry_gate_returns [OF assms(1,2) refl assms(3-5)]) (use assms(6) in auto)

subsection \<open>Ripple carry\<close>

text \<open>What one round of such a loop has to do, and what the loop then computes.\<close>

definition adds_bit ::
  "nat \<Rightarrow> SharedBit list \<Rightarrow> SharedBit list \<Rightarrow> nat \<Rightarrow> SharedBit list \<Rightarrow> SharedBit \<Rightarrow> nat \<Rightarrow> SharedBit list \<times> SharedBit \<times> nat \<Rightarrow> bool"
where
  "adds_bit n xs ys i out carry k = (\<lambda>(out', carry', k'). \<exists>r. out' = out @ [r] \<and> bit_N r = n \<and> bit_N carry' = n \<and>
     k' = k + 3 \<and> bval r = ((bval (xs ! i) \<noteq> bval (ys ! i)) \<noteq> bval carry) \<and>
     bval carry' = (bval (xs ! i) \<and> bval (ys ! i) \<or> bval carry \<and> (bval (xs ! i) \<noteq> bval (ys ! i))))"

lemma ripple_returns:
  assumes step: "\<And>i out carry k. i < w \<Longrightarrow> bit_N carry = n \<Longrightarrow> k = k0 + 3 * i \<Longrightarrow>
      returns (f i (out, carry, k)) (adds_bit n xs ys i out carry k)"
    and len: "length xs = w" "length ys = w" and c: "bit_N c = n"
  shows "returns (foldE f [0..<w] ([], c, k0)) (\<lambda>(out, carry, k). length out = w \<and> (\<forall>j<w. bit_N (out ! j) = n) \<and>
    k = k0 + 3 * w \<and> bits_val out = (bits_val xs + bits_val ys + of_bool (bval c)) mod 2 ^ w)"
proof -
  let ?I = "\<lambda>i (out, carry, k). k = k0 + 3 * i \<and> adder_inv n xs ys (of_bool (bval c)) 0 0 i (out, carry, 2 * i)"
  have "returns (foldE f [0..<w] ([], c, k0)) (?I w)"
  proof (rule returns_foldE_upt)
    show "?I 0 ([], c, k0)" using c by (simp add: adder_inv_def)
  next
    fix i and s :: "SharedBit list \<times> SharedBit \<times> nat"
    assume i: "i < w" and I: "?I i s"
    obtain out carry where s: "s = (out, carry, k0 + 3 * i)"
        "adder_inv n xs ys (of_bool (bval c)) 0 0 i (out, carry, 2 * i)"
      using I by (cases s) auto
    have "bit_N carry = n" using s(2) by (simp add: adder_inv_def)
    from step [OF i this refl, of out] show "returns (f i s) (?I (Suc i))"
      unfolding s(1)
    proof (rule returns_mono)
      fix s' assume "adds_bit n xs ys i out carry (k0 + 3 * i) s'"
      then obtain r carry' where r: "s' = (out @ [r], carry', k0 + 3 * i + 3)" "bit_N r = n" "bit_N carry' = n"
          "bval r = ((bval (xs ! i) \<noteq> bval (ys ! i)) \<noteq> bval carry)"
          "bval carry' = (bval (xs ! i) \<and> bval (ys ! i) \<or> bval carry \<and> (bval (xs ! i) \<noteq> bval (ys ! i)))"
        by (cases s') (auto simp: adds_bit_def)
      have "bval carry' = ((bval (xs ! i) \<and> bval (ys ! i)) \<noteq> ((bval (xs ! i) \<noteq> bval (ys ! i)) \<and> bval carry))"
        unfolding r(5) by blast
      from adder_inv_extend [OF s(2) _ _ r(2,3,4) this] i len show "?I (Suc i) s'"
        by (simp add: r(1))
    qed
  qed
  then show ?thesis
  proof (rule returns_mono)
    fix s assume I: "?I w s"
    obtain out carry where s: "s = (out, carry, k0 + 3 * w)" "adder_inv n xs ys (of_bool (bval c)) 0 0 w (out, carry, 2 * w)"
      using I by (cases s) auto
    then have out: "length out = w" "\<forall>j<w. bit_N (out ! j) = n"
        "bits_val out + 2 ^ w * of_bool (bval carry) = bits_val xs + bits_val ys + of_bool (bval c)"
      using len by (simp_all add: adder_inv_def)
    have "bits_val out = (bits_val out + 2 ^ w * of_bool (bval carry)) mod 2 ^ w"
      using bits_val_less [of out] out(1) by simp
    then show "(\<lambda>(out, carry, k). length out = w \<and> (\<forall>j<w. bit_N (out ! j) = n) \<and>
        k = k0 + 3 * w \<and> bits_val out = (bits_val xs + bits_val ys + of_bool (bval c)) mod 2 ^ w) s"
      using out by (simp add: s(1))
  qed
qed

text \<open>Two shared 64-bit values: any ripple whose rounds add bits opens to the sum modulo \<open>2 ^ 64\<close>.\<close>

lemma bin_ok_reconstruct: "bin_ok n x \<Longrightarrow> unat (bin_reconstruct x) = bits_val (bin_bits x)"
  by (simp add: bin_ok_def unat_bin_reconstruct)

lemma bin_ripple_returns:
  assumes step: "\<And>i out carry k. i < 64 \<Longrightarrow> bit_N carry = n \<Longrightarrow> k = k0 + 3 * i \<Longrightarrow>
      returns (f i (out, carry, k)) (adds_bit n (bin_bits x) (bin_bits y) i out carry k)"
    and ok: "bin_ok n x" "bin_ok n y"
  shows "returns (bindE (foldE f [0..<64] ([], bit_zero (bin_N x), k0)) (\<lambda>(out, _, k'). Inr (\<lparr>bin_bits = out\<rparr>, k')))
    (\<lambda>(z, k'). bin_ok n z \<and> bin_reconstruct z = bin_reconstruct x + bin_reconstruct y \<and> k' = k0 + 192)"
proof -
  let ?xs = "bin_bits x" and ?ys = "bin_bits y"
  have "length ?xs = 64" "length ?ys = 64" using ok by (simp_all add: bin_ok_def)
  then have "returns (foldE f [0..<64] ([], bit_zero n, k0)) (\<lambda>(out, carry, k').
      length out = 64 \<and> (\<forall>j<64. bit_N (out ! j) = n) \<and> k' = k0 + 3 * 64 \<and>
      bits_val out = (bits_val ?xs + bits_val ?ys + of_bool (bval (bit_zero n))) mod 2 ^ 64)"
    by (intro ripple_returns step) simp_all
  then obtain out c where o: "foldE f [0..<64] ([], bit_zero n, k0) = Inr (out, c, k0 + 192)"
      "length out = 64" "\<forall>j<64. bit_N (out ! j) = n" "bits_val out = (bits_val ?xs + bits_val ?ys) mod 2 ^ 64"
    by (auto simp: returns_def)
  then have z: "bin_ok n \<lparr>bin_bits = out\<rparr>" by (simp add: bin_ok_def)
  have "unat (bin_reconstruct \<lparr>bin_bits = out\<rparr>) = unat (bin_reconstruct x + bin_reconstruct y)"
    using o(4) ok by (simp only: bin_ok_reconstruct [OF z] unat_word_ariths bin_ok_reconstruct) simp
  then have "bin_reconstruct \<lparr>bin_bits = out\<rparr> = bin_reconstruct x + bin_reconstruct y"
    by (simp only: word_unat_eq_iff)
  with z o(1) show ?thesis using ok by (simp add: bin_ok_N)
qed

subsection \<open>Shifted and masked bits\<close>

lemma bits_val_bit: "bit (bits_val bs) i = (i < length bs \<and> bval (bs ! i))"
  by (auto simp: bits_val_def bit_horner_sum_bit_iff)

lemma bits_val_eqI: "(\<And>i. bit m i = (i < length bs \<and> bval (bs ! i))) \<Longrightarrow> bits_val bs = m"
  by (rule bit_eqI) (simp add: bits_val_bit)

subsection \<open>Adders\<close>

text \<open>
  The contract of the 64-bit adders of the statistics circuits, one per source file: 192 triples and
  a sharing of the sum. A loop of shifted additions with such an adder multiplies by a public value.
\<close>

definition shift_left :: "SharedU64Bin \<Rightarrow> nat \<Rightarrow> SharedU64Bin" where
  "shift_left x b = \<lparr>bin_bits = replicate b (bit_zero (bin_N x)) @ take (64 - b) (bin_bits x)\<rparr>"

definition set_bits_of :: "64 word \<Rightarrow> nat" where
  "set_bits_of c = length (filter (bit c) [0..<64])"

lemma shift_left_ok:
  assumes "bin_ok n x" "b < 64"
  shows "bin_ok n (shift_left x b) \<and> bin_reconstruct (shift_left x b) = push_bit b (bin_reconstruct x)"
proof -
  have len: "length (bin_bits x) = 64" "bin_N x = n" using assms(1) by (simp_all add: bin_ok_def bin_ok_N)
  have bits: "bin_bits (shift_left x b) ! i = (if i < b then bit_zero n else bin_bits x ! (i - b))" if "i < 64" for i
    using that assms(2) len by (simp add: shift_left_def nth_append)
  have "bin_ok n (shift_left x b)"
    using bits assms len by (auto simp: bin_ok_def) (simp add: shift_left_def)
  moreover have "bin_reconstruct (shift_left x b) = push_bit b (bin_reconstruct x)"
    by (rule bin_reconstruct_eqI) (auto simp: bits bit_push_bit_iff bit_bin_reconstruct)
  ultimately show ?thesis ..
qed

locale shared_adder =
  fixes add :: "SharedU64Bin \<Rightarrow> SharedU64Bin \<Rightarrow> BeaverTripleBit list \<Rightarrow> nat \<Rightarrow> (SharedU64Bin \<times> nat) result"
  assumes add_returns: "bag_ok n ts \<Longrightarrow> bin_ok n x \<Longrightarrow> bin_ok n y \<Longrightarrow> k + 192 \<le> length ts \<Longrightarrow>
    returns (add x y ts k) (\<lambda>(z, k'). bin_ok n z \<and> bin_reconstruct z = bin_reconstruct x + bin_reconstruct y \<and> k' = k + 192)"
begin

lemma mul_public_returns:
  assumes "bag_ok n ts" "bin_ok n x" "k + 192 * set_bits_of c \<le> length ts"
  shows "returns (foldE (\<lambda>b (acc, k). if bit c b then add acc (shift_left x b) ts k else Inr (acc, k))
      [0..<64] (\<lparr>bin_bits = replicate 64 (bit_zero n)\<rparr>, k))
    (\<lambda>(z, k'). bin_ok n z \<and> bin_reconstruct z = bin_reconstruct x * c \<and> k' = k + 192 * set_bits_of c)"
proof -
  let ?I = "\<lambda>i (acc, k'). bin_ok n acc \<and> bin_reconstruct acc = bin_reconstruct x * take_bit i c \<and>
    k' = k + 192 * length (filter (bit c) [0..<i])"
  let ?f = "\<lambda>b (acc, k). if bit c b then add acc (shift_left x b) ts k else Inr (acc, k)"
  have "returns (foldE ?f [0..<64] (\<lparr>bin_bits = replicate 64 (bit_zero n)\<rparr>, k)) (?I 64)"
  proof (rule returns_foldE_upt)
    have "bin_reconstruct \<lparr>bin_bits = replicate 64 (bit_zero n)\<rparr> = 0"
      by (rule bin_reconstruct_eqI) simp
    then show "?I 0 (\<lparr>bin_bits = replicate 64 (bit_zero n)\<rparr>, k)"
      using zero_bin [of n] by simp
  next
    fix b and s :: "SharedU64Bin \<times> nat"
    assume b: "b < 64" and I: "?I b s"
    obtain acc where s: "s = (acc, k + 192 * length (filter (bit c) [0..<b]))" "bin_ok n acc"
        "bin_reconstruct acc = bin_reconstruct x * take_bit b c"
      using I by (cases s) auto
    show "returns (?f b s) (?I (Suc b))"
    proof (cases "bit c b")
      case True
      have "length (filter (bit c) [0..<Suc b]) \<le> set_bits_of c"
      proof -
        have "[0..<64] = [0..<Suc b] @ [Suc b..<64]" using b upt_add_eq_append [of 0 "Suc b" "63 - b"] by simp
        then show ?thesis by (simp add: set_bits_of_def)
      qed
      then have "k + 192 * length (filter (bit c) [0..<b]) + 192 \<le> length ts"
        using assms(3) True by simp
      then have "returns (add acc (shift_left x b) ts (k + 192 * length (filter (bit c) [0..<b])))
          (\<lambda>(z, k'). bin_ok n z \<and> bin_reconstruct z = bin_reconstruct acc + bin_reconstruct (shift_left x b) \<and>
             k' = k + 192 * length (filter (bit c) [0..<b]) + 192)"
        using assms(1) s(2) shift_left_ok [OF assms(2) b] by (intro add_returns) auto
      then show ?thesis
        using True shift_left_ok [OF assms(2) b]
        by (auto simp: s(1,3) take_bit_Suc_word push_bit_eq_mult algebra_simps elim!: returns_mono)
    qed (simp add: s take_bit_Suc_word)
  qed
  then show ?thesis
    using assms(2) by (simp add: set_bits_of_def take_bit_word_eq_self)
qed

end

end
