(* ===== verification/Ratio_Bucket_Wire.thy ===== *)
theory Ratio_Bucket_Wire
  imports Bit_Adder Ratio_Bucket
begin

text \<open>
  The bucket search on shares (\<open>volePSI/MpsvsRatioBucketWire.h\<close>,
  \<open>volePSI/MpsvsRatioBucketWire.cpp\<close>): multiplication of a shared value by a public constant,
  one comparison per public edge, and the one-hot indicator of the bucket.

  The products are taken modulo \<open>2 ^ 64\<close>, where the plaintext search has 128 bits.
\<close>

record SharedBucketResult =
  sb_one_hot :: "SharedBit list"
  sb_index :: SharedU64Bin

definition shared_add_step ::
  "SharedBit list \<Rightarrow> SharedBit list \<Rightarrow> BeaverTripleBit list \<Rightarrow> nat \<Rightarrow>
   SharedBit list \<times> SharedBit \<times> nat \<Rightarrow> (SharedBit list \<times> SharedBit \<times> nat) result" where
  "shared_add_step xs ys triples i = (\<lambda>(out, carry, k).
     throw_if (k + 3 > length triples) (RuntimeError ''triple bag exhausted (bitSharedAdd)'')
       (bindE (vec_at xs i) (\<lambda>x_i.
        bindE (vec_at ys i) (\<lambda>y_i.
        bindE (xorShared x_i y_i) (\<lambda>ab.
        bindE (xorShared ab carry) (\<lambda>sum.
        bindE (carry_gate x_i y_i ab carry triples k) (\<lambda>(carry', k').
        Inr (out @ [sum], carry', k'))))))))"

definition bitSharedAdd ::
  "SharedU64Bin \<Rightarrow> SharedU64Bin \<Rightarrow> BeaverTripleBit list \<Rightarrow> nat \<Rightarrow> (SharedU64Bin \<times> nat) result" where
  "bitSharedAdd x y triples k =
     bindE (foldE (shared_add_step (bin_bits x) (bin_bits y) triples) [0..<64] ([], bit_zero (bin_N x), k))
       (\<lambda>(out, _, k'). Inr (\<lparr>bin_bits = out\<rparr>, k'))"

definition mulPublicConstBitShared ::
  "SharedU64Bin \<Rightarrow> 64 word \<Rightarrow> BeaverTripleBit list \<Rightarrow> nat \<Rightarrow> (SharedU64Bin \<times> nat) result" where
  "mulPublicConstBitShared x c triples k =
     foldE (\<lambda>b (acc, k). if bit c b then bitSharedAdd acc (shift_left x b) triples k else Inr (acc, k))
       [0..<64] (\<lparr>bin_bits = replicate 64 (bit_zero (bin_N x))\<rparr>, k)"

definition bucketWireTripleBudget :: "32 word \<Rightarrow> 64 word" where
  "bucketWireTripleBudget B =
     14 * 192 + ucast (B + 1) * (17 * 192 + secureLessThanTripleCost) + ucast (2 * B) + 500"

definition edge_comparisons ::
  "SharedU64Bin \<Rightarrow> SharedU64Bin \<Rightarrow> BeaverTripleBit list \<Rightarrow> 64 word list \<Rightarrow> nat \<Rightarrow> (SharedBit list \<times> nat) result" where
  "edge_comparisons lhs den triples edges k =
     foldE (\<lambda>e (lt, k).
         bindE (mulPublicConstBitShared den e triples k) (\<lambda>(rhs, k1).
         bindE (secureLessThan lhs rhs triples k1) (\<lambda>(c, k2). Inr (lt @ [c], k2))))
       edges ([], k)"

definition one_hot_bits ::
  "SharedBit list \<Rightarrow> SharedBit \<Rightarrow> BeaverTripleBit list \<Rightarrow> nat \<Rightarrow> nat \<Rightarrow> (SharedBit list \<times> nat) result" where
  "one_hot_bits lt inc triples B k =
     foldE (\<lambda>b (out, k).
         bindE (vec_at lt b) (\<lambda>lt_b.
         bindE (xorConst lt_b 1) (\<lambda>not_lt_b.
         throw_if (k \<ge> length triples) (RuntimeError ''triple bag exhausted (one-hot AND)'')
        (bindE (vec_at lt (b + 1)) (\<lambda>lt_b1.
         bindE (secureAnd not_lt_b lt_b1 (triples ! k)) (\<lambda>sel.
         throw_if (k + 1 \<ge> length triples) (RuntimeError ''triple bag exhausted (incl gate)'')
        (bindE (secureAnd sel inc (triples ! (k + 1))) (\<lambda>oh. Inr (out @ [oh], k + 2)))))))))
       [0..<B] ([], k)"

definition index_bit :: "SharedBit list \<Rightarrow> nat \<Rightarrow> nat \<Rightarrow> SharedBit result" where
  "index_bit one_hots N i =
     foldE (\<lambda>b acc. if bit b i then bindE (vec_at one_hots b) (xorShared acc) else Inr acc)
       [0..<length one_hots] (bit_zero N)"

definition bucketIndexWire ::
  "SharedU64Bin \<Rightarrow> SharedU64Bin \<Rightarrow> 64 word list \<Rightarrow> SharedBit \<Rightarrow> 64 word \<Rightarrow> BeaverTripleBit list \<Rightarrow> nat \<Rightarrow>
   (SharedBucketResult \<times> nat) result" where
  "bucketIndexWire n d edges inc ratio_scale triples k =
     throw_if (length edges < 2) (InvalidArgument ''bucketIndexWire: too few edges'')
       (bindE (mulPublicConstBitShared n ratio_scale triples k) (\<lambda>(lhs, k1).
        bindE (edge_comparisons lhs d triples edges k1) (\<lambda>(lt, k2).
        bindE (one_hot_bits lt inc triples (length edges - 1) k2) (\<lambda>(oh, k3).
        bindE (mapE (index_bit oh (bin_N n)) [0..<7]) (\<lambda>idx.
        Inr (\<lparr>sb_one_hot = oh, sb_index = \<lparr>bin_bits = idx @ replicate 57 (bit_zero (bin_N n))\<rparr>\<rparr>, k3))))))"

fun first_set :: "SharedBit list \<Rightarrow> nat \<Rightarrow> nat" where
  "first_set [] b = 0"
| "first_set (x # xs) b = (if bit_reconstruct x \<noteq> 0 then b else first_set xs (Suc b))"

definition reconstructBucket :: "SharedBucketResult \<Rightarrow> nat" where
  "reconstructBucket r = first_set (sb_one_hot r) 0"

subsection \<open>Multiplication by a public constant\<close>

lemma shared_add_step_returns:
  assumes "bag_ok n ts" "i < length xs" "i < length ys" "bit_N (xs ! i) = n" "bit_N (ys ! i) = n" "bit_N carry = n"
    and "k + 3 \<le> length ts"
  shows "returns (shared_add_step xs ys ts i (out, carry, k)) (adds_bit n xs ys i out carry k)"
  unfolding shared_add_step_def split adds_bit_def using assms by (intro gate_wp) auto

lemma bitSharedAdd_returns:
  assumes "bag_ok n ts" "bin_ok n x" "bin_ok n y" "k + 192 \<le> length ts"
  shows "returns (bitSharedAdd x y ts k) (\<lambda>(z, k'). bin_ok n z \<and>
    bin_reconstruct z = bin_reconstruct x + bin_reconstruct y \<and> k' = k + 192)"
  unfolding bitSharedAdd_def
  by (intro bin_ripple_returns shared_add_step_returns) (use assms in \<open>auto simp: bin_ok_def\<close>)

interpretation bucket_adder: shared_adder bitSharedAdd
  by unfold_locales (rule bitSharedAdd_returns)

lemma mulPublicConst_returns:
  assumes "bag_ok n ts" "bin_ok n x" "k + 192 * set_bits_of c \<le> length ts"
  shows "returns (mulPublicConstBitShared x c ts k) (\<lambda>(z, k'). bin_ok n z \<and>
    bin_reconstruct z = bin_reconstruct x * c \<and> k' = k + 192 * set_bits_of c)"
  unfolding mulPublicConstBitShared_def bin_ok_N [OF assms(2)] by (rule bucket_adder.mul_public_returns [OF assms])

subsection \<open>The one-hot indicator\<close>

definition edge_cost :: "64 word list \<Rightarrow> nat" where
  "edge_cost es = (\<Sum>e\<leftarrow>es. 192 * set_bits_of e + 256)"

lemma edge_comparisons_returns:
  assumes "bag_ok n ts" "bin_ok n lhs" "bin_ok n d"
  shows "k + edge_cost es \<le> length ts \<Longrightarrow> returns (edge_comparisons lhs d ts es k) (\<lambda>(lt, k').
    length lt = length es \<and> k' = k + edge_cost es \<and> (\<forall>i<length es. bit_N (lt ! i) = n \<and>
      bval (lt ! i) = (bin_reconstruct lhs < bin_reconstruct d * es ! i)))"
proof (induction es rule: rev_induct)
  case (snoc e es)
  have cost: "edge_cost (es @ [e]) = edge_cost es + (192 * set_bits_of e + 256)" by (simp add: edge_cost_def)
  obtain lt where lt: "edge_comparisons lhs d ts es k = Inr (lt, k + edge_cost es)" "length lt = length es"
      "\<forall>i<length es. bit_N (lt ! i) = n \<and> bval (lt ! i) = (bin_reconstruct lhs < bin_reconstruct d * es ! i)"
    using snoc.IH snoc.prems by (auto simp: cost returns_def)
  obtain rhs where rhs: "mulPublicConstBitShared d e ts (k + edge_cost es) = Inr (rhs, k + edge_cost es + 192 * set_bits_of e)"
      "bin_ok n rhs" "bin_reconstruct rhs = bin_reconstruct d * e"
    using mulPublicConst_returns [OF assms(1,3), of "k + edge_cost es" e] snoc.prems by (auto simp: cost returns_def)
  obtain c where "secureLessThan lhs rhs ts (k + edge_cost es + 192 * set_bits_of e) =
        Inr (c, k + edge_cost es + 192 * set_bits_of e + 256)"
      "bit_N c = n" "bval c = (bin_reconstruct lhs < bin_reconstruct d * e)"
    using secureLessThan_returns [OF assms(1,2) rhs(2), of "k + edge_cost es + 192 * set_bits_of e"] snoc.prems
    by (auto simp: cost rhs(3) returns_def)
  then show ?case
    using lt rhs(1) by (auto simp: edge_comparisons_def foldE_append cost nth_append less_Suc_eq)
qed (simp add: edge_comparisons_def edge_cost_def)

lemma one_hot_bits_returns:
  assumes "bag_ok n ts" "length lt = Suc B" "\<forall>i\<le>B. bit_N (lt ! i) = n" "bit_N inc = n" "k + 2 * B \<le> length ts"
  shows "returns (one_hot_bits lt inc ts B k) (\<lambda>(oh, k'). length oh = B \<and> k' = k + 2 * B \<and>
    (\<forall>b<B. bit_N (oh ! b) = n \<and> bval (oh ! b) = (\<not> bval (lt ! b) \<and> bval (lt ! Suc b) \<and> bval inc)))"
proof -
  let ?Q = "\<lambda>b x. bit_N x = n \<and> bval x = (\<not> bval (lt ! b) \<and> bval (lt ! Suc b) \<and> bval inc)"
  have "returns (one_hot_bits lt inc ts B k) (\<lambda>(oh, k'). length oh = B \<and> k' = k + 2 * B \<and> (\<forall>b<B. ?Q b (oh ! b)))"
    unfolding one_hot_bits_def
  proof (rule returns_foldE_build)
    fix b out assume b: "b < B" "length (out :: SharedBit list) = b"
    have N: "bit_N (lt ! b) = n" "bit_N (lt ! Suc b) = n" "0 < n" using assms(1,3) b by (auto simp: bag_ok_def)
    have t: "bit_triple_ok n (ts ! (k + 2 * b))" "bit_triple_ok n (ts ! (k + 2 * b + 1))" "k + 2 * b + 1 < length ts"
      using assms(1,5) b by (auto simp: bag_ok_def)
    obtain nl where nl: "xorConst (lt ! b) 1 = Inr nl" "bit_N nl = n" "bval nl = (\<not> bval (lt ! b))"
      using xorConst_returns [of "lt ! b" 1] N by (auto simp: returns_def)
    obtain sl where sl: "secureAnd nl (lt ! Suc b) (ts ! (k + 2 * b)) = Inr sl" "bit_N sl = n"
        "bval sl = (bval nl \<and> bval (lt ! Suc b))"
      using secureAnd_returns [OF nl(2) N(2) t(1) N(3)] by (auto simp: returns_def)
    obtain oh where oh: "secureAnd sl inc (ts ! (k + 2 * b + 1)) = Inr oh" "bit_N oh = n" "bval oh = (bval sl \<and> bval inc)"
      using secureAnd_returns [OF sl(2) assms(4) t(2) N(3)] by (auto simp: returns_def)
    show "returns ((\<lambda>b (out, k).
         bindE (vec_at lt b) (\<lambda>lt_b.
         bindE (xorConst lt_b 1) (\<lambda>not_lt_b.
         throw_if (k \<ge> length ts) (RuntimeError ''triple bag exhausted (one-hot AND)'')
        (bindE (vec_at lt (b + 1)) (\<lambda>lt_b1.
         bindE (secureAnd not_lt_b lt_b1 (ts ! k)) (\<lambda>sel.
         throw_if (k + 1 \<ge> length ts) (RuntimeError ''triple bag exhausted (incl gate)'')
        (bindE (secureAnd sel inc (ts ! (k + 1))) (\<lambda>oh. Inr (out @ [oh], k + 2)))))))) ) b (out, k + 2 * b))
      (\<lambda>(out', k'). \<exists>y. out' = out @ [y] \<and> k' = k + 2 * Suc b \<and> ?Q b y)"
      using b assms(2) t(3) nl sl oh by (simp add: throw_if_def)
  qed
  then show ?thesis .
qed

lemma index_bit_returns:
  assumes "\<forall>b<length oh. bit_N (oh ! b) = n" "\<forall>b<length oh. bval (oh ! b) = (ok \<and> b = j)"
  shows "returns (index_bit oh n i) (\<lambda>x. bit_N x = n \<and> bval x = (ok \<and> j < length oh \<and> bit j i))"
proof -
  have "returns (index_bit oh n i) (\<lambda>x. bit_N x = n \<and> bval x = (ok \<and> j < length oh \<and> bit j i))"
    unfolding index_bit_def
  proof (rule returns_foldE_upt)
    show "bit_N (bit_zero n) = n \<and> bval (bit_zero n) = (ok \<and> j < 0 \<and> bit j i)" by simp
  next
    fix b acc assume b: "b < length oh" and I: "bit_N acc = n \<and> bval acc = (ok \<and> j < b \<and> bit j i)"
    show "returns (if bit b i then bindE (vec_at oh b) (xorShared acc) else Inr acc)
        (\<lambda>x. bit_N x = n \<and> bval x = (ok \<and> j < Suc b \<and> bit j i))"
    proof (cases "bit b i")
      case True
      have "returns (xorShared acc (oh ! b)) (\<lambda>x. bit_N x = n \<and> bval x = (bval acc \<noteq> bval (oh ! b)))"
        using xorShared_returns [of acc "oh ! b"] I assms(1) b by auto
      then show ?thesis
        using True I assms(2) b by (auto simp: less_Suc_eq elim!: returns_mono)
    qed (use I in \<open>auto simp: less_Suc_eq\<close>)
  qed
  then show ?thesis .
qed

lemma prefix_count:
  assumes "\<And>i j. i \<le> j \<Longrightarrow> j < length xs \<Longrightarrow> P (xs ! j) \<Longrightarrow> P (xs ! i)"
  shows "i < length xs \<Longrightarrow> P (xs ! i) \<longleftrightarrow> i < length (filter P xs)"
  using assms
proof (induction xs arbitrary: i)
  case (Cons x xs)
  show ?case
  proof (cases "P x")
    case True
    have down: "P (xs ! i)" if "i \<le> j" "j < length xs" "P (xs ! j)" for i j
      using Cons.prems(2) [of "Suc i" "Suc j"] that by simp
    show ?thesis
    proof (cases i)
      case (Suc i')
      have "P (xs ! i') \<longleftrightarrow> i' < length (filter P xs)"
      proof (rule Cons.IH)
        show "i' < length xs" using Cons.prems(1) Suc by simp
      qed (rule down)
      then show ?thesis using True Suc by simp
    qed (use True in simp)
  next
    case False
    have no: "\<not> P ((x # xs) ! i)" if "i < length (x # xs)" for i
      using Cons.prems(2) [of 0 i] that False by auto
    have "\<not> P y" if y: "y \<in> set xs" for y
    proof -
      obtain i where "i < length xs" "y = xs ! i" using y by (auto simp: in_set_conv_nth)
      with no [of "Suc i"] show ?thesis by simp
    qed
    then have "filter P xs = []" by (simp add: filter_empty_conv)
    then show ?thesis using no [OF Cons.prems(1)] False by simp
  qed
qed simp

text \<open>The scaled ratio lies between the first and the last edge.\<close>

definition in_range :: "64 word \<Rightarrow> 64 word \<Rightarrow> 64 word list \<Rightarrow> 64 word \<Rightarrow> bool" where
  "in_range n d edges ratio_scale \<longleftrightarrow> uint (hd edges) * uint d \<le> uint n * uint ratio_scale \<and>
     uint n * uint ratio_scale < uint (last edges) * uint d"

lemma selected_bucket:
  assumes "2 \<le> length edges" "sorted (map uint edges)" "b < length edges - 1"
  shows "(uint (edges ! b) * uint d \<le> uint n * uint sc \<and> \<not> uint (edges ! Suc b) * uint d \<le> uint n * uint sc)
    = (in_range n d edges sc \<and> b = scan_bucket n d edges sc)"
proof -
  let ?P = "\<lambda>e. uint e * uint d \<le> uint n * uint sc"
  define c where "c = length (filter ?P edges)"
  have P: "?P (edges ! i) \<longleftrightarrow> i < c" if "i < length edges" for i
    unfolding c_def using that at_most_mono [OF assms(2), of _ _ d "uint n * uint sc"]
    by (intro prefix_count) (auto simp: at_most_def)
  have "hd edges = edges ! 0" "last edges = edges ! (length edges - 1)"
    using assms(1) by (cases edges; simp add: hd_conv_nth last_conv_nth)+
  then have "in_range n d edges sc \<longleftrightarrow> ?P (edges ! 0) \<and> \<not> ?P (edges ! (length edges - 1))"
    by (simp only: in_range_def not_le)
  moreover have "?P (edges ! 0) \<longleftrightarrow> 0 < c" "?P (edges ! (length edges - 1)) \<longleftrightarrow> length edges - 1 < c"
    using assms(1) by (intro P; linarith)+
  ultimately have R: "in_range n d edges sc \<longleftrightarrow> 0 < c \<and> c \<le> length edges - 1" by (simp only: not_less)
  have S: "scan_bucket n d edges sc = min (length edges - 2) (c - 1)"
    by (simp add: scan_bucket_def c_def)
  show ?thesis
  proof -
    have "?P (edges ! b) \<longleftrightarrow> b < c" "?P (edges ! Suc b) \<longleftrightarrow> Suc b < c"
      using assms(1,3) by (intro P; linarith)+
    then show ?thesis using assms(1,3) unfolding R S by (simp only:) linarith
  qed
qed

lemma first_set_all_zero: "\<forall>x\<in>set xs. \<not> bval x \<Longrightarrow> first_set xs b = 0"
  by (induction xs arbitrary: b) (auto simp: bit_reconstruct_bval)

lemma first_set_single:
  "j < length xs \<Longrightarrow> \<forall>i<length xs. bval (xs ! i) = (i = j) \<Longrightarrow> first_set xs b = b + j"
proof (induction xs arbitrary: j b)
  case (Cons x xs)
  show ?case
  proof (cases j)
    case (Suc j')
    have "\<forall>i<length xs. bval (xs ! i) = (i = j')" using Cons.prems(2) Suc by auto
    moreover have "\<not> bval x" using Cons.prems(2) Suc by auto
    ultimately show ?thesis using Cons.IH [of j' "Suc b"] Cons.prems(1) Suc by (simp add: bit_reconstruct_bval)
  qed (use Cons.prems in \<open>auto simp: bit_reconstruct_bval\<close>)
qed simp

definition bucket_cost :: "64 word list \<Rightarrow> 64 word \<Rightarrow> nat" where
  "bucket_cost edges sc = 192 * set_bits_of sc + edge_cost edges + 2 * (length edges - 1)"

lemma bucket_cost_budget:
  assumes "set_bits_of sc \<le> 14" "list_all (\<lambda>e. set_bits_of e \<le> 17) edges" "2 \<le> length edges" "length edges \<le> 129"
  shows "bucket_cost edges sc \<le> unat (bucketWireTripleBudget (word_of_nat (length edges - 1)))"
proof -
  have "edge_cost edges \<le> 3520 * length edges"
    using assms(2) by (induction edges) (auto simp: edge_cost_def)
  then have c: "bucket_cost edges sc \<le> 2688 + 3520 * length edges + 2 * (length edges - 1)"
    using assms(1) by (simp add: bucket_cost_def)
  obtain B where B: "length edges = Suc B" "B \<le> 128" using assms(3,4) by (cases "length edges") auto
  have "bucketWireTripleBudget (word_of_nat B) = word_of_nat (14 * 192 + (B + 1) * 3520 + 2 * B + 500)"
  proof -
    have "ucast (word_of_nat B + 1 :: 32 word) = (word_of_nat (B + 1) :: 64 word)"
      using B(2) by (intro word_unat_eq_iff [THEN iffD2]) (simp add: unat_word_ariths unat_of_nat unsigned_ucast_eq take_bit_nat_eq_self)
    moreover have "ucast (2 * word_of_nat B :: 32 word) = (word_of_nat (2 * B) :: 64 word)"
      using B(2) by (intro word_unat_eq_iff [THEN iffD2]) (simp add: unat_word_ariths unat_of_nat unsigned_ucast_eq take_bit_nat_eq_self)
    ultimately show ?thesis
      by (simp add: bucketWireTripleBudget_def secureLessThanTripleCost_def algebra_simps)
  qed
  moreover have "unat (word_of_nat (14 * 192 + (B + 1) * 3520 + 2 * B + 500) :: 64 word) = 14 * 192 + (B + 1) * 3520 + 2 * B + 500"
    using B(2) by (simp add: unat_of_nat take_bit_nat_eq_self del: of_nat_add of_nat_mult)
  ultimately show ?thesis using c B by simp
qed

subsection \<open>Property\<close>

lemma uint_no_wrap: "uint a * uint b < 2 ^ 64 \<Longrightarrow> uint (a * b :: 64 word) = uint a * uint b"
  by (simp add: uint_word_ariths mod_pos_pos_trivial)

lemma plain_bucket:
  assumes "2 \<le> length edges" "sorted (map uint edges)" "ratio_scale \<noteq> 0"
    and "uint n * uint ratio_scale < 2 ^ 64" "\<forall>e\<in>set edges. uint e * uint d < 2 ^ 64"
  shows "\<exists>pr. bucketIndex n d edges inc ratio_scale = Inr pr \<and> (inc \<noteq> 0 \<longrightarrow> in_range n d edges ratio_scale \<longrightarrow>
      bucket pr = scan_bucket n d edges ratio_scale \<and>
      one_hot pr = (replicate (length edges - 1) 0)[scan_bucket n d edges ratio_scale := 1]) \<and>
    (inc = 0 \<longrightarrow> bucket pr = 0 \<and> one_hot pr = replicate (length edges - 1) 0)"
proof (cases "inc = 0 \<or> d = 0")
  case True
  have "\<not> in_range n 0 edges ratio_scale" using assms(4) by (simp add: in_range_def not_less)
  then show ?thesis using True assms(1,3) by (auto simp: bucketIndex_def throw_if_def Let_def)
next
  case False
  have "uint n * uint ratio_scale < 2 ^ 127" using assms(4) by (rule less_trans) simp
  moreover have "\<forall>e\<in>set edges. uint e * uint d < 2 ^ 127"
  proof
    fix e assume "e \<in> set edges"
    with assms(5) have "uint e * uint d < 2 ^ 64" by blast
    then show "uint e * uint d < 2 ^ 127" by (rule less_trans) simp
  qed
  ultimately show ?thesis using bucketIndex_spec [OF assms(1-3)] False by simp
qed

lemma wire_bucket_returns:
  assumes "bag_ok N ts" "bin_ok N n" "bin_ok N d" "bit_N inc = N" "2 \<le> length edges" "length edges \<le> 129"
    and sorted: "sorted (map uint edges)"
    and wrap: "uint (bin_reconstruct n) * uint sc < 2 ^ 64" "\<forall>e\<in>set edges. uint e * uint (bin_reconstruct d) < 2 ^ 64"
    and "k + bucket_cost edges sc \<le> length ts"
  defines "j \<equiv> scan_bucket (bin_reconstruct n) (bin_reconstruct d) edges sc"
    and "sel \<equiv> bval inc \<and> in_range (bin_reconstruct n) (bin_reconstruct d) edges sc"
  shows "\<exists>r. bucketIndexWire n d edges inc sc ts k = Inr (r, k + bucket_cost edges sc) \<and>
    length (sb_one_hot r) = length edges - 1 \<and> (\<forall>b<length edges - 1. bval (sb_one_hot r ! b) = (sel \<and> b = j)) \<and>
    bin_reconstruct (sb_index r) = (if sel then word_of_nat j else 0)"
proof -
  let ?n = "bin_reconstruct n" and ?d = "bin_reconstruct d" and ?B = "length edges - 1"
  let ?k1 = "k + 192 * set_bits_of sc"
  have cost: "bucket_cost edges sc = 192 * set_bits_of sc + edge_cost edges + 2 * ?B" by (simp add: bucket_cost_def)
  obtain lhs where lhs: "mulPublicConstBitShared n sc ts k = Inr (lhs, ?k1)" "bin_ok N lhs" "bin_reconstruct lhs = ?n * sc"
    using mulPublicConst_returns [OF assms(1,2), of k sc] assms(10) by (auto simp: cost returns_def)
  obtain lt where lt: "edge_comparisons lhs d ts edges ?k1 = Inr (lt, ?k1 + edge_cost edges)" "length lt = length edges"
      "\<forall>i<length edges. bit_N (lt ! i) = N \<and> bval (lt ! i) = (?n * sc < ?d * edges ! i)"
    using edge_comparisons_returns [OF assms(1) lhs(2) assms(3), of ?k1 edges] assms(10)
    by (auto simp: cost returns_def lhs(3))
  have ltv: "bval (lt ! i) = (\<not> uint (edges ! i) * uint ?d \<le> uint ?n * uint sc)" if "i < length edges" for i
  proof -
    have "uint (edges ! i) * uint ?d < 2 ^ 64" using wrap(2) that by simp
    then have "uint (?d * edges ! i) = uint (edges ! i) * uint ?d"
      using uint_no_wrap [of "?d" "edges ! i"] by (simp add: mult.commute)
    then show ?thesis using lt(3) that uint_no_wrap [OF wrap(1)] by (simp add: word_less_def not_le)
  qed
  have B: "length lt = Suc ?B" "\<forall>i\<le>?B. bit_N (lt ! i) = N" "?k1 + edge_cost edges + 2 * ?B \<le> length ts"
    using lt(2,3) assms(5,10) by (auto simp: cost)
  obtain oh where oh: "one_hot_bits lt inc ts ?B (?k1 + edge_cost edges) = Inr (oh, ?k1 + edge_cost edges + 2 * ?B)" "length oh = ?B"
      "\<forall>b<?B. bit_N (oh ! b) = N \<and> bval (oh ! b) = (\<not> bval (lt ! b) \<and> bval (lt ! Suc b) \<and> bval inc)"
    using one_hot_bits_returns [OF assms(1) B(1,2) assms(4) B(3)] by (auto simp: returns_def)
  have ohv: "bval (oh ! b) = (sel \<and> b = j)" if "b < ?B" for b
    using oh(3) that ltv [of b] ltv [of "Suc b"] assms(5) selected_bucket [OF assms(5) sorted that, of ?d ?n sc]
    by (auto simp: sel_def j_def)
  have jB: "j < ?B" using assms(5) by (simp add: j_def scan_bucket_def)
  have ib: "returns (index_bit oh N i) (\<lambda>x. bit_N x = N \<and> bval x = (sel \<and> bit j i))" for i
    using index_bit_returns [of oh N sel j i] oh(2,3) ohv jB by auto
  obtain idx where idx: "mapE (index_bit oh N) [0..<7] = Inr idx" "length idx = 7"
      "\<forall>i<7. bit_N (idx ! i) = N \<and> bval (idx ! i) = (sel \<and> bit j i)"
    using returns_mapE_upt [of 7 "index_bit oh N" "\<lambda>i x. bit_N x = N \<and> bval x = (sel \<and> bit j i)"] ib
    by (auto simp: returns_def)
  have small: "\<not> bit j i" if "7 \<le> i" for i
  proof -
    have "j < 2 ^ 7" using jB assms(6) by simp
    then have "take_bit 7 j = j" by (simp add: take_bit_nat_eq_self)
    then show ?thesis using that by (metis bit_take_bit_iff not_le)
  qed
  have "bin_reconstruct \<lparr>bin_bits = idx @ replicate 57 (bit_zero N)\<rparr> = (if sel then word_of_nat j else 0)"
    by (rule bin_reconstruct_eqI) (use idx small in \<open>auto simp: nth_append bit_simps\<close>)
  then show ?thesis
    using lhs(1) lt(1) oh(1,2) idx(1) assms(2,5) ohv
    by (simp add: bucketIndexWire_def throw_if_def bin_ok_N cost add.assoc)
qed

text \<open>C18: the secret-shared bucket search against the plaintext search. For at most 128 buckets with
  ascending edges, products below \<open>2 ^ 64\<close> and a bag of the published budget (edges of at most 17
  set bits, a scale of at most 14) it returns within the budget. If the scaled ratio lies between the
  first and the last edge, its one-hot vector and its bucket index open to those of the plaintext
  search; outside that range no bit is set and the index opens to 0, where the plaintext search
  answers the first or the last bucket.\<close>

theorem bucketIndexWire_opens:
  assumes "bag_ok N ts" "bin_ok N n" "bin_ok N d" "bit_N inc = N" "2 \<le> length edges" "length edges \<le> 129"
    and "sorted (map uint edges)" "sc \<noteq> 0"
    and "uint (bin_reconstruct n) * uint sc < 2 ^ 64" "\<forall>e\<in>set edges. uint e * uint (bin_reconstruct d) < 2 ^ 64"
    and "set_bits_of sc \<le> 14" "list_all (\<lambda>e. set_bits_of e \<le> 17) edges"
    and "k + unat (bucketWireTripleBudget (word_of_nat (length edges - 1))) \<le> length ts"
  shows "\<exists>pr r k'. bucketIndex (bin_reconstruct n) (bin_reconstruct d) edges (bit_reconstruct inc) sc = Inr pr \<and>
    bucketIndexWire n d edges inc sc ts k = Inr (r, k') \<and>
    k' \<le> k + unat (bucketWireTripleBudget (word_of_nat (length edges - 1))) \<and>
    (if in_range (bin_reconstruct n) (bin_reconstruct d) edges sc
     then map bit_reconstruct (sb_one_hot r) = one_hot pr \<and> reconstructBucket r = bucket pr
     else map bit_reconstruct (sb_one_hot r) = replicate (length edges - 1) 0 \<and> reconstructBucket r = 0) \<and>
    bin_reconstruct (sb_index r) = word_of_nat (reconstructBucket r)"
proof -
  let ?n = "bin_reconstruct n" and ?d = "bin_reconstruct d"
  let ?j = "scan_bucket ?n ?d edges sc" and ?sel = "bval inc \<and> in_range ?n ?d edges sc"
  have budget: "bucket_cost edges sc \<le> unat (bucketWireTripleBudget (word_of_nat (length edges - 1)))"
    by (rule bucket_cost_budget) (use assms in auto)
  obtain pr where pr: "bucketIndex ?n ?d edges (bit_reconstruct inc) sc = Inr pr"
      "bval inc \<longrightarrow> in_range ?n ?d edges sc \<longrightarrow> bucket pr = ?j \<and> one_hot pr = (replicate (length edges - 1) 0)[?j := 1]"
      "\<not> bval inc \<longrightarrow> bucket pr = 0 \<and> one_hot pr = replicate (length edges - 1) 0"
    using plain_bucket [OF assms(5,7,8,9,10), of "bit_reconstruct inc"] by (auto simp: bit_reconstruct_bval)
  obtain r where r: "bucketIndexWire n d edges inc sc ts k = Inr (r, k + bucket_cost edges sc)"
      "length (sb_one_hot r) = length edges - 1" "\<forall>b<length edges - 1. bval (sb_one_hot r ! b) = (?sel \<and> b = ?j)"
      "bin_reconstruct (sb_index r) = (if ?sel then word_of_nat ?j else 0)"
    using wire_bucket_returns [OF assms(1-7,9,10), of k] budget assms(13) by auto
  have jB: "?j < length edges - 1" using assms(5) by (simp add: scan_bucket_def)
  have bucket: "reconstructBucket r = (if ?sel then ?j else 0)"
  proof (cases ?sel)
    case True
    then show ?thesis using first_set_single [of ?j "sb_one_hot r" 0] r(2,3) jB by (simp add: reconstructBucket_def)
  next
    case False
    then have "\<forall>x\<in>set (sb_one_hot r). \<not> bval x" using r(2,3) by (auto simp: in_set_conv_nth)
    then show ?thesis using False by (auto simp: reconstructBucket_def first_set_all_zero)
  qed
  have hot: "map bit_reconstruct (sb_one_hot r) = (if ?sel then (replicate (length edges - 1) 0)[?j := 1] else replicate (length edges - 1) 0)"
    by (rule nth_equalityI) (use r(2,3) in \<open>auto simp: bit_reconstruct_bval nth_list_update\<close>)
  show ?thesis
    using pr r(1,4) budget bucket hot by (intro exI [of _ pr] exI [of _ r] exI) auto
qed

lemma bucketIndexWire_opens_witness:
  "\<exists>n d inc r k'. bin_reconstruct n = 7 \<and> bin_reconstruct d = 2 \<and>
    bucketIndexWire n d [0, 10000, 20000, 30000, 40000] inc 10000 (replicate 21000 (zero_triple 2)) 0 = Inr (r, k') \<and>
    map bit_reconstruct (sb_one_hot r) = [0, 0, 0, 1] \<and> bin_reconstruct (sb_index r) = 3"
proof -
  let ?edges = "[0, 10000, 20000, 30000, 40000] :: 64 word list"
  obtain n d where nd: "bin_ok 2 n" "bin_reconstruct n = 7" "bin_ok 2 d" "bin_reconstruct d = 2"
    using bin_sharing_exists [of 2 7] bin_sharing_exists [of 2 2] by auto
  have pl: "bucketIndex 7 2 ?edges 1 10000 = Inr \<lparr>bucket = 3, one_hot = [0, 0, 0, 1]\<rparr>" by code_simp
  have s: "set_bits_of 10000 \<le> 14" "list_all (\<lambda>e. set_bits_of e \<le> 17) ?edges" by code_simp+
  have b: "0 + unat (bucketWireTripleBudget (word_of_nat (length ?edges - 1))) \<le> length (replicate 21000 (zero_triple 2))"
    by (simp add: bucketWireTripleBudget_def secureLessThanTripleCost_def)
  have i: "bit_N \<lparr>bit_shares = [1, 0]\<rparr> = 2" "bit_reconstruct \<lparr>bit_shares = [1, 0]\<rparr> = 1"
    by (simp_all add: bit_N_def bit_reconstruct_def)
  have rng: "in_range 7 2 ?edges 10000" by (simp add: in_range_def)
  from bucketIndexWire_opens [OF bag_ok_zero_triples [of 2 21000] nd(1,3) i(1), of ?edges 10000 0]
  show ?thesis
    using nd(2,4) pl s b i(2) rng by (intro exI [of _ n] exI [of _ d] exI [of _ "\<lparr>bit_shares = [1, 0]\<rparr>"]) auto
qed

end
