(* ===== verification/Goldschmidt_Wire.thy ===== *)
theory Goldschmidt_Wire
  imports Bit_Adder Ratio_Bucket
begin

text \<open>
  The fixed-point reciprocal on shares (\<open>volePSI/MpsvsGoldschmidtWire.h\<close>,
  \<open>volePSI/MpsvsGoldschmidtWire.cpp\<close>): addition, subtraction and multiplication of XOR-shared
  128-bit values, and the Newton iteration over them. The argument is opened for the range
  reduction and shared again with a generator of a fixed seed: its start state \<open>g0\<close> is a constant
  of the code, and its end state is dropped.
\<close>

subsection \<open>Shared 128-bit values\<close>

record SharedU128Bin =
  wb_bits :: "SharedBit list"

definition zero128 :: "nat \<Rightarrow> SharedU128Bin" where
  "zero128 N = \<lparr>wb_bits = replicate 128 (bit_zero N)\<rparr>"

text \<open>The signed reading of the opened word is \<open>sint\<close>.\<close>

definition wb_reconstruct :: "SharedU128Bin \<Rightarrow> 128 word" where
  "wb_reconstruct x = fold (\<lambda>i v. v OR push_bit i (ucast (bit_reconstruct (wb_bits x ! i) AND 1))) [0..<128] 0"

definition wb_N :: "SharedU128Bin \<Rightarrow> nat result" where
  "wb_N x = bindE (vec_at (wb_bits x) 0) (\<lambda>b. Inr (bit_N b))"

definition shareU128Bin :: "'g prng \<Rightarrow> nat \<Rightarrow> int \<Rightarrow> 'g \<Rightarrow> (SharedU128Bin \<times> 'g) result" where
  "shareU128Bin G N value g =
     bindE (foldE (\<lambda>i (out, g). bindE (shareBit G N (of_bool (bit value i)) g) (\<lambda>(b, g'). Inr (out @ [b], g')))
              [0..<128] ([], g))
       (\<lambda>(out, g'). Inr (\<lparr>wb_bits = out\<rparr>, g'))"

definition shareFpFromU64 :: "'g prng \<Rightarrow> nat \<Rightarrow> 64 word \<Rightarrow> 'g \<Rightarrow> (SharedU128Bin \<times> 'g) result" where
  "shareFpFromU64 G N value g = shareU128Bin G N (uint value * 2 ^ kFpFractionalBits) g"

subsection \<open>Circuits\<close>

definition add128_step ::
  "SharedBit list \<Rightarrow> SharedBit list \<Rightarrow> BeaverTripleBit list \<Rightarrow> nat \<Rightarrow>
   SharedBit list \<times> SharedBit \<times> nat \<Rightarrow> (SharedBit list \<times> SharedBit \<times> nat) result" where
  "add128_step xs ys triples i = (\<lambda>(out, carry, k).
     bindE (vec_at xs i) (\<lambda>x_i.
     bindE (vec_at ys i) (\<lambda>y_i.
     bindE (xorShared x_i y_i) (\<lambda>ab.
     bindE (xorShared ab carry) (\<lambda>sum.
     throw_if (k + 3 > length triples) (RuntimeError ''triple bag exhausted (bitAdd128)'')
       (bindE (carry_gate x_i y_i ab carry triples k) (\<lambda>(carry', k').
        Inr (out @ [sum], carry', k'))))))))"

definition bitAdd128 ::
  "SharedU128Bin \<Rightarrow> SharedU128Bin \<Rightarrow> BeaverTripleBit list \<Rightarrow> nat \<Rightarrow> (SharedU128Bin \<times> nat) result" where
  "bitAdd128 x y triples k =
     bindE (wb_N x) (\<lambda>N.
     bindE (foldE (add128_step (wb_bits x) (wb_bits y) triples) [0..<128] ([], bit_zero N, k)) (\<lambda>(out, _, k').
     Inr (\<lparr>wb_bits = out\<rparr>, k')))"

text \<open>The subtraction does not check its bag.\<close>

definition sub128_step ::
  "SharedBit list \<Rightarrow> SharedBit list \<Rightarrow> BeaverTripleBit list \<Rightarrow> nat \<Rightarrow>
   SharedBit list \<times> SharedBit \<times> nat \<Rightarrow> (SharedBit list \<times> SharedBit \<times> nat) result" where
  "sub128_step xs nys triples i = (\<lambda>(out, carry, k).
     bindE (vec_at xs i) (\<lambda>x_i.
     bindE (vec_at nys i) (\<lambda>y_i.
     bindE (xorShared x_i y_i) (\<lambda>ab.
     bindE (xorShared ab carry) (\<lambda>sum.
     bindE (carry_gate x_i y_i ab carry triples k) (\<lambda>(carry', k').
     Inr (out @ [sum], carry', k')))))))"

definition bitSub128 ::
  "SharedU128Bin \<Rightarrow> SharedU128Bin \<Rightarrow> BeaverTripleBit list \<Rightarrow> nat \<Rightarrow> (SharedU128Bin \<times> nat) result" where
  "bitSub128 x y triples k =
     bindE (wb_N x) (\<lambda>N.
     bindE (mapE (\<lambda>i. bindE (vec_at (wb_bits y) i) (\<lambda>b. xorConst b 1)) [0..<128]) (\<lambda>ny.
     throw_if (N = 0) OutOfBounds
       (bindE (foldE (sub128_step (wb_bits x) ny triples) [0..<128] ([], \<lparr>bit_shares = 1 # replicate (N - 1) 0\<rparr>, k))
         (\<lambda>(out, _, k'). Inr (\<lparr>wb_bits = out\<rparr>, k')))))"

definition partial_product ::
  "SharedU128Bin \<Rightarrow> SharedU128Bin \<Rightarrow> nat \<Rightarrow> BeaverTripleBit list \<Rightarrow> nat \<Rightarrow> nat \<Rightarrow> (SharedBit list \<times> nat) result" where
  "partial_product x y N triples i k =
     foldE (\<lambda>j (out, k).
         if j < i then Inr (out @ [bit_zero N], k)
         else throw_if (k \<ge> length triples) (RuntimeError ''triple bag exhausted (bitMul128 mux)'')
           (bindE (vec_at (wb_bits y) i) (\<lambda>y_i.
            bindE (vec_at (wb_bits x) (j - i)) (\<lambda>x_j.
            bindE (secureAnd y_i x_j (triples ! k)) (\<lambda>p. Inr (out @ [p], k + 1))))))
       [0..<128] ([], k)"

definition bitMul128 ::
  "SharedU128Bin \<Rightarrow> SharedU128Bin \<Rightarrow> BeaverTripleBit list \<Rightarrow> nat \<Rightarrow> (SharedU128Bin \<times> nat) result" where
  "bitMul128 x y triples k =
     bindE (wb_N x) (\<lambda>N.
     foldE (\<lambda>i (acc, k).
         bindE (partial_product x y N triples i k) (\<lambda>(p, k1).
         bitAdd128 acc \<lparr>wb_bits = p\<rparr> triples k1))
       [0..<128] (zero128 N, k))"

definition shift_right_bits :: "nat \<Rightarrow> nat \<Rightarrow> SharedU128Bin \<Rightarrow> SharedU128Bin" where
  "shift_right_bits N s x = \<lparr>wb_bits = map (\<lambda>i. if i + s < 128 then wb_bits x ! (i + s) else bit_zero N) [0..<128]\<rparr>"

definition fpMulShared ::
  "SharedU128Bin \<Rightarrow> SharedU128Bin \<Rightarrow> BeaverTripleBit list \<Rightarrow> nat \<Rightarrow> (SharedU128Bin \<times> nat) result" where
  "fpMulShared a b triples k =
     bindE (bitMul128 a b triples k) (\<lambda>(prod, k').
     bindE (wb_N a) (\<lambda>N. Inr (shift_right_bits N kFpFractionalBits prod, k')))"

subsection \<open>Reciprocal\<close>

definition rangeReduceReveal ::
  "'g prng \<Rightarrow> SharedU64Bin \<Rightarrow> 'g \<Rightarrow> (SharedU128Bin \<times> nat \<times> 'g) result" where
  "rangeReduceReveal G x g =
     (let x_plain = bin_reconstruct x in
      throw_if (x_plain = 0) (RuntimeError ''goldschmidtRecipWire: x = 0'')
        (bindE (recip_shift x_plain 0) (\<lambda>p.
         let x_prime_fp = (if p \<le> kFpFractionalBits then uint x_plain * 2 ^ (kFpFractionalBits - p)
                           else uint x_plain div 2 ^ (p - kFpFractionalBits))
         in bindE (shareU128Bin G (bin_N x) x_prime_fp g) (\<lambda>(s, g'). Inr (s, p, g')))))"

text \<open>The budget is computed in \<open>int\<close> and converted to \<open>size_t\<close>.\<close>

definition goldschmidtWireTripleBudget :: "int \<Rightarrow> 64 word result" where
  "goldschmidtWireTripleBudget iterations =
     (let b = iterations * (2 * 65536 + 380) + 1000 in
      throw_if (b < - (2 ^ 31) \<or> 2 ^ 31 \<le> b) SignedOverflow (Inr (word_of_int b)))"

fun newton_wire ::
  "SharedU128Bin \<Rightarrow> SharedU128Bin \<Rightarrow> BeaverTripleBit list \<Rightarrow> nat \<Rightarrow> SharedU128Bin \<Rightarrow> nat \<Rightarrow> (SharedU128Bin \<times> nat) result" where
  "newton_wire x' two triples 0 y k = Inr (y, k)"
| "newton_wire x' two triples (Suc t) y k =
     bindE (fpMulShared x' y triples k) (\<lambda>(xy, k1).
     bindE (bitSub128 two xy triples k1) (\<lambda>(two_minus_xy, k2).
     bindE (fpMulShared y two_minus_xy triples k2) (\<lambda>(y', k3).
     newton_wire x' two triples t y' k3)))"

definition goldschmidtRecipWire ::
  "'g prng \<Rightarrow> 'g \<Rightarrow> SharedU64Bin \<Rightarrow> int \<Rightarrow> BeaverTripleBit list \<Rightarrow> nat \<Rightarrow> (SharedU128Bin \<times> nat) result" where
  "goldschmidtRecipWire G g0 x iterations triples k =
     bindE (rangeReduceReveal G x g0) (\<lambda>(x_prime_fp, p, g1).
     let N = bin_N x in
     bindE (shareU128Bin G N (3 * 2 ^ kFpFractionalBits) g1) (\<lambda>(three_shared, g2).
     let two_x_prime = \<lparr>wb_bits = bit_zero N # take 127 (wb_bits x_prime_fp)\<rparr> in
     bindE (bitSub128 three_shared two_x_prime triples k) (\<lambda>(y0, k1).
     bindE (shareU128Bin G N (2 * 2 ^ kFpFractionalBits) g2) (\<lambda>(two_shared, g3).
     bindE (newton_wire x_prime_fp two_shared triples (nat iterations) y0 k1) (\<lambda>(y, k2).
     Inr (if p > 0 then shift_right_bits N p y else y, k2))))))"

subsection \<open>The circuits compute modulo \<open>2 ^ 128\<close>\<close>

definition wb_ok :: "nat \<Rightarrow> SharedU128Bin \<Rightarrow> bool" where
  "wb_ok n x \<longleftrightarrow> length (wb_bits x) = 128 \<and> (\<forall>i<128. bit_N (wb_bits x ! i) = n)"

definition wb_val :: "SharedU128Bin \<Rightarrow> nat" where
  "wb_val x = bits_val (wb_bits x)"

lemma wb_N_ok [simp]: "wb_ok n x \<Longrightarrow> wb_N x = Inr n"
  by (simp add: wb_ok_def wb_N_def)

lemma wb_val_less: "wb_ok n x \<Longrightarrow> wb_val x < 2 ^ 128"
  using bits_val_less [of "wb_bits x"] by (simp add: wb_ok_def wb_val_def)

lemma bit_wb_val: "wb_ok n x \<Longrightarrow> bit (wb_val x) i = (i < 128 \<and> bval (wb_bits x ! i))"
  by (simp add: wb_val_def wb_ok_def bits_val_bit)

lemma zero128_ok: "wb_ok n (zero128 n) \<and> wb_val (zero128 n) = 0"
  by (auto simp: wb_ok_def zero128_def wb_val_def intro!: bits_val_eqI)

lemma bitAdd128_returns:
  assumes "bag_ok n ts" "wb_ok n x" "wb_ok n y" "k + 384 \<le> length ts"
  shows "returns (bitAdd128 x y ts k) (\<lambda>(z, k'). wb_ok n z \<and> wb_val z = (wb_val x + wb_val y) mod 2 ^ 128 \<and> k' = k + 384)"
proof -
  let ?xs = "wb_bits x" and ?ys = "wb_bits y"
  have xy: "length ?xs = 128" "length ?ys = 128" "\<And>i. i < 128 \<Longrightarrow> bit_N (?xs ! i) = n" "\<And>i. i < 128 \<Longrightarrow> bit_N (?ys ! i) = n"
    using assms(2,3) by (simp_all add: wb_ok_def)
  have step: "returns (add128_step ?xs ?ys ts i (out, carry, j)) (adds_bit n ?xs ?ys i out carry j)"
    if "i < 128" "bit_N carry = n" "j = k + 3 * i" for i out carry j
    unfolding add128_step_def split adds_bit_def using assms(1,4) xy that by (intro gate_wp) auto
  have "returns (foldE (add128_step ?xs ?ys ts) [0..<128] ([], bit_zero n, k)) (\<lambda>(out, carry, k').
      length out = 128 \<and> (\<forall>j<128. bit_N (out ! j) = n) \<and> k' = k + 3 * 128 \<and>
      bits_val out = (bits_val ?xs + bits_val ?ys + of_bool (bval (bit_zero n))) mod 2 ^ 128)"
    by (rule ripple_returns [OF step xy(1,2)]) simp_all
  then show ?thesis
    using assms(2) by (auto simp: bitAdd128_def returns_bindE wb_ok_def wb_val_def wb_N_def elim!: returns_mono)
qed

lemma bval_carry_in: "0 < N \<Longrightarrow> bval \<lparr>bit_shares = 1 # replicate (N - 1) 0\<rparr>"
  by (simp add: bval_xor_list)

lemma bitSub128_returns:
  assumes "bag_ok n ts" "wb_ok n x" "wb_ok n y" "k + 384 \<le> length ts" "wb_val y \<le> wb_val x"
  shows "returns (bitSub128 x y ts k) (\<lambda>(z, k'). wb_ok n z \<and> wb_val z = wb_val x - wb_val y \<and> k' = k + 384)"
proof -
  let ?xs = "wb_bits x" and ?c = "\<lparr>bit_shares = 1 # replicate (n - 1) 0\<rparr> :: SharedBit"
  have n: "0 < n" using assms(1) by (simp add: bag_ok_def)
  have "returns (mapE (\<lambda>i. bindE (vec_at (wb_bits y) i) (\<lambda>b. xorConst b 1)) [0..<128])
      (\<lambda>ny. length ny = 128 \<and> (\<forall>i<128. bit_N (ny ! i) = n \<and> bval (ny ! i) = (\<not> bval (wb_bits y ! i))))"
  proof (rule returns_mapE_upt)
    fix i :: nat assume "i < 128"
    then show "returns (bindE (vec_at (wb_bits y) i) (\<lambda>b. xorConst b 1)) (\<lambda>b. bit_N b = n \<and> bval b = (\<not> bval (wb_bits y ! i)))"
      using assms(3) n xorConst_returns [of "wb_bits y ! i" 1] by (auto simp: wb_ok_def)
  qed
  then obtain ny where ny: "mapE (\<lambda>i. bindE (vec_at (wb_bits y) i) (\<lambda>b. xorConst b 1)) [0..<128] = Inr ny"
      "length ny = 128" "\<forall>i<128. bit_N (ny ! i) = n \<and> bval (ny ! i) = (\<not> bval (wb_bits y ! i))"
    by (auto simp: returns_def)
  have comp: "bits_val (wb_bits y) + bits_val ny + 1 = 2 ^ 128"
    using bits_val_complement [of ny "wb_bits y"] ny(2,3) assms(3) by (simp add: wb_ok_def)
  have xs: "length ?xs = 128" "\<And>i. i < 128 \<Longrightarrow> bit_N (?xs ! i) = n" using assms(2) by (simp_all add: wb_ok_def)
  have step: "returns (sub128_step ?xs ny ts i (out, carry, j)) (adds_bit n ?xs ny i out carry j)"
    if "i < 128" "bit_N carry = n" "j = k + 3 * i" for i out carry j
    unfolding sub128_step_def split adds_bit_def using assms(1,4) xs ny that by (intro gate_wp) auto
  have c: "bit_N ?c = n" "bval ?c" using n bval_carry_in by (simp_all add: bit_N_def)
  have "returns (foldE (sub128_step ?xs ny ts) [0..<128] ([], ?c, k)) (\<lambda>(out, carry, k').
      length out = 128 \<and> (\<forall>j<128. bit_N (out ! j) = n) \<and> k' = k + 3 * 128 \<and>
      bits_val out = (bits_val ?xs + bits_val ny + of_bool (bval ?c)) mod 2 ^ 128)"
    by (rule ripple_returns [OF step xs(1) ny(2) c(1)]) simp_all
  moreover have "(bits_val ?xs + bits_val ny + of_bool (bval ?c)) mod 2 ^ 128 = wb_val x - wb_val y"
  proof -
    have "bits_val ?xs + bits_val ny + of_bool (bval ?c) = (wb_val x - wb_val y) + 2 ^ 128"
      using comp assms(5) c(2) unfolding wb_val_def by simp
    then show ?thesis using wb_val_less [OF assms(2)] by simp
  qed
  ultimately obtain out carry where "foldE (sub128_step ?xs ny ts) [0..<128] ([], ?c, k) = Inr (out, carry, k + 384)"
      "length out = 128" "\<forall>j<128. bit_N (out ! j) = n" "bits_val out = wb_val x - wb_val y"
    by (auto simp: returns_def)
  then show ?thesis
    using assms(2) n by (simp add: bitSub128_def ny(1) throw_if_def wb_ok_def wb_val_def wb_N_def)
qed

text \<open>The triples one product takes: the muxes of the partial products and 128 additions.\<close>

definition mul_cost :: nat where
  "mul_cost = 57408"

lemma arith_series: "n \<le> c \<Longrightarrow> 2 * (\<Sum>j<n. c - j + d) + n * n = n * (2 * c + 2 * d + 1)" for c d n :: nat
proof (induction n)
  case (Suc n)
  then obtain e where "c = Suc n + e" by (auto simp: le_iff_add)
  with Suc show ?case by (simp add: algebra_simps)
qed simp

lemma mul_cost_sum: "(\<Sum>j<128. 128 - j + 384 :: nat) = mul_cost"
  using arith_series [of 128 128 384] by (simp add: mul_cost_def)

lemma mul_cost_le:
  assumes "i < 128"
  shows "(\<Sum>j<i. 128 - j + 384) + (128 - i) + 384 \<le> mul_cost"
proof -
  have "(\<Sum>j<Suc i. 128 - j + 384 :: nat) \<le> (\<Sum>j<128. 128 - j + 384)"
    using assms by (intro sum_mono2) auto
  then show ?thesis by (simp only: mul_cost_sum sum.lessThan_Suc add.assoc)
qed

lemma partial_product_returns:
  assumes "bag_ok n ts" "wb_ok n x" "wb_ok n y" "i < 128" "k + (128 - i) \<le> length ts"
  shows "returns (partial_product x y n ts i k) (\<lambda>(p, k'). wb_ok n \<lparr>wb_bits = p\<rparr> \<and> k' = k + (128 - i) \<and>
    wb_val \<lparr>wb_bits = p\<rparr> = (if bit (wb_val y) i then take_bit 128 (push_bit i (wb_val x)) else 0))"
proof -
  let ?f = "\<lambda>j (out, k). if j < i then Inr (out @ [bit_zero n], k)
         else throw_if (k \<ge> length ts) (RuntimeError ''triple bag exhausted (bitMul128 mux)'')
           (bindE (vec_at (wb_bits y) i) (\<lambda>y_i.
            bindE (vec_at (wb_bits x) (j - i)) (\<lambda>x_j.
            bindE (secureAnd y_i x_j (ts ! k)) (\<lambda>p. Inr (out @ [p], k + 1)))))"
  let ?Q = "\<lambda>j b. bit_N b = n \<and> bval b = (i \<le> j \<and> bval (wb_bits y ! i) \<and> bval (wb_bits x ! (j - i)))"
  let ?I = "\<lambda>j (out, k'). length out = j \<and> k' = k + (j - i) \<and> (\<forall>l<j. ?Q l (out ! l))"
  have "returns (foldE ?f [0..<128] ([], k)) (?I 128)"
  proof (rule returns_foldE_upt)
    fix j and s :: "SharedBit list \<times> nat"
    assume j: "j < 128" and I: "?I j s"
    obtain out where s: "s = (out, k + (j - i))" "length out = j" "\<forall>l<j. ?Q l (out ! l)"
      using I by (cases s) auto
    show "returns (?f j s) (?I (Suc j))"
    proof (cases "j < i")
      case True
      then show ?thesis using s by (auto simp: nth_append less_Suc_eq)
    next
      case False
      then have kk: "k + (j - i) < length ts" "k + (Suc j - i) = k + (j - i) + 1" using assms(5) j by auto
      have t: "bit_triple_ok n (ts ! (k + (j - i)))" "0 < n" using assms(1) kk(1) by (auto simp: bag_ok_def)
      have N: "bit_N (wb_bits y ! i) = n" "bit_N (wb_bits x ! (j - i)) = n" "i < length (wb_bits y)" "j - i < length (wb_bits x)"
        using assms(2-4) j by (auto simp: wb_ok_def)
      obtain p where "secureAnd (wb_bits y ! i) (wb_bits x ! (j - i)) (ts ! (k + (j - i))) = Inr p" "bit_N p = n"
          "bval p = (bval (wb_bits y ! i) \<and> bval (wb_bits x ! (j - i)))"
        using secureAnd_returns [OF N(1,2) t] by (auto simp: returns_def)
      then show ?thesis
        using False kk N(3,4) s by (auto simp: throw_if_def nth_append less_Suc_eq)
    qed
  qed simp
  then obtain p where p: "partial_product x y n ts i k = Inr (p, k + (128 - i))" "length p = 128" "\<forall>l<128. ?Q l (p ! l)"
    by (auto simp: partial_product_def returns_def)
  then have ok: "wb_ok n \<lparr>wb_bits = p\<rparr>" by (simp add: wb_ok_def)
  moreover have "wb_val \<lparr>wb_bits = p\<rparr> = (if bit (wb_val y) i then take_bit 128 (push_bit i (wb_val x)) else 0)"
    by (rule bit_eqI) (use p(3) assms(2-4) ok in \<open>auto simp: bit_wb_val [OF ok] bit_wb_val [OF assms(2)] bit_wb_val [OF assms(3)]
      bit_take_bit_iff bit_push_bit_iff\<close>)
  ultimately show ?thesis using p(1) by simp
qed

lemma bitMul128_returns:
  assumes "bag_ok n ts" "wb_ok n x" "wb_ok n y" "k + mul_cost \<le> length ts"
  shows "returns (bitMul128 x y ts k) (\<lambda>(z, k'). wb_ok n z \<and> wb_val z = (wb_val x * wb_val y) mod 2 ^ 128 \<and> k' = k + mul_cost)"
proof -
  let ?f = "\<lambda>i (acc, k). bindE (partial_product x y n ts i k) (\<lambda>(p, k1). bitAdd128 acc \<lparr>wb_bits = p\<rparr> ts k1)"
  let ?I = "\<lambda>i (acc, k'). wb_ok n acc \<and> wb_val acc = (wb_val x * take_bit i (wb_val y)) mod 2 ^ 128 \<and>
    k' = k + (\<Sum>j<i. 128 - j + 384)"
  have cost: "k + (\<Sum>j<i. 128 - j + 384) + (128 - i) + 384 \<le> length ts" if "i < 128" for i
    using mul_cost_le [OF that] assms(4) by linarith
  have loop: "returns (foldE ?f [0..<128] (zero128 n, k)) (?I 128)"
  proof (rule returns_foldE_upt [where I = ?I])
    show "?I 0 (zero128 n, k)" using zero128_ok by simp
  next
    fix i and s :: "SharedU128Bin \<times> nat"
    assume i: "i < 128" and I: "?I i s"
    let ?k = "k + (\<Sum>j<i. 128 - j + 384)"
    obtain acc where s: "s = (acc, ?k)" "wb_ok n acc" "wb_val acc = (wb_val x * take_bit i (wb_val y)) mod 2 ^ 128"
      using I by (cases s) auto
    obtain p where p: "partial_product x y n ts i ?k = Inr (p, ?k + (128 - i))" "wb_ok n \<lparr>wb_bits = p\<rparr>"
        "wb_val \<lparr>wb_bits = p\<rparr> = (if bit (wb_val y) i then take_bit 128 (push_bit i (wb_val x)) else 0)"
      using partial_product_returns [OF assms(1-3) i, of ?k] cost [OF i] by (auto simp: returns_def)
    obtain z where z: "bitAdd128 acc \<lparr>wb_bits = p\<rparr> ts (?k + (128 - i)) = Inr (z, ?k + (128 - i) + 384)" "wb_ok n z"
        "wb_val z = (wb_val acc + wb_val \<lparr>wb_bits = p\<rparr>) mod 2 ^ 128"
      using bitAdd128_returns [OF assms(1) s(2) p(2), of "?k + (128 - i)"] cost [OF i] by (auto simp: returns_def)
    have "wb_val z = (wb_val x * take_bit i (wb_val y) + wb_val x * (2 ^ i * of_bool (bit (wb_val y) i))) mod 2 ^ 128"
      unfolding z(3) s(3) p(3)
      by (simp add: take_bit_eq_mod push_bit_eq_mult mod_add_eq mult.commute [of "wb_val x"])
    then have "wb_val z = (wb_val x * take_bit (Suc i) (wb_val y)) mod 2 ^ 128"
      by (simp add: take_bit_Suc_from_most algebra_simps)
    then show "returns (?f i s) (?I (Suc i))"
      using z(2) by (simp add: s(1) p(1) z(1))
  qed
  have "take_bit 128 (wb_val y) = wb_val y" using wb_val_less [OF assms(3)] by (simp add: take_bit_nat_eq_self)
  with loop [unfolded mul_cost_sum] show ?thesis
    using assms(2) by (simp add: bitMul128_def)
qed

lemma shift_right_bits_ok:
  assumes "wb_ok n x"
  shows "wb_ok n (shift_right_bits n s x) \<and> wb_val (shift_right_bits n s x) = drop_bit s (wb_val x)"
proof -
  have ok: "wb_ok n (shift_right_bits n s x)" using assms by (simp add: wb_ok_def shift_right_bits_def)
  have "wb_val (shift_right_bits n s x) = drop_bit s (wb_val x)"
  proof (rule bit_eqI)
    fix i
    have "i < 128 \<Longrightarrow> wb_bits (shift_right_bits n s x) ! i = (if i + s < 128 then wb_bits x ! (i + s) else bit_zero n)"
      by (simp add: shift_right_bits_def)
    then show "bit (wb_val (shift_right_bits n s x)) i = bit (drop_bit s (wb_val x)) i"
      by (auto simp: bit_wb_val [OF ok] bit_drop_bit_eq bit_wb_val [OF assms] add.commute split: if_splits)
  qed
  with ok show ?thesis ..
qed

lemma fpMulShared_returns:
  assumes "bag_ok n ts" "wb_ok n a" "wb_ok n b" "k + mul_cost \<le> length ts" "wb_val a * wb_val b < 2 ^ 128"
  shows "returns (fpMulShared a b ts k) (\<lambda>(z, k'). wb_ok n z \<and> wb_val z = wb_val a * wb_val b div 2 ^ 40 \<and> k' = k + mul_cost)"
proof -
  obtain z where z: "bitMul128 a b ts k = Inr (z, k + mul_cost)" "wb_ok n z" "wb_val z = wb_val a * wb_val b"
    using bitMul128_returns [OF assms(1-4)] assms(5) by (auto simp: returns_def)
  then show ?thesis
    using assms(2) shift_right_bits_ok [OF z(2), of 40]
    by (simp add: fpMulShared_def kFpFractionalBits_def drop_bit_eq_div)
qed

subsection \<open>Sharing and opening\<close>

lemma wb_reconstruct_val:
  assumes "wb_ok n x"
  shows "unat (wb_reconstruct x) = wb_val x"
proof -
  have "bit (fold (\<lambda>i v. v OR push_bit i (ucast (bit_reconstruct (wb_bits x ! i) AND 1))) [0..<m] 0 :: 128 word) j
      \<longleftrightarrow> j < m \<and> bval (wb_bits x ! j)" if "m \<le> 128" for m j
    using that
  proof (induction m)
    case (Suc m)
    then show ?case by (auto simp: bit_simps bit_reconstruct_bval less_Suc_eq)
  qed simp
  from this [of 128] have "bit (wb_reconstruct x) j \<longleftrightarrow> j < 128 \<and> bval (wb_bits x ! j)" for j
    by (simp add: wb_reconstruct_def)
  then show ?thesis
    by (intro bit_eqI) (simp add: bit_unsigned_iff bit_wb_val [OF assms])
qed

lemma shareU128Bin_returns:
  fixes g :: 'g
  assumes "2 \<le> n" "0 \<le> v" "v < 2 ^ 128"
  shows "returns (shareU128Bin G n v g) (\<lambda>(x, g'). wb_ok n x \<and> int (wb_val x) = v)"
proof -
  let ?f = "\<lambda>i (out, g :: 'g). bindE (shareBit G n (of_bool (bit v i)) g) (\<lambda>(b, g'). Inr (out @ [b], g'))"
  let ?I = "\<lambda>i (out, g' :: 'g). length out = i \<and> (\<forall>j<i. bit_N (out ! j) = n \<and> bval (out ! j) = bit v j)"
  have "returns (foldE ?f [0..<128] ([], g)) (?I 128)"
  proof (rule returns_foldE_upt [where I = ?I])
    fix i and s :: "SharedBit list \<times> 'g"
    assume I: "?I i s"
    obtain out g1 where s: "s = (out, g1)" by (cases s)
    show "returns (?f i s) (?I (Suc i))"
      using shareBit_returns [OF assms(1), of G "of_bool (bit v i)" g1] I
      by (auto simp: s returns_bindE nth_append less_Suc_eq bit_simps elim!: returns_mono)
  qed simp
  then obtain out g' where o: "foldE ?f [0..<128] ([], g) = Inr (out, g')" "length out = 128"
      "\<forall>j<128. bit_N (out ! j) = n \<and> bval (out ! j) = bit v j"
    by (auto simp: returns_def)
  then have ok: "wb_ok n \<lparr>wb_bits = out\<rparr>" by (simp add: wb_ok_def)
  have "wb_val \<lparr>wb_bits = out\<rparr> = nat v"
  proof (rule bit_eqI)
    fix j
    have "bit (nat v) j = bit v j" using assms(2) by (simp add: bit_nat_iff)
    moreover have "\<not> bit v j" if "128 \<le> j"
    proof -
      have "take_bit 128 v = v" using assms(2,3) by (simp add: take_bit_int_eq_self)
      then show ?thesis using that by (metis bit_take_bit_iff not_le)
    qed
    ultimately show "bit (wb_val \<lparr>wb_bits = out\<rparr>) j = bit (nat v) j"
      using o(3) by (cases "j < 128") (simp_all add: bit_wb_val [OF ok])
  qed
  then show ?thesis using o(1) ok assms(2) by (simp add: shareU128Bin_def)
qed

lemma double_bits:
  assumes "wb_ok n x" "2 * wb_val x < 2 ^ 128"
  shows "wb_ok n \<lparr>wb_bits = bit_zero n # take 127 (wb_bits x)\<rparr> \<and>
    wb_val \<lparr>wb_bits = bit_zero n # take 127 (wb_bits x)\<rparr> = 2 * wb_val x"
proof -
  let ?z = "\<lparr>wb_bits = bit_zero n # take 127 (wb_bits x)\<rparr>"
  have ok: "wb_ok n ?z" using assms(1) by (auto simp: wb_ok_def nth_Cons split: nat.splits)
  have "take_bit 128 (2 * wb_val x) = 2 * wb_val x"
    using assms(2) by (simp add: take_bit_nat_eq_self)
  then have big: "bit (2 * wb_val x) i \<Longrightarrow> i < 128" for i by (metis bit_take_bit_iff)
  have "wb_val ?z = 2 * wb_val x"
  proof (rule bit_eqI)
    fix i
    show "bit (wb_val ?z) i = bit (2 * wb_val x) i"
      using big [of i] by (cases i) (auto simp: bit_wb_val [OF ok] bit_wb_val [OF assms(1)] bit_double_iff simp del: mult_2)
  qed
  with ok show ?thesis by blast
qed

subsection \<open>The iteration\<close>

definition iter_cost :: nat where
  "iter_cost = 2 * mul_cost + 384"

lemma newton_wire_returns:
  assumes "bag_ok n ts" "wb_ok n x'" "wb_ok n two" "wb_val two = 2 * 2 ^ 40"
    and X: "int (wb_val x') = X" "2 ^ 39 \<le> X" "X \<le> 2 ^ 40"
  shows "wb_ok n y \<Longrightarrow> \<bar>2 ^ 80 - X * int (wb_val y)\<bar> \<le> 2 ^ 77 \<Longrightarrow> k + t * iter_cost \<le> length ts \<Longrightarrow>
    \<exists>z Y. newton_wire x' two ts t y k = Inr (z, k + t * iter_cost) \<and> wb_ok n z \<and>
      newton X t (int (wb_val y)) = Inr Y \<and> int (wb_val z) = Y"
proof (induction t arbitrary: y k)
  case (Suc t)
  let ?Y = "int (wb_val y)"
  define q where "q = X * ?Y div 2 ^ 40"
  define Y' where "Y' = ?Y * (2 * 2 ^ 40 - q) div 2 ^ 40"
  note r = newton_ranges [OF X(2,3) _ Suc.prems(2), folded q_def, simplified]
  have mul: "int (wb_val x' * wb_val y) = X * ?Y" using X(1) by simp
  have "int (wb_val x' * wb_val y) < int (2 ^ 128)" unfolding mul using r(2) by simp
  then have m1: "wb_val x' * wb_val y < 2 ^ 128" by (simp only: of_nat_less_iff)
  have k: "k + mul_cost \<le> length ts" "k + mul_cost + 384 \<le> length ts" "k + mul_cost + 384 + mul_cost \<le> length ts"
      "k + iter_cost + t * iter_cost \<le> length ts"
    using Suc.prems(3) by (auto simp: iter_cost_def)
  obtain xy where xy: "fpMulShared x' y ts k = Inr (xy, k + mul_cost)" "wb_ok n xy" "wb_val xy = wb_val x' * wb_val y div 2 ^ 40"
    using fpMulShared_returns [OF assms(1,2) Suc.prems(1) k(1) m1] by (auto simp: returns_def)
  have q: "int (wb_val xy) = q" unfolding xy(3) q_def by (simp add: zdiv_int X(1))
  have le: "wb_val xy \<le> wb_val two" using r(4) q assms(4) by simp
  obtain d where d: "bitSub128 two xy ts (k + mul_cost) = Inr (d, k + mul_cost + 384)" "wb_ok n d" "wb_val d = wb_val two - wb_val xy"
    using bitSub128_returns [OF assms(1,3) xy(2) k(2) le] by (auto simp: returns_def)
  have dq: "int (wb_val d) = 2 * 2 ^ 40 - q" using d(3) le assms(4) q by (simp add: of_nat_diff)
  then have "int (wb_val y * wb_val d) < int (2 ^ 128)" using r(6) by simp
  then have m2: "wb_val y * wb_val d < 2 ^ 128" by (simp only: of_nat_less_iff)
  obtain y' where y': "fpMulShared y d ts (k + mul_cost + 384) = Inr (y', k + mul_cost + 384 + mul_cost)" "wb_ok n y'"
      "wb_val y' = wb_val y * wb_val d div 2 ^ 40"
    using fpMulShared_returns [OF assms(1) Suc.prems(1) d(2) k(3) m2] by (auto simp: returns_def)
  have Y': "int (wb_val y') = Y'" unfolding y'(3) Y'_def by (simp add: zdiv_int dq)
  have step: "newton X (Suc t) ?Y = newton X t Y'" "0 \<le> Y'" "\<bar>2 ^ 80 - X * Y'\<bar> \<le> 2 ^ 77"
    using newton_step [OF X(2,3) _ Suc.prems(2), of "2 ^ 74" "2 ^ 37" "2 ^ 77" t] by (simp_all add: Y'_def q_def del: newton.simps)
  obtain z Y where "newton_wire x' two ts t y' (k + iter_cost) = Inr (z, k + iter_cost + t * iter_cost)" "wb_ok n z"
      "newton X t (int (wb_val y')) = Inr Y" "int (wb_val z) = Y"
    using Suc.IH [OF y'(2), of "k + iter_cost"] step(3) k(4) by (auto simp: Y')
  moreover have e: "k + mul_cost + 384 + mul_cost = k + iter_cost" by (simp add: iter_cost_def)
  have "newton_wire x' two ts (Suc t) y k = newton_wire x' two ts t y' (k + iter_cost)"
    by (simp add: xy(1) d(1) y'(1) [unfolded e])
  ultimately show ?case
    using step(1) Y' by (simp add: add.assoc del: newton.simps newton_wire.simps)
qed simp

subsection \<open>Property\<close>

lemma wire_budget:
  assumes "goldschmidtWireTripleBudget (int t) = Inr b"
  shows "384 + t * iter_cost \<le> unat b"
proof -
  let ?b = "int t * (2 * 65536 + 380) + 1000"
  have r: "?b < 2 ^ 31" "b = word_of_int ?b"
    using assms by (auto simp: goldschmidtWireTripleBudget_def Let_def throw_if_def split: if_splits)
  have "?b mod 2 ^ 64 = ?b" using r(1) by (intro mod_pos_pos_trivial) simp_all
  then have "uint b = ?b" by (simp only: r(2) uint_word_of_int) simp
  then have "int (unat b) = int t * 131452 + 1000" by simp
  then have "unat b = t * 131452 + 1000" by linarith
  then show ?thesis by (simp add: iter_cost_def mul_cost_def)
qed

text \<open>C19: the secret-shared reciprocal against the plaintext one. For an argument of 1 to \<open>2 ^ 40\<close>, any
  number of iterations and a bag of the published budget, it returns within the budget and opens
  to exactly the fixed-point value the plaintext iteration computes; from six iterations on that
  value times the argument is \<open>2 ^ 40\<close> up to one above and the argument below.\<close>

theorem goldschmidtRecipWire_opens:
  assumes "bag_ok n ts" "2 \<le> n" "bin_ok n x" "bin_reconstruct x \<noteq> 0" "uint (bin_reconstruct x) \<le> 2 ^ 40"
    and "goldschmidtWireTripleBudget (int t) = Inr b" "k + unat b \<le> length ts"
  shows "\<exists>z k' y. goldschmidtRecipWire G g0 x (int t) ts k = Inr (z, k') \<and> k' \<le> k + unat b \<and>
    goldschmidtRecip (bin_reconstruct x) (int t) = Inr y \<and> uint (wb_reconstruct z) = y \<and>
    (6 \<le> t \<longrightarrow> \<bar>2 ^ 40 - uint (bin_reconstruct x) * y\<bar> \<le> uint (bin_reconstruct x))"
proof -
  let ?x = "bin_reconstruct x"
  obtain p where p: "recip_shift ?x 0 = Inr p" "p \<le> 40" and XB: "2 ^ 39 \<le> uint ?x * 2 ^ (40 - p)" "uint ?x * 2 ^ (40 - p) \<le> 2 ^ 40"
      "\<bar>2 ^ 80 - uint ?x * 2 ^ (40 - p) * (3 * 2 ^ 40 - 2 * (uint ?x * 2 ^ (40 - p)))\<bar> \<le> 2 ^ 77"
    using range_reduction [OF assms(4,5)] .
  define X where "X = uint ?x * 2 ^ (40 - p)"
  have X: "2 ^ 39 \<le> X" "X \<le> 2 ^ 40" "\<bar>2 ^ 80 - X * (3 * 2 ^ 40 - 2 * X)\<bar> \<le> 2 ^ 77" using XB unfolding X_def .
  have cost: "384 + t * iter_cost \<le> unat b" using assms(6) by (rule wire_budget)
  have N: "bin_N x = n" using assms(3) by (rule bin_ok_N)
  obtain xs g1 where xs: "shareU128Bin G n X g0 = Inr (xs, g1)" "wb_ok n xs" "int (wb_val xs) = X"
    using shareU128Bin_returns [OF assms(2), of X G g0] X by (auto simp: returns_def)
  obtain th g2 where th: "shareU128Bin G n (3 * 2 ^ 40) g1 = Inr (th, g2)" "wb_ok n th" "int (wb_val th) = 3 * 2 ^ 40"
    using shareU128Bin_returns [OF assms(2), of "3 * 2 ^ 40" G g1] by (auto simp: returns_def)
  obtain tw g3 where tw: "shareU128Bin G n (2 * 2 ^ 40) g2 = Inr (tw, g3)" "wb_ok n tw" "int (wb_val tw) = 2 * 2 ^ 40"
    using shareU128Bin_returns [OF assms(2), of "2 * 2 ^ 40" G g2] by (auto simp: returns_def)
  let ?d = "\<lparr>wb_bits = bit_zero n # take 127 (wb_bits xs)\<rparr>"
  have small: "2 * wb_val xs < 2 ^ 128" "2 * wb_val xs \<le> wb_val th" using X(2) xs(3) th(3) by simp_all
  have d: "wb_ok n ?d" "wb_val ?d = 2 * wb_val xs" using double_bits [OF xs(2) small(1)] by auto
  obtain y0 where y0: "bitSub128 th ?d ts k = Inr (y0, k + 384)" "wb_ok n y0" "wb_val y0 = wb_val th - 2 * wb_val xs"
    using bitSub128_returns [OF assms(1) th(2) d(1), of k] small(2) d(2) cost assms(7) by (auto simp: returns_def)
  have Y0: "int (wb_val y0) = 3 * 2 ^ 40 - 2 * X" using y0(3) small(2) xs(3) th(3) by (simp add: of_nat_diff)
  have tw2: "wb_val tw = 2 * 2 ^ 40" using tw(3) by simp
  have e0: "\<bar>2 ^ 80 - X * int (wb_val y0)\<bar> \<le> 2 ^ 77" using X(3) by (simp only: Y0)
  have "k + 384 + t * iter_cost \<le> length ts" using cost assms(7) by linarith
  from newton_wire_returns [OF assms(1) xs(2) tw(2) tw2 xs(3) X(1,2) y0(2) e0 this]
  obtain z Y where z: "newton_wire xs tw ts t y0 (k + 384) = Inr (z, k + 384 + t * iter_cost)" "wb_ok n z"
      "newton X t (3 * 2 ^ 40 - 2 * X) = Inr Y" "int (wb_val z) = Y"
    by (auto simp: Y0)
  define z' where "z' = (if p > 0 then shift_right_bits n p z else z)"
  have z': "wb_ok n z'" "int (wb_val z') = Y div 2 ^ p"
    using z(2,4) shift_right_bits_ok [OF z(2), of p] by (auto simp: z'_def drop_bit_eq_div zdiv_int)
  have "goldschmidtRecipWire G g0 x (int t) ts k = Inr (z', k + 384 + t * iter_cost)"
    using assms(4) p
    by (simp add: goldschmidtRecipWire_def rangeReduceReveal_def Let_def throw_if_def N kFpFractionalBits_def
        xs(1) [unfolded X_def] th(1) [simplified] tw(1) [simplified] y0(1) z(1) z'_def)
  moreover have "goldschmidtRecip ?x (int t) = Inr (Y div 2 ^ p)"
    using assms(4) p z(3)
    by (simp add: goldschmidtRecip_def Let_def throw_if_def kFpFractionalBits_def X_def [symmetric])
  moreover have "uint (wb_reconstruct z') = Y div 2 ^ p"
    by (simp only: uint_nat wb_reconstruct_val [OF z'(1)] z'(2))
  moreover have "k + 384 + t * iter_cost \<le> k + unat b" using cost by simp
  moreover have "\<bar>2 ^ 40 - uint ?x * y\<bar> \<le> uint ?x" if "6 \<le> t" "goldschmidtRecip ?x (int t) = Inr y" for y
  proof -
    have "0 < uint ?x" using assms(4) by (simp add: word_neq_0_conv flip: word_less_iff_unsigned) (simp add: word_less_def)
    then show ?thesis using goldschmidtRecip_spec [OF assms(4,5), of "int t"] that by auto
  qed
  ultimately show ?thesis by blast
qed

lemma goldschmidtRecipWire_opens_witness:
  "\<exists>x z k'. bin_reconstruct x = 3 \<and>
    goldschmidtRecipWire counter_prng 7 x 1 (replicate 132452 (zero_triple 2)) 0 = Inr (z, k') \<and>
    uint (wb_reconstruct z) = 360777252864"
proof -
  obtain x where x: "bin_ok 2 x" "bin_reconstruct x = 3" using bin_sharing_exists [of 2 3] by auto
  have b: "goldschmidtWireTripleBudget (int 1) = Inr 132452"
    by (simp add: goldschmidtWireTripleBudget_def throw_if_def)
  have y: "goldschmidtRecip 3 (int 1) = Inr 360777252864" by code_simp
  from goldschmidtRecipWire_opens [OF bag_ok_zero_triples [of 2 132452] _ x(1) _ _ b, of 0 counter_prng 7]
  show ?thesis using x y by auto
qed

end
