(* ===== verification/Reciprocal_Verify.thy ===== *)
theory Reciprocal_Verify
  imports Spdz_Share Ratio_Bucket
begin

text \<open>
  The consistency check of a claimed reciprocal (\<open>volePSI/MpsvsReciprocalVerify.h\<close>,
  \<open>volePSI/MpsvsReciprocalVerify.cpp\<close>): one authenticated product, opened with its MAC, compared
  with \<open>2 ^ f\<close>. A MAC failure inside the product is caught and answered with \<open>False\<close>; other errors
  pass. The state of the random source after the check is not tracked.
\<close>

definition near_power :: "64 word \<Rightarrow> 32 word \<Rightarrow> 64 word \<Rightarrow> bool result" where
  "near_power z_plain f_bits tolerance =
     throw_if (f_bits \<ge> 64) UndefinedShift
       (let expected = push_bit (unat f_bits) 1;
            diff = (if z_plain > expected then z_plain - expected else expected - z_plain)
        in Inr (diff \<le> tolerance))"

definition verifyReciprocalAuth ::
  "AuthSharedU64 \<Rightarrow> AuthSharedU64 \<Rightarrow> 64 word \<Rightarrow> 32 word \<Rightarrow> 64 word \<Rightarrow> AuthBeaverTriple \<Rightarrow> bool result" where
  "verifyReciprocalAuth x_arith y_fp alpha f_bits tolerance triple =
     (case authSecureMultiply y_fp x_arith triple alpha of
        Inl (AuthShareMacFailure _) \<Rightarrow> Inr False
      | Inl e \<Rightarrow> Inl e
      | Inr z \<Rightarrow>
          (case openWithMacCheck z alpha of
             None \<Rightarrow> Inr False
           | Some z_plain \<Rightarrow> near_power z_plain f_bits tolerance))"

definition verifyReciprocalAuthShared ::
  "(bytes \<Rightarrow> bytes) \<Rightarrow> 'r prng \<Rightarrow> AuthSharedU64 \<Rightarrow> AuthSharedU64 \<Rightarrow> AlphaShare \<Rightarrow> 32 word \<Rightarrow> 64 word \<Rightarrow>
   AuthBeaverTriple \<Rightarrow> 'r \<Rightarrow> bool result" where
  "verifyReciprocalAuthShared H R x_arith y_fp alpha f_bits tolerance triple r =
     (case authSecureMultiplyShared H R y_fp x_arith triple alpha r of
        Inl (AuthShareMacFailure _) \<Rightarrow> Inr False
      | Inl e \<Rightarrow> Inl e
      | Inr (z, r1) \<Rightarrow>
          bindE (openWithMacCheckShared H R z alpha r1) (\<lambda>(oz, r2).
          case oz of
            None \<Rightarrow> Inr False
          | Some z_plain \<Rightarrow> near_power z_plain f_bits tolerance))"

definition generateWrongReciprocal ::
  "'g prng \<Rightarrow> nat \<Rightarrow> 64 word \<Rightarrow> 64 word \<Rightarrow> 'g \<Rightarrow> (AuthSharedU64 \<times> 'g) result" where
  "generateWrongReciprocal G N wrong_value alpha g = authShareU64 G N wrong_value alpha g"

subsection \<open>What the check accepts\<close>

lemma near_power_iff:
  assumes "f < 64"
  shows "near_power z f tol = Inr (\<bar>uint z - 2 ^ unat f\<bar> \<le> uint tol)"
proof -
  have f: "unat f < 64" using assms by (simp add: word_less_nat_alt)
  then have e: "uint (2 ^ unat f :: 64 word) = 2 ^ unat f"
    by (intro uint_2p) (simp add: word_gt_0)
  show ?thesis
  proof (cases "z > 2 ^ unat f")
    case True
    then have "2 ^ unat f < uint z" by (simp add: word_less_def e)
    moreover have "uint (z - 2 ^ unat f) = uint z - 2 ^ unat f"
      using uint_minus_simple_alt [of "2 ^ unat f" z] True by (simp add: e less_imp_le)
    ultimately show ?thesis
      using True assms by (simp add: near_power_def throw_if_def not_le [symmetric] word_le_def [of _ tol])
  next
    case False
    then have "uint z \<le> 2 ^ unat f" by (simp add: word_less_def e)
    moreover have "uint (2 ^ unat f - z) = 2 ^ unat f - uint z"
      using uint_minus_simple_alt [of z "2 ^ unat f"] False by (simp add: e not_less)
    ultimately show ?thesis
      using False assms by (simp add: near_power_def throw_if_def not_le [symmetric] word_le_def [of _ tol])
  qed
qed

lemma verifyShared_returns:
  assumes "auth_valid 2 (alpha_of alpha) x" "auth_valid 2 (alpha_of alpha) y" "auth_triple_ok 2 (alpha_of alpha) t"
    and "u64_N (alpha_share alpha) = 2" "f < 64"
  shows "verifyReciprocalAuthShared H R x y alpha f tol t r = Inr (\<bar>uint (aval y * aval x) - 2 ^ unat f\<bar> \<le> uint tol)"
proof -
  obtain z r1 where z: "authSecureMultiplyShared H R y x t alpha r = Inr (z, r1)" "auth_valid 2 (alpha_of alpha) z"
      "aval z = aval y * aval x"
    using authSecureMultiplyShared_returns [OF assms(2,1,3,4), of H R r] by (auto elim!: returnsE)
  obtain r2 where "openWithMacCheckShared H R z alpha r1 = Inr (Some (aval z), r2)"
    using openShared_valid [OF z(2) assms(4), of H R r1] by auto
  then show ?thesis
    using assms(5) by (simp add: verifyReciprocalAuthShared_def z(1,3) near_power_iff)
qed

lemma even_times_half:
  fixes x :: "64 word"
  assumes "even (unat x)"
  shows "2 ^ 63 * x = 0"
proof -
  obtain k where "unat x = 2 * k" using assms ..
  then have "x = word_of_nat (2 * k)" by (metis of_nat_unat ucast_id)
  then have "2 ^ 63 * x = word_of_nat k * 2 ^ 64" by simp
  moreover have "(2 :: 64 word) ^ 64 = 0" by simp
  ultimately show ?thesis by (simp only: mult_zero_right)
qed

subsection \<open>Property\<close>

text \<open>The check, on authenticated operands and triple and with fewer than 64 fractional bits, never
  fails and accepts exactly the claims whose product with the argument, modulo \<open>2 ^ 64\<close>, is within
  the tolerance of \<open>2 ^ f\<close>. It therefore cannot tell a claim from the claim plus \<open>2 ^ 63\<close> when the
  argument is even: both are accepted or both refused.\<close>

theorem verifyReciprocalAuthShared_decides:
  assumes "auth_valid 2 (alpha_of alpha) x" "auth_valid 2 (alpha_of alpha) y" "auth_triple_ok 2 (alpha_of alpha) t"
    and "u64_N (alpha_share alpha) = 2" "f < 64"
  shows "verifyReciprocalAuthShared H R x y alpha f tol t r = Inr (\<bar>uint (aval y * aval x) - 2 ^ unat f\<bar> \<le> uint tol) \<and>
    (even (unat (aval x)) \<longrightarrow> (\<forall>y'. auth_valid 2 (alpha_of alpha) y' \<longrightarrow> aval y' = aval y + 2 ^ 63 \<longrightarrow>
       verifyReciprocalAuthShared H R x y' alpha f tol t r = verifyReciprocalAuthShared H R x y alpha f tol t r))"
proof (intro conjI impI allI)
  show v: "verifyReciprocalAuthShared H R x y alpha f tol t r = Inr (\<bar>uint (aval y * aval x) - 2 ^ unat f\<bar> \<le> uint tol)"
    by (rule verifyShared_returns [OF assms])
  fix y' assume ev: "even (unat (aval x))" and y': "auth_valid 2 (alpha_of alpha) y'" "aval y' = aval y + 2 ^ 63"
  have "aval y' * aval x = aval y * aval x + 2 ^ 63 * aval x" by (simp only: y'(2) distrib_right)
  then have "aval y' * aval x = aval y * aval x" by (simp only: even_times_half [OF ev] add_0_right)
  then show "verifyReciprocalAuthShared H R x y' alpha f tol t r = verifyReciprocalAuthShared H R x y alpha f tol t r"
    by (simp only: v verifyShared_returns [OF assms(1) y'(1) assms(3-5)])
qed

text \<open>The argument 2 with its reciprocal \<open>2 ^ 39\<close> and with the wrong claim \<open>2 ^ 39 + 2 ^ 63\<close>.\<close>

lemma verifyReciprocalAuthShared_decides_witness:
  "\<exists>x y y' t. aval x = 2 \<and> aval y = 2 ^ 39 \<and> aval y' = 2 ^ 39 + 2 ^ 63 \<and>
    verifyReciprocalAuthShared id counter_prng x y \<lparr>alpha_share = \<lparr>u64_shares = [3, 8]\<rparr>\<rparr> 40 0 t 5 = Inr True \<and>
    verifyReciprocalAuthShared id counter_prng x y' \<lparr>alpha_share = \<lparr>u64_shares = [3, 8]\<rparr>\<rparr> 40 0 t 5 = Inr True"
proof -
  let ?a = "\<lparr>alpha_share = \<lparr>u64_shares = [3, 8]\<rparr>\<rparr>"
  obtain x where x: "auth_valid 2 (alpha_of ?a) x" "aval x = 2"
    using authShareU64_returns [of 2 counter_prng 2 "alpha_of ?a" 0] by (auto elim!: returnsE)
  obtain y where y: "auth_valid 2 (alpha_of ?a) y" "aval y = 2 ^ 39"
    using authShareU64_returns [of 2 counter_prng "2 ^ 39" "alpha_of ?a" 0] by (auto elim!: returnsE)
  obtain y' where y': "auth_valid 2 (alpha_of ?a) y'" "aval y' = 2 ^ 39 + 2 ^ 63"
    using authShareU64_returns [of 2 counter_prng "2 ^ 39 + 2 ^ 63" "alpha_of ?a" 0] by (auto elim!: returnsE)
  obtain t where t: "auth_triple_ok 2 (alpha_of ?a) t"
    using generateAuthBeaverTriple_returns [of 2 counter_prng "alpha_of ?a" 0] by (auto elim!: returnsE)
  from verifyReciprocalAuthShared_decides [OF x(1) y(1) t, of 40 id counter_prng 0 5] x(2) y y'
  have "verifyReciprocalAuthShared id counter_prng x y ?a 40 0 t 5 = Inr True \<and>
      verifyReciprocalAuthShared id counter_prng x y' ?a 40 0 t 5 = verifyReciprocalAuthShared id counter_prng x y ?a 40 0 t 5"
    by (simp add: u64_N_def)
  with x y y' show ?thesis by (metis (no_types))
qed

end
