(* ===== verification/Rank_Wire.thy ===== *)
theory Rank_Wire
  imports Bit_Adder Mpc_Sort Inclusion_Wire Rank
begin

text \<open>
  Ranks on shares (\<open>volePSI/MpsvsRankWire.h\<close>, \<open>volePSI/MpsvsRankWire.cpp\<close>): the rows of one metric
  are packed into sort elements (key: population, exclusion bit, bucket), padded, sorted by the
  shared bitonic sort, and a pass over the sorted rows adds the shared inclusion bits up per
  population. The bucket is read from the numerator field, as the code does.

  The local \<open>SlimEntry\<close> of the code has the fields of \<open>SharedSlimRow\<close>, which is used for both.
\<close>

record SharedSlimRow =
  sl_entity_idx :: "32 word"
  sl_popkey :: "32 word"
  sl_incl :: SharedBit
  sl_bucket :: SharedU64Bin

record SharedRankedRow =
  sr_entity_idx :: "32 word"
  sr_popkey :: "32 word"
  sr_incl :: SharedBit
  sr_bucket :: SharedU64Bin
  sr_rank :: SharedU64Bin

record PlainRankedRow =
  pr_entity_idx :: "32 word"
  pr_popkey :: "32 word"
  pr_incl :: "8 word"
  pr_bucket :: "32 word"
  pr_rank :: "64 word"

subsection \<open>The adder and the budget\<close>

definition rank_add_step ::
  "SharedBit list \<Rightarrow> SharedBit list \<Rightarrow> BeaverTripleBit list \<Rightarrow> nat \<Rightarrow>
   SharedBit list \<times> SharedBit \<times> nat \<Rightarrow> (SharedBit list \<times> SharedBit \<times> nat) result" where
  "rank_add_step xs ys triples i = (\<lambda>(out, carry, k).
     bindE (vec_at xs i) (\<lambda>x_i.
     bindE (vec_at ys i) (\<lambda>y_i.
     bindE (xorShared x_i y_i) (\<lambda>ab.
     bindE (xorShared ab carry) (\<lambda>sum.
     bindE (carry_gate x_i y_i ab carry triples k) (\<lambda>(carry', k').
     Inr (out @ [sum], carry', k')))))))"

definition bitAddRC ::
  "SharedU64Bin \<Rightarrow> SharedU64Bin \<Rightarrow> BeaverTripleBit list \<Rightarrow> nat \<Rightarrow> (SharedU64Bin \<times> nat) result" where
  "bitAddRC x y triples k =
     bindE (foldE (rank_add_step (bin_bits x) (bin_bits y) triples) [0..<64] ([], bit_zero (bin_N x), k))
       (\<lambda>(out, _, k'). Inr (\<lparr>bin_bits = out\<rparr>, k'))"

definition rankWireTripleBudget :: "64 word \<Rightarrow> 64 word result" where
  "rankWireTripleBudget n_rows =
     bindE (mpcBitonicSortTripleCost n_rows 40) (\<lambda>sort_cost.
     let scan_cost = n_rows * 192 in Inr (sort_cost + scan_cost + 500))"

subsection \<open>Packing\<close>

definition public_bit :: "nat \<Rightarrow> bool \<Rightarrow> SharedBit result" where
  "public_bit N b = bindE (vec_set (bit_shares (bit_zero N)) 0 (of_bool b)) (\<lambda>ss. Inr \<lparr>bit_shares = ss\<rparr>)"

definition buildSortKey :: "32 word \<Rightarrow> SharedBit \<Rightarrow> SharedU64Bin \<Rightarrow> SharedU64Bin result" where
  "buildSortKey pop inc bkt =
     (let N = bin_N bkt in
      bindE (mapE (\<lambda>i. public_bit N (bit pop i)) [0..<8]) (\<lambda>pk.
      bindE (xorConst inc 1) (\<lambda>inv.
      Inr \<lparr>bin_bits = replicate 48 (bit_zero N) @ take 7 (bin_bits bkt) @ [inv] @ pk\<rparr>)))"

definition buildPayload :: "32 word \<Rightarrow> SharedBit \<Rightarrow> SharedU64Bin \<Rightarrow> SharedBit list result" where
  "buildPayload idx inc bkt =
     bindE (mapE (\<lambda>i. public_bit (bin_N bkt) (bit idx i)) [0..<32]) (\<lambda>ids.
     Inr (ids @ [inc] @ take 7 (bin_bits bkt)))"

definition decodePayload :: "SharedBit list \<Rightarrow> (32 word \<times> SharedBit \<times> SharedU64Bin) result" where
  "decodePayload pl =
     throw_if (length pl < 40) OutOfBounds
       (let N = bit_N (pl ! 0);
            idx = fold (\<lambda>i v. v OR push_bit i (ucast (bit_reconstruct (pl ! i)) AND 1)) [0..<32] 0
        in Inr (idx, pl ! 32, \<lparr>bin_bits = map (\<lambda>i. pl ! (33 + i)) [0..<7] @ replicate 57 (bit_zero N)\<rparr>))"

definition row_popkey :: "SharedSortElement \<Rightarrow> 32 word" where
  "row_popkey e =
     fold (\<lambda>b pk. pk OR push_bit b (ucast (bit_reconstruct (bin_bits (sse_key e) ! (56 + b))) AND 1)) [0..<8] 0"

definition dummy_element :: "nat \<Rightarrow> SharedSortElement result" where
  "dummy_element N =
     bindE (mapE (\<lambda>i. public_bit N True) [0..<8]) (\<lambda>pk.
     bindE (public_bit N True) (\<lambda>inv.
     Inr \<lparr>sse_key = \<lparr>bin_bits = replicate 55 (bit_zero N) @ [inv] @ pk\<rparr>, sse_payload = replicate 40 (bit_zero N)\<rparr>))"

subsection \<open>The pass over the sorted rows\<close>

definition wire_rank_step ::
  "'g prng \<Rightarrow> nat \<Rightarrow> BeaverTripleBit list \<Rightarrow> SharedSortElement \<Rightarrow>
   32 word \<times> SharedU64Bin \<times> nat \<times> 'g \<times> SharedRankedRow list \<Rightarrow>
   (32 word \<times> SharedU64Bin \<times> nat \<times> 'g \<times> SharedRankedRow list) result" where
  "wire_rank_step G N triples e = (\<lambda>(cur, acc, k, g, out).
     let pk = row_popkey e in
     if pk = 0xff then Inr (cur, acc, k, g, out)
     else bindE (if pk \<noteq> cur then shareU64Bin G N 0 g else Inr (acc, g)) (\<lambda>(acc1, g1).
          bindE (decodePayload (sse_payload e)) (\<lambda>(idx, inc, bkt).
          let incl_bin = \<lparr>bin_bits = inc # replicate 63 (bit_zero N)\<rparr> in
          bindE (bitAddRC acc1 incl_bin triples k) (\<lambda>(acc2, k2).
          Inr (pk, acc2, k2, g1, out @ [\<lparr>sr_entity_idx = idx, sr_popkey = pk, sr_incl = inc,
            sr_bucket = bkt, sr_rank = acc1\<rparr>])))))"

text \<open>The loop counter has 32 bits and is compared with the 64-bit size: from \<open>2 ^ 32\<close> rows on it never
  reaches it, and the loop does not end.\<close>

definition slim_entries :: "SharedEntityMetricRow list \<Rightarrow> Metric \<Rightarrow> SharedSlimRow list result" where
  "slim_entries rows m =
     bindE (mapE (\<lambda>i. bindE (vec_at (se_metrics (rows ! i)) (metric_index m)) (\<lambda>mp.
       Inr \<lparr>sl_entity_idx = word_of_nat i, sl_popkey = se_sector (rows ! i), sl_incl = sm_incl mp,
            sl_bucket = sm_num mp\<rparr>)) [0..<length rows]) (\<lambda>slim.
     throw_if (2 ^ 32 \<le> int (length rows)) Diverges (Inr slim))"

definition sort_element :: "SharedSlimRow \<Rightarrow> SharedSortElement result" where
  "sort_element s =
     bindE (buildSortKey (sl_popkey s) (sl_incl s) (sl_bucket s)) (\<lambda>key.
     bindE (buildPayload (sl_entity_idx s) (sl_incl s) (sl_bucket s)) (\<lambda>pl.
     Inr \<lparr>sse_key = key, sse_payload = pl\<rparr>))"

definition rankViaHistogramWire ::
  "'g prng \<Rightarrow> SharedEntityMetricRow list \<Rightarrow> Metric \<Rightarrow> BeaverTripleBit list \<Rightarrow> nat \<Rightarrow> 'g \<Rightarrow>
   (SharedRankedRow list \<times> nat \<times> 'g) result" where
  "rankViaHistogramWire G rows m triples k g =
     (if rows = [] then Inr ([], k, g)
      else let N = bit_N (se_live (rows ! 0)) in
        bindE (slim_entries rows m) (\<lambda>slim.
        bindE (mapE sort_element slim) (\<lambda>xs.
        case nextPow_loop (of_nat (length xs)) 1 of None \<Rightarrow> Inl Diverges
        | Some target \<Rightarrow>
            bindE (mapE (\<lambda>_. dummy_element N) [length xs..<unat target]) (\<lambda>dummies.
            bindE (mpcBitonicSort (xs @ dummies) triples k) (\<lambda>(ys, k1).
            bindE (shareU64Bin G N 0 g) (\<lambda>(acc, g1).
            bindE (foldE (wire_rank_step G N triples) ys (0xffff, acc, k1, g1, []))
              (\<lambda>(_, _, k2, g2, out). Inr (out, k2, g2))))))))"

definition reconstructRanked :: "SharedRankedRow list \<Rightarrow> PlainRankedRow list" where
  "reconstructRanked shared = map (\<lambda>r.
     \<lparr>pr_entity_idx = sr_entity_idx r, pr_popkey = sr_popkey r, pr_incl = bit_reconstruct (sr_incl r),
      pr_bucket = ucast (bin_reconstruct (sr_bucket r) AND 0x7F), pr_rank = bin_reconstruct (sr_rank r)\<rparr>) shared"

subsection \<open>The adder adds\<close>

lemma rank_add_step_returns:
  assumes "bag_ok n ts" "i < length xs" "i < length ys" "bit_N (xs ! i) = n" "bit_N (ys ! i) = n" "bit_N carry = n"
    and "k + 3 \<le> length ts"
  shows "returns (rank_add_step xs ys ts i (out, carry, k)) (adds_bit n xs ys i out carry k)"
  unfolding rank_add_step_def split adds_bit_def using assms by (intro gate_wp) auto

lemma bitAddRC_returns:
  assumes "bag_ok n ts" "bin_ok n x" "bin_ok n y" "k + 192 \<le> length ts"
  shows "returns (bitAddRC x y ts k) (\<lambda>(z, k'). bin_ok n z \<and>
    bin_reconstruct z = bin_reconstruct x + bin_reconstruct y \<and> k' = k + 192)"
  unfolding bitAddRC_def
  by (intro bin_ripple_returns rank_add_step_returns) (use assms in \<open>auto simp: bin_ok_def\<close>)

interpretation rank_adder: shared_adder bitAddRC
  by unfold_locales (rule bitAddRC_returns)

subsection \<open>What the elements open to\<close>

text \<open>
  The plain row behind an opened element, and its inverse on rows with an 8-bit population, an
  inclusion bit and a 7-bit bucket.
\<close>

definition unpack :: "64 word \<times> bool list \<Rightarrow> SlimRow" where
  "unpack = (\<lambda>(key, pl). \<lparr>entity_idx = horner_sum of_bool 2 (take 32 pl), popkey = ucast (drop_bit 56 key),
     s_incl = of_bool (pl ! 32), s_bucket = horner_sum of_bool 2 (take 7 (drop 33 pl)), rank = 0\<rparr>)"

definition pack_key :: "SlimRow \<Rightarrow> nat" where
  "pack_key s = 2 ^ 48 * (s_bucket s + 2 ^ 7 * (of_bool (s_incl s = 0) + 2 * unat (popkey s)))"

definition slim_ok :: "SlimRow \<Rightarrow> bool" where
  "slim_ok s \<longleftrightarrow> unat (popkey s) < 256 \<and> (s_incl s = 0 \<or> s_incl s = 1) \<and> s_bucket s < 128 \<and> rank s = 0"

lemma pack_key_less: "slim_ok s \<Longrightarrow> pack_key s < 2 ^ 64 - 1"
  unfolding slim_ok_def pack_key_def by (cases "s_incl s = 0") simp_all

lemma pack_key_order:
  assumes "slim_ok s" "slim_ok t" "pack_key s \<le> pack_key t"
  shows "slim_key s \<le> slim_key t"
proof -
  let ?i = "\<lambda>s. of_bool (s_incl s = 0) :: nat"
  have le: "s_bucket s + 2 ^ 7 * (?i s + 2 * unat (popkey s)) \<le> s_bucket t + 2 ^ 7 * (?i t + 2 * unat (popkey t))"
    using assms(3) by (simp add: pack_key_def)
  have b: "s_bucket s < 128" "s_bucket t < 128" using assms(1,2) by (simp_all add: slim_ok_def)
  have h: "?i s + 2 * unat (popkey s) \<le> ?i t + 2 * unat (popkey t)" using le b by simp
  have p: "unat (popkey s) \<le> unat (popkey t)" using h by (cases "s_incl s = 0"; cases "s_incl t = 0") simp_all
  have i: "(1 - s_incl s) = (of_bool (s_incl s = 0) :: 8 word)" "(1 - s_incl t) = (of_bool (s_incl t = 0) :: 8 word)"
    using assms(1,2) by (auto simp: slim_ok_def)
  show ?thesis
  proof (cases "popkey s = popkey t")
    case True
    then show ?thesis using le h by (cases "s_incl s = 0"; cases "s_incl t = 0") (simp_all add: slim_key_def i)
  next
    case False
    then have "popkey s < popkey t" using p by (simp add: word_less_nat_alt word_unat_eq_iff)
    then show ?thesis by (simp add: slim_key_def)
  qed
qed

lemma bit_fold_or32:
  assumes "n \<le> 32"
  shows "bit (fold (\<lambda>i v. v OR push_bit i (ucast (f i :: 8 word) AND 1)) [0..<n] (0 :: 32 word)) j \<longleftrightarrow> j < n \<and> bit (f j) 0"
  using assms
proof (induction n)
  case (Suc n)
  then show ?case by (cases "j = n") (auto simp: bit_simps less_Suc_eq)
qed simp

lemma public_bit_returns:
  assumes "0 < n"
  shows "returns (public_bit n b) (\<lambda>x. bit_N x = n \<and> bval x = b)"
  using assms by (cases n) (simp_all add: public_bit_def bit_zero_def bit_N_def bval_xor_list)

lemma public_bits_returns:
  assumes "0 < n"
  shows "returns (mapE (\<lambda>i. public_bit n (p i)) [0..<m]) (\<lambda>bs. bits_ok n m bs \<and> map bval bs = map p [0..<m])"
  using returns_mapE_upt [of m "\<lambda>i. public_bit n (p i)" "\<lambda>i x. bit_N x = n \<and> bval x = p i"] public_bit_returns [OF assms]
  by (auto elim!: returns_mono intro!: nth_equalityI)

text \<open>The plain row of a shared slim row: only 8 bits of the population and 7 of the bucket count.\<close>

definition slim_of :: "SharedSlimRow \<Rightarrow> SlimRow" where
  "slim_of s = \<lparr>entity_idx = sl_entity_idx s, popkey = take_bit 8 (sl_popkey s), s_incl = bit_reconstruct (sl_incl s),
     s_bucket = unat (take_bit 7 (bin_reconstruct (sl_bucket s))), rank = 0\<rparr>"

lemma slim_of_ok: "slim_ok (slim_of s)"
proof -
  have "unat (take_bit 8 (sl_popkey s)) < 2 ^ 8" "unat (take_bit 7 (bin_reconstruct (sl_bucket s))) < 2 ^ 7"
    by (simp_all only: unsigned_take_bit_eq take_bit_nat_less_exp)
  then show ?thesis by (simp add: slim_ok_def slim_of_def bit_reconstruct_bval)
qed

lemma horner_bits:
  "horner_sum of_bool 2 (map (bit (w :: 'a::len word)) [0..<m]) = (take_bit m (unat w))" if "m \<le> LENGTH('a)"
proof -
  have "map (bit w) [0..<m] = map (bit (unat w)) [0..<m]"
    using that by (auto simp: bit_unsigned_iff)
  then show ?thesis by (simp only: horner_sum_bit_eq_take_bit)
qed

lemma horner_zeros [simp]: "horner_sum of_bool 2 (replicate m False) = (0 :: nat)"
  by (induction m) simp_all

lemma sort_element_returns:
  assumes "bit_N (sl_incl s) = n" "bin_ok n (sl_bucket s)" "0 < n"
  shows "returns (sort_element s) (\<lambda>e. elem_ok n 40 e \<and> unat (fst (reveal_elem e)) = pack_key (slim_of s) \<and>
    unpack (reveal_elem e) = slim_of s)"
proof -
  let ?b = "sl_bucket s" and ?p = "sl_popkey s" and ?i = "sl_entity_idx s" and ?inc = "sl_incl s"
  have N: "bin_N ?b = n" using assms(2) by (rule bin_ok_N)
  have b: "length (bin_bits ?b) = 64" "\<forall>i<64. bit_N (bin_bits ?b ! i) = n" using assms(2) by (simp_all add: bin_ok_def)
  obtain pk where pk: "mapE (\<lambda>i. public_bit n (bit ?p i)) [0..<8] = Inr pk" "bits_ok n 8 pk" "map bval pk = map (bit ?p) [0..<8]"
    using public_bits_returns [OF assms(3), of "bit ?p" 8] by (auto simp only: returns_def)
  obtain ids where ids: "mapE (\<lambda>i. public_bit n (bit ?i i)) [0..<32] = Inr ids" "bits_ok n 32 ids"
      "map bval ids = map (bit ?i) [0..<32]"
    using public_bits_returns [OF assms(3), of "bit ?i" 32] by (auto simp only: returns_def)
  obtain inv where inv: "xorConst ?inc 1 = Inr inv" "bit_N inv = n" "bval inv = (\<not> bval ?inc)"
    using xorConst_returns [of ?inc 1] assms(1,3) by (auto simp: returns_def)
  let ?key = "\<lparr>bin_bits = replicate 48 (bit_zero n) @ take 7 (bin_bits ?b) @ [inv] @ pk\<rparr>"
  let ?pl = "ids @ [?inc] @ take 7 (bin_bits ?b)"
  have run: "sort_element s = Inr \<lparr>sse_key = ?key, sse_payload = ?pl\<rparr>"
    by (simp add: sort_element_def buildSortKey_def buildPayload_def N pk(1) ids(1) inv(1))
  have key: "bin_ok n ?key"
    unfolding bin_ok_def by (use pk(2) inv(2) b in \<open>auto simp: nth_append nth_Cons'\<close>)
  have pl: "bits_ok n 40 ?pl" using ids(2) assms(1) b by (auto simp: nth_append nth_Cons')
  have bucket: "horner_sum of_bool 2 (map bval (take 7 (bin_bits ?b))) = s_bucket (slim_of s)"
    using b(1) by (simp add: slim_of_def unsigned_take_bit_eq unat_bin_reconstruct bits_val_def take_bit_horner_sum_bit_eq take_map)
  have "unat (bin_reconstruct ?key) = bits_val (bin_bits ?key)" using key by (rule bin_ok_reconstruct)
  also have "\<dots> = pack_key (slim_of s)"
    using b(1) pk(2,3) inv(3) horner_bits [of 8 ?p]
    by (simp add: bits_val_def horner_sum_append bucket pack_key_def slim_of_def unsigned_take_bit_eq bit_reconstruct_bval)
  finally have uk: "unat (bin_reconstruct ?key) = pack_key (slim_of s)" .
  have "ucast (drop_bit 56 (bin_reconstruct ?key)) = take_bit 8 ?p"
  proof (rule bit_word_eqI)
    fix j :: nat assume "j < LENGTH(32)"
    have "bval (pk ! j) = bit ?p j" if "j < 8" using that pk(2) arg_cong [OF pk(3), of "\<lambda>l. l ! j"] by simp
    then show "bit (ucast (drop_bit 56 (bin_reconstruct ?key)) :: 32 word) j = bit (take_bit 8 ?p) j"
      using b(1) by (auto simp: bit_simps bit_bin_reconstruct nth_append)
  qed
  moreover have "horner_sum of_bool 2 (take 32 (map bval ?pl)) = ?i"
    using ids(2,3) horner_sum_bit_eq_take_bit [of ?i 32] by (simp add: take_bit_word_eq_self)
  ultimately have "unpack (reveal_elem \<lparr>sse_key = ?key, sse_payload = ?pl\<rparr>) = slim_of s"
    using ids(2) bucket b(1)
    by (simp add: unpack_def reveal_elem_def slim_of_def nth_append bit_reconstruct_bval take_map)
  with run key pl uk show ?thesis by (simp add: elem_ok_def reveal_elem_def)
qed

lemma dummy_element_returns:
  assumes "0 < n"
  shows "returns (dummy_element n) (\<lambda>e. elem_ok n 40 e \<and> fst (reveal_elem e) \<noteq> - 1 \<and>
    popkey (unpack (reveal_elem e)) = 0xff)"
proof -
  obtain pk where pk: "mapE (\<lambda>i. public_bit n True) [0..<8] = Inr pk" "bits_ok n 8 pk" "map bval pk = map (\<lambda>_. True) [0..<8]"
    using public_bits_returns [OF assms, of "\<lambda>_. True" 8] by (auto simp only: returns_def)
  obtain inv where inv: "public_bit n True = Inr inv" "bit_N inv = n" "bval inv"
    using public_bit_returns [OF assms, of True] by (auto simp: returns_def)
  let ?key = "\<lparr>bin_bits = replicate 55 (bit_zero n) @ [inv] @ pk\<rparr>"
  let ?e = "\<lparr>sse_key = ?key, sse_payload = replicate 40 (bit_zero n)\<rparr>"
  have run: "dummy_element n = Inr ?e"
    unfolding dummy_element_def pk(1) bindE_simps unfolding inv(1) bindE_simps ..
  have ok: "elem_ok n 40 ?e"
    unfolding elem_ok_def bin_ok_def by (use pk(2) inv(2) in \<open>auto simp: nth_append nth_Cons'\<close>)
  have bits: "bit (bin_reconstruct ?key) j \<longleftrightarrow> 55 \<le> j \<and> j < 64" for j
  proof -
    have "bval (pk ! i)" if "i < 8" for i using that pk(2) arg_cong [OF pk(3), of "\<lambda>l. l ! i"] by simp
    then show ?thesis using inv(3) by (auto simp: bit_bin_reconstruct nth_append nth_Cons')
  qed
  have "ucast (drop_bit 56 (bin_reconstruct ?key)) = (0xff :: 32 word)"
  proof (rule bit_word_eqI)
    fix j :: nat assume "j < LENGTH(32)"
    have m: "(0xff :: 32 word) = mask 8" by (simp add: mask_eq_exp_minus_1)
    show "bit (ucast (drop_bit 56 (bin_reconstruct ?key)) :: 32 word) j = bit (0xff :: 32 word) j"
      unfolding m using \<open>j < LENGTH(32)\<close> by (auto simp: bit_simps bits [simplified])
  qed
  moreover have "bin_reconstruct ?key \<noteq> - 1"
  proof
    assume "bin_reconstruct ?key = - 1"
    then have "bit (bin_reconstruct ?key) 0" by simp
    then show False by (simp only: bits) simp
  qed
  ultimately show ?thesis using run ok by (simp add: unpack_def reveal_elem_def)
qed

lemma row_popkey_reveal: "row_popkey e = popkey (unpack (reveal_elem e))"
proof (rule bit_word_eqI)
  fix j :: nat assume "j < LENGTH(32)"
  show "bit (row_popkey e) j = bit (popkey (unpack (reveal_elem e))) j"
    unfolding row_popkey_def
    by (subst bit_fold_or32 [of 8 "\<lambda>b. bit_reconstruct (bin_bits (sse_key e) ! (56 + b))"])
      (auto simp: unpack_def reveal_elem_def bit_simps bit_bin_reconstruct bval_def)
qed

lemma decodePayload_returns:
  assumes "elem_ok n 40 e" "0 < n"
  shows "returns (decodePayload (sse_payload e)) (\<lambda>(idx, inc, bkt). let u = unpack (reveal_elem e) in
    idx = entity_idx u \<and> bit_N inc = n \<and> bit_reconstruct inc = s_incl u \<and> bin_ok n bkt \<and>
    ucast (bin_reconstruct bkt AND 0x7F) = (word_of_nat (s_bucket u) :: 32 word))"
proof -
  let ?pl = "sse_payload e"
  let ?bkt = "\<lparr>bin_bits = map (\<lambda>i. ?pl ! (33 + i)) [0..<7] @ replicate 57 (bit_zero n)\<rparr>"
  have pl: "length ?pl = 40" "\<forall>i<40. bit_N (?pl ! i) = n" using assms(1) by (simp_all add: elem_ok_def)
  have N: "bit_N (?pl ! 0) = n" using pl(2) by simp
  have idx: "fold (\<lambda>i v. v OR push_bit i (ucast (bit_reconstruct (?pl ! i)) AND 1)) [0..<32] 0 =
      entity_idx (unpack (reveal_elem e))"
  proof (rule bit_word_eqI)
    fix j :: nat assume "j < LENGTH(32)"
    then show "bit (fold (\<lambda>i v. v OR push_bit i (ucast (bit_reconstruct (?pl ! i)) AND 1)) [0..<32] (0 :: 32 word)) j =
        bit (entity_idx (unpack (reveal_elem e))) j"
      using pl(1)
      by (subst bit_fold_or32 [of 32 "\<lambda>i. bit_reconstruct (?pl ! i)"])
        (auto simp: unpack_def reveal_elem_def bit_horner_sum_bit_word_iff bval_def)
  qed
  have ok: "bin_ok n ?bkt" using pl(2) by (auto simp: bin_ok_def nth_append)
  have "(ucast (bin_reconstruct ?bkt AND 0x7F) :: 32 word) = word_of_nat (horner_sum of_bool 2 (take 7 (drop 33 (map bval ?pl))))"
  proof (rule bit_word_eqI)
    fix j :: nat assume "j < LENGTH(32)"
    have m: "(0x7F :: 64 word) = mask 7" by (simp add: mask_eq_exp_minus_1)
    show "bit (ucast (bin_reconstruct ?bkt AND 0x7F) :: 32 word) j =
        bit (word_of_nat (horner_sum of_bool 2 (take 7 (drop 33 (map bval ?pl)))) :: 32 word) j"
      unfolding m using pl(1) \<open>j < LENGTH(32)\<close>
      by (auto simp: bit_simps bit_bin_reconstruct nth_append bit_of_nat_iff bit_horner_sum_bit_iff)
  qed
  then show ?thesis
    using pl N idx ok
    by (simp add: decodePayload_def Let_def) (simp add: unpack_def reveal_elem_def bit_reconstruct_bval)
qed

subsection \<open>The pass ranks\<close>

abbreviation opened :: "SharedSortElement \<Rightarrow> SlimRow" where
  "opened e \<equiv> unpack (reveal_elem e)"

definition wire_ranks :: "SlimRow list \<Rightarrow> SlimRow list" where
  "wire_ranks xs = map (\<lambda>i. (xs ! i)\<lparr>rank := word_of_nat (count_in (take i xs) (popkey (xs ! i)))\<rparr>) [0..<length xs]"

definition plain_row :: "SlimRow \<Rightarrow> PlainRankedRow" where
  "plain_row s = \<lparr>pr_entity_idx = entity_idx s, pr_popkey = popkey s, pr_incl = s_incl s,
     pr_bucket = word_of_nat (s_bucket s), pr_rank = rank s\<rparr>"

definition kept :: "SharedSortElement list \<Rightarrow> SlimRow list" where
  "kept ys = map opened (filter (\<lambda>e. popkey (opened e) \<noteq> 0xff) ys)"

lemma kept_snoc: "kept (ys @ [e]) = kept ys @ (if popkey (opened e) = 0xff then [] else [opened e])"
  by (simp add: kept_def)

lemma wire_ranks_snoc: "wire_ranks (xs @ [r]) = wire_ranks xs @ [r\<lparr>rank := word_of_nat (count_in xs (popkey r))\<rparr>]"
  by (auto simp: wire_ranks_def nth_append)

lemma popkey_opened: "popkey (opened e) \<noteq> 0xffff"
proof
  assume "popkey (opened e) = 0xffff"
  then have "bit (popkey (opened e)) 15 = bit (0xffff :: 32 word) 15" by simp
  moreover have "\<not> bit (popkey (opened e)) 15"
    by (simp add: unpack_def case_prod_beta bit_simps) (auto dest: bit_imp_le_length)
  ultimately show False by simp
qed

definition pass_inv ::
  "nat \<Rightarrow> nat \<Rightarrow> SharedSortElement list \<Rightarrow> 32 word \<times> SharedU64Bin \<times> nat \<times> 'g \<times> SharedRankedRow list \<Rightarrow> bool" where
  "pass_inv n k0 ys = (\<lambda>(cur, acc, k, g, out). bin_ok n acc \<and> k = k0 + 192 * length (kept ys) \<and>
     reconstructRanked out = map plain_row (wire_ranks (kept ys)) \<and>
     (if kept ys = [] then cur = 0xffff
      else cur = popkey (last (kept ys)) \<and> bin_reconstruct acc = word_of_nat (count_in (kept ys) cur)))"

lemma incl_bin_ok:
  assumes "bit_N inc = n"
  shows "bin_ok n \<lparr>bin_bits = inc # replicate 63 (bit_zero n)\<rparr>"
    and "bin_reconstruct \<lparr>bin_bits = inc # replicate 63 (bit_zero n)\<rparr> = of_bool (bval inc)"
  using assms by (auto simp: bin_ok_def nth_Cons' bit_1_iff split: if_splits intro!: bin_reconstruct_eqI)

lemma wire_rank_step_returns:
  assumes "bag_ok n ts" "2 \<le> n" "elem_ok n 40 e" "sorted (map popkey (kept (ys @ [e])))"
    and "pass_inv n k0 ys s" "k0 + 192 * length (kept (ys @ [e])) \<le> length ts"
  shows "returns (wire_rank_step G n ts e s) (pass_inv n k0 (ys @ [e]))"
proof -
  obtain cur acc k g out where s: "s = (cur, acc, k, g, out)" by (cases s)
  note I = assms(5) [unfolded s pass_inv_def split]
  let ?u = "opened e" and ?Z = "kept ys"
  show ?thesis
  proof (cases "popkey ?u = 0xff")
    case True
    then show ?thesis using I by (simp add: s wire_rank_step_def row_popkey_reveal pass_inv_def kept_snoc)
  next
    case False
    have Z: "kept (ys @ [e]) = ?Z @ [?u]" using False by (simp add: kept_snoc)
    have "returns (if popkey ?u \<noteq> cur then shareU64Bin G n 0 g else Inr (acc, g))
        (\<lambda>(a, g'). bin_ok n a \<and> bin_reconstruct a = word_of_nat (count_in ?Z (popkey ?u)))"
    proof (cases "popkey ?u = cur")
      case True
      then show ?thesis using I popkey_opened [of e] by (auto split: if_splits)
    next
      case False
      have "\<forall>x\<in>set ?Z. popkey x \<noteq> popkey ?u"
      proof (cases "?Z = []")
        case nonempty: False
        then show ?thesis
          using new_population [OF assms(4) [unfolded Z]] False I by (simp split: if_splits)
      qed simp
      then have "count_in ?Z (popkey ?u) = 0" by (rule count_in_other)
      then show ?thesis using False shareU64Bin_returns [OF assms(2), of G 0 g] by simp
    qed
    then obtain a g' where a: "(if popkey ?u \<noteq> cur then shareU64Bin G n 0 g else Inr (acc, g)) = Inr (a, g')"
        "bin_ok n a" "bin_reconstruct a = word_of_nat (count_in ?Z (popkey ?u))"
      by (auto simp only: returns_def)
    obtain idx inc bkt where d: "decodePayload (sse_payload e) = Inr (idx, inc, bkt)" "idx = entity_idx ?u"
        "bit_N inc = n" "bit_reconstruct inc = s_incl ?u" "bin_ok n bkt"
        "ucast (bin_reconstruct bkt AND 0x7F) = (word_of_nat (s_bucket ?u) :: 32 word)"
      using decodePayload_returns [OF assms(3)] assms(2) by (auto simp: returns_def Let_def)
    obtain a' where a': "bitAddRC a \<lparr>bin_bits = inc # replicate 63 (bit_zero n)\<rparr> ts k = Inr (a', k + 192)" "bin_ok n a'"
        "bin_reconstruct a' = bin_reconstruct a + of_bool (bval inc)"
      using bitAddRC_returns [OF assms(1) a(2) incl_bin_ok(1) [OF d(3)], of k] I assms(6)
      by (auto simp: returns_def incl_bin_ok(2) [OF d(3)] Z)
    have "bval inc = (s_incl ?u \<noteq> 0)" using d(4) by (simp add: bit_reconstruct_bval flip: d(4))
    then have "bin_reconstruct a' = word_of_nat (count_in (?Z @ [?u]) (popkey ?u))"
      using a'(3) a(3) by (simp add: count_in_snoc in_population_def)
    moreover have "wire_rank_step G n ts e s = Inr (popkey ?u, a', k + 192, g', out @ [\<lparr>sr_entity_idx = idx,
        sr_popkey = popkey ?u, sr_incl = inc, sr_bucket = bkt, sr_rank = a\<rparr>])"
      using False a(1) d(1) a'(1) by (simp add: s wire_rank_step_def row_popkey_reveal Let_def)
    ultimately show ?thesis
      using I a a' d(2,4,6) by (simp add: pass_inv_def Z wire_ranks_snoc reconstructRanked_def plain_row_def)
  qed
qed

subsection \<open>Sorting\<close>

lemma reveal_all:
  assumes "\<forall>e\<in>set xs. fst (reveal_elem e) \<noteq> - 1" "length ys = length xs"
    and "filter_mset (\<lambda>e. fst e \<noteq> - 1) (mset (map reveal_elem ys)) = filter_mset (\<lambda>e. fst e \<noteq> - 1) (mset (map reveal_elem xs))"
  shows "mset (map reveal_elem ys) = mset (map reveal_elem xs)"
proof -
  have "filter (\<lambda>e. fst e \<noteq> - 1) (map reveal_elem xs) = map reveal_elem xs"
    using assms(1) by (intro filter_True) auto
  then have "filter_mset (\<lambda>e. fst e \<noteq> - 1) (mset (map reveal_elem xs)) = mset (map reveal_elem xs)"
    by (metis mset_filter)
  then have f: "filter_mset (\<lambda>e. fst e \<noteq> - 1) (mset (map reveal_elem ys)) = mset (map reveal_elem xs)"
    using assms(3) by simp
  have "mset (map reveal_elem xs) \<subseteq># mset (map reveal_elem ys)" unfolding f [symmetric] by simp
  moreover have "size (mset (map reveal_elem xs)) = size (mset (map reveal_elem ys))" using assms(2) by simp
  ultimately show ?thesis
    using mset_subset_size [of "mset (map reveal_elem xs)" "mset (map reveal_elem ys)"]
    by (auto simp: subset_mset.le_less)
qed

lemma kept_mset: "mset (kept ys) = filter_mset (\<lambda>s. popkey s \<noteq> 0xff) (image_mset unpack (mset (map reveal_elem ys)))"
  by (simp add: kept_def filter_mset_image_mset image_mset.compositionality comp_def flip: mset_filter)

lemma kept_sorted:
  assumes "sorted (map (fst \<circ> reveal_elem) ys)" "mset (map reveal_elem ys) = mset (map reveal_elem (xs @ ds))"
    and "\<forall>e\<in>set xs. slim_ok (opened e) \<and> unat (fst (reveal_elem e)) = pack_key (opened e)"
    and "\<forall>e\<in>set ds. popkey (opened e) = 0xff"
  shows "sorted (map slim_key (kept ys))"
proof -
  let ?F = "filter (\<lambda>e. popkey (opened e) \<noteq> 0xff) ys"
  have F: "slim_ok (opened e) \<and> unat (fst (reveal_elem e)) = pack_key (opened e)" if "e \<in> set ?F" for e
  proof -
    have "reveal_elem e \<in># mset (map reveal_elem ys)" using that by simp
    then have "reveal_elem e \<in> reveal_elem ` (set xs \<union> set ds)" unfolding assms(2) by (simp add: image_Un)
    then obtain e' where "e' \<in> set xs \<union> set ds" "reveal_elem e = reveal_elem e'" by blast
    with that assms(3,4) show ?thesis by auto
  qed
  have "sorted_wrt (\<lambda>a b. fst (reveal_elem a) \<le> fst (reveal_elem b)) ?F"
    using sorted_wrt_filter assms(1) by (auto simp: sorted_wrt_map)
  then have "sorted_wrt (\<lambda>a b. slim_key (opened a) \<le> slim_key (opened b)) ?F"
  proof (rule sorted_wrt_mono_rel [rotated])
    fix a b assume "a \<in> set ?F" "b \<in> set ?F" "fst (reveal_elem a) \<le> fst (reveal_elem b)"
    then show "slim_key (opened a) \<le> slim_key (opened b)"
      using F [of a] F [of b] by (auto simp: word_le_nat_alt intro: pack_key_order)
  qed
  then show ?thesis by (simp add: kept_def sorted_wrt_map comp_def)
qed

text \<open>The population, inclusion and bucket of a row determine its rank; ties may be broken either way.\<close>

definition slim_class :: "SlimRow \<Rightarrow> 32 word \<times> 8 word \<times> nat" where
  "slim_class s = (popkey s, s_incl s, s_bucket s)"

lemma classes_of_sorted:
  assumes "sorted (map slim_key zs)" "mset zs = mset ss" "\<forall>s\<in>set ss. slim_ok s"
  shows "map slim_class zs = map slim_class (slimSort ss)"
proof -
  have "mset (map slim_key zs) = mset (map slim_key ss)" by (simp add: assms(2))
  then have "sort (map slim_key ss) = map slim_key zs" using assms(1) by (rule properties_for_sort)
  moreover have "sort (map slim_key ss) = map slim_key (slimSort ss)"
    by (intro properties_for_sort) (simp_all add: slimSort_def)
  ultimately have eq: "map slim_key zs = map slim_key (slimSort ss)" by simp
  let ?c = "\<lambda>(p, i, b). (p, 1 - i, b)"
  have c: "slim_class s = ?c (slim_key s)" for s by (simp add: slim_class_def slim_key_def)
  have "map slim_class zs = map ?c (map slim_key zs)" by (simp add: c)
  also have "\<dots> = map slim_class (slimSort ss)" unfolding eq by (simp add: c)
  finally show ?thesis .
qed

lemma count_in_class: "count_in xs p = length (filter (\<lambda>(q, i, b). q = p \<and> i \<noteq> 0) (map slim_class xs))"
proof -
  have "in_population p = (\<lambda>x. popkey x = p \<and> s_incl x \<noteq> 0)" by (rule ext) (simp add: in_population_def)
  then show ?thesis by (simp add: count_in_def slim_class_def comp_def filter_map)
qed

lemma wire_ranks_plain:
  assumes "map slim_class zs = map slim_class ss"
  shows "list_all2 (\<lambda>w p. slim_class w = slim_class p \<and> (s_incl p \<noteq> 0 \<longrightarrow> rank w = rank p)) (wire_ranks zs) (ranked ss)"
proof -
  have len: "length zs = length ss" using arg_cong [OF assms, of length] by simp
  have c: "slim_class (zs ! i) = slim_class (ss ! i)" if "i < length ss" for i
    using arg_cong [OF assms, of "\<lambda>l. l ! i"] that len by simp
  have "count_in (take i zs) p = count_in (take i ss) p" for i p
    using assms by (simp add: count_in_class flip: take_map)
  then show ?thesis
    using len c by (auto simp: list_all2_conv_all_nth wire_ranks_def ranked_def slim_class_def)
qed

subsection \<open>The run\<close>

definition slim_row_ok :: "nat \<Rightarrow> Metric \<Rightarrow> SharedEntityMetricRow \<Rightarrow> bool" where
  "slim_row_ok n m r \<longleftrightarrow> bit_N (se_live r) = n \<and> metric_index m < length (se_metrics r) \<and>
     bit_N (sm_incl (se_metrics r ! metric_index m)) = n \<and> bin_ok n (sm_num (se_metrics r ! metric_index m))"

definition shared_slim :: "SharedEntityMetricRow list \<Rightarrow> Metric \<Rightarrow> SharedSlimRow list" where
  "shared_slim rows m = map (\<lambda>i. let mp = se_metrics (rows ! i) ! metric_index m in
     \<lparr>sl_entity_idx = word_of_nat i, sl_popkey = se_sector (rows ! i), sl_incl = sm_incl mp, sl_bucket = sm_num mp\<rparr>)
     [0..<length rows]"

lemma slim_entries_run:
  assumes "\<forall>r\<in>set rows. slim_row_ok n m r" "length rows < 2 ^ 32"
  shows "slim_entries rows m = Inr (shared_slim rows m)"
proof -
  have "mapE (\<lambda>i. bindE (vec_at (se_metrics (rows ! i)) (metric_index m)) (\<lambda>mp.
       Inr \<lparr>sl_entity_idx = word_of_nat i, sl_popkey = se_sector (rows ! i), sl_incl = sm_incl mp,
            sl_bucket = sm_num mp\<rparr>)) [0..<length rows] = Inr (shared_slim rows m)"
    unfolding shared_slim_def by (rule mapE_Inr) (use assms in \<open>auto simp: slim_row_ok_def Let_def\<close>)
  then show ?thesis using assms(2) by (simp add: slim_entries_def)
qed

lemma sort_elements_returns:
  assumes "\<forall>r\<in>set rows. slim_row_ok n m r" "0 < n"
  shows "returns (mapE sort_element (shared_slim rows m)) (\<lambda>xs. length xs = length rows \<and>
    map opened xs = map slim_of (shared_slim rows m) \<and> (\<forall>e\<in>set xs. elem_ok n 40 e \<and> slim_ok (opened e) \<and>
      unat (fst (reveal_elem e)) = pack_key (opened e)))"
proof -
  have "returns (sort_element s) (\<lambda>e. elem_ok n 40 e \<and> unat (fst (reveal_elem e)) = pack_key (slim_of s) \<and> opened e = slim_of s)"
    if "s \<in> set (shared_slim rows m)" for s
    using that assms by (intro sort_element_returns) (auto simp: shared_slim_def slim_row_ok_def Let_def)
  from returns_mapE [OF this] show ?thesis
  proof (rule returns_mono)
    fix xs assume l: "list_all2 (\<lambda>s e. elem_ok n 40 e \<and> unat (fst (reveal_elem e)) = pack_key (slim_of s) \<and> opened e = slim_of s)
        (shared_slim rows m) xs"
    then have "length xs = length rows" by (auto dest: list_all2_lengthD simp: shared_slim_def)
    moreover have "map opened xs = map slim_of (shared_slim rows m)"
      using l by (auto simp: list_all2_conv_all_nth intro!: nth_equalityI)
    moreover have "\<forall>e\<in>set xs. elem_ok n 40 e \<and> slim_ok (opened e) \<and> unat (fst (reveal_elem e)) = pack_key (opened e)"
      using l slim_of_ok by (auto simp: list_all2_conv_all_nth in_set_conv_nth)
    ultimately show "length xs = length rows \<and> map opened xs = map slim_of (shared_slim rows m) \<and>
        (\<forall>e\<in>set xs. elem_ok n 40 e \<and> slim_ok (opened e) \<and> unat (fst (reveal_elem e)) = pack_key (opened e))" by blast
  qed
qed

lemma next_target: "n \<le> 2 ^ 63 \<Longrightarrow> nextPow_loop (of_nat n) 1 = Some (2 ^ clog2 n)"
  using nextPowerOfTwo_length(1) [of n]
  by (cases "(of_nat n :: 64 word) \<le> 1") (auto simp: nextPowerOfTwo_def nextPow_loop.simps [of "of_nat n" 1] dest: leD)

lemma sort_cost_padded: "sort_cost (2 ^ clog2 m) p = sort_cost m p"
proof -
  have idem: "clog2 (2 ^ clog2 m) = clog2 m"
    by (rule antisym) (simp_all add: clog2_le clog2_ge [of "2 ^ clog2 m", simplified])
  have "(2 :: nat) ^ clog2 m \<le> 1 \<longleftrightarrow> m \<le> 1"
    using clog2_ge [of m] clog2_pos [of m] clog2_le [of m 0] by (cases "clog2 m") auto
  then show ?thesis by (simp add: sort_cost_def idem)
qed

lemma sorted_rows:
  assumes "bag_ok n ts" "\<forall>r\<in>set rows. slim_row_ok n m r" "length rows \<le> 2 ^ 62"
    and "k + sort_cost (length rows) 40 \<le> length ts"
    and "mapE sort_element (shared_slim rows m) = Inr xs"
    and "mapE (\<lambda>_. dummy_element n) [length xs..<2 ^ clog2 (length xs)] = Inr ds"
  shows "returns (mpcBitonicSort (xs @ ds) ts k) (\<lambda>(ys, k'). (\<forall>e\<in>set ys. elem_ok n 40 e) \<and>
    k' = k + sort_cost (length rows) 40 \<and> sorted (map slim_key (kept ys)) \<and>
    mset (kept ys) = mset (filter (\<lambda>s. popkey s \<noteq> 0xff) (map slim_of (shared_slim rows m))))"
proof -
  have n: "0 < n" using assms(1) by (rule bag_ok_pos)
  have xs: "length xs = length rows" "map opened xs = map slim_of (shared_slim rows m)"
      "\<forall>e\<in>set xs. elem_ok n 40 e \<and> slim_ok (opened e) \<and> unat (fst (reveal_elem e)) = pack_key (opened e)"
    using sort_elements_returns [OF assms(2) n] by (auto simp: assms(5))
  have "returns (mapE (\<lambda>_. dummy_element n) [length xs..<2 ^ clog2 (length xs)]) (\<lambda>es. list_all2 (\<lambda>_ e. elem_ok n 40 e \<and>
      fst (reveal_elem e) \<noteq> - 1 \<and> popkey (opened e) = 0xff) [length xs..<2 ^ clog2 (length xs)] es)"
    by (rule returns_mapE, rule dummy_element_returns [OF n])
  then have ds: "length ds = 2 ^ clog2 (length xs) - length xs"
      "\<forall>e\<in>set ds. elem_ok n 40 e \<and> fst (reveal_elem e) \<noteq> - 1 \<and> popkey (opened e) = 0xff"
    by (auto simp: assms(6) list_all2_conv_all_nth in_set_conv_nth)
  have len: "length (xs @ ds) = 2 ^ clog2 (length rows)" using ds(1) clog2_ge [of "length rows"] by (simp add: xs(1))
  have "clog2 (length rows) \<le> 62" using assms(3) by (rule clog2_le)
  then have le: "length (xs @ ds) \<le> 2 ^ 63" unfolding len by (intro power_increasing) simp_all
  have ok: "\<forall>e\<in>set (xs @ ds). elem_ok n 40 e" using xs(3) ds(2) by auto
  have cost: "k + sort_cost (length (xs @ ds)) 40 \<le> length ts" using assms(4) by (simp only: len sort_cost_padded)
  have nd: "\<forall>e\<in>set (xs @ ds). fst (reveal_elem e) \<noteq> - 1"
  proof
    fix e assume "e \<in> set (xs @ ds)"
    moreover have "fst (reveal_elem e) \<noteq> - 1" if e: "e \<in> set xs"
    proof
      assume "fst (reveal_elem e) = - 1"
      then have "unat (fst (reveal_elem e)) = 2 ^ 64 - 1" by (simp add: unsigned_minus_1_eq_mask mask_eq_exp_minus_1)
      then show False using xs(3) e pack_key_less [of "opened e"] by auto
    qed
    ultimately show "fst (reveal_elem e) \<noteq> - 1" using ds(2) by auto
  qed
  show ?thesis
  proof (rule returns_mono [OF mpcBitonicSort_returns [OF assms(1) ok le cost]])
    fix r assume r: "(\<lambda>(ys, k'). (\<forall>y\<in>set ys. elem_ok n 40 y) \<and> length ys = length (xs @ ds) \<and>
        k' = k + sort_cost (length (xs @ ds)) 40 \<and> sorted (map (fst \<circ> reveal_elem) ys) \<and>
        mset (map (fst \<circ> reveal_elem) ys) = mset (map (fst \<circ> reveal_elem) (xs @ ds)) \<and>
        filter_mset (\<lambda>e. fst e \<noteq> - 1) (mset (map reveal_elem ys)) =
        filter_mset (\<lambda>e. fst e \<noteq> - 1) (mset (map reveal_elem (xs @ ds)))) r"
    obtain ys k' where rr: "r = (ys, k')" by (cases r)
    note ys = r [unfolded rr split]
    have M: "mset (map reveal_elem ys) = mset (map reveal_elem (xs @ ds))"
      by (rule reveal_all [OF nd]) (use ys in blast)+
    have S: "sorted (map slim_key (kept ys))"
      by (rule kept_sorted [OF _ M]) (use ys xs(3) ds(2) in blast)+
    have "mset (kept ys) = filter_mset (\<lambda>s. popkey s \<noteq> 0xff) (mset (map opened (xs @ ds)))"
      unfolding kept_mset M by (simp add: image_mset.compositionality comp_def)
    also have "\<dots> = mset (filter (\<lambda>s. popkey s \<noteq> 0xff) (map slim_of (shared_slim rows m)))"
    proof -
      have "filter (\<lambda>s. popkey s \<noteq> 0xff) (map opened ds) = []" using ds(2) by (auto simp: filter_empty_conv)
      then show ?thesis by (simp only: map_append xs(2) filter_append append_Nil2 flip: mset_filter)
    qed
    finally have Z: "mset (kept ys) = mset (filter (\<lambda>s. popkey s \<noteq> 0xff) (map slim_of (shared_slim rows m)))" .
    have E: "\<forall>e\<in>set ys. elem_ok n 40 e" using ys by blast
    have K: "k' = k + sort_cost (length rows) 40" using ys by (simp only: len sort_cost_padded)
    show "(\<lambda>(ys, k'). (\<forall>e\<in>set ys. elem_ok n 40 e) \<and> k' = k + sort_cost (length rows) 40 \<and> sorted (map slim_key (kept ys)) \<and>
        mset (kept ys) = mset (filter (\<lambda>s. popkey s \<noteq> 0xff) (map slim_of (shared_slim rows m)))) r"
      unfolding rr split using E K S Z by blast
  qed
qed

lemma slim_sorted_popkey:
  assumes "sorted (map slim_key zs)" shows "sorted (map popkey zs)"
proof -
  have "sorted (map fst (map slim_key zs))"
    using assms by (rule sorted_map_mono) (auto simp: mono_on_def less_eq_prod_def)
  then show ?thesis by (simp add: comp_def slim_key_def)
qed

lemma rank_pass_returns:
  fixes g :: 'g
  assumes "bag_ok n ts" "2 \<le> n" "\<forall>e\<in>set ys. elem_ok n 40 e" "sorted (map slim_key (kept ys))"
    and "k + 192 * length (kept ys) \<le> length ts" "bin_ok n acc"
  shows "returns (foldE (wire_rank_step G n ts) ys (0xffff, acc, k, g, [])) (pass_inv n k ys)"
proof (rule returns_foldE_list)
  show "pass_inv n k [] (0xffff, acc, k, g, [])"
    using assms(6) by (simp add: pass_inv_def kept_def wire_ranks_def reconstructRanked_def)
next
  fix ys1 e ys2 and s :: "32 word \<times> SharedU64Bin \<times> nat \<times> 'g \<times> SharedRankedRow list" assume ys: "ys = ys1 @ e # ys2" and I: "pass_inv n k ys1 s"
  have Z: "kept ys = kept (ys1 @ [e]) @ kept ys2" by (simp add: ys kept_def)
  have "sorted (map slim_key (kept (ys1 @ [e])))" using assms(4) unfolding Z by (simp only: map_append sorted_append)
  moreover have "k + 192 * length (kept (ys1 @ [e])) \<le> length ts" using assms(5) by (simp add: Z)
  ultimately show "returns (wire_rank_step G n ts e s) (pass_inv n k (ys1 @ [e]))"
    using assms(3) I by (intro wire_rank_step_returns [OF assms(1,2)] slim_sorted_popkey) (simp_all add: ys)
qed

definition slim_fields :: "SlimRow \<Rightarrow> 32 word \<times> 32 word \<times> 8 word \<times> 32 word" where
  "slim_fields s = (entity_idx s, popkey s, s_incl s, word_of_nat (s_bucket s))"

definition pr_fields :: "PlainRankedRow \<Rightarrow> 32 word \<times> 32 word \<times> 8 word \<times> 32 word" where
  "pr_fields w = (pr_entity_idx w, pr_popkey w, pr_incl w, pr_bucket w)"

text \<open>The rows the ranking sees: those whose sector is not 255 modulo 256.\<close>

definition rankable :: "SharedEntityMetricRow list \<Rightarrow> Metric \<Rightarrow> SlimRow list" where
  "rankable rows m = filter (\<lambda>s. popkey s \<noteq> 0xff) (map slim_of (shared_slim rows m))"

lemma rank_wire_run:
  assumes "bag_ok n ts" "2 \<le> n" "\<forall>r\<in>set rows. slim_row_ok n m r" "length rows < 2 ^ 32" "rows \<noteq> []"
    and "k + sort_cost (length rows) 40 + 192 * length rows \<le> length ts"
  shows "\<exists>out k' g' zs. rankViaHistogramWire G rows m ts k g = Inr (out, k', g') \<and>
    k' = k + sort_cost (length rows) 40 + 192 * length (rankable rows m) \<and>
    reconstructRanked out = map plain_row (wire_ranks zs) \<and> mset zs = mset (rankable rows m) \<and> sorted (map slim_key zs)"
proof -
  have n: "0 < n" using assms(2) by simp
  have le: "length rows \<le> 2 ^ 62" using assms(4) by simp
  obtain xs where xs: "mapE sort_element (shared_slim rows m) = Inr xs" "length xs = length rows"
    using sort_elements_returns [OF assms(3) n] by (auto simp: returns_def)
  have c: "clog2 (length rows) < 64" using clog2_le [OF le] by simp
  have t: "nextPow_loop (of_nat (length xs)) 1 = Some (2 ^ clog2 (length rows))"
    using next_target [of "length rows"] le xs(2) by simp
  have u: "unat (2 ^ clog2 (length rows) :: 64 word) = 2 ^ clog2 (length xs)" using c xs(2) by simp
  have "returns (mapE (\<lambda>_. dummy_element n) [length xs..<2 ^ clog2 (length xs)]) (\<lambda>_. True)"
    by (rule returns_mono [OF returns_mapE, OF dummy_element_returns [OF n]]) simp
  then obtain ds where ds: "mapE (\<lambda>_. dummy_element n) [length xs..<2 ^ clog2 (length xs)] = Inr ds"
    by (auto simp: returns_def)
  have "k + sort_cost (length rows) 40 \<le> length ts" using assms(6) by simp
  from sorted_rows [OF assms(1,3) le this xs(1) ds] obtain ys where
    ys: "mpcBitonicSort (xs @ ds) ts k = Inr (ys, k + sort_cost (length rows) 40)" "\<forall>e\<in>set ys. elem_ok n 40 e"
      "sorted (map slim_key (kept ys))" "mset (kept ys) = mset (rankable rows m)"
    by (auto simp: returns_def rankable_def)
  have lenz: "length (kept ys) = length (rankable rows m)" using ys(4) by (rule mset_eq_length)
  also have "\<dots> \<le> length rows"
    unfolding rankable_def by (rule order_trans [OF length_filter_le]) (simp add: shared_slim_def)
  finally have room: "k + sort_cost (length rows) 40 + 192 * length (kept ys) \<le> length ts" using assms(6) by simp
  obtain acc g1 where acc: "shareU64Bin G n 0 g = Inr (acc, g1)" "bin_ok n acc"
    using shareU64Bin_returns [OF assms(2), of G 0 g] by (auto simp: returns_def)
  obtain cur acc' k' g' out where p: "foldE (wire_rank_step G n ts) ys (0xffff, acc, k + sort_cost (length rows) 40, g1, []) =
      Inr (cur, acc', k', g', out)" "pass_inv n (k + sort_cost (length rows) 40) ys (cur, acc', k', g', out)"
    using rank_pass_returns [OF assms(1,2) ys(2,3) room acc(2), of G g1] by (auto simp: returns_def)
  have "rows ! 0 \<in> set rows" using assms(5) by simp
  then have N: "bit_N (se_live (rows ! 0)) = n" using assms(3) by (auto simp: slim_row_ok_def)
  have "rankViaHistogramWire G rows m ts k g = Inr (out, k', g')"
    using assms(5)
    by (simp only: rankViaHistogramWire_def Let_def N slim_entries_run [OF assms(3,4)] xs(1) bindE_simps t option.case u ds
        ys(1) split acc(1) p(1) if_False)
  then show ?thesis
    using p(2) ys(3,4) lenz by (auto simp: pass_inv_def)
qed

lemma rank_wire_budget:
  assumes "m \<le> 2 ^ 53"
  shows "rankWireTripleBudget (of_nat m) = Inr (word_of_nat (sort_cost m 40 + 192 * m + 500))"
  using mpcBitonicSortTripleCost_small [OF assms, of 40]
  by (simp add: rankWireTripleBudget_def mult.commute)

lemma ranks_fields:
  assumes "mset zs = mset ss" "sorted (map slim_key zs)" "\<forall>s\<in>set ss. slim_ok s"
  shows "mset (map pr_fields (map plain_row (wire_ranks zs))) = mset (map slim_fields ss)"
    and "list_all2 (\<lambda>w p. pr_popkey w = popkey p \<and> pr_incl w = s_incl p \<and> pr_bucket w = word_of_nat (s_bucket p) \<and>
       (s_incl p \<noteq> 0 \<longrightarrow> pr_rank w = rank p)) (map plain_row (wire_ranks zs)) (rr_slim (rankViaHistogram ss B))"
proof -
  have "map pr_fields (map plain_row (wire_ranks zs)) = map slim_fields zs"
    by (rule nth_equalityI) (simp_all add: wire_ranks_def plain_row_def pr_fields_def slim_fields_def)
  then show "mset (map pr_fields (map plain_row (wire_ranks zs))) = mset (map slim_fields ss)"
    using assms(1) by simp
  have "map slim_class zs = map slim_class (slimSort ss)" by (rule classes_of_sorted [OF assms(2,1,3)])
  from wire_ranks_plain [OF this] show "list_all2 (\<lambda>w p. pr_popkey w = popkey p \<and> pr_incl w = s_incl p \<and>
      pr_bucket w = word_of_nat (s_bucket p) \<and> (s_incl p \<noteq> 0 \<longrightarrow> pr_rank w = rank p))
      (map plain_row (wire_ranks zs)) (rr_slim (rankViaHistogram ss B))"
    unfolding rankViaHistogram_slim list_all2_map1
    by (rule list_all2_mono) (auto simp: plain_row_def slim_class_def)
qed

subsection \<open>Property\<close>

text \<open>C17: the ranking on shares against the plaintext ranking. For fewer than \<open>2 ^ 32\<close> well-formed shared rows (the
  loop over the rows counts in 32 bits and never ends beyond) and enough triples it returns within the stated budget. Its opened rows are, as a multiset, the rows whose
  sector is not 255 modulo 256 (the others are lost with the padding), and row by row they have
  the population, inclusion and bucket of the plaintext ranking of those rows; included rows have
  the plaintext rank too. Which of the rows tied in a bucket comes first may differ.\<close>

theorem rankViaHistogramWire_ranks:
  assumes "bag_ok n ts" "2 \<le> n" "\<forall>r\<in>set rows. slim_row_ok n m r" "length rows < 2 ^ 32"
    and "k + sort_cost (length rows) 40 + 192 * length rows \<le> length ts"
  shows "\<exists>out k' g'. rankViaHistogramWire G rows m ts k g = Inr (out, k', g') \<and>
    rankWireTripleBudget (of_nat (length rows)) = Inr (word_of_nat (sort_cost (length rows) 40 + 192 * length rows + 500)) \<and>
    k' \<le> k + sort_cost (length rows) 40 + 192 * length rows \<and>
    mset (map pr_fields (reconstructRanked out)) = mset (map slim_fields (rankable rows m)) \<and>
    list_all2 (\<lambda>w p. pr_popkey w = popkey p \<and> pr_incl w = s_incl p \<and> pr_bucket w = word_of_nat (s_bucket p) \<and>
        (s_incl p \<noteq> 0 \<longrightarrow> pr_rank w = rank p))
      (reconstructRanked out) (rr_slim (rankViaHistogram (rankable rows m) B))"
proof (cases "rows = []")
  case True
  then have "rankable rows m = []" by (simp add: rankable_def shared_slim_def)
  then show ?thesis
    using True rank_wire_budget [of 0]
    by (simp add: rankViaHistogramWire_def reconstructRanked_def rankViaHistogram_slim slimSort_def)
next
  case False
  have ok: "\<forall>s\<in>set (rankable rows m). slim_ok s" by (auto simp: rankable_def slim_of_ok)
  have len: "length (rankable rows m) \<le> length rows"
    unfolding rankable_def by (rule order_trans [OF length_filter_le]) (simp add: shared_slim_def)
  from rank_wire_run [OF assms(1-4) False assms(5), of G g] obtain out k' g' zs where
    run: "rankViaHistogramWire G rows m ts k g = Inr (out, k', g')"
      "k' = k + sort_cost (length rows) 40 + 192 * length (rankable rows m)"
    and zs: "reconstructRanked out = map plain_row (wire_ranks zs)" "mset zs = mset (rankable rows m)" "sorted (map slim_key zs)"
    by blast
  have "k' \<le> k + sort_cost (length rows) 40 + 192 * length rows" using run(2) len by simp
  note bound = this
  have f: "mset (map pr_fields (reconstructRanked out)) = mset (map slim_fields (rankable rows m))"
    unfolding zs(1) by (rule ranks_fields(1) [OF zs(2,3) ok])
  have p: "list_all2 (\<lambda>w p. pr_popkey w = popkey p \<and> pr_incl w = s_incl p \<and> pr_bucket w = word_of_nat (s_bucket p) \<and>
        (s_incl p \<noteq> 0 \<longrightarrow> pr_rank w = rank p))
      (reconstructRanked out) (rr_slim (rankViaHistogram (rankable rows m) B))"
    unfolding zs(1) by (rule ranks_fields(2) [OF zs(2,3) ok])
  have le: "length rows \<le> 2 ^ 53" using assms(4) by simp
  show ?thesis
    by (intro exI conjI) (rule run(1) rank_wire_budget [OF le] bound f p)+
qed

text \<open>Two rows of sector 7 in buckets 9 and 4: ranks 0 and 1 in bucket order.\<close>

lemma rankViaHistogramWire_ranks_witness:
  "\<exists>rows out k' g'. map se_sector rows = [7, 7] \<and>
    map (\<lambda>r. bin_reconstruct (sm_num (se_metrics r ! 0))) rows = [9, 4] \<and>
    rankViaHistogramWire counter_prng rows DTI (replicate 744 (zero_triple 2)) 0 0 = Inr (out, k', g') \<and>
    mset (map pr_bucket (reconstructRanked out)) = {#9, 4#}"
proof -
  obtain x y where xy: "bin_ok 2 x" "bin_reconstruct x = 9" "bin_ok 2 y" "bin_reconstruct y = 4"
    using bin_sharing_exists [of 2 9] bin_sharing_exists [of 2 4] by auto
  obtain b z where bz: "bit_N b = 2" "bval b" "bin_ok 2 z"
    using shareBit_returns [of 2 counter_prng 1 0] bin_sharing_exists [of 2 0] by (auto simp: returns_def)
  let ?row = "\<lambda>v. \<lparr>se_bin = 0, se_period = 0, se_sector = 7, se_conflict = 0, se_live = b, se_MAS = b, se_DOS = b,
    se_MOM = b, se_metrics = [\<lparr>sm_num = v, sm_den = z, sm_incl = b\<rparr>], se_vuln = b, se_avail = z\<rparr>"
  have ok: "\<forall>r\<in>set [?row x, ?row y]. slim_row_ok 2 DTI r" using xy bz by (simp add: slim_row_ok_def)
  have "0 + sort_cost (length [?row x, ?row y]) 40 + 192 * length [?row x, ?row y] \<le> length (replicate 744 (zero_triple 2))"
    using sort_cost_2 [of 40] by (simp add: numeral_2_eq_2)
  from rankViaHistogramWire_ranks [OF bag_ok_zero_triples _ ok _ this, of counter_prng 0 128] obtain out k' g' where
    r: "rankViaHistogramWire counter_prng [?row x, ?row y] DTI (replicate 744 (zero_triple 2)) 0 0 = Inr (out, k', g')"
      "mset (map pr_fields (reconstructRanked out)) = mset (map slim_fields (rankable [?row x, ?row y] DTI))" by auto
  have "(take_bit 7 9 :: 64 word) = 9" "(take_bit 7 4 :: 64 word) = 4" "(take_bit 8 7 :: 32 word) = 7" by simp_all
  then have "map slim_fields (rankable [?row x, ?row y] DTI) = [(0, 7, 1, 9), (1, 7, 1, 4)]"
    using xy bz by (simp add: rankable_def shared_slim_def slim_of_def slim_fields_def bit_reconstruct_bval upt_rec)
  then have "image_mset (\<lambda>(_, _, _, b). b) (mset (map pr_fields (reconstructRanked out))) = {#9, 4#}"
    unfolding r(2) by simp
  then have "mset (map pr_bucket (reconstructRanked out)) = {#9, 4#}"
    by (simp add: image_mset.compositionality comp_def pr_fields_def)
  with r(1) xy show ?thesis
    by (intro exI [of _ "[?row x, ?row y]"]) auto
qed

end
