(* ===== verification/Percentiles_Wire.thy ===== *)
theory Percentiles_Wire
  imports Bit_Adder Percentiles
begin

text \<open>
  Percentiles on shares (\<open>volePSI/MpsvsPercentilesWire.h\<close>, \<open>volePSI/MpsvsPercentilesWire.cpp\<close>): prefix
  sums of the shared histogram, the shared target rank, and the scan that selects the first bin
  whose cumulative count reaches it.
\<close>

definition add64_step ::
  "SharedBit list \<Rightarrow> SharedBit list \<Rightarrow> BeaverTripleBit list \<Rightarrow> nat \<Rightarrow>
   SharedBit list \<times> SharedBit \<times> nat \<Rightarrow> (SharedBit list \<times> SharedBit \<times> nat) result" where
  "add64_step xs ys triples i = (\<lambda>(out, carry, k).
     bindE (vec_at xs i) (\<lambda>x_i.
     bindE (vec_at ys i) (\<lambda>y_i.
     bindE (xorShared x_i y_i) (\<lambda>ab.
     bindE (xorShared ab carry) (\<lambda>sum.
     throw_if (k + 3 > length triples) (RuntimeError ''triple bag exhausted (bitAdd64)'')
       (bindE (carry_gate x_i y_i ab carry triples k) (\<lambda>(carry', k').
        Inr (out @ [sum], carry', k'))))))))"

definition bitAdd64 ::
  "SharedU64Bin \<Rightarrow> SharedU64Bin \<Rightarrow> BeaverTripleBit list \<Rightarrow> nat \<Rightarrow> (SharedU64Bin \<times> nat) result" where
  "bitAdd64 x y triples k =
     bindE (foldE (add64_step (bin_bits x) (bin_bits y) triples) [0..<64] ([], bit_zero (bin_N x), k))
       (\<lambda>(out, _, k'). Inr (\<lparr>bin_bits = out\<rparr>, k'))"

definition sharedPrefixSum ::
  "SharedU64Bin list \<Rightarrow> BeaverTripleBit list \<Rightarrow> nat \<Rightarrow> (SharedU64Bin list \<times> nat) result" where
  "sharedPrefixSum bins triples k =
     foldE (\<lambda>x (cs, k). if cs = [] then Inr ([x], k)
         else bindE (bitAdd64 (last cs) x triples k) (\<lambda>(s, k'). Inr (cs @ [s], k')))
       bins ([], k)"

text \<open>The first two summands are computed in 32 bits.\<close>

definition percentileWireTripleBudget :: "32 word \<Rightarrow> 64 word" where
  "percentileWireTripleBudget B =
     ucast ((B - 1) * 192 + 64 * 192) + ucast B * (secureLessThanTripleCost + 1) + 500"

definition mulPublicConst64 ::
  "SharedU64Bin \<Rightarrow> 64 word \<Rightarrow> BeaverTripleBit list \<Rightarrow> nat \<Rightarrow> (SharedU64Bin \<times> nat) result" where
  "mulPublicConst64 x c triples k =
     foldE (\<lambda>b (acc, k). if bit c b then bitAdd64 acc (shift_left x b) triples k else Inr (acc, k))
       [0..<64] (\<lparr>bin_bits = replicate 64 (bit_zero (bin_N x))\<rparr>, k)"

definition shiftRight64 :: "SharedU64Bin \<Rightarrow> nat \<Rightarrow> SharedU64Bin" where
  "shiftRight64 x s = \<lparr>bin_bits = drop s (bin_bits x) @ replicate s (bit_zero (bin_N x))\<rparr>"

function shift_loop :: "32 word \<Rightarrow> nat \<Rightarrow> nat result" where
  "shift_loop q s =
     (if 32 \<le> s then Inl UndefinedShift
      else if push_bit s 1 < q then shift_loop q (Suc s) else Inr s)"
  by pat_completeness auto
termination by (relation "measure (\<lambda>(q, s). 32 - s)") auto

declare shift_loop.simps [simp del]

definition wire_target ::
  "SharedU64Bin \<Rightarrow> 32 word \<Rightarrow> 32 word \<Rightarrow> BeaverTripleBit list \<Rightarrow> nat \<Rightarrow> (SharedU64Bin \<times> nat) result" where
  "wire_target N q_num q_den triples k =
     (if q_num = 1 \<and> q_den AND (q_den - 1) = 0
      then bindE (shift_loop q_den 0) (\<lambda>s. Inr (shiftRight64 N s, k))
      else let scale = push_bit 20 (ucast q_num) div ucast q_den in
        bindE (mulPublicConst64 N scale triples k) (\<lambda>(scaled, k'). Inr (shiftRight64 scaled 20, k')))"

definition fold_index :: "nat \<Rightarrow> SharedBit \<Rightarrow> SharedBit list \<Rightarrow> SharedBit list result" where
  "fold_index b found bkt =
     foldE (\<lambda>i bk. if bit b i then bindE (vec_at bk i) (\<lambda>x. bindE (xorShared x found) (\<lambda>y. Inr (bk[i := y])))
                   else Inr bk) [0..<32] bkt"

definition scan_step ::
  "SharedU64Bin list \<Rightarrow> SharedU64Bin \<Rightarrow> BeaverTripleBit list \<Rightarrow> nat \<Rightarrow>
   SharedBit list \<times> SharedBit \<times> nat \<Rightarrow> (SharedBit list \<times> SharedBit \<times> nat) result" where
  "scan_step cums target triples b = (\<lambda>(bkt, prev_ge, k).
     bindE (vec_at cums b) (\<lambda>c.
     bindE (secureLessThan c target triples k) (\<lambda>(lt, k1).
     bindE (xorConst lt 1) (\<lambda>ge.
     bindE (xorConst prev_ge 1) (\<lambda>not_prev_ge.
     throw_if (k1 \<ge> length triples) (RuntimeError ''triple bag exhausted (found_b AND)'')
       (bindE (secureAnd ge not_prev_ge (triples ! k1)) (\<lambda>found.
        bindE (fold_index b found bkt) (\<lambda>bkt'. Inr (bkt', ge, k1 + 1)))))))))"

definition percentileBucketWire ::
  "SharedU64Bin list \<Rightarrow> SharedU64Bin \<Rightarrow> 32 word \<Rightarrow> 32 word \<Rightarrow> BeaverTripleBit list \<Rightarrow> nat \<Rightarrow>
   (SharedU64Bin \<times> nat) result" where
  "percentileBucketWire cums N q_num q_den triples k =
     throw_if (cums = []) (InvalidArgument ''percentileBucketWire: empty cum'')
    (throw_if (q_den = 0) (InvalidArgument ''percentileBucketWire: q_den = 0'')
     (let n = bin_N (hd cums) in
      bindE (wire_target N q_num q_den triples k) (\<lambda>(target, k1).
      bindE (foldE (scan_step cums target triples) [0..<length cums] (replicate 64 (bit_zero n), bit_zero n, k1))
        (\<lambda>(bkt, _, k2). Inr (\<lparr>bin_bits = bkt\<rparr>, k2)))))"

subsection \<open>Arithmetic\<close>

lemma add64_step_returns:
  assumes "bag_ok n ts" "i < length xs" "i < length ys" "bit_N (xs ! i) = n" "bit_N (ys ! i) = n" "bit_N carry = n"
    and "k + 3 \<le> length ts"
  shows "returns (add64_step xs ys ts i (out, carry, k)) (adds_bit n xs ys i out carry k)"
  unfolding add64_step_def split adds_bit_def using assms by (intro gate_wp) auto

lemma bitAdd64_returns:
  assumes "bag_ok n ts" "bin_ok n x" "bin_ok n y" "k + 192 \<le> length ts"
  shows "returns (bitAdd64 x y ts k) (\<lambda>(z, k'). bin_ok n z \<and>
    bin_reconstruct z = bin_reconstruct x + bin_reconstruct y \<and> k' = k + 192)"
  unfolding bitAdd64_def
  by (intro bin_ripple_returns add64_step_returns) (use assms in \<open>auto simp: bin_ok_def\<close>)

interpretation percentile_adder: shared_adder bitAdd64
  by unfold_locales (rule bitAdd64_returns)

lemma mulPublicConst64_returns:
  assumes "bag_ok n ts" "bin_ok n x" "k + 192 * set_bits_of c \<le> length ts"
  shows "returns (mulPublicConst64 x c ts k) (\<lambda>(z, k'). bin_ok n z \<and>
    bin_reconstruct z = bin_reconstruct x * c \<and> k' = k + 192 * set_bits_of c)"
  unfolding mulPublicConst64_def bin_ok_N [OF assms(2)] by (rule percentile_adder.mul_public_returns [OF assms])

lemma shiftRight64_ok:
  assumes "bin_ok n x" "s \<le> 64"
  shows "bin_ok n (shiftRight64 x s)" "bin_reconstruct (shiftRight64 x s) = drop_bit s (bin_reconstruct x)"
proof -
  have len: "length (bin_bits x) = 64" "bin_N x = n" using assms(1) by (simp_all add: bin_ok_def bin_ok_N)
  have bits: "bin_bits (shiftRight64 x s) ! i = (if i + s < 64 then bin_bits x ! (i + s) else bit_zero n)" if "i < 64" for i
    using that assms(2) len by (auto simp: shiftRight64_def nth_append add.commute)
  show "bin_ok n (shiftRight64 x s)"
    using bits assms len by (auto simp: bin_ok_def) (simp add: shiftRight64_def)
  show "bin_reconstruct (shiftRight64 x s) = drop_bit s (bin_reconstruct x)"
    by (rule bin_reconstruct_eqI) (auto simp: bits bit_drop_bit_eq bit_bin_reconstruct add.commute)
qed

text \<open>The exponent found for a power of two.\<close>

lemma unat_exp32: "m < 32 \<Longrightarrow> unat (2 ^ m :: 32 word) = 2 ^ m"
proof -
  assume "m < 32"
  then have "(2 :: nat) ^ m < 2 ^ 32" by (intro power_strict_increasing) simp_all
  then have "unat (word_of_nat (2 ^ m) :: 32 word) = 2 ^ m" by (simp only: unat_of_nat take_bit_nat_eq_self) (simp add: take_bit_nat_eq_self)
  then show ?thesis by simp
qed

lemma shift_loop_least:
  "s \<le> m \<Longrightarrow> m < 32 \<Longrightarrow> q = 2 ^ m \<Longrightarrow> shift_loop q s = Inr m"
proof (induction q s rule: shift_loop.induct)
  case (1 q s)
  show ?case
  proof (cases "s = m")
    case True
    then show ?thesis using 1 by (subst shift_loop.simps) simp
  next
    case False
    then have "(2 :: 32 word) ^ s < 2 ^ m"
      using 1 by (simp add: word_less_nat_alt unat_exp32)
    then show ?thesis using 1 False by (subst shift_loop.simps) simp
  qed
qed

lemma power_of_two:
  fixes q :: "32 word"
  assumes "q \<noteq> 0" "q AND (q - 1) = 0"
  shows "\<exists>m<32. q = 2 ^ m"
proof -
  define m where "m = (GREATEST m. 2 ^ m \<le> unat q)"
  have pos: "0 < unat q" using assms(1) by (simp add: unat_gt_0)
  have le: "2 ^ m \<le> unat q"
    unfolding m_def by (rule GreatestI_nat [where b = "unat q" and k = 0])
      (use pos in \<open>auto intro: order.trans [OF less_imp_le [OF less_exp]]\<close>)
  have "2 ^ Suc m \<le> unat q \<Longrightarrow> Suc m \<le> m"
    unfolding m_def by (rule Greatest_le_nat [where b = "unat q"]) (auto intro: order.trans [OF less_imp_le [OF less_exp]])
  then have less: "unat q < 2 ^ Suc m" by linarith
  have "(2 :: nat) ^ m < 2 ^ 32" using le unsigned_less [of q, where ?'a = nat] by (simp add: le_less_trans)
  then have m32: "m < 32" by (rule power_less_imp_less_exp [rotated]) simp
  show ?thesis
  proof (cases "unat q = 2 ^ m")
    case True
    then have "q = 2 ^ m" using m32 by (simp add: word_unat_eq_iff unat_exp32)
    with m32 show ?thesis by blast
  next
    case False
    have u: "unat (q - 1) = unat q - 1" using pos by (simp add: unat_minus_one assms(1))
    have top: "bit x m" if "2 ^ m \<le> unat x" "unat x < 2 ^ Suc m" for x :: "32 word"
    proof -
      have "unat x div 2 ^ m = 1" using that by (auto simp: div_nat_eqI)
      then have "bit (unat x) m" by (simp add: bit_iff_odd)
      then show ?thesis using m32 by (simp add: bit_unsigned_iff)
    qed
    have "bit q m" by (rule top [OF le less])
    moreover have "bit (q - 1) m" by (rule top) (use u le less False in linarith)+
    ultimately have "bit (q AND (q - 1)) m" by (simp add: bit_and_iff)
    then show ?thesis using assms(2) by simp
  qed
qed

subsection \<open>Cumulative counts and target\<close>

lemma cdf_snoc: "fst (cdf_loop (xs @ [x]) a) = fst (cdf_loop xs a) @ [a + sum_list xs + x]"
  by (induction xs arbitrary: a) (simp_all add: split_beta Let_def add.assoc)

lemma cdf_last: "xs \<noteq> [] \<Longrightarrow> fst (cdf_loop xs a) \<noteq> [] \<and> last (fst (cdf_loop xs a)) = a + sum_list xs"
  by (cases xs rule: rev_cases) (simp_all add: cdf_snoc add.assoc)

lemma sharedPrefixSum_returns:
  assumes "bag_ok n ts" "\<forall>x\<in>set bins. bin_ok n x" "k + 192 * (length bins - 1) \<le> length ts"
  shows "returns (sharedPrefixSum bins ts k) (\<lambda>(cs, k'). (\<forall>c\<in>set cs. bin_ok n c) \<and>
    map bin_reconstruct cs = fst (cdf_loop (map bin_reconstruct bins) 0) \<and> k' = k + 192 * (length bins - 1))"
  unfolding sharedPrefixSum_def
proof (rule returns_foldE_list [where I = "\<lambda>xs (cs, k'). (\<forall>c\<in>set cs. bin_ok n c) \<and>
    map bin_reconstruct cs = fst (cdf_loop (map bin_reconstruct xs) 0) \<and> k' = k + 192 * (length xs - 1)"])
  fix xs x zs and s :: "SharedU64Bin list \<times> nat"
  assume bins: "bins = xs @ x # zs"
    and I: "(\<lambda>(cs, k'). (\<forall>c\<in>set cs. bin_ok n c) \<and> map bin_reconstruct cs = fst (cdf_loop (map bin_reconstruct xs) 0) \<and>
      k' = k + 192 * (length xs - 1)) s"
  obtain cs where s: "s = (cs, k + 192 * (length xs - 1))" "\<forall>c\<in>set cs. bin_ok n c"
      "map bin_reconstruct cs = fst (cdf_loop (map bin_reconstruct xs) 0)" using I by (cases s) auto
  have x: "bin_ok n x" using assms(2) by (simp add: bins)
  show "returns ((\<lambda>(cs, k). if cs = [] then Inr ([x], k) else bindE (bitAdd64 (last cs) x ts k) (\<lambda>(s, k'). Inr (cs @ [s], k'))) s)
      (\<lambda>(cs, k'). (\<forall>c\<in>set cs. bin_ok n c) \<and> map bin_reconstruct cs = fst (cdf_loop (map bin_reconstruct (xs @ [x])) 0) \<and>
        k' = k + 192 * (length (xs @ [x]) - 1))"
  proof (cases "xs = []")
    case True
    then have "cs = []" using s(3) by simp
    then show ?thesis using True x by (simp add: s(1) split_beta Let_def)
  next
    case False
    then have ne: "cs \<noteq> []" "bin_reconstruct (last cs) = sum_list (map bin_reconstruct xs)"
      using cdf_last [of "map bin_reconstruct xs" 0] unfolding s(3) [symmetric] by (auto simp: last_map)
    have "length xs - 1 + 1 \<le> length bins - 1" using False by (cases xs) (simp_all add: bins)
    then have room: "k + 192 * (length xs - 1) + 192 \<le> length ts" using assms(3) by linarith
    have "bin_ok n (last cs)" using s(2) ne(1) by simp
    from bitAdd64_returns [OF assms(1) this x room] obtain z where
      z: "bitAdd64 (last cs) x ts (k + 192 * (length xs - 1)) = Inr (z, k + 192 * (length xs - 1) + 192)" "bin_ok n z"
        "bin_reconstruct z = sum_list (map bin_reconstruct xs) + bin_reconstruct x"
      by (auto simp: returns_def ne(2))
    have "k + 192 * (length xs - 1) + 192 = k + 192 * (length (xs @ [x]) - 1)" using False by (cases xs) simp_all
    moreover have "map bin_reconstruct (cs @ [z]) = fst (cdf_loop (map bin_reconstruct (xs @ [x])) 0)"
      by (simp add: s(3) z(3) cdf_snoc)
    moreover have "\<forall>c\<in>set (cs @ [z]). bin_ok n c" using s(2) z(2) by simp
    ultimately show ?thesis
      by (simp only: s(1) split if_not_P [OF ne(1)] z(1) bindE_simps returns_Inr)
  qed
qed simp

definition percentile_rank :: "64 word \<Rightarrow> 32 word \<Rightarrow> 32 word \<Rightarrow> 64 word" where
  "percentile_rank N q_num q_den =
     (if q_num = 1 \<and> q_den AND (q_den - 1) = 0 then N div ucast q_den
      else drop_bit 20 (N * (push_bit 20 (ucast q_num) div ucast q_den)))"

lemma set_bits_le: "set_bits_of c \<le> 64"
  unfolding set_bits_of_def by (rule order_trans [OF length_filter_le]) simp

lemma wire_target_returns:
  assumes "bag_ok n ts" "bin_ok n N" "q_den \<noteq> 0" "k + 192 * 64 \<le> length ts"
  shows "returns (wire_target N q_num q_den ts k) (\<lambda>(t, k'). bin_ok n t \<and>
    bin_reconstruct t = percentile_rank (bin_reconstruct N) q_num q_den \<and> k \<le> k' \<and> k' \<le> k + 192 * 64)"
proof (cases "q_num = 1 \<and> q_den AND (q_den - 1) = 0")
  case True
  obtain m where m: "m < 32" "q_den = 2 ^ m" using power_of_two [OF assms(3)] True by blast
  have "(ucast (2 ^ m :: 32 word) :: 64 word) = 2 ^ m"
    by (rule bit_word_eqI) (use m(1) in \<open>auto simp: bit_ucast_iff bit_exp_iff\<close>)
  then have "drop_bit m (bin_reconstruct N) = bin_reconstruct N div ucast q_den" by (simp add: m(2) drop_bit_eq_div)
  then show ?thesis
    using True m shift_loop_least [of 0 m q_den] shiftRight64_ok [OF assms(2), of m]
    by (simp add: wire_target_def percentile_rank_def)
next
  case False
  let ?c = "push_bit 20 (ucast q_num) div ucast q_den :: 64 word"
  have "k + 192 * set_bits_of ?c \<le> length ts" using set_bits_le [of ?c] assms(4) by linarith
  from mulPublicConst64_returns [OF assms(1,2) this] obtain z where
    z: "mulPublicConst64 N ?c ts k = Inr (z, k + 192 * set_bits_of ?c)" "bin_ok n z" "bin_reconstruct z = bin_reconstruct N * ?c"
    by (auto simp: returns_def)
  with False show ?thesis
    using shiftRight64_ok [OF z(2), of 20] set_bits_le [of ?c]
    by (simp only: wire_target_def percentile_rank_def if_False Let_def z(1) bindE_simps split returns_Inr) simp
qed

subsection \<open>The scan\<close>

definition bits64 :: "nat \<Rightarrow> SharedBit list \<Rightarrow> bool" where
  "bits64 n bk \<longleftrightarrow> length bk = 64 \<and> (\<forall>i<64. bit_N (bk ! i) = n)"

lemma fold_index_returns:
  assumes "bits64 n bk" "bit_N found = n"
  shows "returns (fold_index b found bk) (\<lambda>bk'. bits64 n bk' \<and>
    (\<forall>i<64. bval (bk' ! i) = (bval (bk ! i) \<noteq> (i < 32 \<and> bit b i \<and> bval found))))"
  unfolding fold_index_def
proof (rule returns_foldE_upt [where I = "\<lambda>j bk'. bits64 n bk' \<and>
    (\<forall>i<64. bval (bk' ! i) = (bval (bk ! i) \<noteq> (i < j \<and> bit b i \<and> bval found)))"])
  fix j bk' assume j: "j < 32" and I: "bits64 n bk' \<and> (\<forall>i<64. bval (bk' ! i) = (bval (bk ! i) \<noteq> (i < j \<and> bit b i \<and> bval found)))"
  have N: "j < length bk'" "bit_N (bk' ! j) = bit_N found" using I j assms(2) by (auto simp: bits64_def)
  obtain y where y: "xorShared (bk' ! j) found = Inr y" "bit_N y = n" "bval y = (bval (bk' ! j) \<noteq> bval found)"
    using xorShared_returns [OF N(2)] assms(2) by (auto simp: returns_def)
  then show "returns (if bit b j then bindE (vec_at bk' j) (\<lambda>x. bindE (xorShared x found) (\<lambda>y. Inr (bk'[j := y]))) else Inr bk')
      (\<lambda>bk'. bits64 n bk' \<and> (\<forall>i<64. bval (bk' ! i) = (bval (bk ! i) \<noteq> (i < Suc j \<and> bit b i \<and> bval found))))"
    using I j N(1) by (auto simp: bits64_def nth_list_update less_Suc_eq)
qed (use assms in simp)

lemma scan_step_returns:
  assumes "bag_ok n ts" "b < length cs" "bin_ok n (cs ! b)" "bin_ok n t" "bits64 n bk" "bit_N prev = n" "k + 257 \<le> length ts"
  shows "returns (scan_step cs t ts b (bk, prev, k)) (\<lambda>(bk', ge, k'). bits64 n bk' \<and> bit_N ge = n \<and> k' = k + 257 \<and>
    bval ge = (bin_reconstruct t \<le> bin_reconstruct (cs ! b)) \<and>
    (\<forall>i<64. bval (bk' ! i) = (bval (bk ! i) \<noteq> (i < 32 \<and> bit b i \<and> bval ge \<and> \<not> bval prev))))"
proof -
  have n: "0 < n" using assms(1) by (rule bag_ok_pos)
  obtain lt where lt: "secureLessThan (cs ! b) t ts k = Inr (lt, k + 256)" "bit_N lt = n"
      "bval lt = (bin_reconstruct (cs ! b) < bin_reconstruct t)"
    using secureLessThan_returns [OF assms(1,3,4), of k] assms(7) by (auto simp: returns_def)
  obtain ge where ge: "xorConst lt 1 = Inr ge" "bit_N ge = n" "bval ge = (\<not> bval lt)"
    using xorConst_returns [of lt 1] lt(2) n by (auto simp: returns_def)
  obtain np where np: "xorConst prev 1 = Inr np" "bit_N np = n" "bval np = (\<not> bval prev)"
    using xorConst_returns [of prev 1] assms(6) n by (auto simp: returns_def)
  have tr: "bit_triple_ok n (ts ! (k + 256))" "k + 256 < length ts" using assms(1,7) by (auto simp: bag_ok_def)
  obtain f where f: "secureAnd ge np (ts ! (k + 256)) = Inr f" "bit_N f = n" "bval f = (bval ge \<and> bval np)"
    using secureAnd_returns [OF ge(2) np(2) tr(1) n] by (auto simp: returns_def)
  obtain bk' where bk': "fold_index b f bk = Inr bk'" "bits64 n bk'"
      "\<forall>i<64. bval (bk' ! i) = (bval (bk ! i) \<noteq> (i < 32 \<and> bit b i \<and> bval f))"
    using fold_index_returns [OF assms(5) f(2), of b] by (auto simp: returns_def)
  have "scan_step cs t ts b (bk, prev, k) = Inr (bk', ge, k + 257)"
    using assms(2) tr(2) by (simp add: scan_step_def lt(1) ge(1) np(1) f(1) bk'(1))
  then show ?thesis using bk'(2,3) ge(2,3) lt(3) f(3) np(3) by (auto simp: not_less)
qed

lemma scan_returns:
  assumes "bag_ok n ts" "\<forall>c\<in>set cs. bin_ok n c" "bin_ok n t" "k + 257 * length cs \<le> length ts"
    and c0: "\<forall>b<length cs. (bin_reconstruct t \<le> bin_reconstruct (cs ! b)) = (c0 \<le> b)" and "length cs \<le> 2 ^ 32"
  shows "returns (foldE (scan_step cs t ts) [0..<length cs] (replicate 64 (bit_zero n), bit_zero n, k))
    (\<lambda>(bk, _, k'). bin_ok n \<lparr>bin_bits = bk\<rparr> \<and> k' = k + 257 * length cs \<and>
       bin_reconstruct \<lparr>bin_bits = bk\<rparr> = (if c0 < length cs then word_of_nat c0 else 0))"
proof -
  let ?I = "\<lambda>b (bk, prev, k'). bits64 n bk \<and> bit_N prev = n \<and> k' = k + 257 * b \<and> bval prev = (c0 < b) \<and>
    (\<forall>i<64. bval (bk ! i) = (c0 < b \<and> i < 32 \<and> bit c0 i))"
  have "returns (foldE (scan_step cs t ts) [0..<length cs] (replicate 64 (bit_zero n), bit_zero n, k)) (?I (length cs))"
  proof (rule returns_foldE_upt)
    show "?I 0 (replicate 64 (bit_zero n), bit_zero n, k)" by (simp add: bits64_def)
  next
    fix b and s :: "SharedBit list \<times> SharedBit \<times> nat"
    assume b: "b < length cs" and I: "?I b s"
    obtain bk prev where s: "s = (bk, prev, k + 257 * b)" "bits64 n bk" "bit_N prev = n" "bval prev = (c0 < b)"
        "\<forall>i<64. bval (bk ! i) = (c0 < b \<and> i < 32 \<and> bit c0 i)" using I by (cases s) auto
    have "k + 257 * b + 257 \<le> length ts" using b assms(4) by simp
    moreover have "bin_ok n (cs ! b)" using b assms(2) by simp
    ultimately have step: "returns (scan_step cs t ts b (bk, prev, k + 257 * b)) (\<lambda>(bk', ge, k'). bits64 n bk' \<and> bit_N ge = n \<and>
        k' = k + 257 * b + 257 \<and> bval ge = (bin_reconstruct t \<le> bin_reconstruct (cs ! b)) \<and>
        (\<forall>i<64. bval (bk' ! i) = (bval (bk ! i) \<noteq> (i < 32 \<and> bit b i \<and> bval ge \<and> \<not> bval prev))))"
      using b s(2,3) assms(1,3) by (intro scan_step_returns)
    show "returns (scan_step cs t ts b s) (?I (Suc b))"
      unfolding s(1) by (rule returns_mono [OF step]) (use s(4,5) c0 b in \<open>auto simp: less_Suc_eq_le\<close>)
  qed
  then show ?thesis
  proof (rule returns_mono)
    fix s assume I: "?I (length cs) s"
    obtain bk prev where s: "s = (bk, prev, k + 257 * length cs)" "bits64 n bk"
        "\<forall>i<64. bval (bk ! i) = (c0 < length cs \<and> i < 32 \<and> bit c0 i)" using I by (cases s) auto
    have "i < 32" if "c0 < length cs" "bit c0 i" for i
    proof -
      have "c0 < 2 ^ 32" using that(1) assms(6) by linarith
      then have "take_bit 32 c0 = c0" by (simp add: take_bit_nat_eq_self)
      then show ?thesis using that(2) by (metis bit_take_bit_iff)
    qed
    then have "bin_reconstruct \<lparr>bin_bits = bk\<rparr> = (if c0 < length cs then word_of_nat c0 else 0)"
      by (intro bin_reconstruct_eqI) (use s(3) in \<open>auto simp: bit_of_nat_iff\<close>)
    with s show "(\<lambda>(bk, _, k'). bin_ok n \<lparr>bin_bits = bk\<rparr> \<and> k' = k + 257 * length cs \<and>
        bin_reconstruct \<lparr>bin_bits = bk\<rparr> = (if c0 < length cs then word_of_nat c0 else 0)) s"
      by (simp add: bin_ok_def bits64_def)
  qed
qed

subsection \<open>The target rank\<close>

text \<open>The target rank as the code computes it, in exact arithmetic: a quotient rounded down for the
  quantiles \<open>1 / 2 ^ s\<close>; for the others the quantile is first truncated to a fixed-point number of 20
  binary digits, and its product with \<open>N\<close> is truncated again. It is at most the exact product, and
  below it by less than \<open>1 + N / 2 ^ 20\<close>; the plaintext rounds up and never takes 0.\<close>

definition target_rank :: "nat \<Rightarrow> 32 word \<Rightarrow> 32 word \<Rightarrow> nat" where
  "target_rank N q_num q_den =
     (if q_num = 1 \<and> q_den AND (q_den - 1) = 0 then N div unat q_den
      else N * (2 ^ 20 * unat q_num div unat q_den) div 2 ^ 20)"

lemma scale_le:
  fixes q_num q_den :: "32 word"
  assumes "q_num \<le> q_den" shows "2 ^ 20 * unat q_num div unat q_den \<le> 2 ^ 20"
proof -
  have "2 ^ 20 * unat q_num \<le> 2 ^ 20 * unat q_den" using assms by (simp add: word_le_nat_alt)
  then have "2 ^ 20 * unat q_num div unat q_den \<le> 2 ^ 20 * unat q_den div unat q_den" by (rule div_le_mono)
  then show ?thesis by (cases "unat q_den = 0") simp_all
qed

lemma target_rank_bounds:
  assumes "q_den \<noteq> 0"
  shows "target_rank N q_num q_den * unat q_den \<le> N * unat q_num \<and>
    2 ^ 20 * (N * unat q_num) < 2 ^ 20 * (Suc (target_rank N q_num q_den) * unat q_den) + N * unat q_den"
proof -
  have d: "0 < unat q_den" using assms by (simp add: unat_gt_0)
  show ?thesis
  proof (cases "q_num = 1 \<and> q_den AND (q_den - 1) = 0")
    case True
    have "N < Suc (N div unat q_den) * unat q_den" using dividend_less_div_times [OF d, of N] by simp
    then show ?thesis using True by (simp add: target_rank_def)
  next
    case False
    define c t where "c = 2 ^ 20 * unat q_num div unat q_den" and "t = N * c div 2 ^ 20"
    have c: "c * unat q_den \<le> 2 ^ 20 * unat q_num" "2 ^ 20 * unat q_num \<le> Suc c * unat q_den"
      using dividend_less_div_times [OF d, of "2 ^ 20 * unat q_num"] unfolding c_def by (simp_all add: less_imp_le)
    have t: "t * 2 ^ 20 \<le> N * c" "N * c < Suc t * 2 ^ 20"
      using dividend_less_div_times [of "2 ^ 20" "N * c"] unfolding t_def by (simp_all add: add.commute)
    have "2 ^ 20 * (t * unat q_den) \<le> N * c * unat q_den" using mult_le_mono1 [OF t(1), of "unat q_den"] by (simp add: ac_simps)
    also have "\<dots> \<le> 2 ^ 20 * (N * unat q_num)" using mult_le_mono2 [OF c(1), of N] by (simp add: ac_simps)
    finally have low: "t * unat q_den \<le> N * unat q_num" by simp
    have "2 ^ 20 * (N * unat q_num) \<le> N * (Suc c * unat q_den)" using mult_le_mono2 [OF c(2), of N] by (simp add: ac_simps)
    also have "\<dots> = N * c * unat q_den + N * unat q_den" by (simp add: algebra_simps)
    also have "\<dots> < Suc t * 2 ^ 20 * unat q_den + N * unat q_den" using mult_less_mono1 [OF t(2) d] by simp
    finally have "2 ^ 20 * (N * unat q_num) < 2 ^ 20 * (Suc t * unat q_den) + N * unat q_den" by (simp add: algebra_simps)
    moreover have "target_rank N q_num q_den = t" by (simp only: target_rank_def False if_False t_def c_def)
    ultimately show ?thesis using low by simp
  qed
qed

lemma target_rank_le:
  assumes "q_num \<le> q_den"
  shows "target_rank N q_num q_den \<le> N"
proof -
  have "2 ^ 20 * unat q_num div unat q_den \<le> 2 ^ 20" using assms by (rule scale_le)
  then have "N * (2 ^ 20 * unat q_num div unat q_den) \<le> N * 2 ^ 20" by (rule mult_le_mono2)
  then have "N * (2 ^ 20 * unat q_num div unat q_den) div 2 ^ 20 \<le> N * 2 ^ 20 div 2 ^ 20" by (rule div_le_mono)
  then show ?thesis by (simp add: target_rank_def)
qed

lemma unat_percentile_rank:
  assumes "q_num \<le> q_den" "q_den \<noteq> 0" "unat N < 2 ^ 44"
  shows "unat (percentile_rank N q_num q_den) = target_rank (unat N) q_num q_den"
proof -
  have u: "unat (ucast q :: 64 word) = unat q" for q :: "32 word"
    using unsigned_less [of q, where ?'a = nat] by (simp add: unsigned_ucast_eq take_bit_nat_eq_self)
  have p: "unat (push_bit 20 (ucast q_num) :: 64 word) = 2 ^ 20 * unat q_num"
  proof -
    have "unat q_num < 2 ^ 32" using unsigned_less [of q_num, where ?'a = nat] by simp
    then have "2 ^ 20 * unat q_num < 2 ^ 64" by simp
    then show ?thesis by (simp only: push_bit_eq_mult unat_word_ariths u) (simp add: u mult.commute)
  qed
  have c: "unat (push_bit 20 (ucast q_num) div ucast q_den :: 64 word) = 2 ^ 20 * unat q_num div unat q_den"
    by (simp only: unat_div_distrib p u)
  have "2 ^ 20 * unat q_num div unat q_den \<le> 2 ^ 20" using assms(1) by (rule scale_le)
  then have "unat N * (2 ^ 20 * unat q_num div unat q_den) \<le> unat N * 2 ^ 20" by (rule mult_le_mono2)
  moreover have "unat N * 2 ^ 20 < 2 ^ 64" using assms(3) by simp
  ultimately have "unat N * (2 ^ 20 * unat q_num div unat q_den) < 2 ^ 64" by (rule le_less_trans)
  then have "unat (N * (push_bit 20 (ucast q_num) div ucast q_den)) = unat N * (2 ^ 20 * unat q_num div unat q_den)"
    using unat_mult_lem [of N "push_bit 20 (ucast q_num) div ucast q_den"] by (simp only: c) simp
  then show ?thesis
    by (simp add: percentile_rank_def target_rank_def unat_div_distrib u drop_bit_eq_div)
qed

lemma percentile_wire_budget:
  assumes "0 < L" "L \<le> 2 ^ 24"
  shows "unat (percentileWireTripleBudget (word_of_nat L)) = 449 * L + 12596"
proof -
  have "(word_of_nat L - 1) * 192 + 64 * 192 = (word_of_nat (192 * L + 12096) :: 32 word)"
    by (simp add: algebra_simps)
  moreover have "unat (word_of_nat (192 * L + 12096) :: 32 word) = 192 * L + 12096"
    using assms by (simp only: unat_of_nat) (simp add: take_bit_nat_eq_self)
  ultimately have a: "(ucast ((word_of_nat L - 1) * 192 + 64 * 192 :: 32 word) :: 64 word) = word_of_nat (192 * L + 12096)"
    by (metis of_nat_unat)
  have b: "(ucast (word_of_nat L :: 32 word) :: 64 word) = word_of_nat L"
    using assms by (simp add: word_unat_eq_iff unsigned_ucast_eq unat_of_nat take_bit_nat_eq_self)
  have "percentileWireTripleBudget (word_of_nat L) = word_of_nat (449 * L + 12596)"
    unfolding percentileWireTripleBudget_def a b by (simp add: secureLessThanTripleCost_def algebra_simps)
  moreover have "unat (word_of_nat (449 * L + 12596) :: 64 word) = 449 * L + 12596"
    using assms by (simp only: unat_of_nat) (simp add: take_bit_nat_eq_self)
  ultimately show ?thesis by (simp only:)
qed

subsection \<open>Property\<close>

text \<open>The plaintext search on a cumulative histogram, with a given target rank.\<close>

lemma cdf_of_counts:
  assumes "sum_list (map unat hs) < 2 ^ 64" "hs \<noteq> []"
  obtains cs where "makeCdf \<lparr>hist_h = hs, hist_n_valid = v\<rparr> = \<lparr>cum = cs, cdf_N = last cs, monotone = True\<rparr>"
    "cs = fst (cdf_loop hs 0)" "length cs = length hs" "sorted cs" "unat (last cs) = sum_list (map unat hs)"
proof -
  obtain cs n ok where l: "cdf_loop hs 0 = (cs, n, ok)" by (cases "cdf_loop hs 0") auto
  have cs: "length cs = length hs" "\<forall>i<length hs. unat (cs ! i) = sum_list (map unat (take (Suc i) hs))"
      "unat n = sum_list (map unat hs)" ok
    using cdf_loop_spec [of 0 hs] assms(1) l by simp_all
  have last: "unat (last cs) = sum_list (map unat hs)"
  proof -
    have "0 < length hs" using assms(2) by simp
    then have "Suc (length hs - 1) = length hs" "length hs - 1 < length hs" by simp_all
    then have "unat (cs ! (length hs - 1)) = sum_list (map unat (take (length hs) hs))" using cs(2) by auto
    then show ?thesis using cs(1) assms(2) by (cases "cs = []") (simp_all add: last_conv_nth)
  qed
  then have n: "n = last cs" using cs(3) by (simp add: word_unat_eq_iff)
  have "sorted cs"
  proof (unfold sorted_iff_nth_mono, intro allI impI)
    fix i j assume ij: "i \<le> j" "j < length cs"
    have "take (Suc j) hs = take (Suc i) hs @ take (j - i) (drop (Suc i) hs)"
      using ij(1) take_add [of "Suc i" "j - i" hs] by simp
    then show "cs ! i \<le> cs ! j" using ij cs(1,2) by (simp add: word_le_nat_alt del: take_Suc)
  qed
  show ?thesis
  proof (rule that)
    show "makeCdf \<lparr>hist_h = hs, hist_n_valid = v\<rparr> = \<lparr>cum = cs, cdf_N = last cs, monotone = True\<rparr>"
      using l cs(4) n by (simp add: makeCdf_def)
    show "cs = fst (cdf_loop hs 0)" by (simp add: l)
  qed (rule cs(1) \<open>sorted cs\<close> last)+
qed

lemma search_first:
  assumes "sorted cs" "cs \<noteq> []" "t \<le> last cs"
  shows "cdf_search cs t 0 (length cs - 1) < length cs \<and>
    (\<forall>b<length cs. (t \<le> cs ! b) = (cdf_search cs t 0 (length cs - 1) \<le> b))"
proof -
  let ?c = "cdf_search cs t 0 (length cs - 1)"
  have c: "?c < length cs" "\<forall>i<?c. cs ! i < t" "?c = length cs - 1 \<or> t \<le> cs ! ?c"
    using cdf_search_spec [of 0 "length cs - 1" cs t] assms(1,2) by simp_all
  have "t \<le> cs ! ?c" using c(3) assms(2,3) by (auto simp: last_conv_nth)
  then have "t \<le> cs ! b" if "?c \<le> b" "b < length cs" for b
    using sorted_nth_mono [OF assms(1) that] by (rule order_trans)
  then show ?thesis using c(1,2) by (auto simp: not_le [symmetric])
qed

text \<open>The scan of a sorted table whose last count reaches the target.\<close>

lemma percentileBucketWire_run:
  assumes "bag_ok n ts" "\<forall>c\<in>set cs. bin_ok n c" "cs \<noteq> []" "length cs \<le> 2 ^ 32" "bin_ok n N" "q_den \<noteq> 0"
    and "sorted (map bin_reconstruct cs)" "percentile_rank (bin_reconstruct N) q_num q_den \<le> last (map bin_reconstruct cs)"
    and "k + 192 * 64 + 257 * length cs \<le> length ts"
  shows "\<exists>r k2. percentileBucketWire cs N q_num q_den ts k = Inr (r, k2) \<and> k2 \<le> k + 192 * 64 + 257 * length cs \<and>
    bin_reconstruct r = word_of_nat (cdf_search (map bin_reconstruct cs)
      (percentile_rank (bin_reconstruct N) q_num q_den) 0 (length cs - 1))"
proof -
  let ?ws = "map bin_reconstruct cs" and ?t = "percentile_rank (bin_reconstruct N) q_num q_den"
  have "k + 192 * 64 \<le> length ts" using assms(9) by simp
  from wire_target_returns [OF assms(1,5,6) this, of q_num] obtain t k1 where
    t: "wire_target N q_num q_den ts k = Inr (t, k1)" "bin_ok n t" "bin_reconstruct t = ?t" "k1 \<le> k + 192 * 64"
    by (auto simp: returns_def)
  define c0 where "c0 = cdf_search ?ws ?t 0 (length cs - 1)"
  have c0: "c0 < length cs" "\<forall>b<length cs. (bin_reconstruct t \<le> bin_reconstruct (cs ! b)) = (c0 \<le> b)"
    using search_first [OF assms(7) _ assms(8)] assms(3) by (auto simp: c0_def t(3))
  have room: "k1 + 257 * length cs \<le> length ts" using t(4) assms(9) by linarith
  from scan_returns [OF assms(1,2) t(2) room c0(2) assms(4)] obtain bk g where
    bk: "foldE (scan_step cs t ts) [0..<length cs] (replicate 64 (bit_zero n), bit_zero n, k1) = Inr (bk, g, k1 + 257 * length cs)"
      "bin_reconstruct \<lparr>bin_bits = bk\<rparr> = (if c0 < length cs then word_of_nat c0 else 0)"
    by (auto simp: returns_def)
  have "bin_N (hd cs) = n" using assms(2,3) by (simp add: bin_ok_N)
  then have "percentileBucketWire cs N q_num q_den ts k = Inr (\<lparr>bin_bits = bk\<rparr>, k1 + 257 * length cs)"
    using assms(3,6) t(1) bk(1) by (simp add: percentileBucketWire_def)
  moreover have "k1 + 257 * length cs \<le> k + 192 * 64 + 257 * length cs" using t(4) by simp
  ultimately show ?thesis using bk(2) c0(1) unfolding c0_def by auto
qed

text \<open>C20: percentiles on shares against the plaintext search. Given a shared histogram of at most
  \<open>2 ^ 24\<close> bins holding \<open>N < 2 ^ 44\<close> rows, the sharing of \<open>N\<close>, a quantile of at most 1 and a bag of the
  published budget, prefix sums and scan return within the budget, and the result opens to the
  bucket the plaintext search finds for the code's target rank, except that a target of 0
  gives bucket 0 where the plaintext takes rank 1. The target is the product of \<open>N\<close> and the quantile
  truncated to 20 binary digits, truncated again (\<open>N div 2 ^ s\<close> for the quantile \<open>1 / 2 ^ s\<close>): it never
  exceeds the exact product and is below it by less than \<open>1 + N / 2 ^ 20\<close>. For 100 rows and 90/100 it is
  89, neither the product 90 nor the ceiling that the comment in the code announces.\<close>

theorem percentileBucketWire_opens:
  assumes "bag_ok n ts" "\<forall>x\<in>set bins. bin_ok n x" "bins \<noteq> []" "length bins \<le> 2 ^ 24" "bin_ok n N"
    and "unat (bin_reconstruct N) = (\<Sum>x\<leftarrow>bins. unat (bin_reconstruct x))" "unat (bin_reconstruct N) < 2 ^ 44"
    and "q_num \<le> q_den" "q_den \<noteq> 0"
    and "k + unat (percentileWireTripleBudget (word_of_nat (length bins))) \<le> length ts"
  shows "\<exists>cs k1 r k2. sharedPrefixSum bins ts k = Inr (cs, k1) \<and>
    percentileBucketWire cs N q_num q_den ts k1 = Inr (r, k2) \<and>
    k2 \<le> k + unat (percentileWireTripleBudget (word_of_nat (length bins))) \<and>
    (let n = unat (bin_reconstruct N); t = target_rank n q_num q_den in
     t * unat q_den \<le> n * unat q_num \<and> 2 ^ 20 * (n * unat q_num) < 2 ^ 20 * (Suc t * unat q_den) + n * unat q_den \<and>
     bin_reconstruct r = (if t = 0 then 0 else word_of_nat (percentileBucket (\<lambda>_ _. word_of_nat t)
       (makeCdf \<lparr>hist_h = map bin_reconstruct bins, hist_n_valid = v\<rparr>) q)))"
proof -
  let ?hs = "map bin_reconstruct bins" and ?L = "length bins"
  let ?t = "target_rank (unat (bin_reconstruct N)) q_num q_den" and ?k1 = "k + 192 * (length bins - 1)"
  have L: "0 < ?L" using assms(3) by simp
  have budget: "unat (percentileWireTripleBudget (word_of_nat ?L)) = 449 * ?L + 12596" by (rule percentile_wire_budget [OF L assms(4)])
  have total: "sum_list (map unat ?hs) = unat (bin_reconstruct N)" using assms(6) by (simp add: comp_def)
  have "sum_list (map unat ?hs) < 2 ^ 64" unfolding total using assms(7) by simp
  from cdf_of_counts [OF this, of v] obtain ws where
    cdf: "makeCdf \<lparr>hist_h = ?hs, hist_n_valid = v\<rparr> = \<lparr>cum = ws, cdf_N = last ws, monotone = True\<rparr>"
    and ws: "ws = fst (cdf_loop ?hs 0)" "length ws = ?L" "sorted ws" "unat (last ws) = unat (bin_reconstruct N)"
    using assms(3) total by (metis length_map map_is_Nil_conv)
  have "?k1 \<le> length ts" using assms(10) budget by linarith
  from sharedPrefixSum_returns [OF assms(1,2) this] obtain cs where
    cs: "sharedPrefixSum bins ts k = Inr (cs, ?k1)" "\<forall>c\<in>set cs. bin_ok n c" "map bin_reconstruct cs = ws"
    by (auto simp: returns_def ws(1))
  have len: "length cs = ?L" using arg_cong [OF cs(3), of length] ws(2) by simp
  have ne: "cs \<noteq> []" "ws \<noteq> []" "length cs \<le> 2 ^ 32" using len ws(2) L assms(4) by auto
  define t where "t = percentile_rank (bin_reconstruct N) q_num q_den"
  have ut: "unat t = ?t" unfolding t_def by (rule unat_percentile_rank [OF assms(8,9,7)])
  then have wt: "t = word_of_nat ?t" by (metis of_nat_unat ucast_id)
  have "?t \<le> unat (bin_reconstruct N)" by (rule target_rank_le [OF assms(8)])
  then have le: "t \<le> last ws" by (simp add: word_le_nat_alt ut ws(4))
  have room: "?k1 + 192 * 64 + 257 * length cs \<le> length ts" using assms(10) budget L len by linarith
  obtain r k2 where r: "percentileBucketWire cs N q_num q_den ts ?k1 = Inr (r, k2)" "k2 \<le> ?k1 + 192 * 64 + 257 * length cs"
      "bin_reconstruct r = word_of_nat (cdf_search ws t 0 (length ws - 1))"
    using percentileBucketWire_run [OF assms(1) cs(2) ne(1,3) assms(5,9) _ _ room, unfolded cs(3), OF ws(3) le [unfolded t_def]]
    by (auto simp: t_def len ws(2))
  have cost: "k2 \<le> k + unat (percentileWireTripleBudget (word_of_nat ?L))" using r(2) budget L len by linarith
  have "bin_reconstruct r = (if ?t = 0 then 0 else word_of_nat (percentileBucket (\<lambda>_ _. word_of_nat ?t)
       (makeCdf \<lparr>hist_h = ?hs, hist_n_valid = v\<rparr>) q))"
  proof (cases "?t = 0")
    case True
    then have "cdf_search ws t 0 (length ws - 1) = 0" using search_first [OF ws(3) ne(2) le] wt ne(2) by auto
    then show ?thesis using r(3) True by simp
  next
    case False
    then have nz: "t \<noteq> 0" using ut by (metis unat_0)
    then have "last ws \<noteq> 0" using le by (metis word_le_0_iff)
    then have "percentileBucket (\<lambda>_ _. t) \<lparr>cum = ws, cdf_N = last ws, monotone = True\<rparr> q = cdf_search ws t 0 (length ws - 1)"
      using ne(2) nz by (simp add: percentileBucket_def)
    then show ?thesis using r(3) False by (simp add: cdf flip: wt)
  qed
  with cs(1) r(1) cost target_rank_bounds [OF assms(9), of "unat (bin_reconstruct N)" q_num] show ?thesis
    unfolding Let_def by blast
qed

text \<open>The median of five rows, one in bin 0 and four in bin 1.\<close>

lemma percentileBucketWire_opens_witness:
  "\<exists>bins cs N k1 r k2. map bin_reconstruct bins = [1, 4] \<and> bin_reconstruct N = 5 \<and>
    sharedPrefixSum bins (replicate 13494 (zero_triple 2)) 0 = Inr (cs, k1) \<and>
    percentileBucketWire cs N 1 2 (replicate 13494 (zero_triple 2)) k1 = Inr (r, k2) \<and> bin_reconstruct r = 1"
proof -
  obtain x y N where v: "bin_ok 2 x" "bin_reconstruct x = 1" "bin_ok 2 y" "bin_reconstruct y = 4" "bin_ok 2 N" "bin_reconstruct N = 5"
    using bin_sharing_exists [of 2 1] bin_sharing_exists [of 2 4] bin_sharing_exists [of 2 5] by auto
  have budget: "unat (percentileWireTripleBudget (word_of_nat (length [x, y]))) = 13494"
    using percentile_wire_budget [of 2] by simp
  have t: "target_rank (unat (bin_reconstruct N)) 1 2 = 2" by (simp add: v target_rank_def)
  have "percentileBucket (\<lambda>_ _. word_of_nat 2) (makeCdf \<lparr>hist_h = map bin_reconstruct [x, y], hist_n_valid = 0\<rparr>) () = 1"
    by (simp add: percentileBucket_def makeCdf_def v Let_def cdf_search.simps word_le_nat_alt)
  moreover have "\<exists>cs k1 r k2. sharedPrefixSum [x, y] (replicate 13494 (zero_triple 2)) 0 = Inr (cs, k1) \<and>
    percentileBucketWire cs N 1 2 (replicate 13494 (zero_triple 2)) k1 = Inr (r, k2) \<and>
    k2 \<le> 0 + unat (percentileWireTripleBudget (word_of_nat (length [x, y]))) \<and>
    (let n = unat (bin_reconstruct N); t = target_rank n 1 2 in
     t * unat (2 :: 32 word) \<le> n * unat (1 :: 32 word) \<and>
     2 ^ 20 * (n * unat (1 :: 32 word)) < 2 ^ 20 * (Suc t * unat (2 :: 32 word)) + n * unat (2 :: 32 word) \<and>
     bin_reconstruct r = (if t = 0 then 0 else word_of_nat (percentileBucket (\<lambda>_ _. word_of_nat t)
       (makeCdf \<lparr>hist_h = map bin_reconstruct [x, y], hist_n_valid = 0\<rparr>) ())))"
    by (rule percentileBucketWire_opens [OF bag_ok_zero_triples]) (use v budget in simp_all)
  ultimately obtain cs k1 r k2 where "sharedPrefixSum [x, y] (replicate 13494 (zero_triple 2)) 0 = Inr (cs, k1)"
    "percentileBucketWire cs N 1 2 (replicate 13494 (zero_triple 2)) k1 = Inr (r, k2)" "bin_reconstruct r = 1"
    unfolding t Let_def by auto
  with v show ?thesis
    by (intro exI [where x = "[x, y]"] exI [where x = cs] exI [where x = N] exI [where x = k1] exI [where x = r]
        exI [where x = k2]) simp
qed

end
