(* ===== verification/Benes.thy ===== *)
theory Benes
  imports Prelude
begin

text \<open>
  The Benes switching network (\<open>volePSI/osn/benes.h\<close>, \<open>volePSI/osn/benes.cpp\<close>): the search that
  colours the wires, the routing of a permutation, the evaluation of a routed network in the clear,
  and the table of switches.

  The \<open>int\<close> indices of the routing are \<open>nat\<close>: they stay below the number of switches, which
  \<open>Osn_Session\<close> keeps in an \<open>int\<close>. The switches and the colours (\<open>-1\<close> for none) stay \<open>int\<close>, as the
  wire arithmetic xors them into indices. Both instances of \<open>gen_benes_eval\<close>, on integers and on
  blocks, are one polymorphic function. The pair loops run over \<open>q = i / 2\<close>. The search, whose loop
  has no bound in the code, is a \<open>partial_function\<close>.
\<close>

record Benes =
  perm :: "nat list"
  inv_perm :: "nat list"
  switched :: "int list list"
  path :: "int list"

definition get2 :: "'a list list \<Rightarrow> nat \<Rightarrow> nat \<Rightarrow> 'a result" where
  "get2 a r c = bindE (vec_at a r) (\<lambda>row. vec_at row c)"

definition set2 :: "'a list list \<Rightarrow> nat \<Rightarrow> nat \<Rightarrow> 'a \<Rightarrow> 'a list list result" where
  "set2 a r c x = bindE (vec_at a r) (\<lambda>row. bindE (vec_set row c x) (\<lambda>row'. Inr (a[r := row'])))"

definition resized :: "'a list \<Rightarrow> nat \<Rightarrow> 'a \<Rightarrow> 'a list" where
  "resized xs n d = take n xs @ replicate (n - length xs) d"

text \<open>\<open>std::vector::resize\<close> keeps what is there; a negative size becomes too large to allocate. The
  \<open>double\<close> product \<open>1.27 * values\<close> truncates to \<open>127 * values div 100\<close>: the constant is rounded
  up, by less than what would reach the next integer.\<close>

definition benes_initialize :: "Benes \<Rightarrow> int \<Rightarrow> int \<Rightarrow> Benes result" where
  "benes_initialize b values levels =
     (let benes_size = sgn values * (127 * \<bar>values\<bar> div 100) in
      throw_if (benes_size < - (2 ^ 31) \<or> 2 ^ 31 \<le> benes_size) SignedOverflow
     (throw_if (benes_size < 0 \<or> values < 0 \<or> levels < 0) (LogicError ''vector::_M_default_append'')
       (Inr \<lparr>perm = resized (perm b) (nat values) 0, inv_perm = resized (inv_perm b) (nat values) 0,
             switched = map (\<lambda>row. resized row (nat values div 2) 0) (resized (switched b) (nat levels) []),
             path = resized (path b) (nat benes_size) 0\<rparr>)))"

subsection \<open>Colouring\<close>

text \<open>\<open>partner v\<close> is \<open>v ^ 1\<close>.\<close>

definition partner :: "nat \<Rightarrow> nat" where
  "partner v = (if even v then v + 1 else v - 1)"

definition DFS_step ::
  "nat list \<Rightarrow> nat list \<Rightarrow> nat \<Rightarrow> int \<Rightarrow> (nat \<times> int) list \<Rightarrow> int list \<Rightarrow> ((nat \<times> int) list \<times> int list) result" where
  "DFS_step pm iv v r st pt =
     bindE (vec_set pt v r) (\<lambda>pt'.
     bindE (vec_at pt' (partner v)) (\<lambda>c.
     let st' = (if c < 0 then (partner v, r XOR 1) # st else st) in
     bindE (vec_at iv v) (\<lambda>i.
     bindE (vec_at pm (partner i)) (\<lambda>idx.
     bindE (vec_at pt' idx) (\<lambda>d.
     Inr (if d < 0 then (idx, r XOR 1) # st' else st', pt'))))))"

partial_function (option) DFS_loop ::
  "nat list \<Rightarrow> nat list \<Rightarrow> (nat \<times> int) list \<Rightarrow> int list \<Rightarrow> int list result option" where
  "DFS_loop pm iv st pt =
     (case st of [] \<Rightarrow> Some (Inr pt)
      | (v, r) # rest \<Rightarrow>
          (case DFS_step pm iv v r rest pt of Inl e \<Rightarrow> Some (Inl e)
           | Inr (st', pt') \<Rightarrow> DFS_loop pm iv st' pt'))"

definition DFS :: "nat list \<Rightarrow> nat list \<Rightarrow> nat \<Rightarrow> int \<Rightarrow> int list \<Rightarrow> int list result" where
  "DFS pm iv idx route pt =
     (case DFS_loop pm iv [(idx, route)] pt of None \<Rightarrow> Inl Diverges | Some r \<Rightarrow> r)"

subsection \<open>Wires\<close>

definition shuffle :: "int \<Rightarrow> nat \<Rightarrow> int" where
  "shuffle i n = push_bit (n - 1) (i AND 1) OR drop_bit 1 i"

text \<open>The two wires of pair \<open>q\<close> go to the lower and the upper half network, or come from them.\<close>

definition split_pair ::
  "nat \<Rightarrow> nat \<Rightarrow> 'a list \<Rightarrow> nat \<Rightarrow> int \<Rightarrow> 'a list \<times> 'a list \<Rightarrow> ('a list \<times> 'a list) result" where
  "split_pair n values src q s =
     foldE (\<lambda>j (bots, tops). bindE (vec_at src (2 * q + j)) (\<lambda>v.
         if shuffle ((2 * int q + int j) XOR s) n < int (values div 2) then Inr (bots @ [v], tops)
         else Inr (bots, tops @ [v]))) [0, 1]"

definition merge_pair ::
  "nat \<Rightarrow> nat \<Rightarrow> 'a list \<Rightarrow> 'a list \<Rightarrow> nat \<Rightarrow> int \<Rightarrow> 'a list \<Rightarrow> 'a list result" where
  "merge_pair n values bots tops q s =
     foldE (\<lambda>j src.
         let x = shuffle ((2 * int q + int j) XOR s) n in
         throw_if (x < 0) OutOfBounds
           (bindE (if x < int (values div 2) then vec_at bots (nat x) else vec_at tops q) (\<lambda>v.
            vec_set src (2 * q + j) v))) [0, 1]"

definition cond_swap :: "int \<Rightarrow> nat \<Rightarrow> nat \<Rightarrow> 'a list \<Rightarrow> 'a list" where
  "cond_swap s i j xs = (if s = 1 then xs[i := xs ! j, j := xs ! i] else xs)"

definition push_last :: "'a list \<Rightarrow> 'a list \<Rightarrow> 'a list result" where
  "push_last src tops = (if odd (length src) then bindE (vec_at src (length src - 1)) (\<lambda>v. Inr (tops @ [v])) else Inr tops)"

definition take_last :: "'a list \<Rightarrow> 'a list \<Rightarrow> 'a list result" where
  "take_last tops src =
     (if odd (length src)
      then bindE (vec_at tops ((length src + 1) div 2 - 1)) (\<lambda>v. vec_set src (length src - 1) v) else Inr src)"

subsection \<open>Evaluation\<close>

text \<open>
  A network without wires recurses for ever; with no level left the shift of \<open>shuffle\<close> is negative.
\<close>

definition no_level :: "nat \<Rightarrow> 'a result" where
  "no_level values = Inl (if values < 2 then Diverges else UndefinedShift)"

fun gen_benes_eval :: "int list list \<Rightarrow> nat \<Rightarrow> nat \<Rightarrow> nat \<Rightarrow> 'a list \<Rightarrow> 'a list result" where
  "gen_benes_eval sw n lvl_p perm_idx src =
     (let values = length src in
      if values = 2 then
        bindE (get2 sw (if n = 1 then lvl_p else lvl_p + 1) perm_idx) (\<lambda>s. Inr (cond_swap s 0 1 src))
      else if values = 3 then
        bindE (get2 sw lvl_p perm_idx) (\<lambda>s0. let src0 = cond_swap s0 0 1 src in
        bindE (get2 sw (lvl_p + 1) perm_idx) (\<lambda>s1. let src1 = cond_swap s1 1 2 src0 in
        bindE (get2 sw (lvl_p + 2) perm_idx) (\<lambda>s2. Inr (cond_swap s2 0 1 src1))))
      else case n of 0 \<Rightarrow> no_level values
      | Suc m \<Rightarrow>
          bindE (foldE (\<lambda>q bt. bindE (get2 sw lvl_p (perm_idx + q)) (\<lambda>s. split_pair n values src q s bt))
            [0..<values div 2] ([], [])) (\<lambda>(bottom1, top0).
          bindE (push_last src top0) (\<lambda>top1.
          bindE (gen_benes_eval sw m (lvl_p + 1) perm_idx bottom1) (\<lambda>bots.
          bindE (gen_benes_eval sw m (lvl_p + 1) (perm_idx + values div 4) top1) (\<lambda>tops.
          bindE (foldE (\<lambda>q src. bindE (get2 sw (lvl_p + (2 * n - 1) - 1) (perm_idx + q)) (\<lambda>s.
              merge_pair n values bots tops q s src)) [0..<values div 2] src) (\<lambda>src1.
          take_last tops src1))))))"

declare gen_benes_eval.simps [simp del]

text \<open>The private overload on integers.\<close>

definition gen_benes_eval_u64 :: "int list list \<Rightarrow> nat \<Rightarrow> nat \<Rightarrow> nat \<Rightarrow> 64 word list \<Rightarrow> 64 word list result" where
  "gen_benes_eval_u64 sw n lvl_p perm_idx src = gen_benes_eval sw n lvl_p perm_idx src"

subsection \<open>Networks as functions\<close>

text \<open>What a network with the switches \<open>sw row column\<close> does to its wires.\<close>

type_synonym switches = "nat \<Rightarrow> nat \<Rightarrow> bool"

definition low_half :: "(nat \<Rightarrow> bool) \<Rightarrow> 'a list \<Rightarrow> 'a list" where
  "low_half c xs = map (\<lambda>q. xs ! (2 * q + of_bool (c q))) [0..<length xs div 2]"

definition high_half :: "(nat \<Rightarrow> bool) \<Rightarrow> 'a list \<Rightarrow> 'a list" where
  "high_half c xs = map (\<lambda>q. xs ! (2 * q + of_bool (\<not> c q))) [0..<length xs div 2] @ (if odd (length xs) then [last xs] else [])"

definition join_halves :: "nat \<Rightarrow> (nat \<Rightarrow> bool) \<Rightarrow> 'a list \<Rightarrow> 'a list \<Rightarrow> 'a list" where
  "join_halves V c bots tops =
     map (\<lambda>i. if odd V \<and> i = V - 1 then last tops
              else if odd i = c (i div 2) then bots ! (i div 2) else tops ! (i div 2)) [0..<V]"

definition swap_if :: "bool \<Rightarrow> nat \<Rightarrow> nat \<Rightarrow> 'a list \<Rightarrow> 'a list" where
  "swap_if b i j xs = (if b then xs[i := xs ! j, j := xs ! i] else xs)"

fun network :: "switches \<Rightarrow> nat \<Rightarrow> nat \<Rightarrow> nat \<Rightarrow> 'a list \<Rightarrow> 'a list" where
  "network sw n l p xs =
     (if length xs = 2 then swap_if (sw (if n = 1 then l else l + 1) p) 0 1 xs
      else if length xs = 3 then swap_if (sw (l + 2) p) 0 1 (swap_if (sw (l + 1) p) 1 2 (swap_if (sw l p) 0 1 xs))
      else case n of 0 \<Rightarrow> xs
      | Suc m \<Rightarrow> join_halves (length xs) (\<lambda>q. sw (l + 2 * m) (p + q))
          (network sw m (l + 1) p (low_half (\<lambda>q. sw l (p + q)) xs))
          (network sw m (l + 1) (p + length xs div 4) (high_half (\<lambda>q. sw l (p + q)) xs)))"

declare network.simps [simp del]

lemma half_lengths [simp]:
  "length (low_half c xs) = length xs div 2" "length (high_half c xs) = (length xs + 1) div 2"
  "length (join_halves V c bs ts) = V" "length (swap_if b i j xs) = length xs"
  by (auto simp: low_half_def high_half_def join_halves_def swap_if_def)

lemma length_network [simp]: "length (network sw n l p xs) = length xs"
  by (cases n) (simp_all add: network.simps)

text \<open>The sizes a network with \<open>n\<close> levels of nesting is used with, and the switches it owns.\<close>

definition fits :: "nat \<Rightarrow> nat \<Rightarrow> bool" where
  "fits n V \<longleftrightarrow> 0 < n \<and> 2 \<le> V \<and> 2 ^ (n - 1) \<le> V \<and> V \<le> 2 ^ n"

definition owns :: "nat \<Rightarrow> nat \<Rightarrow> nat \<Rightarrow> nat \<Rightarrow> nat \<Rightarrow> nat \<Rightarrow> bool" where
  "owns n l p V r c \<longleftrightarrow> l \<le> r \<and> r < l + (2 * n - 1) \<and> p \<le> c \<and> c < p + V div 2"

lemma fits_halves:
  assumes "fits (Suc m) V" "V \<noteq> 2" "V \<noteq> 3"
  shows "fits m (V div 2)" "fits m ((V + 1) div 2)" "4 \<le> V"
proof -
  show V: "4 \<le> V" using assms by (auto simp: fits_def)
  have b: "2 ^ m \<le> V" "V \<le> 2 * 2 ^ m" using assms(1) by (simp_all add: fits_def)
  then have m: "0 < m" using V by (cases m) auto
  then have "2 ^ m = 2 * (2 :: nat) ^ (m - 1)" by (cases m) simp_all
  then have "2 ^ (m - 1) \<le> V div 2" using b(1) by simp
  then show "fits m (V div 2)" "fits m ((V + 1) div 2)"
    using b V m by (auto simp: fits_def)
qed

lemma fits_cases:
  assumes "fits n V"
  obtains (two) "V = 2" "n = 1 \<or> n = 2" | (three) "V = 3" "n = 2"
    | (more) m where "n = Suc m" "4 \<le> V" "fits m (V div 2)" "fits m ((V + 1) div 2)" "0 < m"
proof (cases "V = 2 \<or> V = 3")
  case True
  have "n \<le> 2"
  proof (rule ccontr)
    assume "\<not> n \<le> 2"
    then have "(2 :: nat) ^ 2 \<le> 2 ^ (n - 1)" by (intro power_increasing) auto
    then show False using True assms by (auto simp: fits_def)
  qed
  moreover have "n \<noteq> 1" if "V = 3" using assms that by (auto simp: fits_def)
  moreover have "0 < n" using assms by (simp add: fits_def)
  ultimately have "V = 2 \<Longrightarrow> n = 1 \<or> n = 2" "V = 3 \<Longrightarrow> n = 2" by arith+
  then show ?thesis using True two three by blast
next
  case False
  obtain m where n: "n = Suc m" using assms by (cases n) (simp_all add: fits_def)
  have f: "fits m (V div 2)" "fits m ((V + 1) div 2)" "4 \<le> V" using fits_halves [of m V] assms False n by auto
  then have "0 < m" by (simp add: fits_def)
  with f n more show ?thesis by blast
qed

lemma owns_halves:
  assumes "0 < m" "4 \<le> V"
  shows "owns m (l + 1) p (V div 2) r c \<Longrightarrow> owns (Suc m) l p V r c \<and> r \<noteq> l \<and> r \<noteq> l + 2 * m \<and> c < p + V div 4"
    and "owns m (l + 1) (p + V div 4) ((V + 1) div 2) r c \<Longrightarrow>
      owns (Suc m) l p V r c \<and> r \<noteq> l \<and> r \<noteq> l + 2 * m \<and> p + V div 4 \<le> c"
proof -
  have q: "V div 2 div 2 = V div 4" "V div 4 + (V + 1) div 2 div 2 \<le> V div 2" using assms(2) by presburger+
  show "owns m (l + 1) p (V div 2) r c \<Longrightarrow> owns (Suc m) l p V r c \<and> r \<noteq> l \<and> r \<noteq> l + 2 * m \<and> c < p + V div 4"
    using q assms by (auto simp: owns_def)
  show "owns m (l + 1) (p + V div 4) ((V + 1) div 2) r c \<Longrightarrow>
      owns (Suc m) l p V r c \<and> r \<noteq> l \<and> r \<noteq> l + 2 * m \<and> p + V div 4 \<le> c"
    using q assms by (auto simp: owns_def)
qed

text \<open>A network depends on its own switches only.\<close>

lemma network_cong:
  assumes "fits n (length xs)" "\<And>r c. owns n l p (length xs) r c \<Longrightarrow> sw r c = sw' r c"
  shows "network sw n l p xs = network sw' n l p xs"
  using assms
proof (induction n arbitrary: l p xs)
  case (Suc m)
  from Suc.prems(1) show ?case
  proof (cases rule: fits_cases)
    case two
    then show ?thesis using Suc.prems(2) by (auto simp: network.simps owns_def)
  next
    case three
    then show ?thesis using Suc.prems(2) by (auto simp: network.simps owns_def)
  next
    case (more m')
    let ?V = "length xs"
    have m: "m' = m" "0 < m" using more by simp_all
    have own: "sw l (p + q) = sw' l (p + q)" "sw (l + 2 * m) (p + q) = sw' (l + 2 * m) (p + q)" if "q < ?V div 2" for q
      using Suc.prems(2) [of l "p + q"] Suc.prems(2) [of "l + 2 * m" "p + q"] that m(2) by (simp_all add: owns_def)
    have lo: "low_half (\<lambda>q. sw l (p + q)) xs = low_half (\<lambda>q. sw' l (p + q)) xs"
      and hi: "high_half (\<lambda>q. sw l (p + q)) xs = high_half (\<lambda>q. sw' l (p + q)) xs"
      using own by (simp_all add: low_half_def high_half_def)
    have jo: "join_halves ?V (\<lambda>q. sw (l + 2 * m) (p + q)) bs ts = join_halves ?V (\<lambda>q. sw' (l + 2 * m) (p + q)) bs ts" for bs ts :: "'a list"
      unfolding join_halves_def
    proof (intro map_cong refl)
      fix i assume "i \<in> set [0..<?V]"
      then have "i div 2 < ?V div 2" if "\<not> (odd ?V \<and> i = ?V - 1)" using that by auto
      then show "(if odd ?V \<and> i = ?V - 1 then last ts else if odd i = sw (l + 2 * m) (p + i div 2) then bs ! (i div 2) else ts ! (i div 2)) =
          (if odd ?V \<and> i = ?V - 1 then last ts else if odd i = sw' (l + 2 * m) (p + i div 2) then bs ! (i div 2) else ts ! (i div 2))"
        using own by auto
    qed
    have "network sw m (l + 1) p ys = network sw' m (l + 1) p ys" if "length ys = ?V div 2" for ys :: "'a list"
      using more m that owns_halves(1) [OF m(2) more(2)] Suc.prems(2) by (intro Suc.IH) auto
    moreover have "network sw m (l + 1) (p + ?V div 4) ys = network sw' m (l + 1) (p + ?V div 4) ys"
      if "length ys = (?V + 1) div 2" for ys :: "'a list"
      using more m that owns_halves(2) [OF m(2) more(2)] Suc.prems(2) by (intro Suc.IH) auto
    ultimately show ?thesis
      using more(2) by (simp add: network.simps [of _ "Suc m"] lo hi jo)
  qed
qed (simp add: fits_def)

subsection \<open>The evaluation computes the network\<close>

lemma shuffle_wire:
  assumes "q < V div 2" "V \<le> 2 ^ n" "0 < n"
  shows "shuffle (2 * int q XOR of_bool b) n < int (V div 2) \<longleftrightarrow> \<not> b"
    and "shuffle ((2 * int q + 1) XOR of_bool b) n < int (V div 2) \<longleftrightarrow> b"
    and "\<not> b \<Longrightarrow> shuffle (2 * int q XOR of_bool b) n = int q"
    and "b \<Longrightarrow> shuffle ((2 * int q + 1) XOR of_bool b) n = int q"
    and "0 \<le> shuffle (2 * int q XOR of_bool b) n" "0 \<le> shuffle ((2 * int q + 1) XOR of_bool b) n"
proof -
  have lo: "shuffle (2 * int q) n = int q" by (simp add: shuffle_def and_one_eq drop_bit_Suc)
  have "shuffle (2 * int q + 1) n = push_bit (n - 1) 1 OR int q" by (simp add: shuffle_def and_one_eq drop_bit_Suc)
  then have hi: "shuffle (2 * int q + 1) n = 2 ^ (n - 1) OR int q" by (simp add: push_bit_eq_mult)
  have "V div 2 \<le> 2 ^ (n - 1)" using assms(2,3) by (cases n) auto
  then have "int (V div 2) \<le> int (2 ^ (n - 1))" by (rule of_nat_mono)
  also have "\<dots> = 2 ^ (n - 1)" by simp
  also have "\<dots> \<le> 2 ^ (n - 1) OR int q" by (rule or_greater_eq) simp
  finally have ge: "int (V div 2) \<le> 2 ^ (n - 1) OR int q" .
  have x: "2 * int q XOR 1 = 2 * int q + 1" "(2 * int q + 1) XOR 1 = 2 * int q"
    by (simp_all add: xor_one_eq)
  show "shuffle (2 * int q XOR of_bool b) n < int (V div 2) \<longleftrightarrow> \<not> b"
    "shuffle ((2 * int q + 1) XOR of_bool b) n < int (V div 2) \<longleftrightarrow> b"
    "\<not> b \<Longrightarrow> shuffle (2 * int q XOR of_bool b) n = int q"
    "b \<Longrightarrow> shuffle ((2 * int q + 1) XOR of_bool b) n = int q"
    "0 \<le> shuffle (2 * int q XOR of_bool b) n" "0 \<le> shuffle ((2 * int q + 1) XOR of_bool b) n"
    using assms(1) ge by (cases b; simp add: lo hi x add.commute [of 1] del: of_nat_div)+
qed

lemma split_pair_run:
  assumes "q < length src div 2" "length src \<le> 2 ^ n" "0 < n"
  shows "split_pair n (length src) src q (of_bool b) (bs, ts) =
    Inr (bs @ [src ! (2 * q + of_bool b)], ts @ [src ! (2 * q + of_bool (\<not> b))])"
proof -
  have i: "2 * q < length src" "2 * q + 1 < length src" using assms(1) by linarith+
  show ?thesis
    using i shuffle_wire(1,2) [OF assms, of b] by (cases b) (simp_all add: split_pair_def)
qed

lemma merge_pair_run:
  assumes "q < V div 2" "V \<le> 2 ^ n" "0 < n" "length src = V" "q < length bs" "q < length ts"
  shows "merge_pair n V bs ts q (of_bool b) src =
    Inr (src[2 * q := (if b then ts ! q else bs ! q), 2 * q + 1 := (if b then bs ! q else ts ! q)])"
proof -
  have i: "2 * q < length src" "2 * q + 1 < length src" using assms(1,4) by linarith+
  note w = shuffle_wire [OF assms(1-3), of b]
  show ?thesis
  proof (cases b)
    case True
    then have "\<not> shuffle (2 * int q XOR 1) n < int (V div 2)" "shuffle ((2 * int q + 1) XOR 1) n = int q"
      "0 \<le> shuffle (2 * int q XOR 1) n" using w by simp_all
    then show ?thesis
      using i assms(1,5,6) True unfolding merge_pair_def Let_def by (simp add: throw_if_def)
  next
    case False
    then have "\<not> shuffle ((2 * int q + 1) XOR 0) n < int (V div 2)" "shuffle (2 * int q XOR 0) n = int q"
      "0 \<le> shuffle ((2 * int q + 1) XOR 0) n" using w by simp_all
    then show ?thesis
      using i assms(1,5,6) False unfolding merge_pair_def Let_def by (simp add: throw_if_def)
  qed
qed

lemma split_loop_run:
  assumes "length src \<le> 2 ^ n" "0 < n" "\<And>q. q < length src div 2 \<Longrightarrow> f q = Inr (of_bool (c q))"
  shows "foldE (\<lambda>q bt. bindE (f q) (\<lambda>s. split_pair n (length src) src q s bt)) [0..<length src div 2] ([], []) =
    Inr (low_half c src, map (\<lambda>q. src ! (2 * q + of_bool (\<not> c q))) [0..<length src div 2])"
proof -
  have "foldE (\<lambda>q bt. bindE (f q) (\<lambda>s. split_pair n (length src) src q s bt)) [0..<k] ([], []) =
      Inr (map (\<lambda>q. src ! (2 * q + of_bool (c q))) [0..<k], map (\<lambda>q. src ! (2 * q + of_bool (\<not> c q))) [0..<k])"
    if "k \<le> length src div 2" for k
    using that
  proof (induction k)
    case (Suc k)
    then have k: "k < length src div 2" by simp
    then show ?case using Suc by (simp add: foldE_append assms(3) split_pair_run [OF k assms(1,2)])
  qed simp
  then show ?thesis by (simp add: low_half_def)
qed

lemma push_last_run:
  "push_last src (map (\<lambda>q. src ! (2 * q + of_bool (\<not> c q))) [0..<length src div 2]) = Inr (high_half c src)"
proof (cases "odd (length src)")
  case True
  then have "src \<noteq> []" by auto
  then show ?thesis using True by (simp add: push_last_def high_half_def last_conv_nth)
qed (simp add: push_last_def high_half_def)

definition joined :: "(nat \<Rightarrow> bool) \<Rightarrow> 'a list \<Rightarrow> 'a list \<Rightarrow> nat \<Rightarrow> 'a" where
  "joined c bs ts i = (if odd i = c (i div 2) then bs ! (i div 2) else ts ! (i div 2))"

lemma merge_loop_run:
  assumes "V \<le> 2 ^ n" "0 < n" "length src = V" "length bs = V div 2" "length ts = (V + 1) div 2"
    and "\<And>q. q < V div 2 \<Longrightarrow> f q = Inr (of_bool (c q))"
  shows "foldE (\<lambda>q src. bindE (f q) (\<lambda>s. merge_pair n V bs ts q s src)) [0..<V div 2] src =
    Inr (map (\<lambda>i. if i < 2 * (V div 2) then joined c bs ts i else src ! i) [0..<V])"
proof -
  have "foldE (\<lambda>q src. bindE (f q) (\<lambda>s. merge_pair n V bs ts q s src)) [0..<k] src =
      Inr (map (\<lambda>i. if i < 2 * k then joined c bs ts i else src ! i) [0..<V])" if "k \<le> V div 2" for k
    using that
  proof (induction k)
    case 0
    show ?case using map_nth [of src] by (simp add: assms(3))
  next
    case (Suc k)
    let ?now = "map (\<lambda>i. if i < 2 * k then joined c bs ts i else src ! i) [0..<V]"
    have k: "k < V div 2" "k < length bs" "k < length ts" using Suc.prems assms(4,5) by linarith+
    have step: "merge_pair n V bs ts k (of_bool (c k)) ?now =
        Inr (?now[2 * k := (if c k then ts ! k else bs ! k), 2 * k + 1 := (if c k then bs ! k else ts ! k)])"
      using k assms by (intro merge_pair_run) simp_all
    have "?now[2 * k := (if c k then ts ! k else bs ! k), 2 * k + 1 := (if c k then bs ! k else ts ! k)] =
        map (\<lambda>i. if i < 2 * Suc k then joined c bs ts i else src ! i) [0..<V]"
      using k(1) by (auto simp: nth_list_update joined_def less_Suc_eq intro!: nth_equalityI)
    then show ?case using Suc.IH Suc.prems k(1) assms(6) step by (simp add: foldE_append)
  qed
  then show ?thesis by simp
qed

lemma take_last_run:
  assumes "2 \<le> V" "length ts = (V + 1) div 2"
  shows "take_last ts (map (\<lambda>i. if i < 2 * (V div 2) then joined c bs ts i else src ! i) [0..<V]) = Inr (join_halves V c bs ts)"
proof (cases "odd V")
  case True
  then have "2 * (V div 2) = V - 1" using assms(1) by presburger
  moreover have ne: "ts \<noteq> []" using assms by (cases ts) auto
  moreover have "ts ! ((V + 1) div 2 - 1) = last ts" using last_conv_nth [OF ne] assms(2) by simp
  moreover have "(V + 1) div 2 - 1 < length ts" using assms by simp
  ultimately show ?thesis
    using True assms(1)
    by (auto simp: take_last_def join_halves_def joined_def nth_list_update intro!: nth_equalityI)
next
  case False
  then have "2 * (V div 2) = V" by presburger
  then show ?thesis using False by (simp add: take_last_def join_halves_def joined_def cong: map_cong)
qed

text \<open>The switches a network owns are the 0/1 entries of the table.\<close>

definition table_has :: "int list list \<Rightarrow> switches \<Rightarrow> nat \<Rightarrow> nat \<Rightarrow> nat \<Rightarrow> nat \<Rightarrow> bool" where
  "table_has M sw n l p V \<longleftrightarrow> (\<forall>r c. owns n l p V r c \<longrightarrow> get2 M r c = Inr (of_bool (sw r c)))"

lemma table_halves:
  assumes "table_has M sw (Suc m) l p V" "0 < m" "4 \<le> V"
  shows "table_has M sw m (l + 1) p (V div 2)" "table_has M sw m (l + 1) (p + V div 4) ((V + 1) div 2)"
    and "q < V div 2 \<Longrightarrow> get2 M l (p + q) = Inr (of_bool (sw l (p + q)))"
    and "q < V div 2 \<Longrightarrow> get2 M (l + 2 * m) (p + q) = Inr (of_bool (sw (l + 2 * m) (p + q)))"
proof -
  show "table_has M sw m (l + 1) p (V div 2)" "table_has M sw m (l + 1) (p + V div 4) ((V + 1) div 2)"
    using assms(1) owns_halves [OF assms(2,3)] unfolding table_has_def by blast+
  show "q < V div 2 \<Longrightarrow> get2 M l (p + q) = Inr (of_bool (sw l (p + q)))"
    "q < V div 2 \<Longrightarrow> get2 M (l + 2 * m) (p + q) = Inr (of_bool (sw (l + 2 * m) (p + q)))"
    using assms(1) unfolding table_has_def by (simp_all add: owns_def)
qed

lemma gen_benes_eval_run:
  assumes "fits n (length src)" "table_has M sw n l p (length src)"
  shows "gen_benes_eval M n l p src = Inr (network sw n l p src)"
  using assms
proof (induction n arbitrary: l p src)
  case (Suc m)
  from Suc.prems(1) show ?case
  proof (cases rule: fits_cases)
    case two
    then have "get2 M (if Suc m = 1 then l else l + 1) p = Inr (of_bool (sw (if Suc m = 1 then l else l + 1) p))"
      using Suc.prems(2) by (auto simp: table_has_def owns_def)
    then show ?thesis using two(1) by (simp add: gen_benes_eval.simps network.simps cond_swap_def swap_if_def)
  next
    case three
    then have "get2 M l p = Inr (of_bool (sw l p))" "get2 M (l + 1) p = Inr (of_bool (sw (l + 1) p))"
        "get2 M (l + 2) p = Inr (of_bool (sw (l + 2) p))"
      using Suc.prems(2) by (auto simp: table_has_def owns_def)
    then show ?thesis using three(1) by (simp add: gen_benes_eval.simps network.simps cond_swap_def swap_if_def Let_def)
  next
    case (more m')
    let ?V = "length src"
    have m: "m' = m" "0 < m" "fits m (?V div 2)" "fits m ((?V + 1) div 2)" using more by simp_all
    have V: "?V \<le> 2 ^ Suc m" "2 \<le> ?V" "?V \<noteq> 2" "?V \<noteq> 3" using Suc.prems(1) more(2) by (simp_all add: fits_def)
    note t = table_halves [OF Suc.prems(2) m(2) more(2)]
    let ?lo = "low_half (\<lambda>q. sw l (p + q)) src" and ?hi = "high_half (\<lambda>q. sw l (p + q)) src"
    have lo: "gen_benes_eval M m (l + 1) p ?lo = Inr (network sw m (l + 1) p ?lo)"
      using m(3) t(1) by (intro Suc.IH) simp_all
    have hi: "gen_benes_eval M m (l + 1) (p + ?V div 4) ?hi = Inr (network sw m (l + 1) (p + ?V div 4) ?hi)"
      using m(4) t(2) by (intro Suc.IH) simp_all
    have row: "l + (2 * Suc m - 1) - 1 = l + 2 * m" by simp
    show ?thesis
      using V(3,4)
      by (simp only: gen_benes_eval.simps [of M "Suc m"] network.simps [of sw "Suc m"] Let_def if_False nat.case row
          split_loop_run [OF V(1) zero_less_Suc, where f = "\<lambda>q. get2 M l (p + q)" and c = "\<lambda>q. sw l (p + q)", OF t(3)]
          bindE_simps split push_last_run lo hi
          merge_loop_run [OF V(1) zero_less_Suc refl, where f = "\<lambda>q. get2 M (l + 2 * m) (p + q)" and
            c = "\<lambda>q. sw (l + 2 * m) (p + q)", OF _ _ t(4)] length_network half_lengths take_last_run [OF V(2)])
  qed
qed (simp add: fits_def)

text \<open>Networks move wires: they commute with any function of the values.\<close>

lemma network_map:
  assumes "fits n (length xs)"
  shows "network sw n l p (map f xs) = map f (network sw n l p xs)"
  using assms
proof (induction n arbitrary: l p xs)
  case (Suc m)
  have lo: "low_half c (map f xs) = map f (low_half c xs)" for c by (auto simp: low_half_def)
  have hi: "high_half c (map f xs) = map f (high_half c xs)" for c
    by (cases "xs = []") (auto simp: high_half_def last_map)
  have jo: "join_halves V c (map f bs) (map f ts) = map f (join_halves V c bs ts)"
    if "length bs = V div 2" "length ts = (V + 1) div 2" "2 \<le> V" for V c and bs ts :: "'a list"
  proof -
    have "ts \<noteq> []" using that by auto
    then show ?thesis
      using that by (auto simp: join_halves_def last_map intro!: map_cong)
  qed
  have swp: "swap_if b i j (map f ys) = map f (swap_if b i j ys)" if "i < length ys" "j < length ys" for b i j and ys :: "'a list"
    using that by (simp add: swap_if_def map_update)
  from Suc.prems show ?case
  proof (cases rule: fits_cases)
    case (more m')
    then show ?thesis
      using Suc.IH [of "low_half (\<lambda>q. sw l (p + q)) xs"] Suc.IH [of "high_half (\<lambda>q. sw l (p + q)) xs"]
      by (simp add: network.simps [of _ "Suc m'"] lo hi jo)
  qed (simp_all add: network.simps swp)
qed (simp add: fits_def)

end
