(* ===== verification/Benes_Colour.thy ===== *)
theory Benes_Colour
  imports Benes
begin

text \<open>
  The wire colouring of the Benes routing (\<open>DFS\<close> and its callers in \<open>volePSI/osn/benes.cpp\<close>): the
  partners of the input pairs and of the output pairs make a graph of paths and even cycles; the
  search terminates and colours it properly.
\<close>

subsection \<open>Two involutions have a common proper colouring\<close>

definition pairing :: "'a set \<Rightarrow> ('a \<Rightarrow> 'a) \<Rightarrow> bool" where
  "pairing S a \<longleftrightarrow> (\<forall>x\<in>S. a x \<in> S \<and> a x \<noteq> x \<and> a (a x) = x)"

lemma pairing_remove:
  assumes "pairing S a" "x \<in> S"
  shows "pairing (S - {x, a x}) a"
  unfolding pairing_def
proof (intro ballI conjI)
  fix z assume z: "z \<in> S - {x, a x}"
  then have az: "a z \<in> S" "a z \<noteq> z" "a (a z) = z" using assms(1) by (auto simp: pairing_def)
  moreover have "a z \<noteq> x" using az(3) z by auto
  moreover have "a z \<noteq> a x" using az(3) z assms by (auto simp: pairing_def) metis
  ultimately show "a z \<in> S - {x, a x}" "a z \<noteq> z" "a (a z) = z" by auto
qed

lemma pairing_rewire:
  assumes "pairing S b" "x \<in> S" "y \<in> S" "y \<noteq> x" "b x \<noteq> y"
  shows "pairing (S - {x, y}) (b(b x := b y, b y := b x))"
proof -
  have inj: "b z = b w \<Longrightarrow> z \<in> S \<Longrightarrow> w \<in> S \<Longrightarrow> z = w" for z w using assms(1) by (auto simp: pairing_def) metis
  have u: "b x \<in> S" "b (b x) = x" "b x \<noteq> x" "b y \<in> S" "b (b y) = y" "b y \<noteq> y" using assms(1-3) by (auto simp: pairing_def)
  have n: "b x \<noteq> b y" "b y \<noteq> x" using inj [of x y] assms(2-5) u by auto
  show ?thesis
    unfolding pairing_def
  proof (intro ballI)
    fix z assume z: "z \<in> S - {x, y}"
    have bz: "b z \<in> S" "b z \<noteq> z" "b (b z) = z" using assms(1) z by (auto simp: pairing_def)
    let ?b = "b(b x := b y, b y := b x)"
    show "?b z \<in> S - {x, y} \<and> ?b z \<noteq> z \<and> ?b (?b z) = z"
    proof (cases "z = b x \<or> z = b y")
      case True
      then show ?thesis using u n assms(5) by auto
    next
      case False
      then have "b z \<noteq> x" "b z \<noteq> y" using bz u by auto
      moreover have "b z \<noteq> b x" "b z \<noteq> b y" using inj [of z x] inj [of z y] z assms(2,3) by auto
      ultimately show ?thesis using bz False by auto
    qed
  qed
qed

lemma two_colouring:
  assumes "finite S" "pairing S a" "pairing S b"
  shows "\<exists>c :: 'a \<Rightarrow> bool. \<forall>x\<in>S. c (a x) \<noteq> c x \<and> c (b x) \<noteq> c x"
  using assms
proof (induction S arbitrary: b rule: finite_psubset_induct)
  case (psubset S)
  show ?case
  proof (cases "S = {}")
    case False
    then obtain x where x: "x \<in> S" by auto
    let ?y = "a x" and ?S = "S - {x, a x}"
    have y: "?y \<in> S" "?y \<noteq> x" "a ?y = x" using psubset.prems(1) x by (auto simp: pairing_def)
    have sub: "?S \<subset> S" using x by auto
    have pa: "pairing ?S a" by (rule pairing_remove [OF psubset.prems(1) x])
    have az: "a z \<in> ?S" if "z \<in> ?S" for z using pa that by (simp add: pairing_def)
    show ?thesis
    proof (cases "b x = ?y")
      case True
      then have bx: "b ?y = x" using psubset.prems(2) x by (auto simp: pairing_def)
      have pb: "pairing ?S b" using pairing_remove [OF psubset.prems(2) x] by (simp add: True)
      from psubset.IH [OF sub pa pb] obtain c :: "'a \<Rightarrow> bool" where c: "\<forall>z\<in>?S. c (a z) \<noteq> c z \<and> c (b z) \<noteq> c z" by blast
      have bz: "b z \<in> ?S" if "z \<in> ?S" for z using pb that by (simp add: pairing_def)
      have "\<forall>z\<in>S. (c(x := False, ?y := True)) (a z) \<noteq> (c(x := False, ?y := True)) z \<and>
          (c(x := False, ?y := True)) (b z) \<noteq> (c(x := False, ?y := True)) z"
      proof
        fix z assume z: "z \<in> S"
        show "(c(x := False, ?y := True)) (a z) \<noteq> (c(x := False, ?y := True)) z \<and>
            (c(x := False, ?y := True)) (b z) \<noteq> (c(x := False, ?y := True)) z"
        proof (cases "z \<in> ?S")
          case zS: True
          have "c (a z) \<noteq> c z \<and> c (b z) \<noteq> c z" using c zS by blast
          moreover have "z \<noteq> x" "z \<noteq> ?y" "a z \<noteq> x" "a z \<noteq> ?y" "b z \<noteq> x" "b z \<noteq> ?y"
            using zS az [OF zS] bz [OF zS] by blast+
          ultimately show ?thesis by simp
        next
          case out: False
          then have "z = x \<or> z = ?y" using z by auto
          then show ?thesis using True bx y by auto
        qed
      qed
      then show ?thesis by blast
    next
      case False
      let ?u = "b x" and ?v = "b ?y" and ?b = "b(b x := b ?y, b ?y := b x)"
      have pb: "pairing ?S ?b" by (rule pairing_rewire [OF psubset.prems(2) x y(1,2) False])
      from psubset.IH [OF sub pa pb] obtain c :: "'a \<Rightarrow> bool" where c: "\<forall>z\<in>?S. c (a z) \<noteq> c z \<and> c (?b z) \<noteq> c z" by blast
      have uv: "?u \<in> S" "b ?u = x" "?u \<noteq> x" "?v \<in> S" "b ?v = ?y" "?v \<noteq> ?y"
        using psubset.prems(2) x y(1) by (auto simp: pairing_def)
      have n: "?v \<noteq> x" "?u \<noteq> ?v" using uv False y(2) by auto
      have in': "?u \<in> ?S" "?v \<in> ?S" using uv n False by auto
      have cuv: "c ?u \<noteq> c ?v" using c in'(1) n by (auto split: if_splits)
      let ?c = "c(x := \<not> c ?u, ?y := \<not> c ?v)"
      have "\<forall>z\<in>S. ?c (a z) \<noteq> ?c z \<and> ?c (b z) \<noteq> ?c z"
      proof
        fix z assume z: "z \<in> S"
        consider "z = x" | "z = ?y" | "z = ?u" | "z = ?v" | "z \<in> ?S" "z \<noteq> ?u" "z \<noteq> ?v" using z by blast
        then show "?c (a z) \<noteq> ?c z \<and> ?c (b z) \<noteq> ?c z"
        proof cases
          case 1
          then show ?thesis using cuv y in' False uv by auto
        next
          case 2
          then show ?thesis using cuv y in' uv n by auto
        next
          case 3
          then show ?thesis using c in'(1) az [OF in'(1)] uv n False y(2) by auto
        next
          case 4
          then show ?thesis using c in'(2) az [OF in'(2)] uv n False y(2) by auto
        next
          case 5
          have "?b z \<in> ?S" using pb 5(1) by (auto simp: pairing_def)
          then have bz: "b z \<in> ?S" using 5 by simp
          have "c (a z) \<noteq> c z \<and> c (?b z) \<noteq> c z" using c 5(1) by blast
          moreover have "?b z = b z" using 5 by simp
          moreover have "z \<noteq> x" "z \<noteq> ?y" "a z \<noteq> x" "a z \<noteq> ?y" "b z \<noteq> x" "b z \<noteq> ?y"
            using 5(1) az [OF 5(1)] bz by blast+
          ultimately show ?thesis by simp
        qed
      qed
      then show ?thesis by blast
    qed
  qed simp
qed

lemma pairing_even:
  assumes "finite S" "pairing S a"
  shows "even (card S)"
  using assms
proof (induction S rule: finite_psubset_induct)
  case (psubset S)
  show ?case
  proof (cases "S = {}")
    case False
    then obtain x where x: "x \<in> S" by auto
    have y: "a x \<in> S" "a x \<noteq> x" using psubset.prems x by (auto simp: pairing_def)
    have "even (card (S - {x, a x}))"
      using x pairing_remove [OF psubset.prems x] by (intro psubset.IH) auto
    moreover have "card (S - {x, a x}) = card S - 2"
      using x y psubset.hyps by (subst card_Diff_subset) auto
    moreover have "2 \<le> card S"
      using card_mono [of S "{x, a x}"] x y psubset.hyps by auto
    ultimately show ?thesis by simp
  qed simp
qed

subsection \<open>The search\<close>

definition out_partner :: "nat list \<Rightarrow> nat list \<Rightarrow> nat \<Rightarrow> nat" where
  "out_partner pm iv v = pm ! partner (iv ! v)"

definition dfs_push :: "nat \<Rightarrow> int \<Rightarrow> int list \<Rightarrow> (nat \<times> int) list" where
  "dfs_push w r pt = (if pt ! w < 0 then [(w, r XOR 1)] else [])"

lemma DFS_step_run:
  assumes "v < length pt" "partner v < length pt" "v < length iv" "partner (iv ! v) < length pm" "out_partner pm iv v < length pt"
  shows "DFS_step pm iv v r st pt =
    Inr (dfs_push (out_partner pm iv v) r (pt[v := r]) @ dfs_push (partner v) r (pt[v := r]) @ st, pt[v := r])"
  using assms by (simp add: DFS_step_def dfs_push_def out_partner_def Let_def)

text \<open>
  The search starts from the colours \<open>pt0\<close>; \<open>U\<close> are the wires without one, and \<open>k\<close> is a proper
  colouring. Below a wire already coloured the stack holds nothing its neighbours need: the last
  but two conjunct, on which termination rests.
\<close>

definition dfs_inv ::
  "(nat \<Rightarrow> nat) \<Rightarrow> (nat \<Rightarrow> nat) \<Rightarrow> nat set \<Rightarrow> (nat \<Rightarrow> bool) \<Rightarrow> int list \<Rightarrow> nat \<Rightarrow> (nat \<times> int) list \<Rightarrow> int list \<Rightarrow> bool" where
  "dfs_inv A B U k pt0 idx st pt \<longleftrightarrow> length pt = length pt0 \<and> (\<forall>v. v \<notin> U \<longrightarrow> pt ! v = pt0 ! v) \<and>
     (\<forall>v\<in>U. 0 \<le> pt ! v \<longrightarrow> pt ! v = of_bool (k v)) \<and> (\<forall>(v, r)\<in>set st. v \<in> U \<and> r = of_bool (k v)) \<and>
     (\<forall>i<length st. 0 \<le> pt ! fst (st ! i) \<longrightarrow>
        (\<forall>w\<in>{A (fst (st ! i)), B (fst (st ! i))}. 0 \<le> pt ! w \<or> w \<in> fst ` set (take i st))) \<and>
     (\<forall>v\<in>U. 0 \<le> pt ! v \<longrightarrow> (\<forall>w\<in>{A v, B v}. 0 \<le> pt ! w \<or> w \<in> fst ` set st)) \<and>
     (0 \<le> pt ! idx \<or> idx \<in> fst ` set st)"

definition dfs_graph :: "(nat \<Rightarrow> nat) \<Rightarrow> (nat \<Rightarrow> nat) \<Rightarrow> nat set \<Rightarrow> (nat \<Rightarrow> bool) \<Rightarrow> int list \<Rightarrow> bool" where
  "dfs_graph A B U k pt0 \<longleftrightarrow> finite U \<and> (\<forall>v\<in>U. v < length pt0 \<and> pt0 ! v < 0 \<and>
     (\<forall>w\<in>{A v, B v}. w < length pt0 \<and> (pt0 ! w < 0 \<longrightarrow> w \<in> U) \<and> k w \<noteq> k v))"

lemma dfs_inv_step:
  assumes g: "dfs_graph A B U k pt0" and I: "dfs_inv A B U k pt0 idx ((v, r) # rest) pt"
  shows "dfs_inv A B U k pt0 idx (dfs_push (B v) r (pt[v := r]) @ dfs_push (A v) r (pt[v := r]) @ rest) (pt[v := r])"
proof -
  let ?pt = "pt[v := r]" and ?ps = "dfs_push (B v) r (pt[v := r]) @ dfs_push (A v) r (pt[v := r])"
  note i = I [unfolded dfs_inv_def]
  have v: "v \<in> U" "r = of_bool (k v)" "v < length pt" using i g by (auto simp: dfs_graph_def)
  have len: "length pt = length pt0" and out: "\<And>u. u \<notin> U \<Longrightarrow> pt ! u = pt0 ! u" using i by blast+
  have keep: "0 \<le> ?pt ! u" if "0 \<le> pt ! u" for u using that v by (cases "u = v") auto
  have at: "?pt ! v = r" using v(3) by simp
  have push: "0 \<le> ?pt ! w \<or> w \<in> fst ` set ?ps" if "w \<in> {A v, B v}" for w
  proof -
    have "?pt ! w < 0 \<Longrightarrow> (w, r XOR 1) \<in> set ?ps"
      using that by (cases "w = A v") (simp_all add: dfs_push_def)
    then show ?thesis by (metis fst_conv imageI not_less)
  qed
  have pushed: "u \<in> U \<and> s = of_bool (k u) \<and> ?pt ! u < 0" if "(u, s) \<in> set ?ps" for u s
  proof -
    have u: "u \<in> {A v, B v}" "s = r XOR 1" "?pt ! u < 0" using that by (auto simp: dfs_push_def split: if_splits)
    have c: "k u \<noteq> k v" "pt0 ! u < 0 \<longrightarrow> u \<in> U" using g v(1) u(1) by (auto simp: dfs_graph_def)
    have "u \<noteq> v" using u(3) at v(2) by (cases "k v") auto
    then have "pt ! u < 0" using u(3) by simp
    then have "u \<in> U" using out [of u] c(2) by fastforce
    then show ?thesis using u(2,3) c(1) v(2) by auto
  qed
  have colour: "\<forall>u\<in>U. 0 \<le> ?pt ! u \<longrightarrow> ?pt ! u = of_bool (k u)"
  proof (intro ballI impI)
    fix u assume "u \<in> U" "0 \<le> ?pt ! u"
    then show "?pt ! u = of_bool (k u)" using i v by (cases "u = v") auto
  qed
  have below: "\<forall>(u, s)\<in>set ((v, r) # rest). u \<in> U \<and> s = of_bool (k u)" using i by (elim conjE)
  have stack: "\<forall>(u, s)\<in>set (?ps @ rest). u \<in> U \<and> s = of_bool (k u)"
  proof (intro ballI)
    fix e assume "e \<in> set (?ps @ rest)"
    then consider "(fst e, snd e) \<in> set ?ps" | "e \<in> set rest" by (simp only: set_append prod.collapse) blast
    then show "case e of (u, s) \<Rightarrow> u \<in> U \<and> s = of_bool (k u)"
    proof cases
      case 1
      then show ?thesis using pushed [OF 1] by (simp add: case_prod_unfold)
    next
      case 2
      then show ?thesis using below by simp
    qed
  qed
  have closed: "\<forall>u\<in>U. 0 \<le> ?pt ! u \<longrightarrow> (\<forall>w\<in>{A u, B u}. 0 \<le> ?pt ! w \<or> w \<in> fst ` set (?ps @ rest))"
  proof (intro ballI impI)
    fix u w assume u: "u \<in> U" "0 \<le> ?pt ! u" "w \<in> {A u, B u}"
    show "0 \<le> ?pt ! w \<or> w \<in> fst ` set (?ps @ rest)"
    proof (cases "u = v")
      case True
      then show ?thesis using push u(3) by auto
    next
      case False
      then have "0 \<le> pt ! w \<or> w \<in> fst ` set ((v, r) # rest)" using i u by (metis nth_list_update_neq)
      then show ?thesis using keep [of w] at v(2) by auto
    qed
  qed
  have lifo: "\<forall>j<length (?ps @ rest). 0 \<le> ?pt ! fst ((?ps @ rest) ! j) \<longrightarrow>
      (\<forall>w\<in>{A (fst ((?ps @ rest) ! j)), B (fst ((?ps @ rest) ! j))}. 0 \<le> ?pt ! w \<or> w \<in> fst ` set (take j (?ps @ rest)))"
  proof (intro allI impI ballI)
    fix j w
    let ?u = "fst ((?ps @ rest) ! j)"
    assume j: "j < length (?ps @ rest)" "0 \<le> ?pt ! ?u" and w: "w \<in> {A ?u, B ?u}"
    have "\<not> j < length ?ps"
    proof
      assume lt: "j < length ?ps"
      then have "?ps ! j \<in> set ?ps" by (rule nth_mem)
      then have "?pt ! fst (?ps ! j) < 0" using pushed [of "fst (?ps ! j)" "snd (?ps ! j)"] by simp
      moreover have "(?ps @ rest) ! j = ?ps ! j" using lt by (subst nth_append) (simp only: if_True)
      ultimately show False using j(2) by simp
    qed
    then obtain d where d: "j = length ?ps + d" "d < length rest"
      using j(1) by (metis add_less_cancel_left le_add_diff_inverse length_append not_less)
    have "(?ps @ rest) ! j = rest ! d" unfolding d(1) by (rule nth_append_length_plus)
    then have u: "?u = fst (rest ! d)" "?u = fst (((v, r) # rest) ! Suc d)" by simp_all
    have tk: "set (take j (?ps @ rest)) = set ?ps \<union> set (take d rest)" by (simp add: d(1) Un_assoc)
    show "0 \<le> ?pt ! w \<or> w \<in> fst ` set (take j (?ps @ rest))"
    proof (cases "?u = v")
      case True
      then show ?thesis using push w tk by auto
    next
      case False
      then have "0 \<le> pt ! ?u" using j(2) by simp
      moreover have "Suc d < length ((v, r) # rest)" using d(2) by simp
      ultimately have "0 \<le> pt ! w \<or> w \<in> fst ` set (take (Suc d) ((v, r) # rest))" using i w unfolding u(2) by blast
      then show ?thesis using keep [of w] at v(2) tk by auto
    qed
  qed
  have "0 \<le> ?pt ! idx \<or> idx \<in> fst ` set (?ps @ rest)" using i keep [of idx] at v(2) by auto
  moreover have "\<forall>u. u \<notin> U \<longrightarrow> ?pt ! u = pt0 ! u" using out v(1) by (metis nth_list_update_neq)
  ultimately show ?thesis
    unfolding dfs_inv_def append_assoc [symmetric] using len colour stack closed lifo by simp
qed


lemma dfs_step_measure:
  assumes g: "dfs_graph A B U k pt0" and I: "dfs_inv A B U k pt0 idx ((v, r) # rest) pt"
  shows "3 * card {u \<in> U. pt[v := r] ! u < 0} + length (dfs_push (B v) r (pt[v := r]) @ dfs_push (A v) r (pt[v := r]) @ rest) <
    3 * card {u \<in> U. pt ! u < 0} + length ((v, r) # rest)"
proof -
  have v: "v \<in> U" "r = of_bool (k v)" "v < length pt" using I g by (auto simp: dfs_graph_def dfs_inv_def)
  have fin: "finite {u \<in> U. pt ! u < 0}" using g by (simp add: dfs_graph_def)
  have sub: "{u \<in> U. pt[v := r] ! u < 0} = {u \<in> U. pt ! u < 0} - {v}"
    using v by (auto simp: nth_list_update)
  show ?thesis
  proof (cases "pt ! v < 0")
    case True
    then have m: "v \<in> {u \<in> U. pt ! u < 0}" using v(1) by simp
    then have "0 < card {u \<in> U. pt ! u < 0}" using fin card_gt_0_iff by blast
    moreover have "card {u \<in> U. pt[v := r] ! u < 0} = card {u \<in> U. pt ! u < 0} - 1"
      unfolding sub by (rule card_Diff_singleton [OF m])
    moreover have "length (dfs_push (B v) r (pt[v := r])) \<le> 1" "length (dfs_push (A v) r (pt[v := r])) \<le> 1"
      by (simp_all add: dfs_push_def)
    ultimately show ?thesis by simp
  next
    case False
    have "\<forall>i<length ((v, r) # rest). 0 \<le> pt ! fst (((v, r) # rest) ! i) \<longrightarrow>
        (\<forall>w\<in>{A (fst (((v, r) # rest) ! i)), B (fst (((v, r) # rest) ! i))}. 0 \<le> pt ! w \<or> w \<in> fst ` set (take i ((v, r) # rest)))"
      using I unfolding dfs_inv_def by blast
    note H = this [THEN spec, THEN mp, THEN mp, THEN bspec, of 0]
    have w: "0 \<le> pt ! w" if "w = A v \<or> w = B v" for w
    proof -
      have "0 \<le> pt ! w \<or> w \<in> fst ` set (take 0 ((v, r) # rest))"
        by (rule H) (use False that in simp_all)
      then show ?thesis by simp
    qed
    have "k (A v) \<noteq> k v" "k (B v) \<noteq> k v" using g v(1) unfolding dfs_graph_def by blast+
    then have "A v \<noteq> v" "B v \<noteq> v" by metis+
    then have "dfs_push (B v) r (pt[v := r]) = []" "dfs_push (A v) r (pt[v := r]) = []"
      using w [of "A v"] w [of "B v"] by (simp_all add: dfs_push_def)
    moreover have "card {u \<in> U. pt[v := r] ! u < 0} \<le> card {u \<in> U. pt ! u < 0}"
      unfolding sub by (rule card_mono [OF fin]) blast
    ultimately show ?thesis by simp
  qed
qed

lemma DFS_loop_returns:
  assumes g: "dfs_graph partner (out_partner pm iv) U k pt0"
    and l: "\<forall>v\<in>U. v < length iv \<and> partner (iv ! v) < length pm"
    and I: "dfs_inv partner (out_partner pm iv) U k pt0 idx st pt"
  shows "\<exists>pt'. DFS_loop pm iv st pt = Some (Inr pt') \<and> dfs_inv partner (out_partner pm iv) U k pt0 idx [] pt'"
  using I
proof (induction "3 * card {u \<in> U. pt ! u < 0} + length st" arbitrary: st pt rule: less_induct)
  case less
  show ?case
  proof (cases st)
    case Nil
    then show ?thesis using less.prems by (simp add: DFS_loop.simps)
  next
    case (Cons e rest)
    obtain v r where e: "e = (v, r)" by (cases e)
    note I = less.prems [unfolded Cons e]
    have "v \<in> U" "length pt = length pt0" using I by (auto simp: dfs_inv_def)
    then have b: "v < length pt" "partner v < length pt" "v < length iv" "partner (iv ! v) < length pm" "out_partner pm iv v < length pt"
      using g l by (auto simp: dfs_graph_def)
    from less.hyps [OF dfs_step_measure [OF g I, folded Cons e] dfs_inv_step [OF g I]]
    show ?thesis by (simp add: Cons e DFS_loop.simps [of pm iv "(v, r) # rest"] DFS_step_run [OF b])
  qed
qed

text \<open>One search: it returns, and colours \<open>idx\<close> and all it can reach.\<close>

lemma DFS_returns:
  assumes g: "dfs_graph partner (out_partner pm iv) U k pt"
    and l: "\<forall>v\<in>U. v < length iv \<and> partner (iv ! v) < length pm" and idx: "idx \<in> U"
  shows "\<exists>pt'. DFS pm iv idx (of_bool (k idx)) pt = Inr pt' \<and> length pt' = length pt \<and> 0 \<le> pt' ! idx \<and>
    (\<forall>v. v \<notin> U \<longrightarrow> pt' ! v = pt ! v) \<and>
    (\<forall>v\<in>U. 0 \<le> pt' ! v \<longrightarrow> pt' ! v = of_bool (k v) \<and> 0 \<le> pt' ! partner v \<and> 0 \<le> pt' ! out_partner pm iv v)"
proof -
  have neg: "\<forall>v\<in>U. pt ! v < 0" using g by (simp add: dfs_graph_def)
  have "dfs_inv partner (out_partner pm iv) U k pt idx [(idx, of_bool (k idx))] pt"
    using neg idx by (auto simp: dfs_inv_def)
  from DFS_loop_returns [OF g l this] obtain pt'
    where "DFS_loop pm iv [(idx, of_bool (k idx))] pt = Some (Inr pt')" "dfs_inv partner (out_partner pm iv) U k pt idx [] pt'" by blast
  then show ?thesis by (intro exI [where x = pt']) (simp add: DFS_def dfs_inv_def)
qed


subsection \<open>The wires of a permutation\<close>

text \<open>
  \<open>pm\<close> and \<open>iv\<close> are inverse on the \<open>V\<close> wires. With an odd number of wires the last one is paired
  with a wire \<open>V\<close> that the permutation fixes and that has the colour 0.
\<close>

definition wire_perm :: "nat \<Rightarrow> nat list \<Rightarrow> nat list \<Rightarrow> bool" where
  "wire_perm V pm iv \<longleftrightarrow> V \<le> length pm \<and> V \<le> length iv \<and>
     (\<forall>v<V. pm ! v < V \<and> iv ! v < V \<and> pm ! (iv ! v) = v \<and> iv ! (pm ! v) = v)"

definition beyond :: "nat \<Rightarrow> nat list \<Rightarrow> nat \<Rightarrow> nat" where
  "beyond V xs v = (if v < V then xs ! v else v)"

definition exit_partner :: "nat \<Rightarrow> nat list \<Rightarrow> nat list \<Rightarrow> nat \<Rightarrow> nat" where
  "exit_partner V pm iv v = beyond V pm (partner (beyond V iv v))"

definition colour :: "nat \<Rightarrow> int list \<Rightarrow> nat \<Rightarrow> int" where
  "colour V pt v = (if v < V then pt ! v else 0)"

abbreviation wires :: "nat \<Rightarrow> nat" where
  "wires V \<equiv> V + V mod 2"

lemma partner_facts [simp]: "partner (partner v) = v" "partner v \<noteq> v"
  unfolding partner_def by presburger+

lemma partner_bound: "even n \<Longrightarrow> v < n \<Longrightarrow> partner v < n"
  unfolding partner_def by presburger

lemma wires_even [simp]: "even (wires V)"
  by presburger

lemma pairing_partner: "pairing {..<wires V} partner"
  using partner_bound [OF wires_even] by (auto simp: pairing_def)

lemma beyond_inverse:
  assumes "wire_perm V pm iv"
  shows "beyond V pm (beyond V iv v) = v" "beyond V iv (beyond V pm v) = v" "v < wires V \<Longrightarrow> beyond V pm v < wires V"
    "v < wires V \<Longrightarrow> beyond V iv v < wires V" "beyond V pm v < V \<longleftrightarrow> v < V" "beyond V iv v < V \<longleftrightarrow> v < V"
  using assms by (simp_all add: beyond_def wire_perm_def trans_less_add1)

lemma exit_facts:
  assumes "wire_perm V pm iv"
  shows "exit_partner V pm iv (exit_partner V pm iv v) = v" "exit_partner V pm iv v \<noteq> v"
    "v < wires V \<Longrightarrow> exit_partner V pm iv v < wires V"
proof -
  note b = beyond_inverse [OF assms]
  show "exit_partner V pm iv (exit_partner V pm iv v) = v" by (simp add: exit_partner_def b)
  show "exit_partner V pm iv v \<noteq> v" unfolding exit_partner_def using b partner_facts(2) by metis
  show "v < wires V \<Longrightarrow> exit_partner V pm iv v < wires V"
    unfolding exit_partner_def by (intro b partner_bound wires_even)
qed

lemma pairing_exit: "wire_perm V pm iv \<Longrightarrow> pairing {..<wires V} (exit_partner V pm iv)"
  using exit_facts by (simp add: pairing_def)

lemma wires_split: "v < wires V \<longleftrightarrow> v < V \<or> (odd V \<and> v = V)"
  by presburger

definition proper :: "nat \<Rightarrow> nat list \<Rightarrow> nat list \<Rightarrow> (nat \<Rightarrow> bool) \<Rightarrow> bool" where
  "proper V pm iv k \<longleftrightarrow> (\<forall>v<wires V. k (partner v) \<noteq> k v \<and> k (exit_partner V pm iv v) \<noteq> k v)"

lemma proper_exists:
  assumes "wire_perm V pm iv"
  shows "\<exists>k. proper V pm iv k \<and> k i = b"
proof -
  obtain c :: "nat \<Rightarrow> bool" where "\<forall>v\<in>{..<wires V}. c (partner v) \<noteq> c v \<and> c (exit_partner V pm iv v) \<noteq> c v"
    using two_colouring [OF _ pairing_partner pairing_exit [OF assms]] by blast
  then have "proper V pm iv c" "proper V pm iv (\<lambda>v. \<not> c v)" by (auto simp: proper_def)
  then show ?thesis by (cases "c i = b") auto
qed

lemma search_returns:
  assumes w: "wire_perm V pm iv" and l: "V \<le> length pt" and k: "proper V pm iv k"
    and n: "odd V \<Longrightarrow> 0 \<le> pt ! partner V \<and> 0 \<le> pt ! exit_partner V pm iv V"
    and i: "idx < V" "pt ! idx < 0" "\<not> k idx"
  shows "\<exists>pt'. DFS pm iv idx 0 pt = Inr pt' \<and> length pt' = length pt \<and> 0 \<le> pt' ! idx \<and>
    (\<forall>v. \<not> (v < V \<and> pt ! v < 0) \<longrightarrow> pt' ! v = pt ! v) \<and>
    (\<forall>v. v < V \<and> pt ! v < 0 \<longrightarrow> partner v < V \<and> exit_partner V pm iv v < V \<and>
       (0 \<le> pt' ! v \<longrightarrow> pt' ! v = of_bool (k v) \<and> 0 \<le> pt' ! partner v \<and> 0 \<le> pt' ! exit_partner V pm iv v))"
proof -
  let ?U = "{v. v < V \<and> pt ! v < 0}" and ?B = "exit_partner V pm iv"
  have inside: "partner v < V" "?B v < V" if "v \<in> ?U" for v
  proof -
    have v: "v < wires V" "v < V" "pt ! v < 0" using that by auto
    show "partner v < V"
    proof (rule ccontr)
      assume "\<not> partner v < V"
      then have "odd V" "partner v = V" using partner_bound [OF wires_even v(1)] wires_split by blast+
      then show False using n v(3) by (metis partner_facts(1) not_less)
    qed
    show "?B v < V"
    proof (rule ccontr)
      assume "\<not> ?B v < V"
      then have "odd V" "?B v = V" using exit_facts(3) [OF w v(1)] wires_split by blast+
      then show False using n v(3) exit_facts(1) [OF w, of v] by (metis not_less)
    qed
  qed
  have op: "partner (iv ! v) < V" "out_partner pm iv v = ?B v" if "v \<in> ?U" for v
    using inside(2) [OF that] that beyond_inverse(5) [OF w, of "partner (iv ! v)"]
    by (simp_all add: exit_partner_def beyond_def out_partner_def split: if_splits)
  have "dfs_graph partner (out_partner pm iv) ?U k pt"
    unfolding dfs_graph_def
  proof (intro conjI ballI)
    fix v u assume v: "v \<in> ?U" and u: "u \<in> {partner v, out_partner pm iv v}"
    then have "u < V" using inside [OF v] op [OF v] by auto
    then show "u < length pt" "pt ! u < 0 \<longrightarrow> u \<in> ?U" using l by auto
    show "k u \<noteq> k v" using k v u op(2) [OF v] by (auto simp: proper_def)
  qed (use l in auto)
  moreover have "\<forall>v\<in>?U. v < length iv \<and> partner (iv ! v) < length pm"
    using w op(1) by (fastforce simp: wire_perm_def)
  ultimately show ?thesis
    using DFS_returns [of pm iv ?U k pt idx] i inside op by auto
qed


subsection \<open>All the wires\<close>

text \<open>The colouring part of \<open>gen_benes_route\<close>: the two ends of the odd wire first, then every wire left.\<close>

definition colour_odd :: "nat \<Rightarrow> nat list \<Rightarrow> nat list \<Rightarrow> int list \<Rightarrow> int list result" where
  "colour_odd values pm iv pt =
     bindE (vec_set pt (values - 1) 1) (\<lambda>pt1. bindE (vec_at pm (values - 1)) (\<lambda>e.
     bindE (vec_set pt1 e 1) (\<lambda>pt2.
     if e \<noteq> values - 1
     then bindE (vec_at iv (values - 1)) (\<lambda>x. bindE (vec_at pm (partner x)) (\<lambda>idx. DFS pm iv idx 0 pt2))
     else Inr pt2)))"

definition colour_wires :: "nat \<Rightarrow> nat list \<Rightarrow> nat list \<Rightarrow> int list \<Rightarrow> int list result" where
  "colour_wires values pm iv pt =
     (let pt0 = replicate (length pt) (- 1) in
      bindE (if odd values then colour_odd values pm iv pt0 else Inr pt0)
        (foldE (\<lambda>i pt. bindE (vec_at pt i) (\<lambda>c. if c < 0 then DFS pm iv i 0 pt else Inr pt)) [0..<values]))"

text \<open>A wire with a colour has both partners in the other colour.\<close>

definition coloured :: "nat \<Rightarrow> nat list \<Rightarrow> nat list \<Rightarrow> int list \<Rightarrow> bool" where
  "coloured V pm iv pt \<longleftrightarrow> (\<forall>v<wires V. 0 \<le> colour V pt v \<longrightarrow> colour V pt v \<in> {0, 1} \<and>
     colour V pt (partner v) = 1 - colour V pt v \<and> colour V pt (exit_partner V pm iv v) = 1 - colour V pt v)"

lemma coloured_search:
  assumes w: "wire_perm V pm iv" and l: "V \<le> length pt" and c: "coloured V pm iv pt" and i: "i < V" "pt ! i < 0"
  shows "\<exists>pt'. DFS pm iv i 0 pt = Inr pt' \<and> length pt' = length pt \<and> coloured V pm iv pt' \<and> 0 \<le> pt' ! i \<and>
    (\<forall>v<V. 0 \<le> pt ! v \<longrightarrow> pt' ! v = pt ! v)"
proof -
  let ?B = "exit_partner V pm iv"
  obtain k where k: "proper V pm iv k" "\<not> k i" using proper_exists [OF w, of i False] by auto
  have n: "0 \<le> pt ! partner V \<and> 0 \<le> pt ! ?B V" if "odd V"
  proof -
    have V: "V < wires V" using that wires_split [of V V] by blast
    have "colour V pt V = 0" by (simp add: colour_def)
    then have "colour V pt (partner V) = 1" "colour V pt (?B V) = 1" using c V by (simp_all add: coloured_def)
    then show ?thesis by (auto simp: colour_def split: if_splits)
  qed
  from search_returns [OF w l k(1) n i k(2)] obtain pt' where D: "DFS pm iv i 0 pt = Inr pt'" "length pt' = length pt" "0 \<le> pt' ! i"
    and old: "\<And>v. \<not> (v < V \<and> pt ! v < 0) \<Longrightarrow> pt' ! v = pt ! v"
    and new: "\<And>v. v < V \<Longrightarrow> pt ! v < 0 \<Longrightarrow> partner v < V \<and> ?B v < V \<and>
       (0 \<le> pt' ! v \<longrightarrow> pt' ! v = of_bool (k v) \<and> 0 \<le> pt' ! partner v \<and> 0 \<le> pt' ! ?B v)" by blast
  have keep: "colour V pt' v = colour V pt v" if "0 \<le> colour V pt v" for v
    using that old [of v] by (simp add: colour_def split: if_splits)
  have fresh: "pt ! u < 0" if "v < V" "pt ! v < 0" "u = partner v \<or> u = ?B v" for u v
  proof (rule ccontr)
    assume "\<not> pt ! u < 0"
    moreover have u: "u < V" "v = partner u \<or> v = ?B u" using new [OF that(1,2)] that(3) exit_facts(1) [OF w] by auto
    ultimately have U: "u < wires V" "0 \<le> colour V pt u" by (simp_all add: colour_def)
    then have "colour V pt u \<in> {0, 1} \<and> colour V pt (partner u) = 1 - colour V pt u \<and> colour V pt (?B u) = 1 - colour V pt u"
      using c unfolding coloured_def by blast
    then have "0 \<le> colour V pt v" using u(2) by auto
    then show False using that(1,2) by (simp add: colour_def)
  qed
  have "coloured V pm iv pt'"
    unfolding coloured_def
  proof (intro allI impI)
    fix v assume v: "v < wires V" and s: "0 \<le> colour V pt' v"
    show "colour V pt' v \<in> {0, 1} \<and> colour V pt' (partner v) = 1 - colour V pt' v \<and> colour V pt' (?B v) = 1 - colour V pt' v"
    proof (cases "v < V \<and> pt ! v < 0")
      case True
      then have N: "partner v < V" "?B v < V" "pt' ! v = of_bool (k v)" "0 \<le> pt' ! partner v" "0 \<le> pt' ! ?B v"
        using new [of v] s by (auto simp: colour_def)
      have "pt' ! partner v = of_bool (k (partner v))" "pt' ! ?B v = of_bool (k (?B v))"
        using new [of "partner v"] new [of "?B v"] fresh [of v] True N by auto
      then show ?thesis using N True k(1) v by (auto simp: colour_def proper_def)
    next
      case False
      then have e: "0 \<le> colour V pt v" "colour V pt' v = colour V pt v" using s old [of v] by (auto simp: colour_def)
      have p: "colour V pt v \<in> {0, 1}" "colour V pt (partner v) = 1 - colour V pt v" "colour V pt (?B v) = 1 - colour V pt v"
        using c v e(1) unfolding coloured_def by blast+
      then show ?thesis using e(2) keep [of "partner v"] keep [of "?B v"] by auto
    qed
  qed
  then show ?thesis using D old by (intro exI [where x = pt']) auto
qed


text \<open>The ends of the odd wire: the first search reaches one from the other, as nothing else fits the parity.\<close>

lemma odd_ends_meet:
  assumes w: "wire_perm V pm iv" and o: "odd V" and e: "pm ! (V - 1) \<noteq> V - 1"
    and X: "X \<subseteq> {..<V} - {V - 1, pm ! (V - 1)}" "exit_partner V pm iv (V - 1) \<in> X"
    and A: "\<And>v. v \<in> X \<Longrightarrow> partner v \<in> X \<union> {V - 1, pm ! (V - 1)}"
    and B: "\<And>v. v \<in> X \<Longrightarrow> exit_partner V pm iv v \<in> X \<union> {V - 1, pm ! (V - 1)}"
  shows "partner (pm ! (V - 1)) \<in> X"
proof (rule ccontr)
  let ?B = "exit_partner V pm iv" and ?a = "V - 1" and ?b = "pm ! (V - 1)"
  assume n: "partner ?b \<notin> X"
  have V: "0 < V" using o by (cases V) auto
  have b: "?b < V" "iv ! ?b = ?a" using w V by (auto simp: wire_perm_def)
  have aV: "partner ?a = V" "partner V = ?a" using o V by (simp_all add: partner_def)
  have BV: "?B V = ?b" "?B ?b = V" using aV b V by (simp_all add: exit_partner_def beyond_def)
  have fin: "finite X" "V \<notin> X" "?a \<notin> X" "?b \<notin> X" using X(1) finite_subset by auto
  have BX: "?B v \<in> X \<union> {?a}" if "v \<in> X" for v
    using B [OF that] exit_facts(1) [OF w, of v] BV(2) that fin(2) by auto
  have "pairing (X \<union> {?a, V}) partner"
    unfolding pairing_def
  proof (intro ballI conjI partner_facts)
    fix v assume v: "v \<in> X \<union> {?a, V}"
    have "partner v \<in> X" if "v \<in> X"
    proof -
      have "partner v \<noteq> ?a" "partner v \<noteq> ?b" using that n fin(2) aV(1) partner_facts(1) [of v] by metis+
      then show ?thesis using A [OF that] by auto
    qed
    then show "partner v \<in> X \<union> {?a, V}" using v aV by auto
  qed
  then have "even (card (X \<union> {?a, V}))" using fin(1) by (intro pairing_even) simp_all
  moreover have "pairing (X \<union> {?a, ?b, V}) ?B"
    unfolding pairing_def
  proof (intro ballI conjI exit_facts [OF w])
    fix v assume "v \<in> X \<union> {?a, ?b, V}"
    then show "?B v \<in> X \<union> {?a, ?b, V}" using BX [of v] BV X(2) by auto
  qed
  then have "even (card (X \<union> {?a, ?b, V}))" using fin(1) by (intro pairing_even) simp_all
  moreover have "card (X \<union> {?a, V}) = card X + 2" "card (X \<union> {?a, ?b, V}) = card X + 3"
    using fin V e b(1) by (simp_all add: Un_commute [of X])
  ultimately show False by simp
qed

lemma coloured_odd:
  assumes w: "wire_perm V pm iv" and l: "V \<le> length pt" and o: "odd V" and neg: "\<forall>v<length pt. pt ! v < 0"
  shows "\<exists>pt'. colour_odd V pm iv pt = Inr pt' \<and> length pt' = length pt \<and> coloured V pm iv pt'"
proof -
  let ?B = "exit_partner V pm iv" and ?a = "V - 1" and ?b = "pm ! (V - 1)"
  let ?pt = "pt[?a := 1, ?b := 1]"
  have V: "0 < V" using o by (cases V) auto
  have b: "?b < V" "iv ! ?b = ?a" "iv ! ?a < V" "pm ! (iv ! ?a) = ?a" using w V by (simp_all add: wire_perm_def)
  have wl: "V \<le> length pm" "V \<le> length iv" using w by (simp_all add: wire_perm_def)
  have bl: "?a < length pt" "?b < length pt" "?a < length pm" "?a < length iv" using wl V l b(1) by linarith+
  have aV: "partner ?a = V" "partner V = ?a" using o V by (simp_all add: partner_def)
  have BV: "?B V = ?b" "?B ?b = V" using aV b V by (simp_all add: exit_partner_def beyond_def)
  have at: "?pt ! ?a = 1" "?pt ! ?b = 1" using bl by (simp_all add: nth_list_update)
  have off: "?pt ! v < 0" if "v < V" "v \<noteq> ?a" "v \<noteq> ?b" for v using neg that l by simp
  show ?thesis
  proof (cases "?b = ?a")
    case True
    have "coloured V pm iv ?pt"
      unfolding coloured_def
    proof (intro allI impI)
      fix v assume v: "v < wires V" "0 \<le> colour V ?pt v"
      have "v = ?a" if "v < V"
      proof (rule ccontr)
        assume n: "v \<noteq> ?a"
        then have "?pt ! v < 0" using off [OF that] True by simp
        then show False using v(2) that by (simp add: colour_def)
      qed
      then have "v = ?a \<or> v = V" using v(1) wires_split [of v V] by blast
      then show "colour V ?pt v \<in> {0, 1} \<and> colour V ?pt (partner v) = 1 - colour V ?pt v \<and>
          colour V ?pt (?B v) = 1 - colour V ?pt v"
        using aV BV True at V by (auto simp: colour_def)
    qed
    then show ?thesis using True bl by (intro exI [where x = ?pt]) (simp add: colour_odd_def)
  next
    case False
    let ?idx = "pm ! partner (iv ! ?a)"
    have ia: "iv ! ?a \<noteq> ?a" using b(4) False by metis
    have V': "V < wires V" "?a < wires V" "?b < wires V" "iv ! ?a < wires V"
      using o V b wires_split [of V V] by (blast, simp_all add: trans_less_add1)
    have "partner (iv ! ?a) \<noteq> V" using aV(2) ia partner_facts(1) by metis
    then have pa: "partner (iv ! ?a) < V" using partner_bound [OF wires_even V'(4)] wires_split [of "partner (iv ! ?a)" V] by blast
    then have idx: "?idx = ?B ?a" "?idx < V" using b(3) V w by (simp_all add: exit_partner_def beyond_def wire_perm_def)
    have "?B ?a \<noteq> ?b" using exit_facts(1) [OF w, of ?a] BV(2) V by auto
    then have idn: "?pt ! ?idx < 0" using off [OF idx(2)] exit_facts(2) [OF w, of ?a] idx(1) by auto
    obtain k where k: "proper V pm iv k" "\<not> k V" using proper_exists [OF w, of V False] by auto
    have kab: "k ?a" "k ?b" using k V'(1) aV(2) BV(1) unfolding proper_def by metis+
    then have ki: "\<not> k ?idx" using k V'(2) idx(1) unfolding proper_def by metis
    have n: "0 \<le> ?pt ! partner V \<and> 0 \<le> ?pt ! ?B V" using at aV BV by simp
    have lp: "V \<le> length ?pt" using l by simp
    from search_returns [OF w lp k(1) n idx(2) idn ki] obtain pt' where
      D: "DFS pm iv ?idx 0 ?pt = Inr pt'" "length pt' = length ?pt" "0 \<le> pt' ! ?idx"
      and old: "\<And>v. \<not> (v < V \<and> ?pt ! v < 0) \<Longrightarrow> pt' ! v = ?pt ! v"
      and new: "\<And>v. v < V \<Longrightarrow> ?pt ! v < 0 \<Longrightarrow> partner v < V \<and> ?B v < V \<and>
         (0 \<le> pt' ! v \<longrightarrow> pt' ! v = of_bool (k v) \<and> 0 \<le> pt' ! partner v \<and> 0 \<le> pt' ! ?B v)" by blast
    define X where "X = {v. v < V \<and> ?pt ! v < 0 \<and> 0 \<le> pt' ! v}"
    have ends: "u \<in> X \<union> {?a, ?b}" if "u < V" "0 \<le> pt' ! u" for u
    proof (cases "u = ?a \<or> u = ?b")
      case outer: False
      then have "?pt ! u < 0" using off [OF that(1)] by blast
      then have "u \<in> X" unfolding X_def using that by (simp only: mem_Collect_eq simp_thms)
      then show ?thesis by blast
    qed blast
    have meet: "partner ?b \<in> X"
    proof (rule odd_ends_meet [OF w o False])
      show "X \<subseteq> {..<V} - {?a, ?b}" using at by (auto simp: X_def)
      show "?B ?a \<in> X" using idx idn D(3) by (simp add: X_def)
      show "partner v \<in> X \<union> {?a, ?b}" "?B v \<in> X \<union> {?a, ?b}" if "v \<in> X" for v
        using that new [of v] ends [of "partner v"] ends [of "?B v"] by (simp_all add: X_def)
    qed
    have kX: "pt' ! v = of_bool (k v)" if "v \<in> X" for v using that new [of v] by (simp add: X_def)
    have ab: "pt' ! ?a = 1" "pt' ! ?b = 1" using at old [of ?a] old [of ?b] by simp_all
    have all: "colour V pt' v = of_bool (k v)" if "v = V \<or> v \<in> X \<union> {?a, ?b}" for v
      using that kX [of v] ab kab k(2) V b(1) by (auto simp: colour_def X_def)
    have nb: "colour V pt' (partner v) = of_bool (k (partner v)) \<and> colour V pt' (?B v) = of_bool (k (?B v))"
      if "v = V \<or> v \<in> X \<union> {?a, ?b}" for v
    proof -
      have "partner v \<in> X \<union> {?a, ?b} \<and> ?B v \<in> X \<union> {?a, ?b}" if "v \<in> X"
        using that new [of v] ends [of "partner v"] ends [of "?B v"] by (simp add: X_def)
      moreover have "?B ?a \<in> X" using idx idn D(3) by (simp add: X_def)
      ultimately show ?thesis using that meet aV BV all [of "partner v"] all [of "?B v"] by auto
    qed
    have "coloured V pm iv pt'"
      unfolding coloured_def
    proof (intro allI impI)
      fix v assume v: "v < wires V" "0 \<le> colour V pt' v"
      then have m: "v = V \<or> v \<in> X \<union> {?a, ?b}" using ends [of v] wires_split [of v V] by (auto simp: colour_def)
      show "colour V pt' v \<in> {0, 1} \<and> colour V pt' (partner v) = 1 - colour V pt' v \<and>
          colour V pt' (?B v) = 1 - colour V pt' v"
        using all [OF m] nb [OF m] k(1) v(1) by (auto simp: proper_def)
    qed
    moreover have "colour_odd V pm iv pt = Inr pt'"
    proof -
      have "partner (iv ! ?a) < length pm" using pa w by (simp add: wire_perm_def)
      then show ?thesis using False bl D(1) by (simp add: colour_odd_def)
    qed
    ultimately show ?thesis using D(2) by auto
  qed
qed


lemma colour_wires_returns:
  assumes w: "wire_perm V pm iv" and l: "V \<le> length pt"
  shows "\<exists>pt'. colour_wires V pm iv pt = Inr pt' \<and> length pt' = length pt \<and> coloured V pm iv pt' \<and> (\<forall>v<V. 0 \<le> pt' ! v)"
proof -
  let ?pt0 = "replicate (length pt) (- 1 :: int)"
  have "\<exists>pt1. (if odd V then colour_odd V pm iv ?pt0 else Inr ?pt0) = Inr pt1 \<and> length pt1 = length pt \<and> coloured V pm iv pt1"
  proof (cases "odd V")
    case True
    then show ?thesis using coloured_odd [OF w, of ?pt0] l by simp
  next
    case False
    then have "coloured V pm iv ?pt0" using l wires_split [of _ V] by (auto simp: coloured_def colour_def)
    then show ?thesis using False by simp
  qed
  then obtain pt1 where 1: "(if odd V then colour_odd V pm iv ?pt0 else Inr ?pt0) = Inr pt1"
    "length pt1 = length pt" "coloured V pm iv pt1" by blast
  have "\<exists>pt'. foldE (\<lambda>i pt. bindE (vec_at pt i) (\<lambda>c. if c < 0 then DFS pm iv i 0 pt else Inr pt)) [0..<j] pt1 = Inr pt' \<and>
      length pt' = length pt \<and> coloured V pm iv pt' \<and> (\<forall>v<j. 0 \<le> pt' ! v)" if "j \<le> V" for j
    using that
  proof (induction j)
    case 0
    then show ?case using 1 by simp
  next
    case (Suc j)
    then obtain pt' where f: "foldE (\<lambda>i pt. bindE (vec_at pt i) (\<lambda>c. if c < 0 then DFS pm iv i 0 pt else Inr pt)) [0..<j] pt1 = Inr pt'"
      and p: "length pt' = length pt" "coloured V pm iv pt'" "\<forall>v<j. 0 \<le> pt' ! v" by auto
    have j: "j < V" "j < length pt'" "V \<le> length pt'" using Suc.prems l p(1) by simp_all
    show ?case
    proof (cases "pt' ! j < 0")
      case True
      from coloured_search [OF w j(3) p(2) j(1) True] obtain pt2 where "DFS pm iv j 0 pt' = Inr pt2" "length pt2 = length pt'"
        "coloured V pm iv pt2" "0 \<le> pt2 ! j" "\<forall>v<V. 0 \<le> pt' ! v \<longrightarrow> pt2 ! v = pt' ! v" by blast
      then show ?thesis
        using f p j True by (intro exI [where x = pt2]) (auto simp: foldE_append less_Suc_eq)
    next
      case False
      then show ?thesis
        using f p j by (intro exI [where x = pt']) (auto simp: foldE_append less_Suc_eq)
    qed
  qed
  from this [OF order_refl] show ?thesis using 1(1) by (simp add: colour_wires_def Let_def)
qed

text \<open>What the switches of the two outer layers are read from.\<close>

definition two_sided :: "nat \<Rightarrow> nat list \<Rightarrow> int list \<Rightarrow> bool" where
  "two_sided V pm pt \<longleftrightarrow> (\<forall>v<V. pt ! v \<in> {0, 1}) \<and>
     (\<forall>q<V div 2. pt ! (2 * q + 1) = 1 - pt ! (2 * q) \<and> pt ! (pm ! (2 * q + 1)) = 1 - pt ! (pm ! (2 * q))) \<and>
     (odd V \<longrightarrow> pt ! (V - 1) = 1 \<and> pt ! (pm ! (V - 1)) = 1)"

lemma coloured_two_sided:
  assumes w: "wire_perm V pm iv" and c: "coloured V pm iv pt" and a: "\<forall>v<V. 0 \<le> pt ! v"
  shows "two_sided V pm pt"
proof -
  have C: "pt ! v \<in> {0, 1} \<and> colour V pt (partner v) = 1 - pt ! v \<and> colour V pt (exit_partner V pm iv v) = 1 - pt ! v"
    if "v < V" for v
  proof -
    have "v < wires V" "0 \<le> colour V pt v" "colour V pt v = pt ! v" using that a by (simp_all add: colour_def)
    then show ?thesis using c unfolding coloured_def by (metis insert_iff singletonD insertI1)
  qed
  have "pt ! (2 * q + 1) = 1 - pt ! (2 * q) \<and> pt ! (pm ! (2 * q + 1)) = 1 - pt ! (pm ! (2 * q))" if "q < V div 2" for q
  proof -
    have q: "2 * q < V" "2 * q + 1 < V" using that by linarith+
    have "exit_partner V pm iv (pm ! (2 * q)) = pm ! (2 * q + 1)" "pm ! (2 * q) < V" "pm ! (2 * q + 1) < V"
      using q w by (simp_all add: exit_partner_def beyond_def wire_perm_def partner_def)
    then show ?thesis using C [of "2 * q"] C [of "pm ! (2 * q)"] q by (simp add: partner_def colour_def)
  qed
  moreover have "pt ! (V - 1) = 1 \<and> pt ! (pm ! (V - 1)) = 1" if o: "odd V"
  proof -
    have V: "0 < V" using o by (cases V) auto
    have b: "pm ! (V - 1) < V" "iv ! (pm ! (V - 1)) = V - 1" using w V by (simp_all add: wire_perm_def)
    have aV: "partner (V - 1) = V" using o V by (simp add: partner_def)
    have "exit_partner V pm iv (pm ! (V - 1)) = V" using aV b by (simp add: exit_partner_def beyond_def)
    then show ?thesis using C [of "V - 1"] C [of "pm ! (V - 1)"] V b(1) aV by (simp add: colour_def)
  qed
  ultimately show ?thesis using C by (simp add: two_sided_def)
qed


text \<open>C23: The search over the wires of a permutation always ends, and leaves every wire with a
  colour that differs from the colour of the other wire of its input pair and of its output pair; with an odd
  number of wires both ends of the last one have the colour 1.\<close>

theorem colour_wires_total:
  assumes "wire_perm V pm iv" "V \<le> length pt"
  shows "returns (colour_wires V pm iv pt) (\<lambda>pt'. length pt' = length pt \<and> two_sided V pm pt')"
  using colour_wires_returns [OF assms] coloured_two_sided [OF assms(1)] by (auto simp: returns_def)

theorem colour_wires_total_witness:
  "returns (colour_wires 5 [2, 4, 1, 0, 3] [3, 2, 0, 4, 1] (replicate 6 0)) (\<lambda>pt'. two_sided 5 [2, 4, 1, 0, 3] pt')"
proof -
  have "wire_perm 5 [2, 4, 1, 0, 3] [3, 2, 0, 4, 1]"
    by (auto simp: wire_perm_def less_Suc_eq numeral_nat)
  from colour_wires_total [OF this, of "replicate 6 0"] show ?thesis by (auto elim: returns_mono)
qed

end
