(* ===== verification/Benes_Route.thy ===== *)
theory Benes_Route
  imports Benes_Colour
begin

text \<open>
  The routing of a permutation through the Benes network (\<open>gen_benes_route\<close> in
  \<open>volePSI/osn/benes.cpp\<close>): it returns, it writes the switches of its own part of the table only, and
  the network with these switches takes \<open>src\<close> to \<open>dest\<close>.
\<close>

subsection \<open>The routing\<close>

definition route_two :: "nat \<Rightarrow> nat \<Rightarrow> nat \<Rightarrow> nat list \<Rightarrow> nat list \<Rightarrow> int list list \<Rightarrow> int list list result" where
  "route_two n l p src dest sw =
     bindE (vec_at dest 0) (\<lambda>d. set2 sw (if n = 1 then l else l + 1) p (of_bool (src ! 0 \<noteq> d)))"

definition route_three :: "nat \<Rightarrow> nat \<Rightarrow> nat list \<Rightarrow> nat list \<Rightarrow> int list list \<Rightarrow> int list list result" where
  "route_three l p src dest sw =
     bindE (vec_at dest 0) (\<lambda>d0. bindE (vec_at dest 1) (\<lambda>d1. bindE (vec_at dest 2) (\<lambda>d2.
     bindE (if src ! 0 = d0
            then bindE (set2 sw l p 0) (\<lambda>sw. bindE (set2 sw (l + 2) p 0) (\<lambda>sw. set2 sw (l + 1) p (of_bool (src ! 1 \<noteq> d1))))
            else Inr sw) (\<lambda>sw.
     bindE (if src ! 0 = d1
            then bindE (set2 sw l p 0) (\<lambda>sw. bindE (set2 sw (l + 2) p 1) (\<lambda>sw. set2 sw (l + 1) p (of_bool (src ! 1 \<noteq> d0))))
            else Inr sw) (\<lambda>sw.
     if src ! 0 = d2
     then bindE (set2 sw l p 1) (\<lambda>sw. bindE (set2 sw (l + 1) p 1) (\<lambda>sw. set2 sw (l + 2) p (of_bool (src ! 1 \<noteq> d0))))
     else Inr sw)))))"

text \<open>The permutation of the wires, its inverse, and their colours.\<close>

definition invert :: "nat list \<Rightarrow> nat \<Rightarrow> nat list \<Rightarrow> nat list result" where
  "invert xs k = foldE (\<lambda>i iv. bindE (vec_at xs i) (\<lambda>x. vec_set iv x i)) [0..<k]"

definition route_wires :: "nat list \<Rightarrow> nat list \<Rightarrow> Benes \<Rightarrow> Benes result" where
  "route_wires src dest b =
     (let values = length src in
      bindE (invert src values (inv_perm b)) (\<lambda>iv.
      bindE (foldE (\<lambda>i pm. bindE (vec_at dest i) (\<lambda>d. bindE (vec_at iv d) (\<lambda>x. vec_set pm i x))) [0..<values] (perm b)) (\<lambda>pm.
      bindE (invert pm values iv) (\<lambda>iv2.
      bindE (colour_wires values pm iv2 (path b)) (\<lambda>pt.
      Inr (b\<lparr>perm := pm, inv_perm := iv2, path := pt\<rparr>))))))"

definition route_in ::
  "nat \<Rightarrow> nat \<Rightarrow> nat \<Rightarrow> nat list \<Rightarrow> int list \<Rightarrow> nat \<Rightarrow> int list list \<times> nat list \<times> nat list \<Rightarrow>
     (int list list \<times> nat list \<times> nat list) result" where
  "route_in n row p src pt q = (\<lambda>(sw, halves).
     bindE (vec_at pt (2 * q)) (\<lambda>s. bindE (set2 sw row (p + q) s) (\<lambda>sw'.
     bindE (split_pair n (length src) src q s halves) (\<lambda>halves'. Inr (sw', halves')))))"

definition collect_pair ::
  "nat \<Rightarrow> nat list \<Rightarrow> nat list \<Rightarrow> nat \<Rightarrow> int \<Rightarrow> nat list \<times> nat list \<Rightarrow> (nat list \<times> nat list) result" where
  "collect_pair n src pm q s =
     foldE (\<lambda>j (bots, tops).
         let x = shuffle ((2 * int q + int j) XOR s) n in
         throw_if (x < 0) OutOfBounds
           (bindE (vec_at pm (2 * q + j)) (\<lambda>i. bindE (vec_at src i) (\<lambda>v.
            if x < int (length src div 2) then bindE (vec_set bots (nat x) v) (\<lambda>bots'. Inr (bots', tops))
            else bindE (vec_set tops q v) (\<lambda>tops'. Inr (bots, tops')))))) [0, 1]"

definition route_out ::
  "nat \<Rightarrow> nat \<Rightarrow> nat \<Rightarrow> nat list \<Rightarrow> nat list \<Rightarrow> int list \<Rightarrow> nat \<Rightarrow> int list list \<times> nat list \<times> nat list \<Rightarrow>
     (int list list \<times> nat list \<times> nat list) result" where
  "route_out n row p src pm pt q = (\<lambda>(sw, halves).
     bindE (vec_at pm (2 * q)) (\<lambda>i. bindE (vec_at pt i) (\<lambda>s. bindE (set2 sw row (p + q) s) (\<lambda>sw'.
     bindE (collect_pair n src pm q s halves) (\<lambda>halves'. Inr (sw', halves'))))))"

definition put_last :: "nat list \<Rightarrow> nat \<Rightarrow> nat list \<Rightarrow> nat list result" where
  "put_last dest values tops =
     (if odd values then bindE (vec_at dest (values - 1)) (\<lambda>v. vec_set tops ((values + 1) div 2 - 1) v) else Inr tops)"

fun gen_benes_route :: "nat \<Rightarrow> nat \<Rightarrow> nat \<Rightarrow> nat list \<Rightarrow> nat list \<Rightarrow> Benes \<Rightarrow> Benes result" where
  "gen_benes_route n lvl_p perm_idx src dest b =
     (let values = length src in
      if values = 2 then
        bindE (route_two n lvl_p perm_idx src dest (switched b)) (\<lambda>sw. Inr (b\<lparr>switched := sw\<rparr>))
      else if values = 3 then
        bindE (route_three lvl_p perm_idx src dest (switched b)) (\<lambda>sw. Inr (b\<lparr>switched := sw\<rparr>))
      else case n of 0 \<Rightarrow> no_level values
      | Suc m \<Rightarrow>
          bindE (route_wires src dest b) (\<lambda>b1.
          bindE (foldE (route_in n lvl_p perm_idx src (path b1)) [0..<values div 2] (switched b1, [], [])) (\<lambda>(sw1, bottom1, top0).
          bindE (push_last src top0) (\<lambda>top1.
          bindE (foldE (route_out n (lvl_p + (2 * n - 1) - 1) perm_idx src (perm b1) (path b1)) [0..<values div 2]
              (sw1, replicate (values div 2) 0, replicate ((values + 1) div 2) 0)) (\<lambda>(sw2, bottom2, top2a).
          bindE (put_last dest values top2a) (\<lambda>top2.
          bindE (gen_benes_route m (lvl_p + 1) perm_idx bottom1 bottom2 (b1\<lparr>switched := sw2\<rparr>)) (\<lambda>b2.
          gen_benes_route m (lvl_p + 1) (perm_idx + values div 4) top1 top2 b2)))))))"

declare gen_benes_route.simps [simp del]

subsection \<open>The wires\<close>

lemma invert_returns:
  assumes "k \<le> length xs" "inj_on ((!) xs) {..<k}" "\<And>i. i < k \<Longrightarrow> xs ! i < length iv"
  shows "\<exists>iv'. invert xs k iv = Inr iv' \<and> length iv' = length iv \<and> (\<forall>i<k. iv' ! (xs ! i) = i)"
  using assms
proof (induction k)
  case 0
  then show ?case by (simp add: invert_def)
next
  case (Suc k)
  have "inj_on ((!) xs) {..<k}" by (rule inj_on_subset [OF Suc.prems(2)]) auto
  then obtain iv' where iv: "invert xs k iv = Inr iv'" "length iv' = length iv" "\<forall>i<k. iv' ! (xs ! i) = i"
    using Suc by auto
  have "xs ! k < length iv'" "k < length xs" using Suc.prems iv(2) by simp_all
  then have "invert xs (Suc k) iv = Inr (iv'[xs ! k := k])" using iv(1) by (simp add: invert_def foldE_append)
  moreover have "iv'[xs ! k := k] ! (xs ! i) = i" if "i < Suc k" for i
  proof (cases "i = k")
    case True
    then show ?thesis using \<open>xs ! k < length iv'\<close> by simp
  next
    case False
    then have "xs ! i \<noteq> xs ! k" using Suc.prems(2) that by (auto simp: inj_on_def)
    then show ?thesis using iv(3) that False by simp
  qed
  ultimately show ?case using iv(2) by simp
qed

lemma route_wires_returns:
  assumes "distinct src" "distinct dest" "set dest = set src" "length dest = length src"
    and "\<forall>x\<in>set src. x < length (inv_perm b)" "length src \<le> length (inv_perm b)" "length src \<le> length (perm b)" "length src \<le> length (path b)"
  shows "\<exists>pm iv pt. route_wires src dest b = Inr (b\<lparr>perm := pm, inv_perm := iv, path := pt\<rparr>) \<and>
    length pm = length (perm b) \<and> length iv = length (inv_perm b) \<and> length pt = length (path b) \<and>
    wire_perm (length src) pm iv \<and> (\<forall>i<length src. src ! (pm ! i) = dest ! i) \<and> two_sided (length src) pm pt"
proof -
  let ?V = "length src"
  have inj: "inj_on ((!) src) {..<?V}" using assms(1) by (simp add: inj_on_nth)
  obtain iv where iv: "invert src ?V (inv_perm b) = Inr iv" "length iv = length (inv_perm b)" "\<forall>i<?V. iv ! (src ! i) = i"
    using invert_returns [OF order_refl inj, of "inv_perm b"] assms(5) by auto
  have loop: "foldE (\<lambda>i pm. bindE (vec_at dest i) (\<lambda>d. bindE (vec_at iv d) (\<lambda>x. vec_set pm i x))) [0..<k] (perm b) =
      Inr (map (\<lambda>i. iv ! (dest ! i)) [0..<k] @ drop k (perm b))" if "k \<le> ?V" for k
    using that
  proof (induction k)
    case (Suc k)
    have d: "k < length dest" "k < length (perm b)" using Suc.prems assms(4,7) by simp_all
    then have "dest ! k < length iv" using assms(3,5) iv(2) nth_mem by auto
    moreover have "(map (\<lambda>i. iv ! (dest ! i)) [0..<k] @ drop k (perm b))[k := x] =
        map (\<lambda>i. iv ! (dest ! i)) [0..<k] @ x # drop (Suc k) (perm b)" for x
      unfolding Cons_nth_drop_Suc [OF d(2), symmetric] by (simp add: list_update_append)
    ultimately show ?case using Suc d by (simp add: foldE_append)
  qed simp
  define pm where "pm = map (\<lambda>i. iv ! (dest ! i)) [0..<?V] @ drop ?V (perm b)"
  have lp: "length pm = length (perm b)" using assms(7) by (simp add: pm_def)
  have at: "pm ! i = iv ! (dest ! i)" if "i < ?V" for i using that by (simp add: pm_def nth_append)
  have pos: "pm ! i < ?V \<and> src ! (pm ! i) = dest ! i" if "i < ?V" for i
  proof -
    have "dest ! i \<in> set src" using that assms(3,4) by (metis nth_mem)
    then obtain j where "j < ?V" "src ! j = dest ! i" by (auto simp: in_set_conv_nth)
    then show ?thesis using iv(3) at [OF that] by metis
  qed
  have injp: "inj_on ((!) pm) {..<?V}"
    using pos assms(2,4) by (intro inj_onI) (metis lessThan_iff nth_eq_iff_index_eq)
  obtain iv2 where iv2: "invert pm ?V iv = Inr iv2" "length iv2 = length iv" "\<forall>i<?V. iv2 ! (pm ! i) = i"
    using invert_returns [OF _ injp, of iv] pos lp assms(6,7) iv(2) by fastforce
  have onto: "iv2 ! v < ?V \<and> pm ! (iv2 ! v) = v" if "v < ?V" for v
  proof -
    have "src ! v \<in> set dest" using that assms(3) by simp
    then obtain i where i: "i < ?V" "dest ! i = src ! v" using assms(4) by (auto simp: in_set_conv_nth)
    then have "pm ! i = v" using at iv(3) that by simp
    then show ?thesis using iv2(3) i(1) by auto
  qed
  have wp: "wire_perm ?V pm iv2"
    unfolding wire_perm_def using pos onto iv2(2,3) iv(2) lp assms(6,7) by simp
  obtain pt where pt: "colour_wires ?V pm iv2 (path b) = Inr pt" "length pt = length (path b)" "coloured ?V pm iv2 pt" "\<forall>v<?V. 0 \<le> pt ! v"
    using colour_wires_returns [OF wp assms(8)] by blast
  have "route_wires src dest b = Inr (b\<lparr>perm := pm, inv_perm := iv2, path := pt\<rparr>)"
    using iv(1) loop [OF order_refl] iv2(1) pt(1) by (simp add: route_wires_def Let_def pm_def)
  then show ?thesis
    using lp iv(2) iv2(2) pt(2) wp pos coloured_two_sided [OF wp pt(3,4)] by (intro exI conjI) auto
qed


subsection \<open>The two outer layers\<close>

definition same_shape :: "int list list \<Rightarrow> int list list \<Rightarrow> bool" where
  "same_shape M M' \<longleftrightarrow> length M' = length M \<and> (\<forall>r<length M. length (M' ! r) = length (M ! r))"

definition holds :: "int list list \<Rightarrow> nat \<Rightarrow> nat \<Rightarrow> nat \<Rightarrow> nat \<Rightarrow> bool" where
  "holds M n l p V \<longleftrightarrow> (\<forall>r c. owns n l p V r c \<longrightarrow> r < length M \<and> c < length (M ! r))"

lemma same_shape_trans: "same_shape A B \<Longrightarrow> same_shape B C \<Longrightarrow> same_shape A C"
  by (simp add: same_shape_def)

lemma same_shape_holds: "same_shape M M' \<Longrightarrow> holds M n l p V \<Longrightarrow> holds M' n l p V"
  by (fastforce simp: same_shape_def holds_def)

lemma set2_run:
  assumes "r < length M" "c < length (M ! r)"
  shows "set2 M r c x = Inr (M[r := (M ! r)[c := x]])" "same_shape M (M[r := (M ! r)[c := x]])"
    "M[r := (M ! r)[c := x]] ! i ! j = (if i = r \<and> j = c then x else M ! i ! j)"
  using assms by (auto simp: set2_def same_shape_def nth_list_update)

text \<open>A loop over the pairs that writes one switch of a row in each step.\<close>

lemma switch_row:
  assumes "\<And>q M. q < k \<Longrightarrow> step q (M, a q) = bindE (set2 M row (p + q) (f q)) (\<lambda>M'. Inr (M', a (Suc q)))"
    and "row < length M" "p + k \<le> length (M ! row)"
  shows "\<exists>M'. foldE step [0..<k] (M, a 0) = Inr (M', a k) \<and> same_shape M M' \<and>
    (\<forall>r c. M' ! r ! c = (if r = row \<and> p \<le> c \<and> c < p + k then f (c - p) else M ! r ! c))"
  using assms
proof (induction k)
  case 0
  then show ?case by (simp add: same_shape_def)
next
  case (Suc k)
  then obtain M' where M: "foldE step [0..<k] (M, a 0) = Inr (M', a k)" "same_shape M M'"
    "\<forall>r c. M' ! r ! c = (if r = row \<and> p \<le> c \<and> c < p + k then f (c - p) else M ! r ! c)" by auto
  have b: "row < length M'" "p + k < length (M' ! row)" using Suc.prems(2,3) M(2) by (simp_all add: same_shape_def)
  let ?M = "M'[row := (M' ! row)[p + k := f k]]"
  have "foldE step [0..<Suc k] (M, a 0) = Inr (?M, a (Suc k))"
    using M(1) Suc.prems(1) [of k M'] set2_run(1) [OF b] by (simp add: foldE_append)
  moreover have "same_shape M ?M" by (rule same_shape_trans [OF M(2) set2_run(2) [OF b]])
  moreover have "?M ! r ! c = (if r = row \<and> p \<le> c \<and> c < p + Suc k then f (c - p) else M ! r ! c)" for r c
    unfolding set2_run(3) [OF b] using M(3) by auto
  ultimately show ?case by blast
qed

definition half_at :: "nat list \<Rightarrow> (nat \<Rightarrow> bool) \<Rightarrow> nat \<Rightarrow> nat list" where
  "half_at xs c k = map (\<lambda>q. xs ! (2 * q + of_bool (c q))) [0..<k]"

lemma half_at_halves:
  "half_at xs c (length xs div 2) = low_half c xs"
  "half_at xs (\<lambda>q. \<not> c q) (length xs div 2) @ (if odd (length xs) then [last xs] else []) = high_half c xs"
  by (simp_all add: half_at_def low_half_def high_half_def)

lemma half_at_Suc: "half_at xs c (Suc k) = half_at xs c k @ [xs ! (2 * k + of_bool (c k))]"
  by (simp add: half_at_def)

lemma length_half_at [simp]: "length (half_at xs c k) = k"
  by (simp add: half_at_def)

lemma route_in_run:
  assumes "length src \<le> 2 ^ n" "0 < n" "\<And>q. q < length src div 2 \<Longrightarrow> pt ! (2 * q) = of_bool (c q)" "length src \<le> length pt"
    and "row < length M" "p + length src div 2 \<le> length (M ! row)"
  shows "\<exists>M'. foldE (route_in n row p src pt) [0..<length src div 2] (M, [], []) =
      Inr (M', half_at src c (length src div 2), half_at src (\<lambda>q. \<not> c q) (length src div 2)) \<and> same_shape M M' \<and>
    (\<forall>r k. M' ! r ! k = (if r = row \<and> p \<le> k \<and> k < p + length src div 2 then pt ! (2 * (k - p)) else M ! r ! k))"
proof -
  have "route_in n row p src pt q (M, half_at src c q, half_at src (\<lambda>q. \<not> c q) q) =
      bindE (set2 M row (p + q) (pt ! (2 * q))) (\<lambda>M'. Inr (M', half_at src c (Suc q), half_at src (\<lambda>q. \<not> c q) (Suc q)))"
    if "q < length src div 2" for q M
  proof -
    have "2 * q < length pt" using that assms(4) by linarith
    then show ?thesis
      using assms(3) [OF that] by (simp add: route_in_def split_pair_run [OF that assms(1,2)] half_at_Suc)
  qed
  from switch_row [where step = "route_in n row p src pt" and a = "\<lambda>q. (half_at src c q, half_at src (\<lambda>q. \<not> c q) q)",
      OF this assms(5,6)] show ?thesis by (simp add: half_at_def)
qed

lemma collect_pair_run:
  assumes "q < length src div 2" "length src \<le> 2 ^ n" "0 < n" "length src \<le> length pm" "pm ! (2 * q) < length src"
    "pm ! (2 * q + 1) < length src" "q < length bs" "q < length ts"
  shows "collect_pair n src pm q (of_bool b) (bs, ts) =
    Inr (bs[q := src ! (pm ! (2 * q + of_bool b))], ts[q := src ! (pm ! (2 * q + of_bool (\<not> b)))])"
proof -
  have i: "2 * q < length pm" "2 * q + 1 < length pm" using assms(1,4) by linarith+
  note w = shuffle_wire [OF assms(1-3), of b]
  show ?thesis
  proof (cases b)
    case True
    then have "\<not> shuffle (2 * int q XOR 1) n < int (length src div 2)" "shuffle ((2 * int q + 1) XOR 1) n = int q"
      "0 \<le> shuffle (2 * int q XOR 1) n" using w by simp_all
    then show ?thesis
      using i assms True unfolding collect_pair_def Let_def by (simp add: throw_if_def)
  next
    case False
    then have "\<not> shuffle ((2 * int q + 1) XOR 0) n < int (length src div 2)" "shuffle (2 * int q XOR 0) n = int q"
      "0 \<le> shuffle ((2 * int q + 1) XOR 0) n" using w by simp_all
    then show ?thesis
      using i assms False unfolding collect_pair_def Let_def by (simp add: throw_if_def)
  qed
qed

lemma route_out_run:
  assumes "length src \<le> 2 ^ n" "0 < n" "length dest = length src" "\<And>i. i < length src \<Longrightarrow> pm ! i < length src \<and> src ! (pm ! i) = dest ! i"
    and "\<And>q. q < length src div 2 \<Longrightarrow> pt ! (pm ! (2 * q)) = of_bool (d q)" "length src \<le> length pt" "length src \<le> length pm"
    and "row < length M" "p + length src div 2 \<le> length (M ! row)"
  shows "\<exists>M' z. foldE (route_out n row p src pm pt) [0..<length src div 2]
      (M, replicate (length src div 2) 0, replicate ((length src + 1) div 2) 0) =
      Inr (M', half_at dest d (length src div 2), half_at dest (\<lambda>q. \<not> d q) (length src div 2) @ z) \<and>
    length z = (length src + 1) div 2 - length src div 2 \<and> same_shape M M' \<and>
    (\<forall>r k. M' ! r ! k = (if r = row \<and> p \<le> k \<and> k < p + length src div 2 then pt ! (pm ! (2 * (k - p))) else M ! r ! k))"
proof -
  let ?h = "length src div 2" and ?H = "(length src + 1) div 2"
  let ?a = "\<lambda>q. (half_at dest d q @ replicate (?h - q) (0 :: nat), half_at dest (\<lambda>q. \<not> d q) q @ replicate (?H - q) 0)"
  have "route_out n row p src pm pt q (M, ?a q) =
      bindE (set2 M row (p + q) (pt ! (pm ! (2 * q)))) (\<lambda>M'. Inr (M', ?a (Suc q)))"
    if q: "q < ?h" for q M
  proof -
    have i: "2 * q < length src" "2 * q + 1 < length src" using q by linarith+
    then have pm: "pm ! (2 * q) < length src" "pm ! (2 * q + 1) < length src" using assms(4) by blast+
    have v: "src ! (pm ! (2 * q + of_bool b)) = dest ! (2 * q + of_bool b)" for b using i assms(4) by (cases b) auto
    have push: "(half_at dest e q @ replicate (N - q) 0)[q := x] = half_at dest e q @ x # replicate (N - Suc q) 0"
      if "q < N" for N e and x :: nat
    proof -
      have "N - q = Suc (N - Suc q)" using that by simp
      then show ?thesis by (simp add: list_update_append)
    qed
    have N: "q < ?h" "q < ?H" using q by simp_all
    have "collect_pair n src pm q (of_bool (d q)) (?a q) = Inr (?a (Suc q))"
      using collect_pair_run [OF q assms(1,2,7) pm, of "fst (?a q)" "snd (?a q)" "d q"] N push [OF N(1)] push [OF N(2)] v
      by (simp add: half_at_Suc)
    moreover have "2 * q < length pm" "pm ! (2 * q) < length pt" using i pm assms(6,7) by linarith+
    ultimately show ?thesis using assms(5) [OF q] by (simp add: route_out_def)
  qed
  from switch_row [where step = "route_out n row p src pm pt" and a = ?a, OF this assms(8,9)]
  show ?thesis by (auto simp: half_at_def)
qed


subsection \<open>The halves\<close>

text \<open>\<open>side V col\<close>: the colours \<open>col\<close> give every pair one wire of each colour, and the last wire the colour 1.\<close>

definition side :: "nat \<Rightarrow> (nat \<Rightarrow> int) \<Rightarrow> bool" where
  "side V col \<longleftrightarrow> (\<forall>v<V. col v \<in> {0, 1}) \<and> (\<forall>q<V div 2. col (2 * q + 1) = 1 - col (2 * q)) \<and> (odd V \<longrightarrow> col (V - 1) = 1)"

lemma two_sided_side:
  assumes "two_sided V pm pt" "wire_perm V pm iv"
  shows "side V ((!) pt)" "side V (\<lambda>v. pt ! (pm ! v))"
proof -
  show "side V ((!) pt)" using assms(1) unfolding two_sided_def side_def by blast
  have "pt ! (pm ! v) \<in> {0, 1}" if "v < V" for v using assms that unfolding two_sided_def wire_perm_def by blast
  then show "side V (\<lambda>v. pt ! (pm ! v))" using assms(1) unfolding two_sided_def side_def by blast
qed

lemma side_pair:
  assumes "side V col" "q < V div 2"
  shows "col (2 * q) = of_bool (col (2 * q) = 1)" "col (2 * q + of_bool (col (2 * q) = 1)) = 0"
    "col (2 * q + of_bool (col (2 * q) \<noteq> 1)) = 1"
proof -
  have "2 * q < V" using assms(2) by linarith
  then have "col (2 * q) = 0 \<or> col (2 * q) = 1" "col (2 * q + 1) = 1 - col (2 * q)" using assms unfolding side_def by blast+
  then show "col (2 * q) = of_bool (col (2 * q) = 1)" "col (2 * q + of_bool (col (2 * q) = 1)) = 0"
    "col (2 * q + of_bool (col (2 * q) \<noteq> 1)) = 1" by auto
qed

lemma side_wire:
  assumes "side V col" "v < V"
  obtains (low) "v div 2 < V div 2" "col v = 0" "v = 2 * (v div 2) + of_bool (col (2 * (v div 2)) = 1)"
    | (high) "v div 2 < V div 2" "col v = 1" "v = 2 * (v div 2) + of_bool (col (2 * (v div 2)) \<noteq> 1)"
    | (last) "odd V" "v = V - 1" "col v = 1"
proof (cases "odd V \<and> v = V - 1")
  case True
  then show ?thesis using assms(1) last by (simp add: side_def)
next
  case False
  then have q: "v div 2 < V div 2" using assms(2) by presburger
  then have c: "col (2 * (v div 2) + 1) = 1 - col (2 * (v div 2))" "col (2 * (v div 2)) = of_bool (col (2 * (v div 2)) = 1)"
    using assms(1) side_pair(1) [OF assms(1) q] unfolding side_def by blast+
  have v: "v = 2 * (v div 2) \<or> v = 2 * (v div 2) + 1" by presburger
  show ?thesis
  proof (cases "col (2 * (v div 2)) = 1")
    case True
    then show ?thesis using v c(1) q low high by (metis add.right_neutral diff_self of_bool_eq(1) of_bool_eq(2))
  next
    case False
    then have "col (2 * (v div 2)) = 0" using c(2) by simp
    then show ?thesis using v c(1) q low high by (metis add.right_neutral diff_zero of_bool_eq(1) of_bool_eq(2) zero_neq_one)
  qed
qed

lemma side_halves:
  assumes s: "side (length xs) col" and ne: "2 \<le> length xs"
  shows "set (low_half (\<lambda>q. col (2 * q) = 1) xs) = {xs ! v | v. v < length xs \<and> col v = 0}"
    and "set (high_half (\<lambda>q. col (2 * q) = 1) xs) = {xs ! v | v. v < length xs \<and> col v = 1}"
proof -
  let ?c = "\<lambda>q. col (2 * q) = 1" and ?V = "length xs"
  have b: "2 * q + of_bool P < ?V" if "q < ?V div 2" for q P using that by (cases P; simp; linarith)
  show "set (low_half ?c xs) = {xs ! v | v. v < ?V \<and> col v = 0}"
  proof (intro set_eqI iffI)
    fix x assume "x \<in> set (low_half ?c xs)"
    then obtain q where "q < ?V div 2" "x = xs ! (2 * q + of_bool (?c q))" by (auto simp: low_half_def)
    then show "x \<in> {xs ! v | v. v < ?V \<and> col v = 0}" using b side_pair(2) [OF s] by blast
  next
    fix x assume "x \<in> {xs ! v | v. v < ?V \<and> col v = 0}"
    then obtain v where v: "v < ?V" "col v = 0" "x = xs ! v" by blast
    from s v(1) show "x \<in> set (low_half ?c xs)"
    proof (cases rule: side_wire)
      case low
      then have "x = xs ! (2 * (v div 2) + of_bool (?c (v div 2)))" using v(3) by simp
      then show ?thesis using low(1) by (auto simp: low_half_def)
    qed (use v(2) in simp_all)
  qed
  show "set (high_half ?c xs) = {xs ! v | v. v < ?V \<and> col v = 1}"
  proof (intro set_eqI iffI)
    fix x assume "x \<in> set (high_half ?c xs)"
    then consider q where "q < ?V div 2" "x = xs ! (2 * q + of_bool (\<not> ?c q))" | "odd ?V" "x = last xs"
      by (auto simp: high_half_def split: if_splits)
    then show "x \<in> {xs ! v | v. v < ?V \<and> col v = 1}"
    proof cases
      case 1
      then show ?thesis using b side_pair(3) [OF s] by blast
    next
      case 2
      have "xs \<noteq> []" using ne by auto
      then have "x = xs ! (?V - 1)" using 2 by (simp add: last_conv_nth)
      moreover have "col (?V - 1) = 1" using s 2 by (simp add: side_def)
      ultimately show ?thesis using ne by (intro CollectI exI [where x = "?V - 1"]) simp
    qed
  next
    fix x assume "x \<in> {xs ! v | v. v < ?V \<and> col v = 1}"
    then obtain v where v: "v < ?V" "col v = 1" "x = xs ! v" by blast
    from s v(1) show "x \<in> set (high_half ?c xs)"
    proof (cases rule: side_wire)
      case high
      then have "x = xs ! (2 * (v div 2) + of_bool (\<not> ?c (v div 2)))" using v(3) by simp
      then show ?thesis using high(1) by (auto simp: high_half_def)
    next
      case last
      have "xs \<noteq> []" using ne by auto
      then show ?thesis using last v(3) by (simp add: high_half_def last_conv_nth)
    qed (use v(2) in simp_all)
  qed
qed

lemma halves_distinct:
  assumes "distinct xs" "2 \<le> length xs"
  shows "distinct (low_half c xs)" "distinct (high_half c xs)"
proof -
  let ?V = "length xs"
  have b: "2 * q + of_bool P < ?V" "2 * q + of_bool P < ?V - of_bool (odd ?V)" if "q < ?V div 2" for q P
    using that by (cases P; simp; presburger)+
  have inj: "inj_on (\<lambda>q. xs ! (2 * q + of_bool (e q))) {..<?V div 2}" for e
  proof (intro inj_onI)
    fix q q' assume "q \<in> {..<?V div 2}" "q' \<in> {..<?V div 2}" "xs ! (2 * q + of_bool (e q)) = xs ! (2 * q' + of_bool (e q'))"
    then have "2 * q + of_bool (e q) = 2 * q' + of_bool (e q')" using assms(1) b(1) by (simp add: nth_eq_iff_index_eq)
    then show "q = q'" by (cases "e q"; cases "e q'"; simp; presburger)
  qed
  show "distinct (low_half c xs)" using inj by (simp add: low_half_def distinct_map atLeast0LessThan)
  have d: "distinct (map (\<lambda>q. xs ! (2 * q + of_bool (\<not> c q))) [0..<?V div 2])"
    using inj [of "\<lambda>q. \<not> c q"] by (simp add: distinct_map atLeast0LessThan)
  have n: "last xs \<noteq> xs ! (2 * q + of_bool (\<not> c q))" if "odd ?V" "q < ?V div 2" for q
  proof -
    have "xs \<noteq> []" "2 * q + of_bool (\<not> c q) < ?V - 1" using assms(2) b(2) [OF that(2), of "\<not> c q"] that(1) by auto
    then show ?thesis using assms(1) by (simp add: last_conv_nth nth_eq_iff_index_eq)
  qed
  have "last xs \<notin> set (map (\<lambda>q. xs ! (2 * q + of_bool (\<not> c q))) [0..<?V div 2])" if "odd ?V"
    using n [OF that] by (simp add: image_iff)
  then show "distinct (high_half c xs)" using d by (simp add: high_half_def del: set_map)
qed

lemma join_split:
  assumes "2 \<le> length xs"
  shows "join_halves (length xs) c (low_half c xs) (high_half c xs) = xs"
proof (intro nth_equalityI)
  fix i assume "i < length (join_halves (length xs) c (low_half c xs) (high_half c xs))"
  then have i: "i < length xs" by simp
  have ne: "xs \<noteq> []" using assms by auto
  show "join_halves (length xs) c (low_half c xs) (high_half c xs) ! i = xs ! i"
  proof (cases "odd (length xs) \<and> i = length xs - 1")
    case True
    then show ?thesis using i ne by (simp add: join_halves_def high_half_def last_conv_nth)
  next
    case False
    then have "i div 2 < length xs div 2" using i by presburger
    moreover have "2 * (i div 2) + of_bool (odd i) = i" by (cases "odd i") simp_all
    ultimately show ?thesis
      using i False by (auto simp: join_halves_def high_half_def low_half_def nth_append)
  qed
qed simp


subsection \<open>The small networks\<close>

definition unchanged :: "int list list \<Rightarrow> int list list \<Rightarrow> nat \<Rightarrow> nat \<Rightarrow> nat \<Rightarrow> nat \<Rightarrow> bool" where
  "unchanged M M' n l p V \<longleftrightarrow> (\<forall>r c. \<not> owns n l p V r c \<longrightarrow> M' ! r ! c = M ! r ! c)"

definition bits_in :: "int list list \<Rightarrow> nat \<Rightarrow> nat \<Rightarrow> nat \<Rightarrow> nat \<Rightarrow> bool" where
  "bits_in M n l p V \<longleftrightarrow> (\<forall>r c. owns n l p V r c \<longrightarrow> M ! r ! c \<in> {0, 1})"

definition set_switches :: "int list list \<Rightarrow> switches" where
  "set_switches M r c \<longleftrightarrow> M ! r ! c = 1"

text \<open>A network of two or three wires leaves some of its switches as they are.\<close>

definition routed :: "int list list \<Rightarrow> int list list \<Rightarrow> nat \<Rightarrow> nat \<Rightarrow> nat \<Rightarrow> nat list \<Rightarrow> nat list \<Rightarrow> bool" where
  "routed M M' n l p src dest \<longleftrightarrow> same_shape M M' \<and> unchanged M M' n l p (length src) \<and>
     (bits_in M n l p (length src) \<longrightarrow> bits_in M' n l p (length src)) \<and> network (set_switches M') n l p src = dest"

lemma route_two_run:
  assumes "length src = 2" "length dest = 2" "n = 1 \<or> n = 2" "distinct src" "set dest = set src" "holds M n l p 2"
  shows "\<exists>M'. route_two n l p src dest M = Inr M' \<and> routed M M' n l p src dest"
proof -
  let ?r = "if n = 1 then l else l + 1" and ?x = "of_bool (src ! 0 \<noteq> dest ! 0) :: int"
  obtain a b where s: "src = [a, b]" "a \<noteq> b" using assms(1,4) by (auto simp: length_Suc_conv numeral_2_eq_2)
  obtain c d where e: "dest = [c, d]" using assms(2) by (auto simp: length_Suc_conv numeral_2_eq_2)
  have cd: "c = a \<and> d = b \<or> c = b \<and> d = a" using assms(5) s e by auto
  have o: "owns n l p 2 ?r p" using assms(3) by (auto simp: owns_def)
  then have b: "?r < length M" "p < length (M ! ?r)" using assms(6) unfolding holds_def by blast+
  let ?M = "M[?r := (M ! ?r)[p := ?x]]"
  have at: "?M ! r ! c = (if r = ?r \<and> c = p then ?x else M ! r ! c)" for r c by (rule set2_run(3) [OF b])
  have "route_two n l p src dest M = Inr ?M" using set2_run(1) [OF b] assms(2) by (simp add: route_two_def)
  moreover have "routed M ?M n l p src dest"
    unfolding routed_def
  proof (intro conjI impI)
    show "same_shape M ?M" by (rule set2_run(2) [OF b])
    show "unchanged M ?M n l p (length src)" using o unfolding unchanged_def at assms(1) by auto
    show "bits_in ?M n l p (length src)" if "bits_in M n l p (length src)" using that unfolding bits_in_def at by auto
    have "set_switches ?M ?r p \<longleftrightarrow> src ! 0 \<noteq> dest ! 0" unfolding set_switches_def at by simp
    then show "network (set_switches ?M) n l p src = dest"
      using s e cd by (auto simp: network.simps swap_if_def)
  qed
  ultimately show ?thesis by blast
qed

lemma three_writes:
  assumes "holds M 2 l p 3" "i < 3"
  shows "set2 M (l + i) p x = Inr (M[l + i := (M ! (l + i))[p := x]])"
    and "same_shape M (M[l + i := (M ! (l + i))[p := x]])"
    and "M[l + i := (M ! (l + i))[p := x]] ! r ! c = (if r = l + i \<and> c = p then x else M ! r ! c)"
    and "holds (M[l + i := (M ! (l + i))[p := x]]) 2 l p 3"
proof -
  have "owns 2 l p 3 (l + i) p" using assms(2) by (simp add: owns_def)
  then have b: "l + i < length M" "p < length (M ! (l + i))" using assms(1) unfolding holds_def by blast+
  show "set2 M (l + i) p x = Inr (M[l + i := (M ! (l + i))[p := x]])" by (rule set2_run(1) [OF b])
  show sh: "same_shape M (M[l + i := (M ! (l + i))[p := x]])" by (rule set2_run(2) [OF b])
  show "M[l + i := (M ! (l + i))[p := x]] ! r ! c = (if r = l + i \<and> c = p then x else M ! r ! c)"
    by (rule set2_run(3) [OF b])
  show "holds (M[l + i := (M ! (l + i))[p := x]]) 2 l p 3" by (rule same_shape_holds [OF sh assms(1)])
qed

text \<open>The three switches written in some order.\<close>

lemma three_run:
  assumes h: "holds M 2 l p 3" and ij: "i < 3" "j < 3" "k < 3" "i \<noteq> j" "i \<noteq> k" "j \<noteq> k" and x: "x \<in> {0, 1}" "y \<in> {0, 1}" "z \<in> {0, 1}"
  shows "\<exists>M'. bindE (set2 M (l + i) p x) (\<lambda>M. bindE (set2 M (l + j) p y) (\<lambda>M. set2 M (l + k) p z)) = Inr M' \<and>
    same_shape M M' \<and> unchanged M M' 2 l p 3 \<and> bits_in M' 2 l p 3 \<and>
    M' ! (l + i) ! p = x \<and> M' ! (l + j) ! p = y \<and> M' ! (l + k) ! p = z"
proof -
  define M1 where "M1 = M[l + i := (M ! (l + i))[p := x]]"
  define M2 where "M2 = M1[l + j := (M1 ! (l + j))[p := y]]"
  define M3 where "M3 = M2[l + k := (M2 ! (l + k))[p := z]]"
  note w1 = three_writes [OF h ij(1), where x = x, folded M1_def]
  note w2 = three_writes [OF w1(4) ij(2), where x = y, folded M2_def]
  note w3 = three_writes [OF w2(4) ij(3), where x = z, folded M3_def]
  have at: "M3 ! r ! c = (if r = l + k \<and> c = p then z else if r = l + j \<and> c = p then y else if r = l + i \<and> c = p then x else M ! r ! c)" for r c
    by (simp only: w1(3) w2(3) w3(3))
  have own: "owns 2 l p 3 r c \<longleftrightarrow> c = p \<and> (r = l + i \<or> r = l + j \<or> r = l + k)" for r c
  proof -
    have "l \<le> r \<and> r < l + 3 \<longleftrightarrow> r = l + i \<or> r = l + j \<or> r = l + k" using ij by presburger
    then show ?thesis by (auto simp: owns_def)
  qed
  have "same_shape M M3" using same_shape_trans [OF same_shape_trans [OF w1(2) w2(2)] w3(2)] .
  moreover have "unchanged M M3 2 l p 3"
    unfolding unchanged_def own at by (intro allI impI if_not_P [THEN trans] if_not_P) blast+
  moreover have "bits_in M3 2 l p 3"
    unfolding bits_in_def own
  proof (intro allI impI)
    fix r c assume "c = p \<and> (r = l + i \<or> r = l + j \<or> r = l + k)"
    then have "M3 ! r ! c = z \<or> M3 ! r ! c = y \<or> M3 ! r ! c = x" unfolding at by presburger
    then show "M3 ! r ! c \<in> {0, 1}" using x by metis
  qed
  moreover have "M3 ! (l + i) ! p = x" "M3 ! (l + j) ! p = y" "M3 ! (l + k) ! p = z" using ij by (simp_all add: at)
  ultimately show ?thesis using w1(1) w2(1) w3(1) by (intro exI [where x = M3]) simp
qed


lemma network_three:
  assumes "length xs = 3"
  shows "network sw 2 l p xs = swap_if (sw (l + 2) p) 0 1 (swap_if (sw (l + 1) p) 1 2 (swap_if (sw l p) 0 1 xs))"
  using assms by (simp add: network.simps)

lemma route_three_run:
  assumes "length src = 3" "length dest = 3" "distinct src" "distinct dest" "set dest = set src" "holds M 2 l p 3"
  shows "\<exists>M'. route_three l p src dest M = Inr M' \<and> routed M M' 2 l p src dest"
proof -
  obtain a b c where s: "src = [a, b, c]" using assms(1) by (auto simp: length_Suc_conv numeral_3_eq_3)
  obtain d0 d1 d2 where e: "dest = [d0, d1, d2]" using assms(2) by (auto simp: length_Suc_conv numeral_3_eq_3)
  have n: "a \<noteq> b" "a \<noteq> c" "b \<noteq> c" "d0 \<noteq> d1" "d0 \<noteq> d2" "d1 \<noteq> d2" "{d0, d1, d2} = {a, b, c}" using assms(3-5) s e by auto
  have m: "d0 = a \<or> d0 = b \<or> d0 = c" "d1 = a \<or> d1 = b \<or> d1 = c" "d2 = a \<or> d2 = b \<or> d2 = c" using n(7) by auto
  have dest: "vec_at dest 0 = Inr d0" "vec_at dest 1 = Inr d1" "vec_at dest 2 = Inr d2" by (simp_all add: e)
  have len: "length src = 3" "src ! 0 = a" "src ! 1 = b" using s by simp_all
  have net: "network (set_switches M') 2 l p src = swap_if (M' ! (l + 2) ! p = 1) 0 1
      (swap_if (M' ! (l + 1) ! p = 1) 1 2 (swap_if (M' ! l ! p = 1) 0 1 [a, b, c]))" for M'
    using network_three [OF len(1), of "set_switches M'" l p] by (simp add: set_switches_def s)
  have "a \<in> {d0, d1, d2}" using n(7) by simp
  then consider "a = d0" | "a = d1" | "a = d2" by blast
  then show ?thesis
  proof cases
    case 1
    then have o: "d1 = b \<and> d2 = c \<or> d1 = c \<and> d2 = b" using n(1-6) m by metis
    from three_run [OF assms(6), of 0 2 1 0 0 "of_bool (b \<noteq> d1)"] obtain M' where
      M: "bindE (set2 M l p 0) (\<lambda>M. bindE (set2 M (l + 2) p 0) (\<lambda>M. set2 M (l + 1) p (of_bool (b \<noteq> d1)))) = Inr M'"
      "same_shape M M'" "unchanged M M' 2 l p 3" "bits_in M' 2 l p 3" "M' ! l ! p = 0" "M' ! (l + 2) ! p = 0" "M' ! (l + 1) ! p = of_bool (b \<noteq> d1)"
      by auto
    have "route_three l p src dest M = Inr M'"
      using 1 n(4,5) by (simp only: route_three_def dest bindE_simps len if_True if_False refl M(1))
    moreover have "network (set_switches M') 2 l p src = dest"
      using o 1 n(3) unfolding net M(5-7) by (auto simp: swap_if_def e)
    ultimately show ?thesis using M len(1) by (auto simp: routed_def)
  next
    case 2
    then have o: "d0 = b \<and> d2 = c \<or> d0 = c \<and> d2 = b" using n(1-6) m by metis
    from three_run [OF assms(6), of 0 2 1 0 1 "of_bool (b \<noteq> d0)"] obtain M' where
      M: "bindE (set2 M l p 0) (\<lambda>M. bindE (set2 M (l + 2) p 1) (\<lambda>M. set2 M (l + 1) p (of_bool (b \<noteq> d0)))) = Inr M'"
      "same_shape M M'" "unchanged M M' 2 l p 3" "bits_in M' 2 l p 3" "M' ! l ! p = 0" "M' ! (l + 2) ! p = 1" "M' ! (l + 1) ! p = of_bool (b \<noteq> d0)"
      by auto
    have "route_three l p src dest M = Inr M'"
      using 2 n(4,6) by (simp only: route_three_def dest bindE_simps len if_True if_False refl M(1) not_sym [OF n(4)])
    moreover have "network (set_switches M') 2 l p src = dest"
      using o 2 n(3) unfolding net M(5-7) by (auto simp: swap_if_def e)
    ultimately show ?thesis using M len(1) by (auto simp: routed_def)
  next
    case 3
    then have o: "d0 = b \<and> d1 = c \<or> d0 = c \<and> d1 = b" using n(1-6) m by metis
    from three_run [OF assms(6), of 0 1 2 1 1 "of_bool (b \<noteq> d0)"] obtain M' where
      M: "bindE (set2 M l p 1) (\<lambda>M. bindE (set2 M (l + 1) p 1) (\<lambda>M. set2 M (l + 2) p (of_bool (b \<noteq> d0)))) = Inr M'"
      "same_shape M M'" "unchanged M M' 2 l p 3" "bits_in M' 2 l p 3" "M' ! l ! p = 1" "M' ! (l + 1) ! p = 1" "M' ! (l + 2) ! p = of_bool (b \<noteq> d0)"
      by auto
    have "route_three l p src dest M = Inr M'"
      using 3 by (simp only: route_three_def dest bindE_simps len if_True if_False refl M(1) not_sym [OF n(5)] not_sym [OF n(6)])
    moreover have "network (set_switches M') 2 l p src = dest"
      using o 3 n(3) unfolding net M(5-7) by (auto simp: swap_if_def e)
    ultimately show ?thesis using M len(1) by (auto simp: routed_def)
  qed
qed


subsection \<open>The whole network\<close>

lemma halves_cong:
  assumes "\<And>q. q < length xs div 2 \<Longrightarrow> c q = d q"
  shows "low_half c xs = low_half d xs" "high_half c xs = high_half d xs"
  using assms by (simp_all add: low_half_def high_half_def)

lemma join_cong:
  assumes "\<And>q. q < V div 2 \<Longrightarrow> c q = d q"
  shows "join_halves V c bs ts = join_halves V d bs ts"
  unfolding join_halves_def
proof (intro map_cong refl)
  fix i assume "i \<in> set [0..<V]"
  then have "i div 2 < V div 2" if "\<not> (odd V \<and> i = V - 1)" using that by auto
  then show "(if odd V \<and> i = V - 1 then last ts else if odd i = c (i div 2) then bs ! (i div 2) else ts ! (i div 2)) =
      (if odd V \<and> i = V - 1 then last ts else if odd i = d (i div 2) then bs ! (i div 2) else ts ! (i div 2))"
    using assms by auto
qed

lemma layers_compose:
  fixes src dest :: "nat list"
  defines "V \<equiv> length src"
  assumes m: "0 < m" "4 \<le> V" "fits m (V div 2)" "fits m ((V + 1) div 2)" "length dest = V"
    and M1: "\<And>r k. M1 ! r ! k = (if r = l \<and> p \<le> k \<and> k < p + V div 2 then f (k - p) else M0 ! r ! k)"
    and M2: "\<And>r k. M2 ! r ! k = (if r = l + 2 * m \<and> p \<le> k \<and> k < p + V div 2 then g (k - p) else M1 ! r ! k)"
    and fg: "\<And>q. q < V div 2 \<Longrightarrow> f q \<in> {0, 1} \<and> g q \<in> {0, 1 :: int}" and shape: "same_shape M0 M2"
    and lo: "routed M2 M3 m (l + 1) p (low_half (\<lambda>q. f q = 1) src) (low_half (\<lambda>q. g q = 1) dest)"
    and hi: "routed M3 M4 m (l + 1) (p + V div 4) (high_half (\<lambda>q. f q = 1) src) (high_half (\<lambda>q. g q = 1) dest)"
  shows "routed M0 M4 (Suc m) l p src dest"
proof -
  let ?lo = "owns m (l + 1) p (V div 2)" and ?hi = "owns m (l + 1) (p + V div 4) ((V + 1) div 2)"
  note oh = owns_halves [OF m(1,2), of l p]
  have u3: "M3 ! r ! c = M2 ! r ! c" if "\<not> ?lo r c" for r c using lo that by (simp add: routed_def unchanged_def V_def)
  have u4: "M4 ! r ! c = M3 ! r ! c" if "\<not> ?hi r c" for r c using hi that by (simp add: routed_def unchanged_def V_def)
  have rows: "M4 ! l ! (p + q) = f q" "M4 ! (l + 2 * m) ! (p + q) = g q" if "q < V div 2" for q
  proof -
    have "\<not> ?lo l (p + q)" "\<not> ?hi l (p + q)" "\<not> ?lo (l + 2 * m) (p + q)" "\<not> ?hi (l + 2 * m) (p + q)" using oh by blast+
    then show "M4 ! l ! (p + q) = f q" "M4 ! (l + 2 * m) ! (p + q) = g q"
      using that m(1) by (simp_all add: u3 u4 M1 M2)
  qed
  have sw: "set_switches M4 l (p + q) = (f q = 1)" "set_switches M4 (l + 2 * m) (p + q) = (g q = 1)" if "q < V div 2" for q
    using rows [OF that] by (simp_all add: set_switches_def)
  have "network (set_switches M4) m (l + 1) p (low_half (\<lambda>q. f q = 1) src) = network (set_switches M3) m (l + 1) p (low_half (\<lambda>q. f q = 1) src)"
  proof (rule network_cong)
    show "fits m (length (low_half (\<lambda>q. f q = 1) src))" using m(3) by (simp add: V_def)
    fix r c assume "owns m (l + 1) p (length (low_half (\<lambda>q. f q = 1) src)) r c"
    then have "\<not> ?hi r c" using oh [of r c] by (auto simp: V_def)
    then show "set_switches M4 r c = set_switches M3 r c" using u4 by (simp add: set_switches_def)
  qed
  then have "network (set_switches M4) m (l + 1) p (low_half (\<lambda>q. f q = 1) src) = low_half (\<lambda>q. g q = 1) dest"
    using lo by (simp add: routed_def)
  moreover have "network (set_switches M4) m (l + 1) (p + V div 4) (high_half (\<lambda>q. f q = 1) src) = high_half (\<lambda>q. g q = 1) dest"
    using hi by (simp add: routed_def)
  moreover have "join_halves V (\<lambda>q. g q = 1) (low_half (\<lambda>q. g q = 1) dest) (high_half (\<lambda>q. g q = 1) dest) = dest"
    using join_split [of dest "\<lambda>q. g q = 1"] m(2,5) by simp
  ultimately have net: "network (set_switches M4) (Suc m) l p src = dest"
    using m(2) halves_cong [of src "\<lambda>q. set_switches M4 l (p + q)" "\<lambda>q. f q = 1"] sw
      join_cong [of V "\<lambda>q. set_switches M4 (l + 2 * m) (p + q)" "\<lambda>q. g q = 1" "low_half (\<lambda>q. g q = 1) dest" "high_half (\<lambda>q. g q = 1) dest"]
    by (simp add: network.simps [of _ "Suc m"] V_def)
  have unch: "unchanged M0 M4 (Suc m) l p V"
    unfolding unchanged_def
  proof (intro allI impI)
    fix r c assume n: "\<not> owns (Suc m) l p V r c"
    have "M2 ! r ! c = M0 ! r ! c" using n m(1) M1 M2 by (auto simp: owns_def)
    moreover have "\<not> ?lo r c" "\<not> ?hi r c" using n oh [of r c] by blast+
    ultimately show "M4 ! r ! c = M0 ! r ! c" by (simp add: u3 u4)
  qed
  have bits: "bits_in M4 (Suc m) l p V" if b: "bits_in M0 (Suc m) l p V"
  proof -
    have b2: "M2 ! r ! c \<in> {0, 1}" if "owns (Suc m) l p V r c" for r c
    proof -
      have "M0 ! r ! c \<in> {0, 1}" using b that by (simp add: bits_in_def)
      moreover have "f (c - p) \<in> {0, 1} \<and> g (c - p) \<in> {0, 1}" using that fg [of "c - p"] by (auto simp: owns_def)
      ultimately show ?thesis using M1 [of r c] M2 [of r c] by presburger
    qed
    have b3: "M3 ! r ! c \<in> {0, 1}" if "owns (Suc m) l p V r c" for r c
    proof (cases "?lo r c")
      case True
      have "bits_in M2 m (l + 1) p (V div 2)" using b2 oh(1) by (simp add: bits_in_def)
      then show ?thesis using lo True by (simp add: routed_def bits_in_def V_def)
    qed (use b2 [OF that] u3 in simp)
    have "M4 ! r ! c \<in> {0, 1}" if "owns (Suc m) l p V r c" for r c
    proof (cases "?hi r c")
      case True
      have "bits_in M3 m (l + 1) (p + V div 4) ((V + 1) div 2)" using b3 oh(2) by (simp add: bits_in_def)
      then show ?thesis using hi True by (simp add: routed_def bits_in_def V_def)
    qed (use b3 [OF that] u4 in simp)
    then show ?thesis by (simp add: bits_in_def)
  qed
  have "same_shape M2 M3" "same_shape M3 M4" using lo hi by (simp_all add: routed_def)
  then have "same_shape M0 M4" by (rule same_shape_trans [OF same_shape_trans [OF shape]])
  then show ?thesis using net unch bits by (simp add: routed_def V_def)
qed


lemma put_last_run:
  assumes "length dest = V" "2 \<le> V" "length z = (V + 1) div 2 - V div 2"
  shows "put_last dest V (half_at dest d (V div 2) @ z) = Inr (half_at dest d (V div 2) @ (if odd V then [last dest] else []))"
proof (cases "odd V")
  case True
  then have e: "(V + 1) div 2 = Suc (V div 2)" by presburger
  then have "length z = 1" using assms(3) by simp
  then obtain w where z: "z = [w]" by (cases z) auto
  have "dest \<noteq> []" using assms(1,2) by auto
  then show ?thesis
    using True assms(1,2) e by (simp add: put_last_def z last_conv_nth list_update_append)
next
  case False
  then have "(V + 1) div 2 = V div 2" by presburger
  then show ?thesis using False assms(3) by (simp add: put_last_def)
qed

lemma holds_outer:
  assumes "holds M (Suc m) l p V" "0 < V div 2"
  shows "l < length M" "p + V div 2 \<le> length (M ! l)" "l + 2 * m < length M" "p + V div 2 \<le> length (M ! (l + 2 * m))"
proof -
  have "owns (Suc m) l p V l (p + (V div 2 - 1))" "owns (Suc m) l p V (l + 2 * m) (p + (V div 2 - 1))"
    using assms(2) by (simp_all add: owns_def)
  then have "l < length M \<and> p + (V div 2 - 1) < length (M ! l)" "l + 2 * m < length M \<and> p + (V div 2 - 1) < length (M ! (l + 2 * m))"
    using assms(1) unfolding holds_def by blast+
  then show "l < length M" "p + V div 2 \<le> length (M ! l)" "l + 2 * m < length M" "p + V div 2 \<le> length (M ! (l + 2 * m))"
    using assms(2) by linarith+
qed

text \<open>The sizes \<open>initialize\<close> gives the arrays, which the routing keeps.\<close>

definition room :: "Benes \<Rightarrow> nat list \<Rightarrow> bool" where
  "room b src \<longleftrightarrow> (\<forall>x\<in>set src. x < length (inv_perm b)) \<and> length src \<le> length (inv_perm b) \<and>
     length src \<le> length (perm b) \<and> length src \<le> length (path b)"

definition same_room :: "Benes \<Rightarrow> Benes \<Rightarrow> bool" where
  "same_room b b' \<longleftrightarrow> length (perm b') = length (perm b) \<and> length (inv_perm b') = length (inv_perm b) \<and>
     length (path b') = length (path b)"

definition reorders :: "nat list \<Rightarrow> nat list \<Rightarrow> bool" where
  "reorders src dest \<longleftrightarrow> distinct src \<and> distinct dest \<and> set dest = set src \<and> length dest = length src"

lemma room_halves:
  assumes "room b src" "same_room b b'" "set xs \<subseteq> set src" "length xs \<le> length src"
  shows "room b' xs"
  using assms by (auto simp: room_def same_room_def)

lemma outer_wires:
  assumes "wire_perm V pm iv" "\<And>i. i < V \<Longrightarrow> src ! (pm ! i) = dest ! i"
  shows "{dest ! v | v. v < V \<and> P (pm ! v)} = {src ! v | v. v < V \<and> P v}"
proof (intro set_eqI iffI)
  fix x assume "x \<in> {dest ! v | v. v < V \<and> P (pm ! v)}"
  then obtain v where "v < V" "P (pm ! v)" "x = src ! (pm ! v)" using assms(2) by auto
  then show "x \<in> {src ! v | v. v < V \<and> P v}" using assms(1) by (auto simp: wire_perm_def)
next
  fix x assume "x \<in> {src ! v | v. v < V \<and> P v}"
  then obtain v where v: "v < V" "P v" "x = src ! v" by blast
  then have "iv ! v < V" "pm ! (iv ! v) = v" using assms(1) by (simp_all add: wire_perm_def)
  then show "x \<in> {dest ! v | v. v < V \<and> P (pm ! v)}" using v assms(2) [of "iv ! v"] by (intro CollectI exI [where x = "iv ! v"]) simp
qed

lemma gen_benes_route_run:
  assumes "fits n (length src)" "reorders src dest" "room b src" "holds (switched b) n l p (length src)"
  shows "\<exists>b'. gen_benes_route n l p src dest b = Inr b' \<and> same_room b b' \<and> routed (switched b) (switched b') n l p src dest"
  using assms
proof (induction n arbitrary: l p src dest b)
  case (Suc m)
  let ?V = "length src" and ?N = "Suc m"
  have d: "distinct src" "distinct dest" "set dest = set src" "length dest = ?V" using Suc.prems(2) by (simp_all add: reorders_def)
  from Suc.prems(1) show ?case
  proof (cases rule: fits_cases)
    case two
    then obtain M' where "route_two ?N l p src dest (switched b) = Inr M'" "routed (switched b) M' ?N l p src dest"
      using route_two_run [of src dest ?N] d Suc.prems(4) by metis
    then show ?thesis using two by (intro exI [where x = "b\<lparr>switched := M'\<rparr>"]) (simp add: gen_benes_route.simps same_room_def)
  next
    case three
    then obtain M' where "route_three l p src dest (switched b) = Inr M'" "routed (switched b) M' ?N l p src dest"
      using route_three_run [of src dest] d Suc.prems(4) by metis
    then show ?thesis using three(1) by (intro exI [where x = "b\<lparr>switched := M'\<rparr>"]) (simp add: gen_benes_route.simps same_room_def)
  next
    case (more m')
    then have mm: "0 < m" "4 \<le> ?V" "fits m (?V div 2)" "fits m ((?V + 1) div 2)" by simp_all
    have V: "?V \<le> 2 ^ ?N" "2 \<le> ?V" "0 < ?V div 2" "2 \<le> length dest" using Suc.prems(1) mm(2) d(4) by (simp_all add: fits_def)
    from route_wires_returns [OF d, of b] obtain pm iv pt where
      W: "route_wires src dest b = Inr (b\<lparr>perm := pm, inv_perm := iv, path := pt\<rparr>)" and
      Wl: "length pm = length (perm b)" "length iv = length (inv_perm b)" "length pt = length (path b)" and
      wp: "wire_perm ?V pm iv" and at: "\<forall>i<?V. src ! (pm ! i) = dest ! i" and ts: "two_sided ?V pm pt"
      using Suc.prems(3) unfolding room_def by blast
    define b1 where "b1 = b\<lparr>perm := pm, inv_perm := iv, path := pt\<rparr>"
    have b1: "path b1 = pt" "perm b1 = pm" "switched b1 = switched b" "same_room b b1" by (simp_all add: b1_def same_room_def Wl)
    have pl: "?V \<le> length pt" "?V \<le> length pm" using Suc.prems(3) Wl by (simp_all add: room_def)
    define f g where "f q = pt ! (2 * q)" and "g q = pt ! (pm ! (2 * q))" for q
    note sd = two_sided_side [OF ts wp]
    have fq: "f q = of_bool (f q = 1)" "g q = of_bool (g q = 1)" if "q < ?V div 2" for q
      unfolding f_def g_def by (rule side_pair(1) [OF sd(1) that], rule side_pair(1) [OF sd(2) that])
    note ho = holds_outer [OF Suc.prems(4) V(3)]
    obtain M1 where I: "foldE (route_in ?N l p src pt) [0..<?V div 2] (switched b, [], []) =
        Inr (M1, half_at src (\<lambda>q. f q = 1) (?V div 2), half_at src (\<lambda>q. f q \<noteq> 1) (?V div 2))"
      "same_shape (switched b) M1"
      "\<And>r k. M1 ! r ! k = (if r = l \<and> p \<le> k \<and> k < p + ?V div 2 then f (k - p) else switched b ! r ! k)"
      using route_in_run [OF V(1) zero_less_Suc fq(1) [unfolded f_def] pl(1) ho(1,2)] unfolding f_def by blast
    have go: "pt ! (pm ! (2 * q)) = of_bool (g q = 1)" if "q < ?V div 2" for q using fq(2) [OF that] by (simp add: g_def)
    have at': "pm ! i < ?V \<and> src ! (pm ! i) = dest ! i" if "i < ?V" for i using at wp that by (simp add: wire_perm_def)
    have ho1: "l + 2 * m < length M1" "p + ?V div 2 \<le> length (M1 ! (l + 2 * m))"
      using ho(3,4) I(2) by (simp_all add: same_shape_def)
    from route_out_run [OF V(1) zero_less_Suc d(4) at' go pl ho1] obtain M2 z where
      O: "foldE (route_out ?N (l + 2 * m) p src pm pt) [0..<?V div 2] (M1, replicate (?V div 2) 0, replicate ((?V + 1) div 2) 0) =
        Inr (M2, half_at dest (\<lambda>q. g q = 1) (?V div 2), half_at dest (\<lambda>q. g q \<noteq> 1) (?V div 2) @ z)"
      "length z = (?V + 1) div 2 - ?V div 2" "same_shape M1 M2"
      "\<And>r k. M2 ! r ! k = (if r = l + 2 * m \<and> p \<le> k \<and> k < p + ?V div 2 then g (k - p) else M1 ! r ! k)"
      unfolding g_def by blast
    let ?lo = "low_half (\<lambda>q. f q = 1) src" and ?hi = "high_half (\<lambda>q. f q = 1) src"
    let ?lo' = "low_half (\<lambda>q. g q = 1) dest" and ?hi' = "high_half (\<lambda>q. g q = 1) dest"
    have halves: "half_at src (\<lambda>q. f q = 1) (?V div 2) = ?lo" "half_at dest (\<lambda>q. g q = 1) (?V div 2) = ?lo'"
      using half_at_halves(1) [of src "\<lambda>q. f q = 1"] half_at_halves(1) [of dest "\<lambda>q. g q = 1"] d(4) by simp_all
    have pl': "push_last src (half_at src (\<lambda>q. f q \<noteq> 1) (?V div 2)) = Inr ?hi"
      using push_last_run [of src "\<lambda>q. f q = 1"] by (simp add: half_at_def)
    have pu: "put_last dest ?V (half_at dest (\<lambda>q. g q \<noteq> 1) (?V div 2) @ z) = Inr ?hi'"
      using put_last_run [OF d(4) V(2) O(2), of "\<lambda>q. g q \<noteq> 1"] half_at_halves(2) [of dest "\<lambda>q. g q = 1"] d(4) by simp
    note ss = side_halves [OF sd(1) V(2), folded f_def]
    have sd': "side (length dest) (\<lambda>v. pt ! (pm ! v))" using sd(2) d(4) by simp
    note sdest = side_halves [OF sd' V(4), folded g_def]
    have sets: "set ?lo' = set ?lo" "set ?hi' = set ?hi"
      unfolding ss sdest d(4) by (rule outer_wires [OF wp], use at' in blast)+
    then have reo: "reorders ?lo ?lo'" "reorders ?hi ?hi'"
      using halves_distinct [OF d(1) V(2)] halves_distinct [OF d(2) V(4)] d(4) by (simp_all add: reorders_def)
    have sub: "set ?lo \<subseteq> set src" "set ?hi \<subseteq> set src" unfolding ss by auto
    have sh: "same_shape (switched b) M2" by (rule same_shape_trans [OF I(2) O(3)])
    define b2 where "b2 = b1\<lparr>switched := M2\<rparr>"
    have b2: "switched b2 = M2" "same_room b b2" using b1(4) by (simp_all add: b2_def same_room_def)
    have hl: "holds M2 m (l + 1) p (?V div 2)" "holds M2 m (l + 1) (p + ?V div 4) ((?V + 1) div 2)"
      using same_shape_holds [OF sh Suc.prems(4)] owns_halves [OF mm(1,2)] unfolding holds_def by blast+
    have r2: "room b2 ?lo" by (rule room_halves [OF Suc.prems(3) b2(2) sub(1)]) simp
    from Suc.IH [of ?lo ?lo' b2 "l + 1" p] mm(3) reo(1) r2 hl(1) b2(1) obtain b3 where
      L: "gen_benes_route m (l + 1) p ?lo ?lo' b2 = Inr b3" "same_room b2 b3" "routed M2 (switched b3) m (l + 1) p ?lo ?lo'" by auto
    have s3: "same_room b b3" using b2(2) L(2) by (simp add: same_room_def)
    have r3: "room b3 ?hi" using mm(2) by (intro room_halves [OF Suc.prems(3) s3 sub(2)]) simp
    have h3: "holds (switched b3) m (l + 1) (p + ?V div 4) ((?V + 1) div 2)"
      using L(3) hl(2) by (auto simp: routed_def intro: same_shape_holds)
    from Suc.IH [of ?hi ?hi' b3 "l + 1" "p + ?V div 4"] mm(4) reo(2) r3 h3 obtain b4 where
      H: "gen_benes_route m (l + 1) (p + ?V div 4) ?hi ?hi' b3 = Inr b4" "same_room b3 b4"
        "routed (switched b3) (switched b4) m (l + 1) (p + ?V div 4) ?hi ?hi'" by auto
    have bits: "f q \<in> {0, 1} \<and> g q \<in> {0, 1}" if "q < ?V div 2" for q
      using fq [OF that] by (cases "f q = 1"; cases "g q = 1") simp_all
    have "routed (switched b) (switched b4) ?N l p src dest"
      by (rule layers_compose [OF mm d(4) I(3) O(4) bits sh L(3) H(3)])
    moreover have "gen_benes_route ?N l p src dest b = Inr b4"
    proof -
      have row: "l + (2 * Suc m - 1) - 1 = l + 2 * m" by simp
      have n23: "?V \<noteq> 2" "?V \<noteq> 3" using mm(2) by simp_all
      show ?thesis
        using n23 by (simp only: gen_benes_route.simps [of "Suc m"] Let_def if_False nat.case row W [folded b1_def] bindE_simps
            b1(1-3) I(1) split pl' O(1) pu halves b2_def [symmetric] L(1) H(1))
    qed
    ultimately show ?thesis using s3 H(2) by (intro exI [where x = b4]) (simp add: same_room_def)
  qed
qed (simp add: fits_def)

end
