(* ===== verification/Benes_Masked.thy ===== *)
theory Benes_Masked
  imports Benes_Route
begin

text \<open>
  The evaluation of a routed network on masked values (\<open>gen_benes_masked_evaluate\<close> and
  \<open>return_gen_benes_switches\<close> in \<open>volePSI/osn/benes.cpp\<close>): every switch first xors a pair of blocks
  onto its two wires. The loops over \<open>i\<close> run over \<open>q = i / 2\<close>.
\<close>

type_synonym block = "128 word"

subsection \<open>Evaluation\<close>

definition mask_at :: "nat \<Rightarrow> nat \<Rightarrow> block \<times> block \<Rightarrow> block list \<Rightarrow> block list" where
  "mask_at i j = (\<lambda>(a, b) xs. xs[i := xs ! i XOR a, j := xs ! j XOR b])"

text \<open>One switch of the small networks.\<close>

definition masked_swap ::
  "int list list \<Rightarrow> (block \<times> block) list list \<Rightarrow> nat \<Rightarrow> nat \<Rightarrow> nat \<Rightarrow> nat \<Rightarrow> block list \<Rightarrow> block list result" where
  "masked_swap sw ot r c i j src =
     bindE (get2 ot r c) (\<lambda>t. bindE (get2 sw r c) (\<lambda>s. Inr (cond_swap s i j (mask_at i j t src))))"

definition masked_split ::
  "int list list \<Rightarrow> (block \<times> block) list list \<Rightarrow> nat \<Rightarrow> nat \<Rightarrow> nat \<Rightarrow> nat \<Rightarrow>
     block list \<times> block list \<times> block list \<Rightarrow> (block list \<times> block list \<times> block list) result" where
  "masked_split sw ot n row p q = (\<lambda>(src, halves).
     bindE (get2 sw row (p + q)) (\<lambda>s. bindE (get2 ot row (p + q)) (\<lambda>t.
     let src' = mask_at (2 * q) (2 * q + 1) t src in
     bindE (split_pair n (length src) src' q s halves) (\<lambda>halves'. Inr (src', halves')))))"

definition masked_merge ::
  "int list list \<Rightarrow> (block \<times> block) list list \<Rightarrow> nat \<Rightarrow> nat \<Rightarrow> nat \<Rightarrow> nat \<Rightarrow> block list \<Rightarrow> block list \<Rightarrow> nat \<Rightarrow>
     block list \<Rightarrow> block list result" where
  "masked_merge sw ot n values row p bots tops q src =
     bindE (get2 sw row (p + q)) (\<lambda>s.
     bindE (merge_pair n values bots tops q s src) (\<lambda>src'.
     bindE (get2 ot row (p + q)) (\<lambda>t.
     throw_if (s \<noteq> 0 \<and> s \<noteq> 1) OutOfBounds
       (Inr (mask_at (2 * q) (2 * q + 1) (if s = 0 then t else prod.swap t) src')))))"

fun gen_benes_masked_evaluate ::
  "int list list \<Rightarrow> nat \<Rightarrow> nat \<Rightarrow> nat \<Rightarrow> block list \<Rightarrow> (block \<times> block) list list \<Rightarrow> block list result" where
  "gen_benes_masked_evaluate sw n lvl_p perm_idx src ot =
     (let values = length src in
      if values = 2 then masked_swap sw ot (if n = 1 then lvl_p else lvl_p + 1) perm_idx 0 1 src
      else if values = 3 then
        bindE (masked_swap sw ot lvl_p perm_idx 0 1 src) (\<lambda>src0.
        bindE (masked_swap sw ot (lvl_p + 1) perm_idx 1 2 src0) (\<lambda>src1.
        masked_swap sw ot (lvl_p + 2) perm_idx 0 1 src1))
      else case n of 0 \<Rightarrow> no_level values
      | Suc m \<Rightarrow>
          bindE (foldE (masked_split sw ot n lvl_p perm_idx) [0..<values div 2] (src, [], [])) (\<lambda>(src0, bottom1, top0).
          bindE (push_last src0 top0) (\<lambda>top1.
          bindE (gen_benes_masked_evaluate sw m (lvl_p + 1) perm_idx bottom1 ot) (\<lambda>bots.
          bindE (gen_benes_masked_evaluate sw m (lvl_p + 1) (perm_idx + values div 4) top1 ot) (\<lambda>tops.
          bindE (foldE (masked_merge sw ot n values (lvl_p + (2 * n - 1) - 1) perm_idx bots tops) [0..<values div 2] src0) (\<lambda>src1.
          take_last tops src1))))))"

declare gen_benes_masked_evaluate.simps [simp del]

subsection \<open>Masked networks as functions\<close>

type_synonym masks = "nat \<Rightarrow> nat \<Rightarrow> block \<times> block"

text \<open>Masks on the pairs of a list; the last wire of an odd number has none.\<close>

definition pair_mask :: "(nat \<Rightarrow> block \<times> block) \<Rightarrow> block list \<Rightarrow> block list" where
  "pair_mask P xs = map (\<lambda>i. if i < 2 * (length xs div 2)
     then xs ! i XOR (if even i then fst (P (i div 2)) else snd (P (i div 2))) else xs ! i) [0..<length xs]"

definition low_mask :: "(nat \<Rightarrow> block \<times> block) \<Rightarrow> block list \<Rightarrow> block list" where
  "low_mask P bs = map (\<lambda>q. bs ! q XOR fst (P q)) [0..<length bs]"

definition high_mask :: "nat \<Rightarrow> (nat \<Rightarrow> block \<times> block) \<Rightarrow> block list \<Rightarrow> block list" where
  "high_mask h P ts = map (\<lambda>q. if q < h then ts ! q XOR snd (P q) else ts ! q) [0..<length ts]"

fun masked_network :: "switches \<Rightarrow> masks \<Rightarrow> nat \<Rightarrow> nat \<Rightarrow> nat \<Rightarrow> block list \<Rightarrow> block list" where
  "masked_network sw P n l p xs =
     (if length xs = 2 then
        (let r = (if n = 1 then l else l + 1) in swap_if (sw r p) 0 1 (mask_at 0 1 (P r p) xs))
      else if length xs = 3 then
        swap_if (sw (l + 2) p) 0 1 (mask_at 0 1 (P (l + 2) p)
          (swap_if (sw (l + 1) p) 1 2 (mask_at 1 2 (P (l + 1) p) (swap_if (sw l p) 0 1 (mask_at 0 1 (P l p) xs)))))
      else case n of 0 \<Rightarrow> xs
      | Suc m \<Rightarrow>
          (let V = length xs; ys = pair_mask (\<lambda>q. P l (p + q)) xs; d = (\<lambda>q. P (l + 2 * m) (p + q));
               bots = masked_network sw P m (l + 1) p (low_half (\<lambda>q. sw l (p + q)) ys);
               tops = masked_network sw P m (l + 1) (p + V div 4) (high_half (\<lambda>q. sw l (p + q)) ys) in
           join_halves V (\<lambda>q. sw (l + 2 * m) (p + q)) (low_mask d bots) (high_mask (V div 2) d tops)))"

declare masked_network.simps [simp del]

lemma length_masks [simp]:
  "length (pair_mask P xs) = length xs" "length (low_mask P xs) = length xs" "length (high_mask h P xs) = length xs"
  "length (mask_at i j t xs) = length xs"
  by (simp_all add: pair_mask_def low_mask_def high_mask_def mask_at_def split: prod.splits)

lemma length_masked_network [simp]: "length (masked_network sw P n l p xs) = length xs"
  by (cases n) (simp_all add: masked_network.simps Let_def)

subsection \<open>The masked evaluation computes the masked network\<close>

definition pads_has :: "(block \<times> block) list list \<Rightarrow> masks \<Rightarrow> nat \<Rightarrow> nat \<Rightarrow> nat \<Rightarrow> nat \<Rightarrow> bool" where
  "pads_has T P n l p V \<longleftrightarrow> (\<forall>r c. owns n l p V r c \<longrightarrow> get2 T r c = Inr (P r c))"

lemma pads_halves:
  assumes "pads_has T P (Suc m) l p V" "0 < m" "4 \<le> V"
  shows "pads_has T P m (l + 1) p (V div 2)" "pads_has T P m (l + 1) (p + V div 4) ((V + 1) div 2)"
    and "q < V div 2 \<Longrightarrow> get2 T l (p + q) = Inr (P l (p + q))"
    and "q < V div 2 \<Longrightarrow> get2 T (l + 2 * m) (p + q) = Inr (P (l + 2 * m) (p + q))"
proof -
  show "pads_has T P m (l + 1) p (V div 2)" "pads_has T P m (l + 1) (p + V div 4) ((V + 1) div 2)"
    using assms(1) owns_halves [OF assms(2,3)] unfolding pads_has_def by blast+
  show "q < V div 2 \<Longrightarrow> get2 T l (p + q) = Inr (P l (p + q))"
    "q < V div 2 \<Longrightarrow> get2 T (l + 2 * m) (p + q) = Inr (P (l + 2 * m) (p + q))"
    using assms(1) unfolding pads_has_def by (simp_all add: owns_def)
qed

definition pair_mask_upto :: "nat \<Rightarrow> (nat \<Rightarrow> block \<times> block) \<Rightarrow> block list \<Rightarrow> block list" where
  "pair_mask_upto k P xs = map (\<lambda>i. if i < 2 * k
     then xs ! i XOR (if even i then fst (P (i div 2)) else snd (P (i div 2))) else xs ! i) [0..<length xs]"

lemma pair_mask_upto_step:
  assumes "k < length xs div 2"
  shows "mask_at (2 * k) (2 * k + 1) (P k) (pair_mask_upto k P xs) = pair_mask_upto (Suc k) P xs"
proof (intro nth_equalityI)
  have k: "2 * k + 1 < length xs" using assms by linarith
  fix i assume "i < length (mask_at (2 * k) (2 * k + 1) (P k) (pair_mask_upto k P xs))"
  then have i: "i < length xs" by (simp add: pair_mask_upto_def)
  consider "i < 2 * k" | "i = 2 * k" | "i = 2 * k + 1" | "2 * Suc k \<le> i" by atomize_elim arith
  then show "mask_at (2 * k) (2 * k + 1) (P k) (pair_mask_upto k P xs) ! i = pair_mask_upto (Suc k) P xs ! i"
    using i k by cases (simp_all add: mask_at_def pair_mask_upto_def case_prod_unfold)
qed (simp add: pair_mask_upto_def)

lemma masked_split_loop:
  assumes "length src \<le> 2 ^ n" "0 < n" "\<And>q. q < length src div 2 \<Longrightarrow> get2 M row (p + q) = Inr (of_bool (c q))"
    and "\<And>q. q < length src div 2 \<Longrightarrow> get2 T row (p + q) = Inr (P q)"
  shows "foldE (masked_split M T n row p) [0..<length src div 2] (src, [], []) =
    Inr (pair_mask P src, low_half c (pair_mask P src),
      map (\<lambda>q. pair_mask P src ! (2 * q + of_bool (\<not> c q))) [0..<length src div 2])"
proof -
  let ?h = "length src div 2"
  let ?ys = "pair_mask P src"
  have stable: "pair_mask_upto (Suc k) P src ! (2 * k + of_bool b) = ?ys ! (2 * k + of_bool b)" if "k < ?h" for k b
  proof -
    have "2 * k + of_bool b < length src" "2 * k + of_bool b < 2 * ?h" using that by (cases b; simp; linarith)+
    then show ?thesis by (cases b) (simp_all add: pair_mask_upto_def pair_mask_def)
  qed
  have "foldE (masked_split M T n row p) [0..<k] (src, [], []) =
      Inr (pair_mask_upto k P src, map (\<lambda>q. ?ys ! (2 * q + of_bool (c q))) [0..<k], map (\<lambda>q. ?ys ! (2 * q + of_bool (\<not> c q))) [0..<k])"
    if "k \<le> ?h" for k
    using that
  proof (induction k)
    case 0
    show ?case by (simp add: pair_mask_upto_def map_nth)
  next
    case (Suc k)
    then have k: "k < ?h" by simp
    let ?now = "pair_mask_upto (Suc k) P src"
    have len: "length (pair_mask_upto j P src) = length src" for j by (simp add: pair_mask_upto_def)
    have "split_pair n (length src) ?now k (of_bool (c k)) (bs, ts) =
        Inr (bs @ [?now ! (2 * k + of_bool (c k))], ts @ [?now ! (2 * k + of_bool (\<not> c k))])" for bs ts
      using split_pair_run [of k ?now n "c k" bs ts] k assms(1,2) by (simp add: len)
    then show ?case
      using Suc.IH k assms(3,4) [OF k]
      by (simp add: foldE_append masked_split_def pair_mask_upto_step [OF k, simplified] stable [OF k] len)
  qed
  from this [OF order_refl] show ?thesis by (simp add: low_half_def pair_mask_def pair_mask_upto_def)
qed


lemma masked_merge_loop:
  assumes "V \<le> 2 ^ n" "0 < n" "length src = V" "length bs = V div 2" "length ts = (V + 1) div 2"
    and "\<And>q. q < V div 2 \<Longrightarrow> get2 M row (p + q) = Inr (of_bool (c q))"
    and "\<And>q. q < V div 2 \<Longrightarrow> get2 T row (p + q) = Inr (P q)"
  shows "foldE (masked_merge M T n V row p bs ts) [0..<V div 2] src =
    Inr (map (\<lambda>i. if i < 2 * (V div 2) then joined c (low_mask P bs) (high_mask (V div 2) P ts) i else src ! i) [0..<V])"
proof -
  let ?j = "joined c (low_mask P bs) (high_mask (V div 2) P ts)"
  have "foldE (masked_merge M T n V row p bs ts) [0..<k] src = Inr (map (\<lambda>i. if i < 2 * k then ?j i else src ! i) [0..<V])"
    if "k \<le> V div 2" for k
    using that
  proof (induction k)
    case 0
    show ?case using map_nth [of src] by (simp add: assms(3))
  next
    case (Suc k)
    let ?now = "map (\<lambda>i. if i < 2 * k then ?j i else src ! i) [0..<V]"
    have k: "k < V div 2" "k < length bs" "k < length ts" "2 * k + 1 < V" using Suc.prems assms(4,5) by linarith+
    have step: "merge_pair n V bs ts k (of_bool (c k)) ?now =
        Inr (?now[2 * k := (if c k then ts ! k else bs ! k), 2 * k + 1 := (if c k then bs ! k else ts ! k)])"
      using k assms by (intro merge_pair_run) simp_all
    let ?t = "if c k then prod.swap (P k) else P k"
    have "mask_at (2 * k) (2 * k + 1) ?t
          (?now[2 * k := (if c k then ts ! k else bs ! k), 2 * k + 1 := (if c k then bs ! k else ts ! k)]) =
        map (\<lambda>i. if i < 2 * Suc k then ?j i else src ! i) [0..<V]" (is "?L = ?R")
    proof (intro nth_equalityI)
      fix i assume "i < length ?L"
      then have i: "i < V" by simp
      consider "i < 2 * k" | "i = 2 * k" | "i = 2 * k + 1" | "2 * Suc k \<le> i" by atomize_elim arith
      then show "?L ! i = ?R ! i"
        using i k by cases (simp_all add: mask_at_def case_prod_unfold joined_def low_mask_def high_mask_def)
    qed simp
    then have "masked_merge M T n V row p bs ts k ?now = Inr ?R"
      unfolding masked_merge_def assms(6,7) [OF k(1)] bindE_simps step by (cases "c k") simp_all
    moreover have "k \<le> V div 2" using k(1) by simp
    ultimately show ?case using Suc.IH by (simp only: upt_Suc_append le0 foldE_append foldE.simps bindE_simps bindE_Inr)
  qed
  then show ?thesis by simp
qed

lemma take_last_masked:
  assumes "2 \<le> V" "length ts = (V + 1) div 2"
  shows "take_last ts (map (\<lambda>i. if i < 2 * (V div 2) then joined c bs (high_mask (V div 2) d ts) i else ys ! i) [0..<V]) =
    Inr (join_halves V c bs (high_mask (V div 2) d ts))"
proof -
  have "take_last ts xs = take_last (high_mask (V div 2) d ts) xs" if "length xs = V" for xs :: "block list"
  proof (cases "odd V")
    case True
    then have "(V + 1) div 2 - 1 < length ts" "\<not> (V + 1) div 2 - 1 < V div 2" using assms(2) by (simp, presburger)
    then show ?thesis using that by (simp add: take_last_def high_mask_def)
  qed (simp add: take_last_def that)
  then show ?thesis using take_last_run [OF assms(1), of "high_mask (V div 2) d ts" c bs ys] assms(2) by simp
qed

lemma gen_benes_masked_evaluate_run:
  assumes "fits n (length src)" "table_has M sw n l p (length src)" "pads_has T P n l p (length src)"
  shows "gen_benes_masked_evaluate M n l p src T = Inr (masked_network sw P n l p src)"
  using assms
proof (induction n arbitrary: l p src)
  case (Suc m)
  have swap_run: "masked_swap M T r c i j xs = Inr (swap_if (sw r c) i j (mask_at i j (P r c) xs))"
    if "owns (Suc m) l p (length src) r c" for r c i j xs
    using that Suc.prems(2,3) by (simp add: masked_swap_def table_has_def pads_has_def cond_swap_def swap_if_def)
  from Suc.prems(1) show ?case
  proof (cases rule: fits_cases)
    case two
    then have "owns (Suc m) l p (length src) (if Suc m = 1 then l else l + 1) p" by (auto simp: owns_def)
    then show ?thesis using two(1) by (simp add: gen_benes_masked_evaluate.simps masked_network.simps Let_def swap_run)
  next
    case three
    then have "owns (Suc m) l p (length src) l p" "owns (Suc m) l p (length src) (l + 1) p" "owns (Suc m) l p (length src) (l + 2) p"
      by (auto simp: owns_def)
    then show ?thesis
      using three(1) swap_run [of l p] swap_run [of "l + 1" p] swap_run [of "l + 2" p]
      by (simp add: gen_benes_masked_evaluate.simps masked_network.simps Let_def)
  next
    case (more m')
    let ?V = "length src"
    have m: "m' = m" "0 < m" "fits m (?V div 2)" "fits m ((?V + 1) div 2)" using more by simp_all
    have V: "?V \<le> 2 ^ Suc m" "2 \<le> ?V" "?V \<noteq> 2" "?V \<noteq> 3" using Suc.prems(1) more(2) by (simp_all add: fits_def)
    note t = table_halves [OF Suc.prems(2) m(2) more(2)]
    note u = pads_halves [OF Suc.prems(3) m(2) more(2)]
    let ?ys = "pair_mask (\<lambda>q. P l (p + q)) src"
    let ?lo = "low_half (\<lambda>q. sw l (p + q)) ?ys" and ?hi = "high_half (\<lambda>q. sw l (p + q)) ?ys"
    have lo: "gen_benes_masked_evaluate M m (l + 1) p ?lo T = Inr (masked_network sw P m (l + 1) p ?lo)"
      using m(3) t(1) u(1) by (intro Suc.IH) simp_all
    have hi: "gen_benes_masked_evaluate M m (l + 1) (p + ?V div 4) ?hi T = Inr (masked_network sw P m (l + 1) (p + ?V div 4) ?hi)"
      using m(4) t(2) u(2) by (intro Suc.IH) simp_all
    have row: "l + (2 * Suc m - 1) - 1 = l + 2 * m" by simp
    have pl: "push_last ?ys (map (\<lambda>q. ?ys ! (2 * q + of_bool (\<not> sw l (p + q)))) [0..<?V div 2]) = Inr ?hi"
      using push_last_run [of ?ys "\<lambda>q. sw l (p + q)"] by simp
    show ?thesis
      using V(3,4)
      by (simp only: gen_benes_masked_evaluate.simps [of M "Suc m"] masked_network.simps [of sw P "Suc m"] Let_def if_False nat.case row
          masked_split_loop [OF V(1) zero_less_Suc t(3) u(3)] bindE_simps split pl lo hi
          masked_merge_loop [OF V(1) zero_less_Suc _ _ _ t(4) u(4)] length_masks length_masked_network half_lengths take_last_masked [OF V(2)])
  qed
qed (simp add: fits_def)

end
