(* ===== verification/Osn.thy ===== *)
theory Osn
  imports Benes_Masked
begin

text \<open>
  The oblivious switching network (\<open>volePSI/osn/OSNReceiver.cpp\<close>, \<open>volePSI/osn/OSNSender.cpp\<close>): the
  receiver holds the input and gets masks, the sender holds the permutation and gets the permuted
  input xored with these masks.

  A message exchange is a function call: what one party sends is an argument of the other's step.
  Oblivious transfer is the interface of libOTe: the receiver's pairs \<open>tmp\<close> and the sender's
  messages \<open>ot_choose choices tmp\<close>. The block cipher that doubles a block, and the generators, are
  parameters. The threads of \<open>prepare_correction\<close> never start, as its counter is 0 after the first
  decrement: the two halves run in order, the upper one first.
\<close>

subsection \<open>The receiver\<close>

type_synonym pair = "block \<times> block"
type_synonym corrections = "(pair \<times> pair) list \<times> pair list"

text \<open>One switch: from the masks of its inputs to the masks of its outputs, and the correction of its second message.\<close>

definition switch_masks :: "nat \<Rightarrow> block \<Rightarrow> block \<Rightarrow> corrections \<Rightarrow> (pair \<times> corrections) result" where
  "switch_masks base_idx m0 m1 = (\<lambda>(ot, corr).
     bindE (vec_at ot base_idx) (\<lambda>((a0, a1), (b0, b1)).
     let w0 = a0 XOR m0; w1 = a1 XOR m1 in
     bindE (vec_set corr base_idx (b0 XOR m0 XOR w1, b1 XOR m1 XOR w0)) (\<lambda>corr'.
     Inr ((w0, w1), ot[base_idx := ((a0, a1), (m0 XOR w1, m1 XOR w0))], corr'))))"

definition correct_wires :: "nat \<Rightarrow> nat \<Rightarrow> nat \<Rightarrow> block list \<times> corrections \<Rightarrow> (block list \<times> corrections) result" where
  "correct_wires base_idx i j = (\<lambda>(src, s).
     bindE (switch_masks base_idx (src ! i) (src ! j) s) (\<lambda>((w0, w1), s'). Inr (src[i := w0, j := w1], s')))"

definition correct_in ::
  "nat \<Rightarrow> nat \<Rightarrow> block list \<times> block list \<times> block list \<times> corrections \<Rightarrow>
     (block list \<times> block list \<times> block list \<times> corrections) result" where
  "correct_in base q = (\<lambda>(src, bots, tops, s).
     bindE (correct_wires (base + q) (2 * q) (2 * q + 1) (src, s)) (\<lambda>(src', s').
     Inr (src', bots @ [src' ! (2 * q)], tops @ [src' ! (2 * q + 1)], s')))"

definition correct_out ::
  "nat \<Rightarrow> block list \<Rightarrow> block list \<Rightarrow> nat \<Rightarrow> block list \<times> corrections \<Rightarrow> (block list \<times> corrections) result" where
  "correct_out base bots tops q = (\<lambda>(src, s).
     bindE (vec_at tops q) (\<lambda>m1. bindE (vec_at bots q) (\<lambda>m0.
     bindE (switch_masks (base + q) m0 m1 s) (\<lambda>((w0, w1), s'). Inr (src[2 * q := w0, 2 * q + 1 := w1], s')))))"

fun prepare_correction ::
  "nat \<Rightarrow> nat \<Rightarrow> nat \<Rightarrow> nat \<Rightarrow> block list \<Rightarrow> corrections \<Rightarrow> (block list \<times> corrections) result" where
  "prepare_correction n Val lvl_p perm_idx src s =
     (let values = length src; base = (\<lambda>row. row * (Val div 2) + perm_idx) in
      if values = 2 then correct_wires (base (if n = 1 then lvl_p else lvl_p + 1)) 0 1 (src, s)
      else if values = 3 then
        bindE (correct_wires (base lvl_p) 0 1 (src, s)) (\<lambda>s0.
        bindE (correct_wires (base (lvl_p + 1)) 1 2 s0) (\<lambda>s1.
        correct_wires (base (lvl_p + 2)) 0 1 s1))
      else case n of 0 \<Rightarrow> no_level values
      | Suc m \<Rightarrow>
          bindE (foldE (correct_in (base lvl_p)) [0..<values div 2] (src, [], [], s)) (\<lambda>(src0, bottom1, top0, s0).
          bindE (push_last src0 top0) (\<lambda>top1.
          bindE (prepare_correction m Val (lvl_p + 1) (perm_idx + values div 4) top1 s0) (\<lambda>(tops, s1).
          bindE (prepare_correction m Val (lvl_p + 1) perm_idx bottom1 s1) (\<lambda>(bots, s2).
          bindE (foldE (correct_out (base (lvl_p + (2 * n - 1) - 1)) bots tops) [0..<values div 2] (src0, s2)) (\<lambda>(src1, s3).
          bindE (take_last tops src1) (\<lambda>src2. Inr (src2, s3))))))))"

declare prepare_correction.simps [simp del]

subsection \<open>Masks and messages agree\<close>

text \<open>
  The sender's pair at a switch: its message, corrected when it crosses the wires. \<open>xor2\<close> is the
  blockwise xor of two vectors.
\<close>

definition xor_pair :: "pair \<Rightarrow> pair \<Rightarrow> pair" where
  "xor_pair = (\<lambda>(a, b) (c, d). (a XOR c, b XOR d))"

definition xor2 :: "block list \<Rightarrow> block list \<Rightarrow> block list" where
  "xor2 xs ys = map (\<lambda>i. xs ! i XOR ys ! i) [0..<length xs]"

lemma length_xor2 [simp]: "length (xor2 xs ys) = length xs"
  by (simp add: xor2_def)

lemma xor2_nth [simp]: "i < length xs \<Longrightarrow> xor2 xs ys ! i = xs ! i XOR ys ! i"
  by (simp add: xor2_def)

text \<open>\<open>first\<close> and \<open>second\<close> are the receiver's two messages, \<open>corr\<close> its corrections, per switch.\<close>

definition sender_pad :: "switches \<Rightarrow> masks \<Rightarrow> masks \<Rightarrow> masks \<Rightarrow> masks" where
  "sender_pad sw A B C r c = (if sw r c then xor_pair (C r c) (B r c) else A r c)"

text \<open>The masks after a network are those of a network that never crosses.\<close>

abbreviation straight :: switches where
  "straight \<equiv> (\<lambda>r c. False)"

definition crossed :: "pair \<Rightarrow> block \<Rightarrow> block \<Rightarrow> pair" where
  "crossed A m0 m1 = (m0 XOR (snd A XOR m1), m1 XOR (fst A XOR m0))"

text \<open>\<open>corrected\<close>: at every switch of the network the correction fits the masks that arrive there.\<close>

fun corrected :: "masks \<Rightarrow> masks \<Rightarrow> nat \<Rightarrow> nat \<Rightarrow> nat \<Rightarrow> block list \<Rightarrow> bool" where
  "corrected A X n l p ms =
     (if length ms = 2 then
        (let r = (if n = 1 then l else l + 1) in X r p = crossed (A r p) (ms ! 0) (ms ! 1))
      else if length ms = 3 then
        (let s0 = mask_at 0 1 (A l p) ms; s1 = mask_at 1 2 (A (l + 1) p) s0 in
         X l p = crossed (A l p) (ms ! 0) (ms ! 1) \<and> X (l + 1) p = crossed (A (l + 1) p) (s0 ! 1) (s0 ! 2) \<and>
         X (l + 2) p = crossed (A (l + 2) p) (s1 ! 0) (s1 ! 1))
      else case n of 0 \<Rightarrow> True
      | Suc m \<Rightarrow>
          (let V = length ms; ys = pair_mask (\<lambda>q. A l (p + q)) ms;
               lo = low_half (\<lambda>q. False) ys; hi = high_half (\<lambda>q. False) ys;
               bots = masked_network straight A m (l + 1) p lo; tops = masked_network straight A m (l + 1) (p + V div 4) hi in
           (\<forall>q<V div 2. X l (p + q) = crossed (A l (p + q)) (ms ! (2 * q)) (ms ! (2 * q + 1))) \<and>
           corrected A X m (l + 1) p lo \<and> corrected A X m (l + 1) (p + V div 4) hi \<and>
           (\<forall>q<V div 2. X (l + 2 * m) (p + q) = crossed (A (l + 2 * m) (p + q)) (bots ! q) (tops ! q))))"

declare corrected.simps [simp del]

lemma switch_xor:
  "(x0 XOR m0) XOR fst (if s then crossed A m0 m1 else A) = x0 XOR (if s then snd A XOR m1 else fst A XOR m0)"
  "(x1 XOR m1) XOR snd (if s then crossed A m0 m1 else A) = x1 XOR (if s then fst A XOR m0 else snd A XOR m1)"
  by (simp_all add: crossed_def ac_simps)


lemma halves_xor:
  fixes xs ms :: "block list"
  assumes "length xs = length ms" "2 \<le> length ms"
    and P: "\<And>q. q < length ms div 2 \<Longrightarrow> P q = (if c q then crossed (A q) (ms ! (2 * q)) (ms ! (2 * q + 1)) else A q)"
  shows "low_half c (pair_mask P (xor2 xs ms)) = xor2 (low_half c xs) (low_half (\<lambda>q. False) (pair_mask A ms))"
    and "high_half c (pair_mask P (xor2 xs ms)) = xor2 (high_half c xs) (high_half (\<lambda>q. False) (pair_mask A ms))"
proof -
  let ?V = "length ms" and ?z = "pair_mask P (xor2 xs ms)" and ?y = "pair_mask A ms"
  have w: "?z ! (2 * q) = xs ! (2 * q) XOR (if c q then ?y ! (2 * q + 1) else ?y ! (2 * q))"
    "?z ! (2 * q + 1) = xs ! (2 * q + 1) XOR (if c q then ?y ! (2 * q) else ?y ! (2 * q + 1))" if q: "q < ?V div 2" for q
  proof -
    have i: "2 * q < ?V" "2 * q + 1 < ?V" "2 * q < 2 * (?V div 2)" "2 * q + 1 < 2 * (?V div 2)" using q by linarith+
    have "?z ! (2 * q) = (xs ! (2 * q) XOR ms ! (2 * q)) XOR fst (P q)" "?z ! (2 * q + 1) = (xs ! (2 * q + 1) XOR ms ! (2 * q + 1)) XOR snd (P q)"
      "?y ! (2 * q) = ms ! (2 * q) XOR fst (A q)" "?y ! (2 * q + 1) = ms ! (2 * q + 1) XOR snd (A q)"
      using i assms(1) by (simp_all add: pair_mask_def)
    then show "?z ! (2 * q) = xs ! (2 * q) XOR (if c q then ?y ! (2 * q + 1) else ?y ! (2 * q))"
      "?z ! (2 * q + 1) = xs ! (2 * q + 1) XOR (if c q then ?y ! (2 * q) else ?y ! (2 * q + 1))"
      unfolding P [OF q] switch_xor by (simp_all add: ac_simps)
  qed
  show "low_half c ?z = xor2 (low_half c xs) (low_half (\<lambda>q. False) ?y)"
    using w assms(1) by (intro nth_equalityI) (auto simp: low_half_def)
  have ne: "xs \<noteq> []" "ms \<noteq> []" using assms by auto
  show "high_half c ?z = xor2 (high_half c xs) (high_half (\<lambda>q. False) ?y)"
  proof (intro nth_equalityI)
    fix i assume "i < length (high_half c ?z)"
    then have i: "i < (?V + 1) div 2" using assms(1) by simp
    show "high_half c ?z ! i = xor2 (high_half c xs) (high_half (\<lambda>q. False) ?y) ! i"
    proof (cases "i < ?V div 2")
      case True
      then show ?thesis using w [OF True] i assms(1) by (simp add: high_half_def nth_append)
    next
      case False
      then have o: "odd ?V" "i = ?V div 2" using i by presburger+
      then have l: "\<not> ?V - 1 < 2 * (?V div 2)" "?V - 1 < ?V" using assms(2) by presburger+
      have ls: "length ?z = ?V" "length ?y = ?V" using assms(1) by simp_all
      have n: "?z \<noteq> []" "?y \<noteq> []" unfolding length_0_conv [symmetric] ls using ne(2) by simp_all
      have "last ?z = ?z ! (?V - 1)" "last ?y = ?y ! (?V - 1)" "last xs = xs ! (?V - 1)"
        using ls assms(1) last_conv_nth [OF n(1)] last_conv_nth [OF n(2)] last_conv_nth [OF ne(1)] by simp_all
      moreover have "?z ! (?V - 1) = xs ! (?V - 1) XOR ms ! (?V - 1)" "?y ! (?V - 1) = ms ! (?V - 1)"
        using l assms(1) by (simp_all add: pair_mask_def)
      ultimately have "last ?z = last xs XOR last ?y" by simp
      then show ?thesis using o assms(1) by (simp add: high_half_def nth_append)
    qed
  qed (simp add: assms(1))
qed

lemma join_nth:
  assumes "i < V"
  shows "\<not> (odd V \<and> i = V - 1) \<Longrightarrow> join_halves V c bs ts ! i = (if odd i = c (i div 2) then bs ! (i div 2) else ts ! (i div 2))"
    and "odd V \<and> i = V - 1 \<Longrightarrow> join_halves V c bs ts ! i = last ts"
  using assms by (auto simp: join_halves_def)

lemma join_xor:
  fixes bs ts \<beta> \<tau> :: "block list"
  assumes "length bs = V div 2" "length \<beta> = V div 2" "length ts = (V + 1) div 2" "length \<tau> = (V + 1) div 2" "2 \<le> V"
    and P: "\<And>q. q < V div 2 \<Longrightarrow> P q = (if d q then crossed (A q) (\<beta> ! q) (\<tau> ! q) else A q)"
  shows "join_halves V d (low_mask P (xor2 bs \<beta>)) (high_mask (V div 2) P (xor2 ts \<tau>)) =
    xor2 (join_halves V d bs ts) (join_halves V (\<lambda>q. False) (low_mask A \<beta>) (high_mask (V div 2) A \<tau>))"
proof (intro nth_equalityI)
  let ?l = "low_mask P (xor2 bs \<beta>)" and ?h = "high_mask (V div 2) P (xor2 ts \<tau>)"
  fix i assume "i < length (join_halves V d ?l ?h)"
  then have i: "i < V" by simp
  show "join_halves V d ?l ?h ! i = xor2 (join_halves V d bs ts) (join_halves V (\<lambda>q. False) (low_mask A \<beta>) (high_mask (V div 2) A \<tau>)) ! i"
  proof (cases "odd V \<and> i = V - 1")
    case True
    then have h: "(V + 1) div 2 = Suc (V div 2)" by presburger
    then have k: "length \<tau> - 1 < length ts" "\<not> length \<tau> - 1 < V div 2" using assms(3,4) by simp_all
    have "\<tau> \<noteq> []" "ts \<noteq> []" using h assms(3,4) by auto
    note k = k this
    have "last ?h = last ts XOR last \<tau>" "last (high_mask (V div 2) A \<tau>) = last \<tau>"
    proof -
      have ls: "length ?h = length \<tau>" "length (high_mask (V div 2) A \<tau>) = length \<tau>" using assms(3,4) by simp_all
      have n: "?h \<noteq> []" "high_mask (V div 2) A \<tau> \<noteq> []"
        unfolding length_0_conv [symmetric] ls using k(3) by simp_all
      have "last ?h = ?h ! (length \<tau> - 1)" "last (high_mask (V div 2) A \<tau>) = high_mask (V div 2) A \<tau> ! (length \<tau> - 1)"
        "last ts = ts ! (length \<tau> - 1)" "last \<tau> = \<tau> ! (length \<tau> - 1)"
        using ls assms(3,4) last_conv_nth [OF n(1)] last_conv_nth [OF n(2)] last_conv_nth [OF k(3)] last_conv_nth [OF k(4)] by simp_all
      then show "last ?h = last ts XOR last \<tau>" "last (high_mask (V div 2) A \<tau>) = last \<tau>"
        using k(1,2) assms(3,4) by (simp_all add: high_mask_def)
    qed
    then show ?thesis using i by (simp add: join_nth(2) [OF i True])
  next
    case False
    let ?q = "i div 2"
    have q: "?q < V div 2" "?q < (V + 1) div 2" using i False by presburger+
    have e: "?l ! ?q = (bs ! ?q XOR \<beta> ! ?q) XOR fst (P ?q)" "?h ! ?q = (ts ! ?q XOR \<tau> ! ?q) XOR snd (P ?q)"
      "low_mask A \<beta> ! ?q = \<beta> ! ?q XOR fst (A ?q)" "high_mask (V div 2) A \<tau> ! ?q = \<tau> ! ?q XOR snd (A ?q)"
      using q assms(1-4) by (simp_all add: low_mask_def high_mask_def)
    show ?thesis
      using i e unfolding P [OF q(1)] switch_xor
      by (cases "odd i"; cases "d ?q") (simp_all add: join_nth(1) [OF i False] ac_simps)
  qed
qed simp

lemma swap_xor:
  assumes "length xs = length ms" "i < length ms" "j < length ms" "i \<noteq> j"
    and "P = (if b then crossed A (ms ! i) (ms ! j) else A)"
  shows "swap_if b i j (mask_at i j P (xor2 xs ms)) = xor2 (swap_if b i j xs) (mask_at i j A ms)"
proof (intro nth_equalityI)
  fix k assume "k < length (swap_if b i j (mask_at i j P (xor2 xs ms)))"
  then have k: "k < length ms" using assms(1) by simp
  have m: "mask_at i j Q ys ! h = (if h = j then ys ! j XOR snd Q else if h = i then ys ! i XOR fst Q else ys ! h)"
    if "length ys = length ms" "h < length ms" for Q ys h
    using that assms(2-4) by (cases Q) (simp add: mask_at_def nth_list_update)
  show "swap_if b i j (mask_at i j P (xor2 xs ms)) ! k = xor2 (swap_if b i j xs) (mask_at i j A ms) ! k"
    using k assms(1-4) unfolding assms(5)
    by (cases b; cases "k = i"; cases "k = j") (simp_all add: swap_if_def m crossed_def ac_simps)
qed (simp add: assms(1))

lemma masked_linear:
  assumes "fits n (length ms)" "length xs = length ms" "corrected A X n l p ms"
  shows "masked_network sw (\<lambda>r c. if sw r c then X r c else A r c) n l p (xor2 xs ms) =
    xor2 (network sw n l p xs) (masked_network straight A n l p ms)"
  using assms
proof (induction n arbitrary: l p xs ms)
  case (Suc m)
  let ?P = "\<lambda>r c. if sw r c then X r c else A r c"
  from Suc.prems(1) show ?case
  proof (cases rule: fits_cases)
    case two
    then show ?thesis
      using Suc.prems(2,3) by (simp add: masked_network.simps network.simps corrected.simps Let_def swap_xor swap_if_def [of False])
  next
    case three
    define s0 s1 where "s0 = mask_at 0 1 (A l p) ms" and "s1 = mask_at 1 2 (A (l + 1) p) s0"
    define y0 y1 where "y0 = swap_if (sw l p) 0 1 xs" and "y1 = swap_if (sw (l + 1) p) 1 2 y0"
    have len: "length s0 = 3" "length s1 = 3" "length y0 = 3" "length y1 = 3" "length ms = 3" "length xs = 3"
      using three(1) Suc.prems(2) by (simp_all add: s0_def s1_def y0_def y1_def)
    have X: "X l p = crossed (A l p) (ms ! 0) (ms ! 1)" "X (l + 1) p = crossed (A (l + 1) p) (s0 ! 1) (s0 ! 2)"
      "X (l + 2) p = crossed (A (l + 2) p) (s1 ! 0) (s1 ! 1)"
      using Suc.prems(3) len(5) by (simp_all add: corrected.simps Let_def s0_def s1_def)
    have e0: "swap_if (sw l p) 0 1 (mask_at 0 1 (?P l p) (xor2 xs ms)) = xor2 y0 s0"
      unfolding y0_def s0_def by (rule swap_xor) (use X in \<open>simp_all add: len\<close>)
    have e1: "swap_if (sw (l + 1) p) 1 2 (mask_at 1 2 (?P (l + 1) p) (xor2 y0 s0)) = xor2 y1 s1"
      unfolding y1_def s1_def by (rule swap_xor) (use X in \<open>simp_all add: len\<close>)
    have e2: "swap_if (sw (l + 2) p) 0 1 (mask_at 0 1 (?P (l + 2) p) (xor2 y1 s1)) =
        xor2 (swap_if (sw (l + 2) p) 0 1 y1) (mask_at 0 1 (A (l + 2) p) s1)"
      by (rule swap_xor) (use X in \<open>simp_all add: len\<close>)
    have "masked_network sw ?P (Suc m) l p (xor2 xs ms) = swap_if (sw (l + 2) p) 0 1 (mask_at 0 1 (?P (l + 2) p)
        (swap_if (sw (l + 1) p) 1 2 (mask_at 1 2 (?P (l + 1) p) (swap_if (sw l p) 0 1 (mask_at 0 1 (?P l p) (xor2 xs ms))))))"
      by (simp only: masked_network.simps [of sw ?P "Suc m"] length_xor2 len) simp
    moreover have "network sw (Suc m) l p xs = swap_if (sw (l + 2) p) 0 1 y1"
      by (simp add: network.simps y0_def y1_def len)
    moreover have "masked_network straight A (Suc m) l p ms = mask_at 0 1 (A (l + 2) p) s1"
      by (simp add: masked_network.simps s0_def s1_def len swap_if_def)
    ultimately show ?thesis unfolding e0 e1 e2 by simp
  next
    case (more m')
    let ?V = "length ms"
    let ?y = "pair_mask (\<lambda>q. A l (p + q)) ms" and ?z = "pair_mask (\<lambda>q. ?P l (p + q)) (xor2 xs ms)"
    let ?c = "\<lambda>q. sw l (p + q)" and ?d = "\<lambda>q. sw (l + 2 * m) (p + q)"
    let ?lo = "low_half (\<lambda>q. False) ?y" and ?hi = "high_half (\<lambda>q. False) ?y"
    define \<beta> \<tau> where "\<beta> = masked_network straight A m (l + 1) p ?lo"
      and "\<tau> = masked_network straight A m (l + 1) (p + ?V div 4) ?hi"
    have V: "2 \<le> ?V" "?V \<noteq> 2" "?V \<noteq> 3" "length xs = ?V" "fits m (?V div 2)" "fits m ((?V + 1) div 2)"
      using more Suc.prems(2) by simp_all
    have C: "\<forall>q<?V div 2. X l (p + q) = crossed (A l (p + q)) (ms ! (2 * q)) (ms ! (2 * q + 1))"
      "corrected A X m (l + 1) p ?lo" "corrected A X m (l + 1) (p + ?V div 4) ?hi"
      "\<forall>q<?V div 2. X (l + 2 * m) (p + q) = crossed (A (l + 2 * m) (p + q)) (\<beta> ! q) (\<tau> ! q)"
      using Suc.prems(3) V(2,3) unfolding corrected.simps [of A X "Suc m"] Let_def \<beta>_def \<tau>_def by simp_all
    have in': "low_half ?c ?z = xor2 (low_half ?c xs) ?lo" "high_half ?c ?z = xor2 (high_half ?c xs) ?hi"
      using C(1) by (intro halves_xor [OF V(4,1)]; simp)+
    have lo: "masked_network sw ?P m (l + 1) p (low_half ?c ?z) = xor2 (network sw m (l + 1) p (low_half ?c xs)) \<beta>"
      unfolding in' \<beta>_def using V(4,5) C(2) by (intro Suc.IH) simp_all
    have hi: "masked_network sw ?P m (l + 1) (p + ?V div 4) (high_half ?c ?z) =
        xor2 (network sw m (l + 1) (p + ?V div 4) (high_half ?c xs)) \<tau>"
      unfolding in' \<tau>_def using V(4,6) C(3) by (intro Suc.IH) simp_all
    let ?b = "network sw m (l + 1) p (low_half ?c xs)" and ?t = "network sw m (l + 1) (p + ?V div 4) (high_half ?c xs)"
    have "join_halves ?V ?d (low_mask (\<lambda>q. ?P (l + 2 * m) (p + q)) (xor2 ?b \<beta>)) (high_mask (?V div 2) (\<lambda>q. ?P (l + 2 * m) (p + q)) (xor2 ?t \<tau>)) =
        xor2 (join_halves ?V ?d ?b ?t) (join_halves ?V (\<lambda>q. False) (low_mask (\<lambda>q. A (l + 2 * m) (p + q)) \<beta>)
          (high_mask (?V div 2) (\<lambda>q. A (l + 2 * m) (p + q)) \<tau>))"
      using C(4) V(1,4) by (intro join_xor) (simp_all add: \<beta>_def \<tau>_def)
    moreover have "masked_network sw ?P (Suc m) l p (xor2 xs ms) = join_halves ?V ?d
        (low_mask (\<lambda>q. ?P (l + 2 * m) (p + q)) (masked_network sw ?P m (l + 1) p (low_half ?c ?z)))
        (high_mask (?V div 2) (\<lambda>q. ?P (l + 2 * m) (p + q)) (masked_network sw ?P m (l + 1) (p + ?V div 4) (high_half ?c ?z)))"
      using V(2-4) by (simp only: masked_network.simps [of sw ?P "Suc m"] length_xor2 Let_def if_False nat.case)
    moreover have "network sw (Suc m) l p xs = join_halves ?V ?d ?b ?t"
      using V(2-4) by (simp only: network.simps [of sw "Suc m"] if_False nat.case)
    moreover have "masked_network straight A (Suc m) l p ms = join_halves ?V (\<lambda>q. False) (low_mask (\<lambda>q. A (l + 2 * m) (p + q)) \<beta>)
          (high_mask (?V div 2) (\<lambda>q. A (l + 2 * m) (p + q)) \<tau>)"
      using V(2,3) by (simp only: masked_network.simps [of straight A "Suc m"] Let_def if_False nat.case \<beta>_def \<tau>_def)
    ultimately show ?thesis by (simp only: lo hi)
  qed
qed (simp add: fits_def)


lemma corrected_cong:
  assumes "fits n (length ms)" "\<And>r c. owns n l p (length ms) r c \<Longrightarrow> X r c = Y r c"
  shows "corrected A X n l p ms = corrected A Y n l p ms"
  using assms
proof (induction n arbitrary: l p ms)
  case (Suc m)
  from Suc.prems(1) show ?case
  proof (cases rule: fits_cases)
    case two
    then show ?thesis using Suc.prems(2) by (auto simp: corrected.simps Let_def owns_def)
  next
    case three
    then have "X l p = Y l p" "X (l + 1) p = Y (l + 1) p" "X (l + 2) p = Y (l + 2) p"
      using Suc.prems(2) by (simp_all add: owns_def)
    then show ?thesis using three(1) by (simp add: corrected.simps Let_def)
  next
    case (more m')
    let ?V = "length ms"
    have m: "m' = m" "0 < m" using more by simp_all
    have own: "X l (p + q) = Y l (p + q)" "X (l + 2 * m) (p + q) = Y (l + 2 * m) (p + q)" if "q < ?V div 2" for q
      using Suc.prems(2) [of l "p + q"] Suc.prems(2) [of "l + 2 * m" "p + q"] that m(2) by (simp_all add: owns_def)
    have "corrected A X m (l + 1) p ys = corrected A Y m (l + 1) p ys" if "length ys = ?V div 2" for ys
      using more m that owns_halves(1) [OF m(2) more(2)] Suc.prems(2) by (intro Suc.IH) auto
    moreover have "corrected A X m (l + 1) (p + ?V div 4) ys = corrected A Y m (l + 1) (p + ?V div 4) ys"
      if "length ys = (?V + 1) div 2" for ys
      using more m that owns_halves(2) [OF m(2) more(2)] Suc.prems(2) by (intro Suc.IH) auto
    ultimately show ?thesis
      using more(2) own by (simp add: corrected.simps [of _ _ "Suc m"] Let_def)
  qed
qed (simp add: fits_def)

subsection \<open>The receiver computes masks and corrections\<close>

definition upd_switch :: "nat \<Rightarrow> block \<Rightarrow> block \<Rightarrow> corrections \<Rightarrow> corrections" where
  "upd_switch i m0 m1 = (\<lambda>(ot, corr). let x = crossed (fst (ot ! i)) m0 m1 in
     (ot[i := (fst (ot ! i), x)], corr[i := xor_pair x (snd (ot ! i))]))"

definition out_masks :: "pair \<Rightarrow> block \<Rightarrow> block \<Rightarrow> pair" where
  "out_masks A m0 m1 = (fst A XOR m0, snd A XOR m1)"

lemma switch_masks_run:
  assumes "i < length ot" "i < length corr"
  shows "switch_masks i m0 m1 (ot, corr) = Inr (out_masks (fst (ot ! i)) m0 m1, upd_switch i m0 m1 (ot, corr))"
proof -
  obtain a0 a1 b0 b1 where "ot ! i = ((a0, a1), (b0, b1))" by (metis prod.collapse)
  then show ?thesis
    using assms by (simp add: switch_masks_def upd_switch_def out_masks_def crossed_def xor_pair_def Let_def ac_simps)
qed

lemma xor_pair_cancel [simp]: "xor_pair (xor_pair x b) b = x"
  by (cases x; cases b) (simp add: xor_pair_def ac_simps)

text \<open>What a row of switches, and a network, do to the arrays.\<close>

definition row_done :: "nat \<Rightarrow> (nat \<Rightarrow> block) \<Rightarrow> (nat \<Rightarrow> block) \<Rightarrow> nat \<Rightarrow> corrections \<Rightarrow> corrections \<Rightarrow> bool" where
  "row_done base f g k s s' \<longleftrightarrow> length (fst s') = length (fst s) \<and> length (snd s') = length (snd s) \<and>
     (\<forall>j. j < base \<or> base + k \<le> j \<longrightarrow> fst s' ! j = fst s ! j \<and> snd s' ! j = snd s ! j) \<and>
     (\<forall>q<k. xor_pair (snd s' ! (base + q)) (snd (fst s ! (base + q))) = crossed (fst (fst s ! (base + q))) (f q) (g q))"

lemma upd_facts [simp]:
  "length (fst (upd_switch i m0 m1 s)) = length (fst s)" "length (snd (upd_switch i m0 m1 s)) = length (snd s)"
  "j \<noteq> i \<Longrightarrow> fst (upd_switch i m0 m1 s) ! j = fst s ! j \<and> snd (upd_switch i m0 m1 s) ! j = snd s ! j"
  by (cases s; simp add: upd_switch_def Let_def)+

lemma upd_at: "i < length (snd s) \<Longrightarrow> snd (upd_switch i m0 m1 s) ! i = xor_pair (crossed (fst (fst s ! i)) m0 m1) (snd (fst s ! i))"
  by (cases s) (simp add: upd_switch_def Let_def)

lemma correct_row:
  assumes "\<And>q s'. q < k \<Longrightarrow> length (fst s') = length (fst s) \<Longrightarrow> length (snd s') = length (snd s) \<Longrightarrow>
      fst s' ! (base + q) = fst s ! (base + q) \<Longrightarrow> step q (st q s') = Inr (st (Suc q) (upd_switch (base + q) (f q) (g q) s'))"
    and "base + k \<le> length (fst s)" "base + k \<le> length (snd s)"
  shows "\<exists>s'. foldE step [0..<k] (st 0 s) = Inr (st k s') \<and> row_done base f g k s s'"
  using assms
proof (induction k)
  case 0
  show ?case by (intro exI [where x = s]) (simp add: row_done_def)
next
  case (Suc k)
  then obtain s1 where s1: "foldE step [0..<k] (st 0 s) = Inr (st k s1)" "row_done base f g k s s1" by auto
  have l: "length (fst s1) = length (fst s)" "length (snd s1) = length (snd s)" "fst s1 ! (base + k) = fst s ! (base + k)"
    using s1(2) by (simp_all add: row_done_def)
  let ?s = "upd_switch (base + k) (f k) (g k) s1"
  have b: "base + k < length (fst s1)" "base + k < length (snd s1)" using Suc.prems(2,3) l by simp_all
  note u = upd_facts [where i = "base + k" and ?m0.0 = "f k" and ?m1.0 = "g k" and s = s1] upd_at [OF b(2), of "f k" "g k"]
  have "row_done base f g (Suc k) s ?s"
    unfolding row_done_def
  proof (intro conjI allI impI)
    show "length (fst ?s) = length (fst s)" "length (snd ?s) = length (snd s)" using u(1,2) l by simp_all
    fix j assume "j < base \<or> base + Suc k \<le> j"
    then have "j \<noteq> base + k" "j < base \<or> base + k \<le> j" by auto
    then show "fst ?s ! j = fst s ! j" "snd ?s ! j = snd s ! j" using u(3) s1(2) by (auto simp: row_done_def)
  next
    fix q assume "q < Suc k"
    then show "xor_pair (snd ?s ! (base + q)) (snd (fst s ! (base + q))) = crossed (fst (fst s ! (base + q))) (f q) (g q)"
      using u(3,4) l(3) s1(2) by (cases "q = k") (simp_all add: row_done_def)
  qed
  moreover have "foldE step [0..<Suc k] (st 0 s) = Inr (st (Suc k) ?s)"
    using s1(1) Suc.prems(1) [OF lessI l] by (simp add: foldE_append)
  ultimately show ?case by blast
qed


lemma correct_wires_run:
  assumes "k < length (fst s)" "k < length (snd s)"
  shows "correct_wires k i j (src, s) = Inr (mask_at i j (fst (fst s ! k)) src, upd_switch k (src ! i) (src ! j) s)"
  using assms by (cases s) (simp add: correct_wires_def switch_masks_run out_masks_def mask_at_def case_prod_unfold ac_simps)

definition slot :: "nat \<Rightarrow> nat \<Rightarrow> nat \<Rightarrow> nat" where
  "slot Val r c = r * (Val div 2) + c"

lemma slot_inj:
  assumes "slot Val r c = slot Val r' c'" "c < Val div 2" "c' < Val div 2"
  shows "r = r'" "c = c'"
proof -
  have "slot Val r c div (Val div 2) = r" "slot Val r' c' div (Val div 2) = r'"
    using assms(2,3) by (simp_all add: slot_def)
  then show "r = r'" using assms(1) by simp
  then show "c = c'" using assms(1) by (simp add: slot_def)
qed

definition net_done :: "nat \<Rightarrow> nat \<Rightarrow> nat \<Rightarrow> nat \<Rightarrow> nat \<Rightarrow> corrections \<Rightarrow> corrections \<Rightarrow> bool" where
  "net_done Val n l p V s s' \<longleftrightarrow> length (fst s') = length (fst s) \<and> length (snd s') = length (snd s) \<and>
     (\<forall>j. (\<forall>r c. owns n l p V r c \<longrightarrow> j \<noteq> slot Val r c) \<longrightarrow> fst s' ! j = fst s ! j \<and> snd s' ! j = snd s ! j)"

definition supplied :: "nat \<Rightarrow> nat \<Rightarrow> nat \<Rightarrow> nat \<Rightarrow> nat \<Rightarrow> masks \<Rightarrow> masks \<Rightarrow> corrections \<Rightarrow> bool" where
  "supplied Val n l p V A B s \<longleftrightarrow> (\<forall>r c. owns n l p V r c \<longrightarrow>
     slot Val r c < length (fst s) \<and> slot Val r c < length (snd s) \<and> fst s ! slot Val r c = (A r c, B r c))"

text \<open>The corrected second messages a network leaves behind.\<close>

definition fixes_of :: "nat \<Rightarrow> masks \<Rightarrow> corrections \<Rightarrow> masks" where
  "fixes_of Val B s r c = xor_pair (snd s ! slot Val r c) (B r c)"

lemma prepare_two:
  assumes "length ms = 2" "n = 1 \<or> n = 2" "p + 1 \<le> Val div 2" "supplied Val n l p 2 A B s"
  shows "\<exists>s'. prepare_correction n Val l p ms s = Inr (masked_network straight A n l p ms, s') \<and> net_done Val n l p 2 s s' \<and>
    corrected A (fixes_of Val B s') n l p ms"
proof -
  let ?r = "if n = 1 then l else l + 1"
  have o: "owns n l p 2 ?r p" using assms(2) by (auto simp: owns_def)
  then have k: "slot Val ?r p < length (fst s)" "slot Val ?r p < length (snd s)" "fst s ! slot Val ?r p = (A ?r p, B ?r p)"
    using assms(4) unfolding supplied_def by blast+
  let ?s = "upd_switch (slot Val ?r p) (ms ! 0) (ms ! 1) s"
  have "prepare_correction n Val l p ms s = Inr (mask_at 0 1 (A ?r p) ms, ?s)"
    using assms(1) correct_wires_run [OF k(1,2), of 0 1 ms] k(3) by (simp add: prepare_correction.simps Let_def slot_def)
  moreover have "masked_network straight A n l p ms = mask_at 0 1 (A ?r p) ms"
    using assms(1) by (simp add: masked_network.simps Let_def swap_if_def)
  moreover have "net_done Val n l p 2 s ?s" unfolding net_done_def using o by auto
  moreover have "fixes_of Val B ?s ?r p = crossed (A ?r p) (ms ! 0) (ms ! 1)"
    unfolding fixes_of_def upd_at [OF k(2)] k(3) by simp
  then have "corrected A (fixes_of Val B ?s) n l p ms" using assms(1) by (simp add: corrected.simps Let_def)
  ultimately show ?thesis by auto
qed

lemma prepare_three:
  assumes "length ms = 3" "p + 1 \<le> Val div 2" "supplied Val 2 l p 3 A B s"
  shows "\<exists>s'. prepare_correction 2 Val l p ms s = Inr (masked_network straight A 2 l p ms, s') \<and> net_done Val 2 l p 3 s s' \<and>
    corrected A (fixes_of Val B s') 2 l p ms"
proof -
  have o: "owns 2 l p 3 (l + i) p" if "i < 3" for i using that by (simp add: owns_def)
  have k: "slot Val (l + i) p < length (fst s) \<and> slot Val (l + i) p < length (snd s) \<and> fst s ! slot Val (l + i) p = (A (l + i) p, B (l + i) p)"
    if "i < 3" for i using assms(3) o [OF that] unfolding supplied_def by blast
  have d: "slot Val (l + i) p \<noteq> slot Val (l + j) p" if "i \<noteq> j" for i j
    using slot_inj(1) [of Val "l + i" p "l + j" p] assms(2) that by auto
  define s0 where "s0 = upd_switch (slot Val (l + 0) p) (ms ! 0) (ms ! 1) s"
  define m0 where "m0 = mask_at 0 1 (A (l + 0) p) ms"
  define s1 where "s1 = upd_switch (slot Val (l + 1) p) (m0 ! 1) (m0 ! 2) s0"
  define m1 where "m1 = mask_at 1 2 (A (l + 1) p) m0"
  define s2 where "s2 = upd_switch (slot Val (l + 2) p) (m1 ! 0) (m1 ! 1) s1"
  define m2 where "m2 = mask_at 0 1 (A (l + 2) p) m1"
  have at: "fst s0 ! slot Val (l + 1) p = (A (l + 1) p, B (l + 1) p)" "fst s1 ! slot Val (l + 2) p = (A (l + 2) p, B (l + 2) p)"
    using k [of 1] k [of 2] d [of 1 0] d [of 2 0] d [of 2 1] by (simp_all add: s0_def s1_def)
  have r: "correct_wires (slot Val (l + 0) p) 0 1 (ms, s) = Inr (m0, s0)" "correct_wires (slot Val (l + 1) p) 1 2 (m0, s0) = Inr (m1, s1)"
    "correct_wires (slot Val (l + 2) p) 0 1 (m1, s1) = Inr (m2, s2)"
    using k [of 0] k [of 1] k [of 2] at correct_wires_run by (simp_all add: s0_def m0_def s1_def m1_def s2_def m2_def)
  have "prepare_correction 2 Val l p ms s = Inr (m2, s2)"
    using assms(1) r by (simp add: prepare_correction.simps Let_def slot_def)
  moreover have "masked_network straight A 2 l p ms = m2"
    using assms(1) by (simp add: masked_network.simps Let_def swap_if_def m0_def m1_def m2_def)
  moreover have "net_done Val 2 l p 3 s s2"
    unfolding net_done_def
  proof (intro conjI allI impI)
    show "length (fst s2) = length (fst s)" "length (snd s2) = length (snd s)" by (simp_all add: s0_def s1_def s2_def)
    fix j assume "\<forall>r c. owns 2 l p 3 r c \<longrightarrow> j \<noteq> slot Val r c"
    then have "j \<noteq> slot Val (l + 0) p" "j \<noteq> slot Val (l + 1) p" "j \<noteq> slot Val (l + 2) p" using o [of 0] o [of 1] o [of 2] by auto
    then show "fst s2 ! j = fst s ! j" "snd s2 ! j = snd s ! j" by (simp_all add: s0_def s1_def s2_def)
  qed
  moreover have "fixes_of Val B s2 (l + 0) p = crossed (A (l + 0) p) (ms ! 0) (ms ! 1)"
    "fixes_of Val B s2 (l + 1) p = crossed (A (l + 1) p) (m0 ! 1) (m0 ! 2)"
    "fixes_of Val B s2 (l + 2) p = crossed (A (l + 2) p) (m1 ! 0) (m1 ! 1)"
    using k [of 0] k [of 1] k [of 2] at d [of 0 1] d [of 0 2] d [of 1 2]
    by (simp_all add: fixes_of_def s0_def s1_def s2_def upd_at)
  then have "corrected A (fixes_of Val B s2) 2 l p ms"
    using assms(1) by (simp add: corrected.simps Let_def m0_def m1_def)
  ultimately show ?thesis by auto
qed


lemma row_slots:
  "slot Val r p + q = slot Val r (p + q)"
  by (simp add: slot_def)

lemma correct_in_row:
  assumes "slot Val l p + length ms div 2 \<le> length (fst s)" "slot Val l p + length ms div 2 \<le> length (snd s)"
    and A: "\<And>q. q < length ms div 2 \<Longrightarrow> fst (fst s ! slot Val l (p + q)) = P q"
  shows "\<exists>s'. foldE (correct_in (slot Val l p)) [0..<length ms div 2] (ms, [], [], s) =
      Inr (pair_mask P ms, low_half (\<lambda>q. False) (pair_mask P ms),
        map (\<lambda>q. pair_mask P ms ! (2 * q + 1)) [0..<length ms div 2], s') \<and>
    row_done (slot Val l p) (\<lambda>q. ms ! (2 * q)) (\<lambda>q. ms ! (2 * q + 1)) (length ms div 2) s s'"
proof -
  let ?h = "length ms div 2" and ?y = "pair_mask P ms" and ?b = "slot Val l p"
  define st where "st q s' = (pair_mask_upto q P ms, map (\<lambda>q. ?y ! (2 * q)) [0..<q], map (\<lambda>q. ?y ! (2 * q + 1)) [0..<q], s')" for q and s' :: corrections
  have "correct_in ?b q (st q s') = Inr (st (Suc q) (upd_switch (?b + q) (ms ! (2 * q)) (ms ! (2 * q + 1)) s'))"
    if q: "q < ?h" and s': "length (fst s') = length (fst s)" "length (snd s') = length (snd s)" "fst s' ! (?b + q) = fst s ! (?b + q)" for q s'
  proof -
    have i: "2 * q < length ms" "2 * q + 1 < length ms" "2 * q < 2 * ?h" "2 * q + 1 < 2 * ?h" using q by linarith+
    have k: "?b + q < length (fst s')" "?b + q < length (snd s')" using q s' assms(1,2) by linarith+
    have old: "pair_mask_upto q P ms ! (2 * q) = ms ! (2 * q)" "pair_mask_upto q P ms ! (2 * q + 1) = ms ! (2 * q + 1)"
      using i by (simp_all add: pair_mask_upto_def)
    have new: "pair_mask_upto (Suc q) P ms ! (2 * q) = ?y ! (2 * q)" "pair_mask_upto (Suc q) P ms ! (2 * q + 1) = ?y ! (2 * q + 1)"
      using i by (simp_all add: pair_mask_upto_def pair_mask_def)
    have "correct_wires (?b + q) (2 * q) (2 * q + 1) (pair_mask_upto q P ms, s') =
        Inr (pair_mask_upto (Suc q) P ms, upd_switch (?b + q) (ms ! (2 * q)) (ms ! (2 * q + 1)) s')"
      using correct_wires_run [OF k, of "2 * q" "2 * q + 1" "pair_mask_upto q P ms"] A [OF q] pair_mask_upto_step [OF q, of P] s'(3)
      by (simp only: old row_slots)
    then show ?thesis unfolding correct_in_def st_def split bindE_simps by (simp only: bindE_simps split new) simp
  qed
  from correct_row [where step = "correct_in ?b" and st = st, OF this assms(1,2)]
  obtain s' where s': "foldE (correct_in ?b) [0..<?h] (st 0 s) = Inr (st ?h s')"
    "row_done ?b (\<lambda>q. ms ! (2 * q)) (\<lambda>q. ms ! (2 * q + 1)) ?h s s'" by blast
  have "st 0 s = (ms, [], [], s)" by (simp add: st_def pair_mask_upto_def map_nth)
  moreover have "st ?h s' = (?y, low_half (\<lambda>q. False) ?y, map (\<lambda>q. ?y ! (2 * q + 1)) [0..<?h], s')"
    by (simp add: st_def low_half_def pair_mask_def pair_mask_upto_def)
  ultimately show ?thesis using s' by auto
qed

lemma correct_out_row:
  assumes "length ys = V" "length bs = V div 2" "length ts = (V + 1) div 2"
    and "slot Val r p + V div 2 \<le> length (fst s)" "slot Val r p + V div 2 \<le> length (snd s)"
    and A: "\<And>q. q < V div 2 \<Longrightarrow> fst (fst s ! slot Val r (p + q)) = P q"
  shows "\<exists>s'. foldE (correct_out (slot Val r p) bs ts) [0..<V div 2] (ys, s) =
      Inr (map (\<lambda>i. if i < 2 * (V div 2) then joined (\<lambda>q. False) (low_mask P bs) (high_mask (V div 2) P ts) i else ys ! i) [0..<V], s') \<and>
    row_done (slot Val r p) (\<lambda>q. bs ! q) (\<lambda>q. ts ! q) (V div 2) s s'"
proof -
  let ?b = "slot Val r p" and ?j = "joined (\<lambda>q. False) (low_mask P bs) (high_mask (V div 2) P ts)"
  define row where "row k = map (\<lambda>i. if i < 2 * k then ?j i else ys ! i) [0..<V]" for k
  have "correct_out ?b bs ts q (row q, s') = Inr (row (Suc q), upd_switch (?b + q) (bs ! q) (ts ! q) s')"
    if q: "q < V div 2" and s': "length (fst s') = length (fst s)" "length (snd s') = length (snd s)" "fst s' ! (?b + q) = fst s ! (?b + q)" for q s'
  proof -
    have k: "?b + q < length (fst s')" "?b + q < length (snd s')" using q s' assms(4,5) by linarith+
    have b: "q < length bs" "q < length ts" "2 * q + 1 < V" using q assms(2,3) by linarith+
    have sm: "switch_masks (?b + q) (bs ! q) (ts ! q) s' = Inr (out_masks (P q) (bs ! q) (ts ! q), upd_switch (?b + q) (bs ! q) (ts ! q) s')"
      using switch_masks_run [of "?b + q" "fst s'" "snd s'"] k A [OF q] s'(3) by (simp add: row_slots)
    have "(row q)[2 * q := fst (P q) XOR bs ! q, 2 * q + 1 := snd (P q) XOR ts ! q] = row (Suc q)" (is "?L = ?R")
    proof (intro nth_equalityI)
      fix i assume "i < length ?L"
      then have i: "i < V" by (simp add: row_def)
      consider "i < 2 * q" | "i = 2 * q" | "i = 2 * q + 1" | "2 * Suc q \<le> i" by atomize_elim arith
      then show "?L ! i = ?R ! i"
        using i b q by cases (simp_all add: row_def joined_def low_mask_def high_mask_def ac_simps)
    qed (simp add: row_def)
    then show ?thesis using b sm by (simp add: correct_out_def out_masks_def)
  qed
  from correct_row [where step = "correct_out ?b bs ts" and st = "\<lambda>q s. (row q, s)", OF this assms(4,5)]
  obtain s' where s': "foldE (correct_out ?b bs ts) [0..<V div 2] (row 0, s) = Inr (row (V div 2), s')"
    "row_done ?b (\<lambda>q. bs ! q) (\<lambda>q. ts ! q) (V div 2) s s'" by blast
  have "row 0 = ys" using map_nth [of ys] by (simp add: row_def assms(1))
  then show ?thesis using s' by (auto simp: row_def)
qed


text \<open>A row changes the slots of its own switches only.\<close>

lemma row_keeps:
  assumes "row_done (slot Val r p) f g k s s'" "p + k \<le> Val div 2" "c < Val div 2" "r' \<noteq> r"
  shows "fst s' ! slot Val r' c = fst s ! slot Val r' c" "snd s' ! slot Val r' c = snd s ! slot Val r' c"
proof -
  have "slot Val r' c < slot Val r p \<or> slot Val r p + k \<le> slot Val r' c"
  proof (rule ccontr)
    assume "\<not> ?thesis"
    then obtain q where q: "slot Val r' c = slot Val r p + q" "q < k" by (metis le_Suc_ex nat_add_left_cancel_less not_le)
    then have "slot Val r' c = slot Val r (p + q)" by (simp add: slot_def)
    then show False using slot_inj(1) [of Val r' c r "p + q"] q(2) assms(2-4) by simp
  qed
  then show "fst s' ! slot Val r' c = fst s ! slot Val r' c" "snd s' ! slot Val r' c = snd s ! slot Val r' c"
    using assms(1) unfolding row_done_def by blast+
qed

lemma net_keeps:
  assumes "net_done Val n l p V s s'" "p + V div 2 \<le> Val div 2" "c < Val div 2" "\<not> owns n l p V r c"
  shows "fst s' ! slot Val r c = fst s ! slot Val r c" "snd s' ! slot Val r c = snd s ! slot Val r c"
proof -
  have "slot Val r c \<noteq> slot Val r' c'" if o: "owns n l p V r' c'" for r' c'
  proof
    assume e: "slot Val r c = slot Val r' c'"
    have "c' < Val div 2" using o assms(2) by (auto simp: owns_def)
    then have "r = r'" "c = c'" using slot_inj [OF e assms(3)] by simp_all
    then show False using o assms(4) by simp
  qed
  then show "fst s' ! slot Val r c = fst s ! slot Val r c" "snd s' ! slot Val r c = snd s ! slot Val r c"
    using assms(1) by (simp_all add: net_done_def)
qed

lemma quarter_fits:
  assumes "4 \<le> V" "p + V div 2 \<le> (h :: nat)"
  shows "p + V div 4 + (V + 1) div 2 div 2 \<le> h" "p + V div 2 div 2 \<le> h"
proof -
  have "V div 4 + (V + 1) div 2 div 2 \<le> V div 2" "V div 2 div 2 \<le> V div 2" using assms(1) by presburger+
  then show "p + V div 4 + (V + 1) div 2 div 2 \<le> h" "p + V div 2 div 2 \<le> h" using assms(2) by simp_all
qed

text \<open>The four stages of a network, put together.\<close>

lemma stages_done:
  fixes Val l p m V :: nat
  assumes m: "0 < m" "4 \<le> V" "p + V div 2 \<le> Val div 2"
    and r1: "row_done (slot Val l p) f1 g1 (V div 2) s s1"
    and hi: "net_done Val m (l + 1) (p + V div 4) ((V + 1) div 2) s1 s2"
    and lo: "net_done Val m (l + 1) p (V div 2) s2 s3"
    and r2: "row_done (slot Val (l + 2 * m) p) f2 g2 (V div 2) s3 s4"
  shows "net_done Val (Suc m) l p V s s4"
    and "owns m (l + 1) (p + V div 4) ((V + 1) div 2) r c \<Longrightarrow>
      fst s1 ! slot Val r c = fst s ! slot Val r c \<and> snd s4 ! slot Val r c = snd s2 ! slot Val r c"
    and "owns m (l + 1) p (V div 2) r c \<Longrightarrow>
      fst s2 ! slot Val r c = fst s ! slot Val r c \<and> snd s4 ! slot Val r c = snd s3 ! slot Val r c"
    and "q < V div 2 \<Longrightarrow> snd s4 ! slot Val l (p + q) = snd s1 ! slot Val l (p + q)"
    and "q < V div 2 \<Longrightarrow> fst s3 ! slot Val (l + 2 * m) (p + q) = fst s ! slot Val (l + 2 * m) (p + q)"
proof -
  note oh = owns_halves [OF m(1,2), of l p]
  note ph = quarter_fits [OF m(2,3)]
  have ch: "c < Val div 2" if "owns (Suc m) l p V r c" for r c using that m(3) by (auto simp: owns_def)
  note k1 = row_keeps [OF r1 m(3)] and k2 = net_keeps [OF hi ph(1)] and k3 = net_keeps [OF lo ph(2)] and k4 = row_keeps [OF r2 m(3)]
  show "fst s1 ! slot Val r c = fst s ! slot Val r c \<and> snd s4 ! slot Val r c = snd s2 ! slot Val r c"
    if o: "owns m (l + 1) (p + V div 4) ((V + 1) div 2) r c"
  proof -
    have c: "c < Val div 2" "r \<noteq> l" "r \<noteq> l + 2 * m" "\<not> owns m (l + 1) p (V div 2) r c"
      using oh(2) [OF o] ch oh(1) [of r c] by auto
    then show ?thesis using k1 k3 k4 by simp
  qed
  show "fst s2 ! slot Val r c = fst s ! slot Val r c \<and> snd s4 ! slot Val r c = snd s3 ! slot Val r c"
    if o: "owns m (l + 1) p (V div 2) r c"
  proof -
    have c: "c < Val div 2" "r \<noteq> l" "r \<noteq> l + 2 * m" "\<not> owns m (l + 1) (p + V div 4) ((V + 1) div 2) r c"
      using oh(1) [OF o] ch oh(2) [of r c] by auto
    then show ?thesis using k1 k2 k4 by simp
  qed
  have no: "\<not> owns m (l + 1) (p + V div 4) ((V + 1) div 2) r c" "\<not> owns m (l + 1) p (V div 2) r c" if "r = l \<or> r = l + 2 * m" for r c
    using oh that by blast+
  show "snd s4 ! slot Val l (p + q) = snd s1 ! slot Val l (p + q)" if "q < V div 2"
    using that m(1,3) no [of l "p + q"] k2 k3 k4 by simp
  show "fst s3 ! slot Val (l + 2 * m) (p + q) = fst s ! slot Val (l + 2 * m) (p + q)" if "q < V div 2"
    using that m(1,3) no [of "l + 2 * m" "p + q"] k1 k2 k3 by simp
  show "net_done Val (Suc m) l p V s s4"
    unfolding net_done_def
  proof (intro conjI allI impI)
    show "length (fst s4) = length (fst s)" "length (snd s4) = length (snd s)"
      using r1 hi lo r2 by (simp_all add: row_done_def net_done_def)
    fix j assume n: "\<forall>r c. owns (Suc m) l p V r c \<longrightarrow> j \<noteq> slot Val r c"
    have row: "j < slot Val r p \<or> slot Val r p + V div 2 \<le> j" if r: "r = l \<or> r = l + 2 * m" for r
    proof (rule ccontr)
      assume "\<not> ?thesis"
      then obtain q where "j = slot Val r p + q" "q < V div 2" by (metis le_Suc_ex nat_add_left_cancel_less not_le)
      then show False using n [rule_format, of r "p + q"] r by (auto simp: owns_def slot_def)
    qed
    have "\<forall>r c. owns m (l + 1) (p + V div 4) ((V + 1) div 2) r c \<longrightarrow> j \<noteq> slot Val r c"
      "\<forall>r c. owns m (l + 1) p (V div 2) r c \<longrightarrow> j \<noteq> slot Val r c" using n oh by blast+
    then have "fst s2 ! j = fst s1 ! j \<and> snd s2 ! j = snd s1 ! j" "fst s3 ! j = fst s2 ! j \<and> snd s3 ! j = snd s2 ! j"
      using hi lo unfolding net_done_def by blast+
    moreover have "fst s1 ! j = fst s ! j \<and> snd s1 ! j = snd s ! j" "fst s4 ! j = fst s3 ! j \<and> snd s4 ! j = snd s3 ! j"
      using row [of l] row [of "l + 2 * m"] r1 r2 unfolding row_done_def by blast+
    ultimately show "fst s4 ! j = fst s ! j" "snd s4 ! j = snd s ! j" by simp_all
  qed
qed

lemma prepare_correction_run:
  assumes "fits n (length ms)" "p + length ms div 2 \<le> Val div 2" "supplied Val n l p (length ms) A B s"
  shows "\<exists>s'. prepare_correction n Val l p ms s = Inr (masked_network straight A n l p ms, s') \<and>
    net_done Val n l p (length ms) s s' \<and> corrected A (fixes_of Val B s') n l p ms"
  using assms
proof (induction n arbitrary: l p ms s)
  case (Suc m)
  let ?V = "length ms" and ?N = "Suc m"
  from Suc.prems(1) show ?case
  proof (cases rule: fits_cases)
    case two
    then show ?thesis using prepare_two [of ms ?N p Val l A B s] Suc.prems(2,3) by simp
  next
    case three
    have "p + 1 \<le> Val div 2" using Suc.prems(2) three(1) by simp
    moreover have "supplied Val 2 l p 3 A B s" using Suc.prems(3) by (simp only: three)
    ultimately show ?thesis using prepare_three [OF three(1)] by (simp only: three)
  next
    case (more m')
    then have mm: "0 < m" "4 \<le> ?V" "fits m (?V div 2)" "fits m ((?V + 1) div 2)" by simp_all
    have V: "2 \<le> ?V" "?V \<noteq> 2" "?V \<noteq> 3" using mm(2) by simp_all
    note ph = Suc.prems(2)
    have sup: "slot Val r c < length (fst s)" "slot Val r c < length (snd s)" "fst s ! slot Val r c = (A r c, B r c)"
      if "owns ?N l p ?V r c" for r c using Suc.prems(3) that unfolding supplied_def by blast+
    have ow: "owns ?N l p ?V l (p + q)" "owns ?N l p ?V (l + 2 * m) (p + q)" if "q < ?V div 2" for q
      using that by (simp_all add: owns_def)
    have last: "q0 < ?V div 2 \<Longrightarrow> ?V div 2 = Suc q0 \<Longrightarrow> slot Val l p + ?V div 2 \<le> length (fst s) \<and> slot Val l p + ?V div 2 \<le> length (snd s) \<and>
        slot Val (l + 2 * m) p + ?V div 2 \<le> length (fst s) \<and> slot Val (l + 2 * m) p + ?V div 2 \<le> length (snd s)" for q0
      using sup(1,2) [OF ow(1), of q0] sup(1,2) [OF ow(2), of q0] by (simp add: slot_def)
    then have fit: "slot Val l p + ?V div 2 \<le> length (fst s)" "slot Val l p + ?V div 2 \<le> length (snd s)"
        "slot Val (l + 2 * m) p + ?V div 2 \<le> length (fst s)" "slot Val (l + 2 * m) p + ?V div 2 \<le> length (snd s)"
      using last [of "?V div 2 - 1"] mm(2) by auto
    let ?P = "\<lambda>q. A l (p + q)" and ?D = "\<lambda>q. A (l + 2 * m) (p + q)"
    let ?y = "pair_mask ?P ms"
    let ?lo = "low_half (\<lambda>q. False) ?y" and ?hi = "high_half (\<lambda>q. False) ?y"
    have "fst (fst s ! slot Val l (p + q)) = ?P q" if "q < ?V div 2" for q using sup(3) [OF ow(1) [OF that]] by simp
    from correct_in_row [OF fit(1,2) this] obtain s1 where
      I: "foldE (correct_in (slot Val l p)) [0..<?V div 2] (ms, [], [], s) =
        Inr (?y, ?lo, map (\<lambda>q. ?y ! (2 * q + 1)) [0..<?V div 2], s1)"
      "row_done (slot Val l p) (\<lambda>q. ms ! (2 * q)) (\<lambda>q. ms ! (2 * q + 1)) (?V div 2) s s1" by blast
    have pl: "push_last ?y (map (\<lambda>q. ?y ! (2 * q + 1)) [0..<?V div 2]) = Inr ?hi"
      using push_last_run [of ?y "\<lambda>q. False"] by simp
    note ph2 = quarter_fits [OF mm(2) ph]
    note oh = owns_halves [OF mm(1,2), of l p]
    have len1: "length (fst s1) = length (fst s)" "length (snd s1) = length (snd s)" using I(2) unfolding row_done_def by blast+
    have inside: "c < Val div 2" if "owns ?N l p ?V r c" for r c using that ph unfolding owns_def by linarith
    have k1: "fst s1 ! slot Val r c = fst s ! slot Val r c" if "owns ?N l p ?V r c" "r \<noteq> l" for r c
      by (rule row_keeps(1) [OF I(2) ph inside [OF that(1)] that(2)])
    have "supplied Val m (l + 1) (p + ?V div 4) ((?V + 1) div 2) A B s1"
      unfolding supplied_def
    proof (intro allI impI)
      fix r c assume "owns m (l + 1) (p + ?V div 4) ((?V + 1) div 2) r c"
      then have o: "owns ?N l p ?V r c" "r \<noteq> l" using oh(2) [of r c] by simp_all
      show "slot Val r c < length (fst s1) \<and> slot Val r c < length (snd s1) \<and> fst s1 ! slot Val r c = (A r c, B r c)"
        using k1 [OF o] len1 sup [OF o(1)] by simp
    qed
    with Suc.IH [of ?hi "p + ?V div 4" "l + 1" s1] mm(4) ph2(1) obtain s2 where
      H: "prepare_correction m Val (l + 1) (p + ?V div 4) ?hi s1 = Inr (masked_network straight A m (l + 1) (p + ?V div 4) ?hi, s2)"
      "net_done Val m (l + 1) (p + ?V div 4) ((?V + 1) div 2) s1 s2"
      "corrected A (fixes_of Val B s2) m (l + 1) (p + ?V div 4) ?hi" by auto
    have len2: "length (fst s2) = length (fst s)" "length (snd s2) = length (snd s)" using H(2) len1 unfolding net_done_def by simp_all
    have k2: "fst s2 ! slot Val r c = fst s ! slot Val r c"
      if "owns ?N l p ?V r c" "r \<noteq> l" "\<not> owns m (l + 1) (p + ?V div 4) ((?V + 1) div 2) r c" for r c
      using net_keeps(1) [OF H(2) ph2(1) inside [OF that(1)] that(3)] k1 [OF that(1,2)] by simp
    have "supplied Val m (l + 1) p (?V div 2) A B s2"
      unfolding supplied_def
    proof (intro allI impI)
      fix r c assume "owns m (l + 1) p (?V div 2) r c"
      then have o: "owns ?N l p ?V r c" "r \<noteq> l" "\<not> owns m (l + 1) (p + ?V div 4) ((?V + 1) div 2) r c"
        using oh(1) [of r c] oh(2) [of r c] by auto
      show "slot Val r c < length (fst s2) \<and> slot Val r c < length (snd s2) \<and> fst s2 ! slot Val r c = (A r c, B r c)"
        using k2 [OF o] len2 sup [OF o(1)] by simp
    qed
    with Suc.IH [of ?lo p "l + 1" s2] mm(3) ph2(2) obtain s3 where
      L: "prepare_correction m Val (l + 1) p ?lo s2 = Inr (masked_network straight A m (l + 1) p ?lo, s3)"
      "net_done Val m (l + 1) p (?V div 2) s2 s3" "corrected A (fixes_of Val B s3) m (l + 1) p ?lo" by auto
    let ?\<beta> = "masked_network straight A m (l + 1) p ?lo" and ?\<tau> = "masked_network straight A m (l + 1) (p + ?V div 4) ?hi"
    have k3: "fst s3 ! slot Val (l + 2 * m) (p + q) = fst s ! slot Val (l + 2 * m) (p + q)" if "q < ?V div 2" for q
    proof -
      have "\<not> owns m (l + 1) p (?V div 2) (l + 2 * m) (p + q)" "\<not> owns m (l + 1) (p + ?V div 4) ((?V + 1) div 2) (l + 2 * m) (p + q)"
        using oh by blast+
      then show ?thesis
        using net_keeps(1) [OF L(2) ph2(2), of "p + q" "l + 2 * m"] k2 [OF ow(2) [OF that]] that ph mm(1) by simp
    qed
    have len3: "length (fst s3) = length (fst s)" "length (snd s3) = length (snd s)"
      using len2 L(2) unfolding net_done_def by simp_all
    have fit3: "slot Val (l + 2 * m) p + ?V div 2 \<le> length (fst s3)" "slot Val (l + 2 * m) p + ?V div 2 \<le> length (snd s3)"
      using fit(3,4) len3 by simp_all
    have A3: "fst (fst s3 ! slot Val (l + 2 * m) (p + q)) = ?D q" if "q < ?V div 2" for q
      using k3 [OF that] sup(3) [OF ow(2) [OF that]] by simp
    have bl: "length ?y = ?V" "length ?\<beta> = ?V div 2" "length ?\<tau> = (?V + 1) div 2" by simp_all
    from correct_out_row [OF bl fit3 A3] obtain s4 where
      O: "foldE (correct_out (slot Val (l + 2 * m) p) ?\<beta> ?\<tau>) [0..<?V div 2] (?y, s3) =
        Inr (map (\<lambda>i. if i < 2 * (?V div 2) then joined (\<lambda>q. False) (low_mask ?D ?\<beta>) (high_mask (?V div 2) ?D ?\<tau>) i else ?y ! i) [0..<?V], s4)"
      "row_done (slot Val (l + 2 * m) p) (\<lambda>q. ?\<beta> ! q) (\<lambda>q. ?\<tau> ! q) (?V div 2) s3 s4" by blast
    note stages = stages_done [OF mm(1,2) ph I(2) H(2) L(2) O(2)]
    have base: "r * (Val div 2) + p = slot Val r p" for r by (simp add: slot_def)
    have run: "prepare_correction ?N Val l p ms s = Inr (masked_network straight A ?N l p ms, s4)"
    proof -
      have row: "l + (2 * Suc m - 1) - 1 = l + 2 * m" by simp
      show ?thesis
        using V(2,3) by (simp only: prepare_correction.simps [of "Suc m"] masked_network.simps [of straight A "Suc m"] Let_def if_False nat.case
            row base I(1) bindE_simps split pl H(1) L(1) O(1) take_last_masked [OF V(1) bl(3)])
    qed
    have r1: "fixes_of Val B s4 l (p + q) = crossed (?P q) (ms ! (2 * q)) (ms ! (2 * q + 1))" if q: "q < ?V div 2" for q
    proof -
      have "xor_pair (snd s1 ! slot Val l (p + q)) (snd (fst s ! slot Val l (p + q))) =
          crossed (fst (fst s ! slot Val l (p + q))) (ms ! (2 * q)) (ms ! (2 * q + 1))"
        using I(2) q unfolding row_done_def row_slots by blast
      then show ?thesis using stages(4) [OF q] sup(3) [OF ow(1) [OF q]] by (simp add: fixes_of_def)
    qed
    have r2: "fixes_of Val B s4 (l + 2 * m) (p + q) = crossed (?D q) (?\<beta> ! q) (?\<tau> ! q)" if q: "q < ?V div 2" for q
    proof -
      have "xor_pair (snd s4 ! slot Val (l + 2 * m) (p + q)) (snd (fst s3 ! slot Val (l + 2 * m) (p + q))) =
          crossed (fst (fst s3 ! slot Val (l + 2 * m) (p + q))) (?\<beta> ! q) (?\<tau> ! q)"
        using O(2) q unfolding row_done_def row_slots by blast
      then show ?thesis using k3 [OF q] sup(3) [OF ow(2) [OF q]] by (simp add: fixes_of_def)
    qed
    have cl: "corrected A (fixes_of Val B s4) m (l + 1) p ?lo"
    proof -
      have "fixes_of Val B s4 r c = fixes_of Val B s3 r c" if "owns m (l + 1) p (length ?lo) r c" for r c
        using stages(3) [of r c] that by (simp add: fixes_of_def)
      then show ?thesis using L(3) corrected_cong [of m ?lo "l + 1" p "fixes_of Val B s4" "fixes_of Val B s3" A] mm(3) by simp
    qed
    have ch: "corrected A (fixes_of Val B s4) m (l + 1) (p + ?V div 4) ?hi"
    proof -
      have "fixes_of Val B s4 r c = fixes_of Val B s2 r c" if "owns m (l + 1) (p + ?V div 4) (length ?hi) r c" for r c
        using stages(2) [of r c] that by (simp add: fixes_of_def)
      then show ?thesis
        using H(3) corrected_cong [of m ?hi "l + 1" "p + ?V div 4" "fixes_of Val B s4" "fixes_of Val B s2" A] mm(4) by simp
    qed
    have "corrected A (fixes_of Val B s4) ?N l p ms"
      using V(2,3) r1 r2 cl ch unfolding corrected.simps [of A _ "Suc m"] Let_def by simp
    then show ?thesis using run stages(1) by blast
  qed
qed (simp add: fits_def)

end
