(* ===== verification/Osn_Session.thy ===== *)
theory Osn_Session
  imports Osn
begin

text \<open>
  One run of the oblivious switching network (\<open>OSNSender\<close>, \<open>OSNReceiver\<close> in \<open>volePSI/osn\<close>): the random
  permutation and its routing, the oblivious transfers, the corrections, and the masked evaluation.

  Sizes are \<open>size_t\<close>, narrowed to \<open>int\<close> where the code does: \<open>wires_of\<close>. The number of switches is an
  \<open>int\<close> product. \<open>ceil_log2\<close> is \<open>int(ceil(log2(values)))\<close> of a positive size; of any other size the
  conversion of the logarithm to \<open>int\<close> is out of range. The generator is a parameter, as is the
  seed it starts from, which is the only difference of \<open>init_wj\<close> and \<open>init_wj_seeded\<close>. A cached
  network is what the file held, if it could be opened.

  The oblivious transfers are calls of libOTe and parameters: \<open>ot_choose\<close> for the extension that a
  transfer type other than 0 uses, which transfers the given pairs by the given choices, and
  \<open>silent_ot\<close> for type 0, a function of the numbers of transfers the two parties configured and of the
  number they ask for. The code configures the receiver with \<open>size\<close> and the sender with 0, and
  asks for \<open>levels * (size / 2)\<close>; nothing is assumed of that call and nothing is claimed of type 0.
\<close>

fun ceil_log2 :: "nat \<Rightarrow> nat" where
  "ceil_log2 n = (if n \<le> 1 then 0 else Suc (ceil_log2 ((n + 1) div 2)))"

declare ceil_log2.simps [simp del]

lemma ceil_log2_bounds:
  assumes "2 \<le> n"
  shows "0 < ceil_log2 n" "n \<le> 2 ^ ceil_log2 n" "2 ^ (ceil_log2 n - 1) < n"
proof -
  have "2 \<le> n \<longrightarrow> 0 < ceil_log2 n \<and> n \<le> 2 ^ ceil_log2 n \<and> 2 ^ (ceil_log2 n - 1) < n"
  proof (induction n rule: ceil_log2.induct)
    case (1 n)
    show ?case
    proof (intro impI)
      assume n: "2 \<le> n"
      let ?h = "(n + 1) div 2"
      have s: "ceil_log2 n = Suc (ceil_log2 ?h)" using n by (simp add: ceil_log2.simps [of n])
      show "0 < ceil_log2 n \<and> n \<le> 2 ^ ceil_log2 n \<and> 2 ^ (ceil_log2 n - 1) < n"
      proof (cases "2 \<le> ?h")
        case True
        then have h: "0 < ceil_log2 ?h" "?h \<le> 2 ^ ceil_log2 ?h" "2 ^ (ceil_log2 ?h - 1) < ?h" using 1 n by auto
        then obtain k where k: "ceil_log2 ?h = Suc k" by (cases "ceil_log2 ?h") auto
        have "2 * 2 ^ k < n" using h(3) k by simp
        moreover have "n \<le> 2 * 2 ^ ceil_log2 ?h" using h(2) by simp
        ultimately show ?thesis using s k by simp
      next
        case False
        then have "n = 2" using n by linarith
        then show ?thesis by (simp add: ceil_log2.simps [of 2] ceil_log2.simps [of 1] ceil_log2.simps [of "Suc 0"])
      qed
    qed
  qed
  then show "0 < ceil_log2 n" "n \<le> 2 ^ ceil_log2 n" "2 ^ (ceil_log2 n - 1) < n" using assms by simp_all
qed

text \<open>The narrowing of a size to \<open>int\<close>, and the positive number of wires it must give.\<close>

definition int_of_size :: "nat \<Rightarrow> int" where
  "int_of_size n = sint (word_of_nat n :: 32 word)"

definition wires_of :: "nat \<Rightarrow> nat result" where
  "wires_of n = throw_if (int_of_size n \<le> 0) SignedOverflow (Inr (nat (int_of_size n)))"

lemma int_of_size_small: "n < 2 ^ 31 \<Longrightarrow> int_of_size n = int n"
  by (simp add: int_of_size_def signed_of_nat signed_take_bit_int_eq_self)

lemma wires_of_small: "0 < n \<Longrightarrow> n < 2 ^ 31 \<Longrightarrow> wires_of n = Inr n"
  by (simp add: wires_of_def int_of_size_small)

lemma ceil_log2_fits: "2 \<le> n \<Longrightarrow> fits (ceil_log2 n) n"
  using ceil_log2_bounds [of n] by (simp add: fits_def)

subsection \<open>The sender's permutation\<close>

record Sender =
  snd_size :: nat
  ot_type :: nat
  mPi :: "nat list"
  benes :: Benes
  dest :: "nat list"

definition insert_absent :: "'k \<Rightarrow> 'v \<Rightarrow> ('k \<Rightarrow> 'v option) \<Rightarrow> 'k \<Rightarrow> 'v option" where
  "insert_absent k v m = (case m k of None \<Rightarrow> m(k := Some v) | Some w \<Rightarrow> m)"

definition wj_step ::
  "'g prng \<Rightarrow> nat \<Rightarrow> nat list \<times> (nat \<Rightarrow> nat option) \<times> 'g \<Rightarrow> (nat list \<times> (nat \<Rightarrow> nat option) \<times> 'g) result" where
  "wj_step rng i = (\<lambda>(d, i2loc, g).
     let (u, g') = get_u64 rng g; loc = unat u mod (i + 1) in
     bindE (vec_at d i) (\<lambda>x. bindE (vec_at d loc) (\<lambda>y.
     let d' = d[i := y, loc := x] in Inr (d', insert_absent (d' ! i) i i2loc, g'))))"

datatype cache = NoCache | CacheMiss | CacheHit Benes

definition init_wj ::
  "'g prng \<Rightarrow> nat \<Rightarrow> nat \<Rightarrow> cache \<Rightarrow> (nat \<Rightarrow> nat option) \<Rightarrow> Sender \<Rightarrow> 'g \<Rightarrow> (Sender \<times> (nat \<Rightarrow> nat option) \<times> 'g) result" where
  "init_wj rng sz ot osn_cache i2loc s g =
     bindE (wires_of sz) (\<lambda>values.
      let N = ceil_log2 values; src = [0..<values]; dest0 = src @ drop values (resized (dest s) sz 0) in
      bindE (benes_initialize (benes s) (int values) (2 * int N - 1)) (\<lambda>b.
      bindE (foldE (wj_step rng) (rev [1..<nat (int_of_size (sz - 1)) + 1]) (dest0, i2loc, g)) (\<lambda>(d, i2loc1, g').
      bindE (vec_at d 0) (\<lambda>d0.
      bindE (case osn_cache of CacheHit c \<Rightarrow> Inr c | _ \<Rightarrow> gen_benes_route N 0 0 src d b) (\<lambda>b'.
      Inr (s\<lparr>snd_size := sz, ot_type := ot, benes := b', dest := d\<rparr>, insert_absent d0 0 i2loc1, g'))))))"

text \<open>\<open>seeded\<close> is the constructor of the generator.\<close>

definition init_wj_seeded ::
  "'g prng \<Rightarrow> (block \<Rightarrow> 'g) \<Rightarrow> nat \<Rightarrow> nat \<Rightarrow> cache \<Rightarrow> (nat \<Rightarrow> nat option) \<Rightarrow> block \<Rightarrow> Sender \<Rightarrow>
     (Sender \<times> (nat \<Rightarrow> nat option) \<times> 'g) result" where
  "init_wj_seeded rng seeded sz ot osn_cache i2loc seed s = init_wj rng sz ot osn_cache i2loc s (seeded seed)"

definition permuteBlocks :: "Sender \<Rightarrow> block list \<Rightarrow> block list result" where
  "permuteBlocks s v =
     throw_if (length v \<noteq> snd_size s) (RuntimeError ''OSNSender::permuteBlocks: size mismatch with routed network'')
       (bindE (wires_of (snd_size s)) (\<lambda>values. gen_benes_eval (switched (benes s)) (ceil_log2 values) 0 0 v))"

text \<open>The keys of the map are of type \<open>int\<close>, the elements looked up have 64 bits.\<close>

definition getmyPi :: "(nat \<Rightarrow> nat option) \<Rightarrow> nat list \<Rightarrow> Sender \<Rightarrow> nat list \<times> Sender" where
  "getmyPi i2loc xs s =
     (let myPi = List.map_filter (\<lambda>x. if int_of_size x < 0 then None else i2loc (nat (int_of_size x))) xs in
      (myPi, s\<lparr>mPi := myPi\<rparr>))"

subsection \<open>The exchange\<close>

definition return_gen_benes_switches :: "Benes \<Rightarrow> nat \<Rightarrow> bool list result" where
  "return_gen_benes_switches b values =
     (let levels = 2 * ceil_log2 values - 1 in
      throw_if (2 ^ 31 \<le> int levels * int (values div 2)) SignedOverflow
      (mapE (\<lambda>(j, i). bindE (get2 (switched b) j i) (\<lambda>s. Inr (s \<noteq> 0))) (List.product [0..<levels] [0..<values div 2])))"

text \<open>The transfers, with what the sender sends after them: with type 0 the choices come from the
  library, and the sender tells which of them differ from its switches. The results are that
  correction, the receiver's pairs and the sender's received blocks.\<close>

definition ot_exchange ::
  "(bool list \<Rightarrow> pair list \<Rightarrow> block list) \<Rightarrow> (nat \<Rightarrow> nat \<Rightarrow> nat \<Rightarrow> (bool list \<times> block list \<times> pair list) result) \<Rightarrow>
     Sender \<Rightarrow> bool list \<Rightarrow> pair list \<Rightarrow> (bool list \<times> pair list \<times> block list) result" where
  "ot_exchange ot_choose silent_ot s switches tmp =
     (if ot_type s = 0
      then bindE (silent_ot (snd_size s) 0 (length switches)) (\<lambda>(choices, tmpMsg, tmp_messages).
           Inr (map2 (\<noteq>) switches choices, tmp_messages, tmpMsg))
      else Inr ([], tmp, ot_choose switches tmp))"

definition client_messages :: "(block \<Rightarrow> block) \<Rightarrow> nat \<Rightarrow> pair list \<Rightarrow> bool list \<Rightarrow> (pair \<times> pair) list" where
  "client_messages enc ot tmp bit_correction =
     (let tmp' = (if ot = 0 then map2 (\<lambda>c t. if c then prod.swap t else t) bit_correction tmp else tmp) in
      map (\<lambda>(x, y). ((x, enc x), (y, enc y))) tmp')"

definition gen_benes_client_osn ::
  "(block \<Rightarrow> block) \<Rightarrow> nat \<Rightarrow> nat \<Rightarrow> block list \<Rightarrow> pair list \<Rightarrow> bool list \<Rightarrow> ((block \<times> block) list \<times> pair list) result" where
  "gen_benes_client_osn enc ot values masks tmp bit_correction =
     (let N = ceil_log2 values; switches = (2 * N - 1) * (values div 2) in
      throw_if (2 ^ 31 \<le> int (2 * N - 1) * int (values div 2)) SignedOverflow
      (bindE (prepare_correction N values 0 0 masks (client_messages enc ot tmp bit_correction, replicate switches (0, 0))) (\<lambda>(out, s).
      Inr (zip masks out, snd s))))"

definition gen_benes_server_osn :: "(block \<Rightarrow> block) \<Rightarrow> bool list \<Rightarrow> block list \<Rightarrow> pair list \<Rightarrow> pair list result" where
  "gen_benes_server_osn enc switches tmpMsg recvCorr =
     mapE (\<lambda>i. bindE (vec_at tmpMsg i) (\<lambda>t. bindE (vec_at recvCorr i) (\<lambda>c.
       Inr (if switches ! i then xor_pair c (t, enc t) else (t, enc t))))) [0..<length switches]"

definition masked_input :: "(block \<times> block) list \<Rightarrow> nat \<Rightarrow> block list \<Rightarrow> block list result" where
  "masked_input ret_masks values inputs =
     mapE (\<lambda>i. bindE (vec_at ret_masks i) (\<lambda>(m, _). bindE (vec_at inputs i) (\<lambda>x. Inr (m XOR x)))) [0..<values]"

definition ot_matrix :: "nat \<Rightarrow> pair list \<Rightarrow> pair list list result" where
  "ot_matrix values ot_output =
     (let levels = 2 * int (ceil_log2 values) - 1; h = values div 2 in
      throw_if (levels < 0) (LogicError ''cannot create std::vector larger than max_size()'')
      (mapE (\<lambda>i. bindE (mapE (\<lambda>j. vec_at ot_output (i * h + j)) [0..<h]) (\<lambda>row. Inr (row @ replicate (values - h) (0, 0)))) [0..<nat levels]))"

text \<open>Both parties' \<open>run_osn\<close>, set up with the same size and transfer type: the sender's output and the
  receiver's output masks. \<open>tmp\<close> are the random pairs and \<open>masks\<close> the random masks of the receiver.\<close>

definition run_osn ::
  "(block \<Rightarrow> block) \<Rightarrow> (bool list \<Rightarrow> pair list \<Rightarrow> block list) \<Rightarrow>
     (nat \<Rightarrow> nat \<Rightarrow> nat \<Rightarrow> (bool list \<times> block list \<times> pair list) result) \<Rightarrow> Sender \<Rightarrow> pair list \<Rightarrow> block list \<Rightarrow>
     block list \<Rightarrow> (block list \<times> block list) result" where
  "run_osn enc ot_choose silent_ot s tmp masks inputs =
     bindE (wires_of (snd_size s)) (\<lambda>values.
      bindE (return_gen_benes_switches (benes s) values) (\<lambda>switches.
      bindE (ot_exchange ot_choose silent_ot s switches tmp) (\<lambda>(bit_correction, tmp_messages, tmpMsg).
      bindE (gen_benes_client_osn enc (ot_type s) values masks tmp_messages bit_correction) (\<lambda>(ret_masks, corr).
      bindE (gen_benes_server_osn enc switches tmpMsg corr) (\<lambda>ot_output.
      bindE (masked_input ret_masks values inputs) (\<lambda>benes_input.
      bindE (ot_matrix values ot_output) (\<lambda>matrix.
      bindE (gen_benes_masked_evaluate (switched (benes s)) (ceil_log2 values) 0 0 benes_input matrix) (\<lambda>output.
      Inr (output, map snd ret_masks)))))))))"


subsection \<open>Routing from a fresh or a used object\<close>

text \<open>The switches are bits, from whatever routing they were left.\<close>

definition clean :: "Benes \<Rightarrow> bool" where
  "clean b \<longleftrightarrow> (\<forall>row\<in>set (switched b). set row \<subseteq> {0, 1})"

definition routed_for :: "Benes \<Rightarrow> nat list \<Rightarrow> bool" where
  "routed_for b d \<longleftrightarrow> clean b \<and> (let V = length d; N = ceil_log2 V; sw = set_switches (switched b) in
     table_has (switched b) sw N 0 0 V \<and> network sw N 0 0 [0..<V] = d \<and>
     length (switched b) = 2 * N - 1 \<and> (\<forall>row\<in>set (switched b). length row = V div 2))"

lemma length_resized [simp]: "length (resized xs n d) = n"
  by (simp add: resized_def)

lemma set_resized: "set (resized xs n d) \<subseteq> insert d (set xs)"
  by (auto simp: resized_def dest: in_set_takeD)

lemma initialize_run:
  assumes "0 < N" "clean b" "V \<le> 2 ^ 30"
  shows "\<exists>b'. benes_initialize b (int V) (2 * int N - 1) = Inr b' \<and> clean b' \<and> length (switched b') = 2 * N - 1 \<and>
    (\<forall>row\<in>set (switched b'). length row = V div 2) \<and> room b' [0..<V]"
proof -
  let ?rows = "resized (switched b) (nat (2 * int N - 1)) []"
  let ?b = "\<lparr>perm = resized (perm b) V 0, inv_perm = resized (inv_perm b) V 0,
    switched = map (\<lambda>row. resized row (V div 2) 0) ?rows, path = resized (path b) (127 * V div 100) 0\<rparr>"
  have "set (resized row (V div 2) 0) \<subseteq> {0, 1 :: int}" if "row \<in> set ?rows" for row
  proof -
    have "row = [] \<or> row \<in> set (switched b)" using that set_resized [of "switched b"] by auto
    then have "set row \<subseteq> {0, 1}" using assms(2) by (auto simp: clean_def)
    then show ?thesis using set_resized [of row "V div 2" 0] by auto
  qed
  then have "clean ?b" by (simp add: clean_def)
  moreover have "nat (2 * int N - 1) = 2 * N - 1" by simp
  moreover have "room ?b [0..<V]" by (simp add: room_def)
  moreover have "benes_initialize b (int V) (2 * int N - 1) = Inr ?b"
  proof -
    have "sgn (int V) * (127 * \<bar>int V\<bar> div 100) = int (127 * V div 100)" by (cases "V = 0") (simp_all add: zdiv_int)
    moreover have "127 * V div 100 < 2 ^ 31" using assms(3) by simp
    ultimately show ?thesis using assms(1) by (simp add: benes_initialize_def Let_def)
  qed
  ultimately show ?thesis by (intro exI [where x = ?b]) simp
qed

lemma route_ready:
  assumes "2 \<le> V" "clean b" "length (switched b) = 2 * ceil_log2 V - 1" "\<forall>row\<in>set (switched b). length row = V div 2"
    and "room b [0..<V]" "distinct d" "set d = {..<V}" "length d = V"
  shows "\<exists>b'. gen_benes_route (ceil_log2 V) 0 0 [0..<V] d b = Inr b' \<and> routed_for b' d"
proof -
  let ?N = "ceil_log2 V"
  have f: "fits ?N (length [0..<V])" using ceil_log2_fits [OF assms(1)] by simp
  have h: "holds (switched b) ?N 0 0 V" using assms(3,4) by (auto simp: holds_def owns_def)
  have re: "reorders [0..<V] d" using assms(6-8) by (simp add: reorders_def lessThan_atLeast0)
  obtain b' where b': "gen_benes_route ?N 0 0 [0..<V] d b = Inr b'" "routed (switched b) (switched b') ?N 0 0 [0..<V] d"
    using gen_benes_route_run [OF f re assms(5)] h by auto
  let ?M = "switched b'"
  have sh: "length ?M = 2 * ?N - 1" "\<And>r. r < length ?M \<Longrightarrow> length (?M ! r) = V div 2"
    using b'(2) assms(3,4) by (auto simp: routed_def same_shape_def)
  have "bits_in (switched b) ?N 0 0 V"
    unfolding bits_in_def
  proof (intro allI impI)
    fix r c assume "owns ?N 0 0 V r c"
    then have "r < length (switched b)" "c < length (switched b ! r)" using h by (simp_all add: holds_def)
    then have "switched b ! r \<in> set (switched b)" "switched b ! r ! c \<in> set (switched b ! r)" by simp_all
    then show "switched b ! r ! c \<in> {0, 1}" using assms(2) unfolding clean_def by blast
  qed
  then have bits: "bits_in ?M ?N 0 0 V" using b'(2) by (simp add: routed_def)
  have at: "?M ! r ! c \<in> {0, 1}" if "r < length ?M" "c < V div 2" for r c
    using bits that sh(1) by (simp add: bits_in_def owns_def)
  have "table_has ?M (set_switches ?M) ?N 0 0 V"
    unfolding table_has_def
  proof (intro allI impI)
    fix r c assume "owns ?N 0 0 V r c"
    then have "r < length ?M" "c < length (?M ! r)" "?M ! r ! c \<in> {0, 1}" using sh bits by (auto simp: owns_def bits_in_def)
    then show "get2 ?M r c = Inr (of_bool (set_switches ?M r c))" by (auto simp: get2_def set_switches_def)
  qed
  moreover have rows: "\<forall>row\<in>set ?M. length row = V div 2" using sh(2) by (auto simp: in_set_conv_nth)
  moreover have "clean b'"
    unfolding clean_def
  proof (intro ballI subsetI)
    fix row s assume r: "row \<in> set ?M" "s \<in> set row"
    then obtain i j where "i < length ?M" "row = ?M ! i" "j < length row" "s = row ! j" by (metis in_set_conv_nth)
    then show "s \<in> {0, 1}" using at rows r(1) by simp
  qed
  moreover have "network (set_switches ?M) ?N 0 0 [0..<V] = d" using b'(2) by (simp add: routed_def)
  ultimately show ?thesis using b'(1) sh(1) assms(8) by (auto simp: routed_for_def Let_def)
qed

lemma routed_network:
  assumes "routed_for b d" "2 \<le> length d" "length xs = length d"
  shows "network (set_switches (switched b)) (ceil_log2 (length d)) 0 0 xs = map ((!) xs) d"
proof -
  have e: "map ((!) xs) [0..<length d] = xs" using map_nth [of xs] assms(3) by simp
  have "fits (ceil_log2 (length d)) (length [0..<length d])" using ceil_log2_fits [OF assms(2)] by simp
  from network_map [OF this, where f = "(!) xs", unfolded e]
  have "network (set_switches (switched b)) (ceil_log2 (length d)) 0 0 xs =
      map ((!) xs) (network (set_switches (switched b)) (ceil_log2 (length d)) 0 0 [0..<length d])" .
  then show ?thesis using assms(1) by (simp add: routed_for_def Let_def)
qed

lemma routed_eval:
  assumes "routed_for b d" "2 \<le> length d" "length xs = length d"
  shows "gen_benes_eval (switched b) (ceil_log2 (length d)) 0 0 xs = Inr (map ((!) xs) d)"
  using gen_benes_eval_run [of "ceil_log2 (length d)" xs "switched b" "set_switches (switched b)" 0 0]
    ceil_log2_fits [OF assms(2)] routed_network [OF assms] assms(1,3) by (simp add: routed_for_def Let_def)


subsection \<open>The permutation\<close>

lemma returns_down_from:
  assumes "a \<le> n" "I n s" "\<And>i s. a \<le> i \<Longrightarrow> i < n \<Longrightarrow> I (Suc i) s \<Longrightarrow> returns (f i s) (I i)"
  shows "returns (foldE f (rev [a..<n]) s) (I a)"
  using assms
proof (induction n arbitrary: s)
  case (Suc n)
  show ?case
  proof (cases "a = Suc n")
    case False
    then have "a \<le> n" using Suc.prems(1) by simp
    moreover then have "returns (f n s) (I n)" using Suc.prems by simp
    ultimately show ?thesis using Suc.IH Suc.prems(3) by (auto simp: returns_def)
  qed (use Suc.prems in simp)
qed simp

text \<open>From \<open>i\<close> on the permutation is final and the positions are recorded.\<close>

definition settled :: "nat \<Rightarrow> nat \<Rightarrow> nat list \<times> (nat \<Rightarrow> nat option) \<times> 'g \<Rightarrow> bool" where
  "settled n i = (\<lambda>(d, i2loc, g). length d = n \<and> distinct d \<and> set d = {..<n} \<and>
     (\<forall>k. i \<le> k \<longrightarrow> k < n \<longrightarrow> i2loc (d ! k) = Some k) \<and> (\<forall>k<i. k < n \<longrightarrow> i2loc (d ! k) = None))"

lemma settled_step:
  assumes "i < n" "settled n (Suc i) (d, i2loc, g)" "loc \<le> i"
  shows "settled n i (d[i := d ! loc, loc := d ! i], insert_absent (d ! loc) i i2loc, g')"
proof -
  have a: "length d = n" "distinct d" "set d = {..<n}" "\<And>k. Suc i \<le> k \<Longrightarrow> k < n \<Longrightarrow> i2loc (d ! k) = Some k"
    "\<And>k. k < Suc i \<Longrightarrow> k < n \<Longrightarrow> i2loc (d ! k) = None" using assms(2) by (simp_all add: settled_def)
  let ?d = "d[i := d ! loc, loc := d ! i]"
  have l: "i < length d" "loc < length d" using assms(1,3) a(1) by simp_all
  have perm: "length ?d = n" "distinct ?d" "set ?d = {..<n}"
    using a(1-3) distinct_swap [OF l(2,1)] set_swap [OF l(2,1)] l
    by (simp_all add: list_update_swap [of i loc] split: if_splits)
  have at: "?d ! k = (if k = loc then d ! i else if k = i then d ! loc else d ! k)" if "k < n" for k
    using that l a(1) by (simp add: nth_list_update)
  have new: "insert_absent (d ! loc) i i2loc = i2loc(d ! loc := Some i)"
    using a(5) [of loc] l assms(3) a(1) by (simp add: insert_absent_def)
  have inj: "d ! k = d ! k' \<longleftrightarrow> k = k'" if "k < n" "k' < n" for k k' using that a(1,2) by (simp add: nth_eq_iff_index_eq)
  have "(i2loc(d ! loc := Some i)) (?d ! k) = Some k" if "i \<le> k" "k < n" for k
    using that at [of k] a(4) [of k] inj [of k loc] inj [of i loc] l assms(3) a(1) by (cases "k = i") auto
  moreover have "(i2loc(d ! loc := Some i)) (?d ! k) = None" if "k < i" "k < n" for k
    using that at [of k] a(5) [of k] a(5) [of i] inj [of k loc] inj [of i loc] l assms a(1) by (cases "k = loc") auto
  ultimately show ?thesis using perm new by (simp add: settled_def)
qed

lemma wj_loop:
  assumes "0 < n"
  shows "returns (foldE (wj_step rng) (rev [1..<n]) ([0..<n], (\<lambda>_. None), g)) (settled n 1)"
proof (rule returns_down_from)
  show "settled n n ([0..<n], \<lambda>_. None, g)" by (simp add: settled_def lessThan_atLeast0)
  fix i and s :: "nat list \<times> (nat \<Rightarrow> nat option) \<times> 'a"
  assume i: "1 \<le> i" "i < n" and S: "settled n (Suc i) s"
  obtain d m h where s: "s = (d, m, h)" by (cases s)
  obtain u h' where u: "get_u64 rng h = (u, h')" by (cases "get_u64 rng h")
  let ?loc = "unat u mod (i + 1)"
  have loc: "?loc \<le> i" using mod_less_divisor [of "i + 1" "unat u"] by simp
  have "length d = n" using S by (simp add: s settled_def)
  then have l: "i < length d" "?loc < length d" using i loc by linarith+
  have "d[i := d ! ?loc, ?loc := d ! i] ! i = d ! ?loc" using l by (cases "?loc = i") simp_all
  then have "wj_step rng i s = Inr (d[i := d ! ?loc, ?loc := d ! i], insert_absent (d ! ?loc) i m, h')"
    using l by (simp add: wj_step_def s u Let_def)
  then show "returns (wj_step rng i s) (settled n i)" using settled_step [OF i(2) S [unfolded s] loc] by simp
qed (use assms in simp)

lemma init_wj_ready:
  assumes "2 \<le> sz" "clean (benes s)" "c = NoCache \<or> c = CacheMiss" "sz \<le> 2 ^ 30"
  shows "returns (init_wj rng sz ot c (\<lambda>_. None) s g) (\<lambda>(s', i2loc, g'). snd_size s' = sz \<and> ot_type s' = ot \<and>
    length (dest s') = sz \<and> distinct (dest s') \<and> set (dest s') = {..<sz} \<and> (\<forall>i < sz. i2loc (dest s' ! i) = Some i) \<and>
    routed_for (benes s') (dest s'))"
proof -
  let ?N = "ceil_log2 sz"
  obtain b where b: "benes_initialize (benes s) (int sz) (2 * int ?N - 1) = Inr b" "clean b" "length (switched b) = 2 * ?N - 1"
    "\<forall>row\<in>set (switched b). length row = sz div 2" "room b [0..<sz]"
    using initialize_run [OF _ assms(2,4), of ?N] ceil_log2_bounds(1) [OF assms(1)] by blast
  obtain d m g' where L: "foldE (wj_step rng) (rev [1..<sz]) ([0..<sz], (\<lambda>_. None), g) = Inr (d, m, g')" "settled sz 1 (d, m, g')"
    using wj_loop [of sz rng g] assms(1) by (auto simp: returns_def)
  have d: "length d = sz" "distinct d" "set d = {..<sz}" "\<And>k. 1 \<le> k \<Longrightarrow> k < sz \<Longrightarrow> m (d ! k) = Some k" "m (d ! 0) = None"
    using L(2) assms(1) by (simp_all add: settled_def)
  obtain b' where r: "gen_benes_route ?N 0 0 [0..<sz] d b = Inr b'" "routed_for b' d"
    using route_ready [OF assms(1) b(2-5) d(2,3,1)] by blast
  have route: "(case c of CacheHit x \<Rightarrow> Inr x | _ \<Rightarrow> gen_benes_route ?N 0 0 [0..<sz] d b) = Inr b'"
    using assms(3) r(1) by auto
  have at0: "vec_at d 0 = Inr (d ! 0)" using d(1) assms(1) by simp
  have sizes: "wires_of sz = Inr sz" "nat (int_of_size (sz - 1)) + 1 = sz"
      "[0..<sz] @ drop sz (resized (dest s) sz 0) = [0..<sz]"
    using assms(1,4) by (simp_all add: wires_of_small int_of_size_small)
  have run: "init_wj rng sz ot c (\<lambda>_. None) s g =
      Inr (s\<lparr>snd_size := sz, ot_type := ot, benes := b', dest := d\<rparr>, insert_absent (d ! 0) 0 m, g')"
    by (simp only: init_wj_def Let_def sizes bindE_simps b(1) L(1) split at0 route)
  have "insert_absent (d ! 0) 0 m (d ! i) = Some i" if "i < sz" for i
    using that d(1,2) d(4) [of i] d(5) nth_eq_iff_index_eq [OF d(2), of i 0] by (cases "i = 0") (simp_all add: insert_absent_def)
  then show ?thesis using run d(1-3) r(2) by simp
qed


subsection \<open>A run\<close>

lemma nth_product_upt:
  assumes "k < L * h"
  shows "List.product [0..<L] [0..<h] ! k = (k div h, k mod h)"
proof -
  have "0 < h" using assms by (cases h) auto
  then have "k div h < L" "k mod h < h" using assms by (simp_all add: less_mult_imp_div_less)
  then show ?thesis using assms by (simp add: product_nth)
qed

lemma switches_run:
  assumes "routed_for b d" "V = length d" "L = 2 * ceil_log2 V - 1" "L * (V div 2) < 2 ^ 31"
  shows "\<exists>sws. return_gen_benes_switches b V = Inr sws \<and> length sws = L * (V div 2) \<and>
    (\<forall>r<L. \<forall>c<V div 2. sws ! slot V r c = set_switches (switched b) r c)"
proof -
  let ?h = "V div 2" and ?sw = "set_switches (switched b)"
  have t: "table_has (switched b) ?sw (ceil_log2 V) 0 0 V" using assms(1) by (simp add: routed_for_def Let_def assms(2))
  have "mapE (\<lambda>(j, i). bindE (get2 (switched b) j i) (\<lambda>s. Inr (s \<noteq> 0))) (List.product [0..<L] [0..<?h]) =
      Inr (map (\<lambda>(j, i). ?sw j i) (List.product [0..<L] [0..<?h]))"
    using t by (intro mapE_Inr) (auto simp: table_has_def owns_def assms(3))
  moreover have "\<not> 2 ^ 31 \<le> int L * int ?h" using assms(4) by (simp flip: of_nat_mult)
  ultimately have "return_gen_benes_switches b V = Inr (map (\<lambda>(j, i). ?sw j i) (List.product [0..<L] [0..<?h]))"
    by (simp only: return_gen_benes_switches_def Let_def assms(3) throw_if_simps)
  moreover have "map (\<lambda>(j, i). ?sw j i) (List.product [0..<L] [0..<?h]) ! slot V r c = ?sw r c" if "r < L" "c < ?h" for r c
  proof -
    have k: "slot V r c < L * ?h"
    proof -
      have "slot V r c < Suc r * ?h" using that(2) by (simp add: slot_def)
      also have "\<dots> \<le> L * ?h" using that(1) by (intro mult_le_mono1) simp
      finally show ?thesis .
    qed
    have "slot V r c div ?h = r" "slot V r c mod ?h = c" using that(2) by (simp_all add: slot_def)
    then show ?thesis using k by (simp add: nth_product_upt [OF k])
  qed
  ultimately show ?thesis by (intro exI [where x = "map (\<lambda>(j, i). ?sw j i) (List.product [0..<L] [0..<?h])"]) simp
qed

text \<open>Oblivious transfer: of each pair the receiver gets the message its choice bit names.\<close>

definition transfers :: "(bool list \<Rightarrow> pair list \<Rightarrow> block list) \<Rightarrow> bool" where
  "transfers ot_choose \<longleftrightarrow> (\<forall>cs ts. length cs = length ts \<longrightarrow> ot_choose cs ts = map2 (\<lambda>c t. if c then snd t else fst t) cs ts)"

lemma messages_agree:
  assumes "transfers ot_choose" "length sws = n" "length tmp = n" "ot \<noteq> 0"
  shows "i < n \<Longrightarrow> (ot_choose sws tmp ! i, enc (ot_choose sws tmp ! i)) =
      (if sws ! i then snd (client_messages enc ot tmp bc ! i) else fst (client_messages enc ot tmp bc ! i))"
    and "length (client_messages enc ot tmp bc) = n" "length (ot_choose sws tmp) = n"
  using assms by (auto simp: client_messages_def transfers_def case_prod_beta)

lemma server_run:
  assumes "length sws = n" "length rmsg = n" "length corr = n"
  shows "gen_benes_server_osn enc sws rmsg corr =
    Inr (map (\<lambda>i. if sws ! i then xor_pair (corr ! i) (rmsg ! i, enc (rmsg ! i)) else (rmsg ! i, enc (rmsg ! i))) [0..<n])"
  unfolding gen_benes_server_osn_def assms(1) by (rule mapE_Inr) (use assms in simp)

lemma masked_input_run:
  assumes "length masks = V" "length out = V" "length inputs = V"
  shows "masked_input (zip masks out) V inputs = Inr (xor2 inputs masks)"
proof -
  have "masked_input (zip masks out) V inputs = Inr (map (\<lambda>i. masks ! i XOR inputs ! i) [0..<V])"
    unfolding masked_input_def by (rule mapE_Inr) (use assms in simp)
  then show ?thesis using assms(3) by (simp add: xor2_def xor.commute)
qed

lemma ot_matrix_run:
  assumes "length rs = (2 * ceil_log2 V - 1) * (V div 2)" "2 \<le> V"
  shows "\<exists>T. ot_matrix V rs = Inr T \<and> (\<forall>r<2 * ceil_log2 V - 1. \<forall>c<V div 2. get2 T r c = Inr (rs ! slot V r c))"
proof -
  let ?L = "2 * ceil_log2 V - 1" and ?h = "V div 2"
  have b: "i * ?h + j < length rs" if "i < ?L" "j < ?h" for i j
  proof -
    have "i * ?h + j < Suc i * ?h" using that(2) by simp
    also have "\<dots> \<le> ?L * ?h" using that(1) by (intro mult_le_mono1) simp
    finally show ?thesis using assms by simp
  qed
  let ?row = "\<lambda>i. map (\<lambda>j. rs ! (i * ?h + j)) [0..<?h] @ replicate (V - ?h) (0, 0)"
  have "bindE (mapE (\<lambda>j. vec_at rs (i * ?h + j)) [0..<?h]) (\<lambda>row. Inr (row @ replicate (V - ?h) (0, 0))) = Inr (?row i)"
    if "i < ?L" for i
  proof -
    have "mapE (\<lambda>j. vec_at rs (i * ?h + j)) [0..<?h] = Inr (map (\<lambda>j. rs ! (i * ?h + j)) [0..<?h])"
      by (rule mapE_Inr) (use b [OF that] in simp)
    then show ?thesis by simp
  qed
  then have "mapE (\<lambda>i. bindE (mapE (\<lambda>j. vec_at rs (i * ?h + j)) [0..<?h]) (\<lambda>row. Inr (row @ replicate (V - ?h) (0, 0)))) [0..<?L] =
      Inr (map ?row [0..<?L])" by (intro mapE_Inr) simp
  moreover have "0 < ceil_log2 V" by (rule ceil_log2_bounds(1) [OF assms(2)])
  moreover from this have "nat (2 * int (ceil_log2 V) - 1) = ?L" by simp
  ultimately have "ot_matrix V rs = Inr (map ?row [0..<?L])" by (simp add: ot_matrix_def Let_def)
  then show ?thesis by (intro exI [where x = "map ?row [0..<?L]"]) (simp add: get2_def nth_append slot_def)
qed


lemma run_osn_routed:
  assumes r: "routed_for (benes s) (dest s)" and V: "snd_size s = V" "length (dest s) = V" "2 \<le> V"
    and ot: "transfers ot_choose" "ot_type s \<noteq> 0" and len: "length masks = V" "length inputs = V"
      "length tmp = (2 * ceil_log2 V - 1) * (V div 2)"
    and small: "V \<le> 2 ^ 30" "(2 * ceil_log2 V - 1) * (V div 2) < 2 ^ 31"
  shows "\<exists>out. run_osn enc ot_choose silent_ot s tmp masks inputs = Inr (xor2 (map ((!) inputs) (dest s)) out, out) \<and> length out = V"
proof -
  let ?N = "ceil_log2 V" and ?h = "V div 2" and ?sw = "set_switches (switched (benes s))"
  let ?L = "2 * ?N - 1"
  let ?n = "?L * ?h"
  have f: "fits ?N V" by (rule ceil_log2_fits [OF V(3)])
  have wires: "wires_of V = Inr V" using V(3) small(1) by (simp add: wires_of_small)
  obtain sws where S: "return_gen_benes_switches (benes s) V = Inr sws" "length sws = ?n"
    "\<And>r c. r < ?L \<Longrightarrow> c < ?h \<Longrightarrow> sws ! slot V r c = ?sw r c"
    using switches_run [OF r, of V ?L] V(2) small(2) by auto
  have C: "ot_exchange ot_choose silent_ot s sws tmp = Inr ([], tmp, ot_choose sws tmp)" using ot(2) by (simp add: ot_exchange_def)
  note ma = messages_agree(1,2) [OF ot(1) S(2) len(3) ot(2), where bc = "[]"] messages_agree(3) [OF ot(1) S(2) len(3) ot(2)]
  let ?ms = "client_messages enc (ot_type s) tmp []" and ?rm = "ot_choose sws tmp"
  have sl: "slot V r c < ?n" if "r < ?L" "c < ?h" for r c
  proof -
    have "slot V r c < Suc r * ?h" using that(2) by (simp add: slot_def)
    also have "\<dots> \<le> ?n" using that(1) by (intro mult_le_mono1) simp
    finally show ?thesis .
  qed
  let ?s0 = "(?ms, replicate ?n (0, 0)) :: corrections"
  let ?A = "\<lambda>r c. fst (?ms ! slot V r c)" and ?B = "\<lambda>r c. snd (?ms ! slot V r c)"
  have lm: "length ?ms = ?n" "length ?rm = ?n" using ma(2,3) by blast+
  have "supplied V ?N 0 0 V ?A ?B ?s0" using sl lm(1) by (simp add: supplied_def owns_def)
  then obtain s1 where P: "prepare_correction ?N V 0 0 masks ?s0 = Inr (masked_network straight ?A ?N 0 0 masks, s1)"
    "net_done V ?N 0 0 V ?s0 s1" "corrected ?A (fixes_of V ?B s1) ?N 0 0 masks"
    using prepare_correction_run [of ?N masks 0 V 0 ?A ?B ?s0] f len(1) by auto
  let ?out = "masked_network straight ?A ?N 0 0 masks"
  have out: "length ?out = V" "length (snd s1) = ?n" using len(1) P(2) by (simp_all add: net_done_def)
  let ?rs = "map (\<lambda>i. if sws ! i then xor_pair (snd s1 ! i) (?rm ! i, enc (?rm ! i)) else (?rm ! i, enc (?rm ! i))) [0..<?n]"
  have G: "gen_benes_server_osn enc sws ?rm (snd s1) = Inr ?rs" by (rule server_run [OF S(2) lm(2) out(2)])
  let ?P = "\<lambda>r c. if ?sw r c then fixes_of V ?B s1 r c else ?A r c"
  have rs: "?rs ! slot V r c = ?P r c" if "r < ?L" "c < ?h" for r c
    using sl [OF that] ma(1) [OF sl [OF that]] S(3) [OF that] by (simp add: fixes_of_def)
  obtain T where T: "ot_matrix V ?rs = Inr T" "\<And>r c. r < ?L \<Longrightarrow> c < ?h \<Longrightarrow> get2 T r c = Inr (?rs ! slot V r c)"
    using ot_matrix_run [of ?rs V] V(3) by auto
  have pads: "pads_has T ?P ?N 0 0 V" using T(2) rs by (simp add: pads_has_def owns_def)
  have table: "table_has (switched (benes s)) ?sw ?N 0 0 V" using r V(2) by (simp add: routed_for_def Let_def)
  have "gen_benes_masked_evaluate (switched (benes s)) ?N 0 0 (xor2 inputs masks) T = Inr (masked_network ?sw ?P ?N 0 0 (xor2 inputs masks))"
    using gen_benes_masked_evaluate_run [of ?N "xor2 inputs masks" _ ?sw 0 0 T ?P] f table pads len(2) by simp
  also have "masked_network ?sw ?P ?N 0 0 (xor2 inputs masks) = xor2 (network ?sw ?N 0 0 inputs) ?out"
    using masked_linear [of ?N masks inputs ?A "fixes_of V ?B s1" 0 0 ?sw] f len(1,2) P(3) by simp
  also have "network ?sw ?N 0 0 inputs = map ((!) inputs) (dest s)"
    using routed_network [OF r, of inputs] V(2,3) len(2) by simp
  finally have E: "gen_benes_masked_evaluate (switched (benes s)) ?N 0 0 (xor2 inputs masks) T = Inr (xor2 (map ((!) inputs) (dest s)) ?out)" .
  have "\<not> 2 ^ 31 \<le> int ?L * int ?h" using small(2) by (simp flip: of_nat_mult)
  then have cl: "gen_benes_client_osn enc (ot_type s) V masks tmp [] = Inr (zip masks ?out, snd s1)"
    by (simp only: gen_benes_client_osn_def Let_def P(1) bindE_simps throw_if_simps split)
  have "map snd (zip masks ?out) = ?out" using len(1) out(1) by simp
  then have "run_osn enc ot_choose silent_ot s tmp masks inputs = Inr (xor2 (map ((!) inputs) (dest s)) ?out, ?out)"
    by (simp only: run_osn_def V(1) wires S(1) bindE_simps C split cl G masked_input_run [OF len(1) out(1) len(2)] T(1) E)
  then show ?thesis using out(1) by blast
qed

text \<open>C8: A sender object set up from any used one, for 2 up to \<open>2 ^ 30\<close> elements (the code narrows the
  size to an \<open>int\<close>), draws a permutation, records where each element
  went, and routes a network that permutes any vector of blocks with it; without a cached network.\<close>

theorem init_wj_permutes:
  fixes rng :: "'g prng"
  assumes "2 \<le> sz" "sz \<le> 2 ^ 30" "clean (benes s)" "c = NoCache \<or> c = CacheMiss"
  shows "returns (init_wj rng sz ot c (\<lambda>_. None) s g) (\<lambda>(s', i2loc, g'). distinct (dest s') \<and> set (dest s') = {..<sz} \<and>
    (\<forall>i < sz. i2loc (dest s' ! i) = Some i) \<and> clean (benes s') \<and>
    (\<forall>v. length v = sz \<longrightarrow> permuteBlocks s' v = Inr (map ((!) v) (dest s'))))"
  using init_wj_ready [OF assms(1,3,4,2)]
proof (rule returns_mono)
  fix a :: "Sender \<times> (nat \<Rightarrow> nat option) \<times> 'g"
  assume A: "(\<lambda>(s', i2loc, g'). snd_size s' = sz \<and> ot_type s' = ot \<and>
    length (dest s') = sz \<and> distinct (dest s') \<and> set (dest s') = {..<sz} \<and> (\<forall>i < sz. i2loc (dest s' ! i) = Some i) \<and>
    routed_for (benes s') (dest s')) a"
  show "(\<lambda>(s', i2loc, g'). distinct (dest s') \<and> set (dest s') = {..<sz} \<and>
    (\<forall>i < sz. i2loc (dest s' ! i) = Some i) \<and> clean (benes s') \<and>
    (\<forall>v. length v = sz \<longrightarrow> permuteBlocks s' v = Inr (map ((!) v) (dest s')))) a"
  proof (cases a)
    case (fields s' m g')
    have S: "routed_for (benes s') (dest s')" "snd_size s' = sz" "length (dest s') = sz"
      "distinct (dest s')" "set (dest s') = {..<sz}" "\<forall>i < sz. m (dest s' ! i) = Some i"
      using A by (simp_all add: fields)
    have "clean (benes s')" using S(1) by (simp add: routed_for_def)
    moreover have "permuteBlocks s' v = Inr (map ((!) v) (dest s'))" if "length v = sz" for v
      using routed_eval [OF S(1), of v] S(2,3) that assms(1,2) by (simp add: permuteBlocks_def wires_of_small)
    ultimately show ?thesis using S by (simp add: fields)
  qed
qed

text \<open>C7: After that set-up with a transfer type other than 0, for sizes of at most \<open>2 ^ 30\<close> whose number of
  switches fits an \<open>int\<close>, the exchange returns for any random pairs, masks and inputs, given transfers
  that deliver what the choices name, and the sender's output xored with the receiver's output masks
  is the input permuted. Type 0, whose two parties configure other numbers of transfers than they
  ask for, is left out.\<close>

theorem run_osn_permutes:
  fixes rng :: "'g prng"
  assumes "2 \<le> sz" "sz \<le> 2 ^ 30" "(2 * ceil_log2 sz - 1) * (sz div 2) < 2 ^ 31"
    and "clean (benes s)" "c = NoCache \<or> c = CacheMiss" "ot \<noteq> 0" "transfers ot_choose"
  shows "returns (init_wj rng sz ot c (\<lambda>_. None) s g) (\<lambda>(s', i2loc, g'). \<forall>tmp masks inputs.
    length masks = sz \<longrightarrow> length inputs = sz \<longrightarrow> length tmp = (2 * ceil_log2 sz - 1) * (sz div 2) \<longrightarrow>
    returns (run_osn enc ot_choose silent_ot s' tmp masks inputs) (\<lambda>(output, output_masks).
      length output = sz \<and> length output_masks = sz \<and>
      (\<forall>i < sz. output ! i XOR output_masks ! i = inputs ! (dest s' ! i))))"
  using init_wj_ready [OF assms(1,4,5,2)]
proof (rule returns_mono)
  fix a :: "Sender \<times> (nat \<Rightarrow> nat option) \<times> 'g"
  assume A: "(\<lambda>(s', i2loc, g'). snd_size s' = sz \<and> ot_type s' = ot \<and>
    length (dest s') = sz \<and> distinct (dest s') \<and> set (dest s') = {..<sz} \<and> (\<forall>i < sz. i2loc (dest s' ! i) = Some i) \<and>
    routed_for (benes s') (dest s')) a"
  obtain s' m g' where a: "a = (s', m, g')" by (cases a)
  have S: "routed_for (benes s') (dest s')" "snd_size s' = sz" "length (dest s') = sz" "ot_type s' \<noteq> 0"
    using A assms(6) by (simp_all add: a)
  show "(\<lambda>(s', i2loc, g'). \<forall>tmp masks inputs.
    length masks = sz \<longrightarrow> length inputs = sz \<longrightarrow> length tmp = (2 * ceil_log2 sz - 1) * (sz div 2) \<longrightarrow>
    returns (run_osn enc ot_choose silent_ot s' tmp masks inputs) (\<lambda>(output, output_masks).
      length output = sz \<and> length output_masks = sz \<and>
      (\<forall>i < sz. output ! i XOR output_masks ! i = inputs ! (dest s' ! i)))) a"
    unfolding a split
  proof (intro allI impI)
    fix tmp :: "pair list" and masks inputs :: "block list"
    assume "length masks = sz" "length inputs = sz" "length tmp = (2 * ceil_log2 sz - 1) * (sz div 2)"
    then obtain out where "run_osn enc ot_choose silent_ot s' tmp masks inputs = Inr (xor2 (map ((!) inputs) (dest s')) out, out)" "length out = sz"
      using run_osn_routed [OF S(1-3) assms(1,7) S(4) _ _ _ assms(2,3), of masks inputs tmp enc silent_ot] by auto
    then show "returns (run_osn enc ot_choose silent_ot s' tmp masks inputs) (\<lambda>(output, output_masks).
      length output = sz \<and> length output_masks = sz \<and> (\<forall>i < sz. output ! i XOR output_masks ! i = inputs ! (dest s' ! i)))"
      using S(3) by (simp add: xor.assoc)
  qed
qed


text \<open>An object that was never used, and transfers as they are specified, for the witnesses.\<close>

definition empty_sender :: Sender where
  "empty_sender = \<lparr>snd_size = 0, ot_type = 0, mPi = [], benes = \<lparr>perm = [], inv_perm = [], switched = [], path = []\<rparr>, dest = []\<rparr>"

definition ideal_transfer :: "bool list \<Rightarrow> pair list \<Rightarrow> block list" where
  "ideal_transfer cs ts = map2 (\<lambda>c t. if c then snd t else fst t) cs ts"

lemma empty_sender_clean: "clean (benes empty_sender)"
  by (simp add: empty_sender_def clean_def)

lemma ideal_transfers: "transfers ideal_transfer"
  by (simp add: transfers_def ideal_transfer_def)

theorem init_wj_permutes_witness:
  "returns (init_wj counter_prng 5 1 NoCache (\<lambda>_. None) empty_sender 0) (\<lambda>(s', i2loc, g').
     (\<forall>i < 5. i2loc (dest s' ! i) = Some i) \<and>
     permuteBlocks s' [10, 20, 30, 40, 50] = Inr (map ((!) [10, 20, 30, 40, 50]) (dest s')))"
  by (rule returns_mono [OF init_wj_permutes [of 5 empty_sender NoCache, OF _ _ empty_sender_clean]]) auto

theorem run_osn_permutes_witness:
  "returns (init_wj counter_prng 3 1 NoCache (\<lambda>_. None) empty_sender 0) (\<lambda>(s', i2loc, g').
     returns (run_osn (\<lambda>x. x + 1) ideal_transfer (\<lambda>_ _ _. Inl Diverges) s' [(1, 2), (3, 4), (5, 6)] [7, 8, 9] [70, 80, 90])
       (\<lambda>(output, output_masks). length output = 3 \<and> (\<forall>i < 3. output ! i XOR output_masks ! i = [70, 80, 90] ! (dest s' ! i))))"
proof -
  have "ceil_log2 3 = 2" by (simp add: ceil_log2.simps [of 3] ceil_log2.simps [of 2] ceil_log2.simps [of 1] ceil_log2.simps [of "Suc 0"])
  then have n: "length [(1, 2), (3, 4), (5, 6 :: block)] = (2 * ceil_log2 3 - 1) * (3 div 2)"
    "length [7, 8, 9 :: block] = 3" "length [70, 80, 90 :: block] = 3" "(2 * ceil_log2 3 - 1) * (3 div 2) < 2 ^ 31" by simp_all
  show ?thesis
    apply (rule returns_mono [OF run_osn_permutes [of 3 empty_sender NoCache 1, OF _ _ n(4) empty_sender_clean _ _ ideal_transfers,
          where enc = "\<lambda>x. x + 1" and silent_ot = "\<lambda>_ _ _. Inl Diverges"]])
       apply simp_all
    apply (simp only: case_prod_unfold)
    apply (drule spec [where x = "[(1, 2), (3, 4), (5, 6)]"])
    apply (drule spec [where x = "[7, 8, 9]"], drule mp, simp, drule spec [where x = "[70, 80, 90]"])
    apply (rule returns_mono)
     apply (use n in simp)
    apply simp
    done
qed

end
