(* ===== verification/Ristretto.thy ===== *)
theory Ristretto
  imports Bytes
begin

text \<open>
  The Ristretto group wrapper and Pedersen commitments (\<open>volePSI/MpRistretto.h\<close>,
  \<open>volePSI/MpRistretto.cpp\<close>, \<open>volePSI/MpPedersen.cpp\<close>).

  libsodium is not part of the repository: its functions are the record \<open>sodium\<close>, an argument of
  every definition, and what its documentation promises of them is the predicate \<open>ristretto_laws\<close>:
  a cyclic group of order \<open>L\<close> with canonical encodings \<open>el x\<close> of the multiples of the generator and
  \<open>sc x\<close> of the integers modulo \<open>L\<close>. A call whose return code is not zero gives \<open>None\<close>; in
  particular a multiplication whose result is the identity. \<open>toy_sodium\<close> is a group of order 13
  that satisfies the laws.

  A scalar, a point and a commitment are the 32 bytes of their only field.
\<close>

type_synonym R255Scalar = bytes
type_synonym R255Point = bytes
type_synonym PedersenCommitment = R255Point

record 'r sodium =
  sodium_init :: int
  scalar_random :: "'r \<Rightarrow> R255Scalar \<times> 'r"
  point_random :: "'r \<Rightarrow> R255Point \<times> 'r"
  random_bytes :: "nat \<Rightarrow> 'r \<Rightarrow> bytes \<times> 'r"
  core_scalar_add :: "R255Scalar \<Rightarrow> R255Scalar \<Rightarrow> R255Scalar"
  core_scalar_sub :: "R255Scalar \<Rightarrow> R255Scalar \<Rightarrow> R255Scalar"
  core_scalar_mul :: "R255Scalar \<Rightarrow> R255Scalar \<Rightarrow> R255Scalar"
  core_scalar_negate :: "R255Scalar \<Rightarrow> R255Scalar"
  core_scalar_invert :: "R255Scalar \<Rightarrow> R255Scalar option"
  core_scalar_reduce :: "bytes \<Rightarrow> R255Scalar"
  scalarmult_base :: "R255Scalar \<Rightarrow> R255Point option"
  scalarmult :: "R255Scalar \<Rightarrow> R255Point \<Rightarrow> R255Point option"
  core_add :: "R255Point \<Rightarrow> R255Point \<Rightarrow> R255Point option"
  core_sub :: "R255Point \<Rightarrow> R255Point \<Rightarrow> R255Point option"
  core_from_hash :: "bytes \<Rightarrow> R255Point option"
  is_valid_point :: "R255Point \<Rightarrow> bool"
  sha512 :: "bytes \<Rightarrow> bytes"
  sha256 :: "bytes \<Rightarrow> bytes"

subsection \<open>The wrapper\<close>

definition ensureSodiumInit :: "'r sodium \<Rightarrow> unit result" where
  "ensureSodiumInit sd =
     throw_if (sodium_init sd < 0) (RuntimeError ''ensureSodiumInit: sodium_init failed'') (Inr ())"

definition or_throw :: "string \<Rightarrow> 'a option \<Rightarrow> 'a result" where
  "or_throw msg x = (case x of None \<Rightarrow> Inl (RuntimeError msg) | Some a \<Rightarrow> Inr a)"

definition scalar_zero :: R255Scalar where "scalar_zero = replicate 32 0"
definition scalar_one :: R255Scalar where "scalar_one = 1 # replicate 31 0"
definition point_identity :: R255Point where "point_identity = replicate 32 0"

definition scalar_fromU64 :: "64 word \<Rightarrow> R255Scalar" where
  "scalar_fromU64 v = le_bytes 8 v @ replicate 24 0"

definition scalar_fromBytes :: "bytes \<Rightarrow> R255Scalar result" where
  "scalar_fromBytes p =
     throw_if (length p \<noteq> 32) (RuntimeError ''R255Scalar::fromBytes: len must be 32'') (Inr p)"

definition R255Scalar_random :: "'r sodium \<Rightarrow> 'r \<Rightarrow> (R255Scalar \<times> 'r) result" where
  "R255Scalar_random sd r = bindE (ensureSodiumInit sd) (\<lambda>_. Inr (scalar_random sd r))"

definition R255Point_random :: "'r sodium \<Rightarrow> 'r \<Rightarrow> (R255Point \<times> 'r) result" where
  "R255Point_random sd r = bindE (ensureSodiumInit sd) (\<lambda>_. Inr (point_random sd r))"

definition scalarAdd :: "'r sodium \<Rightarrow> R255Scalar \<Rightarrow> R255Scalar \<Rightarrow> R255Scalar result" where
  "scalarAdd sd a b = bindE (ensureSodiumInit sd) (\<lambda>_. Inr (core_scalar_add sd a b))"

definition scalarSub :: "'r sodium \<Rightarrow> R255Scalar \<Rightarrow> R255Scalar \<Rightarrow> R255Scalar result" where
  "scalarSub sd a b = bindE (ensureSodiumInit sd) (\<lambda>_. Inr (core_scalar_sub sd a b))"

definition scalarMul :: "'r sodium \<Rightarrow> R255Scalar \<Rightarrow> R255Scalar \<Rightarrow> R255Scalar result" where
  "scalarMul sd a b = bindE (ensureSodiumInit sd) (\<lambda>_. Inr (core_scalar_mul sd a b))"

definition scalarNegate :: "'r sodium \<Rightarrow> R255Scalar \<Rightarrow> R255Scalar result" where
  "scalarNegate sd a = bindE (ensureSodiumInit sd) (\<lambda>_. Inr (core_scalar_negate sd a))"

definition scalarInvert :: "'r sodium \<Rightarrow> R255Scalar \<Rightarrow> R255Scalar result" where
  "scalarInvert sd a = bindE (ensureSodiumInit sd) (\<lambda>_.
     or_throw ''scalarInvert: zero or non-invertible scalar'' (core_scalar_invert sd a))"

definition scalarMultBase :: "'r sodium \<Rightarrow> R255Scalar \<Rightarrow> R255Point result" where
  "scalarMultBase sd s = bindE (ensureSodiumInit sd) (\<lambda>_.
     or_throw ''scalarMultBase: failed (likely zero scalar?)'' (scalarmult_base sd s))"

definition scalarMult :: "'r sodium \<Rightarrow> R255Scalar \<Rightarrow> R255Point \<Rightarrow> R255Point result" where
  "scalarMult sd s p = bindE (ensureSodiumInit sd) (\<lambda>_. or_throw ''scalarMult: failed (rc='' (scalarmult sd s p))"

definition pointAdd :: "'r sodium \<Rightarrow> R255Point \<Rightarrow> R255Point \<Rightarrow> R255Point result" where
  "pointAdd sd p q = bindE (ensureSodiumInit sd) (\<lambda>_.
     or_throw ''pointAdd: failed (invalid point?)'' (core_add sd p q))"

definition pointSub :: "'r sodium \<Rightarrow> R255Point \<Rightarrow> R255Point \<Rightarrow> R255Point result" where
  "pointSub sd p q = bindE (ensureSodiumInit sd) (\<lambda>_.
     or_throw ''pointSub: failed (invalid point?)'' (core_sub sd p q))"

definition hashToPoint :: "'r sodium \<Rightarrow> bytes \<Rightarrow> R255Point result" where
  "hashToPoint sd msg = bindE (ensureSodiumInit sd) (\<lambda>_.
     or_throw ''hashToPoint: from_hash failed'' (core_from_hash sd (sha512 sd msg)))"

definition hashToScalar :: "'r sodium \<Rightarrow> bytes \<Rightarrow> R255Scalar result" where
  "hashToScalar sd msg = bindE (ensureSodiumInit sd) (\<lambda>_. Inr (core_scalar_reduce sd (sha512 sd msg)))"

definition generator :: "'r sodium \<Rightarrow> R255Point result" where
  "generator sd = scalarMultBase sd scalar_one"

definition pedersenH :: "'r sodium \<Rightarrow> R255Point result" where
  "pedersenH sd = bindE (ensureSodiumInit sd) (\<lambda>_. hashToPoint sd (str_bytes ''mpstar.pedersen.H.v1''))"

subsection \<open>Pedersen commitments\<close>

definition pedersenCommit :: "'r sodium \<Rightarrow> R255Scalar \<Rightarrow> R255Scalar \<Rightarrow> PedersenCommitment result" where
  "pedersenCommit sd m r =
     bindE (scalarMultBase sd m) (\<lambda>gm. bindE (pedersenH sd) (\<lambda>h. bindE (scalarMult sd r h) (\<lambda>hr. pointAdd sd gm hr)))"

definition pedersenVerify :: "'r sodium \<Rightarrow> PedersenCommitment \<Rightarrow> R255Scalar \<Rightarrow> R255Scalar \<Rightarrow> bool result" where
  "pedersenVerify sd c m r = bindE (pedersenCommit sd m r) (\<lambda>expected. Inr (expected = c))"

definition pedersenAdd :: "'r sodium \<Rightarrow> PedersenCommitment \<Rightarrow> PedersenCommitment \<Rightarrow> PedersenCommitment result" where
  "pedersenAdd sd a b = pointAdd sd a b"

definition pedersenScalarMul :: "'r sodium \<Rightarrow> R255Scalar \<Rightarrow> PedersenCommitment \<Rightarrow> PedersenCommitment result" where
  "pedersenScalarMul sd k c = scalarMult sd k c"

definition pedersenCommitVector ::
  "'r sodium \<Rightarrow> R255Scalar list \<Rightarrow> R255Scalar list \<Rightarrow> PedersenCommitment list result" where
  "pedersenCommitVector sd messages openings =
     throw_if (length messages \<noteq> length openings) (RuntimeError ''pedersenCommitVector: size mismatch'')
       (mapE (\<lambda>(m, r). pedersenCommit sd m r) (zip messages openings))"

fun freshOpenings :: "'r sodium \<Rightarrow> nat \<Rightarrow> 'r \<Rightarrow> (R255Scalar list \<times> 'r) result" where
  "freshOpenings sd 0 r = Inr ([], r)"
| "freshOpenings sd (Suc n) r =
     bindE (R255Scalar_random sd r) (\<lambda>(s, r1). bindE (freshOpenings sd n r1) (\<lambda>(ss, r2). Inr (s # ss, r2)))"

subsection \<open>What libsodium documents\<close>

definition scalar_laws :: "'r sodium \<Rightarrow> int \<Rightarrow> (int \<Rightarrow> R255Scalar) \<Rightarrow> bool" where
  "scalar_laws sd L sc \<longleftrightarrow>
     (\<forall>x y. sc x = sc y \<longleftrightarrow> x mod L = y mod L) \<and> (\<forall>x. length (sc x) = 32) \<and>
     sc 0 = scalar_zero \<and> sc 1 = scalar_one \<and>
     (\<forall>x y. core_scalar_add sd (sc x) (sc y) = sc (x + y)) \<and>
     (\<forall>x y. core_scalar_sub sd (sc x) (sc y) = sc (x - y)) \<and>
     (\<forall>x y. core_scalar_mul sd (sc x) (sc y) = sc (x * y)) \<and>
     (\<forall>x. core_scalar_negate sd (sc x) = sc (- x)) \<and>
     core_scalar_invert sd (sc 0) = None \<and>
     (\<forall>x. x mod L \<noteq> 0 \<longrightarrow> (\<exists>y. core_scalar_invert sd (sc x) = Some (sc y) \<and> sc (x * y) = sc 1)) \<and>
     (\<forall>h. length h = 64 \<longrightarrow> (\<exists>x. core_scalar_reduce sd h = sc x)) \<and>
     (\<forall>r. \<exists>x r'. scalar_random sd r = (sc x, r') \<and> x mod L \<noteq> 0)"

definition point_laws :: "'r sodium \<Rightarrow> int \<Rightarrow> (int \<Rightarrow> R255Scalar) \<Rightarrow> (int \<Rightarrow> R255Point) \<Rightarrow> bool" where
  "point_laws sd L sc el \<longleftrightarrow>
     (\<forall>x y. el x = el y \<longleftrightarrow> x mod L = y mod L) \<and> (\<forall>x. length (el x) = 32) \<and> el 0 = point_identity \<and>
     (\<forall>x. scalarmult_base sd (sc x) = (if x mod L = 0 then None else Some (el x))) \<and>
     (\<forall>x y. scalarmult sd (sc x) (el y) = (if x * y mod L = 0 then None else Some (el (x * y)))) \<and>
     (\<forall>x y. core_add sd (el x) (el y) = Some (el (x + y))) \<and>
     (\<forall>x y. core_sub sd (el x) (el y) = Some (el (x - y))) \<and>
     (\<forall>p. is_valid_point sd p \<longleftrightarrow> (\<exists>x. p = el x)) \<and>
     (\<forall>p s. \<not> is_valid_point sd p \<longrightarrow> scalarmult sd s p = None) \<and>
     (\<forall>p q. \<not> is_valid_point sd p \<or> \<not> is_valid_point sd q \<longrightarrow> core_add sd p q = None \<and> core_sub sd p q = None) \<and>
     (\<forall>h. length h = 64 \<longrightarrow> (\<exists>x. core_from_hash sd h = Some (el x)))"

definition ristretto_laws :: "'r sodium \<Rightarrow> int \<Rightarrow> (int \<Rightarrow> R255Scalar) \<Rightarrow> (int \<Rightarrow> R255Point) \<Rightarrow> bool" where
  "ristretto_laws sd L sc el \<longleftrightarrow>
     0 \<le> sodium_init sd \<and> 1 < L \<and> scalar_laws sd L sc \<and> point_laws sd L sc el \<and>
     (\<forall>m. length (sha512 sd m) = 64) \<and> (\<forall>m. length (sha256 sd m) = 32)"


lemma scalar_lawsD:
  assumes "scalar_laws sd L sc"
  shows "\<forall>x y. sc x = sc y \<longleftrightarrow> x mod L = y mod L" "\<forall>x. length (sc x) = 32"
    and "sc 0 = scalar_zero" "sc 1 = scalar_one"
    and "\<forall>x y. core_scalar_add sd (sc x) (sc y) = sc (x + y)"
    and "\<forall>x y. core_scalar_sub sd (sc x) (sc y) = sc (x - y)"
    and "\<forall>x y. core_scalar_mul sd (sc x) (sc y) = sc (x * y)"
    and "\<forall>x. core_scalar_negate sd (sc x) = sc (- x)"
    and "core_scalar_invert sd (sc 0) = None"
    and "\<forall>x. x mod L \<noteq> 0 \<longrightarrow> (\<exists>y. core_scalar_invert sd (sc x) = Some (sc y) \<and> sc (x * y) = sc 1)"
    and "\<forall>h. length h = 64 \<longrightarrow> (\<exists>x. core_scalar_reduce sd h = sc x)"
    and "\<forall>r. \<exists>x r'. scalar_random sd r = (sc x, r') \<and> x mod L \<noteq> 0"
  using assms unfolding scalar_laws_def by - (elim conjE, assumption)+

lemma point_lawsD:
  assumes "point_laws sd L sc el"
  shows "\<forall>x y. el x = el y \<longleftrightarrow> x mod L = y mod L" "\<forall>x. length (el x) = 32" "el 0 = point_identity"
    and "\<forall>x. scalarmult_base sd (sc x) = (if x mod L = 0 then None else Some (el x))"
    and "\<forall>x y. scalarmult sd (sc x) (el y) = (if x * y mod L = 0 then None else Some (el (x * y)))"
    and "\<forall>x y. core_add sd (el x) (el y) = Some (el (x + y))"
    and "\<forall>x y. core_sub sd (el x) (el y) = Some (el (x - y))"
    and "\<forall>p. is_valid_point sd p \<longleftrightarrow> (\<exists>x. p = el x)"
    and "\<forall>p s. \<not> is_valid_point sd p \<longrightarrow> scalarmult sd s p = None"
    and "\<forall>p q. \<not> is_valid_point sd p \<or> \<not> is_valid_point sd q \<longrightarrow> core_add sd p q = None \<and> core_sub sd p q = None"
    and "\<forall>h. length h = 64 \<longrightarrow> (\<exists>x. core_from_hash sd h = Some (el x))"
  using assms unfolding point_laws_def by - (elim conjE, assumption)+

lemma ristretto_lawsD:
  assumes "ristretto_laws sd L sc el"
  shows "0 \<le> sodium_init sd" "1 < L" "scalar_laws sd L sc" "point_laws sd L sc el"
    and "\<forall>m. length (sha512 sd m) = 64" "\<forall>m. length (sha256 sd m) = 32"
  using assms unfolding ristretto_laws_def by - (elim conjE, assumption)+

lemmas sc_lawsD = scalar_lawsD [OF ristretto_lawsD(3)]
lemmas el_lawsD = point_lawsD [OF ristretto_lawsD(4)]

lemma laws_init: "ristretto_laws sd L sc el \<Longrightarrow> ensureSodiumInit sd = Inr ()"
  using ristretto_lawsD(1) [of sd L sc el] by (simp add: ensureSodiumInit_def)

lemma laws_order: "ristretto_laws sd L sc el \<Longrightarrow> 1 < L"
  by (rule ristretto_lawsD(2))

lemma laws_sc: "ristretto_laws sd L sc el \<Longrightarrow> sc x = sc y \<longleftrightarrow> x mod L = y mod L"
  by (rule sc_lawsD(1) [rule_format])

lemma laws_el: "ristretto_laws sd L sc el \<Longrightarrow> el x = el y \<longleftrightarrow> x mod L = y mod L"
  by (rule el_lawsD(1) [rule_format])

lemma laws_lengths:
  "ristretto_laws sd L sc el \<Longrightarrow> length (sc x) = 32"
  "ristretto_laws sd L sc el \<Longrightarrow> length (el x) = 32"
  by (rule sc_lawsD(2) [rule_format], assumption) (rule el_lawsD(2) [rule_format])

lemma laws_consts:
  "ristretto_laws sd L sc el \<Longrightarrow> scalar_zero = sc 0"
  "ristretto_laws sd L sc el \<Longrightarrow> scalar_one = sc 1"
  "ristretto_laws sd L sc el \<Longrightarrow> point_identity = el 0"
  by (rule sc_lawsD(3) [symmetric], assumption) (rule sc_lawsD(4) [symmetric], assumption, rule el_lawsD(3) [symmetric])

lemma laws_scalar_ops:
  assumes "ristretto_laws sd L sc el"
  shows "scalarAdd sd (sc x) (sc y) = Inr (sc (x + y))"
    and "scalarSub sd (sc x) (sc y) = Inr (sc (x - y))"
    and "scalarMul sd (sc x) (sc y) = Inr (sc (x * y))"
    and "scalarNegate sd (sc x) = Inr (sc (- x))"
proof -
  note core = sc_lawsD(5-8) [OF assms, rule_format]
  show "scalarAdd sd (sc x) (sc y) = Inr (sc (x + y))" "scalarSub sd (sc x) (sc y) = Inr (sc (x - y))"
    "scalarMul sd (sc x) (sc y) = Inr (sc (x * y))" "scalarNegate sd (sc x) = Inr (sc (- x))"
    by (simp_all add: scalarAdd_def scalarSub_def scalarMul_def scalarNegate_def laws_init [OF assms] core)
qed

lemma laws_scalarInvert:
  assumes "ristretto_laws sd L sc el" and "x mod L \<noteq> 0"
  obtains y where "scalarInvert sd (sc x) = Inr (sc y)" and "x * y mod L = 1"
proof -
  obtain y where y: "core_scalar_invert sd (sc x) = Some (sc y)" "sc (x * y) = sc 1"
    using sc_lawsD(10) [OF assms(1), rule_format, OF assms(2)] by blast
  have "x * y mod L = 1" using y(2) laws_order [OF assms(1)] by (simp add: laws_sc [OF assms(1)])
  then show thesis using that y(1) by (simp add: scalarInvert_def or_throw_def laws_init [OF assms(1)])
qed

lemma laws_scalarMultBase:
  assumes "ristretto_laws sd L sc el"
  shows "scalarMultBase sd (sc x) =
    (if x mod L = 0 then Inl (RuntimeError ''scalarMultBase: failed (likely zero scalar?)'') else Inr (el x))"
proof -
  note base = el_lawsD(4) [OF assms, rule_format]
  show ?thesis by (simp add: scalarMultBase_def or_throw_def laws_init [OF assms] base)
qed

lemma laws_scalarMult:
  assumes "ristretto_laws sd L sc el"
  shows "scalarMult sd (sc x) (el y) =
    (if x * y mod L = 0 then Inl (RuntimeError ''scalarMult: failed (rc='') else Inr (el (x * y)))"
proof -
  note mult = el_lawsD(5) [OF assms, rule_format]
  show ?thesis by (simp add: scalarMult_def or_throw_def laws_init [OF assms] mult)
qed

lemma laws_point_ops:
  assumes "ristretto_laws sd L sc el"
  shows "pointAdd sd (el x) (el y) = Inr (el (x + y))"
    and "pointSub sd (el x) (el y) = Inr (el (x - y))"
proof -
  note core = el_lawsD(6,7) [OF assms, rule_format]
  show "pointAdd sd (el x) (el y) = Inr (el (x + y))" "pointSub sd (el x) (el y) = Inr (el (x - y))"
    by (simp_all add: pointAdd_def pointSub_def or_throw_def laws_init [OF assms] core)
qed

lemma laws_valid: "ristretto_laws sd L sc el \<Longrightarrow> is_valid_point sd p \<longleftrightarrow> (\<exists>x. p = el x)"
  by (rule el_lawsD(8) [rule_format])

lemma laws_invalid:
  assumes "ristretto_laws sd L sc el" and "\<not> is_valid_point sd p"
  shows "scalarMult sd s p = Inl (RuntimeError ''scalarMult: failed (rc='')"
    and "pointAdd sd p q = Inl (RuntimeError ''pointAdd: failed (invalid point?)'')"
    and "pointAdd sd q p = Inl (RuntimeError ''pointAdd: failed (invalid point?)'')"
    and "pointSub sd p q = Inl (RuntimeError ''pointSub: failed (invalid point?)'')"
    and "pointSub sd q p = Inl (RuntimeError ''pointSub: failed (invalid point?)'')"
proof -
  have "scalarmult sd s p = None" "core_add sd p q = None" "core_add sd q p = None"
    "core_sub sd p q = None" "core_sub sd q p = None"
    using el_lawsD(9,10) [OF assms(1)] assms(2) by blast+
  then show "scalarMult sd s p = Inl (RuntimeError ''scalarMult: failed (rc='')"
    and "pointAdd sd p q = Inl (RuntimeError ''pointAdd: failed (invalid point?)'')"
    and "pointAdd sd q p = Inl (RuntimeError ''pointAdd: failed (invalid point?)'')"
    and "pointSub sd p q = Inl (RuntimeError ''pointSub: failed (invalid point?)'')"
    and "pointSub sd q p = Inl (RuntimeError ''pointSub: failed (invalid point?)'')"
    by (simp_all add: scalarMult_def pointAdd_def pointSub_def or_throw_def laws_init [OF assms(1)])
qed

lemma laws_valid_points:
  assumes "ristretto_laws sd L sc el"
  shows "scalarMult sd s p = Inr r \<Longrightarrow> is_valid_point sd p"
    and "pointAdd sd p q = Inr r \<Longrightarrow> is_valid_point sd p \<and> is_valid_point sd q"
    and "pointSub sd p q = Inr r \<Longrightarrow> is_valid_point sd p \<and> is_valid_point sd q"
  using laws_invalid [OF assms] by (metis Inl_Inr_False)+

lemma laws_hashes:
  assumes "ristretto_laws sd L sc el"
  shows "\<exists>x. hashToScalar sd msg = Inr (sc x)" and "\<exists>x. hashToPoint sd msg = Inr (el x)"
proof -
  have len: "length (sha512 sd msg) = 64" by (rule ristretto_lawsD(5) [OF assms, rule_format])
  obtain x where "core_scalar_reduce sd (sha512 sd msg) = sc x"
    using sc_lawsD(11) [OF assms] len by blast
  then show "\<exists>x. hashToScalar sd msg = Inr (sc x)" by (auto simp: hashToScalar_def laws_init [OF assms])
  obtain y where "core_from_hash sd (sha512 sd msg) = Some (el y)"
    using el_lawsD(11) [OF assms] len by blast
  then show "\<exists>x. hashToPoint sd msg = Inr (el x)"
    by (auto simp: hashToPoint_def or_throw_def laws_init [OF assms])
qed

lemma laws_random:
  assumes "ristretto_laws sd L sc el"
  obtains x r' where "R255Scalar_random sd r = Inr (sc x, r')" and "x mod L \<noteq> 0"
proof -
  obtain x r' where "scalar_random sd r = (sc x, r')" "x mod L \<noteq> 0"
    using sc_lawsD(12) [OF assms] by blast
  then show thesis using that by (simp add: R255Scalar_random_def laws_init [OF assms])
qed

lemma laws_generator: "ristretto_laws sd L sc el \<Longrightarrow> generator sd = Inr (el 1)"
  using laws_scalarMultBase [of sd L sc el 1] laws_order [of sd L sc el]
  by (simp add: generator_def laws_consts(2))

lemma laws_pedersenH:
  assumes "ristretto_laws sd L sc el"
  obtains h where "pedersenH sd = Inr (el h)"
  using laws_hashes(2) [OF assms] by (auto simp: pedersenH_def laws_init [OF assms])

text \<open>The scalars are a field.\<close>

lemma laws_field:
  assumes G: "ristretto_laws sd L sc el"
  shows "x * y mod L = 0 \<longleftrightarrow> x mod L = 0 \<or> y mod L = 0"
proof (cases "x mod L = 0")
  case True
  then show ?thesis by (auto simp: mod_eq_0_iff_dvd)
next
  case False
  then obtain z where z: "x * z mod L = 1" using laws_scalarInvert [OF G] by metis
  have "y mod L = 0" if "x * y mod L = 0"
  proof -
    have "(x * z) * y mod L = (x * y) * z mod L" by (simp add: ac_simps)
    also have "\<dots> = 0" using that by (metis mod_mult_left_eq mult_zero_left mod_0)
    finally have "(x * z mod L) * y mod L = 0" by (simp add: mod_mult_left_eq)
    then show ?thesis by (simp add: z)
  qed
  with False show ?thesis by (auto simp: mod_eq_0_iff_dvd)
qed

lemmas group_rules = laws_init laws_consts laws_scalar_ops laws_scalarMultBase laws_scalarMult laws_point_ops laws_generator

end
