(* ===== verification/Pedersen.thy ===== *)
theory Pedersen
  imports Ristretto
begin

text \<open>
  Pedersen commitments (\<open>volePSI/MpPedersen.cpp\<close>): what a commitment is, the homomorphism, and
  binding: two openings of a commitment with different messages give the discrete logarithm of the
  second generator. At the end, a group of order 13 in which closed examples are evaluated.
\<close>

lemma pedersenCommit_eq:
  assumes G: "ristretto_laws sd L sc el" and H: "pedersenH sd = Inr (el h)"
  shows "pedersenCommit sd (sc m) (sc r) =
    (if m mod L = 0 then Inl (RuntimeError ''scalarMultBase: failed (likely zero scalar?)'')
     else if r * h mod L = 0 then Inl (RuntimeError ''scalarMult: failed (rc='')
     else Inr (el (m + r * h)))"
  by (simp add: pedersenCommit_def H group_rules [OF G])

lemma pedersenCommit_Inr:
  assumes G: "ristretto_laws sd L sc el" and H: "pedersenH sd = Inr (el h)"
  shows "pedersenCommit sd (sc m) (sc r) = Inr c \<longleftrightarrow> m mod L \<noteq> 0 \<and> r * h mod L \<noteq> 0 \<and> c = el (m + r * h)"
  by (auto simp: pedersenCommit_eq [OF G H])

lemma pedersen_homomorphic:
  assumes G: "ristretto_laws sd L sc el" and H: "pedersenH sd = Inr (el h)"
    and c1: "pedersenCommit sd (sc m1) (sc r1) = Inr c1" and c2: "pedersenCommit sd (sc m2) (sc r2) = Inr c2"
    and "(m1 + m2) mod L \<noteq> 0" "(r1 + r2) mod L \<noteq> 0"
  shows "pedersenAdd sd c1 c2 = pedersenCommit sd (sc (m1 + m2)) (sc (r1 + r2))"
proof -
  have c: "r1 * h mod L \<noteq> 0" "c1 = el (m1 + r1 * h)" "c2 = el (m2 + r2 * h)"
    using c1 c2 unfolding pedersenCommit_Inr [OF G H] by simp_all
  have "(r1 + r2) * h mod L \<noteq> 0" using c(1) assms(6) by (simp add: laws_field [OF G])
  moreover have "m1 + r1 * h + (m2 + r2 * h) = m1 + m2 + (r1 + r2) * h" by (simp add: algebra_simps)
  ultimately show ?thesis
    using assms(5) by (simp only: c pedersenAdd_def laws_point_ops [OF G] pedersenCommit_eq [OF G H]) simp
qed

lemma pedersenScalarMul_eq:
  assumes G: "ristretto_laws sd L sc el" and H: "pedersenH sd = Inr (el h)"
    and c: "pedersenCommit sd (sc m) (sc r) = Inr c" and k: "k mod L \<noteq> 0" and "(m + r * h) mod L \<noteq> 0"
  shows "pedersenScalarMul sd (sc k) c = pedersenCommit sd (sc (k * m)) (sc (k * r))"
proof -
  have "m mod L \<noteq> 0" "r * h mod L \<noteq> 0" "c = el (m + r * h)"
    using c by (simp_all add: pedersenCommit_Inr [OF G H])
  moreover have "k * m mod L \<noteq> 0" "k * r * h mod L \<noteq> 0" "k * (m + r * h) mod L \<noteq> 0"
    using k calculation assms(5) by (simp_all add: laws_field [OF G] mult.assoc)
  ultimately show ?thesis
    by (simp add: pedersenCommit_eq [OF G H] pedersenScalarMul_def laws_scalarMult [OF G] algebra_simps)
qed

text \<open>What two openings of a commitment give: the discrete logarithm of the second generator.\<close>

definition dlog_of_H ::
  "'r sodium \<Rightarrow> R255Scalar \<Rightarrow> R255Scalar \<Rightarrow> R255Scalar \<Rightarrow> R255Scalar \<Rightarrow> R255Scalar result" where
  "dlog_of_H sd m r m' r' =
     bindE (scalarSub sd m m') (\<lambda>dm. bindE (scalarSub sd r' r) (\<lambda>dr. bindE (scalarInvert sd dr) (scalarMul sd dm)))"

lemma mod_diff_zero: "a mod (L::int) = b mod L \<longleftrightarrow> (a - b) mod L = 0"
  by (simp add: mod_eq_0_iff_dvd mod_eq_dvd_iff)

text \<open>From \<open>a = d * x\<close> and \<open>d * i = 1\<close> modulo \<open>L\<close>: \<open>x = a * i\<close>.\<close>

lemma mod_solve:
  assumes "(a - d * x) mod (L::int) = 0" "d * i mod L = 1" "1 < L"
  shows "x mod L = a * i mod L"
proof -
  have "L dvd a - d * x" "L dvd 1 - d * i"
    using assms by (auto simp: mod_eq_0_iff_dvd simp flip: mod_eq_dvd_iff)
  then have "L dvd (1 - d * i) * x - (a - d * x) * i" by (simp add: dvd_diff)
  then have "L dvd x - a * i" by (simp add: algebra_simps)
  then show ?thesis by (simp add: mod_eq_dvd_iff)
qed

lemma dlog_of_H_finds:
  assumes G: "ristretto_laws sd L sc el" and H: "pedersenH sd = Inr (el h)"
    and c: "pedersenCommit sd (sc m) (sc r) = Inr c" and c': "pedersenCommit sd (sc m') (sc r') = Inr c"
    and ne: "sc m \<noteq> sc m'"
  shows "bindE (dlog_of_H sd (sc m) (sc r) (sc m') (sc r')) (scalarMultBase sd) = pedersenH sd"
proof -
  have hr: "r * h mod L \<noteq> 0" and "el (m + r * h) = el (m' + r' * h)"
    using c c' by (simp_all add: pedersenCommit_Inr [OF G H])
  then have "(m + r * h - (m' + r' * h)) mod L = 0" by (simp only: laws_el [OF G] mod_diff_zero)
  then have eq: "((m - m') - (r' - r) * h) mod L = 0" by (simp add: algebra_simps)
  have h: "h mod L \<noteq> 0" using hr by (simp add: laws_field [OF G])
  have "(r' - r) mod L \<noteq> 0"
  proof
    assume "(r' - r) mod L = 0"
    then have "L dvd (r' - r) * h" by (simp add: mod_eq_0_iff_dvd)
    with eq have "L dvd m - m'" by (simp add: mod_eq_0_iff_dvd dvd_diff_left_iff)
    with ne show False by (simp add: laws_sc [OF G] mod_eq_dvd_iff)
  qed
  then obtain i where i: "scalarInvert sd (sc (r' - r)) = Inr (sc i)" "(r' - r) * i mod L = 1"
    by (rule laws_scalarInvert [OF G])
  have "h mod L = (m - m') * i mod L" using mod_solve [OF eq i(2) laws_order [OF G]] .
  then have "el ((m - m') * i) = el h" "(m - m') * i mod L \<noteq> 0" using h by (simp_all add: laws_el [OF G])
  then show ?thesis by (simp add: dlog_of_H_def i(1) H group_rules [OF G])
qed

subsection \<open>Loops that add up\<close>

lemma hash_values:
  assumes G: "ristretto_laws sd L sc el"
  obtains hv where "\<forall>m. hashToScalar sd m = Inr (sc (hv m))"
proof -
  have "hashToScalar sd m = Inr (sc (SOME x. hashToScalar sd m = Inr (sc x)))" for m
    using laws_hashes(1) [OF G, of m] by (rule someI_ex)
  then have "\<forall>m. hashToScalar sd m = Inr (sc ((\<lambda>m. SOME x. hashToScalar sd m = Inr (sc x)) m))" by simp
  then show thesis by (rule that)
qed

lemma sum_fold:
  assumes G: "ristretto_laws sd L sc el" and "\<And>x. x \<in> set xs \<Longrightarrow> f x = Inr (sc (v x))"
  shows "foldE (\<lambda>x acc. bindE (f x) (scalarAdd sd acc)) xs (sc a) = Inr (sc (a + sum_list (map v xs)))"
  using assms(2)
proof (induction xs arbitrary: a)
  case (Cons x xs)
  then show ?case by (simp add: laws_scalar_ops [OF G] add.assoc)
qed simp

lemma point_fold:
  assumes G: "ristretto_laws sd L sc el" and "\<And>x. x \<in> set xs \<Longrightarrow> f x = Inr (el (v x))"
  shows "foldE (\<lambda>x acc. bindE (f x) (pointAdd sd acc)) xs (el a) = Inr (el (a + sum_list (map v xs)))"
  using assms(2)
proof (induction xs arbitrary: a)
  case (Cons x xs)
  then show ?case by (simp add: laws_point_ops [OF G] add.assoc)
qed simp

subsection \<open>A group of order 13\<close>

definition enc13 :: "int \<Rightarrow> bytes" where "enc13 x = word_of_int (x mod 13) # replicate 31 0"

definition dec13 :: "bytes \<Rightarrow> int" where "dec13 b = uint (hd b)"

definition toy_digest :: "nat \<Rightarrow> bytes \<Rightarrow> bytes" where
  "toy_digest n m = replicate n (fold (\<lambda>b a. 5 * a + b + 3) m 1)"

definition toy_valid :: "bytes \<Rightarrow> bool" where
  "toy_valid p \<longleftrightarrow> p = enc13 (dec13 p)"

definition toy_sodium :: "nat sodium" where
  "toy_sodium = \<lparr>sodium_init = 0,
     scalar_random = (\<lambda>r. (enc13 (1 + int r mod 12), Suc r)), point_random = (\<lambda>r. (enc13 (int r), Suc r)),
     random_bytes = (\<lambda>n r. (replicate n (of_nat r), Suc r)),
     core_scalar_add = (\<lambda>a b. enc13 (dec13 a + dec13 b)), core_scalar_sub = (\<lambda>a b. enc13 (dec13 a - dec13 b)),
     core_scalar_mul = (\<lambda>a b. enc13 (dec13 a * dec13 b)), core_scalar_negate = (\<lambda>a. enc13 (- dec13 a)),
     core_scalar_invert = (\<lambda>a. if dec13 a mod 13 = 0 then None else Some (enc13 (dec13 a ^ 11))),
     core_scalar_reduce = (\<lambda>h. enc13 (dec13 h)),
     scalarmult_base = (\<lambda>s. if dec13 s mod 13 = 0 then None else Some (enc13 (dec13 s))),
     scalarmult = (\<lambda>s p. if \<not> toy_valid p \<or> dec13 s * dec13 p mod 13 = 0 then None else Some (enc13 (dec13 s * dec13 p))),
     core_add = (\<lambda>p q. if toy_valid p \<and> toy_valid q then Some (enc13 (dec13 p + dec13 q)) else None),
     core_sub = (\<lambda>p q. if toy_valid p \<and> toy_valid q then Some (enc13 (dec13 p - dec13 q)) else None),
     core_from_hash = (\<lambda>h. Some (enc13 (1 + dec13 h mod 12))), is_valid_point = toy_valid,
     sha512 = toy_digest 64, sha256 = toy_digest 32\<rparr>"

lemma dec13_enc13 [simp]: "dec13 (enc13 x) = x mod 13"
proof -
  have "0 \<le> x mod 13" "x mod 13 < 13" by simp_all
  then have "x mod 13 < 256" by linarith
  then show ?thesis by (simp add: dec13_def enc13_def uint_word_of_int)
qed

lemma enc13_eq: "enc13 x = enc13 y \<longleftrightarrow> x mod 13 = y mod 13"
proof
  assume "enc13 x = enc13 y"
  then have "dec13 (enc13 x) = dec13 (enc13 y)" by (rule arg_cong)
  then show "x mod 13 = y mod 13" by simp
qed (simp add: enc13_def)

lemma enc13_mod [simp]: "enc13 (x mod 13) = enc13 x"
  by (simp add: enc13_def)

lemma toy_valid_enc13: "toy_valid p \<longleftrightarrow> (\<exists>x. p = enc13 x)"
  by (auto simp: toy_valid_def)

lemma toy_valid_simp [simp]: "toy_valid (enc13 x)"
  by (auto simp: toy_valid_enc13)

lemma fermat13: "x mod 13 \<noteq> 0 \<Longrightarrow> x * (x mod 13) ^ 11 mod 13 = (1::int)"
proof -
  assume "x mod 13 \<noteq> 0"
  define y where "y = x mod 13"
  have "0 \<le> y" "y < 13" "y \<noteq> 0" using \<open>x mod 13 \<noteq> 0\<close> by (simp_all add: y_def)
  then have "y = 1 \<or> y = 2 \<or> y = 3 \<or> y = 4 \<or> y = 5 \<or> y = 6 \<or> y = 7 \<or> y = 8 \<or> y = 9 \<or> y = 10 \<or> y = 11 \<or> y = 12"
    by presburger
  then have "y * y ^ 11 mod 13 = 1" by (elim disjE) simp_all
  then show ?thesis by (simp add: y_def mod_mult_left_eq)
qed

lemma enc13_cong:
  "enc13 (x mod 13 + y mod 13) = enc13 (x + y)" "enc13 (x mod 13 - y mod 13) = enc13 (x - y)"
  "enc13 (x mod 13 * (y mod 13)) = enc13 (x * y)" "enc13 (- (x mod 13)) = enc13 (- x)"
  by (simp_all add: enc13_eq mod_add_eq mod_diff_eq mod_mult_eq mod_minus_eq)

lemma toy_scalar_laws: "scalar_laws toy_sodium 13 enc13"
  unfolding scalar_laws_def
proof (intro conjI allI impI)
  fix x y :: int
  show "(enc13 x = enc13 y) = (x mod 13 = y mod 13)" by (rule enc13_eq)
  show "length (enc13 x) = 32" by (simp add: enc13_def)
  show "core_scalar_add toy_sodium (enc13 x) (enc13 y) = enc13 (x + y)"
    "core_scalar_sub toy_sodium (enc13 x) (enc13 y) = enc13 (x - y)"
    "core_scalar_mul toy_sodium (enc13 x) (enc13 y) = enc13 (x * y)"
    "core_scalar_negate toy_sodium (enc13 x) = enc13 (- x)"
    by (simp_all add: toy_sodium_def enc13_cong)
next
  fix x :: int
  assume "x mod 13 \<noteq> 0"
  then show "\<exists>y. core_scalar_invert toy_sodium (enc13 x) = Some (enc13 y) \<and> enc13 (x * y) = enc13 1"
    by (intro exI [of _ "(x mod 13) ^ 11"]) (simp add: toy_sodium_def enc13_eq fermat13)
next
  fix r :: nat
  have "(1 + int r mod 12) mod 13 \<noteq> 0"
  proof -
    have "0 \<le> int r mod 12" "int r mod 12 < 12" by simp_all
    then show ?thesis by (simp add: mod_pos_pos_trivial)
  qed
  then show "\<exists>x r'. scalar_random toy_sodium r = (enc13 x, r') \<and> x mod 13 \<noteq> 0"
    by (intro exI [of _ "1 + int r mod 12"]) (simp add: toy_sodium_def)
next
  fix h :: bytes
  show "\<exists>x. core_scalar_reduce toy_sodium h = enc13 x" by (auto simp: toy_sodium_def)
qed (simp_all add: enc13_def scalar_zero_def scalar_one_def toy_sodium_def dec13_def replicate_Suc [of 31, symmetric] del: replicate_Suc)

lemma toy_point_laws: "point_laws toy_sodium 13 enc13 enc13"
  unfolding point_laws_def
proof (intro conjI allI impI)
  fix x y :: int
  show "(enc13 x = enc13 y) = (x mod 13 = y mod 13)" by (rule enc13_eq)
  show "length (enc13 x) = 32" by (simp add: enc13_def)
  show "scalarmult toy_sodium (enc13 x) (enc13 y) = (if x * y mod 13 = 0 then None else Some (enc13 (x * y)))"
    "core_add toy_sodium (enc13 x) (enc13 y) = Some (enc13 (x + y))"
    "core_sub toy_sodium (enc13 x) (enc13 y) = Some (enc13 (x - y))"
    "scalarmult_base toy_sodium (enc13 x) = (if x mod 13 = 0 then None else Some (enc13 x))"
    by (simp_all add: toy_sodium_def enc13_cong mod_mult_eq)
next
  show "enc13 0 = point_identity" by (simp add: enc13_def point_identity_def numeral_eq_Suc)
next
  fix h :: bytes
  show "\<exists>x. core_from_hash toy_sodium h = Some (enc13 x)" by (auto simp: toy_sodium_def)
qed (auto simp: toy_sodium_def toy_valid_enc13)

lemma toy_laws: "ristretto_laws toy_sodium 13 enc13 enc13"
  by (simp add: ristretto_laws_def toy_scalar_laws toy_point_laws) (simp add: toy_sodium_def toy_digest_def)

lemma toy_pedersenH: "pedersenH toy_sodium = Inr (enc13 4)"
  by code_simp

end
