(* ===== verification/Shuffle_Integrity.thy ===== *)
theory Shuffle_Integrity
  imports Pedersen "HOL-Library.Multiset"
begin

text \<open>
  Integrity of the shuffle cascade (\<open>volePSI/MpsaShuffleIntegrity.cpp\<close>): a sender commits to the sum
  of the hashes of each of its columns (or of its rows), opens the commitments after the shuffle,
  and the service provider compares with the shuffled columns.

  Shown: round trips of the wire formats; a shuffle is accepted; whatever is accepted has the sums
  of the sender's columns, or the openings give the discrete logarithm of the second generator. A
  block is copied to its 16 bytes with the least significant byte first.
\<close>

record SenderColumnWitness =
  cw_commits :: "PedersenCommitment list"
  cw_claimedSums :: "R255Scalar list"
  cw_openings :: "R255Scalar list"

definition sum_hashes :: "'r sodium \<Rightarrow> bytes list \<Rightarrow> R255Scalar result" where
  "sum_hashes sd msgs = foldE (\<lambda>m acc. bindE (hashToScalar sd m) (scalarAdd sd acc)) msgs scalar_zero"

definition block_bytes :: "128 word \<Rightarrow> bytes" where "block_bytes blk = le_bytes 16 blk"

definition column_sum :: "'r sodium \<Rightarrow> 128 word list \<Rightarrow> R255Scalar result" where
  "column_sum sd col = sum_hashes sd (map block_bytes col)"

definition commit_sum :: "'r sodium \<Rightarrow> R255Scalar \<Rightarrow> 'r \<Rightarrow> ((PedersenCommitment \<times> R255Scalar \<times> R255Scalar) \<times> 'r) result" where
  "commit_sum sd s rg = bindE (R255Scalar_random sd rg) (\<lambda>(r, rg'). bindE (pedersenCommit sd s r) (\<lambda>com. Inr ((com, s, r), rg')))"

fun witness_columns ::
  "'r sodium \<Rightarrow> 128 word list list \<Rightarrow> 'r \<Rightarrow> ((PedersenCommitment \<times> R255Scalar \<times> R255Scalar) list \<times> 'r) result" where
  "witness_columns sd [] rg = Inr ([], rg)"
| "witness_columns sd (col # cols) rg =
     bindE (column_sum sd col) (\<lambda>s. bindE (commit_sum sd s rg) (\<lambda>(w, rg1).
     bindE (witness_columns sd cols rg1) (\<lambda>(ws, rg2). Inr (w # ws, rg2))))"

definition makeSenderWitness :: "'r sodium \<Rightarrow> 128 word list list \<Rightarrow> 'r \<Rightarrow> (SenderColumnWitness \<times> 'r) result" where
  "makeSenderWitness sd columns rg =
     bindE (witness_columns sd columns rg) (\<lambda>(ws, rg').
     Inr (\<lparr>cw_commits = map fst ws, cw_claimedSums = map (fst \<circ> snd) ws, cw_openings = map (snd \<circ> snd) ws\<rparr>, rg'))"

subsection \<open>Wire formats\<close>

text \<open>The \<open>i\<close>-th 32 bytes.\<close>

definition chunk32 :: "bytes \<Rightarrow> nat \<Rightarrow> bytes" where "chunk32 data i = take 32 (drop (32 * i) data)"

definition serializeCommits :: "PedersenCommitment list \<Rightarrow> bytes" where
  "serializeCommits commits = concat commits"

definition deserializeCommits :: "bytes \<Rightarrow> nat \<Rightarrow> PedersenCommitment list result" where
  "deserializeCommits data W =
     throw_if (length data \<noteq> W * 32) (RuntimeError ''deserializeCommits: data size mismatch'')
       (Inr (map (chunk32 data) [0..<W]))"

definition serializeOpenings :: "R255Scalar list \<Rightarrow> R255Scalar list \<Rightarrow> bytes result" where
  "serializeOpenings claimedSums openings =
     throw_if (length claimedSums \<noteq> length openings) (RuntimeError ''serializeOpenings: size mismatch'')
       (Inr (concat claimedSums @ concat openings))"

definition deserializeOpenings :: "bytes \<Rightarrow> nat \<Rightarrow> (R255Scalar list \<times> R255Scalar list) result" where
  "deserializeOpenings data W =
     throw_if (length data \<noteq> 2 * W * 32) (RuntimeError ''deserializeOpenings: data size mismatch'')
       (Inr (map (chunk32 data) [0..<W], map (\<lambda>i. chunk32 data (W + i)) [0..<W]))"

definition serializeRowCommit :: "PedersenCommitment \<Rightarrow> bytes" where "serializeRowCommit c = c"

definition deserializeRowCommit :: "bytes \<Rightarrow> PedersenCommitment result" where
  "deserializeRowCommit data =
     throw_if (length data \<noteq> 32) (RuntimeError ''deserializeRowCommit: expected 32 bytes'') (Inr (take 32 data))"

definition serializeRowOpening :: "R255Scalar \<Rightarrow> R255Scalar \<Rightarrow> bytes" where
  "serializeRowOpening claimedSum opening = claimedSum @ opening"

definition deserializeRowOpening :: "bytes \<Rightarrow> (R255Scalar \<times> R255Scalar) result" where
  "deserializeRowOpening data =
     throw_if (length data \<noteq> 64) (RuntimeError ''deserializeRowOpening: expected 64 bytes'')
       (Inr (take 32 data, take 32 (drop 32 data)))"

subsection \<open>Verification\<close>

fun verify_columns ::
  "'r sodium \<Rightarrow> (PedersenCommitment \<times> R255Scalar \<times> R255Scalar \<times> 128 word list) list \<Rightarrow> bool result" where
  "verify_columns sd [] = Inr True"
| "verify_columns sd ((com, s, r, col) # rest) =
     bindE (pedersenVerify sd com s r) (\<lambda>bound.
     if \<not> bound then Inr False else
     bindE (column_sum sd col) (\<lambda>actual. if actual \<noteq> s then Inr False else verify_columns sd rest))"

definition verifySenderIntegrity ::
  "'r sodium \<Rightarrow> PedersenCommitment list \<Rightarrow> R255Scalar list \<Rightarrow> R255Scalar list \<Rightarrow> 128 word list list \<Rightarrow> bool result" where
  "verifySenderIntegrity sd commits claimedSums openings shuffledColumns =
     (let W = length commits in
      if length claimedSums \<noteq> W \<or> length openings \<noteq> W \<or> length shuffledColumns \<noteq> W then Inr False
      else verify_columns sd (zip commits (zip claimedSums (zip openings shuffledColumns))))"

record SenderRowWitness =
  rw_commit :: PedersenCommitment
  rw_claimedSum :: R255Scalar
  rw_opening :: R255Scalar

definition row_bytes :: "128 word list \<Rightarrow> bytes" where "row_bytes row = concat (map block_bytes row)"

definition hashRowConcat :: "'r sodium \<Rightarrow> 128 word list \<Rightarrow> R255Scalar result" where
  "hashRowConcat sd row = hashToScalar sd (row_bytes row)"

definition reconstructRow :: "128 word list list \<Rightarrow> nat \<Rightarrow> 128 word list result" where
  "reconstructRow columns j = mapE (\<lambda>col. vec_at col j) columns"

definition makeSenderRowWitness :: "'r sodium \<Rightarrow> 128 word list list \<Rightarrow> 'r \<Rightarrow> (SenderRowWitness \<times> 'r) result" where
  "makeSenderRowWitness sd rows rg =
     (if rows = [] then Inr (\<lparr>rw_commit = point_identity, rw_claimedSum = scalar_zero, rw_opening = scalar_zero\<rparr>, rg)
      else bindE (foldE (\<lambda>row acc. bindE (hashRowConcat sd row) (scalarAdd sd acc)) rows scalar_zero) (\<lambda>s.
        bindE (commit_sum sd s rg) (\<lambda>((com, s', r), rg').
        Inr (\<lparr>rw_commit = com, rw_claimedSum = s', rw_opening = r\<rparr>, rg'))))"

definition verifySenderRowIntegrity ::
  "'r sodium \<Rightarrow> PedersenCommitment \<Rightarrow> R255Scalar \<Rightarrow> R255Scalar \<Rightarrow> 128 word list list \<Rightarrow> bool result" where
  "verifySenderRowIntegrity sd commit claimedSum opening shuffledColumns =
     (if shuffledColumns = [] then Inr (claimedSum = scalar_zero \<and> opening = scalar_zero)
      else bindE (pedersenVerify sd commit claimedSum opening) (\<lambda>bound.
        if \<not> bound then Inr False else
        let C = length (hd shuffledColumns) in
        if \<exists>col\<in>set shuffledColumns. length col \<noteq> C then Inr False else
        bindE (foldE (\<lambda>j acc. bindE (reconstructRow shuffledColumns j) (\<lambda>row.
          bindE (hashRowConcat sd row) (scalarAdd sd acc))) [0..<C] scalar_zero) (\<lambda>actual. Inr (actual = claimedSum))))"

subsection \<open>The wire formats round-trip\<close>

definition all32 :: "bytes list \<Rightarrow> bool" where "all32 xs \<longleftrightarrow> (\<forall>x\<in>set xs. length x = 32)"

lemma length_concat32: "all32 xs \<Longrightarrow> length (concat xs) = length xs * 32"
  by (induction xs) (auto simp: all32_def)

lemma chunk32_concat: "all32 xs \<Longrightarrow> i < length xs \<Longrightarrow> chunk32 (concat xs @ ys) i = xs ! i"
proof (induction xs arbitrary: i)
  case (Cons x xs)
  then show ?case by (cases i) (auto simp: all32_def chunk32_def)
qed simp

lemma chunk32_append: "length xs = 32 * n \<Longrightarrow> chunk32 (xs @ ys) (n + i) = chunk32 ys i"
  by (simp add: chunk32_def)

lemma map_chunks: "all32 xs \<Longrightarrow> map (chunk32 (concat xs @ ys)) [0..<length xs] = xs"
  by (rule nth_equalityI) (simp_all add: chunk32_concat)

lemma deserializeCommits_serialize: "all32 cs \<Longrightarrow> deserializeCommits (serializeCommits cs) (length cs) = Inr cs"
  using map_chunks [of cs "[]"] by (simp add: deserializeCommits_def serializeCommits_def length_concat32)

text \<open>C34: Claimed sums and openings of 32 bytes are read back from what was sent.\<close>

theorem deserializeOpenings_serialize:
  assumes "all32 ss" "all32 os" "length ss = length os"
  shows "bindE (serializeOpenings ss os) (\<lambda>d. deserializeOpenings d (length ss)) = Inr (ss, os)"
proof -
  have "map (\<lambda>i. chunk32 (concat ss @ concat os) (length ss + i)) [0..<length ss] = os"
    using map_chunks [OF assms(2), of "[]"] assms by (simp add: chunk32_append length_concat32)
  then show ?thesis
    using map_chunks [OF assms(1), of "concat os"] assms
    by (simp add: serializeOpenings_def deserializeOpenings_def length_concat32)
qed

theorem deserializeOpenings_serialize_witness:
  "bindE (serializeOpenings [replicate 32 1, replicate 32 2] [replicate 32 3, replicate 32 4])
     (\<lambda>d. deserializeOpenings d (length [replicate 32 (1 :: byte), replicate 32 2])) =
   Inr ([replicate 32 1, replicate 32 2], [replicate 32 3, replicate 32 4])"
  by (rule deserializeOpenings_serialize) (simp_all add: all32_def)

lemma deserializeRowOpening_serialize:
  "length s = 32 \<Longrightarrow> length r = 32 \<Longrightarrow> deserializeRowOpening (serializeRowOpening s r) = Inr (s, r)"
  by (simp add: deserializeRowOpening_def serializeRowOpening_def)

subsection \<open>Sums of hashes\<close>

lemma sum_hashes_eq:
  assumes G: "ristretto_laws sd L sc el" and hv: "\<forall>m. hashToScalar sd m = Inr (sc (hv m))"
  shows "sum_hashes sd ms = Inr (sc (\<Sum>m\<leftarrow>ms. hv m))"
  using sum_fold [OF G, of ms "hashToScalar sd" hv 0] by (simp add: sum_hashes_def hv laws_consts(1) [OF G])

lemma sum_list_mset_cong: "mset xs = mset ys \<Longrightarrow> sum_list (map f xs) = (sum_list (map f ys) :: int)"
  by (metis mset_map sum_mset_sum_list)

lemma column_sum_mset:
  assumes G: "ristretto_laws sd L sc el" and "mset col = mset col'"
  shows "column_sum sd col = column_sum sd col'"
proof -
  obtain hv where hv: "\<forall>m. hashToScalar sd m = Inr (sc (hv m))" by (rule hash_values [OF G])
  have "sum_list (map (hv \<circ> block_bytes) col) = sum_list (map (hv \<circ> block_bytes) col')"
    using assms(2) by (rule sum_list_mset_cong)
  then show ?thesis by (simp add: column_sum_def sum_hashes_eq [OF G hv] comp_def)
qed

lemma column_sum_sc:
  assumes G: "ristretto_laws sd L sc el"
  obtains a where "column_sum sd col = Inr (sc a)"
  using hash_values [OF G] sum_hashes_eq [OF G] unfolding column_sum_def by metis

lemma commit_sum_Inr:
  assumes G: "ristretto_laws sd L sc el" and w: "commit_sum sd s rg = Inr ((com, s', r), rg')"
  shows "s' = s \<and> pedersenCommit sd s r = Inr com \<and> (\<exists>x. r = sc x)"
proof -
  obtain x r1 where "R255Scalar_random sd rg = Inr (sc x, r1)" by (rule laws_random [OF G])
  with w show ?thesis by (auto simp: commit_sum_def bindE_eq_Inr)
qed

lemma witness_columns_Inr:
  assumes G: "ristretto_laws sd L sc el"
  shows "witness_columns sd cols rg = Inr (ws, rg') \<Longrightarrow>
    list_all2 (\<lambda>col (com, s, r). column_sum sd col = Inr s \<and> pedersenCommit sd s r = Inr com \<and> (\<exists>x. r = sc x)) cols ws"
proof (induction cols arbitrary: rg ws)
  case (Cons col cols)
  then obtain s w rg1 ws' rg2 where "column_sum sd col = Inr s" "commit_sum sd s rg = Inr (w, rg1)"
    "witness_columns sd cols rg1 = Inr (ws', rg2)" "ws = w # ws'" "rg2 = rg'"
    by (auto simp: bindE_eq_Inr)
  with Cons.IH commit_sum_Inr [OF G] show ?case by (cases w) fastforce
qed simp

subsection \<open>Columns\<close>

lemma verify_columns_honest:
  assumes "list_all2 (\<lambda>col (com, s, r). column_sum sd col = Inr s \<and> pedersenCommit sd s r = Inr com) cols ws"
    and "list_all2 (\<lambda>a b. column_sum sd a = column_sum sd b) cols shuffled"
  shows "verify_columns sd (zip (map fst ws) (zip (map (fst \<circ> snd) ws) (zip (map (snd \<circ> snd) ws) shuffled))) = Inr True"
  using assms
proof (induction cols ws arbitrary: shuffled rule: list_all2_induct)
  case (Cons col cols w ws)
  obtain com s r where w: "w = (com, s, r)" by (cases w)
  obtain c cs where "shuffled = c # cs" "column_sum sd col = column_sum sd c"
    "list_all2 (\<lambda>a b. column_sum sd a = column_sum sd b) cols cs"
    using Cons.prems by (auto simp: list_all2_Cons1)
  with Cons w show ?case by (simp add: pedersenVerify_def)
qed simp

lemma makeSenderWitness_Inr:
  assumes G: "ristretto_laws sd L sc el" and w: "makeSenderWitness sd columns rg = Inr (w, rg')"
  obtains ws where "w = \<lparr>cw_commits = map fst ws, cw_claimedSums = map (fst \<circ> snd) ws, cw_openings = map (snd \<circ> snd) ws\<rparr>"
    and "list_all2 (\<lambda>col (com, s, r). column_sum sd col = Inr s \<and> pedersenCommit sd s r = Inr com \<and> (\<exists>x. r = sc x)) columns ws"
  using w witness_columns_Inr [OF G, of columns rg] by (auto simp: makeSenderWitness_def bindE_eq_Inr)

text \<open>A cascade that permutes the rows of each column is accepted with the sender's own
  openings, for every set of columns for which the sender can make its witness.\<close>

theorem verifySenderIntegrity_accepts_shuffle:
  assumes G: "ristretto_laws sd L sc el" and w: "makeSenderWitness sd columns rg = Inr (w, rg')"
    and perm: "list_all2 (\<lambda>a b. mset a = mset b) columns shuffled"
  shows "verifySenderIntegrity sd (cw_commits w) (cw_claimedSums w) (cw_openings w) shuffled = Inr True"
proof -
  obtain ws where ws: "w = \<lparr>cw_commits = map fst ws, cw_claimedSums = map (fst \<circ> snd) ws, cw_openings = map (snd \<circ> snd) ws\<rparr>"
    and all: "list_all2 (\<lambda>col (com, s, r). column_sum sd col = Inr s \<and> pedersenCommit sd s r = Inr com \<and> (\<exists>x. r = sc x)) columns ws"
    by (rule makeSenderWitness_Inr [OF G w])
  have "length ws = length columns" "length shuffled = length columns"
    using list_all2_lengthD [OF all] list_all2_lengthD [OF perm] by simp_all
  moreover have "list_all2 (\<lambda>a b. column_sum sd a = column_sum sd b) columns shuffled"
    using perm by (rule list_all2_mono) (rule column_sum_mset [OF G])
  moreover have "list_all2 (\<lambda>col (com, s, r). column_sum sd col = Inr s \<and> pedersenCommit sd s r = Inr com) columns ws"
    using all by (rule list_all2_mono) auto
  ultimately show ?thesis
    using verify_columns_honest [of sd columns ws shuffled] by (simp add: verifySenderIntegrity_def ws)
qed

lemma verify_columns_True:
  "verify_columns sd xs = Inr True \<longleftrightarrow>
     (\<forall>(com, s, r, col) \<in> set xs. pedersenCommit sd s r = Inr com \<and> column_sum sd col = Inr s)"
  by (induction sd xs rule: verify_columns.induct)
    (auto simp: bindE_eq_Inr pedersenVerify_def split: if_splits)

lemma verifySenderIntegrity_True:
  assumes "verifySenderIntegrity sd coms sums opens shuffled = Inr True" and "i < length coms"
  shows "length sums = length coms" "length opens = length coms" "length shuffled = length coms"
    and "pedersenCommit sd (sums ! i) (opens ! i) = Inr (coms ! i)" "column_sum sd (shuffled ! i) = Inr (sums ! i)"
proof -
  show len: "length sums = length coms" "length opens = length coms" "length shuffled = length coms"
    using assms(1) by (auto simp: verifySenderIntegrity_def Let_def split: if_splits)
  have "(coms ! i, sums ! i, opens ! i, shuffled ! i) \<in> set (zip coms (zip sums (zip opens shuffled)))"
    using len assms(2) by (force simp: set_zip)
  then show "pedersenCommit sd (sums ! i) (opens ! i) = Inr (coms ! i)" "column_sum sd (shuffled ! i) = Inr (sums ! i)"
    using assms(1) len unfolding verifySenderIntegrity_def Let_def by (auto simp: verify_columns_True)
qed

text \<open>C26: Whatever a service provider accepts against the commitments of the witness has, column by
  column, the sum of hashes of the sender's columns, unless the openings it was given reveal the discrete logarithm of
  the second generator.\<close>

theorem verifySenderIntegrity_binds:
  assumes G: "ristretto_laws sd L sc el" and H: "pedersenH sd = Inr (el h)"
    and w: "makeSenderWitness sd columns rg = Inr (w, rg')"
    and reduced: "set opens \<subseteq> range sc"
    and ok: "verifySenderIntegrity sd (cw_commits w) sums opens shuffled = Inr True" and i: "i < length columns"
  shows "length shuffled = length columns \<and>
    (column_sum sd (shuffled ! i) = column_sum sd (columns ! i) \<or>
     bindE (dlog_of_H sd (cw_claimedSums w ! i) (cw_openings w ! i) (sums ! i) (opens ! i)) (scalarMultBase sd) = pedersenH sd)"
proof -
  obtain ws where ws: "w = \<lparr>cw_commits = map fst ws, cw_claimedSums = map (fst \<circ> snd) ws, cw_openings = map (snd \<circ> snd) ws\<rparr>"
    and all: "list_all2 (\<lambda>col (com, s, r). column_sum sd col = Inr s \<and> pedersenCommit sd s r = Inr com \<and> (\<exists>x. r = sc x)) columns ws"
    by (rule makeSenderWitness_Inr [OF G w])
  have len: "length ws = length columns" using all by (simp add: list_all2_lengthD)
  obtain com s x where wi: "ws ! i = (com, s, sc x)" "column_sum sd (columns ! i) = Inr s" "pedersenCommit sd s (sc x) = Inr com"
    using list_all2_nthD [OF all i] by (auto split: prod.splits)
  note acc = verifySenderIntegrity_True [OF ok, of i]
  have n: "i < length (cw_commits w)" using i len by (simp add: ws)
  have eq: "pedersenCommit sd (sums ! i) (opens ! i) = Inr com" "column_sum sd (shuffled ! i) = Inr (sums ! i)"
    and lens: "length shuffled = length columns" "length opens = length columns"
    using acc [OF n] i len wi(1) by (simp_all add: ws)
  obtain a b where ab: "s = sc a" "sums ! i = sc b"
    using column_sum_sc [OF G, of "columns ! i"] column_sum_sc [OF G, of "shuffled ! i"] wi(2) eq(2) by (metis Inr_inject)
  obtain y where y: "opens ! i = sc y" using reduced lens(2) i nth_mem [of i opens] by fastforce
  show ?thesis
  proof (cases "s = sums ! i")
    case False
    then have "bindE (dlog_of_H sd (sc a) (sc x) (sc b) (sc y)) (scalarMultBase sd) = pedersenH sd"
      using wi(3) eq(1) by (intro dlog_of_H_finds [OF G H]) (simp_all add: ab y)
    then show ?thesis using wi(1) i len by (simp add: ws ab y lens)
  qed (use wi(2) eq(2) lens in simp)
qed

subsection \<open>Rows\<close>

definition rows_of :: "128 word list list \<Rightarrow> 128 word list list" where
  "rows_of columns = map (\<lambda>j. map (\<lambda>col. col ! j) columns) [0..<length (hd columns)]"

lemma reconstructRow_Inr: "\<forall>col\<in>set columns. j < length col \<Longrightarrow> reconstructRow columns j = Inr (map (\<lambda>col. col ! j) columns)"
  unfolding reconstructRow_def by (rule mapE_Inr) simp

lemma foldE_cong: "(\<And>x s. x \<in> set xs \<Longrightarrow> f x s = g x s) \<Longrightarrow> foldE f xs s = foldE g xs s"
proof (induction xs arbitrary: s)
  case (Cons x xs)
  then have "foldE f xs = foldE g xs" by (intro ext) simp
  with Cons.prems show ?case by simp
qed simp

lemma foldE_map: "foldE f (map g xs) s = foldE (\<lambda>x. f (g x)) xs s"
proof (induction xs arbitrary: s)
  case (Cons x xs)
  then have "foldE f (map g xs) = foldE (\<lambda>x. f (g x)) xs" by (intro ext) simp
  then show ?case by simp
qed simp

lemma row_fold_columns:
  assumes "columns \<noteq> []" "\<forall>col\<in>set columns. length col = length (hd columns)"
  shows "foldE (\<lambda>j acc. bindE (reconstructRow columns j) (\<lambda>row. bindE (hashRowConcat sd row) (scalarAdd sd acc)))
      [0..<length (hd columns)] a =
    foldE (\<lambda>row acc. bindE (hashRowConcat sd row) (scalarAdd sd acc)) (rows_of columns) a"
  unfolding rows_of_def foldE_map
proof (rule foldE_cong)
  fix j acc assume "j \<in> set [0..<length (hd columns)]"
  then have "\<forall>col\<in>set columns. j < length col" using assms(2) by (auto simp only: set_upt atLeastLessThan_iff)
  then show "bindE (reconstructRow columns j) (\<lambda>row. bindE (hashRowConcat sd row) (scalarAdd sd acc)) =
    bindE (hashRowConcat sd (map (\<lambda>col. col ! j) columns)) (scalarAdd sd acc)"
    by (simp add: reconstructRow_Inr)
qed

definition row_sum :: "'r sodium \<Rightarrow> 128 word list list \<Rightarrow> R255Scalar result" where
  "row_sum sd rows = foldE (\<lambda>row acc. bindE (hashRowConcat sd row) (scalarAdd sd acc)) rows scalar_zero"

lemma row_sum_eq:
  assumes G: "ristretto_laws sd L sc el" and hv: "\<forall>m. hashToScalar sd m = Inr (sc (hv m))"
  shows "row_sum sd rows = Inr (sc (sum_list (map (hv \<circ> row_bytes) rows)))"
  using sum_fold [OF G, of rows "hashRowConcat sd" "hv \<circ> row_bytes" 0]
  by (simp add: row_sum_def hashRowConcat_def hv laws_consts(1) [OF G])

lemma row_sum_mset:
  assumes G: "ristretto_laws sd L sc el" and m: "mset rows = mset rows'"
  shows "row_sum sd rows = row_sum sd rows'"
proof -
  obtain hv where hv: "\<forall>m. hashToScalar sd m = Inr (sc (hv m))" by (rule hash_values [OF G])
  show ?thesis unfolding row_sum_eq [OF G hv] using sum_list_mset_cong [OF m, of "hv \<circ> row_bytes"] by simp
qed

lemma makeSenderRowWitness_Inr:
  assumes G: "ristretto_laws sd L sc el" and w: "makeSenderRowWitness sd rows rg = Inr (w, rg')" and "rows \<noteq> []"
  shows "row_sum sd rows = Inr (rw_claimedSum w)" "pedersenCommit sd (rw_claimedSum w) (rw_opening w) = Inr (rw_commit w)"
proof -
  have "bindE (row_sum sd rows) (\<lambda>s. bindE (commit_sum sd s rg) (\<lambda>((com, s', r), rg').
      Inr (\<lparr>rw_commit = com, rw_claimedSum = s', rw_opening = r\<rparr>, rg'))) = Inr (w, rg')"
    using w \<open>rows \<noteq> []\<close> unfolding makeSenderRowWitness_def row_sum_def by simp
  then obtain s where s: "row_sum sd rows = Inr s" and
    "bindE (commit_sum sd s rg) (\<lambda>((com, s', r), rg').
       Inr (\<lparr>rw_commit = com, rw_claimedSum = s', rw_opening = r\<rparr>, rg')) = Inr (w, rg')"
    by (cases "row_sum sd rows") simp_all
  then obtain com s' r where c: "commit_sum sd s rg = Inr ((com, s', r), rg')"
    and "w = \<lparr>rw_commit = com, rw_claimedSum = s', rw_opening = r\<rparr>"
    unfolding bindE_eq_Inr by auto
  with s commit_sum_Inr [OF G c] show "row_sum sd rows = Inr (rw_claimedSum w)"
    "pedersenCommit sd (rw_claimedSum w) (rw_opening w) = Inr (rw_commit w)" by simp_all
qed

text \<open>C27: With at least one row and one column, a cascade that applies one permutation to all
  columns of a sender is accepted; acceptance of the sender's openings means that the sum of the hashes of the rows,
  each over all columns, is the sender's. Rows mixed from different inputs have to have the same sum of hashes.\<close>

theorem verifySenderRowIntegrity_iff:
  assumes G: "ristretto_laws sd L sc el" and w: "makeSenderRowWitness sd rows rg = Inr (w, rg')" and "rows \<noteq> []"
    and cols: "columns \<noteq> []" "\<forall>col\<in>set columns. length col = length (hd columns)"
  shows "verifySenderRowIntegrity sd (rw_commit w) (rw_claimedSum w) (rw_opening w) columns =
      Inr (row_sum sd (rows_of columns) = row_sum sd rows) \<and>
    (mset (rows_of columns) = mset rows \<longrightarrow>
      verifySenderRowIntegrity sd (rw_commit w) (rw_claimedSum w) (rw_opening w) columns = Inr True)"
proof -
  note W = makeSenderRowWitness_Inr [OF G w assms(3)]
  obtain hv where hv: "\<forall>m. hashToScalar sd m = Inr (sc (hv m))" by (rule hash_values [OF G])
  obtain a where a: "row_sum sd (rows_of columns) = Inr a" using row_sum_eq [OF G hv] by blast
  have "verifySenderRowIntegrity sd (rw_commit w) (rw_claimedSum w) (rw_opening w) columns = Inr (a = rw_claimedSum w)"
  proof -
    have "\<not> (\<exists>col\<in>set columns. length col \<noteq> length (hd columns))" using cols(2) by blast
    then show ?thesis
      using cols(1) by (simp only: verifySenderRowIntegrity_def if_False if_True pedersenVerify_def W bindE_simps Let_def
          row_fold_columns [OF cols] row_sum_def [symmetric] a) simp
  qed
  then show ?thesis using row_sum_mset [OF G, of "rows_of columns" rows] a W(1) by auto
qed

text \<open>The edge cases of the row check.\<close>

theorem makeSenderRowWitness_no_rows:
  assumes G: "ristretto_laws sd L sc el" and "columns \<noteq> []"
  shows "bindE (makeSenderRowWitness sd [] rg) (\<lambda>(w, _).
      verifySenderRowIntegrity sd (rw_commit w) (rw_claimedSum w) (rw_opening w) columns) =
    Inl (RuntimeError ''scalarMultBase: failed (likely zero scalar?)'')"
  using assms(2)
  by (simp add: makeSenderRowWitness_def verifySenderRowIntegrity_def pedersenVerify_def pedersenCommit_def
      laws_consts(1) [OF G] laws_scalarMultBase [OF G])

theorem verifySenderRowIntegrity_no_columns:
  assumes G: "ristretto_laws sd L sc el" and w: "makeSenderRowWitness sd rows rg = Inr (w, rg')" and "rows \<noteq> []"
  shows "verifySenderRowIntegrity sd (rw_commit w) (rw_claimedSum w) (rw_opening w) [] = Inr False"
proof -
  have "pedersenCommit sd (rw_claimedSum w) (rw_opening w) = Inr (rw_commit w)"
    by (rule makeSenderRowWitness_Inr(2) [OF G w assms(3)])
  then have "rw_claimedSum w \<noteq> scalar_zero"
    by (auto simp: pedersenCommit_def laws_consts(1) [OF G] laws_scalarMultBase [OF G])
  then show ?thesis by (simp add: verifySenderRowIntegrity_def)
qed

subsection \<open>Closed examples\<close>

lemma toy_column_witness:
  "makeSenderWitness toy_sodium [[1, 2], [3, 1]] 0 =
     Inr (\<lparr>cw_commits = map enc13 [10, 3], cw_claimedSums = map enc13 [6, 8], cw_openings = map enc13 [1, 2]\<rparr>, 2)"
  by code_simp

theorem verifySenderIntegrity_accepts_shuffle_witness:
  "verifySenderIntegrity toy_sodium (map enc13 [10, 3]) (map enc13 [6, 8]) (map enc13 [1, 2]) [[2, 1], [1, 3]] = Inr True"
  using verifySenderIntegrity_accepts_shuffle [OF toy_laws toy_column_witness, of "[[2, 1], [1, 3]]"] by simp

theorem verifySenderIntegrity_binds_witness:
  "column_sum toy_sodium ([[2, 1], [1, 3]] ! 0) = column_sum toy_sodium ([[1, 2], [3, 1]] ! 0) \<or>
   bindE (dlog_of_H toy_sodium (enc13 6) (enc13 1) (enc13 6) (enc13 1)) (scalarMultBase toy_sodium) = pedersenH toy_sodium"
proof -
  have ok: "verifySenderIntegrity toy_sodium (cw_commits \<lparr>cw_commits = map enc13 [10, 3], cw_claimedSums = map enc13 [6, 8],
      cw_openings = map enc13 [1, 2]\<rparr>) (map enc13 [6, 8]) (map enc13 [1, 2]) [[2, 1], [1, 3]] = Inr True"
    by code_simp
  have "set (map enc13 [1, 2]) \<subseteq> range enc13" by simp
  from verifySenderIntegrity_binds [OF toy_laws toy_pedersenH toy_column_witness this ok, of 0] show ?thesis by simp
qed

theorem verifySenderRowIntegrity_iff_witness:
  "bindE (makeSenderRowWitness toy_sodium [[1, 2], [3, 4]] 0) (\<lambda>(w, _).
     verifySenderRowIntegrity toy_sodium (rw_commit w) (rw_claimedSum w) (rw_opening w) [[3, 1], [4, 2]]) = Inr True"
proof -
  have w: "makeSenderRowWitness toy_sodium [[1, 2], [3, 4]] 0 =
      Inr (\<lparr>rw_commit = enc13 5, rw_claimedSum = enc13 1, rw_opening = enc13 1\<rparr>, 1)" by code_simp
  have "mset (rows_of [[3, 1], [4, 2]]) = mset [[1, 2], [3, 4 :: 128 word]]" by (simp add: rows_of_def)
  with conjunct2 [OF verifySenderRowIntegrity_iff [OF toy_laws w, of "[[3, 1], [4, 2]]"]]
  have "verifySenderRowIntegrity toy_sodium (enc13 5) (enc13 1) (enc13 1) [[3, 1], [4, 2]] = Inr True" by simp
  then show ?thesis by (simp add: w)
qed

theorem makeSenderRowWitness_no_rows_witness:
  "bindE (makeSenderRowWitness toy_sodium [] 0) (\<lambda>(w, _).
      verifySenderRowIntegrity toy_sodium (rw_commit w) (rw_claimedSum w) (rw_opening w) [[]]) =
    Inl (RuntimeError ''scalarMultBase: failed (likely zero scalar?)'')"
  using makeSenderRowWitness_no_rows [OF toy_laws, of "[[]]" 0] by simp

end
