(* ===== verification/Root_Count.thy ===== *)
theory Root_Count
  imports Prelude "HOL-Library.Multiset"
begin

text \<open>
  The counting argument behind the shuffle proofs: two different multisets of \<open>n\<close> residues modulo a
  prime agree as products \<open>\<Prod>(x - a)\<close> at no more than \<open>n\<close> points. Polynomials are their lists of
  coefficients, evaluated by Horner's rule.
\<close>

fun horner :: "int list \<Rightarrow> int \<Rightarrow> int" where
  "horner [] x = 0"
| "horner (a # as) x = a + x * horner as x"

lemma horner_map_mult: "horner (map ((*) c) as) x = c * horner as x"
  by (induction as) (simp_all add: algebra_simps)

lemma horner_append_0: "horner (as @ [0]) x = horner as x"
  by (induction as) simp_all

lemma horner_map2_add:
  "length as = length bs \<Longrightarrow> horner (map2 (+) as bs) x = horner as x + horner bs x"
  by (induction as bs rule: list_induct2) (simp_all add: algebra_simps)

lemma horner_times_linear:
  obtains bs where "length bs = Suc (length as)" "\<And>x. horner bs x = (x - a) * horner as x"
proof (rule that [of "map2 (+) (0 # as) (map ((*) (- a)) as @ [0])"])
  show "length (map2 (+) (0 # as) (map ((*) (- a)) as @ [0])) = Suc (length as)" by simp
  show "horner (map2 (+) (0 # as) (map ((*) (- a)) as @ [0])) x = (x - a) * horner as x" for x
    by (subst horner_map2_add) (simp_all add: horner_map_mult horner_append_0 algebra_simps del: map_map)
qed

lemma horner_product:
  obtains cs where "length cs = Suc (length as)" "\<And>x. horner cs x = (\<Prod>a\<leftarrow>as. x - a)"
proof (induction as arbitrary: thesis)
  case Nil
  show thesis by (rule Nil [of "[1]"]) simp_all
next
  case (Cons a as)
  obtain cs where cs: "length cs = Suc (length as)" "\<And>x. horner cs x = (\<Prod>a\<leftarrow>as. x - a)"
    by (rule Cons.IH) blast
  obtain bs where bs: "length bs = Suc (length cs)" "\<And>x. horner bs x = (x - a) * horner cs x"
    by (rule horner_times_linear [of cs a]) blast
  show thesis by (rule Cons.prems [of bs]) (simp_all add: cs bs)
qed

lemma horner_product_difference:
  assumes "length as = length bs"
  obtains cs where "length cs = Suc (length as)" "\<And>x. horner cs x = (\<Prod>a\<leftarrow>as. x - a) - (\<Prod>b\<leftarrow>bs. x - b)"
proof -
  obtain cs where cs: "length cs = Suc (length as)" "\<And>x. horner cs x = (\<Prod>a\<leftarrow>as. x - a)"
    by (rule horner_product [of as]) blast
  obtain ds where ds: "length ds = Suc (length bs)" "\<And>x. horner ds x = (\<Prod>b\<leftarrow>bs. x - b)"
    by (rule horner_product [of bs]) blast
  show thesis
    by (rule that [of "map2 (+) cs (map ((*) (- 1)) ds)"])
      (use assms cs ds in \<open>simp_all add: horner_map2_add horner_map_mult del: map_map\<close>)
qed

text \<open>Division by \<open>x - r\<close>.\<close>

lemma horner_divide:
  assumes "as \<noteq> []"
  obtains bs where "Suc (length bs) = length as" "\<And>x. horner as x = (x - r) * horner bs x + horner as r"
  using assms
proof (induction as arbitrary: thesis)
  case (Cons a as)
  show thesis
  proof (cases "as = []")
    case True
    then show thesis by (intro Cons.prems(1) [of "[]"]) simp_all
  next
    case False
    obtain bs where bs: "Suc (length bs) = length as" "\<And>x. horner as x = (x - r) * horner bs x + horner as r"
      by (rule Cons.IH [OF _ False]) blast
    have "horner (a # as) x = (x - r) * horner (horner as r # bs) x + horner (a # as) r" for x
    proof -
      have "horner (a # as) x = a + x * ((x - r) * horner bs x + horner as r)" by (simp only: horner.simps bs(2) [of x])
      also have "\<dots> = (x - r) * (horner as r + x * horner bs x) + (a + r * horner as r)" by (simp add: algebra_simps)
      finally show ?thesis by (simp only: horner.simps)
    qed
    moreover have "Suc (length (horner as r # bs)) = length (a # as)" using bs(1) by simp
    ultimately show thesis using Cons.prems(1) by blast
  qed
qed simp

definition residues_where :: "int \<Rightarrow> (int \<Rightarrow> bool) \<Rightarrow> int set" where
  "residues_where L P = {x \<in> {0..<L}. P x}"

lemma finite_residues [simp]: "finite (residues_where L P)"
  by (rule finite_subset [of _ "{0..<L}"]) (auto simp: residues_where_def)

lemma card_residues_insert:
  assumes "residues_where L P \<subseteq> insert r (residues_where L Q)" "card (residues_where L Q) \<le> k"
  shows "card (residues_where L P) \<le> Suc k"
proof -
  have "card (residues_where L P) \<le> card (insert r (residues_where L Q))"
    using assms(1) by (intro card_mono) simp_all
  also have "\<dots> \<le> Suc (card (residues_where L Q))" by (simp add: card_insert_if)
  finally show ?thesis using assms(2) by simp
qed

definition field_mod :: "int \<Rightarrow> bool" where
  "field_mod L \<longleftrightarrow> 1 < L \<and> (\<forall>x y. x * y mod L = 0 \<longrightarrow> x mod L = 0 \<or> y mod L = 0)"

lemma field_modD: "field_mod L \<Longrightarrow> x * y mod L = 0 \<Longrightarrow> x mod L = 0 \<or> y mod L = 0"
  unfolding field_mod_def by metis

lemma residue_eqI: "x \<in> {0..<L} \<Longrightarrow> (x - r) mod L = 0 \<Longrightarrow> x = r mod (L::int)"
proof -
  assume "x \<in> {0..<L}" "(x - r) mod L = 0"
  then have "x mod L = r mod L" by (simp only: mod_eq_dvd_iff mod_eq_0_iff_dvd)
  with \<open>x \<in> {0..<L}\<close> show ?thesis by simp
qed

text \<open>A polynomial that is not zero everywhere has fewer roots than coefficients.\<close>

lemma card_roots:
  assumes "field_mod L"
  shows "horner as x0 mod L \<noteq> 0 \<Longrightarrow> card (residues_where L (\<lambda>x. horner as x mod L = 0)) < length as"
proof (induction "length as" arbitrary: as)
  case (Suc k)
  show ?case
  proof (cases "residues_where L (\<lambda>x. horner as x mod L = 0) = {}")
    case True
    then show ?thesis using Suc(2) by (cases as) simp_all
  next
    case False
    then obtain r where "r \<in> residues_where L (\<lambda>x. horner as x mod L = 0)" by blast
    then have r: "horner as r mod L = 0" unfolding residues_where_def by blast
    obtain bs where bs: "Suc (length bs) = length as" "\<And>x. horner as x = (x - r) * horner bs x + horner as r"
    proof (rule horner_divide [of as r])
      show "as \<noteq> []" using Suc(2) by (cases as) simp_all
    qed blast
    have mod: "horner as x mod L = (x - r) * horner bs x mod L" for x
    proof -
      have "horner as x - (x - r) * horner bs x = horner as r" using bs(2) [of x] by linarith
      then show ?thesis using r by (simp only: mod_eq_dvd_iff mod_eq_0_iff_dvd)
    qed
    have "horner bs x0 mod L \<noteq> 0"
    proof
      assume "horner bs x0 mod L = 0"
      then have "(x0 - r) * horner bs x0 mod L = 0" by (simp add: mod_eq_0_iff_dvd)
      then show False using Suc.prems mod [of x0] by simp
    qed
    then have less: "card (residues_where L (\<lambda>x. horner bs x mod L = 0)) < length bs"
      using Suc.hyps bs(1) by simp
    have sub: "residues_where L (\<lambda>x. horner as x mod L = 0) \<subseteq>
        insert (r mod L) (residues_where L (\<lambda>x. horner bs x mod L = 0))"
    proof
      fix x assume "x \<in> residues_where L (\<lambda>x. horner as x mod L = 0)"
      then have x: "x \<in> {0..<L}" "(x - r) * horner bs x mod L = 0" using mod [of x] by (simp_all add: residues_where_def)
      show "x \<in> insert (r mod L) (residues_where L (\<lambda>x. horner bs x mod L = 0))"
        using field_modD [OF assms x(2)] residue_eqI [OF x(1), of r] x(1) unfolding residues_where_def by (elim disjE) simp_all
    qed
    have "card (residues_where L (\<lambda>x. horner bs x mod L = 0)) \<le> length bs - 1" using less by linarith
    from card_residues_insert [OF sub this] less bs(1) show ?thesis by linarith
  qed
qed simp

lemma prod_list_mod_zero:
  assumes "field_mod L" "(\<Prod>a\<leftarrow>as. f a) mod L = 0"
  shows "\<exists>a\<in>set as. f a mod L = (0::int)"
  using assms(2)
proof (induction as)
  case Nil
  then show ?case using assms(1) by (simp add: field_mod_def)
next
  case (Cons a as)
  have "f a * (\<Prod>a\<leftarrow>as. f a) mod L = 0" using Cons.prems by simp
  then have "f a mod L = 0 \<or> (\<Prod>a\<leftarrow>as. f a) mod L = 0" by (rule field_modD [OF assms(1)])
  with Cons.IH show ?case by auto
qed

lemma prod_list_remove1: "a \<in> set as \<Longrightarrow> (\<Prod>x\<leftarrow>as. f x) = f a * (\<Prod>x\<leftarrow>remove1 a as. (f x :: int))"
  by (induction as) auto


lemma mset_remove_common:
  assumes "a \<in> set as" "b \<in> set bs" "a mod L = b mod (L::int)"
    and "mset (map (\<lambda>x. x mod L) as) \<noteq> mset (map (\<lambda>x. x mod L) bs)"
  shows "mset (map (\<lambda>x. x mod L) (remove1 a as)) \<noteq> mset (map (\<lambda>x. x mod L) (remove1 b bs))"
proof
  assume eq: "mset (map (\<lambda>x. x mod L) (remove1 a as)) = mset (map (\<lambda>x. x mod L) (remove1 b bs))"
  have "mset (map (\<lambda>x. x mod L) xs) = add_mset (y mod L) (mset (map (\<lambda>x. x mod L) (remove1 y xs)))"
    if "y \<in> set xs" for y and xs :: "int list"
    using that by (induction xs) auto
  from this [OF assms(1)] this [OF assms(2)] eq assms(3,4) show False by simp
qed

theorem card_equal_products:
  assumes L: "field_mod L"
  shows "length as = length bs \<Longrightarrow> mset (map (\<lambda>x. x mod L) as) \<noteq> mset (map (\<lambda>x. x mod L) bs) \<Longrightarrow>
    card (residues_where L (\<lambda>x. (\<Prod>a\<leftarrow>as. x - a) mod L = (\<Prod>b\<leftarrow>bs. x - b) mod L)) \<le> length as"
proof (induction "length as" arbitrary: as bs)
  case (Suc n)
  let ?P = "\<lambda>as bs x. (\<Prod>a\<leftarrow>as. x - a) mod L = (\<Prod>b\<leftarrow>bs. x - b) mod L"
  show ?case
  proof (cases "\<exists>a\<in>set as. \<exists>b\<in>set bs. a mod L = b mod L")
    case True
    then obtain a b where ab: "a \<in> set as" "b \<in> set bs" "a mod L = b mod L" by blast
    define as' bs' where "as' = remove1 a as" and "bs' = remove1 b bs"
    have len: "n = length as'" "length as' = length bs'" "length as = Suc (length as')"
      using ab(1,2) Suc.hyps(2) Suc.prems(1) by (simp_all add: as'_def bs'_def length_remove1)
    have IH: "card (residues_where L (?P as' bs')) \<le> length as'"
      using Suc.hyps(1) [OF len(1,2)] mset_remove_common [OF ab Suc.prems(2)] by (simp add: as'_def bs'_def)
    have "residues_where L (?P as bs) \<subseteq> insert (a mod L) (residues_where L (?P as' bs'))"
    proof
      fix x assume x: "x \<in> residues_where L (?P as bs)"
      then have r: "x \<in> {0..<L}" and P: "?P as bs x" unfolding residues_where_def by blast+
      have "(x - a) * (\<Prod>a\<leftarrow>as'. x - a) mod L = (x - b) * (\<Prod>b\<leftarrow>bs'. x - b) mod L"
        using P prod_list_remove1 [OF ab(1), of "\<lambda>a. x - a"] prod_list_remove1 [OF ab(2), of "\<lambda>b. x - b"]
        by (simp add: as'_def bs'_def)
      also have "\<dots> = (x - a) * (\<Prod>b\<leftarrow>bs'. x - b) mod L"
        using ab(3) by (metis mod_diff_right_eq mod_mult_left_eq)
      finally have "(x - a) * ((\<Prod>a\<leftarrow>as'. x - a) - (\<Prod>b\<leftarrow>bs'. x - b)) mod L = 0"
        by (simp add: mod_eq_dvd_iff mod_eq_0_iff_dvd right_diff_distrib)
      then have "(x - a) mod L = 0 \<or> ((\<Prod>a\<leftarrow>as'. x - a) - (\<Prod>b\<leftarrow>bs'. x - b)) mod L = 0"
        by (rule field_modD [OF L])
      then show "x \<in> insert (a mod L) (residues_where L (?P as' bs'))"
        using residue_eqI [OF r] r by (auto simp: residues_where_def mod_eq_dvd_iff mod_eq_0_iff_dvd)
    qed
    then have "card (residues_where L (?P as bs)) \<le> Suc (length as')" using IH by (rule card_residues_insert)
    with len show ?thesis by simp
  next
    case False
    obtain cs where cs: "length cs = Suc (length as)" "\<And>x. horner cs x = (\<Prod>a\<leftarrow>as. x - a) - (\<Prod>b\<leftarrow>bs. x - b)"
      by (rule horner_product_difference [OF Suc.prems(1)]) blast
    obtain a0 where a0: "a0 \<in> set as" using Suc.hyps(2) by (cases as) auto
    have "(\<Prod>b\<leftarrow>bs. a0 - b) mod L \<noteq> 0"
    proof
      assume "(\<Prod>b\<leftarrow>bs. a0 - b) mod L = 0"
      from prod_list_mod_zero [OF L this] obtain b where b: "b \<in> set bs" "(a0 - b) mod L = 0" by (elim bexE)
      then have "a0 mod L = b mod L" by (simp only: mod_eq_dvd_iff mod_eq_0_iff_dvd)
      with a0 b(1) False show False by blast
    qed
    moreover have "(\<Prod>a\<leftarrow>as. a0 - a) = 0" using prod_list_remove1 [OF a0, of "\<lambda>a. a0 - a"] by simp
    ultimately have "horner cs a0 mod L \<noteq> 0" unfolding cs(2) by (simp add: mod_eq_0_iff_dvd)
    then have "card (residues_where L (\<lambda>x. horner cs x mod L = 0)) < length cs" by (rule card_roots [OF L])
    then have "card (residues_where L (\<lambda>x. horner cs x mod L = 0)) \<le> length as" using cs(1) by linarith
    moreover have "?P as bs x \<longleftrightarrow> horner cs x mod L = 0" for x
      unfolding cs(2) by (simp only: mod_eq_dvd_iff mod_eq_0_iff_dvd)
    ultimately show ?thesis by (simp only:)
  qed
qed simp

end
