(* ===== verification/Shuffle_Nizk.thy ===== *)
theory Shuffle_Nizk
  imports Pedersen Root_Count "HOL-Library.List_Lexorder"
begin

text \<open>
  The shuffle proofs: the linear prototype (\<open>volePSI/MpShuffleNizk.cpp\<close>), the sound one that reveals
  the messages (\<open>volePSI/MpShuffleNizkBg.cpp\<close>), the audit variant with its vector commitments
  (\<open>volePSI/MpPedersenVector.cpp\<close>) and the wire wrapper (\<open>volePSI/MpsvsShuffleWire.cpp\<close>).

  A message of the vector generators is the decimal representation of the index; the cache of
  generators holds what is computed and is not modelled.
\<close>

subsection \<open>Shared pieces\<close>

fun powers_from :: "'r sodium \<Rightarrow> R255Scalar \<Rightarrow> nat \<Rightarrow> R255Scalar \<Rightarrow> R255Scalar list result" where
  "powers_from sd x 0 p = Inr []"
| "powers_from sd x (Suc n) p =
     (if n = 0 then Inr [p]
      else bindE (scalarMul sd p x) (\<lambda>q. bindE (powers_from sd x n q) (\<lambda>ps. Inr (p # ps))))"

definition powersOf :: "'r sodium \<Rightarrow> R255Scalar \<Rightarrow> nat \<Rightarrow> R255Scalar list result" where
  "powersOf sd x n = powers_from sd x n scalar_one"

definition scalarDot_audit :: "'r sodium \<Rightarrow> R255Scalar list \<Rightarrow> R255Scalar list \<Rightarrow> R255Scalar result" where
  "scalarDot_audit sd a b =
     foldE (\<lambda>i acc. bindE (bindE (vec_at a i) (\<lambda>x. bindE (vec_at b i) (scalarMul sd x))) (scalarAdd sd acc))
       [0..<length a] scalar_zero"

definition scalarDot :: "'r sodium \<Rightarrow> R255Scalar list \<Rightarrow> R255Scalar list \<Rightarrow> R255Scalar result" where
  "scalarDot sd a b = throw_if (length a \<noteq> length b) (RuntimeError ''scalarDot: size mismatch'') (scalarDot_audit sd a b)"

definition pushU32 :: "nat \<Rightarrow> bytes" where "pushU32 v = le_bytes 4 (word_of_nat v :: 32 word)"

text \<open>The transcript of two lists of commitments.\<close>

definition buildFsTranscript :: "string \<Rightarrow> PedersenCommitment list \<Rightarrow> PedersenCommitment list \<Rightarrow> bytes" where
  "buildFsTranscript sep C C' =
     str_bytes sep @ pushU32 (length C) @ concat C @ pushU32 (length C') @ concat C'"

definition sizes_differ :: "nat \<Rightarrow> 'a list \<Rightarrow> 'b list \<Rightarrow> 'c list \<Rightarrow> 'd list \<Rightarrow> 'e list \<Rightarrow> bool" where
  "sizes_differ n a b c d e \<longleftrightarrow> length a \<noteq> n \<or> length b \<noteq> n \<or> length c \<noteq> n \<or> length d \<noteq> n \<or> length e \<noteq> n"

definition int_at :: "'a list \<Rightarrow> int \<Rightarrow> 'a result" where
  "int_at xs j = (if j < 0 then Inl OutOfBounds else vec_at xs (nat j))"

subsection \<open>The linear prototype\<close>

record ShuffleProof =
  sp_challenge :: R255Scalar
  combinedMessage :: R255Scalar
  combinedOpeningOrig :: R255Scalar
  combinedOpeningShuf :: R255Scalar

definition shuffleChallenge ::
  "'r sodium \<Rightarrow> PedersenCommitment list \<Rightarrow> PedersenCommitment list \<Rightarrow> R255Scalar result" where
  "shuffleChallenge sd C C' = hashToScalar sd (buildFsTranscript ''mpstar.shuffle.nizk.v1'' C C')"

definition shuffleProve ::
  "'r sodium \<Rightarrow> R255Scalar list \<Rightarrow> R255Scalar list \<Rightarrow> R255Scalar list \<Rightarrow> int list \<Rightarrow>
     PedersenCommitment list \<Rightarrow> PedersenCommitment list \<Rightarrow> ShuffleProof result" where
  "shuffleProve sd messages openingsOrig openingsShuf permutation C C' =
     (let n = length messages in
      throw_if (sizes_differ n openingsOrig openingsShuf permutation C C') (RuntimeError ''shuffleProve: input size mismatch'')
      (bindE (shuffleChallenge sd C C') (\<lambda>x. bindE (powersOf sd x n) (\<lambda>x_pow.
       bindE (scalarDot sd x_pow messages) (\<lambda>m. bindE (scalarDot sd x_pow openingsOrig) (\<lambda>r.
       bindE (mapE (\<lambda>src. throw_if (src < 0 \<or> int n \<le> src) (RuntimeError ''shuffleProve: permutation out of range'')
         (int_at x_pow src)) permutation) (\<lambda>shufWeights.
       bindE (scalarDot sd shufWeights openingsShuf) (\<lambda>r'.
       Inr \<lparr>sp_challenge = x, combinedMessage = m, combinedOpeningOrig = r, combinedOpeningShuf = r'\<rparr>))))))))"

definition shuffleVerify ::
  "'r sodium \<Rightarrow> ShuffleProof \<Rightarrow> PedersenCommitment list \<Rightarrow> PedersenCommitment list \<Rightarrow> bool result" where
  "shuffleVerify sd proof C C' =
     (let n = length C in
      if length C' \<noteq> n then Inr False else
      bindE (shuffleChallenge sd C C') (\<lambda>expected.
      if expected \<noteq> sp_challenge proof then Inr False else
      bindE (powersOf sd (sp_challenge proof) n) (\<lambda>x_pow.
      bindE (foldE (\<lambda>i acc. bindE (bindE (vec_at x_pow i) (\<lambda>x. bindE (vec_at C i) (pedersenScalarMul sd x))) (pedersenAdd sd acc))
        [0..<n] point_identity) (\<lambda>combinedOrig.
      bindE (pedersenCommit sd (combinedMessage proof) (combinedOpeningOrig proof)) (\<lambda>expectedOrig.
      if combinedOrig \<noteq> expectedOrig then Inr False else
      bindE (foldE (\<lambda>(c, c') (a, a'). bindE (pedersenAdd sd a c) (\<lambda>b. bindE (pedersenAdd sd a' c') (\<lambda>b'. Inr (b, b'))))
        (zip C C') (point_identity, point_identity)) (\<lambda>_. Inr True))))))"

subsection \<open>The proof that reveals the messages\<close>

record ShuffleProofBg =
  bg_challengeY :: R255Scalar
  bg_challengeX :: R255Scalar
  bg_messages :: "R255Scalar list"
  bg_shuffledMessages :: "R255Scalar list"
  bg_openingsOrig :: "R255Scalar list"
  bg_openingsShuf :: "R255Scalar list"

definition transcriptBytes :: "PedersenCommitment list \<Rightarrow> PedersenCommitment list \<Rightarrow> string \<Rightarrow> bytes result" where
  "transcriptBytes C C' domain =
     throw_if (int (length C) > 0xFFFFFFFF \<or> int (length C') > 0xFFFFFFFF) (RuntimeError ''transcriptBytes: |C| > 2^32'')
       (Inr (buildFsTranscript domain C C'))"

definition polyEvalAtX :: "'r sodium \<Rightarrow> R255Scalar list \<Rightarrow> R255Scalar \<Rightarrow> R255Scalar \<Rightarrow> R255Scalar result" where
  "polyEvalAtX sd messages x y =
     foldE (\<lambda>m acc. bindE (scalarAdd sd m y) (\<lambda>mShift. bindE (scalarSub sd x mShift) (scalarMul sd acc))) messages scalar_one"

definition fsChallengeY_bg ::
  "'r sodium \<Rightarrow> PedersenCommitment list \<Rightarrow> PedersenCommitment list \<Rightarrow> R255Scalar result" where
  "fsChallengeY_bg sd C C' = bindE (transcriptBytes C C' ''mpstar.shuffleBg.y.v1'') (hashToScalar sd)"

definition fsChallengeX_bg ::
  "'r sodium \<Rightarrow> PedersenCommitment list \<Rightarrow> PedersenCommitment list \<Rightarrow> R255Scalar \<Rightarrow> R255Scalar result" where
  "fsChallengeX_bg sd C C' y = bindE (transcriptBytes C C' ''mpstar.shuffleBg.x.v1'') (\<lambda>t. hashToScalar sd (t @ y))"

definition shuffleProveBg ::
  "'r sodium \<Rightarrow> R255Scalar list \<Rightarrow> R255Scalar list \<Rightarrow> R255Scalar list \<Rightarrow> int list \<Rightarrow>
     PedersenCommitment list \<Rightarrow> PedersenCommitment list \<Rightarrow> ShuffleProofBg result" where
  "shuffleProveBg sd messages openingsOrig openingsShuf permutation C C' =
     (let n = length messages in
      throw_if (sizes_differ n openingsOrig openingsShuf permutation C C') (RuntimeError ''shuffleProveBg: input size mismatch'')
      (bindE (fsChallengeY_bg sd C C') (\<lambda>y. bindE (fsChallengeX_bg sd C C' y) (\<lambda>x.
       bindE (mapE (\<lambda>src. throw_if (src < 0 \<or> int n \<le> src) (RuntimeError ''shuffleProveBg: permutation OOB'')
         (int_at messages src)) permutation) (\<lambda>shuffledMessages.
       Inr \<lparr>bg_challengeY = y, bg_challengeX = x, bg_messages = messages, bg_shuffledMessages = shuffledMessages,
         bg_openingsOrig = openingsOrig, bg_openingsShuf = openingsShuf\<rparr>)))))"

fun openings_bind :: "'r sodium \<Rightarrow> (R255Scalar \<times> R255Scalar \<times> PedersenCommitment \<times> R255Scalar \<times> R255Scalar \<times> PedersenCommitment) list \<Rightarrow> bool result" where
  "openings_bind sd [] = Inr True"
| "openings_bind sd ((m, r, c, m', r', c') # rest) =
     bindE (pedersenCommit sd m r) (\<lambda>want_orig. if want_orig \<noteq> c then Inr False else
     bindE (pedersenCommit sd m' r') (\<lambda>want_shuf. if want_shuf \<noteq> c' then Inr False else openings_bind sd rest))"

definition shuffleVerifyBg ::
  "'r sodium \<Rightarrow> ShuffleProofBg \<Rightarrow> PedersenCommitment list \<Rightarrow> PedersenCommitment list \<Rightarrow> bool result" where
  "shuffleVerifyBg sd proof C C' =
     (let n = length C; ms = bg_messages proof; ms' = bg_shuffledMessages proof in
      if sizes_differ n C' ms ms' (bg_openingsOrig proof) (bg_openingsShuf proof) then Inr False else
      bindE (fsChallengeY_bg sd C C') (\<lambda>y. bindE (fsChallengeX_bg sd C C' y) (\<lambda>x.
      if y \<noteq> bg_challengeY proof then Inr False else
      if x \<noteq> bg_challengeX proof then Inr False else
      bindE (openings_bind sd (zip ms (zip (bg_openingsOrig proof) (zip C (zip ms' (zip (bg_openingsShuf proof) C')))))) (\<lambda>bound.
      if \<not> bound then Inr False else
      bindE (polyEvalAtX sd ms x y) (\<lambda>prodOrig. bindE (polyEvalAtX sd ms' x y) (\<lambda>prodShuf. Inr (prodOrig = prodShuf)))))))"


subsection \<open>Values of the pieces\<close>

lemma laws_field_mod:
  assumes G: "ristretto_laws sd L sc el"
  shows "field_mod L"
  unfolding field_mod_def laws_field [OF G] using laws_order [OF G] by blast

lemma prod_list_mset_cong: "mset xs = mset ys \<Longrightarrow> prod_list (map f xs) = (prod_list (map f ys) :: int)"
  by (metis mset_map prod_mset_prod_list)

definition reduced :: "(int \<Rightarrow> R255Scalar) \<Rightarrow> R255Scalar list \<Rightarrow> bool" where
  "reduced sc ms \<longleftrightarrow> set ms \<subseteq> range sc"

lemma reduced_ints:
  assumes "reduced sc ms"
  obtains vs where "ms = map sc vs"
proof -
  have "\<exists>vs. ms = map sc vs" unfolding ex_map_conv using assms by (auto simp: reduced_def)
  then show thesis using that by blast
qed

lemma hashToScalar_sc:
  assumes "ristretto_laws sd L sc el"
  obtains x where "hashToScalar sd m = Inr (sc x)"
  using laws_hashes(1) [OF assms] by blast

lemma polyEvalAtX_eq:
  assumes G: "ristretto_laws sd L sc el"
  shows "polyEvalAtX sd (map sc vs) (sc x) (sc y) = Inr (sc (\<Prod>v\<leftarrow>vs. x - (v + y)))"
proof -
  have "foldE (\<lambda>m acc. bindE (scalarAdd sd m (sc y)) (\<lambda>s. bindE (scalarSub sd (sc x) s) (scalarMul sd acc))) (map sc vs) (sc a) =
      Inr (sc (a * (\<Prod>v\<leftarrow>vs. x - (v + y))))" for a
    by (induction vs arbitrary: a) (simp_all add: laws_scalar_ops [OF G] mult.assoc)
  from this [of 1] show ?thesis by (simp add: polyEvalAtX_def laws_consts(2) [OF G])
qed

lemma openings_bind_True:
  "openings_bind sd xs = Inr True \<longleftrightarrow>
     (\<forall>(m, r, c, m', r', c') \<in> set xs. pedersenCommit sd m r = Inr c \<and> pedersenCommit sd m' r' = Inr c')"
  by (induction sd xs rule: openings_bind.induct) (auto simp: bindE_eq_Inr split: if_splits)

lemma pedersenCommitVector_Inr:
  "pedersenCommitVector sd ms rs = Inr cs \<Longrightarrow>
    length rs = length ms \<and> length cs = length ms \<and> (\<forall>i<length ms. pedersenCommit sd (ms ! i) (rs ! i) = Inr (cs ! i))"
proof -
  have "mapE (\<lambda>(m, r). pedersenCommit sd m r) xs = Inr cs \<Longrightarrow>
      length cs = length xs \<and> (\<forall>i<length xs. (\<lambda>(m, r). pedersenCommit sd m r) (xs ! i) = Inr (cs ! i))" for xs cs
  proof (induction xs arbitrary: cs)
    case (Cons x xs)
    then show ?case by (auto simp: bindE_eq_Inr nth_Cons split: nat.splits)
  qed simp
  from this [of "zip ms rs" cs] show "pedersenCommitVector sd ms rs = Inr cs \<Longrightarrow> ?thesis"
    by (auto simp: pedersenCommitVector_def throw_if_def split: if_splits)
qed

lemma pushU32_length [simp]: "length (pushU32 n) = 4"
  by (simp add: pushU32_def)

subsection \<open>The proof that reveals the messages\<close>

lemma bg_challenges:
  assumes G: "ristretto_laws sd L sc el" and "int (length C) \<le> 0xFFFFFFFF" "int (length C') \<le> 0xFFFFFFFF"
  obtains x y where "fsChallengeY_bg sd C C' = Inr (sc y)" "fsChallengeX_bg sd C C' (sc y) = Inr (sc x)"
proof -
  have t: "transcriptBytes C C' d = Inr (buildFsTranscript d C C')" for d
    using assms(2,3) by (simp add: transcriptBytes_def throw_if_def)
  obtain y where y: "hashToScalar sd (buildFsTranscript ''mpstar.shuffleBg.y.v1'' C C') = Inr (sc y)"
    by (rule hashToScalar_sc [OF G])
  obtain x where "hashToScalar sd (buildFsTranscript ''mpstar.shuffleBg.x.v1'' C C' @ sc y) = Inr (sc x)"
    by (rule hashToScalar_sc [OF G])
  with y that show thesis by (simp add: fsChallengeY_bg_def fsChallengeX_bg_def t)
qed

definition is_shuffle :: "nat \<Rightarrow> int list \<Rightarrow> bool" where
  "is_shuffle n perm \<longleftrightarrow> mset perm = mset (map int [0..<n])"

lemma is_shuffleD:
  assumes "is_shuffle n perm"
  shows "length perm = n" "\<forall>j\<in>set perm. 0 \<le> j \<and> j < int n"
proof -
  have "size (mset perm) = size (mset (map int [0..<n]))" using assms by (simp only: is_shuffle_def)
  then show "length perm = n" by simp
  have "set_mset (mset perm) = set_mset (mset (map int [0..<n]))" using assms by (simp only: is_shuffle_def)
  then show "\<forall>j\<in>set perm. 0 \<le> j \<and> j < int n" by auto
qed

lemma shuffle_mset:
  assumes "is_shuffle (length ms) perm"
  shows "mset (map (\<lambda>j. ms ! nat j) perm) = mset ms"
proof -
  have "mset (map (\<lambda>j. ms ! nat j) perm) = image_mset (\<lambda>j. ms ! nat j) (mset (map int [0..<length ms]))"
    using assms by (simp add: is_shuffle_def)
  also have "\<dots> = mset (map ((!) ms) [0..<length ms])" by (simp add: multiset.map_comp comp_def)
  finally show ?thesis by (simp add: map_nth)
qed

lemma shuffled_mapE:
  assumes "is_shuffle (length ms) perm"
  shows "mapE (\<lambda>src. throw_if (src < 0 \<or> int (length ms) \<le> src) e (int_at ms src)) perm = Inr (map (\<lambda>j. ms ! nat j) perm)"
proof (rule mapE_Inr)
  fix j assume "j \<in> set perm"
  then have "0 \<le> j" "j < int (length ms)" using is_shuffleD(2) [OF assms] by auto
  then show "throw_if (j < 0 \<or> int (length ms) \<le> j) e (int_at ms j) = Inr (ms ! nat j)"
    by (simp add: throw_if_def int_at_def)
qed

lemma bg_honest_accepted:
  assumes G: "ristretto_laws sd L sc el" and red: "reduced sc ms" and perm: "is_shuffle (length ms) perm"
    and C: "pedersenCommitVector sd ms rs = Inr C" and C': "pedersenCommitVector sd (map (\<lambda>j. ms ! nat j) perm) rs' = Inr C'"
    and len: "int (length ms) \<le> 0xFFFFFFFF"
  shows "bindE (shuffleProveBg sd ms rs rs' perm C C') (\<lambda>p. shuffleVerifyBg sd p C C') = Inr True"
proof -
  define ms' where "ms' = map (\<lambda>j. ms ! nat j) perm"
  note l = pedersenCommitVector_Inr [OF C] pedersenCommitVector_Inr [OF C' [folded ms'_def]] is_shuffleD(1) [OF perm]
  have lm: "length ms' = length ms" using l by (simp add: ms'_def)
  obtain x y where xy: "fsChallengeY_bg sd C C' = Inr (sc y)" "fsChallengeX_bg sd C C' (sc y) = Inr (sc x)"
    by (rule bg_challenges [OF G, of C C']) (use l lm len in simp_all)
  have p: "shuffleProveBg sd ms rs rs' perm C C' = Inr \<lparr>bg_challengeY = sc y, bg_challengeX = sc x, bg_messages = ms,
      bg_shuffledMessages = ms', bg_openingsOrig = rs, bg_openingsShuf = rs'\<rparr>"
    using l lm by (simp add: shuffleProveBg_def sizes_differ_def xy shuffled_mapE [OF perm] ms'_def)
  have m: "mset ms' = mset ms" unfolding ms'_def by (rule shuffle_mset [OF perm])
  then have "reduced sc ms'" using red by (metis reduced_def set_mset_mset)
  then obtain vs' where vs': "ms' = map sc vs'" by (rule reduced_ints)
  obtain vs where vs: "ms = map sc vs" by (rule reduced_ints [OF red])
  have poly: "polyEvalAtX sd ms' (sc x) (sc y) = polyEvalAtX sd ms (sc x) (sc y)"
  proof -
    define g where "g c = (SOME v. c = sc v)" for c
    have g: "sc (g (sc v)) = sc v" for v unfolding g_def by (rule someI [of "\<lambda>u. sc v = sc u", symmetric]) (rule refl)
    have "ms = map sc (map g ms)" "ms' = map sc (map g ms')" by (simp_all add: vs vs' g)
    moreover have "(\<Prod>v\<leftarrow>map g ms'. x - (v + y)) = (\<Prod>v\<leftarrow>map g ms. x - (v + y))"
      by (rule prod_list_mset_cong) (simp add: m)
    ultimately show ?thesis using polyEvalAtX_eq [OF G, of "map g ms" x y] polyEvalAtX_eq [OF G, of "map g ms'" x y] by simp
  qed
  have bound: "openings_bind sd (zip ms (zip rs (zip C (zip ms' (zip rs' C'))))) = Inr True"
    unfolding openings_bind_True using l lm by (auto simp: set_zip)
  show ?thesis
    using l lm polyEvalAtX_eq [OF G, of vs x y]
    by (simp add: p shuffleVerifyBg_def sizes_differ_def xy bound poly) (simp add: vs)
qed

text \<open>C32: The proof of a real shuffle is accepted: for commitments to messages and to the permuted
  messages, proving does not throw and verification says yes.\<close>

theorem shuffleVerifyBg_complete:
  assumes "ristretto_laws sd L sc el" and "reduced sc ms" and "is_shuffle (length ms) perm"
    and "pedersenCommitVector sd ms rs = Inr C" and "pedersenCommitVector sd (map (\<lambda>j. ms ! nat j) perm) rs' = Inr C'"
    and "int (length ms) \<le> 0xFFFFFFFF"
  shows "bindE (shuffleProveBg sd ms rs rs' perm C C') (\<lambda>p. shuffleVerifyBg sd p C C') = Inr True"
  by (rule bg_honest_accepted [OF assms])


text \<open>The challenges at which two lists of messages have the same product.\<close>

definition bad_points ::
  "'r sodium \<Rightarrow> (int \<Rightarrow> R255Scalar) \<Rightarrow> R255Scalar list \<Rightarrow> R255Scalar list \<Rightarrow> R255Scalar \<Rightarrow> R255Scalar set" where
  "bad_points sd sc ms ms' y = {x \<in> range sc. polyEvalAtX sd ms x y = polyEvalAtX sd ms' x y}"

lemma mset_shifted:
  assumes G: "ristretto_laws sd L sc el" and "mset (map sc us) \<noteq> mset (map sc vs)"
  shows "mset (map (\<lambda>x. x mod L) (map (\<lambda>v. v + y) us)) \<noteq> mset (map (\<lambda>x. x mod L) (map (\<lambda>v. v + y) vs))"
proof
  assume eq: "mset (map (\<lambda>x. x mod L) (map (\<lambda>v. v + y) us)) = mset (map (\<lambda>x. x mod L) (map (\<lambda>v. v + y) vs))"
  have unshift: "map (\<lambda>w. sc (w - y)) (map (\<lambda>x. x mod L) (map (\<lambda>v. v + y) ws)) = map sc ws" for ws
    by (simp add: laws_sc [OF G] mod_diff_left_eq)
  have "mset (map (\<lambda>w. sc (w - y)) (map (\<lambda>x. x mod L) (map (\<lambda>v. v + y) us))) =
      mset (map (\<lambda>w. sc (w - y)) (map (\<lambda>x. x mod L) (map (\<lambda>v. v + y) vs)))"
    using arg_cong [OF eq, of "image_mset (\<lambda>w. sc (w - y))"] by (simp only: mset_map)
  then show False using assms(2) by (simp only: unshift)
qed

lemma card_bad_points:
  assumes G: "ristretto_laws sd L sc el" and len: "length us = length vs" and ne: "mset (map sc us) \<noteq> mset (map sc vs)"
  shows "finite (bad_points sd sc (map sc us) (map sc vs) (sc y)) \<and>
    card (bad_points sd sc (map sc us) (map sc vs) (sc y)) \<le> length us"
proof -
  define as bs where "as = map (\<lambda>v. v + y) us" and "bs = map (\<lambda>v. v + y) vs"
  define R where "R = residues_where L (\<lambda>x. (\<Prod>a\<leftarrow>as. x - a) mod L = (\<Prod>b\<leftarrow>bs. x - b) mod L)"
  have "card R \<le> length as" unfolding R_def
    by (rule card_equal_products [OF laws_field_mod [OF G]])
      (use len mset_shifted [OF G ne] in \<open>simp_all only: as_def bs_def length_map not_False_eq_True\<close>)
  then have cR: "card R \<le> length us" by (simp add: as_def)
  have prods: "(\<Prod>v\<leftarrow>ws. x - (v + y)) = (\<Prod>a\<leftarrow>map (\<lambda>v. v + y) ws. x - a)" for ws x
    by (simp add: comp_def)
  have "bad_points sd sc (map sc us) (map sc vs) (sc y) \<subseteq> sc ` R"
  proof
    fix z assume z: "z \<in> bad_points sd sc (map sc us) (map sc vs) (sc y)"
    then obtain x0 where "z = sc x0" by (auto simp: bad_points_def)
    then have zx: "z = sc (x0 mod L)" by (simp add: laws_sc [OF G])
    define x where "x = x0 mod L"
    have "x \<in> {0..<L}" using laws_order [OF G] by (simp add: x_def)
    moreover have "sc (\<Prod>v\<leftarrow>us. x - (v + y)) = sc (\<Prod>v\<leftarrow>vs. x - (v + y))"
      using z by (simp add: bad_points_def zx polyEvalAtX_eq [OF G] flip: x_def)
    ultimately have "x \<in> R"
      by (simp only: R_def residues_where_def as_def bs_def prods laws_sc [OF G] mem_Collect_eq simp_thms)
    then show "z \<in> sc ` R" using zx by (simp add: x_def)
  qed
  moreover have fin: "finite (sc ` R)" by (simp add: R_def)
  ultimately have "finite (bad_points sd sc (map sc us) (map sc vs) (sc y))"
    and "card (bad_points sd sc (map sc us) (map sc vs) (sc y)) \<le> card (sc ` R)"
    by (auto intro: finite_subset card_mono)
  moreover have "card (sc ` R) \<le> card R" by (rule card_image_le) (simp add: R_def)
  ultimately show ?thesis using cR by linarith
qed

lemma shuffleVerifyBg_True:
  assumes ok: "shuffleVerifyBg sd p C C' = Inr True"
  shows "\<not> sizes_differ (length C) C' (bg_messages p) (bg_shuffledMessages p) (bg_openingsOrig p) (bg_openingsShuf p)"
    and "fsChallengeY_bg sd C C' = Inr (bg_challengeY p)" "fsChallengeX_bg sd C C' (bg_challengeY p) = Inr (bg_challengeX p)"
    and "openings_bind sd (zip (bg_messages p) (zip (bg_openingsOrig p) (zip C (zip (bg_shuffledMessages p) (zip (bg_openingsShuf p) C'))))) = Inr True"
    and "polyEvalAtX sd (bg_messages p) (bg_challengeX p) (bg_challengeY p) =
      polyEvalAtX sd (bg_shuffledMessages p) (bg_challengeX p) (bg_challengeY p)"
proof -
  show s: "\<not> sizes_differ (length C) C' (bg_messages p) (bg_shuffledMessages p) (bg_openingsOrig p) (bg_openingsShuf p)"
    using ok by (simp add: shuffleVerifyBg_def Let_def split: if_splits)
  show y: "fsChallengeY_bg sd C C' = Inr (bg_challengeY p)"
    using ok s by (auto simp: shuffleVerifyBg_def Let_def bindE_eq_Inr split: if_splits)
  show x: "fsChallengeX_bg sd C C' (bg_challengeY p) = Inr (bg_challengeX p)"
    using ok s by (auto simp: shuffleVerifyBg_def Let_def bindE_eq_Inr y split: if_splits)
  show b: "openings_bind sd (zip (bg_messages p) (zip (bg_openingsOrig p) (zip C (zip (bg_shuffledMessages p) (zip (bg_openingsShuf p) C'))))) = Inr True"
    using ok s by (auto simp: shuffleVerifyBg_def Let_def bindE_eq_Inr y x split: if_splits)
  show "polyEvalAtX sd (bg_messages p) (bg_challengeX p) (bg_challengeY p) =
      polyEvalAtX sd (bg_shuffledMessages p) (bg_challengeX p) (bg_challengeY p)"
    using ok s by (auto simp: shuffleVerifyBg_def Let_def bindE_eq_Inr y x b split: if_splits)
qed

text \<open>C31: An accepted proof opens all commitments of both sides, and either the opened messages are the
  same multiset or the challenge of the proof is one of at most \<open>n\<close> bad points, for \<open>n\<close> commitments a side.\<close>

theorem shuffleVerifyBg_sound:
  assumes G: "ristretto_laws sd L sc el" and ok: "shuffleVerifyBg sd p C C' = Inr True"
    and red: "reduced sc (bg_messages p)" "reduced sc (bg_shuffledMessages p)"
  shows "length C' = length C \<and>
    (\<forall>i<length C. pedersenCommit sd (bg_messages p ! i) (bg_openingsOrig p ! i) = Inr (C ! i) \<and>
       pedersenCommit sd (bg_shuffledMessages p ! i) (bg_openingsShuf p ! i) = Inr (C' ! i)) \<and>
    (mset (bg_messages p) = mset (bg_shuffledMessages p) \<or>
     bg_challengeX p \<in> bad_points sd sc (bg_messages p) (bg_shuffledMessages p) (bg_challengeY p) \<and>
     finite (bad_points sd sc (bg_messages p) (bg_shuffledMessages p) (bg_challengeY p)) \<and>
     card (bad_points sd sc (bg_messages p) (bg_shuffledMessages p) (bg_challengeY p)) \<le> length C)"
proof (intro conjI)
  note t = shuffleVerifyBg_True [OF ok]
  have len: "length C' = length C" "length (bg_messages p) = length C" "length (bg_shuffledMessages p) = length C"
    "length (bg_openingsOrig p) = length C" "length (bg_openingsShuf p) = length C"
    using t(1) by (simp_all add: sizes_differ_def)
  show "length C' = length C" by (rule len(1))
  show "\<forall>i<length C. pedersenCommit sd (bg_messages p ! i) (bg_openingsOrig p ! i) = Inr (C ! i) \<and>
       pedersenCommit sd (bg_shuffledMessages p ! i) (bg_openingsShuf p ! i) = Inr (C' ! i)"
  proof (intro allI impI)
    fix i assume i: "i < length C"
    have "(bg_messages p ! i, bg_openingsOrig p ! i, C ! i, bg_shuffledMessages p ! i, bg_openingsShuf p ! i, C' ! i) \<in>
        set (zip (bg_messages p) (zip (bg_openingsOrig p) (zip C (zip (bg_shuffledMessages p) (zip (bg_openingsShuf p) C')))))"
      unfolding in_set_zip using i len by (intro exI [of _ i]) simp
    then show "pedersenCommit sd (bg_messages p ! i) (bg_openingsOrig p ! i) = Inr (C ! i) \<and>
       pedersenCommit sd (bg_shuffledMessages p ! i) (bg_openingsShuf p ! i) = Inr (C' ! i)"
      using t(4) unfolding openings_bind_True by auto
  qed
  obtain us where us: "bg_messages p = map sc us" by (rule reduced_ints [OF red(1)])
  obtain vs where vs: "bg_shuffledMessages p = map sc vs" by (rule reduced_ints [OF red(2)])
  obtain y where y: "bg_challengeY p = sc y"
    using t(2) hashToScalar_sc [OF G] unfolding fsChallengeY_bg_def bindE_eq_Inr by (metis Inr_inject)
  have "bg_challengeX p \<in> range sc"
    using t(3) hashToScalar_sc [OF G] unfolding fsChallengeX_bg_def bindE_eq_Inr by (metis Inr_inject rangeI)
  then have x: "bg_challengeX p \<in> bad_points sd sc (bg_messages p) (bg_shuffledMessages p) (bg_challengeY p)"
    using t(5) by (simp add: bad_points_def)
  show "mset (bg_messages p) = mset (bg_shuffledMessages p) \<or>
     bg_challengeX p \<in> bad_points sd sc (bg_messages p) (bg_shuffledMessages p) (bg_challengeY p) \<and>
     finite (bad_points sd sc (bg_messages p) (bg_shuffledMessages p) (bg_challengeY p)) \<and>
     card (bad_points sd sc (bg_messages p) (bg_shuffledMessages p) (bg_challengeY p)) \<le> length C"
    using x card_bad_points [OF G, of us vs y] len by (auto simp: us vs y)
qed


theorem shuffleVerifyBg_complete_witness:
  "bindE (shuffleProveBg toy_sodium (map enc13 [2, 3]) (map enc13 [1, 1]) (map enc13 [1, 2]) [1, 0]
      (map enc13 [6, 7]) (map enc13 [7, 10]))
    (\<lambda>p. shuffleVerifyBg toy_sodium p (map enc13 [6, 7]) (map enc13 [7, 10])) = Inr True"
proof (rule shuffleVerifyBg_complete [OF toy_laws])
  show "reduced enc13 (map enc13 [2, 3])" by (auto simp: reduced_def)
  show "is_shuffle (length (map enc13 [2, 3])) [1, 0]" by (simp add: is_shuffle_def)
  show "pedersenCommitVector toy_sodium (map enc13 [2, 3]) (map enc13 [1, 1]) = Inr (map enc13 [6, 7])" by code_simp
  show "pedersenCommitVector toy_sodium (map (\<lambda>j. map enc13 [2, 3] ! nat j) [1, 0]) (map enc13 [1, 2]) = Inr (map enc13 [7, 10])"
    by code_simp
qed simp

definition toy_bg_proof :: ShuffleProofBg where
  "toy_bg_proof = \<lparr>bg_challengeY = enc13 4, bg_challengeX = enc13 8, bg_messages = map enc13 [2, 3],
     bg_shuffledMessages = map enc13 [3, 2], bg_openingsOrig = map enc13 [1, 1], bg_openingsShuf = map enc13 [1, 2]\<rparr>"

theorem shuffleVerifyBg_sound_witness:
  "length (map enc13 [7, 10]) = length (map enc13 [6, 7]) \<and>
   pedersenCommit toy_sodium (bg_shuffledMessages toy_bg_proof ! 0) (bg_openingsShuf toy_bg_proof ! 0) = Inr (map enc13 [7, 10] ! 0)"
proof -
  have ok: "shuffleVerifyBg toy_sodium toy_bg_proof (map enc13 [6, 7]) (map enc13 [7, 10]) = Inr True" by code_simp
  have "reduced enc13 (bg_messages toy_bg_proof)" "reduced enc13 (bg_shuffledMessages toy_bg_proof)"
    by (auto simp: reduced_def toy_bg_proof_def)
  from shuffleVerifyBg_sound [OF toy_laws ok this] show ?thesis by (elim conjE allE [of _ 0]) simp
qed

subsection \<open>The audit variant\<close>

record ShuffleProofAudit =
  au_challengeY :: R255Scalar
  au_challengeZ :: R255Scalar
  shiftedOrig :: "R255Scalar list"
  shiftedShuf :: "R255Scalar list"
  weightedOpeningOrig :: R255Scalar
  weightedOpeningShuf :: R255Scalar

fun decimal :: "nat \<Rightarrow> string" where
  "decimal n = (if n < 10 then [char_of (48 + n)] else decimal (n div 10) @ [char_of (48 + n mod 10)])"

declare decimal.simps [simp del]

definition pedersenVectorGenerator :: "'r sodium \<Rightarrow> nat \<Rightarrow> R255Point result" where
  "pedersenVectorGenerator sd i = hashToPoint sd (str_bytes (''mpstar.pedersen.vector.G.'' @ decimal i))"

definition pedersenVectorCommit :: "'r sodium \<Rightarrow> R255Scalar list \<Rightarrow> R255Scalar \<Rightarrow> R255Point result" where
  "pedersenVectorCommit sd messages opening =
     bindE (foldE (\<lambda>i acc. bindE (bindE (pedersenVectorGenerator sd i) (\<lambda>g. bindE (vec_at messages i) (\<lambda>m. scalarMult sd m g)))
       (pointAdd sd acc)) [0..<length messages] point_identity) (\<lambda>c.
     bindE (pedersenH sd) (\<lambda>h. bindE (scalarMult sd opening h) (pointAdd sd c)))"

definition pedersenVectorVerify :: "'r sodium \<Rightarrow> R255Point \<Rightarrow> R255Scalar list \<Rightarrow> R255Scalar \<Rightarrow> bool result" where
  "pedersenVectorVerify sd commit messages opening =
     bindE (pedersenVectorCommit sd messages opening) (\<lambda>expected. Inr (commit = expected))"

definition pedersenVectorAdd :: "'r sodium \<Rightarrow> R255Point \<Rightarrow> R255Point \<Rightarrow> R255Point result" where
  "pedersenVectorAdd sd a b = pointAdd sd a b"

definition fsChallengeY_audit ::
  "'r sodium \<Rightarrow> PedersenCommitment list \<Rightarrow> PedersenCommitment list \<Rightarrow> R255Scalar result" where
  "fsChallengeY_audit sd C C' = hashToScalar sd (buildFsTranscript ''mpstar.shuffleAudit.v1'' C C')"

definition fsChallengeZ_audit ::
  "'r sodium \<Rightarrow> PedersenCommitment list \<Rightarrow> PedersenCommitment list \<Rightarrow> R255Scalar \<Rightarrow> R255Scalar result" where
  "fsChallengeZ_audit sd C C' y = hashToScalar sd (buildFsTranscript ''mpstar.shuffleAudit.v1'' C C' @ [0x7A] @ y)"

definition shuffleProveAudit ::
  "'r sodium \<Rightarrow> R255Scalar list \<Rightarrow> R255Scalar list \<Rightarrow> R255Scalar list \<Rightarrow> int list \<Rightarrow>
     PedersenCommitment list \<Rightarrow> PedersenCommitment list \<Rightarrow> ShuffleProofAudit result" where
  "shuffleProveAudit sd messages openingsOrig openingsShuf permutation C C' =
     (let n = length messages in
      throw_if (sizes_differ n openingsOrig openingsShuf permutation C C') (RuntimeError ''shuffleProveAudit: input size mismatch'')
      (bindE (fsChallengeY_audit sd C C') (\<lambda>y. bindE (fsChallengeZ_audit sd C C' y) (\<lambda>z.
       bindE (mapE (\<lambda>(m, j). bindE (scalarAdd sd m y) (\<lambda>a. bindE (int_at messages j) (\<lambda>m'. bindE (scalarAdd sd m' y) (\<lambda>b.
         Inr (a, b))))) (zip messages permutation)) (\<lambda>shifted.
       bindE (powersOf sd z n) (\<lambda>z_pow.
       bindE (scalarDot_audit sd z_pow openingsOrig) (\<lambda>w. bindE (scalarDot_audit sd z_pow openingsShuf) (\<lambda>w'.
       Inr \<lparr>au_challengeY = y, au_challengeZ = z, shiftedOrig = map fst shifted, shiftedShuf = map snd shifted,
         weightedOpeningOrig = w, weightedOpeningShuf = w'\<rparr>))))))))"

definition verifySide ::
  "'r sodium \<Rightarrow> R255Scalar \<Rightarrow> R255Scalar list \<Rightarrow> PedersenCommitment list \<Rightarrow> R255Scalar list \<Rightarrow> R255Scalar \<Rightarrow> bool result" where
  "verifySide sd y z_pow C shifted weightedOpen =
     (let n = length C in
      bindE (foldE (\<lambda>i acc. bindE (bindE (vec_at z_pow i) (\<lambda>z. bindE (vec_at C i) (scalarMult sd z))) (pointAdd sd acc))
        [0..<n] point_identity) (\<lambda>weightedC.
      bindE (foldE (\<lambda>i acc. bindE (vec_at z_pow i) (scalarAdd sd acc)) [0..<n] scalar_zero) (\<lambda>sumZ.
      bindE (foldE (\<lambda>i acc. bindE (bindE (vec_at z_pow i) (\<lambda>z. bindE (vec_at shifted i) (scalarMul sd z))) (scalarAdd sd acc))
        [0..<n] scalar_zero) (\<lambda>sumZShifted.
      bindE (scalarMul sd y sumZ) (\<lambda>ySum. bindE (scalarSub sd sumZShifted ySum) (\<lambda>expectedMsg.
      bindE (scalarMultBase sd expectedMsg) (\<lambda>gm. bindE (pedersenH sd) (\<lambda>h. bindE (scalarMult sd weightedOpen h) (\<lambda>hr.
      bindE (pointAdd sd gm hr) (\<lambda>expected. Inr (weightedC = expected)))))))))))"

definition shuffleVerifyAudit ::
  "'r sodium \<Rightarrow> ShuffleProofAudit \<Rightarrow> PedersenCommitment list \<Rightarrow> PedersenCommitment list \<Rightarrow> bool result" where
  "shuffleVerifyAudit sd proof C C' =
     (let n = length C in
      if length C' \<noteq> n then Inr False else
      if length (shiftedOrig proof) \<noteq> n \<or> length (shiftedShuf proof) \<noteq> n then Inr False else
      bindE (fsChallengeY_audit sd C C') (\<lambda>y. if y \<noteq> au_challengeY proof then Inr False else
      bindE (fsChallengeZ_audit sd C C' y) (\<lambda>z. if z \<noteq> au_challengeZ proof then Inr False else
      if sort (shiftedOrig proof) \<noteq> sort (shiftedShuf proof) then Inr False else
      bindE (powersOf sd z n) (\<lambda>z_pow.
      bindE (verifySide sd y z_pow C (shiftedOrig proof) (weightedOpeningOrig proof)) (\<lambda>ok.
      if \<not> ok then Inr False else
      verifySide sd y z_pow C' (shiftedShuf proof) (weightedOpeningShuf proof))))))"


subsection \<open>Sums weighted with powers\<close>

definition powers :: "int \<Rightarrow> nat \<Rightarrow> int list" where "powers z n = map (\<lambda>i. z ^ i) [0..<n]"

definition wsum :: "int \<Rightarrow> int list \<Rightarrow> int" where "wsum z vs = (\<Sum>i<length vs. z ^ i * vs ! i)"

lemma length_powers [simp]: "length (powers z n) = n"
  by (simp add: powers_def)

lemma powersOf_eq:
  assumes G: "ristretto_laws sd L sc el"
  shows "powersOf sd (sc z) n = Inr (map sc (powers z n))"
proof -
  have "powers_from sd (sc z) n (sc p) = Inr (map (\<lambda>i. sc (p * z ^ i)) [0..<n])" for p
  proof (induction n arbitrary: p)
    case (Suc n)
    have "[0..<Suc n] = 0 # map Suc [0..<n]" by (simp add: upt_conv_Cons map_Suc_upt del: upt_Suc)
    then show ?case using Suc [of "p * z"] by (simp add: laws_scalar_ops [OF G] comp_def mult.assoc del: upt_Suc)
  qed simp
  from this [of 1] show ?thesis by (simp add: powersOf_def laws_consts(2) [OF G] powers_def comp_def)
qed

lemma sum_list_upt: "sum_list (map f [0..<n]) = (\<Sum>i<n. f i :: int)"
  by (simp add: interv_sum_list_conv_sum_set_nat atLeast0LessThan)

lemma scalarDot_audit_eq:
  assumes G: "ristretto_laws sd L sc el" and "length as = n" "length bs = n"
  shows "scalarDot_audit sd (map sc as) (map sc bs) = Inr (sc (\<Sum>i<n. as ! i * bs ! i))"
proof -
  have "foldE (\<lambda>i acc. bindE (bindE (vec_at (map sc as) i) (\<lambda>x. bindE (vec_at (map sc bs) i) (scalarMul sd x))) (scalarAdd sd acc))
      [0..<n] (sc 0) = Inr (sc (0 + sum_list (map (\<lambda>i. as ! i * bs ! i) [0..<n])))"
    by (rule sum_fold [OF G]) (use assms(2,3) in \<open>simp add: laws_scalar_ops [OF G]\<close>)
  then show ?thesis using assms(2) by (simp add: scalarDot_audit_def laws_consts(1) [OF G] sum_list_upt)
qed

lemma scalarDot_powers:
  assumes G: "ristretto_laws sd L sc el" and "length vs = n"
  shows "scalarDot_audit sd (map sc (powers z n)) (map sc vs) = Inr (sc (wsum z vs))"
proof -
  have "(\<Sum>i<n. powers z n ! i * vs ! i) = wsum z vs"
    unfolding wsum_def assms(2) by (rule sum.cong) (simp_all add: powers_def)
  then show ?thesis using scalarDot_audit_eq [OF G _ assms(2), of "powers z n"] by simp
qed

lemma point_fold_Inr:
  assumes G: "ristretto_laws sd L sc el" and f: "\<And>x q. x \<in> set xs \<Longrightarrow> f x = Inr q \<Longrightarrow> q = el (v x)"
  shows "foldE (\<lambda>x acc. bindE (f x) (pointAdd sd acc)) xs (el a) = Inr r \<Longrightarrow> r = el (a + sum_list (map v xs))"
  using f
proof (induction xs arbitrary: a)
  case (Cons x xs)
  obtain q where q: "f x = Inr q" using Cons.prems(1) by (cases "f x") simp_all
  have "q = el (v x)" by (rule Cons.prems(2) [OF _ q]) simp
  then have "foldE (\<lambda>x acc. bindE (f x) (pointAdd sd acc)) xs (el (a + v x)) = Inr r"
    using Cons.prems(1) q by (simp add: laws_point_ops [OF G])
  then have "r = el (a + v x + sum_list (map v xs))" by (rule Cons.IH) (rule Cons.prems(2), simp_all)
  then show ?case by (simp add: add.assoc)
qed simp

text \<open>A side that returns is accepted exactly when the weighted commitments open to the weighted messages.\<close>

lemma verifySide_Inr:
  assumes G: "ristretto_laws sd L sc el" and H: "pedersenH sd = Inr (el h)" and len: "length ss = length cs"
    and ok: "verifySide sd (sc y) (map sc (powers z (length cs))) (map el cs) (map sc ss) (sc w) = Inr b"
  shows "b \<longleftrightarrow> wsum z cs mod L = (wsum z ss - y * (\<Sum>i<length cs. z ^ i) + w * h) mod L"
proof -
  define n where "n = length cs"
  obtain q where q: "foldE (\<lambda>i acc. bindE (bindE (vec_at (map sc (powers z n)) i) (\<lambda>z. bindE (vec_at (map el cs) i) (scalarMult sd z)))
      (pointAdd sd acc)) [0..<n] (el 0) = Inr q"
    using ok unfolding verifySide_def Let_def length_map n_def [symmetric] laws_consts(3) [OF G]
    by (subst (asm) bindE_eq_Inr) blast
  have "q = el (0 + sum_list (map (\<lambda>i. z ^ i * cs ! i) [0..<n]))"
    by (rule point_fold_Inr [OF G _ q]) (auto simp: n_def powers_def laws_scalarMult [OF G] split: if_splits)
  then have qv: "q = el (wsum z cs)" by (simp add: sum_list_upt wsum_def n_def)
  have s1: "foldE (\<lambda>i acc. bindE (vec_at (map sc (powers z n)) i) (scalarAdd sd acc)) [0..<n] (sc 0) = Inr (sc (\<Sum>i<n. z ^ i))"
    using sum_fold [OF G, of "[0..<n]" "vec_at (map sc (powers z n))" "\<lambda>i. z ^ i" 0] by (simp add: powers_def sum_list_upt)
  have s2: "foldE (\<lambda>i acc. bindE (bindE (vec_at (map sc (powers z n)) i) (\<lambda>x. bindE (vec_at (map sc ss) i) (scalarMul sd x))) (scalarAdd sd acc))
      [0..<n] (sc 0) = Inr (sc (wsum z ss))"
    using scalarDot_powers [OF G, of ss n z] len by (simp add: scalarDot_audit_def n_def laws_consts(1) [OF G])
  show ?thesis
    using ok unfolding verifySide_def Let_def length_map n_def [symmetric] laws_consts(1,3) [OF G] q s1 s2 bindE_simps
    by (simp add: group_rules(4-) [OF G] H qv laws_el [OF G] n_def split: if_splits)
qed


lemma wsum_commitments:
  assumes "length rs = length ms"
  shows "wsum z (map2 (\<lambda>m r. m + r * h) ms rs) = wsum z ms + wsum z rs * h"
  using assms by (simp add: wsum_def sum.distrib sum_distrib_right distrib_left mult.assoc)

lemma wsum_shifted: "wsum z (map (\<lambda>m. m + y) ms) = wsum z ms + y * (\<Sum>i<length ms. z ^ i)"
  by (simp add: wsum_def sum.distrib sum_distrib_left distrib_left mult.commute)

lemma commit_values:
  assumes G: "ristretto_laws sd L sc el" and H: "pedersenH sd = Inr (el h)"
    and C: "pedersenCommitVector sd (map sc ms) (map sc rs) = Inr C"
  shows "length rs = length ms" "C = map el (map2 (\<lambda>m r. m + r * h) ms rs)"
proof -
  note c = pedersenCommitVector_Inr [OF C]
  show len: "length rs = length ms" using c by simp
  show "C = map el (map2 (\<lambda>m r. m + r * h) ms rs)"
    by (rule nth_equalityI) (use c len in \<open>auto simp: pedersenCommit_Inr [OF G H]\<close>)
qed

lemma audit_challenges:
  assumes G: "ristretto_laws sd L sc el"
  obtains y z where "fsChallengeY_audit sd C C' = Inr (sc y)" "fsChallengeZ_audit sd C C' (sc y) = Inr (sc z)"
proof -
  obtain y where y: "hashToScalar sd (buildFsTranscript ''mpstar.shuffleAudit.v1'' C C') = Inr (sc y)" by (rule hashToScalar_sc [OF G])
  obtain z where "hashToScalar sd (buildFsTranscript ''mpstar.shuffleAudit.v1'' C C' @ [0x7A] @ sc y) = Inr (sc z)"
    by (rule hashToScalar_sc [OF G])
  with y that show thesis by (simp add: fsChallengeY_audit_def fsChallengeZ_audit_def)
qed

text \<open>What verification of the audit variant decides, when it returns.\<close>

lemma audit_accepts:
  assumes G: "ristretto_laws sd L sc el" and H: "pedersenH sd = Inr (el h)"
    and yz: "fsChallengeY_audit sd (map el cs) (map el cs') = Inr (sc y)"
      "fsChallengeZ_audit sd (map el cs) (map el cs') (sc y) = Inr (sc z)"
    and len: "length cs' = length cs" "length ss = length cs" "length ss' = length cs"
    and ms: "mset (map sc ss) = mset (map sc ss')"
    and eq: "wsum z cs mod L = (wsum z ss - y * (\<Sum>i<length cs. z ^ i) + w * h) mod L"
    and eq': "wsum z cs' mod L = (wsum z ss' - y * (\<Sum>i<length cs. z ^ i) + w' * h) mod L"
    and ok: "shuffleVerifyAudit sd \<lparr>au_challengeY = sc y, au_challengeZ = sc z, shiftedOrig = map sc ss,
      shiftedShuf = map sc ss', weightedOpeningOrig = sc w, weightedOpeningShuf = sc w'\<rparr> (map el cs) (map el cs') = Inr b"
  shows b
proof -
  define n where "n = length cs"
  have sort: "sort (map sc ss) = sort (map sc ss')" using ms by (metis properties_for_sort sorted_sort mset_sort)
  obtain b1 where b1: "verifySide sd (sc y) (map sc (powers z n)) (map el cs) (map sc ss) (sc w) = Inr b1"
    and b2: "if b1 then verifySide sd (sc y) (map sc (powers z n)) (map el cs') (map sc ss') (sc w') = Inr b else b = False"
  proof -
    have "bindE (verifySide sd (sc y) (map sc (powers z n)) (map el cs) (map sc ss) (sc w)) (\<lambda>ok.
        if \<not> ok then Inr False else verifySide sd (sc y) (map sc (powers z n)) (map el cs') (map sc ss') (sc w')) = Inr b"
      using ok len by (simp add: shuffleVerifyAudit_def Let_def yz sort powersOf_eq [OF G] n_def cong: if_cong)
    then show thesis
      using that by (cases "verifySide sd (sc y) (map sc (powers z n)) (map el cs) (map sc ss) (sc w)") (auto split: if_splits)
  qed
  have "b1" using verifySide_Inr [OF G H len(2) b1 [unfolded n_def]] eq by blast
  moreover from this b2 len have "verifySide sd (sc y) (map sc (powers z (length cs'))) (map el cs') (map sc ss') (sc w') = Inr b"
    by (simp add: n_def)
  from verifySide_Inr [OF G H _ this] len eq' have b by simp
  ultimately show b by blast
qed

text \<open>The audit proof of a real shuffle is not rejected: whenever proving and verifying return,
  verification says yes.\<close>

theorem shuffleVerifyAudit_complete:
  assumes G: "ristretto_laws sd L sc el" and H: "pedersenH sd = Inr (el h)" and perm: "is_shuffle (length ms) perm"
    and C: "pedersenCommitVector sd (map sc ms) (map sc rs) = Inr C"
    and C': "pedersenCommitVector sd (map sc (map (\<lambda>j. ms ! nat j) perm)) (map sc rs') = Inr C'"
    and ok: "bindE (shuffleProveAudit sd (map sc ms) (map sc rs) (map sc rs') perm C C') (\<lambda>p. shuffleVerifyAudit sd p C C') = Inr b"
  shows b
proof -
  define ms' where "ms' = map (\<lambda>j. ms ! nat j) perm"
  note v = commit_values [OF G H C] commit_values [OF G H C' [folded ms'_def]]
  have lm: "length ms' = length ms" "length perm = length ms" using is_shuffleD(1) [OF perm] by (simp_all add: ms'_def)
  obtain y z where yz: "fsChallengeY_audit sd C C' = Inr (sc y)" "fsChallengeZ_audit sd C C' (sc y) = Inr (sc z)"
    by (rule audit_challenges [OF G])
  let ?n = "length ms"
  have shifted: "mapE (\<lambda>(m, j). bindE (scalarAdd sd m (sc y)) (\<lambda>a. bindE (int_at (map sc ms) j) (\<lambda>m'. bindE (scalarAdd sd m' (sc y)) (\<lambda>b.
      Inr (a, b))))) (zip (map sc ms) perm) = Inr (zip (map sc (map (\<lambda>m. m + y) ms)) (map sc (map (\<lambda>m. m + y) ms')))"
  proof -
    have "mapE (\<lambda>(m, j). bindE (scalarAdd sd m (sc y)) (\<lambda>a. bindE (int_at (map sc ms) j) (\<lambda>m'. bindE (scalarAdd sd m' (sc y)) (\<lambda>b.
        Inr (a, b))))) (zip (map sc us) js) = Inr (zip (map sc (map (\<lambda>m. m + y) us)) (map (\<lambda>j. sc (ms ! nat j + y)) js))"
      if "length js = length us" "\<forall>j\<in>set js. 0 \<le> j \<and> j < int ?n" for us js
      using that by (induction js us rule: list_induct2) (simp_all add: int_at_def laws_scalar_ops [OF G] nat_less_iff)
    from this [of perm ms] is_shuffleD [OF perm] show ?thesis by (simp add: ms'_def comp_def)
  qed
  have p: "shuffleProveAudit sd (map sc ms) (map sc rs) (map sc rs') perm C C' =
      Inr \<lparr>au_challengeY = sc y, au_challengeZ = sc z, shiftedOrig = map sc (map (\<lambda>m. m + y) ms),
        shiftedShuf = map sc (map (\<lambda>m. m + y) ms'), weightedOpeningOrig = sc (wsum z rs), weightedOpeningShuf = sc (wsum z rs')\<rparr>"
    unfolding shuffleProveAudit_def Let_def yz bindE_simps shifted length_map powersOf_eq [OF G]
    using v lm by (simp add: sizes_differ_def scalarDot_powers [OF G])
  have mm: "mset (map sc (map (\<lambda>m. m + y) ms)) = mset (map sc (map (\<lambda>m. m + y) ms'))"
    using shuffle_mset [OF perm] by (simp add: ms'_def [symmetric])
  show b
    by (rule audit_accepts [OF G H yz [unfolded v(2,4)] _ _ _ mm _ _ ok [unfolded p bindE_simps, unfolded v(2,4)]])
      (use v(1,3) lm in \<open>simp_all add: wsum_commitments wsum_shifted\<close>)
qed


subsection \<open>Forging an audit proof\<close>

text \<open>
  The challenge \<open>z\<close> does not depend on the shifted messages, which the prover chooses after it: two
  numbers \<open>s0\<close>, \<open>s1\<close> with \<open>s0 + z s1 = A\<close> and \<open>s1 + z s0 = B\<close> pass as the shifted messages of both
  sides, whatever was committed.
\<close>

definition weighted_shift :: "'r sodium \<Rightarrow> R255Scalar list \<Rightarrow> R255Scalar \<Rightarrow> R255Scalar list \<Rightarrow> R255Scalar result" where
  "weighted_shift sd pw y ms = bindE (mapE (\<lambda>m. scalarAdd sd m y) ms) (scalarDot_audit sd pw)"

definition solve_first :: "'r sodium \<Rightarrow> R255Scalar \<Rightarrow> R255Scalar \<Rightarrow> R255Scalar \<Rightarrow> R255Scalar \<Rightarrow> R255Scalar result" where
  "solve_first sd i z A B = bindE (scalarMul sd z B) (\<lambda>zB. bindE (scalarSub sd A zB) (\<lambda>t. scalarMul sd t i))"

definition forge_audit ::
  "'r sodium \<Rightarrow> R255Scalar list \<Rightarrow> R255Scalar list \<Rightarrow> R255Scalar list \<Rightarrow> R255Scalar list \<Rightarrow>
     PedersenCommitment list \<Rightarrow> PedersenCommitment list \<Rightarrow> ShuffleProofAudit result" where
  "forge_audit sd ms rs ms' rs' C C' =
     bindE (fsChallengeY_audit sd C C') (\<lambda>y. bindE (fsChallengeZ_audit sd C C' y) (\<lambda>z.
     bindE (powersOf sd z 2) (\<lambda>pw.
     bindE (scalarDot_audit sd pw rs) (\<lambda>w. bindE (scalarDot_audit sd pw rs') (\<lambda>w'.
     bindE (weighted_shift sd pw y ms) (\<lambda>A. bindE (weighted_shift sd pw y ms') (\<lambda>B.
     bindE (scalarMul sd z z) (\<lambda>zz. bindE (scalarSub sd scalar_one zz) (\<lambda>d. bindE (scalarInvert sd d) (\<lambda>i.
     bindE (solve_first sd i z A B) (\<lambda>s0. bindE (solve_first sd i z B A) (\<lambda>s1.
     Inr \<lparr>au_challengeY = y, au_challengeZ = z, shiftedOrig = [s0, s1], shiftedShuf = [s1, s0],
       weightedOpeningOrig = w, weightedOpeningShuf = w'\<rparr>))))))))))))"

lemma weighted_shift_eq:
  assumes G: "ristretto_laws sd L sc el" and "length ms = n"
  shows "weighted_shift sd (map sc (powers z n)) (sc y) (map sc ms) = Inr (sc (wsum z ms + y * (\<Sum>i<n. z ^ i)))"
proof -
  have "mapE (\<lambda>m. scalarAdd sd m (sc y)) (map sc ms) = Inr (map sc (map (\<lambda>m. m + y) ms))"
    by (induction ms) (simp_all add: laws_scalar_ops [OF G])
  then show ?thesis
    using scalarDot_powers [OF G, of "map (\<lambda>m. m + y) ms" n z] wsum_shifted [of z y ms] assms(2)
    by (simp add: weighted_shift_def)
qed

lemma wsum_two: "wsum z [a, b] = a + z * b"
  by (simp add: wsum_def numeral_2_eq_2 lessThan_Suc)

lemma solve_mod:
  fixes L :: int
  assumes "(1 - z * z) * i mod L = 1" "1 < L"
  shows "((A - z * B) * i + z * ((B - z * A) * i)) mod L = A mod L"
proof -
  have "(A - z * B) * i + z * ((B - z * A) * i) - A = A * ((1 - z * z) * i - 1)" by (simp add: algebra_simps)
  moreover have "L dvd (1 - z * z) * i - 1"
  proof -
    have "(1 - z * z) * i mod L = 1 mod L" using assms by simp
    then show ?thesis by (simp only: mod_eq_dvd_iff)
  qed
  ultimately have "L dvd (A - z * B) * i + z * ((B - z * A) * i) - A" by simp
  then show ?thesis by (simp only: mod_eq_dvd_iff)
qed

text \<open>C33: The audit variant is not sound. For any two commitments on each side, to any messages whatever,
  a prover that knows the openings computes a proof which verification, when it returns, accepts.\<close>

theorem shuffleVerifyAudit_forgeable:
  assumes G: "ristretto_laws sd L sc el" and H: "pedersenH sd = Inr (el h)" and two: "length ms = 2" "length ms' = 2"
    and C: "pedersenCommitVector sd (map sc ms) (map sc rs) = Inr C" and C': "pedersenCommitVector sd (map sc ms') (map sc rs') = Inr C'"
    and forged: "forge_audit sd (map sc ms) (map sc rs) (map sc ms') (map sc rs') C C' = Inr p"
    and ok: "shuffleVerifyAudit sd p C C' = Inr b"
  shows b
proof -
  note v = commit_values [OF G H C] commit_values [OF G H C']
  obtain y z where yz: "fsChallengeY_audit sd C C' = Inr (sc y)" "fsChallengeZ_audit sd C C' (sc y) = Inr (sc z)"
    by (rule audit_challenges [OF G])
  define S where "S = (\<Sum>i<2::nat. z ^ i)"
  define A B where "A = wsum z ms + y * S" and "B = wsum z ms' + y * S"
  have nz: "(1 - z * z) mod L \<noteq> 0"
  proof
    assume "(1 - z * z) mod L = 0"
    then have "sc (1 - z * z) = sc 0" by (simp add: laws_sc [OF G])
    then have "scalarInvert sd (sc (1 - z * z)) = Inl (RuntimeError ''scalarInvert: zero or non-invertible scalar'')"
      using sc_lawsD(9) [OF G] by (simp add: scalarInvert_def or_throw_def laws_init [OF G])
    then show False
      using forged two v(1,3) by (simp add: forge_audit_def yz powersOf_eq [OF G] scalarDot_powers [OF G] weighted_shift_eq [OF G]
        laws_scalar_ops [OF G] laws_consts(2) [OF G])
  qed
  obtain i where i: "scalarInvert sd (sc (1 - z * z)) = Inr (sc i)" "(1 - z * z) * i mod L = 1"
    by (rule laws_scalarInvert [OF G nz])
  define s0 s1 where "s0 = (A - z * B) * i" and "s1 = (B - z * A) * i"
  have p: "p = \<lparr>au_challengeY = sc y, au_challengeZ = sc z, shiftedOrig = map sc [s0, s1], shiftedShuf = map sc [s1, s0],
      weightedOpeningOrig = sc (wsum z rs), weightedOpeningShuf = sc (wsum z rs')\<rparr>"
    using forged two v(1,3) by (simp add: forge_audit_def yz powersOf_eq [OF G] scalarDot_powers [OF G] weighted_shift_eq [OF G]
        laws_scalar_ops [OF G] laws_consts(2) [OF G] i(1) solve_first_def s0_def s1_def A_def B_def S_def)
  have A: "wsum z [s0, s1] mod L = A mod L" and B: "wsum z [s1, s0] mod L = B mod L"
    unfolding wsum_two s0_def s1_def using solve_mod [OF i(2) laws_order [OF G]] by blast+
  have eq: "(wsum z us + u * h) mod L = (wsum z ss - y * S + u * h) mod L"
    if "wsum z ss mod L = (wsum z us + y * S) mod L" for us ss :: "int list" and u
  proof -
    have "wsum z us + u * h - (wsum z ss - y * S + u * h) = (wsum z us + y * S) - wsum z ss" by simp
    moreover have "L dvd (wsum z us + y * S) - wsum z ss" using that [symmetric] by (simp only: mod_eq_dvd_iff)
    ultimately show ?thesis by (simp only: mod_eq_dvd_iff)
  qed
  show b
    by (rule audit_accepts [OF G H yz [unfolded v(2,4)] _ _ _ _ _ _ ok [unfolded p, unfolded v(2,4)]])
      (use v(1,3) two eq [OF A [unfolded A_def]] eq [OF B [unfolded B_def]] in \<open>simp_all add: wsum_commitments S_def\<close>)
qed


theorem shuffleVerifyAudit_complete_witness:
  "bindE (shuffleProveAudit toy_sodium (map enc13 [1, 2]) (map enc13 [1, 3]) (map enc13 [2, 6]) [1, 0] (map enc13 [5, 1]) (map enc13 [10, 12]))
     (\<lambda>p. shuffleVerifyAudit toy_sodium p (map enc13 [5, 1]) (map enc13 [10, 12])) = Inr True"
  (is "?v = _")
proof -
  have "is_shuffle (length [1, 2 :: int]) [1, 0]" by (simp add: is_shuffle_def)
  moreover have "pedersenCommitVector toy_sodium (map enc13 [1, 2]) (map enc13 [1, 3]) = Inr (map enc13 [5, 1])" by code_simp
  moreover have "pedersenCommitVector toy_sodium (map enc13 (map (\<lambda>j. [1, 2] ! nat j) [1, 0])) (map enc13 [2, 6]) = Inr (map enc13 [10, 12])"
    by code_simp
  moreover have r: "?v = Inr (projr ?v)" by (rule Inr_projr) code_simp
  ultimately have "projr ?v" by (rule shuffleVerifyAudit_complete [OF toy_laws toy_pedersenH])
  then show ?thesis using r by simp
qed

theorem shuffleVerifyAudit_forgeable_witness:
  "mset (map enc13 [1, 2]) \<noteq> mset (map enc13 [3, 6]) \<and>
   bindE (forge_audit toy_sodium (map enc13 [1, 2]) (map enc13 [1, 3]) (map enc13 [3, 6]) (map enc13 [1, 1]) (map enc13 [5, 1]) (map enc13 [7, 10]))
     (\<lambda>p. shuffleVerifyAudit toy_sodium p (map enc13 [5, 1]) (map enc13 [7, 10])) = Inr True"
proof -
  let ?p = "\<lparr>au_challengeY = enc13 4, au_challengeZ = enc13 8, shiftedOrig = map enc13 [10, 7], shiftedShuf = map enc13 [7, 10],
    weightedOpeningOrig = enc13 12, weightedOpeningShuf = enc13 9\<rparr>"
  let ?v = "shuffleVerifyAudit toy_sodium ?p (map enc13 [5, 1]) (map enc13 [7, 10])"
  have C: "pedersenCommitVector toy_sodium (map enc13 [1, 2]) (map enc13 [1, 3]) = Inr (map enc13 [5, 1])"
    "pedersenCommitVector toy_sodium (map enc13 [3, 6]) (map enc13 [1, 1]) = Inr (map enc13 [7, 10])" by code_simp+
  have f: "forge_audit toy_sodium (map enc13 [1, 2]) (map enc13 [1, 3]) (map enc13 [3, 6]) (map enc13 [1, 1])
      (map enc13 [5, 1]) (map enc13 [7, 10]) = Inr ?p" by code_simp
  have r: "?v = Inr (projr ?v)" by (rule Inr_projr) code_simp
  have "projr ?v" by (rule shuffleVerifyAudit_forgeable [OF toy_laws toy_pedersenH _ _ C f r]) simp_all
  then have "?v = Inr True" using r by simp
  moreover have "mset (map enc13 [1, 2]) \<noteq> mset (map enc13 [3, 6])" by code_simp
  ultimately show ?thesis by (simp only: f bindE_simps simp_thms)
qed

subsection \<open>The linear prototype does not look at the shuffled side\<close>

text \<open>Verification accepts whatever the shuffled commitments commit to (the code says so in a comment).\<close>

theorem shuffleVerify_ignores_shuffled:
  assumes G: "ristretto_laws sd L sc el" and H: "pedersenH sd = Inr (el h)"
    and C: "pedersenCommitVector sd (map sc ms) (map sc rs) = Inr C"
    and p: "shuffleProve sd (map sc ms) (map sc rs) rs' perm C C' = Inr p"
    and ok: "shuffleVerify sd p C C' = Inr b"
  shows b
proof -
  define n cs where "n = length ms" and "cs = map2 (\<lambda>m r. m + r * h) ms rs"
  note v = commit_values [OF G H C]
  have Cv: "C = map el cs" and len: "length cs = n" "length rs = n" using v by (simp_all add: cs_def n_def)
  obtain x where x: "shuffleChallenge sd C C' = Inr (sc x)" using hashToScalar_sc [OF G] unfolding shuffleChallenge_def by metis
  have sz: "\<not> sizes_differ n (map sc rs) rs' perm C C'"
    using p unfolding shuffleProve_def Let_def by (simp add: throw_if_def n_def split: if_splits)
  have dots: "scalarDot sd (map sc (powers x n)) (map sc ms) = Inr (sc (wsum x ms))"
    "scalarDot sd (map sc (powers x n)) (map sc rs) = Inr (sc (wsum x rs))"
    using scalarDot_powers [OF G, of ms n x] scalarDot_powers [OF G, of rs n x] len by (simp_all add: scalarDot_def n_def)
  have pv: "sp_challenge p = sc x" "combinedMessage p = sc (wsum x ms)" "combinedOpeningOrig p = sc (wsum x rs)"
    using p unfolding shuffleProve_def Let_def length_map n_def [symmetric] throw_if_eq_Inr x bindE_simps powersOf_eq [OF G] dots
    by (auto simp: bindE_eq_Inr)
  let ?fold = "foldE (\<lambda>i acc. bindE (bindE (vec_at (map sc (powers x n)) i) (\<lambda>x. bindE (vec_at (map el cs) i) (pedersenScalarMul sd x)))
    (pedersenAdd sd acc)) [0..<n] (el 0)"
  have V: "shuffleVerify sd p C C' = bindE ?fold (\<lambda>combinedOrig. bindE (pedersenCommit sd (sc (wsum x ms)) (sc (wsum x rs))) (\<lambda>expectedOrig.
      if combinedOrig \<noteq> expectedOrig then Inr False else
      bindE (foldE (\<lambda>(c, c') (a, a'). bindE (pedersenAdd sd a c) (\<lambda>b. bindE (pedersenAdd sd a' c') (\<lambda>b'. Inr (b, b'))))
        (zip C C') (point_identity, point_identity)) (\<lambda>_. Inr True)))"
    using sz len Cv by (simp add: shuffleVerify_def Let_def x [unfolded Cv] pv powersOf_eq [OF G] sizes_differ_def laws_consts(3) [OF G] cong: if_cong)
  obtain q where q: "?fold = Inr q" using ok unfolding V by (cases ?fold) simp_all
  have "q = el (0 + sum_list (map (\<lambda>i. x ^ i * cs ! i) [0..<n]))"
    by (rule point_fold_Inr [OF G _ q [unfolded pedersenAdd_def]])
      (use len in \<open>auto simp: powers_def pedersenScalarMul_def laws_scalarMult [OF G] split: if_splits\<close>)
  then have qv: "q = el (wsum x cs)" using len by (simp add: sum_list_upt wsum_def)
  obtain e where e: "pedersenCommit sd (sc (wsum x ms)) (sc (wsum x rs)) = Inr e"
    using ok unfolding V q by (cases "pedersenCommit sd (sc (wsum x ms)) (sc (wsum x rs))") simp_all
  then have "e = q" using wsum_commitments [of rs ms x h] v(1) by (simp add: pedersenCommit_Inr [OF G H] qv cs_def)
  then show b using ok unfolding V q e by (auto simp: bindE_eq_Inr)
qed


subsection \<open>The wire wrapper\<close>

record ShuffleTranscript =
  origC :: "PedersenCommitment list"
  shufC :: "PedersenCommitment list"
  st_proof :: ShuffleProofBg
  orig_messages :: "R255Scalar list"
  shuf_messages :: "R255Scalar list"
  st_permutation :: "int list"
  openings_orig :: "R255Scalar list"
  openings_shuf :: "R255Scalar list"

definition shuffleAndProve :: "'r sodium \<Rightarrow> 64 word list \<Rightarrow> int list \<Rightarrow> 'r \<Rightarrow> (ShuffleTranscript \<times> 'r) result" where
  "shuffleAndProve sd keys permutation rg =
     throw_if (length keys \<noteq> length permutation) (InvalidArgument ''shuffleAndProve: size mismatch'')
     (let n = length keys; ms = map scalar_fromU64 keys in
      bindE (mapE (int_at ms) permutation) (\<lambda>ms'.
      bindE (freshOpenings sd n rg) (\<lambda>(rs, rg1). bindE (freshOpenings sd n rg1) (\<lambda>(rs', rg2).
      bindE (pedersenCommitVector sd ms rs) (\<lambda>C. bindE (pedersenCommitVector sd ms' rs') (\<lambda>C'.
      bindE (shuffleProveBg sd ms rs rs' permutation C C') (\<lambda>p.
      Inr (\<lparr>origC = C, shufC = C', st_proof = p, orig_messages = ms, shuf_messages = ms', st_permutation = permutation,
        openings_orig = rs, openings_shuf = rs'\<rparr>, rg2))))))))"

definition verifyShuffleTranscript :: "'r sodium \<Rightarrow> ShuffleTranscript \<Rightarrow> bool result" where
  "verifyShuffleTranscript sd t = shuffleVerifyBg sd (st_proof t) (origC t) (shufC t)"

text \<open>The simulators of a deviating prover; erasing at a position that is not in the vector is undefined.\<close>

definition erase_at :: "int \<Rightarrow> 'a list \<Rightarrow> 'a list result" where
  "erase_at j xs = (if 0 \<le> j \<and> nat j < length xs then Inr (take (nat j) xs @ drop (Suc (nat j)) xs) else Inl OutOfBounds)"

definition maliciousSubstitute :: "'r sodium \<Rightarrow> ShuffleTranscript \<Rightarrow> int \<Rightarrow> 64 word \<Rightarrow> 'r \<Rightarrow> (ShuffleTranscript \<times> 'r) result" where
  "maliciousSubstitute sd t shuf_idx new_key rg =
     (if shuf_idx < 0 then Inl OutOfBounds else
      bindE (vec_set (shuf_messages t) (nat shuf_idx) (scalar_fromU64 new_key)) (\<lambda>ms'.
      bindE (R255Scalar_random sd rg) (\<lambda>(r, rg1). bindE (vec_set (openings_shuf t) (nat shuf_idx) r) (\<lambda>rs'.
      bindE (pedersenCommitVector sd ms' rs') (\<lambda>C'.
      bindE (shuffleProveBg sd (orig_messages t) (openings_orig t) rs' (st_permutation t) (origC t) C') (\<lambda>p.
      Inr (t\<lparr>shuf_messages := ms', openings_shuf := rs', shufC := C', st_proof := p\<rparr>, rg1)))))))"

definition maliciousDrop :: "ShuffleTranscript \<Rightarrow> int \<Rightarrow> ShuffleTranscript result" where
  "maliciousDrop t shuf_idx =
     bindE (erase_at shuf_idx (shuf_messages t)) (\<lambda>ms'. bindE (erase_at shuf_idx (openings_shuf t)) (\<lambda>rs'.
     bindE (erase_at shuf_idx (shufC t)) (\<lambda>C'. Inr (t\<lparr>shuf_messages := ms', openings_shuf := rs', shufC := C'\<rparr>))))"

definition maliciousInsert :: "'r sodium \<Rightarrow> ShuffleTranscript \<Rightarrow> 64 word \<Rightarrow> 'r \<Rightarrow> (ShuffleTranscript \<times> 'r) result" where
  "maliciousInsert sd t new_key rg =
     (let ms' = shuf_messages t @ [scalar_fromU64 new_key] in
      bindE (R255Scalar_random sd rg) (\<lambda>(r, rg1).
      let rs' = openings_shuf t @ [r] in
      bindE (pedersenCommitVector sd ms' rs') (\<lambda>C'.
      Inr (t\<lparr>shuf_messages := ms', openings_shuf := rs', shufC := C'\<rparr>, rg1))))"

text \<open>An honest transcript verifies; a dropped or inserted row is rejected by its size.\<close>

lemma shuffleAndProve_verifies:
  assumes G: "ristretto_laws sd L sc el" and keys: "reduced sc (map scalar_fromU64 keys)" "int (length keys) \<le> 0xFFFFFFFF"
    and perm: "is_shuffle (length keys) permutation" and t: "shuffleAndProve sd keys permutation rg = Inr (t, rg')"
  shows "verifyShuffleTranscript sd t = Inr True"
proof -
  define ms where "ms = map scalar_fromU64 keys"
  have perm': "is_shuffle (length ms) permutation" using perm by (simp add: ms_def)
  have "mapE (int_at ms) permutation = Inr (map (\<lambda>j. ms ! nat j) permutation)"
    by (rule mapE_Inr) (use is_shuffleD(2) [OF perm'] in \<open>auto simp: int_at_def nat_less_iff\<close>)
  with t obtain rs rs' C C' p where c: "pedersenCommitVector sd ms rs = Inr C"
    "pedersenCommitVector sd (map (\<lambda>j. ms ! nat j) permutation) rs' = Inr C'"
    and p: "shuffleProveBg sd ms rs rs' permutation C C' = Inr p" and tv: "origC t = C" "shufC t = C'" "st_proof t = p"
    unfolding shuffleAndProve_def Let_def ms_def [symmetric] throw_if_eq_Inr by (auto simp: bindE_eq_Inr)
  show ?thesis
    using bg_honest_accepted [OF G _ perm' c] keys p by (simp add: verifyShuffleTranscript_def tv ms_def)
qed

lemma maliciousDrop_rejected:
  assumes "maliciousDrop t j = Inr t'" "length (origC t) = length (shufC t)"
  shows "verifyShuffleTranscript sd t' = Inr False"
proof -
  have "length (shufC t') \<noteq> length (origC t')"
    using assms by (auto simp: maliciousDrop_def erase_at_def bindE_eq_Inr split: if_splits)
  then show ?thesis by (simp add: verifyShuffleTranscript_def shuffleVerifyBg_def sizes_differ_def Let_def)
qed

lemma maliciousInsert_rejected:
  assumes "maliciousInsert sd t k rg = Inr (t', rg')" "length (origC t) = length (shuf_messages t)"
  shows "verifyShuffleTranscript sd t' = Inr False"
proof -
  obtain r rg1 C' where "pedersenCommitVector sd (shuf_messages t @ [scalar_fromU64 k]) (openings_shuf t @ [r]) = Inr C'"
    and "shufC t' = C'" "origC t' = origC t"
    using assms(1) by (auto simp: maliciousInsert_def Let_def bindE_eq_Inr)
  then have "length (shufC t') \<noteq> length (origC t')" using assms(2) pedersenCommitVector_Inr by fastforce
  then show ?thesis by (simp add: verifyShuffleTranscript_def shuffleVerifyBg_def sizes_differ_def Let_def)
qed

end
