(* ===== verification/Bit_Proof.thy ===== *)
theory Bit_Proof
  imports Pedersen
begin

text \<open>
  The proof that a commitment hides a bit (\<open>volePSI/MpsvsBitProof.cpp\<close>): a disjunction of two
  Schnorr proofs made non-interactive with a hash of the statement, the commitments and the context.

  Shown: completeness with the exact condition under which verification throws instead of accepting,
  and special soundness: from two accepted proofs with the same commitments and different challenges
  \<open>extract_bit\<close> computes an opening of the commitment to 0 or to 1.
\<close>

record BitProof =
  bp_A0 :: R255Point
  bp_A1 :: R255Point
  bp_c0 :: R255Scalar
  bp_c1 :: R255Scalar
  bp_s0 :: R255Scalar
  bp_s1 :: R255Scalar

definition appendLP8 :: "bytes \<Rightarrow> bytes" where
  "appendLP8 p = le_bytes 8 (word_of_nat (length p) :: 64 word) @ p"

definition fsChallenge ::
  "'r sodium \<Rightarrow> R255Point \<Rightarrow> R255Point \<Rightarrow> R255Point \<Rightarrow> bytes \<Rightarrow> R255Scalar result" where
  "fsChallenge sd C A0 A1 ctx =
     hashToScalar sd (str_bytes ''mpsvs.bitproof'' @ appendLP8 ctx @ appendLP8 C @ appendLP8 A0 @ appendLP8 A1)"

definition commitBit :: "'r sodium \<Rightarrow> int \<Rightarrow> R255Scalar \<Rightarrow> PedersenCommitment result" where
  "commitBit sd b r =
     throw_if (b \<noteq> 0 \<and> b \<noteq> 1) (InvalidArgument ''commitBit: b must be 0 or 1'')
     (bindE (pedersenH sd) (\<lambda>h. bindE (scalarMult sd r h) (\<lambda>hr.
      if b = 0 then Inr hr else bindE (generator sd) (\<lambda>g. pointAdd sd g hr))))"

text \<open>The commitment of the simulated branch, \<open>h^s \<cdot> T^-c\<close>, and the response of the real one.\<close>

definition simulate :: "'r sodium \<Rightarrow> R255Scalar \<Rightarrow> R255Scalar \<Rightarrow> R255Point \<Rightarrow> R255Point result" where
  "simulate sd c s T =
     bindE (pedersenH sd) (\<lambda>h. bindE (scalarMult sd s h) (\<lambda>term1. bindE (scalarMult sd c T) (\<lambda>term2.
     pointSub sd term1 term2)))"

definition respond :: "'r sodium \<Rightarrow> R255Scalar \<Rightarrow> R255Scalar \<Rightarrow> R255Scalar \<Rightarrow> R255Scalar result" where
  "respond sd w c r = bindE (scalarMul sd c r) (scalarAdd sd w)"

definition proveBit ::
  "'r sodium \<Rightarrow> int \<Rightarrow> R255Scalar \<Rightarrow> PedersenCommitment \<Rightarrow> bytes \<Rightarrow> 'r \<Rightarrow> (BitProof \<times> 'r) result" where
  "proveBit sd b r C ctx rg =
     throw_if (b \<noteq> 0 \<and> b \<noteq> 1) (InvalidArgument ''proveBit: bit must be 0 or 1'')
     (bindE (generator sd) (\<lambda>g. bindE (pointSub sd C g) (\<lambda>T1.
      bindE (R255Scalar_random sd rg) (\<lambda>(w, rg1).
      bindE (pedersenH sd) (\<lambda>h. bindE (scalarMult sd w h) (\<lambda>A.
      bindE (R255Scalar_random sd rg1) (\<lambda>(c', rg2).
      bindE (R255Scalar_random sd rg2) (\<lambda>(s', rg3).
      if b = 0 then
        bindE (simulate sd c' s' T1) (\<lambda>A1. bindE (fsChallenge sd C A A1 ctx) (\<lambda>c.
        bindE (scalarSub sd c c') (\<lambda>c0. bindE (respond sd w c0 r) (\<lambda>s0.
        Inr (\<lparr>bp_A0 = A, bp_A1 = A1, bp_c0 = c0, bp_c1 = c', bp_s0 = s0, bp_s1 = s'\<rparr>, rg3)))))
      else
        bindE (simulate sd c' s' C) (\<lambda>A0. bindE (fsChallenge sd C A0 A ctx) (\<lambda>c.
        bindE (scalarSub sd c c') (\<lambda>c1. bindE (respond sd w c1 r) (\<lambda>s1.
        Inr (\<lparr>bp_A0 = A0, bp_A1 = A, bp_c0 = c', bp_c1 = c1, bp_s0 = s', bp_s1 = s1\<rparr>, rg3)))))))))))))"

text \<open>\<open>h^s = A \<cdot> T^c\<close>.\<close>

definition branch_check :: "'r sodium \<Rightarrow> R255Point \<Rightarrow> R255Scalar \<Rightarrow> R255Scalar \<Rightarrow> R255Point \<Rightarrow> bool result" where
  "branch_check sd A c s T =
     bindE (pedersenH sd) (\<lambda>h. bindE (scalarMult sd s h) (\<lambda>lhs. bindE (scalarMult sd c T) (\<lambda>t.
     bindE (pointAdd sd A t) (\<lambda>rhs. Inr (lhs = rhs)))))"

definition verifyBit :: "'r sodium \<Rightarrow> BitProof \<Rightarrow> PedersenCommitment \<Rightarrow> bytes \<Rightarrow> bool result" where
  "verifyBit sd p C ctx =
     bindE (fsChallenge sd C (bp_A0 p) (bp_A1 p) ctx) (\<lambda>c_combined.
     bindE (scalarAdd sd (bp_c0 p) (bp_c1 p)) (\<lambda>c_sum.
     if c_sum \<noteq> c_combined then Inr False else
     bindE (generator sd) (\<lambda>g. bindE (pointSub sd C g) (\<lambda>T1.
     bindE (branch_check sd (bp_A0 p) (bp_c0 p) (bp_s0 p) C) (\<lambda>ok0.
     if \<not> ok0 then Inr False else branch_check sd (bp_A1 p) (bp_c1 p) (bp_s1 p) T1)))))"

subsection \<open>Completeness\<close>

lemma simulate_eq:
  assumes G: "ristretto_laws sd L sc el" and H: "pedersenH sd = Inr (el h)"
  shows "simulate sd (sc c) (sc s) (el t) =
    (if s * h mod L = 0 \<or> c * t mod L = 0 then Inl (RuntimeError ''scalarMult: failed (rc='')
     else Inr (el (s * h - c * t)))"
  by (simp add: simulate_def H group_rules [OF G])

lemma branch_check_eq:
  assumes G: "ristretto_laws sd L sc el" and H: "pedersenH sd = Inr (el h)"
  shows "branch_check sd (el a) (sc c) (sc s) (el t) =
    (if s * h mod L = 0 \<or> c * t mod L = 0 then Inl (RuntimeError ''scalarMult: failed (rc='')
     else Inr (s * h mod L = (a + c * t) mod L))"
  by (simp add: branch_check_def H group_rules [OF G] laws_el [OF G])

lemma commitBit_eq:
  assumes G: "ristretto_laws sd L sc el" and H: "pedersenH sd = Inr (el h)" and "b = 0 \<or> b = 1"
  shows "commitBit sd b (sc r) =
    (if r * h mod L = 0 then Inl (RuntimeError ''scalarMult: failed (rc='') else Inr (el (b + r * h)))"
  using assms(3) by (auto simp: commitBit_def H group_rules [OF G])

lemma fsChallenge_sc:
  assumes G: "ristretto_laws sd L sc el"
  obtains e where "fsChallenge sd C A0 A1 ctx = Inr (sc e)"
  using laws_hashes(1) [OF G] by (auto simp: fsChallenge_def)

lemma respond_eq:
  assumes G: "ristretto_laws sd L sc el"
  shows "respond sd (sc w) (sc c) (sc r) = Inr (sc (w + c * r))"
  by (simp add: respond_def group_rules [OF G])

text \<open>What a returned proof holds: one real and one simulated branch.\<close>

lemma proveBit_zero:
  assumes G: "ristretto_laws sd L sc el" and H: "pedersenH sd = Inr (el h)"
    and p: "proveBit sd 0 (sc r) (el t) ctx rg = Inr (p, rg')"
  obtains w c e s where "fsChallenge sd (el t) (el (w * h)) (el (s * h - c * (t - 1))) ctx = Inr (sc e)"
    and "p = \<lparr>bp_A0 = el (w * h), bp_A1 = el (s * h - c * (t - 1)), bp_c0 = sc (e - c), bp_c1 = sc c,
      bp_s0 = sc (w + (e - c) * r), bp_s1 = sc s\<rparr>"
    and "s * h mod L \<noteq> 0" "c * (t - 1) mod L \<noteq> 0"
proof -
  obtain w r1 where w: "R255Scalar_random sd rg = Inr (sc w, r1)" by (rule laws_random [OF G])
  obtain c r2 where c: "R255Scalar_random sd r1 = Inr (sc c, r2)" by (rule laws_random [OF G])
  obtain s r3 where s: "R255Scalar_random sd r2 = Inr (sc s, r3)" by (rule laws_random [OF G])
  obtain e where e: "fsChallenge sd (el t) (el (w * h)) (el (s * h - c * (t - 1))) ctx = Inr (sc e)"
    by (rule fsChallenge_sc [OF G])
  show thesis
    using p that [OF e]
    by (simp add: proveBit_def H w c s e group_rules [OF G] simulate_eq [OF G H] respond_eq [OF G] split: if_splits)
qed

lemma proveBit_one:
  assumes G: "ristretto_laws sd L sc el" and H: "pedersenH sd = Inr (el h)"
    and p: "proveBit sd 1 (sc r) (el t) ctx rg = Inr (p, rg')"
  obtains w c e s where "fsChallenge sd (el t) (el (s * h - c * t)) (el (w * h)) ctx = Inr (sc e)"
    and "p = \<lparr>bp_A0 = el (s * h - c * t), bp_A1 = el (w * h), bp_c0 = sc c, bp_c1 = sc (e - c),
      bp_s0 = sc s, bp_s1 = sc (w + (e - c) * r)\<rparr>"
    and "s * h mod L \<noteq> 0" "c * t mod L \<noteq> 0"
proof -
  obtain w r1 where w: "R255Scalar_random sd rg = Inr (sc w, r1)" by (rule laws_random [OF G])
  obtain c r2 where c: "R255Scalar_random sd r1 = Inr (sc c, r2)" by (rule laws_random [OF G])
  obtain s r3 where s: "R255Scalar_random sd r2 = Inr (sc s, r3)" by (rule laws_random [OF G])
  obtain e where e: "fsChallenge sd (el t) (el (s * h - c * t)) (el (w * h)) ctx = Inr (sc e)"
    by (rule fsChallenge_sc [OF G])
  show thesis
    using p that [OF e]
    by (simp add: proveBit_def H w c s e group_rules [OF G] simulate_eq [OF G H] respond_eq [OF G] split: if_splits)
qed

lemma laws_zero: "ristretto_laws sd L sc el \<Longrightarrow> sc x = scalar_zero \<longleftrightarrow> x mod L = 0"
  by (simp add: laws_consts laws_sc)

lemma branch_real:
  assumes G: "ristretto_laws sd L sc el" and H: "pedersenH sd = Inr (el h)" and r: "r * h mod L \<noteq> 0"
  shows "branch_check sd (el (w * h)) (sc c) (sc (w + c * r)) (el (r * h)) =
    (if sc c = scalar_zero \<or> sc (w + c * r) = scalar_zero then Inl (RuntimeError ''scalarMult: failed (rc='') else Inr True)"
proof -
  have e: "w * h + c * (r * h) = (w + c * r) * h" by (simp add: algebra_simps)
  have "h mod L \<noteq> 0" using r by (simp add: laws_field [OF G])
  then have "(w + c * r) * h mod L = 0 \<longleftrightarrow> (w + c * r) mod L = 0" by (simp only: laws_field [OF G] simp_thms)
  moreover have "c * (r * h) mod L = 0 \<longleftrightarrow> c mod L = 0" using r by (simp only: laws_field [OF G, of c] simp_thms)
  ultimately show ?thesis unfolding branch_check_eq [OF G H] e laws_zero [OF G] by simp
qed

lemma branch_simulated:
  assumes G: "ristretto_laws sd L sc el" and H: "pedersenH sd = Inr (el h)" and "s * h mod L \<noteq> 0" "c * t mod L \<noteq> 0"
  shows "branch_check sd (el (s * h - c * t)) (sc c) (sc s) (el t) = Inr True"
  using assms(3,4) by (simp add: branch_check_eq [OF G H])

lemma bindE_if: "bindE (if b then Inl e else Inr a) f = (if b then Inl e else f a)"
  by simp

text \<open>C38: An honest proof is accepted, except that verification throws when the challenge or the
  response of the real branch is the zero scalar; it is never rejected.\<close>

theorem verifyBit_complete:
  assumes G: "ristretto_laws sd L sc el" and H: "pedersenH sd = Inr (el h)" and b: "b = 0 \<or> b = 1"
    and C: "commitBit sd b (sc r) = Inr C" and p: "proveBit sd b (sc r) C ctx rg = Inr (p, rg')"
  shows "verifyBit sd p C ctx =
    (if (if b = 0 then bp_c0 p = scalar_zero \<or> bp_s0 p = scalar_zero else bp_c1 p = scalar_zero \<or> bp_s1 p = scalar_zero)
     then Inl (RuntimeError ''scalarMult: failed (rc='') else Inr True)"
proof -
  have r: "r * h mod L \<noteq> 0" and Ct: "C = el (b + r * h)"
    using C by (simp_all add: commitBit_eq [OF G H b] split: if_splits)
  have h: "h mod L \<noteq> 0" using r by (simp add: laws_field [OF G])
  show ?thesis
  proof (cases "b = 0")
    case True
    with p Ct have "proveBit sd 0 (sc r) (el (r * h)) ctx rg = Inr (p, rg')" by simp
    then obtain w c e s where "fsChallenge sd (el (r * h)) (el (w * h)) (el (s * h - c * (r * h - 1))) ctx = Inr (sc e)"
      and "p = \<lparr>bp_A0 = el (w * h), bp_A1 = el (s * h - c * (r * h - 1)), bp_c0 = sc (e - c), bp_c1 = sc c,
        bp_s0 = sc (w + (e - c) * r), bp_s1 = sc s\<rparr>"
      and "s * h mod L \<noteq> 0" "c * (r * h - 1) mod L \<noteq> 0" by (rule proveBit_zero [OF G H])
    then show ?thesis
      using True Ct
      by (simp add: verifyBit_def group_rules(1,5-) [OF G] branch_real [OF G H r] branch_simulated [OF G H])
  next
    case False
    with b have b1: "b = 1" by simp
    with p Ct have "proveBit sd 1 (sc r) (el (1 + r * h)) ctx rg = Inr (p, rg')" by simp
    then obtain w c e s where "fsChallenge sd (el (1 + r * h)) (el (s * h - c * (1 + r * h))) (el (w * h)) ctx = Inr (sc e)"
      and "p = \<lparr>bp_A0 = el (s * h - c * (1 + r * h)), bp_A1 = el (w * h), bp_c0 = sc c, bp_c1 = sc (e - c),
        bp_s0 = sc s, bp_s1 = sc (w + (e - c) * r)\<rparr>"
      and "s * h mod L \<noteq> 0" "c * (1 + r * h) mod L \<noteq> 0" by (rule proveBit_one [OF G H])
    then show ?thesis
      using b1 Ct
      by (simp add: verifyBit_def group_rules(1,5-) [OF G] branch_real [OF G H r] branch_simulated [OF G H])
  qed
qed

definition toy_bit_proof :: "int \<Rightarrow> int \<Rightarrow> int \<Rightarrow> int \<Rightarrow> int \<Rightarrow> int \<Rightarrow> BitProof" where
  "toy_bit_proof a0 a1 c0 c1 s0 s1 = \<lparr>bp_A0 = enc13 a0, bp_A1 = enc13 a1, bp_c0 = enc13 c0, bp_c1 = enc13 c1,
     bp_s0 = enc13 s0, bp_s1 = enc13 s1\<rparr>"

theorem verifyBit_complete_witness:
  "proveBit toy_sodium 1 (enc13 2) (enc13 9) [] 0 = Inr (toy_bit_proof 7 4 2 2 3 5, 3) \<and>
   verifyBit toy_sodium (toy_bit_proof 7 4 2 2 3 5) (enc13 9) [] = Inr True"
proof -
  have C: "commitBit toy_sodium 1 (enc13 2) = Inr (enc13 9)" by code_simp
  have p: "proveBit toy_sodium 1 (enc13 2) (enc13 9) [] 0 = Inr (toy_bit_proof 7 4 2 2 3 5, 3)" by code_simp
  have "bp_c1 (toy_bit_proof 7 4 2 2 3 5) \<noteq> scalar_zero" "bp_s1 (toy_bit_proof 7 4 2 2 3 5) \<noteq> scalar_zero" by code_simp+
  then show ?thesis
    using verifyBit_complete [OF toy_laws toy_pedersenH _ C p] p by simp
qed

subsection \<open>Special soundness\<close>

definition divide_scalars :: "'r sodium \<Rightarrow> R255Scalar \<Rightarrow> R255Scalar \<Rightarrow> R255Scalar result" where
  "divide_scalars sd a b = bindE (scalarInvert sd b) (scalarMul sd a)"

text \<open>The quotient of the differences of two responses and of two challenges.\<close>

definition extract_witness ::
  "'r sodium \<Rightarrow> R255Scalar \<Rightarrow> R255Scalar \<Rightarrow> R255Scalar \<Rightarrow> R255Scalar \<Rightarrow> R255Scalar result" where
  "extract_witness sd s s' c c' =
     bindE (scalarSub sd s s') (\<lambda>ds. bindE (scalarSub sd c c') (\<lambda>dc. divide_scalars sd ds dc))"

definition extract_bit :: "'r sodium \<Rightarrow> BitProof \<Rightarrow> BitProof \<Rightarrow> (int \<times> R255Scalar) result" where
  "extract_bit sd p q =
     (if bp_c0 p \<noteq> bp_c0 q
      then bindE (extract_witness sd (bp_s0 p) (bp_s0 q) (bp_c0 p) (bp_c0 q)) (\<lambda>r. Inr (0, r))
      else bindE (extract_witness sd (bp_s1 p) (bp_s1 q) (bp_c1 p) (bp_c1 q)) (\<lambda>r. Inr (1, r)))"

text \<open>The scalars of a proof are reduced, as libsodium requires of its arguments.\<close>

definition reduced_proof :: "(int \<Rightarrow> R255Scalar) \<Rightarrow> BitProof \<Rightarrow> bool" where
  "reduced_proof sc p \<longleftrightarrow> (\<exists>c0 c1 s0 s1. bp_c0 p = sc c0 \<and> bp_c1 p = sc c1 \<and> bp_s0 p = sc s0 \<and> bp_s1 p = sc s1)"

text \<open>Two responses to different challenges: \<open>s h = a + c t\<close> and \<open>s' h = a + c' t\<close> give \<open>t = h (s - s') / (c - c')\<close>.\<close>

lemma extract_witness_eq:
  assumes G: "ristretto_laws sd L sc el"
    and e: "s * h mod L = (a + c * t) mod L" "s' * h mod L = (a + c' * t) mod L" and ne: "sc c \<noteq> sc c'"
  obtains r where "extract_witness sd (sc s) (sc s') (sc c) (sc c') = Inr (sc r)" and "t mod L = r * h mod L"
proof -
  have "(c - c') mod L \<noteq> 0" using ne by (simp add: laws_sc [OF G] mod_diff_zero)
  then obtain i where i: "scalarInvert sd (sc (c - c')) = Inr (sc i)" "(c - c') * i mod L = 1"
    by (rule laws_scalarInvert [OF G])
  have "L dvd s * h - (a + c * t)" "L dvd s' * h - (a + c' * t)" using e by (simp_all only: mod_eq_dvd_iff)
  then have "L dvd (s * h - (a + c * t)) - (s' * h - (a + c' * t))" by (rule dvd_diff)
  then have "((s - s') * h - (c - c') * t) mod L = 0" by (simp add: mod_eq_0_iff_dvd algebra_simps)
  then have "t mod L = (s - s') * h * i mod L" by (rule mod_solve [OF _ i(2) laws_order [OF G]])
  then have "t mod L = (s - s') * i * h mod L" by (simp add: ac_simps)
  then show thesis
    using that [of "(s - s') * i"] i(1) by (simp add: extract_witness_def divide_scalars_def group_rules [OF G])
qed

lemma branch_check_True:
  assumes G: "ristretto_laws sd L sc el" and H: "pedersenH sd = Inr (el h)"
    and ok: "branch_check sd A (sc c) (sc s) T = Inr True"
  obtains a t where "A = el a" "T = el t" "s * h mod L = (a + c * t) mod L" "s * h mod L \<noteq> 0" "c * t mod L \<noteq> 0"
proof -
  have "is_valid_point sd T" "is_valid_point sd A"
    using ok laws_valid_points [OF G] unfolding branch_check_def H bindE_eq_Inr by blast+
  then obtain a t where "A = el a" "T = el t" by (auto simp: laws_valid [OF G])
  with that ok show thesis by (simp add: branch_check_eq [OF G H] split: if_splits)
qed

lemma verifyBit_True:
  assumes G: "ristretto_laws sd L sc el" and H: "pedersenH sd = Inr (el h)"
    and p: "bp_c0 p = sc c0" "bp_c1 p = sc c1" "bp_s0 p = sc s0" "bp_s1 p = sc s1"
    and ok: "verifyBit sd p C ctx = Inr True"
  obtains a0 a1 t where "bp_A0 p = el a0" "bp_A1 p = el a1" "C = el t"
    "fsChallenge sd C (bp_A0 p) (bp_A1 p) ctx = Inr (sc (c0 + c1))"
    "s0 * h mod L = (a0 + c0 * t) mod L" "s1 * h mod L = (a1 + c1 * (t - 1)) mod L"
    "c0 * t mod L \<noteq> 0" "c1 * (t - 1) mod L \<noteq> 0"
proof -
  obtain e where e: "fsChallenge sd C (bp_A0 p) (bp_A1 p) ctx = Inr (sc e)" by (rule fsChallenge_sc [OF G])
  have ec: "sc (c0 + c1) = sc e" and "\<exists>T. pointSub sd C (el 1) = Inr T \<and>
      branch_check sd (bp_A0 p) (sc c0) (sc s0) C = Inr True \<and> branch_check sd (bp_A1 p) (sc c1) (sc s1) T = Inr True"
    using ok unfolding verifyBit_def e p group_rules [OF G] bindE_simps
    by (auto simp: bindE_eq_Inr laws_generator [OF G] split: if_splits)
  then obtain T where T: "pointSub sd C (el 1) = Inr T"
    "branch_check sd (bp_A0 p) (sc c0) (sc s0) C = Inr True" "branch_check sd (bp_A1 p) (sc c1) (sc s1) T = Inr True"
    by blast
  obtain a0 t where 0: "bp_A0 p = el a0" "C = el t" "s0 * h mod L = (a0 + c0 * t) mod L" "c0 * t mod L \<noteq> 0"
    using T(2) by (rule branch_check_True [OF G H])
  obtain a1 t1 where 1: "bp_A1 p = el a1" "T = el t1" "s1 * h mod L = (a1 + c1 * t1) mod L" "c1 * t1 mod L \<noteq> 0"
    using T(3) by (rule branch_check_True [OF G H])
  have "T = el (t - 1)" using T(1) by (simp add: 0(2) group_rules [OF G])
  then have "branch_check sd (el a1) (sc c1) (sc s1) (el (t - 1)) = Inr True" using T(3) 1(1) by simp
  then have "s1 * h mod L = (a1 + c1 * (t - 1)) mod L" "c1 * (t - 1) mod L \<noteq> 0"
    by (simp_all add: branch_check_eq [OF G H] split: if_splits)
  with 0 1(1) e ec that show thesis by metis
qed

text \<open>C37: Two accepted proofs with the same commitments and different challenges give, by the computation
  of \<open>extract_bit\<close>, a bit and an opening with which the bit commits to the committed point.\<close>

theorem verifyBit_special_soundness:
  assumes G: "ristretto_laws sd L sc el" and H: "pedersenH sd = Inr (el h)"
    and p: "reduced_proof sc p" and q: "reduced_proof sc q" and "bp_A0 q = bp_A0 p" "bp_A1 q = bp_A1 p"
    and "verifyBit sd p C ctx = Inr True" "verifyBit sd q C ctx' = Inr True"
    and ne: "fsChallenge sd C (bp_A0 p) (bp_A1 p) ctx \<noteq> fsChallenge sd C (bp_A0 p) (bp_A1 p) ctx'"
  shows "returns (extract_bit sd p q) (\<lambda>(b, r). commitBit sd b r = Inr C)"
proof -
  obtain c0 c1 s0 s1 where P: "bp_c0 p = sc c0" "bp_c1 p = sc c1" "bp_s0 p = sc s0" "bp_s1 p = sc s1"
    using p by (auto simp: reduced_proof_def)
  obtain d0 d1 u0 u1 where Q: "bp_c0 q = sc d0" "bp_c1 q = sc d1" "bp_s0 q = sc u0" "bp_s1 q = sc u1"
    using q by (auto simp: reduced_proof_def)
  obtain a0 a1 t where ep: "bp_A0 p = el a0" "bp_A1 p = el a1" "C = el t"
    "fsChallenge sd C (bp_A0 p) (bp_A1 p) ctx = Inr (sc (c0 + c1))"
    "s0 * h mod L = (a0 + c0 * t) mod L" "s1 * h mod L = (a1 + c1 * (t - 1)) mod L"
    "c0 * t mod L \<noteq> 0" "c1 * (t - 1) mod L \<noteq> 0"
    by (rule verifyBit_True [OF G H P assms(7)])
  obtain b0 b1 t' where eq: "bp_A0 q = el b0" "bp_A1 q = el b1" "C = el t'"
    "fsChallenge sd C (bp_A0 q) (bp_A1 q) ctx' = Inr (sc (d0 + d1))"
    "u0 * h mod L = (b0 + d0 * t') mod L" "u1 * h mod L = (b1 + d1 * (t' - 1)) mod L"
    "d0 * t' mod L \<noteq> 0" "d1 * (t' - 1) mod L \<noteq> 0"
    by (rule verifyBit_True [OF G H Q assms(8)])
  have same: "b0 mod L = a0 mod L" "b1 mod L = a1 mod L" "t' mod L = t mod L"
    using ep(1-3) eq(1-3) assms(5,6) by (simp_all add: laws_el [OF G])
  have e0: "u0 * h mod L = (a0 + d0 * t) mod L" and e1: "u1 * h mod L = (a1 + d1 * (t - 1)) mod L"
    using eq(5,6) same by (metis mod_add_cong mod_mult_cong, metis mod_add_cong mod_mult_cong mod_diff_cong)
  show ?thesis
  proof (cases "sc c0 = sc d0")
    case False
    then obtain r where r: "extract_witness sd (sc s0) (sc u0) (sc c0) (sc d0) = Inr (sc r)" "t mod L = r * h mod L"
      by (rule extract_witness_eq [OF G ep(5) e0])
    moreover have "t mod L \<noteq> 0" using ep(7) by (simp add: laws_field [OF G])
    ultimately show ?thesis
      using False by (simp add: extract_bit_def P Q commitBit_eq [OF G H] ep(3) laws_el [OF G])
  next
    case True
    then have c1: "sc c1 \<noteq> sc d1"
      using ne ep(4) eq(4) assms(5,6) by (auto simp: laws_sc [OF G] dest: mod_add_cong)
    then obtain r where r: "extract_witness sd (sc s1) (sc u1) (sc c1) (sc d1) = Inr (sc r)" "(t - 1) mod L = r * h mod L"
      by (rule extract_witness_eq [OF G ep(6) e1])
    have "(t - 1) mod L \<noteq> 0" using ep(8) by (simp add: laws_field [OF G])
    then have nz: "r * h mod L \<noteq> 0" using r(2) by simp
    have "(1 + r * h) mod L = (1 + (t - 1)) mod L" by (rule mod_add_cong) (simp_all add: r(2))
    then have "(1 + r * h) mod L = t mod L" by simp
    with r nz show ?thesis
      using True by (simp add: extract_bit_def P Q commitBit_eq [OF G H] ep(3) laws_el [OF G])
  qed
qed

theorem verifyBit_special_soundness_witness:
  "returns (extract_bit toy_sodium (toy_bit_proof 4 1 10 1 8 2) (toy_bit_proof 4 1 7 1 2 2))
    (\<lambda>(b, r). commitBit toy_sodium b r = Inr (enc13 8))"
proof (rule verifyBit_special_soundness [OF toy_laws toy_pedersenH, of _ _ _ "[]" "[1]"])
  show "reduced_proof enc13 (toy_bit_proof 4 1 10 1 8 2)" "reduced_proof enc13 (toy_bit_proof 4 1 7 1 2 2)"
    by (auto simp: reduced_proof_def toy_bit_proof_def)
  show "bp_A0 (toy_bit_proof 4 1 7 1 2 2) = bp_A0 (toy_bit_proof 4 1 10 1 8 2)"
    "bp_A1 (toy_bit_proof 4 1 7 1 2 2) = bp_A1 (toy_bit_proof 4 1 10 1 8 2)"
    by (simp_all add: toy_bit_proof_def)
  show "verifyBit toy_sodium (toy_bit_proof 4 1 10 1 8 2) (enc13 8) [] = Inr True"
    "verifyBit toy_sodium (toy_bit_proof 4 1 7 1 2 2) (enc13 8) [1] = Inr True" by code_simp+
  show "fsChallenge toy_sodium (enc13 8) (bp_A0 (toy_bit_proof 4 1 10 1 8 2)) (bp_A1 (toy_bit_proof 4 1 10 1 8 2)) [] \<noteq>
    fsChallenge toy_sodium (enc13 8) (bp_A0 (toy_bit_proof 4 1 10 1 8 2)) (bp_A1 (toy_bit_proof 4 1 10 1 8 2)) [1]"
    by code_simp
qed

end
