(* ===== verification/Oprf.thy ===== *)
theory Oprf
  imports Bit_Proof
begin

text \<open>
  The blinded evaluation of entity keys by two servers (\<open>volePSI/MpsvsOprf.cpp\<close>): length-prefixed
  encodings, Schnorr and Chaum-Pedersen proofs, distributed key generation, the two hops of the
  evaluation, the client's derivation of an entity key and the tag of a row.

  This module calls libsodium directly, without the initialisation of the other wrapper. The client
  reaches the servers through two call-backs; they run on the state of the random generator paired
  with whatever else they change.
\<close>

type_synonym GroupElement = bytes
type_synonym Scalar = bytes
type_synonym Context = bytes

subsection \<open>Encodings and wrappers\<close>

definition be_bytes :: "nat \<Rightarrow> 'a::len word \<Rightarrow> bytes" where "be_bytes n w = rev (le_bytes n w)"

definition appendLP :: "bytes \<Rightarrow> bytes \<Rightarrow> bytes result" where
  "appendLP dst data =
     throw_if (int (length data) > 0xFFFFFFFF) (RuntimeError ''appendLP: length > 2^32'')
       (Inr (dst @ be_bytes 4 (word_of_nat (length data) :: 32 word) @ data))"

definition appendFixedWidthU32 :: "bytes \<Rightarrow> 32 word \<Rightarrow> bytes" where
  "appendFixedWidthU32 dst v = dst @ be_bytes 4 v"

definition appendFixedWidthU64 :: "bytes \<Rightarrow> 64 word \<Rightarrow> bytes" where
  "appendFixedWidthU64 dst v = dst @ be_bytes 8 v"

text \<open>Several fields after one another.\<close>

definition appendLPs :: "bytes \<Rightarrow> bytes list \<Rightarrow> bytes result" where
  "appendLPs dst fs = foldE (\<lambda>f acc. appendLP acc f) fs dst"

definition kPrefSchnorr :: bytes where "kPrefSchnorr = str_bytes ''SCHNORR|........''"
definition kPrefDleq :: bytes where "kPrefDleq = str_bytes ''DLEQ|...........''"
definition kPrefAlign :: bytes where "kPrefAlign = str_bytes ''ALIGN|..........''"
definition kPrefReal :: bytes where "kPrefReal = str_bytes ''REAL|...........''"
definition kPrefDkgCommit :: bytes where "kPrefDkgCommit = str_bytes ''DKG-COMMIT|.....''"

definition oprf_scalarInvert :: "'r sodium \<Rightarrow> Scalar \<Rightarrow> Scalar result" where
  "oprf_scalarInvert sd s = or_throw ''scalarInvert: zero scalar'' (core_scalar_invert sd s)"

definition oprf_scalarMultBase :: "'r sodium \<Rightarrow> Scalar \<Rightarrow> GroupElement result" where
  "oprf_scalarMultBase sd s = or_throw ''scalarMultBase failed'' (scalarmult_base sd s)"

definition oprf_scalarMult :: "'r sodium \<Rightarrow> Scalar \<Rightarrow> GroupElement \<Rightarrow> GroupElement result" where
  "oprf_scalarMult sd s p = or_throw ''scalarMult failed (bad point or zero scalar)'' (scalarmult sd s p)"

definition hashToGroup :: "'r sodium \<Rightarrow> bytes \<Rightarrow> GroupElement result" where
  "hashToGroup sd msg = or_throw ''hashToGroup failed'' (core_from_hash sd (sha512 sd msg))"

definition generatorBase :: "'r sodium \<Rightarrow> GroupElement result" where
  "generatorBase sd = oprf_scalarMultBase sd scalar_one"

definition hashToScalarCtx :: "'r sodium \<Rightarrow> bytes \<Rightarrow> Context \<Rightarrow> bytes \<Rightarrow> Scalar result" where
  "hashToScalarCtx sd prefix ctx transcript =
     bindE (appendLP prefix ctx) (\<lambda>input. Inr (core_scalar_reduce sd (sha512 sd (input @ transcript))))"

subsection \<open>Schnorr proofs\<close>

record SchnorrProof =
  sn_c :: Scalar
  sn_s :: Scalar

definition schnorr_challenge :: "'r sodium \<Rightarrow> GroupElement \<Rightarrow> GroupElement \<Rightarrow> Context \<Rightarrow> Scalar result" where
  "schnorr_challenge sd Y R ctx = bindE (appendLPs [] [Y, R]) (hashToScalarCtx sd kPrefSchnorr ctx)"

definition schnorrProve :: "'r sodium \<Rightarrow> Scalar \<Rightarrow> GroupElement \<Rightarrow> Context \<Rightarrow> 'r \<Rightarrow> (SchnorrProof \<times> 'r) result" where
  "schnorrProve sd k Y ctx rg =
     (let (r, rg1) = scalar_random sd rg in
      bindE (oprf_scalarMultBase sd r) (\<lambda>R. bindE (schnorr_challenge sd Y R ctx) (\<lambda>c.
      Inr (\<lparr>sn_c = c, sn_s = core_scalar_add sd r (core_scalar_mul sd c k)\<rparr>, rg1))))"

definition schnorrVerify :: "'r sodium \<Rightarrow> GroupElement \<Rightarrow> SchnorrProof \<Rightarrow> Context \<Rightarrow> bool result" where
  "schnorrVerify sd Y p ctx =
     (if \<not> is_valid_point sd Y then Inr False else
      bindE (oprf_scalarMultBase sd (sn_s p)) (\<lambda>gs. bindE (oprf_scalarMult sd (sn_c p) Y) (\<lambda>cY.
      case core_sub sd gs cY of None \<Rightarrow> Inr False | Some R \<Rightarrow>
      if \<not> is_valid_point sd R then Inr False else
      bindE (schnorr_challenge sd Y R ctx) (\<lambda>c'. Inr (c' = sn_c p)))))"

subsection \<open>Proofs of equal discrete logarithms\<close>

record DLEQProof =
  dl_c :: Scalar
  dl_s :: Scalar

definition dleq_challenge ::
  "'r sodium \<Rightarrow> GroupElement \<Rightarrow> GroupElement \<Rightarrow> GroupElement \<Rightarrow> GroupElement \<Rightarrow> GroupElement \<Rightarrow> Context \<Rightarrow> Scalar result" where
  "dleq_challenge sd Y U V A B ctx =
     bindE (generatorBase sd) (\<lambda>g. bindE (appendLPs [] [g, Y, U, V, A, B]) (hashToScalarCtx sd kPrefDleq ctx))"

definition dleqProve ::
  "'r sodium \<Rightarrow> Scalar \<Rightarrow> GroupElement \<Rightarrow> GroupElement \<Rightarrow> GroupElement \<Rightarrow> Context \<Rightarrow> 'r \<Rightarrow> (DLEQProof \<times> 'r) result" where
  "dleqProve sd k Y U V ctx rg =
     (let (r, rg1) = scalar_random sd rg in
      bindE (oprf_scalarMultBase sd r) (\<lambda>A. bindE (oprf_scalarMult sd r U) (\<lambda>B.
      bindE (dleq_challenge sd Y U V A B ctx) (\<lambda>c.
      Inr (\<lparr>dl_c = c, dl_s = core_scalar_add sd r (core_scalar_mul sd c k)\<rparr>, rg1)))))"

definition dleqVerify ::
  "'r sodium \<Rightarrow> GroupElement \<Rightarrow> GroupElement \<Rightarrow> GroupElement \<Rightarrow> DLEQProof \<Rightarrow> Context \<Rightarrow> bool result" where
  "dleqVerify sd Y U V p ctx =
     (if \<not> is_valid_point sd Y \<or> \<not> is_valid_point sd U \<or> \<not> is_valid_point sd V then Inr False else
      bindE (oprf_scalarMultBase sd (dl_s p)) (\<lambda>gs. bindE (oprf_scalarMult sd (dl_c p) Y) (\<lambda>cY.
      case core_sub sd gs cY of None \<Rightarrow> Inr False | Some A \<Rightarrow>
      if \<not> is_valid_point sd A then Inr False else
      bindE (oprf_scalarMult sd (dl_s p) U) (\<lambda>Us. bindE (oprf_scalarMult sd (dl_c p) V) (\<lambda>cV.
      case core_sub sd Us cV of None \<Rightarrow> Inr False | Some B \<Rightarrow>
      if \<not> is_valid_point sd B then Inr False else
      bindE (dleq_challenge sd Y U V A B ctx) (\<lambda>c'. Inr (c' = dl_c p)))))))"


subsection \<open>Distributed key generation\<close>

record DkgHop1 =
  h1_Y1 :: GroupElement
  h1_pi1 :: SchnorrProof

record DkgHop2Final =
  h2_Y2 :: GroupElement
  h2_pi2 :: SchnorrProof
  h2_Y :: GroupElement
  h2_piY :: DLEQProof

record DkgState =
  dkg_k :: Scalar
  dkg_Y :: GroupElement
  dkg_Y1 :: GroupElement
  dkg_Y2 :: GroupElement

definition dkg_empty :: DkgState where
  "dkg_empty = \<lparr>dkg_k = scalar_zero, dkg_Y = point_identity, dkg_Y1 = point_identity, dkg_Y2 = point_identity\<rparr>"

record DkgS2Prep =
  prep_k2 :: Scalar
  prep_Y2 :: GroupElement
  prep_pi2 :: SchnorrProof
  prep_commit :: bytes

definition dkgCommitHash :: "'r sodium \<Rightarrow> GroupElement \<Rightarrow> SchnorrProof \<Rightarrow> bytes" where
  "dkgCommitHash sd Y2 p = sha256 sd (kPrefDkgCommit @ Y2 @ sn_c p @ sn_s p)"

definition dkgS2Prepare :: "'r sodium \<Rightarrow> Context \<Rightarrow> 'r \<Rightarrow> (DkgS2Prep \<times> 'r) result" where
  "dkgS2Prepare sd ctx rg =
     (let (k2, rg1) = scalar_random sd rg in
      bindE (oprf_scalarMultBase sd k2) (\<lambda>Y2. bindE (schnorrProve sd k2 Y2 ctx rg1) (\<lambda>(p, rg2).
      Inr (\<lparr>prep_k2 = k2, prep_Y2 = Y2, prep_pi2 = p, prep_commit = dkgCommitHash sd Y2 p\<rparr>, rg2))))"

definition dkgS1SendHop1 :: "'r sodium \<Rightarrow> Context \<Rightarrow> 'r \<Rightarrow> ((Scalar \<times> DkgHop1) \<times> 'r) result" where
  "dkgS1SendHop1 sd ctx rg =
     (let (k1, rg1) = scalar_random sd rg in
      bindE (oprf_scalarMultBase sd k1) (\<lambda>Y1. bindE (schnorrProve sd k1 Y1 ctx rg1) (\<lambda>(p, rg2).
      Inr ((k1, \<lparr>h1_Y1 = Y1, h1_pi1 = p\<rparr>), rg2))))"

definition dkgS2Finalize :: "'r sodium \<Rightarrow> Context \<Rightarrow> DkgS2Prep \<Rightarrow> DkgHop1 \<Rightarrow> 'r \<Rightarrow> ((DkgHop2Final \<times> DkgState) \<times> 'r) result" where
  "dkgS2Finalize sd ctx prep hop1 rg =
     bindE (schnorrVerify sd (h1_Y1 hop1) (h1_pi1 hop1) ctx) (\<lambda>ok.
     throw_if (\<not> ok) (RuntimeError ''dkgS2Finalize: pi1 verify failed'')
     (bindE (oprf_scalarMult sd (prep_k2 prep) (h1_Y1 hop1)) (\<lambda>Y.
      bindE (dleqProve sd (prep_k2 prep) (prep_Y2 prep) (h1_Y1 hop1) Y ctx rg) (\<lambda>(piY, rg1).
      Inr ((\<lparr>h2_Y2 = prep_Y2 prep, h2_pi2 = prep_pi2 prep, h2_Y = Y, h2_piY = piY\<rparr>,
        \<lparr>dkg_k = prep_k2 prep, dkg_Y = Y, dkg_Y1 = h1_Y1 hop1, dkg_Y2 = prep_Y2 prep\<rparr>), rg1)))))"

text \<open>A failed check leaves the state of S1 as it was.\<close>

definition dkgS1Finalize ::
  "'r sodium \<Rightarrow> Context \<Rightarrow> bytes \<Rightarrow> Scalar \<Rightarrow> GroupElement \<Rightarrow> DkgHop2Final \<Rightarrow> DkgState \<Rightarrow> (bool \<times> DkgState) result" where
  "dkgS1Finalize sd ctx commit_received k1 Y1 msg st =
     (if dkgCommitHash sd (h2_Y2 msg) (h2_pi2 msg) \<noteq> commit_received then Inr (False, st) else
      bindE (schnorrVerify sd (h2_Y2 msg) (h2_pi2 msg) ctx) (\<lambda>ok. if \<not> ok then Inr (False, st) else
      bindE (dleqVerify sd (h2_Y2 msg) Y1 (h2_Y msg) (h2_piY msg) ctx) (\<lambda>ok'. if \<not> ok' then Inr (False, st) else
      Inr (True, \<lparr>dkg_k = k1, dkg_Y = h2_Y msg, dkg_Y1 = Y1, dkg_Y2 = h2_Y2 msg\<rparr>))))"

subsection \<open>The two hops and the client\<close>

type_synonym OprfResponse = "GroupElement \<times> DLEQProof"

definition oprfServerHop1 :: "'r sodium \<Rightarrow> DkgState \<Rightarrow> GroupElement \<Rightarrow> Context \<Rightarrow> 'r \<Rightarrow> (OprfResponse \<times> 'r) result" where
  "oprfServerHop1 sd s1 U ctx rg =
     throw_if (\<not> is_valid_point sd U) (RuntimeError ''oprfServerHop1: invalid U'')
     (bindE (oprf_scalarMult sd (dkg_k s1) U) (\<lambda>V1. bindE (dleqProve sd (dkg_k s1) (dkg_Y1 s1) U V1 ctx rg) (\<lambda>(p, rg1).
      Inr ((V1, p), rg1))))"

definition oprfServerHop2 :: "'r sodium \<Rightarrow> DkgState \<Rightarrow> GroupElement \<Rightarrow> Context \<Rightarrow> 'r \<Rightarrow> (OprfResponse \<times> 'r) result" where
  "oprfServerHop2 sd s2 V1 ctx rg =
     throw_if (\<not> is_valid_point sd V1) (RuntimeError ''oprfServerHop2: invalid V1'')
     (bindE (oprf_scalarMult sd (dkg_k s2) V1) (\<lambda>V2. bindE (dleqProve sd (dkg_k s2) (dkg_Y2 s2) V1 V2 ctx rg) (\<lambda>(p, rg1).
      Inr ((V2, p), rg1))))"

definition entity_point :: "'r sodium \<Rightarrow> string \<Rightarrow> string \<Rightarrow> GroupElement result" where
  "entity_point sd id_type canonical_id =
     bindE (appendLPs kPrefReal [str_bytes id_type, str_bytes canonical_id]) (hashToGroup sd)"

text \<open>A client gets a key and a flag; after a failed check the key is the 32 zero bytes.\<close>

definition deriveEntityKey ::
  "'r sodium \<Rightarrow> string \<Rightarrow> string \<Rightarrow> Context \<Rightarrow> GroupElement \<Rightarrow> GroupElement \<Rightarrow> GroupElement \<Rightarrow>
     (GroupElement \<Rightarrow> 'r \<times> 't \<Rightarrow> (OprfResponse \<times> 'r \<times> 't) result) \<Rightarrow>
     (GroupElement \<Rightarrow> 'r \<times> 't \<Rightarrow> (OprfResponse \<times> 'r \<times> 't) result) \<Rightarrow>
     'r \<times> 't \<Rightarrow> ((GroupElement \<times> bool) \<times> 'r \<times> 't) result" where
  "deriveEntityKey sd id_type canonical_id ctx Y1 Y2 Y hop1_call hop2_call st =
     bindE (entity_point sd id_type canonical_id) (\<lambda>M.
     let (r, rg1) = scalar_random sd (fst st) in
     bindE (oprf_scalarMult sd r M) (\<lambda>U.
     bindE (hop1_call U (rg1, snd st)) (\<lambda>((V1, p1), st1).
     bindE (dleqVerify sd Y1 U V1 p1 ctx) (\<lambda>ok1. if \<not> ok1 then Inr ((point_identity, False), st1) else
     bindE (hop2_call V1 st1) (\<lambda>((V2, p2), st2).
     bindE (dleqVerify sd Y2 V1 V2 p2 ctx) (\<lambda>ok2. if \<not> ok2 then Inr ((point_identity, False), st2) else
     bindE (oprf_scalarInvert sd r) (\<lambda>rinv. bindE (oprf_scalarMult sd rinv V2) (\<lambda>W.
     Inr ((W, True), st2)))))))))"

subsection \<open>Row tags\<close>

definition row_tag_bytes :: "string \<Rightarrow> string \<Rightarrow> 32 word \<Rightarrow> GroupElement \<Rightarrow> Context \<Rightarrow> bytes result" where
  "row_tag_bytes id_type canonical_id period W ctx =
     bindE (appendLPs kPrefAlign [ctx, str_bytes id_type, str_bytes canonical_id]) (\<lambda>buf.
     appendLP (appendFixedWidthU32 buf period) W)"

definition deriveRowTag :: "'r sodium \<Rightarrow> string \<Rightarrow> string \<Rightarrow> 32 word \<Rightarrow> GroupElement \<Rightarrow> Context \<Rightarrow> bytes result" where
  "deriveRowTag sd id_type canonical_id period W ctx =
     bindE (row_tag_bytes id_type canonical_id period W ctx) (\<lambda>buf. Inr (sha256 sd buf))"

definition dummyRowTag :: "'r sodium \<Rightarrow> 'r \<Rightarrow> bytes \<times> 'r" where
  "dummyRowTag sd rg = random_bytes sd 32 rg"

definition RowTag_bin :: "bytes \<Rightarrow> int \<Rightarrow> 64 word" where
  "RowTag_bin t beta_bits =
     (if beta_bits \<le> 0 \<or> 64 < beta_bits then 0 else
      let n = nat ((beta_bits + 7) div 8);
          v = foldl (\<lambda>v b. push_bit 8 v OR ucast b) 0 (take n t);
          excess = int n * 8 - beta_bits
      in if 0 < excess then drop_bit (nat excess) v else v)"

definition set_out_bit :: "nat \<Rightarrow> bytes \<Rightarrow> nat \<Rightarrow> bytes \<Rightarrow> bytes result" where
  "set_out_bit src_bit t i out =
     bindE (vec_at t (src_bit div 8)) (\<lambda>b.
     let v = drop_bit (7 - src_bit mod 8) b AND 1 in
     bindE (vec_at out (i div 8)) (\<lambda>o1. vec_set out (i div 8) (o1 OR push_bit (7 - i mod 8) v)))"

definition RowTag_key :: "bytes \<Rightarrow> int \<Rightarrow> int \<Rightarrow> bytes result" where
  "RowTag_key t beta_bits tau_bits =
     throw_if (beta_bits < 0 \<or> tau_bits \<le> 0) (RuntimeError ''RowTag::key: negative or zero size'')
     (if beta_bits + tau_bits > 2 ^ 31 - 1 then Inl SignedOverflow else
      throw_if (beta_bits + tau_bits > int (length t) * 8) (RuntimeError ''RowTag::key: not enough tag bits'')
      (let \<tau> = nat tau_bits in
       foldE (\<lambda>i. set_out_bit (nat beta_bits + i) t i) [0..<\<tau>] (replicate ((\<tau> + 7) div 8) 0)))"


subsection \<open>Under the laws of the group\<close>

lemma oprf_mult_base_eq:
  assumes G: "ristretto_laws sd L sc el"
  shows "oprf_scalarMultBase sd (sc x) = (if x mod L = 0 then Inl (RuntimeError ''scalarMultBase failed'') else Inr (el x))"
  using el_lawsD(4) [OF G] by (simp add: oprf_scalarMultBase_def or_throw_def)

lemma oprf_mult_eq:
  assumes G: "ristretto_laws sd L sc el"
  shows "oprf_scalarMult sd (sc x) (el y) =
    (if x * y mod L = 0 then Inl (RuntimeError ''scalarMult failed (bad point or zero scalar)'') else Inr (el (x * y)))"
  using el_lawsD(5) [OF G] by (simp add: oprf_scalarMult_def or_throw_def)

lemma raw_ops:
  assumes G: "ristretto_laws sd L sc el"
  shows "core_sub sd (el x) (el y) = Some (el (x - y))" "core_scalar_add sd (sc a) (sc b) = sc (a + b)"
    and "core_scalar_mul sd (sc a) (sc b) = sc (a * b)" "is_valid_point sd (el x)"
  using el_lawsD(7) [OF G] sc_lawsD(5,7) [OF G] laws_valid [OF G] by blast+

lemma raw_random:
  assumes G: "ristretto_laws sd L sc el"
  obtains x r' where "scalar_random sd r = (sc x, r')" "x mod L \<noteq> 0"
  using sc_lawsD(12) [OF G] by blast

lemma appendLP_short: "int (length data) \<le> 0xFFFFFFFF \<Longrightarrow> appendLP dst data = Inr (dst @ be_bytes 4 (word_of_nat (length data) :: 32 word) @ data)"
  by (simp add: appendLP_def throw_if_def)

lemma appendLPs_short:
  "\<forall>f\<in>set fs. int (length f) \<le> 0xFFFFFFFF \<Longrightarrow>
   appendLPs dst fs = Inr (dst @ concat (map (\<lambda>f. be_bytes 4 (word_of_nat (length f) :: 32 word) @ f) fs))"
  by (induction fs arbitrary: dst) (simp_all add: appendLPs_def appendLP_short)

definition short :: "bytes \<Rightarrow> bool" where "short b \<longleftrightarrow> int (length b) \<le> 0xFFFFFFFF"

lemma hashToScalarCtx_sc:
  assumes G: "ristretto_laws sd L sc el" and "short ctx"
  shows "\<exists>c. hashToScalarCtx sd pre ctx tr = Inr (sc c)"
proof -
  have "length (sha512 sd m) = 64" for m using ristretto_lawsD(5) [OF G] by blast
  then have "\<exists>x. core_scalar_reduce sd (sha512 sd m) = sc x" for m using sc_lawsD(11) [OF G] by blast
  then show ?thesis using assms(2) by (simp add: hashToScalarCtx_def short_def appendLP_short)
qed

lemma schnorr_challenge_sc:
  assumes G: "ristretto_laws sd L sc el" and "short ctx"
  obtains c where "schnorr_challenge sd (el y) (el r) ctx = Inr (sc c)"
proof -
  have "\<forall>f\<in>set [el y, el r]. int (length f) \<le> 0xFFFFFFFF" by (simp add: laws_lengths [OF G])
  then obtain tr where tr: "appendLPs [] [el y, el r] = Inr tr" using appendLPs_short by blast
  obtain c where "hashToScalarCtx sd kPrefSchnorr ctx tr = Inr (sc c)" using hashToScalarCtx_sc [OF assms] by blast
  with tr that show thesis by (simp add: schnorr_challenge_def)
qed

lemma dleq_challenge_sc:
  assumes G: "ristretto_laws sd L sc el" and "short ctx"
  obtains c where "dleq_challenge sd (el y) (el u) (el v) (el a) (el b) ctx = Inr (sc c)"
proof -
  have g: "generatorBase sd = Inr (el 1)"
    using oprf_mult_base_eq [OF G, of 1] laws_order [OF G] by (simp add: generatorBase_def laws_consts(2) [OF G])
  have "\<forall>f\<in>set [el 1, el y, el u, el v, el a, el b]. int (length f) \<le> 0xFFFFFFFF" by (simp add: laws_lengths [OF G])
  then obtain tr where tr: "appendLPs [] [el 1, el y, el u, el v, el a, el b] = Inr tr" using appendLPs_short by blast
  obtain c where "hashToScalarCtx sd kPrefDleq ctx tr = Inr (sc c)" using hashToScalarCtx_sc [OF assms] by blast
  with tr g that show thesis by (simp add: dleq_challenge_def)
qed

lemma schnorrProve_Inr:
  assumes G: "ristretto_laws sd L sc el" and "short ctx" and p: "schnorrProve sd (sc k) (el k) ctx rg = Inr (p, rg')"
  obtains r c where "p = \<lparr>sn_c = sc c, sn_s = sc (r + c * k)\<rparr>" "schnorr_challenge sd (el k) (el r) ctx = Inr (sc c)"
proof -
  obtain r r1 where r: "scalar_random sd rg = (sc r, r1)" "r mod L \<noteq> 0" by (rule raw_random [OF G])
  obtain c where c: "schnorr_challenge sd (el k) (el r) ctx = Inr (sc c)" by (rule schnorr_challenge_sc [OF assms(1,2)])
  show thesis by (rule that [of c r]) (use p r c in \<open>simp_all add: schnorrProve_def oprf_mult_base_eq [OF G] raw_ops [OF G]\<close>)
qed

lemma schnorrVerify_honest:
  assumes G: "ristretto_laws sd L sc el" and "short ctx" and p: "schnorrProve sd (sc k) (el k) ctx rg = Inr (p, rg')"
    and ok: "schnorrVerify sd (el k) p ctx = Inr b"
  shows b
proof -
  obtain r c where "p = \<lparr>sn_c = sc c, sn_s = sc (r + c * k)\<rparr>" "schnorr_challenge sd (el k) (el r) ctx = Inr (sc c)"
    by (rule schnorrProve_Inr [OF assms(1-3)])
  with ok show b
    by (simp add: schnorrVerify_def oprf_mult_base_eq [OF G] oprf_mult_eq [OF G] raw_ops [OF G] split: if_splits)
qed

lemma dleqVerify_honest:
  assumes G: "ristretto_laws sd L sc el" and "short ctx"
    and p: "dleqProve sd (sc k) (el k) (el u) (el (k * u)) ctx rg = Inr (p, rg')"
    and ok: "dleqVerify sd (el k) (el u) (el (k * u)) p ctx = Inr b"
  shows b
proof -
  obtain r r1 where r: "scalar_random sd rg = (sc r, r1)" "r mod L \<noteq> 0" by (rule raw_random [OF G])
  obtain c where c: "dleq_challenge sd (el k) (el u) (el (k * u)) (el r) (el (r * u)) ctx = Inr (sc c)"
    by (rule dleq_challenge_sc [OF assms(1,2)])
  have pv: "p = \<lparr>dl_c = sc c, dl_s = sc (r + c * k)\<rparr>"
    using p r c by (simp add: dleqProve_def oprf_mult_base_eq [OF G] oprf_mult_eq [OF G] raw_ops [OF G] split: if_splits)
  have "el ((r + c * k) * u - c * (k * u)) = el (r * u)" by (simp add: algebra_simps)
  with ok c show b
    by (simp add: pv dleqVerify_def oprf_mult_base_eq [OF G] oprf_mult_eq [OF G] raw_ops [OF G] split: if_splits)
qed


subsection \<open>What the client derives\<close>

text \<open>A server that answers from its state and a log that is kept of the answers.\<close>

definition serve ::
  "(GroupElement \<Rightarrow> 'r \<Rightarrow> (OprfResponse \<times> 'r) result) \<Rightarrow> (GroupElement \<Rightarrow> OprfResponse \<Rightarrow> 't \<Rightarrow> 't) \<Rightarrow>
     GroupElement \<Rightarrow> 'r \<times> 't \<Rightarrow> (OprfResponse \<times> 'r \<times> 't) result" where
  "serve hop keep U st = bindE (hop U (fst st)) (\<lambda>(resp, rg). Inr (resp, rg, keep U resp (snd st)))"

lemma hop1_Inr:
  assumes G: "ristretto_laws sd L sc el" and s1: "dkg_k s1 = sc k" "dkg_Y1 s1 = el k"
    and h: "serve (\<lambda>U. oprfServerHop1 sd s1 U ctx) keep (el u) st = Inr ((V, p), st')"
  obtains rg rg' where "V = el (k * u)" "k * u mod L \<noteq> 0" "dleqProve sd (sc k) (el k) (el u) (el (k * u)) ctx rg = Inr (p, rg')"
  using h by (auto simp: serve_def oprfServerHop1_def throw_if_def raw_ops [OF G] s1 bindE_eq_Inr oprf_mult_eq [OF G] split: if_splits)

lemma hop2_Inr:
  assumes G: "ristretto_laws sd L sc el" and s2: "dkg_k s2 = sc k" "dkg_Y2 s2 = el k"
    and h: "serve (\<lambda>U. oprfServerHop2 sd s2 U ctx) keep (el u) st = Inr ((V, p), st')"
  obtains rg rg' where "V = el (k * u)" "k * u mod L \<noteq> 0" "dleqProve sd (sc k) (el k) (el u) (el (k * u)) ctx rg = Inr (p, rg')"
  using h by (auto simp: serve_def oprfServerHop2_def throw_if_def raw_ops [OF G] s2 bindE_eq_Inr oprf_mult_eq [OF G] split: if_splits)

text \<open>The blinding cancels: \<open>r\<inverse> (k2 (k1 (r m))) = k1 k2 m\<close>.\<close>

lemma unblind:
  assumes G: "ristretto_laws sd L sc el" and "r * i mod L = 1"
  shows "el (i * (k2 * (k1 * (r * m)))) = el (k1 * k2 * m)"
proof -
  have "i * (k2 * (k1 * (r * m))) mod L = (r * i) * (k1 * k2 * m) mod L" by (simp add: ac_simps)
  also have "\<dots> = (r * i mod L) * (k1 * k2 * m) mod L" by (simp only: mod_mult_left_eq)
  finally have "i * (k2 * (k1 * (r * m))) mod L = k1 * k2 * m mod L" using assms(2) by simp
  then show ?thesis by (simp only: laws_el [OF G])
qed

text \<open>C10: With two servers that answer from keys \<open>k1\<close> and \<open>k2\<close>, a client that gets an answer accepts
  both proofs and derives \<open>M\<close> raised to \<open>k1 k2\<close>, the same key whatever its blinding and whatever the servers keep in
  their logs.\<close>

theorem deriveEntityKey_correct:
  assumes G: "ristretto_laws sd L sc el" and ctx: "short ctx"
    and s1: "dkg_k s1 = sc k1" "dkg_Y1 s1 = el k1" and s2: "dkg_k s2 = sc k2" "dkg_Y2 s2 = el k2"
    and M: "entity_point sd id_type canonical_id = Inr (el m)"
    and run: "deriveEntityKey sd id_type canonical_id ctx (el k1) (el k2) Y
      (serve (\<lambda>U. oprfServerHop1 sd s1 U ctx) keep1) (serve (\<lambda>U. oprfServerHop2 sd s2 U ctx) keep2) st = Inr ((W, ok), st')"
  shows "ok \<and> W = el (k1 * k2 * m)"
proof -
  obtain r rg1 where r: "scalar_random sd (fst st) = (sc r, rg1)" "r mod L \<noteq> 0" by (rule raw_random [OF G])
  obtain i where i: "scalarInvert sd (sc r) = Inr (sc i)" "r * i mod L = 1" by (rule laws_scalarInvert [OF G r(2)])
  then have inv: "oprf_scalarInvert sd (sc r) = Inr (sc i)"
    by (auto simp: scalarInvert_def oprf_scalarInvert_def or_throw_def laws_init [OF G] split: option.splits)
  let ?h1 = "serve (\<lambda>U. oprfServerHop1 sd s1 U ctx) keep1" and ?h2 = "serve (\<lambda>U. oprfServerHop2 sd s2 U ctx) keep2"
  have rm: "oprf_scalarMult sd (sc r) (el m) = Inr (el (r * m))"
    using run by (auto simp: deriveEntityKey_def M r(1) oprf_mult_eq [OF G] split: if_splits)
  from run obtain V1 p1 st1 where h1: "?h1 (el (r * m)) (rg1, snd st) = Inr ((V1, p1), st1)"
    by (cases "?h1 (el (r * m)) (rg1, snd st)") (auto simp: deriveEntityKey_def M r(1) rm)
  obtain a a' where V1: "V1 = el (k1 * (r * m))"
    and p1: "dleqProve sd (sc k1) (el k1) (el (r * m)) (el (k1 * (r * m))) ctx a = Inr (p1, a')"
    by (rule hop1_Inr [OF G s1 h1])
  from run obtain b1 where b1: "dleqVerify sd (el k1) (el (r * m)) (el (k1 * (r * m))) p1 ctx = Inr b1"
    by (cases "dleqVerify sd (el k1) (el (r * m)) (el (k1 * (r * m))) p1 ctx") (auto simp: deriveEntityKey_def M r(1) rm h1 V1)
  have "b1" by (rule dleqVerify_honest [OF G ctx p1 b1])
  with b1 have v1: "dleqVerify sd (el k1) (el (r * m)) (el (k1 * (r * m))) p1 ctx = Inr True" by simp
  from run obtain V2 p2 st2 where h2: "?h2 (el (k1 * (r * m))) st1 = Inr ((V2, p2), st2)"
    by (cases "?h2 (el (k1 * (r * m))) st1") (auto simp: deriveEntityKey_def M r(1) rm h1 V1 v1)
  obtain c c' where V2: "V2 = el (k2 * (k1 * (r * m)))"
    and p2: "dleqProve sd (sc k2) (el k2) (el (k1 * (r * m))) (el (k2 * (k1 * (r * m)))) ctx c = Inr (p2, c')"
    by (rule hop2_Inr [OF G s2 h2])
  from run obtain b2 where b2: "dleqVerify sd (el k2) (el (k1 * (r * m))) (el (k2 * (k1 * (r * m)))) p2 ctx = Inr b2"
    by (cases "dleqVerify sd (el k2) (el (k1 * (r * m))) (el (k2 * (k1 * (r * m)))) p2 ctx")
      (auto simp: deriveEntityKey_def M r(1) rm h1 V1 v1 h2 V2)
  have "b2" by (rule dleqVerify_honest [OF G ctx p2 b2])
  with b2 have v2: "dleqVerify sd (el k2) (el (k1 * (r * m))) (el (k2 * (k1 * (r * m)))) p2 ctx = Inr True" by simp
  from run show ?thesis
    by (auto simp: deriveEntityKey_def M r(1) rm h1 V1 v1 h2 V2 v2 inv oprf_mult_eq [OF G] unblind [OF G i(2)] split: if_splits)
qed


subsection \<open>Key generation\<close>

text \<open>The messages in the order of \<open>TopologySession::runDkg\<close>.\<close>

definition dkg_run :: "'r sodium \<Rightarrow> Context \<Rightarrow> 'r \<Rightarrow> ((bool \<times> DkgState \<times> DkgState) \<times> 'r) result" where
  "dkg_run sd ctx rg =
     bindE (dkgS2Prepare sd ctx rg) (\<lambda>(prep, rg1). bindE (dkgS1SendHop1 sd ctx rg1) (\<lambda>((k1, hop1), rg2).
     bindE (dkgS2Finalize sd ctx prep hop1 rg2) (\<lambda>((msg, s2), rg3).
     bindE (dkgS1Finalize sd ctx (prep_commit prep) k1 (h1_Y1 hop1) msg dkg_empty) (\<lambda>(ok, s1).
     Inr ((ok, s1, s2), rg3)))))"

definition dkg_agree :: "(int \<Rightarrow> Scalar) \<Rightarrow> (int \<Rightarrow> GroupElement) \<Rightarrow> int \<Rightarrow> int \<Rightarrow> DkgState \<Rightarrow> DkgState \<Rightarrow> bool" where
  "dkg_agree sc el k1 k2 s1 s2 \<longleftrightarrow>
     s1 = \<lparr>dkg_k = sc k1, dkg_Y = el (k1 * k2), dkg_Y1 = el k1, dkg_Y2 = el k2\<rparr> \<and>
     s2 = \<lparr>dkg_k = sc k2, dkg_Y = el (k1 * k2), dkg_Y1 = el k1, dkg_Y2 = el k2\<rparr>"

lemma prepare_Inr:
  assumes G: "ristretto_laws sd L sc el" and p: "dkgS2Prepare sd ctx rg = Inr (prep, rg')"
  obtains k rg1 p where "schnorrProve sd (sc k) (el k) ctx rg1 = Inr (p, rg')" "k mod L \<noteq> 0"
    and "prep = \<lparr>prep_k2 = sc k, prep_Y2 = el k, prep_pi2 = p, prep_commit = dkgCommitHash sd (el k) p\<rparr>"
proof -
  obtain k rg1 where k: "scalar_random sd rg = (sc k, rg1)" "k mod L \<noteq> 0" by (rule raw_random [OF G])
  with p show thesis using that
    by (cases "schnorrProve sd (sc k) (el k) ctx rg1") (auto simp: dkgS2Prepare_def oprf_mult_base_eq [OF G])
qed

lemma sendHop1_Inr:
  assumes G: "ristretto_laws sd L sc el" and p: "dkgS1SendHop1 sd ctx rg = Inr ((k1, hop1), rg')"
  obtains k rg1 p where "schnorrProve sd (sc k) (el k) ctx rg1 = Inr (p, rg')" "k mod L \<noteq> 0"
    and "k1 = sc k" "hop1 = \<lparr>h1_Y1 = el k, h1_pi1 = p\<rparr>"
proof -
  obtain k rg1 where k: "scalar_random sd rg = (sc k, rg1)" "k mod L \<noteq> 0" by (rule raw_random [OF G])
  with p show thesis using that
    by (cases "schnorrProve sd (sc k) (el k) ctx rg1") (auto simp: dkgS1SendHop1_def oprf_mult_base_eq [OF G])
qed

lemma finalize_Inr:
  assumes G: "ristretto_laws sd L sc el" and ctx: "short ctx" and p1: "schnorrProve sd (sc k1) (el k1) ctx a = Inr (p1, a')"
    and f: "dkgS2Finalize sd ctx \<lparr>prep_k2 = sc k2, prep_Y2 = el k2, prep_pi2 = p2, prep_commit = com\<rparr> \<lparr>h1_Y1 = el k1, h1_pi1 = p1\<rparr> rg =
      Inr ((msg, s2), rg')"
  obtains piY where "dleqProve sd (sc k2) (el k2) (el k1) (el (k2 * k1)) ctx rg = Inr (piY, rg')"
    and "msg = \<lparr>h2_Y2 = el k2, h2_pi2 = p2, h2_Y = el (k2 * k1), h2_piY = piY\<rparr>"
    and "s2 = \<lparr>dkg_k = sc k2, dkg_Y = el (k2 * k1), dkg_Y1 = el k1, dkg_Y2 = el k2\<rparr>"
proof -
  have m: "oprf_scalarMult sd (sc k2) (el k1) = Inr (el (k2 * k1))"
    using f by (auto simp: dkgS2Finalize_def bindE_eq_Inr throw_if_def oprf_mult_eq [OF G] split: if_splits)
  show thesis
    using f that by (cases "dleqProve sd (sc k2) (el k2) (el k1) (el (k2 * k1)) ctx rg")
      (auto simp: dkgS2Finalize_def bindE_eq_Inr throw_if_def m split: if_splits)
qed

lemma dkg_run_states:
  assumes G: "ristretto_laws sd L sc el" and ctx: "short ctx" and run: "dkg_run sd ctx rg = Inr ((ok, s1, s2), rg')"
  shows "ok \<and> (\<exists>k1 k2. k1 mod L \<noteq> 0 \<and> k2 mod L \<noteq> 0 \<and> dkg_agree sc el k1 k2 s1 s2)"
proof -
  obtain prep rg1 where 1: "dkgS2Prepare sd ctx rg = Inr (prep, rg1)"
    using run by (cases "dkgS2Prepare sd ctx rg") (auto simp: dkg_run_def)
  obtain k2 a p2 where p2: "schnorrProve sd (sc k2) (el k2) ctx a = Inr (p2, rg1)" and k2: "k2 mod L \<noteq> 0"
    and prep: "prep = \<lparr>prep_k2 = sc k2, prep_Y2 = el k2, prep_pi2 = p2, prep_commit = dkgCommitHash sd (el k2) p2\<rparr>"
    by (rule prepare_Inr [OF G 1])
  obtain sk1 hop1 rg2 where 2: "dkgS1SendHop1 sd ctx rg1 = Inr ((sk1, hop1), rg2)"
    using run by (cases "dkgS1SendHop1 sd ctx rg1") (auto simp: dkg_run_def 1)
  obtain k1 b p1 where p1: "schnorrProve sd (sc k1) (el k1) ctx b = Inr (p1, rg2)" and k1: "k1 mod L \<noteq> 0"
    and hop1: "sk1 = sc k1" "hop1 = \<lparr>h1_Y1 = el k1, h1_pi1 = p1\<rparr>"
    by (rule sendHop1_Inr [OF G 2])
  obtain msg t2 rg3 where 3: "dkgS2Finalize sd ctx prep hop1 rg2 = Inr ((msg, t2), rg3)"
    using run by (cases "dkgS2Finalize sd ctx prep hop1 rg2") (auto simp: dkg_run_def 1 2)
  obtain piY where piY: "dleqProve sd (sc k2) (el k2) (el k1) (el (k2 * k1)) ctx rg2 = Inr (piY, rg3)"
    and msg: "msg = \<lparr>h2_Y2 = el k2, h2_pi2 = p2, h2_Y = el (k2 * k1), h2_piY = piY\<rparr>"
    and t2: "t2 = \<lparr>dkg_k = sc k2, dkg_Y = el (k2 * k1), dkg_Y1 = el k1, dkg_Y2 = el k2\<rparr>"
    by (rule finalize_Inr [OF G ctx p1 3 [unfolded prep hop1]])
  have 4: "dkgS1Finalize sd ctx (prep_commit prep) sk1 (h1_Y1 hop1) msg dkg_empty = Inr (ok, s1)" and s2: "s2 = t2"
    using run by (auto simp: dkg_run_def 1 2 3 bindE_eq_Inr)
  obtain x where x: "schnorrVerify sd (el k2) p2 ctx = Inr x"
    using 4 by (cases "schnorrVerify sd (el k2) p2 ctx") (auto simp: dkgS1Finalize_def prep msg)
  have x1: "x" by (rule schnorrVerify_honest [OF G ctx p2 x])
  obtain y where y: "dleqVerify sd (el k2) (el k1) (el (k2 * k1)) piY ctx = Inr y"
    using 4 x x1 by (cases "dleqVerify sd (el k2) (el k1) (el (k2 * k1)) piY ctx") (auto simp: dkgS1Finalize_def prep msg hop1)
  have "y" by (rule dleqVerify_honest [OF G ctx piY y])
  then have "ok \<and> s1 = \<lparr>dkg_k = sc k1, dkg_Y = el (k2 * k1), dkg_Y1 = el k1, dkg_Y2 = el k2\<rparr>"
    using 4 x x1 y by (simp add: dkgS1Finalize_def prep msg hop1)
  then show ?thesis using k1 k2 s2 t2 by (auto simp: dkg_agree_def mult.commute)
qed

text \<open>C14: A key generation that returns is accepted by S1 and leaves both servers with the same public keys:
  each holds its own secret, the epoch key is the generator raised to the product, and neither secret is zero.\<close>

theorem dkg_run_agrees:
  assumes G: "ristretto_laws sd L sc el" and ctx: "short ctx" and run: "dkg_run sd ctx rg = Inr ((ok, s1, s2), rg')"
  shows "ok \<and> (\<exists>k1 k2. k1 mod L \<noteq> 0 \<and> k2 mod L \<noteq> 0 \<and> dkg_agree sc el k1 k2 s1 s2)"
  by (rule dkg_run_states [OF assms])


subsection \<open>What a server proves\<close>

text \<open>C28: An accepted proof of a false statement, an answer that is not the query raised to the logarithm of
  the public key, must have hit, with the hash of two commitments, the one challenge out of all
  scalars that any response to these commitments can answer.\<close>

theorem dleqVerify_false_statement:
  assumes G: "ristretto_laws sd L sc el" and YUV: "Y = el y" "U = el u" "V = el v" and p: "dl_c p = sc c" "dl_s p = sc s"
    and ok: "dleqVerify sd Y U V p ctx = Inr True" and false: "v mod L \<noteq> y * u mod L"
  shows "\<exists>a b. dleq_challenge sd Y U V (el a) (el b) ctx = Inr (dl_c p) \<and>
    (\<forall>c' s'. (s' - c' * y) mod L = a mod L \<and> (s' * u - c' * v) mod L = b mod L \<longrightarrow> sc c' = dl_c p)"
proof (intro exI conjI allI impI)
  let ?a = "s - c * y" and ?b = "s * u - c * v"
  show "dleq_challenge sd Y U V (el ?a) (el ?b) ctx = Inr (dl_c p)"
    using ok by (auto simp: dleqVerify_def YUV p oprf_mult_base_eq [OF G] oprf_mult_eq [OF G] raw_ops [OF G]
        bindE_eq_Inr split: if_splits)
  fix c' s' assume "(s' - c' * y) mod L = ?a mod L \<and> (s' * u - c' * v) mod L = ?b mod L"
  then have "L dvd (s' - s) - (c' - c) * y" "L dvd (s' - s) * u - (c' - c) * v"
    by (simp_all add: mod_eq_dvd_iff algebra_simps)
  then have "L dvd ((s' - s) - (c' - c) * y) * u - ((s' - s) * u - (c' - c) * v)" by (rule dvd_diff [OF dvd_mult2])
  then have "(c' - c) * (v - y * u) mod L = 0" by (simp add: algebra_simps)
  moreover have "(v - y * u) mod L \<noteq> 0" using false by (simp add: mod_diff_zero)
  ultimately have "(c' - c) mod L = 0" by (simp add: laws_field [OF G])
  then show "sc c' = dl_c p" by (simp add: p laws_sc [OF G] mod_diff_zero)
qed

subsection \<open>Row tags\<close>

lemma be_bytes_append [decode_simps]:
  fixes v w :: "'a::len word"
  assumes "LENGTH('a) = 8 * n"
  shows "be_bytes n v @ xs = be_bytes n w @ ys \<longleftrightarrow> v = w \<and> xs = ys"
  using le_bytes_inject [OF assms, of v w] by (simp add: be_bytes_def append_eq_append_conv)

lemma lp_append:
  assumes "short f" "short g"
  shows "be_bytes 4 (word_of_nat (length f) :: 32 word) @ f @ xs = be_bytes 4 (word_of_nat (length g) :: 32 word) @ g @ ys \<longleftrightarrow>
    f = g \<and> xs = ys"
proof
  assume "be_bytes 4 (word_of_nat (length f) :: 32 word) @ f @ xs = be_bytes 4 (word_of_nat (length g) :: 32 word) @ g @ ys"
  then have w: "(word_of_nat (length f) :: 32 word) = word_of_nat (length g)" and rest: "f @ xs = g @ ys"
    by (simp_all add: be_bytes_append)
  have "unat (word_of_nat (length f) :: 32 word) = unat (word_of_nat (length g) :: 32 word)" using w by simp
  moreover have "length f < 2 ^ 32" "length g < 2 ^ 32" using assms by (simp_all add: short_def)
  ultimately have "length f = length g" by (simp add: unat_of_nat take_bit_eq_mod)
  with rest show "f = g \<and> xs = ys" by simp
qed simp

lemma row_tag_bytes_eq:
  assumes "short ctx" "short (str_bytes a)" "short (str_bytes b)" "length W = 32"
  shows "row_tag_bytes a b p W ctx = Inr (kPrefAlign @
    (be_bytes 4 (word_of_nat (length ctx) :: 32 word) @ ctx @
     (be_bytes 4 (word_of_nat (length (str_bytes a)) :: 32 word) @ str_bytes a @
      (be_bytes 4 (word_of_nat (length (str_bytes b)) :: 32 word) @ str_bytes b @
       (be_bytes 4 p @ be_bytes 4 (32 :: 32 word) @ W)))))"
  using assms appendLPs_short [of "[ctx, str_bytes a, str_bytes b]" kPrefAlign]
  by (simp add: row_tag_bytes_def short_def appendLP_short appendFixedWidthU32_def)

text \<open>C29: Two tags are computed from the same bytes only for the same context, identifier type,
  identifier, period and entity key, so equal tags of different rows are a collision of the hash.\<close>

theorem row_tag_bytes_injective:
  assumes "short ctx" "short (str_bytes a)" "short (str_bytes b)" "length W = 32"
    and "short ctx'" "short (str_bytes a')" "short (str_bytes b')" "length W' = 32"
    and eq: "row_tag_bytes a b p W ctx = row_tag_bytes a' b' p' W' ctx'"
  shows "ctx = ctx' \<and> a = a' \<and> b = b' \<and> p = p' \<and> W = W'"
proof -
  have "LENGTH(32) = 8 * 4" by simp
  note be = be_bytes_append [OF this]
  show ?thesis
    using eq unfolding row_tag_bytes_eq [OF assms(1-4)] row_tag_bytes_eq [OF assms(5-8)]
    by (simp only: sum.inject same_append_eq lp_append assms(1-3,5-7) str_bytes_inject) (simp only: be simp_thms)
qed


text \<open>Bit \<open>k\<close> of a tag, counted from the most significant bit of its first byte.\<close>

definition tag_bit :: "bytes \<Rightarrow> nat \<Rightarrow> bool" where
  "tag_bit t k \<longleftrightarrow> bit (t ! (k div 8)) (7 - k mod 8)"

lemma foldl_le_read: "foldl (\<lambda>v b. push_bit 8 v OR ucast b) 0 bs = (le_read (rev bs) :: 64 word)"
  by (simp add: le_read_def foldl_conv_foldr)

lemma bit_foldl_bytes:
  assumes "length bs \<le> 8" "k < 8 * length bs"
  shows "bit (foldl (\<lambda>v b. push_bit 8 v OR ucast b) (0 :: 64 word) bs) k \<longleftrightarrow> tag_bit bs (8 * length bs - 1 - k)"
proof -
  have q: "k div 8 < length bs" using assms(2) by simp
  have "(8 * length bs - 1 - k) div 8 = length bs - 1 - k div 8" "(8 * length bs - 1 - k) mod 8 = 7 - k mod 8"
  proof -
    define d r where "d = k div 8" and "r = k mod 8"
    have k: "k = 8 * d + r" "r < 8" by (simp_all add: d_def r_def)
    have e: "8 * length bs - 1 - k = (7 - r) + 8 * (length bs - 1 - d)" using k q assms(2) by (simp add: d_def)
    show "(8 * length bs - 1 - k) div 8 = length bs - 1 - k div 8" "(8 * length bs - 1 - k) mod 8 = 7 - k mod 8"
      unfolding e d_def [symmetric] r_def [symmetric] by simp_all
  qed
  moreover have "bit (foldl (\<lambda>v b. push_bit 8 v OR ucast b) (0 :: 64 word) bs) k \<longleftrightarrow> bit (bs ! (length bs - Suc (k div 8))) (k mod 8)"
    unfolding foldl_le_read bit_le_read using assms q by (simp add: rev_nth)
  moreover have "7 - (7 - k mod 8) = k mod 8" by simp
  ultimately show ?thesis by (simp add: tag_bit_def)
qed

lemma tag_bit_take: "k < 8 * n \<Longrightarrow> tag_bit (take n t) k = tag_bit t k"
  by (simp add: tag_bit_def less_mult_imp_div_less mult.commute)

lemma ceil8:
  fixes \<beta> :: int
  assumes "0 < \<beta>" "\<beta> \<le> 64"
  shows "nat ((\<beta> + 7) div 8) \<le> 8"
    and "8 * nat ((\<beta> + 7) div 8) = nat \<beta> + nat (int (nat ((\<beta> + 7) div 8)) * 8 - \<beta>)"
proof -
  have d: "0 \<le> (\<beta> + 7) div 8" "\<beta> \<le> (\<beta> + 7) div 8 * 8" "(\<beta> + 7) div 8 \<le> 8" using assms by presburger+
  then show "nat ((\<beta> + 7) div 8) \<le> 8" by simp
  define m where "m = (\<beta> + 7) div 8"
  show "8 * nat ((\<beta> + 7) div 8) = nat \<beta> + nat (int (nat ((\<beta> + 7) div 8)) * 8 - \<beta>)"
    unfolding m_def [symmetric] using d assms unfolding m_def [symmetric] by linarith
qed

lemma RowTag_bin_bits:
  assumes "length t = 32" "0 < \<beta>" "\<beta> \<le> 64" "i < nat \<beta>"
  shows "bit (RowTag_bin t \<beta>) (nat \<beta> - 1 - i) = tag_bit t i"
proof -
  define n e where "n = nat ((\<beta> + 7) div 8)" and "e = nat (int n * 8 - \<beta>)"
  have n: "n \<le> 8" "nat \<beta> \<le> 8 * n" and e: "8 * n = nat \<beta> + e"
    using ceil8 [OF assms(2,3)] by (simp_all only: n_def e_def)
  have len: "length (take n t) = n" using n(1) assms(1) by simp
  let ?v = "foldl (\<lambda>v b. push_bit 8 v OR ucast b) (0 :: 64 word) (take n t)"
  have bin: "RowTag_bin t \<beta> = drop_bit e ?v"
    using assms(2,3) by (auto simp: RowTag_bin_def Let_def e_def n_def)
  have "bit (drop_bit e ?v) (nat \<beta> - 1 - i) = bit ?v (e + (nat \<beta> - 1 - i))" by (simp add: bit_drop_bit_eq)
  also have "\<dots> = tag_bit (take n t) (8 * n - 1 - (e + (nat \<beta> - 1 - i)))"
    using bit_foldl_bytes [of "take n t" "e + (nat \<beta> - 1 - i)"] len n(1) e assms(4) by simp
  also have "8 * n - 1 - (e + (nat \<beta> - 1 - i)) = i" using e assms(4) by simp
  also have "tag_bit (take n t) i = tag_bit t i" using n(2) assms(4) by (intro tag_bit_take) simp
  finally show ?thesis by (simp only: bin)
qed

lemma RowTag_bin_high:
  assumes "length t = 32" "0 < \<beta>" "\<beta> \<le> 64" "nat \<beta> \<le> k"
  shows "\<not> bit (RowTag_bin t \<beta>) k"
proof -
  define n e where "n = nat ((\<beta> + 7) div 8)" and "e = nat (int n * 8 - \<beta>)"
  have n: "n \<le> 8" and e: "8 * n = nat \<beta> + e" using ceil8 [OF assms(2,3)] by (simp_all only: n_def e_def)
  let ?v = "foldl (\<lambda>v b. push_bit 8 v OR ucast b) (0 :: 64 word) (take n t)"
  have bin: "RowTag_bin t \<beta> = drop_bit e ?v" using assms(2,3) by (auto simp: RowTag_bin_def Let_def e_def n_def)
  have "\<not> (e + k) div 8 < n" using e assms(4) by simp
  then show ?thesis unfolding bin foldl_le_read bit_drop_bit_eq comp_def bit_le_read using assms(1) n by simp
qed


lemma bit_shifted_one:
  fixes b :: "8 word"
  assumes "p < 8" "q < 8"
  shows "bit (push_bit p (drop_bit n b AND 1)) q \<longleftrightarrow> p = q \<and> bit b n"
proof -
  have and1: "bit (drop_bit n b AND 1) j \<longleftrightarrow> j = 0 \<and> bit b n" for j
    by (cases j) (auto simp: bit_and_iff bit_1_iff bit_drop_bit_eq)
  have "bit (push_bit p (drop_bit n b AND 1)) q \<longleftrightarrow> p \<le> q \<and> q < 8 \<and> bit (drop_bit n b AND 1) (q - p)"
    by (simp only: bit_push_bit_iff possible_bit_word len_num0 len_bit0 len_num1) simp
  then show ?thesis unfolding and1 using assms by auto
qed

lemma tag_bit_update:
  fixes out :: bytes
  assumes "i < 8 * length out" "k < 8 * length out"
  shows "tag_bit (out[i div 8 := out ! (i div 8) OR push_bit (7 - i mod 8) (drop_bit n b AND 1)]) k =
    (tag_bit out k \<or> k = i \<and> bit b n)"
proof (cases "k div 8 = i div 8")
  case True
  have r: "7 - i mod 8 < 8" "7 - k mod 8 < 8" by simp_all
  have "i mod 8 \<le> 7" "k mod 8 \<le> 7" by simp_all
  then have m: "7 - i mod 8 = 7 - k mod 8 \<longleftrightarrow> i mod 8 = k mod 8" by linarith
  have e: "i mod 8 = k mod 8 \<longleftrightarrow> k = i" using True by (metis div_mult_mod_eq)
  have len: "i div 8 < length out" using assms(1) by simp
  show ?thesis
    unfolding tag_bit_def True nth_list_update_eq [OF len] bit_or_iff bit_shifted_one [OF r] m e by (rule refl)
next
  case False
  then have "k \<noteq> i" by blast
  have ne: "i div 8 \<noteq> k div 8" using False by simp
  show ?thesis unfolding tag_bit_def nth_list_update_neq [OF ne] using \<open>k \<noteq> i\<close> by simp
qed

lemma set_out_bit_step:
  assumes "src < 8 * length t" "i < 8 * length out"
  shows "returns (set_out_bit src t i out) (\<lambda>out'. length out' = length out \<and>
    (\<forall>k<8 * length out. tag_bit out' k = (tag_bit out k \<or> k = i \<and> tag_bit t src)))"
proof -
  have b: "src div 8 < length t" "i div 8 < length out" using assms by simp_all
  show ?thesis
    using tag_bit_update [OF assms(2), of _ "7 - src mod 8" "t ! (src div 8)"] b
    by (simp add: set_out_bit_def Let_def) (simp add: tag_bit_def)
qed

lemma RowTag_key_bits:
  assumes t: "length t = 32" and "0 \<le> \<beta>" "0 < \<tau>" "\<beta> + \<tau> \<le> 256"
  shows "returns (RowTag_key t \<beta> \<tau>) (\<lambda>key. length key = (nat \<tau> + 7) div 8 \<and>
    (\<forall>i<8 * length key. tag_bit key i = (i < nat \<tau> \<and> tag_bit t (nat \<beta> + i))))"
proof -
  define m T where "m = (nat \<tau> + 7) div 8" and "T = nat \<tau>"
  have T: "T \<le> 8 * m" "nat \<beta> + T \<le> 256" using assms(2-4) by (simp_all add: m_def T_def)
  let ?I = "\<lambda>i out. length out = m \<and> (\<forall>k<8 * m. tag_bit out k = (k < i \<and> tag_bit t (nat \<beta> + k)))"
  have "returns (foldE (\<lambda>i. set_out_bit (nat \<beta> + i) t i) [0..<T] (replicate m 0)) (?I T)"
  proof (rule returns_foldE_upt)
    show "?I 0 (replicate m 0)" by (auto simp: tag_bit_def)
    fix i out assume i: "i < T" and I: "?I i out"
    have "returns (set_out_bit (nat \<beta> + i) t i out) (\<lambda>out'. length out' = length out \<and>
        (\<forall>k<8 * length out. tag_bit out' k = (tag_bit out k \<or> k = i \<and> tag_bit t (nat \<beta> + i))))"
      by (rule set_out_bit_step) (use i I T t in simp_all)
    then show "returns (set_out_bit (nat \<beta> + i) t i out) (?I (Suc i))"
      by (rule returns_mono) (use I in \<open>auto simp: less_Suc_eq\<close>)
  qed
  moreover have "RowTag_key t \<beta> \<tau> = foldE (\<lambda>i. set_out_bit (nat \<beta> + i) t i) [0..<T] (replicate m 0)"
    using assms by (simp add: RowTag_key_def throw_if_def m_def T_def Let_def)
  ultimately have "returns (RowTag_key t \<beta> \<tau>) (?I T)" by simp
  then show ?thesis by (rule returns_mono) (auto simp: m_def T_def)
qed

text \<open>C30: The bin of a tag is its first \<open>\<beta>\<close> bits as a number, and its key is the next \<open>\<tau>\<close> bits packed
  from the most significant end and padded with zeros: no bit of the tag is in both.\<close>

theorem RowTag_slices:
  assumes "length t = 32" "0 < \<beta>" "\<beta> \<le> 64" "0 < \<tau>" "\<beta> + \<tau> \<le> 256"
  shows "(\<forall>i<nat \<beta>. bit (RowTag_bin t \<beta>) (nat \<beta> - 1 - i) = tag_bit t i) \<and> (\<forall>k\<ge>nat \<beta>. \<not> bit (RowTag_bin t \<beta>) k) \<and>
    returns (RowTag_key t \<beta> \<tau>) (\<lambda>key. length key = (nat \<tau> + 7) div 8 \<and>
      (\<forall>i<8 * length key. tag_bit key i = (i < nat \<tau> \<and> tag_bit t (nat \<beta> + i))))"
  using RowTag_bin_bits [OF assms(1-3)] RowTag_bin_high [OF assms(1-3)] RowTag_key_bits [OF assms(1) _ assms(4,5)] assms(2)
  by simp


subsection \<open>Closed examples\<close>

definition toy_server :: "int \<Rightarrow> DkgState" where
  "toy_server k = \<lparr>dkg_k = enc13 k, dkg_Y = enc13 6, dkg_Y1 = enc13 2, dkg_Y2 = enc13 3\<rparr>"

theorem deriveEntityKey_correct_witness:
  "map_sum id fst (deriveEntityKey toy_sodium ''a'' ''b'' [] (enc13 2) (enc13 3) (enc13 6)
     (serve (\<lambda>U. oprfServerHop1 toy_sodium (toy_server 2) U []) (\<lambda>_ _ t. Suc t))
     (serve (\<lambda>U. oprfServerHop2 toy_sodium (toy_server 3) U []) (\<lambda>_ _ t. Suc t)) (0, 0)) = Inr (enc13 (2 * 3 * 11), True)"
  (is "map_sum id fst ?v = _")
proof -
  have r: "?v = Inr ((fst (fst (projr ?v)), snd (fst (projr ?v))), snd (projr ?v))"
    using Inr_projr [of ?v] by (simp only: prod.collapse) code_simp
  have "short []" by (simp add: short_def)
  moreover have "entity_point toy_sodium ''a'' ''b'' = Inr (enc13 11)" by code_simp
  ultimately have "snd (fst (projr ?v)) \<and> fst (fst (projr ?v)) = enc13 (2 * 3 * 11)"
    by (intro deriveEntityKey_correct [OF toy_laws _ _ _ _ _ _ r]) (simp_all add: toy_server_def)
  then show ?thesis by (subst r) (simp add: prod_eq_iff)
qed

theorem dkg_run_agrees_witness:
  "\<exists>ok s1 s2 rg'. dkg_run toy_sodium [] 0 = Inr ((ok, s1, s2), rg') \<and> ok \<and> dkg_Y s1 = dkg_Y s2"
proof -
  obtain ok s1 s2 rg' where r: "projr (dkg_run toy_sodium [] 0) = ((ok, s1, s2), rg')" by (metis surj_pair)
  have "dkg_run toy_sodium [] 0 = Inr (projr (dkg_run toy_sodium [] 0))" by (rule Inr_projr) code_simp
  then have run: "dkg_run toy_sodium [] 0 = Inr ((ok, s1, s2), rg')" unfolding r .
  have "short []" by (simp add: short_def)
  from dkg_run_agrees [OF toy_laws this run] have "ok \<and> dkg_Y s1 = dkg_Y s2" by (auto simp: dkg_agree_def)
  with run show ?thesis by blast
qed

theorem row_tag_bytes_injective_witness:
  "row_tag_bytes ''a'' ''b'' 1 (replicate 32 0) [] \<noteq> row_tag_bytes ''a'' ''b'' 2 (replicate 32 0) []"
proof
  assume eq: "row_tag_bytes ''a'' ''b'' 1 (replicate 32 0) [] = row_tag_bytes ''a'' ''b'' 2 (replicate 32 0) []"
  have s: "short []" "short (str_bytes ''a'')" "short (str_bytes ''b'')" "length (replicate 32 (0 :: byte)) = 32"
    by (simp_all add: short_def)
  have "(1 :: 32 word) = 2" using row_tag_bytes_injective [OF s s eq] by blast
  then show False by simp
qed

theorem RowTag_slices_witness:
  "bit (RowTag_bin (0xAB # 0xCD # replicate 30 0) 12) 11 \<and> RowTag_bin (0xAB # 0xCD # replicate 30 0) 12 = 0xABC"
proof -
  have "length (0xAB # 0xCD # replicate 30 (0 :: byte)) = 32" by simp
  from conjunct1 [OF RowTag_slices [OF this, of 12 8], rule_format, of 0]
  have "bit (RowTag_bin (0xAB # 0xCD # replicate 30 0) 12) 11" by (simp add: tag_bit_def)
  moreover have "RowTag_bin (0xAB # 0xCD # replicate 30 0) 12 = 0xABC" by code_simp
  ultimately show ?thesis by blast
qed


theorem dleqVerify_false_statement_witness:
  "\<exists>a b. dleq_challenge toy_sodium (enc13 2) (enc13 3) (enc13 7) (enc13 a) (enc13 b) [] = Inr (enc13 5) \<and>
    (\<forall>c' s'. (s' - c' * 2) mod 13 = a mod 13 \<and> (s' * 3 - c' * 7) mod 13 = b mod 13 \<longrightarrow> enc13 c' = enc13 5)"
proof -
  let ?p = "\<lparr>dl_c = enc13 5, dl_s = enc13 2\<rparr>"
  have "dleqVerify toy_sodium (enc13 2) (enc13 3) (enc13 7) ?p [] = Inr True" by code_simp
  from dleqVerify_false_statement [OF toy_laws refl refl refl _ _ this, of 5 2] show ?thesis by simp
qed

end
