(* ===== verification/Topology.thy ===== *)
theory Topology
  imports Oprf Beaver_Triple
begin

text \<open>
  The two-server session of the statistics pipeline (\<open>volePSI/MpsvsTopology.h\<close>,
  \<open>volePSI/MpsvsTopology.cpp\<close>): roles, the public context, the bag of Beaver triples that serves a
  session once, the audited transcript of the servers, and the coordinator that runs key generation
  and drives the clients' queries against their cap.

  A method of the coordinator that throws keeps what it had already written to the session, so a
  call ends in \<open>Done\<close> or \<open>Threw\<close>, both with the session as it is then. The two server structs have
  the same fields and are one record; key generation and queries draw from libsodium's generator,
  the triples from a \<open>prng\<close>.
\<close>

subsection \<open>Roles and the context\<close>

datatype Role = S1 | S2 | GT | MAS | DOS | MOM

primrec roleName :: "Role \<Rightarrow> string" where
  "roleName S1 = ''S1''"
| "roleName S2 = ''S2''"
| "roleName GT = ''GT''"
| "roleName MAS = ''MAS''"
| "roleName DOS = ''DOS''"
| "roleName MOM = ''MOM''"

definition isClientRole :: "Role \<Rightarrow> bool" where
  "isClientRole r \<longleftrightarrow> r = MAS \<or> r = DOS \<or> r = MOM"

definition isServerRole :: "Role \<Rightarrow> bool" where
  "isServerRole r \<longleftrightarrow> r = S1 \<or> r = S2"

text \<open>A session id is its 16 bytes.\<close>

type_synonym SessionId = bytes

definition SessionId_random :: "'r sodium \<Rightarrow> 'r \<Rightarrow> (SessionId \<times> 'r) result" where
  "SessionId_random sd rg =
     throw_if (sodium_init sd < 0) (RuntimeError ''libsodium sodium_init() failed'') (Inr (random_bytes sd 16 rg))"

definition hex_digit :: "byte \<Rightarrow> char" where
  "hex_digit b = ''0123456789abcdef'' ! unat b"

definition toHex :: "SessionId \<Rightarrow> string" where
  "toHex sid = concat (map (\<lambda>b. [hex_digit (drop_bit 4 b), hex_digit (b AND 0x0F)]) sid)"

record PhiSummary =
  protocol_version :: "32 word"
  epoch_id :: "32 word"
  phi_beta :: "32 word"
  phi_tau :: "32 word"
  phi_B :: "32 word"
  radix_enabled :: bool
  Q_tilde :: "32 word"
  cap_P :: "32 word"
  N_hat :: "32 word"

definition PhiSummary_default :: PhiSummary where
  "PhiSummary_default = \<lparr>protocol_version = 7, epoch_id = 0, phi_beta = 13, phi_tau = 71, phi_B = 128,
     radix_enabled = True, Q_tilde = 0, cap_P = 0, N_hat = 0\<rparr>"

definition makeContext :: "PhiSummary \<Rightarrow> SessionId \<Rightarrow> bytes \<Rightarrow> Context result" where
  "makeContext phi sid nonce =
     bindE (appendLP (appendFixedWidthU32 (appendFixedWidthU32 [] (protocol_version phi)) (epoch_id phi)) sid)
       (\<lambda>ctx. appendLP ctx nonce)"

subsection \<open>State of the roles\<close>

record ServerState =
  sv_dkg :: DkgState
  beaver_bag_view :: "BeaverTripleU64 list"

record GtState =
  gt_phi :: PhiSummary
  gt_session :: SessionId
  gt_attestations :: "(Role \<times> string \<times> string) list"
  gt_final_release :: bytes

record ClientState =
  cl_role :: Role
  raw_id_types :: "string list"
  raw_ids :: "string list"
  entity_keys :: "GroupElement list"
  row_tags :: "bytes list"
  oprf_queries_made :: "32 word"

definition fresh_server :: ServerState where
  "fresh_server = \<lparr>sv_dkg = dkg_empty, beaver_bag_view = []\<rparr>"

definition fresh_client :: "Role \<Rightarrow> ClientState" where
  "fresh_client r = \<lparr>cl_role = r, raw_id_types = [], raw_ids = [], entity_keys = [], row_tags = [], oprf_queries_made = 0\<rparr>"

text \<open>The Beaver bag is the set of the ids it served. Both views are the whole share table.\<close>

type_synonym BeaverBag = "string set"

definition sessionUsed :: "BeaverBag \<Rightarrow> SessionId \<Rightarrow> bool" where
  "sessionUsed used sid \<longleftrightarrow> toHex sid \<in> used"

definition bag_refuses :: "BeaverBag \<Rightarrow> SessionId \<Rightarrow> exn option" where
  "bag_refuses used sid =
     (if toHex sid \<in> used
      then Some (RuntimeError (''BeaverBag: session '' @ toHex sid @ '' already provisioned - no triple reuse across runs''))
      else None)"

definition bag_views ::
  "'g prng \<Rightarrow> nat \<Rightarrow> 'g \<Rightarrow> ((BeaverTripleU64 list \<times> BeaverTripleU64 list) \<times> 'g) result" where
  "bag_views G count g = bindE (generateBeaverTriples G 2 count g) (\<lambda>(triples, g'). Inr ((triples, triples), g'))"

record Entry =
  en_role :: Role
  en_event :: string
  en_payload :: bytes

type_synonym SpTranscript = "Entry list"

definition transcript_append :: "Role \<Rightarrow> string \<Rightarrow> bytes \<Rightarrow> SpTranscript \<Rightarrow> SpTranscript" where
  "transcript_append r event payload log = log @ [\<lparr>en_role = r, en_event = event, en_payload = payload\<rparr>]"

fun auditFixedShape :: "SpTranscript \<Rightarrow> (string \<rightharpoonup> nat) \<Rightarrow> bool" where
  "auditFixedShape [] class_max = True"
| "auditFixedShape (e # es) class_max =
     (case class_max (en_event e) of
        None \<Rightarrow> False
      | Some n \<Rightarrow> if n < length (en_payload e) then False else auditFixedShape es class_max)"

subsection \<open>The session\<close>

record TopologySession =
  mPhi :: PhiSummary
  mSid :: SessionId
  mCtx :: Context
  mS1 :: ServerState
  mS2 :: ServerState
  mGt :: GtState
  mMas :: ClientState
  mDos :: ClientState
  mMom :: ClientState
  mBeaverBag :: BeaverBag
  mTranscript :: SpTranscript
  mDkgDone :: bool

datatype 'r outcome = Done TopologySession 'r | Threw exn TopologySession

primrec session_after :: "'r outcome \<Rightarrow> TopologySession" where
  "session_after (Done s rg) = s"
| "session_after (Threw e s) = s"

text \<open>A step that may throw: the session at that moment is what remains.\<close>

definition try_step :: "'a result \<Rightarrow> TopologySession \<Rightarrow> ('a \<Rightarrow> 'r outcome) \<Rightarrow> 'r outcome" where
  "try_step m s k = (case m of Inl e \<Rightarrow> Threw e s | Inr a \<Rightarrow> k a)"

definition new_session :: "PhiSummary \<Rightarrow> SessionId \<Rightarrow> bytes \<Rightarrow> TopologySession result" where
  "new_session phi sid nonce =
     bindE (makeContext phi sid nonce) (\<lambda>ctx.
     Inr \<lparr>mPhi = phi, mSid = sid, mCtx = ctx, mS1 = fresh_server, mS2 = fresh_server,
       mGt = \<lparr>gt_phi = phi, gt_session = sid, gt_attestations = [], gt_final_release = []\<rparr>,
       mMas = fresh_client MAS, mDos = fresh_client DOS, mMom = fresh_client MOM,
       mBeaverBag = {}, mTranscript = [], mDkgDone = False\<rparr>)"

definition client :: "TopologySession \<Rightarrow> Role \<Rightarrow> ClientState result" where
  "client s r =
     (case r of MAS \<Rightarrow> Inr (mMas s) | DOS \<Rightarrow> Inr (mDos s) | MOM \<Rightarrow> Inr (mMom s)
      | _ \<Rightarrow> Inl (RuntimeError ''client(): not a client role''))"

definition set_client :: "Role \<Rightarrow> ClientState \<Rightarrow> TopologySession \<Rightarrow> TopologySession" where
  "set_client r c s =
     (case r of MAS \<Rightarrow> s\<lparr>mMas := c\<rparr> | DOS \<Rightarrow> s\<lparr>mDos := c\<rparr> | MOM \<Rightarrow> s\<lparr>mMom := c\<rparr> | _ \<Rightarrow> s)"

definition log_entry :: "Role \<Rightarrow> string \<Rightarrow> bytes \<Rightarrow> TopologySession \<Rightarrow> TopologySession" where
  "log_entry r event payload s = s\<lparr>mTranscript := transcript_append r event payload (mTranscript s)\<rparr>"

definition set_dkg :: "DkgState \<Rightarrow> ServerState \<Rightarrow> ServerState" where
  "set_dkg d sv = sv\<lparr>sv_dkg := d\<rparr>"

text \<open>The payloads of the messages.\<close>

definition hop1_payload :: "DkgHop1 \<Rightarrow> bytes" where
  "hop1_payload m = h1_Y1 m @ sn_c (h1_pi1 m) @ sn_s (h1_pi1 m)"

definition hop2_payload :: "DkgHop2Final \<Rightarrow> bytes" where
  "hop2_payload m = h2_Y2 m @ sn_c (h2_pi2 m) @ sn_s (h2_pi2 m) @ h2_Y m @ dl_c (h2_piY m) @ dl_s (h2_piY m)"

definition oprf_payload :: "GroupElement \<Rightarrow> OprfResponse \<Rightarrow> bytes" where
  "oprf_payload U resp = U @ fst resp @ dl_c (snd resp) @ dl_s (snd resp)"

definition runDkg :: "'r sodium \<Rightarrow> TopologySession \<Rightarrow> 'r \<Rightarrow> 'r outcome" where
  "runDkg sd s rg =
     (if mDkgDone s then Threw (RuntimeError ''runDkg: DKG already completed for this session'') s else
      try_step (dkgS2Prepare sd (mCtx s) rg) s (\<lambda>(prep, rg1).
      let s1 = log_entry S2 ''dkg_commit'' (prep_commit prep) s in
      try_step (dkgS1SendHop1 sd (mCtx s) rg1) s1 (\<lambda>((k1, msg1), rg2).
      let s2 = log_entry S1 ''dkg_hop1'' (hop1_payload msg1) s1 in
      try_step (dkgS2Finalize sd (mCtx s) prep msg1 rg2) s2 (\<lambda>((finalMsg, d2), rg3).
      let s3 = log_entry S2 ''dkg_hop2'' (hop2_payload finalMsg) (s2\<lparr>mS2 := set_dkg d2 (mS2 s2)\<rparr>) in
      try_step (dkgS1Finalize sd (mCtx s) (prep_commit prep) k1 (h1_Y1 msg1) finalMsg (sv_dkg (mS1 s3))) s3 (\<lambda>(ok, d1).
      let s4 = s3\<lparr>mS1 := set_dkg d1 (mS1 s3)\<rparr> in
      if \<not> ok then Threw (RuntimeError ''runDkg: dkgS1Finalize failed'') s4 else
      Done (s4\<lparr>mDkgDone := True\<rparr>) rg3)))))"

definition provisionBeaver :: "'g prng \<Rightarrow> nat \<Rightarrow> TopologySession \<Rightarrow> 'g \<Rightarrow> 'g outcome" where
  "provisionBeaver G count s g =
     (case bag_refuses (mBeaverBag s) (mSid s) of
        Some e \<Rightarrow> Threw e s
      | None \<Rightarrow>
        let s1 = s\<lparr>mBeaverBag := insert (toHex (mSid s)) (mBeaverBag s)\<rparr> in
        try_step (bag_views G count g) s1 (\<lambda>((v1, v2), g').
        Done (s1\<lparr>mS1 := (mS1 s1)\<lparr>beaver_bag_view := v1\<rparr>, mS2 := (mS2 s1)\<lparr>beaver_bag_view := v2\<rparr>\<rparr>) g'))"

text \<open>The call-backs that answer a client and keep the transcript.\<close>

definition hop1_cb :: "'r sodium \<Rightarrow> TopologySession \<Rightarrow> GroupElement \<Rightarrow> 'r \<times> SpTranscript \<Rightarrow> (OprfResponse \<times> 'r \<times> SpTranscript) result" where
  "hop1_cb sd s = serve (\<lambda>U. oprfServerHop1 sd (sv_dkg (mS1 s)) U (mCtx s))
     (\<lambda>U resp. transcript_append S1 ''oprf_hop1'' (oprf_payload U resp))"

definition hop2_cb :: "'r sodium \<Rightarrow> TopologySession \<Rightarrow> GroupElement \<Rightarrow> 'r \<times> SpTranscript \<Rightarrow> (OprfResponse \<times> 'r \<times> SpTranscript) result" where
  "hop2_cb sd s = serve (\<lambda>V1. oprfServerHop2 sd (sv_dkg (mS2 s)) V1 (mCtx s))
     (\<lambda>V1 resp. transcript_append S2 ''oprf_hop2'' (oprf_payload V1 resp))"

text \<open>What the call-backs have written when \<open>deriveEntityKey\<close> ends, whether it returns or throws.\<close>

definition hops_log ::
  "'r sodium \<Rightarrow> string \<Rightarrow> string \<Rightarrow> Context \<Rightarrow> GroupElement \<Rightarrow>
     (GroupElement \<Rightarrow> 'r \<times> 't \<Rightarrow> (OprfResponse \<times> 'r \<times> 't) result) \<Rightarrow>
     (GroupElement \<Rightarrow> 'r \<times> 't \<Rightarrow> (OprfResponse \<times> 'r \<times> 't) result) \<Rightarrow> 'r \<times> 't \<Rightarrow> 't" where
  "hops_log sd id_type canonical_id ctx Y1 hop1_call hop2_call st =
     (case entity_point sd id_type canonical_id of Inl _ \<Rightarrow> snd st | Inr M \<Rightarrow>
      let (r, rg1) = scalar_random sd (fst st) in
      case oprf_scalarMult sd r M of Inl _ \<Rightarrow> snd st | Inr U \<Rightarrow>
      case hop1_call U (rg1, snd st) of Inl _ \<Rightarrow> snd st | Inr ((V1, p1), st1) \<Rightarrow>
      if dleqVerify sd Y1 U V1 p1 ctx \<noteq> Inr True then snd st1 else
      case hop2_call V1 st1 of Inl _ \<Rightarrow> snd st1 | Inr (_, st2) \<Rightarrow> snd st2)"

definition count_query :: "ClientState \<Rightarrow> ClientState" where
  "count_query c = c\<lparr>oprf_queries_made := oprf_queries_made c + 1\<rparr>"

definition add_row :: "string \<Rightarrow> string \<Rightarrow> GroupElement \<Rightarrow> bytes \<Rightarrow> ClientState \<Rightarrow> ClientState" where
  "add_row id_type canonical_id W tag c =
     c\<lparr>raw_id_types := raw_id_types c @ [id_type], raw_ids := raw_ids c @ [canonical_id],
       entity_keys := entity_keys c @ [W], row_tags := row_tags c @ [tag]\<rparr>"

definition clientDeriveKey ::
  "'r sodium \<Rightarrow> Role \<Rightarrow> string \<Rightarrow> string \<Rightarrow> 32 word \<Rightarrow> TopologySession \<Rightarrow> 'r \<Rightarrow> 'r outcome" where
  "clientDeriveKey sd client_role id_type canonical_id period s rg =
     (if \<not> mDkgDone s then Threw (RuntimeError ''clientDeriveKey: DKG not run yet'') s else
      if \<not> isClientRole client_role then Threw (RuntimeError ''clientDeriveKey: role is not a client role'') s else
      try_step (client s client_role) s (\<lambda>c.
      if 0 < Q_tilde (mPhi s) \<and> Q_tilde (mPhi s) \<le> oprf_queries_made c
      then Threw (RuntimeError (roleName client_role @ '': OPRF query cap Q exceeded - metering triggered'')) s else
      let c1 = count_query c;
          log = hops_log sd id_type canonical_id (mCtx s) (dkg_Y1 (sv_dkg (mS1 s))) (hop1_cb sd s) (hop2_cb sd s)
            (rg, mTranscript s);
          s1 = (set_client client_role c1 s)\<lparr>mTranscript := log\<rparr>
      in
      try_step (deriveEntityKey sd id_type canonical_id (mCtx s) (dkg_Y1 (sv_dkg (mS1 s))) (dkg_Y2 (sv_dkg (mS2 s)))
        (dkg_Y (sv_dkg (mS1 s))) (hop1_cb sd s) (hop2_cb sd s) (rg, mTranscript s)) s1 (\<lambda>((W, ok), rg', _).
      if \<not> ok then Threw (RuntimeError ''clientDeriveKey: OPRF failed (DLEQ mismatch)'') s1 else
      try_step (deriveRowTag sd id_type canonical_id period W (mCtx s)) s1 (\<lambda>tag.
      Done (set_client client_role (add_row id_type canonical_id W tag c1) s1) rg'))))"

definition auditGtBlindness :: "GtState \<Rightarrow> string" where
  "auditGtBlindness gt = ''''"


subsection \<open>A session id is served once\<close>

lemma hex_digit_inject: "unat a < 16 \<Longrightarrow> unat b < 16 \<Longrightarrow> hex_digit a = hex_digit b \<longleftrightarrow> a = b"
proof -
  assume "unat a < 16" "unat b < 16"
  moreover have "distinct ''0123456789abcdef''" "length ''0123456789abcdef'' = 16" by simp_all
  ultimately show ?thesis unfolding hex_digit_def by (metis nth_eq_iff_index_eq word_unat_eq_iff)
qed

lemma nibbles: "unat (drop_bit 4 (b :: byte)) = unat b div 16" "unat ((b :: byte) AND 0x0F) = unat b mod 16"
proof -
  have "(b AND 0x0F) = take_bit 4 b" by (simp add: take_bit_eq_mask mask_eq_exp_minus_1)
  then show "unat (b AND 0x0F) = unat b mod 16" by (simp add: take_bit_eq_mod unat_mod)
  show "unat (drop_bit 4 b) = unat b div 16" by (simp add: drop_bit_eq_div unat_div)
qed

lemma nibble_pair_inject:
  assumes "hex_digit (drop_bit 4 b) = hex_digit (drop_bit 4 c)" "hex_digit (b AND 0x0F) = hex_digit (c AND 0x0F)"
  shows "b = c"
proof -
  have "unat b < 256" "unat c < 256" using unsigned_less [of b] unsigned_less [of c] by simp_all
  then have "unat b div 16 < 16" "unat c div 16 < 16" by simp_all
  then have "drop_bit 4 b = drop_bit 4 c" "b AND 0x0F = c AND 0x0F"
    using assms by (simp_all add: hex_digit_inject nibbles)
  then have "unat b div 16 = unat c div 16" "unat b mod 16 = unat c mod 16" using nibbles by metis+
  then show ?thesis by (metis div_mult_mod_eq word_unat_eq_iff)
qed

lemma toHex_inject [simp]: "toHex a = toHex b \<longleftrightarrow> a = b"
proof
  assume "toHex a = toHex b"
  then show "a = b"
  proof (induction a arbitrary: b)
    case (Cons x xs)
    then obtain y ys where b: "b = y # ys" by (cases b) (auto simp: toHex_def)
    from Cons.prems have "hex_digit (drop_bit 4 x) = hex_digit (drop_bit 4 y)" "hex_digit (x AND 0x0F) = hex_digit (y AND 0x0F)"
      and "toHex xs = toHex ys" by (simp_all add: toHex_def b)
    with Cons.IH nibble_pair_inject b show ?case by blast
  qed (cases b, auto simp: toHex_def)
qed simp

lemma bag_views_returns:
  "returns (bag_views G count g) (\<lambda>((v1, v2), g'). v2 = v1 \<and> length v1 = count \<and> (\<forall>t\<in>set v1. triple_ok 2 t))"
  unfolding bag_views_def
  by (rule returns_bind_intro [OF generateBeaverTriples_returns]) auto

text \<open>Provisioning fills both servers' views with the same correct triples, and it does so exactly when the
  session was not served before; it serves no other session.\<close>

lemma provisionBeaver_once:
  "(case provisionBeaver G count s g of
      Done t g' \<Rightarrow> \<not> sessionUsed (mBeaverBag s) (mSid s) \<and>
        (\<forall>sid. sessionUsed (mBeaverBag t) sid \<longleftrightarrow> sid = mSid s \<or> sessionUsed (mBeaverBag s) sid) \<and>
        beaver_bag_view (mS1 t) = beaver_bag_view (mS2 t) \<and> length (beaver_bag_view (mS1 t)) = count \<and>
        (\<forall>tr\<in>set (beaver_bag_view (mS1 t)). triple_ok 2 tr)
    | Threw e t \<Rightarrow> sessionUsed (mBeaverBag s) (mSid s) \<and> t = s)"
proof -
  obtain v g' where v: "bag_views G count g = Inr ((v, v), g')" "length v = count" "\<forall>t\<in>set v. triple_ok 2 t"
    using bag_views_returns [of G count g] by (auto elim!: returnsE)
  then show ?thesis by (auto simp: provisionBeaver_def bag_refuses_def sessionUsed_def try_step_def Let_def)
qed


subsection \<open>How a query ends\<close>

text \<open>A proof with a zero scalar, which verification cannot read.\<close>

definition zero_proof :: "DLEQProof \<Rightarrow> bool" where
  "zero_proof p \<longleftrightarrow> dl_c p = scalar_zero \<or> dl_s p = scalar_zero"

definition proof_shape :: "(int \<Rightarrow> Scalar) \<Rightarrow> DLEQProof \<Rightarrow> bool" where
  "proof_shape sc p \<longleftrightarrow> (\<exists>c s. dl_c p = sc c \<and> dl_s p = sc s)"

lemma dleqProve_ends:
  assumes G: "ristretto_laws sd L sc el" and ctx: "short ctx" and k: "k mod L \<noteq> 0" and u: "u mod L \<noteq> 0"
  obtains p rg' where "dleqProve sd (sc k) (el k) (el u) (el (k * u)) ctx rg = Inr (p, rg')" "proof_shape sc p"
    and "zero_proof p \<Longrightarrow> \<exists>e. dleqVerify sd (el k) (el u) (el (k * u)) p ctx = Inl e"
    and "\<not> zero_proof p \<Longrightarrow> dleqVerify sd (el k) (el u) (el (k * u)) p ctx = Inr True"
proof -
  obtain r r1 where r: "scalar_random sd rg = (sc r, r1)" "r mod L \<noteq> 0" by (rule raw_random [OF G])
  obtain c where c: "dleq_challenge sd (el k) (el u) (el (k * u)) (el r) (el (r * u)) ctx = Inr (sc c)"
    by (rule dleq_challenge_sc [OF G ctx])
  let ?p = "\<lparr>dl_c = sc c, dl_s = sc (r + c * k)\<rparr>"
  note eqs = oprf_mult_base_eq [OF G] oprf_mult_eq [OF G] raw_ops [OF G]
  have p: "dleqProve sd (sc k) (el k) (el u) (el (k * u)) ctx rg = Inr (?p, r1)"
    using r u c by (simp add: dleqProve_def eqs laws_field [OF G])
  have z: "zero_proof ?p \<longleftrightarrow> c mod L = 0 \<or> (r + c * k) mod L = 0"
    by (simp add: zero_proof_def laws_consts(1) [OF G] laws_sc [OF G])
  have e: "el ((r + c * k) * u - c * (k * u)) = el (r * u)" by (simp add: algebra_simps)
  show thesis
  proof (rule that [OF p])
    show "proof_shape sc ?p" by (auto simp: proof_shape_def)
    show "\<exists>e. dleqVerify sd (el k) (el u) (el (k * u)) ?p ctx = Inl e" if "zero_proof ?p"
      using that by (auto simp: z dleqVerify_def eqs laws_field [OF G])
    show "dleqVerify sd (el k) (el u) (el (k * u)) ?p ctx = Inr True" if "\<not> zero_proof ?p"
      using that k u c e by (simp add: z dleqVerify_def eqs laws_field [OF G])
  qed
qed

lemma hop1_ends:
  assumes G: "ristretto_laws sd L sc el" and ctx: "short ctx" and d: "dkg_k d = sc k" "dkg_Y1 d = el k"
    and k: "k mod L \<noteq> 0" and u: "u mod L \<noteq> 0"
  obtains p rg' where "serve (\<lambda>U. oprfServerHop1 sd d U ctx) keep (el u) st =
      Inr ((el (k * u), p), rg', keep (el u) (el (k * u), p) (snd st))" "proof_shape sc p"
    and "zero_proof p \<Longrightarrow> \<exists>e. dleqVerify sd (el k) (el u) (el (k * u)) p ctx = Inl e"
    and "\<not> zero_proof p \<Longrightarrow> dleqVerify sd (el k) (el u) (el (k * u)) p ctx = Inr True"
  by (rule dleqProve_ends [OF G ctx k u, of "fst st"])
    (simp add: serve_def oprfServerHop1_def raw_ops [OF G] oprf_mult_eq [OF G] laws_field [OF G] d k u)

lemma hop2_ends:
  assumes G: "ristretto_laws sd L sc el" and ctx: "short ctx" and d: "dkg_k d = sc k" "dkg_Y2 d = el k"
    and k: "k mod L \<noteq> 0" and u: "u mod L \<noteq> 0"
  obtains p rg' where "serve (\<lambda>U. oprfServerHop2 sd d U ctx) keep (el u) st =
      Inr ((el (k * u), p), rg', keep (el u) (el (k * u), p) (snd st))" "proof_shape sc p"
    and "zero_proof p \<Longrightarrow> \<exists>e. dleqVerify sd (el k) (el u) (el (k * u)) p ctx = Inl e"
    and "\<not> zero_proof p \<Longrightarrow> dleqVerify sd (el k) (el u) (el (k * u)) p ctx = Inr True"
  by (rule dleqProve_ends [OF G ctx k u, of "fst st"])
    (simp add: serve_def oprfServerHop2_def raw_ops [OF G] oprf_mult_eq [OF G] laws_field [OF G] d k u)

lemma entity_point_el:
  assumes G: "ristretto_laws sd L sc el" and M: "entity_point sd a b = Inr M"
  obtains m where "M = el m"
proof -
  have "length (sha512 sd x) = 64" for x using ristretto_lawsD(5) [OF G] by blast
  then have "\<exists>m. core_from_hash sd (sha512 sd x) = Some (el m)" for x using el_lawsD(11) [OF G] by blast
  then show thesis
    using M that by (auto simp: entity_point_def bindE_eq_Inr hashToGroup_def or_throw_def split: option.splits)
qed

text \<open>A query ends in one of four ways; a proof that does not verify is none of them.\<close>

lemma query_ends:
  assumes G: "ristretto_laws sd L sc el" and ctx: "short ctx"
    and d1: "dkg_k d1 = sc k1" "dkg_Y1 d1 = el k1" and d2: "dkg_k d2 = sc k2" "dkg_Y2 d2 = el k2"
    and k: "k1 mod L \<noteq> 0" "k2 mod L \<noteq> 0"
    and h1: "h1 = serve (\<lambda>U. oprfServerHop1 sd d1 U ctx) keep1" and h2: "h2 = serve (\<lambda>U. oprfServerHop2 sd d2 U ctx) keep2"
  obtains
    (unasked) e where "deriveEntityKey sd a b ctx (el k1) (el k2) Y h1 h2 st = Inl e"
      and "hops_log sd a b ctx (el k1) h1 h2 st = snd st" and "\<And>M. entity_point sd a b = Inr M \<Longrightarrow> M = point_identity"
  | (first) e u p where "deriveEntityKey sd a b ctx (el k1) (el k2) Y h1 h2 st = Inl e" "proof_shape sc p" "zero_proof p"
      and "hops_log sd a b ctx (el k1) h1 h2 st = keep1 (el u) (el (k1 * u), p) (snd st)"
  | (second) e u p q where "deriveEntityKey sd a b ctx (el k1) (el k2) Y h1 h2 st = Inl e"
      and "proof_shape sc p" "proof_shape sc q" "zero_proof q"
      and "hops_log sd a b ctx (el k1) h1 h2 st =
        keep2 (el (k1 * u)) (el (k2 * (k1 * u)), q) (keep1 (el u) (el (k1 * u), p) (snd st))"
  | (answered) m u p q rg' where "entity_point sd a b = Inr (el m)" "proof_shape sc p" "proof_shape sc q"
      and "hops_log sd a b ctx (el k1) h1 h2 st =
        keep2 (el (k1 * u)) (el (k2 * (k1 * u)), q) (keep1 (el u) (el (k1 * u), p) (snd st))"
      and "deriveEntityKey sd a b ctx (el k1) (el k2) Y h1 h2 st =
        Inr ((el (k1 * k2 * m), True), rg', hops_log sd a b ctx (el k1) h1 h2 st)"
proof (cases "entity_point sd a b")
  case (Inl e)
  show thesis by (rule unasked) (simp_all add: deriveEntityKey_def hops_log_def Inl)
next
  case (Inr M)
  then obtain m where M: "entity_point sd a b = Inr (el m)" by (metis entity_point_el [OF G])
  obtain r rg1 where r: "scalar_random sd (fst st) = (sc r, rg1)" "r mod L \<noteq> 0" by (rule raw_random [OF G])
  show thesis
  proof (cases "m mod L = 0")
    case True
    have U: "oprf_scalarMult sd (sc r) (el m) = Inl (RuntimeError ''scalarMult failed (bad point or zero scalar)'')"
      using True by (simp add: oprf_mult_eq [OF G] laws_field [OF G])
    have "el m = point_identity" using True by (simp add: laws_consts(3) [OF G] laws_el [OF G])
    then have "\<And>M. entity_point sd a b = Inr M \<Longrightarrow> M = point_identity" using M by simp
    then show thesis by (rule unasked [rotated 2]) (simp_all only: deriveEntityKey_def hops_log_def M r U bindE_simps sum.case Let_def prod.case)
  next
    case False
    have U: "oprf_scalarMult sd (sc r) (el m) = Inr (el (r * m))"
      using r False by (simp add: oprf_mult_eq [OF G] laws_field [OF G])
    have u: "r * m mod L \<noteq> 0" "k1 * (r * m) mod L \<noteq> 0" using r False k by (simp_all add: laws_field [OF G])
    obtain p rg2 where p: "h1 (el (r * m)) (rg1, snd st) = Inr ((el (k1 * (r * m)), p), rg2, keep1 (el (r * m)) (el (k1 * (r * m)), p) (snd st))"
        "proof_shape sc p"
      and pz: "zero_proof p \<Longrightarrow> \<exists>e. dleqVerify sd (el k1) (el (r * m)) (el (k1 * (r * m))) p ctx = Inl e"
      and pn: "\<not> zero_proof p \<Longrightarrow> dleqVerify sd (el k1) (el (r * m)) (el (k1 * (r * m))) p ctx = Inr True"
      unfolding h1 by (rule hop1_ends [OF G ctx d1 k(1) u(1), of keep1 "(rg1, snd st)"]) (auto simp: prod_eq_iff)
    show thesis
    proof (cases "zero_proof p")
      case True
      then obtain e where "dleqVerify sd (el k1) (el (r * m)) (el (k1 * (r * m))) p ctx = Inl e" using pz by blast
      then show thesis using p True by (intro first) (simp_all add: deriveEntityKey_def hops_log_def M r U)
    next
      case False
      note v1 = pn [OF False]
      let ?l1 = "keep1 (el (r * m)) (el (k1 * (r * m)), p) (snd st)"
      obtain q rg3 where q: "h2 (el (k1 * (r * m))) (rg2, ?l1) = Inr ((el (k2 * (k1 * (r * m))), q), rg3,
          keep2 (el (k1 * (r * m))) (el (k2 * (k1 * (r * m))), q) ?l1)" "proof_shape sc q"
        and qz: "zero_proof q \<Longrightarrow> \<exists>e. dleqVerify sd (el k2) (el (k1 * (r * m))) (el (k2 * (k1 * (r * m)))) q ctx = Inl e"
        and qn: "\<not> zero_proof q \<Longrightarrow> dleqVerify sd (el k2) (el (k1 * (r * m))) (el (k2 * (k1 * (r * m)))) q ctx = Inr True"
        unfolding h2 by (rule hop2_ends [OF G ctx d2 k(2) u(2), of keep2 "(rg2, ?l1)"]) (auto simp: prod_eq_iff)
      have log: "hops_log sd a b ctx (el k1) h1 h2 st = keep2 (el (k1 * (r * m))) (el (k2 * (k1 * (r * m))), q) ?l1"
        by (simp add: hops_log_def M r U p v1 q)
      show thesis
      proof (cases "zero_proof q")
        case True
        then obtain e where "dleqVerify sd (el k2) (el (k1 * (r * m))) (el (k2 * (k1 * (r * m)))) q ctx = Inl e" using qz by blast
        then show thesis using p q True log by (intro second) (simp_all add: deriveEntityKey_def M r U v1)
      next
        case False
        note v2 = qn [OF False]
        obtain i where i: "scalarInvert sd (sc r) = Inr (sc i)" "r * i mod L = 1" by (rule laws_scalarInvert [OF G r(2)])
        then have inv: "oprf_scalarInvert sd (sc r) = Inr (sc i)"
          by (auto simp: scalarInvert_def oprf_scalarInvert_def or_throw_def laws_init [OF G] split: option.splits)
        have "i mod L \<noteq> 0" using i(2) laws_field [OF G, of r i] by auto
        then have "i * (k2 * (k1 * (r * m))) mod L \<noteq> 0" using k u by (simp add: laws_field [OF G])
        then have W: "oprf_scalarMult sd (sc i) (el (k2 * (k1 * (r * m)))) = Inr (el (k1 * k2 * m))"
          by (simp add: oprf_mult_eq [OF G] unblind [OF G i(2)])
        show thesis
          by (rule answered [OF M p(2) q(2) log])
            (simp add: log deriveEntityKey_def M r U p(1) v1 q(1) v2 inv W)
      qed
    qed
  qed
qed


subsection \<open>How key generation and a client's call end\<close>

text \<open>The events of the transcript and the size of their payloads.\<close>

definition event_classes :: "string \<rightharpoonup> nat" where
  "event_classes = [''dkg_commit'' \<mapsto> 32, ''dkg_hop1'' \<mapsto> 96, ''dkg_hop2'' \<mapsto> 192, ''oprf_hop1'' \<mapsto> 128, ''oprf_hop2'' \<mapsto> 128]"

definition fixed_entry :: "Entry \<Rightarrow> bool" where
  "fixed_entry e \<longleftrightarrow> event_classes (en_event e) = Some (length (en_payload e))"

definition fixed_log :: "SpTranscript \<Rightarrow> bool" where
  "fixed_log log \<longleftrightarrow> (\<forall>e\<in>set log. fixed_entry e)"

lemma fixed_log_simps [simp]:
  "fixed_log []" "fixed_log (e # log) \<longleftrightarrow> fixed_entry e \<and> fixed_log log"
  "fixed_log (log @ log') \<longleftrightarrow> fixed_log log \<and> fixed_log log'"
  by (auto simp: fixed_log_def)

lemma fixed_log_audit: "fixed_log log \<Longrightarrow> auditFixedShape log event_classes"
  by (induction log) (auto simp: fixed_entry_def)

text \<open>A recorded query whose proof has a zero scalar.\<close>

definition zero_entry :: "Entry \<Rightarrow> bool" where
  "zero_entry e \<longleftrightarrow> take 32 (drop 64 (en_payload e)) = scalar_zero \<or> drop 96 (en_payload e) = scalar_zero"

lemma oprf_entry:
  assumes G: "ristretto_laws sd L sc el" and p: "proof_shape sc p"
  shows "length (oprf_payload (el u) (el v, p)) = 128"
    and "zero_entry \<lparr>en_role = r, en_event = ev, en_payload = oprf_payload (el u) (el v, p)\<rparr> \<longleftrightarrow> zero_proof p"
proof -
  have "length (dl_c p) = 32" "length (dl_s p) = 32" using p by (auto simp: proof_shape_def laws_lengths [OF G])
  then show "length (oprf_payload (el u) (el v, p)) = 128"
    and "zero_entry \<lparr>en_role = r, en_event = ev, en_payload = oprf_payload (el u) (el v, p)\<rparr> \<longleftrightarrow> zero_proof p"
    by (simp_all add: oprf_payload_def zero_entry_def zero_proof_def laws_lengths [OF G])
qed

text \<open>Key generation changes the keys, the transcript and the flag; all else it leaves.\<close>

definition dkg_frame :: "TopologySession \<Rightarrow> TopologySession \<Rightarrow> bool" where
  "dkg_frame s t \<longleftrightarrow>
     (mPhi t = mPhi s \<and> mSid t = mSid s \<and> mCtx t = mCtx s \<and> mGt t = mGt s) \<and>
     (mMas t = mMas s \<and> mDos t = mDos s \<and> mMom t = mMom s \<and> mBeaverBag t = mBeaverBag s) \<and>
     beaver_bag_view (mS1 t) = beaver_bag_view (mS1 s) \<and> beaver_bag_view (mS2 t) = beaver_bag_view (mS2 s) \<and>
     (\<exists>log. fixed_log log \<and> mTranscript t = mTranscript s @ log)"

lemma dkg_frame_refl: "dkg_frame s s"
  by (simp add: dkg_frame_def)

lemma dkg_frame_trans: "dkg_frame s t \<Longrightarrow> dkg_frame t u \<Longrightarrow> dkg_frame s u"
  by (auto simp: dkg_frame_def)

lemma dkg_frame_log: "fixed_entry \<lparr>en_role = r, en_event = ev, en_payload = b\<rparr> \<Longrightarrow> dkg_frame s (log_entry r ev b s)"
  by (simp add: dkg_frame_def log_entry_def transcript_append_def)

lemma dkg_frame_keys:
  "dkg_frame s (s\<lparr>mS1 := set_dkg d (mS1 s)\<rparr>)" "dkg_frame s (s\<lparr>mS2 := set_dkg d (mS2 s)\<rparr>)" "dkg_frame s (s\<lparr>mDkgDone := b\<rparr>)"
  by (simp_all add: dkg_frame_def set_dkg_def)

lemma dkgS1Finalize_state:
  "dkgS1Finalize sd ctx com k1 Y1 msg st' =
     bindE (dkgS1Finalize sd ctx com k1 Y1 msg st) (\<lambda>(ok, d). Inr (ok, if ok then d else st'))"
  by (cases "schnorrVerify sd (h2_Y2 msg) (h2_pi2 msg) ctx"; cases "dleqVerify sd (h2_Y2 msg) Y1 (h2_Y msg) (h2_piY msg) ctx")
    (simp_all add: dkgS1Finalize_def)

lemma runDkg_ends:
  assumes G: "ristretto_laws sd L sc el" and ctx: "short (mCtx s)" and fresh: "\<not> mDkgDone s"
  obtains (threw) e t where "runDkg sd s rg = Threw e t" "dkg_frame s t" "\<not> mDkgDone t"
  | (finished) t rg' k1 k2 where "runDkg sd s rg = Done t rg'" "dkg_frame s t" "mDkgDone t"
      and "k1 mod L \<noteq> 0" "k2 mod L \<noteq> 0" "dkg_agree sc el k1 k2 (sv_dkg (mS1 t)) (sv_dkg (mS2 t))"
proof (cases "dkgS2Prepare sd (mCtx s) rg")
  case (Inl e)
  then show thesis using fresh dkg_frame_refl by (intro threw [of e s]) (simp_all add: runDkg_def try_step_def)
next
  case (Inr a)
  then obtain prep rg1 where 1: "dkgS2Prepare sd (mCtx s) rg = Inr (prep, rg1)" by (cases a) simp
  obtain k2 x2 p2 where p2: "schnorrProve sd (sc k2) (el k2) (mCtx s) x2 = Inr (p2, rg1)" and k2: "k2 mod L \<noteq> 0"
    and prep: "prep = \<lparr>prep_k2 = sc k2, prep_Y2 = el k2, prep_pi2 = p2, prep_commit = dkgCommitHash sd (el k2) p2\<rparr>"
    by (rule prepare_Inr [OF G 1])
  let ?s1 = "log_entry S2 ''dkg_commit'' (prep_commit prep) s"
  have f1: "dkg_frame s ?s1"
    by (rule dkg_frame_log) (simp add: fixed_entry_def event_classes_def prep dkgCommitHash_def ristretto_lawsD(6) [OF G, rule_format])
  show thesis
  proof (cases "dkgS1SendHop1 sd (mCtx s) rg1")
    case (Inl e)
    then show thesis using f1 fresh 1 by (intro threw [of e ?s1]) (simp_all add: runDkg_def try_step_def log_entry_def)
  next
    case (Inr a)
    then obtain sk1 msg1 rg2 where 2: "dkgS1SendHop1 sd (mCtx s) rg1 = Inr ((sk1, msg1), rg2)" by (cases a) auto
    obtain k1 x1 p1 where p1: "schnorrProve sd (sc k1) (el k1) (mCtx s) x1 = Inr (p1, rg2)" and k1: "k1 mod L \<noteq> 0"
      and msg1: "sk1 = sc k1" "msg1 = \<lparr>h1_Y1 = el k1, h1_pi1 = p1\<rparr>"
      by (rule sendHop1_Inr [OF G 2])
    obtain y2 c2 where pi2: "p2 = \<lparr>sn_c = sc c2, sn_s = sc (y2 + c2 * k2)\<rparr>" by (rule schnorrProve_Inr [OF G ctx p2])
    obtain y1 c1 where pi1: "p1 = \<lparr>sn_c = sc c1, sn_s = sc (y1 + c1 * k1)\<rparr>" by (rule schnorrProve_Inr [OF G ctx p1])
    let ?s2 = "log_entry S1 ''dkg_hop1'' (hop1_payload msg1) ?s1"
    have f2: "dkg_frame s ?s2"
      by (rule dkg_frame_trans [OF f1 dkg_frame_log])
        (simp add: fixed_entry_def event_classes_def msg1 hop1_payload_def pi1 laws_lengths [OF G])
    show thesis
    proof (cases "dkgS2Finalize sd (mCtx s) prep msg1 rg2")
      case (Inl e)
      then show thesis using f2 fresh 1 2 by (intro threw [of e ?s2]) (simp_all add: runDkg_def try_step_def log_entry_def)
    next
      case (Inr a)
      then obtain msg d2 rg3 where 3: "dkgS2Finalize sd (mCtx s) prep msg1 rg2 = Inr ((msg, d2), rg3)" by (cases a) auto
      obtain piY where piY: "dleqProve sd (sc k2) (el k2) (el k1) (el (k2 * k1)) (mCtx s) rg2 = Inr (piY, rg3)"
        and msg: "msg = \<lparr>h2_Y2 = el k2, h2_pi2 = p2, h2_Y = el (k2 * k1), h2_piY = piY\<rparr>"
        by (rule finalize_Inr [OF G ctx p1 3 [unfolded prep msg1(2)]])
      have shape: "proof_shape sc piY" by (rule dleqProve_ends [OF G ctx k2 k1, of rg2]) (use piY in simp)
      let ?s3 = "log_entry S2 ''dkg_hop2'' (hop2_payload msg) (?s2\<lparr>mS2 := set_dkg d2 (mS2 ?s2)\<rparr>)"
      have f3: "dkg_frame s ?s3"
        by (rule dkg_frame_trans [OF dkg_frame_trans [OF f2 dkg_frame_keys(2)] dkg_frame_log])
          (use shape in \<open>auto simp: fixed_entry_def event_classes_def msg hop2_payload_def pi2 laws_lengths [OF G] proof_shape_def\<close>)
      have same: "mS1 ?s3 = mS1 s" "mDkgDone ?s3 = mDkgDone s" by (simp_all add: log_entry_def)
      show thesis
      proof (cases "dkgS1Finalize sd (mCtx s) (prep_commit prep) sk1 (h1_Y1 msg1) msg (sv_dkg (mS1 s))")
        case (Inl e)
        show thesis
          by (rule threw [of e ?s3]) (use f3 fresh 1 2 3 Inl in \<open>simp_all add: runDkg_def try_step_def same [unfolded log_entry_def] log_entry_def\<close>)
      next
        case (Inr a)
        then obtain ok d1 where 4: "dkgS1Finalize sd (mCtx s) (prep_commit prep) sk1 (h1_Y1 msg1) msg (sv_dkg (mS1 s)) = Inr (ok, d1)"
          by (cases a) simp
        obtain d1' where 5: "dkgS1Finalize sd (mCtx s) (prep_commit prep) sk1 (h1_Y1 msg1) msg dkg_empty = Inr (ok, d1')"
          and d1': "ok \<Longrightarrow> d1' = d1"
          using dkgS1Finalize_state [of sd "mCtx s" "prep_commit prep" sk1 "h1_Y1 msg1" msg dkg_empty "sv_dkg (mS1 s)"] 4
          by auto
        have "dkg_run sd (mCtx s) rg = Inr ((ok, d1', d2), rg3)" by (simp add: dkg_run_def 1 2 3 5)
        from dkg_run_states [OF G ctx this] d1' obtain l1 l2 where ok: ok "l1 mod L \<noteq> 0" "l2 mod L \<noteq> 0" "dkg_agree sc el l1 l2 d1 d2"
          by auto
        let ?t = "(?s3\<lparr>mS1 := set_dkg d1 (mS1 ?s3)\<rparr>)\<lparr>mDkgDone := True\<rparr>"
        show thesis
        proof (rule finished [of ?t rg3 l1 l2])
          show "runDkg sd s rg = Done ?t rg3" using fresh 1 2 3 4 ok(1) by (simp add: runDkg_def try_step_def log_entry_def)
          show "dkg_frame s ?t" by (rule dkg_frame_trans [OF dkg_frame_trans [OF f3 dkg_frame_keys(1)] dkg_frame_keys(3)])
        qed (use ok in \<open>simp_all add: set_dkg_def log_entry_def\<close>)
      qed
    qed
  qed
qed


lemma client_set_client:
  "isClientRole r \<Longrightarrow> client (set_client r c s) r' = (if r' = r then Inr c else client s r')"
  by (auto simp: isClientRole_def client_def set_client_def split: Role.splits)

lemma set_client_frame [simp]:
  "mPhi (set_client r c s) = mPhi s" "mSid (set_client r c s) = mSid s" "mCtx (set_client r c s) = mCtx s"
  "mS1 (set_client r c s) = mS1 s" "mS2 (set_client r c s) = mS2 s" "mGt (set_client r c s) = mGt s"
  "mBeaverBag (set_client r c s) = mBeaverBag s" "mTranscript (set_client r c s) = mTranscript s"
  "mDkgDone (set_client r c s) = mDkgDone s"
  by (simp_all add: set_client_def split: Role.splits)

lemma client_transcript [simp]: "client (s\<lparr>mTranscript := log\<rparr>) r = client s r"
  by (simp add: client_def split: Role.splits)

lemma client_provision [simp]: "client (s\<lparr>mBeaverBag := bag, mS1 := sv1, mS2 := sv2\<rparr>) r = client s r"
  by (simp add: client_def split: Role.splits)

lemma set_client_twice [simp]:
  "set_client r c ((set_client r c' s)\<lparr>mTranscript := log\<rparr>) = (set_client r c s)\<lparr>mTranscript := log\<rparr>"
  by (simp add: set_client_def split: Role.splits)

lemma client_Inr: "isClientRole r \<Longrightarrow> \<exists>c. client s r = Inr c" "client s r = Inr c \<Longrightarrow> isClientRole r"
  by (auto simp: isClientRole_def client_def split: Role.splits)

text \<open>An identifier that can be hashed is short enough for a row tag.\<close>

lemma appendLPs_Inr_short: "appendLPs dst fs = Inr x \<Longrightarrow> \<forall>f\<in>set fs. short f"
proof (induction fs arbitrary: dst)
  case (Cons f fs)
  then show ?case by (auto simp: appendLPs_def bindE_eq_Inr appendLP_def throw_if_def short_def split: if_splits)
qed simp

lemma deriveRowTag_returns:
  assumes "entity_point sd a b = Inr M" "short ctx" "length W = 32"
  obtains tag where "deriveRowTag sd a b p W ctx = Inr tag"
proof -
  have "short (str_bytes a)" "short (str_bytes b)"
    using assms(1) appendLPs_Inr_short [of kPrefReal "[str_bytes a, str_bytes b]"] by (auto simp: entity_point_def bindE_eq_Inr)
  then show thesis using that row_tag_bytes_eq [of ctx a b W p] assms(2,3) by (simp add: deriveRowTag_def)
qed

definition over_cap :: "TopologySession \<Rightarrow> ClientState \<Rightarrow> bool" where
  "over_cap s c \<longleftrightarrow> 0 < Q_tilde (mPhi s) \<and> Q_tilde (mPhi s) \<le> oprf_queries_made c"

text \<open>A call by a client is refused, or it is counted and recorded; then it gives a key and a tag, or it fails on
  an identifier without a point or on a proof with a zero scalar that the transcript shows.\<close>

lemma clientDeriveKey_ends:
  assumes G: "ristretto_laws sd L sc el" and ctx: "short (mCtx s)" and dkg: "mDkgDone s"
    and keys: "k1 mod L \<noteq> 0" "k2 mod L \<noteq> 0" "dkg_agree sc el k1 k2 (sv_dkg (mS1 s)) (sv_dkg (mS2 s))"
  obtains
    (refused) e where "clientDeriveKey sd role a b p s rg = Threw e s"
      and "isClientRole role \<Longrightarrow> \<exists>c. client s role = Inr c \<and> over_cap s c"
  | (failed) e c log where "clientDeriveKey sd role a b p s rg =
        Threw e ((set_client role (count_query c) s)\<lparr>mTranscript := mTranscript s @ log\<rparr>)"
      and "client s role = Inr c" "\<not> over_cap s c" "fixed_log log"
      and "(\<forall>M. entity_point sd a b = Inr M \<longrightarrow> M = point_identity) \<or> (\<exists>en\<in>set log. zero_entry en)"
  | (answered) c m tag log rg' where "clientDeriveKey sd role a b p s rg =
        Done ((set_client role (add_row a b (el (k1 * k2 * m)) tag (count_query c)) s)\<lparr>mTranscript := mTranscript s @ log\<rparr>) rg'"
      and "client s role = Inr c" "\<not> over_cap s c" "fixed_log log"
      and "entity_point sd a b = Inr (el m)" "deriveRowTag sd a b p (el (k1 * k2 * m)) (mCtx s) = Inr tag"
proof (cases "isClientRole role \<and> (\<exists>c. client s role = Inr c \<and> \<not> over_cap s c)")
  case False
  show thesis
  proof (cases "isClientRole role")
    case True
    then obtain c where c: "client s role = Inr c" "over_cap s c" using client_Inr(1) [of role s] False by blast
    then show thesis
      using True dkg
      by (intro refused [of "RuntimeError (roleName role @ '': OPRF query cap Q exceeded - metering triggered'')"])
        (simp_all add: clientDeriveKey_def over_cap_def try_step_def)
  next
    case False
    then show thesis
      using dkg by (intro refused [of "RuntimeError ''clientDeriveKey: role is not a client role''"]) (simp_all add: clientDeriveKey_def)
  qed
next
  case True
  then obtain c where role: "isClientRole role" and c: "client s role = Inr c" and cap: "\<not> over_cap s c" by blast
  let ?d1 = "sv_dkg (mS1 s)" and ?d2 = "sv_dkg (mS2 s)"
  have d1: "dkg_k ?d1 = sc k1" "dkg_Y1 ?d1 = el k1" and d2: "dkg_k ?d2 = sc k2" "dkg_Y2 ?d2 = el k2"
    using keys(3) by (simp_all add: dkg_agree_def)
  let ?run = "deriveEntityKey sd a b (mCtx s) (el k1) (el k2) (dkg_Y ?d1) (hop1_cb sd s) (hop2_cb sd s) (rg, mTranscript s)"
    and ?log = "hops_log sd a b (mCtx s) (el k1) (hop1_cb sd s) (hop2_cb sd s) (rg, mTranscript s)"
  let ?s1 = "(set_client role (count_query c) s)\<lparr>mTranscript := ?log\<rparr>"
  have body: "clientDeriveKey sd role a b p s rg = try_step ?run ?s1 (\<lambda>((W, ok), rg', _).
      if \<not> ok then Threw (RuntimeError ''clientDeriveKey: OPRF failed (DLEQ mismatch)'') ?s1 else
      try_step (deriveRowTag sd a b p W (mCtx s)) ?s1 (\<lambda>tag. Done (set_client role (add_row a b W tag (count_query c)) ?s1) rg'))"
    unfolding clientDeriveKey_def c d1 d2 Let_def using role cap
    by (simp add: dkg try_step_def [of "Inr c"] over_cap_def [symmetric])
  note entry = oprf_entry [OF G] fixed_entry_def event_classes_def
  show thesis
  proof (rule query_ends [OF G ctx d1 d2 keys(1,2) hop1_cb_def hop2_cb_def, where a = a and b = b and Y = "dkg_Y ?d1" and st = "(rg, mTranscript s)"],
      goal_cases)
    case (1 e)
    then show thesis
      by (intro failed [OF _ c cap, of e "[]"]) (simp_all add: body try_step_def)
  next
    case (2 e u q)
    then show thesis
      by (intro failed [OF _ c cap, of e "[\<lparr>en_role = S1, en_event = ''oprf_hop1'', en_payload = oprf_payload (el u) (el (k1 * u), q)\<rparr>]"])
        (simp_all add: body try_step_def transcript_append_def entry)
  next
    case (3 e u q r)
    then show thesis
      by (intro failed [OF _ c cap, of e "[\<lparr>en_role = S1, en_event = ''oprf_hop1'', en_payload = oprf_payload (el u) (el (k1 * u), q)\<rparr>,
          \<lparr>en_role = S2, en_event = ''oprf_hop2'', en_payload = oprf_payload (el (k1 * u)) (el (k2 * (k1 * u)), r)\<rparr>]"])
        (simp_all add: body try_step_def transcript_append_def entry)
  next
    case (4 m u q r rg')
    obtain tag where tag: "deriveRowTag sd a b p (el (k1 * k2 * m)) (mCtx s) = Inr tag"
      using deriveRowTag_returns [OF 4(1) ctx laws_lengths(2) [OF G]] by blast
    show thesis
      by (rule answered [OF _ c cap _ 4(1) tag, where rg' = rg'
          and log = "[\<lparr>en_role = S1, en_event = ''oprf_hop1'', en_payload = oprf_payload (el u) (el (k1 * u), q)\<rparr>,
            \<lparr>en_role = S2, en_event = ''oprf_hop2'', en_payload = oprf_payload (el (k1 * u)) (el (k2 * (k1 * u)), r)\<rparr>]"])
        (use 4 tag in \<open>simp_all add: body try_step_def transcript_append_def entry\<close>)
  qed
qed


subsection \<open>The session as a state machine\<close>

text \<open>A step is a call of a method by anyone at any time; it keeps what a throwing call has written. The random
  draws of a step are any.\<close>

inductive session_step :: "'r sodium \<Rightarrow> 'g prng \<Rightarrow> TopologySession \<Rightarrow> TopologySession \<Rightarrow> bool"
  for sd :: "'r sodium" and G :: "'g prng" where
  run_dkg: "session_step sd G s (session_after (runDkg sd s rg))"
| provision: "session_step sd G s (session_after (provisionBeaver G count s g))"
| derive: "session_step sd G s (session_after (clientDeriveKey sd role a b p s rg))"

inductive session_reach :: "'r sodium \<Rightarrow> 'g prng \<Rightarrow> PhiSummary \<Rightarrow> SessionId \<Rightarrow> bytes \<Rightarrow> TopologySession \<Rightarrow> bool"
  for sd :: "'r sodium" and G :: "'g prng" and phi :: PhiSummary and sid :: SessionId and nonce :: bytes where
  start: "new_session phi sid nonce = Inr s \<Longrightarrow> session_reach sd G phi sid nonce s"
| step: "session_reach sd G phi sid nonce s \<Longrightarrow> session_step sd G s t \<Longrightarrow> session_reach sd G phi sid nonce t"

text \<open>The rows of a client, and when one is right for the epoch key with exponent \<open>K\<close>.\<close>

definition client_rows :: "ClientState \<Rightarrow> (string \<times> string \<times> GroupElement \<times> bytes) list" where
  "client_rows c = zip (raw_id_types c) (zip (raw_ids c) (zip (entity_keys c) (row_tags c)))"

definition row_ok :: "'r sodium \<Rightarrow> (int \<Rightarrow> GroupElement) \<Rightarrow> Context \<Rightarrow> int \<Rightarrow> string \<times> string \<times> GroupElement \<times> bytes \<Rightarrow> bool" where
  "row_ok sd el ctx K = (\<lambda>(a, b, W, tag). \<exists>m p. entity_point sd a b = Inr (el m) \<and> W = el (K * m) \<and>
     deriveRowTag sd a b p W ctx = Inr tag)"

text \<open>A client has one key and one tag for every row. Under a cap it has no more rows than counted queries and
  no more queries than the cap; without one (\<open>Q_tilde = 0\<close>, the default) the 32-bit counter can wrap and
  nothing is said of it.\<close>

definition client_wf :: "PhiSummary \<Rightarrow> Role \<Rightarrow> ClientState \<Rightarrow> bool" where
  "client_wf phi r c \<longleftrightarrow> cl_role c = r \<and>
     length (raw_id_types c) = length (raw_ids c) \<and> length (entity_keys c) = length (raw_ids c) \<and>
     length (row_tags c) = length (raw_ids c) \<and>
     (0 < Q_tilde phi \<longrightarrow> length (raw_ids c) \<le> unat (oprf_queries_made c) \<and> oprf_queries_made c \<le> Q_tilde phi)"

definition rows_ok :: "'r sodium \<Rightarrow> (int \<Rightarrow> GroupElement) \<Rightarrow> int \<Rightarrow> TopologySession \<Rightarrow> bool" where
  "rows_ok sd el K s \<longleftrightarrow> (\<forall>r c. client s r = Inr c \<longrightarrow> (\<forall>row\<in>set (client_rows c). row_ok sd el (mCtx s) K row))"

definition keys_wf :: "'r sodium \<Rightarrow> int \<Rightarrow> (int \<Rightarrow> Scalar) \<Rightarrow> (int \<Rightarrow> GroupElement) \<Rightarrow> TopologySession \<Rightarrow> bool" where
  "keys_wf sd L sc el s \<longleftrightarrow>
     (if mDkgDone s
      then \<exists>k1 k2. k1 mod L \<noteq> 0 \<and> k2 mod L \<noteq> 0 \<and> dkg_agree sc el k1 k2 (sv_dkg (mS1 s)) (sv_dkg (mS2 s)) \<and>
        rows_ok sd el (k1 * k2) s
      else \<forall>r c. client s r = Inr c \<longrightarrow> raw_ids c = [])"

definition bag_wf :: "SessionId \<Rightarrow> TopologySession \<Rightarrow> bool" where
  "bag_wf sid s \<longleftrightarrow> mBeaverBag s \<subseteq> {toHex sid} \<and> beaver_bag_view (mS1 s) = beaver_bag_view (mS2 s) \<and>
     (\<forall>t\<in>set (beaver_bag_view (mS1 s)). triple_ok 2 t) \<and> (beaver_bag_view (mS1 s) \<noteq> [] \<longrightarrow> sessionUsed (mBeaverBag s) sid)"

definition session_wf ::
  "'r sodium \<Rightarrow> int \<Rightarrow> (int \<Rightarrow> Scalar) \<Rightarrow> (int \<Rightarrow> GroupElement) \<Rightarrow> PhiSummary \<Rightarrow> SessionId \<Rightarrow> bytes \<Rightarrow> TopologySession \<Rightarrow> bool" where
  "session_wf sd L sc el phi sid nonce s \<longleftrightarrow>
     mPhi s = phi \<and> mSid s = sid \<and> makeContext phi sid nonce = Inr (mCtx s) \<and>
     mGt s = \<lparr>gt_phi = phi, gt_session = sid, gt_attestations = [], gt_final_release = []\<rparr> \<and>
     (\<forall>r c. client s r = Inr c \<longrightarrow> client_wf phi r c) \<and> fixed_log (mTranscript s) \<and>
     keys_wf sd L sc el s \<and> bag_wf sid s"

lemma makeContext_returns:
  assumes "length sid = 16" "length nonce = 16"
  obtains ctx where "makeContext phi sid nonce = Inr ctx" "length ctx = 48"
  using assms by (simp add: makeContext_def appendLP_short appendFixedWidthU32_def be_bytes_def)

lemma new_session_wf:
  assumes "new_session phi sid nonce = Inr s"
  shows "session_wf sd L sc el phi sid nonce s"
proof -
  obtain ctx where ctx: "makeContext phi sid nonce = Inr ctx"
    using assms by (cases "makeContext phi sid nonce") (simp_all add: new_session_def)
  have s: "mPhi s = phi" "mSid s = sid" "mCtx s = ctx" "mS1 s = fresh_server" "mS2 s = fresh_server" "mBeaverBag s = {}"
      "mGt s = \<lparr>gt_phi = phi, gt_session = sid, gt_attestations = [], gt_final_release = []\<rparr>" "mTranscript s = []" "\<not> mDkgDone s"
    and cl: "mMas s = fresh_client MAS" "mDos s = fresh_client DOS" "mMom s = fresh_client MOM"
    using assms by (auto simp: new_session_def ctx)
  have fresh: "client s r = Inr c \<Longrightarrow> c = fresh_client r" for r c by (cases r) (simp_all add: client_def cl)
  have "client_wf phi r (fresh_client r)" "raw_ids (fresh_client r) = []" for r by (simp_all add: client_wf_def fresh_client_def)
  with fresh have "\<forall>r c. client s r = Inr c \<longrightarrow> client_wf phi r c" "\<forall>r c. client s r = Inr c \<longrightarrow> raw_ids c = []" by blast+
  then show ?thesis by (simp add: session_wf_def s ctx keys_wf_def bag_wf_def fresh_server_def)
qed

lemma runDkg_wf:
  assumes G: "ristretto_laws sd L sc el" and ctx: "short (mCtx s)" and wf: "session_wf sd L sc el phi sid nonce s"
  shows "session_wf sd L sc el phi sid nonce (session_after (runDkg sd s rg))" (is "?wf ?t")
proof (cases "mDkgDone s")
  case True
  then show ?thesis using wf by (simp add: runDkg_def)
next
  case False
  have empty: "client s r = Inr c \<Longrightarrow> client_rows c = []" for r c
    using wf False by (auto simp: session_wf_def keys_wf_def client_rows_def)
  have kept: "session_wf sd L sc el phi sid nonce t" if f: "dkg_frame s t" and k: "keys_wf sd L sc el t" for t
  proof -
    have "client t r = client s r" for r using f by (simp add: client_def dkg_frame_def split: Role.splits)
    then show ?thesis using wf f k by (auto simp: session_wf_def dkg_frame_def bag_wf_def)
  qed
  have cl: "client t r = client s r" if "dkg_frame s t" for t r
    using that by (simp add: client_def dkg_frame_def split: Role.splits)
  show ?thesis
  proof (cases rule: runDkg_ends [OF G ctx False, of rg, case_names threw finished])
    case (threw e t)
    have "keys_wf sd L sc el t" using wf False threw(3) by (simp add: keys_wf_def cl [OF threw(2)] session_wf_def)
    from kept [OF threw(2) this] show ?thesis by (simp add: threw(1))
  next
    case (finished t rg' k1 k2)
    have "\<forall>r c. client t r = Inr c \<longrightarrow> client_rows c = []" using empty by (simp add: cl [OF finished(2)])
    then have "rows_ok sd el (k1 * k2) t" by (simp add: rows_ok_def)
    then have "keys_wf sd L sc el t" unfolding keys_wf_def using finished(3-6) by auto
    from kept [OF finished(2) this] show ?thesis by (simp add: finished(1))
  qed
qed

lemma provisionBeaver_wf:
  assumes wf: "session_wf sd L sc el phi sid nonce s"
  shows "session_wf sd L sc el phi sid nonce (session_after (provisionBeaver G count s g))"
proof -
  obtain v g' where v: "bag_views G count g = Inr ((v, v), g')" "\<forall>t\<in>set v. triple_ok 2 t"
    using bag_views_returns [of G count g] by (auto elim!: returnsE)
  show ?thesis
  proof (cases "toHex (mSid s) \<in> mBeaverBag s")
    case True
    then show ?thesis using wf by (simp add: provisionBeaver_def bag_refuses_def)
  next
    case False
    let ?t = "s\<lparr>mBeaverBag := insert (toHex (mSid s)) (mBeaverBag s), mS1 := (mS1 s)\<lparr>beaver_bag_view := v\<rparr>,
      mS2 := (mS2 s)\<lparr>beaver_bag_view := v\<rparr>\<rparr>"
    have t: "session_after (provisionBeaver G count s g) = ?t"
      using False v(1) by (simp add: provisionBeaver_def bag_refuses_def try_step_def Let_def)
    have "mSid s = sid" using wf by (simp add: session_wf_def)
    then have "bag_wf sid ?t" using v(2) wf by (auto simp: bag_wf_def sessionUsed_def session_wf_def)
    moreover have "keys_wf sd L sc el ?t = keys_wf sd L sc el s" by (simp add: keys_wf_def rows_ok_def)
    ultimately show ?thesis unfolding t using wf by (simp add: session_wf_def)
  qed
qed

lemma count_query_wf:
  assumes "client_wf phi r c" "\<not> over_cap s c" "mPhi s = phi"
  shows "client_wf phi r (count_query c)" "client_wf phi r (add_row a b W tag (count_query c))"
proof -
  have "length (raw_ids c) < unat (oprf_queries_made c + 1) \<and> oprf_queries_made c + 1 \<le> Q_tilde phi" if "0 < Q_tilde phi"
  proof -
    have lt: "oprf_queries_made c < Q_tilde phi" using assms(2,3) that by (simp add: over_cap_def)
    then have "1 + oprf_queries_made c \<noteq> 0" by unat_arith
    then have "unat (oprf_queries_made c + 1) = Suc (unat (oprf_queries_made c))" by (simp add: unatSuc add.commute)
    moreover have "oprf_queries_made c + 1 \<le> Q_tilde phi" using lt by (rule inc_le)
    ultimately show ?thesis using assms(1) that by (simp add: client_wf_def)
  qed
  then show "client_wf phi r (count_query c)" "client_wf phi r (add_row a b W tag (count_query c))"
    using assms(1) by (auto simp: client_wf_def count_query_def add_row_def)
qed

lemma client_rows_add:
  assumes "client_wf phi r c"
  shows "client_rows (count_query c) = client_rows c"
    and "client_rows (add_row a b W tag (count_query c)) = client_rows c @ [(a, b, W, tag)]"
  using assms by (simp_all add: client_wf_def client_rows_def count_query_def add_row_def)

lemma clientDeriveKey_wf:
  assumes G: "ristretto_laws sd L sc el" and ctx: "short (mCtx s)" and wf: "session_wf sd L sc el phi sid nonce s"
  shows "session_wf sd L sc el phi sid nonce (session_after (clientDeriveKey sd role a b p s rg))"
proof (cases "mDkgDone s")
  case False
  then show ?thesis using wf by (simp add: clientDeriveKey_def)
next
  case True
  then obtain k1 k2 where k: "k1 mod L \<noteq> 0" "k2 mod L \<noteq> 0" "dkg_agree sc el k1 k2 (sv_dkg (mS1 s)) (sv_dkg (mS2 s))"
    and rows: "rows_ok sd el (k1 * k2) s"
    using wf by (auto simp: session_wf_def keys_wf_def)
  note row = rows [unfolded rows_ok_def, rule_format]
  have phi: "mPhi s = phi" using wf by (simp add: session_wf_def)
  have kept: "session_wf sd L sc el phi sid nonce ((set_client role c' s)\<lparr>mTranscript := mTranscript s @ log\<rparr>)"
    if c: "client s role = Inr c" "client_wf phi role c'" and log: "fixed_log log"
      and new: "\<forall>row\<in>set (client_rows c'). row_ok sd el (mCtx s) (k1 * k2) row" for c c' log
  proof -
    have cl: "client ((set_client role c' s)\<lparr>mTranscript := mTranscript s @ log\<rparr>) r = (if r = role then Inr c' else client s r)" for r
      using client_Inr(2) [OF c(1)] by (simp add: client_set_client)
    have "rows_ok sd el (k1 * k2) ((set_client role c' s)\<lparr>mTranscript := mTranscript s @ log\<rparr>)"
      unfolding rows_ok_def cl using row new by (auto split: if_splits)
    then have "keys_wf sd L sc el ((set_client role c' s)\<lparr>mTranscript := mTranscript s @ log\<rparr>)"
      using True k by (simp add: keys_wf_def) blast
    moreover have "\<forall>r d. client ((set_client role c' s)\<lparr>mTranscript := mTranscript s @ log\<rparr>) r = Inr d \<longrightarrow> client_wf phi r d"
      unfolding cl using wf c(2) by (auto simp: session_wf_def split: if_splits)
    ultimately show ?thesis using wf log by (simp add: session_wf_def bag_wf_def)
  qed
  have cwf: "client_wf phi role c" if "client s role = Inr c" for c using wf that by (simp add: session_wf_def)
  show ?thesis
  proof (cases rule: clientDeriveKey_ends [OF G ctx True k, of role a b p rg, case_names refused failed answered])
    case (refused e)
    then show ?thesis using wf by simp
  next
    case (failed e c log)
    have "client_rows (count_query c) = client_rows c" by (rule client_rows_add [OF cwf [OF failed(2)]])
    then show ?thesis
      using kept [OF failed(2) count_query_wf(1) [OF cwf [OF failed(2)] failed(3) phi] failed(4)] row [OF failed(2)] failed(1) by simp
  next
    case (answered c m tag log rg')
    have "row_ok sd el (mCtx s) (k1 * k2) (a, b, el (k1 * k2 * m), tag)" using answered(5,6) by (auto simp: row_ok_def)
    then show ?thesis
      using kept [OF answered(2) count_query_wf(2) [OF cwf [OF answered(2)] answered(3) phi] answered(4), of a b "el (k1 * k2 * m)" tag]
        row [OF answered(2)] answered(1) client_rows_add(2) [OF cwf [OF answered(2)]] by simp
  qed
qed

lemma reach_wf:
  assumes G: "ristretto_laws sd L sc el" and len: "length sid = 16" "length nonce = 16"
    and reach: "session_reach sd P phi sid nonce s"
  shows "session_wf sd L sc el phi sid nonce s \<and> short (mCtx s)"
  using reach
proof induction
  case (start s)
  then have "session_wf sd L sc el phi sid nonce s" by (rule new_session_wf)
  moreover obtain ctx where "makeContext phi sid nonce = Inr ctx" "length ctx = 48" by (rule makeContext_returns [OF len])
  ultimately show ?case by (simp add: session_wf_def short_def)
next
  case (step s t)
  then have s: "session_wf sd L sc el phi sid nonce s" "short (mCtx s)" by simp_all
  from step(2) have "session_wf sd L sc el phi sid nonce t"
    by cases (simp_all only: runDkg_wf [OF G s(2,1)] provisionBeaver_wf [OF s(1)] clientDeriveKey_wf [OF G s(2,1)])
  with s show ?case by (simp add: session_wf_def)
qed

text \<open>C11: After any sequence of calls of \<open>runDkg\<close>, \<open>provisionBeaver\<close> and \<open>clientDeriveKey\<close>, whichever of them
  throw, and with nothing written through the mutable accessors \<open>client()\<close> and \<open>transcript()\<close>, a session is
  well formed: its public data is fixed and each client has one key and one tag per row; if the policy sets a
  query cap, a client never has more rows than counted queries nor more queries than the cap (without a
  cap, the default, the 32-bit counter may wrap and is left unconstrained); after key generation the servers
  hold agreeing keys and every row holds the key and a tag of its identifier; both bags are the same correct
  triples; and the transcript passes the audit for fixed shapes.\<close>

theorem session_reach_wf:
  assumes "ristretto_laws sd L sc el" "length sid = 16" "length nonce = 16"
    and "session_reach sd P phi sid nonce s"
  shows "session_wf sd L sc el phi sid nonce s \<and> auditFixedShape (mTranscript s) event_classes"
proof -
  have "session_wf sd L sc el phi sid nonce s" using reach_wf [OF assms] by blast
  then show ?thesis by (simp add: fixed_log_audit session_wf_def)
qed

text \<open>C12: After key generation, a client below its cap whose identifier hashes to a point other than the identity
  gets its key and tag as a new row, unless the transcript shows a proof with a zero scalar for this call; no
  proof mismatch and no other exception can occur.\<close>

theorem clientDeriveKey_answers:
  assumes G: "ristretto_laws sd L sc el" and len: "length sid = 16" "length nonce = 16"
    and reach: "session_reach sd P phi sid nonce s" and dkg: "mDkgDone s"
    and c: "client s role = Inr c" "Q_tilde phi = 0 \<or> oprf_queries_made c < Q_tilde phi"
    and M: "entity_point sd a b = Inr M" "M \<noteq> point_identity"
    and shown: "\<forall>en\<in>set (drop (length (mTranscript s)) (mTranscript (session_after (clientDeriveKey sd role a b p s rg)))).
      \<not> zero_entry en"
  shows "\<exists>t rg' W tag. clientDeriveKey sd role a b p s rg = Done t rg' \<and>
    client t role = Inr (add_row a b W tag (count_query c)) \<and> deriveRowTag sd a b p W (mCtx s) = Inr tag"
proof -
  have wf: "session_wf sd L sc el phi sid nonce s" and ctx: "short (mCtx s)" using reach_wf [OF G len reach] by blast+
  have role: "isClientRole role" by (rule client_Inr(2) [OF c(1)])
  have cap: "\<not> over_cap s c" using c(2) wf by (auto simp: over_cap_def session_wf_def)
  obtain k1 k2 where k: "k1 mod L \<noteq> 0" "k2 mod L \<noteq> 0" "dkg_agree sc el k1 k2 (sv_dkg (mS1 s)) (sv_dkg (mS2 s))"
    using wf dkg by (auto simp: session_wf_def keys_wf_def)
  show ?thesis
  proof (cases rule: clientDeriveKey_ends [OF G ctx dkg k, of role a b p rg, case_names refused failed answered])
    case (refused e)
    then show ?thesis using role c(1) cap by auto
  next
    case (failed e c' log)
    then show ?thesis using shown M by auto
  next
    case (answered c' m tag log rg')
    then show ?thesis using c(1) role by (auto simp: client_set_client)
  qed
qed

text \<open>C13: Two rows of a session, of the same client or of two, carry the same entity key exactly when their
  identifiers hash to the same point, and each carries the tag of its own identifier and key for some period.\<close>

theorem entity_keys_link:
  assumes G: "ristretto_laws sd L sc el" and len: "length sid = 16" "length nonce = 16"
    and reach: "session_reach sd P phi sid nonce s"
    and c: "client s r = Inr c" "client s r' = Inr c'"
    and rows: "(a, b, W, tag) \<in> set (client_rows c)" "(a', b', W', tag') \<in> set (client_rows c')"
  shows "(W = W' \<longleftrightarrow> entity_point sd a b = entity_point sd a' b') \<and>
    (\<exists>p p'. deriveRowTag sd a b p W (mCtx s) = Inr tag \<and> deriveRowTag sd a' b' p' W' (mCtx s) = Inr tag')"
proof -
  have wf: "session_wf sd L sc el phi sid nonce s" using reach_wf [OF G len reach] by blast
  have "mDkgDone s"
    using wf c(1) rows(1) by (auto simp: session_wf_def keys_wf_def client_rows_def split: if_splits)
  then obtain k1 k2 where k: "k1 mod L \<noteq> 0" "k2 mod L \<noteq> 0" and ok: "rows_ok sd el (k1 * k2) s"
    using wf by (auto simp: session_wf_def keys_wf_def)
  have "row_ok sd el (mCtx s) (k1 * k2) (a, b, W, tag)" "row_ok sd el (mCtx s) (k1 * k2) (a', b', W', tag')"
    using ok c rows by (auto simp: rows_ok_def)
  then obtain m p m' p' where m: "entity_point sd a b = Inr (el m)" "W = el (k1 * k2 * m)" "deriveRowTag sd a b p W (mCtx s) = Inr tag"
    and m': "entity_point sd a' b' = Inr (el m')" "W' = el (k1 * k2 * m')" "deriveRowTag sd a' b' p' W' (mCtx s) = Inr tag'"
    by (auto simp: row_ok_def)
  have "k1 * k2 * (m - m') mod L = 0 \<longleftrightarrow> (m - m') mod L = 0" using k by (simp add: laws_field [OF G])
  then have "W = W' \<longleftrightarrow> el m = el m'"
    unfolding m m' laws_el [OF G] by (simp only: mod_eq_dvd_iff mod_eq_0_iff_dvd right_diff_distrib)
  then show ?thesis using m m' by auto
qed

subsection \<open>Closed examples\<close>

definition toy_phi :: PhiSummary where "toy_phi = PhiSummary_default\<lparr>Q_tilde := 1\<rparr>"
definition toy_sid :: SessionId where "toy_sid = replicate 16 0"

text \<open>A run in which two clients query the same identifier, and the sessions it passes through.\<close>

definition toy_entry :: "Role \<Rightarrow> string \<Rightarrow> int list \<Rightarrow> Entry" where
  "toy_entry r ev xs = \<lparr>en_role = r, en_event = ev, en_payload = concat (map enc13 xs)\<rparr>"

definition toy_log :: SpTranscript where
  "toy_log = [\<lparr>en_role = S2, en_event = ''dkg_commit'', en_payload = replicate 32 66\<rparr>, toy_entry S1 ''dkg_hop1'' [4, 8, 11],
     toy_entry S2 ''dkg_hop2'' [2, 12, 1, 8, 12, 4], toy_entry S1 ''oprf_hop1'' [9, 10, 10, 4],
     toy_entry S2 ''oprf_hop2'' [10, 7, 2, 8], toy_entry S1 ''oprf_hop1'' [5, 7, 12, 1], toy_entry S2 ''oprf_hop2'' [7, 1, 11, 2]]"

definition toy_keys :: "int \<Rightarrow> ServerState" where
  "toy_keys k = \<lparr>sv_dkg = \<lparr>dkg_k = enc13 k, dkg_Y = enc13 8, dkg_Y1 = enc13 4, dkg_Y2 = enc13 2\<rparr>, beaver_bag_view = []\<rparr>"

definition toy_client :: "Role \<Rightarrow> ClientState" where
  "toy_client r = add_row ''a'' ''b'' (enc13 10) (replicate 32 193) (count_query (fresh_client r))"

definition toy_session :: "ClientState \<Rightarrow> ClientState \<Rightarrow> nat \<Rightarrow> TopologySession" where
  "toy_session mas mom n = (projr (new_session toy_phi toy_sid toy_sid))
     \<lparr>mS1 := toy_keys 4, mS2 := toy_keys 2, mMas := mas, mMom := mom, mTranscript := take n toy_log, mDkgDone := True\<rparr>"

abbreviation toy_s1 :: TopologySession where "toy_s1 \<equiv> toy_session (fresh_client MAS) (fresh_client MOM) 3"
abbreviation toy_s2 :: TopologySession where "toy_s2 \<equiv> toy_session (toy_client MAS) (fresh_client MOM) 5"
abbreviation toy_s3 :: TopologySession where "toy_s3 \<equiv> toy_session (toy_client MAS) (toy_client MOM) 7"

lemma toy_run:
  "session_after (runDkg toy_sodium (projr (new_session toy_phi toy_sid toy_sid)) 1) = toy_s1"
  "session_after (clientDeriveKey toy_sodium MAS ''a'' ''b'' 1 toy_s1 1) = toy_s2"
  "session_after (clientDeriveKey toy_sodium MOM ''a'' ''b'' 1 toy_s2 3) = toy_s3"
  by code_simp+

lemma toy_lengths: "length toy_sid = 16" by (simp add: toy_sid_def)

lemma toy_reach:
  "session_reach toy_sodium counter_prng toy_phi toy_sid toy_sid toy_s1"
  "session_reach toy_sodium counter_prng toy_phi toy_sid toy_sid toy_s3"
proof -
  have "new_session toy_phi toy_sid toy_sid = Inr (projr (new_session toy_phi toy_sid toy_sid))" by (rule Inr_projr) code_simp
  note s0 = session_reach.start [OF this, of toy_sodium counter_prng]
  show s1: "session_reach toy_sodium counter_prng toy_phi toy_sid toy_sid toy_s1"
    using session_reach.step [OF s0 session_step.run_dkg] by (simp only: toy_run(1) [symmetric])
  have s2: "session_reach toy_sodium counter_prng toy_phi toy_sid toy_sid toy_s2"
    using session_reach.step [OF s1 session_step.derive] by (simp only: toy_run(2) [symmetric])
  show "session_reach toy_sodium counter_prng toy_phi toy_sid toy_sid toy_s3"
    using session_reach.step [OF s2 session_step.derive] by (simp only: toy_run(3) [symmetric])
qed

theorem session_reach_wf_witness:
  "session_wf toy_sodium 13 enc13 enc13 toy_phi toy_sid toy_sid toy_s3 \<and> auditFixedShape (mTranscript toy_s3) event_classes \<and>
    length (mTranscript toy_s3) = 7"
proof -
  have "length (mTranscript toy_s3) = 7" by code_simp
  with session_reach_wf [OF toy_laws toy_lengths toy_lengths toy_reach(2)] show ?thesis by blast
qed

theorem clientDeriveKey_answers_witness:
  "\<exists>t rg'. clientDeriveKey toy_sodium MAS ''a'' ''b'' 1 toy_s1 1 = Done t rg' \<and>
    map_sum id raw_ids (client t MAS) = Inr [''b'']"
proof -
  have c: "client toy_s1 MAS = Inr (fresh_client MAS)" by code_simp
  have "mDkgDone toy_s1" "entity_point toy_sodium ''a'' ''b'' = Inr (enc13 11)" "enc13 11 \<noteq> point_identity"
    "Q_tilde toy_phi = 0 \<or> oprf_queries_made (fresh_client MAS) < Q_tilde toy_phi"
    "\<forall>en\<in>set (drop (length (mTranscript toy_s1)) (mTranscript (session_after (clientDeriveKey toy_sodium MAS ''a'' ''b'' 1 toy_s1 1)))).
      \<not> zero_entry en"
    by code_simp+
  then obtain t rg' W tag where "clientDeriveKey toy_sodium MAS ''a'' ''b'' 1 toy_s1 1 = Done t rg'"
    "client t MAS = Inr (add_row ''a'' ''b'' W tag (count_query (fresh_client MAS)))"
    using clientDeriveKey_answers [OF toy_laws toy_lengths toy_lengths toy_reach(1) _ c] by metis
  then show ?thesis by (auto simp: add_row_def count_query_def fresh_client_def)
qed

theorem entity_keys_link_witness:
  "fst (snd (snd (hd (client_rows (mMas toy_s3))))) = fst (snd (snd (hd (client_rows (mMom toy_s3))))) \<and>
    length (client_rows (mMas toy_s3)) = 1"
proof -
  have l: "length (client_rows (mMas toy_s3)) = 1" "length (client_rows (mMom toy_s3)) = 1"
    "map (\<lambda>(a, b, _). (a, b)) (client_rows (mMas toy_s3)) = [(''a'', ''b'')]"
    "map (\<lambda>(a, b, _). (a, b)) (client_rows (mMom toy_s3)) = [(''a'', ''b'')]"
    by code_simp+
  then obtain W tag W' tag' where r: "client_rows (mMas toy_s3) = [(''a'', ''b'', W, tag)]" "client_rows (mMom toy_s3) = [(''a'', ''b'', W', tag')]"
    by (auto simp: length_Suc_conv)
  have "client toy_s3 MAS = Inr (mMas toy_s3)" "client toy_s3 MOM = Inr (mMom toy_s3)" by (simp_all add: client_def)
  then have "W = W' \<longleftrightarrow> entity_point toy_sodium ''a'' ''b'' = entity_point toy_sodium ''a'' ''b''"
    using entity_keys_link [OF toy_laws toy_lengths toy_lengths toy_reach(2), of MAS "mMas toy_s3" MOM "mMom toy_s3" "''a''" "''b''" W tag "''a''" "''b''" W' tag']
    by (simp add: r)
  then show ?thesis using l(1) by (simp add: r)
qed

end
