(* ===== verification/Alignment_Wire.thy ===== *)
theory Alignment_Wire
  imports Rank_Wire
begin

text \<open>
  The alignment of one bin on shares (\<open>volePSI/MpsvsAlignmentWire.h\<close>, \<open>volePSI/MpsvsAlignmentWire.cpp\<close>): the
  rows of a bin are packed into sort elements, padded, sorted by their shared key, and a pass over
  adjacent rows flags those of equal key that are both real.
\<close>

record SharedBinRow =
  wb_bin :: "32 word"
  wb_source :: "8 word"
  wb_key :: SharedU64Bin
  wb_memb :: SharedBit
  wb_sector :: SharedU64Bin
  wb_payload :: SharedU64Bin

record SharedMergedRow =
  wm_bin :: "32 word"
  wm_live :: SharedBit
  wm_key :: SharedU64Bin
  wm_sector :: SharedU64Bin
  wm_payload :: SharedU64Bin

record PlainMergedRow =
  pm_bin :: "32 word"
  pm_live :: "8 word"
  pm_key :: "64 word"
  pm_sector :: "64 word"
  pm_payload :: "64 word"

definition alignmentWireTripleBudget :: "64 word \<Rightarrow> 64 word result" where
  "alignmentWireTripleBudget bin_size =
     bindE (mpcBitonicSortTripleCost bin_size 137) (\<lambda>sort.
     let merge = bin_size * (secureEqualTripleCost + 3 * 64 + 8) in Inr (sort + merge + 1000))"

definition shareBinRow ::
  "'g prng \<Rightarrow> 32 word \<Rightarrow> 8 word \<Rightarrow> 64 word \<Rightarrow> 8 word \<Rightarrow> 64 word \<Rightarrow> 64 word \<Rightarrow> 'g \<Rightarrow> (SharedBinRow \<times> 'g) result" where
  "shareBinRow G bin source key memb sector payload g =
     bindE (shareU64Bin G 2 key g) (\<lambda>(k, g1). bindE (shareBit G 2 memb g1) (\<lambda>(m, g2).
     bindE (shareU64Bin G 2 sector g2) (\<lambda>(s, g3). bindE (shareU64Bin G 2 payload g3) (\<lambda>(p, g4).
     Inr (\<lparr>wb_bin = bin, wb_source = source, wb_key = k, wb_memb = m, wb_sector = s, wb_payload = p\<rparr>, g4)))))"

subsection \<open>Sorting a bin\<close>

definition toSortElement :: "SharedBinRow \<Rightarrow> SharedSortElement result" where
  "toSortElement r =
     bindE (mapE (\<lambda>i. public_bit (bin_N (wb_key r)) (bit (wb_source r) i)) [0..<8]) (\<lambda>src.
     Inr \<lparr>sse_key = wb_key r,
          sse_payload = [wb_memb r] @ take 64 (bin_bits (wb_sector r)) @ take 64 (bin_bits (wb_payload r)) @ src\<rparr>)"

definition fromSortElement :: "32 word \<Rightarrow> SharedSortElement \<Rightarrow> SharedBinRow result" where
  "fromSortElement bin e =
     (let pl = sse_payload e in
      throw_if (length pl < 137) OutOfBounds
        (Inr \<lparr>wb_bin = bin,
              wb_source = fold (\<lambda>i v. v OR push_bit i (bit_reconstruct (pl ! (129 + i)) AND 1)) [0..<8] 0,
              wb_key = sse_key e, wb_memb = pl ! 0,
              wb_sector = \<lparr>bin_bits = map (\<lambda>i. pl ! (1 + i)) [0..<64]\<rparr>,
              wb_payload = \<lparr>bin_bits = map (\<lambda>i. pl ! (65 + i)) [0..<64]\<rparr>\<rparr>))"

definition bin_dummy :: "32 word \<Rightarrow> nat \<Rightarrow> SharedBinRow result" where
  "bin_dummy bin N =
     bindE (mapE (\<lambda>i. public_bit N True) [0..<64]) (\<lambda>ks.
     Inr \<lparr>wb_bin = bin, wb_source = 4, wb_key = \<lparr>bin_bits = ks\<rparr>, wb_memb = bit_zero N,
          wb_sector = \<lparr>bin_bits = replicate 64 (bit_zero N)\<rparr>, wb_payload = \<lparr>bin_bits = replicate 64 (bit_zero N)\<rparr>\<rparr>)"

definition withinBinSortWire ::
  "SharedBinRow list \<Rightarrow> BeaverTripleBit list \<Rightarrow> nat \<Rightarrow> (SharedBinRow list \<times> nat) result" where
  "withinBinSortWire rows triples k =
     (if rows = [] then Inr (rows, k) else
      let bin = wb_bin (hd rows); N = bin_N (wb_key (hd rows)) in
      case nextPow_loop (of_nat (length rows)) 1 of None \<Rightarrow> Inl Diverges
      | Some target \<Rightarrow>
          bindE (mapE (\<lambda>_. bin_dummy bin N) [length rows..<unat target]) (\<lambda>dummies.
          bindE (mapE toSortElement (rows @ dummies)) (\<lambda>xs.
          bindE (mpcBitonicSort xs triples k) (\<lambda>(ys, k1).
          bindE (mapE (fromSortElement bin) ys) (\<lambda>out. Inr (out, k1))))))"

subsection \<open>Merging adjacent rows\<close>

text \<open>The products read their triples without a check of the bag.\<close>

definition muxBit :: "SharedBit \<Rightarrow> SharedBit \<Rightarrow> SharedBit \<Rightarrow> BeaverTripleBit list \<Rightarrow> nat \<Rightarrow> (SharedBit \<times> nat) result" where
  "muxBit b x y triples k =
     bindE (xorShared x y) (\<lambda>diff.
     throw_if (length triples \<le> k) OutOfBounds
       (bindE (secureAnd b diff (triples ! k)) (\<lambda>gated.
        bindE (xorShared y gated) (\<lambda>z. Inr (z, Suc k)))))"

definition muxU64Bin ::
  "SharedBit \<Rightarrow> SharedU64Bin \<Rightarrow> SharedU64Bin \<Rightarrow> BeaverTripleBit list \<Rightarrow> nat \<Rightarrow> (SharedU64Bin \<times> nat) result" where
  "muxU64Bin b x y triples k =
     bindE (foldE (\<lambda>i (out, k). bindE (vec_at (bin_bits x) i) (\<lambda>x_i. bindE (vec_at (bin_bits y) i) (\<lambda>y_i.
         bindE (muxBit b x_i y_i triples k) (\<lambda>(z, k'). Inr (out @ [z], k'))))) [0..<64] ([], k))
       (\<lambda>(out, k'). Inr (\<lparr>bin_bits = out\<rparr>, k'))"

definition merge_adjacent ::
  "SharedBinRow \<Rightarrow> SharedBinRow \<Rightarrow> BeaverTripleBit list \<Rightarrow> nat \<Rightarrow> (SharedMergedRow \<times> nat) result" where
  "merge_adjacent r s triples k =
     bindE (secureEqual (wb_key r) (wb_key s) triples k) (\<lambda>(key_match, k1).
     throw_if (length triples \<le> k1) OutOfBounds
    (bindE (secureAnd (wb_memb r) (wb_memb s) (triples ! k1)) (\<lambda>both_real.
     throw_if (length triples \<le> Suc k1) OutOfBounds
    (bindE (secureAnd key_match both_real (triples ! Suc k1)) (\<lambda>live.
     bindE (muxU64Bin live (wb_sector r) (wb_sector r) triples (k1 + 2)) (\<lambda>(sector, k2).
     bindE (muxU64Bin live (wb_payload s) (wb_payload r) triples k2) (\<lambda>(payload, k3).
     Inr (\<lparr>wm_bin = wb_bin r, wm_live = live, wm_key = wb_key r, wm_sector = sector, wm_payload = payload\<rparr>, k3))))))))"

definition last_row :: "nat \<Rightarrow> SharedBinRow \<Rightarrow> SharedMergedRow" where
  "last_row N r = \<lparr>wm_bin = wb_bin r, wm_live = bit_zero N, wm_key = wb_key r, wm_sector = wb_sector r,
     wm_payload = wb_payload r\<rparr>"

fun merge_rows ::
  "nat \<Rightarrow> SharedBinRow list \<Rightarrow> BeaverTripleBit list \<Rightarrow> nat \<Rightarrow> (SharedMergedRow list \<times> nat) result" where
  "merge_rows N [] triples k = Inr ([], k)"
| "merge_rows N [r] triples k = Inr ([last_row N r], k)"
| "merge_rows N (r # s # rows) triples k =
     bindE (merge_adjacent r s triples k) (\<lambda>(m, k1).
     bindE (merge_rows N (s # rows) triples k1) (\<lambda>(ms, k2). Inr (m # ms, k2)))"

definition windowedMergeWire ::
  "SharedBinRow list \<Rightarrow> BeaverTripleBit list \<Rightarrow> nat \<Rightarrow> (SharedMergedRow list \<times> nat) result" where
  "windowedMergeWire rows triples k = merge_rows (bin_N (wb_key (hd rows))) rows triples k"

definition reconstructMerged :: "SharedMergedRow list \<Rightarrow> PlainMergedRow list" where
  "reconstructMerged shared = map (\<lambda>s.
     \<lparr>pm_bin = wm_bin s, pm_live = bit_reconstruct (wm_live s), pm_key = bin_reconstruct (wm_key s),
      pm_sector = bin_reconstruct (wm_sector s), pm_payload = bin_reconstruct (wm_payload s)\<rparr>) shared"

subsection \<open>What rows open to\<close>

record PlainBinRow =
  pb_key :: "64 word"
  pb_memb :: bool
  pb_sector :: "64 word"
  pb_payload :: "64 word"
  pb_source :: "8 word"

definition plain_row_of :: "SharedBinRow \<Rightarrow> PlainBinRow" where
  "plain_row_of r = \<lparr>pb_key = bin_reconstruct (wb_key r), pb_memb = bval (wb_memb r),
     pb_sector = bin_reconstruct (wb_sector r), pb_payload = bin_reconstruct (wb_payload r), pb_source = wb_source r\<rparr>"

definition plain_elem :: "64 word \<times> bool list \<Rightarrow> PlainBinRow" where
  "plain_elem = (\<lambda>(key, pl). \<lparr>pb_key = key, pb_memb = pl ! 0, pb_sector = horner_sum of_bool 2 (take 64 (drop 1 pl)),
     pb_payload = horner_sum of_bool 2 (take 64 (drop 65 pl)), pb_source = horner_sum of_bool 2 (take 8 (drop 129 pl))\<rparr>)"

definition bin_row_ok :: "nat \<Rightarrow> SharedBinRow \<Rightarrow> bool" where
  "bin_row_ok n r \<longleftrightarrow> bin_ok n (wb_key r) \<and> bit_N (wb_memb r) = n \<and> bin_ok n (wb_sector r) \<and> bin_ok n (wb_payload r)"

lemma bin_reconstruct_horner:
  "length (bin_bits x) = 64 \<Longrightarrow> bin_reconstruct x = horner_sum of_bool 2 (map bval (bin_bits x))"
  by (rule bit_word_eqI) (simp add: bit_bin_reconstruct bit_horner_sum_bit_word_iff)

lemma toSortElement_returns:
  assumes "bin_row_ok n r" "0 < n"
  shows "returns (toSortElement r) (\<lambda>e. elem_ok n 137 e \<and> fst (reveal_elem e) = bin_reconstruct (wb_key r) \<and>
    plain_elem (reveal_elem e) = plain_row_of r)"
proof -
  have N: "bin_N (wb_key r) = n" using assms(1) by (simp add: bin_row_ok_def bin_ok_N)
  obtain src where src: "mapE (\<lambda>i. public_bit n (bit (wb_source r) i)) [0..<8] = Inr src" "bits_ok n 8 src"
      "map bval src = map (bit (wb_source r)) [0..<8]"
    using public_bits_returns [OF assms(2), of "bit (wb_source r)" 8] by (auto simp only: returns_def)
  have l: "length (bin_bits (wb_sector r)) = 64" "length (bin_bits (wb_payload r)) = 64" "length src = 8"
    using assms(1) src(2) by (simp_all add: bin_row_ok_def bin_ok_def)
  let ?e = "\<lparr>sse_key = wb_key r, sse_payload = [wb_memb r] @ bin_bits (wb_sector r) @ bin_bits (wb_payload r) @ src\<rparr>"
  have run: "toSortElement r = Inr ?e" using l by (simp only: toSortElement_def N src(1) bindE_simps take_all order_refl)
  have ok: "elem_ok n 137 ?e"
    using assms(1) src(2) by (auto simp: elem_ok_def bin_row_ok_def bin_ok_def nth_append nth_Cons')
  have "horner_sum of_bool 2 (map bval src) = wb_source r"
    by (simp only: src(3) horner_sum_bit_eq_take_bit) (simp add: take_bit_word_eq_self)
  then have "plain_elem (reveal_elem ?e) = plain_row_of r"
    using l by (simp add: plain_elem_def reveal_elem_def plain_row_of_def bin_reconstruct_horner)
  then show ?thesis using ok by (simp add: run reveal_elem_def)
qed


lemma bit_fold_or8:
  assumes "n \<le> 8"
  shows "bit (fold (\<lambda>i v. v OR push_bit i (bit_reconstruct (f i) AND 1)) [0..<n] (0 :: 8 word)) j \<longleftrightarrow> j < n \<and> bval (f j)"
  using assms
proof (induction n)
  case (Suc n)
  then show ?case by (cases "j = n") (auto simp: bit_simps less_Suc_eq bval_def)
qed simp

lemma fromSortElement_returns:
  assumes "elem_ok n 137 e"
  shows "returns (fromSortElement bin e) (\<lambda>r. bin_row_ok n r \<and> wb_bin r = bin \<and> plain_row_of r = plain_elem (reveal_elem e))"
proof -
  let ?pl = "sse_payload e"
  have l: "length ?pl = 137" "\<And>i. i < 137 \<Longrightarrow> bit_N (?pl ! i) = n" "bin_ok n (sse_key e)"
    using assms by (simp_all add: elem_ok_def)
  have word: "bin_reconstruct \<lparr>bin_bits = map (\<lambda>i. ?pl ! (a + i)) [0..<64]\<rparr> = horner_sum of_bool 2 (take 64 (drop a (map bval ?pl)))"
    if "a + 64 \<le> 137" for a
    using that l(1) by (intro bit_word_eqI) (simp add: bit_bin_reconstruct bit_horner_sum_bit_word_iff)
  have src: "fold (\<lambda>i v. v OR push_bit i (bit_reconstruct (?pl ! (129 + i)) AND 1)) [0..<8] (0 :: 8 word) =
      horner_sum of_bool 2 (take 8 (drop 129 (map bval ?pl)))"
    by (rule bit_word_eqI, subst bit_fold_or8) (use l(1) in \<open>simp_all add: bit_horner_sum_bit_word_iff\<close>)
  show ?thesis
    using l word [of 1] word [of 65] src
    by (simp add: fromSortElement_def Let_def bin_row_ok_def bin_ok_def plain_row_of_def plain_elem_def reveal_elem_def)
qed

lemma bin_dummy_returns:
  assumes "0 < n"
  shows "returns (bin_dummy bin n) (\<lambda>r. bin_row_ok n r \<and> bin_reconstruct (wb_key r) = - 1)"
proof -
  obtain ks where ks: "mapE (\<lambda>i. public_bit n True) [0..<64] = Inr ks" "bits_ok n 64 ks" "map bval ks = map (\<lambda>_. True) [0..<64]"
    using public_bits_returns [OF assms, of "\<lambda>_. True" 64] by (auto simp only: returns_def)
  have "bval (ks ! i)" if "i < 64" for i using that ks(2) arg_cong [OF ks(3), of "\<lambda>l. l ! i"] by simp
  then have "bin_reconstruct \<lparr>bin_bits = ks\<rparr> = - 1" by (intro bit_word_eqI) (simp add: bit_bin_reconstruct bit_simps)
  moreover have "bin_row_ok n \<lparr>wb_bin = bin, wb_source = 4, wb_key = \<lparr>bin_bits = ks\<rparr>, wb_memb = bit_zero n,
          wb_sector = \<lparr>bin_bits = replicate 64 (bit_zero n)\<rparr>, wb_payload = \<lparr>bin_bits = replicate 64 (bit_zero n)\<rparr>\<rparr>"
    using ks(2) by (simp add: bin_row_ok_def bin_ok_def)
  moreover have "bin_dummy bin n = Inr \<lparr>wb_bin = bin, wb_source = 4, wb_key = \<lparr>bin_bits = ks\<rparr>, wb_memb = bit_zero n,
          wb_sector = \<lparr>bin_bits = replicate 64 (bit_zero n)\<rparr>, wb_payload = \<lparr>bin_bits = replicate 64 (bit_zero n)\<rparr>\<rparr>"
    by (simp only: bin_dummy_def ks(1) bindE_simps)
  ultimately show ?thesis by simp
qed


subsection \<open>The sorted bin\<close>

lemma withinBinSortWire_sorts:
  assumes "bag_ok n ts" "\<forall>r\<in>set rows. bin_row_ok n r" "rows \<noteq> []" "length rows \<le> 2 ^ 62"
    and "\<forall>r\<in>set rows. bin_reconstruct (wb_key r) \<noteq> - 1" "k + sort_cost (length rows) 137 \<le> length ts"
  shows "returns (withinBinSortWire rows ts k) (\<lambda>(out, k'). (\<forall>r\<in>set out. bin_row_ok n r \<and> wb_bin r = wb_bin (hd rows)) \<and>
    length out = 2 ^ clog2 (length rows) \<and> k' = k + sort_cost (length rows) 137 \<and>
    sorted (map (pb_key \<circ> plain_row_of) out) \<and>
    filter_mset (\<lambda>r. pb_key r \<noteq> - 1) (mset (map plain_row_of out)) = mset (map plain_row_of rows))"
proof -
  have n: "0 < n" using assms(1) by (rule bag_ok_pos)
  let ?L = "length rows" and ?bin = "wb_bin (hd rows)"
  have N: "bin_N (wb_key (hd rows)) = n" using assms(2,3) by (cases rows) (auto simp: bin_row_ok_def bin_ok_N)
  have c: "clog2 ?L \<le> 62" using assms(4) by (rule clog2_le)
  have t: "nextPow_loop (of_nat ?L) 1 = Some (2 ^ clog2 ?L)" using next_target [of ?L] assms(4) by simp
  have u: "unat (2 ^ clog2 ?L :: 64 word) = 2 ^ clog2 ?L" using c by simp
  have "returns (mapE (\<lambda>_. bin_dummy ?bin n) [?L..<2 ^ clog2 ?L])
      (list_all2 (\<lambda>_ r. bin_row_ok n r \<and> bin_reconstruct (wb_key r) = - 1) [?L..<2 ^ clog2 ?L])"
    by (rule returns_mapE, rule bin_dummy_returns [OF n])
  then obtain ds where ds1: "mapE (\<lambda>_. bin_dummy ?bin n) [?L..<2 ^ clog2 ?L] = Inr ds"
    and dl: "list_all2 (\<lambda>_ r. bin_row_ok n r \<and> bin_reconstruct (wb_key r) = - 1) [?L..<2 ^ clog2 ?L] ds"
    by (auto simp: returns_def)
  have ds: "mapE (\<lambda>_. bin_dummy ?bin n) [?L..<2 ^ clog2 ?L] = Inr ds" "length ds = 2 ^ clog2 ?L - ?L"
      "\<forall>r\<in>set ds. bin_row_ok n r \<and> bin_reconstruct (wb_key r) = - 1"
    using ds1 dl by (auto simp: list_all2_conv_all_nth in_set_conv_nth)
  have ok: "\<forall>r\<in>set (rows @ ds). bin_row_ok n r" using assms(2) ds(3) by auto
  have "returns (mapE toSortElement (rows @ ds)) (list_all2 (\<lambda>r e. elem_ok n 137 e \<and>
      fst (reveal_elem e) = bin_reconstruct (wb_key r) \<and> plain_elem (reveal_elem e) = plain_row_of r) (rows @ ds))"
    by (rule returns_mapE, rule toSortElement_returns) (use ok n in auto)
  then obtain xs where xs: "mapE toSortElement (rows @ ds) = Inr xs" and all: "list_all2 (\<lambda>r e. elem_ok n 137 e \<and>
      fst (reveal_elem e) = bin_reconstruct (wb_key r) \<and> plain_elem (reveal_elem e) = plain_row_of r) (rows @ ds) xs"
    by (auto simp: returns_def)
  have xsok: "\<forall>x\<in>set xs. elem_ok n 137 x" using all by (auto simp: list_all2_conv_all_nth in_set_conv_nth)
  have lx: "length xs = 2 ^ clog2 ?L" using list_all2_lengthD [OF all] ds(2) clog2_ge [of ?L] by simp
  have plain: "map (plain_elem \<circ> reveal_elem) xs = map plain_row_of (rows @ ds)"
    using all by (auto simp: list_all2_conv_all_nth simp del: map_append intro!: nth_equalityI)
  have le: "length xs \<le> 2 ^ 63" unfolding lx using c by (intro power_increasing) simp_all
  have cost: "k + sort_cost (length xs) 137 \<le> length ts" using assms(6) by (simp only: lx sort_cost_padded)
  obtain ys where ys: "mpcBitonicSort xs ts k = Inr (ys, k + sort_cost ?L 137)" "\<forall>y\<in>set ys. elem_ok n 137 y"
      "length ys = length xs" "sorted (map (fst \<circ> reveal_elem) ys)"
      "filter_mset (\<lambda>e. fst e \<noteq> - 1) (mset (map reveal_elem ys)) = filter_mset (\<lambda>e. fst e \<noteq> - 1) (mset (map reveal_elem xs))"
    using mpcBitonicSort_returns [OF assms(1) xsok le cost] by (auto simp: returns_def lx sort_cost_padded)
  have "returns (mapE (fromSortElement ?bin) ys) (list_all2 (\<lambda>e r. bin_row_ok n r \<and> wb_bin r = ?bin \<and>
      plain_row_of r = plain_elem (reveal_elem e)) ys)"
    by (rule returns_mapE, rule fromSortElement_returns) (use ys(2) in auto)
  then obtain out where out: "mapE (fromSortElement ?bin) ys = Inr out" and o: "list_all2 (\<lambda>e r. bin_row_ok n r \<and>
      wb_bin r = ?bin \<and> plain_row_of r = plain_elem (reveal_elem e)) ys out"
    by (auto simp: returns_def)
  have po: "map plain_row_of out = map (plain_elem \<circ> reveal_elem) ys"
    using o by (auto simp: list_all2_conv_all_nth intro!: nth_equalityI)
  have key: "pb_key (plain_elem e) = fst e" for e by (cases e) (simp add: plain_elem_def)
  have keep: "filter_mset (\<lambda>r. pb_key r \<noteq> - 1) (image_mset plain_elem A) = image_mset plain_elem (filter_mset (\<lambda>e. fst e \<noteq> - 1) A)" for A
    by (simp add: filter_mset_image_mset key comp_def)
  have "mset (map plain_row_of out) = image_mset plain_elem (mset (map reveal_elem ys))"
    "mset (map plain_row_of (rows @ ds)) = image_mset plain_elem (mset (map reveal_elem xs))"
    by (simp_all only: po plain [symmetric] mset_map image_mset.compositionality)
  then have "filter_mset (\<lambda>r. pb_key r \<noteq> - 1) (mset (map plain_row_of out)) =
      filter_mset (\<lambda>r. pb_key r \<noteq> - 1) (mset (map plain_row_of (rows @ ds)))" by (simp only: keep ys(5))
  also have "\<dots> = mset (map plain_row_of rows)"
  proof -
    have "filter (\<lambda>r. pb_key r \<noteq> - 1) (map plain_row_of (rows @ ds)) = map plain_row_of rows"
      using assms(5) ds(3) by (auto simp: plain_row_of_def filter_empty_conv intro!: filter_True)
    then show ?thesis by (metis mset_filter)
  qed
  finally have M: "filter_mset (\<lambda>r. pb_key r \<noteq> - 1) (mset (map plain_row_of out)) = mset (map plain_row_of rows)" .
  have "map (pb_key \<circ> plain_row_of) out = map (fst \<circ> reveal_elem) ys"
    using arg_cong [OF po, of "map pb_key"] by (simp add: comp_def key)
  then have "sorted (map (pb_key \<circ> plain_row_of) out)" using ys(4) by simp
  moreover have "withinBinSortWire rows ts k = Inr (out, k + sort_cost ?L 137)"
    using assms(3) by (simp only: withinBinSortWire_def Let_def N t option.case u ds(1) bindE_simps xs ys(1) split out if_False)
  moreover have "\<forall>r\<in>set out. bin_row_ok n r \<and> wb_bin r = ?bin" using o by (auto simp: list_all2_conv_all_nth in_set_conv_nth)
  moreover have "length out = 2 ^ clog2 ?L" using list_all2_lengthD [OF o] ys(3) lx by simp
  ultimately show ?thesis using M by simp
qed


subsection \<open>The merged rows\<close>

lemma muxBit_returns:
  assumes "bag_ok n ts" "bit_N b = n" "bit_N x = n" "bit_N y = n" "k < length ts"
  shows "returns (muxBit b x y ts k) (\<lambda>(z, k'). bit_N z = n \<and> bval z = (if bval b then bval x else bval y) \<and> k' = Suc k)"
  unfolding muxBit_def using assms by (intro gate_wp) auto

lemma muxU64Bin_returns:
  assumes "bag_ok n ts" "bit_N b = n" "bin_ok n x" "bin_ok n y" "k + 64 \<le> length ts"
  shows "returns (muxU64Bin b x y ts k) (\<lambda>(z, k'). bin_ok n z \<and>
    bin_reconstruct z = (if bval b then bin_reconstruct x else bin_reconstruct y) \<and> k' = k + 64)"
proof -
  let ?f = "\<lambda>i (out, k). bindE (vec_at (bin_bits x) i) (\<lambda>x_i. bindE (vec_at (bin_bits y) i) (\<lambda>y_i.
         bindE (muxBit b x_i y_i ts k) (\<lambda>(z, k'). Inr (out @ [z], k'))))"
  have "returns (foldE ?f [0..<64] ([], k)) (\<lambda>(out, k'). bits_ok n 64 out \<and> k' = k + 64 \<and>
      (\<forall>j<64. bval (out ! j) = (if bval b then bin_bit x j else bin_bit y j)))"
  proof (rule returns_foldE_upt [where I = "\<lambda>i (out, k'). bits_ok n i out \<and> k' = k + i \<and>
      (\<forall>j<i. bval (out ! j) = (if bval b then bin_bit x j else bin_bit y j))"], goal_cases)
    case (2 i st)
    obtain out k' where st: "st = (out, k')" by (cases st)
    have "bit_N (bin_bits x ! i) = n" "bit_N (bin_bits y ! i) = n" "i < length (bin_bits x)" "i < length (bin_bits y)"
      using assms(3,4) 2(1) by (simp_all add: bin_ok_def)
    moreover from this obtain z where "muxBit b (bin_bits x ! i) (bin_bits y ! i) ts k' = Inr (z, Suc k')"
        "bit_N z = n" "bval z = (if bval b then bin_bit x i else bin_bit y i)"
      using muxBit_returns [OF assms(1,2), of "bin_bits x ! i" "bin_bits y ! i" k'] assms(5) 2 by (auto simp: st returns_def)
    ultimately show ?case using 2(2) by (auto simp: st nth_append less_Suc_eq)
  qed simp
  then obtain out where out: "foldE ?f [0..<64] ([], k) = Inr (out, k + 64)" "bits_ok n 64 out"
      "\<forall>j<64. bval (out ! j) = (if bval b then bin_bit x j else bin_bit y j)" by (auto simp: returns_def)
  have "bin_reconstruct \<lparr>bin_bits = out\<rparr> = (if bval b then bin_reconstruct x else bin_reconstruct y)"
    using out(3) by (intro bit_word_eqI) (auto simp: bit_bin_reconstruct)
  then show ?thesis using out(1,2) by (simp add: muxU64Bin_def bin_ok_def)
qed

text \<open>The pass in the clear: a row is live if the next row has its key and both are real, and then it takes
  the payload of the next row.\<close>

definition same_entity :: "PlainBinRow \<Rightarrow> PlainBinRow \<Rightarrow> bool" where
  "same_entity r s \<longleftrightarrow> pb_key r = pb_key s \<and> pb_memb r \<and> pb_memb s"

fun plain_merge :: "32 word \<Rightarrow> PlainBinRow list \<Rightarrow> PlainMergedRow list" where
  "plain_merge bin [] = []"
| "plain_merge bin [r] =
     [\<lparr>pm_bin = bin, pm_live = 0, pm_key = pb_key r, pm_sector = pb_sector r, pm_payload = pb_payload r\<rparr>]"
| "plain_merge bin (r # s # rows) =
     \<lparr>pm_bin = bin, pm_live = of_bool (same_entity r s), pm_key = pb_key r, pm_sector = pb_sector r,
      pm_payload = (if same_entity r s then pb_payload s else pb_payload r)\<rparr> # plain_merge bin (s # rows)"

definition opens_merged :: "SharedMergedRow \<Rightarrow> PlainMergedRow" where
  "opens_merged s = \<lparr>pm_bin = wm_bin s, pm_live = bit_reconstruct (wm_live s), pm_key = bin_reconstruct (wm_key s),
      pm_sector = bin_reconstruct (wm_sector s), pm_payload = bin_reconstruct (wm_payload s)\<rparr>"

lemma merge_adjacent_returns:
  assumes "bag_ok n ts" "bin_row_ok n r" "bin_row_ok n s" "k + 193 \<le> length ts"
  shows "returns (merge_adjacent r s ts k) (\<lambda>(m, k'). k' = k + 193 \<and>
    opens_merged m = hd (plain_merge (wb_bin r) [plain_row_of r, plain_row_of s]))"
proof -
  have ok: "bin_ok n (wb_key r)" "bin_ok n (wb_key s)" "bin_ok n (wb_sector r)" "bin_ok n (wb_payload r)" "bin_ok n (wb_payload s)"
      "bit_N (wb_memb r) = n" "bit_N (wb_memb s) = n"
    using assms(2,3) by (simp_all add: bin_row_ok_def)
  obtain km where km: "secureEqual (wb_key r) (wb_key s) ts k = Inr (km, k + 63)" "bit_N km = n"
      "bval km = (bin_reconstruct (wb_key r) = bin_reconstruct (wb_key s))"
    using secureEqual_returns [OF assms(1) ok(1,2), of k] assms(4) by (auto simp: returns_def)
  obtain both where both: "secureAnd (wb_memb r) (wb_memb s) (ts ! (k + 63)) = Inr both" "bit_N both = n"
      "bval both = (bval (wb_memb r) \<and> bval (wb_memb s))"
    using wp_secureAnd [of "wb_memb r" ts "k + 63" "wb_memb s" Inr "\<lambda>z. bit_N z = n \<and> bval z = (bval (wb_memb r) \<and> bval (wb_memb s))"]
      assms(1,4) ok(6,7) by (auto simp: returns_def)
  obtain live where live: "secureAnd km both (ts ! Suc (k + 63)) = Inr live" "bit_N live = n" "bval live = (bval km \<and> bval both)"
    using wp_secureAnd [of km ts "Suc (k + 63)" both Inr "\<lambda>z. bit_N z = n \<and> bval z = (bval km \<and> bval both)"]
      assms(1,4) km(2) both(2) by (auto simp: returns_def)
  obtain sec where sec: "muxU64Bin live (wb_sector r) (wb_sector r) ts (k + 63 + 2) = Inr (sec, k + 129)"
      "bin_reconstruct sec = bin_reconstruct (wb_sector r)"
    using muxU64Bin_returns [OF assms(1) live(2) ok(3,3), of "k + 63 + 2"] assms(4) by (auto simp: returns_def)
  obtain pay where pay: "muxU64Bin live (wb_payload s) (wb_payload r) ts (k + 129) = Inr (pay, k + 193)"
      "bin_reconstruct pay = (if bval live then bin_reconstruct (wb_payload s) else bin_reconstruct (wb_payload r))"
    using muxU64Bin_returns [OF assms(1) live(2) ok(5,4), of "k + 129"] assms(4) by (auto simp: returns_def)
  have b: "(length ts \<le> k + 63) = False" "(length ts \<le> Suc (k + 63)) = False" using assms(4) by simp_all
  have "merge_adjacent r s ts k = Inr (\<lparr>wm_bin = wb_bin r, wm_live = live, wm_key = wb_key r, wm_sector = sec, wm_payload = pay\<rparr>, k + 193)"
    by (simp only: merge_adjacent_def km(1) bindE_simps split throw_if_simps b both(1) live(1) sec(1) pay(1) if_False)
  then show ?thesis
    by (simp add: opens_merged_def sec(2) pay(2) live(3) km(3) both(3) same_entity_def plain_row_of_def bit_reconstruct_bval)
qed

lemma windowedMergeWire_opens:
  assumes "bag_ok n ts" "\<forall>r\<in>set rows. bin_row_ok n r \<and> wb_bin r = bin" "k + 193 * (length rows - 1) \<le> length ts"
  shows "returns (windowedMergeWire rows ts k) (\<lambda>(ms, k'). k' = k + 193 * (length rows - 1) \<and>
    reconstructMerged ms = plain_merge bin (map plain_row_of rows))"
proof -
  have n: "0 < n" using assms(1) by (rule bag_ok_pos)
  have "returns (merge_rows N rows ts k) (\<lambda>(ms, k'). k' = k + 193 * (length rows - 1) \<and>
    map opens_merged ms = plain_merge bin (map plain_row_of rows))" for N
    using assms(2,3)
  proof (induction rows arbitrary: k rule: induct_list012)
    case (2 r)
    then show ?case by (simp add: last_row_def opens_merged_def plain_row_of_def bit_reconstruct_bval)
  next
    case (3 r s rows)
    have rs: "bin_row_ok n r" "bin_row_ok n s" "wb_bin r = bin" "\<forall>r\<in>set (s # rows). bin_row_ok n r \<and> wb_bin r = bin"
      using 3(3) by simp_all
    have len: "k + 193 \<le> length ts" "k + 193 + 193 * (length (s # rows) - 1) \<le> length ts"
      "k + 193 + 193 * (length (s # rows) - 1) = k + 193 * (length (r # s # rows) - 1)"
      using 3(4) by simp_all
    obtain m where m: "merge_adjacent r s ts k = Inr (m, k + 193)"
        "opens_merged m = hd (plain_merge (wb_bin r) [plain_row_of r, plain_row_of s])"
      by (rule returnsE [OF merge_adjacent_returns [OF assms(1) rs(1,2) len(1)]]) auto
    obtain ms where ms: "merge_rows N (s # rows) ts (k + 193) = Inr (ms, k + 193 + 193 * (length (s # rows) - 1))"
        "map opens_merged ms = plain_merge bin (map plain_row_of (s # rows))"
      by (rule returnsE [OF 3(2) [OF rs(4) len(2)]]) (simp only: split_beta, metis prod.collapse)
    have "merge_rows N (r # s # rows) ts k = Inr (m # ms, k + 193 * (length (r # s # rows) - 1))"
      by (simp only: merge_rows.simps m(1) ms(1) bindE_simps split len(3))
    then show ?case using m(2) ms(2) rs(3) by simp
  qed simp
  moreover have "reconstructMerged = map opens_merged" by (auto simp: reconstructMerged_def opens_merged_def)
  ultimately show ?thesis by (simp add: windowedMergeWire_def)
qed

text \<open>The published budget counts the pass over \<open>bin_size\<close> rows, but the sort pads the bin, and the pass goes
  over the padded rows: for 17 rows it is short of triples, which the products read without a check.\<close>

lemma alignment_budget_short:
  shows "alignmentWireTripleBudget 17 = Inr (word_of_nat (sort_cost 17 137 + 5471))"
    and "length out = 2 ^ clog2 17 \<Longrightarrow> sort_cost 17 137 + 5471 < sort_cost 17 137 + 193 * (length out - 1)"
proof -
  have "mpcBitonicSortTripleCost 17 137 = Inr (word_of_nat (sort_cost 17 137))"
    using mpcBitonicSortTripleCost_small [of 17 137] by simp
  then show "alignmentWireTripleBudget 17 = Inr (word_of_nat (sort_cost 17 137 + 5471))"
    by (simp add: alignmentWireTripleBudget_def secureEqualTripleCost_def)
  have "\<not> clog2 17 \<le> 4" using clog2_ge [of 17] power_increasing [of "clog2 17" 4 "2 :: nat"] by auto
  then have "clog2 17 = 5" using clog2_le [of 17 5] by simp
  then show "length out = 2 ^ clog2 17 \<Longrightarrow> sort_cost 17 137 + 5471 < sort_cost 17 137 + 193 * (length out - 1)" by simp
qed

end
