(* ===== verification/Auth_Prod.thy ===== *)
theory Auth_Prod
  imports Spdz_Share
begin

text \<open>
  The production variants of the authenticated shares (\<open>volePSI/MpsvsAuthShareProd.h\<close>,
  \<open>volePSI/MpsvsAuthShareProd.cpp\<close>, and \<open>Result\<close> of \<open>volePSI/MpsvsProdHygiene.h\<close>): sharing with the system
  generator, an opening that reports a failed check, and the audit log of a session.

  The clock is read once per report: its readings are arguments. The mutex of the log is not
  modelled, as every method holds it from its first to its last statement; \<open>openWithAuditLog\<close> takes it
  twice, and is modelled for a log that no other thread appends to in between.
\<close>

record 'a Result =
  rs_value :: 'a
  rs_abort :: AbortReport

text \<open>A default \<open>AbortReport\<close>; the code leaves its party id uninitialised.\<close>

definition no_report :: AbortReport where
  "no_report = \<lparr>ar_reason = NONE, ar_ctx = \<lparr>protocol_phase = '''', party_id = 0, cell_key = '''', extra_notes = ''''\<rparr>,
     timestamp_ns = 0, prev_link = replicate 32 0, this_link = replicate 32 0\<rparr>"

definition resultOk :: "'a Result \<Rightarrow> bool" where
  "resultOk r \<longleftrightarrow> \<not> isAbort (rs_abort r)"

definition makeValue :: "'a \<Rightarrow> 'a Result" where
  "makeValue v = \<lparr>rs_value = v, rs_abort = no_report\<rparr>"

definition makeAbort :: "AbortReport \<Rightarrow> 64 word Result" where
  "makeAbort a = \<lparr>rs_value = 0, rs_abort = a\<rparr>"

subsection \<open>Sharing and opening\<close>

definition SecureAlpha_generate :: "'r prng \<Rightarrow> 'r \<Rightarrow> 64 word \<times> 'r" where
  "SecureAlpha_generate R r = (let (v, r1) = secureRandU64 R r in (if v = 0 then 1 else v, r1))"

text \<open>The value share and the tag share of a party are drawn one after the other.\<close>

definition rand_pair :: "'r prng \<Rightarrow> 'r \<Rightarrow> (64 word \<times> 64 word) \<times> 'r" where
  "rand_pair R r = (let (v, r1) = secureRandU64 R r; (m, r2) = secureRandU64 R r1 in ((v, m), r2))"

definition authShareU64Prod :: "'r prng \<Rightarrow> nat \<Rightarrow> 64 word \<Rightarrow> 64 word \<Rightarrow> 'r \<Rightarrow> (AuthSharedU64 \<times> 'r) result" where
  "authShareU64Prod R N value alpha r =
     (let (ps, r') = draws (rand_pair R) (N - 1) r;
          sum_v = sum_list (map fst ps); sum_m = sum_list (map snd ps) in
      throw_if (N = 0) OutOfBounds
        (Inr (\<lparr>av = \<lparr>u64_shares = map fst ps @ [value - sum_v]\<rparr>,
               am = \<lparr>u64_shares = map snd ps @ [alpha * value - sum_m]\<rparr>\<rparr>, r')))"

definition openWithMacCheckProd ::
  "(bytes \<Rightarrow> bytes) \<Rightarrow> 64 word \<Rightarrow> AuthSharedU64 \<Rightarrow> 64 word \<Rightarrow> AbortContext \<Rightarrow> bytes \<Rightarrow> 64 word Result" where
  "openWithMacCheckProd H now x alpha ctx prev =
     (let x_val = u64_reconstruct (av x); x_mac = u64_reconstruct (am x); expected = alpha * x_val in
      if expected \<noteq> x_mac then makeAbort (makeAbortReport H now MAC_FAIL ctx prev) else makeValue x_val)"

subsection \<open>The audit log\<close>

record SessionAuditLog =
  al_chain :: "AbortReport list"
  al_last_link :: bytes

definition new_log :: SessionAuditLog where
  "new_log = \<lparr>al_chain = [], al_last_link = replicate 32 0\<rparr>"

definition log_append ::
  "(bytes \<Rightarrow> bytes) \<Rightarrow> 64 word \<Rightarrow> AbortReason \<Rightarrow> AbortContext \<Rightarrow> SessionAuditLog \<Rightarrow> AbortReport \<times> SessionAuditLog" where
  "log_append H now reason ctx lg =
     (let r = makeAbortReport H now reason ctx (al_last_link lg) in
      (r, \<lparr>al_chain = al_chain lg @ [r], al_last_link = this_link r\<rparr>))"

text \<open>The report returned and the report logged read the clock separately.\<close>

definition openWithAuditLog ::
  "(bytes \<Rightarrow> bytes) \<Rightarrow> 64 word \<Rightarrow> 64 word \<Rightarrow> AuthSharedU64 \<Rightarrow> 64 word \<Rightarrow> AbortContext \<Rightarrow> SessionAuditLog \<Rightarrow>
     64 word Result \<times> SessionAuditLog" where
  "openWithAuditLog H now now' x alpha ctx lg =
     (let r = openWithMacCheckProd H now x alpha ctx (al_last_link lg) in
      if \<not> resultOk r
      then (r, snd (log_append H now' (ar_reason (rs_abort r)) (ar_ctx (rs_abort r)) lg))
      else (r, lg))"

subsection \<open>Facts\<close>

lemma SecureAlpha_generate_nonzero: "fst (SecureAlpha_generate R r) \<noteq> 0"
  by (simp add: SecureAlpha_generate_def split_beta)

lemma authShareU64Prod_returns:
  assumes "0 < N"
  shows "returns (authShareU64Prod R N v alpha r) (\<lambda>(x, r'). auth_valid N alpha x \<and> aval x = v)"
proof -
  obtain ps r' where d: "draws (rand_pair R) (N - 1) r = (ps, r')" by fastforce
  then have "length ps = N - 1" by (rule draws_length)
  with d assms show ?thesis
    by (simp add: authShareU64Prod_def auth_valid_def auth_defs u64_N_def u64_reconstruct_sum)
qed

text \<open>A log is a verified chain that starts from the zero link and whose last link is kept.\<close>

definition log_ok :: "(bytes \<Rightarrow> bytes) \<Rightarrow> SessionAuditLog \<Rightarrow> bool" where
  "log_ok H lg \<longleftrightarrow> verifyAbortChain H (al_chain lg) \<and>
     (if al_chain lg = [] then al_last_link lg = replicate 32 0
      else al_last_link lg = this_link (last (al_chain lg)) \<and> prev_link (hd (al_chain lg)) = replicate 32 0)"

lemma new_log_ok: "log_ok H new_log"
  by (simp add: log_ok_def new_log_def verifyAbortChain_def)

lemma log_append_ok:
  assumes "log_ok H lg"
  shows "log_ok H (snd (log_append H now reason ctx lg))"
proof -
  let ?r = "makeAbortReport H now reason ctx (al_last_link lg)"
  have "verifyAbortChain H (al_chain lg @ [?r])"
    using assms by (auto simp: log_ok_def verifyAbortChain_iff nth_append less_Suc_eq makeAbortReport_def computeLink_def
        report_bytes_def last_conv_nth split: if_splits)
  moreover have "prev_link (hd (al_chain lg @ [?r])) = replicate 32 0"
    using assms by (auto simp: log_ok_def makeAbortReport_def hd_append split: if_splits)
  ultimately show ?thesis by (simp add: log_ok_def log_append_def Let_def)
qed

text \<open>The opening accepts what \<open>openWithMacCheck\<close> accepts; what it rejects is in the log, which stays a
  verified chain.\<close>

lemma openWithAuditLog_logs:
  assumes "log_ok H lg"
  shows "case openWithAuditLog H now now' x alpha ctx lg of (r, lg') \<Rightarrow> log_ok H lg' \<and>
    (case openWithMacCheck x alpha of
       Some v \<Rightarrow> resultOk r \<and> rs_value r = v \<and> lg' = lg
     | None \<Rightarrow> \<not> resultOk r \<and> al_chain lg' = al_chain lg @ [makeAbortReport H now' MAC_FAIL ctx (al_last_link lg)])"
proof (cases "alpha * aval x = amac x")
  case True
  then have "openWithAuditLog H now now' x alpha ctx lg = (makeValue (aval x), lg)"
    by (simp add: openWithAuditLog_def openWithMacCheckProd_def resultOk_def makeValue_def isAbort_def no_report_def Let_def
        flip: aval_def amac_def)
  then show ?thesis using True assms
    by (simp add: openWithMacCheck_iff resultOk_def makeValue_def isAbort_def no_report_def)
next
  case False
  let ?r = "makeAbort (makeAbortReport H now MAC_FAIL ctx (al_last_link lg))"
  have r: "openWithMacCheckProd H now x alpha ctx (al_last_link lg) = ?r"
    using False by (simp add: openWithMacCheckProd_def Let_def flip: aval_def amac_def)
  have "\<not> resultOk ?r" "ar_reason (rs_abort ?r) = MAC_FAIL" "ar_ctx (rs_abort ?r) = ctx"
    by (simp_all add: resultOk_def makeAbort_def isAbort_def makeAbortReport_def)
  then have "openWithAuditLog H now now' x alpha ctx lg = (?r, snd (log_append H now' MAC_FAIL ctx lg))"
    by (simp add: openWithAuditLog_def r Let_def)
  then show ?thesis using False log_append_ok [OF assms] \<open>\<not> resultOk ?r\<close>
    by (auto simp: openWithMacCheck_iff log_append_def Let_def)
qed

text \<open>The returned report is the logged one only if both readings of the clock agree.\<close>

lemma reported_and_logged:
  assumes "openWithMacCheck x alpha = None"
  shows "rs_abort (fst (openWithAuditLog H now now' x alpha ctx lg)) =
     last (al_chain (snd (openWithAuditLog H now now' x alpha ctx lg))) \<longleftrightarrow> now = now'"
proof -
  have "alpha * aval x \<noteq> amac x" using assms by (auto simp: openWithMacCheck_iff split: if_splits)
  then show ?thesis
    by (auto simp: openWithAuditLog_def openWithMacCheckProd_def resultOk_def makeAbort_def isAbort_def log_append_def
        makeAbortReport_def Let_def aval_def amac_def)
qed

end
