(* ===== verification/Cover_Firms.thy ===== *)
theory Cover_Firms
  imports Sector_Agg_Wire
begin

text \<open>
  Cover firms (\<open>volePSI/MpsvsCoverFirms.h\<close>, \<open>volePSI/MpsvsCoverFirms.cpp\<close>): a random number of firms that
  do not exist, drawn by two servers, is added to the shared count of a cell.

  \<open>std::uniform_int_distribution(0, h)\<close> on a generator is the parameter \<open>uniform\<close>; all that is used of it
  is that its results are at most \<open>h\<close>. The two public \<open>double\<close> figures of the configuration are left out.
\<close>

record CoverConfig =
  K_min :: "32 word"
  K_max :: "32 word"
  inflate_sums :: bool

definition cover_half_range :: "CoverConfig \<Rightarrow> 64 word" where
  "cover_half_range cc = (ucast (K_max cc) - ucast (K_min cc)) div 2"

text \<open>With or without \<open>inflate_sums\<close> the sums stay as they are: a cover adds 0 to them.\<close>

definition addCoverFirms ::
  "('g \<Rightarrow> 64 word \<Rightarrow> 64 word \<times> 'g) \<Rightarrow> SharedSectorHistogram \<Rightarrow> CoverConfig \<Rightarrow> 'g \<times> 'g \<Rightarrow>
     (SharedSectorHistogram \<times> 'g \<times> 'g) result" where
  "addCoverFirms uniform cell cc = (\<lambda>(rng1, rng2).
     throw_if (K_max cc < K_min cc) (InvalidArgument ''CoverConfig: K_max < K_min'')
     (let (k1, rng1') = uniform rng1 (cover_half_range cc);
          (k2, rng2') = uniform rng2 (cover_half_range cc);
          shares = u64_shares (ss_valid cell) in
      bindE (vec_at shares 0) (\<lambda>a. bindE (vec_set shares 0 (a + (ucast (K_min cc) + k1))) (\<lambda>shares1.
      bindE (vec_at shares1 1) (\<lambda>b. bindE (vec_set shares1 1 (b + k2)) (\<lambda>shares2.
      Inr (cell\<lparr>ss_valid := \<lparr>u64_shares = shares2\<rparr>\<rparr>, rng1', rng2')))))))"

definition addCoverFirmsBatch ::
  "('g \<Rightarrow> 64 word \<Rightarrow> 64 word \<times> 'g) \<Rightarrow> SharedSectorHistogram list \<Rightarrow> CoverConfig \<Rightarrow> 'g \<times> 'g \<Rightarrow>
     (SharedSectorHistogram list \<times> 'g \<times> 'g) result" where
  "addCoverFirmsBatch uniform cells cc rngs =
     foldE (\<lambda>c (out, rngs). bindE (addCoverFirms uniform c cc rngs) (\<lambda>(c', rngs'). Inr (out @ [c'], rngs')))
       cells ([], rngs)"

definition bounded_draws :: "('g \<Rightarrow> 64 word \<Rightarrow> 64 word \<times> 'g) \<Rightarrow> bool" where
  "bounded_draws uniform \<longleftrightarrow> (\<forall>g h. fst (uniform g h) \<le> h)"

lemma unat_half_range:
  assumes "K_min cc \<le> K_max cc"
  shows "unat (cover_half_range cc) = (unat (K_max cc) - unat (K_min cc)) div 2"
proof -
  have u: "unat (ucast q :: 64 word) = unat q" for q :: "32 word"
    using unsigned_less [of q, where ?'a = nat] by (simp add: unsigned_ucast_eq take_bit_nat_eq_self)
  have "(ucast (K_min cc) :: 64 word) \<le> ucast (K_max cc)" using assms by (simp add: word_le_nat_alt u)
  then show ?thesis by (simp add: cover_half_range_def unat_div_distrib unat_sub u)
qed

text \<open>A covered cell opens to its count plus a number between the public bounds; nothing else changes.\<close>

definition covered :: "CoverConfig \<Rightarrow> SharedSectorHistogram \<Rightarrow> SharedSectorHistogram \<Rightarrow> bool" where
  "covered cc c c' \<longleftrightarrow> c'\<lparr>ss_valid := ss_valid c\<rparr> = c \<and> u64_N (ss_valid c') = u64_N (ss_valid c) \<and>
     (\<exists>K. unat (K_min cc) \<le> K \<and> K \<le> unat (K_max cc) \<and>
       u64_reconstruct (ss_valid c') = u64_reconstruct (ss_valid c) + word_of_nat K)"

lemma addCoverFirms_covers:
  assumes "bounded_draws uniform" "K_min cc \<le> K_max cc" "2 \<le> u64_N (ss_valid cell)"
  shows "returns (addCoverFirms uniform cell cc rngs) (\<lambda>(cell', rngs'). covered cc cell cell')"
proof -
  let ?h = "cover_half_range cc"
  obtain k1 g1 k2 g2 where k: "uniform (fst rngs) ?h = (k1, g1)" "uniform (snd rngs) ?h = (k2, g2)" by (metis surj_pair)
  have "fst (uniform (fst rngs) ?h) \<le> ?h" "fst (uniform (snd rngs) ?h) \<le> ?h"
    using assms(1) unfolding bounded_draws_def by blast+
  then have le: "unat k1 \<le> unat ?h" "unat k2 \<le> unat ?h" by (simp_all add: k word_le_nat_alt)
  let ?K = "unat (K_min cc) + unat k1 + unat k2"
  have "unat (K_min cc) \<le> unat (K_max cc)" using assms(2) by (simp add: word_le_nat_alt)
  then have "?K \<le> unat (K_max cc)" using le unfolding unat_half_range [OF assms(2)] by linarith
  moreover have "(word_of_nat ?K :: 64 word) = ucast (K_min cc) + k1 + k2"
    by (simp add: of_nat_unat)
  moreover obtain a b s where s: "u64_shares (ss_valid cell) = a # b # s"
    using assms(3) by (cases "u64_shares (ss_valid cell)" rule: remdups_adj.cases) (auto simp: u64_N_def)
  moreover have "\<not> K_max cc < K_min cc" using assms(2) by simp
  ultimately have K: "?K \<le> unat (K_max cc)" "(word_of_nat ?K :: 64 word) = ucast (K_min cc) + k1 + k2"
    "u64_shares (ss_valid cell) = a # b # s" "\<not> K_max cc < K_min cc" by blast+
  have run: "addCoverFirms uniform cell cc rngs =
      Inr (cell\<lparr>ss_valid := \<lparr>u64_shares = (a + (ucast (K_min cc) + k1)) # (b + k2) # s\<rparr>\<rparr>, g1, g2)"
    using k K(3,4) by (cases rngs) (simp add: addCoverFirms_def vec_at_def vec_set_def)
  have "covered cc cell (cell\<lparr>ss_valid := \<lparr>u64_shares = (a + (ucast (K_min cc) + k1)) # (b + k2) # s\<rparr>\<rparr>)"
    unfolding covered_def using K(1-3) by (auto simp: u64_N_def u64_reconstruct_sum ac_simps intro!: exI [of _ ?K])
  with run show ?thesis by simp
qed

lemma addCoverFirmsBatch_covers:
  assumes "bounded_draws uniform" "K_min cc \<le> K_max cc" "\<forall>c\<in>set cells. 2 \<le> u64_N (ss_valid c)"
  shows "returns (addCoverFirmsBatch uniform cells cc rngs) (\<lambda>(out, rngs'). list_all2 (covered cc) cells out)"
proof -
  have "returns (foldE (\<lambda>c (out, rngs). bindE (addCoverFirms uniform c cc rngs) (\<lambda>(c', rngs'). Inr (out @ [c'], rngs')))
      cells (out0, rngs)) (\<lambda>(out, rngs'). list_all2 (covered cc) (done_cells @ cells) out)"
    if "list_all2 (covered cc) done_cells out0" for out0 done_cells rngs
    using assms(3) that
  proof (induction cells arbitrary: out0 done_cells rngs)
    case (Cons c cells)
    obtain c' r where c: "addCoverFirms uniform c cc rngs = Inr (c', r)" "covered cc c c'"
      using addCoverFirms_covers [OF assms(1,2), of c rngs] Cons.prems(1) by (auto simp: returns_def)
    have "list_all2 (covered cc) (done_cells @ [c]) (out0 @ [c'])" using Cons.prems(2) c(2) by (simp add: list_all2_appendI)
    from Cons.IH [OF _ this, of r] Cons.prems(1) c(1) show ?case by simp
  qed simp
  from this [of "[]" "[]" rngs] show ?thesis by (simp add: addCoverFirmsBatch_def)
qed

text \<open>The two draws are not one uniform draw: \<open>K_min + j\<close> comes from \<open>j + 1\<close> pairs of draws, for \<open>j\<close> up to
  half the range.\<close>

lemma cover_pairs: "j \<le> h \<Longrightarrow> card {(a, b). a \<le> h \<and> b \<le> h \<and> a + b = j} = j + 1" for j h :: nat
proof -
  assume "j \<le> h"
  then have "{(a, b). a \<le> h \<and> b \<le> h \<and> a + b = j} = (\<lambda>a. (a, j - a)) ` {..j}" by auto
  then show ?thesis by (simp add: card_image inj_on_def)
qed

end
