(* ===== verification/Transcript_Log.thy ===== *)
theory Transcript_Log
  imports Oprf
begin

text \<open>
  The signed transcript of a party (\<open>volePSI/MpTranscript.h\<close>, \<open>volePSI/MpTranscript.cpp\<close>): an accumulator
  of length-prefixed records, its digest and its signature.

  The hash (\<open>oc::RandomOracle\<close> with 32 bytes of output) and the Ed25519 functions of libsodium are
  parameters; signing returns \<open>None\<close> when the call fails. The size of the accumulator is narrowed to
  32 bits in the call of the hash.
\<close>

type_synonym MpTranscript = bytes

definition push_be32 :: "32 word \<Rightarrow> bytes \<Rightarrow> bytes" where
  "push_be32 v acc = acc @ [ucast (drop_bit 24 v), ucast (drop_bit 16 v), ucast (drop_bit 8 v), ucast v]"

definition recordSpan :: "string \<Rightarrow> bytes \<Rightarrow> MpTranscript \<Rightarrow> MpTranscript" where
  "recordSpan label data acc =
     push_be32 (word_of_nat (length data)) (push_be32 (word_of_nat (length label)) acc @ str_bytes label) @ data"

definition record_event :: "string \<Rightarrow> bytes \<Rightarrow> MpTranscript \<Rightarrow> MpTranscript" where
  "record_event label data acc = recordSpan label data acc"

definition transcript_digest :: "(bytes \<Rightarrow> bytes) \<Rightarrow> MpTranscript \<Rightarrow> bytes" where
  "transcript_digest ro acc =
     ro (str_bytes ''mptranscript.v1'' @ take (unat (word_of_nat (length acc) :: 32 word)) acc)"

definition transcript_sign ::
  "(bytes \<Rightarrow> bytes) \<Rightarrow> (bytes \<Rightarrow> bytes \<Rightarrow> bytes option) \<Rightarrow> bytes \<Rightarrow> MpTranscript \<Rightarrow> bytes result" where
  "transcript_sign ro sign_detached sk acc =
     (case sign_detached (transcript_digest ro acc) sk of
        None \<Rightarrow> Inl (RuntimeError ''MpTranscript: crypto_sign_detached failed'')
      | Some sig \<Rightarrow> throw_if (length sig \<noteq> 64) (RuntimeError ''MpTranscript: unexpected signature length'') (Inr sig))"

definition transcript_verify :: "(bytes \<Rightarrow> bytes \<Rightarrow> bytes \<Rightarrow> bool) \<Rightarrow> bytes \<Rightarrow> bytes \<Rightarrow> bytes \<Rightarrow> bool" where
  "transcript_verify verify_detached digest_value signature pk = verify_detached signature digest_value pk"

subsection \<open>The transcript determines its events\<close>

text \<open>The accumulator after a sequence of records.\<close>

definition accumulated :: "(string \<times> bytes) list \<Rightarrow> MpTranscript" where
  "accumulated es = fold (\<lambda>(label, data). record_event label data) es []"

lemma push_be32_eq: "push_be32 v acc = acc @ be_bytes 4 v"
  by (simp add: push_be32_def be_bytes_def le_bytes_def upt_rec)

lemma accumulated_append: "accumulated (es @ [(label, data)]) = accumulated es @
    be_bytes 4 (word_of_nat (length (str_bytes label)) :: 32 word) @ str_bytes label @
    be_bytes 4 (word_of_nat (length data) :: 32 word) @ data"
  by (simp add: accumulated_def record_event_def recordSpan_def push_be32_eq)

definition encoded :: "string \<times> bytes \<Rightarrow> bytes" where
  "encoded = (\<lambda>(label, data). be_bytes 4 (word_of_nat (length (str_bytes label)) :: 32 word) @ str_bytes label @
     be_bytes 4 (word_of_nat (length data) :: 32 word) @ data)"

lemma accumulated_concat: "accumulated es = concat (map encoded es)"
proof (induction es rule: rev_induct)
  case (snoc e es)
  then show ?case by (cases e) (simp add: accumulated_append encoded_def)
qed (simp add: accumulated_def)

definition event_short :: "string \<times> bytes \<Rightarrow> bool" where
  "event_short = (\<lambda>(label, data). short (str_bytes label) \<and> short data)"

lemma encoded_nonempty: "encoded e \<noteq> []"
  by (auto simp: encoded_def be_bytes_def le_bytes_def split: prod.splits)

lemma accumulated_injective:
  assumes "list_all event_short es" "list_all event_short fs" "accumulated es = accumulated fs"
  shows "es = fs"
  using assms unfolding accumulated_concat
proof (induction es arbitrary: fs)
  case Nil
  then show ?case using encoded_nonempty by (cases fs) auto
next
  case (Cons e es)
  then obtain f gs where fs: "fs = f # gs" using encoded_nonempty [of e] by (cases fs) auto
  obtain l d l' d' where e: "e = (l, d)" "f = (l', d')" by (metis surj_pair)
  have s: "short (str_bytes l)" "short d" "short (str_bytes l')" "short d'"
    using Cons.prems(1,2) by (simp_all add: fs e event_short_def)
  from Cons.prems(3) have "str_bytes l = str_bytes l' \<and> d = d' \<and> concat (map encoded es) = concat (map encoded gs)"
    using lp_append [OF s(1,3)] lp_append [OF s(2,4)] by (simp add: fs e encoded_def)
  moreover from this have "es = gs" using Cons.IH [of gs] Cons.prems(1,2) by (simp add: fs)
  ultimately show ?case by (simp add: fs e str_bytes_inject)
qed

text \<open>Transcripts of less than \<open>2 ^ 32\<close> bytes with the same digest record the same events in the same order,
  if the hash does not collide on the two.\<close>

lemma transcript_digest_binds:
  assumes "list_all event_short es" "list_all event_short fs"
    and "length (accumulated es) < 2 ^ 32" "length (accumulated fs) < 2 ^ 32"
    and "inj_on ro {str_bytes ''mptranscript.v1'' @ accumulated es, str_bytes ''mptranscript.v1'' @ accumulated fs}"
    and "transcript_digest ro (accumulated es) = transcript_digest ro (accumulated fs)"
  shows "es = fs"
proof -
  have "unat (word_of_nat (length (accumulated xs)) :: 32 word) = length (accumulated xs)" if "length (accumulated xs) < 2 ^ 32" for xs
    using that by (simp add: unat_of_nat take_bit_eq_mod)
  then have "transcript_digest ro (accumulated xs) = ro (str_bytes ''mptranscript.v1'' @ accumulated xs)"
    if "length (accumulated xs) < 2 ^ 32" for xs using that by (simp add: transcript_digest_def)
  then have "accumulated es = accumulated fs" using assms(3-6) by (auto dest: inj_onD)
  then show ?thesis by (rule accumulated_injective [OF assms(1,2)])
qed

text \<open>Beyond that the digest forgets: it reads only the length modulo \<open>2 ^ 32\<close> of the bytes.\<close>

lemma transcript_digest_wraps:
  assumes "length acc = 2 ^ 32" "length acc' = 2 ^ 32"
  shows "transcript_digest ro acc = transcript_digest ro acc'"
proof -
  have "(word_of_nat (2 ^ 32) :: 32 word) = 0" by (simp only: of_nat_power) simp
  then show ?thesis by (simp only: transcript_digest_def assms) simp
qed

end
