(* ===== verification/Spec2Isabelle.thy ===== *)
theory Spec2Isabelle
  imports Mpc_Arithmetic Mpc_Sort Join_Driver Mpc_Join Alignment Spdz2k_Share Inclusion_Wire Percentiles KAnon_Gate
    Ratio_Bucket_Wire Goldschmidt_Wire Reciprocal_Verify Rank_Wire Percentiles_Wire Osn_Session
    Shuffle_Integrity Shuffle_Nizk Topology Alignment_Wire Auth_Prod Cover_Firms Transcript_Log
begin

text \<open>
  A model of the multi-party private join and statistics program under \<open>src/volePSI\<close>, and the
  theorems that make its parts correct.

  \<^bold>\<open>The program.\<close> Several parties hold tables keyed by an identifier and want the join of the tables,
  or statistics over it, without showing their rows. The code has three layers. The \<open>Mp*\<close> files
  are the multi-party computation: additive and XOR secret sharing, Beaver triples, comparison,
  addition and division circuits, a bitonic sort and a join over shares. The \<open>Mpsa*\<close> files are the
  join as an application, in the clear (the reference of the wire version) and through a malicious
  secure two-party shuffle with information-theoretic MACs, on an oblivious switching network
  (\<open>osn/\<close>), with Pedersen commitments and zero-knowledge arguments that check a shuffle. The
  \<open>Mpsvs*\<close> files are a statistics pipeline on top: keys of entities from a blinded evaluation by two
  servers, a session that coordinates the roles, alignment of three sources, inclusion rules, ratio
  buckets, ranks, percentiles, aggregation per sector and period, a k-anonymity gate, and
  SPDZ-authenticated openings. Many steps exist twice: a plaintext step and a "wire" step on shares; the wire theories here prove
  the second to open to the first.

  \<^bold>\<open>Conventions.\<close> A struct is a \<open>record\<close>, an enum a \<open>datatype\<close>, \<open>uintN_t\<close> an \<open>N word\<close> and so wraps as
  the code does; \<open>size_t\<close> is a \<open>64 word\<close> where its width matters and \<open>nat\<close> where it only counts
  elements, with the narrowing to 32 bits written out where the code computes an index, a counter or a
  size in them and the result depends on it (\<open>slot_index\<close>, \<open>slim_entries\<close>, \<open>wires_of\<close>). Signed types are
  \<open>int\<close> with an error for overflow, but for the \<open>__int128\<close> arithmetic of the 128-bit authenticated shares
  (\<open>Spdz2k_Share\<close>): that is arithmetic modulo \<open>2 ^ 128\<close>, on \<open>128 word\<close>, as the code means it to be, although
  signed overflow is undefined in C++. A function that
  can throw, read out of bounds or overflow a signed integer returns \<open>exn + 'a\<close> (Prelude), so every
  throw and every undefined access of the modelled code is a branch. \<open>std::map\<close> is the library's
  red-black tree (Ordered_Map). Randomness is a parameter: a generator record \<open>prng\<close> whose
  functions return the next state; no theorem about correctness restricts it. Hash functions,
  multiplication in GF(2^128), oblivious transfers and libsodium's group, which come from libraries
  outside \<open>src/\<close>, are parameters with the laws the code relies on as hypotheses: for the group, a record
  \<open>sodium\<close> of the functions called and \<open>ristretto_laws\<close>, which say that scalars and points are the encodings
  of the integers modulo a prime (\<open>Ristretto\<close>). A group of order 13 in \<open>Pedersen\<close> satisfies the laws and
  carries the witnesses. A cursor into a bag of preprocessed triples is a \<open>nat\<close> passed on
  by every gate; the theorems state the exact number of triples used and compare it with the
  published cost functions.

  \<^bold>\<open>Theories.\<close>
  \<^item> \<open>Prelude\<close>: errors as values, the loops \<open>mapE\<close> and \<open>foldE\<close>, \<open>returns m P\<close> (the step returns and its
    result satisfies P) with its rules, random draws, word lemmas. \<open>Bytes\<close>: little-endian encodings.
    \<open>Ordered_Map\<close>: grouping rows in a map, with the locale of additive group totals.
  \<^item> \<open>Secret_Share\<close> (\<open>MpSecretShare\<close>), \<open>Beaver_Triple\<close> (\<open>MpBeaverTriple\<close>): both sharings are instances
    of one locale of additive sharings, which proves the Beaver identity once; sharing and opening
    round trips, multiplication and AND open to the product.
  \<^item> \<open>Secure_Compare\<close> (\<open>MpSecureCompare\<close>), \<open>Mpc_Arithmetic\<close> (\<open>MpMpcArithmetic\<close>): the bit circuits open to
    \<open><\<close>, \<open>=\<close>, \<open>+\<close>, \<open>-\<close> with borrow, and division with remainder, and use exactly their published cost.
  \<^item> \<open>Bitonic_Network\<close>, \<open>Oblivious_Sort\<close> (\<open>MpObliviousSort\<close>), \<open>Mpc_Sort\<close> (\<open>MpMpcSort\<close>): one network,
    parameterised by its comparator, is the plaintext and the shared sort; it sorts and permutes (by
    the zero-one principle), the comparator counts match. The rounding to a power of two runs
    forever beyond \<open>2 ^ 63\<close>, which a theorem states exactly.
  \<^item> \<open>Cross_Product\<close>, \<open>Join_Expander\<close>, \<open>Join_Filter\<close>, \<open>Join_Driver\<close> (\<open>MpJoinExpander\<close>,
    \<open>MpJoinFilter\<close>, \<open>MpsaJoinDriver\<close>): windows, Cartesian expansion, filter and truncation; the
    driver returns the natural join of the input tables, as a multiset.
  \<^item> \<open>Mpc_Join\<close> (\<open>MpMpcJoin\<close>): the same join on shares, refined to an abstract join of the opened rows.
  \<^item> \<open>Mac\<close>, \<open>Cgp_Shuffle\<close> (\<open>MpMac\<close>, \<open>MpCgpShuffle\<close>): the MAC accepts exactly consistent shares; the two-party
    shuffle permutes the secret rows and catches a tampered round.
  \<^item> \<open>Prod_Hygiene\<close> (\<open>MpsvsProdHygiene\<close>): bounded random numbers are unbiased and found as soon as a draw
    is accepted; the chain of abort reports is tamper-evident up to a hash collision.
  \<^item> \<open>Tagged_Sharing\<close>, \<open>Spdz_Share\<close>, \<open>Spdz2k_Share\<close> (\<open>MpsvsAuthShare\<close>, \<open>MpsvsAuthShare128\<close>): a locale of
    tagged sharings, interpreted for both rings; multiplication, opening, batch opening, sacrifice,
    and exactly which tampering passes. \<open>Auth_Prod\<close> (\<open>MpsvsAuthShareProd\<close>): the production variants; a
    failed opening is in the audit log, which stays a verified chain.
  \<^item> \<open>Alignment\<close> (\<open>MpsvsAlignment\<close>): packing into bins, sort inside a bin, merge of three sources,
    shuffle; live rows are the joined entities. \<open>Alignment_Wire\<close> (\<open>MpsvsAlignmentWire\<close>): the rows of one bin
    on shares; the sort opens to the sorted rows, and the pass over neighbours to the pass in the clear.
  \<^item> \<open>Inclusion\<close>, \<open>Inclusion_Wire\<close> (\<open>MpsvsInclusion\<close>, \<open>MpsvsInclusionWire\<close>): the masks and metrics of an
    entity in the clear and on shares, equal after opening.
  \<^item> \<open>Ratio_Bucket\<close>, \<open>Rank\<close>, \<open>Percentiles\<close> (\<open>MpsvsRatioBucket\<close>, \<open>MpsvsRank\<close>, \<open>MpsvsPercentiles\<close>):
    the binary search equals a scan, the reciprocal is within a proved error, ranks are ranks,
    percentiles are order statistics of the ranked buckets.
  \<^item> \<open>Bit_Adder\<close>, \<open>Ratio_Bucket_Wire\<close>, \<open>Goldschmidt_Wire\<close>, \<open>Reciprocal_Verify\<close>, \<open>Rank_Wire\<close>,
    \<open>Percentiles_Wire\<close> (\<open>MpsvsRatioBucketWire\<close>, \<open>MpsvsGoldschmidtWire\<close>, \<open>MpsvsReciprocalVerify\<close>,
    \<open>MpsvsRankWire\<close>, \<open>MpsvsPercentilesWire\<close>): the same steps on shares, over one lemma on ripple-carry
    adders; each opens to its plaintext step within its budget, with the exceptions stated.
  \<^item> \<open>Benes\<close>, \<open>Benes_Colour\<close>, \<open>Benes_Route\<close>, \<open>Benes_Masked\<close>, \<open>Osn\<close>, \<open>Osn_Session\<close> (\<open>osn/benes\<close>, \<open>osn/OSNSender\<close>,
    \<open>osn/OSNReceiver\<close>): the search that colours the wires ends with a proper colouring, routing yields a
    network that permutes as asked, masked evaluation is evaluation up to known masks, and a run of both
    parties leaves shares of the permuted input.
  \<^item> \<open>Ristretto\<close>, \<open>Pedersen\<close>, \<open>Bit_Proof\<close> (\<open>MpRistretto\<close>, \<open>MpPedersen\<close>, \<open>MpsvsBitProof\<close>): group wrappers,
    commitments, and the proof that a commitment holds a bit: completeness and extraction.
  \<^item> \<open>Shuffle_Integrity\<close>, \<open>Root_Count\<close>, \<open>Shuffle_Nizk\<close> (\<open>MpsaShuffleIntegrity\<close>, \<open>MpPedersenVector\<close>,
    \<open>MpShuffleNizk\<close>, \<open>MpShuffleNizkBg\<close>): what the checks of a shuffle bind the sender to; a bound on the
    challenges that accept a wrong multiset; and a forgery of the audit variant.
  \<^item> \<open>Oprf\<close>, \<open>Topology\<close> (\<open>MpsvsOprf\<close>, \<open>MpsvsTopology\<close>): key generation and evaluation by two servers,
    what their proofs exclude, row tags; the session as a step relation, with an invariant of all reachable
    sessions. \<open>Transcript_Log\<close> (\<open>MpTranscript\<close>): below \<open>2 ^ 32\<close> bytes the signed digest determines the
    recorded events, up to a hash collision.
  \<^item> \<open>Sector_Agg\<close>, \<open>Sector_Agg_Wire\<close>, \<open>KAnon_Gate\<close> (\<open>MpsvsSectorAgg\<close>, \<open>MpsvsSectorAggWire\<close>,
    \<open>MpsvsKAnonGate\<close>): group totals in the clear and on shares, the audit always passes, the release
    through the gate opens to the plaintext totals or to zeros. \<open>Cover_Firms\<close> (\<open>MpsvsCoverFirms\<close>): a covered
    count opens to the count plus a number between the public bounds.

  \<^bold>\<open>Bounds and fuel.\<close> No definition uses fuel: loops of the code are structural recursion, \<open>foldE\<close>
  over an index range, \<open>function\<close> with a measure, or, for the loops that may diverge (rounding to a
  power of two; rejection sampling; the colouring search), \<open>partial_function (option)\<close>, whose
  termination is a property. Size bounds in the hypotheses (such as \<open>2 ^ 63\<close> elements of a sort, \<open>2 ^ 32\<close>
  blocks of a joined row, \<open>2 ^ 32\<close> ranked rows, \<open>2 ^ 30\<close> wires) are those beyond which the code's own
  index arithmetic wraps, overflows or never ends.

  \<^bold>\<open>Not modelled.\<close> Sockets and message framing; handshakes, key encapsulation and key storage, which
  are calls of cryptographic libraries; floating-point code (edge generators, noise, midpoints,
  composite weights, budgets); files, text formats, configuration and command lines; the vendored
  protocols under \<open>upstream/\<close>; the drivers that only connect modelled steps to sockets. The manifest
  names every such part with its reason.
\<close>

end
